(* ===== verification/Nachos_Prelude.thy ===== *)
theory Nachos_Prelude
  imports Main
begin

text \<open>
  Shared vocabulary of the development: the ways a piece of Nachos code can fail to return
  (\<open>fault\<close>), sequencing of fallible steps (\<open>bindE\<close>), C-style array access with its bounds
  made explicit, first-match loops over an index range, and the lemma collections that the
  component theories use.  Nothing here is specific to one component.
\<close>

named_theorems fault_simps "unfolding rules for fallible steps"
named_theorems inv_defs "definitions of the invariants of the components"

section \<open>Faults and fallible steps\<close>

text \<open>
  C++ code that dereferences a bad pointer, indexes outside an array, reads an indeterminate
  value, overruns a character buffer or fails an \<open>ASSERT\<close> does not return a value; neither does
  code that halts the machine (\<open>Halted\<close>), whose loop never ends (\<open>NoReturn\<close>) or that divides out
  of range (\<open>DivideError\<close>).  Each of
  these is a constructor of \<open>fault\<close>, so that the model has a branch for it.
\<close>

datatype fault =
    OutOfBounds
  | NullPointer
  | UseAfterFree
  | BufferOverflow
  | Uninitialised
  | AssertFailed
  | Halted
  | NoReturn
  | DivideError

definition bindE :: "fault + 'a \<Rightarrow> ('a \<Rightarrow> fault + 'b) \<Rightarrow> fault + 'b" where
  "bindE m f = (case m of Inl e \<Rightarrow> Inl e | Inr x \<Rightarrow> f x)"

lemma bindE_Inl [simp, fault_simps]: "bindE (Inl e) f = Inl e"
  by (simp add: bindE_def)

lemma bindE_Inr [simp, fault_simps]: "bindE (Inr x) f = f x"
  by (simp add: bindE_def)

lemma bindE_eq_Inr: "bindE m f = Inr y \<longleftrightarrow> (\<exists>x. m = Inr x \<and> f x = Inr y)"
  by (cases m) auto

lemma bindE_eq_Inl: "bindE m f = Inl e \<longleftrightarrow> m = Inl e \<or> (\<exists>x. m = Inr x \<and> f x = Inl e)"
  by (cases m) auto

lemma bindE_InrE [elim]:
  assumes "bindE m f = Inr y"
  obtains x where "m = Inr x" and "f x = Inr y"
  using assms by (auto simp: bindE_eq_Inr)

definition assertE :: "bool \<Rightarrow> fault + unit" where
  "assertE b = (if b then Inr () else Inl AssertFailed)"

lemma assertE_simps [simp, fault_simps]:
  "assertE True = Inr ()" "assertE False = Inl AssertFailed"
  by (simp_all add: assertE_def)

lemma assertE_eq_Inr [simp]: "assertE b = Inr u \<longleftrightarrow> b"
  by (simp add: assertE_def)

definition derefE :: "'a option \<Rightarrow> fault + 'a" where
  "derefE p = (case p of None \<Rightarrow> Inl NullPointer | Some x \<Rightarrow> Inr x)"

lemma derefE_simps [simp, fault_simps]:
  "derefE None = Inl NullPointer" "derefE (Some x) = Inr x"
  by (simp_all add: derefE_def)

lemma derefE_eq_Inr [simp]: "derefE p = Inr x \<longleftrightarrow> p = Some x"
  by (cases p) auto

section \<open>Arrays of fixed size\<close>

text \<open>
  A global C array of \<open>n\<close> entries is a HOL list of length \<open>n\<close>; an access at a C \<open>int\<close>
  index outside \<open>0 .. n - 1\<close> is undefined behaviour in the source and \<open>OutOfBounds\<close> here.
\<close>

definition in_range :: "int \<Rightarrow> 'a list \<Rightarrow> bool" where
  "in_range i xs \<longleftrightarrow> 0 \<le> i \<and> i < int (length xs)"

definition arr_get :: "'a list \<Rightarrow> int \<Rightarrow> fault + 'a" where
  "arr_get xs i = (if in_range i xs then Inr (xs ! nat i) else Inl OutOfBounds)"

definition arr_set :: "'a list \<Rightarrow> int \<Rightarrow> 'a \<Rightarrow> fault + 'a list" where
  "arr_set xs i v = (if in_range i xs then Inr (xs[nat i := v]) else Inl OutOfBounds)"

lemma in_range_update [simp]: "in_range i (xs[n := v]) = in_range i xs"
  by (simp add: in_range_def)

lemma in_range_nat: "in_range i xs \<Longrightarrow> nat i < length xs"
  by (auto simp: in_range_def)

lemma arr_get_Inr: "arr_get xs i = Inr v \<longleftrightarrow> in_range i xs \<and> v = xs ! nat i"
  by (auto simp: arr_get_def)

lemma arr_get_Inl: "arr_get xs i = Inl e \<longleftrightarrow> \<not> in_range i xs \<and> e = OutOfBounds"
  by (auto simp: arr_get_def)

lemma arr_set_Inr: "arr_set xs i v = Inr ys \<longleftrightarrow> in_range i xs \<and> ys = xs[nat i := v]"
  by (auto simp: arr_set_def)

lemma arr_set_length: "arr_set xs i v = Inr ys \<Longrightarrow> length ys = length xs"
  by (auto simp: arr_set_Inr)

lemma arr_get_set_same: "arr_set xs i v = Inr ys \<Longrightarrow> arr_get ys i = Inr v"
  by (auto simp: arr_set_Inr arr_get_def in_range_def)

lemma arr_get_set_other:
  "arr_set xs i v = Inr ys \<Longrightarrow> j \<noteq> i \<Longrightarrow> arr_get ys j = arr_get xs j"
  by (auto simp: arr_set_Inr arr_get_def in_range_def nth_list_update)

section \<open>First-match loops\<close>

text \<open>
  \<open>for (i = 0; i < n; i++) if (p(i)) return i; return -1;\<close> occurs all over the source.
  \<open>first_from p i n\<close> is that loop with \<open>n\<close> iterations left, started at \<open>i\<close>.
\<close>

fun first_from :: "(nat \<Rightarrow> bool) \<Rightarrow> nat \<Rightarrow> nat \<Rightarrow> nat option" where
  "first_from p i 0 = None"
| "first_from p i (Suc n) = (if p i then Some i else first_from p (Suc i) n)"

lemma first_from_Some:
  "first_from p i n = Some k \<Longrightarrow> i \<le> k \<and> k < i + n \<and> p k \<and> (\<forall>j. i \<le> j \<and> j < k \<longrightarrow> \<not> p j)"
proof (induction n arbitrary: i)
  case 0
  then show ?case by simp
next
  case (Suc n)
  show ?case
  proof (cases "p i")
    case True
    with Suc.prems have "k = i" by simp
    with True show ?thesis by (simp, metis leD)
  next
    case False
    with Suc.prems Suc.IH [of "Suc i"] show ?thesis
      by (auto simp: Suc_le_eq) (metis le_neq_implies_less)
  qed
qed

lemma first_from_None:
  "first_from p i n = None \<longleftrightarrow> (\<forall>j. i \<le> j \<and> j < i + n \<longrightarrow> \<not> p j)"
proof (induction n arbitrary: i)
  case 0
  then show ?case by (simp, metis leD)
next
  case (Suc n)
  have "(\<forall>j. i \<le> j \<and> j < i + Suc n \<longrightarrow> \<not> p j) \<longleftrightarrow>
        \<not> p i \<and> (\<forall>j. Suc i \<le> j \<and> j < Suc i + n \<longrightarrow> \<not> p j)"
    by (auto simp: Suc_le_eq) (metis le_neq_implies_less)
  then show ?case using Suc.IH [of "Suc i"] by simp
qed

lemma first_from_cong:
  "(\<And>j. i \<le> j \<Longrightarrow> j < i + n \<Longrightarrow> p j = q j) \<Longrightarrow> first_from p i n = first_from q i n"
  by (induction n arbitrary: i) auto

lemma first_from_SomeI:
  assumes "i \<le> k" "k < i + n" "p k" "\<And>j. i \<le> j \<Longrightarrow> j < k \<Longrightarrow> \<not> p j"
  shows "first_from p i n = Some k"
proof (cases "first_from p i n")
  case None
  with assms(1-3) show ?thesis by (auto simp: first_from_None)
next
  case (Some k')
  note k' = first_from_Some [OF Some]
  have "k' = k"
    using k' assms by (metis linorder_neqE_nat)
  with Some show ?thesis by simp
qed

text \<open>The value the C code returns: the index, or \<open>-1\<close>.\<close>

definition index_or_m1 :: "nat option \<Rightarrow> int" where
  "index_or_m1 r = (case r of None \<Rightarrow> -1 | Some k \<Rightarrow> int k)"

lemma index_or_m1_simps [simp]:
  "index_or_m1 None = -1" "index_or_m1 (Some k) = int k"
  by (simp_all add: index_or_m1_def)

lemma index_or_m1_eq_m1 [simp]: "index_or_m1 r = -1 \<longleftrightarrow> r = None"
  by (cases r) auto

lemma index_or_m1_eq_int: "index_or_m1 r = int k \<longleftrightarrow> r = Some k"
  by (cases r) auto

section \<open>Lists\<close>

lemma nth_list_update': "i < length xs \<Longrightarrow> xs[j := v] ! i = (if i = j then v else xs ! i)"
  by (auto simp: nth_list_update)

lemma butlast_snoc_last: "xs \<noteq> [] \<Longrightarrow> ys = butlast xs \<Longrightarrow> y = last xs \<Longrightarrow> ys @ [y] = xs"
  by simp

lemma filter_none: "(\<And>x. x \<in> set xs \<Longrightarrow> \<not> P x) \<Longrightarrow> filter P xs = []"
  by (induction xs) auto

end
