(* ===== verification/Nachos_Bytes.thy ===== *)
theory Nachos_Bytes
  imports Nachos_Prelude "HOL-Library.Word"
begin

text \<open>
  Bytes, the division of C and the layout of 32-bit integers in memory (little-endian, the order of
  the simulated machine and of the host), shared by memory, files and the network.
\<close>

unbundle bit_operations_syntax

section \<open>Integers\<close>

text \<open>Division and remainder of C, which round towards zero.\<close>

definition cdiv :: "int \<Rightarrow> int \<Rightarrow> int" where
  "cdiv a b = (if 0 \<le> a then a div b else - ((- a) div b))"

definition crem :: "int \<Rightarrow> int \<Rightarrow> int" where
  "crem a b = a - cdiv a b * b"

section \<open>Bytes\<close>

type_synonym byte = "8 word"

text \<open>Storing bytes into memory at an address.\<close>

definition store_bytes :: "nat \<Rightarrow> byte list \<Rightarrow> byte list \<Rightarrow> byte list" where
  "store_bytes a bs mem = take a mem @ bs @ drop (a + length bs) mem"

lemma store_bytes_length [simp]:
  "a + length bs \<le> length mem \<Longrightarrow> length (store_bytes a bs mem) = length mem"
  by (simp add: store_bytes_def)

lemma store_bytes_nth:
  "a + length bs \<le> length mem \<Longrightarrow> i < length mem \<Longrightarrow>
   store_bytes a bs mem ! i = (if a \<le> i \<and> i < a + length bs then bs ! (i - a) else mem ! i)"
  by (auto simp: store_bytes_def nth_append min_def)

lemma store_bytes_Cons:
  assumes "off + Suc (length bs) \<le> length fb"
  shows "store_bytes (Suc off) bs (store_bytes off [b] fb) = store_bytes off (b # bs) fb"
proof -
  have "take (Suc off) (take off fb @ [b] @ drop (off + 1) fb) = take off fb @ [b]"
    using assms by simp
  moreover have "drop (Suc off + length bs) (take off fb @ [b] @ drop (off + 1) fb) = drop (off + Suc (length bs)) fb"
    using assms by (simp add: add.commute)
  ultimately show ?thesis by (simp add: store_bytes_def)
qed

section \<open>Little-endian words\<close>

definition word_of_bytes :: "byte list \<Rightarrow> 32 word" where
  "word_of_bytes bs = foldr (\<lambda>b w. ucast b OR push_bit 8 w) bs 0"

definition bytes_of_word :: "nat \<Rightarrow> 32 word \<Rightarrow> byte list" where
  "bytes_of_word n w = map (\<lambda>i. ucast (drop_bit (8 * i) w)) [0..<n]"

lemma word_of_bytes_simps:
  "word_of_bytes [] = 0" "word_of_bytes (b # bs) = ucast b OR push_bit 8 (word_of_bytes bs)"
  by (simp_all add: word_of_bytes_def)

lemma bytes_of_word_4: "bytes_of_word 4 x = [ucast x, ucast (drop_bit 8 x), ucast (drop_bit 16 x), ucast (drop_bit 24 x)]"
  by (simp add: bytes_of_word_def upt_rec numeral_eq_Suc)

lemma bytes_of_word_length [simp]: "length (bytes_of_word n x) = n"
  by (simp add: bytes_of_word_def)

lemma read_written_4: "word_of_bytes (bytes_of_word 4 x) = x"
proof (rule bit_word_eqI)
  fix n assume "n < LENGTH(32)"
  then show "bit (word_of_bytes (bytes_of_word 4 x)) n = bit x n"
  proof -
    consider "n < 8" | "8 \<le> n" "n < 16" | "16 \<le> n" "n < 24" | "24 \<le> n" by linarith
    then show ?thesis
      using \<open>n < LENGTH(32)\<close> by cases (simp_all add: bytes_of_word_4 word_of_bytes_simps bit_simps less_diff_conv2)
  qed
qed

lemma bytes_of_word_1: "bytes_of_word (Suc 0) x = [ucast x]"
  by (simp add: bytes_of_word_def)

lemma bytes_of_word_2: "bytes_of_word 2 x = [ucast x, ucast (drop_bit 8 x)]"
  by (simp add: bytes_of_word_def upt_rec numeral_eq_Suc)

lemma read_written_2: "word_of_bytes (bytes_of_word 2 x) = take_bit 16 x"
proof (rule bit_word_eqI)
  fix n assume "n < LENGTH(32)"
  then show "bit (word_of_bytes (bytes_of_word 2 x)) n = bit (take_bit 16 x) n"
  proof -
    consider "n < 8" | "8 \<le> n" "n < 16" | "16 \<le> n" by linarith
    then show ?thesis
      using \<open>n < LENGTH(32)\<close>
      by cases (simp_all add: bytes_of_word_2 word_of_bytes_simps bit_simps less_diff_conv2)
  qed
qed

end
