(* ===== verification/Nachos_List.thy ===== *)
theory Nachos_List
  imports Nachos_Prelude
begin

text \<open>
  The singly linked list of \<open>threads/list.cc\<close> and \<open>threads/list.h\<close>, at the level of its
  pointers: list cells live in a heap, a \<open>List\<close> is the pair of its \<open>first\<close> and \<open>last\<close>
  pointers, and each operation reads and writes cells as the C++ does.  The abstraction
  \<open>list_rep\<close> relates such a structure to the sequence of its (key, item) pairs, and each
  operation is proved to refine the obvious operation on sequences.  The locale \<open>fifo\<close> states
  what the kernel's other components use lists for, and is interpreted both on plain sequences
  (which the other theories compute with) and on the pointer structure.
\<close>

section \<open>Cells, heap and list header\<close>

record 'a ListElement =
  next_el :: "nat option"
  key_el :: int
  item_el :: 'a

record 'a heap =
  brk :: nat
  cells :: "nat \<Rightarrow> 'a ListElement option"

record NList =
  first_p :: "nat option"
  last_p :: "nat option"

definition List_new :: NList where
  "List_new = \<lparr>first_p = None, last_p = None\<rparr>"

definition new_ListElement :: "'a \<Rightarrow> int \<Rightarrow> 'a heap \<Rightarrow> nat \<times> 'a heap" where
  "new_ListElement itemPtr sortKey h =
     (brk h, h\<lparr>brk := Suc (brk h),
               cells := (cells h)(brk h \<mapsto>
                 \<lparr>next_el = None, key_el = sortKey, item_el = itemPtr\<rparr>)\<rparr>)"

definition cell :: "'a heap \<Rightarrow> nat option \<Rightarrow> fault + 'a ListElement" where
  "cell h p = (case p of None \<Rightarrow> Inl NullPointer
     | Some a \<Rightarrow> (case cells h a of None \<Rightarrow> Inl UseAfterFree | Some e \<Rightarrow> Inr e))"

definition set_next :: "'a heap \<Rightarrow> nat option \<Rightarrow> nat option \<Rightarrow> fault + 'a heap" where
  "set_next h p q = (case p of None \<Rightarrow> Inl NullPointer
     | Some a \<Rightarrow> (case cells h a of None \<Rightarrow> Inl UseAfterFree
         | Some e \<Rightarrow> Inr (h\<lparr>cells := (cells h)(a \<mapsto> e\<lparr>next_el := q\<rparr>)\<rparr>)))"

section \<open>The operations of list.cc\<close>

definition List_IsEmpty :: "NList \<Rightarrow> bool" where
  "List_IsEmpty l = (if first_p l = None then True else False)"

definition List_Append :: "'a \<Rightarrow> 'a heap \<times> NList \<Rightarrow> fault + 'a heap \<times> NList" where
  "List_Append it hl =
     (let (h, l) = hl; (element, h1) = new_ListElement it 0 h in
      if List_IsEmpty l then Inr (h1, \<lparr>first_p = Some element, last_p = Some element\<rparr>)
      else bindE (set_next h1 (last_p l) (Some element))
             (\<lambda>h2. Inr (h2, l\<lparr>last_p := Some element\<rparr>)))"

definition List_Prepend :: "'a \<Rightarrow> 'a heap \<times> NList \<Rightarrow> fault + 'a heap \<times> NList" where
  "List_Prepend it hl =
     (let (h, l) = hl; (element, h1) = new_ListElement it 0 h in
      if List_IsEmpty l then Inr (h1, \<lparr>first_p = Some element, last_p = Some element\<rparr>)
      else bindE (set_next h1 (Some element) (first_p l))
             (\<lambda>h2. Inr (h2, l\<lparr>first_p := Some element\<rparr>)))"

text \<open>
  The scan of \<open>SortedInsert\<close>: from \<open>ptr\<close>, the first cell whose successor has a bigger key
  (\<open>Some ptr\<close>), or \<open>None\<close> at the end of the list.  A scan of a cyclic structure would not
  return, hence \<open>option\<close>.
\<close>

partial_function (option) sorted_scan ::
  "'a heap \<Rightarrow> int \<Rightarrow> nat option \<Rightarrow> (fault + nat option) option" where
  "sorted_scan h sortKey ptr =
     (case cell h ptr of Inl e \<Rightarrow> Some (Inl e)
      | Inr el \<Rightarrow>
          (case next_el el of None \<Rightarrow> Some (Inr None)
           | Some n \<Rightarrow>
               (case cell h (Some n) of Inl e \<Rightarrow> Some (Inl e)
                | Inr en \<Rightarrow>
                    if sortKey < key_el en then Some (Inr ptr)
                    else sorted_scan h sortKey (Some n))))"

definition List_SortedInsert ::
  "'a \<Rightarrow> int \<Rightarrow> 'a heap \<times> NList \<Rightarrow> (fault + 'a heap \<times> NList) option" where
  "List_SortedInsert it sortKey hl =
     (let (h, l) = hl; (element, h1) = new_ListElement it sortKey h in
      if List_IsEmpty l then
        Some (Inr (h1, \<lparr>first_p = Some element, last_p = Some element\<rparr>))
      else (case cell h1 (first_p l) of Inl e \<Rightarrow> Some (Inl e)
        | Inr f \<Rightarrow>
            if sortKey < key_el f then
              Some (bindE (set_next h1 (Some element) (first_p l))
                      (\<lambda>h2. Inr (h2, l\<lparr>first_p := Some element\<rparr>)))
            else (case sorted_scan h1 sortKey (first_p l) of None \<Rightarrow> None
              | Some (Inl e) \<Rightarrow> Some (Inl e)
              | Some (Inr (Some ptr)) \<Rightarrow>
                  Some (bindE (cell h1 (Some ptr)) (\<lambda>pe.
                        bindE (set_next h1 (Some element) (next_el pe)) (\<lambda>h2.
                        bindE (set_next h2 (Some ptr) (Some element)) (\<lambda>h3.
                        Inr (h3, l)))))
              | Some (Inr None) \<Rightarrow>
                  Some (bindE (set_next h1 (last_p l) (Some element))
                          (\<lambda>h2. Inr (h2, l\<lparr>last_p := Some element\<rparr>))))))"

text \<open>
  \<open>SortedRemove\<close> returns NULL on an empty list, else the item and its key; the cell is deleted.
\<close>

definition List_SortedRemove ::
  "'a heap \<times> NList \<Rightarrow> fault + (int \<times> 'a) option \<times> 'a heap \<times> NList" where
  "List_SortedRemove hl =
     (let (h, l) = hl in
      if List_IsEmpty l then Inr (None, h, l)
      else bindE (cell h (first_p l)) (\<lambda>element.
        let l' = (if first_p l = last_p l then \<lparr>first_p = None, last_p = None\<rparr>
                  else l\<lparr>first_p := next_el element\<rparr>)
        in Inr (Some (key_el element, item_el element),
                h\<lparr>cells := (cells h)(the (first_p l) := None)\<rparr>, l')))"

definition List_Remove :: "'a heap \<times> NList \<Rightarrow> fault + 'a option \<times> 'a heap \<times> NList" where
  "List_Remove hl =
     bindE (List_SortedRemove hl) (\<lambda>(r, h, l). Inr (map_option snd r, h, l))"

text \<open>\<open>Mapcar\<close> from a pointer on; the applied function may change a client state.\<close>

partial_function (option) mapcar_from ::
  "('s \<Rightarrow> 'a \<Rightarrow> 's) \<Rightarrow> 'a heap \<Rightarrow> nat option \<Rightarrow> 's \<Rightarrow> (fault + 's) option" where
  "mapcar_from func h ptr s =
     (case ptr of None \<Rightarrow> Some (Inr s)
      | Some a \<Rightarrow> (case cell h (Some a) of Inl e \<Rightarrow> Some (Inl e)
          | Inr el \<Rightarrow> mapcar_from func h (next_el el) (func s (item_el el))))"

definition List_Mapcar ::
  "('s \<Rightarrow> 'a \<Rightarrow> 's) \<Rightarrow> 'a heap \<times> NList \<Rightarrow> 's \<Rightarrow> (fault + 's) option" where
  "List_Mapcar func hl s = mapcar_from func (fst hl) (first_p (snd hl)) s"

section \<open>Chains of cells\<close>

fun seg :: "'a heap \<Rightarrow> nat option \<Rightarrow> nat list \<Rightarrow> nat option \<Rightarrow> bool" where
  "seg h p [] q \<longleftrightarrow> p = q"
| "seg h p (a # as) q \<longleftrightarrow>
     p = Some a \<and> (\<exists>e. cells h a = Some e \<and> seg h (next_el e) as q)"

definition vals :: "'a heap \<Rightarrow> nat list \<Rightarrow> (int \<times> 'a) list" where
  "vals h as = map (\<lambda>a. (key_el (the (cells h a)), item_el (the (cells h a)))) as"

definition list_rep :: "'a heap \<Rightarrow> NList \<Rightarrow> nat list \<Rightarrow> (int \<times> 'a) list \<Rightarrow> bool" where
  "list_rep h l as xs \<longleftrightarrow>
     seg h (first_p l) as None \<and> distinct as \<and> (\<forall>a\<in>set as. a < brk h) \<and>
     last_p l = (if as = [] then None else Some (last as)) \<and> xs = vals h as"

lemma seg_append: "seg h p (as @ bs) q \<longleftrightarrow> (\<exists>r. seg h p as r \<and> seg h r bs q)"
  by (induction as arbitrary: p) auto

lemma seg_frame:
  "(\<And>a. a \<in> set as \<Longrightarrow> cells h' a = cells h a) \<Longrightarrow> seg h' p as q = seg h p as q"
  by (induction as arbitrary: p) auto

lemma vals_frame:
  "(\<And>a. a \<in> set as \<Longrightarrow> cells h' a = cells h a) \<Longrightarrow> vals h' as = vals h as"
  by (simp add: vals_def)

lemma vals_simps [simp]:
  "vals h [] = []"
  "vals h (a # as) = (key_el (the (cells h a)), item_el (the (cells h a))) # vals h as"
  "vals h (as @ bs) = vals h as @ vals h bs"
  by (simp_all add: vals_def)

lemma vals_eq_Nil [simp]: "vals h as = [] \<longleftrightarrow> as = []"
  by (simp add: vals_def)

lemma length_vals [simp]: "length (vals h as) = length as"
  by (simp add: vals_def)

lemma seg_snoc_next:
  "seg h p (as @ [z]) q \<Longrightarrow> \<exists>e. cells h z = Some e \<and> next_el e = q"
  by (auto simp: seg_append)

text \<open>
  The pointer surgery all insertions share: a new cell \<open>n\<close>, linked to the rest \<open>cs\<close>, is put
  behind the cell \<open>z\<close>.
\<close>

lemma seg_splice:
  assumes s: "seg h p (bs @ z # cs) None" and d: "distinct (bs @ z # cs)"
    and n: "n \<notin> set (bs @ z # cs)"
    and ze: "cells h z = Some ze"
    and h': "\<And>a. cells h' a = (if a = z then Some (ze\<lparr>next_el := Some n\<rparr>)
                 else if a = n then Some \<lparr>next_el = next_el ze, key_el = k, item_el = x\<rparr>
                 else cells h a)"
  shows "seg h' p (bs @ z # n # cs) None"
    and "vals h' (bs @ z # n # cs) = vals h (bs @ [z]) @ (k, x) # vals h cs"
proof -
  have fb: "\<And>a. a \<in> set bs \<Longrightarrow> cells h' a = cells h a"
    and fc: "\<And>a. a \<in> set cs \<Longrightarrow> cells h' a = cells h a"
    using d n h' by auto
  have segb: "\<And>p r. seg h' p bs r = seg h p bs r" and segc: "\<And>p. seg h' p cs None = seg h p cs None"
    using seg_frame [OF fb] seg_frame [OF fc] by blast+
  have zn: "z \<noteq> n" using n by auto
  have "seg h p bs (Some z)" "seg h (next_el ze) cs None"
    using s ze by (auto simp: seg_append)
  then show "seg h' p (bs @ z # n # cs) None"
    using zn by (auto simp: seg_append segb segc h')
  show "vals h' (bs @ z # n # cs) = vals h (bs @ [z]) @ (k, x) # vals h cs"
    using zn ze vals_frame [OF fb] vals_frame [OF fc] by (simp add: h')
qed


section \<open>Each operation refines the operation on sequences\<close>

definition same_elsewhere :: "'a heap \<Rightarrow> 'a heap \<Rightarrow> nat list \<Rightarrow> bool" where
  "same_elsewhere h h' as \<longleftrightarrow> (\<forall>b. b \<notin> set as \<and> b \<noteq> brk h \<longrightarrow> cells h' b = cells h b)"

lemma list_rep_IsEmpty: "list_rep h l as xs \<Longrightarrow> List_IsEmpty l \<longleftrightarrow> xs = []"
  by (cases as) (auto simp: list_rep_def List_IsEmpty_def)

lemma list_rep_fresh: "list_rep h l as xs \<Longrightarrow> brk h \<notin> set as"
  by (auto simp: list_rep_def)

lemma list_rep_frame:
  assumes "list_rep h l as xs" "\<And>a. a \<in> set as \<Longrightarrow> cells h' a = cells h a" "brk h \<le> brk h'"
  shows "list_rep h' l as xs"
  using assms seg_frame [of as h' h] vals_frame [of as h' h]
  by (fastforce simp: list_rep_def)

lemma list_rep_single:
  "list_rep (snd (new_ListElement it k h)) \<lparr>first_p = Some (brk h), last_p = Some (brk h)\<rparr>
     [brk h] [(k, it)]"
  by (simp add: list_rep_def new_ListElement_def)

lemma Append_refines:
  assumes r: "list_rep h l as xs"
  shows "\<exists>h' l'. List_Append it (h, l) = Inr (h', l') \<and> brk h' = Suc (brk h) \<and>
           list_rep h' l' (as @ [brk h]) (xs @ [(0, it)]) \<and> same_elsewhere h h' as"
proof (cases "as = []")
  case True
  with r show ?thesis
    using list_rep_single [of it 0 h]
    by (auto simp: list_rep_def List_Append_def List_IsEmpty_def new_ListElement_def
        same_elsewhere_def)
next
  case False
  then obtain bs z where as: "as = bs @ [z]" by (cases as rule: rev_cases) auto
  note f = list_rep_fresh [OF r]
  from r have s: "seg h (first_p l) (bs @ z # []) None" and d: "distinct (bs @ z # [])"
    and la: "last_p l = Some z" and xs: "xs = vals h (bs @ [z])" and lt: "\<forall>a\<in>set as. a < brk h"
    by (auto simp: list_rep_def as)
  obtain ze where ze: "cells h z = Some ze" "next_el ze = None"
    using seg_snoc_next [OF s [simplified]] by blast
  define h' where "h' = h\<lparr>brk := Suc (brk h), cells := (cells h)
      (brk h \<mapsto> \<lparr>next_el = None, key_el = 0, item_el = it\<rparr>,
       z \<mapsto> ze\<lparr>next_el := Some (brk h)\<rparr>)\<rparr>"
  have zn: "z \<noteq> brk h" using f as by auto
  have "\<And>a. cells h' a = (if a = z then Some (ze\<lparr>next_el := Some (brk h)\<rparr>)
      else if a = brk h then Some \<lparr>next_el = next_el ze, key_el = 0, item_el = it\<rparr>
      else cells h a)"
    by (simp add: h'_def ze)
  note sp = seg_splice [OF s d _ ze(1) this]
  have nin: "brk h \<notin> set (bs @ z # [])" using f as by simp
  have ne: "\<not> List_IsEmpty l"
    using r as by (simp add: list_rep_IsEmpty [OF r]) (auto simp: list_rep_def)
  have "List_Append it (h, l) = Inr (h', l\<lparr>last_p := Some (brk h)\<rparr>)"
    using ne zn ze by (simp add: List_Append_def new_ListElement_def la set_next_def h'_def)
  moreover have "list_rep h' (l\<lparr>last_p := Some (brk h)\<rparr>) (as @ [brk h]) (xs @ [(0, it)])"
    using sp [OF nin] lt d nin by (auto simp: list_rep_def as xs h'_def)
  ultimately show ?thesis by (auto simp: same_elsewhere_def h'_def as)
qed

lemma Prepend_refines:
  assumes r: "list_rep h l as xs"
  shows "\<exists>h' l'. List_Prepend it (h, l) = Inr (h', l') \<and> brk h' = Suc (brk h) \<and>
           list_rep h' l' (brk h # as) ((0, it) # xs) \<and> same_elsewhere h h' as"
proof (cases "as = []")
  case True
  with r show ?thesis
    using list_rep_single [of it 0 h]
    by (auto simp: list_rep_def List_Prepend_def List_IsEmpty_def new_ListElement_def
        same_elsewhere_def)
next
  case False
  note f = list_rep_fresh [OF r]
  have ne: "\<not> List_IsEmpty l"
    using r False by (simp add: list_rep_IsEmpty [OF r]) (auto simp: list_rep_def)
  define h' where "h' = h\<lparr>brk := Suc (brk h), cells := (cells h)
      (brk h \<mapsto> \<lparr>next_el = first_p l, key_el = 0, item_el = it\<rparr>)\<rparr>"
  have fr: "\<And>a. a \<in> set as \<Longrightarrow> cells h' a = cells h a" using f by (auto simp: h'_def)
  have "List_Prepend it (h, l) = Inr (h', l\<lparr>first_p := Some (brk h)\<rparr>)"
    using ne by (simp add: List_Prepend_def new_ListElement_def set_next_def h'_def)
  moreover have "seg h' (first_p l) as None" "vals h' as = xs"
    using r seg_frame [OF fr] vals_frame [OF fr] by (auto simp: list_rep_def)
  then have "list_rep h' (l\<lparr>first_p := Some (brk h)\<rparr>) (brk h # as) ((0, it) # xs)"
    using r f False by (auto simp: list_rep_def h'_def)
  ultimately show ?thesis by (auto simp: same_elsewhere_def h'_def)
qed

lemma SortedRemove_refines_Nil:
  "list_rep h l as [] \<Longrightarrow> List_SortedRemove (h, l) = Inr (None, h, l)"
  by (simp add: List_SortedRemove_def list_rep_IsEmpty)

lemma SortedRemove_refines_Cons:
  assumes r: "list_rep h l as (x # xs)"
  shows "\<exists>h' l'. List_SortedRemove (h, l) = Inr (Some x, h', l') \<and> brk h' = brk h \<and>
           list_rep h' l' (tl as) xs \<and> cells h' (hd as) = None \<and> same_elsewhere h h' as"
proof -
  from r obtain a bs where as: "as = a # bs" by (cases as) (auto simp: list_rep_def)
  from r obtain e where e: "cells h a = Some e" "seg h (next_el e) bs None"
    and fp: "first_p l = Some a" and x: "x = (key_el e, item_el e)" and xs: "xs = vals h bs"
    by (auto simp: list_rep_def as)
  define h' where "h' = h\<lparr>cells := (cells h)(a := None)\<rparr>"
  have fr: "\<And>b. b \<in> set bs \<Longrightarrow> cells h' b = cells h b" using r by (auto simp: h'_def list_rep_def as)
  have s': "seg h' (next_el e) bs None" "vals h' bs = vals h bs"
    using e seg_frame [OF fr] vals_frame [OF fr] by auto
  have ne: "\<not> List_IsEmpty l" using r by (simp add: list_rep_IsEmpty)
  have la: "last_p l = Some (last (a # bs))" using r by (simp add: list_rep_def as)
  have single: "first_p l = last_p l \<longleftrightarrow> bs = []"
    using r la fp by (cases bs rule: rev_cases) (auto simp: list_rep_def as)
  show ?thesis
  proof (cases "bs = []")
    case True
    have "List_SortedRemove (h, l) = Inr (Some x, h', \<lparr>first_p = None, last_p = None\<rparr>)"
      using ne single True e fp x la by (simp add: List_SortedRemove_def cell_def h'_def Let_def)
    moreover have "list_rep h' \<lparr>first_p = None, last_p = None\<rparr> [] xs"
      using True xs by (simp add: list_rep_def)
    ultimately show ?thesis using as True by (auto simp: h'_def same_elsewhere_def)
  next
    case False
    have "List_SortedRemove (h, l) = Inr (Some x, h', l\<lparr>first_p := next_el e\<rparr>)"
      using ne single False e fp x by (simp add: List_SortedRemove_def cell_def h'_def Let_def)
    moreover have "list_rep h' (l\<lparr>first_p := next_el e\<rparr>) bs xs"
      using r s' False la xs by (auto simp: list_rep_def as h'_def)
    ultimately show ?thesis using as by (auto simp: h'_def same_elsewhere_def)
  qed
qed


section \<open>Sorted insertion\<close>

text \<open>The sequence operation that \<open>SortedInsert\<close> implements: insertion before the first bigger key.\<close>

fun sins :: "int \<Rightarrow> 'a \<Rightarrow> (int \<times> 'a) list \<Rightarrow> (int \<times> 'a) list" where
  "sins k x [] = [(k, x)]"
| "sins k x (y # ys) = (if k < fst y then (k, x) # y # ys else y # sins k x ys)"

lemma sins_append:
  "\<forall>y\<in>set ys. \<not> k < fst y \<Longrightarrow> sins k x (ys @ zs) = ys @ sins k x zs"
  by (induction ys) auto

lemma sins_front: "zs = [] \<or> k < fst (hd zs) \<Longrightarrow> sins k x zs = (k, x) # zs"
  by (cases zs) auto

lemma set_sins [simp]: "set (sins k x xs) = insert (k, x) (set xs)"
  by (induction xs) auto

lemma length_sins [simp]: "length (sins k x xs) = Suc (length xs)"
  by (induction xs) auto

lemma sorted_sins: "sorted (map fst xs) \<Longrightarrow> sorted (map fst (sins k x xs))"
  by (induction xs) auto

lemma sins_stable:
  "sorted (map fst xs) \<Longrightarrow>
   filter (\<lambda>y. fst y = j) (sins k x xs) =
     filter (\<lambda>y. fst y = j) xs @ (if j = k then [(k, x)] else [])"
proof (induction xs)
  case Nil
  then show ?case by simp
next
  case (Cons y ys)
  show ?case
  proof (cases "k < fst y")
    case True
    with Cons.prems have "\<And>z. z \<in> set (y # ys) \<Longrightarrow> fst z \<noteq> k" by force
    then have "filter (\<lambda>z. fst z = k) (y # ys) = []" by (intro filter_none) auto
    with True show ?thesis by auto
  next
    case False
    with Cons show ?thesis by auto
  qed
qed

lemma sorted_scan_result:
  assumes "seg h (Some z) (z # cs) None"
  shows "sorted_scan h k (Some z) = Some (Inr
    (let ts = takeWhile (\<lambda>a. \<not> k < key_el (the (cells h a))) cs
     in if ts = cs then None else Some (last (z # ts))))"
  using assms
proof (induction cs arbitrary: z)
  case Nil
  then show ?case by (subst sorted_scan.simps) (auto simp: cell_def)
next
  case (Cons c cs)
  from Cons.prems obtain ze ce where ze: "cells h z = Some ze" "next_el ze = Some c"
    and ce: "cells h c = Some ce" and rest: "seg h (Some c) (c # cs) None" by auto
  show ?case
  proof (cases "k < key_el ce")
    case True
    with ze ce show ?thesis by (subst sorted_scan.simps) (auto simp: cell_def)
  next
    case False
    with ze ce have "sorted_scan h k (Some z) = sorted_scan h k (Some c)"
      by (subst sorted_scan.simps) (auto simp: cell_def)
    with Cons.IH [OF rest] False ce show ?thesis by (auto simp: Let_def)
  qed
qed

lemma SortedInsert_empty:
  "list_rep h l [] [] \<Longrightarrow> \<exists>h' l'. List_SortedInsert it k (h, l) = Some (Inr (h', l')) \<and>
     brk h' = Suc (brk h) \<and> list_rep h' l' [brk h] [(k, it)] \<and> same_elsewhere h h' []"
  using list_rep_single [of it k h]
  by (auto simp: List_SortedInsert_def List_IsEmpty_def list_rep_def new_ListElement_def
      same_elsewhere_def)

lemma SortedInsert_front:
  assumes r: "list_rep h l as (x # xs)" and k: "k < fst x"
  shows "\<exists>h' l'. List_SortedInsert it k (h, l) = Some (Inr (h', l')) \<and> brk h' = Suc (brk h) \<and>
           list_rep h' l' (brk h # as) ((k, it) # x # xs) \<and> same_elsewhere h h' as"
proof -
  note f = list_rep_fresh [OF r]
  from r obtain a bs where as: "as = a # bs" by (cases as) (auto simp: list_rep_def)
  from r obtain e where e: "cells h a = Some e" and fp: "first_p l = Some a"
    and x: "x = (key_el e, item_el e)" by (auto simp: list_rep_def as)
  have an: "a \<noteq> brk h" using f as by auto
  have ne: "\<not> List_IsEmpty l" using r by (simp add: list_rep_IsEmpty)
  define h' where "h' = h\<lparr>brk := Suc (brk h), cells := (cells h)
      (brk h \<mapsto> \<lparr>next_el = Some a, key_el = k, item_el = it\<rparr>)\<rparr>"
  have fr: "\<And>a. a \<in> set as \<Longrightarrow> cells h' a = cells h a" using f by (auto simp: h'_def)
  have "List_SortedInsert it k (h, l) = Some (Inr (h', l\<lparr>first_p := Some (brk h)\<rparr>))"
    using ne fp e an k x
    by (simp add: List_SortedInsert_def new_ListElement_def cell_def set_next_def h'_def)
  moreover have "seg h' (Some a) as None" "vals h' as = x # xs"
    using r fp seg_frame [OF fr] vals_frame [OF fr] by (auto simp: list_rep_def)
  then have "list_rep h' (l\<lparr>first_p := Some (brk h)\<rparr>) (brk h # as) ((k, it) # x # xs)"
    using r f as by (auto simp: list_rep_def h'_def)
  ultimately show ?thesis by (auto simp: same_elsewhere_def h'_def)
qed

lemma SortedInsert_behind:
  assumes r: "list_rep h l (z # cs) (x # xs)" and k: "\<not> k < fst x"
  shows "\<exists>h' l' as'. List_SortedInsert it k (h, l) = Some (Inr (h', l')) \<and> brk h' = Suc (brk h) \<and>
           list_rep h' l' as' (sins k it (x # xs)) \<and> set as' = insert (brk h) (set (z # cs)) \<and>
           same_elsewhere h h' (z # cs)"
proof -
  let ?n = "brk h"
  define ts where "ts = takeWhile (\<lambda>a. \<not> k < key_el (the (cells h a))) cs"
  define us where "us = dropWhile (\<lambda>a. \<not> k < key_el (the (cells h a))) cs"
  have cs: "cs = ts @ us" by (simp add: ts_def us_def)
  obtain bs w where w: "z # ts = bs @ [w]" by (cases "z # ts" rule: rev_cases) auto
  have as: "z # cs = bs @ w # us" using w cs by simp
  note f = list_rep_fresh [OF r]
  have s: "seg h (first_p l) (bs @ w # us) None" and d: "distinct (bs @ w # us)"
    and nin: "?n \<notin> set (bs @ w # us)" and lt: "\<forall>a\<in>set (bs @ w # us). a < ?n"
    and la: "last_p l = Some (last (bs @ w # us))" and xs: "x # xs = vals h (z # cs)"
    using r f unfolding as [symmetric] by (auto simp: list_rep_def)
  have fp: "first_p l = Some z" using r by (simp add: list_rep_def)
  obtain e where e: "cells h z = Some e" "x = (key_el e, item_el e)"
    using r by (auto simp: list_rep_def)
  obtain ze where ze: "cells h w = Some ze" using s by (auto simp: seg_append)
  have segz: "seg h (Some z) (z # cs) None" using r by (simp add: list_rep_def)
  let ?h1 = "h\<lparr>brk := Suc ?n, cells := (cells h)(?n \<mapsto> \<lparr>next_el = None, key_el = k, item_el = it\<rparr>)\<rparr>"
  have fr: "\<And>a. a \<in> set (z # cs) \<Longrightarrow> cells ?h1 a = cells h a" using f by auto
  have seg1: "seg ?h1 (Some z) (z # cs) None" using segz seg_frame [OF fr] by blast
  have keys: "takeWhile (\<lambda>a. \<not> k < key_el (the (cells ?h1 a))) cs = ts"
    unfolding ts_def by (intro takeWhile_cong) (use fr in auto)
  have scan: "sorted_scan ?h1 k (Some z) = Some (Inr (if us = [] then None else Some w))"
  proof -
    have "sorted_scan ?h1 k (Some z) = Some (Inr (if ts = cs then None else Some (last (z # ts))))"
      using sorted_scan_result [OF seg1, of k] by (simp only: keys Let_def)
    moreover have "ts = cs \<longleftrightarrow> us = []" using cs by auto
    moreover have "last (z # ts) = w" using w by simp
    ultimately show ?thesis by simp
  qed
  have wn: "w \<noteq> ?n" and zn: "z \<noteq> ?n" using nin f by auto
  define h' where "h' = h\<lparr>brk := Suc ?n, cells := (cells h)
      (?n \<mapsto> \<lparr>next_el = next_el ze, key_el = k, item_el = it\<rparr>,
       w \<mapsto> ze\<lparr>next_el := Some ?n\<rparr>)\<rparr>"
  define l' where "l' = (if us = [] then l\<lparr>last_p := Some ?n\<rparr> else l)"
  have "\<And>a. cells h' a = (if a = w then Some (ze\<lparr>next_el := Some ?n\<rparr>)
      else if a = ?n then Some \<lparr>next_el = next_el ze, key_el = k, item_el = it\<rparr> else cells h a)"
    by (simp add: h'_def)
  note sp = seg_splice [OF s d nin ze this]
  have ne: "\<not> List_IsEmpty l" using r by (simp add: list_rep_IsEmpty)
  have nk: "\<not> k < key_el e" using k e by simp
  have us_nil: "us = [] \<Longrightarrow> next_el ze = None" using s ze by (auto simp: seg_append)
  have "List_SortedInsert it k (h, l) = Some (Inr (h', l'))"
  proof (cases "us = []")
    case True
    then have "last_p l = Some w" using la by simp
    with True show ?thesis using ne fp e zn nk scan wn ze us_nil
      by (simp add: List_SortedInsert_def new_ListElement_def cell_def set_next_def h'_def l'_def)
  next
    case False
    then show ?thesis using ne fp e zn nk scan wn ze
      by (simp add: List_SortedInsert_def new_ListElement_def cell_def set_next_def h'_def l'_def
          fun_upd_twist)
  qed
  moreover have "sins k it (x # xs) = vals h (bs @ [w]) @ (k, it) # vals h us"
  proof -
    have "\<forall>y\<in>set (vals h (z # ts)). \<not> k < fst y"
      using nk e by (auto simp: vals_def ts_def dest: set_takeWhileD)
    moreover have "vals h us = [] \<or> k < fst (hd (vals h us))"
    proof (cases "us = []")
      case False
      then have "\<not> \<not> k < key_el (the (cells h (hd us)))" unfolding us_def by (rule hd_dropWhile)
      with False show ?thesis by (cases us) auto
    qed simp
    ultimately have "sins k it (vals h (z # ts) @ vals h us) =
        vals h (z # ts) @ (k, it) # vals h us"
      by (simp only: sins_append sins_front)
    moreover have "x # xs = vals h (z # ts) @ vals h us"
      using xs unfolding cs by (metis append_Cons vals_simps(3))
    ultimately show ?thesis unfolding w by simp
  qed
  then have "list_rep h' l' (bs @ w # ?n # us) (sins k it (x # xs))"
  proof -
    have "brk h' = Suc ?n" and "first_p l' = first_p l" by (simp_all add: h'_def l'_def)
    moreover have "\<forall>a\<in>set (bs @ w # ?n # us). a < Suc ?n" using lt by (auto simp: less_Suc_eq)
    moreover have "last_p l' = Some (last (bs @ w # ?n # us))" using la by (simp add: l'_def)
    moreover have "distinct (bs @ w # ?n # us)" using d nin by auto
    moreover assume "sins k it (x # xs) = vals h (bs @ [w]) @ (k, it) # vals h us"
    ultimately show ?thesis using sp by (simp add: list_rep_def del: vals_simps)
  qed
  ultimately show ?thesis
    using as by (intro exI [of _ h'] exI [of _ l'] exI [of _ "bs @ w # ?n # us"])
      (auto simp: same_elsewhere_def h'_def)
qed

lemma SortedInsert_refines:
  assumes r: "list_rep h l as xs"
  shows "\<exists>h' l' as'. List_SortedInsert it k (h, l) = Some (Inr (h', l')) \<and> brk h' = Suc (brk h) \<and>
           list_rep h' l' as' (sins k it xs) \<and> set as' = insert (brk h) (set as) \<and>
           same_elsewhere h h' as"
proof (cases xs)
  case Nil
  with r have "as = []" using vals_eq_Nil [of h as] by (simp add: list_rep_def)
  with r Nil SortedInsert_empty [of h l it k] show ?thesis by fastforce
next
  case (Cons x ys)
  with r obtain z cs where as: "as = z # cs" by (cases as) (auto simp: list_rep_def)
  show ?thesis
  proof (cases "k < fst x")
    case True
    with SortedInsert_front [OF r [unfolded Cons], of k it] show ?thesis
      by (fastforce simp: Cons)
  next
    case False
    from SortedInsert_behind [OF r [unfolded Cons as] False, of it] show ?thesis
      unfolding Cons as .
  qed
qed

section \<open>Mapcar\<close>

lemma mapcar_from_fold:
  "seg h p as None \<Longrightarrow>
   mapcar_from f h p s = Some (Inr (fold (\<lambda>x t. f t x) (map snd (vals h as)) s))"
proof (induction as arbitrary: p s)
  case Nil
  then show ?case by (subst mapcar_from.simps) simp
next
  case (Cons a as)
  then show ?case by (subst mapcar_from.simps) (auto simp: cell_def)
qed

lemma Mapcar_refines:
  "list_rep h l as xs \<Longrightarrow>
   List_Mapcar f (h, l) s = Some (Inr (fold (\<lambda>x t. f t x) (map snd xs) s))"
  by (simp add: List_Mapcar_def list_rep_def mapcar_from_fold)


section \<open>The queue interface\<close>

text \<open>
  What the scheduler, the synchronization primitives, the page replacement queue and the message
  handler use a \<open>List\<close> for: append at the back, remove at the front, test for emptiness.  The
  provider promises that these act on a represented sequence; the client's FIFO facts follow.
\<close>

fun append_all :: "('a \<Rightarrow> 'q \<Rightarrow> fault + 'q) \<Rightarrow> 'a list \<Rightarrow> 'q \<Rightarrow> fault + 'q" where
  "append_all app [] q = Inr q"
| "append_all app (x # xs) q = bindE (app x q) (append_all app xs)"

fun remove_n :: "('q \<Rightarrow> fault + 'a option \<times> 'q) \<Rightarrow> nat \<Rightarrow> 'q \<Rightarrow> fault + 'a list \<times> 'q" where
  "remove_n rm 0 q = Inr ([], q)"
| "remove_n rm (Suc n) q = bindE (rm q) (\<lambda>(r, q'). case r of None \<Rightarrow> Inr ([], q')
     | Some x \<Rightarrow> bindE (remove_n rm n q') (\<lambda>(xs, q''). Inr (x # xs, q'')))"

locale fifo =
  fixes rep :: "'q \<Rightarrow> 'a list \<Rightarrow> bool"
    and app :: "'a \<Rightarrow> 'q \<Rightarrow> fault + 'q"
    and rm :: "'q \<Rightarrow> fault + 'a option \<times> 'q"
    and isemp :: "'q \<Rightarrow> bool"
  assumes rep_app: "rep q xs \<Longrightarrow> \<exists>q'. app x q = Inr q' \<and> rep q' (xs @ [x])"
    and rep_rm_Nil: "rep q [] \<Longrightarrow> \<exists>q'. rm q = Inr (None, q') \<and> rep q' []"
    and rep_rm_Cons: "rep q (x # xs) \<Longrightarrow> \<exists>q'. rm q = Inr (Some x, q') \<and> rep q' xs"
    and rep_isemp: "rep q xs \<Longrightarrow> isemp q \<longleftrightarrow> xs = []"
begin

lemma append_all_rep: "rep q xs \<Longrightarrow> \<exists>q'. append_all app ys q = Inr q' \<and> rep q' (xs @ ys)"
proof (induction ys arbitrary: q xs)
  case Nil
  then show ?case by simp
next
  case (Cons y ys)
  from rep_app [OF Cons.prems, of y] obtain q1 where "app y q = Inr q1" "rep q1 (xs @ [y])" by blast
  with Cons.IH [of q1 "xs @ [y]"] show ?case by auto
qed

lemma remove_n_rep:
  "rep q xs \<Longrightarrow> \<exists>q'. remove_n rm n q = Inr (take n xs, q') \<and> rep q' (drop n xs)"
proof (induction n arbitrary: q xs)
  case 0
  then show ?case by simp
next
  case (Suc n)
  show ?case
  proof (cases xs)
    case Nil
    with rep_rm_Nil Suc.prems show ?thesis by fastforce
  next
    case (Cons x ys)
    with rep_rm_Cons Suc.prems obtain q1 where "rm q = Inr (Some x, q1)" "rep q1 ys" by blast
    with Suc.IH [of q1 ys] Cons show ?thesis by auto
  qed
qed

lemma fifo_order:
  assumes "rep q xs"
  shows "\<exists>q' q''. append_all app ys q = Inr q' \<and>
           remove_n rm (length xs + length ys) q' = Inr (xs @ ys, q'') \<and> isemp q''"
proof -
  obtain q' where q': "append_all app ys q = Inr q'" "rep q' (xs @ ys)"
    using append_all_rep [OF assms] by blast
  with remove_n_rep [of q' "xs @ ys" "length xs + length ys"] rep_isemp show ?thesis by auto
qed

end

text \<open>The sequences the other theories compute with.\<close>

definition q_append :: "'a \<Rightarrow> 'a list \<Rightarrow> 'a list" where
  "q_append x q = q @ [x]"

fun q_remove :: "'a list \<Rightarrow> 'a option \<times> 'a list" where
  "q_remove [] = (None, [])"
| "q_remove (x # q) = (Some x, q)"

fun q_is_empty :: "'a list \<Rightarrow> bool" where
  "q_is_empty [] = True"
| "q_is_empty (x # q) = False"

lemma q_is_empty_iff [simp]: "q_is_empty q \<longleftrightarrow> q = []"
  by (cases q) auto

lemma set_q_append [simp]: "set (q_append x q) = insert x (set q)"
  by (auto simp: q_append_def)

lemma distinct_q_append [simp]: "distinct (q_append x q) \<longleftrightarrow> distinct q \<and> x \<notin> set q"
  by (auto simp: q_append_def)

lemma q_append_neq_Nil [simp]: "q_append x q \<noteq> []"
  by (simp add: q_append_def)

lemma q_remove_eq_None: "q_remove q = (None, r) \<longleftrightarrow> q = [] \<and> r = []"
  by (cases q) auto

lemma q_remove_eq_Some: "q_remove q = (Some x, r) \<longleftrightarrow> q = x # r"
  by (cases q) auto

lemma q_remove_hd_tl: "q \<noteq> [] \<Longrightarrow> q_remove q = (Some (hd q), tl q)"
  by (cases q) auto

interpretation seqq: fifo "(=)" "\<lambda>x q. Inr (q_append x q)" "\<lambda>q. Inr (q_remove q)" q_is_empty
  by unfold_locales (auto simp: q_append_def)

text \<open>The pointer structure of list.cc, used with its unsorted operations.\<close>

definition heap_rep :: "'a heap \<times> NList \<Rightarrow> 'a list \<Rightarrow> bool" where
  "heap_rep hl xs \<longleftrightarrow> (\<exists>as ys. list_rep (fst hl) (snd hl) as ys \<and> xs = map snd ys)"

interpretation heapq: fifo heap_rep List_Append List_Remove "\<lambda>hl. List_IsEmpty (snd hl)"
proof unfold_locales
  fix hl :: "'a heap \<times> NList" and xs x
  obtain h l where hl: "hl = (h, l)" by fastforce
  { assume "heap_rep hl xs"
    then obtain as ys where r: "list_rep h l as ys" "xs = map snd ys" by (auto simp: heap_rep_def hl)
    from Append_refines [OF r(1), of x] r(2)
    show "\<exists>q'. List_Append x hl = Inr q' \<and> heap_rep q' (xs @ [x])"
      unfolding hl heap_rep_def by fastforce }
  { assume "heap_rep hl ([] :: 'a list)"
    then obtain as where r: "list_rep h l as []" by (auto simp: heap_rep_def hl)
    from SortedRemove_refines_Nil [OF r] r
    show "\<exists>q'. List_Remove hl = Inr (None, q') \<and> heap_rep q' []"
      unfolding hl heap_rep_def by (fastforce simp: List_Remove_def) }
  { assume "heap_rep hl (x # xs)"
    then obtain as k ys where r: "list_rep h l as ((k, x) # ys)" "xs = map snd ys"
      by (auto simp: heap_rep_def hl)
    from SortedRemove_refines_Cons [OF r(1)] r(2)
    show "\<exists>q'. List_Remove hl = Inr (Some x, q') \<and> heap_rep q' xs"
      unfolding hl heap_rep_def by (fastforce simp: List_Remove_def) }
  { assume "heap_rep hl xs"
    then show "List_IsEmpty (snd hl) \<longleftrightarrow> xs = []"
      by (auto simp: heap_rep_def hl dest: list_rep_IsEmpty) }
qed

section \<open>Properties\<close>

definition heap0 :: "'a heap" where
  "heap0 = \<lparr>brk = 0, cells = (\<lambda>_. None)\<rparr>"

lemma list_rep_new: "list_rep heap0 List_new [] []"
  by (simp add: list_rep_def List_new_def)

text \<open>
  The pointer list of list.cc is a FIFO queue: appending the items \<open>ys\<close> to a well-formed list
  that holds \<open>xs\<close> and then removing as many items returns \<open>xs\<close> followed by \<open>ys\<close>, in that order,
  without a bad pointer access on the way, and leaves the list empty.
\<close>

theorem list_fifo:
  assumes "list_rep h l as xs"
  shows "\<exists>hl' hl''. append_all List_Append ys (h, l) = Inr hl' \<and>
           remove_n List_Remove (length xs + length ys) hl' = Inr (map snd xs @ ys, hl'') \<and>
           List_IsEmpty (snd hl'')"
proof -
  have "heap_rep (h, l) (map snd xs)" using assms by (auto simp: heap_rep_def)
  from heapq.fifo_order [OF this, of ys] show ?thesis by simp
qed

theorem list_fifo_witness:
  "\<exists>hl' hl''. append_all List_Append [7::int, 8] (heap0, List_new) = Inr hl' \<and>
     remove_n List_Remove 2 hl' = Inr ([7, 8], hl'') \<and> List_IsEmpty (snd hl'')"
  using list_fifo [OF list_rep_new, of "[7::int, 8]"] by (simp add: numeral_2_eq_2)

text \<open>
  \<open>SortedInsert\<close> on a well-formed list always returns (its scan ends and no bad pointer is
  followed); the result holds exactly the old elements and the new one, is sorted by key if the
  list was, and is stable: elements with equal keys stay in order of insertion.
\<close>

theorem sorted_insert_correct:
  assumes "list_rep h l as xs" and "sorted (map fst xs)"
  shows "\<exists>h' l' as' ys. List_SortedInsert it k (h, l) = Some (Inr (h', l')) \<and>
           list_rep h' l' as' ys \<and> sorted (map fst ys) \<and> set ys = insert (k, it) (set xs) \<and>
           length ys = Suc (length xs) \<and>
           (\<forall>j. filter (\<lambda>y. fst y = j) ys =
                filter (\<lambda>y. fst y = j) xs @ (if j = k then [(k, it)] else []))"
proof -
  obtain h' l' as' where "List_SortedInsert it k (h, l) = Some (Inr (h', l'))"
    "list_rep h' l' as' (sins k it xs)"
    using SortedInsert_refines [OF assms(1), of it k] by blast
  then show ?thesis
    using sorted_sins [OF assms(2), of k it] sins_stable [OF assms(2), of _ k it]
    by (intro exI [of _ h'] exI [of _ l'] exI [of _ as'] exI [of _ "sins k it xs"]) simp
qed

theorem sorted_insert_correct_witness:
  "\<exists>h' l' as' ys. List_SortedInsert (1::int) 5 (heap0, List_new) = Some (Inr (h', l')) \<and>
     list_rep h' l' as' ys \<and> sorted (map fst ys) \<and> set ys = {(5, 1)}"
  using sorted_insert_correct [OF list_rep_new, of "1::int" 5] by fastforce

text \<open>
  \<open>SortedRemove\<close> takes the front element with its key off a well-formed list, frees exactly its
  cell, keeps the rest in order, and touches no cell of any other list.
\<close>

theorem sorted_remove_correct:
  assumes "list_rep h l as (x # xs)" and "list_rep h m bs ys" and "set as \<inter> set bs = {}"
  shows "\<exists>h' l'. List_SortedRemove (h, l) = Inr (Some x, h', l') \<and>
           list_rep h' l' (tl as) xs \<and> cells h' (hd as) = None \<and> list_rep h' m bs ys"
proof -
  obtain h' l' where r: "List_SortedRemove (h, l) = Inr (Some x, h', l')" "brk h' = brk h"
    "list_rep h' l' (tl as) xs" "cells h' (hd as) = None" "same_elsewhere h h' as"
    using SortedRemove_refines_Cons [OF assms(1)] by blast
  have "list_rep h' m bs ys"
    by (rule list_rep_frame [OF assms(2)])
      (use r assms list_rep_fresh [OF assms(2)] in \<open>auto simp: same_elsewhere_def\<close>)
  with r show ?thesis by blast
qed

theorem sorted_remove_correct_witness:
  "\<exists>h' l'. List_SortedRemove (snd (new_ListElement (3::int) 9 heap0),
       \<lparr>first_p = Some 0, last_p = Some 0\<rparr>) = Inr (Some (9, 3), h', l') \<and>
     list_rep h' l' [] [] \<and> cells h' 0 = None \<and> list_rep h' List_new [] []"
  using sorted_remove_correct [of "snd (new_ListElement (3::int) 9 heap0)"
      "\<lparr>first_p = Some 0, last_p = Some 0\<rparr>" "[0]" "(9, 3)" "[]" List_new "[]" "[]"]
  by (simp add: list_rep_def new_ListElement_def heap0_def List_new_def)

end
