(* ===== verification/Nachos_Bitmap.thy ===== *)
theory Nachos_Bitmap
  imports Nachos_Prelude "HOL-Library.Word"
begin

text \<open>
  The bit map of \<open>userprog/bitmap.cc\<close>: an array of 32-bit words, allocated uninitialised and
  cleared bit by bit.  The operations keep the words as \<open>32 word\<close>; they are proved to refine
  the operations on the set of marked indices.  The locale \<open>slot_alloc\<close> states the contract by
  which the open-file table, the file headers and the page and swap maps use a bit map.
\<close>

unbundle bit_operations_syntax

section \<open>bitmap.h, bitmap.cc\<close>

definition BitsInWord :: int where
  "BitsInWord = 32"

definition divRoundUp :: "int \<Rightarrow> int \<Rightarrow> int" where
  "divRoundUp n s = n div s + (if n mod s > 0 then 1 else 0)"

record BitMap =
  numBits :: int
  numWords :: int
  bmap :: "32 word list"

definition BitMap_Mark :: "int \<Rightarrow> BitMap \<Rightarrow> fault + BitMap" where
  "BitMap_Mark which b =
     bindE (assertE (which \<ge> 0 \<and> which < numBits b)) (\<lambda>_.
     bindE (arr_get (bmap b) (which div BitsInWord)) (\<lambda>w.
     bindE (arr_set (bmap b) (which div BitsInWord)
              (w OR push_bit (nat (which mod BitsInWord)) 1)) (\<lambda>ws.
     Inr (b\<lparr>bmap := ws\<rparr>))))"

definition BitMap_Clear :: "int \<Rightarrow> BitMap \<Rightarrow> fault + BitMap" where
  "BitMap_Clear which b =
     bindE (assertE (which \<ge> 0 \<and> which < numBits b)) (\<lambda>_.
     bindE (arr_get (bmap b) (which div BitsInWord)) (\<lambda>w.
     bindE (arr_set (bmap b) (which div BitsInWord)
              (w AND NOT (push_bit (nat (which mod BitsInWord)) 1))) (\<lambda>ws.
     Inr (b\<lparr>bmap := ws\<rparr>))))"

definition BitMap_Test :: "int \<Rightarrow> BitMap \<Rightarrow> fault + bool" where
  "BitMap_Test which b =
     bindE (assertE (which \<ge> 0 \<and> which < numBits b)) (\<lambda>_.
     bindE (arr_get (bmap b) (which div BitsInWord)) (\<lambda>w.
     Inr (if w AND push_bit (nat (which mod BitsInWord)) 1 \<noteq> 0 then True else False)))"

text \<open>The constructor: \<open>garbage\<close> is what \<open>new unsigned int[numWords]\<close> happens to hold.\<close>

fun clear_from :: "nat \<Rightarrow> nat \<Rightarrow> BitMap \<Rightarrow> fault + BitMap" where
  "clear_from i 0 b = Inr b"
| "clear_from i (Suc n) b = bindE (BitMap_Clear (int i) b) (clear_from (Suc i) n)"

definition BitMap_new :: "32 word list \<Rightarrow> int \<Rightarrow> fault + BitMap" where
  "BitMap_new garbage nitems =
     (let nw = divRoundUp nitems BitsInWord in
      clear_from 0 (nat nitems)
        \<lparr>numBits = nitems, numWords = nw, bmap = take (nat nw) garbage\<rparr>)"

fun find_from :: "nat \<Rightarrow> nat \<Rightarrow> BitMap \<Rightarrow> fault + int \<times> BitMap" where
  "find_from i 0 b = Inr (-1, b)"
| "find_from i (Suc n) b = bindE (BitMap_Test (int i) b) (\<lambda>t.
     if \<not> t then bindE (BitMap_Mark (int i) b) (\<lambda>b'. Inr (int i, b'))
     else find_from (Suc i) n b)"

definition BitMap_Find :: "BitMap \<Rightarrow> fault + int \<times> BitMap" where
  "BitMap_Find b = find_from 0 (nat (numBits b)) b"

fun numclear_from :: "nat \<Rightarrow> nat \<Rightarrow> int \<Rightarrow> BitMap \<Rightarrow> fault + int" where
  "numclear_from i 0 count b = Inr count"
| "numclear_from i (Suc n) count b = bindE (BitMap_Test (int i) b) (\<lambda>t.
     numclear_from (Suc i) n (if \<not> t then count + 1 else count) b)"

definition BitMap_NumClear :: "BitMap \<Rightarrow> fault + int" where
  "BitMap_NumClear b = numclear_from 0 (nat (numBits b)) 0 b"

text \<open>\<open>Print\<close>: the numbers of the bits that are set, in order.\<close>

fun print_from :: "nat \<Rightarrow> nat \<Rightarrow> BitMap \<Rightarrow> fault + int list" where
  "print_from i 0 b = Inr []"
| "print_from i (Suc n) b = bindE (BitMap_Test (int i) b) (\<lambda>t.
     bindE (print_from (Suc i) n b) (\<lambda>out. Inr (if t then int i # out else out)))"

definition BitMap_Print :: "BitMap \<Rightarrow> fault + int list" where
  "BitMap_Print b = print_from 0 (nat (numBits b)) b"

section \<open>The set of marked indices\<close>

definition bm_inv :: "BitMap \<Rightarrow> bool" where
  "bm_inv b \<longleftrightarrow> 0 \<le> numBits b \<and> numWords b = divRoundUp (numBits b) BitsInWord \<and>
     int (length (bmap b)) = numWords b"

definition bm_set :: "BitMap \<Rightarrow> nat set" where
  "bm_set b = {i. int i < numBits b \<and> bit (bmap b ! (i div 32)) (i mod 32)}"

lemma word_in_range:
  assumes "bm_inv b" "0 \<le> i" "i < numBits b"
  shows "in_range (i div BitsInWord) (bmap b)"
proof -
  have "i div 32 < divRoundUp (numBits b) 32"
  proof (cases "numBits b mod 32 > 0")
    case True
    then show ?thesis using zdiv_mono1 [of i "numBits b" 32] assms(3) by (simp add: divRoundUp_def)
  next
    case False
    then have "numBits b = 32 * (numBits b div 32)"
      using pos_mod_sign [of 32 "numBits b"] mult_div_mod_eq [of 32 "numBits b"] by linarith
    then have "i div 32 < numBits b div 32"
      using assms(3) mult_div_mod_eq [of 32 i] pos_mod_sign [of 32 i] by linarith
    with False show ?thesis by (simp add: divRoundUp_def)
  qed
  with assms show ?thesis by (simp add: bm_inv_def in_range_def BitsInWord_def)
qed

declare push_bit_of_1 [simp del]

lemma bit_mark:
  "n < 32 \<Longrightarrow> m < 32 \<Longrightarrow> bit (w OR push_bit n 1 :: 32 word) m \<longleftrightarrow> bit w m \<or> m = n"
  by (auto simp: bit_or_iff bit_push_bit_iff bit_1_iff)

lemma bit_clear:
  "n < 32 \<Longrightarrow> m < 32 \<Longrightarrow> bit (w AND NOT (push_bit n 1) :: 32 word) m \<longleftrightarrow> bit w m \<and> m \<noteq> n"
  by (auto simp: bit_and_iff bit_not_iff bit_push_bit_iff bit_1_iff)

lemma bit_test: "n < 32 \<Longrightarrow> (w AND push_bit n 1 :: 32 word) \<noteq> 0 \<longleftrightarrow> bit w n"
proof -
  assume n: "n < 32"
  have b: "bit (w AND push_bit n 1 :: 32 word) m \<longleftrightarrow> m = n \<and> bit w n" for m
    using n by (auto simp: bit_and_iff bit_push_bit_iff bit_1_iff)
  have "(w AND push_bit n 1) = 0 \<longleftrightarrow> (\<forall>m. \<not> bit (w AND push_bit n 1) m)"
    by (metis bit_0_eq bit_eqI bot_apply bot_bool_def)
  then show ?thesis by (simp add: b)
qed

lemma bm_update_bit:
  assumes "i div 32 < length ws"
    and "\<And>m. m < 32 \<Longrightarrow> bit w m \<longleftrightarrow> (if m = i mod 32 then v else bit (ws ! (i div 32)) m)"
  shows "bit (ws[i div 32 := w] ! (j div 32)) (j mod 32) \<longleftrightarrow>
         (if j = i then v else bit (ws ! (j div 32)) (j mod 32))"
proof (cases "j div 32 = i div 32")
  case True
  then have "j = i \<longleftrightarrow> j mod 32 = i mod 32" by (metis div_mult_mod_eq)
  with True assms show ?thesis by simp
next
  case False
  then show ?thesis by auto
qed

lemma Mark_refines:
  assumes "bm_inv b" "int i < numBits b"
  shows "\<exists>b'. BitMap_Mark (int i) b = Inr b' \<and> bm_inv b' \<and> numBits b' = numBits b \<and>
           bm_set b' = insert i (bm_set b)"
proof -
  let ?w = "bmap b ! (i div 32)"
  let ?v = "?w OR push_bit (i mod 32) 1"
  let ?b = "b\<lparr>bmap := (bmap b)[i div 32 := ?v]\<rparr>"
  have r: "in_range (int i div 32) (bmap b)"
    using word_in_range [OF assms(1) _ assms(2)] by (simp add: BitsInWord_def)
  then have "BitMap_Mark (int i) b = Inr ?b"
    using assms(2)
    by (simp add: BitMap_Mark_def arr_get_def arr_set_def BitsInWord_def nat_div_distrib nat_mod_distrib)
  have len: "i div 32 < length (bmap b)"
    using r unfolding in_range_def by (metis nat_int nat_less_iff of_nat_numeral zdiv_int)
  have upd: "bit ((bmap b)[i div 32 := ?v] ! (j div 32)) (j mod 32) \<longleftrightarrow>
      (if j = i then True else bit (bmap b ! (j div 32)) (j mod 32))" for j
    by (rule bm_update_bit [OF len]) (simp only: bit_mark mod_less_divisor, auto)
  note \<open>BitMap_Mark (int i) b = Inr ?b\<close>
  moreover have "bm_inv ?b" using assms(1) by (simp add: bm_inv_def)
  moreover have "bm_set ?b = insert i (bm_set b)"
    using assms(2) by (auto simp: bm_set_def upd)
  ultimately show ?thesis by fastforce
qed

lemma Clear_refines:
  assumes "bm_inv b" "int i < numBits b"
  shows "\<exists>b'. BitMap_Clear (int i) b = Inr b' \<and> bm_inv b' \<and> numBits b' = numBits b \<and>
           bm_set b' = bm_set b - {i}"
proof -
  let ?w = "bmap b ! (i div 32)"
  let ?v = "?w AND NOT (push_bit (i mod 32) 1)"
  let ?b = "b\<lparr>bmap := (bmap b)[i div 32 := ?v]\<rparr>"
  have r: "in_range (int i div 32) (bmap b)"
    using word_in_range [OF assms(1) _ assms(2)] by (simp add: BitsInWord_def)
  then have "BitMap_Clear (int i) b = Inr ?b"
    using assms(2)
    by (simp add: BitMap_Clear_def arr_get_def arr_set_def BitsInWord_def nat_div_distrib nat_mod_distrib)
  have len: "i div 32 < length (bmap b)"
    using r unfolding in_range_def by (metis nat_int nat_less_iff of_nat_numeral zdiv_int)
  have upd: "bit ((bmap b)[i div 32 := ?v] ! (j div 32)) (j mod 32) \<longleftrightarrow>
      (if j = i then False else bit (bmap b ! (j div 32)) (j mod 32))" for j
    by (rule bm_update_bit [OF len]) (simp only: bit_clear mod_less_divisor, auto)
  note \<open>BitMap_Clear (int i) b = Inr ?b\<close>
  moreover have "bm_inv ?b" using assms(1) by (simp add: bm_inv_def)
  moreover have "bm_set ?b = bm_set b - {i}"
    using assms(2) by (auto simp: bm_set_def upd)
  ultimately show ?thesis by fastforce
qed

lemma Test_refines:
  assumes "bm_inv b" "int i < numBits b"
  shows "BitMap_Test (int i) b = Inr (i \<in> bm_set b)"
proof -
  have "i mod 32 < 32" by simp
  note t = bit_test [OF this, of "bmap b ! (i div 32)"]
  have r: "in_range (int i div 32) (bmap b)"
    using word_in_range [OF assms(1) _ assms(2)] by (simp add: BitsInWord_def)
  then have "BitMap_Test (int i) b =
      Inr (bmap b ! (i div 32) AND push_bit (i mod 32) 1 \<noteq> 0)"
    using assms(2) unfolding BitMap_Test_def
    by (simp add: arr_get_def BitsInWord_def nat_div_distrib nat_mod_distrib)
  then show ?thesis unfolding t using assms(2) by (simp add: bm_set_def)
qed

lemma find_from_refines:
  assumes "bm_inv b" "int (i + n) \<le> numBits b"
  shows "find_from i n b = (case first_from (\<lambda>j. j \<notin> bm_set b) i n of
           None \<Rightarrow> Inr (-1, b)
         | Some k \<Rightarrow> bindE (BitMap_Mark (int k) b) (\<lambda>b'. Inr (int k, b')))"
  using assms
proof (induction n arbitrary: i)
  case 0
  then show ?case by simp
next
  case (Suc n)
  have "int i < numBits b" using Suc.prems by simp
  with Suc Test_refines [OF Suc.prems(1)] show ?case by simp
qed

lemma numclear_from_refines:
  assumes "bm_inv b" "int (i + n) \<le> numBits b"
  shows "numclear_from i n c b = Inr (c + int (card ({i..<i + n} - bm_set b)))"
  using assms
proof (induction n arbitrary: i c)
  case 0
  then show ?case by simp
next
  case (Suc n)
  have i: "int i < numBits b" using Suc.prems by simp
  have sp: "{i..<i + Suc n} = insert i {Suc i..<Suc i + n}" by auto
  have "card ({i..<i + Suc n} - bm_set b) =
      (if i \<in> bm_set b then 0 else 1) + card ({Suc i..<Suc i + n} - bm_set b)"
    unfolding sp by (simp add: insert_Diff_if)
  with Suc i Test_refines [OF Suc.prems(1)] show ?case by simp
qed

lemma clear_from_refines:
  assumes "bm_inv b" "int (i + n) \<le> numBits b"
  shows "\<exists>b'. clear_from i n b = Inr b' \<and> bm_inv b' \<and> numBits b' = numBits b \<and>
           bm_set b' = bm_set b - {i..<i + n}"
  using assms
proof (induction n arbitrary: i b)
  case 0
  then show ?case by simp
next
  case (Suc n)
  have "int i < numBits b" using Suc.prems by simp
  from Clear_refines [OF Suc.prems(1) this] obtain b1 where b1: "BitMap_Clear (int i) b = Inr b1"
    "bm_inv b1" "numBits b1 = numBits b" "bm_set b1 = bm_set b - {i}" by blast
  from Suc.IH [of b1 "Suc i"] b1 Suc.prems obtain b' where
    "clear_from (Suc i) n b1 = Inr b'" "bm_inv b'" "numBits b' = numBits b"
    "bm_set b' = bm_set b - {i} - {Suc i..<Suc i + n}" by auto
  moreover have "bm_set b - {i} - {Suc i..<Suc i + n} = bm_set b - {i..<i + Suc n}" by auto
  ultimately show ?case using b1 by simp
qed

lemma bm_set_less: "i \<in> bm_set b \<Longrightarrow> int i < numBits b"
  by (simp add: bm_set_def)

lemma finite_bm_set [simp]: "finite (bm_set b)"
  by (rule finite_subset [of _ "{..<nat (numBits b)}"]) (auto simp: bm_set_def)

lemma BitMap_new_refines:
  assumes "0 \<le> n" "nat (divRoundUp n 32) \<le> length garbage"
  shows "\<exists>b. BitMap_new garbage n = Inr b \<and> bm_inv b \<and> numBits b = n \<and> bm_set b = {}"
proof -
  let ?b = "\<lparr>numBits = n, numWords = divRoundUp n 32, bmap = take (nat (divRoundUp n 32)) garbage\<rparr>"
  have "0 \<le> divRoundUp n 32" using assms(1) by (simp add: divRoundUp_def)
  then have "bm_inv ?b" using assms by (simp add: bm_inv_def BitsInWord_def)
  from clear_from_refines [OF this, of 0 "nat n"] assms(1) obtain b' where
    "clear_from 0 (nat n) ?b = Inr b'" "bm_inv b'" "numBits b' = n"
    "bm_set b' = bm_set ?b - {0..<nat n}" by auto
  moreover have "bm_set ?b - {0..<nat n} = {}" by (auto simp: bm_set_def)
  ultimately show ?thesis by (auto simp: BitMap_new_def BitsInWord_def Let_def)
qed

lemma Find_refines:
  assumes "bm_inv b"
  shows "BitMap_Find b = (case first_from (\<lambda>j. j \<notin> bm_set b) 0 (nat (numBits b)) of
           None \<Rightarrow> Inr (-1, b)
         | Some k \<Rightarrow> bindE (BitMap_Mark (int k) b) (\<lambda>b'. Inr (int k, b')))"
  using find_from_refines [OF assms, of 0 "nat (numBits b)"] assms
  by (simp add: BitMap_Find_def bm_inv_def)

lemma NumClear_refines:
  assumes "bm_inv b"
  shows "BitMap_NumClear b = Inr (numBits b - int (card (bm_set b)))"
proof -
  have s: "bm_set b \<subseteq> {0..<nat (numBits b)}" by (auto simp: bm_set_def)
  have "card (bm_set b) \<le> nat (numBits b)" using card_mono [OF _ s] by simp
  moreover have "card ({0..<nat (numBits b)} - bm_set b) = nat (numBits b) - card (bm_set b)"
    using s by (simp add: card_Diff_subset)
  ultimately show ?thesis
    using numclear_from_refines [OF assms, of 0 "nat (numBits b)" 0] assms
    by (simp add: BitMap_NumClear_def bm_inv_def)
qed

lemma print_from_refines:
  assumes "bm_inv b" "int (i + n) \<le> numBits b"
  shows "print_from i n b = Inr (map int (filter (\<lambda>j. j \<in> bm_set b) [i..<i + n]))"
  using assms
proof (induction n arbitrary: i)
  case 0
  then show ?case by simp
next
  case (Suc n)
  have "int i < numBits b" using Suc.prems by simp
  with Suc Test_refines [OF Suc.prems(1)] show ?case
    by (simp add: upt_conv_Cons del: upt_Suc)
qed


section \<open>The allocator contract\<close>

text \<open>
  Clients (open-file table, file headers, page map, swap map) take slots with \<open>find\<close>, ask about
  them with \<open>test\<close> and give them back with \<open>clear\<close>.
\<close>

fun find_n :: "('s \<Rightarrow> fault + int \<times> 's) \<Rightarrow> nat \<Rightarrow> 's \<Rightarrow> fault + int list \<times> 's" where
  "find_n fnd 0 s = Inr ([], s)"
| "find_n fnd (Suc n) s = bindE (fnd s) (\<lambda>(k, s1).
     bindE (find_n fnd n s1) (\<lambda>(ks, s2). Inr (k # ks, s2)))"

fun clear_all :: "(int \<Rightarrow> 's \<Rightarrow> fault + bool) \<Rightarrow> (int \<Rightarrow> 's \<Rightarrow> fault + 's) \<Rightarrow> int list \<Rightarrow> 's \<Rightarrow> fault + 's" where
  "clear_all tst clr [] s = Inr s"
| "clear_all tst clr (k # ks) s = bindE (tst k s) (\<lambda>t. bindE (assertE t) (\<lambda>_.
     bindE (clr k s) (clear_all tst clr ks)))"

locale slot_alloc =
  fixes inv :: "'s \<Rightarrow> bool"
    and used :: "'s \<Rightarrow> nat set"
    and cap :: "'s \<Rightarrow> int"
    and fnd :: "'s \<Rightarrow> fault + int \<times> 's"
    and clr :: "int \<Rightarrow> 's \<Rightarrow> fault + 's"
    and tst :: "int \<Rightarrow> 's \<Rightarrow> fault + bool"
  assumes used_cap: "inv s \<Longrightarrow> used s \<subseteq> {i. int i < cap s}"
    and find_full: "inv s \<Longrightarrow> used s = {i. int i < cap s} \<Longrightarrow> fnd s = Inr (-1, s)"
    and find_free: "inv s \<Longrightarrow> used s \<noteq> {i. int i < cap s} \<Longrightarrow>
      \<exists>k s'. fnd s = Inr (int k, s') \<and> int k < cap s \<and> k \<notin> used s \<and> (\<forall>j<k. j \<in> used s) \<and>
             inv s' \<and> cap s' = cap s \<and> used s' = insert k (used s)"
    and clear_ok: "inv s \<Longrightarrow> int i < cap s \<Longrightarrow>
      \<exists>s'. clr (int i) s = Inr s' \<and> inv s' \<and> cap s' = cap s \<and> used s' = used s - {i}"
    and test_ok: "inv s \<Longrightarrow> int i < cap s \<Longrightarrow> tst (int i) s = Inr (i \<in> used s)"
begin

lemma finite_used: "inv s \<Longrightarrow> finite (used s)"
  by (rule finite_subset [OF used_cap]) (auto intro: finite_subset [of _ "{..<nat (cap s)}"])

lemma not_full:
  assumes "inv s" "int (card (used s)) < cap s"
  shows "used s \<noteq> {i. int i < cap s}"
proof
  assume "used s = {i. int i < cap s}"
  moreover have "{i. int i < cap s} = {..<nat (cap s)}" by auto
  ultimately show False using assms(2) by (simp split: if_splits)
qed

lemma find_n_fresh:
  "inv s \<Longrightarrow> int (card (used s)) + int n \<le> cap s \<Longrightarrow>
   \<exists>ks s'. find_n fnd n s = Inr (map int ks, s') \<and> length ks = n \<and> distinct ks \<and>
     set ks \<inter> used s = {} \<and> inv s' \<and> cap s' = cap s \<and> used s' = used s \<union> set ks"
proof (induction n arbitrary: s)
  case 0
  then show ?case by (intro exI [of _ "[]"] exI [of _ s]) simp
next
  case (Suc n)
  have "used s \<noteq> {i. int i < cap s}" using not_full Suc.prems by simp
  from find_free [OF Suc.prems(1) this] obtain k s1 where k: "fnd s = Inr (int k, s1)"
    "k \<notin> used s" "inv s1" "cap s1 = cap s" "used s1 = insert k (used s)" by blast
  have "int (card (used s1)) + int n \<le> cap s1"
    using k Suc.prems finite_used [OF Suc.prems(1)] by simp
  from Suc.IH [OF k(3) this] obtain ks s' where "find_n fnd n s1 = Inr (map int ks, s')"
    "length ks = n" "distinct ks" "set ks \<inter> used s1 = {}" "inv s'" "cap s' = cap s1"
    "used s' = used s1 \<union> set ks" by blast
  with k show ?case by (intro exI [of _ "k # ks"] exI [of _ s']) auto
qed

lemma clear_all_ok:
  "inv s \<Longrightarrow> distinct ks \<Longrightarrow> set ks \<subseteq> used s \<Longrightarrow>
   \<exists>s'. clear_all tst clr (map int ks) s = Inr s' \<and> inv s' \<and> cap s' = cap s \<and>
        used s' = used s - set ks"
proof (induction ks arbitrary: s)
  case Nil
  then show ?case by simp
next
  case (Cons k ks)
  have k: "int k < cap s" using used_cap [OF Cons.prems(1)] Cons.prems(3) by auto
  from clear_ok [OF Cons.prems(1) k] obtain s1 where s1: "clr (int k) s = Inr s1" "inv s1"
    "cap s1 = cap s" "used s1 = used s - {k}" by blast
  have "set ks \<subseteq> used s1" using Cons.prems s1 by auto
  from Cons.IH [OF s1(2) _ this] Cons.prems obtain s' where
    "clear_all tst clr (map int ks) s1 = Inr s'" "inv s'" "cap s' = cap s1"
    "used s' = used s1 - set ks" by auto
  with s1 test_ok [OF Cons.prems(1) k] Cons.prems(3) show ?case by auto
qed

lemma find_clear:
  assumes "inv s" "fnd s = Inr (r, s1)" "r \<noteq> -1"
  shows "\<exists>s2. clr r s1 = Inr s2 \<and> inv s2 \<and> used s2 = used s"
proof -
  have "used s \<noteq> {i. int i < cap s}" using find_full assms by auto
  from find_free [OF assms(1) this] assms(2) obtain k where "r = int k" "int k < cap s"
    "k \<notin> used s" "inv s1" "cap s1 = cap s" "used s1 = insert k (used s)" by auto
  with clear_ok [of s1 k] show ?thesis by auto
qed

end

interpretation bm: slot_alloc bm_inv bm_set numBits BitMap_Find BitMap_Clear BitMap_Test
proof unfold_locales
  fix s i
  assume inv: "bm_inv s"
  have n: "0 \<le> numBits s" using inv by (simp add: bm_inv_def)
  show "bm_set s \<subseteq> {i. int i < numBits s}" by (auto simp: bm_set_def)
  { assume "bm_set s = {i. int i < numBits s}"
    then have "first_from (\<lambda>j. j \<notin> bm_set s) 0 (nat (numBits s)) = None"
      using n by (simp add: first_from_None nat_less_iff zless_nat_eq_int_zless)
    then show "BitMap_Find s = Inr (-1, s)" by (simp add: Find_refines [OF inv]) }
  { assume ne: "bm_set s \<noteq> {i. int i < numBits s}"
    then obtain j where "int j < numBits s" "j \<notin> bm_set s" by (auto simp: bm_set_def)
    then have "first_from (\<lambda>j. j \<notin> bm_set s) 0 (nat (numBits s)) \<noteq> None"
      by (auto simp: first_from_None intro!: exI [of _ j])
    then obtain k where k: "first_from (\<lambda>j. j \<notin> bm_set s) 0 (nat (numBits s)) = Some k" by blast
    from first_from_Some [OF k] n have kk: "int k < numBits s" "k \<notin> bm_set s" "\<forall>j<k. j \<in> bm_set s"
      by auto
    from Mark_refines [OF inv kk(1)] obtain s' where s': "BitMap_Mark (int k) s = Inr s'"
      "bm_inv s'" "numBits s' = numBits s" "bm_set s' = insert k (bm_set s)" by blast
    then have "BitMap_Find s = Inr (int k, s')" by (simp add: Find_refines [OF inv] k)
    with s' kk show
      "\<exists>k s'. BitMap_Find s = Inr (int k, s') \<and> int k < numBits s \<and> k \<notin> bm_set s \<and>
        (\<forall>j<k. j \<in> bm_set s) \<and> bm_inv s' \<and> numBits s' = numBits s \<and>
        bm_set s' = insert k (bm_set s)" by blast }
  { assume "int i < numBits s"
    with Clear_refines [OF inv] show "\<exists>s'. BitMap_Clear (int i) s = Inr s' \<and> bm_inv s' \<and>
        numBits s' = numBits s \<and> bm_set s' = bm_set s - {i}" by blast }
  { assume "int i < numBits s"
    with Test_refines [OF inv] show "BitMap_Test (int i) s = Inr (i \<in> bm_set s)" by blast }
qed

section \<open>Properties\<close>

text \<open>
  A new bit map has every bit clear, whatever the uninitialised words held, and \<open>NumClear\<close>
  then reports all of them free; the operations keep the invariant that ties the array to the
  number of bits, and outside \<open>0 .. numBits - 1\<close> they stop on their assertion.
\<close>

theorem bitmap_new_correct:
  assumes "0 \<le> n" and "nat (divRoundUp n BitsInWord) \<le> length garbage"
  shows "\<exists>b. BitMap_new garbage n = Inr b \<and> bm_inv b \<and> bm_set b = {} \<and>
           BitMap_NumClear b = Inr n \<and> BitMap_Print b = Inr [] \<and>
           (\<forall>i. i < 0 \<or> n \<le> i \<longrightarrow> BitMap_Test i b = Inl AssertFailed \<and>
              BitMap_Mark i b = Inl AssertFailed \<and> BitMap_Clear i b = Inl AssertFailed)"
proof -
  obtain b where b: "BitMap_new garbage n = Inr b" "bm_inv b" "numBits b = n" "bm_set b = {}"
    using BitMap_new_refines [OF assms(1), of garbage] assms(2) by (auto simp: BitsInWord_def)
  moreover have "BitMap_NumClear b = Inr n" using NumClear_refines [OF b(2)] b by simp
  moreover have "BitMap_Print b = Inr []"
    using print_from_refines [OF b(2), of 0 "nat n"] b assms(1) by (simp add: BitMap_Print_def)
  ultimately show ?thesis
    by (auto simp: BitMap_Test_def BitMap_Mark_def BitMap_Clear_def)
qed

theorem bitmap_new_correct_witness:
  "\<exists>b. BitMap_new [0xFFFFFFFF, 7] 40 = Inr b \<and> bm_set b = {} \<and> BitMap_NumClear b = Inr 40"
  using bitmap_new_correct [of 40 "[0xFFFFFFFF, 7]"]
  by (fastforce simp: divRoundUp_def BitsInWord_def)

text \<open>
  \<open>Find\<close> returns the lowest clear bit and marks that bit only, or returns \<open>-1\<close> and changes
  nothing exactly when every bit is marked; clearing the bit it returned restores the set of
  marked bits.
\<close>

theorem bitmap_find_correct:
  assumes "bm_inv b"
  shows "\<exists>r b'. BitMap_Find b = Inr (r, b') \<and> bm_inv b' \<and>
           (r = -1 \<longleftrightarrow> bm_set b = {i. int i < numBits b}) \<and>
           (r = -1 \<longrightarrow> b' = b) \<and>
           (r \<noteq> -1 \<longrightarrow> 0 \<le> r \<and> r < numBits b \<and> nat r \<notin> bm_set b \<and> (\<forall>j<nat r. j \<in> bm_set b) \<and>
              bm_set b' = insert (nat r) (bm_set b) \<and>
              (\<exists>b2. BitMap_Clear r b' = Inr b2 \<and> bm_set b2 = bm_set b))"
proof (cases "bm_set b = {i. int i < numBits b}")
  case True
  with bm.find_full [OF assms] assms show ?thesis by auto
next
  case False
  from bm.find_free [OF assms False] obtain k b' where k: "BitMap_Find b = Inr (int k, b')"
    "int k < numBits b" "k \<notin> bm_set b" "\<forall>j<k. j \<in> bm_set b" "bm_inv b'"
    "bm_set b' = insert k (bm_set b)" by blast
  moreover have "\<exists>b2. BitMap_Clear (int k) b' = Inr b2 \<and> bm_set b2 = bm_set b"
    using bm.find_clear [OF assms k(1)] by auto
  ultimately show ?thesis using False
    by (intro exI [of _ "int k"] exI [of _ b']) auto
qed

theorem bitmap_find_correct_witness:
  "\<exists>r b'. BitMap_Find \<lparr>numBits = 3, numWords = 1, bmap = [5]\<rparr> = Inr (r, b') \<and> bm_inv b'"
proof -
  have "bm_inv \<lparr>numBits = 3, numWords = 1, bmap = [5]\<rparr>"
    by (simp add: bm_inv_def divRoundUp_def BitsInWord_def)
  from bitmap_find_correct [OF this] show ?thesis by blast
qed

text \<open>
  Taking \<open>n\<close> slots one after the other when at least \<open>n\<close> bits are clear gives \<open>n\<close> distinct
  bits that were clear before, and giving exactly these back (with the test that they are marked)
  succeeds and restores the original set of marked bits.
\<close>

theorem bitmap_alloc_free_roundtrip:
  assumes "bm_inv b" and "BitMap_NumClear b = Inr c" and "int n \<le> c"
  shows "\<exists>ks b1 b2. find_n BitMap_Find n b = Inr (map int ks, b1) \<and> length ks = n \<and>
           distinct ks \<and> set ks \<inter> bm_set b = {} \<and> bm_set b1 = bm_set b \<union> set ks \<and>
           clear_all BitMap_Test BitMap_Clear (map int ks) b1 = Inr b2 \<and> bm_set b2 = bm_set b"
proof -
  have "int (card (bm_set b)) + int n \<le> numBits b"
    using NumClear_refines [OF assms(1)] assms(2,3) by simp
  from bm.find_n_fresh [OF assms(1) this] obtain ks b1 where
    k: "find_n BitMap_Find n b = Inr (map int ks, b1)" "length ks = n" "distinct ks"
    "set ks \<inter> bm_set b = {}" "bm_inv b1" "bm_set b1 = bm_set b \<union> set ks" by blast
  have "set ks \<subseteq> bm_set b1" using k by simp
  from bm.clear_all_ok [OF k(5,3) this] obtain b2 where
    b2: "clear_all BitMap_Test BitMap_Clear (map int ks) b1 = Inr b2" "bm_set b2 = bm_set b1 - set ks"
    by blast
  moreover have "bm_set b1 - set ks = bm_set b" using k by auto
  ultimately show ?thesis using k by auto
qed

theorem bitmap_alloc_free_roundtrip_witness:
  "\<exists>ks b1 b2. find_n BitMap_Find 2 \<lparr>numBits = 3, numWords = 1, bmap = [2]\<rparr> = Inr (map int ks, b1) \<and>
     length ks = 2 \<and> clear_all BitMap_Test BitMap_Clear (map int ks) b1 = Inr b2"
proof -
  let ?b = "\<lparr>numBits = 3, numWords = 1, bmap = [2]\<rparr> :: BitMap"
  have "bm_inv ?b" by (simp add: bm_inv_def divRoundUp_def BitsInWord_def)
  moreover have "BitMap_NumClear ?b = Inr 2"
    by (simp add: BitMap_NumClear_def BitMap_Test_def BitsInWord_def arr_get_def in_range_def
        numeral_3_eq_3 push_bit_of_1)
  ultimately show ?thesis using bitmap_alloc_free_roundtrip [of ?b 2 2] by fastforce
qed

end
