(* ===== verification/Nachos_Table.thy ===== *)
theory Nachos_Table
  imports Nachos_Bitmap
begin

text \<open>
  The table of \<open>userprog/addrspace.cc\<close> (class \<open>Table\<close> of \<open>table.h\<close>): a bit map of used slots
  beside an array of pointers.  It serves as the open-file table of an address space.  \<open>Put\<close>
  takes its slot under the table's lock but stores the pointer after the lock is released, so
  \<open>Put\<close> is written as these two steps.  \<open>None\<close> is the null pointer.
\<close>

section \<open>table.h, addrspace.cc: class Table\<close>

record 'f Table =
  tmap :: BitMap
  table :: "'f option list"
  size :: int

text \<open>\<open>g1\<close> and \<open>g2\<close> are the contents of the two uninitialised arrays.\<close>

definition Table_new :: "32 word list \<Rightarrow> 'f option list \<Rightarrow> int \<Rightarrow> fault + 'f Table" where
  "Table_new g1 g2 s = bindE (BitMap_new g1 s) (\<lambda>m.
     Inr \<lparr>tmap = m, table = take (nat s) g2, size = s\<rparr>)"

definition Table_Get :: "int \<Rightarrow> 'f Table \<Rightarrow> fault + 'f option" where
  "Table_Get i t =
     (if i \<ge> 0 \<and> i < size t
      then bindE (BitMap_Test i (tmap t)) (\<lambda>b. if b then arr_get (table t) i else Inr None)
      else Inr None)"

definition Put_find :: "'f Table \<Rightarrow> fault + int \<times> 'f Table" where
  "Put_find t = bindE (BitMap_Find (tmap t)) (\<lambda>(i, m). Inr (i, t\<lparr>tmap := m\<rparr>))"

definition Put_store :: "int \<Rightarrow> 'f option \<Rightarrow> 'f Table \<Rightarrow> fault + 'f Table" where
  "Put_store i f t =
     (if i \<noteq> -1 then bindE (arr_set (table t) i f) (\<lambda>tb. Inr (t\<lparr>table := tb\<rparr>)) else Inr t)"

definition Table_Put :: "'f option \<Rightarrow> 'f Table \<Rightarrow> fault + int \<times> 'f Table" where
  "Table_Put f t = bindE (Put_find t) (\<lambda>(i, t1). bindE (Put_store i f t1) (\<lambda>t2. Inr (i, t2)))"

definition Table_Remove :: "int \<Rightarrow> 'f Table \<Rightarrow> fault + 'f option \<times> 'f Table" where
  "Table_Remove i t =
     (if i \<ge> 0 \<and> i < size t
      then bindE (BitMap_Test i (tmap t)) (\<lambda>b.
             if b then bindE (BitMap_Clear i (tmap t)) (\<lambda>m.
                       bindE (arr_get (table t) i) (\<lambda>f.
                       bindE (arr_set (table t) i None) (\<lambda>tb.
                       Inr (f, t\<lparr>tmap := m, table := tb\<rparr>))))
             else Inr (None, t))
      else Inr (None, t))"

section \<open>Invariant and abstraction\<close>

definition table_inv :: "'f Table \<Rightarrow> bool" where
  "table_inv t \<longleftrightarrow> bm_inv (tmap t) \<and> numBits (tmap t) = size t \<and> int (length (table t)) = size t"

text \<open>What the table holds: slot \<open>i\<close> is in the domain when it is taken.\<close>

definition table_abs :: "'f Table \<Rightarrow> nat \<Rightarrow> 'f option option" where
  "table_abs t i = (if i \<in> bm_set (tmap t) then Some (table t ! i) else None)"

lemma table_slot_in_range:
  "table_inv t \<Longrightarrow> i \<in> bm_set (tmap t) \<Longrightarrow> i < length (table t)"
  using bm_set_less [of i "tmap t"] by (auto simp: table_inv_def)

lemma Get_refines:
  assumes "table_inv t"
  shows "Table_Get i t = Inr (if 0 \<le> i then (case table_abs t (nat i) of None \<Rightarrow> None | Some f \<Rightarrow> f)
                              else None)"
proof (cases "0 \<le> i \<and> i < size t")
  case True
  then have "BitMap_Test (int (nat i)) (tmap t) = Inr (nat i \<in> bm_set (tmap t))"
    using Test_refines [of "tmap t" "nat i"] assms by (simp add: table_inv_def)
  with True assms show ?thesis
    by (auto simp: Table_Get_def table_abs_def arr_get_def in_range_def table_inv_def)
next
  case False
  then show ?thesis using bm_set_less [of "nat i" "tmap t"] assms
    by (auto simp: Table_Get_def table_abs_def table_inv_def)
qed

lemma Put_find_refines:
  assumes "table_inv t"
  shows "\<exists>i t'. Put_find t = Inr (i, t') \<and> table_inv t' \<and> size t' = size t \<and> table t' = table t \<and>
           (i = -1 \<longrightarrow> t' = t \<and> bm_set (tmap t) = {i. int i < size t}) \<and>
           (i \<noteq> -1 \<longrightarrow> 0 \<le> i \<and> i < size t \<and> nat i \<notin> bm_set (tmap t) \<and>
              bm_set (tmap t') = insert (nat i) (bm_set (tmap t)))"
proof (cases "bm_set (tmap t) = {i. int i < numBits (tmap t)}")
  case True
  then have "BitMap_Find (tmap t) = Inr (-1, tmap t)"
    using bm.find_full assms by (simp add: table_inv_def)
  with True assms show ?thesis by (simp add: Put_find_def table_inv_def)
next
  case False
  from bm.find_free [OF _ False] assms obtain k m where
    "BitMap_Find (tmap t) = Inr (int k, m)" "int k < numBits (tmap t)" "k \<notin> bm_set (tmap t)"
    "bm_inv m" "numBits m = numBits (tmap t)" "bm_set m = insert k (bm_set (tmap t))"
    unfolding table_inv_def by blast
  with assms show ?thesis by (simp add: Put_find_def table_inv_def)
qed

lemma Put_store_refines:
  assumes "table_inv t" "0 \<le> i" "i < size t"
  shows "Put_store i f t = Inr (t\<lparr>table := (table t)[nat i := f]\<rparr>) \<and>
         table_inv (t\<lparr>table := (table t)[nat i := f]\<rparr>)"
  using assms by (simp add: Put_store_def arr_set_def in_range_def table_inv_def)

lemma Remove_refines:
  assumes "table_inv t" "0 \<le> i" "nat i \<in> bm_set (tmap t)"
  shows "\<exists>t'. Table_Remove i t = Inr (table t ! nat i, t') \<and> table_inv t' \<and>
           table_abs t' = (table_abs t)(nat i := None)"
proof -
  let ?n = "nat i"
  have n: "int ?n < numBits (tmap t)" "i = int ?n" using assms(2) bm_set_less [OF assms(3)] by auto
  obtain m where m: "BitMap_Clear (int ?n) (tmap t) = Inr m" "bm_inv m"
    "numBits m = numBits (tmap t)" "bm_set m = bm_set (tmap t) - {?n}"
    using Clear_refines [of "tmap t" ?n] assms(1) n by (auto simp: table_inv_def)
  have l: "in_range i (table t)" using n assms(1,2) by (auto simp: in_range_def table_inv_def)
  have "BitMap_Test (int ?n) (tmap t) = Inr True"
    using Test_refines [of "tmap t" ?n] assms n by (simp add: table_inv_def)
  with m l n assms have "Table_Remove i t =
      Inr (table t ! ?n, t\<lparr>tmap := m, table := (table t)[?n := None]\<rparr>)"
    by (simp add: Table_Remove_def arr_get_def arr_set_def table_inv_def)
  moreover have "table_abs (t\<lparr>tmap := m, table := (table t)[?n := None]\<rparr>) = (table_abs t)(?n := None)"
    using m(4) by (auto simp: table_abs_def fun_eq_iff)
  moreover have "table_inv (t\<lparr>tmap := m, table := (table t)[?n := None]\<rparr>)"
    using m assms(1) by (simp add: table_inv_def)
  ultimately show ?thesis by blast
qed

section \<open>Properties\<close>

text \<open>
  A table slot round trip: on a well-formed table \<open>Put\<close> either reports \<open>-1\<close> and changes
  nothing, which happens exactly when every slot is taken, or returns a slot that was free, after
  which \<open>Get\<close> at that slot gives the item, every other slot is as before, and \<open>Remove\<close> gives the
  item back and leaves the table as it was, with \<open>Get\<close> at the slot then null.
\<close>

theorem table_put_get_remove:
  assumes "table_inv t"
  shows "\<exists>i t'. Table_Put f t = Inr (i, t') \<and> table_inv t' \<and>
           (i = -1 \<longleftrightarrow> (\<forall>j. int j < size t \<longrightarrow> table_abs t j \<noteq> None)) \<and>
           (i = -1 \<longrightarrow> t' = t) \<and>
           (i \<noteq> -1 \<longrightarrow> 0 \<le> i \<and> table_abs t (nat i) = None \<and>
              table_abs t' = (table_abs t)(nat i \<mapsto> f) \<and> Table_Get i t' = Inr f \<and>
              (\<exists>t2. Table_Remove i t' = Inr (f, t2) \<and> table_abs t2 = table_abs t \<and>
                 Table_Get i t2 = Inr None))"
proof -
  from Put_find_refines [OF assms] obtain i t1 where p: "Put_find t = Inr (i, t1)" "table_inv t1"
    "size t1 = size t" "table t1 = table t"
    "i = -1 \<longrightarrow> t1 = t \<and> bm_set (tmap t) = {i. int i < size t}"
    "i \<noteq> -1 \<longrightarrow> 0 \<le> i \<and> i < size t \<and> nat i \<notin> bm_set (tmap t) \<and>
       bm_set (tmap t1) = insert (nat i) (bm_set (tmap t))" by blast
  show ?thesis
  proof (cases "i = -1")
    case True
    then have "Table_Put f t = Inr (-1, t)" using p by (simp add: Table_Put_def Put_store_def)
    with True p assms show ?thesis by (auto simp: table_abs_def)
  next
    case False
    let ?t = "t1\<lparr>table := (table t1)[nat i := f]\<rparr>"
    note i = p(6) [rule_format, OF False]
    have s: "Put_store i f t1 = Inr ?t" and inv: "table_inv ?t"
      using Put_store_refines [OF p(2), of i f] i p(3) by auto
    have put: "Table_Put f t = Inr (i, ?t)" using p s by (simp add: Table_Put_def)
    have "nat i < length (table t1)" using i p assms by (auto simp: table_inv_def)
    then have abs: "table_abs ?t = (table_abs t)(nat i \<mapsto> f)"
      using i p(4) by (auto simp: table_abs_def fun_eq_iff nth_list_update)
    have get: "Table_Get i ?t = Inr f" using Get_refines [OF inv, of i] abs i by simp
    have "nat i \<in> bm_set (tmap ?t)" using i by simp
    from Remove_refines [OF inv _ this] i obtain t2 where t2: "Table_Remove i ?t = Inr (f, t2)"
      "table_inv t2" "table_abs t2 = (table_abs ?t)(nat i := None)"
      using \<open>nat i < length (table t1)\<close> by auto
    have "table_abs t (nat i) = None" using i by (simp add: table_abs_def)
    then have restored: "table_abs t2 = table_abs t" using t2(3) abs by (auto simp: fun_eq_iff)
    have "Table_Get i t2 = Inr None"
      using Get_refines [OF t2(2), of i] restored \<open>table_abs t (nat i) = None\<close> by simp
    moreover have "\<exists>j. int j < size t \<and> table_abs t j = None"
      using i \<open>table_abs t (nat i) = None\<close> by (intro exI [of _ "nat i"]) auto
    ultimately show ?thesis using False put inv abs get t2(1) restored i \<open>table_abs t (nat i) = None\<close>
      by (intro exI [of _ i] exI [of _ ?t]) auto
  qed
qed

theorem table_put_get_remove_witness:
  "\<exists>i t'. Table_Put (Some (7::nat)) \<lparr>tmap = \<lparr>numBits = 2, numWords = 1, bmap = [1]\<rparr>,
     table = [Some 3, None], size = 2\<rparr> = Inr (i, t') \<and> table_inv t'"
proof -
  have "table_inv \<lparr>tmap = \<lparr>numBits = 2, numWords = 1, bmap = [1]\<rparr>,
     table = [Some (3::nat), None], size = 2\<rparr>"
    by (simp add: table_inv_def bm_inv_def divRoundUp_def BitsInWord_def)
  from table_put_get_remove [OF this, of "Some 7"] show ?thesis by blast
qed

text \<open>
  Two files never get the same slot: when two threads are both in \<open>Put\<close>, each having taken its
  slot before either has stored its pointer, the slots differ, and whichever stores first, in the
  end each slot holds the item of the thread that took it.
\<close>

theorem table_concurrent_puts:
  assumes "table_inv t" and "Put_find t = Inr (i, t1)" and "Put_find t1 = Inr (j, t2)"
    and "i \<noteq> -1" and "j \<noteq> -1"
  shows "i \<noteq> j \<and> (\<exists>t3. bindE (Put_store i f t2) (Put_store j g) = Inr t3 \<and>
           bindE (Put_store j g t2) (Put_store i f) = Inr t3 \<and>
           Table_Get i t3 = Inr f \<and> Table_Get j t3 = Inr g)"
proof -
  have p: "table_inv t1" "size t1 = size t" "0 \<le> i" "i < size t"
    "bm_set (tmap t1) = insert (nat i) (bm_set (tmap t))"
    using Put_find_refines [OF assms(1)] assms(2,4) by auto
  have q: "table_inv t2" "size t2 = size t1" "0 \<le> j" "j < size t1" "nat j \<notin> bm_set (tmap t1)"
    "bm_set (tmap t2) = insert (nat j) (bm_set (tmap t1))"
    using Put_find_refines [OF p(1)] assms(3,5) by auto
  have ne: "i \<noteq> j" using p q by auto
  then have nn: "nat i \<noteq> nat j" using p q by auto
  let ?t = "t2\<lparr>table := (table t2)[nat i := f, nat j := g]\<rparr>"
  have s1: "Put_store i f t2 = Inr (t2\<lparr>table := (table t2)[nat i := f]\<rparr>)"
    "table_inv (t2\<lparr>table := (table t2)[nat i := f]\<rparr>)"
    using Put_store_refines [OF q(1), of i f] p q by auto
  have s2: "Put_store j g t2 = Inr (t2\<lparr>table := (table t2)[nat j := g]\<rparr>)"
    "table_inv (t2\<lparr>table := (table t2)[nat j := g]\<rparr>)"
    using Put_store_refines [OF q(1), of j g] p q by auto
  have a: "bindE (Put_store i f t2) (Put_store j g) = Inr ?t" and inv: "table_inv ?t"
    using Put_store_refines [OF s1(2), of j g] s1(1) p q by auto
  have b: "bindE (Put_store j g t2) (Put_store i f) = Inr ?t"
    using Put_store_refines [OF s2(2), of i f] s2(1) p q nn by (auto simp: list_update_swap)
  have l: "nat i < length (table t2)" "nat j < length (table t2)"
    using p q by (auto simp: table_inv_def)
  have "Table_Get i ?t = Inr f" "Table_Get j ?t = Inr g"
    using Get_refines [OF inv, of i] Get_refines [OF inv, of j] p q l nn
    by (simp_all add: table_abs_def)
  with ne a b show ?thesis by blast
qed

theorem table_concurrent_puts_witness:
  "\<exists>i j t1 t2 t3. Put_find \<lparr>tmap = \<lparr>numBits = 2, numWords = 1, bmap = [0]\<rparr>,
     table = [None, None], size = 2\<rparr> = Inr (i, t1) \<and> Put_find t1 = Inr (j, t2) \<and> i \<noteq> j \<and>
     bindE (Put_store i (Some (1::nat)) t2) (Put_store j (Some 2)) = Inr t3"
proof -
  let ?t = "\<lparr>tmap = \<lparr>numBits = 2, numWords = 1, bmap = [0]\<rparr>,
     table = [None, None], size = 2\<rparr> :: nat Table"
  have inv: "table_inv ?t" by (simp add: table_inv_def bm_inv_def divRoundUp_def BitsInWord_def)
  have f: "Put_find ?t = Inr (0, ?t\<lparr>tmap := \<lparr>numBits = 2, numWords = 1, bmap = [1]\<rparr>\<rparr>)"
    "Put_find (?t\<lparr>tmap := \<lparr>numBits = 2, numWords = 1, bmap = [1]\<rparr>\<rparr>) =
       Inr (1, ?t\<lparr>tmap := \<lparr>numBits = 2, numWords = 1, bmap = [3]\<rparr>\<rparr>)"
    by (simp_all add: Put_find_def BitMap_Find_def BitMap_Test_def BitMap_Mark_def BitsInWord_def
        arr_get_def arr_set_def in_range_def numeral_2_eq_2 push_bit_of_1)
  from table_concurrent_puts [OF inv f, of "Some 1" "Some 2"] f show ?thesis by auto
qed

end
