(* ===== verification/Nachos_Kernel.thy ===== *)
theory Nachos_Kernel
  imports Nachos_List
begin

text \<open>
  The scheduler and the thread operations (threads/scheduler.cc, threads/thread.cc): which thread
  has the CPU, the ready list, thread states, the interrupt level and the thread waiting to be
  deleted.  A thread is identified by a number (its address).  \<open>SWITCH\<close> suspends a thread in the
  middle of a C++ call; what the call has left to do is the thread's list of \<open>frame\<close>s, pushed when
  the thread goes to sleep.  The ready list is the item sequence that \<open>Nachos_List\<close> shows the
  pointer list to implement.
\<close>

type_synonym tid = nat

datatype ThreadStatus = JUST_CREATED | RUNNING | READY | BLOCKED

datatype IntStatus = IntOff | IntOn

text \<open>
  \<open>RestoreLevel\<close>: the closing \<open>SetLevel(oldLevel)\<close>.  \<open>SemRetry\<close>: back to the loop test of
  \<open>Semaphore::P\<close>.  \<open>AcquireDone\<close>: behind the \<open>Sleep\<close> of \<open>Lock::Acquire\<close>.  \<open>WaitReacquire\<close>: the
  \<open>Acquire\<close> at the end of \<open>Condition::Wait\<close>.  \<open>ThreadRoot\<close>: a forked thread that has not run yet.
  \<open>NotReached\<close>: behind the \<open>Sleep\<close> of \<open>Thread::Finish\<close>.
\<close>

datatype frame =
    RestoreLevel IntStatus
  | SemRetry nat
  | AcquireDone nat
  | WaitReacquire nat
  | ThreadRoot
  | NotReached

record kernel =
  threads :: "tid set"
  currentThread :: tid
  readyList :: "tid list"
  status :: "tid \<Rightarrow> ThreadStatus"
  frames :: "tid \<Rightarrow> frame list"
  fence_ok :: "tid \<Rightarrow> bool"
  level :: IntStatus
  threadToBeDestroyed :: "tid option"
  idling :: bool

section \<open>scheduler.cc\<close>

definition ReadyToRun :: "tid \<Rightarrow> 'k kernel_scheme \<Rightarrow> 'k kernel_scheme" where
  "ReadyToRun t k = k\<lparr>status := (status k)(t := READY), readyList := q_append t (readyList k)\<rparr>"

definition FindNextToRun :: "'k kernel_scheme \<Rightarrow> tid option \<times> 'k kernel_scheme" where
  "FindNextToRun k = (let (r, q) = q_remove (readyList k) in (r, k\<lparr>readyList := q\<rparr>))"

text \<open>\<open>delete threadToBeDestroyed\<close>, with the assertion of the destructor.\<close>

definition delete_thread :: "'k kernel_scheme \<Rightarrow> fault + 'k kernel_scheme" where
  "delete_thread k = (case threadToBeDestroyed k of
     None \<Rightarrow> Inr k
   | Some t \<Rightarrow> bindE (assertE (t \<noteq> currentThread k)) (\<lambda>_.
       Inr (k\<lparr>threads := threads k - {t}, threadToBeDestroyed := None\<rparr>)))"

text \<open>
  \<open>Run\<close>: the switch itself makes the rest of the function run on the new thread's stack, where
  that thread once called \<open>Run\<close>; a thread that has never run starts in \<open>ThreadRoot\<close> instead and
  does not get to the deletion.
\<close>

definition Run :: "tid \<Rightarrow> 'k kernel_scheme \<Rightarrow> fault + 'k kernel_scheme" where
  "Run nextThread k =
     bindE (assertE (fence_ok k (currentThread k))) (\<lambda>_.
     let k1 = k\<lparr>currentThread := nextThread, status := (status k)(nextThread := RUNNING)\<rparr> in
     if frames k1 nextThread = [ThreadRoot] then Inr k1 else delete_thread k1)"

section \<open>thread.cc\<close>

definition Thread_new :: "tid \<Rightarrow> 'k kernel_scheme \<Rightarrow> 'k kernel_scheme" where
  "Thread_new t k = k\<lparr>threads := insert t (threads k), status := (status k)(t := JUST_CREATED),
     frames := (frames k)(t := []), fence_ok := (fence_ok k)(t := True)\<rparr>"

definition Thread_Fork :: "tid \<Rightarrow> 'k kernel_scheme \<Rightarrow> 'k kernel_scheme" where
  "Thread_Fork t k = ReadyToRun t (k\<lparr>frames := (frames k)(t := [ThreadRoot])\<rparr>)"

text \<open>
  The loop of \<open>Sleep\<close>.  With nobody ready the CPU stays inside \<open>Interrupt::Idle\<close> until a device
  interrupt has run; \<open>idling\<close> marks that state, and the loop is entered again from there.
\<close>

definition Sleep_loop :: "'k kernel_scheme \<Rightarrow> fault + 'k kernel_scheme" where
  "Sleep_loop k = (case FindNextToRun k of
     (None, k1) \<Rightarrow> Inr (k1\<lparr>idling := True\<rparr>)
   | (Some nextThread, k1) \<Rightarrow> Run nextThread (k1\<lparr>idling := False\<rparr>))"

text \<open>\<open>Sleep\<close> by the current thread; \<open>fr\<close> is what its caller does when it returns.\<close>

definition Thread_Sleep :: "frame list \<Rightarrow> 'k kernel_scheme \<Rightarrow> fault + 'k kernel_scheme" where
  "Thread_Sleep fr k =
     bindE (assertE (level k = IntOff)) (\<lambda>_.
     let t = currentThread k in
     Sleep_loop (k\<lparr>status := (status k)(t := BLOCKED), frames := (frames k)(t := fr @ frames k t)\<rparr>))"

definition Thread_Finish :: "'k kernel_scheme \<Rightarrow> fault + 'k kernel_scheme" where
  "Thread_Finish k =
     Thread_Sleep [NotReached] (k\<lparr>level := IntOff, threadToBeDestroyed := Some (currentThread k)\<rparr>)"

definition Thread_Yield :: "'k kernel_scheme \<Rightarrow> fault + 'k kernel_scheme" where
  "Thread_Yield k =
     (let oldLevel = level k; k1 = k\<lparr>level := IntOff\<rparr>; t = currentThread k in
      case FindNextToRun k1 of
        (None, k2) \<Rightarrow> Inr (k2\<lparr>level := oldLevel\<rparr>)
      | (Some nextThread, k2) \<Rightarrow>
          Run nextThread (ReadyToRun t
            (k2\<lparr>frames := (frames k2)(t := RestoreLevel oldLevel # frames k2 t)\<rparr>)))"

section \<open>Scheduling order\<close>

lemma FindNextToRun_Nil: "readyList k = [] \<Longrightarrow> FindNextToRun k = (None, k)"
  by (simp add: FindNextToRun_def)

lemma FindNextToRun_Cons: "readyList k = t # ts \<Longrightarrow> FindNextToRun k = (Some t, k\<lparr>readyList := ts\<rparr>)"
  by (simp add: FindNextToRun_def)

lemma delete_thread_Inr:
  "delete_thread k = Inr k' \<Longrightarrow> \<exists>ths d. k' = k\<lparr>threads := ths, threadToBeDestroyed := d\<rparr>"
  by (cases k, cases "threadToBeDestroyed k") (auto simp: delete_thread_def bindE_eq_Inr)

text \<open>What a successful \<open>Run\<close> leaves unchanged, and what it sets.\<close>

lemma Run_Inr:
  assumes "Run t k = Inr k'"
  shows "\<exists>ths d. k' = k\<lparr>currentThread := t, status := (status k)(t := RUNNING), threads := ths,
           threadToBeDestroyed := d\<rparr>"
proof -
  let ?k1 = "k\<lparr>currentThread := t, status := (status k)(t := RUNNING)\<rparr>"
  have "k' = ?k1 \<or> delete_thread ?k1 = Inr k'"
    using assms by (auto simp: Run_def bindE_eq_Inr Let_def split: if_splits)
  moreover have "?k1 = ?k1\<lparr>threads := threads k, threadToBeDestroyed := threadToBeDestroyed k\<rparr>"
    by (cases k) simp
  ultimately show ?thesis
    using delete_thread_Inr [of ?k1 k'] by metis
qed

lemma Run_ok:
  assumes "fence_ok k (currentThread k)" "threadToBeDestroyed k \<noteq> Some t"
  shows "\<exists>k'. Run t k = Inr k'"
  using assms by (auto simp: Run_def delete_thread_def Let_def split: option.splits)

lemma Run_deletes:
  assumes "fence_ok k (currentThread k)" "threadToBeDestroyed k = Some d" "d \<noteq> t"
    "frames k t \<noteq> [ThreadRoot]"
  shows "\<exists>k'. Run t k = Inr k' \<and> threads k' = threads k - {d} \<and> threadToBeDestroyed k' = None"
  using assms by (simp add: Run_def delete_thread_def Let_def)

text \<open>What \<open>Sleep\<close> does with a non-empty and with an empty ready list.\<close>

lemma Sleep_switch:
  assumes "Thread_Sleep fr k = Inr k'" "readyList k = n # ns"
  shows "level k = IntOff \<and> (\<exists>ths d.
    k' = k\<lparr>currentThread := n, readyList := ns,
           status := (status k)(currentThread k := BLOCKED, n := RUNNING),
           frames := (frames k)(currentThread k := fr @ frames k (currentThread k)),
           idling := False, threads := ths, threadToBeDestroyed := d\<rparr>)"
proof -
  let ?t = "currentThread k"
  let ?k1 = "k\<lparr>status := (status k)(?t := BLOCKED), frames := (frames k)(?t := fr @ frames k ?t)\<rparr>"
  have "level k = IntOff" and
    "Run n (?k1\<lparr>readyList := ns, idling := False\<rparr>) = Inr k'"
    using assms by (auto simp: Thread_Sleep_def Sleep_loop_def FindNextToRun_Cons bindE_eq_Inr Let_def)
  moreover from Run_Inr [OF this(2)] obtain ths d where
    "k' = (?k1\<lparr>readyList := ns, idling := False\<rparr>)\<lparr>currentThread := n,
       status := (status ?k1)(n := RUNNING), threads := ths, threadToBeDestroyed := d\<rparr>" by auto
  ultimately show ?thesis by (intro conjI exI [of _ ths] exI [of _ d]) (cases k; simp)+
qed

lemma Run_threads:
  assumes "Run t k = Inr k'"
  shows "threads k' = threads k \<and> threadToBeDestroyed k' = threadToBeDestroyed k \<or>
    (\<exists>d. threadToBeDestroyed k = Some d \<and> threads k' = threads k - {d} \<and> threadToBeDestroyed k' = None)"
  using assms by (auto simp: Run_def delete_thread_def Let_def bindE_eq_Inr split: if_splits option.splits)

lemma Sleep_threads:
  assumes "Thread_Sleep fr k = Inr k'"
  shows "threads k' = threads k \<and> threadToBeDestroyed k' = threadToBeDestroyed k \<or>
    (\<exists>d. threadToBeDestroyed k = Some d \<and> threads k' = threads k - {d} \<and> threadToBeDestroyed k' = None)"
proof (cases "readyList k")
  case Nil
  with assms show ?thesis
    by (auto simp: Thread_Sleep_def Sleep_loop_def FindNextToRun_Nil bindE_eq_Inr Let_def)
next
  case (Cons n ns)
  let ?k = "k\<lparr>status := (status k)(currentThread k := BLOCKED),
      frames := (frames k)(currentThread k := fr @ frames k (currentThread k)),
      readyList := ns, idling := False\<rparr>"
  have "Run n ?k = Inr k'"
    using assms Cons by (auto simp: Thread_Sleep_def Sleep_loop_def FindNextToRun_Cons bindE_eq_Inr Let_def)
  from Run_threads [OF this] show ?thesis by simp
qed

lemma Sleep_idle:
  assumes "Thread_Sleep fr k = Inr k'" "readyList k = []"
  shows "level k = IntOff \<and>
    k' = k\<lparr>status := (status k)(currentThread k := BLOCKED),
           frames := (frames k)(currentThread k := fr @ frames k (currentThread k)),
           idling := True\<rparr>"
  using assms by (auto simp: Thread_Sleep_def Sleep_loop_def FindNextToRun_Nil bindE_eq_Inr Let_def)

lemma Yield_cases:
  assumes "Thread_Yield k = Inr k'"
  shows "(readyList k = [] \<and> k' = k) \<or>
    (\<exists>n ns ths d. readyList k = n # ns \<and>
      k' = k\<lparr>currentThread := n, readyList := ns @ [currentThread k], level := IntOff,
           status := (status k)(currentThread k := READY, n := RUNNING),
           frames := (frames k)(currentThread k := RestoreLevel (level k) # frames k (currentThread k)),
           threads := ths, threadToBeDestroyed := d\<rparr>)"
proof (cases "readyList k")
  case Nil
  then have "k' = k" using assms by (cases k) (simp add: Thread_Yield_def FindNextToRun_Nil Let_def)
  with Nil show ?thesis by simp
next
  case (Cons n ns)
  let ?t = "currentThread k"
  let ?k1 = "k\<lparr>level := IntOff, readyList := ns,
    frames := (frames k)(?t := RestoreLevel (level k) # frames k ?t)\<rparr>"
  have "Run n (ReadyToRun ?t ?k1) = Inr k'"
    using assms Cons by (simp add: Thread_Yield_def FindNextToRun_Cons Let_def)
  from Run_Inr [OF this] obtain ths d where
    "k' = (ReadyToRun ?t ?k1)\<lparr>currentThread := n,
       status := (status (ReadyToRun ?t ?k1))(n := RUNNING), threads := ths, threadToBeDestroyed := d\<rparr>"
    by blast
  then have "k' = k\<lparr>currentThread := n, readyList := ns @ [?t], level := IntOff,
           status := (status k)(?t := READY, n := RUNNING),
           frames := (frames k)(?t := RestoreLevel (level k) # frames k ?t),
           threads := ths, threadToBeDestroyed := d\<rparr>"
    by (cases k) (simp add: ReadyToRun_def q_append_def)
  with Cons show ?thesis by blast
qed

section \<open>The scheduling invariant\<close>

text \<open>
  \<open>wq\<close> gives the wait queues of the synchronization objects.  Exactly the \<open>READY\<close> threads are on
  the ready list, once; at most one thread runs; a \<open>BLOCKED\<close> thread is in exactly one wait queue
  unless it has finished; and only finished threads are ever deleted.
\<close>

definition kernel_inv :: "'k kernel_scheme \<Rightarrow> ('q \<Rightarrow> tid list) \<Rightarrow> bool" where
  "kernel_inv k wq \<longleftrightarrow>
     distinct (readyList k) \<and>
     (\<forall>t. t \<in> set (readyList k) \<longleftrightarrow> status k t = READY) \<and>
     (\<forall>t. status k t = RUNNING \<longleftrightarrow> t = currentThread k \<and> \<not> idling k) \<and>
     (\<forall>q. distinct (wq q)) \<and>
     (\<forall>t q q'. t \<in> set (wq q) \<and> t \<in> set (wq q') \<longrightarrow> q = q') \<and>
     (\<forall>t. status k t = BLOCKED \<longleftrightarrow> (\<exists>q. t \<in> set (wq q)) \<or> NotReached \<in> set (frames k t)) \<and>
     (\<forall>t q. NotReached \<in> set (frames k t) \<longrightarrow> t \<notin> set (wq q)) \<and>
     (\<forall>t. t \<notin> threads k \<longrightarrow> status k t = JUST_CREATED \<or> NotReached \<in> set (frames k t)) \<and>
     (\<forall>d. threadToBeDestroyed k = Some d \<longrightarrow> d \<in> threads k \<and> NotReached \<in> set (frames k d))"

lemma kernel_invD:
  assumes "kernel_inv k wq"
  shows "distinct (readyList k)"
    and "t \<in> set (readyList k) \<longleftrightarrow> status k t = READY"
    and "status k t = RUNNING \<longleftrightarrow> t = currentThread k \<and> \<not> idling k"
    and "distinct (wq q)"
    and "t \<in> set (wq q) \<Longrightarrow> t \<in> set (wq q') \<Longrightarrow> q = q'"
    and "status k t = BLOCKED \<longleftrightarrow> (\<exists>q. t \<in> set (wq q)) \<or> NotReached \<in> set (frames k t)"
    and "NotReached \<in> set (frames k t) \<Longrightarrow> t \<notin> set (wq q)"
    and "t \<notin> threads k \<Longrightarrow> status k t = JUST_CREATED \<or> NotReached \<in> set (frames k t)"
    and "threadToBeDestroyed k = Some d \<Longrightarrow> d \<in> threads k \<and> NotReached \<in> set (frames k d)"
  using assms unfolding kernel_inv_def by blast+

lemma kernel_inv_waiting: "kernel_inv k wq \<Longrightarrow> t \<in> set (wq q) \<Longrightarrow> status k t = BLOCKED"
  using kernel_invD(6) by metis

lemma kernel_inv_current:
  assumes "kernel_inv k wq" "\<not> idling k"
  shows "status k (currentThread k) = RUNNING"
    and "currentThread k \<notin> set (wq q)"
    and "NotReached \<notin> set (frames k (currentThread k))"
    and "currentThread k \<notin> set (readyList k)"
    and "currentThread k \<in> threads k"
proof -
  show st: "status k (currentThread k) = RUNNING" using kernel_invD(3) [OF assms(1)] assms(2) by simp
  then have nb: "status k (currentThread k) \<noteq> BLOCKED" by simp
  then show "currentThread k \<notin> set (wq q)" using kernel_inv_waiting [OF assms(1)] by metis
  show "NotReached \<notin> set (frames k (currentThread k))" using kernel_invD(6) [OF assms(1)] nb by metis
  then show "currentThread k \<in> threads k" using kernel_invD(8) [OF assms(1)] st by fastforce
  show "currentThread k \<notin> set (readyList k)" using kernel_invD(2) [OF assms(1)] st by simp
qed

lemma kernel_inv_level [simp]: "kernel_inv (k\<lparr>level := l\<rparr>) wq = kernel_inv k wq"
  by (simp add: kernel_inv_def)

lemma kernel_inv_frames:
  assumes "kernel_inv k wq" "\<not> idling k" "NotReached \<notin> set fs"
  shows "kernel_inv (k\<lparr>frames := (frames k)(currentThread k := fs)\<rparr>) wq"
proof -
  have "(NotReached \<in> set (((frames k)(currentThread k := fs)) t)) = (NotReached \<in> set (frames k t))" for t
    using kernel_inv_current(3) [OF assms(1,2)] assms(3) by simp
  with assms(1) show ?thesis unfolding kernel_inv_def by simp
qed

lemma waiting_update:
  assumes "kernel_inv k wq" "wq q = t # ts"
  shows "(\<exists>p. u \<in> set ((wq(q := ts)) p)) \<longleftrightarrow> (\<exists>p. u \<in> set (wq p)) \<and> u \<noteq> t"
proof -
  have d: "t \<notin> set ts" using kernel_invD(4) [OF assms(1), of q] assms(2) by simp
  have only: "t \<in> set (wq p) \<Longrightarrow> p = q" for p using kernel_invD(5) [OF assms(1)] assms(2) by fastforce
  show ?thesis
  proof (cases "u = t")
    case True
    with d only show ?thesis by auto
  next
    case False
    then have "u \<in> set ((wq(q := ts)) p) \<longleftrightarrow> u \<in> set (wq p)" for p using assms(2) by auto
    with False show ?thesis by simp
  qed
qed

lemma wake_inv:
  assumes K: "kernel_inv k wq" and "wq q = t # ts"
  shows "kernel_inv (ReadyToRun t k) (wq(q := ts))"
proof -
  note D = kernel_invD [OF K]
  have t: "t \<in> set (wq q)" "t \<notin> set ts" "distinct ts" using D(4) [of q] assms(2) by auto
  have b: "status k t = BLOCKED" using kernel_inv_waiting [OF K t(1)] .
  have nr: "NotReached \<notin> set (frames k t)" using D(7) t(1) by blast
  have sub: "set ((wq(q := ts)) p) \<subseteq> set (wq p)" for p using assms(2) by auto
  show ?thesis
    unfolding kernel_inv_def
  proof (intro conjI allI impI)
    fix u show "status (ReadyToRun t k) u = BLOCKED \<longleftrightarrow>
        (\<exists>p. u \<in> set ((wq(q := ts)) p)) \<or> NotReached \<in> set (frames (ReadyToRun t k) u)"
      unfolding waiting_update [OF K assms(2)] using D(6) [of u] nr by (auto simp: ReadyToRun_def)
  next
    fix u show "u \<in> set (readyList (ReadyToRun t k)) \<longleftrightarrow> status (ReadyToRun t k) u = READY"
      using D(2) [of u] by (simp add: ReadyToRun_def)
  next
    fix u show "status (ReadyToRun t k) u = RUNNING \<longleftrightarrow>
        u = currentThread (ReadyToRun t k) \<and> \<not> idling (ReadyToRun t k)"
      using D(3) [of u] b by (auto simp: ReadyToRun_def)
  next
    fix u assume "u \<notin> threads (ReadyToRun t k)"
    then show "status (ReadyToRun t k) u = JUST_CREATED \<or> NotReached \<in> set (frames (ReadyToRun t k) u)"
      using D(8) [of u] b nr by (auto simp: ReadyToRun_def)
  next
    fix p show "distinct ((wq(q := ts)) p)" using D(4) t(3) by simp
  next
    fix u p p' assume "u \<in> set ((wq(q := ts)) p) \<and> u \<in> set ((wq(q := ts)) p')"
    then show "p = p'" using D(5) sub by blast
  next
    fix u p assume "NotReached \<in> set (frames (ReadyToRun t k) u)"
    then show "u \<notin> set ((wq(q := ts)) p)" using D(7) sub [of p] by (auto simp: ReadyToRun_def)
  qed (use D(1,2,9) b in \<open>auto simp: ReadyToRun_def\<close>)
qed

lemma kernel_inv_delete:
  assumes "kernel_inv k wq" "NotReached \<in> set (frames k d)"
  shows "kernel_inv (k\<lparr>threads := threads k - {d}, threadToBeDestroyed := None\<rparr>) wq"
  unfolding kernel_inv_def
proof (intro conjI allI impI)
  fix t assume "t \<notin> threads (k\<lparr>threads := threads k - {d}, threadToBeDestroyed := None\<rparr>)"
  with kernel_invD(8) [OF assms(1), of t] assms(2)
  show "status (k\<lparr>threads := threads k - {d}, threadToBeDestroyed := None\<rparr>) t = JUST_CREATED \<or>
      NotReached \<in> set (frames (k\<lparr>threads := threads k - {d}, threadToBeDestroyed := None\<rparr>) t)"
    by (cases "t = d") simp_all
qed (use kernel_invD [OF assms(1)] in auto)

text \<open>Switching to the head of the ready list, once the current thread has left the CPU.\<close>

lemma Run_inv:
  assumes r: "Run n k = Inr k'"
    and nr: "status k n = READY"
    and K: "kernel_inv (k\<lparr>readyList := n # readyList k, idling := True\<rparr>) wq"
    and i: "\<not> idling k"
  shows "kernel_inv k' wq"
proof -
  note D = kernel_invD [OF K, simplified]
  let ?k1 = "k\<lparr>currentThread := n, status := (status k)(n := RUNNING)\<rparr>"
  have K1: "kernel_inv ?k1 wq"
    unfolding kernel_inv_def
  proof (intro conjI allI impI)
    fix u show "u \<in> set (readyList ?k1) \<longleftrightarrow> status ?k1 u = READY"
      using D(1) D(2) [of u] by auto
  next
    fix u show "status ?k1 u = BLOCKED \<longleftrightarrow> (\<exists>q. u \<in> set (wq q)) \<or> NotReached \<in> set (frames ?k1 u)"
      using D(6) [of u] nr by auto
  next
    fix u assume "u \<notin> threads ?k1"
    then show "status ?k1 u = JUST_CREATED \<or> NotReached \<in> set (frames ?k1 u)"
      using D(8) [of u] nr D(6) [of u] by auto
  qed (use D i in auto)
  have "kernel_inv k'' wq" if "delete_thread ?k1 = Inr k''" for k''
  proof (cases "threadToBeDestroyed k")
    case None
    with that K1 show ?thesis by (simp add: delete_thread_def)
  next
    case (Some d)
    then have "k'' = ?k1\<lparr>threads := threads k - {d}, threadToBeDestroyed := None\<rparr>"
      using that by (auto simp: delete_thread_def bindE_eq_Inr)
    moreover have "NotReached \<in> set (frames k d)" using D(9) Some by blast
    ultimately show ?thesis using kernel_inv_delete [OF K1, of d] by simp
  qed
  with r K1 show ?thesis by (auto simp: Run_def bindE_eq_Inr Let_def split: if_splits)
qed

text \<open>
  The state \<open>Sleep\<close> and its loop work on: the current thread has marked itself \<open>BLOCKED\<close>, in a
  wait queue or finished.
\<close>

lemma Sleep_loop_inv:
  assumes K: "kernel_inv (k\<lparr>idling := True\<rparr>) wq" and s: "Sleep_loop k = Inr k'"
  shows "kernel_inv k' wq"
proof (cases "readyList k")
  case Nil
  with s have "k' = k\<lparr>idling := True\<rparr>" by (simp add: Sleep_loop_def FindNextToRun_Nil)
  with K show ?thesis by simp
next
  case (Cons n ns)
  have r: "Run n (k\<lparr>readyList := ns, idling := False\<rparr>) = Inr k'"
    using s Cons by (simp add: Sleep_loop_def FindNextToRun_Cons)
  have n: "status k n = READY" using kernel_invD(2) [OF K, of n] Cons by simp
  have e: "k\<lparr>readyList := n # ns, idling := True\<rparr> = k\<lparr>idling := True\<rparr>" using Cons by (cases k) simp
  show ?thesis
    by (rule Run_inv [OF r]) (use n K in \<open>simp_all add: e\<close>)
qed

lemma block_inv:
  assumes K: "kernel_inv k wq" and i: "\<not> idling k" and fr: "NotReached \<notin> set fr"
  shows "kernel_inv (k\<lparr>status := (status k)(currentThread k := BLOCKED),
           frames := (frames k)(currentThread k := fr @ frames k (currentThread k)), idling := True\<rparr>)
         (wq(q := q_append (currentThread k) (wq q)))" (is "kernel_inv ?k ?wq")
proof -
  note D = kernel_invD [OF K]
  note C = kernel_inv_current [OF K i]
  let ?t = "currentThread k"
  have w: "u \<in> set (?wq p) \<longleftrightarrow> u \<in> set (wq p) \<or> u = ?t \<and> p = q" for u p by auto
  have nr: "NotReached \<in> set (frames ?k u) \<longleftrightarrow> NotReached \<in> set (frames k u)" for u
    using fr C(3) by simp
  show ?thesis
    unfolding kernel_inv_def nr w
  proof (intro conjI allI impI)
    fix u show "u \<in> set (readyList ?k) \<longleftrightarrow> status ?k u = READY"
      using D(2) [of u] C(4) by auto
  next
    fix u show "status ?k u = RUNNING \<longleftrightarrow> u = currentThread ?k \<and> \<not> idling ?k"
      using D(3) [of u] by auto
  next
    fix u show "status ?k u = BLOCKED \<longleftrightarrow>
        (\<exists>p. u \<in> set (wq p) \<or> u = ?t \<and> p = q) \<or> NotReached \<in> set (frames k u)"
      using D(6) [of u] by auto
  next
    fix u p p' assume "(u \<in> set (wq p) \<or> u = ?t \<and> p = q) \<and> (u \<in> set (wq p') \<or> u = ?t \<and> p' = q)"
    then show "p = p'" using D(5) [of u] C(2) by auto
  next
    fix u p assume "NotReached \<in> set (frames k u)"
    then show "\<not> (u \<in> set (wq p) \<or> u = ?t \<and> p = q)" using D(7) [of u p] C(3) by auto
  next
    fix u assume "u \<notin> threads ?k"
    then show "status ?k u = JUST_CREATED \<or> NotReached \<in> set (frames k u)"
      using D(8) [of u] C(5) by auto
  qed (use D C in auto)
qed

lemma sleep_inv:
  assumes "kernel_inv k wq" "\<not> idling k" "NotReached \<notin> set fr" "Thread_Sleep fr k = Inr k'"
  shows "kernel_inv k' (wq(q := q_append (currentThread k) (wq q)))"
proof -
  let ?k = "k\<lparr>status := (status k)(currentThread k := BLOCKED),
      frames := (frames k)(currentThread k := fr @ frames k (currentThread k))\<rparr>"
  have s: "Sleep_loop ?k = Inr k'" using assms(4) by (auto simp: Thread_Sleep_def bindE_eq_Inr Let_def)
  show ?thesis
    by (rule Sleep_loop_inv [OF _ s]) (use block_inv [OF assms(1-3), of q] in simp)
qed

lemma finish_inv:
  assumes K: "kernel_inv k wq" and i: "\<not> idling k" and f: "Thread_Finish k = Inr k'"
  shows "kernel_inv k' wq"
proof -
  note D = kernel_invD [OF K]
  note C = kernel_inv_current [OF K i]
  let ?t = "currentThread k"
  let ?k = "k\<lparr>level := IntOff, threadToBeDestroyed := Some ?t, status := (status k)(?t := BLOCKED),
      frames := (frames k)(?t := NotReached # frames k ?t)\<rparr>"
  have s: "Sleep_loop ?k = Inr k'"
    using f by (auto simp: Thread_Finish_def Thread_Sleep_def bindE_eq_Inr Let_def)
  have nr: "NotReached \<in> set (frames ?k u) \<longleftrightarrow> u = ?t \<or> NotReached \<in> set (frames k u)" for u
    by simp
  have "kernel_inv (?k\<lparr>idling := True\<rparr>) wq"
    unfolding kernel_inv_def
  proof (intro conjI allI impI)
    fix u show "u \<in> set (readyList (?k\<lparr>idling := True\<rparr>)) \<longleftrightarrow> status (?k\<lparr>idling := True\<rparr>) u = READY"
      using D(2) [of u] C(4) by auto
  next
    fix u show "status (?k\<lparr>idling := True\<rparr>) u = BLOCKED \<longleftrightarrow>
        (\<exists>p. u \<in> set (wq p)) \<or> NotReached \<in> set (frames (?k\<lparr>idling := True\<rparr>) u)"
      using D(6) [of u] nr [of u] by auto
  next
    fix u p assume "NotReached \<in> set (frames (?k\<lparr>idling := True\<rparr>) u)"
    then show "u \<notin> set (wq p)" using D(7) [of u p] C(2) nr [of u] by auto
  next
    fix u assume "u \<notin> threads (?k\<lparr>idling := True\<rparr>)"
    then show "status (?k\<lparr>idling := True\<rparr>) u = JUST_CREATED \<or>
        NotReached \<in> set (frames (?k\<lparr>idling := True\<rparr>) u)"
      using D(8) [of u] C(5) nr [of u] by auto
  qed (use D C in auto)
  from Sleep_loop_inv [OF this s] show ?thesis .
qed

lemma yield_inv:
  assumes K: "kernel_inv k wq" and i: "\<not> idling k" and y: "Thread_Yield k = Inr k'"
  shows "kernel_inv k' wq"
proof (cases "readyList k")
  case Nil
  then have "k' = k" using Yield_cases [OF y] by simp
  with K show ?thesis by simp
next
  case (Cons n ns)
  note D = kernel_invD [OF K]
  note C = kernel_inv_current [OF K i]
  let ?t = "currentThread k"
  let ?k = "ReadyToRun ?t (k\<lparr>level := IntOff, readyList := ns,
      frames := (frames k)(?t := RestoreLevel (level k) # frames k ?t)\<rparr>)"
  have r: "Run n ?k = Inr k'" using y Cons by (simp add: Thread_Yield_def FindNextToRun_Cons Let_def)
  have n: "status k n = READY" "n \<noteq> ?t" using D(2) [of n] C(1) Cons by auto
  have R: "n # ns @ [?t] = readyList k @ [?t]" using Cons by simp
  have "kernel_inv (?k\<lparr>readyList := n # readyList ?k, idling := True\<rparr>) wq" (is "kernel_inv ?k1 wq")
    unfolding kernel_inv_def
  proof (intro conjI allI impI)
    show "distinct (readyList ?k1)" using D(1) C(4) Cons by (auto simp: ReadyToRun_def q_append_def)
  next
    fix u show "u \<in> set (readyList ?k1) \<longleftrightarrow> status ?k1 u = READY"
      using D(2) [of u] Cons by (auto simp: ReadyToRun_def q_append_def)
  next
    fix u show "status ?k1 u = RUNNING \<longleftrightarrow> u = currentThread ?k1 \<and> \<not> idling ?k1"
      using D(3) [of u] i by (auto simp: ReadyToRun_def)
  next
    fix u show "status ?k1 u = BLOCKED \<longleftrightarrow>
        (\<exists>p. u \<in> set (wq p)) \<or> NotReached \<in> set (frames ?k1 u)"
      using D(6) [of u] C by (auto simp: ReadyToRun_def)
  next
    fix u assume "u \<notin> threads ?k1"
    then show "status ?k1 u = JUST_CREATED \<or> NotReached \<in> set (frames ?k1 u)"
      using D(8) [of u] C(5) by (auto simp: ReadyToRun_def)
  next
    fix u p assume "NotReached \<in> set (frames ?k1 u)"
    then show "u \<notin> set (wq p)" using D(7) [of u p] C(3) by (auto simp: ReadyToRun_def split: if_splits)
  next
    fix d assume "threadToBeDestroyed ?k1 = Some d"
    then show "d \<in> threads ?k1" using D(9) [of d] by (simp add: ReadyToRun_def)
  next
    fix d assume "threadToBeDestroyed ?k1 = Some d"
    then show "NotReached \<in> set (frames ?k1 d)" using D(9) [of d] C(3) by (auto simp: ReadyToRun_def)
  next
    fix u q q' assume "u \<in> set (wq q) \<and> u \<in> set (wq q')"
    then show "q = q'" using D(5) by blast
  qed (use D(4) in simp)
  with n i show ?thesis by (intro Run_inv [OF r]) (simp_all add: ReadyToRun_def)
qed

lemma fork_inv:
  assumes K: "kernel_inv k wq" and t: "t \<notin> threads k" and i: "\<not> idling k"
  shows "kernel_inv (Thread_Fork t (Thread_new t k)) wq" (is "kernel_inv ?k wq")
proof -
  note D = kernel_invD [OF K]
  have st: "status k t = JUST_CREATED \<or> NotReached \<in> set (frames k t)" using D(8) t by blast
  have w: "t \<notin> set (wq q)" for q using st D(6) [of t] D(7) [of t] by auto
  have nrun: "status k t \<noteq> RUNNING" "status k t \<noteq> READY" using st D(6) [of t] by auto
  show ?thesis
    unfolding kernel_inv_def
  proof (intro conjI allI impI)
    show "distinct (readyList ?k)"
      using D(1) D(2) [of t] nrun by (simp add: Thread_Fork_def Thread_new_def ReadyToRun_def)
  next
    fix u show "u \<in> set (readyList ?k) \<longleftrightarrow> status ?k u = READY"
      using D(2) [of u] by (simp add: Thread_Fork_def Thread_new_def ReadyToRun_def)
  next
    fix u show "status ?k u = RUNNING \<longleftrightarrow> u = currentThread ?k \<and> \<not> idling ?k"
      using D(3) [of u] nrun by (auto simp: Thread_Fork_def Thread_new_def ReadyToRun_def)
  next
    fix u show "status ?k u = BLOCKED \<longleftrightarrow>
        (\<exists>p. u \<in> set (wq p)) \<or> NotReached \<in> set (frames ?k u)"
      using D(6) [of u] w by (auto simp: Thread_Fork_def Thread_new_def ReadyToRun_def)
  next
    fix u assume "u \<notin> threads ?k"
    then show "status ?k u = JUST_CREATED \<or> NotReached \<in> set (frames ?k u)"
      using D(8) [of u] by (simp add: Thread_Fork_def Thread_new_def ReadyToRun_def)
  next
    fix u p assume "NotReached \<in> set (frames ?k u)"
    then show "u \<notin> set (wq p)" using D(7) [of u p] w
      by (auto simp: Thread_Fork_def Thread_new_def ReadyToRun_def split: if_splits)
  next
    fix d assume "threadToBeDestroyed ?k = Some d"
    then show "d \<in> threads ?k"
      using D(9) [of d] by (simp add: Thread_Fork_def Thread_new_def ReadyToRun_def)
  next
    fix d assume "threadToBeDestroyed ?k = Some d"
    then show "NotReached \<in> set (frames ?k d)"
      using D(9) [of d] t by (auto simp: Thread_Fork_def Thread_new_def ReadyToRun_def)
  next
    fix u q q' assume "u \<in> set (wq q) \<and> u \<in> set (wq q')"
    then show "q = q'" using D(5) by blast
  qed (use D(4) in simp)
qed

text \<open>None of the assertions in \<open>Sleep\<close>, \<open>Run\<close> and the destructor fails.\<close>

lemma Sleep_loop_ok:
  assumes K: "kernel_inv (k\<lparr>idling := True\<rparr>) wq" and f: "fence_ok k (currentThread k)"
  shows "\<exists>k'. Sleep_loop k = Inr k'"
proof (cases "readyList k")
  case Nil
  then show ?thesis by (simp add: Sleep_loop_def FindNextToRun_Nil)
next
  case (Cons n ns)
  note D = kernel_invD [OF K, simplified]
  have "status k n = READY" using D(2) [of n] Cons by simp
  then have "NotReached \<notin> set (frames k n)" using D(6) [of n] by auto
  then have "threadToBeDestroyed k \<noteq> Some n" using D(9) [of n] by auto
  then have "\<exists>k'. Run n (k\<lparr>readyList := ns, idling := False\<rparr>) = Inr k'" using f by (intro Run_ok) simp_all
  then show ?thesis using Cons by (simp add: Sleep_loop_def FindNextToRun_Cons)
qed

lemma sleep_ok:
  assumes "kernel_inv k wq" "\<not> idling k" "NotReached \<notin> set fr" "level k = IntOff"
    "fence_ok k (currentThread k)"
  shows "\<exists>k'. Thread_Sleep fr k = Inr k'"
proof -
  let ?k = "k\<lparr>status := (status k)(currentThread k := BLOCKED),
      frames := (frames k)(currentThread k := fr @ frames k (currentThread k))\<rparr>"
  have "\<exists>k'. Sleep_loop ?k = Inr k'"
    by (rule Sleep_loop_ok) (use block_inv [OF assms(1-3)] assms(5) in simp_all)
  then show ?thesis using assms(4) by (simp add: Thread_Sleep_def Let_def)
qed

lemma yield_ok:
  assumes K: "kernel_inv k wq" and f: "fence_ok k (currentThread k)"
  shows "\<exists>k'. Thread_Yield k = Inr k'"
proof (cases "readyList k")
  case Nil
  then show ?thesis by (simp add: Thread_Yield_def FindNextToRun_Nil Let_def)
next
  case (Cons n ns)
  note D = kernel_invD [OF K]
  have "status k n = READY" using D(2) [of n] Cons by simp
  then have "NotReached \<notin> set (frames k n)" using D(6) [of n] by auto
  then have "threadToBeDestroyed k \<noteq> Some n" using D(9) [of n] by auto
  then show ?thesis using Cons f
    by (auto simp: Thread_Yield_def FindNextToRun_Cons Let_def ReadyToRun_def intro!: Run_ok)
qed

end
