(* ===== verification/Nachos_Synch.thy ===== *)
theory Nachos_Synch
  imports Nachos_Kernel
begin

text \<open>
  Semaphores, locks and condition variables (threads/synch.cc) on top of the scheduler.  Each
  operation is a function on the whole system state and runs with interrupts off; when it sleeps,
  what is left of it is pushed on the caller's frames and run by \<open>resume\<close> when the thread is
  switched to again.  \<open>step\<close> interleaves the operations of all threads, time slices and device
  interrupts.  Objects are identified by numbers (their addresses).
\<close>

record Semaphore =
  svalue :: int
  squeue :: "tid list"

record Lock =
  free :: bool
  ownerThread :: "tid option"
  lqueue :: "tid list"

record Condition =
  waitingLock :: "nat option"
  cqueue :: "tid list"

record sys = kernel +
  sems :: "nat \<Rightarrow> Semaphore"
  locks :: "nat \<Rightarrow> Lock"
  conds :: "nat \<Rightarrow> Condition"

definition Semaphore_new :: "int \<Rightarrow> Semaphore" where
  "Semaphore_new initialValue = \<lparr>svalue = initialValue, squeue = []\<rparr>"

definition Lock_new :: Lock where
  "Lock_new = \<lparr>free = True, ownerThread = None, lqueue = []\<rparr>"

definition Condition_new :: Condition where
  "Condition_new = \<lparr>waitingLock = None, cqueue = []\<rparr>"

section \<open>Semaphores\<close>

text \<open>The loop of \<open>P\<close>: either go to sleep in the semaphore's queue, or take a unit.\<close>

definition P_wait :: "nat \<Rightarrow> frame list \<Rightarrow> sys \<Rightarrow> fault + sys" where
  "P_wait m fr s =
     Thread_Sleep (SemRetry m # fr)
       (s\<lparr>sems := (sems s)(m := (sems s m)\<lparr>squeue := q_append (currentThread s) (squeue (sems s m))\<rparr>)\<rparr>)"

definition P_take :: "nat \<Rightarrow> sys \<Rightarrow> sys" where
  "P_take m s = s\<lparr>sems := (sems s)(m := (sems s m)\<lparr>svalue := svalue (sems s m) - 1\<rparr>)\<rparr>"

definition Semaphore_P :: "nat \<Rightarrow> sys \<Rightarrow> fault + sys" where
  "Semaphore_P m s =
     (let oldLevel = level s; s1 = s\<lparr>level := IntOff\<rparr> in
      if svalue (sems s m) = 0 then P_wait m [RestoreLevel oldLevel] s1
      else Inr ((P_take m s1)\<lparr>level := oldLevel\<rparr>))"

definition Semaphore_V :: "nat \<Rightarrow> sys \<Rightarrow> sys" where
  "Semaphore_V m s =
     (let oldLevel = level s; (thread, q) = q_remove (squeue (sems s m));
          s1 = s\<lparr>level := IntOff, sems := (sems s)(m := (sems s m)\<lparr>squeue := q\<rparr>)\<rparr>;
          s2 = (case thread of None \<Rightarrow> s1 | Some t \<Rightarrow> ReadyToRun t s1) in
      s2\<lparr>sems := (sems s2)(m := (sems s2 m)\<lparr>svalue := svalue (sems s2 m) + 1\<rparr>), level := oldLevel\<rparr>)"

section \<open>Locks\<close>

definition isHeldByCurrentThread :: "nat \<Rightarrow> sys \<Rightarrow> bool" where
  "isHeldByCurrentThread l s \<longleftrightarrow> ownerThread (locks s l) = Some (currentThread s)"

definition Lock_Acquire :: "nat \<Rightarrow> sys \<Rightarrow> fault + sys" where
  "Lock_Acquire l s =
     (let oldLevel = level s; s1 = s\<lparr>level := IntOff\<rparr> in
      if isHeldByCurrentThread l s1 then Inr (s1\<lparr>level := oldLevel\<rparr>)
      else if free (locks s1 l) then
        Inr (s1\<lparr>locks := (locks s1)(l := (locks s1 l)\<lparr>free := False, ownerThread := Some (currentThread s1)\<rparr>),
                level := oldLevel\<rparr>)
      else Thread_Sleep [AcquireDone l, RestoreLevel oldLevel]
        (s1\<lparr>locks := (locks s1)(l := (locks s1 l)\<lparr>lqueue := q_append (currentThread s1) (lqueue (locks s1 l))\<rparr>)\<rparr>))"

definition Lock_Release :: "nat \<Rightarrow> sys \<Rightarrow> sys" where
  "Lock_Release l s =
     (let oldLevel = level s; s1 = s\<lparr>level := IntOff\<rparr> in
      if \<not> isHeldByCurrentThread l s1 then s1\<lparr>level := oldLevel\<rparr>
      else if \<not> q_is_empty (lqueue (locks s1 l)) then
        (case q_remove (lqueue (locks s1 l)) of
           (None, q) \<Rightarrow> s1\<lparr>locks := (locks s1)(l := (locks s1 l)\<lparr>lqueue := q\<rparr>), level := oldLevel\<rparr>
         | (Some t, q) \<Rightarrow>
             (ReadyToRun t (s1\<lparr>locks := (locks s1)(l := (locks s1 l)\<lparr>ownerThread := Some t, lqueue := q\<rparr>)\<rparr>))
               \<lparr>level := oldLevel\<rparr>)
      else s1\<lparr>locks := (locks s1)(l := (locks s1 l)\<lparr>free := True, ownerThread := None\<rparr>), level := oldLevel\<rparr>)"

section \<open>Condition variables\<close>

text \<open>The lock argument is a pointer, \<open>None\<close> when null.\<close>

definition Condition_Wait :: "nat \<Rightarrow> nat option \<Rightarrow> sys \<Rightarrow> fault + sys" where
  "Condition_Wait c conditionLock s =
     (let oldLevel = level s; s1 = s\<lparr>level := IntOff\<rparr> in
      case conditionLock of
        None \<Rightarrow> Inr (s1\<lparr>level := oldLevel\<rparr>)
      | Some l \<Rightarrow>
          if waitingLock (conds s1 c) \<noteq> None \<and> waitingLock (conds s1 c) \<noteq> conditionLock
          then Inr (s1\<lparr>level := oldLevel\<rparr>)
          else
            let s2 = Lock_Release l (s1\<lparr>conds := (conds s1)(c := (conds s1 c)\<lparr>waitingLock := Some l\<rparr>)\<rparr>) in
            Thread_Sleep [WaitReacquire l, RestoreLevel oldLevel]
              (s2\<lparr>conds := (conds s2)(c := (conds s2 c)\<lparr>cqueue := q_append (currentThread s2) (cqueue (conds s2 c))\<rparr>)\<rparr>))"

definition Condition_Signal :: "nat \<Rightarrow> nat option \<Rightarrow> sys \<Rightarrow> sys" where
  "Condition_Signal c conditionLock s =
     (let oldLevel = level s; s1 = s\<lparr>level := IntOff\<rparr> in
      if conditionLock = None then s1\<lparr>level := oldLevel\<rparr>
      else if q_is_empty (cqueue (conds s1 c)) then s1\<lparr>level := oldLevel\<rparr>
      else if waitingLock (conds s1 c) \<noteq> conditionLock then s1\<lparr>level := oldLevel\<rparr>
      else
        let (thread, q) = q_remove (cqueue (conds s1 c));
            s2 = s1\<lparr>conds := (conds s1)(c := (conds s1 c)\<lparr>cqueue := q\<rparr>)\<rparr>;
            s3 = (case thread of None \<Rightarrow> s2 | Some t \<Rightarrow> ReadyToRun t s2);
            s4 = (if q_is_empty (cqueue (conds s3 c))
                  then s3\<lparr>conds := (conds s3)(c := (conds s3 c)\<lparr>waitingLock := None\<rparr>)\<rparr> else s3) in
        s4\<lparr>level := oldLevel\<rparr>)"

partial_function (option) Condition_Broadcast :: "nat \<Rightarrow> nat option \<Rightarrow> sys \<Rightarrow> sys option" where
  "Condition_Broadcast c conditionLock s =
     (if q_is_empty (cqueue (conds s c)) then Some s
      else Condition_Broadcast c conditionLock (Condition_Signal c conditionLock s))"

section \<open>What a thread does when it is switched to again\<close>

definition pop_frame :: "sys \<Rightarrow> sys" where
  "pop_frame s = s\<lparr>frames := (frames s)(currentThread s := tl (frames s (currentThread s)))\<rparr>"

definition resume :: "sys \<Rightarrow> fault + sys" where
  "resume s = (case frames s (currentThread s) of
     [] \<Rightarrow> Inr s
   | RestoreLevel l # _ \<Rightarrow> Inr ((pop_frame s)\<lparr>level := l\<rparr>)
   | SemRetry m # _ \<Rightarrow>
       if svalue (sems s m) = 0 then P_wait m [] (pop_frame s) else Inr (P_take m (pop_frame s))
   | AcquireDone l # _ \<Rightarrow> Inr (pop_frame s)
   | WaitReacquire l # _ \<Rightarrow> Lock_Acquire l (pop_frame s)
   | ThreadRoot # _ \<Rightarrow> Inr ((pop_frame s)\<lparr>level := IntOn\<rparr>)
   | NotReached # _ \<Rightarrow> Inl Halted)"

section \<open>The interleaving of all threads\<close>

text \<open>
  \<open>DoYield\<close> is also the time slice of the timer interrupt.  \<open>DoV\<close> is also the completion of a
  device operation.
\<close>

datatype operation =
    DoP nat | DoV nat | DoAcquire nat | DoRelease nat
  | DoWait nat "nat option" | DoSignal nat "nat option" | DoBroadcast nat "nat option"
  | DoYield | DoFork tid | DoFinish

fun exec :: "operation \<Rightarrow> sys \<Rightarrow> (fault + sys) option" where
  "exec (DoP m) s = Some (Semaphore_P m s)"
| "exec (DoV m) s = Some (Inr (Semaphore_V m s))"
| "exec (DoAcquire l) s = Some (Lock_Acquire l s)"
| "exec (DoRelease l) s = Some (Inr (Lock_Release l s))"
| "exec (DoWait c l) s = Some (Condition_Wait c l s)"
| "exec (DoSignal c l) s = Some (Inr (Condition_Signal c l s))"
| "exec (DoBroadcast c l) s = map_option Inr (Condition_Broadcast c l s)"
| "exec DoYield s = Some (Thread_Yield s)"
| "exec (DoFork t) s = Some (Inr (Thread_Fork t (Thread_new t s)))"
| "exec DoFinish s = Some (Thread_Finish s)"

text \<open>
  A thread in its own code issues any operation (\<open>new\<close> gives \<open>Fork\<close> an address that is not in use);
  a thread inside a call finishes the call; in the idle loop a device interrupt may run \<open>V\<close>, and
  the loop looks at the ready list again.
\<close>

inductive step :: "operation option \<Rightarrow> sys \<Rightarrow> sys \<Rightarrow> bool" where
  step_op: "\<not> idling s \<Longrightarrow> frames s (currentThread s) = [] \<Longrightarrow>
     (\<And>t. a = DoFork t \<Longrightarrow> t \<notin> threads s) \<Longrightarrow> exec a s = Some (Inr s') \<Longrightarrow> step (Some a) s s'"
| step_resume: "\<not> idling s \<Longrightarrow> frames s (currentThread s) \<noteq> [] \<Longrightarrow> resume s = Inr s' \<Longrightarrow> step None s s'"
| step_irq: "idling s \<Longrightarrow> step None s (Semaphore_V m s)"
| step_idle: "idling s \<Longrightarrow> Sleep_loop s = Inr s' \<Longrightarrow> step None s s'"

inductive_cases step_opE: "step (Some a) s s'"
inductive_cases step_NoneE: "step None s s'"

text \<open>The first thread, with every object freshly constructed, and interrupts on or off.\<close>

definition sys_init :: "sys \<Rightarrow> bool" where
  "sys_init s \<longleftrightarrow> threads s = {currentThread s} \<and> readyList s = [] \<and>
     (\<forall>t. status s t = (if t = currentThread s then RUNNING else JUST_CREATED)) \<and>
     (\<forall>t. frames s t = []) \<and> threadToBeDestroyed s = None \<and> \<not> idling s \<and>
     (\<forall>t. fence_ok s t) \<and>
     (\<forall>m. squeue (sems s m) = [] \<and> svalue (sems s m) \<ge> 0) \<and>
     (\<forall>l. locks s l = Lock_new) \<and> (\<forall>c. conds s c = Condition_new)"

inductive reach :: "sys \<Rightarrow> bool" where
  reach_init: "sys_init s \<Longrightarrow> reach s"
| reach_step: "reach s \<Longrightarrow> step a s s' \<Longrightarrow> reach s'"

section \<open>What each operation does, branch by branch\<close>

lemma level_id [simp]: "(s :: sys)\<lparr>level := l', level := l\<rparr> = s\<lparr>level := l\<rparr>" "(s :: sys)\<lparr>level := level s\<rparr> = s"
  by simp_all

lemma V_cases:
  "squeue (sems s m) = [] \<Longrightarrow>
     Semaphore_V m s = s\<lparr>sems := (sems s)(m := (sems s m)\<lparr>svalue := svalue (sems s m) + 1\<rparr>)\<rparr>"
  "squeue (sems s m) = t # q \<Longrightarrow>
     Semaphore_V m s =
       ReadyToRun t (s\<lparr>sems := (sems s)(m := \<lparr>svalue = svalue (sems s m) + 1, squeue = q\<rparr>)\<rparr>)"
  by (cases s, cases "sems s m", simp add: Semaphore_V_def ReadyToRun_def Let_def)+

lemma Release_cases:
  "\<not> isHeldByCurrentThread l s \<Longrightarrow> Lock_Release l s = s"
  "isHeldByCurrentThread l s \<Longrightarrow> lqueue (locks s l) = [] \<Longrightarrow>
     Lock_Release l s =
       s\<lparr>locks := (locks s)(l := (locks s l)\<lparr>free := True, ownerThread := None\<rparr>)\<rparr>"
  "isHeldByCurrentThread l s \<Longrightarrow> lqueue (locks s l) = t # q \<Longrightarrow>
     Lock_Release l s =
       ReadyToRun t (s\<lparr>locks := (locks s)(l := (locks s l)\<lparr>ownerThread := Some t, lqueue := q\<rparr>)\<rparr>)"
  by (cases s, simp add: Lock_Release_def isHeldByCurrentThread_def ReadyToRun_def Let_def)+

lemma Acquire_cases:
  "isHeldByCurrentThread l s \<Longrightarrow> Lock_Acquire l s = Inr s"
  "\<not> isHeldByCurrentThread l s \<Longrightarrow> free (locks s l) \<Longrightarrow>
     Lock_Acquire l s = Inr (s\<lparr>locks := (locks s)(l := (locks s l)\<lparr>free := False,
       ownerThread := Some (currentThread s)\<rparr>)\<rparr>)"
  "\<not> isHeldByCurrentThread l s \<Longrightarrow> \<not> free (locks s l) \<Longrightarrow>
     Lock_Acquire l s = Thread_Sleep [AcquireDone l, RestoreLevel (level s)]
       (s\<lparr>level := IntOff, locks := (locks s)(l := (locks s l)\<lparr>lqueue :=
          q_append (currentThread s) (lqueue (locks s l))\<rparr>)\<rparr>)"
  by (cases s, simp add: Lock_Acquire_def isHeldByCurrentThread_def Let_def)+

lemma P_cases:
  "svalue (sems s m) = 0 \<Longrightarrow>
     Semaphore_P m s = P_wait m [RestoreLevel (level s)] (s\<lparr>level := IntOff\<rparr>)"
  "svalue (sems s m) \<noteq> 0 \<Longrightarrow> Semaphore_P m s = Inr (P_take m s)"
  by (cases s, simp add: Semaphore_P_def P_take_def Let_def)+

definition wait_refused :: "nat \<Rightarrow> nat option \<Rightarrow> sys \<Rightarrow> bool" where
  "wait_refused c lo s \<longleftrightarrow>
     lo = None \<or> waitingLock (conds s c) \<noteq> None \<and> waitingLock (conds s c) \<noteq> lo"

lemma Wait_cases:
  "wait_refused c lo s \<Longrightarrow> Condition_Wait c lo s = Inr s"
  "\<not> wait_refused c (Some l) s \<Longrightarrow>
     s2 = Lock_Release l (s\<lparr>level := IntOff,
            conds := (conds s)(c := (conds s c)\<lparr>waitingLock := Some l\<rparr>)\<rparr>) \<Longrightarrow>
     Condition_Wait c (Some l) s = Thread_Sleep [WaitReacquire l, RestoreLevel (level s)]
       (s2\<lparr>conds := (conds s2)(c := (conds s2 c)\<lparr>cqueue :=
          q_append (currentThread s2) (cqueue (conds s2 c))\<rparr>)\<rparr>)"
  by (cases s; cases lo; auto simp: Condition_Wait_def wait_refused_def Let_def)
     (auto simp: Condition_Wait_def wait_refused_def Let_def)

definition signal_refused :: "nat \<Rightarrow> nat option \<Rightarrow> sys \<Rightarrow> bool" where
  "signal_refused c lo s \<longleftrightarrow>
     lo = None \<or> cqueue (conds s c) = [] \<or> waitingLock (conds s c) \<noteq> lo"

lemma Signal_cases:
  "signal_refused c lo s \<Longrightarrow> Condition_Signal c lo s = s"
  "\<not> signal_refused c lo s \<Longrightarrow> cqueue (conds s c) = t # q \<Longrightarrow>
     Condition_Signal c lo s = ReadyToRun t (s\<lparr>conds := (conds s)(c :=
       \<lparr>waitingLock = (if q = [] then None else waitingLock (conds s c)), cqueue = q\<rparr>)\<rparr>)"
   by (cases s; auto simp: Condition_Signal_def signal_refused_def Let_def)
     (cases s; cases "conds s c"; auto simp: Condition_Signal_def signal_refused_def Let_def ReadyToRun_def)

lemma Sleep_locals:
  assumes "Thread_Sleep fr (k :: sys) = Inr k'"
  shows "sems k' = sems k" "locks k' = locks k" "conds k' = conds k"
    "frames k' = (frames k)(currentThread k := fr @ frames k (currentThread k))"
    "level k' = IntOff" "fence_ok k' = fence_ok k"
  using Sleep_switch [OF assms] Sleep_idle [OF assms] by (cases "readyList k"; auto)+

lemma Yield_locals:
  assumes "Thread_Yield (k :: sys) = Inr k'"
  shows "sems k' = sems k" "locks k' = locks k" "conds k' = conds k" "fence_ok k' = fence_ok k"
    "frames k' = frames k \<and> k' = k \<or> level k' = IntOff \<and>
      frames k' = (frames k)(currentThread k := RestoreLevel (level k) # frames k (currentThread k))"
  using Yield_cases [OF assms] by auto

lemma Sleep_loop_locals:
  assumes "Sleep_loop (k :: sys) = Inr k'"
  shows "sems k' = sems k" "locks k' = locks k" "conds k' = conds k" "frames k' = frames k"
    "level k' = level k" "fence_ok k' = fence_ok k"
proof -
  have "k' = k\<lparr>idling := True\<rparr> \<or> (\<exists>n ns. Run n (k\<lparr>readyList := ns, idling := False\<rparr>) = Inr k')"
    using assms by (cases "readyList k") (auto simp: Sleep_loop_def FindNextToRun_Nil FindNextToRun_Cons)
  then have "sems k' = sems k \<and> locks k' = locks k \<and> conds k' = conds k \<and> frames k' = frames k \<and>
      level k' = level k \<and> fence_ok k' = fence_ok k"
    by (auto dest: Run_Inr)
  then show "sems k' = sems k" "locks k' = locks k" "conds k' = conds k" "frames k' = frames k"
    "level k' = level k" "fence_ok k' = fence_ok k" by simp_all
qed

section \<open>The invariant\<close>

datatype qid = QL nat | QC nat | QS nat

fun waitq :: "sys \<Rightarrow> qid \<Rightarrow> tid list" where
  "waitq s (QL l) = lqueue (locks s l)"
| "waitq s (QC c) = cqueue (conds s c)"
| "waitq s (QS m) = squeue (sems s m)"

lemma waitq_cong:
  "locks s' = locks s \<Longrightarrow> conds s' = conds s \<Longrightarrow> sems s' = sems s \<Longrightarrow> waitq s' = waitq s"
  by (rule ext, case_tac x) simp_all

lemma waitq_update [simp]:
  "waitq (s\<lparr>locks := (locks s)(l := L)\<rparr>) = (waitq s)(QL l := lqueue L)"
  "waitq (s\<lparr>conds := (conds s)(c := C)\<rparr>) = (waitq s)(QC c := cqueue C)"
  "waitq (s\<lparr>sems := (sems s)(m := M)\<rparr>) = (waitq s)(QS m := squeue M)"
  "waitq (s\<lparr>level := v\<rparr>) = waitq s" "waitq (s\<lparr>frames := fs\<rparr>) = waitq s"
  "waitq (ReadyToRun t s) = waitq s"
  by (rule ext, case_tac x, simp_all add: ReadyToRun_def)+

lemma waitq_changed:
  "locks s' = (locks s)(l := L) \<Longrightarrow> conds s' = conds s \<Longrightarrow> sems s' = sems s \<Longrightarrow>
     waitq s' = (waitq s)(QL l := lqueue L)"
  "conds s' = (conds s)(c := C) \<Longrightarrow> locks s' = locks s \<Longrightarrow> sems s' = sems s \<Longrightarrow>
     waitq s' = (waitq s)(QC c := cqueue C)"
  "sems s' = (sems s)(m := M) \<Longrightarrow> conds s' = conds s \<Longrightarrow> locks s' = locks s \<Longrightarrow>
     waitq s' = (waitq s)(QS m := squeue M)"
  by (rule ext, case_tac x, simp_all)+

lemma kernel_inv_objects [simp]:
  "kernel_inv (s\<lparr>locks := x\<rparr>) wq = kernel_inv s wq"
  "kernel_inv (s\<lparr>conds := y\<rparr>) wq = kernel_inv s wq"
  "kernel_inv (s\<lparr>sems := z\<rparr>) wq = kernel_inv s wq"
  by (simp_all add: kernel_inv_def)

text \<open>
  A lock is free exactly when it has no owner, and then nobody waits; the owner does not wait for
  it; a thread inside the sleep of \<open>Acquire\<close> is in the queue or already the owner.
\<close>

definition lock_inv :: "sys \<Rightarrow> bool" where
  "lock_inv s \<longleftrightarrow> (\<forall>l.
     (free (locks s l) \<longleftrightarrow> ownerThread (locks s l) = None) \<and>
     (free (locks s l) \<longrightarrow> lqueue (locks s l) = []) \<and>
     (\<forall>t. ownerThread (locks s l) = Some t \<longrightarrow> t \<notin> set (lqueue (locks s l))) \<and>
     (\<forall>t. AcquireDone l \<in> set (frames s t) \<longrightarrow>
        ownerThread (locks s l) = Some t \<or> t \<in> set (lqueue (locks s l))) \<and>
     (\<forall>t \<in> set (lqueue (locks s l)). AcquireDone l \<in> set (frames s t)))"

text \<open>Interrupts are off whenever some call is suspended on the CPU, and only the last frame turns them on.\<close>

definition frames_ok :: "frame list \<Rightarrow> bool" where
  "frames_ok fs \<longleftrightarrow> RestoreLevel IntOn \<notin> set (butlast fs) \<and> ThreadRoot \<notin> set (butlast fs)"

definition level_inv :: "sys \<Rightarrow> bool" where
  "level_inv s \<longleftrightarrow> (idling s \<or> frames s (currentThread s) \<noteq> [] \<longrightarrow> level s = IntOff) \<and>
     (\<forall>t. frames_ok (frames s t))"

definition sync_inv :: "sys \<Rightarrow> bool" where
  "sync_inv s \<longleftrightarrow> kernel_inv s (waitq s) \<and> lock_inv s \<and> level_inv s \<and> (\<forall>m. svalue (sems s m) \<ge> 0)"

lemma lock_invD:
  assumes "lock_inv s"
  shows "free (locks s l) \<longleftrightarrow> ownerThread (locks s l) = None"
    and "free (locks s l) \<Longrightarrow> lqueue (locks s l) = []"
    and "ownerThread (locks s l) = Some t \<Longrightarrow> t \<notin> set (lqueue (locks s l))"
    and "AcquireDone l \<in> set (frames s t) \<Longrightarrow>
           ownerThread (locks s l) = Some t \<or> t \<in> set (lqueue (locks s l))"
    and "t \<in> set (lqueue (locks s l)) \<Longrightarrow> AcquireDone l \<in> set (frames s t)"
  using assms unfolding lock_inv_def by blast+

lemma lock_inv_cong:
  "locks s' = locks s \<Longrightarrow> frames s' = frames s \<Longrightarrow> lock_inv s' = lock_inv s"
  by (simp add: lock_inv_def)

lemma frames_ok_Cons: "frames_ok (f # fs) \<Longrightarrow> frames_ok fs"
  by (cases fs) (auto simp: frames_ok_def)

lemma frames_ok_push:
  "frames_ok fs \<Longrightarrow> fs \<noteq> [] \<Longrightarrow> f \<noteq> RestoreLevel IntOn \<Longrightarrow> f \<noteq> ThreadRoot \<Longrightarrow> frames_ok (f # fs)"
  by (simp add: frames_ok_def)

lemma frames_ok_single [simp]: "frames_ok []" "frames_ok [f]"
  by (simp_all add: frames_ok_def)

lemma frames_ok_append2:
  "frames_ok fs \<Longrightarrow> (fs \<noteq> [] \<longrightarrow> lv = IntOff) \<Longrightarrow> f \<noteq> RestoreLevel IntOn \<Longrightarrow> f \<noteq> ThreadRoot \<Longrightarrow>
   frames_ok (f # RestoreLevel lv # fs)"
  by (auto simp: frames_ok_def)

lemma level_inv_sleep:
  assumes "level_inv s" "Thread_Sleep fr s1 = Inr s'" "frames s1 = frames s"
    "currentThread s1 = currentThread s"
    "frames_ok (fr @ frames s (currentThread s))"
  shows "level_inv s'"
  using assms Sleep_locals [OF assms(2)] by (simp add: level_inv_def)

text \<open>\<open>Release\<close> keeps the invariant when the caller has no suspended \<open>Acquire\<close>.\<close>

lemma lock_inv_update_other:
  assumes "lock_inv s" "\<And>k. k \<noteq> l \<Longrightarrow> locks s' k = locks s k" "frames s' = frames s"
    "free (locks s' l) \<longleftrightarrow> ownerThread (locks s' l) = None"
    "free (locks s' l) \<longrightarrow> lqueue (locks s' l) = []"
    "\<forall>t. ownerThread (locks s' l) = Some t \<longrightarrow> t \<notin> set (lqueue (locks s' l))"
    "\<forall>t. AcquireDone l \<in> set (frames s t) \<longrightarrow>
        ownerThread (locks s' l) = Some t \<or> t \<in> set (lqueue (locks s' l))"
    "\<forall>t \<in> set (lqueue (locks s' l)). AcquireDone l \<in> set (frames s t)"
  shows "lock_inv s'"
  unfolding lock_inv_def
proof
  fix k
  show "(free (locks s' k) \<longleftrightarrow> ownerThread (locks s' k) = None) \<and>
     (free (locks s' k) \<longrightarrow> lqueue (locks s' k) = []) \<and>
     (\<forall>t. ownerThread (locks s' k) = Some t \<longrightarrow> t \<notin> set (lqueue (locks s' k))) \<and>
     (\<forall>t. AcquireDone k \<in> set (frames s' t) \<longrightarrow>
        ownerThread (locks s' k) = Some t \<or> t \<in> set (lqueue (locks s' k))) \<and>
     (\<forall>t \<in> set (lqueue (locks s' k)). AcquireDone k \<in> set (frames s' t))"
  proof (cases "k = l")
    case True
    with assms(3-) show ?thesis by simp
  next
    case False
    with assms(1-3) show ?thesis unfolding lock_inv_def by metis
  qed
qed

lemma Release_lock_inv:
  assumes L: "lock_inv s" and nf: "AcquireDone l \<notin> set (frames s (currentThread s))"
    and d: "distinct (lqueue (locks s l))"
  shows "lock_inv (Lock_Release l s)"
proof (cases "isHeldByCurrentThread l s")
  case False
  with L show ?thesis by (simp add: Release_cases)
next
  case True
  note D = lock_invD [OF L, where l = l]
  have o: "ownerThread (locks s l) = Some (currentThread s)"
    using True by (simp add: isHeldByCurrentThread_def)
  show ?thesis
  proof (cases "lqueue (locks s l)")
    case Nil
    show ?thesis
      by (rule lock_inv_update_other [OF L, of l])
        (use True Nil D(4) nf o in \<open>auto simp: Release_cases\<close>)
  next
    case (Cons t q)
    have "t \<notin> set q" using d Cons by simp
    then show ?thesis
      by (intro lock_inv_update_other [OF L, of l])
        (use True Cons D nf o in \<open>auto simp: Release_cases ReadyToRun_def\<close>)
  qed
qed

lemma Release_kernel_inv:
  assumes "kernel_inv s (waitq s)"
  shows "kernel_inv (Lock_Release l s) (waitq (Lock_Release l s))"
proof (cases "isHeldByCurrentThread l s")
  case False
  with assms show ?thesis by (simp add: Release_cases)
next
  case True
  show ?thesis
  proof (cases "lqueue (locks s l)")
    case Nil
    then have "(waitq s)(QL l := []) = waitq s" by (auto simp: fun_eq_iff)
    with True Nil assms show ?thesis by (simp add: Release_cases)
  next
    case (Cons t q)
    let ?s = "s\<lparr>locks := (locks s)(l := (locks s l)\<lparr>ownerThread := Some t, lqueue := q\<rparr>)\<rparr>"
    have "kernel_inv ?s (waitq s)" using assms by simp
    from wake_inv [OF this, of "QL l" t q] True Cons show ?thesis by (simp add: Release_cases)
  qed
qed

lemma Release_same:
  "frames (Lock_Release l s) = frames s" "currentThread (Lock_Release l s) = currentThread s"
  "idling (Lock_Release l s) = idling s" "level (Lock_Release l s) = level s"
  "conds (Lock_Release l s) = conds s" "sems (Lock_Release l s) = sems s"
  "fence_ok (Lock_Release l s) = fence_ok s"
  by (cases "isHeldByCurrentThread l s"; cases "lqueue (locks s l)";
      simp add: Release_cases ReadyToRun_def)+

lemma sleep_lock_inv:
  assumes "lock_inv s" "Thread_Sleep fr s1 = Inr s'" "locks s1 = locks s" "frames s1 = frames s"
    "\<And>l. AcquireDone l \<notin> set fr" "\<And>l. currentThread s1 \<notin> set (lqueue (locks s l))"
  shows "lock_inv s'"
proof -
  have "AcquireDone l \<in> set (frames s' t) \<longleftrightarrow> AcquireDone l \<in> set (frames s t)" for l t
    using Sleep_locals(4) [OF assms(2)] assms(4,5) by simp
  moreover have "locks s' = locks s" using Sleep_locals(2) [OF assms(2)] assms(3) by simp
  ultimately show ?thesis using assms(1) unfolding lock_inv_def by simp
qed

lemma pop_lock_inv:
  assumes L: "lock_inv s" and q: "\<And>l. currentThread s \<notin> set (lqueue (locks s l))"
  shows "lock_inv (pop_frame s)"
proof -
  have "AcquireDone l \<in> set (frames (pop_frame s) t) \<Longrightarrow> AcquireDone l \<in> set (frames s t)" for l t
    by (cases "frames s (currentThread s)") (auto simp: pop_frame_def split: if_splits)
  moreover have "t \<in> set (lqueue (locks s l)) \<Longrightarrow>
      frames (pop_frame s) t = frames s t" for l t using q by (auto simp: pop_frame_def)
  moreover have "locks (pop_frame s) = locks s" by (simp add: pop_frame_def)
  ultimately show ?thesis using L unfolding lock_inv_def by metis
qed

lemma Acquire_inv:
  assumes I: "sync_inv s" and i: "\<not> idling s" and a: "Lock_Acquire l s = Inr s'"
    and fr: "frames s (currentThread s) \<noteq> [] \<longrightarrow> level s = IntOff"
  shows "sync_inv s'"
proof -
  from I have K: "kernel_inv s (waitq s)" and L: "lock_inv s" and V: "level_inv s"
    and S: "\<forall>m. svalue (sems s m) \<ge> 0" by (simp_all add: sync_inv_def)
  note C = kernel_inv_current [OF K i]
  note D = lock_invD [OF L, where l = l]
  let ?t = "currentThread s"
  show ?thesis
  proof (cases "isHeldByCurrentThread l s")
    case True
    with a I show ?thesis by (simp add: Acquire_cases)
  next
    case no: False
    show ?thesis
    proof (cases "free (locks s l)")
      case True
      let ?L = "(locks s l)\<lparr>free := False, ownerThread := Some ?t\<rparr>"
      have s': "s' = s\<lparr>locks := (locks s)(l := ?L)\<rparr>" using a no True by (simp add: Acquire_cases)
      have q: "lqueue (locks s l) = []" using D(2) True .
      have "(waitq s)(QL l := []) = waitq s" using q by (auto simp: fun_eq_iff)
      then have K': "kernel_inv s' (waitq s')" using K q by (simp add: s')
      have "lock_inv s'"
        by (rule lock_inv_update_other [OF L, of l])
          (use D(4) D(1) True q in \<open>auto simp: s'\<close>)
      with K' V S show ?thesis by (simp add: sync_inv_def level_inv_def s')
    next
      case False
      let ?s = "s\<lparr>level := IntOff, locks := (locks s)(l := (locks s l)\<lparr>lqueue :=
          q_append ?t (lqueue (locks s l))\<rparr>)\<rparr>"
      have z: "Thread_Sleep [AcquireDone l, RestoreLevel (level s)] ?s = Inr s'"
        using a no False by (simp add: Acquire_cases)
      note loc = Sleep_locals [OF z]
      have K1: "kernel_inv ?s (waitq s)" using K by simp
      have K': "kernel_inv s' (waitq s')"
        using sleep_inv [OF K1 _ _ z, of "QL l"] i waitq_changed(1) [of s' s l] loc by simp
      have "lock_inv s'"
        unfolding lock_inv_def
      proof
        fix k
        show "(free (locks s' k) \<longleftrightarrow> ownerThread (locks s' k) = None) \<and>
          (free (locks s' k) \<longrightarrow> lqueue (locks s' k) = []) \<and>
          (\<forall>t. ownerThread (locks s' k) = Some t \<longrightarrow> t \<notin> set (lqueue (locks s' k))) \<and>
          (\<forall>t. AcquireDone k \<in> set (frames s' t) \<longrightarrow>
             ownerThread (locks s' k) = Some t \<or> t \<in> set (lqueue (locks s' k))) \<and>
          (\<forall>t \<in> set (lqueue (locks s' k)). AcquireDone k \<in> set (frames s' t))"
        proof (cases "k = l")
          case True
          then show ?thesis
            using loc D no False by (auto simp: isHeldByCurrentThread_def)
        next
          case False
          note D' = lock_invD [OF L, where l = k]
          from False show ?thesis using loc D' by auto
        qed
      qed
      moreover have "level_inv s'"
        by (rule level_inv_sleep [OF V z])
          (use V fr in \<open>auto simp: level_inv_def intro!: frames_ok_append2\<close>)
      ultimately show ?thesis using K' S loc by (simp add: sync_inv_def)
    qed
  qed
qed

lemma P_wait_inv:
  assumes K: "kernel_inv s (waitq s)" and L: "lock_inv s" and ok: "\<forall>t. frames_ok (frames s t)"
    and S: "\<forall>m. svalue (sems s m) \<ge> 0" and i: "\<not> idling s"
    and fr: "frames_ok (SemRetry m # fr @ frames s (currentThread s))"
      "NotReached \<notin> set fr" "\<And>l. AcquireDone l \<notin> set fr"
    and p: "P_wait m fr s = Inr s'"
  shows "sync_inv s'"
proof -
  note C = kernel_inv_current [OF K i]
  let ?s = "s\<lparr>sems := (sems s)(m := (sems s m)\<lparr>squeue := q_append (currentThread s) (squeue (sems s m))\<rparr>)\<rparr>"
  have z: "Thread_Sleep (SemRetry m # fr) ?s = Inr s'" using p by (simp add: P_wait_def)
  note loc = Sleep_locals [OF z]
  have K1: "kernel_inv ?s (waitq s)" using K by simp
  have "kernel_inv s' (waitq s')"
    using sleep_inv [OF K1 _ _ z, of "QS m"] i fr(2) waitq_changed(3) [of s' s m] loc by simp
  moreover have "lock_inv s'"
    by (rule sleep_lock_inv [OF L z]) (use C(2) [of "QL l" for l] fr(3) in auto)
  moreover have "level_inv s'"
    using loc ok fr(1) by (simp add: level_inv_def)
  moreover have "\<forall>k. svalue (sems s' k) \<ge> 0" using loc S by simp
  ultimately show ?thesis by (simp add: sync_inv_def)
qed

lemma P_take_inv: "sync_inv s \<Longrightarrow> svalue (sems s m) \<noteq> 0 \<Longrightarrow> sync_inv (P_take m s)"
proof -
  assume I: "sync_inv s" and v: "svalue (sems s m) \<noteq> 0"
  have "waitq (P_take m s) = waitq s"
    using waitq_changed(3) [of "P_take m s" s m] by (auto simp: P_take_def fun_eq_iff)
  moreover have "svalue (sems s m) \<ge> 0" using I by (simp add: sync_inv_def)
  then have "svalue (sems s m) - 1 \<ge> 0" using v by simp
  then have "\<forall>k. svalue (sems (P_take m s) k) \<ge> 0" using I by (simp add: sync_inv_def P_take_def)
  moreover have "lock_inv (P_take m s) \<and> level_inv (P_take m s) \<and> kernel_inv (P_take m s) (waitq s)"
    using I by (simp add: sync_inv_def P_take_def lock_inv_def level_inv_def)
  ultimately show ?thesis by (simp add: sync_inv_def)
qed

lemma V_inv:
  assumes I: "sync_inv s"
  shows "sync_inv (Semaphore_V m s)"
proof (cases "squeue (sems s m)")
  case Nil
  let ?s = "Semaphore_V m s"
  have "waitq ?s = waitq s"
    using waitq_changed(3) [of ?s s m] Nil by (auto simp: V_cases fun_eq_iff)
  then show ?thesis using I Nil
    by (simp add: sync_inv_def V_cases lock_inv_def level_inv_def)
next
  case (Cons t q)
  let ?s1 = "s\<lparr>sems := (sems s)(m := \<lparr>svalue = svalue (sems s m) + 1, squeue = q\<rparr>)\<rparr>"
  have K: "kernel_inv ?s1 (waitq s)" using I by (simp add: sync_inv_def)
  have "kernel_inv (Semaphore_V m s) (waitq (Semaphore_V m s))"
    using wake_inv [OF K, of "QS m" t q] Cons by (simp add: V_cases)
  then show ?thesis using I Cons
    by (simp add: sync_inv_def V_cases lock_inv_def level_inv_def ReadyToRun_def)
qed

lemma Signal_inv:
  assumes I: "sync_inv s"
  shows "sync_inv (Condition_Signal c lo s)"
proof (cases "signal_refused c lo s")
  case True
  with I show ?thesis by (simp add: Signal_cases)
next
  case False
  then obtain t q where q: "cqueue (conds s c) = t # q" by (cases "cqueue (conds s c)") (auto simp: signal_refused_def)
  let ?s1 = "s\<lparr>conds := (conds s)(c :=
       \<lparr>waitingLock = (if q = [] then None else waitingLock (conds s c)), cqueue = q\<rparr>)\<rparr>"
  have K: "kernel_inv ?s1 (waitq s)" using I by (simp add: sync_inv_def)
  have "kernel_inv (Condition_Signal c lo s) (waitq (Condition_Signal c lo s))"
    using wake_inv [OF K, of "QC c" t q] q by (simp add: Signal_cases(2) [OF False q])
  then show ?thesis using I q
    by (simp add: sync_inv_def Signal_cases(2) [OF False q] lock_inv_def level_inv_def ReadyToRun_def)
qed

lemma Wait_inv:
  assumes I: "sync_inv s" and i: "\<not> idling s" and f: "frames s (currentThread s) = []"
    and w: "Condition_Wait c lo s = Inr s'"
  shows "sync_inv s'"
proof (cases "wait_refused c lo s")
  case True
  with I w show ?thesis by (simp add: Wait_cases)
next
  case False
  then obtain l where lo: "lo = Some l" by (auto simp: wait_refused_def)
  from I have K: "kernel_inv s (waitq s)" and L: "lock_inv s" and V: "level_inv s"
    by (simp_all add: sync_inv_def)
  note C = kernel_inv_current [OF K i]
  define s1 where "s1 = s\<lparr>level := IntOff, conds := (conds s)(c := (conds s c)\<lparr>waitingLock := Some l\<rparr>)\<rparr>"
  define s2 where "s2 = Lock_Release l s1"
  let ?t = "currentThread s"
  let ?s3 = "s2\<lparr>conds := (conds s2)(c := (conds s2 c)\<lparr>cqueue := q_append (currentThread s2) (cqueue (conds s2 c))\<rparr>)\<rparr>"
  have z: "Thread_Sleep [WaitReacquire l, RestoreLevel (level s)] ?s3 = Inr s'"
    using Wait_cases(2) [OF False [unfolded lo] s2_def [unfolded s1_def]] w lo by simp
  have same: "frames s2 = frames s" "currentThread s2 = ?t" "idling s2 = idling s" "sems s2 = sems s"
    by (simp_all add: s2_def s1_def Release_same)
  have "waitq s1 = waitq s"
    using waitq_changed(2) [of s1 s c] by (auto simp: s1_def fun_eq_iff)
  then have K1: "kernel_inv s1 (waitq s1)" using K by (simp add: s1_def)
  have K2: "kernel_inv s2 (waitq s2)" unfolding s2_def by (rule Release_kernel_inv [OF K1])
  have L1: "lock_inv s1" using L by (simp add: lock_inv_def s1_def)
  have "distinct (lqueue (locks s1 l))" using kernel_invD(4) [OF K1, of "QL l"] by simp
  then have L2: "lock_inv s2" unfolding s2_def
    by (intro Release_lock_inv [OF L1]) (simp_all add: s1_def f)
  note C2 = kernel_inv_current [OF K2, unfolded same, OF i]
  note loc = Sleep_locals [OF z]
  have K3: "kernel_inv ?s3 (waitq s2)" using K2 by simp
  have "kernel_inv s' (waitq s')"
    using sleep_inv [OF K3 _ _ z, of "QC c"] i same waitq_changed(2) [of s' s2 c] loc by simp
  moreover have "lock_inv s'"
    by (rule sleep_lock_inv [OF L2 z]) (use C2(2) [of "QL l" for l] same in auto)
  moreover have "level_inv s'"
    by (rule level_inv_sleep [OF V z]) (use same f in \<open>simp_all add: frames_ok_def\<close>)
  ultimately show ?thesis using I loc same by (simp add: sync_inv_def)
qed

section \<open>Broadcast\<close>

definition broadcast_loops :: "nat \<Rightarrow> nat option \<Rightarrow> sys \<Rightarrow> bool" where
  "broadcast_loops c lo s \<longleftrightarrow> cqueue (conds s c) \<noteq> [] \<and> (lo = None \<or> waitingLock (conds s c) \<noteq> lo)"

lemma Broadcast_diverges:
  assumes "Condition_Broadcast c lo s = Some s'"
  shows "\<not> broadcast_loops c lo s"
proof (rule Condition_Broadcast.raw_induct [where P = "\<lambda>c lo s _. \<not> broadcast_loops c lo s", OF _ assms])
  fix f :: "nat \<Rightarrow> nat option \<Rightarrow> sys \<Rightarrow> sys option" and c lo s s'
  assume 1: "\<And>c lo s y. f c lo s = Some y \<Longrightarrow> \<not> broadcast_loops c lo s"
    and 2: "(if q_is_empty (cqueue (conds s c)) then Some s else f c lo (Condition_Signal c lo s)) = Some s'"
  show "\<not> broadcast_loops c lo s"
  proof
    assume b: "broadcast_loops c lo s"
    then have "signal_refused c lo s" by (auto simp: broadcast_loops_def signal_refused_def)
    then have "Condition_Signal c lo s = s" by (rule Signal_cases)
    with 2 b have "f c lo s = Some s'" by (simp add: broadcast_loops_def)
    with 1 b show False by blast
  qed
qed

lemma Broadcast_returns:
  assumes "\<not> broadcast_loops c lo s"
  shows "\<exists>s'. Condition_Broadcast c lo s = Some s' \<and> cqueue (conds s' c) = [] \<and>
           readyList s' = readyList s @ cqueue (conds s c) \<and>
           (\<forall>t. status s' t = (if t \<in> set (cqueue (conds s c)) then READY else status s t)) \<and>
           (cqueue (conds s c) \<noteq> [] \<longrightarrow> waitingLock (conds s' c) = None) \<and>
           locks s' = locks s \<and> frames s' = frames s \<and> level s' = level s \<and>
           currentThread s' = currentThread s \<and> (sync_inv s \<longrightarrow> sync_inv s')"
  using assms
proof (induction "cqueue (conds s c)" arbitrary: s)
  case Nil
  then show ?case by (subst Condition_Broadcast.simps) simp
next
  case (Cons t q)
  from Cons.hyps(2) have qs: "cqueue (conds s c) = t # q" by simp
  with Cons.prems have nr: "\<not> signal_refused c lo s"
    by (auto simp: broadcast_loops_def signal_refused_def)
  let ?s = "Condition_Signal c lo s"
  note sg = Signal_cases(2) [OF nr qs]
  have q: "cqueue (conds ?s c) = q" by (simp add: sg ReadyToRun_def)
  have "\<not> broadcast_loops c lo ?s"
    using nr qs by (auto simp: sg broadcast_loops_def signal_refused_def ReadyToRun_def)
  from Cons.hyps(1) [OF q [symmetric] this] obtain s' where s': "Condition_Broadcast c lo ?s = Some s'"
    "cqueue (conds s' c) = []" "readyList s' = readyList ?s @ q"
    "\<forall>u. status s' u = (if u \<in> set q then READY else status ?s u)"
    "q \<noteq> [] \<longrightarrow> waitingLock (conds s' c) = None"
    "locks s' = locks ?s \<and> frames s' = frames ?s \<and> level s' = level ?s \<and>
     currentThread s' = currentThread ?s \<and> (sync_inv ?s \<longrightarrow> sync_inv s')" unfolding q by blast
  have st: "\<forall>u. status s' u = (if u \<in> set (t # q) then READY else status s u)"
    using s'(4) by (auto simp: sg ReadyToRun_def)
  have rl: "readyList s' = readyList s @ t # q"
    using s'(3) by (simp add: sg ReadyToRun_def q_append_def)
  have wl: "waitingLock (conds s' c) = None"
  proof (cases q)
    case Nil
    have "s' = ?s" using s'(1) q Nil by (subst (asm) Condition_Broadcast.simps) simp
    with Nil show ?thesis by (simp add: sg ReadyToRun_def)
  next
    case (Cons a list)
    with s'(5) show ?thesis by simp
  qed
  have rest: "locks s' = locks s \<and> frames s' = frames s \<and> level s' = level s \<and>
     currentThread s' = currentThread s"
    using s'(6) by (simp add: sg ReadyToRun_def)
  have "Condition_Broadcast c lo s = Some s'"
    using qs s'(1) by (subst Condition_Broadcast.simps) simp
  then show ?case
    using s'(2,6) st rl wl rest Signal_inv [of s c lo] unfolding qs by blast
qed

lemma Broadcast_inv: "sync_inv s \<Longrightarrow> Condition_Broadcast c lo s = Some s' \<Longrightarrow> sync_inv s'"
  using Broadcast_diverges [of c lo s s'] Broadcast_returns [of c lo s] by auto

section \<open>Every step keeps the invariant\<close>

lemma Yield_sync_inv:
  assumes I: "sync_inv s" and i: "\<not> idling s" and f: "frames s (currentThread s) = []"
    and y: "Thread_Yield s = Inr s'"
  shows "sync_inv s'"
proof -
  from I have K: "kernel_inv s (waitq s)" and L: "lock_inv s" and V: "level_inv s"
    by (simp_all add: sync_inv_def)
  note loc = Yield_locals [OF y]
  have "kernel_inv s' (waitq s')" using yield_inv [OF K i y] waitq_cong [of s' s] loc by simp
  moreover have "lock_inv s'"
  proof -
    have "AcquireDone l \<in> set (frames s' t) \<longleftrightarrow> AcquireDone l \<in> set (frames s t)" for l t
      using loc(5) by (auto split: if_splits)
    then show ?thesis using L loc(2) unfolding lock_inv_def by simp
  qed
  moreover have "level_inv s'" using V loc(5) f by (auto simp: level_inv_def)
  ultimately show ?thesis using I loc by (simp add: sync_inv_def)
qed

lemma Finish_sync_inv:
  assumes I: "sync_inv s" and i: "\<not> idling s" and f: "frames s (currentThread s) = []"
    and y: "Thread_Finish s = Inr s'"
  shows "sync_inv s'"
proof -
  from I have K: "kernel_inv s (waitq s)" and L: "lock_inv s" and V: "level_inv s"
    by (simp_all add: sync_inv_def)
  note C = kernel_inv_current [OF K i]
  have z: "Thread_Sleep [NotReached] (s\<lparr>level := IntOff, threadToBeDestroyed := Some (currentThread s)\<rparr>) = Inr s'"
    using y by (simp add: Thread_Finish_def)
  note loc = Sleep_locals [OF z]
  have "kernel_inv s' (waitq s')" using finish_inv [OF K i y] waitq_cong [of s' s] loc by simp
  moreover have "lock_inv s'"
    by (rule sleep_lock_inv [OF L z]) (use C(2) [of "QL l" for l] in auto)
  moreover have "level_inv s'" by (rule level_inv_sleep [OF V z]) (simp_all add: f)
  ultimately show ?thesis using I loc by (simp add: sync_inv_def)
qed

lemma Fork_sync_inv:
  assumes I: "sync_inv s" and i: "\<not> idling s" and t: "t \<notin> threads s"
  shows "sync_inv (Thread_Fork t (Thread_new t s))"
proof -
  let ?s = "Thread_Fork t (Thread_new t s)"
  from I have K: "kernel_inv s (waitq s)" and L: "lock_inv s" and V: "level_inv s"
    by (simp_all add: sync_inv_def)
  note D = kernel_invD [OF K]
  have w: "t \<notin> set (waitq s q)" for q using D(8) [OF t] D(6) [of t] D(7) [of t] by auto
  have nc: "t \<noteq> currentThread s" using kernel_inv_current(5) [OF K i] t by auto
  have loc: "locks ?s = locks s" "conds ?s = conds s" "sems ?s = sems s" "level ?s = level s"
    "currentThread ?s = currentThread s" "idling ?s = idling s"
    "frames ?s = (frames s)(t := [ThreadRoot])"
    by (simp_all add: Thread_Fork_def Thread_new_def ReadyToRun_def)
  have "kernel_inv ?s (waitq ?s)" using fork_inv [OF K t i] waitq_cong [of ?s s] loc by simp
  moreover have "lock_inv ?s"
    using L w [of "QL l" for l] unfolding lock_inv_def loc by auto
  moreover have "level_inv ?s" using V nc by (simp add: level_inv_def loc)
  ultimately show ?thesis using I loc by (simp add: sync_inv_def)
qed

lemma exec_inv:
  assumes "sync_inv s" "\<not> idling s" "frames s (currentThread s) = []"
    "\<And>t. a = DoFork t \<Longrightarrow> t \<notin> threads s" "exec a s = Some (Inr s')"
  shows "sync_inv s'"
proof (cases a)
  case (DoP m)
  show ?thesis
  proof (cases "svalue (sems s m) = 0")
    case True
    then have "P_wait m [RestoreLevel (level s)] (s\<lparr>level := IntOff\<rparr>) = Inr s'"
      using assms(5) DoP by (simp add: P_cases)
    from P_wait_inv [OF _ _ _ _ _ _ _ _ this] assms show ?thesis
      by (auto simp: sync_inv_def level_inv_def frames_ok_def lock_inv_def)
  next
    case False
    with P_take_inv [OF assms(1) False] assms(5) DoP show ?thesis by (simp add: P_cases)
  qed
next
  case (DoAcquire l)
  with Acquire_inv [OF assms(1,2), of l s'] assms(3,5) show ?thesis by simp
next
  case (DoRelease l)
  have I: "kernel_inv s (waitq s)" "lock_inv s" using assms(1) by (simp_all add: sync_inv_def)
  have "distinct (lqueue (locks s l))" using kernel_invD(4) [OF I(1), of "QL l"] by simp
  then have "lock_inv (Lock_Release l s)" using Release_lock_inv [OF I(2)] assms(3) by simp
  with Release_kernel_inv [OF I(1), of l] assms(1,5) DoRelease show ?thesis
    by (auto simp: sync_inv_def level_inv_def Release_same)
qed (use assms V_inv Wait_inv [OF assms(1,2,3)] Signal_inv Broadcast_inv Yield_sync_inv [OF assms(1,2,3)]
      Fork_sync_inv Finish_sync_inv [OF assms(1,2,3)] in \<open>auto\<close>)

lemma resume_inv:
  assumes I: "sync_inv s" and i: "\<not> idling s" and r: "resume s = Inr s'"
  shows "sync_inv s'"
proof (cases "frames s (currentThread s)")
  case Nil
  with r I show ?thesis by (simp add: resume_def)
next
  case (Cons f fs)
  from I have K: "kernel_inv s (waitq s)" and L: "lock_inv s" and V: "level_inv s"
    by (simp_all add: sync_inv_def)
  note C = kernel_inv_current [OF K i]
  let ?p = "pop_frame s"
  have p: "?p = s\<lparr>frames := (frames s)(currentThread s := fs)\<rparr>" using Cons by (simp add: pop_frame_def)
  have off: "level s = IntOff" using V Cons by (simp add: level_inv_def)
  have ok: "frames_ok (f # fs)" using V Cons by (metis level_inv_def)
  have nr: "NotReached \<notin> set fs" "f \<noteq> NotReached" using C(3) Cons by auto
  have Kp: "kernel_inv ?p (waitq ?p)" using kernel_inv_frames [OF K i nr(1)] by (simp add: p)
  have Lp: "lock_inv ?p" using pop_lock_inv [OF L] C(2) [of "QL l" for l] by simp
  have okp: "\<forall>t. frames_ok (frames ?p t)" using V ok frames_ok_Cons by (auto simp: p level_inv_def)
  have S: "\<forall>m. svalue (sems ?p m) \<ge> 0" using I by (simp add: sync_inv_def p)
  have ip: "\<not> idling ?p" using i by (simp add: p)
  have P: "sync_inv ?p" using Kp Lp okp S off ip by (simp add: sync_inv_def level_inv_def p)
  show ?thesis
  proof (cases f)
    case (RestoreLevel l)
    have "fs \<noteq> [] \<longrightarrow> l = IntOff" using ok RestoreLevel by (cases l; cases "fs = []") (auto simp: frames_ok_def)
    moreover have "s' = ?p\<lparr>level := l\<rparr>" using r Cons RestoreLevel by (simp add: resume_def)
    ultimately show ?thesis using Kp Lp okp S ip by (auto simp: sync_inv_def level_inv_def lock_inv_def p)
  next
    case (SemRetry m)
    show ?thesis
    proof (cases "svalue (sems s m) = 0")
      case True
      then have w: "P_wait m [] ?p = Inr s'" using r Cons SemRetry by (simp add: resume_def)
      show ?thesis
        by (rule P_wait_inv [OF Kp Lp okp S ip _ _ _ w]) (use ok SemRetry in \<open>simp_all add: p\<close>)
    next
      case False
      then have "s' = P_take m ?p" using r Cons SemRetry by (simp add: resume_def)
      then show ?thesis using P_take_inv [OF P, of m] False by (simp add: p)
    qed
  next
    case (AcquireDone l)
    with r Cons P show ?thesis by (simp add: resume_def)
  next
    case (WaitReacquire l)
    then have "Lock_Acquire l ?p = Inr s'" using r Cons by (simp add: resume_def)
    from Acquire_inv [OF P ip this] off show ?thesis by (simp add: p)
  next
    case ThreadRoot
    then have "fs = []" using ok by (auto simp: frames_ok_def split: if_splits)
    moreover have "s' = ?p\<lparr>level := IntOn\<rparr>" using r Cons ThreadRoot by (simp add: resume_def)
    ultimately show ?thesis using Kp Lp okp S ip by (auto simp: sync_inv_def level_inv_def lock_inv_def p)
  next
    case NotReached
    with nr show ?thesis by simp
  qed
qed

lemma step_inv: "step a s s' \<Longrightarrow> sync_inv s \<Longrightarrow> sync_inv s'"
proof (induction rule: step.induct)
  case (step_op s a s')
  then show ?case using exec_inv by blast
next
  case (step_resume s s')
  then show ?case using resume_inv by blast
next
  case (step_irq s m)
  then show ?case using V_inv by blast
next
  case (step_idle s s')
  have "s\<lparr>idling := True\<rparr> = s" using step_idle(1) by simp
  then have "kernel_inv s' (waitq s)"
    using Sleep_loop_inv [OF _ step_idle(2), of "waitq s"] step_idle(3) by (simp add: sync_inv_def)
  moreover note loc = Sleep_loop_locals [OF step_idle(2)]
  moreover have "waitq s' = waitq s" by (rule waitq_cong) (simp_all add: loc)
  ultimately show ?case using step_idle(1,3) by (simp add: sync_inv_def level_inv_def lock_inv_def)
qed

lemma init_inv: "sys_init s \<Longrightarrow> sync_inv s"
proof -
  assume s: "sys_init s"
  have w: "waitq s q = []" for q using s by (cases q) (simp_all add: sys_init_def Lock_new_def Condition_new_def)
  show ?thesis using s
    by (simp add: sync_inv_def kernel_inv_def w lock_inv_def level_inv_def)
       (simp add: sys_init_def Lock_new_def)
qed

lemma reach_inv: "reach s \<Longrightarrow> sync_inv s"
  by (induction rule: reach.induct) (use init_inv step_inv in blast)+

section \<open>Who may change the owner of a lock\<close>

lemma V_same:
  "locks (Semaphore_V m s) = locks s" "fence_ok (Semaphore_V m s) = fence_ok s"
  "currentThread (Semaphore_V m s) = currentThread s"
  by (cases "squeue (sems s m)"; simp add: V_cases ReadyToRun_def)+

lemma Signal_same:
  "locks (Condition_Signal c lo s) = locks s" "fence_ok (Condition_Signal c lo s) = fence_ok s"
proof -
  have "locks (Condition_Signal c lo s) = locks s \<and> fence_ok (Condition_Signal c lo s) = fence_ok s"
  proof (cases "signal_refused c lo s")
    case True
    then show ?thesis by (simp add: Signal_cases)
  next
    case False
    then obtain t q where q: "cqueue (conds s c) = t # q"
      by (cases "cqueue (conds s c)") (auto simp: signal_refused_def)
    show ?thesis by (simp add: Signal_cases(2) [OF False q] ReadyToRun_def)
  qed
  then show "locks (Condition_Signal c lo s) = locks s"
    "fence_ok (Condition_Signal c lo s) = fence_ok s" by simp_all
qed

lemma Acquire_owner:
  assumes "Lock_Acquire l s = Inr s'"
  shows "ownerThread (locks s' k) = ownerThread (locks s k) \<or> k = l \<and> free (locks s l)"
proof -
  consider "isHeldByCurrentThread l s" | "\<not> isHeldByCurrentThread l s" "free (locks s l)"
    | "\<not> isHeldByCurrentThread l s" "\<not> free (locks s l)" by blast
  then show ?thesis
  proof cases
    case 3
    from assms Sleep_locals(2) [OF assms [unfolded Acquire_cases(3) [OF 3]]] show ?thesis by simp
  qed (use assms in \<open>auto simp: Acquire_cases\<close>)
qed

lemma Release_owner:
  "ownerThread (locks (Lock_Release l s) k) =
     (if k = l \<and> isHeldByCurrentThread l s
      then (case lqueue (locks s l) of [] \<Rightarrow> None | u # _ \<Rightarrow> Some u) else ownerThread (locks s k))"
  by (cases "isHeldByCurrentThread l s"; cases "lqueue (locks s l)")
    (auto simp: Release_cases ReadyToRun_def)

lemma Wait_owner:
  assumes "Condition_Wait c lo s = Inr s'"
  shows "ownerThread (locks s' k) =
     (if lo = Some k \<and> \<not> wait_refused c lo s \<and> isHeldByCurrentThread k s
      then (case lqueue (locks s k) of [] \<Rightarrow> None | u # _ \<Rightarrow> Some u) else ownerThread (locks s k))"
proof (cases "wait_refused c lo s")
  case True
  with assms show ?thesis by (simp add: Wait_cases)
next
  case False
  then obtain l where lo: "lo = Some l" by (auto simp: wait_refused_def)
  from Sleep_locals(2) [OF assms [unfolded lo Wait_cases(2) [OF False [unfolded lo] refl]]]
  have "locks s' = locks (Lock_Release l (s\<lparr>level := IntOff,
      conds := (conds s)(c := (conds s c)\<lparr>waitingLock := Some l\<rparr>)\<rparr>))" by simp
  with False lo show ?thesis by (auto simp: Release_owner isHeldByCurrentThread_def)
qed

lemma Broadcast_same:
  "Condition_Broadcast c lo s = Some s' \<Longrightarrow> locks s' = locks s"
  using Broadcast_diverges [of c lo s s'] Broadcast_returns [of c lo s] by auto

lemma Finish_same: "Thread_Finish (s :: sys) = Inr s' \<Longrightarrow> locks s' = locks s"
  unfolding Thread_Finish_def by (drule Sleep_locals(2)) simp

lemma P_same: "Semaphore_P m s = Inr s' \<Longrightarrow> locks s' = locks s"
  by (cases "svalue (sems s m) = 0") (auto simp: P_cases P_wait_def P_take_def dest: Sleep_locals(2))

section \<open>No assertion fails\<close>

lemma exec_ok:
  assumes I: "sync_inv s" and F: "\<forall>t. fence_ok s t" and i: "\<not> idling s"
    and f: "frames s (currentThread s) = []" and e: "exec a s = Some r"
  shows "\<exists>s'. r = Inr s'"
proof -
  from I have K: "kernel_inv s (waitq s)" by (simp add: sync_inv_def)
  have sl: "\<exists>k'. Thread_Sleep fr s1 = Inr k'"
    if "kernel_inv s1 wq" "NotReached \<notin> set fr" "level s1 = IntOff" "fence_ok s1 = fence_ok s"
      "idling s1 = idling s" for fr s1 and wq :: "qid \<Rightarrow> tid list"
    using sleep_ok [OF that(1) _ that(2,3)] that(4,5) F i by simp
  show ?thesis
  proof (cases a)
    case (DoP m)
    have "\<exists>k'. P_wait m [RestoreLevel (level s)] (s\<lparr>level := IntOff\<rparr>) = Inr k'"
      unfolding P_wait_def by (rule sl [of _ "waitq s"]) (use K in simp_all)
    then show ?thesis using e DoP by (cases "svalue (sems s m) = 0") (auto simp: P_cases)
  next
    case (DoAcquire l)
    have "\<exists>k'. Thread_Sleep [AcquireDone l, RestoreLevel (level s)]
        (s\<lparr>level := IntOff, locks := (locks s)(l := (locks s l)\<lparr>lqueue :=
          q_append (currentThread s) (lqueue (locks s l))\<rparr>)\<rparr>) = Inr k'"
      by (rule sl [of _ "waitq s"]) (use K in simp_all)
    then show ?thesis using e DoAcquire
      by (cases "isHeldByCurrentThread l s"; cases "free (locks s l)") (auto simp: Acquire_cases)
  next
    case (DoWait c lo)
    show ?thesis
    proof (cases "wait_refused c lo s")
      case True
      with e DoWait show ?thesis by (auto simp: Wait_cases)
    next
      case False
      then obtain l where lo: "lo = Some l" by (auto simp: wait_refused_def)
      define s1 where "s1 = s\<lparr>level := IntOff, conds := (conds s)(c := (conds s c)\<lparr>waitingLock := Some l\<rparr>)\<rparr>"
      define s2 where "s2 = Lock_Release l s1"
      have "waitq s1 = waitq s"
        using waitq_changed(2) [of s1 s c] by (auto simp: s1_def fun_eq_iff)
      then have "kernel_inv s1 (waitq s1)" using K by (simp add: s1_def)
      then have K2: "kernel_inv s2 (waitq s2)" unfolding s2_def by (rule Release_kernel_inv)
      have "\<exists>k'. Thread_Sleep [WaitReacquire l, RestoreLevel (level s)]
         (s2\<lparr>conds := (conds s2)(c := (conds s2 c)\<lparr>cqueue := q_append (currentThread s2) (cqueue (conds s2 c))\<rparr>)\<rparr>)
         = Inr k'"
        by (rule sl [of _ "waitq s2"]) (use K2 in \<open>simp_all add: s2_def s1_def Release_same\<close>)
      then show ?thesis
        using e DoWait lo Wait_cases(2) [OF False [unfolded lo] s2_def [unfolded s1_def]] by auto
    qed
  next
    case DoYield
    with e yield_ok [OF K] F show ?thesis by auto
  next
    case DoFinish
    have "\<exists>k'. Thread_Finish s = Inr k'"
    proof -
      let ?k = "s\<lparr>level := IntOff, threadToBeDestroyed := Some (currentThread s)\<rparr>"
      let ?k1 = "?k\<lparr>status := (status ?k)(currentThread ?k := BLOCKED),
        frames := (frames ?k)(currentThread ?k := [NotReached] @ frames ?k (currentThread ?k))\<rparr>"
      have "\<exists>k'. Sleep_loop ?k1 = Inr k'"
      proof (cases "readyList s")
        case Nil
        then show ?thesis by (simp add: Sleep_loop_def FindNextToRun_Nil)
      next
        case (Cons n ns)
        have "n \<noteq> currentThread s" using kernel_inv_current(4) [OF K i] Cons by auto
        then have "\<exists>k'. Run n (?k1\<lparr>readyList := ns, idling := False\<rparr>) = Inr k'"
          using F by (intro Run_ok) simp_all
        then show ?thesis using Cons by (simp add: Sleep_loop_def FindNextToRun_Cons)
      qed
      then show ?thesis by (simp add: Thread_Finish_def Thread_Sleep_def Let_def)
    qed
    with e DoFinish show ?thesis by auto
  qed (use e in auto)
qed

lemma resume_ok:
  assumes I: "sync_inv s" and F: "\<forall>t. fence_ok s t" and i: "\<not> idling s"
  shows "\<exists>s'. resume s = Inr s'"
proof (cases "frames s (currentThread s)")
  case Nil
  then show ?thesis by (simp add: resume_def)
next
  case (Cons f fs)
  from I have K: "kernel_inv s (waitq s)" and V: "level_inv s" by (simp_all add: sync_inv_def)
  note C = kernel_inv_current [OF K i]
  let ?p = "pop_frame s"
  have p: "?p = s\<lparr>frames := (frames s)(currentThread s := fs)\<rparr>" using Cons by (simp add: pop_frame_def)
  have off: "level s = IntOff" using V Cons by (simp add: level_inv_def)
  have nr: "NotReached \<notin> set fs" "f \<noteq> NotReached" using C(3) Cons by auto
  have Kp: "kernel_inv ?p (waitq s)" using kernel_inv_frames [OF K i nr(1)] by (simp add: p)
  have sl: "\<exists>k'. Thread_Sleep fr s1 = Inr k'"
    if "kernel_inv s1 (waitq s)" "NotReached \<notin> set fr" "level s1 = IntOff" "fence_ok s1 = fence_ok s"
      "idling s1 = idling s" for fr s1
    using sleep_ok [OF that(1) _ that(2,3)] that(4,5) F i by simp
  show ?thesis
  proof (cases f)
    case (SemRetry m)
    have "\<exists>k'. P_wait m [] ?p = Inr k'"
      unfolding P_wait_def by (rule sl) (use Kp off in \<open>simp_all add: p\<close>)
    then show ?thesis using Cons SemRetry by (simp add: resume_def)
  next
    case (WaitReacquire l)
    have "\<exists>k'. Thread_Sleep [AcquireDone l, RestoreLevel (level ?p)]
        (?p\<lparr>level := IntOff, locks := (locks ?p)(l := (locks ?p l)\<lparr>lqueue :=
          q_append (currentThread ?p) (lqueue (locks ?p l))\<rparr>)\<rparr>) = Inr k'"
      by (rule sl) (use Kp in \<open>simp_all add: p\<close>)
    then have "\<exists>k'. Lock_Acquire l ?p = Inr k'"
      by (cases "isHeldByCurrentThread l ?p"; cases "free (locks ?p l)") (auto simp: Acquire_cases)
    then show ?thesis using Cons WaitReacquire by (simp add: resume_def)
  qed (use Cons nr in \<open>simp_all add: resume_def\<close>)
qed

lemma P_fence: "Semaphore_P m s = Inr s' \<Longrightarrow> fence_ok s' = fence_ok s"
  by (cases "svalue (sems s m) = 0") (auto simp: P_cases P_wait_def P_take_def dest: Sleep_locals(6))

lemma Acquire_fence: "Lock_Acquire l s = Inr s' \<Longrightarrow> fence_ok s' = fence_ok s"
  by (cases "isHeldByCurrentThread l s"; cases "free (locks s l)")
    (auto simp: Acquire_cases dest: Sleep_locals(6))

lemma Wait_fence:
  assumes "Condition_Wait c lo s = Inr s'"
  shows "fence_ok s' = fence_ok s"
proof (cases "wait_refused c lo s")
  case True
  with assms show ?thesis by (simp add: Wait_cases)
next
  case False
  then obtain l where lo: "lo = Some l" by (auto simp: wait_refused_def)
  from Sleep_locals(6) [OF assms [unfolded lo Wait_cases(2) [OF False [unfolded lo] refl]]]
  show ?thesis by (simp add: Release_same)
qed

lemma Broadcast_fence:
  assumes "Condition_Broadcast c lo s = Some s'"
  shows "fence_ok s' = fence_ok s"
  by (rule Condition_Broadcast.raw_induct [where P = "\<lambda>c lo s s'. fence_ok s' = fence_ok s", OF _ assms])
    (metis Signal_same(2) option.inject)

lemma exec_fence:
  "exec a s = Some (Inr s') \<Longrightarrow> \<forall>t. fence_ok s t \<Longrightarrow> \<forall>t. fence_ok s' t"
proof (cases a)
  case DoFinish
  assume "exec a s = Some (Inr s')" "\<forall>t. fence_ok s t"
  with DoFinish show ?thesis
    by (auto simp: Thread_Finish_def dest: Sleep_locals(6))
qed (auto simp: V_same Release_same Signal_same Thread_Fork_def Thread_new_def ReadyToRun_def
      dest: P_fence Acquire_fence Wait_fence Broadcast_fence Yield_locals(4))

lemma resume_fence: "resume s = Inr s' \<Longrightarrow> fence_ok s' = fence_ok s"
  by (auto simp: resume_def P_wait_def P_take_def pop_frame_def
      split: list.splits frame.splits if_splits dest!: Sleep_locals(6) Acquire_fence)

lemma reach_fence: "reach s \<Longrightarrow> \<forall>t. fence_ok s t"
proof (induction rule: reach.induct)
  case (reach_init s)
  then show ?case by (simp add: sys_init_def)
next
  case (reach_step s a s')
  from reach_step(2) show ?case
  proof (cases rule: step.cases)
    case (step_op b)
    then show ?thesis using exec_fence reach_step(3) by blast
  qed (use reach_step(3) resume_fence V_same(2) Sleep_loop_locals(6) in metis)+
qed

text \<open>A concrete first state, and one reached from it.\<close>

definition sys0 :: sys where
  "sys0 = \<lparr>threads = {0}, currentThread = 0, readyList = [],
     status = (\<lambda>t. if t = 0 then RUNNING else JUST_CREATED), frames = (\<lambda>_. []), fence_ok = (\<lambda>_. True),
     level = IntOff, threadToBeDestroyed = None, idling = False,
     sems = (\<lambda>_. Semaphore_new 0), locks = (\<lambda>_. Lock_new), conds = (\<lambda>_. Condition_new)\<rparr>"

lemma reach_sys0: "reach sys0"
  by (rule reach_init) (simp add: sys_init_def sys0_def Semaphore_new_def)

fun run_ops :: "operation option list \<Rightarrow> sys \<Rightarrow> sys option" where
  "run_ops [] s = Some s"
| "run_ops (Some a # as) s =
     (if \<not> idling s \<and> frames s (currentThread s) = [] \<and>
         (case a of DoFork t \<Rightarrow> t \<notin> threads s | _ \<Rightarrow> True)
      then (case exec a s of Some (Inr s') \<Rightarrow> run_ops as s' | _ \<Rightarrow> None) else None)"
| "run_ops (None # as) s =
     (if \<not> idling s \<and> frames s (currentThread s) \<noteq> []
      then (case resume s of Inr s' \<Rightarrow> run_ops as s' | _ \<Rightarrow> None) else None)"

lemma run_ops_reach: "run_ops as s = Some s' \<Longrightarrow> reach s \<Longrightarrow> reach s'"
proof (induction as s rule: run_ops.induct)
  case (2 a as s)
  from 2(2) have c: "\<not> idling s" "frames s (currentThread s) = []"
    "\<And>t. a = DoFork t \<Longrightarrow> t \<notin> threads s" by (auto split: if_splits)
  from 2(2) obtain s1 where s1: "exec a s = Some (Inr s1)" "run_ops as s1 = Some s'"
    by (auto split: if_splits option.splits sum.splits)
  have "reach s1" using reach_step [OF 2(3) step_op [OF c s1(1)]] .
  with 2(1) s1 c 2(2) show ?case by (auto split: if_splits)
next
  case (3 as s)
  from 3(2) obtain s1 where s1: "\<not> idling s" "frames s (currentThread s) \<noteq> []" "resume s = Inr s1"
    "run_ops as s1 = Some s'" by (auto split: if_splits sum.splits)
  have "reach s1" using reach_step [OF 3(3) step_resume [OF s1(1-3)]] .
  with 3(1) s1 show ?case by blast
qed simp

lemmas run_simps = Lock_Acquire_def Lock_Release_def isHeldByCurrentThread_def Condition_Wait_def
  Condition_Signal_def Semaphore_P_def Semaphore_V_def P_wait_def P_take_def Thread_Sleep_def
  Sleep_loop_def FindNextToRun_def Run_def delete_thread_def Thread_Yield_def Thread_Fork_def
  Thread_new_def Thread_Finish_def ReadyToRun_def resume_def pop_frame_def Let_def
  Semaphore_new_def Lock_new_def Condition_new_def q_append_def sys0_def

text \<open>
  Thread 0 takes lock 0, forks thread 1 and yields; thread 1 starts, asks for the lock and sleeps;
  thread 0 runs again.
\<close>

definition contended :: "operation option list" where
  "contended = [Some (DoAcquire 0), Some (DoFork 1), Some DoYield, None, Some (DoAcquire 0), None]"

lemma contended_runs:
  "\<exists>s. run_ops contended sys0 = Some s \<and> reach s \<and> \<not> idling s \<and> currentThread s = 0 \<and>
     frames s 0 = [] \<and> lqueue (locks s 0) = [1] \<and> ownerThread (locks s 0) = Some 0"
proof -
  have "\<exists>s. run_ops contended sys0 = Some s \<and> \<not> idling s \<and> currentThread s = 0 \<and>
     frames s 0 = [] \<and> lqueue (locks s 0) = [1] \<and> ownerThread (locks s 0) = Some 0"
    by (simp add: contended_def run_simps)
  then show ?thesis using run_ops_reach reach_sys0 by blast
qed

section \<open>Properties\<close>

text \<open>
  C1 In every state the interleaved threads can reach: exactly the \<open>READY\<close> threads are on the ready
  list, once each; a \<open>BLOCKED\<close> thread that has not finished is in exactly one wait queue, once; a
  lock is free exactly when it has no owner and then nobody waits for it, its owner never waits for
  it, and whoever waits is inside its own \<open>Acquire\<close>; no semaphore value is negative.
\<close>

theorem sync_invariant:
  assumes "reach s"
  shows "distinct (readyList s) \<and> (\<forall>t. t \<in> set (readyList s) \<longleftrightarrow> status s t = READY) \<and>
    (\<forall>t. status s t = BLOCKED \<and> NotReached \<notin> set (frames s t) \<longrightarrow>
       (\<exists>!q. t \<in> set (waitq s q)) \<and> (\<forall>q. distinct (waitq s q))) \<and>
    (\<forall>l. (free (locks s l) \<longleftrightarrow> ownerThread (locks s l) = None) \<and>
       (free (locks s l) \<longrightarrow> lqueue (locks s l) = []) \<and>
       (\<forall>t. t \<in> set (lqueue (locks s l)) \<longrightarrow>
          ownerThread (locks s l) \<noteq> Some t \<and> AcquireDone l \<in> set (frames s t))) \<and>
    (\<forall>m. svalue (sems s m) \<ge> 0)"
proof -
  from reach_inv [OF assms] have K: "kernel_inv s (waitq s)" and L: "lock_inv s"
    and S: "\<forall>m. svalue (sems s m) \<ge> 0" by (simp_all add: sync_inv_def)
  note D = kernel_invD [OF K]
  have "\<exists>!q. t \<in> set (waitq s q)" if "status s t = BLOCKED" "NotReached \<notin> set (frames s t)" for t
    using D(5) [of t] D(6) [of t] that by blast
  moreover have "\<forall>q. distinct (waitq s q)" using D(4) by blast
  moreover have "\<forall>l. (free (locks s l) \<longleftrightarrow> ownerThread (locks s l) = None) \<and>
       (free (locks s l) \<longrightarrow> lqueue (locks s l) = []) \<and>
       (\<forall>t. t \<in> set (lqueue (locks s l)) \<longrightarrow>
          ownerThread (locks s l) \<noteq> Some t \<and> AcquireDone l \<in> set (frames s t))"
    using L unfolding lock_inv_def by blast
  ultimately show ?thesis using D(1,2) S by blast
qed

theorem sync_invariant_witness:
  "\<exists>s. run_ops contended sys0 = Some s \<and> distinct (readyList s) \<and> \<not> free (locks s 0)"
proof -
  obtain s where s: "run_ops contended sys0 = Some s" "reach s" "lqueue (locks s 0) = [1]"
    using contended_runs by blast
  from sync_invariant [OF s(2)] s show ?thesis by (metis list.distinct(1))
qed

text \<open>
  C2 \<open>Acquire\<close> returns only to the owner of the lock.  A call by the running thread either ends with
  that thread the owner, or puts it to sleep at the end of the queue of a lock that another thread
  holds, whose owner it does not change; and when a thread whose \<open>Acquire\<close> slept (called by itself or
  at the end of \<open>Wait\<close>) is back on the CPU about to return from it, that thread is the owner.
\<close>

theorem acquire_returns_owner:
  assumes "reach s" and "\<not> idling s"
  shows "(\<forall>s'. frames s (currentThread s) = [] \<and> Lock_Acquire l s = Inr s' \<longrightarrow>
      ownerThread (locks s' l) = Some (currentThread s) \<or>
      (\<exists>t. t \<noteq> currentThread s \<and> ownerThread (locks s l) = Some t \<and> ownerThread (locks s' l) = Some t \<and>
         lqueue (locks s' l) = lqueue (locks s l) @ [currentThread s] \<and>
         AcquireDone l \<in> set (frames s' (currentThread s)))) \<and>
    (\<forall>fs. frames s (currentThread s) = AcquireDone l # fs \<longrightarrow>
      isHeldByCurrentThread l s)"
proof -
  from reach_inv [OF assms(1)] have K: "kernel_inv s (waitq s)" and L: "lock_inv s"
    by (simp_all add: sync_inv_def)
  note D = lock_invD [OF L, where l = l]
  have "currentThread s \<notin> set (lqueue (locks s l))"
    using kernel_inv_current(2) [OF K assms(2), of "QL l"] by simp
  then have "isHeldByCurrentThread l s" if "frames s (currentThread s) = AcquireDone l # fs" for fs
    using D(4) [of "currentThread s"] that by (simp add: isHeldByCurrentThread_def)
  moreover have "ownerThread (locks s' l) = Some (currentThread s) \<or>
      (\<exists>t. t \<noteq> currentThread s \<and> ownerThread (locks s l) = Some t \<and> ownerThread (locks s' l) = Some t \<and>
         lqueue (locks s' l) = lqueue (locks s l) @ [currentThread s] \<and>
         AcquireDone l \<in> set (frames s' (currentThread s)))"
    if a: "Lock_Acquire l s = Inr s'" for s'
  proof -
    consider "isHeldByCurrentThread l s" | "\<not> isHeldByCurrentThread l s" "free (locks s l)"
      | "\<not> isHeldByCurrentThread l s" "\<not> free (locks s l)" by blast
    then show ?thesis
    proof cases
      case 1
      with a show ?thesis by (simp add: Acquire_cases isHeldByCurrentThread_def)
    next
      case 2
      with a show ?thesis by (auto simp: Acquire_cases)
    next
      case 3
      then obtain t where "ownerThread (locks s l) = Some t" "t \<noteq> currentThread s"
        using D(1) by (auto simp: isHeldByCurrentThread_def)
      then show ?thesis
        using Sleep_locals [OF a [unfolded Acquire_cases(3) [OF 3]]] by (simp add: q_append_def)
    qed
  qed
  ultimately show ?thesis by blast
qed

theorem acquire_returns_owner_witness:
  "\<exists>s s'. reach s \<and> Lock_Acquire 0 s = Inr s' \<and> ownerThread (locks s' 0) = Some (currentThread s)"
proof -
  have "\<exists>s'. Lock_Acquire 0 sys0 = Inr s'" "\<not> idling sys0" "frames sys0 (currentThread sys0) = []"
    by (simp_all add: run_simps)
  moreover have "ownerThread (locks sys0 0) = None" by (simp add: run_simps)
  ultimately show ?thesis
    using acquire_returns_owner [OF reach_sys0, of 0] reach_sys0 by fastforce
qed

text \<open>
  C3 A lock changes hands only by its owner's own doing: if some step of the system takes lock \<open>l\<close>
  away from thread \<open>t\<close>, then \<open>t\<close> is the thread that runs, the step is its \<open>Release\<close> of \<open>l\<close> or its
  \<open>Wait\<close> with \<open>l\<close>, and the new owner is the thread that has waited longest (nobody, if none waits).
\<close>

theorem lock_handoff:
  assumes "reach s" and "step a s s'" and "ownerThread (locks s l) = Some t"
    and "ownerThread (locks s' l) \<noteq> Some t"
  shows "t = currentThread s \<and> (a = Some (DoRelease l) \<or> (\<exists>c. a = Some (DoWait c (Some l)))) \<and>
    ownerThread (locks s' l) = (case lqueue (locks s l) of [] \<Rightarrow> None | u # _ \<Rightarrow> Some u)"
proof -
  from reach_inv [OF assms(1)] have L: "lock_inv s" by (simp add: sync_inv_def)
  have nf: "\<not> free (locks s l)" using lock_invD(1) [OF L, of l] assms(3) by simp
  have acq: "ownerThread (locks s1' l) = Some t" if "Lock_Acquire k s1 = Inr s1'" "locks s1 = locks s" for k s1 s1'
    using Acquire_owner [OF that(1), of l] that(2) nf assms(3) by auto
  have pop: "locks (pop_frame s) = locks s" by (simp add: pop_frame_def)
  from assms(2) show ?thesis
  proof (cases rule: step.cases)
    case (step_op b)
    show ?thesis
    proof (cases b)
      case (DoAcquire k)
      with step_op acq [of k s s'] assms(4) show ?thesis by simp
    next
      case (DoRelease k)
      with step_op assms(3,4) show ?thesis
        by (auto simp: Release_owner isHeldByCurrentThread_def split: if_splits)
    next
      case (DoWait c lo)
      with step_op Wait_owner [of c lo s s' l] assms(3,4) show ?thesis
        by (auto simp: isHeldByCurrentThread_def split: if_splits)
    next
      case (DoP m)
      with step_op P_same [of m s s'] assms(3,4) show ?thesis by simp
    next
      case (DoBroadcast c lo)
      with step_op Broadcast_same [of c lo s s'] assms(3,4) show ?thesis by auto
    next
      case DoYield
      with step_op Yield_locals(2) [of s s'] assms(3,4) show ?thesis by simp
    next
      case DoFinish
      with step_op Finish_same [of s s'] assms(3,4) show ?thesis by simp
    qed (use step_op assms(3,4) in \<open>auto simp: V_same Signal_same Thread_Fork_def Thread_new_def ReadyToRun_def\<close>)
  next
    case step_resume
    have "ownerThread (locks s' l) = Some t"
      using step_resume(4) assms(3) acq [OF _ pop]
      by (auto simp: resume_def P_wait_def P_take_def pop split: list.splits frame.splits if_splits
          dest!: Sleep_locals(2))
    with assms(4) show ?thesis by simp
  next
    case (step_irq m)
    with assms(3,4) show ?thesis by (simp add: V_same)
  next
    case step_idle
    with Sleep_loop_locals(2) assms(3,4) show ?thesis by metis
  qed
qed

theorem lock_handoff_witness:
  "\<exists>s s'. run_ops contended sys0 = Some s \<and> step (Some (DoRelease 0)) s s' \<and>
     ownerThread (locks s 0) = Some 0 \<and> ownerThread (locks s' 0) = Some 1"
proof -
  obtain s where s: "run_ops contended sys0 = Some s" "reach s" "\<not> idling s" "currentThread s = 0"
    "frames s 0 = []" "lqueue (locks s 0) = [1]" "ownerThread (locks s 0) = Some 0"
    using contended_runs by blast
  have "step (Some (DoRelease 0)) s (Lock_Release 0 s)"
    by (rule step_op) (use s in simp_all)
  moreover have "ownerThread (locks (Lock_Release 0 s) 0) \<noteq> Some 0"
    using s by (simp add: Release_owner isHeldByCurrentThread_def)
  ultimately show ?thesis using lock_handoff [OF s(2) _ s(7)] s by fastforce
qed


definition sys_waiters :: sys where
  "sys_waiters = sys0\<lparr>conds := (\<lambda>_. \<lparr>waitingLock = Some 0, cqueue = [3, 4]\<rparr>)\<rparr>"




text \<open>
  A finished thread can leak: \<open>Run\<close> deletes \<open>threadToBeDestroyed\<close> only behind its own \<open>SWITCH\<close>,
  which a thread that runs for the first time does not return from.  When a thread finishes, the
  next one runs for the first time and finishes too, the first thread is still allocated and no
  longer the one to be destroyed.
\<close>

theorem finished_thread_leak:
  assumes "reach s" and "\<not> idling s" and "readyList s = n # ns" and "frames s n = [ThreadRoot]"
    and "frames s (currentThread s) = []" and "Thread_Finish s = Inr s1" and "resume s1 = Inr s2"
    and "Thread_Finish s2 = Inr s3"
  shows "currentThread s2 = n \<and> currentThread s \<in> threads s3 \<and>
    status s3 (currentThread s) = BLOCKED \<and> threadToBeDestroyed s3 \<noteq> Some (currentThread s)"
proof -
  let ?t = "currentThread s"
  from reach_inv [OF assms(1)] have I: "sync_inv s" and K: "kernel_inv s (waitq s)"
    by (simp_all add: sync_inv_def)
  have ne: "n \<noteq> ?t" using kernel_inv_current(4) [OF K assms(2)] assms(3) by auto
  have th: "?t \<in> threads s" using kernel_inv_current(5) [OF K assms(2)] .
  have s1: "s1 = s\<lparr>level := IntOff, threadToBeDestroyed := Some ?t, currentThread := n, readyList := ns,
      status := (status s)(?t := BLOCKED, n := RUNNING), frames := (frames s)(?t := [NotReached]),
      idling := False\<rparr>"
    using assms(3-6) ne
    by (cases s) (auto simp: Thread_Finish_def Thread_Sleep_def Sleep_loop_def FindNextToRun_def
        Run_def Let_def bindE_eq_Inr)
  then have s2: "s2 = s1\<lparr>frames := (frames s1)(n := []), level := IntOn\<rparr>"
    using assms(4,7) ne by (auto simp: resume_def pop_frame_def)
  have fin: "Thread_Sleep [NotReached] (s2\<lparr>level := IntOff, threadToBeDestroyed := Some n\<rparr>) = Inr s3"
    using assms(8) s1 s2 by (simp add: Thread_Finish_def)
  have s3: "(threads s3 = threads s2 \<or> threads s3 = threads s2 - {n}) \<and>
      (threadToBeDestroyed s3 = Some n \<or> threadToBeDestroyed s3 = None)"
    using Sleep_threads [OF fin] by auto
  have "step (Some DoFinish) s s1" by (rule step_op) (use assms(2,5,6) in simp_all)
  then have I1: "sync_inv s1" using step_inv I by blast
  have "step None s1 s2" by (rule step_resume) (use s1 assms(4,7) ne in auto)
  then have I2: "sync_inv s2" using step_inv I1 by blast
  have "step (Some DoFinish) s2 s3" by (rule step_op) (use s1 s2 assms(8) in simp_all)
  then have I3: "sync_inv s3" using step_inv I2 by blast
  have "NotReached \<in> set (frames s3 ?t)" using Sleep_locals(4) [OF fin] s1 s2 ne by simp
  then have "status s3 ?t = BLOCKED" using I3 kernel_invD(6) [of s3 "waitq s3" ?t] by (simp add: sync_inv_def)
  moreover have "?t \<in> threads s2" using th by (simp add: s2 s1)
  then have "?t \<in> threads s3" using conjunct1 [OF s3] ne by (elim disjE) simp_all
  moreover have "threadToBeDestroyed s3 \<noteq> Some ?t"
    using conjunct2 [OF s3] ne by (elim disjE) simp_all
  moreover have "currentThread s2 = n" by (simp add: s2 s1)
  ultimately show ?thesis by simp
qed

theorem finished_thread_leak_witness:
  "\<exists>s (s3 :: sys). run_ops [Some (DoFork 1), Some (DoFork 2)] sys0 = Some s \<and> 0 \<in> threads s3 \<and>
     threadToBeDestroyed s3 \<noteq> Some 0"
proof -
  define s where "s = Thread_Fork 2 (Thread_new 2 (Thread_Fork 1 (Thread_new 1 sys0)))"
  have run: "run_ops [Some (DoFork 1), Some (DoFork 2)] sys0 = Some s"
    by (simp add: s_def Thread_Fork_def Thread_new_def ReadyToRun_def sys0_def)
  have r: "reach s" by (rule run_ops_reach [OF run reach_sys0])
  have c: "\<not> idling s" "readyList s = 1 # [2]" "frames s 1 = [ThreadRoot]"
    "frames s (currentThread s) = []" "currentThread s = 0"
    by (simp_all add: s_def Thread_Fork_def Thread_new_def ReadyToRun_def sys0_def q_append_def)
  obtain s1 where s1: "Thread_Finish s = Inr s1"
    using exec_ok [OF reach_inv [OF r] reach_fence [OF r] c(1,4), of DoFinish] by auto
  have st1: "step (Some DoFinish) s s1" by (rule step_op) (use c s1 in simp_all)
  have r1: "reach s1" by (rule reach_step [OF r st1])
  have c1: "\<not> idling s1" "currentThread s1 = 1" "frames s1 1 = [ThreadRoot]"
    using Sleep_switch [OF s1 [unfolded Thread_Finish_def], of 1 "[2]"] c by auto
  obtain s2 where s2: "resume s1 = Inr s2"
    using resume_ok [OF reach_inv [OF r1] reach_fence [OF r1] c1(1)] by auto
  have r2: "reach s2" by (rule reach_step [OF r1 step_resume]) (use c1 s2 in simp_all)
  have c2: "\<not> idling s2" "frames s2 (currentThread s2) = []"
    using s2 c1 by (auto simp: resume_def pop_frame_def)
  obtain s3 where s3: "Thread_Finish s2 = Inr s3"
    using exec_ok [OF reach_inv [OF r2] reach_fence [OF r2] c2, of DoFinish] by auto
  note leak = finished_thread_leak [OF r c(1,2,3,4) s1 s2 s3]
  then have "0 \<in> threads s3 \<and> threadToBeDestroyed s3 \<noteq> Some 0" unfolding c(5) by blast
  with run show ?thesis by blast
qed

end
