(* ===== verification/Nachos_Message.thy ===== *)
theory Nachos_Message
  imports Nachos_Prelude "HOL-Library.Char_ord"
begin

text \<open>
  The messages that clients, servers and message handlers exchange, and their wire format
  (\<open>msgPrepare\<close> and \<open>decodeMessage\<close> of threads/system.cc, the checks of \<open>PostOffice::Send\<close>).  A
  message travels as a text line of three words and six decimal numbers in a mail of at most
  \<open>MaxMailSize\<close> bytes.  The fixed-size buffers of the C++ code are explicit: writing past one is
  \<open>BufferOverflow\<close>, a number that cannot be read leaves its field \<open>Uninitialised\<close>.
\<close>

section \<open>Constants and records\<close>

text \<open>\<open>MaxWireSize\<close> less the packet header (three words) and the mail header (three words).\<close>

definition MaxMailSize :: nat where
  "MaxMailSize = 64 - 12 - 12"

definition numBoxes :: int where
  "numBoxes = 10"

record Message =
  name :: string
  name2 :: string
  request :: string
  index :: int
  index2 :: int
  index3 :: int
  ID :: int
  clientMachine :: int
  clientMailbox :: int

text \<open>The parts of the packet and mail headers of a received mail that are used.\<close>

record Header =
  pkt_from :: int
  pkt_to :: int
  mail_from :: int

text \<open>A mail that is sent; \<open>from_box\<close> is \<open>None\<close> where the sender leaves that header field unset.\<close>

record Mail =
  to_machine :: int
  to_box :: int
  from_box :: "int option"
  payload :: string

section \<open>Numbers as text\<close>

definition digit :: "nat \<Rightarrow> char" where
  "digit d = char_of (48 + d)"

fun show_nat :: "nat \<Rightarrow> string" where
  "show_nat n = (if n < 10 then [digit n] else show_nat (n div 10) @ [digit (n mod 10)])"

declare show_nat.simps [simp del]

definition show_int :: "int \<Rightarrow> string" where
  "show_int i = (if i < 0 then CHR ''-'' # show_nat (nat (- i)) else show_nat (nat i))"

definition is_digit :: "char \<Rightarrow> bool" where
  "is_digit c \<longleftrightarrow> 48 \<le> (of_char c :: nat) \<and> (of_char c :: nat) \<le> 57"

definition nat_of_digits :: "string \<Rightarrow> nat" where
  "nat_of_digits ds = foldl (\<lambda>a c. a * 10 + (of_char c - 48)) 0 ds"

definition is_space :: "char \<Rightarrow> bool" where
  "is_space c \<longleftrightarrow> c = CHR '' '' \<or> (9 \<le> (of_char c :: nat) \<and> (of_char c :: nat) \<le> 13)"

section \<open>msgPrepare and decodeMessage\<close>

definition space :: string where
  "space = [CHR '' '']"

definition msg_text :: "Message \<Rightarrow> string" where
  "msg_text m = take 2 (request m) @ space @ name m @ space @ name2 m @ space @ show_int (index m) @
     space @ show_int (index2 m) @ space @ show_int (index3 m) @ space @ show_int (ID m) @ space @
     show_int (clientMachine m) @ space @ show_int (clientMailbox m)"

text \<open>The text is copied into a buffer of \<open>MaxMailSize\<close> bytes, with its terminating zero.\<close>

definition msgPrepare :: "Message \<Rightarrow> fault + string" where
  "msgPrepare m =
     (if length (msg_text m) + 1 > MaxMailSize then Inl BufferOverflow else Inr (msg_text m))"

text \<open>
  \<open>ss >> word\<close> into a buffer of \<open>cap\<close> bytes, and \<open>ss >> number\<close> into an \<open>int\<close>.  The request buffer
  is allocated with two bytes while two characters and the terminating zero are stored; the block
  the allocator hands out has room for the third, so its capacity is three here.
\<close>

definition read_word :: "nat \<Rightarrow> string \<Rightarrow> fault + string \<times> string" where
  "read_word cap s =
     (let s1 = dropWhile is_space s; w = takeWhile (\<lambda>c. \<not> is_space c) s1 in
      if w = [] then Inl Uninitialised
      else if length w + 1 > cap then Inl BufferOverflow
      else Inr (w, dropWhile (\<lambda>c. \<not> is_space c) s1))"

definition int_ok :: "int \<Rightarrow> bool" where
  "int_ok i \<longleftrightarrow> - (2 ^ 31) \<le> i \<and> i < 2 ^ 31"

definition read_int :: "string \<Rightarrow> fault + int \<times> string" where
  "read_int s =
     (let s1 = dropWhile is_space s;
          neg = (case s1 of c # _ \<Rightarrow> c = CHR ''-'' | [] \<Rightarrow> False);
          s2 = (if neg then tl s1 else s1);
          ds = takeWhile is_digit s2;
          v = (if neg then - int (nat_of_digits ds) else int (nat_of_digits ds)) in
      if ds = [] \<or> \<not> int_ok v then Inl Uninitialised else Inr (v, dropWhile is_digit s2))"

definition decodeMessage :: "string \<Rightarrow> fault + Message" where
  "decodeMessage buf =
     bindE (read_word 3 buf) (\<lambda>(rq, s). bindE (read_word 20 s) (\<lambda>(n1, s). bindE (read_word 20 s) (\<lambda>(n2, s).
     bindE (read_int s) (\<lambda>(i1, s). bindE (read_int s) (\<lambda>(i2, s). bindE (read_int s) (\<lambda>(i3, s).
     bindE (read_int s) (\<lambda>(iD, s). bindE (read_int s) (\<lambda>(cm, s). bindE (read_int s) (\<lambda>(cb, s).
     Inr \<lparr>name = n1, name2 = n2, request = rq, index = i1, index2 = i2, index3 = i3, ID = iD,
          clientMachine = cm, clientMailbox = cb\<rparr>)))))))))"

text \<open>\<open>msgPrepare\<close> followed by \<open>PostOffice::Send\<close>, with its assertions; \<open>len\<close> is \<open>mailHdr.length\<close>.\<close>

definition Post_Send :: "int \<Rightarrow> int \<Rightarrow> int option \<Rightarrow> nat \<Rightarrow> string \<Rightarrow> fault + Mail" where
  "Post_Send machine box from len data =
     bindE (assertE (len \<le> MaxMailSize)) (\<lambda>_.
     bindE (assertE (0 \<le> box \<and> box < numBoxes)) (\<lambda>_.
     Inr \<lparr>to_machine = machine, to_box = box, from_box = from, payload = data\<rparr>))"

definition send_msg :: "int \<Rightarrow> int \<Rightarrow> int option \<Rightarrow> Message \<Rightarrow> fault + Mail" where
  "send_msg machine box from m =
     bindE (msgPrepare m) (\<lambda>d. Post_Send machine box from (length d + 1) d)"

section \<open>Reading back what was written\<close>

lemma of_char_digit: "d < 10 \<Longrightarrow> (of_char (digit d) :: nat) = 48 + d"
  by (simp add: digit_def)

lemma is_digit_digit [simp]: "d < 10 \<Longrightarrow> is_digit (digit d)"
  by (simp add: is_digit_def of_char_digit)

lemma show_nat_digits: "\<forall>c \<in> set (show_nat n). is_digit c"
proof (induction n rule: show_nat.induct)
  case (1 n)
  then show ?case by (subst show_nat.simps) auto
qed

lemma show_nat_nonempty [simp]: "show_nat n \<noteq> []"
  by (subst show_nat.simps) simp

lemma nat_of_digits_snoc: "nat_of_digits (ds @ [c]) = nat_of_digits ds * 10 + (of_char c - 48)"
  by (simp add: nat_of_digits_def)

lemma nat_of_digits_show: "nat_of_digits (show_nat n) = n"
proof (induction n rule: show_nat.induct)
  case (1 n)
  show ?case
  proof (cases "n < 10")
    case True
    then show ?thesis by (subst show_nat.simps) (simp add: nat_of_digits_def of_char_digit)
  next
    case False
    then have "show_nat n = show_nat (n div 10) @ [digit (n mod 10)]" by (subst show_nat.simps) simp
    with 1 [OF False] show ?thesis by (simp add: nat_of_digits_snoc of_char_digit)
  qed
qed

lemma digit_not_space: "is_digit c \<Longrightarrow> \<not> is_space c"
  by (auto simp: is_digit_def is_space_def)

lemma digit_not_minus: "is_digit c \<Longrightarrow> c \<noteq> CHR ''-''"
  by (auto simp: is_digit_def)

lemma minus_not_space: "\<not> is_space (CHR ''-'')"
  by (simp add: is_space_def)

lemma space_is_space [simp]: "is_space (CHR '' '')"
  by (simp add: is_space_def)

lemma space_not_digit: "is_space c \<Longrightarrow> \<not> is_digit c"
  using digit_not_space by blast

lemma show_int_chars: "c \<in> set (show_int i) \<Longrightarrow> \<not> is_space c"
  using show_nat_digits digit_not_space by (auto simp: show_int_def minus_not_space split: if_splits)

lemma show_int_nonempty [simp]: "show_int i \<noteq> []"
  by (simp add: show_int_def)

definition ends :: "string \<Rightarrow> bool" where
  "ends r \<longleftrightarrow> r = [] \<or> is_space (hd r)"

lemma takeWhile_until:
  "\<forall>c \<in> set xs. P c \<Longrightarrow> r = [] \<or> \<not> P (hd r) \<Longrightarrow> takeWhile P (xs @ r) = xs \<and> dropWhile P (xs @ r) = r"
  by (induction xs) (auto, (cases r; simp)+)

lemma read_word_token:
  assumes "w \<noteq> []" "\<forall>c \<in> set w. \<not> is_space c" "length w < cap" "ends r"
  shows "read_word cap (CHR '' '' # w @ r) = Inr (w, r)" "read_word cap (w @ r) = Inr (w, r)"
proof -
  obtain a u where w: "w = a # u" using assms(1) by (cases w) auto
  have "takeWhile (\<lambda>c. \<not> is_space c) (w @ r) = w \<and> dropWhile (\<lambda>c. \<not> is_space c) (w @ r) = r"
    by (rule takeWhile_until) (use assms(2,4) in \<open>auto simp: ends_def\<close>)
  moreover have "dropWhile is_space (w @ r) = w @ r" using w assms(2) by simp
  moreover have "dropWhile is_space (CHR '' '' # w @ r) = w @ r" using calculation(2) by (simp add: is_space_def)
  ultimately show "read_word cap (CHR '' '' # w @ r) = Inr (w, r)" "read_word cap (w @ r) = Inr (w, r)"
    using assms(1,3) by (simp_all add: read_word_def Let_def)
qed

lemma read_int_show:
  assumes "int_ok i" "ends r"
  shows "read_int (CHR '' '' # show_int i @ r) = Inr (i, r)"
proof -
  let ?n = "nat (if i < 0 then - i else i)"
  have tw: "takeWhile is_digit (show_nat ?n @ r) = show_nat ?n \<and> dropWhile is_digit (show_nat ?n @ r) = r"
    by (rule takeWhile_until) (use show_nat_digits assms(2) space_not_digit in \<open>auto simp: ends_def\<close>)
  obtain a u where a: "show_nat ?n = a # u" by (cases "show_nat ?n") auto
  have ad: "is_digit a" using show_nat_digits [of ?n] a by simp
  show ?thesis
  proof (cases "i < 0")
    case True
    then have "show_int i = CHR ''-'' # show_nat ?n" by (simp add: show_int_def)
    with True tw assms(1) show ?thesis
      by (simp add: read_int_def Let_def is_space_def nat_of_digits_show)
  next
    case False
    then have s: "show_int i = show_nat ?n" by (simp add: show_int_def)
    have "dropWhile is_space (CHR '' '' # show_nat ?n @ r) = show_nat ?n @ r"
      using a digit_not_space [OF ad] by (simp add: space_is_space)
    moreover have "\<not> (case show_nat ?n @ r of c # _ \<Rightarrow> c = CHR ''-'' | [] \<Rightarrow> False)"
      using a ad digit_not_minus by simp
    ultimately show ?thesis using False tw assms(1) unfolding s
      by (simp add: read_int_def Let_def nat_of_digits_show)
  qed
qed

section \<open>Length of a number as text\<close>

lemma length_show_nat: "n < 10 ^ k \<Longrightarrow> 0 < k \<Longrightarrow> length (show_nat n) \<le> k"
proof (induction n arbitrary: k rule: show_nat.induct)
  case (1 n)
  show ?case
  proof (cases "n < 10")
    case True
    with 1 show ?thesis by (subst show_nat.simps) simp
  next
    case False
    then obtain j where k: "k = Suc j" "0 < j" using 1 by (cases k; cases "k - 1") auto
    have "n div 10 < 10 ^ j" using 1(2) k by (simp add: less_mult_imp_div_less mult.commute)
    from 1(1) [OF False this k(2)] have "length (show_nat (n div 10)) \<le> j" .
    moreover have "show_nat n = show_nat (n div 10) @ [digit (n mod 10)]"
      using False by (subst show_nat.simps) simp
    ultimately show ?thesis using k by simp
  qed
qed

lemma length_show_int: "int_ok i \<Longrightarrow> length (show_int i) \<le> 11"
proof -
  assume i: "int_ok i"
  have "length (show_nat (nat (- i))) \<le> 10" if "i < 0"
    by (rule length_show_nat) (use i that in \<open>simp_all add: int_ok_def nat_less_iff\<close>)
  moreover have "length (show_nat (nat i)) \<le> 10" if "\<not> i < 0"
    by (rule length_show_nat) (use i that in \<open>simp_all add: int_ok_def nat_less_iff\<close>)
  ultimately show ?thesis by (auto simp: show_int_def)
qed

lemma int_ok_small [simp]: "int_ok 0" "int_ok (-1)"
  by (simp_all add: int_ok_def)

section \<open>Properties\<close>

text \<open>Words that survive the text format, and messages made of them.\<close>

definition word_ok :: "nat \<Rightarrow> string \<Rightarrow> bool" where
  "word_ok cap w \<longleftrightarrow> w \<noteq> [] \<and> (\<forall>c \<in> set w. \<not> is_space c) \<and> length w < cap"

definition msg_ok :: "Message \<Rightarrow> bool" where
  "msg_ok m \<longleftrightarrow> length (request m) = 2 \<and> word_ok 3 (request m) \<and> word_ok 20 (name m) \<and>
     word_ok 20 (name2 m) \<and> int_ok (index m) \<and> int_ok (index2 m) \<and> int_ok (index3 m) \<and> int_ok (ID m) \<and>
     int_ok (clientMachine m) \<and> int_ok (clientMailbox m)"

lemma decode_msg_text:
  assumes "msg_ok m"
  shows "decodeMessage (msg_text m) = Inr m"
proof -
  have sp: "ends (CHR '' '' # s)" "ends []" for s by (simp_all add: ends_def is_space_def)
  note w = read_word_token [OF _ _ _ sp(1)]
  show ?thesis
    using assms w(2) [of "request m" 3] w(1) [of "name m" 20] w(1) [of "name2 m" 20]
      read_int_show [OF _ sp(1)] read_int_show [OF _ sp(2), of "clientMailbox m"]
    by (simp add: decodeMessage_def msg_text_def space_def msg_ok_def word_ok_def)
qed

lemma length_msg_text: "length (request m) = 2 \<Longrightarrow>
  length (msg_text m) = length (name m) + length (name2 m) + length (show_int (index m)) +
    length (show_int (index2 m)) + length (show_int (index3 m)) + length (show_int (ID m)) +
    length (show_int (clientMachine m)) + length (show_int (clientMailbox m)) + 10"
  by (simp add: msg_text_def space_def)

text \<open>
  C23 What \<open>msgPrepare\<close> writes \<open>decodeMessage\<close> reads back: for a message with a two-character request,
  two names that are non-empty words of fewer than 20 characters and numbers in the range of \<open>int\<close>,
  either the text does not fit the mail buffer or decoding it gives the same message.
\<close>

theorem message_roundtrip:
  assumes "msg_ok m"
  shows "(msgPrepare m = Inl BufferOverflow \<and> length (msg_text m) \<ge> MaxMailSize) \<or>
         bindE (msgPrepare m) decodeMessage = Inr m"
proof (cases "length (msg_text m) + 1 > MaxMailSize")
  case True
  then show ?thesis by (simp add: msgPrepare_def)
next
  case False
  with decode_msg_text [OF assms] show ?thesis by (simp add: msgPrepare_def)
qed

definition msg_example :: Message where
  "msg_example = \<lparr>name = ''TheLock'', name2 = ''Lock'', request = ''CL'', index = -1, index2 = -1,
     index3 = -1, ID = 100, clientMachine = 2, clientMailbox = 3\<rparr>"

lemma space_examples: "\<not> is_space (CHR ''T'')" "\<not> is_space (CHR ''h'')" "\<not> is_space (CHR ''e'')"
  "\<not> is_space (CHR ''L'')" "\<not> is_space (CHR ''o'')" "\<not> is_space (CHR ''c'')"
  "\<not> is_space (CHR ''k'')" "\<not> is_space (CHR ''C'')"
  by (simp_all add: is_space_def)

lemma show_small: "show_nat 0 = ''0''" "show_nat (Suc 0) = ''1''" "show_nat 2 = ''2''" "show_nat 3 = ''3''"
  "show_nat 100 = ''100''"
  by code_simp+

theorem message_roundtrip_witness: "bindE (msgPrepare msg_example) decodeMessage = Inr msg_example"
proof -
  have "msg_ok msg_example"
    by (simp add: msg_ok_def msg_example_def word_ok_def int_ok_def space_examples)
  moreover have "msgPrepare msg_example \<noteq> Inl BufferOverflow"
    by (simp add: msgPrepare_def msg_text_def msg_example_def show_int_def show_small space_def MaxMailSize_def)
  ultimately show ?thesis using message_roundtrip [of msg_example] by blast
qed

end
