(* ===== verification/Nachos_Server.thy ===== *)
theory Nachos_Server
  imports Nachos_Message Nachos_List
begin

text \<open>
  The lock, condition-variable and monitor-variable server of network/nettest.cc (\<open>Server\<close> and its
  helpers).  The state is the three tables with their counters; each request type has one handler,
  which maps the state, the headers of the received mail and the decoded message to the new state
  and the mails sent, in order.  Each table has 5000 slots; the code reads a slot at the index in
  the message before it checks that index, so the read itself is bounds-checked here.
\<close>

section \<open>Tables\<close>

record ThreadID =
  machineID :: int
  threadID :: int

definition setIDs :: "int \<Rightarrow> int \<Rightarrow> ThreadID" where
  "setIDs m t = \<lparr>machineID = m, threadID = t\<rparr>"

definition MAX_SERVERLOCKS :: int where "MAX_SERVERLOCKS = 5000"
definition MAX_SERVERCONDITIONS :: int where "MAX_SERVERCONDITIONS = 5000"
definition MAX_MONITORVARIABLES :: int where "MAX_MONITORVARIABLES = 5000"
definition MAILBOX :: int where "MAILBOX = 0"
definition MESSAGE_MAILBOX :: int where "MESSAGE_MAILBOX = 1"

definition NO_OWNER :: ThreadID where
  "NO_OWNER = setIDs (-1) (-1)"

text \<open>A queue holds pointers, null where a null pointer was appended.\<close>

record ServerLock =
  lock_name :: "string option"
  lock_owner :: ThreadID
  lock_queue :: "ThreadID option list"
  lock_isToBeDeleted :: bool
  lock_isDeleted :: bool

record ServerCondition =
  cond_name :: "string option"
  cond_lockIndex :: int
  cond_queue :: "ThreadID option list"
  cond_isToBeDeleted :: bool
  cond_isDeleted :: bool

text \<open>The elements of a new array are \<open>None\<close>, that is indeterminate, until they are set.\<close>

record MonitorVariable =
  mv_name :: "string option"
  mv_array :: "int option list"
  mv_arraySize :: int
  mv_isToBeDeleted :: bool
  mv_isDeleted :: bool

record server =
  serverLockTable :: "int \<Rightarrow> ServerLock"
  serverConditionTable :: "int \<Rightarrow> ServerCondition"
  monitorVariableTable :: "int \<Rightarrow> MonitorVariable"
  numLocks :: int
  numConditions :: int
  numMonitorVariables :: int
  IDer :: int
  messageQueue :: "Message list"

definition slot_get :: "int \<Rightarrow> (int \<Rightarrow> 'a) \<Rightarrow> int \<Rightarrow> fault + 'a" where
  "slot_get n tab i = (if 0 \<le> i \<and> i < n then Inr (tab i) else Inl OutOfBounds)"

abbreviation "get_lock s i \<equiv> slot_get MAX_SERVERLOCKS (serverLockTable s) i"
abbreviation "get_cond s i \<equiv> slot_get MAX_SERVERCONDITIONS (serverConditionTable s) i"
abbreviation "get_mv s i \<equiv> slot_get MAX_MONITORVARIABLES (monitorVariableTable s) i"

definition set_lock :: "int \<Rightarrow> ServerLock \<Rightarrow> server \<Rightarrow> server" where
  "set_lock i L s = s\<lparr>serverLockTable := (serverLockTable s)(i := L)\<rparr>"

definition set_cond :: "int \<Rightarrow> ServerCondition \<Rightarrow> server \<Rightarrow> server" where
  "set_cond i C s = s\<lparr>serverConditionTable := (serverConditionTable s)(i := C)\<rparr>"

definition set_mv :: "int \<Rightarrow> MonitorVariable \<Rightarrow> server \<Rightarrow> server" where
  "set_mv i V s = s\<lparr>monitorVariableTable := (monitorVariableTable s)(i := V)\<rparr>"

text \<open>
  The tables come from \<open>new\<close> and are never cleared; the code relies on their names being null, as
  in zeroed memory, and so does this initial state.
\<close>

definition Server_init :: server where
  "Server_init = \<lparr>
     serverLockTable = (\<lambda>_. \<lparr>lock_name = None, lock_owner = setIDs 0 0, lock_queue = [],
       lock_isToBeDeleted = False, lock_isDeleted = False\<rparr>),
     serverConditionTable = (\<lambda>_. \<lparr>cond_name = None, cond_lockIndex = 0, cond_queue = [],
       cond_isToBeDeleted = False, cond_isDeleted = False\<rparr>),
     monitorVariableTable = (\<lambda>_. \<lparr>mv_name = None, mv_array = [], mv_arraySize = 0,
       mv_isToBeDeleted = False, mv_isDeleted = False\<rparr>),
     numLocks = 0, numConditions = 0, numMonitorVariables = 0, IDer = 0, messageQueue = []\<rparr>"

section \<open>Creating and finding objects\<close>

text \<open>\<open>strcpy\<close> into a new buffer of 20 bytes.\<close>

definition new_name :: "string \<Rightarrow> fault + string" where
  "new_name buf = (if length buf + 1 > 20 then Inl BufferOverflow else Inr buf)"

definition constructServerLock :: "int \<Rightarrow> string \<Rightarrow> server \<Rightarrow> fault + server" where
  "constructServerLock idx buf s =
     bindE (get_lock s idx) (\<lambda>_. bindE (new_name buf) (\<lambda>n.
     Inr (set_lock idx \<lparr>lock_name = Some n, lock_owner = NO_OWNER, lock_queue = [],
            lock_isToBeDeleted = False, lock_isDeleted = False\<rparr> s)))"

definition constructServerCondition :: "int \<Rightarrow> string \<Rightarrow> server \<Rightarrow> fault + server" where
  "constructServerCondition idx buf s =
     bindE (get_cond s idx) (\<lambda>_. bindE (new_name buf) (\<lambda>n.
     Inr (set_cond idx \<lparr>cond_name = Some n, cond_lockIndex = -1, cond_queue = [],
            cond_isToBeDeleted = False, cond_isDeleted = False\<rparr> s)))"

definition constructMonitorVariable :: "int \<Rightarrow> int \<Rightarrow> string \<Rightarrow> server \<Rightarrow> fault + server" where
  "constructMonitorVariable idx sz buf s =
     bindE (get_mv s idx) (\<lambda>_. bindE (new_name buf) (\<lambda>n.
     Inr (set_mv idx \<lparr>mv_name = Some n, mv_array = replicate (nat sz) None, mv_arraySize = sz,
            mv_isToBeDeleted = False, mv_isDeleted = False\<rparr> s)))"

text \<open>The loop of the three \<open>find\<close> functions; \<open>strcmp\<close> with a null name faults.\<close>

fun find_by_name :: "(int \<Rightarrow> fault + string option) \<Rightarrow> string \<Rightarrow> int \<Rightarrow> nat \<Rightarrow> nat \<Rightarrow> fault + int" where
  "find_by_name nm key base i 0 = Inr (-1)"
| "find_by_name nm key base i (Suc n) =
     bindE (nm (base + int i)) (\<lambda>p. bindE (derefE p) (\<lambda>x.
     if x = key then Inr (base + int i) else find_by_name nm key base (Suc i) n))"

definition findLockByName :: "string \<Rightarrow> int \<Rightarrow> server \<Rightarrow> fault + int" where
  "findLockByName n machine s =
     find_by_name (\<lambda>i. bindE (get_lock s i) (\<lambda>L. Inr (lock_name L))) n (machine * 100) 0 (nat (numLocks s))"

definition findConditionByName :: "string \<Rightarrow> int \<Rightarrow> server \<Rightarrow> fault + int" where
  "findConditionByName n machine s =
     find_by_name (\<lambda>i. bindE (get_cond s i) (\<lambda>C. Inr (cond_name C))) n (machine * 100) 0 (nat (numConditions s))"

definition findMonitorVariableByName :: "string \<Rightarrow> int \<Rightarrow> server \<Rightarrow> fault + int" where
  "findMonitorVariableByName n machine s =
     find_by_name (\<lambda>i. bindE (get_mv s i) (\<lambda>V. Inr (mv_name V))) n (machine * 100) 0
       (nat (numMonitorVariables s))"

section \<open>Replies\<close>

definition reply :: "string \<Rightarrow> int \<Rightarrow> int \<Rightarrow> int \<Rightarrow> Message" where
  "reply n i i2 i3 = \<lparr>name = n, name2 = ''reply'', request = ''HI'', index = i, index2 = i2,
     index3 = i3, ID = -1, clientMachine = -1, clientMailbox = -1\<rparr>"

text \<open>Address of a thread: machine and mailbox.\<close>

definition sendMessage :: "ThreadID \<Rightarrow> int option \<Rightarrow> fault + Mail" where
  "sendMessage a idx = (case idx of None \<Rightarrow> Inl Uninitialised
     | Some i \<Rightarrow> send_msg (machineID a) (threadID a) None (reply ''index'' i 0 0))"

definition sendErrorMessage :: "ThreadID \<Rightarrow> fault + Mail" where
  "sendErrorMessage a = send_msg (machineID a) (threadID a) None (reply ''error'' (-1) (-1) (-1))"

definition sendSuccessMessage :: "ThreadID \<Rightarrow> fault + Mail" where
  "sendSuccessMessage a = send_msg (machineID a) (threadID a) None (reply ''success'' 0 0 0)"

definition answer :: "server \<Rightarrow> fault + Mail \<Rightarrow> fault + server \<times> Mail list" where
  "answer s r = bindE r (\<lambda>m. Inr (s, [m]))"

text \<open>The sender of the mail, the client named in the message, and whom a reply goes to.\<close>

definition sender :: "Header \<Rightarrow> ThreadID" where
  "sender h = setIDs (pkt_from h) (mail_from h)"

definition client :: "Message \<Rightarrow> ThreadID" where
  "client m = setIDs (clientMachine m) (clientMailbox m)"

definition requester :: "Header \<Rightarrow> Message \<Rightarrow> ThreadID" where
  "requester h m = (if clientMachine m = -1 then sender h else client m)"

definition sendToMessageHandler :: "Header \<Rightarrow> Message \<Rightarrow> server \<Rightarrow> fault + server \<times> Mail list" where
  "sendToMessageHandler h m s =
     (let m' = m\<lparr>ID := pkt_to h * 100 + IDer s, clientMachine := pkt_from h, clientMailbox := mail_from h\<rparr> in
      answer (s\<lparr>IDer := IDer s + 1\<rparr>) (send_msg (pkt_to h) MESSAGE_MAILBOX None m'))"

text \<open>
  No such object here: a message that has not been through the message handlers goes to ours, to
  ask the other servers; one that has is answered with an error.
\<close>

definition not_here :: "Header \<Rightarrow> Message \<Rightarrow> server \<Rightarrow> fault + server \<times> Mail list" where
  "not_here h m s =
     (if ID m = -1 then sendToMessageHandler h m s else answer s (sendErrorMessage (client m)))"

section \<open>Locks\<close>

definition Server_AQ :: "Header \<Rightarrow> Message \<Rightarrow> server \<Rightarrow> fault + server \<times> Mail list" where
  "Server_AQ h m s = bindE (get_lock s (index m)) (\<lambda>L.
     if lock_name L = None then not_here h m s
     else if index m \<ge> MAX_SERVERLOCKS \<or> index m < 0 then answer s (sendErrorMessage (sender h))
     else if lock_isDeleted L \<or> lock_isToBeDeleted L then answer s (sendErrorMessage (requester h m))
     else if lock_queue L = [] \<and> lock_owner L = NO_OWNER then
       answer (set_lock (index m) (L\<lparr>lock_owner := requester h m\<rparr>) s) (sendSuccessMessage (requester h m))
     else if lock_owner L = sender h \<or> (lock_owner L = client m \<and> clientMachine m \<noteq> -1) then
       answer s (sendErrorMessage (requester h m))
     else Inr (set_lock (index m) (L\<lparr>lock_queue := q_append (Some (requester h m)) (lock_queue L)\<rparr>) s, []))"

definition may_release :: "Header \<Rightarrow> Message \<Rightarrow> ServerLock \<Rightarrow> bool" where
  "may_release h m L \<longleftrightarrow> lock_owner L = sender h \<or> (lock_owner L = client m \<and> clientMachine m \<noteq> -1) \<or>
     mail_from h = 9 \<or> clientMailbox m = 9"

text \<open>Giving a lock to the thread that has waited longest, with the mail that tells it.\<close>

definition grant_head :: "int \<Rightarrow> ServerLock \<Rightarrow> server \<Rightarrow> fault + server \<times> Mail list" where
  "grant_head l L s = (case q_remove (lock_queue L) of
     (None, _) \<Rightarrow> Inr (s, [])
   | (Some p, q) \<Rightarrow> bindE (derefE p) (\<lambda>t.
       answer (set_lock l (L\<lparr>lock_owner := t, lock_queue := q\<rparr>) s) (sendSuccessMessage t)))"

definition Server_RL :: "Header \<Rightarrow> Message \<Rightarrow> server \<Rightarrow> fault + server \<times> Mail list" where
  "Server_RL h m s = bindE (get_lock s (index m)) (\<lambda>L.
     if lock_name L = None then not_here h m s
     else if index m \<ge> MAX_SERVERLOCKS \<or> index m < 0 then answer s (sendErrorMessage (requester h m))
     else if lock_isDeleted L then answer s (sendErrorMessage (requester h m))
     else if may_release h m L then
       let L1 = L\<lparr>lock_owner := NO_OWNER\<rparr>; s1 = set_lock (index m) L1 s in
       bindE (sendSuccessMessage (requester h m)) (\<lambda>ok.
       if \<not> q_is_empty (lock_queue L1) then
         bindE (grant_head (index m) L1 s1) (\<lambda>(s2, ms). Inr (s2, ok # ms))
       else if lock_isToBeDeleted L1 then Inr (set_lock (index m) (L1\<lparr>lock_isDeleted := True\<rparr>) s1, [ok])
       else Inr (s1, [ok]))
     else answer s (sendErrorMessage (requester h m)))"

definition Server_CL :: "Header \<Rightarrow> Message \<Rightarrow> server \<Rightarrow> fault + server \<times> Mail list" where
  "Server_CL h m s = bindE (findLockByName (name m) (pkt_to h) s) (\<lambda>idx.
     if idx = -1 then
       if ID m = -1 then sendToMessageHandler h m s
       else if numLocks s \<ge> MAX_SERVERLOCKS then answer s (sendErrorMessage (requester h m))
       else bindE (constructServerLock (100 * pkt_to h + numLocks s) (name m) s) (\<lambda>s1.
         answer (s1\<lparr>numLocks := numLocks s + 1\<rparr>)
           (sendMessage (client m) (Some (100 * pkt_to h + numLocks s))))
     else answer s (sendMessage (requester h m) (Some idx)))"

definition Server_DL :: "Header \<Rightarrow> Message \<Rightarrow> server \<Rightarrow> fault + server \<times> Mail list" where
  "Server_DL h m s = bindE (get_lock s (index m)) (\<lambda>L.
     if lock_name L = None then not_here h m s
     else if index m \<ge> MAX_SERVERLOCKS \<or> index m < 0 then answer s (sendErrorMessage (requester h m))
     else
       answer (set_lock (index m)
           (if lock_queue L = [] \<and> lock_owner L = NO_OWNER
            then L\<lparr>lock_isToBeDeleted := True, lock_isDeleted := True\<rparr>
            else L\<lparr>lock_isToBeDeleted := True\<rparr>) s)
         (sendSuccessMessage (requester h m)))"

section \<open>Condition variables\<close>

text \<open>
  The request the server sends to its own message handler to acquire or release a lock that lives
  on another server, with the requesting thread's address.
\<close>

definition remote_lock_msg :: "string \<Rightarrow> string \<Rightarrow> int \<Rightarrow> Header \<Rightarrow> server \<Rightarrow> ThreadID \<Rightarrow> Message" where
  "remote_lock_msg rq n l h s t = \<lparr>name = n, name2 = ''Lock'', request = rq, index = l, index2 = -1,
     index3 = -1, ID = pkt_to h * 100 + IDer s, clientMachine = machineID t, clientMailbox = threadID t\<rparr>"

definition send_remote :: "Header \<Rightarrow> int \<Rightarrow> Message \<Rightarrow> fault + Mail" where
  "send_remote h from m = bindE (msgPrepare m) (\<lambda>d. Post_Send (pkt_to h) 1 (Some from) MaxMailSize d)"

text \<open>
  With the lock on this server, \<open>Wait\<close> parks the owner of the lock, whoever asks.  With the lock
  elsewhere it sends a release from mailbox 9 and blocks for the answer, \<open>rcv\<close>.
\<close>

definition WT_local :: "Message \<Rightarrow> ServerCondition \<Rightarrow> ServerLock \<Rightarrow> server \<Rightarrow> fault + server \<times> Mail list" where
  "WT_local m C L s =
     (let t = lock_owner L;
          s1 = set_cond (index m) (C\<lparr>cond_queue := q_append (Some t) (cond_queue C)\<rparr>)
                 (set_lock (index2 m) (L\<lparr>lock_owner := NO_OWNER\<rparr>) s) in
      if \<not> q_is_empty (lock_queue L) then grant_head (index2 m) (L\<lparr>lock_owner := NO_OWNER\<rparr>) s1
      else Inr (s1, []))"

definition Server_WT :: "Header \<Rightarrow> Message \<Rightarrow> Message \<Rightarrow> server \<Rightarrow> fault + server \<times> Mail list" where
  "Server_WT h m rcv s = bindE (get_cond s (index m)) (\<lambda>C.
     if cond_name C = None then not_here h m s
     else if index m \<ge> MAX_SERVERCONDITIONS \<or> index m < 0 then answer s (sendErrorMessage (requester h m))
     else if index2 m \<ge> MAX_SERVERLOCKS \<or> index2 m < 0 then answer s (sendErrorMessage (requester h m))
     else if cond_isDeleted C \<or> cond_isToBeDeleted C then answer s (sendErrorMessage (requester h m))
     else bindE (get_lock s (index2 m)) (\<lambda>L.
       if lock_name L = None then
         bindE (send_remote h 9
             (remote_lock_msg ''RL'' ''Release'' (index2 m) h s (setIDs (pkt_to h) 9))) (\<lambda>rl.
         let s1 = s\<lparr>IDer := IDer s + 1\<rparr> in
         if index rcv \<noteq> -1 then
           Inr (set_cond (index m) (C\<lparr>cond_queue := q_append (Some (requester h m)) (cond_queue C)\<rparr>) s1, [rl])
         else bindE (sendErrorMessage (requester h m)) (\<lambda>e. Inr (s1, [rl, e])))
       else WT_local m C L s))"

definition Server_SG :: "Header \<Rightarrow> Message \<Rightarrow> server \<Rightarrow> fault + server \<times> Mail list" where
  "Server_SG h m s = bindE (get_cond s (index m)) (\<lambda>C.
     if cond_name C = None then not_here h m s
     else if index m \<ge> MAX_SERVERCONDITIONS \<or> index m < 0 then answer s (sendErrorMessage (requester h m))
     else if index2 m \<ge> MAX_SERVERLOCKS \<or> index2 m < 0 then answer s (sendErrorMessage (requester h m))
     else if cond_isDeleted C \<or> cond_isToBeDeleted C then answer s (sendErrorMessage (requester h m))
     else bindE (get_lock s (index2 m)) (\<lambda>L.
       if lock_name L = None then
         (case q_remove (cond_queue C) of
            (None, _) \<Rightarrow> Inl NullPointer
          | (Some p, q) \<Rightarrow> bindE (derefE p) (\<lambda>t.
              bindE (send_remote h 0 (remote_lock_msg ''AQ'' ''Acquire'' (index2 m) h s t)) (\<lambda>aq.
              bindE (sendSuccessMessage (requester h m)) (\<lambda>ok.
              Inr (set_cond (index m) (C\<lparr>cond_queue := q\<rparr>) (s\<lparr>IDer := IDer s + 1\<rparr>), [aq, ok])))))
       else
         let (r, q) = q_remove (cond_queue C);
             p = (case r of None \<Rightarrow> None | Some p \<Rightarrow> p) in
         answer (set_lock (index2 m) (L\<lparr>lock_queue := q_append p (lock_queue L)\<rparr>)
                  (set_cond (index m) (C\<lparr>cond_queue := q\<rparr>) s))
           (sendSuccessMessage (requester h m))))"

fun broadcast_remote ::
  "Header \<Rightarrow> int \<Rightarrow> ThreadID option list \<Rightarrow> server \<Rightarrow> fault + server \<times> Mail list" where
  "broadcast_remote h l [] s = Inr (s, [])"
| "broadcast_remote h l (p # q) s = bindE (derefE p) (\<lambda>t.
     bindE (send_remote h 0 (remote_lock_msg ''AQ'' ''Acquire'' l h s t)) (\<lambda>aq.
     bindE (broadcast_remote h l q (s\<lparr>IDer := IDer s + 1\<rparr>)) (\<lambda>(s1, ms). Inr (s1, aq # ms))))"

definition Server_BC :: "Header \<Rightarrow> Message \<Rightarrow> server \<Rightarrow> fault + server \<times> Mail list" where
  "Server_BC h m s = bindE (get_cond s (index m)) (\<lambda>C.
     if cond_name C = None then not_here h m s
     else if index m \<ge> MAX_SERVERCONDITIONS \<or> index m < 0 then answer s (sendErrorMessage (requester h m))
     else if index2 m \<ge> MAX_SERVERLOCKS \<or> index2 m < 0 then answer s (sendErrorMessage (requester h m))
     else if cond_isDeleted C \<or> cond_isToBeDeleted C then answer s (sendErrorMessage (requester h m))
     else bindE (get_lock s (index2 m)) (\<lambda>L.
       if lock_name L = None then
         bindE (broadcast_remote h (index2 m) (cond_queue C) s) (\<lambda>(s1, ms).
         bindE (sendSuccessMessage (requester h m)) (\<lambda>ok.
         Inr (set_cond (index m) (C\<lparr>cond_queue := []\<rparr>) s1, ms @ [ok])))
       else
         answer (set_lock (index2 m) (L\<lparr>lock_queue := lock_queue L @ cond_queue C\<rparr>)
                  (set_cond (index m) (C\<lparr>cond_queue := []\<rparr>) s))
           (sendSuccessMessage (requester h m))))"

definition Server_CC :: "Header \<Rightarrow> Message \<Rightarrow> server \<Rightarrow> fault + server \<times> Mail list" where
  "Server_CC h m s =
     (if numConditions s \<ge> MAX_SERVERCONDITIONS then answer s (sendErrorMessage (requester h m))
      else bindE (findConditionByName (name m) (pkt_to h) s) (\<lambda>idx.
        if idx = -1 then
          if ID m = -1 then sendToMessageHandler h m s
          else bindE (constructServerCondition (100 * pkt_to h + numConditions s) (name m) s) (\<lambda>s1.
            answer (s1\<lparr>numConditions := numConditions s + 1\<rparr>)
              (sendMessage (client m) (Some (100 * pkt_to h + numConditions s))))
        else answer s (sendMessage (requester h m) (Some idx))))"

definition Server_DC :: "Header \<Rightarrow> Message \<Rightarrow> server \<Rightarrow> fault + server \<times> Mail list" where
  "Server_DC h m s = bindE (get_cond s (index m)) (\<lambda>C.
     if cond_name C = None then not_here h m s
     else if index m \<ge> MAX_SERVERCONDITIONS \<or> index m < 0 then answer s (sendErrorMessage (requester h m))
     else
       answer (set_cond (index m)
           (if cond_queue C = [] then C\<lparr>cond_isToBeDeleted := True, cond_isDeleted := True\<rparr>
            else C\<lparr>cond_isToBeDeleted := True\<rparr>) s)
         (sendSuccessMessage (requester h m)))"

section \<open>Monitor variables\<close>

text \<open>With the table full, the reply is sent from a message whose index was never set.\<close>

definition Server_CM :: "Header \<Rightarrow> Message \<Rightarrow> server \<Rightarrow> fault + server \<times> Mail list" where
  "Server_CM h m s =
     (if numMonitorVariables s \<ge> MAX_MONITORVARIABLES then answer s (sendMessage (requester h m) None)
      else if index2 m < 1 then answer s (sendErrorMessage (requester h m))
      else bindE (findMonitorVariableByName (name m) (pkt_to h) s) (\<lambda>idx.
        if idx = -1 then
          if ID m = -1 then sendToMessageHandler h m s
          else bindE (constructMonitorVariable (100 * pkt_to h + numMonitorVariables s) (index2 m) (name m) s) (\<lambda>s1.
            answer (s1\<lparr>numMonitorVariables := numMonitorVariables s + 1\<rparr>)
              (sendMessage (client m) (Some (100 * pkt_to h + numMonitorVariables s))))
        else answer s (sendMessage (requester h m) (Some idx))))"

definition Server_DM :: "Header \<Rightarrow> Message \<Rightarrow> server \<Rightarrow> fault + server \<times> Mail list" where
  "Server_DM h m s = bindE (get_mv s (index m)) (\<lambda>V.
     if mv_name V = None then not_here h m s
     else if index m \<ge> MAX_MONITORVARIABLES \<or> index m < 0 then answer s (sendErrorMessage (requester h m))
     else answer (set_mv (index m) (V\<lparr>mv_isToBeDeleted := True, mv_isDeleted := True\<rparr>) s)
       (sendSuccessMessage (requester h m)))"

definition Server_GM :: "Header \<Rightarrow> Message \<Rightarrow> server \<Rightarrow> fault + server \<times> Mail list" where
  "Server_GM h m s = bindE (get_mv s (index m)) (\<lambda>V.
     if mv_name V = None then not_here h m s
     else if index m \<ge> MAX_MONITORVARIABLES \<or> index m < 0 then answer s (sendErrorMessage (requester h m))
     else if index2 m < 0 \<or> index2 m \<ge> mv_arraySize V then answer s (sendErrorMessage (requester h m))
     else bindE (arr_get (mv_array V) (index2 m)) (\<lambda>x. answer s (sendMessage (requester h m) x)))"

definition Server_SM :: "Header \<Rightarrow> Message \<Rightarrow> server \<Rightarrow> fault + server \<times> Mail list" where
  "Server_SM h m s = bindE (get_mv s (index m)) (\<lambda>V.
     if mv_name V = None then not_here h m s
     else if index m \<ge> MAX_MONITORVARIABLES \<or> index m < 0 then answer s (sendErrorMessage (requester h m))
     else if index2 m < 0 \<or> index2 m \<ge> mv_arraySize V then answer s (sendErrorMessage (requester h m))
     else bindE (arr_set (mv_array V) (index2 m) (Some (index3 m))) (\<lambda>a.
       answer (set_mv (index m) (V\<lparr>mv_array := a\<rparr>) s) (sendSuccessMessage (requester h m))))"

section \<open>The server loop\<close>

fun strstr :: "string \<Rightarrow> string \<Rightarrow> bool" where
  "strstr [] n \<longleftrightarrow> n = []"
| "strstr (c # cs) n \<longleftrightarrow> take (length n) (c # cs) = n \<or> strstr cs n"

definition Server_dispatch ::
  "Header \<Rightarrow> Message \<Rightarrow> Message \<Rightarrow> server \<Rightarrow> fault + server \<times> Mail list" where
  "Server_dispatch h m rcv s =
     (if strstr (request m) ''AQ'' then Server_AQ h m s
      else if strstr (request m) ''RL'' then Server_RL h m s
      else if strstr (request m) ''WT'' then Server_WT h m rcv s
      else if strstr (request m) ''SG'' then Server_SG h m s
      else if strstr (request m) ''BC'' then Server_BC h m s
      else if strstr (request m) ''CL'' then Server_CL h m s
      else if strstr (request m) ''DL'' then Server_DL h m s
      else if strstr (request m) ''CC'' then Server_CC h m s
      else if strstr (request m) ''DC'' then Server_DC h m s
      else if strstr (request m) ''CM'' then Server_CM h m s
      else if strstr (request m) ''DM'' then Server_DM h m s
      else if strstr (request m) ''GM'' then Server_GM h m s
      else if strstr (request m) ''SM'' then Server_SM h m s
      else answer s (sendErrorMessage (sender h)))"

text \<open>
  One round: a mail with headers \<open>h\<close> and text \<open>buf\<close> arrives in mailbox 0.  A message taken from
  \<open>messageQueue\<close> instead would be handled with headers that were never filled in; nothing in the
  source appends to that queue.
\<close>

definition Server_round :: "Header \<Rightarrow> string \<Rightarrow> Message \<Rightarrow> server \<Rightarrow> fault + server \<times> Mail list" where
  "Server_round h buf rcv s =
     (if messageQueue s \<noteq> [] then Inl Uninitialised
      else bindE (decodeMessage buf) (\<lambda>m. Server_dispatch h m rcv s))"

section \<open>Replies fit the mail buffer\<close>

definition box_ok :: "ThreadID \<Rightarrow> bool" where
  "box_ok a \<longleftrightarrow> 0 \<le> threadID a \<and> threadID a < numBoxes"

definition reply_mail :: "ThreadID \<Rightarrow> string \<Rightarrow> Mail" where
  "reply_mail a d = \<lparr>to_machine = machineID a, to_box = threadID a, from_box = None, payload = d\<rparr>"

definition success_text :: string where
  "success_text = ''HI success reply 0 0 0 -1 -1 -1''"

definition error_text :: string where
  "error_text = ''HI error reply -1 -1 -1 -1 -1 -1''"

definition index_text :: "int \<Rightarrow> string" where
  "index_text i = ''HI index reply '' @ show_int i @ '' 0 0 -1 -1 -1''"

lemma show_small_ints: "show_int 0 = ''0''" "show_int (-1) = ''-1''"
  by (simp_all add: show_int_def show_small)

lemma reply_texts:
  "msg_text (reply ''success'' 0 0 0) = success_text"
  "msg_text (reply ''error'' (-1) (-1) (-1)) = error_text"
  "msg_text (reply ''index'' i 0 0) = index_text i"
  by (simp_all add: msg_text_def reply_def space_def show_small_ints success_text_def error_text_def
      index_text_def)

lemma sendSuccess_eq:
  "sendSuccessMessage a = (if box_ok a then Inr (reply_mail a success_text) else Inl AssertFailed)"
  by (simp add: sendSuccessMessage_def send_msg_def msgPrepare_def reply_texts Post_Send_def
      MaxMailSize_def success_text_def box_ok_def reply_mail_def assertE_def)

lemma sendError_eq:
  "sendErrorMessage a = (if box_ok a then Inr (reply_mail a error_text) else Inl AssertFailed)"
  by (simp add: sendErrorMessage_def send_msg_def msgPrepare_def reply_texts Post_Send_def
      MaxMailSize_def error_text_def box_ok_def reply_mail_def assertE_def)

lemma sendMessage_eq:
  assumes "int_ok i"
  shows "sendMessage a (Some i) =
    (if box_ok a then Inr (reply_mail a (index_text i)) else Inl AssertFailed)"
  using length_show_int [OF assms]
  by (simp add: sendMessage_def send_msg_def msgPrepare_def reply_texts Post_Send_def
      MaxMailSize_def index_text_def box_ok_def reply_mail_def assertE_def)

lemma answer_Inr: "answer s r = Inr (s', ms) \<longleftrightarrow> s' = s \<and> (\<exists>x. r = Inr x \<and> ms = [x])"
  by (auto simp: answer_def bindE_eq_Inr)

lemma slot_get_Inr: "slot_get n tab i = Inr v \<longleftrightarrow> 0 \<le> i \<and> i < n \<and> v = tab i"
  by (auto simp: slot_get_def)

section \<open>Invariant of the tables\<close>

definition same_objects :: "server \<Rightarrow> server \<Rightarrow> bool" where
  "same_objects s s' \<longleftrightarrow>
     (\<forall>i. lock_name (serverLockTable s' i) = lock_name (serverLockTable s i)) \<and>
     (\<forall>i. cond_name (serverConditionTable s' i) = cond_name (serverConditionTable s i)) \<and>
     (\<forall>i. mv_name (monitorVariableTable s' i) = mv_name (monitorVariableTable s i)) \<and>
     (\<forall>i. mv_arraySize (monitorVariableTable s' i) = mv_arraySize (monitorVariableTable s i)) \<and>
     (\<forall>i. length (mv_array (monitorVariableTable s' i)) = length (mv_array (monitorVariableTable s i))) \<and>
     numLocks s' = numLocks s \<and> numConditions s' = numConditions s \<and>
     numMonitorVariables s' = numMonitorVariables s \<and> messageQueue s' = messageQueue s"

lemma same_objects_refl [simp]: "same_objects s s"
  by (simp add: same_objects_def)

lemma same_objects_trans: "same_objects s t \<Longrightarrow> same_objects t u \<Longrightarrow> same_objects s u"
  by (simp add: same_objects_def)

lemma same_objects_updates:
  "lock_name L = lock_name (serverLockTable s i) \<Longrightarrow> same_objects s (set_lock i L s)"
  "cond_name C = cond_name (serverConditionTable s j) \<Longrightarrow> same_objects s (set_cond j C s)"
  "mv_name V = mv_name (monitorVariableTable s k) \<Longrightarrow>
   mv_arraySize V = mv_arraySize (monitorVariableTable s k) \<Longrightarrow>
   length (mv_array V) = length (mv_array (monitorVariableTable s k)) \<Longrightarrow> same_objects s (set_mv k V s)"
  "same_objects s (s\<lparr>IDer := n\<rparr>)"
  by (simp_all add: same_objects_def set_lock_def set_cond_def set_mv_def)

text \<open>The names in use are those of one contiguous block of slots, and no two slots share a name.\<close>

definition names_ok :: "int \<Rightarrow> int \<Rightarrow> (int \<Rightarrow> string option) \<Rightarrow> bool" where
  "names_ok me n nm \<longleftrightarrow> 0 \<le> n \<and> (\<forall>i. nm i \<noteq> None \<longleftrightarrow> 100 * me \<le> i \<and> i < 100 * me + n) \<and>
     (\<forall>i. nm i \<noteq> None \<longrightarrow> 0 \<le> i \<and> i < 5000) \<and>
     (\<forall>i j. nm i \<noteq> None \<longrightarrow> nm i = nm j \<longrightarrow> i = j)"

definition server_inv :: "int \<Rightarrow> server \<Rightarrow> bool" where
  "server_inv me s \<longleftrightarrow> 0 \<le> me \<and>
     names_ok me (numLocks s) (\<lambda>i. lock_name (serverLockTable s i)) \<and>
     names_ok me (numConditions s) (\<lambda>i. cond_name (serverConditionTable s i)) \<and>
     names_ok me (numMonitorVariables s) (\<lambda>i. mv_name (monitorVariableTable s i)) \<and>
     (\<forall>i. mv_name (monitorVariableTable s i) \<noteq> None \<longrightarrow>
        int (length (mv_array (monitorVariableTable s i))) = mv_arraySize (monitorVariableTable s i)) \<and>
     messageQueue s = []"

lemma same_objects_inv: "same_objects s s' \<Longrightarrow> server_inv me s \<Longrightarrow> server_inv me s'"
  by (simp add: same_objects_def server_inv_def)

lemma find_by_name_spec:
  assumes "\<And>j. i \<le> j \<Longrightarrow> j < i + n \<Longrightarrow> \<exists>x. nm (base + int j) = Inr (Some x)"
  shows "find_by_name nm key base i n =
    (case first_from (\<lambda>j. nm (base + int j) = Inr (Some key)) i n of
       None \<Rightarrow> Inr (-1) | Some j \<Rightarrow> Inr (base + int j))"
  using assms
proof (induction n arbitrary: i)
  case 0
  then show ?case by simp
next
  case (Suc n)
  from Suc.prems [of i] obtain x where x: "nm (base + int i) = Inr (Some x)" by auto
  have "find_by_name nm key base (Suc i) n =
    (case first_from (\<lambda>j. nm (base + int j) = Inr (Some key)) (Suc i) n of
       None \<Rightarrow> Inr (-1) | Some j \<Rightarrow> Inr (base + int j))"
    by (rule Suc.IH) (use Suc.prems in auto)
  with x show ?case by simp
qed

lemma find_names:
  assumes N: "names_ok me n nm" and me: "0 \<le> me"
    and f: "\<And>i. 0 \<le> i \<Longrightarrow> i < 5000 \<Longrightarrow> get i = Inr (nm i)"
  shows "(\<exists>l. nm l = Some key \<and> find_by_name get key (me * 100) 0 (nat n) = Inr l) \<or>
         ((\<forall>l. nm l \<noteq> Some key) \<and> find_by_name get key (me * 100) 0 (nat n) = Inr (-1))"
proof -
  have r: "nm i \<noteq> None \<longleftrightarrow> 100 * me \<le> i \<and> i < 100 * me + n" for i using N by (simp add: names_ok_def)
  have b: "nm i \<noteq> None \<Longrightarrow> 0 \<le> i \<and> i < 5000" for i using N by (simp add: names_ok_def)
  have nz: "nm (me * 100 + int j) \<noteq> None" if "j < nat n" for j
    using r [of "me * 100 + int j"] that by (simp add: mult.commute)
  have g: "get (me * 100 + int j) = Inr (nm (me * 100 + int j))" if "j < nat n" for j
    using f b [OF nz [OF that]] by simp
  have eq: "find_by_name get key (me * 100) 0 (nat n) =
    (case first_from (\<lambda>j. get (me * 100 + int j) = Inr (Some key)) 0 (nat n) of
       None \<Rightarrow> Inr (-1) | Some j \<Rightarrow> Inr (me * 100 + int j))"
    by (rule find_by_name_spec) (use g nz in auto)
  show ?thesis
  proof (cases "first_from (\<lambda>j. get (me * 100 + int j) = Inr (Some key)) 0 (nat n)")
    case None
    have "nm l \<noteq> Some key" for l
    proof
      assume l: "nm l = Some key"
      with r [of l] have "100 * me \<le> l" "l < 100 * me + n" by auto
      then have j: "l = me * 100 + int (nat (l - 100 * me))" "nat (l - 100 * me) < nat n" by auto
      have "get (me * 100 + int (nat (l - 100 * me))) = Inr (Some key)" using g [OF j(2)] l j(1) by simp
      moreover have "\<forall>k < nat n. get (me * 100 + int k) \<noteq> Inr (Some key)"
        using None by (simp add: first_from_None)
      ultimately show False using j(2) by blast
    qed
    with eq None show ?thesis by simp
  next
    case (Some j)
    from first_from_Some [OF Some] have j: "j < nat n" "get (me * 100 + int j) = Inr (Some key)" by auto
    with g [OF j(1)] eq Some show ?thesis by auto
  qed
qed

lemma names_ok_new:
  assumes N: "names_ok me n nm" and "0 \<le> me" "100 * me + n < 5000" and fresh: "\<forall>l. nm l \<noteq> Some key"
  shows "names_ok me (n + 1) (nm(100 * me + n := Some key))" (is "names_ok me _ ?nm")
proof -
  have r: "nm i \<noteq> None \<longleftrightarrow> 100 * me \<le> i \<and> i < 100 * me + n" for i using N by (simp add: names_ok_def)
  have "0 \<le> n" using N by (simp add: names_ok_def)
  have a: "?nm i \<noteq> None \<longleftrightarrow> 100 * me \<le> i \<and> i < 100 * me + (n + 1)" for i
  proof (cases "i = 100 * me + n")
    case True
    then show ?thesis using \<open>0 \<le> n\<close> by simp
  next
    case False
    then have "(100 * me \<le> i \<and> i < 100 * me + (n + 1)) = (100 * me \<le> i \<and> i < 100 * me + n)" by auto
    with False r [of i] show ?thesis by simp
  qed
  have b: "0 \<le> i \<and> i < 5000" if "?nm i \<noteq> None" for i
  proof -
    from that have "100 * me \<le> i \<and> i < 100 * me + (n + 1)" using a by blast
    with assms(2,3) show ?thesis by simp
  qed
  have c: "i = j" if "?nm i \<noteq> None" "?nm i = ?nm j" for i j
  proof (cases "i = 100 * me + n \<or> j = 100 * me + n")
    case True
    with that(2) fresh show ?thesis by (auto split: if_splits)
  next
    case False
    then have "nm i \<noteq> None" "nm i = nm j" using that by auto
    with N show ?thesis unfolding names_ok_def by blast
  qed
  have "0 \<le> n + 1" using \<open>0 \<le> n\<close> by simp
  with a b c show ?thesis unfolding names_ok_def by blast
qed

section \<open>What each request does to the tables\<close>

lemma not_here_same: "not_here h m s = Inr (s', ms) \<Longrightarrow> \<exists>k. s' = s\<lparr>IDer := k\<rparr>"
  by (cases s) (auto simp: not_here_def sendToMessageHandler_def Let_def answer_Inr split: if_splits)

lemma same_objects_IDer: "same_objects s s' \<Longrightarrow> same_objects s (s'\<lparr>IDer := k\<rparr>)"
  by (simp add: same_objects_def)

lemma not_here_objects: "not_here h m s = Inr (s', ms) \<Longrightarrow> same_objects s s'"
  by (drule not_here_same) (auto intro: same_objects_updates)

lemma grant_head_cases:
  assumes "grant_head l L s = Inr (s', ms)"
  shows "(lock_queue L = [] \<and> s' = s \<and> ms = []) \<or>
    (\<exists>t q. lock_queue L = Some t # q \<and> s' = set_lock l (L\<lparr>lock_owner := t, lock_queue := q\<rparr>) s \<and>
       sendSuccessMessage t = Inr (reply_mail t success_text) \<and> ms = [reply_mail t success_text])"
  using assms by (cases "lock_queue L")
    (auto simp: grant_head_def bindE_eq_Inr answer_Inr sendSuccess_eq split: if_splits)

lemma broadcast_remote_same: "broadcast_remote h l q s = Inr (s', ms) \<Longrightarrow> \<exists>k. s' = s\<lparr>IDer := k\<rparr>"
proof (induction q arbitrary: s s' ms)
  case Nil
  then show ?case by (cases s) auto
next
  case (Cons p q)
  then obtain s1 ms1 where "broadcast_remote h l q (s\<lparr>IDer := IDer s + 1\<rparr>) = Inr (s1, ms1)" "s' = s1"
    by (auto simp: bindE_eq_Inr)
  with Cons.IH show ?case by fastforce
qed

lemma AQ_objects: "Server_AQ h m s = Inr (s', ms) \<Longrightarrow> same_objects s s'"
  by (auto simp: Server_AQ_def bindE_eq_Inr slot_get_Inr answer_Inr not_here_objects
      intro!: same_objects_updates split: if_splits)

lemma set_lock_again [simp]: "set_lock i L (set_lock i L' s) = set_lock i L s"
  by (simp add: set_lock_def)

lemma RL_cases:
  assumes "Server_RL h m s = Inr (s', ms)"
  defines "L \<equiv> serverLockTable s (index m)"
  shows "(\<exists>k. s' = s\<lparr>IDer := k\<rparr>) \<or>
    (lock_name L \<noteq> None \<and> may_release h m L \<and>
      ((\<exists>t q. lock_queue L = Some t # q \<and>
         s' = set_lock (index m) (L\<lparr>lock_owner := t, lock_queue := q\<rparr>) s \<and>
         reply_mail t success_text \<in> set ms) \<or>
       (\<exists>d. lock_queue L = [] \<and>
         s' = set_lock (index m) (L\<lparr>lock_owner := NO_OWNER, lock_isDeleted := d\<rparr>) s)))"
proof -
  let ?L1 = "L\<lparr>lock_owner := NO_OWNER\<rparr>"
  have id: "\<exists>k. s = s\<lparr>IDer := k\<rparr>" by (rule exI [of _ "IDer s"]) simp
  have g: "\<exists>t q. lock_queue L = Some t # q \<and>
         s2 = set_lock (index m) (L\<lparr>lock_owner := t, lock_queue := q\<rparr>) s \<and>
         ms2 = [reply_mail t success_text]"
    if "grant_head (index m) ?L1 (set_lock (index m) ?L1 s) = Inr (s2, ms2)" "lock_queue L \<noteq> []" for s2 ms2
    using grant_head_cases [OF that(1)] that(2) by auto
  consider "not_here h m s = Inr (s', ms)" | "s' = s"
    | "lock_name L \<noteq> None" "may_release h m L" "lock_queue L \<noteq> []"
      "\<exists>ok ms2. grant_head (index m) ?L1 (set_lock (index m) ?L1 s) = Inr (s', ms2) \<and> ms = ok # ms2"
    | "lock_name L \<noteq> None" "may_release h m L" "lock_queue L = []"
      "s' = set_lock (index m) ?L1 s \<or> s' = set_lock (index m) (?L1\<lparr>lock_isDeleted := True\<rparr>) s"
    using assms by (auto simp: Server_RL_def bindE_eq_Inr slot_get_Inr answer_Inr Let_def split: if_splits)
  then show ?thesis
  proof cases
    case 1
    then show ?thesis using not_here_same by blast
  next
    case 2
    then show ?thesis using id by blast
  next
    case 3
    then show ?thesis using g by fastforce
  next
    case 4
    have "?L1 = L\<lparr>lock_owner := NO_OWNER, lock_isDeleted := lock_isDeleted L\<rparr>" by simp
    with 4 show ?thesis by metis
  qed
qed

lemma RL_objects: "Server_RL h m s = Inr (s', ms) \<Longrightarrow> same_objects s s'"
  by (drule RL_cases) (auto intro!: same_objects_updates)

lemma DL_objects: "Server_DL h m s = Inr (s', ms) \<Longrightarrow> same_objects s s'"
  by (auto simp: Server_DL_def bindE_eq_Inr slot_get_Inr answer_Inr not_here_objects
      intro!: same_objects_updates split: if_splits)

lemma DC_objects: "Server_DC h m s = Inr (s', ms) \<Longrightarrow> same_objects s s'"
  by (auto simp: Server_DC_def bindE_eq_Inr slot_get_Inr answer_Inr not_here_objects
      intro!: same_objects_updates split: if_splits)

lemma DM_objects: "Server_DM h m s = Inr (s', ms) \<Longrightarrow> same_objects s s'"
  by (auto simp: Server_DM_def bindE_eq_Inr slot_get_Inr answer_Inr not_here_objects
      intro!: same_objects_updates split: if_splits)

lemma GM_objects: "Server_GM h m s = Inr (s', ms) \<Longrightarrow> same_objects s s'"
  by (auto simp: Server_GM_def bindE_eq_Inr slot_get_Inr answer_Inr not_here_objects split: if_splits)

lemma SM_objects: "Server_SM h m s = Inr (s', ms) \<Longrightarrow> same_objects s s'"
  by (auto simp: Server_SM_def bindE_eq_Inr slot_get_Inr answer_Inr not_here_objects arr_set_Inr
      intro!: same_objects_updates split: if_splits)

lemma set_lock_cond: "set_lock i L (set_cond j C s) = set_cond j C (set_lock i L s)"
  by (simp add: set_lock_def set_cond_def)

lemma WT_cases:
  assumes "Server_WT h m rcv s = Inr (s', ms)"
  defines "L \<equiv> serverLockTable s (index2 m)" and "C \<equiv> serverConditionTable s (index m)"
  shows "(\<exists>k. s' = s\<lparr>IDer := k\<rparr>) \<or>
    (\<exists>k. lock_name L = None \<and>
       s' = set_cond (index m) (C\<lparr>cond_queue := cond_queue C @ [Some (requester h m)]\<rparr>) (s\<lparr>IDer := k\<rparr>)) \<or>
    (lock_name L \<noteq> None \<and> (let s1 = set_cond (index m) (C\<lparr>cond_queue := cond_queue C @ [Some (lock_owner L)]\<rparr>) s in
      (\<exists>t q. lock_queue L = Some t # q \<and>
         s' = set_lock (index2 m) (L\<lparr>lock_owner := t, lock_queue := q\<rparr>) s1 \<and>
         reply_mail t success_text \<in> set ms) \<or>
      (lock_queue L = [] \<and> s' = set_lock (index2 m) (L\<lparr>lock_owner := NO_OWNER\<rparr>) s1)))"
proof -
  let ?L1 = "L\<lparr>lock_owner := NO_OWNER\<rparr>"
  let ?s1 = "set_cond (index m) (C\<lparr>cond_queue := cond_queue C @ [Some (lock_owner L)]\<rparr>) s"
  have id: "\<exists>k. s = s\<lparr>IDer := k\<rparr>" by (rule exI [of _ "IDer s"]) simp
  have g: "\<exists>t q. lock_queue L = Some t # q \<and>
         s2 = set_lock (index2 m) (L\<lparr>lock_owner := t, lock_queue := q\<rparr>) ?s1 \<and>
         ms2 = [reply_mail t success_text]"
    if "grant_head (index2 m) ?L1 (set_lock (index2 m) ?L1 ?s1) = Inr (s2, ms2)" "lock_queue L \<noteq> []" for s2 ms2
    using grant_head_cases [OF that(1)] that(2) by auto
  have in1: "0 \<le> index m \<and> index m < MAX_SERVERCONDITIONS"
    using assms(1) by (auto simp: Server_WT_def bindE_eq_Inr slot_get_Inr)
  then have gc: "get_cond s (index m) = Inr C" by (simp add: slot_get_def C_def)
  show ?thesis
  proof (cases "cond_name C = None")
    case True
    then have "not_here h m s = Inr (s', ms)" using assms(1) by (simp add: Server_WT_def gc)
    then show ?thesis using not_here_same by blast
  next
    case False
    then obtain cn where named: "cond_name C = Some cn" by auto
    show ?thesis
    proof (cases "index2 m \<ge> MAX_SERVERLOCKS \<or> index2 m < 0 \<or> cond_isDeleted C \<or> cond_isToBeDeleted C")
      case True
      then have "s' = s" using assms(1) named in1
        by (auto simp: Server_WT_def gc answer_Inr split: if_splits)
      then show ?thesis using id by blast
    next
      case False
      then have gl: "get_lock s (index2 m) = Inr L" by (simp add: slot_get_def L_def)
      show ?thesis
      proof (cases "lock_name L")
        case None
        then have "s' = s\<lparr>IDer := IDer s + 1\<rparr> \<or>
          s' = set_cond (index m) (C\<lparr>cond_queue := q_append (Some (requester h m)) (cond_queue C)\<rparr>)
            (s\<lparr>IDer := IDer s + 1\<rparr>)"
          using assms(1) named in1 False
          by (auto simp: Server_WT_def gc gl bindE_eq_Inr Let_def split: if_splits)
        with None show ?thesis by (auto simp: q_append_def)
      next
        case (Some n)
        have e: "Server_WT h m rcv s =
            (if lock_queue L = [] then Inr (set_lock (index2 m) ?L1 ?s1, [])
             else grant_head (index2 m) ?L1 (set_lock (index2 m) ?L1 ?s1))"
          using named in1 False Some
          by (simp add: Server_WT_def WT_local_def gc gl Let_def q_append_def set_lock_cond)
        show ?thesis
        proof (cases "lock_queue L = []")
          case True
          with e assms(1) Some show ?thesis by (simp add: Let_def)
        next
          case False
          with e assms(1) have "grant_head (index2 m) ?L1 (set_lock (index2 m) ?L1 ?s1) = Inr (s', ms)" by simp
          from g [OF this False] Some show ?thesis by (auto simp: Let_def)
        qed
      qed
    qed
  qed
qed

lemma WT_objects: "Server_WT h m rcv s = Inr (s', ms) \<Longrightarrow> same_objects s s'"
  by (drule WT_cases) (auto simp: same_objects_def set_cond_def set_lock_def Let_def)

lemma SG_objects: "Server_SG h m s = Inr (s', ms) \<Longrightarrow> same_objects s s'"
  by (auto simp: Server_SG_def bindE_eq_Inr slot_get_Inr answer_Inr not_here_objects Let_def
      split: if_splits prod.splits option.splits)
    (auto simp: same_objects_def set_cond_def set_lock_def)

lemma BC_objects: "Server_BC h m s = Inr (s', ms) \<Longrightarrow> same_objects s s'"
  by (auto simp: Server_BC_def bindE_eq_Inr slot_get_Inr answer_Inr not_here_objects Let_def
      split: if_splits dest!: broadcast_remote_same)
    (auto simp: same_objects_def set_cond_def set_lock_def)

section \<open>Creation\<close>

lemma findLock_spec:
  assumes "server_inv me s"
  shows "(\<exists>l. lock_name (serverLockTable s l) = Some key \<and> l \<noteq> -1 \<and> findLockByName key me s = Inr l) \<or>
         ((\<forall>l. lock_name (serverLockTable s l) \<noteq> Some key) \<and> findLockByName key me s = Inr (-1))"
proof -
  let ?nm = "\<lambda>i. lock_name (serverLockTable s i)"
  from assms have N: "names_ok me (numLocks s) ?nm" and me: "0 \<le> me" by (simp_all add: server_inv_def)
  have "?nm l = Some key \<Longrightarrow> l \<noteq> -1" for l using N by (auto simp: names_ok_def)
  moreover have "(\<exists>l. ?nm l = Some key \<and> findLockByName key me s = Inr l) \<or>
         ((\<forall>l. ?nm l \<noteq> Some key) \<and> findLockByName key me s = Inr (-1))"
    unfolding findLockByName_def
    by (rule find_names [OF N me]) (simp add: slot_get_def MAX_SERVERLOCKS_def)
  ultimately show ?thesis by blast
qed

lemma findCondition_spec:
  assumes "server_inv me s"
  shows "(\<exists>l. cond_name (serverConditionTable s l) = Some key \<and> l \<noteq> -1 \<and> findConditionByName key me s = Inr l) \<or>
         ((\<forall>l. cond_name (serverConditionTable s l) \<noteq> Some key) \<and> findConditionByName key me s = Inr (-1))"
proof -
  let ?nm = "\<lambda>i. cond_name (serverConditionTable s i)"
  from assms have N: "names_ok me (numConditions s) ?nm" and me: "0 \<le> me" by (simp_all add: server_inv_def)
  have "?nm l = Some key \<Longrightarrow> l \<noteq> -1" for l using N by (auto simp: names_ok_def)
  moreover have "(\<exists>l. ?nm l = Some key \<and> findConditionByName key me s = Inr l) \<or>
         ((\<forall>l. ?nm l \<noteq> Some key) \<and> findConditionByName key me s = Inr (-1))"
    unfolding findConditionByName_def
    by (rule find_names [OF N me]) (simp add: slot_get_def MAX_SERVERCONDITIONS_def)
  ultimately show ?thesis by blast
qed

lemma findMV_spec:
  assumes "server_inv me s"
  shows "(\<exists>l. mv_name (monitorVariableTable s l) = Some key \<and> l \<noteq> -1 \<and> findMonitorVariableByName key me s = Inr l) \<or>
         ((\<forall>l. mv_name (monitorVariableTable s l) \<noteq> Some key) \<and> findMonitorVariableByName key me s = Inr (-1))"
proof -
  let ?nm = "\<lambda>i. mv_name (monitorVariableTable s i)"
  from assms have N: "names_ok me (numMonitorVariables s) ?nm" and me: "0 \<le> me" by (simp_all add: server_inv_def)
  have "?nm l = Some key \<Longrightarrow> l \<noteq> -1" for l using N by (auto simp: names_ok_def)
  moreover have "(\<exists>l. ?nm l = Some key \<and> findMonitorVariableByName key me s = Inr l) \<or>
         ((\<forall>l. ?nm l \<noteq> Some key) \<and> findMonitorVariableByName key me s = Inr (-1))"
    unfolding findMonitorVariableByName_def
    by (rule find_names [OF N me]) (simp add: slot_get_def MAX_MONITORVARIABLES_def)
  ultimately show ?thesis by blast
qed

definition new_lock :: "string \<Rightarrow> ServerLock" where
  "new_lock n = \<lparr>lock_name = Some n, lock_owner = NO_OWNER, lock_queue = [],
     lock_isToBeDeleted = False, lock_isDeleted = False\<rparr>"

lemma constructServerLock_Inr:
  "constructServerLock i n s = Inr s' \<longleftrightarrow>
     0 \<le> i \<and> i < 5000 \<and> length n < 20 \<and> s' = set_lock i (new_lock n) s"
  by (auto simp: constructServerLock_def new_lock_def slot_get_def new_name_def MAX_SERVERLOCKS_def)

lemma CL_cases:
  assumes I: "server_inv me s" and h: "pkt_to h = me" and c: "Server_CL h m s = Inr (s', ms)"
  shows "(\<exists>k. s' = s\<lparr>IDer := k\<rparr>) \<or>
    (100 * me + numLocks s < 5000 \<and> (\<forall>l. lock_name (serverLockTable s l) \<noteq> Some (name m)) \<and>
     s' = (set_lock (100 * me + numLocks s) (new_lock (name m)) s)\<lparr>numLocks := numLocks s + 1\<rparr>)"
proof -
  have id: "\<exists>k. s = s\<lparr>IDer := k\<rparr>" by (rule exI [of _ "IDer s"]) simp
  consider l where "l \<noteq> -1" "findLockByName (name m) me s = Inr l"
    | "\<forall>l. lock_name (serverLockTable s l) \<noteq> Some (name m)" "findLockByName (name m) me s = Inr (-1)"
    using findLock_spec [OF I, of "name m"] by blast
  then show ?thesis
  proof cases
    case 1
    then have "s' = s" using c h by (simp add: Server_CL_def answer_Inr)
    with id show ?thesis by blast
  next
    case 2
    show ?thesis
    proof (cases "ID m = -1")
      case True
      with 2 c h have "s' = s\<lparr>IDer := IDer s + 1\<rparr>"
        by (simp add: Server_CL_def sendToMessageHandler_def Let_def answer_Inr)
      then show ?thesis by blast
    next
      case False
      with 2 c h have "s' = s \<or> (100 * me + numLocks s < 5000 \<and>
          s' = (set_lock (100 * me + numLocks s) (new_lock (name m)) s)\<lparr>numLocks := numLocks s + 1\<rparr>)"
        by (auto simp: Server_CL_def bindE_eq_Inr constructServerLock_Inr answer_Inr split: if_splits)
      with 2 id show ?thesis by blast
    qed
  qed
qed

lemma CL_inv:
  assumes I: "server_inv me s" and h: "pkt_to h = me" and c: "Server_CL h m s = Inr (s', ms)"
  shows "server_inv me s'"
  using CL_cases [OF assms]
proof (elim disjE exE conjE)
  fix k assume "s' = s\<lparr>IDer := k\<rparr>"
  with I show ?thesis by (simp add: server_inv_def)
next
  assume a: "100 * me + numLocks s < 5000" "\<forall>l. lock_name (serverLockTable s l) \<noteq> Some (name m)"
    and s': "s' = (set_lock (100 * me + numLocks s) (new_lock (name m)) s)\<lparr>numLocks := numLocks s + 1\<rparr>"
  have "(\<lambda>i. lock_name (serverLockTable s' i)) =
      (\<lambda>i. lock_name (serverLockTable s i))(100 * me + numLocks s := Some (name m))"
    by (auto simp: s' set_lock_def new_lock_def)
  moreover have "names_ok me (numLocks s + 1)
      ((\<lambda>i. lock_name (serverLockTable s i))(100 * me + numLocks s := Some (name m)))"
    by (rule names_ok_new) (use I a in \<open>simp_all add: server_inv_def\<close>)
  ultimately show ?thesis using I by (simp add: server_inv_def s' set_lock_def)
qed

lemma CC_inv:
  assumes I: "server_inv me s" and h: "pkt_to h = me" and c: "Server_CC h m s = Inr (s', ms)"
  shows "server_inv me s'"
proof -
  consider l where "l \<noteq> -1" "findConditionByName (name m) me s = Inr l"
    | "\<forall>l. cond_name (serverConditionTable s l) \<noteq> Some (name m)" "findConditionByName (name m) me s = Inr (-1)"
    using findCondition_spec [OF I, of "name m"] by blast
  then show ?thesis
  proof cases
    case 1
    then have "s' = s" using c h by (auto simp: Server_CC_def answer_Inr split: if_splits)
    with I show ?thesis by simp
  next
    case 2
    let ?i = "100 * me + numConditions s"
    from 2 c h have "(\<exists>k. s' = s\<lparr>IDer := k\<rparr>) \<or> s' = s \<or> (?i < 5000 \<and>
        serverConditionTable s' = (serverConditionTable s)(?i := \<lparr>cond_name = Some (name m), cond_lockIndex = -1,
          cond_queue = [], cond_isToBeDeleted = False, cond_isDeleted = False\<rparr>) \<and>
        serverLockTable s' = serverLockTable s \<and> monitorVariableTable s' = monitorVariableTable s \<and>
        numConditions s' = numConditions s + 1 \<and> numLocks s' = numLocks s \<and>
        numMonitorVariables s' = numMonitorVariables s \<and> messageQueue s' = messageQueue s)"
      by (auto simp: Server_CC_def bindE_eq_Inr constructServerCondition_def slot_get_Inr new_name_def
          MAX_SERVERCONDITIONS_def answer_Inr sendToMessageHandler_def Let_def set_cond_def split: if_splits)
    then show ?thesis
    proof (elim disjE exE conjE)
      assume a: "?i < 5000" and t: "serverConditionTable s' = (serverConditionTable s)(?i := \<lparr>cond_name = Some (name m),
          cond_lockIndex = -1, cond_queue = [], cond_isToBeDeleted = False, cond_isDeleted = False\<rparr>)"
        "serverLockTable s' = serverLockTable s" "monitorVariableTable s' = monitorVariableTable s"
        "numConditions s' = numConditions s + 1" "numLocks s' = numLocks s"
        "numMonitorVariables s' = numMonitorVariables s" "messageQueue s' = messageQueue s"
      have "(\<lambda>i. cond_name (serverConditionTable s' i)) =
          (\<lambda>i. cond_name (serverConditionTable s i))(?i := Some (name m))" by (auto simp: t)
      moreover have "names_ok me (numConditions s + 1)
          ((\<lambda>i. cond_name (serverConditionTable s i))(?i := Some (name m)))"
        by (rule names_ok_new) (use I a 2 in \<open>simp_all add: server_inv_def\<close>)
      ultimately show ?thesis using I by (simp add: server_inv_def t)
    qed (use I in \<open>simp_all add: server_inv_def\<close>)
  qed
qed

lemma CM_inv:
  assumes I: "server_inv me s" and h: "pkt_to h = me" and c: "Server_CM h m s = Inr (s', ms)"
  shows "server_inv me s'"
proof -
  consider l where "l \<noteq> -1" "findMonitorVariableByName (name m) me s = Inr l"
    | "\<forall>l. mv_name (monitorVariableTable s l) \<noteq> Some (name m)" "findMonitorVariableByName (name m) me s = Inr (-1)"
    using findMV_spec [OF I, of "name m"] by blast
  then show ?thesis
  proof cases
    case 1
    then have "s' = s" using c h by (auto simp: Server_CM_def answer_Inr sendMessage_def split: if_splits)
    with I show ?thesis by simp
  next
    case 2
    let ?i = "100 * me + numMonitorVariables s"
    from 2 c h have "(\<exists>k. s' = s\<lparr>IDer := k\<rparr>) \<or> s' = s \<or> (?i < 5000 \<and> 1 \<le> index2 m \<and>
        monitorVariableTable s' = (monitorVariableTable s)(?i := \<lparr>mv_name = Some (name m),
          mv_array = replicate (nat (index2 m)) None, mv_arraySize = index2 m,
          mv_isToBeDeleted = False, mv_isDeleted = False\<rparr>) \<and>
        serverLockTable s' = serverLockTable s \<and> serverConditionTable s' = serverConditionTable s \<and>
        numConditions s' = numConditions s \<and> numLocks s' = numLocks s \<and>
        numMonitorVariables s' = numMonitorVariables s + 1 \<and> messageQueue s' = messageQueue s)"
      by (auto simp: Server_CM_def bindE_eq_Inr constructMonitorVariable_def slot_get_Inr new_name_def
          MAX_MONITORVARIABLES_def answer_Inr sendMessage_def sendToMessageHandler_def Let_def set_mv_def
          split: if_splits)
    then show ?thesis
    proof (elim disjE exE conjE)
      assume a: "?i < 5000" "1 \<le> index2 m" and t: "monitorVariableTable s' = (monitorVariableTable s)(?i :=
          \<lparr>mv_name = Some (name m), mv_array = replicate (nat (index2 m)) None, mv_arraySize = index2 m,
          mv_isToBeDeleted = False, mv_isDeleted = False\<rparr>)"
        "serverLockTable s' = serverLockTable s" "serverConditionTable s' = serverConditionTable s"
        "numConditions s' = numConditions s" "numLocks s' = numLocks s"
        "numMonitorVariables s' = numMonitorVariables s + 1" "messageQueue s' = messageQueue s"
      have "(\<lambda>i. mv_name (monitorVariableTable s' i)) =
          (\<lambda>i. mv_name (monitorVariableTable s i))(?i := Some (name m))" by (auto simp: t)
      moreover have "names_ok me (numMonitorVariables s + 1)
          ((\<lambda>i. mv_name (monitorVariableTable s i))(?i := Some (name m)))"
        by (rule names_ok_new) (use I a 2 in \<open>simp_all add: server_inv_def\<close>)
      ultimately show ?thesis using I a by (simp add: server_inv_def t)
    qed (use I in \<open>simp_all add: server_inv_def\<close>)
  qed
qed

lemma dispatch_inv:
  assumes I: "server_inv me s" and h: "pkt_to h = me" and c: "Server_dispatch h m rcv s = Inr (s', ms)"
  shows "server_inv me s'"
proof -
  note obj = AQ_objects RL_objects WT_objects SG_objects BC_objects DL_objects DC_objects DM_objects
    GM_objects SM_objects
  have o: "same_objects s s' \<Longrightarrow> server_inv me s'" using same_objects_inv I by blast
  show ?thesis
    using c unfolding Server_dispatch_def
    by (auto split: if_splits dest!: obj intro: o CL_inv [OF I h] CC_inv [OF I h] CM_inv [OF I h]
        simp: answer_Inr I)
qed

lemma Server_init_inv: "0 \<le> me \<Longrightarrow> server_inv me Server_init"
  by (simp add: server_inv_def Server_init_def names_ok_def)

section \<open>Who may change the owner of a lock\<close>

abbreviation "owner s l \<equiv> lock_owner (serverLockTable s l)"

lemma IDer_owner [simp]: "owner (s\<lparr>IDer := k\<rparr>) l = owner s l"
  by simp

lemma set_lock_owner: "owner (set_lock i L s) l = (if l = i then lock_owner L else owner s l)"
  by (simp add: set_lock_def)

lemma set_cond_owner [simp]: "serverLockTable (set_cond i C s) = serverLockTable s"
  by (simp add: set_cond_def)

lemma not_here_owner: "not_here h m s = Inr (s', ms) \<Longrightarrow> serverLockTable s' = serverLockTable s"
  by (drule not_here_same) auto

lemma AQ_owner:
  "Server_AQ h m s = Inr (s', ms) \<Longrightarrow> owner s l \<noteq> NO_OWNER \<Longrightarrow> owner s' l = owner s l"
  by (auto simp: Server_AQ_def bindE_eq_Inr slot_get_Inr answer_Inr set_lock_owner not_here_owner
      split: if_splits)

lemma DL_owner: "Server_DL h m s = Inr (s', ms) \<Longrightarrow> owner s' l = owner s l"
  by (auto simp: Server_DL_def bindE_eq_Inr slot_get_Inr answer_Inr set_lock_owner not_here_owner
      split: if_splits)

lemma SG_owner: "Server_SG h m s = Inr (s', ms) \<Longrightarrow> owner s' l = owner s l"
  by (auto simp: Server_SG_def bindE_eq_Inr slot_get_Inr answer_Inr set_lock_owner not_here_owner Let_def
      split: if_splits prod.splits option.splits)

lemma BC_owner: "Server_BC h m s = Inr (s', ms) \<Longrightarrow> owner s' l = owner s l"
  by (auto simp: Server_BC_def bindE_eq_Inr slot_get_Inr answer_Inr set_lock_owner not_here_owner Let_def
      split: if_splits dest!: broadcast_remote_same)

lemma CC_owner: "Server_CC h m s = Inr (s', ms) \<Longrightarrow> owner s' l = owner s l"
  by (auto simp: Server_CC_def bindE_eq_Inr answer_Inr constructServerCondition_def sendToMessageHandler_def
      Let_def split: if_splits)

lemma DC_owner: "Server_DC h m s = Inr (s', ms) \<Longrightarrow> owner s' l = owner s l"
  by (auto simp: Server_DC_def bindE_eq_Inr answer_Inr not_here_owner split: if_splits)

lemma set_mv_owner [simp]: "serverLockTable (set_mv i V s) = serverLockTable s"
  by (simp add: set_mv_def)

lemma MV_owner:
  "Server_CM h m s = Inr (s', ms) \<Longrightarrow> owner s' l = owner s l"
  "Server_DM h m s = Inr (s', ms) \<Longrightarrow> owner s' l = owner s l"
  "Server_GM h m s = Inr (s', ms) \<Longrightarrow> owner s' l = owner s l"
  "Server_SM h m s = Inr (s', ms) \<Longrightarrow> owner s' l = owner s l"
  by (auto simp: Server_CM_def Server_DM_def Server_GM_def Server_SM_def bindE_eq_Inr answer_Inr
      constructMonitorVariable_def sendToMessageHandler_def not_here_owner Let_def split: if_splits)

lemma CL_owner:
  assumes "server_inv me s" "pkt_to h = me" "Server_CL h m s = Inr (s', ms)"
    "lock_name (serverLockTable s l) \<noteq> None"
  shows "owner s' l = owner s l"
proof -
  have "l \<noteq> 100 * me + numLocks s" using assms(1,4) by (auto simp: server_inv_def names_ok_def)
  with CL_cases [OF assms(1-3)] show ?thesis by (auto simp: set_lock_def)
qed

section \<open>Properties\<close>



text \<open>
  C18 A lock of the server that somebody holds changes owner only through a release request for that
  lock whose sender or named client is the owner or whose mailbox is 9, or through a wait request
  that names the lock.  The new owner is then the thread at the head of the lock's queue, which is
  taken out of the queue and told by a success mail; with an empty queue the lock becomes free.
\<close>

theorem server_lock_handoff:
  assumes "server_inv me s" and "pkt_to h = me" and "Server_dispatch h m rcv s = Inr (s', ms)"
    and "lock_name (serverLockTable s l) \<noteq> None" and "owner s l \<noteq> NO_OWNER"
    and "owner s' l \<noteq> owner s l"
  shows "((strstr (request m) ''RL'' \<and> index m = l \<and> may_release h m (serverLockTable s l)) \<or>
          (strstr (request m) ''WT'' \<and> index2 m = l)) \<and>
    ((lock_queue (serverLockTable s l) = [] \<and> owner s' l = NO_OWNER) \<or>
     (\<exists>t q. lock_queue (serverLockTable s l) = Some t # q \<and> owner s' l = t \<and>
        lock_queue (serverLockTable s' l) = q \<and> reply_mail t success_text \<in> set ms))"
proof -
  have "(strstr (request m) ''RL'' \<and> Server_RL h m s = Inr (s', ms)) \<or>
        (strstr (request m) ''WT'' \<and> Server_WT h m rcv s = Inr (s', ms))"
    using assms(3,6) AQ_owner [OF _ assms(5)] CL_owner [OF assms(1,2) _ assms(4)]
    by (auto simp: Server_dispatch_def answer_Inr
        dest: SG_owner [of h m s s' ms l] BC_owner [of h m s s' ms l] DL_owner [of h m s s' ms l]
          CC_owner [of h m s s' ms l] DC_owner [of h m s s' ms l] MV_owner(1) [of h m s s' ms l]
          MV_owner(2) [of h m s s' ms l] MV_owner(3) [of h m s s' ms l] MV_owner(4) [of h m s s' ms l]
        split: if_splits)
  then show ?thesis
  proof (elim disjE conjE)
    assume r: "strstr (request m) ''RL''" "Server_RL h m s = Inr (s', ms)"
    from RL_cases [OF r(2)] have "index m = l"
      using assms(6) by (auto simp: set_lock_owner split: if_splits)
    with RL_cases [OF r(2)] r(1) assms(6) show ?thesis by (auto simp: set_lock_def)
  next
    assume w: "strstr (request m) ''WT''" "Server_WT h m rcv s = Inr (s', ms)"
    from WT_cases [OF w(2)] have "index2 m = l"
      using assms(6) by (auto simp: set_lock_owner Let_def split: if_splits)
    with WT_cases [OF w(2)] w(1) assms(6) show ?thesis by (auto simp: set_lock_def Let_def)
  qed
qed

text \<open>
  A server of machine 0 with one lock (slot 0) held by thread (1, 2), for which thread (3, 4)
  waits, and one condition variable and one monitor variable of two elements.
\<close>

definition server1 :: server where
  "server1 = \<lparr>
     serverLockTable = (\<lambda>i. if i = 0 then \<lparr>lock_name = Some ''L'', lock_owner = setIDs 1 2,
         lock_queue = [Some (setIDs 3 4)], lock_isToBeDeleted = False, lock_isDeleted = False\<rparr>
       else serverLockTable Server_init i),
     serverConditionTable = (\<lambda>i. if i = 0 then \<lparr>cond_name = Some ''C'', cond_lockIndex = -1, cond_queue = [],
         cond_isToBeDeleted = False, cond_isDeleted = False\<rparr> else serverConditionTable Server_init i),
     monitorVariableTable = (\<lambda>i. if i = 0 then \<lparr>mv_name = Some ''M'', mv_array = [None, Some 5],
         mv_arraySize = 2, mv_isToBeDeleted = False, mv_isDeleted = False\<rparr>
       else monitorVariableTable Server_init i),
     numLocks = 1, numConditions = 1, numMonitorVariables = 1, IDer = 0, messageQueue = []\<rparr>"

definition msg_of :: "string \<Rightarrow> int \<Rightarrow> int \<Rightarrow> int \<Rightarrow> Message" where
  "msg_of rq i i2 i3 = \<lparr>name = ''x'', name2 = ''y'', request = rq, index = i, index2 = i2, index3 = i3,
     ID = -1, clientMachine = -1, clientMailbox = -1\<rparr>"

definition hdr :: "int \<Rightarrow> int \<Rightarrow> Header" where
  "hdr f b = \<lparr>pkt_from = f, pkt_to = 0, mail_from = b\<rparr>"

lemma server1_inv: "server_inv 0 server1"
  by (auto simp: server_inv_def names_ok_def server1_def Server_init_def)

theorem server_lock_handoff_witness:
  "\<exists>s' ms. Server_dispatch (hdr 1 2) (msg_of ''RL'' 0 0 0) (msg_of ''HI'' 0 0 0) server1 = Inr (s', ms) \<and>
     owner s' 0 = setIDs 3 4 \<and> reply_mail (setIDs 3 4) success_text \<in> set ms"
proof -
  obtain s' ms where d: "Server_dispatch (hdr 1 2) (msg_of ''RL'' 0 0 0) (msg_of ''HI'' 0 0 0) server1 = Inr (s', ms)"
    "owner s' 0 \<noteq> owner server1 0"
    by (simp add: Server_dispatch_def msg_of_def Server_RL_def server1_def slot_get_def MAX_SERVERLOCKS_def
        may_release_def sender_def hdr_def requester_def sendSuccess_eq box_ok_def numBoxes_def
        setIDs_def grant_head_def answer_def set_lock_def)
  have "lock_name (serverLockTable server1 0) \<noteq> None" "owner server1 0 \<noteq> NO_OWNER"
    "lock_queue (serverLockTable server1 0) = [Some (setIDs 3 4)]"
    by (simp_all add: server1_def NO_OWNER_def setIDs_def)
  with server_lock_handoff [OF server1_inv _ d(1) _ _ d(2)] d(1) show ?thesis by (auto simp: hdr_def)
qed

text \<open>
  Creating a lock is idempotent per name.  If a slot of this server already has the name, the
  reply is that slot's number and nothing changes.  Otherwise a request that has been through the
  message handlers gets the next slot of the block, with a free lock in it, and nothing else changes
  in the table; a repeated request is answered with the same slot.
\<close>

theorem server_create_lock:
  assumes I: "server_inv me s" and h: "pkt_to h = me" and b: "box_ok (requester h m)" "box_ok (client m)"
  defines "i \<equiv> 100 * me + numLocks s"
  shows "(\<forall>l. lock_name (serverLockTable s l) = Some (name m) \<longrightarrow>
            Server_CL h m s = Inr (s, [reply_mail (requester h m) (index_text l)])) \<and>
         ((\<forall>l. lock_name (serverLockTable s l) \<noteq> Some (name m)) \<and> ID m \<noteq> -1 \<and> i < 5000 \<and> length (name m) < 20 \<longrightarrow>
            (\<exists>s'. Server_CL h m s = Inr (s', [reply_mail (client m) (index_text i)]) \<and>
              serverLockTable s' = (serverLockTable s)(i := new_lock (name m)) \<and>
              Server_CL h m s' = Inr (s', [reply_mail (requester h m) (index_text i)])))"
proof -
  have old: "Server_CL h m u = Inr (u, [reply_mail (requester h m) (index_text l)])"
    if u: "server_inv me u" "lock_name (serverLockTable u l) = Some (name m)" for u l
  proof -
    have N: "names_ok me (numLocks u) (\<lambda>i. lock_name (serverLockTable u i))" using u(1) by (simp add: server_inv_def)
    obtain l' where l': "lock_name (serverLockTable u l') = Some (name m)" "l' \<noteq> -1"
      "findLockByName (name m) me u = Inr l'" using findLock_spec [OF u(1), of "name m"] u(2) by blast
    have "l' = l" using N u(2) l'(1) by (auto simp: names_ok_def)
    moreover have "0 \<le> l \<and> l < 5000" using N u(2) by (auto simp: names_ok_def)
    ultimately show ?thesis using l' h b(1)
      by (simp add: Server_CL_def answer_def sendMessage_eq int_ok_def)
  qed
  have new: "\<exists>s'. Server_CL h m s = Inr (s', [reply_mail (client m) (index_text i)]) \<and>
              serverLockTable s' = (serverLockTable s)(i := new_lock (name m)) \<and>
              Server_CL h m s' = Inr (s', [reply_mail (requester h m) (index_text i)])"
    if a: "\<forall>l. lock_name (serverLockTable s l) \<noteq> Some (name m)" "ID m \<noteq> -1" "i < 5000" "length (name m) < 20"
  proof -
    let ?s = "(set_lock i (new_lock (name m)) s)\<lparr>numLocks := numLocks s + 1\<rparr>"
    have f: "findLockByName (name m) me s = Inr (-1)" using findLock_spec [OF I, of "name m"] a(1) by blast
    have n: "0 \<le> me" "0 \<le> numLocks s" using I by (simp_all add: server_inv_def names_ok_def)
    have "constructServerLock i (name m) s = Inr (set_lock i (new_lock (name m)) s)"
      using n a(3,4) by (simp add: constructServerLock_Inr i_def)
    then have c: "Server_CL h m s = Inr (?s, [reply_mail (client m) (index_text i)])"
      using f a n h b(2) unfolding i_def
      by (simp add: Server_CL_def answer_def sendMessage_eq int_ok_def MAX_SERVERLOCKS_def)
    have "server_inv me ?s" by (rule CL_inv [OF I h c])
    then have "Server_CL h m ?s = Inr (?s, [reply_mail (requester h m) (index_text i)])"
      by (rule old) (simp add: set_lock_def new_lock_def)
    with c show ?thesis by (auto simp: set_lock_def)
  qed
  show ?thesis using old [OF I] new by blast
qed

theorem server_create_lock_witness:
  "\<exists>s'. Server_CL (hdr 0 1) ((msg_of ''CL'' 0 0 0)\<lparr>ID := 7, clientMachine := 5, clientMailbox := 2\<rparr>) server1 =
      Inr (s', [reply_mail (setIDs 5 2) (index_text 1)]) \<and> serverLockTable s' 1 = new_lock ''x''"
proof -
  have "\<forall>l. lock_name (serverLockTable server1 l) \<noteq> Some ''x''" by (simp add: server1_def Server_init_def)
  with server_create_lock [OF server1_inv, of "hdr 0 1"
      "(msg_of ''CL'' 0 0 0)\<lparr>ID := 7, clientMachine := 5, clientMailbox := 2\<rparr>"]
  show ?thesis
    by (auto simp: hdr_def msg_of_def requester_def client_def box_ok_def setIDs_def numBoxes_def server1_def)
qed

text \<open>Successive direct requests by threads for one lock, through the dispatcher.\<close>

definition hdr_of :: "int \<Rightarrow> ThreadID \<Rightarrow> Header" where
  "hdr_of me t = \<lparr>pkt_from = machineID t, pkt_to = me, mail_from = threadID t\<rparr>"

fun requests :: "(Header \<times> Message) list \<Rightarrow> server \<Rightarrow> fault + server \<times> Mail list" where
  "requests [] s = Inr (s, [])"
| "requests ((h, m) # rs) s = bindE (Server_dispatch h m m s) (\<lambda>(s1, ms).
     bindE (requests rs s1) (\<lambda>(s2, ms2). Inr (s2, ms @ ms2)))"

lemma requests_append:
  "requests (xs @ ys) s = bindE (requests xs s) (\<lambda>(s1, ms). bindE (requests ys s1) (\<lambda>(s2, ms2). Inr (s2, ms @ ms2)))"
proof (induction xs arbitrary: s)
  case Nil
  show ?case by (cases "requests ys s") auto
next
  case (Cons x xs)
  show ?case
    by (cases x; cases "Server_dispatch (fst x) (snd x) (snd x) s")
       (auto simp: Cons.IH bindE_def split: sum.splits prod.splits)
qed

lemma sender_hdr_of [simp]: "sender (hdr_of me t) = t"
  by (simp add: sender_def hdr_of_def setIDs_def)

lemma requester_direct [simp]: "requester h (msg_of rq i j k) = sender h"
  by (simp add: requester_def msg_of_def)

lemma renamed_requester: "requester h (m\<lparr>name := n\<rparr>) = requester h m"
  by (simp add: requester_def client_def)

lemma pkt_to_hdr_of: "pkt_to (hdr_of me t) = me"
  by (simp add: hdr_of_def)

lemma direct_client: "clientMachine (msg_of rq i j k) = -1" "index (msg_of rq i j k) = i"
  "index2 (msg_of rq i j k) = j" "index3 (msg_of rq i j k) = k" "clientMailbox (msg_of rq i j k) = -1"
  "request (msg_of rq i j k) = rq" "ID (msg_of rq i j k) = -1"
  by (simp_all add: msg_of_def)

definition live_lock :: "server \<Rightarrow> int \<Rightarrow> bool" where
  "live_lock s l \<longleftrightarrow> 0 \<le> l \<and> l < 5000 \<and> lock_name (serverLockTable s l) \<noteq> None \<and>
     \<not> lock_isDeleted (serverLockTable s l) \<and> \<not> lock_isToBeDeleted (serverLockTable s l)"

lemma AQ_queues:
  assumes "live_lock s l" "owner s l \<noteq> NO_OWNER" "owner s l \<noteq> t"
  shows "Server_dispatch (hdr_of me t) (msg_of ''AQ'' l 0 0) r s =
    Inr (set_lock l ((serverLockTable s l)\<lparr>lock_queue := lock_queue (serverLockTable s l) @ [Some t]\<rparr>) s, [])"
  using assms
  by (auto simp: Server_dispatch_def Server_AQ_def direct_client live_lock_def slot_get_def
      MAX_SERVERLOCKS_def q_append_def)

lemma AQ_queues_all:
  "live_lock s l \<Longrightarrow> owner s l \<noteq> NO_OWNER \<Longrightarrow> owner s l \<notin> set ts \<Longrightarrow>
   requests (map (\<lambda>t. (hdr_of me t, msg_of ''AQ'' l 0 0)) ts) s =
     Inr (set_lock l ((serverLockTable s l)\<lparr>lock_queue := lock_queue (serverLockTable s l) @ map Some ts\<rparr>) s, [])"
proof (induction ts arbitrary: s)
  case Nil
  then show ?case by (simp add: set_lock_def)
next
  case (Cons t ts)
  let ?s = "set_lock l ((serverLockTable s l)\<lparr>lock_queue := lock_queue (serverLockTable s l) @ [Some t]\<rparr>) s"
  have "Server_dispatch (hdr_of me t) (msg_of ''AQ'' l 0 0) (msg_of ''AQ'' l 0 0) s = Inr (?s, [])"
    by (rule AQ_queues) (use Cons.prems in auto)
  moreover have "live_lock ?s l" "owner ?s l = owner s l"
    using Cons.prems(1) by (simp_all add: live_lock_def set_lock_def)
  ultimately show ?case using Cons.IH [of ?s] Cons.prems by (simp add: set_lock_def)
qed

lemma RL_grants:
  assumes "live_lock s l" "owner s l = t0" "lock_queue (serverLockTable s l) = map Some ts"
    "box_ok t0" "\<forall>t \<in> set ts. box_ok t"
  shows "Server_dispatch (hdr_of me t0) (msg_of ''RL'' l 0 0) r s =
    (case ts of [] \<Rightarrow> Inr (set_lock l ((serverLockTable s l)\<lparr>lock_owner := NO_OWNER\<rparr>) s,
                       [reply_mail t0 success_text])
     | t # us \<Rightarrow> Inr (set_lock l ((serverLockTable s l)\<lparr>lock_owner := t, lock_queue := map Some us\<rparr>) s,
                       [reply_mail t0 success_text, reply_mail t success_text]))"
  using assms
  by (cases ts) (auto simp: Server_dispatch_def Server_RL_def direct_client live_lock_def slot_get_def
      MAX_SERVERLOCKS_def may_release_def sendSuccess_eq grant_head_def answer_def Let_def)

lemma RL_all:
  "live_lock s l \<Longrightarrow> owner s l = t0 \<Longrightarrow> lock_queue (serverLockTable s l) = map Some ts \<Longrightarrow>
   \<forall>t \<in> set (t0 # ts). box_ok t \<Longrightarrow>
   \<exists>s'. requests (map (\<lambda>t. (hdr_of me t, msg_of ''RL'' l 0 0)) (t0 # ts)) s =
      Inr (s', reply_mail t0 success_text #
             concat (map (\<lambda>t. [reply_mail t success_text, reply_mail t success_text]) ts)) \<and>
      owner s' l = NO_OWNER \<and> lock_queue (serverLockTable s' l) = []"
proof (induction ts arbitrary: s t0)
  case Nil
  then show ?case using RL_grants [of s l t0 "[]"] by (simp add: set_lock_def)
next
  case (Cons t ts)
  let ?s = "set_lock l ((serverLockTable s l)\<lparr>lock_owner := t, lock_queue := map Some ts\<rparr>) s"
  have d: "Server_dispatch (hdr_of me t0) (msg_of ''RL'' l 0 0) (msg_of ''RL'' l 0 0) s =
      Inr (?s, [reply_mail t0 success_text, reply_mail t success_text])"
    using RL_grants [of s l t0 "t # ts"] Cons.prems by simp
  have "live_lock ?s l" "owner ?s l = t" "lock_queue (serverLockTable ?s l) = map Some ts"
    using Cons.prems(1) by (simp_all add: live_lock_def set_lock_def)
  from Cons.IH [OF this] Cons.prems(4) obtain s' where
    "requests (map (\<lambda>t. (hdr_of me t, msg_of ''RL'' l 0 0)) (t # ts)) ?s =
      Inr (s', reply_mail t success_text #
             concat (map (\<lambda>t. [reply_mail t success_text, reply_mail t success_text]) ts))"
    "owner s' l = NO_OWNER" "lock_queue (serverLockTable s' l) = []" by auto
  with d show ?case by simp
qed

text \<open>
  The server grants a lock in the order of the requests.  When thread \<open>t0\<close> holds a lock that is
  not being deleted and nobody waits, requests by other threads \<open>ts\<close> are queued without an answer;
  when then \<open>t0\<close> and each of \<open>ts\<close> in turn release it, every release is confirmed and followed at
  once by the success mail for the next thread in line, and in the end the lock is free.
\<close>

theorem server_lock_fifo:
  assumes "live_lock s l" and "owner s l = t0" and "t0 \<noteq> NO_OWNER"
    and "lock_queue (serverLockTable s l) = []" and "t0 \<notin> set ts" and "\<forall>t \<in> set (t0 # ts). box_ok t"
  shows "\<exists>s'. requests (map (\<lambda>t. (hdr_of me t, msg_of ''AQ'' l 0 0)) ts @
                        map (\<lambda>t. (hdr_of me t, msg_of ''RL'' l 0 0)) (t0 # ts)) s =
      Inr (s', reply_mail t0 success_text #
             concat (map (\<lambda>t. [reply_mail t success_text, reply_mail t success_text]) ts)) \<and>
      owner s' l = NO_OWNER \<and> lock_queue (serverLockTable s' l) = []"
proof -
  let ?s = "set_lock l ((serverLockTable s l)\<lparr>lock_queue := map Some ts\<rparr>) s"
  have a: "requests (map (\<lambda>t. (hdr_of me t, msg_of ''AQ'' l 0 0)) ts) s = Inr (?s, [])"
    using AQ_queues_all [OF assms(1)] assms(2-5) by simp
  have "live_lock ?s l" "owner ?s l = t0" "lock_queue (serverLockTable ?s l) = map Some ts"
    using assms(1,2) by (simp_all add: live_lock_def set_lock_def)
  from RL_all [OF this assms(6), of me] obtain s' where
    r: "requests (map (\<lambda>t. (hdr_of me t, msg_of ''RL'' l 0 0)) (t0 # ts)) ?s =
      Inr (s', reply_mail t0 success_text #
             concat (map (\<lambda>t. [reply_mail t success_text, reply_mail t success_text]) ts))"
    and f: "owner s' l = NO_OWNER" "lock_queue (serverLockTable s' l) = []" by blast
  show ?thesis unfolding requests_append a using r f by simp
qed

theorem server_lock_fifo_witness:
  "\<exists>s'. requests [(hdr_of 0 (setIDs 5 6), msg_of ''AQ'' 0 0 0), (hdr_of 0 (setIDs 1 2), msg_of ''RL'' 0 0 0),
      (hdr_of 0 (setIDs 5 6), msg_of ''RL'' 0 0 0)]
      (set_lock 0 ((serverLockTable server1 0)\<lparr>lock_queue := []\<rparr>) server1) =
    Inr (s', [reply_mail (setIDs 1 2) success_text, reply_mail (setIDs 5 6) success_text,
              reply_mail (setIDs 5 6) success_text]) \<and> owner s' 0 = NO_OWNER"
proof -
  let ?s = "set_lock 0 ((serverLockTable server1 0)\<lparr>lock_queue := []\<rparr>) server1"
  have "live_lock ?s 0" "owner ?s 0 = setIDs 1 2" "setIDs 1 2 \<noteq> NO_OWNER" "lock_queue (serverLockTable ?s 0) = []"
    "setIDs 1 2 \<notin> set [setIDs 5 6]" "\<forall>t \<in> set [setIDs 1 2, setIDs 5 6]. box_ok t"
    by (simp_all add: live_lock_def set_lock_def server1_def NO_OWNER_def setIDs_def box_ok_def numBoxes_def)
  from server_lock_fifo [OF this, of 0] show ?thesis unfolding list.map append.simps by auto
qed

text \<open>
  Setting and getting a monitor variable: a set request for an element of an existing variable is
  confirmed and stores the value, a get request for the element then returns exactly that value, and
  every other element, every other variable and all locks and conditions are as before.
\<close>

theorem server_mv_roundtrip:
  assumes I: "server_inv me s" and v: "mv_name (monitorVariableTable s v) \<noteq> None"
    and i: "0 \<le> i" "i < mv_arraySize (monitorVariableTable s v)" and x: "int_ok x"
    and t: "box_ok t" "box_ok u"
  shows "\<exists>s'. Server_dispatch (hdr_of me t) (msg_of ''SM'' v i x) r s = Inr (s', [reply_mail t success_text]) \<and>
    Server_dispatch (hdr_of me u) (msg_of ''GM'' v i 0) r s' = Inr (s', [reply_mail u (index_text x)]) \<and>
    (\<forall>w j. w \<noteq> v \<or> j \<noteq> nat i \<longrightarrow> mv_array (monitorVariableTable s' w) ! j = mv_array (monitorVariableTable s w) ! j) \<and>
    serverLockTable s' = serverLockTable s \<and> serverConditionTable s' = serverConditionTable s"
proof -
  let ?V = "monitorVariableTable s v"
  let ?s = "set_mv v (?V\<lparr>mv_array := (mv_array ?V)[nat i := Some x]\<rparr>) s"
  have b: "0 \<le> v" "v < 5000" using I v by (auto simp: server_inv_def names_ok_def)
  have l: "int (length (mv_array ?V)) = mv_arraySize ?V" using I v by (simp add: server_inv_def)
  obtain n where n: "mv_name ?V = Some n" using v by auto
  have "Server_dispatch (hdr_of me t) (msg_of ''SM'' v i x) r s = Inr (?s, [reply_mail t success_text])"
    using b l n i t by (simp add: Server_dispatch_def Server_SM_def direct_client slot_get_def
        MAX_MONITORVARIABLES_def arr_set_def in_range_def answer_def sendSuccess_eq)
  moreover have "Server_dispatch (hdr_of me u) (msg_of ''GM'' v i 0) r ?s = Inr (?s, [reply_mail u (index_text x)])"
    using b l n i t x by (simp add: Server_dispatch_def Server_GM_def direct_client slot_get_def set_mv_def
        MAX_MONITORVARIABLES_def arr_get_def in_range_def answer_def sendMessage_eq)
  ultimately show ?thesis
    by (intro exI [of _ ?s]) (auto simp: set_mv_def)
qed

theorem server_mv_roundtrip_witness:
  "\<exists>s'. Server_dispatch (hdr_of 0 (setIDs 1 2)) (msg_of ''SM'' 0 1 42) (msg_of ''x'' 0 0 0) server1 =
      Inr (s', [reply_mail (setIDs 1 2) success_text]) \<and>
    Server_dispatch (hdr_of 0 (setIDs 3 4)) (msg_of ''GM'' 0 1 0) (msg_of ''x'' 0 0 0) s' =
      Inr (s', [reply_mail (setIDs 3 4) (index_text 42)])"
proof -
  have "mv_name (monitorVariableTable server1 0) \<noteq> None" "(0::int) \<le> 1"
    "1 < mv_arraySize (monitorVariableTable server1 0)" "int_ok 42" "box_ok (setIDs 1 2)" "box_ok (setIDs 3 4)"
    by (simp_all add: server1_def int_ok_def box_ok_def setIDs_def numBoxes_def)
  from server_mv_roundtrip [OF server1_inv this, of "msg_of ''x'' 0 0 0"] show ?thesis by blast
qed

text \<open>
  Each of the ten requests that carry an object's number reads the table slot before it checks the
  number: with a number outside the table (negative, or 5000 and above) the server does not send the
  error reply its code prepares for that case, it accesses memory outside the table.
\<close>

theorem server_index_unchecked:
  assumes "request m \<in> {''AQ'', ''RL'', ''WT'', ''SG'', ''BC'', ''DL'', ''DC'', ''DM'', ''GM'', ''SM''}"
    and "index m < 0 \<or> 5000 \<le> index m"
  shows "Server_dispatch h m rcv s = Inl OutOfBounds"
proof -
  have "\<not> (0 \<le> index m \<and> index m < 5000)" using assms(2) by auto
  then have "slot_get MAX_SERVERLOCKS tab (index m) = Inl OutOfBounds"
    "slot_get MAX_SERVERCONDITIONS tab' (index m) = Inl OutOfBounds"
    "slot_get MAX_MONITORVARIABLES tab'' (index m) = Inl OutOfBounds"
    for tab :: "int \<Rightarrow> ServerLock" and tab' :: "int \<Rightarrow> ServerCondition" and tab'' :: "int \<Rightarrow> MonitorVariable"
    by (simp_all add: slot_get_def MAX_SERVERLOCKS_def MAX_SERVERCONDITIONS_def MAX_MONITORVARIABLES_def)
  note out = this Server_dispatch_def Server_AQ_def Server_RL_def Server_WT_def Server_SG_def Server_BC_def
      Server_DL_def Server_DC_def Server_DM_def Server_GM_def Server_SM_def
  show ?thesis using assms(1) by (elim insertE emptyE) (simp_all add: out)
qed

theorem server_index_unchecked_witness:
  "Server_dispatch (hdr 1 2) (msg_of ''AQ'' (-1) 0 0) (msg_of ''HI'' 0 0 0) server1 = Inl OutOfBounds"
  by (rule server_index_unchecked) (simp_all add: direct_client)

text \<open>
  A signal on a condition nobody waits for, with a lock of this server that its owner holds and
  nobody waits for, is confirmed, but appends a null pointer to the lock's queue; the owner's next
  release then dereferences it, so the server crashes instead of freeing the lock.
\<close>

theorem server_signal_empty_crash:
  assumes c: "0 \<le> c" "c < 5000" "cond_name (serverConditionTable s c) \<noteq> None"
      "\<not> cond_isDeleted (serverConditionTable s c)" "\<not> cond_isToBeDeleted (serverConditionTable s c)"
      "cond_queue (serverConditionTable s c) = []"
    and l: "live_lock s l" "owner s l = t" "lock_queue (serverLockTable s l) = []" and t: "box_ok t"
  shows "\<exists>s'. Server_dispatch (hdr_of me t) (msg_of ''SG'' c l 0) r s = Inr (s', [reply_mail t success_text]) \<and>
    Server_dispatch (hdr_of me t) (msg_of ''RL'' l 0 0) r s' = Inl NullPointer"
proof -
  let ?s = "set_lock l ((serverLockTable s l)\<lparr>lock_queue := [None]\<rparr>)
      (set_cond c ((serverConditionTable s c)\<lparr>cond_queue := []\<rparr>) s)"
  obtain n where n: "lock_name (serverLockTable s l) = Some n" using l(1) by (auto simp: live_lock_def)
  obtain cn where cn: "cond_name (serverConditionTable s c) = Some cn" using c(3) by auto
  have "Server_dispatch (hdr_of me t) (msg_of ''SG'' c l 0) r s = Inr (?s, [reply_mail t success_text])"
    using c(1,2,4-) l t n cn
    by (simp add: Server_dispatch_def Server_SG_def direct_client slot_get_def MAX_SERVERCONDITIONS_def
        MAX_SERVERLOCKS_def live_lock_def answer_def sendSuccess_eq q_append_def)
  moreover have "Server_dispatch (hdr_of me t) (msg_of ''RL'' l 0 0) r ?s = Inl NullPointer"
    using l t n
    by (simp add: Server_dispatch_def Server_RL_def direct_client slot_get_def MAX_SERVERLOCKS_def live_lock_def
        may_release_def sendSuccess_eq grant_head_def set_lock_def Let_def)
  ultimately show ?thesis by blast
qed

theorem server_signal_empty_crash_witness:
  "\<exists>s'. Server_dispatch (hdr_of 0 (setIDs 1 2)) (msg_of ''SG'' 0 0 0) (msg_of ''HI'' 0 0 0)
      (set_lock 0 ((serverLockTable server1 0)\<lparr>lock_queue := []\<rparr>) server1) =
        Inr (s', [reply_mail (setIDs 1 2) success_text]) \<and>
    Server_dispatch (hdr_of 0 (setIDs 1 2)) (msg_of ''RL'' 0 0 0) (msg_of ''HI'' 0 0 0) s' = Inl NullPointer"
proof -
  let ?s = "set_lock 0 ((serverLockTable server1 0)\<lparr>lock_queue := []\<rparr>) server1"
  show ?thesis
    by (rule server_signal_empty_crash)
      (simp_all add: server1_def set_lock_def live_lock_def box_ok_def setIDs_def numBoxes_def)
qed

text \<open>
  A wait request is not checked against the lock's owner: when any thread \<open>u\<close> that does not hold the
  lock waits with it, the server parks the owner \<open>t\<close> in the condition's queue, takes the lock from it
  and answers neither of them; \<open>u\<close> itself is in no queue.
\<close>

theorem server_wait_parks_owner:
  assumes c: "0 \<le> c" "c < 5000" "cond_name (serverConditionTable s c) \<noteq> None"
      "\<not> cond_isDeleted (serverConditionTable s c)" "\<not> cond_isToBeDeleted (serverConditionTable s c)"
    and l: "live_lock s l" "owner s l = t" "lock_queue (serverLockTable s l) = []" and u: "u \<noteq> t"
  shows "\<exists>s'. Server_dispatch (hdr_of me u) (msg_of ''WT'' c l 0) r s = Inr (s', []) \<and>
    owner s' l = NO_OWNER \<and> lock_queue (serverLockTable s' l) = [] \<and>
    cond_queue (serverConditionTable s' c) = cond_queue (serverConditionTable s c) @ [Some t]"
  using assms
  by (auto simp: Server_dispatch_def Server_WT_def WT_local_def direct_client slot_get_def MAX_SERVERCONDITIONS_def
      MAX_SERVERLOCKS_def live_lock_def Let_def set_lock_def set_cond_def q_append_def)

theorem server_wait_parks_owner_witness:
  "\<exists>s'. Server_dispatch (hdr_of 0 (setIDs 8 8)) (msg_of ''WT'' 0 0 0) (msg_of ''HI'' 0 0 0)
      (set_lock 0 ((serverLockTable server1 0)\<lparr>lock_queue := []\<rparr>) server1) = Inr (s', []) \<and>
    owner s' 0 = NO_OWNER \<and> cond_queue (serverConditionTable s' 0) = [Some (setIDs 1 2)]"
proof -
  let ?s = "set_lock 0 ((serverLockTable server1 0)\<lparr>lock_queue := []\<rparr>) server1"
  have c: "(0::int) \<le> 0" "(0::int) < 5000" "cond_name (serverConditionTable ?s 0) \<noteq> None"
      "\<not> cond_isDeleted (serverConditionTable ?s 0)" "\<not> cond_isToBeDeleted (serverConditionTable ?s 0)"
    by (simp_all add: server1_def set_lock_def)
  have l: "live_lock ?s 0" "owner ?s 0 = setIDs 1 2" "lock_queue (serverLockTable ?s 0) = []" "setIDs 8 8 \<noteq> setIDs 1 2"
    by (simp_all add: server1_def set_lock_def live_lock_def setIDs_def)
  have "cond_queue (serverConditionTable ?s 0) = []" by (simp add: server1_def set_lock_def)
  with server_wait_parks_owner [OF c l, of 0 "msg_of ''HI'' 0 0 0"] show ?thesis by auto
qed

text \<open>
  A destroyed lock blocks its name: after a free lock is destroyed, creating a lock of the same name
  returns the number of the destroyed one, and acquiring that is answered with an error.
\<close>

theorem server_destroyed_name:
  assumes I: "server_inv me s" and l: "lock_name (serverLockTable s l) = Some n" "owner s l = NO_OWNER"
      "lock_queue (serverLockTable s l) = []" and t: "box_ok t"
  shows "\<exists>s'. Server_dispatch (hdr_of me t) (msg_of ''DL'' l 0 0) r s = Inr (s', [reply_mail t success_text]) \<and>
    Server_dispatch (hdr_of me t) ((msg_of ''CL'' 0 0 0)\<lparr>name := n\<rparr>) r s' = Inr (s', [reply_mail t (index_text l)]) \<and>
    Server_dispatch (hdr_of me t) (msg_of ''AQ'' l 0 0) r s' = Inr (s', [reply_mail t error_text])"
proof -
  let ?L = "(serverLockTable s l)\<lparr>lock_isToBeDeleted := True, lock_isDeleted := True\<rparr>"
  let ?s = "set_lock l ?L s"
  have b: "0 \<le> l" "l < 5000" using I l(1) by (auto simp: server_inv_def names_ok_def)
  have d: "Server_dispatch (hdr_of me t) (msg_of ''DL'' l 0 0) r s = Inr (?s, [reply_mail t success_text])"
    using b l t by (simp add: Server_dispatch_def Server_DL_def direct_client slot_get_def
        MAX_SERVERLOCKS_def answer_def sendSuccess_eq)
  have "same_objects s ?s" by (rule same_objects_updates) simp
  then have I': "server_inv me ?s" using same_objects_inv I by blast
  have N: "names_ok me (numLocks ?s) (\<lambda>i. lock_name (serverLockTable ?s i))" using I' by (simp add: server_inv_def)
  have ln: "lock_name (serverLockTable ?s l) = Some n" using l(1) by (simp add: set_lock_def)
  then obtain l' where l': "lock_name (serverLockTable ?s l') = Some n" "l' \<noteq> -1" "findLockByName n me ?s = Inr l'"
    using findLock_spec [OF I', of n] by blast
  have "l' = l" using N ln l'(1) by (auto simp: names_ok_def)
  then have "Server_dispatch (hdr_of me t) ((msg_of ''CL'' 0 0 0)\<lparr>name := n\<rparr>) r ?s = Inr (?s, [reply_mail t (index_text l)])"
    using l' b t by (simp add: Server_dispatch_def Server_CL_def answer_def sendMessage_eq int_ok_def direct_client
        renamed_requester pkt_to_hdr_of)
  moreover have "Server_dispatch (hdr_of me t) (msg_of ''AQ'' l 0 0) r ?s = Inr (?s, [reply_mail t error_text])"
    using b l t by (simp add: Server_dispatch_def Server_AQ_def direct_client slot_get_def
        MAX_SERVERLOCKS_def answer_def sendError_eq set_lock_def)
  ultimately show ?thesis using d by blast
qed

theorem server_destroyed_name_witness:
  "\<exists>s'. Server_dispatch (hdr_of 0 (setIDs 1 2)) (msg_of ''DL'' 0 0 0) (msg_of ''HI'' 0 0 0)
      (set_lock 0 (new_lock ''L'') server1) = Inr (s', [reply_mail (setIDs 1 2) success_text]) \<and>
    Server_dispatch (hdr_of 0 (setIDs 1 2)) (msg_of ''AQ'' 0 0 0) (msg_of ''HI'' 0 0 0) s' =
      Inr (s', [reply_mail (setIDs 1 2) error_text])"
proof -
  let ?s = "set_lock 0 (new_lock ''L'') server1"
  have "same_objects server1 ?s" by (rule same_objects_updates) (simp add: new_lock_def server1_def)
  then have "server_inv 0 ?s" using same_objects_inv server1_inv by blast
  moreover have "lock_name (serverLockTable ?s 0) = Some ''L''" "owner ?s 0 = NO_OWNER"
    "lock_queue (serverLockTable ?s 0) = []" "box_ok (setIDs 1 2)"
    by (simp_all add: set_lock_def new_lock_def box_ok_def setIDs_def numBoxes_def)
  ultimately show ?thesis using server_destroyed_name [of 0 ?s 0 "''L''" "setIDs 1 2" "msg_of ''HI'' 0 0 0"] by blast
qed

end
