(* ===== verification/Nachos_MsgHandler.thy ===== *)
theory Nachos_MsgHandler
  imports Nachos_Server
begin

text \<open>
  The message handler thread of a server machine (\<open>MessageHandler\<close> of network/nettest.cc).  It asks
  the other servers whether they own an object, counts their answers in a list of messages in
  progress, and answers the questions of the other handlers from its own server's tables.  One
  round maps the list, the server's tables (read only) and the received mail to the new list and
  the mails sent.
\<close>

record InProgressMessage =
  message :: Message
  yesReplies :: int
  noReplies :: int

definition incrementYesReplies :: "int \<Rightarrow> InProgressMessage \<Rightarrow> InProgressMessage" where
  "incrementYesReplies messageID p =
     (if ID (message p) = messageID then p\<lparr>yesReplies := yesReplies p + 1\<rparr> else p)"

definition incrementNoReplies :: "int \<Rightarrow> InProgressMessage \<Rightarrow> InProgressMessage" where
  "incrementNoReplies messageID p =
     (if ID (message p) = messageID then p\<lparr>noReplies := noReplies p + 1\<rparr> else p)"

section \<open>A message from the own server\<close>

text \<open>The buffer is forwarded as received to every other machine.\<close>

fun forward_all :: "int \<Rightarrow> nat \<Rightarrow> string \<Rightarrow> nat \<Rightarrow> nat \<Rightarrow> fault + Mail list" where
  "forward_all me len buf i 0 = Inr []"
| "forward_all me len buf i (Suc n) =
     (if int i = me then forward_all me len buf (Suc i) n
      else bindE (Post_Send (int i) MESSAGE_MAILBOX (Some MESSAGE_MAILBOX) len buf) (\<lambda>m.
           bindE (forward_all me len buf (Suc i) n) (\<lambda>ms. Inr (m # ms))))"

definition handle_own ::
  "int \<Rightarrow> Header \<Rightarrow> nat \<Rightarrow> string \<Rightarrow> Message \<Rightarrow> InProgressMessage list \<Rightarrow>
   fault + InProgressMessage list \<times> Mail list" where
  "handle_own numServers h len buf m ps =
     (let ps1 = q_append \<lparr>message = m, yesReplies = 0, noReplies = 0\<rparr> ps in
      if numServers = 1 then
        (case q_remove ps1 of
           (None, _) \<Rightarrow> Inl NullPointer
         | (Some p, ps2) \<Rightarrow> bindE (send_msg (pkt_to h) MAILBOX (Some MESSAGE_MAILBOX) (message p)) (\<lambda>mail.
             Inr (ps2, [mail])))
      else bindE (forward_all (pkt_to h) len buf 0 (nat numServers)) (\<lambda>ms. Inr (ps1, ms)))"

section \<open>A question of another message handler\<close>

definition answer_no :: "Message \<Rightarrow> Message" where
  "answer_no m = m\<lparr>request := CHR ''N'' # CHR ''O'' # drop 2 (request m)\<rparr>"

definition answer_yes :: "Message \<Rightarrow> Message" where
  "answer_yes m = m\<lparr>request := CHR ''Y'' # CHR ''S'' # drop 2 (request m)\<rparr>"

text \<open>
  \<open>create\<close> tells whether the request creates the object (\<open>idx\<close> is then found by name), \<open>nm\<close> reads
  the name in the table slot.  If the object is here the request goes to our own server and the
  answer is yes.
\<close>

definition answer_question ::
  "Header \<Rightarrow> Message \<Rightarrow> bool \<Rightarrow> int \<Rightarrow> (int \<Rightarrow> fault + string option) \<Rightarrow> fault + Message \<times> Mail list" where
  "answer_question h m create idx nm =
     (if idx = -1 \<and> create then Inr (answer_no m, [])
      else bindE (nm idx) (\<lambda>x.
        if x = None then Inr (answer_no m, [])
        else bindE (send_msg (pkt_to h) MAILBOX (Some MESSAGE_MAILBOX) m) (\<lambda>mail. Inr (answer_yes m, [mail]))))"

definition handle_lock :: "Header \<Rightarrow> Message \<Rightarrow> server \<Rightarrow> fault + Message \<times> Mail list" where
  "handle_lock h m s =
     bindE (if strstr (request m) ''CL'' then findLockByName (name m) (pkt_to h) s else Inr (index m)) (\<lambda>idx.
     answer_question h m (strstr (request m) ''CL'') idx (\<lambda>i. bindE (get_lock s i) (\<lambda>L. Inr (lock_name L))))"

definition handle_condition :: "Header \<Rightarrow> Message \<Rightarrow> server \<Rightarrow> fault + Message \<times> Mail list" where
  "handle_condition h m s =
     bindE (if strstr (request m) ''CC'' then findConditionByName (name m) (pkt_to h) s else Inr (index m)) (\<lambda>idx.
     answer_question h m (strstr (request m) ''CC'') idx (\<lambda>i. bindE (get_cond s i) (\<lambda>C. Inr (cond_name C))))"

definition handle_mv :: "Header \<Rightarrow> Message \<Rightarrow> server \<Rightarrow> fault + Message \<times> Mail list" where
  "handle_mv h m s =
     bindE (if strstr (request m) ''CM'' then findMonitorVariableByName (name m) (pkt_to h) s else Inr (index m)) (\<lambda>idx.
     answer_question h m (strstr (request m) ''CM'') idx (\<lambda>i. bindE (get_mv s i) (\<lambda>V. Inr (mv_name V))))"

section \<open>An answer of another message handler\<close>

definition count_reply :: "Message \<Rightarrow> InProgressMessage list \<Rightarrow> InProgressMessage list" where
  "count_reply m ps =
     (if strstr (request m) ''NO'' then map (incrementNoReplies (ID m)) ps
      else if strstr (request m) ''YS'' then map (incrementYesReplies (ID m)) ps else ps)"

text \<open>Only the message at the front of the list is looked at.\<close>

definition handle_reply ::
  "int \<Rightarrow> Header \<Rightarrow> Message \<Rightarrow> InProgressMessage list \<Rightarrow> fault + InProgressMessage list \<times> Mail list" where
  "handle_reply numServers h m ps =
     (let ps1 = count_reply m ps in
      case q_remove ps1 of
        (None, ps2) \<Rightarrow> Inr (ps2, [])
      | (Some p, ps2) \<Rightarrow>
          if yesReplies p + noReplies p = numServers - 1 then
            if yesReplies p = 1 then Inr (ps2, [])
            else if noReplies p = numServers - 1 then
              if clientMailbox m = 9 then
                bindE (send_msg (clientMachine m) (clientMailbox m) (Some MESSAGE_MAILBOX)
                         (reply ''error'' (-1) (-1) (-1))) (\<lambda>mail. Inr (ps2, [mail]))
              else bindE (send_msg (pkt_to h) MAILBOX (Some MESSAGE_MAILBOX) (message p)) (\<lambda>mail.
                     Inr (ps2, [mail]))
            else Inr (ps2, [])
          else Inr (p # ps2, []))"

section \<open>One round\<close>

definition MessageHandler_msg ::
  "int \<Rightarrow> Header \<Rightarrow> nat \<Rightarrow> string \<Rightarrow> Message \<Rightarrow> server \<Rightarrow> InProgressMessage list \<Rightarrow>
   fault + InProgressMessage list \<times> Mail list" where
  "MessageHandler_msg numServers h len buf m s ps =
     (let req = (\<lambda>n. strstr (request m) n);
          reply_with = (\<lambda>r. bindE r (\<lambda>(m', ms).
             bindE (send_msg (pkt_from h) (mail_from h) (Some MESSAGE_MAILBOX) m') (\<lambda>mail. Inr (ps, ms @ [mail])))) in
      if pkt_from h = pkt_to h then handle_own numServers h len buf m ps
      else if req ''CL'' \<or> req ''DL'' \<or> req ''RL'' \<or> req ''AQ'' then reply_with (handle_lock h m s)
      else if req ''CC'' \<or> req ''DC'' \<or> req ''WT'' \<or> req ''SG'' \<or> req ''BC'' then reply_with (handle_condition h m s)
      else if req ''CM'' \<or> req ''DM'' \<or> req ''GM'' \<or> req ''SM'' then reply_with (handle_mv h m s)
      else if req ''NO'' \<or> req ''YS'' then handle_reply numServers h m ps
      else Inr (ps, []))"

definition MessageHandler_round ::
  "int \<Rightarrow> Header \<Rightarrow> nat \<Rightarrow> string \<Rightarrow> server \<Rightarrow> InProgressMessage list \<Rightarrow>
   fault + InProgressMessage list \<times> Mail list" where
  "MessageHandler_round numServers h len buf s ps =
     bindE (decodeMessage buf) (\<lambda>m. MessageHandler_msg numServers h len buf m s ps)"

section \<open>Counting answers\<close>

text \<open>An answer, as a decoded message: \<open>True\<close> for yes.\<close>

definition reply_to :: "Message \<Rightarrow> bool \<Rightarrow> Message" where
  "reply_to q yes = q\<lparr>request := if yes then ''YS'' else ''NO''\<rparr>"

lemma reply_to_simps [simp]:
  "ID (reply_to q y) = ID q" "clientMailbox (reply_to q y) = clientMailbox q"
  "strstr (request (reply_to q True)) ''YS''" "\<not> strstr (request (reply_to q True)) ''NO''"
  "strstr (request (reply_to q False)) ''NO''"
  by (simp_all add: reply_to_def)

lemma count_reply_to:
  "count_reply (reply_to q y) ps = map (if y then incrementYesReplies (ID q) else incrementNoReplies (ID q)) ps"
  by (cases y) (simp_all add: count_reply_def)

fun answers :: "int \<Rightarrow> Header \<Rightarrow> Message list \<Rightarrow> InProgressMessage list \<Rightarrow>
    fault + InProgressMessage list \<times> Mail list" where
  "answers n h [] ps = Inr (ps, [])"
| "answers n h (m # ms) ps = bindE (handle_reply n h m ps) (\<lambda>(ps1, o1).
     bindE (answers n h ms ps1) (\<lambda>(ps2, o2). Inr (ps2, o1 @ o2)))"

lemma one_answer:
  assumes "ID (message p) = ID q" "yesReplies p + noReplies p + 1 < n - 1"
  shows "handle_reply n h (reply_to q y) [p] =
    Inr ([p\<lparr>yesReplies := yesReplies p + (if y then 1 else 0), noReplies := noReplies p + (if y then 0 else 1)\<rparr>], [])"
  using assms
  by (cases y) (simp_all add: handle_reply_def count_reply_to incrementYesReplies_def incrementNoReplies_def)

definition decide :: "int \<Rightarrow> Header \<Rightarrow> Message \<Rightarrow> int \<Rightarrow> fault + InProgressMessage list \<times> Mail list" where
  "decide n h q yes =
     (if yes = 0 then bindE (send_msg (pkt_to h) MAILBOX (Some MESSAGE_MAILBOX) q) (\<lambda>mail. Inr ([], [mail]))
      else Inr ([], []))"

lemma last_answer:
  assumes "message p = q" "yesReplies p + noReplies p + 1 = n - 1" "clientMailbox q \<noteq> 9"
    "0 \<le> yesReplies p" "0 \<le> noReplies p"
  shows "handle_reply n h (reply_to q y) [p] = decide n h q (yesReplies p + (if y then 1 else 0))"
  using assms
  by (cases y)
    (auto simp: handle_reply_def count_reply_to incrementYesReplies_def incrementNoReplies_def decide_def)

lemma all_answers:
  assumes "message p = q" "clientMailbox q \<noteq> 9" "0 \<le> yesReplies p" "0 \<le> noReplies p" "ys \<noteq> []"
    "yesReplies p + noReplies p + int (length ys) = n - 1"
  shows "answers n h (map (reply_to q) ys) [p] = decide n h q (yesReplies p + int (length (filter (\<lambda>a. a) ys)))"
  using assms
proof (induction ys arbitrary: p)
  case Nil
  then show ?case by simp
next
  case (Cons y ys)
  show ?case
  proof (cases "ys = []")
    case True
    have "handle_reply n h (reply_to q y) [p] = decide n h q (yesReplies p + (if y then 1 else 0))"
      by (rule last_answer) (use Cons.prems True in auto)
    moreover have "bindE (decide n h q k) (\<lambda>(ps1, o1). Inr (ps1, o1)) = decide n h q k" for k
      by (cases "decide n h q k") auto
    ultimately show ?thesis using True by simp
  next
    case False
    let ?p = "p\<lparr>yesReplies := yesReplies p + (if y then 1 else 0), noReplies := noReplies p + (if y then 0 else 1)\<rparr>"
    have "handle_reply n h (reply_to q y) [p] = Inr ([?p], [])"
      by (rule one_answer) (use Cons.prems False in \<open>auto simp: Suc_le_eq\<close>)
    moreover have "answers n h (map (reply_to q) ys) [?p] = decide n h q (yesReplies ?p + int (length (filter (\<lambda>a. a) ys)))"
      by (rule Cons.IH) (use Cons.prems False in auto)
    moreover have "bindE (decide n h q k) (\<lambda>(ps1, o1). Inr (ps1, o1)) = decide n h q k" for k
      by (cases "decide n h q k") auto
    ultimately show ?thesis by (simp add: algebra_simps)
  qed
qed

section \<open>Properties\<close>

text \<open>
  C20 A message alone in progress is decided by the answers of all other servers, in whatever order
  they come: nothing is sent before the last one; then, if all said no, the message goes to the own
  server exactly once, and if any server said yes it is dropped.
\<close>

theorem handler_decides:
  assumes "n \<ge> 2" and "int (length ys) = n - 1" and "clientMailbox q \<noteq> 9" and "k < length ys"
  shows "answers n h (map (reply_to q) ys) [\<lparr>message = q, yesReplies = 0, noReplies = 0\<rparr>] =
      (if True \<in> set ys then Inr ([], [])
       else bindE (send_msg (pkt_to h) MAILBOX (Some MESSAGE_MAILBOX) q) (\<lambda>mail. Inr ([], [mail]))) \<and>
    (\<exists>p. answers n h (map (reply_to q) (take k ys)) [\<lparr>message = q, yesReplies = 0, noReplies = 0\<rparr>] = Inr ([p], []))"
proof
  let ?p0 = "\<lparr>message = q, yesReplies = 0, noReplies = 0\<rparr>"
  have "ys \<noteq> []" using assms(1,2) by auto
  then have "answers n h (map (reply_to q) ys) [?p0] = decide n h q (int (length (filter (\<lambda>a. a) ys)))"
    using all_answers [of ?p0 q ys n h] assms(2,3) by simp
  moreover have "filter (\<lambda>a. a) ys = [] \<longleftrightarrow> True \<notin> set ys" by (auto simp: filter_empty_conv)
  ultimately show "answers n h (map (reply_to q) ys) [?p0] =
      (if True \<in> set ys then Inr ([], [])
       else bindE (send_msg (pkt_to h) MAILBOX (Some MESSAGE_MAILBOX) q) (\<lambda>mail. Inr ([], [mail])))"
    by (simp add: decide_def)
  have "\<exists>p. answers n h (map (reply_to q) zs) [p0] = Inr ([p], [])"
    if "ID (message p0) = ID q" "yesReplies p0 + noReplies p0 + int (length zs) < n - 1" for zs p0
    using that
  proof (induction zs arbitrary: p0)
    case Nil
    then show ?case by simp
  next
    case (Cons z zs)
    let ?p = "p0\<lparr>yesReplies := yesReplies p0 + (if z then 1 else 0), noReplies := noReplies p0 + (if z then 0 else 1)\<rparr>"
    have "handle_reply n h (reply_to q z) [p0] = Inr ([?p], [])"
      by (rule one_answer) (use Cons.prems in auto)
    moreover have "\<exists>p. answers n h (map (reply_to q) zs) [?p] = Inr ([p], [])"
      by (rule Cons.IH) (use Cons.prems in auto)
    ultimately show ?case by auto
  qed
  from this [of ?p0 "take k ys"] show "\<exists>p. answers n h (map (reply_to q) (take k ys)) [?p0] = Inr ([p], [])"
    using assms(2,4) by simp
qed

definition question :: "int \<Rightarrow> Message" where
  "question i = (msg_of ''CL'' (-1) (-1) (-1))\<lparr>ID := i, clientMachine := 2, clientMailbox := 1\<rparr>"

theorem handler_decides_witness:
  "answers 3 (hdr 1 1) (map (reply_to (question 100)) [False, True])
     [\<lparr>message = question 100, yesReplies = 0, noReplies = 0\<rparr>] = Inr ([], [])"
proof -
  have "clientMailbox (question 100) \<noteq> 9" by (simp add: question_def)
  with handler_decides [of 3 "[False, True]" "question 100" 0 "hdr 1 1"] show ?thesis by simp
qed

text \<open>
  A message can get stuck behind another one.  With two servers and two messages in progress, when
  the only other server answers no to the second before it answers no to the first, the first is
  forwarded to the own server but the second stays in the list, with all its answers counted.
\<close>

theorem handler_stuck:
  assumes "ID q1 \<noteq> ID q2" and "clientMailbox q1 \<noteq> 9"
    and "send_msg (pkt_to h) MAILBOX (Some MESSAGE_MAILBOX) q1 = Inr mail"
  shows "answers 2 h [reply_to q2 False, reply_to q1 False]
      [\<lparr>message = q1, yesReplies = 0, noReplies = 0\<rparr>, \<lparr>message = q2, yesReplies = 0, noReplies = 0\<rparr>] =
    Inr ([\<lparr>message = q2, yesReplies = 0, noReplies = 1\<rparr>], [mail])"
  using assms by (simp add: handle_reply_def count_reply_to incrementNoReplies_def)

lemma show_100: "show_int 100 = ''100''" "show_int 2 = ''2''" "show_int (-1) = ''-1''" "show_int 1 = ''1''"
  by (simp_all add: show_int_def show_small)

theorem handler_stuck_witness:
  "\<exists>mail. answers 2 (hdr 1 1) [reply_to (question 101) False, reply_to (question 100) False]
      [\<lparr>message = question 100, yesReplies = 0, noReplies = 0\<rparr>, \<lparr>message = question 101, yesReplies = 0, noReplies = 0\<rparr>] =
    Inr ([\<lparr>message = question 101, yesReplies = 0, noReplies = 1\<rparr>], [mail])"
proof -
  have "ID (question 100) \<noteq> ID (question 101)" "clientMailbox (question 100) \<noteq> 9"
    by (simp_all add: question_def)
  moreover obtain mail where "send_msg (pkt_to (hdr 1 1)) MAILBOX (Some MESSAGE_MAILBOX) (question 100) = Inr mail"
    by (simp add: send_msg_def msgPrepare_def msg_text_def question_def msg_of_def space_def show_100
        MaxMailSize_def Post_Send_def MAILBOX_def numBoxes_def)
  ultimately show ?thesis using handler_stuck by blast
qed

text \<open>
  A question about an existing object is answered yes and passed on: when this server has a lock of
  the name asked for, the handler sends the request to its own server and then \<open>YS\<close> back to the
  handler that asked; when it has none it only answers \<open>NO\<close>.  Its list of messages is unchanged.
\<close>

theorem handler_answers_create:
  assumes "server_inv (pkt_to h) s" and "pkt_from h \<noteq> pkt_to h" and "request m = ''CL''"
  shows "MessageHandler_msg n h len buf m s ps =
    (if \<exists>l. lock_name (serverLockTable s l) = Some (name m)
     then bindE (send_msg (pkt_to h) MAILBOX (Some MESSAGE_MAILBOX) m) (\<lambda>fwd.
          bindE (send_msg (pkt_from h) (mail_from h) (Some MESSAGE_MAILBOX) (m\<lparr>request := ''YS''\<rparr>)) (\<lambda>ans.
          Inr (ps, [fwd, ans])))
     else bindE (send_msg (pkt_from h) (mail_from h) (Some MESSAGE_MAILBOX) (m\<lparr>request := ''NO''\<rparr>)) (\<lambda>ans.
          Inr (ps, [ans])))"
proof -
  consider l where "lock_name (serverLockTable s l) = Some (name m)" "l \<noteq> -1"
      "findLockByName (name m) (pkt_to h) s = Inr l"
    | "\<forall>l. lock_name (serverLockTable s l) \<noteq> Some (name m)" "findLockByName (name m) (pkt_to h) s = Inr (-1)"
    using findLock_spec [OF assms(1), of "name m"] by blast
  then show ?thesis
  proof cases
    case 1
    have "0 \<le> l \<and> l < 5000" using 1(1) assms(1) by (auto simp: server_inv_def names_ok_def)
    then have "get_lock s l = Inr (serverLockTable s l)" by (simp add: slot_get_def MAX_SERVERLOCKS_def)
    then have "handle_lock h m s = bindE (send_msg (pkt_to h) MAILBOX (Some MESSAGE_MAILBOX) m)
        (\<lambda>mail. Inr (m\<lparr>request := ''YS''\<rparr>, [mail]))"
      using 1 assms(3) by (simp add: handle_lock_def answer_question_def answer_yes_def)
    moreover have "\<exists>l. lock_name (serverLockTable s l) = Some (name m)" using 1(1) by blast
    ultimately show ?thesis using assms(2,3)
      by (cases "send_msg (pkt_to h) MAILBOX (Some MESSAGE_MAILBOX) m") (simp_all add: MessageHandler_msg_def)
  next
    case 2
    then have "handle_lock h m s = Inr (m\<lparr>request := ''NO''\<rparr>, [])"
      using assms(3) by (simp add: handle_lock_def answer_question_def answer_no_def)
    with 2 assms(2,3) show ?thesis by (simp add: MessageHandler_msg_def)
  qed
qed

theorem handler_answers_create_witness:
  "MessageHandler_msg 2 (hdr 1 1) 40 ''x'' (question 100) server1 [] =
     bindE (send_msg 1 1 (Some 1) (question 100\<lparr>request := ''NO''\<rparr>)) (\<lambda>ans. Inr ([], [ans]))"
proof -
  have "\<not> (\<exists>l. lock_name (serverLockTable server1 l) = Some (name (question 100)))"
    by (simp add: server1_def Server_init_def question_def msg_of_def)
  with handler_answers_create [of "hdr 1 1" server1 "question 100" 2 40 "''x''" "[]"] server1_inv
  show ?thesis by (simp add: hdr_def question_def direct_client MESSAGE_MAILBOX_def)
qed

end
