(* ===== verification/Nachos_VM.thy ===== *)
theory Nachos_VM
  imports Nachos_Bitmap Nachos_Bytes Nachos_List
begin

text \<open>
  Demand-paged virtual memory: the inverted page table (threads/system.cc), the TLB operations and
  address-space construction (userprog/addrspace.cc), \<open>HandlePageFault\<close> (userprog/exception.cc) and
  address translation with its memory accesses (machine/translate.cc, in the \<open>USE_TLB\<close>
  configuration of this code).  Pages have 128 bytes, memory 32 frames, the TLB 4 entries.  Main
  memory, the swap file and the executables are byte sequences; a file read copies the bytes that
  are there.
\<close>

section \<open>Data\<close>

definition PageSize :: nat where "PageSize = 128"
definition NumPhysPages :: nat where "NumPhysPages = 32"
definition TLBSize :: nat where "TLBSize = 4"
definition NumSwapPages :: int where "NumSwapPages = 10000"

record TranslationEntry =
  virtualPage :: int
  physicalPage :: int
  valid :: bool
  readOnly :: bool
  use :: bool
  dirty :: bool

record IPTTranslationEntry = TranslationEntry +
  processID :: int

datatype PageType = CODE | DATA | STACK

datatype PageLocation = SWAP_FILE | EXECUTABLE

text \<open>
  A page-table entry.  Fields that a routine leaves uninitialised are \<open>None\<close>.
\<close>

record PTTranslationEntry = TranslationEntry +
  pageType :: "PageType option"
  ptPageLocation :: "PageLocation option"
  executableByteOffset :: "32 word"
  swapByteOffset :: "32 word"

datatype PageReplacementPolicy = FIFO | RAND

record vm =
  mainMemory :: "byte list"
  tlb :: "TranslationEntry list"
  ipt :: "IPTTranslationEntry list"
  iptQueue :: "int list"
  swapFile :: "byte list"
  swapFileMap :: BitMap
  swapArray :: "int \<Rightarrow> int \<Rightarrow> int"
  pageLocation :: "int \<Rightarrow> int \<Rightarrow> int"
  nextTLB :: int
  pageTables :: "int \<Rightarrow> PTTranslationEntry list"
  executables :: "int \<Rightarrow> byte list"

section \<open>Files and memory\<close>

text \<open>\<open>ReadAt\<close> gives the bytes of the file in the range, \<open>WriteAt\<close> extends the file as needed.\<close>

definition ReadAt :: "byte list \<Rightarrow> nat \<Rightarrow> nat \<Rightarrow> byte list" where
  "ReadAt f n pos = take n (drop pos f)"

definition WriteAt :: "byte list \<Rightarrow> byte list \<Rightarrow> nat \<Rightarrow> byte list" where
  "WriteAt f bs pos = take pos f @ replicate (pos - length f) 0 @ bs @ drop (pos + length bs) f"

text \<open>The bytes of a page frame.\<close>

definition frame_bytes :: "nat \<Rightarrow> byte list \<Rightarrow> byte list" where
  "frame_bytes f mem = take PageSize (drop (f * PageSize) mem)"

section \<open>InvertedPageTable (system.cc)\<close>

definition IPT_new :: "IPTTranslationEntry list \<Rightarrow> IPTTranslationEntry list" where
  "IPT_new garbage = map (\<lambda>e. e\<lparr>virtualPage := 0, physicalPage := 0, valid := False\<rparr>) (take NumPhysPages garbage)"

definition searchForEntry :: "int \<Rightarrow> int \<Rightarrow> IPTTranslationEntry list \<Rightarrow> int" where
  "searchForEntry vpn pid t = index_or_m1 (first_from
     (\<lambda>i. virtualPage (t ! i) = vpn \<and> processID (t ! i) = pid \<and> valid (t ! i)) 0 NumPhysPages)"

definition searchForEmptyEntry :: "IPTTranslationEntry list \<Rightarrow> int" where
  "searchForEmptyEntry t = index_or_m1 (first_from (\<lambda>i. \<not> valid (t ! i)) 0 NumPhysPages)"

definition updateEntry :: "int \<Rightarrow> int \<Rightarrow> int \<Rightarrow> bool \<Rightarrow> vm \<Rightarrow> fault + vm" where
  "updateEntry idx vaddr process validBit s =
     bindE (arr_get (ipt s) idx) (\<lambda>e.
     bindE (arr_set (ipt s) idx (e\<lparr>virtualPage := vaddr, physicalPage := idx, processID := process,
              valid := validBit, dirty := False, use := True, readOnly := False\<rparr>)) (\<lambda>t.
     Inr (s\<lparr>ipt := t, iptQueue := q_append idx (iptQueue s)\<rparr>)))"

text \<open>The method named after LRU takes the oldest loaded frame; an empty queue gives the null pointer, 0.\<close>

definition chooseEvictionPageLRU :: "vm \<Rightarrow> int \<times> vm" where
  "chooseEvictionPageLRU s = (let (r, q) = q_remove (iptQueue s) in
     ((case r of None \<Rightarrow> 0 | Some i \<Rightarrow> i), s\<lparr>iptQueue := q\<rparr>))"

text \<open>\<open>draws\<close> are the values of \<open>rand()\<close>; the loop goes on while the drawn frame is in use.\<close>

fun chooseEvictionPageRandom :: "nat list \<Rightarrow> IPTTranslationEntry list \<Rightarrow> fault + int" where
  "chooseEvictionPageRandom [] t = Inl NoReturn"
| "chooseEvictionPageRandom (r # rs) t =
     bindE (arr_get t (int (r mod NumPhysPages))) (\<lambda>e.
     if use e then chooseEvictionPageRandom rs t else Inr (int (r mod NumPhysPages)))"

section \<open>The TLB (addrspace.cc)\<close>

text \<open>The loop of \<open>InvalidateAllTLB\<close>, from entry \<open>i\<close> on.\<close>

fun invalidate_from :: "nat \<Rightarrow> nat \<Rightarrow> vm \<Rightarrow> fault + vm" where
  "invalidate_from i 0 s = Inr s"
| "invalidate_from i (Suc n) s =
     bindE (arr_get (tlb s) (int i)) (\<lambda>e.
     bindE (if valid e
            then bindE (arr_get (ipt s) (physicalPage e)) (\<lambda>p.
                 bindE (arr_set (ipt s) (physicalPage e) (p\<lparr>dirty := dirty e\<rparr>)) (\<lambda>t.
                 Inr (s\<lparr>ipt := t\<rparr>)))
            else Inr s) (\<lambda>s1.
     bindE (arr_set (tlb s1) (int i) (e\<lparr>valid := False\<rparr>)) (\<lambda>t.
     invalidate_from (Suc i) n (s1\<lparr>tlb := t\<rparr>))))"

definition InvalidateAllTLB :: "vm \<Rightarrow> fault + vm" where
  "InvalidateAllTLB s = invalidate_from 0 TLBSize s"

definition SearchForTLBEntry :: "int \<Rightarrow> TranslationEntry list \<Rightarrow> int" where
  "SearchForTLBEntry vpn t =
     index_or_m1 (first_from (\<lambda>i. virtualPage (t ! i) = vpn \<and> valid (t ! i)) 0 TLBSize)"

definition UpdateTLBEntry :: "int \<Rightarrow> int \<Rightarrow> int \<Rightarrow> bool \<Rightarrow> bool \<Rightarrow> bool \<Rightarrow> bool \<Rightarrow> vm \<Rightarrow> fault + vm" where
  "UpdateTLBEntry idx paddr vaddr dirtyBit useBit readOnlyBit validBit s =
     bindE (arr_set (tlb s) idx \<lparr>virtualPage = vaddr, physicalPage = paddr, valid = validBit,
              readOnly = readOnlyBit, use = useBit, dirty = dirtyBit\<rparr>) (\<lambda>t. Inr (s\<lparr>tlb := t\<rparr>))"

section \<open>Address spaces (addrspace.cc)\<close>

definition UserStackSize :: int where "UserStackSize = 1024"
definition NOFFMAGIC :: "32 word" where "NOFFMAGIC = 0xbadfad"

record Segment =
  virtualAddr :: "32 word"
  inFileAddr :: "32 word"
  segSize :: "32 word"

record NoffHeader =
  noffMagic :: "32 word"
  noffCode :: Segment
  initData :: Segment
  uninitData :: Segment

text \<open>The first 40 bytes of an executable; a shorter file leaves part of the header uninitialised.\<close>

definition file_word :: "byte list \<Rightarrow> nat \<Rightarrow> 32 word" where
  "file_word f k = word_of_bytes (ReadAt f 4 (4 * k))"

definition file_segment :: "byte list \<Rightarrow> nat \<Rightarrow> Segment" where
  "file_segment f k = \<lparr>virtualAddr = file_word f k, inFileAddr = file_word f (k + 1), segSize = file_word f (k + 2)\<rparr>"

definition read_header :: "byte list \<Rightarrow> fault + NoffHeader" where
  "read_header f = (if length f < 40 then Inl Uninitialised
     else Inr \<lparr>noffMagic = file_word f 0, noffCode = file_segment f 1,
               initData = file_segment f 4, uninitData = file_segment f 7\<rparr>)"

text \<open>
  On the little-endian host \<open>WordToHost\<close> is the identity, so the header is never swapped.  The
  constructor leaves the \<open>physicalPage\<close> of an entry as the allocation found it: \<open>garbage i\<close>.
\<close>

definition AddrSpace_new :: "(nat \<Rightarrow> int) \<Rightarrow> byte list \<Rightarrow> fault + PTTranslationEntry list" where
  "AddrSpace_new garbage exec =
     bindE (read_header exec) (\<lambda>h.
     bindE (assertE (noffMagic h = NOFFMAGIC)) (\<lambda>_.
     let sz = segSize (noffCode h) + segSize (initData h) + segSize (uninitData h);
         numPages = divRoundUp (uint sz) 128 + divRoundUp UserStackSize 128
     in Inr (map (\<lambda>i. \<lparr>virtualPage = int i, physicalPage = garbage i, valid = False,
          readOnly = False, use = False, dirty = False,
          pageType = None, ptPageLocation = Some EXECUTABLE,
          executableByteOffset = inFileAddr (noffCode h) + of_nat (i * 128),
          swapByteOffset = -1\<rparr>) [0..<nat numPages])))"

text \<open>The two tables of system.cc have ten rows of a thousand entries.\<close>

definition table2_ok :: "int \<Rightarrow> int \<Rightarrow> bool" where
  "table2_ok pid vpn \<longleftrightarrow> 0 \<le> pid \<and> pid < 10 \<and> 0 \<le> vpn \<and> vpn < 1000"

definition get2 :: "(int \<Rightarrow> int \<Rightarrow> int) \<Rightarrow> int \<Rightarrow> int \<Rightarrow> fault + int" where
  "get2 t pid vpn = (if table2_ok pid vpn then Inr (t pid vpn) else Inl OutOfBounds)"

definition set2 :: "(int \<Rightarrow> int \<Rightarrow> int) \<Rightarrow> int \<Rightarrow> int \<Rightarrow> int \<Rightarrow> fault + (int \<Rightarrow> int \<Rightarrow> int)" where
  "set2 t pid vpn v = (if table2_ok pid vpn then Inr (t(pid := (t pid)(vpn := v))) else Inl OutOfBounds)"

text \<open>Marking the eight new stack pages of \<open>MakeNewPT\<close>.\<close>

fun mark_stack :: "int \<Rightarrow> nat \<Rightarrow> nat \<Rightarrow> (int \<Rightarrow> int \<Rightarrow> int) \<Rightarrow> fault + (int \<Rightarrow> int \<Rightarrow> int)" where
  "mark_stack pid i 0 t = Inr t"
| "mark_stack pid i (Suc n) t = bindE (set2 t pid (int i) 2) (mark_stack pid (Suc i) n)"

definition MakeNewPT :: "(nat \<Rightarrow> int) \<Rightarrow> int \<Rightarrow> vm \<Rightarrow> fault + int \<times> vm" where
  "MakeNewPT garbage pid s =
     (let pt = pageTables s pid; n = length pt in
      bindE (mark_stack pid n 8 (pageLocation s)) (\<lambda>pl.
      let pt2 = map (\<lambda>i. (pt ! i)\<lparr>physicalPage := garbage i\<rparr>) [0..<n] @ map (\<lambda>i. \<lparr>virtualPage = int i, physicalPage = garbage i, valid = False,
             readOnly = False, use = False, dirty = False,
             pageType = Some STACK, ptPageLocation = None,
             executableByteOffset = -1, swapByteOffset = -1\<rparr>) [n..<n + 8] in
      Inr (int (n + 8) * 128 - 16, s\<lparr>pageTables := (pageTables s)(pid := pt2), pageLocation := pl\<rparr>)))"

text \<open>
  \<open>DestroyStack\<close> clears the bits of the physical pages of eight page-table entries in \<open>pageMap\<close>;
  entry 0 is left out.
\<close>

fun clear_stack :: "int \<Rightarrow> nat \<Rightarrow> PTTranslationEntry list \<Rightarrow> BitMap \<Rightarrow> fault + BitMap" where
  "clear_stack a 0 pt pm = Inr pm"
| "clear_stack a (Suc n) pt pm =
     bindE (if a > 0 then bindE (arr_get pt a) (\<lambda>e. BitMap_Clear (physicalPage e) pm) else Inr pm)
       (clear_stack (a + 1) n pt)"

definition DestroyStack :: "int \<Rightarrow> PTTranslationEntry list \<Rightarrow> BitMap \<Rightarrow> fault + BitMap" where
  "DestroyStack i pt pm = clear_stack (cdiv (i + 16) 128 - 8) 8 pt pm"

section \<open>HandlePageFault (exception.cc)\<close>

definition choose_victim :: "PageReplacementPolicy \<Rightarrow> nat list \<Rightarrow> vm \<Rightarrow> fault + int \<times> vm" where
  "choose_victim policy draws s =
     (if policy = RAND then bindE (chooseEvictionPageRandom draws (ipt s)) (\<lambda>i. Inr (i, s))
      else Inr (chooseEvictionPageLRU s))"

text \<open>The victim's dirty bit is taken from the TLB entry with the victim's page number, if there is one.\<close>

definition collect_dirty :: "int \<Rightarrow> vm \<Rightarrow> fault + vm" where
  "collect_dirty v s =
     bindE (arr_get (ipt s) v) (\<lambda>e.
     let k = SearchForTLBEntry (virtualPage e) (tlb s) in
     if k \<noteq> -1 then
       bindE (arr_get (tlb s) k) (\<lambda>te.
       bindE (arr_set (ipt s) v (e\<lparr>dirty := dirty te\<rparr>)) (\<lambda>t.
       bindE (arr_set (tlb s) k (te\<lparr>valid := False\<rparr>)) (\<lambda>tl.
       Inr (s\<lparr>ipt := t, tlb := tl\<rparr>))))
     else Inr s)"

definition write_victim :: "int \<Rightarrow> vm \<Rightarrow> fault + vm" where
  "write_victim v s =
     bindE (arr_get (ipt s) v) (\<lambda>e.
     if dirty e then
       bindE (BitMap_Find (swapFileMap s)) (\<lambda>(k, sm).
       if k = -1 then Inl Halted
       else
         bindE (set2 (swapArray s) (processID e) (virtualPage e) (k * 128)) (\<lambda>sa.
         bindE (set2 (pageLocation s) (processID e) (virtualPage e) 1) (\<lambda>pl.
         Inr (s\<lparr>swapFileMap := sm, swapArray := sa, pageLocation := pl,
                swapFile := WriteAt (swapFile s) (frame_bytes (nat v) (mainMemory s)) (nat (k * 128))\<rparr>))))
     else Inr s)"

text \<open>
  Filling the frame: from the executable, from the swap file, or not at all.  The third branch of
  the source, which would clear a stack page, repeats the test of the second and is never taken.
\<close>

definition fill_frame :: "int \<Rightarrow> int \<Rightarrow> int \<Rightarrow> vm \<Rightarrow> fault + vm" where
  "fill_frame cur vpn f s =
     bindE (get2 (pageLocation s) cur vpn) (\<lambda>l.
     if l = 0 then
       Inr (s\<lparr>mainMemory := store_bytes (nat f * PageSize)
                 (ReadAt (executables s cur) PageSize (nat (40 + vpn * 128))) (mainMemory s)\<rparr>)
     else if l = 1 then
       bindE (get2 (swapArray s) cur vpn) (\<lambda>off.
       if off < 0 then Inl OutOfBounds
       else Inr (s\<lparr>mainMemory := store_bytes (nat f * PageSize)
                 (ReadAt (swapFile s) PageSize (nat off)) (mainMemory s)\<rparr>))
     else if l = 1 then
       Inr (s\<lparr>mainMemory := store_bytes (nat f * PageSize) (replicate PageSize 48) (mainMemory s)\<rparr>)
     else Inr s)"

definition mark_loaded :: "int \<Rightarrow> int \<Rightarrow> vm \<Rightarrow> fault + vm" where
  "mark_loaded cur vpn s =
     bindE (arr_get (pageTables s cur) vpn) (\<lambda>e.
     bindE (arr_set (pageTables s cur) vpn (e\<lparr>valid := True, dirty := False\<rparr>)) (\<lambda>pt.
     Inr (s\<lparr>pageTables := (pageTables s)(cur := pt)\<rparr>)))"

text \<open>The first half: make the page resident and find its frame.\<close>

definition PageFault_load :: "PageReplacementPolicy \<Rightarrow> nat list \<Rightarrow> int \<Rightarrow> int \<Rightarrow> vm \<Rightarrow> fault + int \<times> vm" where
  "PageFault_load policy draws cur vpn s =
     (let i = searchForEntry vpn cur (ipt s) in
      if i \<noteq> -1 then Inr (i, s)
      else
        let j = searchForEmptyEntry (ipt s) in
        bindE (if j = -1 then
                 bindE (choose_victim policy draws s) (\<lambda>(v, s1).
                 bindE (collect_dirty v s1) (\<lambda>s2.
                 bindE (write_victim v s2) (\<lambda>s3. Inr (v, s3))))
               else Inr (j, s)) (\<lambda>(f, s4).
        bindE (fill_frame cur vpn f s4) (\<lambda>s5.
        bindE (mark_loaded cur vpn s5) (\<lambda>s6.
        bindE (updateEntry f vpn cur True s6) (\<lambda>s7. Inr (f, s7))))))"

text \<open>
  The second half: the TLB entry to be replaced gives its dirty bit to the inverted page table,
  the \<open>use\<close> bit of its page is cleared, and the entry is overwritten.  Both table writes use the
  result of a search that may be \<open>-1\<close>.
\<close>

definition PageFault_tlb :: "int \<Rightarrow> int \<Rightarrow> vm \<Rightarrow> fault + vm" where
  "PageFault_tlb cur f s =
     bindE (arr_get (tlb s) (nextTLB s)) (\<lambda>te.
     bindE (if valid te \<and> dirty te then
              let k = searchForEntry (virtualPage te) cur (ipt s) in
              bindE (arr_get (ipt s) k) (\<lambda>e.
              bindE (arr_set (ipt s) k (e\<lparr>dirty := dirty te\<rparr>)) (\<lambda>t. Inr (s\<lparr>ipt := t\<rparr>)))
            else Inr s) (\<lambda>s1.
     let u = searchForEntry (virtualPage te) cur (ipt s1) in
     bindE (arr_get (ipt s1) u) (\<lambda>e.
     bindE (arr_set (ipt s1) u (e\<lparr>use := False\<rparr>)) (\<lambda>t.
     let s2 = s1\<lparr>ipt := t\<rparr> in
     bindE (arr_get (ipt s2) f) (\<lambda>p.
     bindE (UpdateTLBEntry (nextTLB s2) (physicalPage p) (virtualPage p) (dirty p) False False True s2) (\<lambda>s3.
     Inr (s3\<lparr>nextTLB := (nextTLB s3 + 1) mod int TLBSize\<rparr>)))))))"

definition HandlePageFault :: "PageReplacementPolicy \<Rightarrow> nat list \<Rightarrow> int \<Rightarrow> int \<Rightarrow> vm \<Rightarrow> fault + vm" where
  "HandlePageFault policy draws cur badVAddr s =
     (let vpn = cdiv badVAddr 128 in
      bindE (PageFault_load policy draws cur vpn s) (\<lambda>(f, s1). PageFault_tlb cur f s1))"

section \<open>Translation and memory access (translate.cc)\<close>

datatype ExceptionType =
    NoException | SyscallException | PageFaultException | ReadOnlyException | BusErrorException
  | AddressErrorException | OverflowException | IllegalInstrException

definition Translate :: "32 word \<Rightarrow> nat \<Rightarrow> bool \<Rightarrow> vm \<Rightarrow> fault + ExceptionType \<times> nat \<times> vm" where
  "Translate virtAddr sz writing s =
     (if (sz = 4 \<and> virtAddr AND 3 \<noteq> 0) \<or> (sz = 2 \<and> virtAddr AND 1 \<noteq> 0)
      then Inr (AddressErrorException, 0, s)
      else
        let vpn = unat virtAddr div PageSize; offset = unat virtAddr mod PageSize in
        case first_from (\<lambda>i. valid (tlb s ! i) \<and> virtualPage (tlb s ! i) = int vpn) 0 TLBSize of
          None \<Rightarrow> Inr (PageFaultException, 0, s)
        | Some i \<Rightarrow>
            let entry = tlb s ! i in
            if readOnly entry \<and> writing then Inr (ReadOnlyException, 0, s)
            else if \<not> (0 \<le> physicalPage entry \<and> physicalPage entry < int NumPhysPages)
            then Inr (BusErrorException, 0, s)
            else
              let pa = nat (physicalPage entry) * PageSize + offset;
                  e1 = entry\<lparr>use := True, dirty := (writing \<or> dirty entry)\<rparr> in
              bindE (assertE (pa + sz \<le> NumPhysPages * PageSize)) (\<lambda>_.
              Inr (NoException, pa, s\<lparr>tlb := (tlb s)[i := e1]\<rparr>)))"

text \<open>A byte is read as a signed \<open>char\<close>.\<close>

definition ReadMem :: "32 word \<Rightarrow> nat \<Rightarrow> vm \<Rightarrow> fault + (ExceptionType + 32 word) \<times> vm" where
  "ReadMem addr sz s =
     bindE (Translate addr sz False s) (\<lambda>(ex, pa, s1).
     if ex \<noteq> NoException then Inr (Inl ex, s1)
     else if sz = 1 then Inr (Inr (scast (mainMemory s1 ! pa)), s1)
     else if sz = 2 then Inr (Inr (word_of_bytes (take 2 (drop pa (mainMemory s1)))), s1)
     else if sz = 4 then Inr (Inr (word_of_bytes (take 4 (drop pa (mainMemory s1)))), s1)
     else Inl AssertFailed)"

definition WriteMem :: "32 word \<Rightarrow> nat \<Rightarrow> 32 word \<Rightarrow> vm \<Rightarrow> fault + ExceptionType \<times> vm" where
  "WriteMem addr sz v s =
     bindE (Translate addr sz True s) (\<lambda>(ex, pa, s1).
     if ex \<noteq> NoException then Inr (ex, s1)
     else if sz = 1 \<or> sz = 2 \<or> sz = 4 then
       Inr (NoException, s1\<lparr>mainMemory := store_bytes pa (bytes_of_word sz v) (mainMemory s1)\<rparr>)
     else Inl AssertFailed)"

end
