(* ===== verification/Nachos_Paging.thy ===== *)
theory Nachos_Paging
  imports Nachos_VM
begin

text \<open>
  The invariant of virtual memory and what each step of a page fault does to it.  The abstract
  memory \<open>page_bytes\<close> gives the bytes of every page of every process, wherever they are kept: in a
  frame when the page was written to since it was loaded, in the executable or the swap file
  otherwise.  Eviction (\<open>collect_dirty\<close>, \<open>write_victim\<close>) and loading (\<open>fill_frame\<close>, \<open>mark_loaded\<close>,
  \<open>updateEntry\<close>) are shown to keep it.
\<close>

section \<open>Bytes\<close>

lemma WriteAt_nth:
  "i < pos + length bs \<or> i < length f \<Longrightarrow>
   WriteAt f bs pos ! i = (if i < pos then if i < length f then f ! i else 0
                           else if i < pos + length bs then bs ! (i - pos) else f ! i)"
  by (auto simp: WriteAt_def nth_append min_def)

lemma WriteAt_length: "length (WriteAt f bs pos) = max (length f) (pos + length bs)"
  by (auto simp: WriteAt_def)

lemma ReadAt_WriteAt_same: "ReadAt (WriteAt f bs pos) (length bs) pos = bs"
  by (rule nth_equalityI) (auto simp: ReadAt_def WriteAt_length WriteAt_nth)

lemma ReadAt_WriteAt_other:
  assumes "q + n \<le> length f" "q + n \<le> pos \<or> pos + length bs \<le> q"
  shows "ReadAt (WriteAt f bs pos) n q = ReadAt f n q"
  by (rule nth_equalityI) (use assms in \<open>auto simp: ReadAt_def WriteAt_length WriteAt_nth\<close>)

lemma frame_bytes_length [simp]:
  "length mem = 4096 \<Longrightarrow> f < 32 \<Longrightarrow> length (frame_bytes f mem) = 128"
  by (simp add: frame_bytes_def PageSize_def)

lemma frame_bytes_nth:
  "length mem = 4096 \<Longrightarrow> f < 32 \<Longrightarrow> i < 128 \<Longrightarrow> frame_bytes f mem ! i = mem ! (f * 128 + i)"
  by (simp add: frame_bytes_def PageSize_def)

lemma frame_bytes_store_other:
  assumes "length mem = 4096" "f < 32" "g < 32" "g \<noteq> f" "a + length bs \<le> 128"
  shows "frame_bytes g (store_bytes (f * 128 + a) bs mem) = frame_bytes g mem"
proof (rule nth_equalityI)
  have b: "f * 128 + a + length bs \<le> length mem" using assms by simp
  show "length (frame_bytes g (store_bytes (f * 128 + a) bs mem)) = length (frame_bytes g mem)"
    using assms b by simp
  fix i assume "i < length (frame_bytes g (store_bytes (f * 128 + a) bs mem))"
  then have i: "i < 128" using assms b by simp
  have n: "\<not> (f * 128 + a \<le> g * 128 + i \<and> g * 128 + i < f * 128 + a + length bs)"
  proof (cases "g < f")
    case True
    then show ?thesis using i by linarith
  next
    case False
    with assms(4) have "f + 1 \<le> g" by simp
    then show ?thesis using assms(5) i by linarith
  qed
  have g: "g * 128 + i < length mem" using assms(1,3) i by simp
  have "frame_bytes g (store_bytes (f * 128 + a) bs mem) ! i = store_bytes (f * 128 + a) bs mem ! (g * 128 + i)"
    using assms(1) b by (intro frame_bytes_nth assms(3) i) simp
  also have "\<dots> = mem ! (g * 128 + i)"
    unfolding store_bytes_nth [OF b g] using n by (simp only: if_False)
  finally show "frame_bytes g (store_bytes (f * 128 + a) bs mem) ! i = frame_bytes g mem ! i"
    by (simp only: frame_bytes_nth [OF assms(1,3) i])
qed

lemma frame_bytes_store_same:
  assumes "length mem = 4096" "f < 32" "a + length bs \<le> 128"
  shows "frame_bytes f (store_bytes (f * 128 + a) bs mem) = store_bytes a bs (frame_bytes f mem)"
proof (rule nth_equalityI)
  have b: "f * 128 + a + length bs \<le> length mem" using assms by simp
  show "length (frame_bytes f (store_bytes (f * 128 + a) bs mem)) = length (store_bytes a bs (frame_bytes f mem))"
    using assms b by simp
  fix i assume "i < length (frame_bytes f (store_bytes (f * 128 + a) bs mem))"
  then have i: "i < 128" using assms b by simp
  show "frame_bytes f (store_bytes (f * 128 + a) bs mem) ! i = store_bytes a bs (frame_bytes f mem) ! i"
    using assms i b by (subst frame_bytes_nth) (auto simp: store_bytes_nth frame_bytes_nth)
qed

section \<open>What a page holds\<close>

text \<open>The frame of a page of a process, as the inverted page table gives it.\<close>

definition frame_of :: "vm \<Rightarrow> int \<Rightarrow> int \<Rightarrow> nat option" where
  "frame_of s p v = first_from
     (\<lambda>i. virtualPage (ipt s ! i) = v \<and> processID (ipt s ! i) = p \<and> valid (ipt s ! i)) 0 NumPhysPages"

lemma searchForEntry_frame_of: "searchForEntry v p (ipt s) = index_or_m1 (frame_of s p v)"
  by (simp add: searchForEntry_def frame_of_def)

text \<open>A frame is dirty when the inverted page table or a TLB entry for it says so.\<close>

definition frame_dirty :: "vm \<Rightarrow> nat \<Rightarrow> bool" where
  "frame_dirty s f \<longleftrightarrow> dirty (ipt s ! f) \<or>
     (\<exists>k<TLBSize. valid (tlb s ! k) \<and> physicalPage (tlb s ! k) = int f \<and> dirty (tlb s ! k))"

text \<open>What is kept of a page outside memory; a stack page that was never written out has nothing.\<close>

definition backing :: "vm \<Rightarrow> int \<Rightarrow> int \<Rightarrow> byte list" where
  "backing s p v =
     (if pageLocation s p v = 0 then ReadAt (executables s p) PageSize (nat (40 + v * 128))
      else if pageLocation s p v = 1 then ReadAt (swapFile s) PageSize (nat (swapArray s p v))
      else [])"

text \<open>
  The abstract memory: the bytes of page \<open>v\<close> of process \<open>p\<close>.  A page that was not written to since
  it was loaded has the bytes it was loaded from, of which there are fewer than \<open>PageSize\<close> at the
  end of an executable and none for a fresh stack page.
\<close>

definition page_bytes :: "vm \<Rightarrow> int \<Rightarrow> int \<Rightarrow> byte list" where
  "page_bytes s p v = (case frame_of s p v of
       None \<Rightarrow> backing s p v
     | Some f \<Rightarrow> if frame_dirty s f then frame_bytes f (mainMemory s) else backing s p v)"

section \<open>The invariant\<close>

definition vm_sizes :: "vm \<Rightarrow> bool" where
  "vm_sizes s \<longleftrightarrow> length (mainMemory s) = 4096 \<and> length (tlb s) = 4 \<and> length (ipt s) = 32 \<and>
     0 \<le> nextTLB s \<and> nextTLB s < 4"

definition ipt_ok :: "IPTTranslationEntry list \<Rightarrow> bool" where
  "ipt_ok t \<longleftrightarrow>
     (\<forall>i<32. valid (t ! i) \<longrightarrow> physicalPage (t ! i) = int i \<and> table2_ok (processID (t ! i)) (virtualPage (t ! i))) \<and>
     (\<forall>i<32. \<forall>j<32. valid (t ! i) \<and> valid (t ! j) \<and> virtualPage (t ! i) = virtualPage (t ! j) \<and>
        processID (t ! i) = processID (t ! j) \<longrightarrow> i = j)"

text \<open>A TLB entry describes a resident page of the running process.\<close>

definition tlb_entry_ok :: "int \<Rightarrow> IPTTranslationEntry list \<Rightarrow> TranslationEntry \<Rightarrow> bool" where
  "tlb_entry_ok cur t e \<longleftrightarrow> 0 \<le> physicalPage e \<and> physicalPage e < 32 \<and> \<not> readOnly e \<and>
     (let p = t ! nat (physicalPage e) in
      valid p \<and> virtualPage p = virtualPage e \<and> processID p = cur \<and> (dirty p \<longrightarrow> dirty e))"

definition tlb_ok :: "int \<Rightarrow> IPTTranslationEntry list \<Rightarrow> TranslationEntry list \<Rightarrow> bool" where
  "tlb_ok cur t es \<longleftrightarrow> (\<forall>k<4. valid (es ! k) \<longrightarrow> tlb_entry_ok cur t (es ! k)) \<and>
     (\<forall>k<4. \<forall>l<4. valid (es ! k) \<and> valid (es ! l) \<and> virtualPage (es ! k) = virtualPage (es ! l) \<longrightarrow> k = l)"

text \<open>The pages in the swap file have slots of their own, marked in the map and inside the file.\<close>

definition swapped :: "vm \<Rightarrow> int \<Rightarrow> int \<Rightarrow> bool" where
  "swapped s p v \<longleftrightarrow> pageLocation s p v = 1"

definition swap_ok :: "vm \<Rightarrow> bool" where
  "swap_ok s \<longleftrightarrow> bm_inv (swapFileMap s) \<and>
     (\<forall>p v. swapped s p v \<longrightarrow> (\<exists>n. swapArray s p v = int n * 128 \<and> n \<in> bm_set (swapFileMap s) \<and>
        n * 128 + 128 \<le> length (swapFile s))) \<and>
     (\<forall>p v p' v'. swapped s p v \<and> swapped s p' v' \<and> swapArray s p v = swapArray s p' v' \<longrightarrow> p = p' \<and> v = v')"

text \<open>A clean frame starts with what is kept of its page elsewhere.\<close>

definition clean_ok :: "vm \<Rightarrow> bool" where
  "clean_ok s \<longleftrightarrow> (\<forall>f<32. valid (ipt s ! f) \<and> \<not> frame_dirty s f \<longrightarrow>
     (let b = backing s (processID (ipt s ! f)) (virtualPage (ipt s ! f)) in
      take (length b) (frame_bytes f (mainMemory s)) = b))"

definition vm_inv :: "int \<Rightarrow> vm \<Rightarrow> bool" where
  "vm_inv cur s \<longleftrightarrow> vm_sizes s \<and> ipt_ok (ipt s) \<and> tlb_ok cur (ipt s) (tlb s) \<and> swap_ok s \<and> clean_ok s"

lemma vm_invD:
  assumes "vm_inv cur s"
  shows "vm_sizes s" "ipt_ok (ipt s)" "tlb_ok cur (ipt s) (tlb s)" "swap_ok s" "clean_ok s"
  using assms by (simp_all add: vm_inv_def)

lemma vm_sizesD:
  assumes "vm_sizes s"
  shows "length (mainMemory s) = 4096" "length (tlb s) = 4" "length (ipt s) = 32" "0 \<le> nextTLB s" "nextTLB s < 4"
  using assms by (simp_all add: vm_sizes_def)

lemma ipt_okD:
  assumes "ipt_ok t" "i < 32" "valid (t ! i)"
  shows "physicalPage (t ! i) = int i" "table2_ok (processID (t ! i)) (virtualPage (t ! i))"
  using assms by (simp_all add: ipt_ok_def)

lemma ipt_uniq:
  assumes "ipt_ok t" "i < 32" "j < 32" "valid (t ! i)" "valid (t ! j)"
    "virtualPage (t ! i) = virtualPage (t ! j)" "processID (t ! i) = processID (t ! j)"
  shows "i = j"
  using assms unfolding ipt_ok_def by blast

lemma frame_of_Some_iff:
  assumes "ipt_ok (ipt s)"
  shows "frame_of s p v = Some f \<longleftrightarrow>
    f < 32 \<and> valid (ipt s ! f) \<and> virtualPage (ipt s ! f) = v \<and> processID (ipt s ! f) = p"
proof
  assume "frame_of s p v = Some f"
  then show "f < 32 \<and> valid (ipt s ! f) \<and> virtualPage (ipt s ! f) = v \<and> processID (ipt s ! f) = p"
    unfolding frame_of_def by (auto dest!: first_from_Some simp: NumPhysPages_def)
next
  assume a: "f < 32 \<and> valid (ipt s ! f) \<and> virtualPage (ipt s ! f) = v \<and> processID (ipt s ! f) = p"
  show "frame_of s p v = Some f"
    unfolding frame_of_def
  proof (rule first_from_SomeI)
    fix j assume "j < f"
    then show "\<not> (virtualPage (ipt s ! j) = v \<and> processID (ipt s ! j) = p \<and> valid (ipt s ! j))"
      using ipt_uniq [OF assms, of f j] a by auto
  qed (use a in \<open>auto simp: NumPhysPages_def\<close>)
qed

lemma frame_of_None_iff:
  "frame_of s p v = None \<longleftrightarrow>
   (\<forall>f<32. \<not> (valid (ipt s ! f) \<and> virtualPage (ipt s ! f) = v \<and> processID (ipt s ! f) = p))"
  by (auto simp: frame_of_def first_from_None NumPhysPages_def)

lemma frame_of_entry:
  assumes "ipt_ok (ipt s)" "f < 32" "valid (ipt s ! f)"
  shows "frame_of s (processID (ipt s ! f)) (virtualPage (ipt s ! f)) = Some f"
  using assms by (simp add: frame_of_Some_iff)

text \<open>What the running program sees in a resident page starts with the abstract bytes.\<close>

lemma resident_bytes:
  assumes "vm_inv cur s" "frame_of s p v = Some f"
  shows "take (length (page_bytes s p v)) (frame_bytes f (mainMemory s)) = page_bytes s p v"
proof (cases "frame_dirty s f")
  case True
  then show ?thesis using assms(2) by (simp add: page_bytes_def)
next
  case False
  have "f < 32 \<and> valid (ipt s ! f) \<and> virtualPage (ipt s ! f) = v \<and> processID (ipt s ! f) = p"
    using assms frame_of_Some_iff vm_invD(2) by metis
  moreover from this have "page_bytes s p v = backing s p v"
    using False assms(2) by (simp add: page_bytes_def)
  ultimately show ?thesis
    using False vm_invD(5) [OF assms(1), unfolded clean_ok_def Let_def, rule_format, of f] by simp
qed

section \<open>Finding a swap slot\<close>

lemma Find_slot:
  assumes "bm_inv b" "BitMap_Find b = Inr (k, b')" "k \<noteq> -1"
  obtains n where "k = int n" "n \<notin> bm_set b" "bm_inv b'" "bm_set b' = insert n (bm_set b)"
proof (cases "bm_set b = {i. int i < numBits b}")
  case True
  with bm.find_full [OF assms(1)] assms(2,3) show ?thesis by auto
next
  case False
  from bm.find_free [OF assms(1) False] assms(2) show ?thesis
    using that by fastforce
qed

section \<open>Changes that keep what pages hold\<close>

definition same_store :: "vm \<Rightarrow> vm \<Rightarrow> bool" where
  "same_store s s' \<longleftrightarrow> mainMemory s' = mainMemory s \<and> swapFile s' = swapFile s \<and>
     swapFileMap s' = swapFileMap s \<and> swapArray s' = swapArray s \<and>
     pageLocation s' = pageLocation s \<and> executables s' = executables s"

definition same_map :: "IPTTranslationEntry list \<Rightarrow> IPTTranslationEntry list \<Rightarrow> bool" where
  "same_map t t' \<longleftrightarrow> length t' = length t \<and> (\<forall>i<32. valid (t' ! i) = valid (t ! i) \<and>
     virtualPage (t' ! i) = virtualPage (t ! i) \<and> processID (t' ! i) = processID (t ! i) \<and>
     physicalPage (t' ! i) = physicalPage (t ! i))"

lemma same_mapD:
  assumes "same_map t t'" "i < 32"
  shows "valid (t' ! i) = valid (t ! i)" "virtualPage (t' ! i) = virtualPage (t ! i)"
    "processID (t' ! i) = processID (t ! i)" "physicalPage (t' ! i) = physicalPage (t ! i)"
  using assms by (simp_all add: same_map_def)

lemma same_map_refl [simp]: "same_map t t"
  by (simp add: same_map_def)

lemma same_map_update:
  assumes "length t = 32" "valid e = valid (t ! f)" "virtualPage e = virtualPage (t ! f)"
    "processID e = processID (t ! f)" "physicalPage e = physicalPage (t ! f)"
  shows "same_map t (t[f := e])"
  using assms by (auto simp: same_map_def nth_list_update')

lemma frame_of_same_map:
  assumes "same_map (ipt s) (ipt s')"
  shows "frame_of s' p v = frame_of s p v"
  unfolding frame_of_def using same_mapD [OF assms]
  by (intro first_from_cong) (simp add: NumPhysPages_def)

lemma ipt_ok_same_map: "ipt_ok t \<Longrightarrow> same_map t t' \<Longrightarrow> ipt_ok t'"
  by (simp add: ipt_ok_def same_map_def)

lemma backing_same_store: "same_store s s' \<Longrightarrow> backing s' p v = backing s p v"
  by (simp add: backing_def same_store_def)

lemma swap_ok_same_store: "same_store s s' \<Longrightarrow> swap_ok s' = swap_ok s"
  by (simp add: swap_ok_def swapped_def same_store_def)

lemma clean_okD:
  assumes "clean_ok s" "f < 32" "valid (ipt s ! f)" "\<not> frame_dirty s f"
  shows "take (length (backing s (processID (ipt s ! f)) (virtualPage (ipt s ! f)))) (frame_bytes f (mainMemory s))
     = backing s (processID (ipt s ! f)) (virtualPage (ipt s ! f))"
  using assms by (simp add: clean_ok_def Let_def)

lemma clean_okI:
  assumes "\<And>f. f < 32 \<Longrightarrow> valid (ipt s ! f) \<Longrightarrow> \<not> frame_dirty s f \<Longrightarrow>
     take (length (backing s (processID (ipt s ! f)) (virtualPage (ipt s ! f)))) (frame_bytes f (mainMemory s))
     = backing s (processID (ipt s ! f)) (virtualPage (ipt s ! f))"
  shows "clean_ok s"
  using assms by (simp add: clean_ok_def Let_def)

lemma vm_cong:
  assumes inv: "vm_inv cur s" and st: "same_store s s'" and mp: "same_map (ipt s) (ipt s')"
    and d: "\<And>g. g < 32 \<Longrightarrow> frame_dirty s' g = frame_dirty s g"
    and t: "tlb_ok cur' (ipt s') (tlb s')" "length (tlb s') = 4" "0 \<le> nextTLB s'" "nextTLB s' < 4"
  shows "vm_inv cur' s'" "page_bytes s' = page_bytes s"
proof -
  have b: "backing s' = backing s" using backing_same_store [OF st] by (intro ext)
  have m: "mainMemory s' = mainMemory s" using st by (simp add: same_store_def)
  have "vm_sizes s'" using vm_invD(1) [OF inv] st mp t by (simp add: vm_sizes_def same_store_def same_map_def)
  moreover have "ipt_ok (ipt s')" using ipt_ok_same_map [OF vm_invD(2) [OF inv] mp] .
  moreover have "swap_ok s'" using swap_ok_same_store [OF st] vm_invD(4) [OF inv] by simp
  moreover have "clean_ok s'"
    by (rule clean_okI) (simp add: b m d same_mapD [OF mp] clean_okD [OF vm_invD(5) [OF inv]])
  ultimately show "vm_inv cur' s'" using t(1) by (simp add: vm_inv_def)
  have "page_bytes s' p v = page_bytes s p v" for p v
  proof (cases "frame_of s p v")
    case None
    then show ?thesis by (simp add: page_bytes_def frame_of_same_map [OF mp] b)
  next
    case (Some f)
    then have "f < 32" using frame_of_Some_iff [OF vm_invD(2) [OF inv]] by blast
    with Some d show ?thesis by (simp add: page_bytes_def frame_of_same_map [OF mp] b m)
  qed
  then show "page_bytes s' = page_bytes s" by (intro ext)
qed

section \<open>TLB entries\<close>

lemma tlb_okD:
  assumes "tlb_ok cur t es" "k < 4" "valid (es ! k)"
  shows "tlb_entry_ok cur t (es ! k)"
  using assms by (simp add: tlb_ok_def)

lemma tlb_uniq:
  assumes "tlb_ok cur t es" "k < 4" "l < 4" "valid (es ! k)" "valid (es ! l)"
    "virtualPage (es ! k) = virtualPage (es ! l)"
  shows "k = l"
  using assms unfolding tlb_ok_def by blast

lemma tlb_entry_frame:
  assumes "tlb_entry_ok cur t e"
  obtains f where "f < 32" "physicalPage e = int f" "valid (t ! f)" "virtualPage (t ! f) = virtualPage e"
    "processID (t ! f) = cur" "dirty (t ! f) \<longrightarrow> dirty e" "\<not> readOnly e"
proof -
  from assms have "nat (physicalPage e) < 32" "physicalPage e = int (nat (physicalPage e))"
    by (auto simp: tlb_entry_ok_def)
  with assms show ?thesis using that by (auto simp: tlb_entry_ok_def Let_def)
qed

lemma tlb_entry_okI:
  assumes "f < 32" "physicalPage e = int f" "valid (t ! f)" "virtualPage (t ! f) = virtualPage e"
    "processID (t ! f) = cur" "dirty (t ! f) \<longrightarrow> dirty e" "\<not> readOnly e"
  shows "tlb_entry_ok cur t e"
  using assms by (simp add: tlb_entry_ok_def Let_def)

text \<open>Invalidating one entry, or changing a page's table entry that no TLB entry uses.\<close>

lemma tlb_ok_invalidate:
  assumes "tlb_ok cur t es" "\<not> valid e"
  shows "tlb_ok cur t (es[k := e])"
proof -
  have "valid (es[k := e] ! i) \<Longrightarrow> es[k := e] ! i = es ! i" for i
    using assms(2) by (metis nth_list_update_eq nth_list_update_neq list_update_beyond linorder_not_le)
  with assms(1) show ?thesis unfolding tlb_ok_def by (metis (no_types))
qed

lemma tlb_ok_same:
  assumes "tlb_ok cur t es" "\<And>k. k < 4 \<Longrightarrow> valid (es ! k) \<Longrightarrow>
     (let n = nat (physicalPage (es ! k)) in t' ! n = t ! n \<or>
       valid (t' ! n) = valid (t ! n) \<and> virtualPage (t' ! n) = virtualPage (t ! n) \<and>
       processID (t' ! n) = processID (t ! n) \<and> (dirty (t' ! n) \<longrightarrow> dirty (es ! k)))"
  shows "tlb_ok cur t' es"
proof -
  have "tlb_entry_ok cur t' (es ! k)" if "k < 4" "valid (es ! k)" for k
    using tlb_okD [OF assms(1) that] assms(2) [OF that] by (auto simp: tlb_entry_ok_def Let_def)
  with assms(1) show ?thesis by (simp add: tlb_ok_def)
qed

lemma SearchForTLBEntry_None:
  "SearchForTLBEntry v es = -1 \<longleftrightarrow> (\<forall>k<4. \<not> (virtualPage (es ! k) = v \<and> valid (es ! k)))"
  by (simp add: SearchForTLBEntry_def first_from_None TLBSize_def)

lemma SearchForTLBEntry_Some:
  assumes "SearchForTLBEntry v es \<noteq> -1"
  obtains k where "SearchForTLBEntry v es = int k" "k < 4" "virtualPage (es ! k) = v" "valid (es ! k)"
proof -
  from assms obtain k where k: "first_from (\<lambda>i. virtualPage (es ! i) = v \<and> valid (es ! i)) 0 TLBSize = Some k"
    by (auto simp: SearchForTLBEntry_def)
  from first_from_Some [OF k] k show ?thesis using that by (auto simp: SearchForTLBEntry_def TLBSize_def)
qed

lemma arr_get_nat [simp]: "i < length xs \<Longrightarrow> arr_get xs (int i) = Inr (xs ! i)"
  by (simp add: arr_get_def in_range_def)

lemma arr_set_nat [simp]: "i < length xs \<Longrightarrow> arr_set xs (int i) v = Inr (xs[i := v])"
  by (simp add: arr_set_def in_range_def)

section \<open>Evicting a page\<close>

text \<open>No TLB entry has the page number of frame \<open>f\<close> and is for another frame.\<close>

definition no_alias :: "nat \<Rightarrow> vm \<Rightarrow> bool" where
  "no_alias f s \<longleftrightarrow> (\<forall>k<4. valid (tlb s ! k) \<and> virtualPage (tlb s ! k) = virtualPage (ipt s ! f) \<longrightarrow>
     physicalPage (tlb s ! k) = int f)"

definition not_in_tlb :: "nat \<Rightarrow> vm \<Rightarrow> bool" where
  "not_in_tlb f s \<longleftrightarrow> (\<forall>k<4. valid (tlb s ! k) \<longrightarrow> physicalPage (tlb s ! k) \<noteq> int f)"

lemma frame_dirty_not_in_tlb: "not_in_tlb f s \<Longrightarrow> frame_dirty s f = dirty (ipt s ! f)"
  by (auto simp: not_in_tlb_def frame_dirty_def TLBSize_def)

definition same_tlb_pages :: "vm \<Rightarrow> vm \<Rightarrow> bool" where
  "same_tlb_pages s s' \<longleftrightarrow> nextTLB s' = nextTLB s \<and>
     (\<forall>k<4. virtualPage (tlb s' ! k) = virtualPage (tlb s ! k) \<and> (valid (tlb s' ! k) \<longrightarrow> valid (tlb s ! k)))"

lemma frame_dirty_cong:
  assumes "dirty (ipt s' ! g) = dirty (ipt s ! g)"
    "\<And>l. l < 4 \<Longrightarrow> (valid (tlb s' ! l) \<and> physicalPage (tlb s' ! l) = int g \<and> dirty (tlb s' ! l)) =
       (valid (tlb s ! l) \<and> physicalPage (tlb s ! l) = int g \<and> dirty (tlb s ! l))"
  shows "frame_dirty s' g = frame_dirty s g"
proof -
  have "(\<exists>l<4. valid (tlb s' ! l) \<and> physicalPage (tlb s' ! l) = int g \<and> dirty (tlb s' ! l)) =
        (\<exists>l<4. valid (tlb s ! l) \<and> physicalPage (tlb s ! l) = int g \<and> dirty (tlb s ! l))"
    using assms(2) by blast
  with assms(1) show ?thesis by (simp add: frame_dirty_def TLBSize_def)
qed

text \<open>Entry \<open>k\<close> is invalidated, its dirty bit goes to the inverted page table.\<close>

definition entry_dropped :: "nat \<Rightarrow> vm \<Rightarrow> vm" where
  "entry_dropped k s = (let e = tlb s ! k; f = nat (physicalPage e) in
     s\<lparr>ipt := (ipt s)[f := (ipt s ! f)\<lparr>dirty := dirty e\<rparr>], tlb := (tlb s)[k := e\<lparr>valid := False\<rparr>]\<rparr>)"

lemma entry_dropped_ok:
  assumes inv: "vm_inv cur s" and k: "k < 4" "valid (tlb s ! k)" and pk: "physicalPage (tlb s ! k) = int f"
  shows "vm_inv cur (entry_dropped k s)" "page_bytes (entry_dropped k s) = page_bytes s"
    "not_in_tlb f (entry_dropped k s)" "same_map (ipt s) (ipt (entry_dropped k s))"
    "dirty (ipt (entry_dropped k s) ! f) = frame_dirty s f" "same_tlb_pages s (entry_dropped k s)"
proof -
  note sz = vm_sizesD [OF vm_invD(1) [OF inv]] and tok = vm_invD(3) [OF inv]
  let ?t = "(ipt s)[f := (ipt s ! f)\<lparr>dirty := dirty (tlb s ! k)\<rparr>]"
  let ?es = "(tlb s)[k := (tlb s ! k)\<lparr>valid := False\<rparr>]"
  let ?s = "entry_dropped k s"
  have s: "?s = s\<lparr>ipt := ?t, tlb := ?es\<rparr>" by (simp add: entry_dropped_def Let_def pk)
  have f: "f < 32" "virtualPage (tlb s ! k) = virtualPage (ipt s ! f)" "dirty (ipt s ! f) \<longrightarrow> dirty (tlb s ! k)"
    using tlb_okD [OF tok k] pk by (simp_all add: tlb_entry_ok_def Let_def)
  have only: "l = k" if "l < 4" "valid (tlb s ! l)" "physicalPage (tlb s ! l) = int f" for l
  proof -
    have "virtualPage (tlb s ! l) = virtualPage (ipt s ! f)"
      using tlb_okD [OF tok that(1,2)] that(3) by (simp add: tlb_entry_ok_def Let_def)
    with f show ?thesis using tlb_uniq [OF tok that(1) k(1) that(2) k(2)] by simp
  qed
  have fd: "frame_dirty s f = dirty (tlb s ! k)"
  proof
    assume "frame_dirty s f"
    then consider "dirty (ipt s ! f)" | l where "l < 4" "valid (tlb s ! l)"
      "physicalPage (tlb s ! l) = int f" "dirty (tlb s ! l)"
      by (auto simp: frame_dirty_def TLBSize_def)
    then show "dirty (tlb s ! k)" using only f(3) by cases auto
  next
    assume "dirty (tlb s ! k)"
    with k pk show "frame_dirty s f" unfolding frame_dirty_def TLBSize_def by blast
  qed
  show n: "not_in_tlb f ?s"
    using only sz k(1) by (auto simp: s not_in_tlb_def nth_list_update')
  have dirt: "frame_dirty ?s g = frame_dirty s g" if "g < 32" for g
  proof (cases "g = f")
    case True
    then show ?thesis using frame_dirty_not_in_tlb [OF n] fd f sz by (simp add: s)
  next
    case False
    then show ?thesis
      using sz pk by (intro frame_dirty_cong) (auto simp: s nth_list_update')
  qed
  have mp: "same_map (ipt s) ?t" by (rule same_map_update) (use sz in simp_all)
  then show "same_map (ipt s) (ipt ?s)" by (simp add: s)
  have tk0: "tlb_ok cur (ipt s) ?es" by (rule tlb_ok_invalidate [OF tok]) simp
  then have tk: "tlb_ok cur ?t ?es"
  proof (rule tlb_ok_same)
    fix l assume l: "l < 4" "valid (?es ! l)"
    then have "physicalPage (?es ! l) \<noteq> int f" using n by (simp add: s not_in_tlb_def)
    then show "let n = nat (physicalPage (?es ! l)) in ?t ! n = ipt s ! n \<or>
       valid (?t ! n) = valid (ipt s ! n) \<and> virtualPage (?t ! n) = virtualPage (ipt s ! n) \<and>
       processID (?t ! n) = processID (ipt s ! n) \<and> (dirty (?t ! n) \<longrightarrow> dirty (?es ! l))"
      using tlb_okD [OF tk0 l] f sz by (auto simp: Let_def nth_list_update' tlb_entry_ok_def)
  qed
  have st: "same_store s ?s" by (simp add: s same_store_def)
  show "same_tlb_pages s ?s" using sz by (auto simp: s same_tlb_pages_def nth_list_update' split: if_splits)
  show "vm_inv cur ?s" "page_bytes ?s = page_bytes s"
    using vm_cong [OF inv st, of cur] mp dirt tk sz by (simp_all add: s)
  show "dirty (ipt ?s ! f) = frame_dirty s f" using fd f sz by (simp add: s)
qed

lemma collect_dirty_ok:
  assumes inv: "vm_inv cur s" and f: "f < 32" "valid (ipt s ! f)" and na: "no_alias f s"
  obtains s' where "collect_dirty (int f) s = Inr s'" "vm_inv cur s'" "not_in_tlb f s'"
    "page_bytes s' = page_bytes s"
    "same_map (ipt s) (ipt s')" "dirty (ipt s' ! f) = frame_dirty s f"
    "same_tlb_pages s s'"
    "swapFileMap s' = swapFileMap s" "iptQueue s' = iptQueue s"
    "pageTables s' = pageTables s"
proof (cases "SearchForTLBEntry (virtualPage (ipt s ! f)) (tlb s) = -1")
  case True
  note sz = vm_sizesD [OF vm_invD(1) [OF inv]]
  have n: "not_in_tlb f s"
    unfolding not_in_tlb_def
  proof (intro allI impI notI)
    fix k assume k: "k < 4" "valid (tlb s ! k)" "physicalPage (tlb s ! k) = int f"
    have "virtualPage (tlb s ! k) = virtualPage (ipt s ! f)"
      using tlb_okD [OF vm_invD(3) [OF inv] k(1,2)] k(3) by (simp add: tlb_entry_ok_def Let_def)
    with True k show False by (simp add: SearchForTLBEntry_None)
  qed
  have "collect_dirty (int f) s = Inr s" using True f sz by (simp add: collect_dirty_def)
  then show ?thesis
    using that [of s] inv n frame_dirty_not_in_tlb [OF n] by (simp add: same_tlb_pages_def)
next
  case False
  then obtain k where k: "SearchForTLBEntry (virtualPage (ipt s ! f)) (tlb s) = int k" "k < 4"
    "virtualPage (tlb s ! k) = virtualPage (ipt s ! f)" "valid (tlb s ! k)"
    by (rule SearchForTLBEntry_Some)
  note sz = vm_sizesD [OF vm_invD(1) [OF inv]]
  have pk: "physicalPage (tlb s ! k) = int f" using na k by (simp add: no_alias_def)
  note d = entry_dropped_ok [OF inv k(2,4) pk]
  have r: "collect_dirty (int f) s = Inr (entry_dropped k s)"
    using k f sz pk by (simp add: collect_dirty_def entry_dropped_def Let_def)
  show ?thesis
    by (rule that [OF r d(1,3,2,4,5,6)]) (simp_all add: entry_dropped_def Let_def)
qed

section \<open>Writing a dirty page out\<close>

lemma swap_okD:
  assumes "swap_ok s" "swapped s p v"
  obtains n where "swapArray s p v = int n * 128" "n \<in> bm_set (swapFileMap s)"
    "n * 128 + 128 \<le> length (swapFile s)"
  using assms unfolding swap_ok_def by blast

lemma swap_uniq:
  assumes "swap_ok s" "swapped s p v" "swapped s p' v'" "swapArray s p v = swapArray s p' v'"
  shows "p = p' \<and> v = v'"
  using assms unfolding swap_ok_def by blast

text \<open>The state after page \<open>(p, q)\<close> with bytes \<open>bs\<close> was written to slot \<open>n\<close>.\<close>

definition swap_out :: "int \<Rightarrow> int \<Rightarrow> byte list \<Rightarrow> nat \<Rightarrow> BitMap \<Rightarrow> vm \<Rightarrow> vm" where
  "swap_out p q bs n sm s = s\<lparr>swapFileMap := sm,
     swapArray := (swapArray s)(p := (swapArray s p)(q := int n * 128)),
     pageLocation := (pageLocation s)(p := (pageLocation s p)(q := 1)),
     swapFile := WriteAt (swapFile s) bs (n * 128)\<rparr>"

lemma swap_out_simps [simp]:
  "mainMemory (swap_out p q bs n sm s) = mainMemory s" "ipt (swap_out p q bs n sm s) = ipt s"
  "tlb (swap_out p q bs n sm s) = tlb s" "nextTLB (swap_out p q bs n sm s) = nextTLB s"
  "iptQueue (swap_out p q bs n sm s) = iptQueue s" "pageTables (swap_out p q bs n sm s) = pageTables s"
  "swapFileMap (swap_out p q bs n sm s) = sm" "executables (swap_out p q bs n sm s) = executables s"
  "frame_dirty (swap_out p q bs n sm s) f = frame_dirty s f"
  "frame_of (swap_out p q bs n sm s) p' v' = frame_of s p' v'"
  by (simp_all add: swap_out_def frame_dirty_def frame_of_def)

lemma backing_swap_out:
  assumes "swap_ok s" "n \<notin> bm_set (swapFileMap s)" "length bs = 128"
  shows "backing (swap_out p q bs n sm s) p' v' = (if p' = p \<and> v' = q then bs else backing s p' v')"
proof (cases "p' = p \<and> v' = q")
  case True
  have "ReadAt (WriteAt (swapFile s) bs (n * 128)) 128 (n * 128) = bs"
    using ReadAt_WriteAt_same [of "swapFile s" bs "n * 128"] assms(3) by simp
  with True show ?thesis by (simp add: backing_def swap_out_def PageSize_def nat_mult_distrib)
next
  case False
  show ?thesis
  proof (cases "swapped s p' v'")
    case True
    then obtain m where m: "swapArray s p' v' = int m * 128" "m \<in> bm_set (swapFileMap s)"
      "m * 128 + 128 \<le> length (swapFile s)" by (rule swap_okD [OF assms(1)])
    then have "m \<noteq> n" using assms(2) by auto
    then have "m * 128 + 128 \<le> n * 128 \<or> n * 128 + length bs \<le> m * 128" using assms(3) by linarith
    with False m True show ?thesis
      by (auto simp: backing_def swap_out_def swapped_def PageSize_def nat_mult_distrib ReadAt_WriteAt_other)
  next
    case n: False
    with False show ?thesis by (auto simp: backing_def swap_out_def swapped_def)
  qed
qed

lemma swap_ok_swap_out:
  assumes "swap_ok s" "n \<notin> bm_set (swapFileMap s)" "length bs = 128" "bm_inv sm"
    "bm_set sm = insert n (bm_set (swapFileMap s))"
  shows "swap_ok (swap_out p q bs n sm s)"
proof -
  let ?s = "swap_out p q bs n sm s"
  have sw: "swapped ?s p' v' \<longleftrightarrow> (p' = p \<and> v' = q) \<or> swapped s p' v'" for p' v'
    by (simp add: swapped_def swap_out_def)
  have ar: "swapArray ?s p' v' = (if p' = p \<and> v' = q then int n * 128 else swapArray s p' v')" for p' v'
    by (simp add: swap_out_def)
  have len: "length (swapFile ?s) = max (length (swapFile s)) (n * 128 + 128)"
    using assms(3) by (simp add: swap_out_def WriteAt_length)
  have 1: "\<exists>m. swapArray ?s p' v' = int m * 128 \<and> m \<in> bm_set sm \<and> m * 128 + 128 \<le> length (swapFile ?s)"
    if s: "swapped ?s p' v'" for p' v'
  proof (cases "p' = p \<and> v' = q")
    case True
    then show ?thesis using assms(5) by (intro exI [of _ n]) (simp add: ar len)
  next
    case False
    then have "swapped s p' v'" using s unfolding sw by blast
    then obtain m where "swapArray s p' v' = int m * 128" "m \<in> bm_set (swapFileMap s)"
      "m * 128 + 128 \<le> length (swapFile s)" by (rule swap_okD [OF assms(1)])
    with False show ?thesis using assms(5) by (intro exI [of _ m]) (auto simp: ar len)
  qed
  have new: "swapArray s p' v' \<noteq> int n * 128" if "swapped s p' v'" for p' v'
  proof
    assume e: "swapArray s p' v' = int n * 128"
    from swap_okD [OF assms(1) that] e obtain m where "int m * 128 = int n * 128" "m \<in> bm_set (swapFileMap s)"
      by metis
    with assms(2) show False by simp
  qed
  have 2: "p1 = p2 \<and> v1 = v2"
    if "swapped ?s p1 v1" "swapped ?s p2 v2" "swapArray ?s p1 v1 = swapArray ?s p2 v2" for p1 v1 p2 v2
    using that new swap_uniq [OF assms(1), of p1 v1 p2 v2] new [of p1 v1] new [of p2 v2]
    by (auto simp: sw ar split: if_splits)
  show ?thesis unfolding swap_ok_def using assms(4) 1 2 by (simp, blast)
qed

lemma write_victim_ok:
  assumes inv: "vm_inv cur s" and f: "f < 32" "valid (ipt s ! f)" and n: "not_in_tlb f s"
    and free: "dirty (ipt s ! f) \<Longrightarrow> bm_set (swapFileMap s) \<noteq> {i. int i < numBits (swapFileMap s)}"
  obtains s' where "write_victim (int f) s = Inr s'" "vm_inv cur s'"
    "page_bytes s' = page_bytes s"
    "backing s' (processID (ipt s ! f)) (virtualPage (ipt s ! f)) =
       page_bytes s (processID (ipt s ! f)) (virtualPage (ipt s ! f))"
    "ipt s' = ipt s" "tlb s' = tlb s" "nextTLB s' = nextTLB s" "iptQueue s' = iptQueue s"
    "pageTables s' = pageTables s"
proof -
  let ?e = "ipt s ! f"
  note sz = vm_sizesD [OF vm_invD(1) [OF inv]] and iok = vm_invD(2) [OF inv]
  have fr: "frame_of s (processID ?e) (virtualPage ?e) = Some f"
    by (rule frame_of_entry [OF iok f])
  show ?thesis
  proof (cases "dirty ?e")
    case False
    then have "backing s (processID ?e) (virtualPage ?e) = page_bytes s (processID ?e) (virtualPage ?e)"
      using fr frame_dirty_not_in_tlb [OF n] by (simp add: page_bytes_def)
    moreover have "write_victim (int f) s = Inr s" using False f sz by (simp add: write_victim_def)
    ultimately show ?thesis using that inv by blast
  next
    case True
    have bm: "bm_inv (swapFileMap s)" using vm_invD(4) [OF inv] by (simp add: swap_ok_def)
    from bm.find_free [OF bm free [OF True]] obtain k sm where k: "BitMap_Find (swapFileMap s) = Inr (int k, sm)"
      "k \<notin> bm_set (swapFileMap s)" "bm_inv sm" "bm_set sm = insert k (bm_set (swapFileMap s))" by blast
    let ?b = "frame_bytes f (mainMemory s)"
    let ?s = "swap_out (processID ?e) (virtualPage ?e) ?b k sm s"
    have lb: "length ?b = 128" using sz f by simp
    have "table2_ok (processID ?e) (virtualPage ?e)" by (rule ipt_okD(2) [OF iok f])
    then have r: "write_victim (int f) s = Inr ?s"
      using True f sz k(1) by (simp add: write_victim_def set2_def swap_out_def nat_mult_distrib)
    note bk = backing_swap_out [OF vm_invD(4) [OF inv] k(2) lb]
    have fd: "frame_dirty s f" using True by (simp add: frame_dirty_def)
    have "clean_ok ?s"
    proof (rule clean_okI)
      fix g assume g: "g < 32" "valid (ipt ?s ! g)" "\<not> frame_dirty ?s g"
      then have "g \<noteq> f" using fd by auto
      then have "\<not> (processID (ipt s ! g) = processID ?e \<and> virtualPage (ipt s ! g) = virtualPage ?e)"
        using ipt_uniq [OF iok g(1) f(1)] g(2) f(2) by auto
      then show "take (length (backing ?s (processID (ipt ?s ! g)) (virtualPage (ipt ?s ! g))))
          (frame_bytes g (mainMemory ?s)) = backing ?s (processID (ipt ?s ! g)) (virtualPage (ipt ?s ! g))"
        using clean_okD [OF vm_invD(5) [OF inv] g(1) g(2,3) [unfolded swap_out_simps]]
        by (simp only: bk if_False swap_out_simps)
    qed
    then have i: "vm_inv cur ?s"
      using inv swap_ok_swap_out [OF vm_invD(4) [OF inv] k(2) lb k(3,4)] by (simp add: vm_inv_def vm_sizes_def)
    have "page_bytes ?s = page_bytes s"
      using fr fd by (intro ext) (simp add: page_bytes_def bk split: option.splits)
    moreover have "backing ?s (processID ?e) (virtualPage ?e) = page_bytes s (processID ?e) (virtualPage ?e)"
      using fr fd by (simp add: page_bytes_def bk)
    ultimately show ?thesis using that [OF r i] by simp
  qed
qed

section \<open>Loading a page into a frame\<close>

lemma store_frame:
  assumes "length mem = 4096" "f < 32" "length bs \<le> 128"
  shows "length (store_bytes (f * 128) bs mem) = 4096"
    "g < 32 \<Longrightarrow> g \<noteq> f \<Longrightarrow> frame_bytes g (store_bytes (f * 128) bs mem) = frame_bytes g mem"
    "take (length bs) (frame_bytes f (store_bytes (f * 128) bs mem)) = bs"
proof -
  show "length (store_bytes (f * 128) bs mem) = 4096" using assms by simp
  show "g < 32 \<Longrightarrow> g \<noteq> f \<Longrightarrow> frame_bytes g (store_bytes (f * 128) bs mem) = frame_bytes g mem"
    using frame_bytes_store_other [OF assms(1,2), of g 0 bs] assms(3) by simp
  show "take (length bs) (frame_bytes f (store_bytes (f * 128) bs mem)) = bs"
    using frame_bytes_store_same [OF assms(1,2), of 0 bs] assms by (simp add: store_bytes_def)
qed

lemma fill_frame_ok:
  assumes "vm_sizes s" "swap_ok s" "f < 32" "table2_ok cur vpn"
  obtains M where "fill_frame cur vpn (int f) s = Inr (s\<lparr>mainMemory := M\<rparr>)" "length M = 4096"
    "\<And>g. g < 32 \<Longrightarrow> g \<noteq> f \<Longrightarrow> frame_bytes g M = frame_bytes g (mainMemory s)"
    "take (length (backing s cur vpn)) (frame_bytes f M) = backing s cur vpn"
proof -
  note sz = vm_sizesD [OF assms(1)]
  have lr: "length (ReadAt h 128 q) \<le> 128" for h q by (simp add: ReadAt_def)
  note st = store_frame [OF sz(1) assms(3) lr [of "executables s cur" "nat (40 + vpn * 128)"]]
    and st1 = store_frame [OF sz(1) assms(3) lr [of "swapFile s" "nat (swapArray s cur vpn)"]]
  consider "pageLocation s cur vpn = 0" | "pageLocation s cur vpn = 1"
    | "pageLocation s cur vpn \<noteq> 0" "pageLocation s cur vpn \<noteq> 1" by blast
  then show ?thesis
  proof cases
    case 1
    then have b: "backing s cur vpn = ReadAt (executables s cur) 128 (nat (40 + vpn * 128))"
      by (simp add: backing_def PageSize_def)
    have "fill_frame cur vpn (int f) s = Inr (s\<lparr>mainMemory := store_bytes (f * 128) (backing s cur vpn) (mainMemory s)\<rparr>)"
      using 1 assms(4) by (simp add: fill_frame_def get2_def b PageSize_def)
    then show ?thesis by (rule that) (use st b in simp_all)
  next
    case 2
    then obtain n where n: "swapArray s cur vpn = int n * 128"
      using swap_okD [OF assms(2)] unfolding swapped_def by metis
    from 2 have b: "backing s cur vpn = ReadAt (swapFile s) 128 (nat (swapArray s cur vpn))"
      by (simp add: backing_def PageSize_def)
    have "fill_frame cur vpn (int f) s = Inr (s\<lparr>mainMemory := store_bytes (f * 128) (backing s cur vpn) (mainMemory s)\<rparr>)"
      using 2 assms(4) n by (simp add: fill_frame_def get2_def b PageSize_def)
    then show ?thesis by (rule that) (use st1 b in simp_all)
  next
    case 3
    then show ?thesis
      using that [of "mainMemory s"] sz assms(4) by (simp add: fill_frame_def get2_def backing_def)
  qed
qed

text \<open>The state after page \<open>vpn\<close> of \<open>cur\<close> was put into frame \<open>f\<close>.\<close>

definition page_loaded :: "int \<Rightarrow> int \<Rightarrow> nat \<Rightarrow> byte list \<Rightarrow> vm \<Rightarrow> vm" where
  "page_loaded cur vpn f M s = s\<lparr>mainMemory := M,
     pageTables := (pageTables s)(cur := (pageTables s cur)[nat vpn :=
        (pageTables s cur ! nat vpn)\<lparr>valid := True, dirty := False\<rparr>]),
     ipt := (ipt s)[f := (ipt s ! f)\<lparr>virtualPage := vpn, physicalPage := int f, processID := cur,
        valid := True, dirty := False, use := True, readOnly := False\<rparr>],
     iptQueue := q_append (int f) (iptQueue s)\<rparr>"

lemma load_steps:
  assumes "fill_frame cur vpn (int f) s = Inr (s\<lparr>mainMemory := M\<rparr>)" "f < length (ipt s)"
    "in_range vpn (pageTables s cur)"
  shows "bindE (fill_frame cur vpn (int f) s) (\<lambda>s5. bindE (mark_loaded cur vpn s5) (\<lambda>s6.
         bindE (updateEntry (int f) vpn cur True s6) (\<lambda>s7. Inr (int f, s7)))) =
         Inr (int f, page_loaded cur vpn f M s)"
  using assms by (simp add: mark_loaded_def arr_get_def [of "pageTables s cur"] arr_set_def [of "pageTables s cur"]
      updateEntry_def page_loaded_def)

lemma page_loaded_ok:
  assumes inv: "vm_inv cur s" and f: "f < 32" and tab: "table2_ok cur vpn" and new: "frame_of s cur vpn = None"
    and n: "not_in_tlb f s"
    and old: "valid (ipt s ! f) \<Longrightarrow> backing s (processID (ipt s ! f)) (virtualPage (ipt s ! f)) =
       page_bytes s (processID (ipt s ! f)) (virtualPage (ipt s ! f))"
    and M: "length M = 4096" "\<And>g. g < 32 \<Longrightarrow> g \<noteq> f \<Longrightarrow> frame_bytes g M = frame_bytes g (mainMemory s)"
      "take (length (backing s cur vpn)) (frame_bytes f M) = backing s cur vpn"
  shows "vm_inv cur (page_loaded cur vpn f M s)"
    "page_bytes (page_loaded cur vpn f M s) = page_bytes s"
    "frame_of (page_loaded cur vpn f M s) cur vpn = Some f"
    "\<forall>p v. (p, v) \<noteq> (cur, vpn) \<longrightarrow> frame_of (page_loaded cur vpn f M s) p v =
       (if frame_of s p v = Some f then None else frame_of s p v)"
proof -
  let ?s = "page_loaded cur vpn f M s"
  note sz = vm_sizesD [OF vm_invD(1) [OF inv]] and iok = vm_invD(2) [OF inv]
  have e: "ipt ?s ! g = (if g = f then (ipt s ! f)\<lparr>virtualPage := vpn, physicalPage := int f,
      processID := cur, valid := True, dirty := False, use := True, readOnly := False\<rparr> else ipt s ! g)"
    if "g < 32" for g
    using that sz by (simp add: page_loaded_def)
  have tl: "tlb ?s = tlb s" and mm: "mainMemory ?s = M" by (simp_all add: page_loaded_def)
  have n': "not_in_tlb f ?s" using n by (simp add: not_in_tlb_def tl)
  have bk: "backing ?s = backing s" by (intro ext) (simp add: backing_def page_loaded_def)
  have nres: "\<not> (virtualPage (ipt s ! g) = vpn \<and> processID (ipt s ! g) = cur)" if "g < 32" "valid (ipt s ! g)" for g
    using new that by (auto simp: frame_of_None_iff)
  have fdf: "\<not> frame_dirty ?s f" using frame_dirty_not_in_tlb [OF n'] e [OF f] by simp
  have fdo: "frame_dirty ?s g = frame_dirty s g" if "g < 32" "g \<noteq> f" for g
    by (rule frame_dirty_cong) (use that in \<open>simp_all add: e tl\<close>)
  have iok': "ipt_ok (ipt ?s)"
    unfolding ipt_ok_def
  proof (intro conjI allI impI)
    fix i :: nat assume i: "i < 32" "valid (ipt ?s ! i)"
    show "physicalPage (ipt ?s ! i) = int i" "table2_ok (processID (ipt ?s ! i)) (virtualPage (ipt ?s ! i))"
      using i tab ipt_okD [OF iok i(1)] by (cases "i = f"; simp add: e)+
  next
    fix i j :: nat
    assume ij: "i < 32" "j < 32" and a: "valid (ipt ?s ! i) \<and> valid (ipt ?s ! j) \<and>
      virtualPage (ipt ?s ! i) = virtualPage (ipt ?s ! j) \<and> processID (ipt ?s ! i) = processID (ipt ?s ! j)"
    show "i = j"
    proof (cases "i = f \<or> j = f")
      case True
      with a ij nres show ?thesis by (cases "i = f"; cases "j = f"; auto simp: e)
    next
      case False
      with a ij ipt_uniq [OF iok ij] show ?thesis by (simp add: e)
    qed
  qed
  have "tlb_ok cur (ipt ?s) (tlb s)"
  proof (rule tlb_ok_same [OF vm_invD(3) [OF inv]])
    fix k assume k: "k < 4" "valid (tlb s ! k)"
    with n have "physicalPage (tlb s ! k) \<noteq> int f" by (simp add: not_in_tlb_def)
    moreover have "0 \<le> physicalPage (tlb s ! k)" "physicalPage (tlb s ! k) < 32"
      using tlb_okD [OF vm_invD(3) [OF inv] k] by (simp_all add: tlb_entry_ok_def)
    ultimately have "ipt ?s ! nat (physicalPage (tlb s ! k)) = ipt s ! nat (physicalPage (tlb s ! k))"
      by (subst e) auto
    then show "let n = nat (physicalPage (tlb s ! k)) in ipt ?s ! n = ipt s ! n \<or>
       valid (ipt ?s ! n) = valid (ipt s ! n) \<and> virtualPage (ipt ?s ! n) = virtualPage (ipt s ! n) \<and>
       processID (ipt ?s ! n) = processID (ipt s ! n) \<and> (dirty (ipt ?s ! n) \<longrightarrow> dirty (tlb s ! k))"
      by (simp add: Let_def)
  qed
  moreover have "swap_ok ?s = swap_ok s" by (simp add: swap_ok_def swapped_def page_loaded_def)
  moreover have "vm_sizes ?s" using sz M(1) by (simp add: vm_sizes_def page_loaded_def)
  moreover have "clean_ok ?s"
  proof (rule clean_okI)
    fix g assume g: "g < 32" "valid (ipt ?s ! g)" "\<not> frame_dirty ?s g"
    show "take (length (backing ?s (processID (ipt ?s ! g)) (virtualPage (ipt ?s ! g)))) (frame_bytes g (mainMemory ?s))
      = backing ?s (processID (ipt ?s ! g)) (virtualPage (ipt ?s ! g))"
      using g M clean_okD [OF vm_invD(5) [OF inv] g(1)] fdo
      by (cases "g = f") (simp_all add: bk mm e)
  qed
  ultimately show "vm_inv cur ?s" using iok' vm_invD(4) [OF inv] by (simp add: vm_inv_def tl)
  note iff = frame_of_Some_iff [OF iok'] and iff0 = frame_of_Some_iff [OF iok]
  show fn: "frame_of ?s cur vpn = Some f" by (simp add: iff e f)
  have keep: "frame_of ?s p v = (if frame_of s p v = Some f then None else frame_of s p v)"
    if ne: "\<not> (p = cur \<and> v = vpn)" for p v
  proof (cases "frame_of s p v")
    case None
    then have "frame_of ?s p v = None" using ne by (auto simp: frame_of_None_iff e)
    with None show ?thesis by simp
  next
    case (Some g)
    then have g: "g < 32" "valid (ipt s ! g)" "virtualPage (ipt s ! g) = v" "processID (ipt s ! g) = p"
      by (simp_all add: iff0)
    show ?thesis
    proof (cases "g = f")
      case True
      have "frame_of ?s p v \<noteq> Some h" for h
      proof
        assume h: "frame_of ?s p v = Some h"
        then have h32: "h < 32" by (simp add: iff)
        show False
        proof (cases "h = f")
          case True
          with h f ne show False by (simp add: iff e)
        next
          case no: False
          with h h32 g ipt_uniq [OF iok h32 g(1)] True show False by (simp add: iff e)
        qed
      qed
      then have "frame_of ?s p v = None" by (simp add: not_Some_eq [symmetric] del: not_Some_eq)
      with Some True show ?thesis by simp
    next
      case False
      have "frame_of ?s p v = Some g" using g False by (simp add: iff e)
      with Some False show ?thesis by simp
    qed
  qed
  then show "\<forall>p v. (p, v) \<noteq> (cur, vpn) \<longrightarrow> frame_of ?s p v =
       (if frame_of s p v = Some f then None else frame_of s p v)" by simp
  have "page_bytes ?s p v = page_bytes s p v" for p v
  proof (cases "p = cur \<and> v = vpn")
    case True
    then show ?thesis using fn fdf new by (simp add: page_bytes_def bk)
  next
    case False
    note k = keep [OF False]
    show ?thesis
    proof (cases "frame_of s p v")
      case None
      with k show ?thesis by (simp add: page_bytes_def bk)
    next
      case (Some g)
      then have g: "g < 32" "valid (ipt s ! g)" "virtualPage (ipt s ! g) = v" "processID (ipt s ! g) = p"
        by (simp_all add: iff0)
      show ?thesis
      proof (cases "g = f")
        case True
        with old g Some k show ?thesis by (simp add: page_bytes_def [of ?s] bk)
      next
        case no: False
        with k Some fdo [OF g(1) no] M(2) [OF g(1) no] show ?thesis by (simp add: page_bytes_def bk mm)
      qed
    qed
  qed
  then show "page_bytes ?s = page_bytes s" by (intro ext)
qed

end
