(* ===== verification/Nachos_PageFault.thy ===== *)
theory Nachos_PageFault
  imports Nachos_Paging
begin

text \<open>
  The page-fault handler as a whole, memory accesses through the TLB, and the context switch, as
  operations on the abstract memory of \<open>Nachos_Paging\<close>; the properties of virtual memory with
  their witnesses, which run on a small example machine.
\<close>

section \<open>Making a page resident\<close>

text \<open>Under the FIFO policy the queue lists the loaded frames, oldest first.\<close>

definition fifo_ok :: "vm \<Rightarrow> bool" where
  "fifo_ok s \<longleftrightarrow> distinct (iptQueue s) \<and> set (iptQueue s) = int ` {f. f < 32 \<and> valid (ipt s ! f)}"

text \<open>The frame that a page fault on \<open>vpn\<close> takes away from its page.\<close>

definition evicted :: "int \<Rightarrow> int \<Rightarrow> vm \<Rightarrow> nat option" where
  "evicted cur vpn s =
     (if frame_of s cur vpn \<noteq> None \<or> searchForEmptyEntry (ipt s) \<noteq> -1 \<or> iptQueue s = [] then None
      else Some (nat (hd (iptQueue s))))"

definition swap_free :: "vm \<Rightarrow> bool" where
  "swap_free s \<longleftrightarrow> bm_set (swapFileMap s) \<noteq> {i. int i < numBits (swapFileMap s)}"

lemma searchForEmptyEntry_cases:
  obtains (full) "searchForEmptyEntry t = -1" "\<And>i. i < 32 \<Longrightarrow> valid (t ! i)"
  | (empty) f where "searchForEmptyEntry t = int f" "f < 32" "\<not> valid (t ! f)"
proof (cases "first_from (\<lambda>i. \<not> valid (t ! i)) 0 NumPhysPages")
  case None
  then show ?thesis using full by (auto simp: searchForEmptyEntry_def first_from_None NumPhysPages_def)
next
  case (Some f)
  with first_from_Some [OF Some] show ?thesis
    using empty by (auto simp: searchForEmptyEntry_def NumPhysPages_def)
qed

lemma fifo_ok_same_map:
  assumes "fifo_ok s" "same_map (ipt s) (ipt s')" "iptQueue s' = iptQueue s"
  shows "fifo_ok s'"
proof -
  have "{f. f < 32 \<and> valid (ipt s' ! f)} = {f. f < 32 \<and> valid (ipt s ! f)}"
    using same_mapD(1) [OF assms(2)] by blast
  with assms show ?thesis by (simp add: fifo_ok_def)
qed

text \<open>A frame leaves the queue at its head, or was free, and enters it at the end.\<close>

lemma fifo_ok_loaded:
  assumes "length (ipt s) = 32" "f < 32" "distinct q" "set q = int ` {g. g < 32 \<and> g \<noteq> f \<and> valid (ipt s ! g)}"
    "iptQueue s = q"
  shows "fifo_ok (page_loaded cur vpn f M s)"
proof -
  let ?s = "page_loaded cur vpn f M s"
  have v: "valid (ipt ?s ! g) \<longleftrightarrow> g = f \<or> valid (ipt s ! g)" if "g < 32" for g
    using that assms(1) by (simp add: page_loaded_def nth_list_update')
  have "{g. g < 32 \<and> valid (ipt ?s ! g)} = insert f {g. g < 32 \<and> g \<noteq> f \<and> valid (ipt s ! g)}"
    using v assms(2) by blast
  moreover have "iptQueue ?s = q_append (int f) q" using assms(5) by (simp add: page_loaded_def)
  moreover have "int f \<notin> set q" using assms(4) by auto
  ultimately show ?thesis using assms(3,4) by (simp add: fifo_ok_def)
qed

lemma not_in_tlb_free:
  assumes "vm_inv cur s" "\<not> valid (ipt s ! f)"
  shows "not_in_tlb f s"
  unfolding not_in_tlb_def
proof (intro allI impI notI)
  fix k assume k: "k < 4" "valid (tlb s ! k)" "physicalPage (tlb s ! k) = int f"
  have "valid (ipt s ! nat (physicalPage (tlb s ! k)))"
    using tlb_okD [OF vm_invD(3) [OF assms(1)] k(1,2)] by (simp add: tlb_entry_ok_def Let_def)
  with k(3) assms(2) show False by simp
qed

lemma load_into:
  assumes inv: "vm_inv cur s" and f: "f < 32" and tab: "table2_ok cur vpn" and new: "frame_of s cur vpn = None"
    and n: "not_in_tlb f s" and pt: "in_range vpn (pageTables s cur)"
    and old: "valid (ipt s ! f) \<Longrightarrow> backing s (processID (ipt s ! f)) (virtualPage (ipt s ! f)) =
       page_bytes s (processID (ipt s ! f)) (virtualPage (ipt s ! f))"
    and q: "distinct (iptQueue s)" "set (iptQueue s) = int ` {g. g < 32 \<and> g \<noteq> f \<and> valid (ipt s ! g)}"
  obtains s' where "bindE (fill_frame cur vpn (int f) s) (\<lambda>s5. bindE (mark_loaded cur vpn s5) (\<lambda>s6.
         bindE (updateEntry (int f) vpn cur True s6) (\<lambda>s7. Inr (int f, s7)))) = Inr (int f, s')"
    "vm_inv cur s'" "fifo_ok s'" "page_bytes s' = page_bytes s" "frame_of s' cur vpn = Some f"
    "\<forall>p v. (p, v) \<noteq> (cur, vpn) \<longrightarrow> frame_of s' p v = (if frame_of s p v = Some f then None else frame_of s p v)" "same_tlb_pages s s'"
    "iptQueue s' = iptQueue s @ [int f]"
proof -
  note sz = vm_sizesD [OF vm_invD(1) [OF inv]]
  obtain M where M: "fill_frame cur vpn (int f) s = Inr (s\<lparr>mainMemory := M\<rparr>)" "length M = 4096"
    "\<And>g. g < 32 \<Longrightarrow> g \<noteq> f \<Longrightarrow> frame_bytes g M = frame_bytes g (mainMemory s)"
    "take (length (backing s cur vpn)) (frame_bytes f M) = backing s cur vpn"
    using fill_frame_ok [OF vm_invD(1) [OF inv] vm_invD(4) [OF inv] f tab] by blast
  note pl = page_loaded_ok [OF inv f tab new n old M(2-4)]
  have st: "same_tlb_pages s (page_loaded cur vpn f M s)"
    "iptQueue (page_loaded cur vpn f M s) = iptQueue s @ [int f]"
    by (simp_all add: same_tlb_pages_def page_loaded_def q_append_def)
  show ?thesis
    by (rule that [OF load_steps [OF M(1) _ pt] pl(1) fifo_ok_loaded [OF sz(3) f q refl] pl(2,3,4) st])
      (use f sz in simp_all)
qed

text \<open>\<open>PageFault_load\<close> makes the page resident and keeps what every page holds.\<close>

lemma PageFault_load_ok:
  assumes inv: "vm_inv cur s" and fifo: "fifo_ok s" and tab: "table2_ok cur vpn"
    and pt: "in_range vpn (pageTables s cur)" and free: "swap_free s"
    and na: "\<And>f. evicted cur vpn s = Some f \<Longrightarrow> no_alias f s"
  obtains f s' where "PageFault_load FIFO draws cur vpn s = Inr (int f, s')"
    "vm_inv cur s'" "fifo_ok s'" "page_bytes s' = page_bytes s" "frame_of s' cur vpn = Some f"
    "\<forall>p v. (p, v) \<noteq> (cur, vpn) \<longrightarrow> frame_of s' p v =
       (if frame_of s p v = evicted cur vpn s then None else frame_of s p v)"
    "same_tlb_pages s s'"
    "iptQueue s' = (if frame_of s cur vpn \<noteq> None then iptQueue s
       else (if evicted cur vpn s = None then iptQueue s else tl (iptQueue s)) @ [int f])"
    "evicted cur vpn s \<noteq> None \<longrightarrow> evicted cur vpn s = Some f"
proof (cases "frame_of s cur vpn")
  case (Some f)
  then have "PageFault_load FIFO draws cur vpn s = Inr (int f, s)" "evicted cur vpn s = None"
    by (simp_all add: PageFault_load_def searchForEntry_frame_of evicted_def)
  then show ?thesis using that [of f s] inv fifo Some by (simp add: same_tlb_pages_def)
next
  case new: None
  note sz = vm_sizesD [OF vm_invD(1) [OF inv]]
  show ?thesis
  proof (cases "ipt s" rule: searchForEmptyEntry_cases)
    case (empty f)
    have set: "set (iptQueue s) = int ` {g. g < 32 \<and> g \<noteq> f \<and> valid (ipt s ! g)}"
    proof -
      have "{g. g < 32 \<and> valid (ipt s ! g)} = {g. g < 32 \<and> g \<noteq> f \<and> valid (ipt s ! g)}" using empty by blast
      with fifo show ?thesis by (simp add: fifo_ok_def)
    qed
    have ev: "evicted cur vpn s = None" using empty by (simp add: evicted_def)
    have d: "distinct (iptQueue s)" using fifo by (simp add: fifo_ok_def)
    obtain s' where s': "bindE (fill_frame cur vpn (int f) s) (\<lambda>s5. bindE (mark_loaded cur vpn s5) (\<lambda>s6.
         bindE (updateEntry (int f) vpn cur True s6) (\<lambda>s7. Inr (int f, s7)))) = Inr (int f, s')"
      "vm_inv cur s'" "fifo_ok s'" "page_bytes s' = page_bytes s" "frame_of s' cur vpn = Some f"
      "\<forall>p v. (p, v) \<noteq> (cur, vpn) \<longrightarrow> frame_of s' p v = (if frame_of s p v = Some f then None else frame_of s p v)" "same_tlb_pages s s'"
      "iptQueue s' = iptQueue s @ [int f]"
      using load_into [OF inv empty(2) tab new not_in_tlb_free [OF inv empty(3)] pt _ d set] empty(3) by blast
    have "PageFault_load FIFO draws cur vpn s = Inr (int f, s')"
      using s'(1) empty(1) new by (simp add: PageFault_load_def searchForEntry_frame_of)
    moreover have "frame_of s p v \<noteq> Some f" for p v
      using empty(3) frame_of_Some_iff [OF vm_invD(2) [OF inv]] by metis
    ultimately show ?thesis using that [of f s'] s' ev new by simp
  next
    case full
    have "set (iptQueue s) = int ` {f. f < 32}"
    proof -
      have "{g. g < 32 \<and> valid (ipt s ! g)} = {g. g < 32}" using full by blast
      with fifo show ?thesis by (simp add: fifo_ok_def)
    qed
    moreover from this have "int 0 \<in> set (iptQueue s)" by (simp only: image_iff) auto
    then have "iptQueue s \<noteq> []" by auto
    moreover have "hd (iptQueue s) \<in> set (iptQueue s)" using \<open>iptQueue s \<noteq> []\<close> by simp
    ultimately obtain f where f: "f < 32" "iptQueue s = int f # tl (iptQueue s)" "hd (iptQueue s) = int f"
      by (metis (no_types, lifting) image_iff list.collapse mem_Collect_eq)
    have ev: "evicted cur vpn s = Some f" using full f(2,3) new by (auto simp: evicted_def)
    let ?s1 = "s\<lparr>iptQueue := tl (iptQueue s)\<rparr>"
    have cv: "choose_victim FIFO draws s = Inr (int f, ?s1)"
      using f(2) by (simp add: choose_victim_def chooseEvictionPageLRU_def) (metis list.sel(3) q_remove.simps(2) case_prod_conv option.simps(5))
    have vf: "valid (ipt s ! f)" by (rule full(2) [OF f(1)])
    have inv1: "vm_inv cur ?s1" and pb1: "page_bytes ?s1 = page_bytes s"
      using vm_cong [OF inv, of ?s1 cur] vm_invD(3) [OF inv] sz
      by (simp_all add: same_store_def frame_dirty_def)
    have na1: "no_alias f ?s1" using na [OF ev] by (simp add: no_alias_def)
    have vf1: "valid (ipt ?s1 ! f)" using vf by simp
    obtain s2 where c: "collect_dirty (int f) ?s1 = Inr s2" "vm_inv cur s2" "not_in_tlb f s2"
      "page_bytes s2 = page_bytes ?s1" "same_map (ipt ?s1) (ipt s2)"
      "same_tlb_pages ?s1 s2" "swapFileMap s2 = swapFileMap ?s1" "iptQueue s2 = iptQueue ?s1"
      "pageTables s2 = pageTables ?s1"
      by (rule collect_dirty_ok [OF inv1 f(1) vf1 na1])
    have vf2: "valid (ipt s2 ! f)" using vf same_mapD(1) [OF c(5) f(1)] by simp
    have free2: "bm_set (swapFileMap s2) \<noteq> {i. int i < numBits (swapFileMap s2)}"
      using free by (simp add: swap_free_def c(7))
    from write_victim_ok [OF c(2) f(1) vf2 c(3) free2] obtain s3 where
      w: "write_victim (int f) s2 = Inr s3" "vm_inv cur s3" "page_bytes s3 = page_bytes s2"
      "backing s3 (processID (ipt s2 ! f)) (virtualPage (ipt s2 ! f)) =
         page_bytes s2 (processID (ipt s2 ! f)) (virtualPage (ipt s2 ! f))"
      "ipt s3 = ipt s2" "tlb s3 = tlb s2" "nextTLB s3 = nextTLB s2" "iptQueue s3 = iptQueue s2"
      "pageTables s3 = pageTables s2" by blast
    have q3: "iptQueue s3 = tl (iptQueue s)" using w(8) c(8) by simp
    have mp: "same_map (ipt s) (ipt s3)" using c(5) w(5) by simp
    have fr: "frame_of s3 p v = frame_of s p v" for p v by (rule frame_of_same_map [OF mp])
    have dq: "distinct (iptQueue s3)" using fifo f(2) q3 by (metis distinct_tl fifo_ok_def)
    have sq: "set (iptQueue s3) = int ` {g. g < 32 \<and> g \<noteq> f \<and> valid (ipt s3 ! g)}"
    proof -
      have "set (iptQueue s3) = set (iptQueue s) - {int f}"
        using fifo f(2) q3 unfolding fifo_ok_def by (metis Diff_insert_absorb distinct.simps(2) list.simps(15))
      also have "\<dots> = int ` {g. g < 32 \<and> g \<noteq> f \<and> valid (ipt s3 ! g)}"
        using fifo same_mapD(1) [OF mp] by (auto simp: fifo_ok_def)
      finally show ?thesis .
    qed
    have n3: "not_in_tlb f s3" using c(3) w(6) by (simp add: not_in_tlb_def)
    have old: "backing s3 (processID (ipt s3 ! f)) (virtualPage (ipt s3 ! f)) =
       page_bytes s3 (processID (ipt s3 ! f)) (virtualPage (ipt s3 ! f))"
      using w(3,4,5) by simp
    have new3: "frame_of s3 cur vpn = None" using new fr by simp
    have pt3: "in_range vpn (pageTables s3 cur)" using pt w(9) c(9) by simp
    obtain s' where s': "bindE (fill_frame cur vpn (int f) s3) (\<lambda>s5. bindE (mark_loaded cur vpn s5) (\<lambda>s6.
         bindE (updateEntry (int f) vpn cur True s6) (\<lambda>s7. Inr (int f, s7)))) = Inr (int f, s')"
      "vm_inv cur s'" "fifo_ok s'" "page_bytes s' = page_bytes s3" "frame_of s' cur vpn = Some f"
      "\<forall>p v. (p, v) \<noteq> (cur, vpn) \<longrightarrow> frame_of s' p v = (if frame_of s3 p v = Some f then None else frame_of s3 p v)" "same_tlb_pages s3 s'"
      "iptQueue s' = iptQueue s3 @ [int f]"
      using load_into [OF w(2) f(1) tab new3 n3 pt3 old dq sq] by blast
    have r: "PageFault_load FIFO draws cur vpn s = Inr (int f, s')"
      using s'(1) full(1) new cv c(1) w(1) by (simp add: PageFault_load_def searchForEntry_frame_of)
    have pb: "page_bytes s' = page_bytes s" using s'(4) w(3) c(4) pb1 by simp
    have st: "same_tlb_pages s s'" using s'(7) c(6) w(6,7) by (simp add: same_tlb_pages_def)
    have keep: "\<forall>p v. (p, v) \<noteq> (cur, vpn) \<longrightarrow> frame_of s' p v =
       (if frame_of s p v = evicted cur vpn s then None else frame_of s p v)"
      using s'(6) fr ev by simp
    have ev': "evicted cur vpn s \<noteq> None \<longrightarrow> evicted cur vpn s = Some f" using ev by simp
    have q: "iptQueue s' = (if frame_of s cur vpn \<noteq> None then iptQueue s
       else (if evicted cur vpn s = None then iptQueue s else tl (iptQueue s)) @ [int f])"
      using s'(8) q3 new ev by simp
    show ?thesis by (rule that [OF r s'(2,3) pb s'(5) keep st q ev'])
  qed
qed

section \<open>Replacing a TLB entry\<close>

text \<open>The entry to be replaced, and the frame of its page in the running process.\<close>

definition next_entry :: "vm \<Rightarrow> TranslationEntry" where
  "next_entry s = tlb s ! nat (nextTLB s)"

text \<open>When the page of that entry is not resident, the searches return \<open>-1\<close>, which is used as an index.\<close>

lemma PageFault_tlb_missing:
  assumes "vm_sizes s" "frame_of s cur (virtualPage (next_entry s)) = None"
  shows "PageFault_tlb cur f s = Inl OutOfBounds"
proof -
  have g: "arr_get (tlb s) (nextTLB s) = Inr (next_entry s)"
    using assms(1) by (simp add: vm_sizes_def arr_get_def in_range_def next_entry_def)
  have m: "arr_get t (-1) = Inl OutOfBounds" for t :: "IPTTranslationEntry list"
    by (simp add: arr_get_def in_range_def)
  have k: "searchForEntry (virtualPage (next_entry s)) cur (ipt s) = -1"
    using assms(2) by (simp add: searchForEntry_frame_of)
  show ?thesis by (simp add: PageFault_tlb_def g k m Let_def)
qed

definition tlb_replaced :: "nat \<Rightarrow> nat \<Rightarrow> vm \<Rightarrow> vm" where
  "tlb_replaced g f s =
     (let te = next_entry s; e = ipt s ! g;
          t = (ipt s)[g := e\<lparr>dirty := (if valid te \<and> dirty te then True else dirty e), use := False\<rparr>];
          p = t ! f in
      s\<lparr>ipt := t, tlb := (tlb s)[nat (nextTLB s) := \<lparr>virtualPage = virtualPage p, physicalPage = physicalPage p,
          valid = True, readOnly = False, use = False, dirty = dirty p\<rparr>],
        nextTLB := (nextTLB s + 1) mod 4\<rparr>)"

lemma PageFault_tlb_eq:
  assumes "vm_sizes s" "frame_of s cur (virtualPage (next_entry s)) = Some g" "g < 32" "f < 32"
  shows "PageFault_tlb cur (int f) s = Inr (tlb_replaced g f s)"
proof -
  note sz = vm_sizesD [OF assms(1)]
  have a: "arr_get (tlb s) (nextTLB s) = Inr (next_entry s)"
    "arr_set (tlb s) (nextTLB s) e = Inr ((tlb s)[nat (nextTLB s) := e])" for e
    using sz by (simp_all add: arr_get_def arr_set_def in_range_def next_entry_def)
  have k: "searchForEntry (virtualPage (next_entry s)) cur (ipt s) = int g"
    using assms(2) by (simp add: searchForEntry_frame_of)
  have k': "searchForEntry (virtualPage (next_entry s)) cur ((ipt s)[g := (ipt s ! g)\<lparr>dirty := True\<rparr>]) = int g"
  proof -
    let ?s = "s\<lparr>ipt := (ipt s)[g := (ipt s ! g)\<lparr>dirty := True\<rparr>]\<rparr>"
    have "frame_of ?s cur (virtualPage (next_entry s)) = Some g"
      using frame_of_same_map [of s ?s cur "virtualPage (next_entry s)"]
        same_map_update [OF sz(3), of "(ipt s ! g)\<lparr>dirty := True\<rparr>" g] assms(2) by simp
    then show ?thesis using searchForEntry_frame_of [of _ _ ?s] by simp
  qed
  show ?thesis
    using assms(3,4) sz
    by (cases "valid (next_entry s) \<and> dirty (next_entry s)")
      (auto simp: PageFault_tlb_def a k k' Let_def tlb_replaced_def UpdateTLBEntry_def TLBSize_def)
qed

lemma PageFault_tlb_ok:
  assumes inv: "vm_inv cur s" and fifo: "fifo_ok s" and f: "frame_of s cur vpn = Some f"
    and fresh: "\<And>k. k < 4 \<Longrightarrow> valid (tlb s ! k) \<Longrightarrow> virtualPage (tlb s ! k) \<noteq> vpn"
    and g: "frame_of s cur (virtualPage (next_entry s)) = Some g"
  shows "PageFault_tlb cur (int f) s = Inr (tlb_replaced g f s)" "vm_inv cur (tlb_replaced g f s)"
    "fifo_ok (tlb_replaced g f s)" "page_bytes (tlb_replaced g f s) = page_bytes s"
    "frame_of (tlb_replaced g f s) = frame_of s"
    "tlb (tlb_replaced g f s) ! nat (nextTLB s) = \<lparr>virtualPage = vpn, physicalPage = int f,
       valid = True, readOnly = False, use = False, dirty = dirty (ipt (tlb_replaced g f s) ! f)\<rparr>"
proof -
  let ?s = "tlb_replaced g f s" and ?te = "next_entry s" and ?i = "nat (nextTLB s)"
  note sz = vm_sizesD [OF vm_invD(1) [OF inv]] and iok = vm_invD(2) [OF inv] and tok = vm_invD(3) [OF inv]
  have f4: "f < 32" "valid (ipt s ! f)" "virtualPage (ipt s ! f) = vpn" "processID (ipt s ! f) = cur"
    using f frame_of_Some_iff [OF iok] by simp_all
  have g4: "g < 32" "valid (ipt s ! g)" "virtualPage (ipt s ! g) = virtualPage ?te" "processID (ipt s ! g) = cur"
    using g frame_of_Some_iff [OF iok] by simp_all
  have i: "?i < 4" "tlb s ! ?i = ?te" using sz by (simp_all add: next_entry_def)
  show "PageFault_tlb cur (int f) s = Inr ?s"
    by (rule PageFault_tlb_eq [OF vm_invD(1) [OF inv] g g4(1) f4(1)])
  have phys: "physicalPage ?te = int g" if v: "valid ?te"
  proof -
    have "tlb_entry_ok cur (ipt s) ?te" using tlb_okD [OF tok i(1)] v i(2) by simp
    then obtain h where h: "h < 32" "physicalPage ?te = int h" "valid (ipt s ! h)"
      "virtualPage (ipt s ! h) = virtualPage ?te" "processID (ipt s ! h) = cur" by (rule tlb_entry_frame)
    then have "h = g" using ipt_uniq [OF iok h(1) g4(1)] g4 by simp
    with h show ?thesis by simp
  qed
  have e: "ipt ?s ! h = (if h = g then (ipt s ! g)\<lparr>dirty := (if valid ?te \<and> dirty ?te then True else dirty (ipt s ! g)),
      use := False\<rparr> else ipt s ! h)" if "h < 32" for h
    using that sz by (simp add: tlb_replaced_def Let_def)
  have mp: "same_map (ipt s) (ipt ?s)"
    using sz by (auto simp: tlb_replaced_def Let_def intro!: same_map_update)
  have pf: "physicalPage (ipt s ! f) = int f" by (rule ipt_okD(1) [OF iok f4(1,2)])
  have new: "tlb ?s ! ?i = \<lparr>virtualPage = vpn, physicalPage = int f,
       valid = True, readOnly = False, use = False, dirty = dirty (ipt ?s ! f)\<rparr>"
    using f4 pf i sz same_mapD [OF mp f4(1)] e [OF f4(1)] by (auto simp: tlb_replaced_def Let_def nth_list_update')
  then show "tlb ?s ! ?i = \<lparr>virtualPage = vpn, physicalPage = int f,
       valid = True, readOnly = False, use = False, dirty = dirty (ipt ?s ! f)\<rparr>" .
  have oth: "tlb ?s ! k = tlb s ! k" if "k < 4" "k \<noteq> ?i" for k
    using that sz by (simp add: tlb_replaced_def Let_def)
  have st: "same_store s ?s" by (simp add: same_store_def tlb_replaced_def Let_def)
  have d: "frame_dirty ?s h = frame_dirty s h" if h: "h < 32" for h
  proof
    assume "frame_dirty ?s h"
    then consider "dirty (ipt ?s ! h)" | k where "k < 4" "valid (tlb ?s ! k)" "physicalPage (tlb ?s ! k) = int h"
      "dirty (tlb ?s ! k)" by (auto simp: frame_dirty_def TLBSize_def)
    moreover have base: "frame_dirty s h" if "dirty (ipt ?s ! h)"
    proof (cases "h = g \<and> valid ?te \<and> dirty ?te")
      case True
      with phys i show ?thesis unfolding frame_dirty_def TLBSize_def by metis
    next
      case False
      with that show ?thesis by (auto simp: e [OF h] frame_dirty_def split: if_splits)
    qed
    ultimately show "frame_dirty s h"
    proof cases
      case 2
      show ?thesis
      proof (cases "k = ?i")
        case True
        with 2 new base show ?thesis by simp
      next
        case False
        with 2 oth show ?thesis unfolding frame_dirty_def TLBSize_def by metis
      qed
    qed
  next
    assume "frame_dirty s h"
    then consider "dirty (ipt s ! h)" | k where "k < 4" "valid (tlb s ! k)" "physicalPage (tlb s ! k) = int h"
      "dirty (tlb s ! k)" by (auto simp: frame_dirty_def TLBSize_def)
    then show "frame_dirty ?s h"
    proof cases
      case 1
      then show ?thesis by (auto simp: frame_dirty_def e [OF h])
    next
      case 2
      show ?thesis
      proof (cases "k = ?i")
        case True
        with 2 phys i have "h = g" "valid ?te" "dirty ?te" by auto
        then show ?thesis by (simp add: frame_dirty_def e [OF g4(1)])
      next
        case False
        with 2 oth show ?thesis unfolding frame_dirty_def TLBSize_def by metis
      qed
    qed
  qed
  have ent: "tlb_entry_ok cur (ipt ?s) (tlb ?s ! k)" if k: "k < 4" "valid (tlb ?s ! k)" for k
  proof (cases "k = ?i")
    case True
    show ?thesis unfolding True new
      by (rule tlb_entry_okI [OF f4(1)]) (use f4 same_mapD [OF mp f4(1)] in simp_all)
  next
    case False
    with k oth have vs: "valid (tlb s ! k)" "tlb ?s ! k = tlb s ! k" by simp_all
    from tlb_okD [OF tok k(1) vs(1)] obtain h where h: "h < 32" "physicalPage (tlb s ! k) = int h"
      "valid (ipt s ! h)" "virtualPage (ipt s ! h) = virtualPage (tlb s ! k)" "processID (ipt s ! h) = cur"
      "dirty (ipt s ! h) \<longrightarrow> dirty (tlb s ! k)" "\<not> readOnly (tlb s ! k)" by (rule tlb_entry_frame)
    have "dirty (ipt ?s ! h) \<longrightarrow> dirty (tlb s ! k)"
    proof (cases "h = g \<and> valid ?te \<and> dirty ?te")
      case True
      then have "virtualPage (tlb s ! k) = virtualPage (tlb s ! ?i)" using h g4 i by simp
      with tlb_uniq [OF tok k(1) i(1) vs(1)] True i have "k = ?i" by simp
      with False show ?thesis by simp
    next
      case False
      with h(6) show ?thesis by (auto simp: e [OF h(1)])
    qed
    then show ?thesis unfolding vs(2)
      by (intro tlb_entry_okI [OF h(1,2)]) (use h same_mapD [OF mp h(1)] in simp_all)
  qed
  have fr: "virtualPage (tlb ?s ! l) \<noteq> vpn" if "l < 4" "l \<noteq> ?i" "valid (tlb ?s ! l)" for l
    using fresh [OF that(1)] oth [OF that(1,2)] that(3) by simp
  have "tlb_ok cur (ipt ?s) (tlb ?s)"
    unfolding tlb_ok_def
  proof (intro conjI allI impI)
    fix k l :: nat
    assume kl: "k < 4" "l < 4" and a: "valid (tlb ?s ! k) \<and> valid (tlb ?s ! l) \<and>
      virtualPage (tlb ?s ! k) = virtualPage (tlb ?s ! l)"
    show "k = l"
    proof (cases "k = ?i \<or> l = ?i")
      case True
      then have "virtualPage (tlb ?s ! k) = vpn \<or> virtualPage (tlb ?s ! l) = vpn" using new by auto
      then have "k = ?i" "l = ?i" using fr [OF kl(1)] fr [OF kl(2)] a by metis+
      then show ?thesis by simp
    next
      case False
      with a oth kl tlb_uniq [OF tok kl] show ?thesis by simp
    qed
  qed (use ent in blast)
  moreover have "length (tlb ?s) = 4" "0 \<le> nextTLB ?s" "nextTLB ?s < 4"
    using sz by (simp_all add: tlb_replaced_def Let_def)
  ultimately show "vm_inv cur ?s" "page_bytes ?s = page_bytes s"
    using vm_cong [OF inv st mp d] by simp_all
  show "fifo_ok ?s" using fifo_ok_same_map [OF fifo mp] by (simp add: tlb_replaced_def Let_def)
  show "frame_of ?s = frame_of s" by (intro ext frame_of_same_map [OF mp])
qed

section \<open>Translation\<close>

definition aligned :: "32 word \<Rightarrow> nat \<Rightarrow> bool" where
  "aligned va sz \<longleftrightarrow> \<not> ((sz = 4 \<and> va AND 3 \<noteq> 0) \<or> (sz = 2 \<and> va AND 1 \<noteq> 0))"

definition page_of :: "32 word \<Rightarrow> int" where
  "page_of va = int (unat va div 128)"

definition offset_of :: "32 word \<Rightarrow> nat" where
  "offset_of va = unat va mod 128"

lemma offset_of_less [simp]: "offset_of va < 128"
  by (simp add: offset_of_def)

lemma and_3: "(va AND 3 :: 32 word) = 0 \<longleftrightarrow> unat va mod 4 = 0"
proof -
  have "va AND 3 = take_bit 2 va" using take_bit_eq_mask [of 2 va] by (simp add: numeral_2_eq_2 mask_Suc_exp)
  moreover have "unat (take_bit 2 va) = unat va mod 4"
    unfolding unsigned_take_bit_eq by (simp add: take_bit_eq_mod)
  ultimately show ?thesis by (metis unsigned_0 unsigned_eq_0_iff)
qed

lemma and_1: "(va AND 1 :: 32 word) = 0 \<longleftrightarrow> unat va mod 2 = 0"
proof -
  have "va AND 1 = take_bit 1 va" using take_bit_eq_mask [of 1 va] by simp
  moreover have "unat (take_bit 1 va) = unat va mod 2"
    unfolding unsigned_take_bit_eq by (simp add: take_bit_eq_mod)
  ultimately show ?thesis by (metis unsigned_0 unsigned_eq_0_iff)
qed

text \<open>An aligned access does not cross the end of its page.\<close>

lemma aligned_offset:
  assumes "aligned va sz" "sz = 1 \<or> sz = 2 \<or> sz = 4"
  shows "offset_of va + sz \<le> 128"
proof -
  have "offset_of va mod sz = 0"
    using assms by (auto simp: aligned_def and_3 and_1 offset_of_def mod_mod_cancel)
  moreover have two: "n mod 2 = 0 \<Longrightarrow> n < 128 \<Longrightarrow> n + 2 \<le> 128"
    and four: "n mod 4 = 0 \<Longrightarrow> n < 128 \<Longrightarrow> n + 4 \<le> 128" for n :: nat by presburger+
  ultimately show ?thesis
    using assms(2) offset_of_less [of va] two [of "offset_of va"] four [of "offset_of va"]
    by (elim disjE) (simp_all del: offset_of_less)
qed

definition entry_used :: "nat \<Rightarrow> bool \<Rightarrow> vm \<Rightarrow> vm" where
  "entry_used k w s = s\<lparr>tlb := (tlb s)[k := (tlb s ! k)\<lparr>use := True, dirty := (w \<or> dirty (tlb s ! k))\<rparr>]\<rparr>"

text \<open>An access to a page with a TLB entry goes to the frame of the page.\<close>

lemma Translate_hit:
  assumes inv: "vm_inv cur s" and k: "k < 4" "valid (tlb s ! k)" "virtualPage (tlb s ! k) = page_of va"
    and al: "aligned va sz" "sz = 1 \<or> sz = 2 \<or> sz = 4"
    and f: "physicalPage (tlb s ! k) = int f"
  shows "Translate va sz w s = Inr (NoException, f * 128 + offset_of va, entry_used k w s)"
proof -
  have e: "tlb_entry_ok cur (ipt s) (tlb s ! k)" by (rule tlb_okD [OF vm_invD(3) [OF inv] k(1,2)])
  then have f32: "f < 32" using f by (simp add: tlb_entry_ok_def)
  have fst: "first_from (\<lambda>i. valid (tlb s ! i) \<and> virtualPage (tlb s ! i) = page_of va) 0 TLBSize = Some k"
  proof (rule first_from_SomeI)
    fix j assume "j < k"
    then show "\<not> (valid (tlb s ! j) \<and> virtualPage (tlb s ! j) = page_of va)"
      using tlb_uniq [OF vm_invD(3) [OF inv], of j k] k by auto
  qed (use k in \<open>auto simp: TLBSize_def\<close>)
  have "f * 128 + offset_of va + sz \<le> 4096" using f32 aligned_offset [OF al] by linarith
  with f f32 e al fst show ?thesis
    by (simp add: Translate_def aligned_def page_of_def offset_of_def PageSize_def NumPhysPages_def Let_def
        tlb_entry_ok_def entry_used_def)
qed

lemma hit_frame:
  assumes inv: "vm_inv cur s" and k: "k < 4" "valid (tlb s ! k)" "virtualPage (tlb s ! k) = v"
  obtains f where "physicalPage (tlb s ! k) = int f" "f < 32" "frame_of s cur v = Some f"
proof -
  obtain f where "f < 32" "physicalPage (tlb s ! k) = int f" "valid (ipt s ! f)"
    "virtualPage (ipt s ! f) = virtualPage (tlb s ! k)" "processID (ipt s ! f) = cur"
    by (rule tlb_entry_frame [OF tlb_okD [OF vm_invD(3) [OF inv] k(1,2)]])
  with k show ?thesis using that frame_of_Some_iff [OF vm_invD(2) [OF inv]] by simp
qed

lemma entry_used_simps [simp]:
  "ipt (entry_used k w s) = ipt s" "mainMemory (entry_used k w s) = mainMemory s"
  "nextTLB (entry_used k w s) = nextTLB s" "iptQueue (entry_used k w s) = iptQueue s"
  by (simp_all add: entry_used_def)

lemma entry_used_tlb:
  "length (tlb s) = 4 \<Longrightarrow> l < 4 \<Longrightarrow> tlb (entry_used k w s) ! l =
     (if l = k then (tlb s ! k)\<lparr>use := True, dirty := (w \<or> dirty (tlb s ! k))\<rparr> else tlb s ! l)"
  by (simp add: entry_used_def nth_list_update')

lemma entry_used_tlb_ok:
  assumes "vm_inv cur s" "k < 4"
  shows "tlb_ok cur (ipt s) (tlb (entry_used k w s))"
proof -
  note sz = vm_sizesD [OF vm_invD(1) [OF assms(1)]] and tok = vm_invD(3) [OF assms(1)]
  have same: "valid (tlb (entry_used k w s) ! l) = valid (tlb s ! l)"
    "virtualPage (tlb (entry_used k w s) ! l) = virtualPage (tlb s ! l)" if "l < 4" for l
    using entry_used_tlb [OF sz(2) that] by simp_all
  have "tlb_entry_ok cur (ipt s) (tlb (entry_used k w s) ! l)" if "l < 4" "valid (tlb s ! l)" for l
    using tlb_okD [OF tok that] entry_used_tlb [OF sz(2) that(1)] by (auto simp: tlb_entry_ok_def Let_def)
  then show ?thesis using tok same by (simp add: tlb_ok_def)
qed

lemma entry_read_ok:
  assumes inv: "vm_inv cur s" and k: "k < 4"
  shows "vm_inv cur (entry_used k False s)" "page_bytes (entry_used k False s) = page_bytes s"
proof -
  note sz = vm_sizesD [OF vm_invD(1) [OF inv]]
  have d: "frame_dirty (entry_used k False s) g = frame_dirty s g" for g
    by (rule frame_dirty_cong) (auto simp: entry_used_tlb [OF sz(2)])
  have st: "same_store s (entry_used k False s)" by (simp add: same_store_def entry_used_def)
  show "vm_inv cur (entry_used k False s)" "page_bytes (entry_used k False s) = page_bytes s"
    using vm_cong [OF inv st _ d, of cur] entry_used_tlb_ok [OF inv k, of False] sz
    by (simp_all add: entry_used_def)
qed

section \<open>Writing\<close>

definition page_written :: "nat \<Rightarrow> nat \<Rightarrow> nat \<Rightarrow> byte list \<Rightarrow> vm \<Rightarrow> vm" where
  "page_written k f off bs s =
     (entry_used k True s)\<lparr>mainMemory := store_bytes (f * 128 + off) bs (mainMemory s)\<rparr>"

lemma page_written_ok:
  assumes inv: "vm_inv cur s" and k: "k < 4" "valid (tlb s ! k)" and f: "physicalPage (tlb s ! k) = int f" "f < 32"
    and fr: "frame_of s cur v = Some f" and off: "off + length bs \<le> 128"
  shows "vm_inv cur (page_written k f off bs s)"
    "page_bytes (page_written k f off bs s) cur v = store_bytes off bs (frame_bytes f (mainMemory s))"
    "(p, v') \<noteq> (cur, v) \<Longrightarrow> page_bytes (page_written k f off bs s) p v' = page_bytes s p v'"
proof -
  let ?s = "page_written k f off bs s"
  note sz = vm_sizesD [OF vm_invD(1) [OF inv]] and iok = vm_invD(2) [OF inv]
  have t: "ipt ?s = ipt s" "tlb ?s = tlb (entry_used k True s)" "nextTLB ?s = nextTLB s"
    "mainMemory ?s = store_bytes (f * 128 + off) bs (mainMemory s)"
    by (simp_all add: page_written_def)
  have bk: "backing ?s = backing s" by (intro ext) (simp add: backing_def page_written_def entry_used_def)
  have fo: "frame_of ?s = frame_of s" by (intro ext) (simp add: frame_of_def t)
  have bnd: "f * 128 + off + length bs \<le> length (mainMemory s)" using f off sz by linarith
  have df: "frame_dirty ?s f"
    unfolding frame_dirty_def t TLBSize_def
    by (intro disjI2 exI [of _ k]) (simp add: entry_used_tlb [OF sz(2) k(1)] k f)
  have dg: "frame_dirty ?s g = frame_dirty s g" if "g \<noteq> f" for g
    by (rule frame_dirty_cong) (use that f in \<open>auto simp: t entry_used_tlb [OF sz(2)]\<close>)
  have fg: "frame_bytes g (mainMemory ?s) = frame_bytes g (mainMemory s)" if "g < 32" "g \<noteq> f" for g
    unfolding t by (rule frame_bytes_store_other [OF sz(1) f(2) that off])
  have "clean_ok ?s"
  proof (rule clean_okI)
    fix g assume g: "g < 32" "valid (ipt ?s ! g)" "\<not> frame_dirty ?s g"
    then have "g \<noteq> f" using df by auto
    with g show "take (length (backing ?s (processID (ipt ?s ! g)) (virtualPage (ipt ?s ! g)))) (frame_bytes g (mainMemory ?s))
      = backing ?s (processID (ipt ?s ! g)) (virtualPage (ipt ?s ! g))"
      using clean_okD [OF vm_invD(5) [OF inv] g(1)] dg fg by (simp add: bk t(1))
  qed
  moreover have "swap_ok ?s = swap_ok s"
    by (simp add: swap_ok_def swapped_def page_written_def entry_used_def)
  moreover have "vm_sizes ?s" using sz bnd by (simp add: vm_sizes_def t entry_used_def)
  ultimately show "vm_inv cur ?s"
    using inv entry_used_tlb_ok [OF inv k(1)] by (simp add: vm_inv_def t)
  show "page_bytes ?s cur v = store_bytes off bs (frame_bytes f (mainMemory s))"
    using frame_bytes_store_same [OF sz(1) f(2) off] by (simp add: page_bytes_def fo fr df t)
  assume ne: "(p, v') \<noteq> (cur, v)"
  show "page_bytes ?s p v' = page_bytes s p v'"
  proof (cases "frame_of s p v'")
    case None
    then show ?thesis by (simp add: page_bytes_def fo bk)
  next
    case (Some g)
    then have "g < 32" "g \<noteq> f" using ne fr by (auto simp: frame_of_Some_iff [OF iok])
    with Some dg fg show ?thesis by (simp add: page_bytes_def fo bk)
  qed
qed

lemma WriteMem_hit:
  assumes inv: "vm_inv cur s" and k: "k < 4" "valid (tlb s ! k)" "virtualPage (tlb s ! k) = page_of va"
    and al: "aligned va sz" "sz = 1 \<or> sz = 2 \<or> sz = 4" and f: "physicalPage (tlb s ! k) = int f"
  shows "WriteMem va sz x s = Inr (NoException, page_written k f (offset_of va) (bytes_of_word sz x) s)"
  using Translate_hit [OF inv k al f, of True] al(2) by (simp add: WriteMem_def page_written_def)

section \<open>Reading\<close>

text \<open>The value of \<open>sz\<close> bytes as \<open>ReadMem\<close> returns it.\<close>

definition read_value :: "nat \<Rightarrow> byte list \<Rightarrow> 32 word" where
  "read_value sz bs = (if sz = 1 then scast (hd bs) else word_of_bytes bs)"

lemma take_drop_mem:
  assumes "length mem = 4096" "f < 32" "off + n \<le> 128"
  shows "take n (drop (f * 128 + off) mem) = take n (drop off (frame_bytes f mem))"
  using assms by (simp add: frame_bytes_def PageSize_def drop_take min_absorb1 add.commute)

lemma ReadMem_hit:
  assumes inv: "vm_inv cur s" and k: "k < 4" "valid (tlb s ! k)" "virtualPage (tlb s ! k) = page_of va"
    and al: "aligned va sz" "sz = 1 \<or> sz = 2 \<or> sz = 4" and f: "physicalPage (tlb s ! k) = int f" "f < 32"
  shows "ReadMem va sz s = Inr (Inr (read_value sz (take sz (drop (offset_of va) (frame_bytes f (mainMemory s))))),
     entry_used k False s)"
proof -
  note sz = vm_sizesD [OF vm_invD(1) [OF inv]]
  have b: "f * 128 + offset_of va < length (mainMemory s)"
    using f(2) sz(1) offset_of_less [of va] by linarith
  note td = take_drop_mem [OF sz(1) f(2) aligned_offset [OF al]]
  have h: "hd (take (Suc 0) (drop (f * 128 + offset_of va) (mainMemory s))) = mainMemory s ! (f * 128 + offset_of va)"
    using b by (simp add: take_Suc hd_drop_conv_nth)
  show ?thesis
    unfolding read_value_def td [symmetric]
    using Translate_hit [OF inv k al f(1), of False] al(2) h
    by (elim disjE) (simp_all add: ReadMem_def)
qed

section \<open>The whole page fault\<close>

lemma cdiv_page_of: "cdiv (int (unat va)) 128 = page_of va"
  by (simp add: cdiv_def page_of_def zdiv_int)

lemma same_tlb_pages_next:
  assumes "same_tlb_pages s s'" "vm_sizes s"
  shows "virtualPage (next_entry s') = virtualPage (next_entry s)"
proof -
  have "nat (nextTLB s) < 4" using vm_sizesD [OF assms(2)] by simp
  with assms(1) show ?thesis by (simp add: same_tlb_pages_def next_entry_def)
qed

definition fault_ready :: "int \<Rightarrow> int \<Rightarrow> vm \<Rightarrow> bool" where
  "fault_ready cur vpn s \<longleftrightarrow> vm_inv cur s \<and> fifo_ok s \<and> table2_ok cur vpn \<and>
     in_range vpn (pageTables s cur) \<and> swap_free s \<and>
     (case evicted cur vpn s of None \<Rightarrow> True | Some f \<Rightarrow> no_alias f s)"

lemma fault_readyD:
  assumes "fault_ready cur vpn s"
  shows "vm_inv cur s" "fifo_ok s" "table2_ok cur vpn" "in_range vpn (pageTables s cur)" "swap_free s"
    "evicted cur vpn s = Some f \<Longrightarrow> no_alias f s"
  using assms by (simp_all add: fault_ready_def)

text \<open>The page of the TLB entry to be replaced stays resident, or is the page to be loaded.\<close>

definition slot_resident :: "int \<Rightarrow> int \<Rightarrow> vm \<Rightarrow> bool" where
  "slot_resident cur vpn s \<longleftrightarrow> virtualPage (next_entry s) = vpn \<or>
     frame_of s cur (virtualPage (next_entry s)) \<noteq> None \<and>
     frame_of s cur (virtualPage (next_entry s)) \<noteq> evicted cur vpn s"

lemma HandlePageFault_ok:
  assumes ready: "fault_ready cur vpn s" and slot: "slot_resident cur vpn s"
    and fresh: "SearchForTLBEntry vpn (tlb s) = -1" and a: "cdiv addr 128 = vpn"
  obtains s' f where "HandlePageFault FIFO draws cur addr s = Inr s'" "vm_inv cur s'" "fifo_ok s'"
    "page_bytes s' = page_bytes s" "f < 32" "frame_of s' cur vpn = Some f"
    "valid (tlb s' ! nat (nextTLB s))" "virtualPage (tlb s' ! nat (nextTLB s)) = vpn"
    "physicalPage (tlb s' ! nat (nextTLB s)) = int f" "0 \<le> nextTLB s" "nextTLB s < 4"
proof -
  note rd = fault_readyD [OF ready]
  obtain f s1 where l: "PageFault_load FIFO draws cur vpn s = Inr (int f, s1)"
    "vm_inv cur s1" "fifo_ok s1" "page_bytes s1 = page_bytes s" "frame_of s1 cur vpn = Some f"
    "\<forall>p v. (p, v) \<noteq> (cur, vpn) \<longrightarrow> frame_of s1 p v =
       (if frame_of s p v = evicted cur vpn s then None else frame_of s p v)"
    "same_tlb_pages s s1"
    by (rule PageFault_load_ok [OF rd, of draws])
  have ne: "virtualPage (next_entry s1) = virtualPage (next_entry s)"
    by (rule same_tlb_pages_next [OF l(7) vm_invD(1) [OF rd(1)]])
  have nx: "nextTLB s1 = nextTLB s" using l(7) by (simp add: same_tlb_pages_def)
  obtain g where g: "frame_of s1 cur (virtualPage (next_entry s1)) = Some g"
  proof (cases "virtualPage (next_entry s) = vpn")
    case True
    with l(5) ne that show ?thesis by simp
  next
    case False
    with slot obtain g where "frame_of s cur (virtualPage (next_entry s)) = Some g" "evicted cur vpn s \<noteq> Some g"
      by (auto simp: slot_resident_def)
    then have "frame_of s1 cur (virtualPage (next_entry s)) = Some g" using l(6) False by simp
    with ne that show ?thesis by simp
  qed
  have fr: "virtualPage (tlb s1 ! k) \<noteq> vpn" if "k < 4" "valid (tlb s1 ! k)" for k
    using fresh l(7) that by (auto simp: SearchForTLBEntry_None same_tlb_pages_def)
  note t = PageFault_tlb_ok [OF l(2,3,5) fr g]
  have r: "HandlePageFault FIFO draws cur addr s = Inr (tlb_replaced g f s1)"
    using l(1) t(1) a by (simp add: HandlePageFault_def Let_def)
  have f32: "f < 32" using l(5) frame_of_Some_iff [OF vm_invD(2) [OF l(2)]] by simp
  note sz = vm_sizesD [OF vm_invD(1) [OF rd(1)]]
  show ?thesis
    by (rule that [OF r t(2,3) _ f32]) (use t(4,5,6) l(4,5) nx sz in simp_all)
qed

text \<open>Otherwise the handler indexes the inverted page table with \<open>-1\<close>.\<close>

lemma HandlePageFault_slot_missing:
  assumes ready: "fault_ready cur vpn s" and slot: "\<not> slot_resident cur vpn s" and a: "cdiv addr 128 = vpn"
  shows "HandlePageFault FIFO draws cur addr s = Inl OutOfBounds"
proof -
  note rd = fault_readyD [OF ready]
  obtain f s1 where l: "PageFault_load FIFO draws cur vpn s = Inr (int f, s1)"
    "vm_inv cur s1" "fifo_ok s1" "page_bytes s1 = page_bytes s" "frame_of s1 cur vpn = Some f"
    "\<forall>p v. (p, v) \<noteq> (cur, vpn) \<longrightarrow> frame_of s1 p v =
       (if frame_of s p v = evicted cur vpn s then None else frame_of s p v)"
    "same_tlb_pages s s1"
    by (rule PageFault_load_ok [OF rd, of draws])
  have ne: "virtualPage (next_entry s1) = virtualPage (next_entry s)"
    by (rule same_tlb_pages_next [OF l(7) vm_invD(1) [OF rd(1)]])
  have "frame_of s1 cur (virtualPage (next_entry s1)) = None"
    using slot l(6) unfolding slot_resident_def ne by auto
  then have "PageFault_tlb cur (int f) s1 = Inl OutOfBounds"
    by (rule PageFault_tlb_missing [OF vm_invD(1) [OF l(2)]])
  with l(1) a show ?thesis by (simp add: HandlePageFault_def Let_def)
qed

section \<open>Words and bytes\<close>

lemma read_written_1: "scast (ucast x :: 8 word) = (signed_take_bit 7 x :: 32 word)"
  by (rule bit_word_eqI) (auto simp: bit_simps min_def)

text \<open>What a load gives after a store of the same width.\<close>

definition stored_value :: "nat \<Rightarrow> 32 word \<Rightarrow> 32 word" where
  "stored_value sz x = (if sz = 4 then x else if sz = 2 then take_bit 16 x else signed_take_bit 7 x)"

lemma read_written:
  assumes "sz = 1 \<or> sz = 2 \<or> sz = 4"
  shows "read_value sz (bytes_of_word sz x) = stored_value sz x"
  using assms
  by (auto simp: read_value_def stored_value_def read_written_4 read_written_2 bytes_of_word_1 read_written_1)

section \<open>Context switch\<close>

lemma invalidate_from_ok:
  assumes "vm_inv cur s" "i + n = 4" "\<forall>k<i. \<not> valid (tlb s ! k)"
  shows "\<exists>s'. invalidate_from i n s = Inr s' \<and> vm_inv cur s' \<and> page_bytes s' = page_bytes s \<and>
     same_map (ipt s) (ipt s') \<and> iptQueue s' = iptQueue s \<and> (\<forall>k<4. \<not> valid (tlb s' ! k))"
  using assms
proof (induction n arbitrary: i s)
  case 0
  then show ?case by simp
next
  case (Suc n)
  note inv = Suc.prems(1) and i = Suc.prems(2)
  note sz = vm_sizesD [OF vm_invD(1) [OF inv]]
  show ?case
  proof (cases "valid (tlb s ! i)")
    case True
    have i4: "i < 4" using i by simp
    obtain f where f: "physicalPage (tlb s ! i) = int f" "f < 32"
      using hit_frame [OF inv i4 True refl] by blast
    note d = entry_dropped_ok [OF inv i4 True f(1)]
    have r: "invalidate_from i (Suc n) s = invalidate_from (Suc i) n (entry_dropped i s)"
      using sz i4 f True by (simp add: entry_dropped_def Let_def)
    have "\<forall>k<Suc i. \<not> valid (tlb (entry_dropped i s) ! k)"
      using Suc.prems(3) sz i4 by (auto simp: entry_dropped_def Let_def less_Suc_eq nth_list_update')
    from Suc.IH [OF d(1) _ this] i obtain s' where s': "invalidate_from (Suc i) n (entry_dropped i s) = Inr s'"
      "vm_inv cur s'" "page_bytes s' = page_bytes (entry_dropped i s)" "same_map (ipt (entry_dropped i s)) (ipt s')"
      "iptQueue s' = iptQueue (entry_dropped i s)" "\<forall>k<4. \<not> valid (tlb s' ! k)" by auto
    have "same_map (ipt s) (ipt s')" using d(4) s'(4) by (simp add: same_map_def)
    moreover have "iptQueue (entry_dropped i s) = iptQueue s" by (simp add: entry_dropped_def Let_def)
    ultimately show ?thesis using r s' d(2) by (intro exI [of _ s']) simp
  next
    case False
    have i4: "i < 4" using i by simp
    have "tlb s ! i = (tlb s ! i)\<lparr>valid := False\<rparr>" using False by simp
    then have same: "(tlb s)[i := (tlb s ! i)\<lparr>valid := False\<rparr>] = tlb s" by (metis list_update_id)
    have r: "invalidate_from i (Suc n) s = invalidate_from (Suc i) n s"
      using sz i4 False same by simp
    have "\<forall>k<Suc i. \<not> valid (tlb s ! k)" using Suc.prems(3) False by (auto simp: less_Suc_eq)
    from Suc.IH [OF inv _ this] i r show ?thesis by simp
  qed
qed

lemma vm_inv_no_tlb:
  assumes "vm_inv cur s" "\<forall>k<4. \<not> valid (tlb s ! k)"
  shows "vm_inv cur' s"
proof -
  have "tlb_ok cur' (ipt s) (tlb s)" using assms(2) by (simp add: tlb_ok_def)
  with assms(1) show ?thesis by (simp add: vm_inv_def)
qed

section \<open>Properties\<close>

text \<open>
  A machine whose frame \<open>i\<close> holds the page \<open>ps ! i\<close>, given as process and page number, every byte of
  memory and executables being 7; TLB entry 0 is for frame 0, with dirty bit \<open>d\<close>.
\<close>

definition example_vm :: "(int \<times> int) list \<Rightarrow> bool \<Rightarrow> vm" where
  "example_vm ps d = \<lparr>mainMemory = replicate 4096 7,
     tlb = map (\<lambda>k. \<lparr>virtualPage = 0, physicalPage = 0, valid = (k = 0), readOnly = False, use = True,
       dirty = d\<rparr>) [0..<4],
     ipt = map (\<lambda>i. \<lparr>virtualPage = snd (ps ! i), physicalPage = int i, valid = (i < length ps), readOnly = False,
       use = True, dirty = False, processID = fst (ps ! i)\<rparr>) [0..<32],
     iptQueue = map int [0..<length ps], swapFile = [], swapFileMap = \<lparr>numBits = 32, numWords = 1, bmap = [0]\<rparr>,
     swapArray = \<lambda>_ _. 0, pageLocation = \<lambda>_ _. 0, nextTLB = 1,
     pageTables = \<lambda>_. replicate 64 \<lparr>virtualPage = 0, physicalPage = 0, valid = False, readOnly = False, use = False,
       dirty = False, pageType = None, ptPageLocation = None, executableByteOffset = 40, swapByteOffset = 0\<rparr>,
     executables = \<lambda>_. replicate 9000 7\<rparr>"

definition example_pages :: "(int \<times> int) list \<Rightarrow> bool" where
  "example_pages ps \<longleftrightarrow> distinct ps \<and> 0 < length ps \<and> length ps \<le> 32 \<and> ps ! 0 = (0, 0) \<and>
     (\<forall>x\<in>set ps. 0 \<le> fst x \<and> fst x < 10 \<and> 0 \<le> snd x \<and> snd x < 64)"

lemma example_vm_ipt: "i < 32 \<Longrightarrow> ipt (example_vm ps d) ! i =
    \<lparr>virtualPage = snd (ps ! i), physicalPage = int i, valid = (i < length ps), readOnly = False,
     use = True, dirty = False, processID = fst (ps ! i)\<rparr>"
  by (simp add: example_vm_def)

lemma example_vm_tlb: "k < 4 \<Longrightarrow> tlb (example_vm ps d) ! k =
    \<lparr>virtualPage = 0, physicalPage = 0, valid = (k = 0), readOnly = False, use = True, dirty = d\<rparr>"
  by (simp add: example_vm_def)

lemma example_vm_backing: "0 \<le> v \<Longrightarrow> v < 64 \<Longrightarrow> backing (example_vm ps d) p v = replicate 128 7"
  by (simp add: backing_def example_vm_def ReadAt_def PageSize_def min_def)

lemma example_vm_inv:
  assumes "example_pages ps"
  shows "vm_inv 0 (example_vm ps d)"
proof -
  have r: "0 \<le> fst (ps ! i)" "fst (ps ! i) < 10" "0 \<le> snd (ps ! i)" "snd (ps ! i) < 64" if "i < length ps" for i
    using assms that by (simp_all add: example_pages_def)
  have z: "ps ! 0 = (0, 0)" "0 < length ps" "ps ! 0 = (0, 0)" using assms by (simp_all add: example_pages_def)
  have "vm_sizes (example_vm ps d)" by (simp add: vm_sizes_def example_vm_def)
  moreover have "ipt_ok (ipt (example_vm ps d))"
    unfolding ipt_ok_def
  proof (intro conjI allI impI)
    fix i :: nat assume "i < 32" "valid (ipt (example_vm ps d) ! i)"
    then show "physicalPage (ipt (example_vm ps d) ! i) = int i"
      "table2_ok (processID (ipt (example_vm ps d) ! i)) (virtualPage (ipt (example_vm ps d) ! i))"
      using r [of i] by (simp_all add: example_vm_ipt table2_ok_def)
  next
    fix i j :: nat assume "i < 32" "j < 32" "valid (ipt (example_vm ps d) ! i) \<and> valid (ipt (example_vm ps d) ! j) \<and>
      virtualPage (ipt (example_vm ps d) ! i) = virtualPage (ipt (example_vm ps d) ! j) \<and>
      processID (ipt (example_vm ps d) ! i) = processID (ipt (example_vm ps d) ! j)"
    then have "i < length ps" "j < length ps" "ps ! i = ps ! j" by (simp_all add: example_vm_ipt prod_eq_iff)
    then show "i = j" using assms by (simp add: example_pages_def nth_eq_iff_index_eq)
  qed
  moreover have "tlb_ok 0 (ipt (example_vm ps d)) (tlb (example_vm ps d))"
    unfolding tlb_ok_def using z by (auto simp: example_vm_tlb tlb_entry_ok_def example_vm_ipt)
  moreover have "swap_ok (example_vm ps d)"
    by (simp add: swap_ok_def swapped_def example_vm_def bm_inv_def divRoundUp_def BitsInWord_def)
  moreover have "clean_ok (example_vm ps d)"
  proof (rule clean_okI)
    fix f assume f: "f < 32" "valid (ipt (example_vm ps d) ! f)" "\<not> frame_dirty (example_vm ps d) f"
    then have "backing (example_vm ps d) (processID (ipt (example_vm ps d) ! f)) (virtualPage (ipt (example_vm ps d) ! f)) =
      replicate 128 7" using r [of f] by (simp add: example_vm_ipt example_vm_backing)
    moreover have "frame_bytes f (mainMemory (example_vm ps d)) = replicate 128 7"
      using f(1) by (simp add: example_vm_def frame_bytes_def PageSize_def min_def)
    ultimately show "take (length (backing (example_vm ps d) (processID (ipt (example_vm ps d) ! f)) (virtualPage (ipt (example_vm ps d) ! f))))
        (frame_bytes f (mainMemory (example_vm ps d))) =
      backing (example_vm ps d) (processID (ipt (example_vm ps d) ! f)) (virtualPage (ipt (example_vm ps d) ! f))"
      by simp
  qed
  ultimately show ?thesis by (simp add: vm_inv_def)
qed

lemma example_vm_fifo:
  assumes "example_pages ps"
  shows "fifo_ok (example_vm ps d)"
proof -
  have "{f. f < 32 \<and> valid (ipt (example_vm ps d) ! f)} = {0..<length ps}"
    using assms by (auto simp: example_vm_ipt example_pages_def)
  then show ?thesis by (simp add: fifo_ok_def) (simp add: example_vm_def distinct_map)
qed

lemma example_vm_frame:
  assumes "example_pages ps" "i < length ps"
  shows "frame_of (example_vm ps d) (fst (ps ! i)) (snd (ps ! i)) = Some i"
proof -
  have "i < 32" using assms by (simp add: example_pages_def)
  with assms(2) show ?thesis
    using frame_of_Some_iff [OF vm_invD(2) [OF example_vm_inv [OF assms(1)]]] by (simp add: example_vm_ipt)
qed

lemma example_vm_not_resident: "(p, v) \<notin> set ps \<Longrightarrow> frame_of (example_vm ps d) p v = None"
  using nth_mem by (fastforce simp: frame_of_None_iff example_vm_ipt)

lemma example_vm_swap_free: "swap_free (example_vm ps d)"
proof -
  have "bm_set (swapFileMap (example_vm ps d)) = {}" by (auto simp: bm_set_def example_vm_def)
  moreover have "0 \<in> {i. int i < numBits (swapFileMap (example_vm ps d))}" by (simp add: example_vm_def)
  ultimately show ?thesis unfolding swap_free_def by blast
qed

lemma example_vm_evicted:
  assumes "example_pages ps" "(0, v) \<notin> set ps"
  shows "evicted 0 v (example_vm ps d) = (if length ps = 32 then Some 0 else None)"
proof (cases "ipt (example_vm ps d)" rule: searchForEmptyEntry_cases)
  case full
  have "length ps = 32"
  proof (rule ccontr)
    assume "length ps \<noteq> 32"
    then have "length ps < 32" using assms(1) by (simp add: example_pages_def)
    with full(2) [of "length ps"] show False by (simp add: example_vm_ipt)
  qed
  moreover have "iptQueue (example_vm ps d) = map int [0..<length ps]" by (simp add: example_vm_def)
  ultimately show ?thesis
    using full(1) example_vm_not_resident [OF assms(2)] by (simp add: evicted_def upt_conv_Cons)
next
  case (empty f)
  then have "length ps \<noteq> 32" by (auto simp: example_vm_ipt)
  with empty(1) show ?thesis by (simp add: evicted_def)
qed

lemma example_vm_ready:
  assumes "example_pages ps" "(0, v) \<notin> set ps" "0 \<le> v" "v < 64"
  shows "fault_ready 0 v (example_vm ps d)"
proof -
  have "no_alias 0 (example_vm ps d)" by (simp add: no_alias_def example_vm_tlb)
  moreover have "in_range v (pageTables (example_vm ps d) 0)"
    using assms(3,4) by (simp add: in_range_def example_vm_def)
  ultimately show ?thesis
    using example_vm_inv [OF assms(1)] example_vm_fifo [OF assms(1)] example_vm_swap_free assms
    by (simp add: fault_ready_def table2_ok_def example_vm_evicted)
qed

definition one_page :: "(int \<times> int) list" where "one_page = [(0, 0)]"
definition full_pages :: "(int \<times> int) list" where "full_pages = map (\<lambda>i. (0, int i)) [0..<32]"

lemma one_page_ok [simp]: "example_pages one_page" "length one_page = 1" "(0, 1) \<notin> set one_page"
  by (simp_all add: one_page_def example_pages_def)

lemma full_pages_ok [simp]: "example_pages full_pages" "length full_pages = 32" "(0, 40) \<notin> set full_pages"
  by (auto simp: full_pages_def example_pages_def distinct_map inj_on_def)

lemma one_page_tlb: "SearchForTLBEntry 0 (tlb (example_vm one_page d)) \<noteq> -1"
  by (auto simp: SearchForTLBEntry_None example_vm_tlb intro!: exI [of _ 0])

lemma one_page_next: "virtualPage (next_entry (example_vm ps d)) = 0"
proof -
  have "next_entry (example_vm ps d) = tlb (example_vm ps d) ! 1" by (simp add: next_entry_def example_vm_def)
  then show ?thesis by (simp add: example_vm_tlb)
qed

text \<open>
  C31 A page fault makes the page readable and loses nothing: when the handler is entered for an
  address whose page has no TLB entry, with a free swap slot and a victim whose page number is not
  used by another page in the TLB, and the page of the TLB entry to be replaced stays resident, the
  handler returns in a well-formed state in which every page of every process holds what it held
  before, and an aligned read at the address gives the bytes of the page, at any size.
\<close>

theorem page_fault_correct:
  assumes "fault_ready cur (page_of va) s" "slot_resident cur (page_of va) s"
    "SearchForTLBEntry (page_of va) (tlb s) = -1"
  shows "\<exists>s'. HandlePageFault FIFO draws cur (int (unat va)) s = Inr s' \<and> vm_inv cur s' \<and> fifo_ok s' \<and>
     page_bytes s' = page_bytes s \<and>
     (\<forall>sz. sz \<in> {1, 2, 4} \<and> aligned va sz \<and> offset_of va + sz \<le> length (page_bytes s cur (page_of va)) \<longrightarrow>
        (\<exists>s2. ReadMem va sz s' =
           Inr (Inr (read_value sz (take sz (drop (offset_of va) (page_bytes s cur (page_of va))))), s2)))"
proof -
  obtain s' f where h: "HandlePageFault FIFO draws cur (int (unat va)) s = Inr s'" "vm_inv cur s'" "fifo_ok s'"
    "page_bytes s' = page_bytes s" "f < 32" "frame_of s' cur (page_of va) = Some f"
    "valid (tlb s' ! nat (nextTLB s))" "virtualPage (tlb s' ! nat (nextTLB s)) = page_of va"
    "physicalPage (tlb s' ! nat (nextTLB s)) = int f" "0 \<le> nextTLB s" "nextTLB s < 4"
    by (rule HandlePageFault_ok [OF assms cdiv_page_of, of draws])
  let ?b = "page_bytes s cur (page_of va)" and ?fb = "frame_bytes f (mainMemory s')"
  have pre: "take (length ?b) ?fb = ?b" using resident_bytes [OF h(2,6)] h(4) by simp
  have "\<exists>s2. ReadMem va sz s' = Inr (Inr (read_value sz (take sz (drop (offset_of va) ?b))), s2)"
    if sz: "sz \<in> {1, 2, 4}" "aligned va sz" "offset_of va + sz \<le> length ?b" for sz
  proof -
    have "take sz (drop (offset_of va) ?b) = take sz (drop (offset_of va) (take (length ?b) ?fb))"
      by (simp only: pre)
    also have "\<dots> = take sz (drop (offset_of va) ?fb)" using sz(3) by (simp add: drop_take min_absorb1)
    finally show ?thesis
      using ReadMem_hit [OF h(2) _ h(7,8) sz(2) _ h(9,5)] sz(1) h(10,11) by simp
  qed
  with h show ?thesis by blast
qed

theorem page_fault_correct_witness:
  "\<exists>s'. HandlePageFault FIFO [] 0 (int (unat (128 :: 32 word))) (example_vm one_page True) = Inr s' \<and> vm_inv 0 s' \<and>
     page_bytes s' = page_bytes (example_vm one_page True)"
proof -
  have p: "page_of 128 = 1" by (simp add: page_of_def)
  have "frame_of (example_vm one_page True) 0 0 = Some 0"
    using example_vm_frame [OF one_page_ok(1), of 0 True] by (simp add: one_page_def)
  then have "slot_resident 0 (page_of 128) (example_vm one_page True)"
    by (simp add: slot_resident_def one_page_next p example_vm_evicted)
  moreover have "SearchForTLBEntry (page_of 128) (tlb (example_vm one_page True)) = -1"
    by (simp add: SearchForTLBEntry_None p example_vm_tlb)
  moreover have "fault_ready 0 (page_of 128) (example_vm one_page True)"
    using example_vm_ready [of one_page 1] by (simp add: p)
  ultimately show ?thesis
    using page_fault_correct [of 0 128 "example_vm one_page True" "[]"] by blast
qed

text \<open>
  The handler does not check the result of its search for the page of the TLB entry it is about
  to replace: whenever that page is not resident, or has just been evicted, the handler writes
  through index \<open>-1\<close> of the inverted page table.
\<close>

theorem page_fault_slot_crash:
  assumes "fault_ready cur (page_of va) s" "\<not> slot_resident cur (page_of va) s"
  shows "HandlePageFault FIFO draws cur (int (unat va)) s = Inl OutOfBounds"
  by (rule HandlePageFault_slot_missing [OF assms cdiv_page_of])

text \<open>The first fault after frame 0 comes up for eviction while its page is in the TLB.\<close>

theorem page_fault_slot_crash_witness:
  "HandlePageFault FIFO [] 0 (int (unat (5120 :: 32 word))) (example_vm full_pages False) = Inl OutOfBounds"
proof -
  have p: "page_of 5120 = 40" by (simp add: page_of_def)
  have "frame_of (example_vm full_pages False) 0 0 = Some 0"
    using example_vm_frame [OF full_pages_ok(1), of 0 False] by (simp add: full_pages_def)
  then have "\<not> slot_resident 0 (page_of 5120) (example_vm full_pages False)"
    by (simp add: slot_resident_def one_page_next p example_vm_evicted)
  moreover have "fault_ready 0 (page_of 5120) (example_vm full_pages False)"
    using example_vm_ready [of full_pages 40] by (simp add: p)
  ultimately show ?thesis by (intro page_fault_slot_crash)
qed

text \<open>
  C36 The victim is the page that was loaded first, whether or not it was used since: the routine
  named after LRU takes the head of the queue, and the frame goes to its end.
\<close>

theorem eviction_is_fifo:
  assumes "fault_ready cur vpn s" "evicted cur vpn s \<noteq> None"
  shows "\<exists>s'. PageFault_load FIFO draws cur vpn s = Inr (hd (iptQueue s), s') \<and>
     frame_of s' cur vpn = Some (nat (hd (iptQueue s))) \<and>
     iptQueue s' = tl (iptQueue s) @ [hd (iptQueue s)]"
proof -
  note rd = fault_readyD [OF assms(1)]
  obtain f s' where l: "PageFault_load FIFO draws cur vpn s = Inr (int f, s')"
    "vm_inv cur s'" "fifo_ok s'" "page_bytes s' = page_bytes s" "frame_of s' cur vpn = Some f"
    "\<forall>p v. (p, v) \<noteq> (cur, vpn) \<longrightarrow> frame_of s' p v =
       (if frame_of s p v = evicted cur vpn s then None else frame_of s p v)"
    "same_tlb_pages s s'"
    "iptQueue s' = (if frame_of s cur vpn \<noteq> None then iptQueue s
       else (if evicted cur vpn s = None then iptQueue s else tl (iptQueue s)) @ [int f])"
    "evicted cur vpn s \<noteq> None \<longrightarrow> evicted cur vpn s = Some f"
    by (rule PageFault_load_ok [OF rd, of draws])
  have ne: "frame_of s cur vpn = None" "iptQueue s \<noteq> []" and f: "f = nat (hd (iptQueue s))"
    using assms(2) l(9) by (auto simp: evicted_def split: if_splits)
  have "hd (iptQueue s) \<in> set (iptQueue s)" using ne(2) by simp
  then have "0 \<le> hd (iptQueue s)" using rd(2) by (auto simp: fifo_ok_def)
  with l f ne assms(2) show ?thesis by simp
qed

theorem eviction_is_fifo_witness:
  "\<exists>s'. PageFault_load FIFO [] 0 40 (example_vm full_pages True) = Inr (0, s') \<and>
     iptQueue s' = map int [1..<32] @ [0]"
proof -
  have "hd (iptQueue (example_vm full_pages True)) = 0" "tl (iptQueue (example_vm full_pages True)) = map int [1..<32]"
    by (simp_all add: example_vm_def upt_conv_Cons)
  moreover have "fault_ready 0 40 (example_vm full_pages True)" by (rule example_vm_ready) simp_all
  moreover have "evicted 0 40 (example_vm full_pages True) \<noteq> None" by (simp add: example_vm_evicted)
  ultimately show ?thesis using eviction_is_fifo [of 0 40 "example_vm full_pages True" "[]"] by auto
qed

text \<open>
  C34 A store to a page in the TLB changes exactly the stored bytes of exactly that page, and a
  load of the same size gives the value back, zero-extended from 16 bits and sign-extended from 8.
\<close>

theorem store_load:
  assumes "vm_inv cur s" "SearchForTLBEntry (page_of va) (tlb s) \<noteq> -1" "aligned va sz" "sz \<in> {1, 2, 4}"
  shows "\<exists>s' old s2. WriteMem va sz x s = Inr (NoException, s') \<and> vm_inv cur s' \<and>
     length old = 128 \<and> take (length (page_bytes s cur (page_of va))) old = page_bytes s cur (page_of va) \<and>
     page_bytes s' cur (page_of va) = store_bytes (offset_of va) (bytes_of_word sz x) old \<and>
     (\<forall>p v. (p, v) \<noteq> (cur, page_of va) \<longrightarrow> page_bytes s' p v = page_bytes s p v) \<and>
     ReadMem va sz s' = Inr (Inr (stored_value sz x), s2) \<and> page_bytes s2 = page_bytes s'"
proof -
  have sz: "sz = 1 \<or> sz = 2 \<or> sz = 4" using assms(4) by simp
  obtain k where k: "SearchForTLBEntry (page_of va) (tlb s) = int k" "k < 4"
    "virtualPage (tlb s ! k) = page_of va" "valid (tlb s ! k)"
    by (rule SearchForTLBEntry_Some [OF assms(2)])
  obtain f where f: "physicalPage (tlb s ! k) = int f" "f < 32" "frame_of s cur (page_of va) = Some f"
    by (rule hit_frame [OF assms(1) k(2,4,3)])
  note mem = vm_sizesD [OF vm_invD(1) [OF assms(1)]]
  let ?old = "frame_bytes f (mainMemory s)"
  let ?s = "page_written k f (offset_of va) (bytes_of_word sz x) s"
  have off: "offset_of va + length (bytes_of_word sz x) \<le> 128" using aligned_offset [OF assms(3) sz] by simp
  note w = WriteMem_hit [OF assms(1) k(2,4,3) assms(3) sz f(1), of x]
  note ok = page_written_ok [OF assms(1) k(2,4) f(1,2,3) off]
  have t: "valid (tlb ?s ! k)" "virtualPage (tlb ?s ! k) = page_of va" "physicalPage (tlb ?s ! k) = int f"
    using entry_used_tlb [OF mem(2) k(2)] k f by (simp_all add: page_written_def)
  have fb: "frame_bytes f (mainMemory ?s) = store_bytes (offset_of va) (bytes_of_word sz x) ?old"
    using frame_bytes_store_same [OF mem(1) f(2) off] by (simp add: page_written_def)
  have "take sz (drop (offset_of va) (store_bytes (offset_of va) (bytes_of_word sz x) ?old)) = bytes_of_word sz x"
    using off mem(1) f(2) by (simp add: store_bytes_def)
  then have "ReadMem va sz ?s = Inr (Inr (stored_value sz x), entry_used k False ?s)"
    using ReadMem_hit [OF ok(1) k(2) t(1,2) assms(3) sz t(3) f(2)] read_written [OF sz] fb by simp
  moreover have "page_bytes (entry_used k False ?s) = page_bytes ?s" by (rule entry_read_ok(2) [OF ok(1) k(2)])
  moreover have "length ?old = 128" using mem(1) f(2) by simp
  moreover have "take (length (page_bytes s cur (page_of va))) ?old = page_bytes s cur (page_of va)"
    by (rule resident_bytes [OF assms(1) f(3)])
  ultimately show ?thesis using w ok by blast
qed

theorem store_load_witness:
  "\<exists>s' s2. WriteMem 12 2 0x12345678 (example_vm one_page False) = Inr (NoException, s') \<and>
     ReadMem 12 2 s' = Inr (Inr (stored_value 2 0x12345678), s2)"
proof -
  have "page_of 12 = 0" by (simp add: page_of_def)
  moreover have "aligned 12 2" by (simp add: aligned_def)
  ultimately show ?thesis
    using store_load [OF example_vm_inv [OF one_page_ok(1)], of 12 False 2 "0x12345678"] one_page_tlb by auto
qed

text \<open>
  A context switch empties the TLB, keeps what every page holds (the dirty bits go to the
  inverted page table), and leaves a state that is well formed for whichever process runs next.
\<close>

theorem context_switch_correct:
  assumes "vm_inv cur s" "fifo_ok s"
  shows "\<exists>s'. InvalidateAllTLB s = Inr s' \<and> vm_inv next s' \<and> fifo_ok s' \<and> page_bytes s' = page_bytes s \<and>
     (\<forall>va sz w. aligned va sz \<longrightarrow> Translate va sz w s' = Inr (PageFaultException, 0, s'))"
proof -
  obtain s' where s': "invalidate_from 0 4 s = Inr s'" "vm_inv cur s'" "page_bytes s' = page_bytes s"
    "same_map (ipt s) (ipt s')" "iptQueue s' = iptQueue s" "\<forall>k<4. \<not> valid (tlb s' ! k)"
    using invalidate_from_ok [OF assms(1), of 0 4] by auto
  have "first_from (\<lambda>i. valid (tlb s' ! i) \<and> virtualPage (tlb s' ! i) = v) 0 TLBSize = None" for v
    using s'(6) by (simp add: first_from_None TLBSize_def)
  then have "Translate va sz w s' = Inr (PageFaultException, 0, s')" if "aligned va sz" for va sz w
    using that by (simp add: Translate_def aligned_def Let_def)
  moreover have "fifo_ok s'" by (rule fifo_ok_same_map [OF assms(2) s'(4,5)])
  moreover have "InvalidateAllTLB s = Inr s'" using s'(1) by (simp add: InvalidateAllTLB_def TLBSize_def)
  ultimately show ?thesis using s' vm_inv_no_tlb by blast
qed

theorem context_switch_correct_witness:
  "\<exists>s'. InvalidateAllTLB (example_vm full_pages True) = Inr s' \<and> vm_inv 3 s' \<and>
     page_bytes s' = page_bytes (example_vm full_pages True)"
  using context_switch_correct [OF example_vm_inv [OF full_pages_ok(1)] example_vm_fifo [OF full_pages_ok(1)], of True 3]
  by blast

text \<open>
  The search for the victim in the TLB compares page numbers only.  When the victim belongs to
  another process but has the page number of a page of the running process that was written to, the
  TLB entry of the latter is invalidated and its dirty bit goes to the victim: the running process's
  page then counts as clean, and its next eviction forgets what was written.
\<close>

theorem eviction_loses_write:
  assumes "vm_inv cur s" "f < 32" "frame_of s cur v = Some g" "g \<noteq> f" "\<not> dirty (ipt s ! g)"
    "SearchForTLBEntry v (tlb s) = int k" "dirty (tlb s ! k)" "virtualPage (ipt s ! f) = v"
  shows "\<exists>s'. collect_dirty (int f) s = Inr s' \<and> page_bytes s cur v = frame_bytes g (mainMemory s) \<and>
     page_bytes s' cur v = backing s cur v"
proof -
  have "SearchForTLBEntry v (tlb s) \<noteq> -1" using assms(6) by simp
  then obtain k' where "SearchForTLBEntry v (tlb s) = int k'" "k' < 4" "virtualPage (tlb s ! k') = v" "valid (tlb s ! k')"
    by (rule SearchForTLBEntry_Some)
  with assms(6) have k: "k < 4" "virtualPage (tlb s ! k) = v" "valid (tlb s ! k)" by auto
  note sz = vm_sizesD [OF vm_invD(1) [OF assms(1)]] and tok = vm_invD(3) [OF assms(1)]
  have pk: "physicalPage (tlb s ! k) = int g"
    using hit_frame [OF assms(1) k(1,3,2)] assms(3) by (metis option.inject)
  have g: "g < 32" using assms(3) frame_of_Some_iff [OF vm_invD(2) [OF assms(1)]] by simp
  let ?t = "(ipt s)[f := (ipt s ! f)\<lparr>dirty := dirty (tlb s ! k)\<rparr>]"
  let ?s = "s\<lparr>ipt := ?t, tlb := (tlb s)[k := (tlb s ! k)\<lparr>valid := False\<rparr>]\<rparr>"
  have r: "collect_dirty (int f) s = Inr ?s" using assms(2,6,8) k sz by (simp add: collect_dirty_def)
  have fd: "frame_dirty s g" using k pk assms(7) unfolding frame_dirty_def TLBSize_def by blast
  have mp: "same_map (ipt s) (ipt ?s)" using same_map_update [OF sz(3)] by simp
  have fr: "frame_of ?s cur v = Some g" using frame_of_same_map [OF mp] assms(3) by simp
  have no: "\<not> (valid (tlb ?s ! l) \<and> physicalPage (tlb ?s ! l) = int g)" if l: "l < 4" for l
  proof (cases "l = k")
    case True
    then show ?thesis using sz k by simp
  next
    case False
    have "virtualPage (tlb s ! l) = v" if "valid (tlb s ! l)" "physicalPage (tlb s ! l) = int g"
      using tlb_okD [OF tok l that(1)] that(2) assms(3) frame_of_Some_iff [OF vm_invD(2) [OF assms(1)]]
      by (simp add: tlb_entry_ok_def Let_def)
    with False k tlb_uniq [OF tok l k(1)] sz l show ?thesis by auto
  qed
  have "\<not> frame_dirty ?s g"
    using no assms(4,5) by (auto simp: frame_dirty_def TLBSize_def)
  then have "page_bytes ?s cur v = backing ?s cur v" by (simp add: page_bytes_def fr)
  moreover have "backing ?s cur v = backing s cur v" by (simp add: backing_def)
  moreover have "page_bytes s cur v = frame_bytes g (mainMemory s)" using assms(3) fd by (simp add: page_bytes_def)
  ultimately show ?thesis using r by simp
qed

theorem eviction_loses_write_witness:
  "\<exists>s'. collect_dirty (int 1) (example_vm [(0, 0), (1, 0)] True) = Inr s' \<and>
     page_bytes s' 0 0 = backing (example_vm [(0, 0), (1, 0)] True) 0 0"
proof -
  let ?s = "example_vm [(0, 0), (1, 0)] True"
  have ok: "example_pages [(0, 0), (1, 0)]" by (simp add: example_pages_def)
  have "frame_of ?s 0 0 = Some 0" using example_vm_frame [OF ok, of 0 True] by simp
  moreover have "SearchForTLBEntry 0 (tlb ?s) = int 0"
  proof -
    have "SearchForTLBEntry 0 (tlb ?s) \<noteq> -1"
      by (auto simp: SearchForTLBEntry_None example_vm_tlb intro!: exI [of _ 0])
    then obtain k where "SearchForTLBEntry 0 (tlb ?s) = int k" "k < 4" "valid (tlb ?s ! k)"
      by (rule SearchForTLBEntry_Some)
    then show ?thesis by (simp add: example_vm_tlb)
  qed
  moreover have "\<not> dirty (ipt ?s ! 0)" "virtualPage (ipt ?s ! 1) = 0" "dirty (tlb ?s ! 0)"
    by (simp_all add: example_vm_ipt example_vm_tlb)
  ultimately show ?thesis
    using eviction_loses_write [OF example_vm_inv [OF ok], of 1 True 0 0 0] by auto
qed

end
