(* ===== verification/Nachos_Mips.thy ===== *)
theory Nachos_Mips
  imports Nachos_PageFault
begin

text \<open>
  The MIPS simulator of machine/mipssim.cc: instruction decoding, the execution of one instruction
  with its delayed load, and the multiplication routine, on the registers of machine/machine.h and
  the memory of \<open>Nachos_VM\<close>.  A C \<open>int\<close> register is a \<open>32 word\<close>; signed arithmetic wraps.
\<close>

section \<open>Registers (machine.h, machine.cc)\<close>

definition NumTotalRegs :: nat where "NumTotalRegs = 40"
definition StackReg :: nat where "StackReg = 29"
definition R31 :: nat where "R31 = 31"
definition HiReg :: nat where "HiReg = 32"
definition LoReg :: nat where "LoReg = 33"
definition PCReg :: nat where "PCReg = 34"
definition NextPCReg :: nat where "NextPCReg = 35"
definition PrevPCReg :: nat where "PrevPCReg = 36"
definition LoadReg :: nat where "LoadReg = 37"
definition LoadValueReg :: nat where "LoadValueReg = 38"
definition BadVAddrReg :: nat where "BadVAddrReg = 39"

lemmas reg_numbers = NumTotalRegs_def StackReg_def R31_def HiReg_def LoReg_def PCReg_def NextPCReg_def
  PrevPCReg_def LoadReg_def LoadValueReg_def BadVAddrReg_def

record machine =
  registers :: "32 word list"
  memory :: vm

definition reg :: "machine \<Rightarrow> nat \<Rightarrow> 32 word" where
  "reg m n = registers m ! n"

definition set_reg :: "nat \<Rightarrow> 32 word \<Rightarrow> machine \<Rightarrow> machine" where
  "set_reg n v m = m\<lparr>registers := (registers m)[n := v]\<rparr>"

definition ReadRegister :: "int \<Rightarrow> machine \<Rightarrow> fault + 32 word" where
  "ReadRegister num m = bindE (assertE (num \<ge> 0 \<and> num < int NumTotalRegs)) (\<lambda>_. Inr (reg m (nat num)))"

definition WriteRegister :: "int \<Rightarrow> 32 word \<Rightarrow> machine \<Rightarrow> fault + machine" where
  "WriteRegister num v m =
     bindE (assertE (num \<ge> 0 \<and> num < int NumTotalRegs)) (\<lambda>_. Inr (set_reg (nat num) v m))"

definition Machine_new :: "vm \<Rightarrow> machine" where
  "Machine_new v = \<lparr>registers = replicate NumTotalRegs 0,
     memory = v\<lparr>mainMemory := replicate (NumPhysPages * PageSize) 0,
                tlb := map (\<lambda>e. e\<lparr>valid := False\<rparr>) (tlb v)\<rparr>\<rparr>"

text \<open>\<open>AddrSpace::InitRegisters\<close> for a space of \<open>numPages\<close> pages.\<close>

definition InitRegisters :: "nat \<Rightarrow> machine \<Rightarrow> machine" where
  "InitRegisters numPages m =
     set_reg StackReg (of_nat (numPages * 128) - 16) (set_reg NextPCReg 4 (set_reg PCReg 0
       (m\<lparr>registers := map (\<lambda>_. 0) (registers m)\<rparr>)))"

section \<open>Decoding (mipssim.h, mipssim.cc)\<close>

datatype opcode =
    OP_ADD | OP_ADDI | OP_ADDIU | OP_ADDU | OP_AND | OP_ANDI | OP_BEQ | OP_BGEZ | OP_BGEZAL | OP_BGTZ
  | OP_BLEZ | OP_BLTZ | OP_BLTZAL | OP_BNE | OP_DIV | OP_DIVU | OP_J | OP_JAL | OP_JALR | OP_JR | OP_LB
  | OP_LBU | OP_LH | OP_LHU | OP_LUI | OP_LW | OP_LWL | OP_LWR | OP_MFHI | OP_MFLO | OP_MTHI | OP_MTLO
  | OP_MULT | OP_MULTU | OP_NOR | OP_OR | OP_ORI | OP_RFE | OP_SB | OP_SH | OP_SLL | OP_SLLV | OP_SLT
  | OP_SLTI | OP_SLTIU | OP_SLTU | OP_SRA | OP_SRAV | OP_SRL | OP_SRLV | OP_SUB | OP_SUBU | OP_SW | OP_SWL
  | OP_SWR | OP_XOR | OP_XORI | OP_SYSCALL | OP_UNIMP | OP_RES | SPECIAL | BCOND

datatype format = IFMT | JFMT | RFMT

definition opTable :: "(opcode \<times> format) list" where
  "opTable =
    [(SPECIAL, RFMT), (BCOND, IFMT), (OP_J, JFMT), (OP_JAL, JFMT),
     (OP_BEQ, IFMT), (OP_BNE, IFMT), (OP_BLEZ, IFMT), (OP_BGTZ, IFMT),
     (OP_ADDI, IFMT), (OP_ADDIU, IFMT), (OP_SLTI, IFMT), (OP_SLTIU, IFMT),
     (OP_ANDI, IFMT), (OP_ORI, IFMT), (OP_XORI, IFMT), (OP_LUI, IFMT)] @
    replicate 4 (OP_UNIMP, IFMT) @ replicate 12 (OP_RES, IFMT) @
    [(OP_LB, IFMT), (OP_LH, IFMT), (OP_LWL, IFMT), (OP_LW, IFMT),
     (OP_LBU, IFMT), (OP_LHU, IFMT), (OP_LWR, IFMT), (OP_RES, IFMT),
     (OP_SB, IFMT), (OP_SH, IFMT), (OP_SWL, IFMT), (OP_SW, IFMT),
     (OP_RES, IFMT), (OP_RES, IFMT), (OP_SWR, IFMT), (OP_RES, IFMT)] @
    replicate 4 (OP_UNIMP, IFMT) @ replicate 4 (OP_RES, IFMT) @
    replicate 4 (OP_UNIMP, IFMT) @ replicate 4 (OP_RES, IFMT)"

definition specialTable :: "opcode list" where
  "specialTable =
    [OP_SLL, OP_RES, OP_SRL, OP_SRA, OP_SLLV, OP_RES, OP_SRLV, OP_SRAV,
     OP_JR, OP_JALR, OP_RES, OP_RES, OP_SYSCALL, OP_UNIMP, OP_RES, OP_RES,
     OP_MFHI, OP_MTHI, OP_MFLO, OP_MTLO, OP_RES, OP_RES, OP_RES, OP_RES,
     OP_MULT, OP_MULTU, OP_DIV, OP_DIVU, OP_RES, OP_RES, OP_RES, OP_RES,
     OP_ADD, OP_ADDU, OP_SUB, OP_SUBU, OP_AND, OP_OR, OP_XOR, OP_NOR,
     OP_RES, OP_RES, OP_SLT, OP_SLTU, OP_RES, OP_RES, OP_RES, OP_RES] @ replicate 16 OP_RES"

record Instruction =
  opCode :: opcode
  rs :: nat
  rt :: nat
  rd :: nat
  extra :: "32 word"

text \<open>Bits \<open>n\<close> up to \<open>n + k\<close> of the instruction word.\<close>

definition bits :: "nat \<Rightarrow> nat \<Rightarrow> 32 word \<Rightarrow> nat" where
  "bits n k v = unat (take_bit k (drop_bit n v))"

definition Decode :: "32 word \<Rightarrow> Instruction" where
  "Decode value =
     (let (oc, fmt) = opTable ! bits 26 6 value;
          ex = (if fmt = IFMT then
                  (let e = value AND 0xffff in if e AND 0x8000 \<noteq> 0 then e OR 0xffff0000 else e)
                else if fmt = RFMT then drop_bit 6 value AND 0x1f
                else value AND 0x3ffffff);
          oc2 = (if oc = SPECIAL then specialTable ! bits 0 6 value
                 else if oc = BCOND then
                   (let i = value AND 0x1f0000 in
                    if i = 0 then OP_BLTZ
                    else if i = 0x10000 then OP_BGEZ
                    else if i = 0x100000 then OP_BLTZAL
                    else if i = 0x110000 then OP_BGEZAL
                    else OP_UNIMP)
                 else oc)
      in \<lparr>opCode = oc2, rs = bits 21 5 value, rt = bits 16 5 value, rd = bits 11 5 value, extra = ex\<rparr>)"

section \<open>Multiplication\<close>

text \<open>The loop of \<open>Mult\<close> with \<open>n\<close> iterations left.\<close>

fun mult_loop :: "nat \<Rightarrow> 32 word \<Rightarrow> 32 word \<Rightarrow> 32 word \<Rightarrow> 32 word \<Rightarrow> 32 word \<Rightarrow> 32 word \<times> 32 word" where
  "mult_loop 0 a bHi bLo hi lo = (hi, lo)"
| "mult_loop (Suc n) a bHi bLo hi lo =
     (let odd = (a AND 1 \<noteq> 0);
          lo' = (if odd then lo + bLo else lo);
          hi' = (if odd then (if lo' < bLo then hi + 1 else hi) + bHi else hi)
      in if odd \<and> a AND 0xfffffffe = 0 then (hi', lo')
         else mult_loop n (signed_drop_bit 1 a)
                (push_bit 1 bHi OR (if bLo AND 0x80000000 \<noteq> 0 then 1 else 0)) (push_bit 1 bLo) hi' lo')"

definition Mult :: "32 word \<Rightarrow> 32 word \<Rightarrow> bool \<Rightarrow> 32 word \<times> 32 word" where
  "Mult a b signedArith =
     (if a = 0 \<or> b = 0 then (0, 0)
      else
        let na = signedArith \<and> sint a < 0; nb = signedArith \<and> sint b < 0;
            (hi, lo) = mult_loop 32 (if na then - a else a) 0 (if nb then - b else b) 0 0
        in if na \<noteq> nb then
             (let lo1 = NOT lo + 1 in (if lo1 = 0 then NOT hi + 1 else NOT hi, lo1))
           else (hi, lo))"

section \<open>Executing one instruction\<close>

definition DelayedLoad :: "nat \<Rightarrow> 32 word \<Rightarrow> machine \<Rightarrow> machine" where
  "DelayedLoad nextReg nextValue m =
     set_reg 0 0 (set_reg LoadValueReg nextValue (set_reg LoadReg (of_nat nextReg)
       (set_reg (unat (reg m LoadReg)) (reg m LoadValueReg) m)))"

text \<open>
  An instruction either raises an exception, after which the kernel's handler runs and \<open>Run\<close>
  starts an instruction again, or is done: the program counter after next, and the delayed load.
  The register changes of \<open>RaiseException\<close> before the handler is called are in the state.
\<close>

datatype outcome = Raised ExceptionType | Done "32 word" nat "32 word"

type_synonym result = "fault + outcome \<times> machine"

definition RaiseException :: "ExceptionType \<Rightarrow> 32 word \<Rightarrow> machine \<Rightarrow> result" where
  "RaiseException which badVAddr m = Inr (Raised which, DelayedLoad 0 0 (set_reg BadVAddrReg badVAddr m))"

definition mem_read :: "32 word \<Rightarrow> nat \<Rightarrow> (32 word \<Rightarrow> machine \<Rightarrow> result) \<Rightarrow> machine \<Rightarrow> result" where
  "mem_read addr sz k m = bindE (ReadMem addr sz (memory m)) (\<lambda>(r, v).
     case r of Inl ex \<Rightarrow> RaiseException ex addr (m\<lparr>memory := v\<rparr>) | Inr w \<Rightarrow> k w (m\<lparr>memory := v\<rparr>))"

definition mem_write :: "32 word \<Rightarrow> nat \<Rightarrow> 32 word \<Rightarrow> (machine \<Rightarrow> result) \<Rightarrow> machine \<Rightarrow> result" where
  "mem_write addr sz x k m = bindE (WriteMem addr sz x (memory m)) (\<lambda>(ex, v).
     if ex \<noteq> NoException then RaiseException ex addr (m\<lparr>memory := v\<rparr>) else k (m\<lparr>memory := v\<rparr>))"

definition SIGN_BIT :: "32 word" where "SIGN_BIT = 0x80000000"

definition IndexToAddr :: "32 word \<Rightarrow> 32 word" where "IndexToAddr x = push_bit 2 x"

text \<open>No further effect: the program counter after next is the one computed at the start.\<close>

definition fin :: "machine \<Rightarrow> 32 word \<Rightarrow> result" where
  "fin m pc = Inr (Done pc 0 0, m)"

definition branch :: "bool \<Rightarrow> Instruction \<Rightarrow> machine \<Rightarrow> 32 word \<Rightarrow> result" where
  "branch c i m pc = fin m (if c then reg m NextPCReg + IndexToAddr (extra i) else pc)"

text \<open>The cases of the switch, in the order of the source.\<close>

definition exec_add_bne :: "Instruction \<Rightarrow> 32 word \<Rightarrow> machine \<Rightarrow> result" where
  "exec_add_bne i pc m =
     (let s = reg m (rs i); t = reg m (rt i); e = extra i in
      case opCode i of
        OP_ADD \<Rightarrow> (let sm = s + t in
          if (s XOR t) AND SIGN_BIT = 0 \<and> (s XOR sm) AND SIGN_BIT \<noteq> 0 then RaiseException OverflowException 0 m
          else fin (set_reg (rd i) sm m) pc)
      | OP_ADDI \<Rightarrow> (let sm = s + e in
          if (s XOR e) AND SIGN_BIT = 0 \<and> (e XOR sm) AND SIGN_BIT \<noteq> 0 then RaiseException OverflowException 0 m
          else fin (set_reg (rt i) sm m) pc)
      | OP_ADDIU \<Rightarrow> fin (set_reg (rt i) (s + e) m) pc
      | OP_ADDU \<Rightarrow> fin (set_reg (rd i) (s + t) m) pc
      | OP_AND \<Rightarrow> fin (set_reg (rd i) (s AND t) m) pc
      | OP_ANDI \<Rightarrow> fin (set_reg (rt i) (s AND (e AND 0xffff)) m) pc
      | OP_BEQ \<Rightarrow> branch (s = t) i m pc
      | OP_BGEZAL \<Rightarrow> (let m1 = set_reg R31 (reg m NextPCReg + 4) m in
          branch (reg m1 (rs i) AND SIGN_BIT = 0) i m1 pc)
      | OP_BGEZ \<Rightarrow> branch (s AND SIGN_BIT = 0) i m pc
      | OP_BGTZ \<Rightarrow> branch (sint s > 0) i m pc
      | OP_BLEZ \<Rightarrow> branch (sint s \<le> 0) i m pc
      | OP_BLTZAL \<Rightarrow> (let m1 = set_reg R31 (reg m NextPCReg + 4) m in
          branch (reg m1 (rs i) AND SIGN_BIT \<noteq> 0) i m1 pc)
      | OP_BLTZ \<Rightarrow> branch (s AND SIGN_BIT \<noteq> 0) i m pc
      | OP_BNE \<Rightarrow> branch (s \<noteq> t) i m pc
      | _ \<Rightarrow> Inl AssertFailed)"

text \<open>
  Signed division truncates; the quotient of the least integer by \<open>-1\<close> does not fit and traps in
  the simulator itself.
\<close>

definition exec_div_jr :: "Instruction \<Rightarrow> 32 word \<Rightarrow> machine \<Rightarrow> result" where
  "exec_div_jr i pc m =
     (let s = reg m (rs i); t = reg m (rt i); e = extra i in
      case opCode i of
        OP_DIV \<Rightarrow>
          if t = 0 then fin (set_reg HiReg 0 (set_reg LoReg 0 m)) pc
          else if s = SIGN_BIT \<and> t = -1 then Inl DivideError
          else fin (set_reg HiReg (word_of_int (sint s - cdiv (sint s * sgn (sint t)) \<bar>sint t\<bar> * sint t))
                 (set_reg LoReg (word_of_int (cdiv (sint s * sgn (sint t)) \<bar>sint t\<bar>)) m)) pc
      | OP_DIVU \<Rightarrow>
          if t = 0 then fin (set_reg HiReg 0 (set_reg LoReg 0 m)) pc
          else fin (set_reg HiReg (s mod t) (set_reg LoReg (s div t) m)) pc
      | OP_JAL \<Rightarrow> fin (set_reg R31 (reg m NextPCReg + 4) m) ((pc AND 0xf0000000) OR IndexToAddr e)
      | OP_J \<Rightarrow> fin m ((pc AND 0xf0000000) OR IndexToAddr e)
      | OP_JALR \<Rightarrow> (let m1 = set_reg (rd i) (reg m NextPCReg + 4) m in fin m1 (reg m1 (rs i)))
      | OP_JR \<Rightarrow> fin m s
      | _ \<Rightarrow> Inl AssertFailed)"

text \<open>What \<open>LWL\<close> and \<open>LWR\<close> merge with: the value of a load to the same register still under way.\<close>

definition pending :: "Instruction \<Rightarrow> machine \<Rightarrow> 32 word" where
  "pending i m = (if reg m LoadReg = of_nat (rt i) then reg m LoadValueReg else reg m (rt i))"

definition exec_lb_lwr :: "Instruction \<Rightarrow> 32 word \<Rightarrow> machine \<Rightarrow> result" where
  "exec_lb_lwr i pc m =
     (let tmp = reg m (rs i) + extra i in
      case opCode i of
        OP_LB \<Rightarrow> mem_read tmp 1 (\<lambda>v m1. Inr (Done pc (rt i) (if v AND 0x80 \<noteq> 0 then v OR 0xffffff00 else v AND 0xff), m1)) m
      | OP_LBU \<Rightarrow> mem_read tmp 1 (\<lambda>v m1. Inr (Done pc (rt i) (v AND 0xff), m1)) m
      | OP_LH \<Rightarrow>
          if tmp AND 1 \<noteq> 0 then RaiseException AddressErrorException tmp m
          else mem_read tmp 2 (\<lambda>v m1. Inr (Done pc (rt i) (if v AND 0x8000 \<noteq> 0 then v OR 0xffff0000 else v AND 0xffff), m1)) m
      | OP_LHU \<Rightarrow>
          if tmp AND 1 \<noteq> 0 then RaiseException AddressErrorException tmp m
          else mem_read tmp 2 (\<lambda>v m1. Inr (Done pc (rt i) (v AND 0xffff), m1)) m
      | OP_LUI \<Rightarrow> fin (set_reg (rt i) (push_bit 16 (extra i)) m) pc
      | OP_LW \<Rightarrow>
          if tmp AND 3 \<noteq> 0 then RaiseException AddressErrorException tmp m
          else mem_read tmp 4 (\<lambda>v m1. Inr (Done pc (rt i) v, m1)) m
      | OP_LWL \<Rightarrow> bindE (assertE (tmp AND 3 = 0)) (\<lambda>_.
          mem_read tmp 4 (\<lambda>v m1. let p = pending i m1 in Inr (Done pc (rt i)
            (if tmp AND 3 = 0 then v
             else if tmp AND 3 = 1 then (p AND 0xff) OR push_bit 8 v
             else if tmp AND 3 = 2 then (p AND 0xffff) OR push_bit 16 v
             else (p AND 0xffffff) OR push_bit 24 v), m1)) m)
      | OP_LWR \<Rightarrow> bindE (assertE (tmp AND 3 = 0)) (\<lambda>_.
          mem_read tmp 4 (\<lambda>v m1. let p = pending i m1 in Inr (Done pc (rt i)
            (if tmp AND 3 = 0 then (p AND 0xffffff00) OR (signed_drop_bit 24 v AND 0xff)
             else if tmp AND 3 = 1 then (p AND 0xffff0000) OR (signed_drop_bit 16 v AND 0xffff)
             else if tmp AND 3 = 2 then (p AND 0xff000000) OR (signed_drop_bit 8 v AND 0xffffff)
             else v), m1)) m)
      | _ \<Rightarrow> Inl AssertFailed)"

definition exec_mfhi_sh :: "Instruction \<Rightarrow> 32 word \<Rightarrow> machine \<Rightarrow> result" where
  "exec_mfhi_sh i pc m =
     (let s = reg m (rs i); t = reg m (rt i); e = extra i in
      case opCode i of
        OP_MFHI \<Rightarrow> fin (set_reg (rd i) (reg m HiReg) m) pc
      | OP_MFLO \<Rightarrow> fin (set_reg (rd i) (reg m LoReg) m) pc
      | OP_MTHI \<Rightarrow> fin (set_reg HiReg s m) pc
      | OP_MTLO \<Rightarrow> fin (set_reg LoReg s m) pc
      | OP_MULT \<Rightarrow> (let (hi, lo) = Mult s t True in fin (set_reg LoReg lo (set_reg HiReg hi m)) pc)
      | OP_MULTU \<Rightarrow> (let (hi, lo) = Mult s t False in fin (set_reg LoReg lo (set_reg HiReg hi m)) pc)
      | OP_NOR \<Rightarrow> fin (set_reg (rd i) (NOT (s OR t)) m) pc
      | OP_OR \<Rightarrow> fin (set_reg (rd i) (s OR s) m) pc
      | OP_ORI \<Rightarrow> fin (set_reg (rt i) (s OR (e AND 0xffff)) m) pc
      | OP_SB \<Rightarrow> mem_write (s + e) 1 t (\<lambda>m1. fin m1 pc) m
      | OP_SH \<Rightarrow> mem_write (s + e) 2 t (\<lambda>m1. fin m1 pc) m
      | _ \<Rightarrow> Inl AssertFailed)"

text \<open>
  The shifts; \<open>tmp\<close> is a signed \<open>int\<close>, so its right shift is arithmetic in \<open>SRL\<close> and \<open>SRLV\<close> too.
\<close>

definition exec_sll_subu :: "Instruction \<Rightarrow> 32 word \<Rightarrow> machine \<Rightarrow> result" where
  "exec_sll_subu i pc m =
     (let s = reg m (rs i); t = reg m (rt i); e = extra i in
      case opCode i of
        OP_SLL \<Rightarrow> fin (set_reg (rd i) (push_bit (unat e) t) m) pc
      | OP_SLLV \<Rightarrow> fin (set_reg (rd i) (push_bit (unat (s AND 0x1f)) t) m) pc
      | OP_SLT \<Rightarrow> fin (set_reg (rd i) (if sint s < sint t then 1 else 0) m) pc
      | OP_SLTI \<Rightarrow> fin (set_reg (rt i) (if sint s < sint e then 1 else 0) m) pc
      | OP_SLTIU \<Rightarrow> fin (set_reg (rt i) (if s < e then 1 else 0) m) pc
      | OP_SLTU \<Rightarrow> fin (set_reg (rd i) (if s < t then 1 else 0) m) pc
      | OP_SRA \<Rightarrow> fin (set_reg (rd i) (signed_drop_bit (unat e) t) m) pc
      | OP_SRAV \<Rightarrow> fin (set_reg (rd i) (signed_drop_bit (unat (s AND 0x1f)) t) m) pc
      | OP_SRL \<Rightarrow> fin (set_reg (rd i) (signed_drop_bit (unat e) t) m) pc
      | OP_SRLV \<Rightarrow> fin (set_reg (rd i) (signed_drop_bit (unat (s AND 0x1f)) t) m) pc
      | OP_SUB \<Rightarrow> (let diff = s - t in
          if (s XOR t) AND SIGN_BIT \<noteq> 0 \<and> (s XOR diff) AND SIGN_BIT \<noteq> 0 then RaiseException OverflowException 0 m
          else fin (set_reg (rd i) diff m) pc)
      | OP_SUBU \<Rightarrow> fin (set_reg (rd i) (s - t) m) pc
      | _ \<Rightarrow> Inl AssertFailed)"

definition exec_sw_res :: "Instruction \<Rightarrow> 32 word \<Rightarrow> machine \<Rightarrow> result" where
  "exec_sw_res i pc m =
     (let s = reg m (rs i); t = reg m (rt i); e = extra i; tmp = s + e in
      case opCode i of
        OP_SW \<Rightarrow> mem_write tmp 4 t (\<lambda>m1. fin m1 pc) m
      | OP_SWL \<Rightarrow> bindE (assertE (tmp AND 3 = 0)) (\<lambda>_.
          mem_read (tmp AND NOT 3) 4 (\<lambda>v m1. let t1 = reg m1 (rt i) in mem_write (tmp AND NOT 3) 4
            (if tmp AND 3 = 0 then t1
             else if tmp AND 3 = 1 then (v AND 0xff000000) OR (signed_drop_bit 8 t1 AND 0xffffff)
             else if tmp AND 3 = 2 then (v AND 0xffff0000) OR (signed_drop_bit 16 t1 AND 0xffff)
             else (v AND 0xffffff00) OR (signed_drop_bit 24 t1 AND 0xff)) (\<lambda>m2. fin m2 pc) m1) m)
      | OP_SWR \<Rightarrow> bindE (assertE (tmp AND 3 = 0)) (\<lambda>_.
          mem_read (tmp AND NOT 3) 4 (\<lambda>v m1. let t1 = reg m1 (rt i) in mem_write (tmp AND NOT 3) 4
            (if tmp AND 3 = 0 then (v AND 0xffffff) OR push_bit 24 t1
             else if tmp AND 3 = 1 then (v AND 0xffff) OR push_bit 16 t1
             else if tmp AND 3 = 2 then (v AND 0xff) OR push_bit 8 t1
             else t1) (\<lambda>m2. fin m2 pc) m1) m)
      | OP_SYSCALL \<Rightarrow> RaiseException SyscallException 0 m
      | OP_XOR \<Rightarrow> fin (set_reg (rd i) (s XOR t) m) pc
      | OP_XORI \<Rightarrow> fin (set_reg (rt i) (s XOR (e AND 0xffff)) m) pc
      | OP_RES \<Rightarrow> RaiseException IllegalInstrException 0 m
      | OP_UNIMP \<Rightarrow> RaiseException IllegalInstrException 0 m
      | _ \<Rightarrow> Inl AssertFailed)"

text \<open>The switch: which group of cases an instruction is in.\<close>

definition exec_switch :: "Instruction \<Rightarrow> 32 word \<Rightarrow> machine \<Rightarrow> result" where
  "exec_switch i =
     (let oc = opCode i in
      if oc \<in> {OP_ADD, OP_ADDI, OP_ADDIU, OP_ADDU, OP_AND, OP_ANDI, OP_BEQ, OP_BGEZ, OP_BGEZAL, OP_BGTZ, OP_BLEZ,
               OP_BLTZ, OP_BLTZAL, OP_BNE} then exec_add_bne i
      else if oc \<in> {OP_DIV, OP_DIVU, OP_J, OP_JAL, OP_JALR, OP_JR} then exec_div_jr i
      else if oc \<in> {OP_LB, OP_LBU, OP_LH, OP_LHU, OP_LUI, OP_LW, OP_LWL, OP_LWR} then exec_lb_lwr i
      else if oc \<in> {OP_MFHI, OP_MFLO, OP_MTHI, OP_MTLO, OP_MULT, OP_MULTU, OP_NOR, OP_OR, OP_ORI, OP_SB, OP_SH}
      then exec_mfhi_sh i
      else if oc \<in> {OP_SLL, OP_SLLV, OP_SLT, OP_SLTI, OP_SLTIU, OP_SLTU, OP_SRA, OP_SRAV, OP_SRL, OP_SRLV, OP_SUB,
               OP_SUBU} then exec_sll_subu i
      else exec_sw_res i)"

definition advance :: "32 word \<Rightarrow> machine \<Rightarrow> machine" where
  "advance pcAfter m =
     (let m1 = set_reg PrevPCReg (reg m PCReg) m; m2 = set_reg PCReg (reg m1 NextPCReg) m1
      in set_reg NextPCReg pcAfter m2)"

text \<open>\<open>Some ex\<close> when the exception handler is to be called, \<open>None\<close> after a finished instruction.\<close>

definition OneInstruction :: "machine \<Rightarrow> fault + ExceptionType option \<times> machine" where
  "OneInstruction m =
     bindE (mem_read (reg m PCReg) 4 (\<lambda>raw m1. exec_switch (Decode raw) (reg m1 NextPCReg + 4) m1) m) (\<lambda>(r, m2).
     case r of Raised ex \<Rightarrow> Inr (Some ex, m2)
     | Done pcAfter nextLoadReg nextLoadValue \<Rightarrow>
         Inr (None, advance pcAfter (DelayedLoad nextLoadReg nextLoadValue m2)))"

section \<open>The product\<close>

text \<open>The 64-bit number in a pair of registers.\<close>

definition wide :: "32 word \<Rightarrow> 32 word \<Rightarrow> 64 word" where
  "wide hi lo = word_of_int (uint hi * 2 ^ 32 + uint lo)"

lemma uint32 [simp]: "uint (x :: 32 word) mod 4294967296 = uint x"
  using uint_bounded [of x] by simp

lemma uint32_less: "uint (x :: 32 word) < 4294967296"
  using uint_bounded [of x] by simp

lemma even_uint32: "even (uint (a :: 32 word)) = even a"
  using bit_uint_iff [of a 0] by (simp add: bit_0)

lemma sint32: "sint (a :: 32 word) = uint a - 2 ^ 32 * of_bool (sint a < 0)"
proof -
  have "sint a = take_bit 32 (uint a) - 2 ^ 32 * of_bool (bit (uint a) 31)"
    by (simp add: sint_uint signed_take_bit_eq_take_bit_minus)
  also have "take_bit 32 (uint a) = uint a" by (simp add: take_bit_eq_mod)
  also have "bit (uint a) 31 \<longleftrightarrow> sint a < 0" using bit_last_iff [of a] by (simp add: bit_uint_iff)
  finally show ?thesis by simp
qed

lemma wide_word_cat: "wide hi lo = word_cat hi lo"
  by (simp add: wide_def word_cat_eq' concat_bit_eq take_bit_eq_mod push_bit_eq_mult add.commute)

lemma wide_hi_cong: "wide (word_of_int k) lo = word_of_int (k * 2 ^ 32 + uint lo)"
proof -
  have "uint (word_of_int k :: 32 word) = k mod 2 ^ 32" by (simp add: uint_word_of_int_eq take_bit_eq_mod)
  moreover have "(k mod 2 ^ 32) * 2 ^ 32 = (k * 2 ^ 32) mod 2 ^ 64" by (simp add: mult_mod_left)
  ultimately have "wide (word_of_int k) lo = word_of_int ((k * 2 ^ 32) mod 2 ^ 64 + uint lo)"
    by (simp add: wide_def)
  also have "\<dots> = word_of_int (k * 2 ^ 32 + uint lo)"
    by (simp only: word_of_int_eq_iff take_bit_eq_mod mod_simps len_num1 len_bit0 mult_1_right) (simp add: mod_simps)
  finally show ?thesis .
qed

lemma wide_add:
  "wide ((if lo + bLo < bLo then hi + 1 else hi) + bHi) (lo + bLo) = wide hi lo + wide bHi bLo"
proof -
  let ?c = "if lo + bLo < bLo then 1 else 0 :: int"
  have c: "uint (lo + bLo) = uint lo + uint bLo - ?c * 2 ^ 32"
    using uint_plus_if_size [of lo bLo] uint32_less [of lo] uint32_less [of bLo]
    by (auto simp: word_less_def word_size split: if_splits)
  have h: "(if lo + bLo < bLo then hi + 1 else hi) + bHi = word_of_int (uint hi + uint bHi + ?c)" by simp
  show ?thesis unfolding h wide_hi_cong c by (simp add: wide_def algebra_simps)
qed

lemma wide_double:
  "wide (push_bit 1 bHi OR (if bLo AND 0x80000000 \<noteq> 0 then 1 else 0)) (push_bit 1 bLo) = 2 * wide bHi bLo"
proof -
  have "push_bit 1 bHi OR (if bLo AND 0x80000000 \<noteq> 0 then 1 else 0) =
      (if bLo + bLo < bLo then bHi + 1 else bHi) + bHi"
  proof -
    have eq: "(0x80000000 :: 32 word) = push_bit 31 1" by (simp add: push_bit_of_1)
    have t: "bLo AND 0x80000000 \<noteq> 0 \<longleftrightarrow> bit bLo 31" unfolding eq by (rule bit_test) simp
    have b: "bit bLo 31 \<longleftrightarrow> 2 ^ 31 \<le> uint bLo"
    proof -
      have s: "bit bLo 31 \<longleftrightarrow> sint bLo < 0" using bit_last_iff [of bLo] by simp
      have "sint bLo < 2 ^ 31" "- (2 ^ 31) \<le> sint bLo" using sint_lt [of bLo] sint_ge [of bLo] by simp_all
      then show ?thesis unfolding s using sint32 [of bLo] uint32_less [of bLo] by (auto simp: of_bool_def split: if_splits)
    qed
    have l: "bLo + bLo < bLo \<longleftrightarrow> 2 ^ 31 \<le> uint bLo"
      using uint_plus_if_size [of bLo bLo] uint32_less [of bLo] by (auto simp: word_less_def word_size split: if_splits)
    show ?thesis unfolding t b l by (auto simp: or_one_eq)
  qed
  moreover have "push_bit 1 bLo = bLo + bLo" by simp
  ultimately show ?thesis by (simp only: wide_add mult_2)
qed

lemma wide_minus: "wide (if NOT lo + 1 = 0 then NOT hi + 1 else NOT hi) (NOT lo + 1) = - wide hi lo"
proof (cases "lo = 0")
  case True
  have "NOT hi + 1 = word_of_int (- uint hi)" by (simp add: not_eq_complement)
  then have "wide (NOT hi + 1) 0 = word_of_int (- uint hi * 2 ^ 32 + uint (0 :: 32 word))" by (simp only: wide_hi_cong)
  also have "\<dots> = - wide hi 0" by (simp add: wide_def)
  finally show ?thesis using True by simp
next
  case False
  have l: "NOT lo + 1 = - lo" by (simp add: not_eq_complement)
  have u: "uint (- lo) = 2 ^ 32 - uint lo"
    using False by (simp add: uint_word_ariths zmod_zminus1_eq_if unsigned_eq_0_iff)
  have "NOT hi = word_of_int (- uint hi - 1)" by (simp add: not_eq_complement)
  then have "wide (NOT hi) (- lo) = word_of_int ((- uint hi - 1) * 2 ^ 32 + uint (- lo))"
    by (simp only: wide_hi_cong)
  also have "\<dots> = - wide hi lo" by (simp only: u) (simp add: wide_def algebra_simps)
  finally show ?thesis using False l by simp
qed

lemma uint_sshift_take:
  assumes "n < 32"
  shows "take_bit n (uint (signed_drop_bit 1 a :: 32 word)) = take_bit n (uint (a :: 32 word) div 2)"
proof (rule bit_eqI)
  fix m
  show "bit (take_bit n (uint (signed_drop_bit 1 a))) m = bit (take_bit n (uint a div 2)) m"
    using assms by (auto simp: bit_simps bit_take_bit_iff bit_uint_iff bit_signed_drop_bit_iff simp flip: bit_Suc)
qed

lemma odd_and_1: "(a :: 32 word) AND 1 \<noteq> 0 \<longleftrightarrow> odd (uint a)"
  by (simp add: and_one_eq mod_2_eq_odd even_uint32)

lemma mult_loop_correct:
  assumes "n \<le> 32" "mult_loop n a bHi bLo hi lo = (h, l)"
  shows "wide h l = wide hi lo + of_int (take_bit n (uint a)) * wide bHi bLo"
  using assms
proof (induction n arbitrary: a bHi bLo hi lo)
  case 0
  then show ?case by simp
next
  case (Suc n)
  let ?lo = "if a AND 1 \<noteq> 0 then lo + bLo else lo"
  let ?hi = "if a AND 1 \<noteq> 0 then (if ?lo < bLo then hi + 1 else hi) + bHi else hi"
  have w: "wide ?hi ?lo = wide hi lo + of_int (uint a mod 2) * wide bHi bLo"
    using wide_add [of lo bLo hi bHi] by (auto simp: odd_and_1 odd_iff_mod_2_eq_one)
  have t: "take_bit (Suc n) (uint a) = uint a mod 2 + 2 * take_bit n (uint a div 2)"
    by (simp add: take_bit_Suc mod2_eq_if)
  show ?case
  proof (cases "a AND 1 \<noteq> 0 \<and> a AND 0xfffffffe = 0")
    case True
    have "(0xfffffffe :: 32 word) = NOT 1" by simp
    then have "a = a AND 1" using True by (metis bit.conj_cancel_right bit.conj_disj_distrib bit.disj_cancel_right bit.conj_one_right or.right_neutral)
    with True have "a = 1" by (auto simp: and_one_eq mod_2_eq_odd)
    then have "take_bit (Suc n) (uint a) = uint a mod 2" by simp
    moreover have "h = ?hi" "l = ?lo" using Suc.prems(2) True by (auto simp: Let_def)
    ultimately show ?thesis using w by (simp only:)
  next
    case False
    with Suc.prems have "mult_loop n (signed_drop_bit 1 a)
       (push_bit 1 bHi OR (if bLo AND 0x80000000 \<noteq> 0 then 1 else 0)) (push_bit 1 bLo) ?hi ?lo = (h, l)"
      by (simp only: mult_loop.simps Let_def if_False)
    with Suc.IH Suc.prems(1) have "wide h l = wide ?hi ?lo +
       of_int (take_bit n (uint (signed_drop_bit 1 a))) *
       wide (push_bit 1 bHi OR (if bLo AND 0x80000000 \<noteq> 0 then 1 else 0)) (push_bit 1 bLo)" by simp
    also have "\<dots> = wide hi lo + of_int (take_bit (Suc n) (uint a)) * wide bHi bLo"
      using Suc.prems(1) by (simp only: w wide_double uint_sshift_take t of_int_add of_int_mult) (simp add: algebra_simps)
    finally show ?thesis .
  qed
qed

lemma uint_minus_sint: "sint (a :: 32 word) < 0 \<Longrightarrow> uint (- a) = - sint a"
proof -
  assume n: "sint a < 0"
  have "sint a = uint a - 2 ^ 32" using sint32 [of a] n by simp
  moreover have "a \<noteq> 0" using n by auto
  then have "uint (- a) = 2 ^ 32 - uint a" by (simp add: uint_word_ariths zmod_zminus1_eq_if unsigned_eq_0_iff)
  ultimately show ?thesis by simp
qed

lemma Mult_wide: "case Mult a b sg of (hi, lo) \<Rightarrow>
    wide hi lo = (if sg then of_int (sint a * sint b) else of_int (uint a * uint b))"
proof (cases "a = 0 \<or> b = 0")
  case True
  then show ?thesis by (auto simp: Mult_def wide_def)
next
  case False
  let ?na = "sg \<and> sint a < 0" and ?nb = "sg \<and> sint b < 0"
  let ?a = "if ?na then - a else a" and ?b = "if ?nb then - b else b"
  obtain hi lo where m: "mult_loop 32 ?a 0 ?b 0 0 = (hi, lo)" by fastforce
  have "take_bit 32 (uint ?a) = uint ?a" using uint_bounded [of ?a] by (simp add: take_bit_eq_mod)
  then have w: "wide hi lo = of_int (uint ?a * uint ?b)"
    using mult_loop_correct [OF _ m] by (simp add: wide_def)
  have s: "sint x = uint x" if "\<not> sint x < 0" for x :: "32 word"
    using that sint32 [of x] by simp
  have "Mult a b sg = (if ?na \<noteq> ?nb then (if NOT lo + 1 = 0 then NOT hi + 1 else NOT hi, NOT lo + 1) else (hi, lo))"
    unfolding Mult_def Let_def m prod.case using False by (simp only: if_False)
  then have "(case Mult a b sg of (hi, lo) \<Rightarrow> wide hi lo) = (if ?na \<noteq> ?nb then - wide hi lo else wide hi lo)"
    by (simp only: wide_minus prod.case split: if_split) blast
  also have "\<dots> = of_int (if ?na \<noteq> ?nb then - (uint ?a * uint ?b) else uint ?a * uint ?b)"
    unfolding w by (simp only: of_int_minus split: if_split) blast
  also have "(if ?na \<noteq> ?nb then - (uint ?a * uint ?b) else uint ?a * uint ?b) =
      (if sg then sint a * sint b else uint a * uint b)"
    using s uint_minus_sint [of a] uint_minus_sint [of b] by auto
  also have "of_int (if sg then sint a * sint b else uint a * uint b) =
      (if sg then of_int (sint a * sint b) else of_int (uint a * uint b) :: 64 word)" by (simp only: split: if_split) blast
  finally show ?thesis by (simp add: split_beta)
qed

text \<open>
  C37 \<open>Mult\<close> leaves the 64-bit product in the register pair, signed or unsigned as asked: the
  loop over the bits of the first factor, its early exit, the carries between the halves and the
  complement of a negative result are right for all operands, the least integer included.
\<close>

theorem mult_correct:
  "case Mult a b sg of (hi, lo) \<Rightarrow>
     (word_cat hi lo :: 64 word) = (if sg then of_int (sint a * sint b) else of_int (uint a * uint b))"
  using Mult_wide [where a = a and b = b and sg = sg] by (simp only: wide_word_cat)

end
