(* ===== verification/Nachos_Cpu.thy ===== *)
theory Nachos_Cpu
  imports Nachos_Mips
begin

text \<open>
  What every instruction of the MIPS simulator keeps: the registers, the delayed load and, through
  the memory accesses, the invariant of virtual memory.  The properties of the arithmetic
  instructions, and where they leave the architecture they simulate.
\<close>

section \<open>Decoding gives known operations\<close>

lemma bits_less: "bits n k v < 2 ^ k"
proof -
  have "unat (take_bit k (drop_bit n v)) = take_bit k (unat (drop_bit n v))" by (rule unsigned_take_bit_eq)
  then show ?thesis by (simp add: bits_def)
qed

definition decoded_ok :: "Instruction \<Rightarrow> bool" where
  "decoded_ok i \<longleftrightarrow> opCode i \<notin> {OP_RFE, SPECIAL, BCOND} \<and> rs i < 32 \<and> rt i < 32 \<and> rd i < 32"

lemma opTable_known: "\<forall>p\<in>set opTable. fst p \<noteq> OP_RFE"
  by (simp add: opTable_def)

lemma specialTable_known: "\<forall>c\<in>set specialTable. c \<notin> {OP_RFE, SPECIAL, BCOND}"
  by (simp add: specialTable_def)

lemma Decode_ok: "decoded_ok (Decode v)"
proof -
  have "bits 26 6 v < length opTable" using bits_less [of 26 6 v] by (simp add: opTable_def)
  then have o: "fst (opTable ! bits 26 6 v) \<noteq> OP_RFE" using opTable_known nth_mem by blast
  have "bits 0 6 v < length specialTable" using bits_less [of 0 6 v] by (simp add: specialTable_def)
  then have s: "specialTable ! bits 0 6 v \<notin> {OP_RFE, SPECIAL, BCOND}" using specialTable_known nth_mem by blast
  have "rs (Decode v) < 32" "rt (Decode v) < 32" "rd (Decode v) < 32"
    using bits_less [of 21 5 v] bits_less [of 16 5 v] bits_less [of 11 5 v]
    by (simp_all add: Decode_def split_beta Let_def)
  moreover have "opCode (Decode v) \<notin> {OP_RFE, SPECIAL, BCOND}"
    using o s by (auto simp: Decode_def split_beta Let_def)
  ultimately show ?thesis by (simp add: decoded_ok_def)
qed

section \<open>The invariant of the processor\<close>

definition cpu_mid :: "int \<Rightarrow> machine \<Rightarrow> bool" where
  "cpu_mid cur m \<longleftrightarrow> length (registers m) = 40 \<and> unat (reg m LoadReg) < 32 \<and> vm_inv cur (memory m)"

definition cpu_inv :: "int \<Rightarrow> machine \<Rightarrow> bool" where
  "cpu_inv cur m \<longleftrightarrow> cpu_mid cur m \<and> reg m 0 = 0"

text \<open>A result is good when the state is, and it is no fault if the instruction is \<open>safe\<close>.\<close>

fun good_result :: "int \<Rightarrow> bool \<Rightarrow> result \<Rightarrow> bool" where
  "good_result cur safe (Inl f) = (\<not> safe)"
| "good_result cur safe (Inr (Raised ex, m)) = cpu_inv cur m"
| "good_result cur safe (Inr (Done pc r v, m)) = (cpu_mid cur m \<and> r < 32)"

lemma reg_set_reg: "length (registers m) = 40 \<Longrightarrow> n < 40 \<Longrightarrow> reg (set_reg k v m) n = (if n = k then v else reg m n)"
  by (simp add: reg_def set_reg_def nth_list_update')

lemma registers_set_reg [simp]: "length (registers (set_reg k v m)) = length (registers m)"
  "memory (set_reg k v m) = memory m"
  by (simp_all add: set_reg_def)

lemma cpu_mid_set_reg: "cpu_mid cur m \<Longrightarrow> n \<noteq> LoadReg \<Longrightarrow> cpu_mid cur (set_reg n v m)"
  by (simp add: cpu_mid_def reg_set_reg LoadReg_def)

lemma DelayedLoad_inv:
  assumes "cpu_mid cur m" "r < 32"
  shows "cpu_inv cur (DelayedLoad r v m)"
proof -
  have "unat (of_nat r :: 32 word) = r" using assms(2) by (simp add: unat_of_nat)
  with assms show ?thesis
    by (simp add: cpu_inv_def cpu_mid_def DelayedLoad_def reg_set_reg LoadReg_def LoadValueReg_def)
qed

lemma advance_inv: "cpu_inv cur m \<Longrightarrow> cpu_inv cur (advance pc m)"
  by (simp add: cpu_inv_def cpu_mid_def advance_def Let_def reg_set_reg reg_numbers)

lemma good_fin [intro]: "cpu_mid cur m \<Longrightarrow> good_result cur safe (fin m pc)"
  by (simp add: fin_def)

lemma good_branch [intro]: "cpu_mid cur m \<Longrightarrow> good_result cur safe (branch c i m pc)"
  by (simp add: branch_def good_fin)

lemma good_raise [intro]: "cpu_mid cur m \<Longrightarrow> good_result cur safe (RaiseException e b m)"
  using DelayedLoad_inv [of cur "set_reg BadVAddrReg b m" 0 0] cpu_mid_set_reg [of cur m BadVAddrReg b]
  by (simp add: RaiseException_def reg_numbers)

lemma Translate_cases:
  assumes "vm_inv cur s" "sz = 1 \<or> sz = 2 \<or> sz = 4"
  obtains (trap) ex where "ex \<noteq> NoException" "Translate va sz w s = Inr (ex, 0, s)"
  | (hit) k f where "k < 4" "valid (tlb s ! k)" "virtualPage (tlb s ! k) = page_of va" "aligned va sz"
      "physicalPage (tlb s ! k) = int f" "f < 32" "frame_of s cur (page_of va) = Some f"
proof (cases "aligned va sz")
  case False
  then have "Translate va sz w s = Inr (AddressErrorException, 0, s)" by (simp add: Translate_def aligned_def)
  then show ?thesis using trap by blast
next
  case al: True
  show ?thesis
  proof (cases "first_from (\<lambda>i. valid (tlb s ! i) \<and> virtualPage (tlb s ! i) = page_of va) 0 TLBSize")
    case None
    then have "Translate va sz w s = Inr (PageFaultException, 0, s)"
      using al by (simp add: Translate_def aligned_def Let_def page_of_def PageSize_def)
    then show ?thesis using trap by blast
  next
    case (Some k)
    from first_from_Some [OF Some] have k: "k < 4" "valid (tlb s ! k)" "virtualPage (tlb s ! k) = page_of va"
      by (simp_all add: TLBSize_def)
    obtain f where "physicalPage (tlb s ! k) = int f" "f < 32" "frame_of s cur (page_of va) = Some f"
      by (rule hit_frame [OF assms(1) k])
    with k al show ?thesis using hit by blast
  qed
qed

lemma ReadMem_inv:
  assumes "vm_inv cur s" "sz = 1 \<or> sz = 2 \<or> sz = 4"
  shows "\<exists>r s'. ReadMem va sz s = Inr (r, s') \<and> vm_inv cur s' \<and> page_bytes s' = page_bytes s"
proof (cases rule: Translate_cases [OF assms, of va False, case_names trap hit])
  case (trap ex)
  then show ?thesis using assms(1) by (simp add: ReadMem_def)
next
  case (hit k f)
  from ReadMem_hit [OF assms(1) hit(1,2,3,4) assms(2) hit(5,6)] entry_read_ok [OF assms(1) hit(1)]
  show ?thesis by simp
qed

lemma WriteMem_inv:
  assumes "vm_inv cur s" "sz = 1 \<or> sz = 2 \<or> sz = 4"
  shows "\<exists>ex s'. WriteMem va sz x s = Inr (ex, s') \<and> vm_inv cur s'"
proof (cases rule: Translate_cases [OF assms, of va True, case_names trap hit])
  case (trap ex)
  then show ?thesis using assms(1) by (simp add: WriteMem_def)
next
  case (hit k f)
  have "offset_of va + length (bytes_of_word sz x) \<le> 128" using aligned_offset [OF hit(4) assms(2)] by simp
  from page_written_ok(1) [OF assms(1) hit(1,2,5,6,7) this] WriteMem_hit [OF assms(1) hit(1,2,3,4) assms(2) hit(5)]
  show ?thesis by simp
qed

lemma cpu_mid_memory: "cpu_mid cur m \<Longrightarrow> vm_inv cur v \<Longrightarrow> cpu_mid cur (m\<lparr>memory := v\<rparr>)"
  by (simp add: cpu_mid_def reg_def)

lemma good_read:
  assumes "cpu_mid cur m" "sz = 1 \<or> sz = 2 \<or> sz = 4" "\<And>w m1. cpu_mid cur m1 \<Longrightarrow> good_result cur safe (k w m1)"
  shows "good_result cur safe (mem_read a sz k m)"
proof -
  have "vm_inv cur (memory m)" using assms(1) by (simp add: cpu_mid_def)
  from ReadMem_inv [OF this assms(2), of a] obtain r v where
    r: "ReadMem a sz (memory m) = Inr (r, v)" "vm_inv cur v" by blast
  note mid = cpu_mid_memory [OF assms(1) r(2)]
  show ?thesis using r(1) good_raise [OF mid] assms(3) [OF mid] by (cases r) (simp_all add: mem_read_def)
qed

lemma good_write:
  assumes "cpu_mid cur m" "sz = 1 \<or> sz = 2 \<or> sz = 4" "\<And>m1. cpu_mid cur m1 \<Longrightarrow> good_result cur safe (k m1)"
  shows "good_result cur safe (mem_write a sz x k m)"
proof -
  have "vm_inv cur (memory m)" using assms(1) by (simp add: cpu_mid_def)
  from WriteMem_inv [OF this assms(2), of a x] obtain ex v where
    r: "WriteMem a sz x (memory m) = Inr (ex, v)" "vm_inv cur v" by blast
  note mid = cpu_mid_memory [OF assms(1) r(2)]
  show ?thesis using r(1) good_raise [OF mid] assms(3) [OF mid] by (simp add: mem_write_def)
qed

text \<open>The instructions that can bring the simulator down.\<close>

definition safe_op :: "opcode \<Rightarrow> bool" where
  "safe_op oc \<longleftrightarrow> oc \<notin> {OP_DIV, OP_LWL, OP_LWR, OP_SWL, OP_SWR}"

lemma good_assert:
  assumes "b \<Longrightarrow> good_result cur False r"
  shows "good_result cur False (bindE (assertE b) (\<lambda>_. r))"
  using assms by (cases b) simp_all

lemmas good_intros = good_fin good_branch good_raise good_read good_write good_assert cpu_mid_set_reg

lemma set_reg_ok: "cpu_mid cur m \<Longrightarrow> n < 34 \<Longrightarrow> cpu_mid cur (set_reg n v m)"
  by (rule cpu_mid_set_reg) (simp_all add: LoadReg_def)

lemma set_special_ok: "cpu_mid cur m \<Longrightarrow> cpu_mid cur (set_reg HiReg v m)"
  "cpu_mid cur m \<Longrightarrow> cpu_mid cur (set_reg LoReg v m)" "cpu_mid cur m \<Longrightarrow> cpu_mid cur (set_reg R31 v m)"
  by (rule cpu_mid_set_reg; simp add: reg_numbers)+

lemma good_done: "cpu_mid cur m \<Longrightarrow> r < 32 \<Longrightarrow> good_result cur safe (Inr (Done pc r v, m))"
  by simp

lemma good_add_bne:
  assumes "cpu_mid cur m" "decoded_ok i" "opCode i \<in> {OP_ADD, OP_ADDI, OP_ADDIU, OP_ADDU, OP_AND, OP_ANDI, OP_BEQ,
    OP_BGEZ, OP_BGEZAL, OP_BGTZ, OP_BLEZ, OP_BLTZ, OP_BLTZAL, OP_BNE}"
  shows "good_result cur (safe_op (opCode i)) (exec_add_bne i pc m)"
  using assms(3)
  by (elim insertE emptyE)
    (use assms(1,2) in \<open>simp_all add: exec_add_bne_def Let_def decoded_ok_def set_reg_ok set_special_ok good_fin
      good_branch good_raise\<close>)

lemma good_div_jr:
  assumes "cpu_mid cur m" "decoded_ok i" "opCode i \<in> {OP_DIV, OP_DIVU, OP_J, OP_JAL, OP_JALR, OP_JR}"
  shows "good_result cur (safe_op (opCode i)) (exec_div_jr i pc m)"
  using assms(3)
  by (elim insertE emptyE)
    (use assms(1,2) in \<open>simp_all add: exec_div_jr_def Let_def decoded_ok_def set_reg_ok set_special_ok good_fin
      safe_op_def\<close>)

lemma good_lb_lwr:
  assumes "cpu_mid cur m" "decoded_ok i" "opCode i \<in> {OP_LB, OP_LBU, OP_LH, OP_LHU, OP_LUI, OP_LW, OP_LWL, OP_LWR}"
  shows "good_result cur (safe_op (opCode i)) (exec_lb_lwr i pc m)"
  using assms(3)
  by (elim insertE emptyE)
    (use assms(1,2) in \<open>simp_all add: exec_lb_lwr_def Let_def decoded_ok_def set_reg_ok good_fin good_raise
      safe_op_def good_read good_assert\<close>)

lemma good_mfhi_sh:
  assumes "cpu_mid cur m" "decoded_ok i" "opCode i \<in> {OP_MFHI, OP_MFLO, OP_MTHI, OP_MTLO, OP_MULT, OP_MULTU, OP_NOR,
    OP_OR, OP_ORI, OP_SB, OP_SH}"
  shows "good_result cur (safe_op (opCode i)) (exec_mfhi_sh i pc m)"
  using assms(3)
  by (elim insertE emptyE)
    (use assms(1,2) in \<open>simp_all add: exec_mfhi_sh_def Let_def decoded_ok_def set_reg_ok set_special_ok good_fin
      good_write split_beta\<close>)

lemma good_sll_subu:
  assumes "cpu_mid cur m" "decoded_ok i" "opCode i \<in> {OP_SLL, OP_SLLV, OP_SLT, OP_SLTI, OP_SLTIU, OP_SLTU, OP_SRA,
    OP_SRAV, OP_SRL, OP_SRLV, OP_SUB, OP_SUBU}"
  shows "good_result cur (safe_op (opCode i)) (exec_sll_subu i pc m)"
  using assms(3)
  by (elim insertE emptyE)
    (use assms(1,2) in \<open>simp_all add: exec_sll_subu_def Let_def decoded_ok_def set_reg_ok good_fin good_raise\<close>)

lemma good_sw_res:
  assumes "cpu_mid cur m" "decoded_ok i" "opCode i \<in> {OP_SW, OP_SWL, OP_SWR, OP_SYSCALL, OP_XOR, OP_XORI, OP_RES, OP_UNIMP}"
  shows "good_result cur (safe_op (opCode i)) (exec_sw_res i pc m)"
  using assms(3)
  by (elim insertE emptyE)
    (use assms(1,2) in \<open>simp_all add: exec_sw_res_def Let_def decoded_ok_def set_reg_ok good_fin good_raise
      safe_op_def good_read good_write good_assert\<close>)

lemma good_switch:
  assumes "cpu_mid cur m" "decoded_ok i"
  shows "good_result cur (safe_op (opCode i)) (exec_switch i pc m)"
proof -
  have "opCode i \<notin> {OP_RFE, SPECIAL, BCOND}" using assms(2) by (simp add: decoded_ok_def)
  then show ?thesis
    using good_add_bne [OF assms, of pc] good_div_jr [OF assms, of pc] good_lb_lwr [OF assms, of pc]
      good_mfhi_sh [OF assms, of pc] good_sll_subu [OF assms, of pc] good_sw_res [OF assms, of pc]
    unfolding exec_switch_def Let_def by (cases "opCode i") simp_all
qed

section \<open>Signs and shifts\<close>

lemma sign_bit: "x AND SIGN_BIT = 0 \<longleftrightarrow> \<not> sint x < 0"
proof -
  have eq: "SIGN_BIT = push_bit 31 1" by (simp add: SIGN_BIT_def push_bit_of_1)
  have "x AND push_bit 31 1 \<noteq> 0 \<longleftrightarrow> bit x 31" by (rule bit_test) simp
  moreover have "bit x 31 \<longleftrightarrow> sint x < 0" using bit_last_iff [of x] by simp
  ultimately show ?thesis unfolding eq by blast
qed

lemma sign_xor: "sint (x XOR y :: 32 word) < 0 \<longleftrightarrow> (sint x < 0) \<noteq> (sint y < 0)"
  using bit_last_iff [of x] bit_last_iff [of y] bit_last_iff [of "x XOR y"] by (simp add: bit_xor_iff)

lemma sint32_range: "- 2147483648 \<le> sint (x :: 32 word)" "sint (x :: 32 word) < 2147483648"
  using sint_ge [of x] sint_lt [of x] by simp_all

lemma sint_of_int: "sint (word_of_int k :: 32 word) = (k + 2147483648) mod 4294967296 - 2147483648"
  by (simp add: sint_sbintrunc' signed_take_bit_eq_take_bit_shift take_bit_eq_mod)

lemma sint_of_int_cases:
  assumes "- 4294967296 \<le> k" "k < 4294967296"
  shows "sint (word_of_int k :: 32 word) =
    (if k < - 2147483648 then k + 4294967296 else if k < 2147483648 then k else k - 4294967296)"
proof -
  have shift: "j mod 4294967296 = (if j < 0 then j + 4294967296 else if j < 4294967296 then j else j - 4294967296)"
    if "- 4294967296 \<le> j" "j < 2 * 4294967296" for j :: int
  proof -
    consider "j < 0" | "0 \<le> j" "j < 4294967296" | "4294967296 \<le> j" by linarith
    then show ?thesis
    proof cases
      case 1
      have "j mod 4294967296 = (j + 4294967296) mod 4294967296" by simp
      with 1 that show ?thesis by (simp add: mod_pos_pos_trivial del: mod_add_self2)
    next
      case 3
      have "(j - 4294967296) mod 4294967296 = j - 4294967296" using 3 that by (intro mod_pos_pos_trivial) simp_all
      moreover have "(j - 4294967296) mod 4294967296 = j mod 4294967296" by simp
      ultimately show ?thesis using 3 by simp
    qed simp
  qed
  have "(k + 2147483648) mod 4294967296 = (if k + 2147483648 < 0 then k + 2147483648 + 4294967296
     else if k + 2147483648 < 4294967296 then k + 2147483648 else k + 2147483648 - 4294967296)"
    by (rule shift) (use assms in simp_all)
  then show ?thesis unfolding sint_of_int by auto
qed

lemma add_overflow_bits:
  "((s XOR t) AND SIGN_BIT = 0 \<and> (s XOR (s + t)) AND SIGN_BIT \<noteq> 0) \<longleftrightarrow>
     \<not> (- (2 ^ 31) \<le> sint s + sint t \<and> sint s + sint t < 2 ^ 31)"
proof -
  have "s + t = word_of_int (sint s + sint t)" by simp
  then have w: "sint (s + t) = sint (word_of_int (sint s + sint t) :: 32 word)" by (simp only:)
  have "sint (s + t) = (let k = sint s + sint t in
    if k < - 2147483648 then k + 4294967296 else if k < 2147483648 then k else k - 4294967296)"
    unfolding w Let_def using sint32_range [of s] sint32_range [of t] by (intro sint_of_int_cases) simp_all
  then show ?thesis
    unfolding sign_bit sign_xor Let_def using sint32_range [of s] sint32_range [of t] by (simp split: if_splits) linarith
qed

lemma sub_overflow_bits:
  "((s XOR t) AND SIGN_BIT \<noteq> 0 \<and> (s XOR (s - t)) AND SIGN_BIT \<noteq> 0) \<longleftrightarrow>
     \<not> (- (2 ^ 31) \<le> sint s - sint t \<and> sint s - sint t < 2 ^ 31)"
proof -
  have "s - t = word_of_int (sint s - sint t)" by simp
  then have w: "sint (s - t) = sint (word_of_int (sint s - sint t) :: 32 word)" by (simp only:)
  have "sint (s - t) = (let k = sint s - sint t in
    if k < - 2147483648 then k + 4294967296 else if k < 2147483648 then k else k - 4294967296)"
    unfolding w Let_def using sint32_range [of s] sint32_range [of t] by (intro sint_of_int_cases) simp_all
  then show ?thesis
    unfolding sign_bit sign_xor Let_def using sint32_range [of s] sint32_range [of t] by (simp split: if_splits) linarith
qed

lemma sra_sign:
  assumes "sint t < 0" "0 < n" "n < 32"
  shows "signed_drop_bit n t \<noteq> drop_bit n (t :: 32 word)"
proof
  assume eq: "signed_drop_bit n t = drop_bit n t"
  have b: "bit t 31" using assms(1) bit_last_iff [of t] by simp
  have "bit (signed_drop_bit n t) 31" using b assms by (auto simp: bit_signed_drop_bit_iff)
  moreover have "\<not> bit (drop_bit n t) 31" using assms by (auto simp: bit_drop_bit_eq dest: bit_imp_le_length)
  ultimately show False using eq by simp
qed

section \<open>Properties\<close>

text \<open>
  C22 Every instruction keeps the processor and the memory well formed: 40 registers, register 0
  zero, the target of the delayed load a general register, and the invariant of virtual memory.  An
  instruction always ends or raises an exception for the kernel, unless it is one of the five for
  which the simulator itself can stop: a division, or a left or right part-word access.
\<close>

theorem cpu_invariant:
  assumes "cpu_inv cur m"
  shows "case OneInstruction m of
      Inr (r, m') \<Rightarrow> cpu_inv cur m'
    | Inl f \<Rightarrow> (\<exists>raw s. ReadMem (reg m PCReg) 4 (memory m) = Inr (Inr raw, s) \<and> \<not> safe_op (opCode (Decode raw)))"
proof -
  have mid: "cpu_mid cur m" using assms by (simp add: cpu_inv_def)
  then have "vm_inv cur (memory m)" by (simp add: cpu_mid_def)
  from ReadMem_inv [OF this, of 4 "reg m PCReg"] obtain r v where
    r: "ReadMem (reg m PCReg) 4 (memory m) = Inr (r, v)" "vm_inv cur v" by auto
  note midv = cpu_mid_memory [OF mid r(2)]
  show ?thesis
  proof (cases r)
    case (Inl ex)
    have "good_result cur True (RaiseException ex (reg m PCReg) (m\<lparr>memory := v\<rparr>))" by (rule good_raise [OF midv])
    then show ?thesis using r Inl by (simp add: OneInstruction_def mem_read_def RaiseException_def)
  next
    case (Inr raw)
    let ?m = "m\<lparr>memory := v\<rparr>"
    let ?res = "exec_switch (Decode raw) (reg ?m NextPCReg + 4) ?m"
    have g: "good_result cur (safe_op (opCode (Decode raw))) ?res" by (rule good_switch [OF midv Decode_ok])
    have o: "OneInstruction m = bindE ?res (\<lambda>(r, m2). case r of Raised ex \<Rightarrow> Inr (Some ex, m2)
       | Done pcAfter nextLoadReg nextLoadValue \<Rightarrow> Inr (None, advance pcAfter (DelayedLoad nextLoadReg nextLoadValue m2)))"
      using r Inr by (simp add: OneInstruction_def mem_read_def)
    show ?thesis
    proof (cases ?res)
      case (Inl f)
      with g o r(1) Inr show ?thesis by auto
    next
      case (Inr p)
      obtain oc m2 where p: "p = (oc, m2)" by fastforce
      show ?thesis using g o Inr p DelayedLoad_inv [THEN advance_inv] by (cases oc) simp_all
    qed
  qed
qed

definition example_cpu :: machine where
  "example_cpu = \<lparr>registers = replicate 40 0, memory = example_vm one_page True\<rparr>"

lemma example_cpu_inv: "cpu_inv 0 example_cpu"
  using example_vm_inv [OF one_page_ok(1), of True]
  by (simp add: cpu_inv_def cpu_mid_def example_cpu_def reg_def LoadReg_def)

theorem cpu_invariant_witness:
  "case OneInstruction example_cpu of
      Inr (r, m') \<Rightarrow> cpu_inv 0 m'
    | Inl f \<Rightarrow> (\<exists>raw s. ReadMem (reg example_cpu PCReg) 4 (memory example_cpu) = Inr (Inr raw, s) \<and>
        \<not> safe_op (opCode (Decode raw)))"
  by (rule cpu_invariant [OF example_cpu_inv])

lemma switch_eqs:
  "opCode i = OP_ADD \<Longrightarrow> exec_switch i = exec_add_bne i" "opCode i = OP_ADDI \<Longrightarrow> exec_switch i = exec_add_bne i"
  "opCode i = OP_SUB \<Longrightarrow> exec_switch i = exec_sll_subu i" "opCode i = OP_SRL \<Longrightarrow> exec_switch i = exec_sll_subu i"
  "opCode i = OP_SRLV \<Longrightarrow> exec_switch i = exec_sll_subu i" "opCode i = OP_SRA \<Longrightarrow> exec_switch i = exec_sll_subu i"
  "opCode i = OP_SRAV \<Longrightarrow> exec_switch i = exec_sll_subu i"
  by (simp_all add: exec_switch_def)

lemma if_not_swap: "(if \<not> c then x else y) = (if c then y else x)"
  by simp

definition exact_result :: "Instruction \<Rightarrow> machine \<Rightarrow> int" where
  "exact_result i m = (if opCode i = OP_ADD then sint (reg m (rs i)) + sint (reg m (rt i))
     else if opCode i = OP_ADDI then sint (reg m (rs i)) + sint (extra i)
     else sint (reg m (rs i)) - sint (reg m (rt i)))"

text \<open>
  \<open>ADD\<close>, \<open>ADDI\<close> and \<open>SUB\<close> detect overflow exactly: the exception is raised if and only if
  the sum or difference of the signed operands is no 32-bit integer, and otherwise the destination
  register gets it.
\<close>

theorem overflow_exact:
  assumes "opCode i \<in> {OP_ADD, OP_ADDI, OP_SUB}"
  shows "exec_switch i pc m =
    (if - (2 ^ 31) \<le> exact_result i m \<and> exact_result i m < 2 ^ 31
     then fin (set_reg (if opCode i = OP_ADDI then rt i else rd i) (word_of_int (exact_result i m)) m) pc
     else RaiseException OverflowException 0 m)"
proof -
  consider "opCode i = OP_ADD" | "opCode i = OP_ADDI" | "opCode i = OP_SUB" using assms by auto
  then show ?thesis
  proof cases
    case 1
    then have "exec_switch i pc m = (if (reg m (rs i) XOR reg m (rt i)) AND SIGN_BIT = 0 \<and>
        (reg m (rs i) XOR (reg m (rs i) + reg m (rt i))) AND SIGN_BIT \<noteq> 0 then RaiseException OverflowException 0 m
        else fin (set_reg (rd i) (reg m (rs i) + reg m (rt i)) m) pc)"
      by (simp only: switch_eqs exec_add_bne_def Let_def opcode.case)
    moreover have "reg m (rs i) + reg m (rt i) = word_of_int (exact_result i m)" using 1 by (simp add: exact_result_def)
    moreover have "exact_result i m = sint (reg m (rs i)) + sint (reg m (rt i))" using 1 by (simp add: exact_result_def)
    ultimately show ?thesis unfolding add_overflow_bits using 1 by (simp only: if_not_swap opcode.distinct if_False)
  next
    case 2
    then have "exec_switch i pc m = (if (extra i XOR reg m (rs i)) AND SIGN_BIT = 0 \<and>
        (extra i XOR (extra i + reg m (rs i))) AND SIGN_BIT \<noteq> 0 then RaiseException OverflowException 0 m
        else fin (set_reg (rt i) (extra i + reg m (rs i)) m) pc)"
      by (simp only: switch_eqs exec_add_bne_def Let_def opcode.case
          xor.commute [of "reg m (rs i)"] add.commute [of "reg m (rs i)"])
    moreover have "extra i + reg m (rs i) = word_of_int (exact_result i m)" using 2 by (simp add: exact_result_def)
    moreover have "exact_result i m = sint (extra i) + sint (reg m (rs i))" using 2 by (simp add: exact_result_def)
    ultimately show ?thesis unfolding add_overflow_bits using 2 by (simp only: if_not_swap if_True simp_thms)
  next
    case 3
    then have "exec_switch i pc m = (if (reg m (rs i) XOR reg m (rt i)) AND SIGN_BIT \<noteq> 0 \<and>
        (reg m (rs i) XOR (reg m (rs i) - reg m (rt i))) AND SIGN_BIT \<noteq> 0 then RaiseException OverflowException 0 m
        else fin (set_reg (rd i) (reg m (rs i) - reg m (rt i)) m) pc)"
      by (simp only: switch_eqs exec_sll_subu_def Let_def opcode.case)
    moreover have "reg m (rs i) - reg m (rt i) = word_of_int (exact_result i m)" using 3 by (simp add: exact_result_def)
    moreover have "exact_result i m = sint (reg m (rs i)) - sint (reg m (rt i))" using 3 by (simp add: exact_result_def)
    ultimately show ?thesis unfolding sub_overflow_bits using 3 by (simp only: if_not_swap opcode.distinct if_False)
  qed
qed

definition example_instr :: "opcode \<Rightarrow> Instruction" where
  "example_instr oc = \<lparr>opCode = oc, rs = 1, rt = 2, rd = 3, extra = 4\<rparr>"

definition example_regs :: "32 word \<Rightarrow> 32 word \<Rightarrow> machine" where
  "example_regs a b = set_reg 1 a (set_reg 2 b example_cpu)"

lemma example_regs_simps [simp]: "reg (example_regs a b) 1 = a" "reg (example_regs a b) (Suc 0) = a"
  "reg (example_regs a b) 2 = b"
  by (simp_all add: reg_def set_reg_def example_regs_def example_cpu_def)

theorem overflow_exact_witness:
  "exec_switch (example_instr OP_ADD) 8 (example_regs 0x7fffffff 1) =
     RaiseException OverflowException 0 (example_regs 0x7fffffff 1)"
  by (subst overflow_exact) (simp_all add: example_instr_def exact_result_def)

text \<open>
  \<open>SRL\<close> and \<open>SRLV\<close> shift through a signed variable: for a negative operand they do what
  \<open>SRA\<close> and \<open>SRAV\<close> do, and the value they store differs from the logical shift of the operand.
\<close>

theorem srl_is_arithmetic:
  assumes "opCode i \<in> {OP_SRL, OP_SRLV}" "sint (reg m (rt i)) < 0"
    "n = unat (if opCode i = OP_SRL then extra i else reg m (rs i) AND 0x1f)" "0 < n" "n < 32"
  shows "\<exists>v. exec_switch i pc m = fin (set_reg (rd i) v m) pc \<and> v \<noteq> drop_bit n (reg m (rt i)) \<and>
     exec_switch (i\<lparr>opCode := (if opCode i = OP_SRL then OP_SRA else OP_SRAV)\<rparr>) pc m = exec_switch i pc m"
proof -
  have d: "signed_drop_bit n (reg m (rt i)) \<noteq> drop_bit n (reg m (rt i))" by (rule sra_sign [OF assms(2,4,5)])
  consider "opCode i = OP_SRL" | "opCode i = OP_SRLV" using assms(1) by auto
  then show ?thesis
  proof cases
    case 1
    then have n: "n = unat (extra i)" using assms(3) by simp
    have "exec_switch i pc m = fin (set_reg (rd i) (signed_drop_bit n (reg m (rt i))) m) pc"
      using 1 by (simp only: switch_eqs exec_sll_subu_def Let_def opcode.case n)
    moreover have "exec_switch (i\<lparr>opCode := OP_SRA\<rparr>) pc m = fin (set_reg (rd i) (signed_drop_bit n (reg m (rt i))) m) pc"
      by (simp add: switch_eqs exec_sll_subu_def Let_def n)
    ultimately show ?thesis using 1 d by (intro exI [of _ "signed_drop_bit n (reg m (rt i))"]) (simp only: if_True simp_thms)
  next
    case 2
    then have n: "n = unat (reg m (rs i) AND 0x1f)" using assms(3) by simp
    have "exec_switch i pc m = fin (set_reg (rd i) (signed_drop_bit n (reg m (rt i))) m) pc"
      using 2 by (simp only: switch_eqs exec_sll_subu_def Let_def opcode.case n)
    moreover have "exec_switch (i\<lparr>opCode := OP_SRAV\<rparr>) pc m = fin (set_reg (rd i) (signed_drop_bit n (reg m (rt i))) m) pc"
      by (simp add: switch_eqs exec_sll_subu_def Let_def n)
    ultimately show ?thesis
      using 2 d by (intro exI [of _ "signed_drop_bit n (reg m (rt i))"]) (simp only: if_False simp_thms opcode.distinct)
  qed
qed

theorem srl_is_arithmetic_witness:
  "\<exists>v. exec_switch (example_instr OP_SRL) 8 (example_regs 0 (-16)) = fin (set_reg 3 v (example_regs 0 (-16))) 8 \<and>
     v \<noteq> drop_bit 4 (-16)"
proof -
  let ?i = "example_instr OP_SRL" and ?m = "example_regs 0 (-16)"
  have r: "reg ?m (rt ?i) = -16" "rd ?i = 3" by (simp_all add: example_instr_def)
  have p: "opCode ?i \<in> {OP_SRL, OP_SRLV}" "sint (reg ?m (rt ?i)) < 0"
    "4 = unat (if opCode ?i = OP_SRL then extra ?i else reg ?m (rs ?i) AND 0x1f)" "0 < (4 :: nat)" "(4 :: nat) < 32"
    unfolding r by (simp_all add: example_instr_def)
  from srl_is_arithmetic [OF p, of 8] obtain v where
    "exec_switch ?i 8 ?m = fin (set_reg (rd ?i) v ?m) 8" "v \<noteq> drop_bit 4 (reg ?m (rt ?i))" by (elim exE conjE)
  then show ?thesis unfolding r by (intro exI conjI)
qed

text \<open>
  \<open>OR\<close> ignores its second operand: it stores the first one, so that it gives the bitwise or
  of its operands only when every bit of the second is set in the first.
\<close>

theorem or_ignores_operand:
  assumes "opCode i = OP_OR"
  shows "exec_switch i pc m = fin (set_reg (rd i) (reg m (rs i)) m) pc"
  using assms by (simp add: exec_switch_def exec_mfhi_sh_def Let_def)

theorem or_ignores_operand_witness:
  "exec_switch (example_instr OP_OR) 8 (example_regs 1 6) = fin (set_reg 3 1 (example_regs 1 6)) 8 \<and>
     (1 :: 32 word) OR 6 = 7"
  using or_ignores_operand [of "example_instr OP_OR" 8 "example_regs 1 6"] by (simp add: example_instr_def)

text \<open>
  A user program can stop the whole system with one division: the quotient of the least integer
  and minus one is computed with the host's division, which traps.
\<close>

theorem div_stops_simulator:
  assumes "opCode i = OP_DIV" "reg m (rs i) = SIGN_BIT" "reg m (rt i) = -1"
  shows "exec_switch i pc m = Inl DivideError"
  using assms by (simp add: exec_switch_def exec_div_jr_def Let_def)

theorem div_stops_simulator_witness:
  "exec_switch (example_instr OP_DIV) 8 (example_regs SIGN_BIT (-1)) = Inl DivideError"
  by (rule div_stops_simulator) (simp_all add: example_instr_def)

end
