(* ===== verification/Nachos_UserMemory.thy ===== *)
theory Nachos_UserMemory
  imports Nachos_PageFault Nachos_Message
begin

text \<open>
  The kernel's access to user memory (\<open>copyin\<close>, \<open>copyout\<close> of userprog/exception.cc) on top of
  \<open>ReadMem\<close> and \<open>WriteMem\<close>, and the formatted output of \<open>Printx_Syscall\<close>.  A failed access raises an
  exception inside \<open>ReadMem\<close> or \<open>WriteMem\<close>: a page fault runs the handler before the access returns
  \<open>FALSE\<close>, any other exception halts the machine.  The handler is the parameter \<open>pf\<close>.
\<close>

section \<open>Definitions\<close>

definition access_failed :: "(int \<Rightarrow> vm \<Rightarrow> fault + vm) \<Rightarrow> ExceptionType \<Rightarrow> 32 word \<Rightarrow> vm \<Rightarrow> fault + vm" where
  "access_failed pf ex va s = (if ex = PageFaultException then pf (sint va) s else Inl Halted)"

text \<open>The loop of \<open>copyin\<close> that repeats \<open>ReadMem\<close> until it succeeds.\<close>

partial_function (option) read_retry ::
  "(int \<Rightarrow> vm \<Rightarrow> fault + vm) \<Rightarrow> 32 word \<Rightarrow> vm \<Rightarrow> (fault + 32 word \<times> vm) option" where
  "read_retry pf va s =
     (case ReadMem va 1 s of
        Inl e \<Rightarrow> Some (Inl e)
      | Inr (Inr v, s1) \<Rightarrow> Some (Inr (v, s1))
      | Inr (Inl ex, s1) \<Rightarrow>
          (case access_failed pf ex va s1 of Inl e \<Rightarrow> Some (Inl e) | Inr s2 \<Rightarrow> read_retry pf va s2))"

definition read_user :: "(int \<Rightarrow> vm \<Rightarrow> fault + vm) \<Rightarrow> 32 word \<Rightarrow> vm \<Rightarrow> fault + 32 word \<times> vm" where
  "read_user pf va s = (case read_retry pf va s of None \<Rightarrow> Inl NoReturn | Some r \<Rightarrow> r)"

primrec copyin :: "(int \<Rightarrow> vm \<Rightarrow> fault + vm) \<Rightarrow> nat \<Rightarrow> 32 word \<Rightarrow> vm \<Rightarrow> fault + byte list \<times> vm" where
  "copyin pf 0 va s = Inr ([], s)"
| "copyin pf (Suc n) va s =
     bindE (read_user pf va s) (\<lambda>(v, s1).
     bindE (copyin pf n (va + 1) s1) (\<lambda>(bs, s2). Inr (ucast v # bs, s2)))"

text \<open>\<open>False\<close> stands for the answer -1.\<close>

primrec copyout :: "(int \<Rightarrow> vm \<Rightarrow> fault + vm) \<Rightarrow> byte list \<Rightarrow> 32 word \<Rightarrow> vm \<Rightarrow> fault + bool \<times> vm" where
  "copyout pf [] va s = Inr (True, s)"
| "copyout pf (b # bs) va s =
     bindE (WriteMem va 1 (scast b) s) (\<lambda>(ex, s1).
     if ex = NoException then copyout pf bs (va + 1) s1
     else bindE (access_failed pf ex va s1) (\<lambda>s2. Inr (False, s2)))"

declare copyin.simps(2) [simp del] copyout.simps(2) [simp del]

text \<open>
  Reading \<open>len\<close> bytes of the user into a new buffer of \<open>len + 1\<close>: \<open>new char[len + 1]\<close> throws for a
  length below -1, and for -1 the answer of \<open>copyin\<close> is taken for an error, here \<open>None\<close>.  The text of
  a buffer, to which the terminating zero is added, ends at the first zero.
\<close>

definition copy_buf ::
  "(int \<Rightarrow> vm \<Rightarrow> fault + vm) \<Rightarrow> 32 word \<Rightarrow> int \<Rightarrow> vm \<Rightarrow> fault + byte list option \<times> vm" where
  "copy_buf pf vaddr len s =
     (if len < -1 then Inl Halted
      else if len = -1 then Inr (None, s)
      else bindE (copyin pf (nat len) vaddr s) (\<lambda>(buf, s1). Inr (Some buf, s1)))"

definition C_string :: "byte list \<Rightarrow> string" where
  "C_string bs = map (\<lambda>b. char_of (uint b)) (takeWhile (\<lambda>b. b \<noteq> 0) bs)"

text \<open>
  \<open>Printx_Syscall\<close>: the text printed for the format \<open>buf\<close>.  Each of the first four \<open>%d\<close> takes a part
  of \<open>value\<close> off its decimal representation.  Behind a \<open>%d\<close> the code looks at the next character
  without testing that there is one.
  \<open>new char[len]\<close> throws for a negative \<open>len\<close>, which ends the simulation.
\<close>

definition printx_field :: "nat \<Rightarrow> int \<Rightarrow> string \<times> int" where
  "printx_field count v =
     (if count = 0 then (show_int (cdiv v 10000000), crem v 10000000)
      else if count = 1 then (show_int (cdiv v 10000), crem v 10000)
      else if count = 2 then (show_int (cdiv v 100), crem v 100)
      else if count = 3 then (show_int v, v)
      else ([], v))"

fun printx :: "string \<Rightarrow> nat \<Rightarrow> int \<Rightarrow> string \<Rightarrow> fault + string" where
  "printx nm count v [] = Inr []"
| "printx nm count v (x # xs) =
     (if x \<noteq> CHR ''%'' then bindE (printx nm count v xs) (\<lambda>r. Inr (x # r))
      else case xs of
        [] \<Rightarrow> Inr []
      | y # ys \<Rightarrow>
          if y = CHR ''d'' then
            (case ys of
               [] \<Rightarrow> Inl OutOfBounds
             | z # zs \<Rightarrow>
                 let (out, v1) = printx_field count v in
                 if z = CHR ''s'' then bindE (printx nm (count + 1) v1 zs) (\<lambda>r. Inr (out @ nm @ r))
                 else bindE (printx nm (count + 1) v1 ys) (\<lambda>r. Inr (out @ r)))
          else if y = CHR ''s'' then bindE (printx nm count v ys) (\<lambda>r. Inr (nm @ r))
          else printx nm count v xs)"

definition Printx_Syscall ::
  "(int \<Rightarrow> vm \<Rightarrow> fault + vm) \<Rightarrow> string \<Rightarrow> 32 word \<Rightarrow> int \<Rightarrow> int \<Rightarrow> vm \<Rightarrow> fault + string \<times> vm" where
  "Printx_Syscall pf nm vaddr len v s =
     (if len < 0 then Inl Halted
      else bindE (copyin pf (nat len) vaddr s) (\<lambda>(buf, s1).
           bindE (printx nm 0 v (map (\<lambda>b. char_of (uint b)) buf)) (\<lambda>out. Inr (out, s1))))"

section \<open>Consecutive addresses of a page\<close>

lemma unat_lt2p_32: "unat (va :: 32 word) < 4294967296"
  by (rule less_le_trans [OF unsigned_less]) simp

lemma next_address:
  assumes "offset_of va < 127"
  shows "page_of (va + 1) = page_of va" "offset_of (va + 1) = Suc (offset_of va)"
proof -
  let ?q = "unat va div 128"
  have m: "unat va mod 128 < 127" using assms by (simp add: offset_of_def)
  have u: "unat va < 4294967296" using unat_lt2p_32 by simp
  have "unat va + 1 < 4294967296"
  proof (rule ccontr)
    assume "\<not> unat va + 1 < 4294967296"
    with u have "unat va = 4294967295" by simp
    with m show False by simp
  qed
  then have n: "unat (va + 1) = unat va + 1" by (simp add: unat_word_ariths)
  have "(unat va + 1) mod 128 = unat va mod 128 + 1" "(unat va + 1) div 128 = unat va div 128"
    using m by (simp_all add: mod_Suc div_Suc)
  then show "page_of (va + 1) = page_of va" "offset_of (va + 1) = Suc (offset_of va)"
    unfolding page_of_def offset_of_def n by simp_all
qed

lemma aligned_1 [simp]: "aligned va 1" "aligned va (Suc 0)"
  by (simp_all add: aligned_def)

text \<open>The TLB entry \<open>k\<close> of the running process is for page \<open>v\<close> in frame \<open>f\<close>.\<close>

definition mapped :: "int \<Rightarrow> int \<Rightarrow> nat \<Rightarrow> nat \<Rightarrow> vm \<Rightarrow> bool" where
  "mapped cur v k f s \<longleftrightarrow> vm_inv cur s \<and> k < 4 \<and> valid (tlb s ! k) \<and> virtualPage (tlb s ! k) = v \<and>
     physicalPage (tlb s ! k) = int f \<and> f < 32 \<and> frame_of s cur v = Some f"

lemma mappedD:
  assumes "mapped cur v k f s"
  shows "vm_inv cur s" "k < 4" "valid (tlb s ! k)" "virtualPage (tlb s ! k) = v"
    "physicalPage (tlb s ! k) = int f" "f < 32" "frame_of s cur v = Some f"
  using assms by (simp_all add: mapped_def)

lemma in_tlb_mapped:
  assumes "vm_inv cur s" "SearchForTLBEntry v (tlb s) \<noteq> -1"
  obtains k f where "mapped cur v k f s"
proof -
  obtain k where k: "SearchForTLBEntry v (tlb s) = int k" "k < 4" "virtualPage (tlb s ! k) = v" "valid (tlb s ! k)"
    by (rule SearchForTLBEntry_Some [OF assms(2)])
  obtain f where "physicalPage (tlb s ! k) = int f" "f < 32" "frame_of s cur v = Some f"
    by (rule hit_frame [OF assms(1) k(2,4,3)])
  with k assms(1) that show ?thesis by (simp add: mapped_def)
qed

lemma mapped_entry_used:
  assumes "mapped cur v k f s"
  shows "mapped cur v k f (entry_used k False s)"
proof -
  note m = mappedD [OF assms]
  note sz = vm_sizesD [OF vm_invD(1) [OF m(1)]]
  have "frame_of (entry_used k False s) = frame_of s" by (intro ext) (simp add: frame_of_def)
  then show ?thesis
    using m entry_read_ok(1) [OF m(1,2)] entry_used_tlb [OF sz(2) m(2)] by (simp add: mapped_def)
qed

lemma mapped_page_written:
  assumes "mapped cur v k f s" "off + length bs \<le> 128"
  shows "mapped cur v k f (page_written k f off bs s)"
proof -
  note m = mappedD [OF assms(1)]
  note sz = vm_sizesD [OF vm_invD(1) [OF m(1)]]
  have "frame_of (page_written k f off bs s) = frame_of s"
    by (intro ext) (simp add: frame_of_def page_written_def)
  then show ?thesis
    using m page_written_ok(1) [OF m(1,2,3,5,6,7) assms(2)] entry_used_tlb [OF sz(2) m(2)]
    by (simp add: mapped_def) (simp add: page_written_def)
qed

section \<open>One access\<close>

lemma read_user_mapped:
  assumes "mapped cur (page_of va) k f s"
  shows "read_user pf va s = Inr (scast (frame_bytes f (mainMemory s) ! offset_of va), entry_used k False s)"
proof -
  note m = mappedD [OF assms]
  note sz = vm_sizesD [OF vm_invD(1) [OF m(1)]]
  have l: "offset_of va < length (frame_bytes f (mainMemory s))" using sz(1) m(6) by simp
  have "read_value 1 (take 1 (drop (offset_of va) (frame_bytes f (mainMemory s)))) =
      scast (frame_bytes f (mainMemory s) ! offset_of va)"
    using l by (simp add: read_value_def take_Suc hd_drop_conv_nth)
  then have "ReadMem va 1 s = Inr (Inr (scast (frame_bytes f (mainMemory s) ! offset_of va)), entry_used k False s)"
    using ReadMem_hit [OF m(1,2,3,4) aligned_1(1) disjI1 [OF refl] m(5,6)] by simp
  then show ?thesis by (simp add: read_user_def read_retry.simps)
qed

lemma Translate_miss:
  assumes "SearchForTLBEntry (page_of va) (tlb s) = -1" "aligned va sz"
  shows "Translate va sz w s = Inr (PageFaultException, 0, s)"
proof -
  have "first_from (\<lambda>i. valid (tlb s ! i) \<and> virtualPage (tlb s ! i) = page_of va) 0 TLBSize = None"
    using assms(1) by (auto simp: SearchForTLBEntry_None first_from_None TLBSize_def)
  then show ?thesis using assms(2) by (simp add: Translate_def aligned_def page_of_def PageSize_def Let_def)
qed

lemma read_user_fault:
  assumes "SearchForTLBEntry (page_of va) (tlb s) = -1" "pf (sint va) s = Inr s'"
  shows "read_user pf va s = read_user pf va s'"
proof -
  have "ReadMem va 1 s = Inr (Inl PageFaultException, s)"
    by (simp add: ReadMem_def Translate_miss [OF assms(1) aligned_1(2)])
  then have "read_retry pf va s = read_retry pf va s'"
    using assms(2) by (subst read_retry.simps) (simp add: access_failed_def)
  then show ?thesis by (simp add: read_user_def)
qed

lemma write_mapped:
  assumes "mapped cur (page_of va) k f s"
  shows "WriteMem va 1 (scast b) s = Inr (NoException, page_written k f (offset_of va) [b] s)"
proof -
  note m = mappedD [OF assms]
  have "ucast (scast (b :: byte) :: 32 word) = b" by (rule bit_word_eqI) (auto simp: bit_simps)
  then show ?thesis
    using WriteMem_hit [OF m(1,2,3,4) aligned_1(1) disjI1 [OF refl] m(5), of "scast b"]
    by (simp add: bytes_of_word_1)
qed


section \<open>A range within one page\<close>

lemma copyin_step:
  "read_user pf va s = Inr (v, s1) \<Longrightarrow> copyin pf n (va + 1) s1 = Inr (bs, s2) \<Longrightarrow>
   copyin pf (Suc n) va s = Inr (ucast v # bs, s2)"
  by (simp add: copyin.simps(2))

lemma copyout_step:
  "WriteMem va 1 (scast b) s = Inr (NoException, s1) \<Longrightarrow> copyout pf (b # bs) va s = copyout pf bs (va + 1) s1"
  by (simp add: copyout.simps(2))

lemma ucast_scast_byte: "ucast (scast (b :: byte) :: 32 word) = b"
  by (rule bit_word_eqI) (auto simp: bit_simps)

lemma copyin_mapped:
  assumes "mapped cur v k f s" "n > 0 \<longrightarrow> page_of va = v" "offset_of va + n \<le> 128"
  shows "\<exists>s'. copyin pf n va s = Inr (take n (drop (offset_of va) (frame_bytes f (mainMemory s))), s') \<and>
     mapped cur v k f s' \<and> page_bytes s' = page_bytes s"
  using assms
proof (induction n arbitrary: va s)
  case 0
  then show ?case by simp
next
  case (Suc n)
  let ?fb = "frame_bytes f (mainMemory s)" and ?s1 = "entry_used k False s"
  have pv: "page_of va = v" using Suc.prems(2) by simp
  note m = mappedD [OF Suc.prems(1)]
  have l: "offset_of va < length ?fb" using vm_sizesD(1) [OF vm_invD(1) [OF m(1)]] m(6) by simp
  note r = read_user_mapped [OF Suc.prems(1) [folded pv], of pf]
  have nxt: "n > 0 \<longrightarrow> page_of (va + 1) = v" "offset_of (va + 1) + n \<le> 128 \<or> n = 0"
    using next_address [of va] Suc.prems(3) pv by (cases n; simp)+
  have dr: "drop (offset_of va) ?fb = ?fb ! offset_of va # drop (Suc (offset_of va)) ?fb"
    by (rule Cons_nth_drop_Suc [symmetric, OF l])
  show ?case
  proof (cases n)
    case 0
    then show ?thesis
      using copyin_step [OF r, of 0] mapped_entry_used [OF Suc.prems(1)] entry_read_ok(2) [OF m(1,2)]
      by (simp add: dr ucast_scast_byte)
  next
    case (Suc n')
    then have o: "offset_of (va + 1) = Suc (offset_of va)" using next_address [of va] Suc.prems(3) by simp
    obtain s' where s': "copyin pf n (va + 1) ?s1 = Inr (take n (drop (offset_of (va + 1)) (frame_bytes f (mainMemory ?s1))), s')"
      "mapped cur v k f s'" "page_bytes s' = page_bytes ?s1"
      using Suc.IH [OF mapped_entry_used [OF Suc.prems(1)] nxt(1)] nxt(2) \<open>n = Suc n'\<close> by auto
    then show ?thesis using copyin_step [OF r s'(1)] entry_read_ok(2) [OF m(1,2)] o by (simp add: dr ucast_scast_byte)
  qed
qed

lemma copyout_mapped:
  assumes "mapped cur v k f s" "bs \<noteq> []" "page_of va = v" "offset_of va + length bs \<le> 128"
  shows "\<exists>s'. copyout pf bs va s = Inr (True, s') \<and> mapped cur v k f s' \<and>
     page_bytes s' cur v = store_bytes (offset_of va) bs (frame_bytes f (mainMemory s)) \<and>
     (\<forall>p v'. (p, v') \<noteq> (cur, v) \<longrightarrow> page_bytes s' p v' = page_bytes s p v')"
  using assms
proof (induction bs arbitrary: va s)
  case Nil
  then show ?case by simp
next
  case (Cons b bs)
  let ?fb = "frame_bytes f (mainMemory s)" and ?s1 = "page_written k f (offset_of va) [b] s"
  note m = mappedD [OF Cons.prems(1)]
  note sz = vm_sizesD [OF vm_invD(1) [OF m(1)]]
  have w: "WriteMem va 1 (scast b) s = Inr (NoException, ?s1)"
    by (rule write_mapped) (use Cons.prems in simp)
  have l: "offset_of va + length [b] \<le> 128" using Cons.prems(4) by simp
  note ok = page_written_ok [OF m(1,2,3,5,6,7) l]
  note m1 = mapped_page_written [OF Cons.prems(1) l]
  have fb: "frame_bytes f (mainMemory ?s1) = store_bytes (offset_of va) [b] ?fb"
    using frame_bytes_store_same [OF sz(1) m(6) l] by (simp add: page_written_def)
  show ?case
  proof (cases bs)
    case Nil
    then show ?thesis using copyout_step [OF w] ok m1 Cons.prems(3) by simp
  next
    case (Cons c cs)
    have o: "offset_of (va + 1) = Suc (offset_of va)" "page_of (va + 1) = v"
      using next_address [of va] Cons.prems(3,4) Cons by simp_all
    obtain s' where s': "copyout pf bs (va + 1) ?s1 = Inr (True, s')" "mapped cur v k f s'"
      "page_bytes s' cur v = store_bytes (offset_of (va + 1)) bs (frame_bytes f (mainMemory ?s1))"
      "\<forall>p v'. (p, v') \<noteq> (cur, v) \<longrightarrow> page_bytes s' p v' = page_bytes ?s1 p v'"
      using Cons.IH [OF m1 _ o(2)] Cons.prems(4) Cons o(1) by auto
    have "page_bytes s' cur v = store_bytes (offset_of va) (b # bs) ?fb"
      using s'(3) fb o(1) store_bytes_Cons [of "offset_of va" bs ?fb b] Cons.prems(4) sz(1) m(6) by simp
    moreover have "\<forall>p v'. (p, v') \<noteq> (cur, v) \<longrightarrow> page_bytes s' p v' = page_bytes s p v'"
      using s'(4) ok(3) by auto
    ultimately show ?thesis using s'(1,2) unfolding copyout_step [OF w] by (intro exI [of _ s'] conjI)
  qed
qed

text \<open>The handler called for an address below 2^31, whose page has no TLB entry.\<close>

lemma fault_maps:
  assumes "fault_ready cur (page_of va) s" "slot_resident cur (page_of va) s"
    "SearchForTLBEntry (page_of va) (tlb s) = -1" "unat va < 2 ^ 31"
  obtains s' k f where "HandlePageFault FIFO draws cur (sint va) s = Inr s'" "mapped cur (page_of va) k f s'"
    "page_bytes s' = page_bytes s"
proof -
  have u: "uint va < 2 ^ 31" using assms(4) unfolding uint_nat of_nat_less_numeral_power_cancel_iff .
  have "sint va = uint va"
    unfolding sint_uint by (rule signed_take_bit_int_eq_self) (rule order_trans [OF _ uint_ge_0], simp, use u in simp)
  then have s: "sint va = int (unat va)" by (simp only: uint_nat)
  obtain s' f where h: "HandlePageFault FIFO draws cur (int (unat va)) s = Inr s'" "vm_inv cur s'" "fifo_ok s'"
    "page_bytes s' = page_bytes s" "f < 32" "frame_of s' cur (page_of va) = Some f"
    "valid (tlb s' ! nat (nextTLB s))" "virtualPage (tlb s' ! nat (nextTLB s)) = page_of va"
    "physicalPage (tlb s' ! nat (nextTLB s)) = int f" "0 \<le> nextTLB s" "nextTLB s < 4"
    by (rule HandlePageFault_ok [OF assms(1-3) cdiv_page_of, of draws])
  have "mapped cur (page_of va) (nat (nextTLB s)) f s'" using h by (simp add: mapped_def)
  with h(1,4) that s show ?thesis by simp
qed

section \<open>Properties\<close>

text \<open>
  C35 \<open>copyin\<close> and \<open>copyout\<close> treat a page fault differently.  For a range within one page that has no
  TLB entry, \<open>copyin\<close> repeats the access after the page fault and delivers exactly the bytes of the
  user's page; \<open>copyout\<close> gives up with -1 although the page is loaded by then: nothing is written, and
  only the same call made again writes the bytes, all of them and nothing else.
\<close>

theorem copyin_copyout_fault:
  assumes "fault_ready cur (page_of va) s" "slot_resident cur (page_of va) s"
    "SearchForTLBEntry (page_of va) (tlb s) = -1" "unat va < 2 ^ 31"
    "offset_of va + n \<le> length (page_bytes s cur (page_of va))" "offset_of va + n \<le> 128"
    "bs \<noteq> []" "offset_of va + length bs \<le> 128"
  shows "(\<exists>s'. copyin (HandlePageFault FIFO draws cur) n va s =
         Inr (take n (drop (offset_of va) (page_bytes s cur (page_of va))), s') \<and> page_bytes s' = page_bytes s) \<and>
     (\<exists>s1 s2 old. copyout (HandlePageFault FIFO draws cur) bs va s = Inr (False, s1) \<and>
        page_bytes s1 = page_bytes s \<and>
        copyout (HandlePageFault FIFO draws cur) bs va s1 = Inr (True, s2) \<and>
        take (length (page_bytes s cur (page_of va))) old = page_bytes s cur (page_of va) \<and>
        page_bytes s2 cur (page_of va) = store_bytes (offset_of va) bs old \<and>
        (\<forall>p v. (p, v) \<noteq> (cur, page_of va) \<longrightarrow> page_bytes s2 p v = page_bytes s p v))"
proof (rule conjI)
  let ?pf = "HandlePageFault FIFO draws cur" and ?b = "page_bytes s cur (page_of va)"
  obtain s1 k f where h: "?pf (sint va) s = Inr s1" "mapped cur (page_of va) k f s1" "page_bytes s1 = page_bytes s"
    by (rule fault_maps [OF assms(1-4), of draws])
  have pre: "take (length ?b) (frame_bytes f (mainMemory s1)) = ?b"
    using resident_bytes [OF mappedD(1,7) [OF h(2)]] h(3) by simp
  show "\<exists>s'. copyin ?pf n va s = Inr (take n (drop (offset_of va) ?b), s') \<and> page_bytes s' = page_bytes s"
  proof (cases n)
    case 0
    then show ?thesis by simp
  next
    case (Suc n')
    then have "copyin ?pf n va s = copyin ?pf n va s1"
      using read_user_fault [where pf = ?pf, OF assms(3) h(1)] by (simp add: copyin.simps(2))
    moreover have "take n (drop (offset_of va) ?b) = take n (drop (offset_of va) (frame_bytes f (mainMemory s1)))"
      unfolding arg_cong [OF pre [symmetric], of "drop (offset_of va)"] using assms(5) by (simp add: drop_take min_absorb1)
    ultimately show ?thesis using copyin_mapped [OF h(2) _ assms(6), of ?pf] h(3) by auto
  qed
  obtain b cs where bs: "bs = b # cs" using assms(7) by (cases bs) auto
  have "WriteMem va 1 (scast b) s = Inr (PageFaultException, s)"
    by (simp add: WriteMem_def Translate_miss [OF assms(3) aligned_1(2)])
  then have "copyout ?pf bs va s = Inr (False, s1)" using h(1) bs by (simp add: access_failed_def copyout.simps(2))
  moreover obtain s2 where "copyout ?pf bs va s1 = Inr (True, s2)"
    "page_bytes s2 cur (page_of va) = store_bytes (offset_of va) bs (frame_bytes f (mainMemory s1))"
    "\<forall>p v. (p, v) \<noteq> (cur, page_of va) \<longrightarrow> page_bytes s2 p v = page_bytes s1 p v"
    using copyout_mapped [OF h(2) assms(7) refl assms(8), of ?pf] by auto
  ultimately show "\<exists>s1 s2 old. copyout ?pf bs va s = Inr (False, s1) \<and> page_bytes s1 = page_bytes s \<and>
      copyout ?pf bs va s1 = Inr (True, s2) \<and> take (length ?b) old = ?b \<and>
      page_bytes s2 cur (page_of va) = store_bytes (offset_of va) bs old \<and>
      (\<forall>p v. (p, v) \<noteq> (cur, page_of va) \<longrightarrow> page_bytes s2 p v = page_bytes s p v)"
    using h(3) pre by (intro exI [of _ s1] exI [of _ s2] exI [of _ "frame_bytes f (mainMemory s1)"] conjI) simp_all
qed

theorem copyin_copyout_fault_witness:
  "\<exists>s1 s2. copyin (HandlePageFault FIFO [] 0) 2 128 (example_vm one_page True) = Inr ([7, 7], s2) \<and>
     copyout (HandlePageFault FIFO [] 0) [1, 2] 128 (example_vm one_page True) = Inr (False, s1)"
proof -
  have p: "page_of 128 = 1" "offset_of 128 = 0" by (simp_all add: page_of_def offset_of_def)
  have "frame_of (example_vm one_page True) 0 0 = Some 0"
    using example_vm_frame [OF one_page_ok(1), of 0 True] by (simp add: one_page_def)
  then have "slot_resident 0 (page_of 128) (example_vm one_page True)"
    by (simp add: slot_resident_def one_page_next p example_vm_evicted)
  moreover have "SearchForTLBEntry (page_of 128) (tlb (example_vm one_page True)) = -1"
    by (simp add: SearchForTLBEntry_None p example_vm_tlb)
  moreover have "fault_ready 0 (page_of 128) (example_vm one_page True)"
    using example_vm_ready [of one_page 1] by (simp add: p)
  moreover have b: "page_bytes (example_vm one_page True) 0 (page_of 128) = replicate 128 7"
    using example_vm_not_resident [OF one_page_ok(3), of True] example_vm_backing [of 1 one_page True 0]
    by (simp add: page_bytes_def p)
  ultimately show ?thesis
    using copyin_copyout_fault [of 0 128 "example_vm one_page True" 2 "[1, 2]" "[]"]
    by (simp add: p) (auto simp: numeral_2_eq_2)
qed

end
