(* ===== verification/Nachos_Syscalls.thy ===== *)
theory Nachos_Syscalls
  imports Nachos_UserMemory Nachos_Synch
begin

text \<open>
  The system calls of userprog/exception.cc for locks, condition variables, threads and processes,
  without \<open>NETWORK\<close>.  They work on the tables of the kernel, on the locks and conditions of
  \<open>Nachos_Synch\<close> and on user memory.  Lock and condition objects are created and deleted here:
  \<open>liveObjs\<close> are the allocated addresses, and touching an object that was deleted is \<open>UseAfterFree\<close>.

  A call that may block is split behind the blocking operation; the part that is left is the
  thread's \<open>rest\<close>, which runs when the thread is back on the CPU and out of the synchronization
  operation.  What happens between two such points is one step.
\<close>

section \<open>Tables\<close>

record LockX =
  lockToBeDeleted :: bool
  lockDeleted :: bool
  lockObj :: nat
  lockOwner :: int

record ConditionX =
  condToBeDeleted :: bool
  condDeleted :: bool
  condObj :: nat
  condOwner :: int

record KT =
  kt_vaddr :: int
  kt_stack :: int

record Process =
  threadCount :: int
  spaceID :: int
  processOwner :: int

definition constructProcess :: "int \<Rightarrow> int \<Rightarrow> Process" where
  "constructProcess i sp = \<lparr>threadCount = 1, spaceID = i, processOwner = sp\<rparr>"

definition MAX_LOCKS :: int where "MAX_LOCKS = 500"
definition MAX_CONDITIONS :: int where "MAX_CONDITIONS = 500"
definition MAX_PROCESSES :: int where "MAX_PROCESSES = 5"

text \<open>
  What is left of a call: behind the first \<open>Acquire\<close> of \<open>CreateCondition\<close>, \<open>Fork\<close>, \<open>Exec\<close> and
  \<open>Exit\<close>, and behind the second one of \<open>Exit\<close>.
\<close>

datatype rest =
    CreateConditionRest
  | ForkRest int "32 word" int
  | ExecRest int int
  | ExitRest
  | ExitLocked int

text \<open>
  An address space is identified by its process number \<open>getID()\<close>.  \<open>result\<close> is the value a call
  leaves for register 2.  \<open>diskFiles\<close> are the files of the host directory, from which the stub file
  system opens executables.
\<close>

record usys =
  core :: sys
  mem :: vm
  lockTable :: "LockX option list"
  conditionTable :: "ConditionX option list"
  processTable :: "Process option list"
  processLock :: "nat option list"
  processCV :: "nat option list"
  numProcesses :: int
  numProcessesExited :: int
  mailboxCount :: int
  spaceOf :: "tid \<Rightarrow> int"
  mailbox :: "tid \<Rightarrow> int"
  kthread :: "tid \<Rightarrow> KT option"
  result :: "tid \<Rightarrow> int"
  pendingRest :: "tid \<Rightarrow> rest option"
  liveObjs :: "nat set"
  usedObjs :: "nat set"
  diskFiles :: "string \<Rightarrow> byte list option"

text \<open>The global locks.\<close>

definition forkLock :: nat where "forkLock = 0"
definition execLock :: nat where "execLock = 1"
definition conditionLock :: nat where "conditionLock = 2"

text \<open>What a call that allocates is given: an unused address, a new thread and stale memory.\<close>

record alloc =
  newObj :: nat
  newThread :: tid
  stale :: "nat \<Rightarrow> int"

definition curT :: "usys \<Rightarrow> tid" where
  "curT s = currentThread (core s)"

definition curSpace :: "usys \<Rightarrow> int" where
  "curSpace s = spaceOf s (curT s)"

definition ret :: "int \<Rightarrow> usys \<Rightarrow> usys" where
  "ret v s = s\<lparr>result := (result s)(curT s := v)\<rparr>"

definition user_fault :: "usys \<Rightarrow> int \<Rightarrow> vm \<Rightarrow> fault + vm" where
  "user_fault s = HandlePageFault FIFO [] (curSpace s)"

text \<open>
  Reading a name of the user: \<open>new char[len + 1]\<close> throws for a length below -1, and for -1 the answer
  of \<open>copyin\<close> is taken for an error.
\<close>

definition copy_name :: "32 word \<Rightarrow> int \<Rightarrow> usys \<Rightarrow> fault + byte list option \<times> usys" where
  "copy_name vaddr len s =
     (if len < -1 then Inl Halted
      else if len = -1 then Inr (None, s)
      else bindE (copyin (user_fault s) (nat len) vaddr (mem s)) (\<lambda>(buf, m). Inr (Some buf, s\<lparr>mem := m\<rparr>)))"

definition live :: "nat \<Rightarrow> usys \<Rightarrow> fault + unit" where
  "live x s = (if x \<in> liveObjs s then Inr () else Inl UseAfterFree)"

definition constructLockX :: "nat \<Rightarrow> usys \<Rightarrow> LockX \<times> usys" where
  "constructLockX x s =
     (\<lparr>lockToBeDeleted = False, lockDeleted = False, lockObj = x, lockOwner = curSpace s\<rparr>,
      s\<lparr>core := (core s)\<lparr>locks := (locks (core s))(x := Lock_new)\<rparr>, liveObjs := insert x (liveObjs s),
        usedObjs := insert x (usedObjs s)\<rparr>)"

definition constructConditionX :: "nat \<Rightarrow> usys \<Rightarrow> ConditionX \<times> usys" where
  "constructConditionX x s =
     (\<lparr>condToBeDeleted = False, condDeleted = False, condObj = x, condOwner = curSpace s\<rparr>,
      s\<lparr>core := (core s)\<lparr>conds := (conds (core s))(x := Condition_new)\<rparr>, liveObjs := insert x (liveObjs s),
        usedObjs := insert x (usedObjs s)\<rparr>)"

definition delete_obj :: "nat \<Rightarrow> usys \<Rightarrow> usys" where
  "delete_obj x s = s\<lparr>liveObjs := liveObjs s - {x}\<rparr>"

section \<open>Locks\<close>

definition Acquire_Syscall :: "int \<Rightarrow> usys \<Rightarrow> fault + usys" where
  "Acquire_Syscall idx s =
     (if idx \<ge> MAX_LOCKS \<or> idx < 0 then Inr (ret (-1) s)
      else bindE (arr_get (lockTable s) idx) (\<lambda>e. case e of
        None \<Rightarrow> Inr (ret (-1) s)
      | Some lx \<Rightarrow>
          if lockOwner lx \<noteq> curSpace s then Inr (ret (-1) s)
          else bindE (live (lockObj lx) s) (\<lambda>_.
            if isHeldByCurrentThread (lockObj lx) (core s) then Inr (ret (-1) s)
            else if lockDeleted lx then Inr (ret (-1) s)
            else if lockToBeDeleted lx then
              bindE (arr_set (lockTable s) idx (Some (lx\<lparr>lockDeleted := True\<rparr>))) (\<lambda>t.
              Inr (ret (-1) (delete_obj (lockObj lx) (s\<lparr>lockTable := t\<rparr>))))
            else bindE (Lock_Acquire (lockObj lx) (core s)) (\<lambda>c. Inr ((ret idx s)\<lparr>core := c\<rparr>)))))"

definition Release_Syscall :: "int \<Rightarrow> usys \<Rightarrow> fault + usys" where
  "Release_Syscall idx s =
     (if idx \<ge> MAX_LOCKS \<or> idx < 0 then Inr (ret (-1) s)
      else bindE (arr_get (lockTable s) idx) (\<lambda>e. case e of
        None \<Rightarrow> Inr (ret (-1) s)
      | Some lx \<Rightarrow>
          bindE (live (lockObj lx) s) (\<lambda>_.
            if \<not> isHeldByCurrentThread (lockObj lx) (core s) then Inr (ret (-1) s)
            else if lockOwner lx \<noteq> curSpace s then Inr (ret (-1) s)
            else if lockDeleted lx then Inr (ret (-1) s)
            else if lockToBeDeleted lx then
              bindE (arr_set (lockTable s) idx (Some (lx\<lparr>lockDeleted := True\<rparr>))) (\<lambda>t.
              Inr (ret idx (delete_obj (lockObj lx)
                (s\<lparr>core := Lock_Release (lockObj lx) (core s), lockTable := t\<rparr>))))
            else Inr (ret idx (s\<lparr>core := Lock_Release (lockObj lx) (core s)\<rparr>)))))"

definition CreateLock_Syscall :: "nat \<Rightarrow> 32 word \<Rightarrow> int \<Rightarrow> usys \<Rightarrow> fault + usys" where
  "CreateLock_Syscall x vaddr len s =
     bindE (copy_name vaddr len s) (\<lambda>(buf, s1). case buf of
       None \<Rightarrow> Inr (ret (-1) s1)
     | Some _ \<Rightarrow>
         (case first_from (\<lambda>i. lockTable s1 ! i = None) 0 (nat MAX_LOCKS) of
            None \<Rightarrow> Inr (ret (-1) s1)
          | Some i \<Rightarrow>
              let (lx, s2) = constructLockX x s1 in
              bindE (arr_set (lockTable s2) (int i) (Some lx)) (\<lambda>t.
              Inr (ret (int i) (s2\<lparr>lockTable := t\<rparr>)))))"

definition DestroyLock_Syscall :: "int \<Rightarrow> usys \<Rightarrow> fault + usys" where
  "DestroyLock_Syscall idx s =
     (if idx \<ge> MAX_LOCKS \<or> idx < 0 then Inr (ret (-1) s)
      else bindE (arr_get (lockTable s) idx) (\<lambda>e. case e of
        None \<Rightarrow> Inr (ret (-1) s)
      | Some lx \<Rightarrow>
          if lockOwner lx \<noteq> curSpace s then Inr (ret (-1) s)
          else bindE (live (lockObj lx) s) (\<lambda>_.
            if isHeldByCurrentThread (lockObj lx) (core s) then Inr (ret (-1) s)
            else if lockToBeDeleted lx then Inr (ret (-1) s)
            else if lockDeleted lx then Inr (ret (-1) s)
            else bindE (arr_set (lockTable s) idx (Some (lx\<lparr>lockToBeDeleted := True\<rparr>))) (\<lambda>t.
                 Inr (ret idx (s\<lparr>lockTable := t\<rparr>))))))"

section \<open>Condition variables\<close>

text \<open>
  The checks that \<open>Wait\<close>, \<open>Signal\<close> and \<open>Broadcast\<close> make of their two indices; \<open>bad_cond\<close> and
  \<open>bad_lock\<close> say which deletion marks make the call fail.
\<close>

definition cv_entries ::
  "(ConditionX \<Rightarrow> bool) \<Rightarrow> (LockX \<Rightarrow> bool) \<Rightarrow> int \<Rightarrow> int \<Rightarrow> usys \<Rightarrow> fault + (ConditionX \<times> LockX) option" where
  "cv_entries bad_cond bad_lock iCV iLock s =
     (if iCV < 0 \<or> iCV \<ge> MAX_CONDITIONS then Inr None
      else if iLock < 0 \<or> iLock \<ge> MAX_LOCKS then Inr None
      else bindE (arr_get (conditionTable s) iCV) (\<lambda>ce.
           bindE (arr_get (lockTable s) iLock) (\<lambda>le.
           case (ce, le) of
             (Some cx, Some lx) \<Rightarrow>
               if bad_cond cx then Inr None
               else if bad_lock lx then Inr None
               else if condOwner cx \<noteq> curSpace s then Inr None
               else if lockOwner lx \<noteq> curSpace s then Inr None
               else bindE (live (lockObj lx) s) (\<lambda>_.
                 if \<not> isHeldByCurrentThread (lockObj lx) (core s) then Inr None
                 else bindE (live (condObj cx) s) (\<lambda>_. Inr (Some (cx, lx))))
           | _ \<Rightarrow> Inr None)))"

definition Wait_Syscall :: "int \<Rightarrow> int \<Rightarrow> usys \<Rightarrow> fault + usys" where
  "Wait_Syscall iCV iLock s =
     bindE (cv_entries (\<lambda>cx. condToBeDeleted cx \<or> condDeleted cx) (\<lambda>lx. lockToBeDeleted lx \<or> lockDeleted lx)
              iCV iLock s) (\<lambda>r. case r of
       None \<Rightarrow> Inr (ret (-1) s)
     | Some (cx, lx) \<Rightarrow>
         bindE (Condition_Wait (condObj cx) (Some (lockObj lx)) (core s)) (\<lambda>c. Inr ((ret 0 s)\<lparr>core := c\<rparr>)))"

text \<open>A condition marked for deletion goes when nobody waits on it.\<close>

definition reap_condition :: "int \<Rightarrow> ConditionX \<Rightarrow> usys \<Rightarrow> fault + usys" where
  "reap_condition iCV cx s =
     (if condToBeDeleted cx \<and> q_is_empty (cqueue (conds (core s) (condObj cx)))
      then bindE (arr_set (conditionTable s) iCV (Some (cx\<lparr>condDeleted := True\<rparr>))) (\<lambda>t.
           Inr (delete_obj (condObj cx) (s\<lparr>conditionTable := t\<rparr>)))
      else Inr s)"

definition Signal_Syscall :: "int \<Rightarrow> int \<Rightarrow> usys \<Rightarrow> fault + usys" where
  "Signal_Syscall iCV iLock s =
     bindE (cv_entries condDeleted lockDeleted iCV iLock s) (\<lambda>r. case r of
       None \<Rightarrow> Inr (ret (-1) s)
     | Some (cx, lx) \<Rightarrow>
         reap_condition iCV cx
           (ret 0 (s\<lparr>core := Condition_Signal (condObj cx) (Some (lockObj lx)) (core s)\<rparr>)))"

definition Broadcast_Syscall :: "int \<Rightarrow> int \<Rightarrow> usys \<Rightarrow> fault + usys" where
  "Broadcast_Syscall iCV iLock s =
     bindE (cv_entries condDeleted (\<lambda>lx. lockToBeDeleted lx \<or> lockDeleted lx) iCV iLock s) (\<lambda>r. case r of
       None \<Rightarrow> Inr (ret (-1) s)
     | Some (cx, lx) \<Rightarrow>
         (case Condition_Broadcast (condObj cx) (Some (lockObj lx)) (core s) of
            None \<Rightarrow> Inl NoReturn
          | Some c \<Rightarrow> reap_condition iCV cx (ret 0 (s\<lparr>core := c\<rparr>))))"

text \<open>\<open>acquire_then\<close>: the kernel's own \<open>Acquire\<close> of a global lock, and what is to be done behind it.\<close>

definition acquire_then :: "nat \<Rightarrow> rest \<Rightarrow> usys \<Rightarrow> fault + usys" where
  "acquire_then l r s =
     bindE (Lock_Acquire l (core s)) (\<lambda>c.
     Inr (s\<lparr>core := c, pendingRest := (pendingRest s)(curT s := Some r)\<rparr>))"

definition release :: "nat \<Rightarrow> usys \<Rightarrow> usys" where
  "release l s = s\<lparr>core := Lock_Release l (core s)\<rparr>"

definition CreateCondition_Syscall :: "32 word \<Rightarrow> int \<Rightarrow> usys \<Rightarrow> fault + usys" where
  "CreateCondition_Syscall vaddr len s =
     bindE (copy_name vaddr len s) (\<lambda>(buf, s1). case buf of
       None \<Rightarrow> Inr (ret (-1) s1)
     | Some _ \<Rightarrow> acquire_then conditionLock CreateConditionRest s1)"

definition CreateCondition_rest :: "nat \<Rightarrow> usys \<Rightarrow> fault + usys" where
  "CreateCondition_rest x s =
     (case first_from (\<lambda>i. conditionTable s ! i = None) 0 (nat MAX_CONDITIONS) of
        None \<Rightarrow> Inr (ret (-1) s)
      | Some i \<Rightarrow>
          let (cx, s1) = constructConditionX x s in
          bindE (arr_set (conditionTable s1) (int i) (Some cx)) (\<lambda>t.
          Inr (release conditionLock (ret (int i) (s1\<lparr>conditionTable := t\<rparr>)))))"

definition DestroyCondition_Syscall :: "int \<Rightarrow> usys \<Rightarrow> fault + usys" where
  "DestroyCondition_Syscall idx s =
     (if idx \<ge> MAX_CONDITIONS \<or> idx < 0 then Inr (ret (-1) s)
      else bindE (arr_get (conditionTable s) idx) (\<lambda>e. case e of
        None \<Rightarrow> Inr (ret (-1) s)
      | Some cx \<Rightarrow>
          if condOwner cx \<noteq> curSpace s then Inr (ret (-1) s)
          else if condDeleted cx then Inr (ret (-1) s)
          else
            let cx1 = cx\<lparr>condToBeDeleted := True\<rparr> in
            bindE (arr_set (conditionTable s) idx (Some cx1)) (\<lambda>t.
            bindE (live (condObj cx) s) (\<lambda>_.
            reap_condition idx cx1 (ret 0 (s\<lparr>conditionTable := t\<rparr>))))))"

section \<open>Threads and processes\<close>

definition Fork_Syscall :: "int \<Rightarrow> 32 word \<Rightarrow> int \<Rightarrow> usys \<Rightarrow> fault + usys" where
  "Fork_Syscall vaddr nm len s = acquire_then forkLock (ForkRest vaddr nm len) s"

text \<open>
  The new thread's name is only printed.  The thread starts in \<open>Kernel_Thread\<close> with the entry point
  and the stack of \<open>kthread\<close>.
\<close>

definition Fork_rest :: "alloc \<Rightarrow> int \<Rightarrow> 32 word \<Rightarrow> int \<Rightarrow> usys \<Rightarrow> fault + usys" where
  "Fork_rest a vaddr nm len s =
     bindE (copy_name nm len s) (\<lambda>(buf, s1). case buf of
       None \<Rightarrow> Inr (release forkLock (ret 0 s1))
     | Some _ \<Rightarrow>
         if vaddr < 0 \<or> vaddr mod 4 \<noteq> 0 then Inr (release forkLock (ret 0 s1))
         else
           let t = newThread a;
               s2 = s1\<lparr>core := Thread_new t (core s1), spaceOf := (spaceOf s1)(t := curSpace s1),
                       mailbox := (mailbox s1)(t := mailboxCount s1), mailboxCount := mailboxCount s1 + 1\<rparr> in
           bindE (arr_get (processTable s2) (curSpace s2)) (\<lambda>p.
           bindE (derefE p) (\<lambda>pr.
           bindE (arr_set (processTable s2) (curSpace s2) (Some (pr\<lparr>threadCount := threadCount pr + 1\<rparr>))) (\<lambda>pt.
           bindE (MakeNewPT (stale a) (spaceOf s2 t) (mem s2)) (\<lambda>(stack, m).
           let s3 = release forkLock (ret 0 (s2\<lparr>processTable := pt, mem := m,
                      kthread := (kthread s2)(t := Some \<lparr>kt_vaddr = vaddr, kt_stack = stack\<rparr>)\<rparr>)) in
           Inr (s3\<lparr>core := Thread_Fork t (core s3)\<rparr>))))))"

definition Yield_Syscall :: "usys \<Rightarrow> fault + usys" where
  "Yield_Syscall s = bindE (Thread_Yield (core s)) (\<lambda>c. Inr ((ret 0 s)\<lparr>core := c\<rparr>))"

definition Exec_Syscall :: "int \<Rightarrow> int \<Rightarrow> usys \<Rightarrow> fault + usys" where
  "Exec_Syscall vaddr len s = acquire_then execLock (ExecRest vaddr len) s"

definition cstring :: "byte list \<Rightarrow> string" where
  "cstring bs = map (\<lambda>b. char_of (uint b)) (takeWhile (\<lambda>b. b \<noteq> 0) bs)"

text \<open>The new process's own lock is free, so \<open>Acquire\<close> and \<open>Release\<close> of it never block.\<close>

definition Exec_rest :: "alloc \<Rightarrow> int \<Rightarrow> int \<Rightarrow> usys \<Rightarrow> fault + usys" where
  "Exec_rest a vaddr len s =
     (if len < -1 then Inl Halted
      else if vaddr < 0 \<or> vaddr mod 4 \<noteq> 0 then Inr (release execLock (ret (-1) s))
      else bindE (copy_name (of_int vaddr) len s) (\<lambda>(buf, s1). case buf of
        None \<Rightarrow> Inr (release execLock (ret (-1) s1))
      | Some bs \<Rightarrow>
          (case diskFiles s1 (cstring bs) of
             None \<Rightarrow> Inr (release execLock (ret (-1) s1))
           | Some f \<Rightarrow>
               bindE (AddrSpace_new (stale a) f) (\<lambda>pt.
               let n = numProcesses s1 + 1; t = newThread a;
                   s2 = s1\<lparr>numProcesses := n, core := Thread_new t (core s1),
                     mem := (mem s1)\<lparr>pageTables := (pageTables (mem s1))(n := pt),
                                      executables := (executables (mem s1))(n := f)\<rparr>,
                     spaceOf := (spaceOf s1)(t := n), mailbox := (mailbox s1)(t := mailboxCount s1),
                     mailboxCount := mailboxCount s1 + 1\<rparr> in
               bindE (arr_set (processTable s2) n (Some (constructProcess n n))) (\<lambda>pr.
               bindE (arr_set (processLock s2) n (Some (newObj a))) (\<lambda>pl.
               bindE (arr_set (processCV s2) n (Some (newObj a))) (\<lambda>pc.
               let s3 = s2\<lparr>processTable := pr, processLock := pl, processCV := pc,
                     core := (core s2)\<lparr>locks := (locks (core s2))(newObj a := Lock_new),
                                       conds := (conds (core s2))(newObj a := Condition_new)\<rparr>,
                     liveObjs := insert (newObj a) (liveObjs s2), usedObjs := insert (newObj a) (usedObjs s2)\<rparr> in
               bindE (Lock_Acquire (newObj a) (core s3)) (\<lambda>c.
               let s4 = release execLock (release (newObj a) (s3\<lparr>core := c\<rparr>)) in
               Inr (ret n (s4\<lparr>core := Thread_Fork t (core s4)\<rparr>))))))))))"

definition Exit_Syscall :: "usys \<Rightarrow> fault + usys" where
  "Exit_Syscall s = acquire_then execLock ExitRest s"

text \<open>The end of \<open>Exit\<close> when the process is over: the machine halts when it was the last one.\<close>

definition finish_thread :: "usys \<Rightarrow> fault + usys" where
  "finish_thread s = bindE (Thread_Finish (core s)) (\<lambda>c. Inr (s\<lparr>core := c\<rparr>))"

definition process_exited :: "(usys \<Rightarrow> usys) \<Rightarrow> usys \<Rightarrow> fault + usys" where
  "process_exited unlock s =
     (let s1 = s\<lparr>numProcessesExited := numProcessesExited s + 1\<rparr> in
      if numProcessesExited s1 = numProcesses s1 then Inl Halted
      else finish_thread (unlock s1))"

definition Exit_rest :: "usys \<Rightarrow> fault + usys" where
  "Exit_rest s =
     (if curSpace s = 0 then process_exited (release execLock) s
      else bindE (arr_get (processLock s) (curSpace s)) (\<lambda>l.
           bindE (derefE l) (\<lambda>l. acquire_then l (ExitLocked (curSpace s)) s)))"

definition Exit_locked :: "int \<Rightarrow> usys \<Rightarrow> fault + usys" where
  "Exit_locked i s =
     bindE (arr_get (processLock s) i) (\<lambda>pl.
     bindE (derefE pl) (\<lambda>l.
     bindE (arr_get (processTable s) i) (\<lambda>p.
     bindE (derefE p) (\<lambda>pr.
     let n = threadCount pr - 1 in
     bindE (arr_set (processTable s) i (Some (pr\<lparr>threadCount := n\<rparr>))) (\<lambda>pt.
     let s1 = s\<lparr>processTable := pt\<rparr>; unlock = (\<lambda>s. release execLock (release l s)) in
     if n = 0 then process_exited unlock s1 else finish_thread (unlock s1))))))"

section \<open>The system\<close>

datatype syscall =
    SysAcquire int | SysRelease int | SysWait int int | SysSignal int int | SysBroadcast int int
  | SysCreateLock "32 word" int | SysDestroyLock int | SysCreateCondition "32 word" int
  | SysDestroyCondition int | SysFork int "32 word" int | SysYield | SysExec int int | SysExit
  | SysPrintx "32 word" int int | SysHalt

definition Printx_call :: "32 word \<Rightarrow> int \<Rightarrow> int \<Rightarrow> usys \<Rightarrow> fault + usys" where
  "Printx_call vaddr len v s =
     bindE (Printx_Syscall (user_fault s) [] vaddr len v (mem s)) (\<lambda>(out, m). Inr (ret 0 (s\<lparr>mem := m\<rparr>)))"

fun do_syscall :: "alloc \<Rightarrow> syscall \<Rightarrow> usys \<Rightarrow> fault + usys" where
  "do_syscall a (SysAcquire i) s = Acquire_Syscall i s"
| "do_syscall a (SysRelease i) s = Release_Syscall i s"
| "do_syscall a (SysWait c l) s = Wait_Syscall c l s"
| "do_syscall a (SysSignal c l) s = Signal_Syscall c l s"
| "do_syscall a (SysBroadcast c l) s = Broadcast_Syscall c l s"
| "do_syscall a (SysCreateLock v n) s = CreateLock_Syscall (newObj a) v n s"
| "do_syscall a (SysDestroyLock i) s = DestroyLock_Syscall i s"
| "do_syscall a (SysCreateCondition v n) s = CreateCondition_Syscall v n s"
| "do_syscall a (SysDestroyCondition i) s = DestroyCondition_Syscall i s"
| "do_syscall a (SysFork f v n) s = Fork_Syscall f v n s"
| "do_syscall a SysYield s = Yield_Syscall s"
| "do_syscall a (SysExec v n) s = Exec_Syscall v n s"
| "do_syscall a SysExit s = Exit_Syscall s"
| "do_syscall a (SysPrintx v n x) s = Printx_call v n x s"
| "do_syscall a SysHalt s = Inl Halted"

fun do_rest :: "alloc \<Rightarrow> rest \<Rightarrow> usys \<Rightarrow> fault + usys" where
  "do_rest a CreateConditionRest s = CreateCondition_rest (newObj a) s"
| "do_rest a (ForkRest f v n) s = Fork_rest a f v n s"
| "do_rest a (ExecRest v n) s = Exec_rest a v n s"
| "do_rest a ExitRest s = Exit_rest s"
| "do_rest a (ExitLocked i) s = Exit_locked i s"

text \<open>
  The threads' steps.  A thread in user code calls; one that is out of the synchronization operation
  its call began with runs the rest; resumptions, device interrupts, the idle loop and time slices
  are those of the synchronization model.  \<open>new\<close> gives addresses that were not used before.
\<close>

definition fresh :: "alloc \<Rightarrow> usys \<Rightarrow> bool" where
  "fresh a s \<longleftrightarrow> newObj a \<notin> usedObjs s \<and> newThread a \<notin> threads (core s)"

text \<open>A resumption that locks a lock which was deleted meanwhile.\<close>

definition dangling :: "usys \<Rightarrow> bool" where
  "dangling s \<longleftrightarrow> (\<exists>l fs. frames (core s) (curT s) = WaitReacquire l # fs \<and> l \<notin> liveObjs s)"

definition pop_rest :: "usys \<Rightarrow> usys" where
  "pop_rest s = s\<lparr>pendingRest := (pendingRest s)(curT s := None)\<rparr>"

definition at_user :: "usys \<Rightarrow> bool" where
  "at_user s \<longleftrightarrow> \<not> idling (core s) \<and> frames (core s) (curT s) = []"

inductive ustep :: "syscall option \<Rightarrow> usys \<Rightarrow> usys \<Rightarrow> bool" where
  u_call: "at_user s \<Longrightarrow> pendingRest s (curT s) = None \<Longrightarrow> fresh a s \<Longrightarrow>
     do_syscall a c s = Inr s' \<Longrightarrow> ustep (Some c) s s'"
| u_rest: "at_user s \<Longrightarrow> pendingRest s (curT s) = Some r \<Longrightarrow> fresh a s \<Longrightarrow>
     do_rest a r (pop_rest s) = Inr s' \<Longrightarrow> ustep None s s'"
| u_core: "\<not> dangling s \<Longrightarrow> step None (core s) c \<Longrightarrow> ustep None s (s\<lparr>core := c\<rparr>)"
| u_slice: "step (Some DoYield) (core s) c \<Longrightarrow> ustep None s (s\<lparr>core := c\<rparr>)"

text \<open>The kernel when the first process, number 0, starts.\<close>

definition usys_init :: "usys \<Rightarrow> bool" where
  "usys_init s \<longleftrightarrow> sys_init (core s) \<and> lockTable s = replicate 500 None \<and>
     conditionTable s = replicate 500 None \<and> processTable s = replicate 5 None \<and>
     processLock s = replicate 5 None \<and> processCV s = replicate 5 None \<and>
     numProcesses s = 0 \<and> numProcessesExited s = -1 \<and> spaceOf s (curT s) = 0 \<and>
     (\<forall>t. pendingRest s t = None) \<and> liveObjs s = {0, 1, 2} \<and> usedObjs s = {0, 1, 2}"

inductive ureach :: "usys \<Rightarrow> bool" where
  ureach_init: "usys_init s \<Longrightarrow> ureach s"
| ureach_step: "ureach s \<Longrightarrow> ustep c s s' \<Longrightarrow> ureach s'"

end
