(* ===== verification/Nachos_Effects.thy ===== *)
theory Nachos_Effects
  imports Nachos_Syscalls
begin

text \<open>
  What the steps of the synchronization model leave alone, as far as the system calls depend on it:
  a step changes only the lock and the condition it names, and the set of threads that have not
  finished changes only by \<open>Fork\<close> and \<open>Finish\<close>.
\<close>

section \<open>Locks and conditions\<close>

definition unchanged :: "nat set \<Rightarrow> sys \<Rightarrow> sys \<Rightarrow> bool" where
  "unchanged X s s' \<longleftrightarrow> (\<forall>x. x \<notin> X \<longrightarrow> locks s' x = locks s x \<and> conds s' x = conds s x)"

lemma unchanged_refl [simp]: "unchanged X s s"
  by (simp add: unchanged_def)

lemma unchanged_trans: "unchanged X s s1 \<Longrightarrow> unchanged Y s1 s2 \<Longrightarrow> X \<union> Y \<subseteq> Z \<Longrightarrow> unchanged Z s s2"
  unfolding unchanged_def by (metis Un_iff subsetD)

lemma unchanged_mono: "unchanged X s s' \<Longrightarrow> X \<subseteq> Y \<Longrightarrow> unchanged Y s s'"
  by (auto simp: unchanged_def)

lemma unchangedI: "locks s' = locks s \<Longrightarrow> conds s' = conds s \<Longrightarrow> unchanged X s s'"
  by (simp add: unchanged_def)

fun objs :: "operation \<Rightarrow> nat set" where
  "objs (DoAcquire l) = {l}"
| "objs (DoRelease l) = {l}"
| "objs (DoWait c lo) = insert c (set_option lo)"
| "objs (DoSignal c lo) = {c}"
| "objs (DoBroadcast c lo) = {c}"
| "objs _ = {}"

lemma Acquire_unchanged:
  assumes "Lock_Acquire l s = Inr s'"
  shows "unchanged {l} s s'"
proof -
  consider "isHeldByCurrentThread l s" | "\<not> isHeldByCurrentThread l s" "free (locks s l)"
    | "\<not> isHeldByCurrentThread l s" "\<not> free (locks s l)" by blast
  then show ?thesis
  proof cases
    case 3
    note a = assms [unfolded Acquire_cases(3) [OF 3]]
    show ?thesis using Sleep_locals(2,3) [OF a] by (simp add: unchanged_def)
  qed (use assms in \<open>auto simp: Acquire_cases unchanged_def\<close>)
qed

lemma Release_unchanged: "unchanged {l} s (Lock_Release l s)"
  by (cases "isHeldByCurrentThread l s"; cases "lqueue (locks s l)")
    (simp_all add: Release_cases ReadyToRun_def unchanged_def)

lemma Signal_unchanged: "unchanged {c} s (Condition_Signal c lo s)"
proof (cases "signal_refused c lo s")
  case True
  then show ?thesis by (simp add: Signal_cases)
next
  case False
  then obtain t q where q: "cqueue (conds s c) = t # q"
    by (cases "cqueue (conds s c)") (auto simp: signal_refused_def)
  show ?thesis by (simp add: Signal_cases(2) [OF False q] ReadyToRun_def unchanged_def)
qed

lemma Broadcast_unchanged:
  assumes "Condition_Broadcast c lo s = Some s'"
  shows "unchanged {c} s s'"
proof (rule Condition_Broadcast.raw_induct [where P = "\<lambda>c lo s s'. unchanged {c} s s'", OF _ assms])
  fix f :: "nat \<Rightarrow> nat option \<Rightarrow> sys \<Rightarrow> sys option" and c lo s s'
  assume 1: "\<And>c lo s y. f c lo s = Some y \<Longrightarrow> unchanged {c} s y"
    and 2: "(if q_is_empty (cqueue (conds s c)) then Some s else f c lo (Condition_Signal c lo s)) = Some s'"
  then show "unchanged {c} s s'"
    using unchanged_trans [OF Signal_unchanged [of c s lo] 1] by (auto split: if_splits)
qed

lemma Wait_unchanged:
  assumes "Condition_Wait c lo s = Inr s'"
  shows "unchanged (insert c (set_option lo)) s s'"
proof (cases "wait_refused c lo s")
  case True
  with assms show ?thesis by (simp add: Wait_cases)
next
  case False
  then obtain l where lo: "lo = Some l" by (auto simp: wait_refused_def)
  let ?s1 = "s\<lparr>level := IntOff, conds := (conds s)(c := (conds s c)\<lparr>waitingLock := Some l\<rparr>)\<rparr>"
  note a = assms [unfolded lo Wait_cases(2) [OF False [unfolded lo] refl]]
  have "unchanged {l} ?s1 (Lock_Release l ?s1)" by (rule Release_unchanged)
  then show ?thesis
    using Sleep_locals(2,3) [OF a] Release_same(5) [of l ?s1] by (simp add: unchanged_def lo)
qed

lemma Finish_unchanged: "Thread_Finish (s :: sys) = Inr s' \<Longrightarrow> unchanged X s s'"
  unfolding Thread_Finish_def by (rule unchangedI; drule Sleep_locals(2,3)) (simp_all add: Sleep_locals)

lemma P_unchanged:
  assumes "Semaphore_P m s = Inr s'"
  shows "unchanged X s s'"
proof (cases "svalue (sems s m) = 0")
  case True
  note a = assms [unfolded P_cases(1) [OF True] P_wait_def]
  show ?thesis using Sleep_locals(2,3) [OF a] by (intro unchangedI) simp_all
next
  case False
  with assms show ?thesis by (auto simp: P_cases P_take_def unchanged_def)
qed

lemma V_unchanged: "unchanged X s (Semaphore_V m s)"
  by (cases "squeue (sems s m)") (simp_all add: V_cases ReadyToRun_def unchanged_def)

lemma exec_unchanged:
  assumes "exec a s = Some (Inr s')"
  shows "unchanged (objs a) s s'"
proof (cases a)
  case (DoBroadcast c lo)
  with assms show ?thesis using Broadcast_unchanged [of c lo s s'] by auto
qed (use assms in \<open>auto simp: Release_unchanged Signal_unchanged V_unchanged Thread_Fork_def Thread_new_def
    ReadyToRun_def intro: Acquire_unchanged Wait_unchanged P_unchanged Finish_unchanged
    unchangedI Yield_locals(2,3)\<close>)

lemma resume_unchanged:
  assumes "resume s = Inr s'" "\<And>l fs. frames s (currentThread s) = WaitReacquire l # fs \<Longrightarrow> l \<in> X"
  shows "unchanged X s s'"
proof (cases "frames s (currentThread s)")
  case Nil
  with assms show ?thesis by (simp add: resume_def)
next
  case (Cons f fs)
  have p: "locks (pop_frame s) = locks s" "conds (pop_frame s) = conds s" by (simp_all add: pop_frame_def)
  show ?thesis
  proof (cases f)
    case (WaitReacquire l)
    then have "unchanged {l} (pop_frame s) s'"
      using assms(1) Cons by (intro Acquire_unchanged) (simp add: resume_def)
    moreover have "l \<in> X" using assms(2) Cons WaitReacquire by blast
    ultimately show ?thesis by (auto simp: unchanged_def p)
  next
    case (SemRetry m)
    show ?thesis
    proof (cases "svalue (sems s m) = 0")
      case True
      then have a: "Thread_Sleep [SemRetry m] ((pop_frame s)\<lparr>sems := (sems (pop_frame s))(m := (sems (pop_frame s) m)
          \<lparr>squeue := q_append (currentThread (pop_frame s)) (squeue (sems (pop_frame s) m))\<rparr>)\<rparr>) = Inr s'"
        using assms(1) Cons SemRetry by (simp add: resume_def P_wait_def)
      show ?thesis using Sleep_locals(2,3) [OF a] by (intro unchangedI) (simp_all add: p)
    next
      case False
      with assms(1) Cons SemRetry show ?thesis by (auto simp: resume_def P_take_def unchanged_def p)
    qed
  qed (use assms(1) Cons in \<open>auto simp: resume_def unchanged_def p\<close>)
qed

section \<open>Threads that have not finished\<close>

definition active :: "sys \<Rightarrow> tid set" where
  "active s = {t \<in> threads s. NotReached \<notin> set (frames s t)}"

definition only_finished :: "sys \<Rightarrow> sys \<Rightarrow> bool" where
  "only_finished s s' \<longleftrightarrow> threads s' = threads s \<or>
     (\<exists>d. threadToBeDestroyed s = Some d \<and> threads s' = threads s - {d})"

lemma active_cong:
  assumes "kernel_inv s wq" "only_finished s s'"
    "\<And>t. NotReached \<in> set (frames s' t) \<longleftrightarrow> NotReached \<in> set (frames s t)"
  shows "active s' = active s"
  using assms(2,3) kernel_invD(9) [OF assms(1)] unfolding active_def only_finished_def by auto

lemma Sleep_finished: "Thread_Sleep fr s = Inr s' \<Longrightarrow> only_finished s s'"
  unfolding only_finished_def by (drule Sleep_threads) blast

lemma Sleep_active:
  assumes "kernel_inv s0 wq" "Thread_Sleep fr s = Inr s'" "threads s = threads s0" "frames s = frames s0"
    "threadToBeDestroyed s = threadToBeDestroyed s0" "NotReached \<notin> set fr"
  shows "active s' = active s0"
proof (rule active_cong [OF assms(1)])
  show "only_finished s0 s'" using Sleep_finished [OF assms(2)] assms(3,5) by (simp add: only_finished_def)
  show "NotReached \<in> set (frames s' t) \<longleftrightarrow> NotReached \<in> set (frames s0 t)" for t
    using Sleep_locals(4) [OF assms(2)] assms(4,6) by auto
qed

lemma Acquire_active:
  assumes "kernel_inv s wq" "Lock_Acquire l s = Inr s'"
  shows "active s' = active s"
proof -
  consider "isHeldByCurrentThread l s" | "\<not> isHeldByCurrentThread l s" "free (locks s l)"
    | "\<not> isHeldByCurrentThread l s" "\<not> free (locks s l)" by blast
  then show ?thesis
  proof cases
    case 3
    show ?thesis
      by (rule Sleep_active [OF assms(1) assms(2) [unfolded Acquire_cases(3) [OF 3]]]) simp_all
  qed (use assms(2) in \<open>auto simp: Acquire_cases active_def\<close>)
qed

lemma Release_threads:
  "threads (Lock_Release l s) = threads s" "threadToBeDestroyed (Lock_Release l s) = threadToBeDestroyed s"
  by (cases "isHeldByCurrentThread l s"; cases "lqueue (locks s l)"; simp add: Release_cases ReadyToRun_def)+

lemma Release_active: "active (Lock_Release l s) = active s"
  by (simp add: active_def Release_threads Release_same)

lemma Signal_active: "active (Condition_Signal c lo s) = active s"
proof (cases "signal_refused c lo s")
  case True
  then show ?thesis by (simp add: Signal_cases)
next
  case False
  then obtain t q where q: "cqueue (conds s c) = t # q"
    by (cases "cqueue (conds s c)") (auto simp: signal_refused_def)
  show ?thesis by (simp add: Signal_cases(2) [OF False q] ReadyToRun_def active_def)
qed

lemma Broadcast_active:
  assumes "Condition_Broadcast c lo s = Some s'"
  shows "active s' = active s"
proof (rule Condition_Broadcast.raw_induct [where P = "\<lambda>c lo s s'. active s' = active s", OF _ assms])
  fix f :: "nat \<Rightarrow> nat option \<Rightarrow> sys \<Rightarrow> sys option" and c lo s s'
  assume 1: "\<And>c lo s y. f c lo s = Some y \<Longrightarrow> active y = active s"
    and 2: "(if q_is_empty (cqueue (conds s c)) then Some s else f c lo (Condition_Signal c lo s)) = Some s'"
  then show "active s' = active s" using 1 [of c lo "Condition_Signal c lo s" s'] Signal_active [of c lo s]
    by (auto split: if_splits)
qed

lemma Wait_active:
  assumes "kernel_inv s wq" "Condition_Wait c lo s = Inr s'"
  shows "active s' = active s"
proof (cases "wait_refused c lo s")
  case True
  with assms show ?thesis by (simp add: Wait_cases)
next
  case False
  then obtain l where lo: "lo = Some l" by (auto simp: wait_refused_def)
  show ?thesis
    by (rule Sleep_active [OF assms(1) assms(2) [unfolded lo Wait_cases(2) [OF False [unfolded lo] refl]]])
      (simp_all add: Release_threads Release_same)
qed

lemma Yield_active:
  assumes "kernel_inv s wq" "Thread_Yield s = Inr (s' :: sys)"
  shows "active s' = active s"
proof (cases "readyList s")
  case Nil
  then have "s' = s" using Yield_cases [OF assms(2)] by simp
  then show ?thesis by simp
next
  case (Cons n ns)
  let ?s = "ReadyToRun (currentThread s) (s\<lparr>level := IntOff, readyList := ns,
      frames := (frames s)(currentThread s := RestoreLevel (level s) # frames s (currentThread s))\<rparr>)"
  have "Run n ?s = Inr s'" using assms(2) Cons by (simp add: Thread_Yield_def FindNextToRun_Cons Let_def)
  from Run_threads [OF this] have "only_finished s s'" by (auto simp: only_finished_def ReadyToRun_def)
  then show ?thesis
    by (rule active_cong [OF assms(1)]) (use Yield_locals(5) [OF assms(2)] in \<open>auto split: if_splits\<close>)
qed

lemma P_active:
  assumes "kernel_inv s wq" "Semaphore_P m s = Inr s'"
  shows "active s' = active s"
proof (cases "svalue (sems s m) = 0")
  case True
  show ?thesis
    by (rule Sleep_active [OF assms(1) assms(2) [unfolded P_cases(1) [OF True] P_wait_def]]) simp_all
next
  case False
  with assms(2) show ?thesis by (auto simp: P_cases P_take_def active_def)
qed

lemma V_active: "active (Semaphore_V m s) = active s"
  by (cases "squeue (sems s m)") (simp_all add: V_cases ReadyToRun_def active_def)

lemma Finish_active:
  assumes "kernel_inv s wq" "\<not> idling s" "Thread_Finish s = Inr s'"
  shows "active s' = active s - {currentThread s}"
proof -
  let ?k = "s\<lparr>level := IntOff, threadToBeDestroyed := Some (currentThread s)\<rparr>"
  have sl: "Thread_Sleep [NotReached] ?k = Inr s'" using assms(3) by (simp add: Thread_Finish_def)
  have "threads s' = threads s \<or> threads s' = threads s - {currentThread s}"
    using Sleep_threads [OF sl] by auto
  moreover have "frames s' = (frames s)(currentThread s := NotReached # frames s (currentThread s))"
    using Sleep_locals(4) [OF sl] by simp
  ultimately show ?thesis by (auto simp: active_def)
qed

fun active_after :: "operation \<Rightarrow> sys \<Rightarrow> tid set" where
  "active_after (DoFork t) s = insert t (active s)"
| "active_after DoFinish s = active s - {currentThread s}"
| "active_after _ s = active s"

lemma exec_active:
  assumes "sync_inv s" "\<not> idling s" "exec a s = Some (Inr s')"
  shows "active s' = active_after a s"
proof -
  have K: "kernel_inv s (waitq s)" using assms(1) by (simp add: sync_inv_def)
  show ?thesis
  proof (cases a)
    case (DoBroadcast c lo)
    with assms(3) show ?thesis using Broadcast_active [of c lo s s'] by auto
  next
    case (DoFork t)
    with assms(3) show ?thesis by (auto simp: Thread_Fork_def Thread_new_def ReadyToRun_def active_def split: if_splits)
  qed (use assms(3) K in \<open>auto simp: Release_active Signal_active V_active dest!: Acquire_active [OF K] Wait_active [OF K]
      P_active [OF K] Yield_active [OF K] Finish_active [OF K assms(2)]\<close>)
qed

lemma pop_active: "f \<noteq> NotReached \<Longrightarrow> frames s (currentThread s) = f # fs \<Longrightarrow> active (pop_frame s) = active s"
  by (auto simp: active_def pop_frame_def)

lemma resume_active:
  assumes "sync_inv s" "\<not> idling s" "resume s = Inr s'"
  shows "active s' = active s"
proof (cases "frames s (currentThread s)")
  case Nil
  with assms(3) show ?thesis by (simp add: resume_def)
next
  case (Cons f fs)
  have K: "kernel_inv s (waitq s)" using assms(1) by (simp add: sync_inv_def)
  have nr: "NotReached \<notin> set fs" "f \<noteq> NotReached" using kernel_inv_current(3) [OF K assms(2)] Cons by auto
  have p: "pop_frame s = s\<lparr>frames := (frames s)(currentThread s := fs)\<rparr>" using Cons by (simp add: pop_frame_def)
  have Kp: "kernel_inv (pop_frame s) (waitq s)" using kernel_inv_frames [OF K assms(2) nr(1)] by (simp add: p)
  note pa = pop_active [OF nr(2) Cons]
  show ?thesis
  proof (cases f)
    case (WaitReacquire l)
    with Cons assms(3) have "Lock_Acquire l (pop_frame s) = Inr s'" by (simp add: resume_def)
    from Acquire_active [OF Kp this] pa show ?thesis by simp
  next
    case (SemRetry m)
    show ?thesis
    proof (cases "svalue (sems s m) = 0")
      case True
      with SemRetry Cons assms(3) have "P_wait m [] (pop_frame s) = Inr s'" by (simp add: resume_def)
      from Sleep_active [OF Kp this [unfolded P_wait_def]] pa show ?thesis by simp
    next
      case False
      with SemRetry Cons assms(3) have "s' = P_take m (pop_frame s)" by (simp add: resume_def)
      then show ?thesis unfolding pa [symmetric] by (simp add: P_take_def active_def)
    qed
  next
    case (RestoreLevel l)
    with Cons assms(3) have "s' = (pop_frame s)\<lparr>level := l\<rparr>" by (simp add: resume_def)
    then show ?thesis unfolding pa [symmetric] by (simp add: active_def)
  next
    case (AcquireDone l)
    with Cons assms(3) have "s' = pop_frame s" by (simp add: resume_def)
    then show ?thesis using pa by simp
  next
    case ThreadRoot
    with Cons assms(3) have "s' = (pop_frame s)\<lparr>level := IntOn\<rparr>" by (simp add: resume_def)
    then show ?thesis unfolding pa [symmetric] by (simp add: active_def)
  qed (use nr in simp)
qed

lemma Sleep_loop_active:
  assumes "sync_inv s" "Sleep_loop s = Inr s'"
  shows "active s' = active s"
proof (cases "readyList s")
  case Nil
  with assms(2) show ?thesis by (auto simp: Sleep_loop_def FindNextToRun_Nil active_def)
next
  case (Cons n ns)
  have K: "kernel_inv s (waitq s)" using assms(1) by (simp add: sync_inv_def)
  have "Run n (s\<lparr>readyList := ns, idling := False\<rparr>) = Inr s'"
    using assms(2) Cons by (simp add: Sleep_loop_def FindNextToRun_Cons)
  from Run_threads [OF this] have "only_finished s s'" by (auto simp: only_finished_def)
  then show ?thesis by (rule active_cong [OF K]) (use Sleep_loop_locals(4) [OF assms(2)] in simp)
qed

lemma quiet_step_active:
  assumes "sync_inv s" "step a s s'" "a = None \<or> a = Some DoYield"
  shows "active s' = active s"
  using assms(2)
proof (cases rule: step.cases)
  case (step_op b)
  with assms(3) exec_active [OF assms(1), of b s'] show ?thesis by auto
next
  case (step_irq m)
  then show ?thesis by (simp add: V_active)
qed (use assms(1) resume_active Sleep_loop_active in blast)+

end
