(* ===== verification/Nachos_SyscallInv.thy ===== *)
theory Nachos_SyscallInv
  imports Nachos_Effects
begin

text \<open>
  The tables of the system calls keep their invariant (\<open>tab_inv\<close>), every call is a short sequence of
  operations of the synchronization model (\<open>cruns\<close>), and the process accounting of \<open>Exec\<close>, \<open>Fork\<close>
  and \<open>Exit\<close> is exact.
\<close>

section \<open>Who refers to which object\<close>

datatype slot = LSlot nat | CSlot nat | PSlot nat | GSlot nat

fun slot_obj :: "slot \<Rightarrow> usys \<Rightarrow> nat option" where
  "slot_obj (LSlot i) s = (if i < length (lockTable s) then map_option lockObj (lockTable s ! i) else None)"
| "slot_obj (CSlot i) s = (if i < length (conditionTable s) then map_option condObj (conditionTable s ! i) else None)"
| "slot_obj (PSlot i) s = (if i < length (processLock s) then processLock s ! i else None)"
| "slot_obj (GSlot i) s = (if i < 3 then Some i else None)"

fun slot_dead :: "slot \<Rightarrow> usys \<Rightarrow> bool" where
  "slot_dead (LSlot i) s = (case lockTable s ! i of None \<Rightarrow> False | Some lx \<Rightarrow> lockDeleted lx)"
| "slot_dead (CSlot i) s = (case conditionTable s ! i of None \<Rightarrow> False | Some cx \<Rightarrow> condDeleted cx)"
| "slot_dead _ s = False"

definition sizes_ok :: "usys \<Rightarrow> bool" where
  "sizes_ok s \<longleftrightarrow> length (lockTable s) = 500 \<and> length (conditionTable s) = 500 \<and>
     length (processTable s) = 5 \<and> length (processLock s) = 5 \<and> length (processCV s) = 5"

text \<open>An object belongs to one slot, and is allocated exactly as long as the slot is not marked deleted.\<close>

definition tab_inv :: "usys \<Rightarrow> bool" where
  "tab_inv s \<longleftrightarrow> sizes_ok s \<and> liveObjs s \<subseteq> usedObjs s \<and>
     (\<forall>k x. slot_obj k s = Some x \<longrightarrow> x \<in> usedObjs s \<and> (x \<in> liveObjs s \<longleftrightarrow> \<not> slot_dead k s)) \<and>
     (\<forall>k k' x. slot_obj k s = Some x \<and> slot_obj k' s = Some x \<longrightarrow> k = k')"

lemma tab_invD:
  assumes "tab_inv s"
  shows "sizes_ok s" "liveObjs s \<subseteq> usedObjs s"
    "slot_obj k s = Some x \<Longrightarrow> x \<in> usedObjs s"
    "slot_obj k s = Some x \<Longrightarrow> x \<in> liveObjs s \<longleftrightarrow> \<not> slot_dead k s"
    "slot_obj k s = Some x \<Longrightarrow> slot_obj k' s = Some x \<Longrightarrow> k = k'"
  using assms unfolding tab_inv_def by blast+

lemma tab_inv_same:
  assumes "tab_inv s" "sizes_ok s'" "\<And>k. slot_obj k s' = slot_obj k s" "\<And>k. slot_dead k s' = slot_dead k s"
    "liveObjs s' = liveObjs s" "usedObjs s' = usedObjs s"
  shows "tab_inv s'"
  using assms(1,2) unfolding tab_inv_def assms(3-6) by blast

lemma tab_inv_insert:
  assumes T: "tab_inv s" and "sizes_ok s'" and x: "x \<notin> usedObjs s"
    and o: "\<And>j. slot_obj j s' = (if j = k then Some x else slot_obj j s)"
    and d: "\<And>j. j \<noteq> k \<Longrightarrow> slot_dead j s' = slot_dead j s" "\<not> slot_dead k s'"
    and l: "liveObjs s' = insert x (liveObjs s)" "usedObjs s' = insert x (usedObjs s)"
  shows "tab_inv s'"
proof -
  note D = tab_invD [OF T]
  have "y \<in> usedObjs s' \<and> (y \<in> liveObjs s' \<longleftrightarrow> \<not> slot_dead j s')" if "slot_obj j s' = Some y" for j y
  proof (cases "j = k")
    case True
    with that o d l show ?thesis by simp
  next
    case False
    with that o have "slot_obj j s = Some y" by simp
    with D(3,4) [of j y] x d(1) [OF False] l show ?thesis by auto
  qed
  moreover have "j = j'" if "slot_obj j s' = Some y" "slot_obj j' s' = Some y" for j j' y
  proof -
    have "\<not> (j = k \<and> j' \<noteq> k)" "\<not> (j \<noteq> k \<and> j' = k)" using that o D(3) x by force+
    with that o D(5) show ?thesis by (metis (full_types))
  qed
  ultimately show ?thesis using assms(2) D(2) l unfolding tab_inv_def by blast
qed

lemma tab_inv_kill:
  assumes T: "tab_inv s" and "sizes_ok s'" and x: "slot_obj k s = Some x"
    and o: "\<And>j. slot_obj j s' = slot_obj j s" and d: "\<And>j. slot_dead j s' = (j = k \<or> slot_dead j s)"
    and l: "liveObjs s' = liveObjs s - {x}" "usedObjs s' = usedObjs s"
  shows "tab_inv s'"
proof -
  note D = tab_invD [OF T]
  have "y \<in> usedObjs s' \<and> (y \<in> liveObjs s' \<longleftrightarrow> \<not> slot_dead j s')" if "slot_obj j s = Some y" for j y
  proof (cases "j = k")
    case True
    with that x have "y = x" by simp
    with True D(3) [OF that] show ?thesis by (simp add: d l)
  next
    case False
    then have "y \<noteq> x" using D(5) [OF x, of j] that by metis
    with False D(3,4) [OF that] show ?thesis by (simp add: d l)
  qed
  moreover have "liveObjs s' \<subseteq> usedObjs s'" using D(2) l by blast
  ultimately show ?thesis using assms(2) D(5) unfolding tab_inv_def o by simp
qed

text \<open>Parts of the state the invariant does not look at.\<close>

lemma slot_simps [simp]:
  "slot_obj k (s\<lparr>core := c\<rparr>) = slot_obj k s" "slot_obj k (s\<lparr>mem := m\<rparr>) = slot_obj k s"
  "slot_obj k (s\<lparr>result := r\<rparr>) = slot_obj k s" "slot_obj k (s\<lparr>pendingRest := q\<rparr>) = slot_obj k s"
  "slot_dead k (s\<lparr>core := c\<rparr>) = slot_dead k s" "slot_dead k (s\<lparr>mem := m\<rparr>) = slot_dead k s"
  "slot_dead k (s\<lparr>result := r\<rparr>) = slot_dead k s" "slot_dead k (s\<lparr>pendingRest := q\<rparr>) = slot_dead k s"
  by (cases k; simp)+

lemma tab_inv_simps [simp]:
  "tab_inv (s\<lparr>core := c\<rparr>) = tab_inv s" "tab_inv (s\<lparr>mem := m\<rparr>) = tab_inv s"
  "tab_inv (s\<lparr>result := r\<rparr>) = tab_inv s" "tab_inv (s\<lparr>pendingRest := q\<rparr>) = tab_inv s"
  by (simp_all add: tab_inv_def sizes_ok_def)

lemma tab_inv_ret [simp]: "tab_inv (ret v s) = tab_inv s" "tab_inv (release l s) = tab_inv s" "tab_inv (pop_rest s) = tab_inv s"
  by (simp_all add: ret_def release_def pop_rest_def)

lemma ret_simps [simp]:
  "core (ret v s) = core s" "lockTable (ret v s) = lockTable s" "conditionTable (ret v s) = conditionTable s"
  "processTable (ret v s) = processTable s" "processLock (ret v s) = processLock s" "mem (ret v s) = mem s"
  "liveObjs (ret v s) = liveObjs s" "usedObjs (ret v s) = usedObjs s" "spaceOf (ret v s) = spaceOf s"
  "numProcesses (ret v s) = numProcesses s" "numProcessesExited (ret v s) = numProcessesExited s"
  "pendingRest (ret v s) = pendingRest s" "curT (ret v s) = curT s" "curSpace (ret v s) = curSpace s"
  "result (ret v s) (curT s) = v"
  by (simp_all add: ret_def curT_def curSpace_def)

lemma release_simps [simp]:
  "core (release l s) = Lock_Release l (core s)" "lockTable (release l s) = lockTable s"
  "conditionTable (release l s) = conditionTable s" "processTable (release l s) = processTable s"
  "processLock (release l s) = processLock s" "liveObjs (release l s) = liveObjs s"
  "usedObjs (release l s) = usedObjs s" "spaceOf (release l s) = spaceOf s" "mem (release l s) = mem s"
  "numProcesses (release l s) = numProcesses s" "numProcessesExited (release l s) = numProcessesExited s"
  "pendingRest (release l s) = pendingRest s" "curT (release l s) = curT s" "curSpace (release l s) = curSpace s"
  by (simp_all add: release_def curT_def curSpace_def Release_same)

lemma copy_name_cases:
  assumes "copy_name v n s = Inr (b, s1)"
  shows "\<exists>m. s1 = s\<lparr>mem := m\<rparr>"
  using assms by (cases s) (auto simp: copy_name_def bindE_eq_Inr split: if_splits)

text \<open>Changes of one table entry.\<close>

lemma lock_entry_kept:
  assumes "tab_inv s" "i < 500" "lockTable s ! i = Some lx" "lockObj lx' = lockObj lx" "lockDeleted lx' = lockDeleted lx"
  shows "tab_inv (s\<lparr>lockTable := (lockTable s)[i := Some lx']\<rparr>)"
proof (rule tab_inv_same [OF assms(1)])
  note sz = tab_invD(1) [OF assms(1)]
  show "sizes_ok (s\<lparr>lockTable := (lockTable s)[i := Some lx']\<rparr>)" using sz by (simp add: sizes_ok_def)
  fix k show "slot_obj k (s\<lparr>lockTable := (lockTable s)[i := Some lx']\<rparr>) = slot_obj k s"
    using assms(2-4) by (cases k) (auto simp: nth_list_update')
  show "slot_dead k (s\<lparr>lockTable := (lockTable s)[i := Some lx']\<rparr>) = slot_dead k s"
    using assms(2,3,5) sz by (cases k) (auto simp: nth_list_update sizes_ok_def)
qed simp_all

lemma lock_entry_killed:
  assumes "tab_inv s" "i < 500" "lockTable s ! i = Some lx"
  shows "tab_inv (delete_obj (lockObj lx) (s\<lparr>lockTable := (lockTable s)[i := Some (lx\<lparr>lockDeleted := True\<rparr>)]\<rparr>))"
    (is "tab_inv ?s")
proof (rule tab_inv_kill [OF assms(1), of _ "LSlot i"])
  note sz = tab_invD(1) [OF assms(1)]
  show "sizes_ok ?s" using sz by (simp add: sizes_ok_def delete_obj_def)
  show "slot_obj (LSlot i) s = Some (lockObj lx)" using assms(2,3) sz by (simp add: sizes_ok_def)
  fix k show "slot_obj k ?s = slot_obj k s"
    using assms(2,3) by (cases k) (auto simp: nth_list_update' delete_obj_def)
  show "slot_dead k ?s = (k = LSlot i \<or> slot_dead k s)"
    using assms(2,3) sz by (cases k) (auto simp: nth_list_update delete_obj_def sizes_ok_def)
qed (simp_all add: delete_obj_def)

lemma lock_entry_new:
  assumes "tab_inv s" "i < 500" "lockTable s ! i = None" "x \<notin> usedObjs s" "constructLockX x s = (lx, s2)"
  shows "tab_inv (s2\<lparr>lockTable := (lockTable s2)[i := Some lx]\<rparr>)" (is "tab_inv ?s")
proof (rule tab_inv_insert [OF assms(1) _ assms(4), of _ "LSlot i"])
  note sz = tab_invD(1) [OF assms(1)]
  have c: "lx = \<lparr>lockToBeDeleted = False, lockDeleted = False, lockObj = x, lockOwner = curSpace s\<rparr>"
    "lockTable s2 = lockTable s" "conditionTable s2 = conditionTable s" "processLock s2 = processLock s"
    "processTable s2 = processTable s" "processCV s2 = processCV s"
    "liveObjs s2 = insert x (liveObjs s)" "usedObjs s2 = insert x (usedObjs s)"
    using assms(5) by (auto simp: constructLockX_def)
  show "sizes_ok ?s" using sz c by (simp add: sizes_ok_def)
  show "liveObjs ?s = insert x (liveObjs s)" "usedObjs ?s = insert x (usedObjs s)" using c by simp_all
  show "\<not> slot_dead (LSlot i) ?s" using c sz assms(2) by (simp add: sizes_ok_def)
  fix k show "slot_obj k ?s = (if k = LSlot i then Some x else slot_obj k s)"
    using c sz assms(2) by (cases k) (auto simp: nth_list_update sizes_ok_def)
  assume "k \<noteq> LSlot i"
  then show "slot_dead k ?s = slot_dead k s" using c by (cases k) (auto simp: nth_list_update)
qed

lemma cond_entry_kept:
  assumes "tab_inv s" "i < 500" "conditionTable s ! i = Some cx" "condObj cx' = condObj cx" "condDeleted cx' = condDeleted cx"
  shows "tab_inv (s\<lparr>conditionTable := (conditionTable s)[i := Some cx']\<rparr>)"
proof (rule tab_inv_same [OF assms(1)])
  note sz = tab_invD(1) [OF assms(1)]
  show "sizes_ok (s\<lparr>conditionTable := (conditionTable s)[i := Some cx']\<rparr>)" using sz by (simp add: sizes_ok_def)
  fix k show "slot_obj k (s\<lparr>conditionTable := (conditionTable s)[i := Some cx']\<rparr>) = slot_obj k s"
    using assms(2-4) by (cases k) (auto simp: nth_list_update')
  show "slot_dead k (s\<lparr>conditionTable := (conditionTable s)[i := Some cx']\<rparr>) = slot_dead k s"
    using assms(2,3,5) sz by (cases k) (auto simp: nth_list_update sizes_ok_def)
qed simp_all

lemma cond_entry_killed:
  assumes "tab_inv s" "i < 500" "conditionTable s ! i = Some cx" "condObj cx' = condObj cx" "condDeleted cx'"
  shows "tab_inv (delete_obj (condObj cx) (s\<lparr>conditionTable := (conditionTable s)[i := Some cx']\<rparr>))"
    (is "tab_inv ?s")
proof (rule tab_inv_kill [OF assms(1), of _ "CSlot i"])
  note sz = tab_invD(1) [OF assms(1)]
  show "sizes_ok ?s" using sz by (simp add: sizes_ok_def delete_obj_def)
  show "slot_obj (CSlot i) s = Some (condObj cx)" using assms(2,3) sz by (simp add: sizes_ok_def)
  fix k show "slot_obj k ?s = slot_obj k s"
    using assms(2-4) by (cases k) (auto simp: nth_list_update' delete_obj_def)
  show "slot_dead k ?s = (k = CSlot i \<or> slot_dead k s)"
    using assms(2,3,5) sz by (cases k) (auto simp: nth_list_update delete_obj_def sizes_ok_def)
qed (simp_all add: delete_obj_def)

lemma cond_entry_new:
  assumes "tab_inv s" "i < 500" "conditionTable s ! i = None" "x \<notin> usedObjs s" "constructConditionX x s = (cx, s2)"
  shows "tab_inv (s2\<lparr>conditionTable := (conditionTable s2)[i := Some cx]\<rparr>)" (is "tab_inv ?s")
proof (rule tab_inv_insert [OF assms(1) _ assms(4), of _ "CSlot i"])
  note sz = tab_invD(1) [OF assms(1)]
  have c: "cx = \<lparr>condToBeDeleted = False, condDeleted = False, condObj = x, condOwner = curSpace s\<rparr>"
    "lockTable s2 = lockTable s" "conditionTable s2 = conditionTable s" "processLock s2 = processLock s"
    "processTable s2 = processTable s" "processCV s2 = processCV s"
    "liveObjs s2 = insert x (liveObjs s)" "usedObjs s2 = insert x (usedObjs s)"
    using assms(5) by (auto simp: constructConditionX_def)
  show "sizes_ok ?s" using sz c by (simp add: sizes_ok_def)
  show "liveObjs ?s = insert x (liveObjs s)" "usedObjs ?s = insert x (usedObjs s)" using c by simp_all
  show "\<not> slot_dead (CSlot i) ?s" using c sz assms(2) by (simp add: sizes_ok_def)
  fix k show "slot_obj k ?s = (if k = CSlot i then Some x else slot_obj k s)"
    using c sz assms(2) by (cases k) (auto simp: nth_list_update sizes_ok_def)
  assume "k \<noteq> CSlot i"
  then show "slot_dead k ?s = slot_dead k s" using c by (cases k) (auto simp: nth_list_update)
qed

lemma proc_entry_new:
  assumes "tab_inv s" "i < 5" "x \<notin> usedObjs s" "processLock s' = (processLock s)[i := Some x]"
    "lockTable s' = lockTable s" "conditionTable s' = conditionTable s" "sizes_ok s'"
    "liveObjs s' = insert x (liveObjs s)" "usedObjs s' = insert x (usedObjs s)"
  shows "tab_inv s'"
proof (rule tab_inv_insert [OF assms(1,7,3), of "PSlot i"])
  note sz = tab_invD(1) [OF assms(1)]
  fix k show "slot_obj k s' = (if k = PSlot i then Some x else slot_obj k s)"
    using assms(2,4-6) sz by (cases k) (auto simp: nth_list_update sizes_ok_def)
  show "slot_dead k s' = slot_dead k s" using assms(4-6) by (cases k) simp_all
qed (use assms in simp_all)

section \<open>What a call does\<close>

definition same_acc :: "usys \<Rightarrow> usys \<Rightarrow> bool" where
  "same_acc s s' \<longleftrightarrow> processTable s' = processTable s \<and> numProcesses s' = numProcesses s \<and>
     numProcessesExited s' = numProcessesExited s \<and> spaceOf s' = spaceOf s \<and> processLock s' = processLock s"

fun quiet_op :: "operation \<Rightarrow> bool" where
  "quiet_op (DoFork t) = False"
| "quiet_op DoFinish = False"
| "quiet_op _ = True"

text \<open>The call leaves the synchronization state alone or performs one operation on known objects.\<close>

definition core_op :: "usys \<Rightarrow> usys \<Rightarrow> bool" where
  "core_op s s' \<longleftrightarrow> core s' = core s \<or>
     (\<exists>a. quiet_op a \<and> objs a \<subseteq> usedObjs s \<and> exec a (core s) = Some (Inr (core s')))"

text \<open>Only the caller's own rest changes, and its second part belongs to its own process.\<close>

definition pend :: "usys \<Rightarrow> usys \<Rightarrow> bool" where
  "pend s s' \<longleftrightarrow> (\<forall>t. pendingRest s' t = pendingRest s t \<or>
     t = curT s \<and> (\<forall>i. pendingRest s' t = Some (ExitLocked i) \<longrightarrow> i = curSpace s \<and> i \<noteq> 0))"

lemma pend_same: "pendingRest s' = pendingRest s \<Longrightarrow> pend s s'"
  by (simp add: pend_def)

definition effect :: "usys \<Rightarrow> usys \<Rightarrow> bool" where
  "effect s s' \<longleftrightarrow> tab_inv s' \<and> usedObjs s \<subseteq> usedObjs s' \<and> same_acc s s' \<and> pend s s' \<and> core_op s s'"

definition pristine :: "usys \<Rightarrow> bool" where
  "pristine s \<longleftrightarrow> (\<forall>x. x \<notin> usedObjs s \<longrightarrow> locks (core s) x = Lock_new \<and> conds (core s) x = Condition_new)"

lemma effect_tables:
  assumes "tab_inv s'" "usedObjs s \<subseteq> usedObjs s'" "core s' = core s" "same_acc s s'"
    "pendingRest s' = pendingRest s"
  shows "effect s s'"
  using assms by (simp add: effect_def core_op_def pend_same)

lemma effect_same: "tab_inv s \<Longrightarrow> effect s (ret v s)" "tab_inv s \<Longrightarrow> effect s s"
  by (rule effect_tables; simp add: same_acc_def)+

lemma effect_core:
  assumes "tab_inv s" "quiet_op a" "objs a \<subseteq> usedObjs s" "exec a (core s) = Some (Inr c)"
  shows "effect s ((ret v s)\<lparr>core := c\<rparr>)"
  using assms unfolding effect_def core_op_def same_acc_def by (auto intro: pend_same)

lemma effect_mem: "effect (s\<lparr>mem := m\<rparr>) s' \<longleftrightarrow> effect s s'"
  by (simp add: effect_def core_op_def same_acc_def pend_def curSpace_def curT_def)

lemma same_acc_simps [simp]:
  "same_acc s (s'\<lparr>lockTable := t\<rparr>) = same_acc s s'" "same_acc s (s'\<lparr>conditionTable := ct\<rparr>) = same_acc s s'"
  "same_acc s (s'\<lparr>core := c\<rparr>) = same_acc s s'" "same_acc s (ret v s') = same_acc s s'" "same_acc s s"
  "same_acc s (delete_obj x s') = same_acc s s'" "same_acc s (release l s') = same_acc s s'"
  by (simp_all add: same_acc_def delete_obj_def)

text \<open>The object of a valid table entry is known.\<close>

lemma lock_entry:
  assumes "tab_inv s" "\<not> (idx \<ge> MAX_LOCKS \<or> idx < 0)" "arr_get (lockTable s) idx = Inr (Some lx)"
  shows "nat idx < 500" "lockTable s ! nat idx = Some lx" "lockObj lx \<in> usedObjs s"
    "lockObj lx \<in> liveObjs s \<longleftrightarrow> \<not> lockDeleted lx"
proof -
  note sz = tab_invD(1) [OF assms(1)]
  show i: "nat idx < 500" using assms(2) by (simp add: MAX_LOCKS_def nat_less_iff)
  show e: "lockTable s ! nat idx = Some lx" using assms(3) by (simp add: arr_get_Inr)
  have o: "slot_obj (LSlot (nat idx)) s = Some (lockObj lx)" using i e sz by (simp add: sizes_ok_def)
  show "lockObj lx \<in> usedObjs s" using tab_invD(3) [OF assms(1) o] .
  show "lockObj lx \<in> liveObjs s \<longleftrightarrow> \<not> lockDeleted lx" using tab_invD(4) [OF assms(1) o] e by simp
qed

lemma cond_entry:
  assumes "tab_inv s" "\<not> (idx \<ge> MAX_CONDITIONS \<or> idx < 0)" "arr_get (conditionTable s) idx = Inr (Some cx)"
  shows "nat idx < 500" "conditionTable s ! nat idx = Some cx" "condObj cx \<in> usedObjs s"
    "condObj cx \<in> liveObjs s \<longleftrightarrow> \<not> condDeleted cx"
proof -
  note sz = tab_invD(1) [OF assms(1)]
  show i: "nat idx < 500" using assms(2) by (simp add: MAX_CONDITIONS_def nat_less_iff)
  show e: "conditionTable s ! nat idx = Some cx" using assms(3) by (simp add: arr_get_Inr)
  have o: "slot_obj (CSlot (nat idx)) s = Some (condObj cx)" using i e sz by (simp add: sizes_ok_def)
  show "condObj cx \<in> usedObjs s" using tab_invD(3) [OF assms(1) o] .
  show "condObj cx \<in> liveObjs s \<longleftrightarrow> \<not> condDeleted cx" using tab_invD(4) [OF assms(1) o] e by simp
qed

lemma Acquire_effect:
  assumes T: "tab_inv s" and r: "Acquire_Syscall idx s = Inr s'"
  shows "effect s s'"
proof (cases "s' = ret (-1) s")
  case True
  with T show ?thesis by (simp add: effect_same)
next
  case False
  with r have ok: "\<not> (idx \<ge> MAX_LOCKS \<or> idx < 0)" by (auto simp: Acquire_Syscall_def split: if_splits)
  from r ok False obtain lx where lx: "arr_get (lockTable s) idx = Inr (Some lx)"
    by (auto simp: Acquire_Syscall_def bindE_eq_Inr split: option.splits)
  note E = lock_entry [OF T ok lx]
  from r ok False lx consider
      "s' = ret (-1) (delete_obj (lockObj lx) (s\<lparr>lockTable := (lockTable s)[nat idx := Some (lx\<lparr>lockDeleted := True\<rparr>)]\<rparr>))"
    | c where "Lock_Acquire (lockObj lx) (core s) = Inr c" "s' = (ret idx s)\<lparr>core := c\<rparr>"
    by (auto simp: Acquire_Syscall_def bindE_eq_Inr arr_set_Inr split: if_splits)
  then show ?thesis
  proof cases
    case 1
    then show ?thesis using lock_entry_killed [OF T E(1,2)]
      by (intro effect_tables) (simp_all add: delete_obj_def same_acc_def)
  next
    case (2 c)
    then show ?thesis using effect_core [OF T, of "DoAcquire (lockObj lx)" c idx] E(3) by simp
  qed
qed

lemma Release_effect:
  assumes T: "tab_inv s" and r: "Release_Syscall idx s = Inr s'"
  shows "effect s s'"
proof (cases "s' = ret (-1) s")
  case True
  with T show ?thesis by (simp add: effect_same)
next
  case False
  with r have ok: "\<not> (idx \<ge> MAX_LOCKS \<or> idx < 0)" by (auto simp: Release_Syscall_def split: if_splits)
  from r ok False obtain lx where lx: "arr_get (lockTable s) idx = Inr (Some lx)"
    by (auto simp: Release_Syscall_def bindE_eq_Inr split: option.splits)
  note E = lock_entry [OF T ok lx]
  let ?c = "Lock_Release (lockObj lx) (core s)"
  have e: "exec (DoRelease (lockObj lx)) (core s) = Some (Inr ?c)" by simp
  from r ok False lx consider
      "s' = ret idx (delete_obj (lockObj lx) (s\<lparr>core := ?c, lockTable := (lockTable s)[nat idx := Some (lx\<lparr>lockDeleted := True\<rparr>)]\<rparr>))"
    | "s' = ret idx (s\<lparr>core := ?c\<rparr>)"
    by (auto simp: Release_Syscall_def bindE_eq_Inr arr_set_Inr split: if_splits)
  then show ?thesis
  proof cases
    case 1
    have "tab_inv s'" using lock_entry_killed [of "s\<lparr>core := ?c\<rparr>", OF _ E(1)] E(2) T 1 by simp
    moreover have "core_op s s'" unfolding core_op_def
      by (rule disjI2, rule exI [of _ "DoRelease (lockObj lx)"]) (use 1 E(3) in \<open>simp add: delete_obj_def\<close>)
    ultimately show ?thesis using 1 by (simp add: effect_def delete_obj_def same_acc_def pend_same)
  next
    case 2
    then show ?thesis using T E(3) unfolding effect_def core_op_def same_acc_def
      by (auto intro!: exI [of _ "DoRelease (lockObj lx)"] pend_same)
  qed
qed

lemma CreateLock_effect:
  assumes T: "tab_inv s" and P: "pristine s" and x: "x \<notin> usedObjs s" and r: "CreateLock_Syscall x v n s = Inr s'"
  shows "effect s s'"
proof -
  from r obtain b s1 where b: "copy_name v n s = Inr (b, s1)" by (auto simp: CreateLock_Syscall_def bindE_eq_Inr)
  then obtain m where s1: "s1 = s\<lparr>mem := m\<rparr>" using copy_name_cases by blast
  have T1: "tab_inv s1" using T s1 by simp
  have "effect s1 s'"
  proof (cases "s' = ret (-1) s1")
    case True
    with T1 show ?thesis by (simp add: effect_same)
  next
    case False
    obtain lx s2 where c: "constructLockX x s1 = (lx, s2)" by fastforce
    from r b False c obtain i where i: "first_from (\<lambda>i. lockTable s1 ! i = None) 0 500 = Some i"
      "s' = ret (int i) (s2\<lparr>lockTable := (lockTable s2)[i := Some lx]\<rparr>)"
      by (auto simp: CreateLock_Syscall_def bindE_eq_Inr arr_set_Inr MAX_LOCKS_def split: option.splits)
    from first_from_Some [OF i(1)] have f: "i < 500" "lockTable s1 ! i = None" by simp_all
    have t: "tab_inv (s2\<lparr>lockTable := (lockTable s2)[i := Some lx]\<rparr>)"
      by (rule lock_entry_new [OF T1 f _ c]) (use x s1 in simp)
    have "locks (core s) x = Lock_new" using P x by (simp add: pristine_def)
    then have "(locks (core s))(x := Lock_new) = locks (core s)" by auto
    then have "core s2 = core s1" using c s1 by (auto simp: constructLockX_def)
    with t c show ?thesis unfolding i(2) by (intro effect_tables) (auto simp: constructLockX_def same_acc_def)
  qed
  then show ?thesis by (simp add: s1 effect_mem)
qed

lemma DestroyLock_effect:
  assumes T: "tab_inv s" and r: "DestroyLock_Syscall idx s = Inr s'"
  shows "effect s s'"
proof (cases "s' = ret (-1) s")
  case True
  with T show ?thesis by (simp add: effect_same)
next
  case False
  with r have ok: "\<not> (idx \<ge> MAX_LOCKS \<or> idx < 0)" by (auto simp: DestroyLock_Syscall_def split: if_splits)
  from r ok False obtain lx where lx: "arr_get (lockTable s) idx = Inr (Some lx)"
    by (auto simp: DestroyLock_Syscall_def bindE_eq_Inr split: option.splits)
  note E = lock_entry [OF T ok lx]
  from r ok False lx have "s' = ret idx (s\<lparr>lockTable := (lockTable s)[nat idx := Some (lx\<lparr>lockToBeDeleted := True\<rparr>)]\<rparr>)"
    by (auto simp: DestroyLock_Syscall_def bindE_eq_Inr arr_set_Inr split: if_splits)
  then show ?thesis using lock_entry_kept [OF T E(1,2), of "lx\<lparr>lockToBeDeleted := True\<rparr>"]
    by (intro effect_tables) simp_all
qed

text \<open>The condition calls.\<close>

lemma cv_entriesD:
  assumes "tab_inv s" "cv_entries bc bl i j s = Inr (Some (cx, lx))"
  shows "nat i < 500" "conditionTable s ! nat i = Some cx" "condObj cx \<in> usedObjs s" "lockObj lx \<in> usedObjs s"
    "0 \<le> i" "i < 500" "lockTable s ! nat j = Some lx" "0 \<le> j" "j < 500"
    "\<not> bc cx" "\<not> bl lx" "condOwner cx = curSpace s" "lockOwner lx = curSpace s"
    "isHeldByCurrentThread (lockObj lx) (core s)"
proof -
  have b: "\<not> (i \<ge> MAX_CONDITIONS \<or> i < 0)" "\<not> (j \<ge> MAX_LOCKS \<or> j < 0)"
    using assms(2) by (auto simp: cv_entries_def split: if_splits)
  obtain ce le where ce: "arr_get (conditionTable s) i = Inr ce" "arr_get (lockTable s) j = Inr le"
    using assms(2) b by (auto simp: cv_entries_def bindE_eq_Inr)
  have e: "ce \<noteq> None" "le \<noteq> None"
    using assms(2) b ce by (auto simp: cv_entries_def split: option.splits)
  then obtain cx' lx' where x: "ce = Some cx'" "le = Some lx'" by auto
  note r = assms(2) [unfolded cv_entries_def ce x, simplified]
  have c: "cx' = cx" "lx' = lx" "\<not> bc cx" "\<not> bl lx" "condOwner cx = curSpace s" "lockOwner lx = curSpace s"
      "isHeldByCurrentThread (lockObj lx) (core s)"
    using r b by (simp_all add: bindE_eq_Inr split: if_splits)
  have g: "arr_get (conditionTable s) i = Inr (Some cx)" "arr_get (lockTable s) j = Inr (Some lx)"
    using ce x c by simp_all
  show "\<not> bc cx" "\<not> bl lx" "condOwner cx = curSpace s" "lockOwner lx = curSpace s"
    "isHeldByCurrentThread (lockObj lx) (core s)" using c(3-) .
  show "nat i < 500" "conditionTable s ! nat i = Some cx" "condObj cx \<in> usedObjs s"
    using cond_entry [OF assms(1) b(1) g(1)] by simp_all
  show "lockObj lx \<in> usedObjs s" "lockTable s ! nat j = Some lx" using lock_entry [OF assms(1) b(2) g(2)] by simp_all
  show "0 \<le> i" "i < 500" "0 \<le> j" "j < 500" using b by (simp_all add: MAX_CONDITIONS_def MAX_LOCKS_def)
qed

lemma reap_cases:
  assumes "reap_condition i cx s = Inr s'"
  shows "s' = s \<or> s' = delete_obj (condObj cx) (s\<lparr>conditionTable := (conditionTable s)[nat i := Some (cx\<lparr>condDeleted := True\<rparr>)]\<rparr>)"
  using assms by (auto simp: reap_condition_def bindE_eq_Inr arr_set_Inr split: if_splits)

lemma reap_effect:
  assumes T: "tab_inv s" and i: "nat i < 500" "conditionTable s ! nat i = Some cx0" "condObj cx0 = condObj cx"
    and r: "reap_condition i cx s = Inr s'"
  shows "tab_inv s'" "usedObjs s' = usedObjs s" "same_acc s s'" "core s' = core s" "pendingRest s' = pendingRest s"
  using reap_cases [OF r] T cond_entry_killed [OF T i(1,2), of "cx\<lparr>condDeleted := True\<rparr>"] i(3)
  by (auto simp: delete_obj_def same_acc_def)

lemma Wait_effect:
  assumes T: "tab_inv s" and r: "Wait_Syscall i j s = Inr s'"
  shows "effect s s'"
proof (cases "s' = ret (-1) s")
  case True
  with T show ?thesis by (simp add: effect_same)
next
  case False
  with r obtain cx lx c where e: "cv_entries (\<lambda>cx. condToBeDeleted cx \<or> condDeleted cx)
      (\<lambda>lx. lockToBeDeleted lx \<or> lockDeleted lx) i j s = Inr (Some (cx, lx))"
    "Condition_Wait (condObj cx) (Some (lockObj lx)) (core s) = Inr c" "s' = (ret 0 s)\<lparr>core := c\<rparr>"
    by (auto simp: Wait_Syscall_def bindE_eq_Inr split: option.splits)
  note D = cv_entriesD [OF T e(1)]
  show ?thesis using effect_core [OF T, of "DoWait (condObj cx) (Some (lockObj lx))" c 0] D(3,4) e(2,3) by simp
qed

lemma cv_core_effect:
  assumes T: "tab_inv s" and a: "quiet_op a" "objs a \<subseteq> usedObjs s" "exec a (core s) = Some (Inr c)"
    and i: "nat i < 500" "conditionTable s ! nat i = Some cx"
    and r: "reap_condition i cx (ret 0 (s\<lparr>core := c\<rparr>)) = Inr s'"
  shows "effect s s'"
proof -
  have "tab_inv s'" "usedObjs s' = usedObjs (ret 0 (s\<lparr>core := c\<rparr>))"
    "same_acc (ret 0 (s\<lparr>core := c\<rparr>)) s'" "core s' = core (ret 0 (s\<lparr>core := c\<rparr>))"
    "pendingRest s' = pendingRest (ret 0 (s\<lparr>core := c\<rparr>))"
    by (rule reap_effect [OF _ i(1) _ refl r]; use T i in simp)+
  then show ?thesis using a unfolding effect_def core_op_def same_acc_def by (auto intro: pend_same)
qed

lemma Signal_effect:
  assumes T: "tab_inv s" and r: "Signal_Syscall i j s = Inr s'"
  shows "effect s s'"
proof (cases "s' = ret (-1) s")
  case True
  with T show ?thesis by (simp add: effect_same)
next
  case False
  with r obtain cx lx where e: "cv_entries condDeleted lockDeleted i j s = Inr (Some (cx, lx))"
    "reap_condition i cx (ret 0 (s\<lparr>core := Condition_Signal (condObj cx) (Some (lockObj lx)) (core s)\<rparr>)) = Inr s'"
    by (auto simp: Signal_Syscall_def bindE_eq_Inr split: option.splits)
  note D = cv_entriesD [OF T e(1)]
  show ?thesis
    by (rule cv_core_effect [OF T _ _ _ D(1,2) e(2), of "DoSignal (condObj cx) (Some (lockObj lx))"]) (use D(3) in simp_all)
qed

lemma Broadcast_effect:
  assumes T: "tab_inv s" and r: "Broadcast_Syscall i j s = Inr s'"
  shows "effect s s'"
proof (cases "s' = ret (-1) s")
  case True
  with T show ?thesis by (simp add: effect_same)
next
  case False
  from r obtain q where q: "cv_entries condDeleted (\<lambda>lx. lockToBeDeleted lx \<or> lockDeleted lx) i j s = Inr q"
    by (auto simp: Broadcast_Syscall_def bindE_eq_Inr)
  with r False obtain cx lx where e: "q = Some (cx, lx)" by (cases q) (auto simp: Broadcast_Syscall_def)
  with r q obtain c where c: "Condition_Broadcast (condObj cx) (Some (lockObj lx)) (core s) = Some c"
    "reap_condition i cx (ret 0 (s\<lparr>core := c\<rparr>)) = Inr s'"
    by (auto simp: Broadcast_Syscall_def split: option.splits)
  note D = cv_entriesD [OF T q [unfolded e]]
  show ?thesis
    by (rule cv_core_effect [OF T _ _ _ D(1,2) c(2), of "DoBroadcast (condObj cx) (Some (lockObj lx))"])
      (use D(3) c(1) in simp_all)
qed

lemma DestroyCondition_effect:
  assumes T: "tab_inv s" and r: "DestroyCondition_Syscall idx s = Inr s'"
  shows "effect s s'"
proof (cases "s' = ret (-1) s")
  case True
  with T show ?thesis by (simp add: effect_same)
next
  case False
  with r have ok: "\<not> (idx \<ge> MAX_CONDITIONS \<or> idx < 0)" by (auto simp: DestroyCondition_Syscall_def split: if_splits)
  from r ok False obtain cx where cx: "arr_get (conditionTable s) idx = Inr (Some cx)"
    by (auto simp: DestroyCondition_Syscall_def bindE_eq_Inr split: option.splits)
  note E = cond_entry [OF T ok cx]
  let ?cx = "cx\<lparr>condToBeDeleted := True\<rparr>"
  let ?s1 = "s\<lparr>conditionTable := (conditionTable s)[nat idx := Some ?cx]\<rparr>"
  have T1: "tab_inv ?s1" by (rule cond_entry_kept [OF T E(1,2)]) simp_all
  from r ok False cx have d: "reap_condition idx ?cx (ret 0 ?s1) = Inr s'"
    by (auto simp: DestroyCondition_Syscall_def bindE_eq_Inr arr_set_Inr Let_def split: if_splits)
  have "conditionTable (ret 0 ?s1) ! nat idx = Some ?cx"
    using E(1) tab_invD(1) [OF T] by (simp add: sizes_ok_def)
  note R = reap_effect [OF _ E(1) this refl d, unfolded tab_inv_ret, OF T1]
  then show ?thesis by (intro effect_tables) (simp_all add: same_acc_def)
qed

end
