(* ===== verification/Nachos_Processes.thy ===== *)
theory Nachos_Processes
  imports Nachos_SyscallInv
begin

text \<open>
  The system-call layer as a whole: every step of it is a sequence of steps of the synchronization
  model (\<open>syscall_refinement\<close>), the faults of the lock calls are characterised exactly, and the
  process accounting of \<open>Exec\<close>, \<open>Fork\<close> and \<open>Exit\<close> is shown to be exact.
\<close>

section \<open>Sequences of operations of one thread\<close>

inductive cruns :: "operation list \<Rightarrow> sys \<Rightarrow> sys \<Rightarrow> bool" where
  cruns_Nil: "cruns [] c c"
| cruns_Cons: "\<not> idling c \<Longrightarrow> frames c (currentThread c) = [] \<Longrightarrow> (\<And>t. a = DoFork t \<Longrightarrow> t \<notin> threads c) \<Longrightarrow>
     exec a c = Some (Inr c1) \<Longrightarrow> cruns as c1 c' \<Longrightarrow> cruns (a # as) c c'"

inductive_cases cruns_ConsE: "cruns (a # as) c c'"
inductive_cases cruns_NilE: "cruns [] c c'"

inductive csteps :: "sys \<Rightarrow> sys \<Rightarrow> bool" where
  csteps_refl: "csteps c c"
| csteps_step: "step a c c1 \<Longrightarrow> csteps c1 c' \<Longrightarrow> csteps c c'"

lemma cruns_csteps: "cruns as c c' \<Longrightarrow> csteps c c'"
  by (induction rule: cruns.induct) (auto intro: csteps.intros step_op)

lemma csteps_one: "step a c c' \<Longrightarrow> csteps c c'"
  by (auto intro: csteps.intros)

lemma csteps_reach: "csteps c c' \<Longrightarrow> reach c \<Longrightarrow> reach c'"
  by (induction rule: csteps.induct) (auto intro: reach_step)

lemma cruns_unchanged:
  "cruns as c c' \<Longrightarrow> (\<And>a. a \<in> set as \<Longrightarrow> objs a \<subseteq> X) \<Longrightarrow> unchanged X c c'"
proof (induction rule: cruns.induct)
  case (cruns_Cons c a c1 as c')
  have "unchanged X c c1" by (rule unchanged_mono [OF exec_unchanged [OF cruns_Cons(4)]]) (use cruns_Cons.prems in simp)
  moreover have "unchanged X c1 c'" using cruns_Cons by simp
  ultimately show ?case by (rule unchanged_trans) simp
qed simp

lemma core_op_cruns:
  assumes "core_op s s'" "at_user s"
  shows "\<exists>as. cruns as (core s) (core s') \<and> (\<forall>a\<in>set as. quiet_op a \<and> objs a \<subseteq> usedObjs s)"
proof -
  consider "core s' = core s" | a where "quiet_op a" "objs a \<subseteq> usedObjs s" "exec a (core s) = Some (Inr (core s'))"
    using assms(1) by (auto simp: core_op_def)
  then show ?thesis
  proof cases
    case 1
    then show ?thesis using cruns_Nil by (intro exI [of _ "[]"]) simp
  next
    case (2 a)
    have "cruns [a] (core s) (core s')"
      by (rule cruns_Cons [OF _ _ _ 2(3) cruns_Nil]) (use assms(2) 2(1) in \<open>auto simp: at_user_def curT_def\<close>)
    with 2 show ?thesis by (intro exI [of _ "[a]"]) simp
  qed
qed

section \<open>The remaining calls\<close>

lemma globals_used: "tab_inv s \<Longrightarrow> l < 3 \<Longrightarrow> l \<in> usedObjs s"
  using tab_invD(3) [of s "GSlot l" l] by simp

lemma globals: "forkLock < 3" "execLock < 3" "conditionLock < 3"
  by (simp_all add: forkLock_def execLock_def conditionLock_def)

lemma acquire_then_effect:
  assumes "tab_inv s" "l \<in> usedObjs s" "\<And>i. r = ExitLocked i \<Longrightarrow> i = curSpace s \<and> i \<noteq> 0"
    and a: "acquire_then l r s = Inr s'"
  shows "effect s s'"
proof -
  from a obtain c where c: "Lock_Acquire l (core s) = Inr c"
    "s' = s\<lparr>core := c, pendingRest := (pendingRest s)(curT s := Some r)\<rparr>"
    by (auto simp: acquire_then_def bindE_eq_Inr)
  have "core_op s s'" unfolding core_op_def
    by (rule disjI2, rule exI [of _ "DoAcquire l"]) (use c assms(2) in simp)
  moreover have "pend s s'" unfolding pend_def c(2) using assms(3) by simp
  ultimately show ?thesis using assms(1) unfolding effect_def same_acc_def c(2) by simp
qed

lemma CreateCondition_effect:
  assumes T: "tab_inv s" and r: "CreateCondition_Syscall v n s = Inr s'"
  shows "effect s s'"
proof -
  from r obtain b s1 where b: "copy_name v n s = Inr (b, s1)" by (auto simp: CreateCondition_Syscall_def bindE_eq_Inr)
  then obtain m where s1: "s1 = s\<lparr>mem := m\<rparr>" using copy_name_cases by blast
  have T1: "tab_inv s1" using T s1 by simp
  have "effect s1 s'"
  proof (cases b)
    case None
    with r b have "s' = ret (-1) s1" by (simp add: CreateCondition_Syscall_def)
    then show ?thesis using effect_same(1) [OF T1] by simp
  next
    case (Some bs)
    with r b have "acquire_then conditionLock CreateConditionRest s1 = Inr s'"
      by (simp add: CreateCondition_Syscall_def)
    then show ?thesis by (rule acquire_then_effect [OF T1 globals_used [OF T1 globals(3)], rotated]) simp
  qed
  then show ?thesis by (simp add: s1 effect_mem)
qed

lemma do_syscall_effect:
  assumes "tab_inv s" "pristine s" "newObj a \<notin> usedObjs s" "do_syscall a c s = Inr s'"
  shows "effect s s'"
proof (cases c)
  case (SysAcquire i)
  with assms Acquire_effect show ?thesis by simp
next
  case (SysRelease i)
  with assms Release_effect show ?thesis by simp
next
  case (SysWait i j)
  with assms Wait_effect show ?thesis by simp
next
  case (SysSignal i j)
  with assms Signal_effect show ?thesis by simp
next
  case (SysBroadcast i j)
  with assms Broadcast_effect show ?thesis by simp
next
  case (SysCreateLock v n)
  with assms CreateLock_effect show ?thesis by simp
next
  case (SysDestroyLock i)
  with assms DestroyLock_effect show ?thesis by simp
next
  case (SysCreateCondition v n)
  with assms CreateCondition_effect show ?thesis by simp
next
  case (SysDestroyCondition i)
  with assms DestroyCondition_effect show ?thesis by simp
next
  case (SysFork f v n)
  with assms(4) show ?thesis
    by (intro acquire_then_effect [OF assms(1) globals_used [OF assms(1) globals(1)]]) (auto simp: Fork_Syscall_def)
next
  case (SysExec v n)
  with assms(4) show ?thesis
    by (intro acquire_then_effect [OF assms(1) globals_used [OF assms(1) globals(2)]]) (auto simp: Exec_Syscall_def)
next
  case SysExit
  with assms(4) show ?thesis
    by (intro acquire_then_effect [OF assms(1) globals_used [OF assms(1) globals(2)]]) (auto simp: Exit_Syscall_def)
next
  case SysYield
  then obtain d where d: "exec DoYield (core s) = Some (Inr d)" "s' = (ret 0 s)\<lparr>core := d\<rparr>"
    using assms(4) by (auto simp: Yield_Syscall_def bindE_eq_Inr)
  show ?thesis unfolding d(2) by (rule effect_core [OF assms(1) _ _ d(1)]) simp_all
next
  case (SysPrintx v n x)
  then obtain m where m: "s' = ret 0 (s\<lparr>mem := m\<rparr>)"
    using assms(4) by (auto simp: Printx_call_def bindE_eq_Inr)
  have "effect (s\<lparr>mem := m\<rparr>) s'" unfolding m by (rule effect_same) (use assms(1) in simp)
  then show ?thesis by (simp add: effect_mem)
next
  case SysHalt
  with assms show ?thesis by simp
qed

section \<open>Creating and finishing threads\<close>

lemma not_waiting:
  assumes "sync_inv c" "t \<notin> threads c"
  shows "t \<notin> set (waitq c q)"
proof -
  from assms(1) have K: "kernel_inv c (waitq c)" by (simp add: sync_inv_def)
  show ?thesis
    using kernel_invD(8) [OF K assms(2)] kernel_inv_waiting [OF K, of t q] kernel_invD(7) [OF K, of t q] by auto
qed

lemma Release_new:
  assumes "sync_inv c" "\<not> idling c" "t \<notin> threads c"
  shows "Lock_Release l (Thread_new t c) = Thread_new t (Lock_Release l c)"
proof -
  from assms(1) have K: "kernel_inv c (waitq c)" by (simp add: sync_inv_def)
  have ne: "currentThread c \<noteq> t" using kernel_inv_current(5) [OF K assms(2)] assms(3) by auto
  have nq: "t \<notin> set (lqueue (locks c l))" using not_waiting [OF assms(1,3), of "QL l"] by simp
  have h: "isHeldByCurrentThread l (Thread_new t c) = isHeldByCurrentThread l c"
    by (simp add: isHeldByCurrentThread_def Thread_new_def)
  have q: "lqueue (locks (Thread_new t c) l) = lqueue (locks c l)" by (simp add: Thread_new_def)
  show ?thesis
  proof (cases "isHeldByCurrentThread l c")
    case False
    then show ?thesis using Release_cases(1) h by simp
  next
    case True
    note T = True
    show ?thesis
    proof (cases "lqueue (locks c l)")
      case Nil
      then show ?thesis using Release_cases(2) [OF T Nil] Release_cases(2) [of l "Thread_new t c"] h q T
        by (simp add: Thread_new_def)
    next
      case (Cons u us)
      then have "u \<noteq> t" using nq by auto
      then show ?thesis using Release_cases(3) [OF T Cons] Release_cases(3) [of l "Thread_new t c"] h q T Cons
        by (simp add: Thread_new_def ReadyToRun_def fun_upd_twist)
    qed
  qed
qed

lemma cruns_release:
  assumes "\<not> idling c" "frames c (currentThread c) = []" "cruns as (Lock_Release l c) c'"
  shows "cruns (DoRelease l # as) c c'"
  by (rule cruns_Cons [OF assms(1,2) _ _ assms(3)]) simp_all

lemma cruns_fork:
  assumes "sync_inv c" "\<not> idling c" "frames c (currentThread c) = []" "t \<notin> threads c"
  shows "cruns [DoRelease l, DoFork t] c (Thread_Fork t (Lock_Release l (Thread_new t c)))"
proof (rule cruns_release [OF assms(2,3)])
  show "cruns [DoFork t] (Lock_Release l c) (Thread_Fork t (Lock_Release l (Thread_new t c)))"
    by (rule cruns_Cons [OF _ _ _ _ cruns_Nil])
      (use assms Release_threads Release_same in \<open>simp_all add: Release_new [OF assms(1,2,4)]\<close>)
qed

text \<open>\<open>Acquire\<close> and \<open>Release\<close> of a new lock.\<close>

lemma new_lock_roundtrip:
  assumes "locks c x = Lock_new"
  shows "\<exists>c1. Lock_Acquire x c = Inr c1 \<and> Lock_Release x c1 = c"
proof -
  let ?c1 = "c\<lparr>locks := (locks c)(x := \<lparr>free = False, ownerThread = Some (currentThread c), lqueue = []\<rparr>)\<rparr>"
  have "\<not> isHeldByCurrentThread x c" "free (locks c x)" "lqueue (locks c x) = []"
    using assms by (simp_all add: isHeldByCurrentThread_def Lock_new_def)
  then have "Lock_Acquire x c = Inr ?c1" using assms by (simp add: Acquire_cases Lock_new_def)
  moreover have "isHeldByCurrentThread x ?c1" "lqueue (locks ?c1 x) = []" by (simp_all add: isHeldByCurrentThread_def)
  note Release_cases(2) [OF this]
  then have "Lock_Release x ?c1 = c" using assms by (cases c) (simp add: Lock_new_def fun_upd_idem)
  ultimately show ?thesis by blast
qed

section \<open>What a rest does\<close>

definition runs_used :: "operation list \<Rightarrow> usys \<Rightarrow> usys \<Rightarrow> bool" where
  "runs_used as s s' \<longleftrightarrow> cruns as (core s) (core s') \<and> (\<forall>a\<in>set as. objs a \<subseteq> usedObjs s)"

lemma CreateCondition_rest_effect:
  assumes T: "tab_inv s" and P: "pristine s" and x: "x \<notin> usedObjs s" and r: "CreateCondition_rest x s = Inr s'"
  shows "effect s s'"
proof (cases "s' = ret (-1) s")
  case True
  with T show ?thesis by (simp add: effect_same)
next
  case False
  obtain cx s2 where c: "constructConditionX x s = (cx, s2)" by fastforce
  let ?s3 = "\<lambda>i. s2\<lparr>conditionTable := (conditionTable s2)[i := Some cx]\<rparr>"
  from r False c obtain i where i: "first_from (\<lambda>i. conditionTable s ! i = None) 0 500 = Some i"
    "s' = release conditionLock (ret (int i) (?s3 i))"
    by (auto simp: CreateCondition_rest_def bindE_eq_Inr arr_set_Inr MAX_CONDITIONS_def split: option.splits)
  from first_from_Some [OF i(1)] have f: "i < 500" "conditionTable s ! i = None" by simp_all
  have t: "tab_inv (?s3 i)" by (rule cond_entry_new [OF T f x c])
  have "conds (core s) x = Condition_new" using P x by (simp add: pristine_def)
  then have "(conds (core s))(x := Condition_new) = conds (core s)" by auto
  then have co: "core s2 = core s" using c by (auto simp: constructConditionX_def)
  have u: "usedObjs s \<subseteq> usedObjs (?s3 i)" "same_acc s (?s3 i)" using c by (auto simp: constructConditionX_def same_acc_def)
  have "core_op s s'" unfolding core_op_def i(2)
    by (rule disjI2, rule exI [of _ "DoRelease conditionLock"]) (simp add: globals_used [OF T globals(3)] co)
  moreover have "pend s s'" by (rule pend_same) (use c i(2) in \<open>auto simp: constructConditionX_def\<close>)
  ultimately show ?thesis using t u by (simp add: effect_def i(2))
qed

lemma release_effect:
  assumes "tab_inv s" "l \<in> usedObjs s"
  shows "effect s (release l (ret v s))"
  unfolding effect_def core_op_def using assms by (auto intro!: exI [of _ "DoRelease l"] pend_same)

text \<open>The parts of the state that \<open>Fork\<close> and \<open>Exec\<close> do not touch.\<close>

definition same_tables :: "usys \<Rightarrow> usys \<Rightarrow> bool" where
  "same_tables s s' \<longleftrightarrow> lockTable s' = lockTable s \<and> conditionTable s' = conditionTable s \<and>
     numProcessesExited s' = numProcessesExited s \<and> pendingRest s' = pendingRest s"

definition forked :: "tid \<Rightarrow> Process \<Rightarrow> usys \<Rightarrow> usys \<Rightarrow> bool" where
  "forked t pr s s' \<longleftrightarrow> in_range (curSpace s) (processTable s) \<and> processTable s ! nat (curSpace s) = Some pr \<and>
     core s' = Thread_Fork t (Lock_Release forkLock (Thread_new t (core s))) \<and> same_tables s s' \<and>
     processTable s' = (processTable s)[nat (curSpace s) := Some (pr\<lparr>threadCount := threadCount pr + 1\<rparr>)] \<and>
     spaceOf s' = (spaceOf s)(t := curSpace s) \<and> numProcesses s' = numProcesses s \<and>
     processLock s' = processLock s \<and> processCV s' = processCV s \<and>
     liveObjs s' = liveObjs s \<and> usedObjs s' = usedObjs s"

lemma curSpace_new:
  "t \<noteq> curT s \<Longrightarrow> curSpace (s\<lparr>mem := m, core := Thread_new t (core s), spaceOf := (spaceOf s)(t := v),
     mailbox := mb, mailboxCount := mc\<rparr>) = curSpace s"
  by (simp add: curSpace_def curT_def Thread_new_def)

lemma Fork_rest_cases:
  assumes r: "Fork_rest a vaddr nm len s = Inr s'" and t: "newThread a \<noteq> curT s"
  obtains (failed) m where "s' = release forkLock (ret 0 (s\<lparr>mem := m\<rparr>))"
  | (forked) pr where "forked (newThread a) pr s s'"
proof -
  let ?t = "newThread a"
  from r obtain b s1 where b: "copy_name nm len s = Inr (b, s1)" by (auto simp: Fork_rest_def bindE_eq_Inr)
  then obtain m where s1: "s1 = s\<lparr>mem := m\<rparr>" using copy_name_cases by blast
  show ?thesis
  proof (cases "b = None \<or> vaddr < 0 \<or> vaddr mod 4 \<noteq> 0")
    case True
    with r b have "s' = release forkLock (ret 0 s1)" by (auto simp: Fork_rest_def split: option.splits)
    with failed s1 show ?thesis by blast
  next
    case False
    then obtain bs where bs: "b = Some bs" by auto
    let ?s2 = "s1\<lparr>core := Thread_new ?t (core s1), spaceOf := (spaceOf s1)(?t := curSpace s1),
                       mailbox := (mailbox s1)(?t := mailboxCount s1), mailboxCount := mailboxCount s1 + 1\<rparr>"
    have c: "curSpace s1 = curSpace s" by (simp add: curSpace_def curT_def s1)
    from r b bs False obtain p pr pt stack m2 where f: "arr_get (processTable ?s2) (curSpace ?s2) = Inr (Some pr)"
      "arr_set (processTable ?s2) (curSpace ?s2) (Some (pr\<lparr>threadCount := threadCount pr + 1\<rparr>)) = Inr pt"
      "s' = (let s3 = release forkLock (ret 0 (?s2\<lparr>processTable := pt, mem := m2,
                      kthread := (kthread ?s2)(?t := Some \<lparr>kt_vaddr = vaddr, kt_stack = stack\<rparr>)\<rparr>)) in
             s3\<lparr>core := Thread_Fork ?t (core s3)\<rparr>)"
      by (auto simp: Fork_rest_def bindE_eq_Inr Let_def)
    have "forked ?t pr s s'"
      using f t unfolding forked_def same_tables_def
      by (simp add: curSpace_new c [unfolded s1] arr_get_Inr arr_set_Inr s1 Let_def release_def ret_def)
    with forked show ?thesis by blast
  qed
qed

definition execed :: "tid \<Rightarrow> nat \<Rightarrow> usys \<Rightarrow> usys \<Rightarrow> bool" where
  "execed t x s s' \<longleftrightarrow> in_range (numProcesses s + 1) (processTable s) \<and>
     in_range (numProcesses s + 1) (processLock s) \<and> numProcesses s' = numProcesses s + 1 \<and>
     core s' = Thread_Fork t (Lock_Release execLock (Thread_new t (core s))) \<and> same_tables s s' \<and>
     processTable s' = (processTable s)[nat (numProcesses s + 1) := Some (constructProcess (numProcesses s + 1) (numProcesses s + 1))] \<and>
     processLock s' = (processLock s)[nat (numProcesses s + 1) := Some x] \<and> length (processCV s') = length (processCV s) \<and>
     spaceOf s' = (spaceOf s)(t := numProcesses s + 1) \<and>
     liveObjs s' = insert x (liveObjs s) \<and> usedObjs s' = insert x (usedObjs s)"

lemma Exec_rest_cases:
  assumes r: "Exec_rest a vaddr len s = Inr s'" and P: "pristine s" and x: "newObj a \<notin> usedObjs s"
  obtains (failed) m where "s' = release execLock (ret (-1) (s\<lparr>mem := m\<rparr>))"
  | (execed) "execed (newThread a) (newObj a) s s'"
proof -
  let ?t = "newThread a" and ?x = "newObj a" and ?n = "numProcesses s + 1"
  have l: "\<not> len < -1" using r by (auto simp: Exec_rest_def split: if_splits)
  show ?thesis
  proof (cases "vaddr < 0 \<or> vaddr mod 4 \<noteq> 0")
    case True
    with r l have "s' = release execLock (ret (-1) (s\<lparr>mem := mem s\<rparr>))" by (auto simp: Exec_rest_def)
    with failed show ?thesis by blast
  next
    case False
    note v = False
    from r v l obtain b s1 where b: "copy_name (of_int vaddr) len s = Inr (b, s1)"
      by (auto simp: Exec_rest_def bindE_eq_Inr)
    then obtain m where s1: "s1 = s\<lparr>mem := m\<rparr>" using copy_name_cases by blast
    show ?thesis
    proof (cases "b = None \<or> (\<exists>bs. b = Some bs \<and> diskFiles s1 (cstring bs) = None)")
      case True
      with r b v l have "s' = release execLock (ret (-1) s1)"
        by (auto simp: Exec_rest_def split: option.splits)
      with failed s1 show ?thesis by blast
    next
      case False
      then obtain bs f where bs: "b = Some bs" "diskFiles s1 (cstring bs) = Some f" by auto
      let ?s2 = "\<lambda>pt. s1\<lparr>numProcesses := ?n, core := Thread_new ?t (core s1),
                     mem := (mem s1)\<lparr>pageTables := (pageTables (mem s1))(?n := pt),
                                      executables := (executables (mem s1))(?n := f)\<rparr>,
                     spaceOf := (spaceOf s1)(?t := ?n), mailbox := (mailbox s1)(?t := mailboxCount s1),
                     mailboxCount := mailboxCount s1 + 1\<rparr>"
      let ?s3 = "\<lambda>pt pr pl pc. (?s2 pt)\<lparr>processTable := pr, processLock := pl, processCV := pc,
                     core := (core (?s2 pt))\<lparr>locks := (locks (core (?s2 pt)))(?x := Lock_new),
                                       conds := (conds (core (?s2 pt)))(?x := Condition_new)\<rparr>,
                     liveObjs := insert ?x (liveObjs (?s2 pt)), usedObjs := insert ?x (usedObjs (?s2 pt))\<rparr>"
      have n1: "numProcesses s1 + 1 = ?n" by (simp add: s1)
      from r b bs v l obtain pt pr pl pc c where f: "AddrSpace_new (stale a) f = Inr pt"
        "arr_set (processTable s) ?n (Some (constructProcess ?n ?n)) = Inr pr"
        "arr_set (processLock s) ?n (Some ?x) = Inr pl" "arr_set (processCV s) ?n (Some ?x) = Inr pc"
        "Lock_Acquire ?x (core (?s3 pt pr pl pc)) = Inr c"
        "s' = (let s4 = release execLock (release ?x ((?s3 pt pr pl pc)\<lparr>core := c\<rparr>)) in
               ret ?n (s4\<lparr>core := Thread_Fork ?t (core s4)\<rparr>))"
        by (auto simp: Exec_rest_def bindE_eq_Inr Let_def s1)
      have p: "locks (core s) ?x = Lock_new" "conds (core s) ?x = Condition_new" using P x by (simp_all add: pristine_def)
      then have i: "(locks (core s))(?x := Lock_new) = locks (core s)" "(conds (core s))(?x := Condition_new) = conds (core s)"
        by auto
      have co: "core (?s3 pt pr pl pc) = Thread_new ?t (core s)" by (simp add: s1 Thread_new_def i)
      have "Lock_Release ?x c = Thread_new ?t (core s)"
        using new_lock_roundtrip [of "Thread_new ?t (core s)" ?x] f(5) p(1) unfolding co by (auto simp: Thread_new_def)
      then have "execed ?t ?x s s'"
        using f(2-4,6) unfolding execed_def same_tables_def
        by (simp add: arr_set_Inr s1 Let_def release_def ret_def)
      with execed show ?thesis by blast
    qed
  qed
qed

end
