(* ===== verification/Nachos_Exit.thy ===== *)
theory Nachos_Exit
  imports Nachos_Processes
begin

text \<open>
  \<open>Exit\<close> and the invariant of the whole system (\<open>uinv\<close>): the tables are consistent, objects that were
  never allocated are as new, and the synchronization part is a reachable state of \<open>Nachos_Synch\<close>.
\<close>

section \<open>Exit\<close>

lemma finish_release:
  assumes "finish_thread (release l s) = Inr s'" "at_user s"
  shows "s' = s\<lparr>core := core s'\<rparr>" "cruns [DoRelease l, DoFinish] (core s) (core s')"
proof -
  from assms(1) obtain c where c: "Thread_Finish (Lock_Release l (core s)) = Inr c" "s' = (release l s)\<lparr>core := c\<rparr>"
    by (auto simp: finish_thread_def bindE_eq_Inr)
  show "s' = s\<lparr>core := core s'\<rparr>" using c(2) by (simp add: release_def)
  have u: "\<not> idling (core s)" "frames (core s) (currentThread (core s)) = []"
    using assms(2) by (simp_all add: at_user_def curT_def)
  have "cruns [DoFinish] (Lock_Release l (core s)) (core s')"
    by (rule cruns_Cons [OF _ _ _ _ cruns_Nil]) (use u c in \<open>simp_all add: Release_same\<close>)
  then show "cruns [DoRelease l, DoFinish] (core s) (core s')" by (rule cruns_release [OF u])
qed

lemma finish_release2:
  assumes "finish_thread (release k (release l s)) = Inr s'" "at_user s"
  shows "s' = s\<lparr>core := core s'\<rparr>" "cruns [DoRelease l, DoRelease k, DoFinish] (core s) (core s')"
proof -
  have a: "at_user (release l s)" using assms(2) by (simp add: at_user_def curT_def Release_same)
  note f = finish_release [OF assms(1) a]
  show "s' = s\<lparr>core := core s'\<rparr>" using f(1) by (metis release_def usys.update_convs(1) usys.surjective usys.select_convs(1))
  show "cruns [DoRelease l, DoRelease k, DoFinish] (core s) (core s')"
    by (rule cruns_release) (use assms(2) f(2) in \<open>simp_all add: at_user_def curT_def\<close>)
qed

text \<open>What \<open>Exit\<close> does to the state besides the synchronization part, in its two variants.\<close>

lemma Exit_rest_first:
  assumes "Exit_rest s = Inr s'" "curSpace s = 0" "at_user s"
  shows "s' = s\<lparr>core := core s', numProcessesExited := numProcessesExited s + 1\<rparr>"
    "cruns [DoRelease execLock, DoFinish] (core s) (core s')"
proof -
  let ?s1 = "s\<lparr>numProcessesExited := numProcessesExited s + 1\<rparr>"
  have f: "finish_thread (release execLock ?s1) = Inr s'"
    using assms(1,2) by (auto simp: Exit_rest_def process_exited_def Let_def split: if_splits)
  have a: "at_user ?s1" using assms(3) by (simp add: at_user_def curT_def)
  note R = finish_release [OF f a]
  show "s' = s\<lparr>core := core s', numProcessesExited := numProcessesExited s + 1\<rparr>" by (subst R(1)) simp
  show "cruns [DoRelease execLock, DoFinish] (core s) (core s')" using R(2) by simp
qed

lemma Exit_locked_cases:
  assumes r: "Exit_locked i s = Inr s'" and u: "at_user s"
  obtains pr l where "in_range i (processTable s)" "processTable s ! nat i = Some pr"
    "in_range i (processLock s)" "processLock s ! nat i = Some l"
    "s' = s\<lparr>core := core s', processTable := (processTable s)[nat i := Some (pr\<lparr>threadCount := threadCount pr - 1\<rparr>)],
            numProcessesExited := numProcessesExited s + (if threadCount pr = 1 then 1 else 0)\<rparr>"
    "cruns [DoRelease l, DoRelease execLock, DoFinish] (core s) (core s')"
proof -
  from r obtain l pr where p: "arr_get (processLock s) i = Inr (Some l)" "arr_get (processTable s) i = Inr (Some pr)"
    by (auto simp: Exit_locked_def bindE_eq_Inr)
  let ?s1 = "s\<lparr>processTable := (processTable s)[nat i := Some (pr\<lparr>threadCount := threadCount pr - 1\<rparr>)]\<rparr>"
  let ?s2 = "?s1\<lparr>numProcessesExited := numProcessesExited s + (if threadCount pr = 1 then 1 else 0)\<rparr>"
  have e: "?s1\<lparr>numProcessesExited := numProcessesExited s\<rparr> = ?s1" by simp
  have f: "finish_thread (release execLock (release l ?s2)) = Inr s'"
  proof (cases "threadCount pr = 1")
    case True
    with r p show ?thesis
      by (auto simp: Exit_locked_def bindE_eq_Inr arr_set_Inr process_exited_def Let_def split: if_splits)
  next
    case False
    with r p e show ?thesis by (auto simp: Exit_locked_def bindE_eq_Inr arr_set_Inr Let_def)
  qed
  have a: "at_user ?s2" using u by (simp add: at_user_def curT_def)
  note R = finish_release2 [OF f a]
  have "s' = s\<lparr>core := core s', processTable := (processTable s)[nat i := Some (pr\<lparr>threadCount := threadCount pr - 1\<rparr>)],
            numProcessesExited := numProcessesExited s + (if threadCount pr = 1 then 1 else 0)\<rparr>" by (subst R(1)) simp
  moreover have "cruns [DoRelease l, DoRelease execLock, DoFinish] (core s) (core s')" using R(2) by simp
  moreover have "in_range i (processTable s)" "processTable s ! nat i = Some pr"
    "in_range i (processLock s)" "processLock s ! nat i = Some l" using p by (simp_all add: arr_get_Inr)
  ultimately show ?thesis by (intro that)
qed

section \<open>The invariant of the system\<close>

definition uinv :: "usys \<Rightarrow> bool" where
  "uinv s \<longleftrightarrow> tab_inv s \<and> pristine s \<and> reach (core s)"

lemma pristine_step:
  assumes "pristine s" "unchanged (usedObjs s) (core s) (core s')" "usedObjs s \<subseteq> usedObjs s'"
  shows "pristine s'"
  using assms unfolding pristine_def unchanged_def by (metis subsetD)

lemma effect_uinv:
  assumes "uinv s" "effect s s'" "at_user s"
  shows "uinv s' \<and> csteps (core s) (core s')"
proof -
  from assms(1) have I: "tab_inv s" "pristine s" "reach (core s)" by (simp_all add: uinv_def)
  from assms(2) have e: "tab_inv s'" "usedObjs s \<subseteq> usedObjs s'" "core_op s s'" by (simp_all add: effect_def)
  obtain as where as: "cruns as (core s) (core s')" "\<forall>a\<in>set as. quiet_op a \<and> objs a \<subseteq> usedObjs s"
    using core_op_cruns [OF e(3) assms(3)] by blast
  note st = cruns_csteps [OF as(1)]
  have "pristine s'" by (rule pristine_step [OF I(2) cruns_unchanged [OF as(1)] e(2)]) (use as(2) in blast)
  then show ?thesis using e csteps_reach [OF st I(3)] st by (simp add: uinv_def)
qed

lemma cruns_uinv:
  assumes "uinv s" "tab_inv s'" "cruns as (core s) (core s')" "\<And>a. a \<in> set as \<Longrightarrow> objs a \<subseteq> usedObjs s"
    "usedObjs s \<subseteq> usedObjs s'"
  shows "uinv s' \<and> csteps (core s) (core s')"
proof -
  from assms(1) have I: "tab_inv s" "pristine s" "reach (core s)" by (simp_all add: uinv_def)
  note st = cruns_csteps [OF assms(3)]
  have "pristine s'" by (rule pristine_step [OF I(2) cruns_unchanged [OF assms(3,4)] assms(5)])
  then show ?thesis using assms(2) csteps_reach [OF st I(3)] st by (simp add: uinv_def)
qed

lemma slot_cong:
  assumes "lockTable s' = lockTable s" "conditionTable s' = conditionTable s" "processLock s' = processLock s"
  shows "slot_obj k s' = slot_obj k s" "slot_dead k s' = slot_dead k s"
  using assms by (cases k; simp)+

lemma do_rest_uinv:
  assumes U: "uinv s" and u: "at_user s" and f: "fresh a s" and r: "do_rest a rs s = Inr s'"
  shows "uinv s' \<and> csteps (core s) (core s')"
proof -
  from U have T: "tab_inv s" and P: "pristine s" and R: "reach (core s)" by (simp_all add: uinv_def)
  note I = reach_inv [OF R]
  have K: "kernel_inv (core s) (waitq (core s))" using I by (simp add: sync_inv_def)
  have id: "\<not> idling (core s)" "frames (core s) (currentThread (core s)) = []"
    using u by (simp_all add: at_user_def curT_def)
  have fr: "newObj a \<notin> usedObjs s" "newThread a \<notin> threads (core s)" using f by (simp_all add: fresh_def)
  have ne: "newThread a \<noteq> curT s" using fr(2) kernel_inv_current(5) [OF K id(1)] by (auto simp: curT_def)
  show ?thesis
  proof (cases rs)
    case CreateConditionRest
    with r effect_uinv [OF U CreateCondition_rest_effect [OF T P fr(1)] u] show ?thesis by simp
  next
    case (ForkRest v n l)
    with r have r': "Fork_rest a v n l s = Inr s'" by simp
    show ?thesis
    proof (cases rule: Fork_rest_cases [OF r' ne, case_names failed forked])
      case (failed m)
      have "effect (s\<lparr>mem := m\<rparr>) s'" unfolding failed
        by (rule release_effect) (use T globals_used [OF T globals(1)] in simp_all)
      then show ?thesis using effect_uinv [OF U _ u] by (simp add: effect_mem)
    next
      case (forked pr)
      then have c: "core s' = Thread_Fork (newThread a) (Lock_Release forkLock (Thread_new (newThread a) (core s)))"
        and t: "lockTable s' = lockTable s" "conditionTable s' = conditionTable s" "processLock s' = processLock s"
          "processCV s' = processCV s" "liveObjs s' = liveObjs s" "usedObjs s' = usedObjs s"
          "length (processTable s') = length (processTable s)"
        by (auto simp: forked_def same_tables_def)
      have "tab_inv s'"
        by (rule tab_inv_same [OF T _ slot_cong [OF t(1-3)] t(5,6)])
          (use t tab_invD(1) [OF T] in \<open>simp add: sizes_ok_def\<close>)
      then show ?thesis
        by (rule cruns_uinv [OF U _ cruns_fork [OF I id fr(2), of forkLock, folded c]])
          (use globals_used [OF T globals(1)] t in auto)
    qed
  next
    case (ExecRest v l)
    with r have r': "Exec_rest a v l s = Inr s'" by simp
    show ?thesis
    proof (cases rule: Exec_rest_cases [OF r' P fr(1), case_names failed execed])
      case (failed m)
      have "effect (s\<lparr>mem := m\<rparr>) s'" unfolding failed
        by (rule release_effect) (use T globals_used [OF T globals(2)] in simp_all)
      then show ?thesis using effect_uinv [OF U _ u] by (simp add: effect_mem)
    next
      case execed
      note e = execed [unfolded execed_def same_tables_def]
      have c: "core s' = Thread_Fork (newThread a) (Lock_Release execLock (Thread_new (newThread a) (core s)))"
        using e by blast
      have i: "nat (numProcesses s + 1) < 5" using e tab_invD(1) [OF T] by (auto simp: in_range_def sizes_ok_def)
      have sz: "sizes_ok s'" using e tab_invD(1) [OF T] by (simp add: sizes_ok_def)
      have "tab_inv s'" by (rule proc_entry_new [OF T i fr(1)]) (use e sz in simp_all)
      then show ?thesis
        by (rule cruns_uinv [OF U _ cruns_fork [OF I id fr(2), of execLock, folded c]])
          (use globals_used [OF T globals(2)] e in auto)
    qed
  next
    case ExitRest
    with r have r': "Exit_rest s = Inr s'" by simp
    show ?thesis
    proof (cases "curSpace s = 0")
      case True
      note E = Exit_rest_first [OF r' True u]
      have t: "lockTable s' = lockTable s" "conditionTable s' = conditionTable s" "processLock s' = processLock s"
          "processCV s' = processCV s" "liveObjs s' = liveObjs s" "usedObjs s' = usedObjs s"
          "processTable s' = processTable s"
        by (subst E(1), simp)+
      have "tab_inv s'"
        by (rule tab_inv_same [OF T _ slot_cong [OF t(1-3)] t(5,6)])
          (use t tab_invD(1) [OF T] in \<open>simp add: sizes_ok_def\<close>)
      then show ?thesis
        by (rule cruns_uinv [OF U _ E(2)]) (use globals_used [OF T globals(2)] t in auto)
    next
      case False
      with r' obtain l where l: "arr_get (processLock s) (curSpace s) = Inr (Some l)"
        "acquire_then l (ExitLocked (curSpace s)) s = Inr s'"
        by (auto simp: Exit_rest_def bindE_eq_Inr)
      then have "slot_obj (PSlot (nat (curSpace s))) s = Some l" by (auto simp: arr_get_Inr in_range_def)
      from acquire_then_effect [OF T tab_invD(3) [OF T this] _ l(2)] False show ?thesis
      by (intro effect_uinv [OF U _ u]) simp
    qed
  next
    case (ExitLocked i)
    with r have r': "Exit_locked i s = Inr s'" by simp
    obtain pr l where E: "in_range i (processTable s)" "processTable s ! nat i = Some pr"
      "in_range i (processLock s)" "processLock s ! nat i = Some l"
      "s' = s\<lparr>core := core s', processTable := (processTable s)[nat i := Some (pr\<lparr>threadCount := threadCount pr - 1\<rparr>)],
            numProcessesExited := numProcessesExited s + (if threadCount pr = 1 then 1 else 0)\<rparr>"
      "cruns [DoRelease l, DoRelease execLock, DoFinish] (core s) (core s')"
      by (rule Exit_locked_cases [OF r' u])
    have t: "lockTable s' = lockTable s" "conditionTable s' = conditionTable s" "processLock s' = processLock s"
          "processCV s' = processCV s" "liveObjs s' = liveObjs s" "usedObjs s' = usedObjs s"
          "length (processTable s') = length (processTable s)"
      by (subst E(5), simp)+
    have "slot_obj (PSlot (nat i)) s = Some l" using E(3,4) by (auto simp: in_range_def)
    note lu = tab_invD(3) [OF T this]
    have "tab_inv s'"
      by (rule tab_inv_same [OF T _ slot_cong [OF t(1-3)] t(5,6)])
        (use t tab_invD(1) [OF T] in \<open>simp add: sizes_ok_def\<close>)
    then show ?thesis
      by (rule cruns_uinv [OF U _ E(6)]) (use lu globals_used [OF T globals(2)] t in auto)
  qed
qed

lemma core_step_uinv:
  assumes "uinv s" "step a (core s) c" "a = None \<or> a = Some DoYield" "a = None \<Longrightarrow> \<not> dangling s"
  shows "uinv (s\<lparr>core := c\<rparr>) \<and> csteps (core s) c"
proof -
  from assms(1) have T: "tab_inv s" "pristine s" "reach (core s)" by (simp_all add: uinv_def)
  have "unchanged (usedObjs s) (core s) c"
    using assms(2)
  proof (cases rule: step.cases)
    case (step_op b)
    then have b: "b = DoYield" using assms(3) by simp
    from unchanged_mono [OF exec_unchanged [OF step_op(5) [unfolded b]]] show ?thesis by simp
  next
    case step_resume
    show ?thesis
    proof (rule resume_unchanged [OF step_resume(4)])
      fix l fs assume "frames (core s) (currentThread (core s)) = WaitReacquire l # fs"
      then have "l \<in> liveObjs s" using assms(4) step_resume(1) by (auto simp: dangling_def curT_def)
      then show "l \<in> usedObjs s" using tab_invD(2) [OF T(1)] by blast
    qed
  next
    case (step_irq m)
    then show ?thesis by (simp add: V_unchanged)
  next
    case step_idle
    then show ?thesis using Sleep_loop_locals(2,3) by (intro unchangedI) auto
  qed
  then have "pristine (s\<lparr>core := c\<rparr>)" by (intro pristine_step [OF T(2)]) simp_all
  then show ?thesis using T reach_step [OF T(3) assms(2)] csteps_one [OF assms(2)] by (simp add: uinv_def)
qed

lemma pop_rest_simps [simp]:
  "core (pop_rest s) = core s" "usedObjs (pop_rest s) = usedObjs s" "curT (pop_rest s) = curT s"
  "liveObjs (pop_rest s) = liveObjs s" "at_user (pop_rest s) = at_user s" "fresh a (pop_rest s) = fresh a s"
  "curSpace (pop_rest s) = curSpace s" "spaceOf (pop_rest s) = spaceOf s" "processTable (pop_rest s) = processTable s"
  "numProcesses (pop_rest s) = numProcesses s" "numProcessesExited (pop_rest s) = numProcessesExited s"
  "processLock (pop_rest s) = processLock s" "lockTable (pop_rest s) = lockTable s"
  "conditionTable (pop_rest s) = conditionTable s"
  by (simp_all add: pop_rest_def at_user_def curT_def fresh_def curSpace_def)

lemma uinv_pop_rest [simp]: "uinv (pop_rest s) = uinv s"
  by (simp add: uinv_def pristine_def)

lemma ustep_uinv:
  assumes "ustep c s s'" "uinv s"
  shows "uinv s' \<and> csteps (core s) (core s')"
  using assms(1)
proof (cases rule: ustep.cases)
  case (u_call a b)
  from assms(2) have T: "tab_inv s" "pristine s" by (simp_all add: uinv_def)
  have "effect s s'" by (rule do_syscall_effect [OF T _ u_call(5)]) (use u_call(4) in \<open>simp add: fresh_def\<close>)
  then show ?thesis by (rule effect_uinv [OF assms(2) _ u_call(2)])
next
  case (u_rest r a)
  have "uinv s' \<and> csteps (core (pop_rest s)) (core s')"
    by (rule do_rest_uinv [OF _ _ _ u_rest(5)]) (use assms(2) u_rest in simp_all)
  then show ?thesis by simp
next
  case (u_core d)
  with core_step_uinv [OF assms(2) u_core(4)] show ?thesis by simp
next
  case (u_slice d)
  with core_step_uinv [OF assms(2) u_slice(3)] show ?thesis by simp
qed

lemma uinit_inv:
  assumes "usys_init s"
  shows "uinv s"
proof -
  have sz: "sizes_ok s" using assms by (simp add: usys_init_def sizes_ok_def)
  have o: "slot_obj k s = Some x \<Longrightarrow> k = GSlot x \<and> x < 3" for k x
    using assms by (cases k) (auto simp: usys_init_def split: if_splits)
  have d: "\<not> slot_dead (GSlot x) s" for x by simp
  have l: "liveObjs s = {0, 1, 2}" "usedObjs s = {0, 1, 2}" using assms by (simp_all add: usys_init_def)
  have "x \<in> {0, 1, 2} \<longleftrightarrow> x < (3 :: nat)" for x by auto
  then have "tab_inv s" unfolding tab_inv_def using sz l o d by (metis order_refl)
  moreover have "pristine s" using assms by (auto simp: usys_init_def pristine_def sys_init_def)
  moreover have "reach (core s)" using assms by (auto simp: usys_init_def intro: reach_init)
  ultimately show ?thesis by (simp add: uinv_def)
qed

lemma ureach_uinv: "ureach s \<Longrightarrow> uinv s"
  by (induction rule: ureach.induct) (auto intro: uinit_inv dest: ustep_uinv)

end
