(* ===== verification/Nachos_Accounting.thy ===== *)
theory Nachos_Accounting
  imports Nachos_Exit
begin

text \<open>
  The counters of \<open>Exec\<close>, \<open>Fork\<close> and \<open>Exit\<close> against the threads that exist (\<open>acc\<close>), and the properties
  of the system calls.
\<close>

section \<open>The invariant of the counters\<close>

definition members :: "int \<Rightarrow> usys \<Rightarrow> tid set" where
  "members p s = {t \<in> active (core s). spaceOf s t = p}"

text \<open>
  A process other than the first counts its threads; the first has one and no table entry; the
  number of processes that exited, less one, is that of the processes without a thread.
\<close>

definition acc :: "usys \<Rightarrow> bool" where
  "acc s \<longleftrightarrow> finite (active (core s)) \<and> 0 \<le> numProcesses s \<and> numProcesses s \<le> 4 \<and>
     (\<forall>t\<in>active (core s). 0 \<le> spaceOf s t \<and> spaceOf s t \<le> numProcesses s) \<and>
     processTable s ! 0 = None \<and> card (members 0 s) \<le> 1 \<and>
     (\<forall>p. 1 \<le> p \<and> p \<le> numProcesses s \<longrightarrow> (\<exists>pr l. processTable s ! nat p = Some pr \<and>
        threadCount pr = int (card (members p s)) \<and> processLock s ! nat p = Some l)) \<and>
     numProcessesExited s = int (card {p \<in> {0..numProcesses s}. members p s = {}}) - 1 \<and>
     (\<forall>t. pendingRest s t \<noteq> None \<longrightarrow> t \<in> active (core s)) \<and>
     (\<forall>t i. pendingRest s t = Some (ExitLocked i) \<longrightarrow> i = spaceOf s t \<and> i \<noteq> 0)"

lemma accD:
  assumes "acc s"
  shows "finite (active (core s))" "0 \<le> numProcesses s" "numProcesses s \<le> 4"
    "t \<in> active (core s) \<Longrightarrow> 0 \<le> spaceOf s t \<and> spaceOf s t \<le> numProcesses s"
    "processTable s ! 0 = None" "card (members 0 s) \<le> 1"
    "1 \<le> p \<Longrightarrow> p \<le> numProcesses s \<Longrightarrow> \<exists>pr l. processTable s ! nat p = Some pr \<and>
        threadCount pr = int (card (members p s)) \<and> processLock s ! nat p = Some l"
    "numProcessesExited s = int (card {p \<in> {0..numProcesses s}. members p s = {}}) - 1"
    "pendingRest s t \<noteq> None \<Longrightarrow> t \<in> active (core s)"
    "pendingRest s t = Some (ExitLocked i) \<Longrightarrow> i = spaceOf s t \<and> i \<noteq> 0"
  using assms unfolding acc_def by blast+

lemma members_finite: "acc s \<Longrightarrow> finite (members p s)"
  using accD(1) by (simp add: members_def)

lemma current_active:
  assumes "uinv s" "\<not> idling (core s)"
  shows "curT s \<in> active (core s)"
proof -
  from assms(1) have K: "kernel_inv (core s) (waitq (core s))" using reach_inv by (simp add: uinv_def sync_inv_def)
  show ?thesis using kernel_inv_current(3,5) [OF K assms(2)] by (simp add: active_def curT_def)
qed

lemma acc_cong:
  assumes A: "acc s" and a: "active (core s') = active (core s)" and e: "same_acc s s'" and q: "pend s s'"
    and c: "curT s \<in> active (core s)"
  shows "acc s'"
proof -
  have m: "members p s' = members p s" for p using a e by (simp add: members_def same_acc_def)
  note D = accD [OF A]
  have "t \<in> active (core s')" if "pendingRest s' t \<noteq> None" for t
  proof -
    from q consider "pendingRest s' t = pendingRest s t" | "t = curT s" unfolding pend_def by metis
    then show ?thesis using that D(9) a c by cases auto
  qed
  moreover have "i = spaceOf s' t \<and> i \<noteq> 0" if "pendingRest s' t = Some (ExitLocked i)" for t i
  proof -
    from q consider "pendingRest s' t = pendingRest s t"
      | "t = curT s" "pendingRest s' t = Some (ExitLocked i) \<longrightarrow> i = curSpace s \<and> i \<noteq> 0" unfolding pend_def by metis
    then show ?thesis using that D(10) [of t i] e by cases (auto simp: same_acc_def curSpace_def)
  qed
  ultimately show ?thesis using A e unfolding acc_def m a same_acc_def by simp
qed

section \<open>Threads come and go\<close>

lemma fork_active:
  assumes "t \<notin> threads c"
  shows "active (Thread_Fork t (Lock_Release l (Thread_new t c))) = insert t (active c)"
  using assms
  by (auto simp: active_def Thread_Fork_def ReadyToRun_def Release_threads Release_same Thread_new_def split: if_splits)

lemma cruns_finish:
  assumes "cruns (map DoRelease ls @ [DoFinish]) c c'" "reach c"
  shows "active c' = active c - {currentThread c}"
  using assms
proof (induction ls arbitrary: c)
  case Nil
  then have "\<not> idling c" "exec DoFinish c = Some (Inr c')" by (auto elim!: cruns_ConsE cruns_NilE)
  from exec_active [OF reach_inv [OF Nil(2)] this] show ?case by simp
next
  case (Cons l ls)
  from Cons.prems(1) have s: "\<not> idling c" "frames c (currentThread c) = []"
    and r: "cruns (map DoRelease ls @ [DoFinish]) (Lock_Release l c) c'" by (auto elim!: cruns_ConsE)
  have "reach (Lock_Release l c)" by (rule reach_step [OF Cons.prems(2) step_op [where a = "DoRelease l", OF s]]) simp_all
  from Cons.IH [OF r this] show ?case by (simp add: Release_active Release_same)
qed

lemma members_fork:
  assumes "active (core s') = insert t (active (core s))" "spaceOf s' = (spaceOf s)(t := p)" "t \<notin> active (core s)"
  shows "members q s' = (if q = p then insert t (members q s) else members q s)"
  using assms by (auto simp: members_def)

lemma acc_forked:
  assumes A: "acc s" and U: "uinv s" and u: "at_user s" and t: "t \<notin> threads (core s)" and f: "forked t pr s s'"
  shows "acc s'"
proof -
  note D = accD [OF A]
  let ?p = "curSpace s"
  have na: "t \<notin> active (core s)" using t by (simp add: active_def)
  have a: "active (core s') = insert t (active (core s))" using f fork_active [OF t] by (simp add: forked_def)
  have c: "curT s \<in> active (core s)" using current_active [OF U] u by (simp add: at_user_def)
  note f' = f [unfolded forked_def same_tables_def]
  have sp: "spaceOf s' = (spaceOf s)(t := ?p)" using f' by simp
  note m = members_fork [OF a sp na]
  have cm: "curT s \<in> members ?p s" using c by (simp add: members_def curSpace_def)
  have p: "0 \<le> ?p" "?p \<le> numProcesses s" using D(4) [OF c] by (simp_all add: curSpace_def)
  have p0: "?p \<noteq> 0" using f' D(5) by auto
  have e: "{q \<in> {0..numProcesses s}. members q s' = {}} = {q \<in> {0..numProcesses s}. members q s = {}}"
    using m cm by auto
  have len: "nat ?p < length (processTable s)" using f' by (auto simp: in_range_def)
  have tab: "\<exists>pr l. processTable s' ! nat q = Some pr \<and> threadCount pr = int (card (members q s')) \<and> processLock s' ! nat q = Some l"
    if q: "1 \<le> q" "q \<le> numProcesses s" for q
  proof (cases "q = ?p")
    case True
    have "t \<notin> members ?p s" using na by (simp add: members_def)
    then have "card (members ?p s') = Suc (card (members ?p s))" using m members_finite [OF A] by simp
    then show ?thesis using D(7) [OF q] f' True len by auto
  next
    case False
    then have "nat q \<noteq> nat ?p" using q p by simp
    then show ?thesis using D(7) [OF q] f' m False by auto
  qed
  show ?thesis
    unfolding acc_def
  proof (intro conjI allI impI ballI)
    show "finite (active (core s'))" using a D(1) by simp
    show "0 \<le> numProcesses s'" "numProcesses s' \<le> 4" using f' D(2,3) by simp_all
    show "processTable s' ! 0 = None" using f' D(5) p0 p(1) by simp
    show "card (members 0 s') \<le> 1" using m p0 D(6) by simp
    show "numProcessesExited s' = int (card {p \<in> {0..numProcesses s'}. members p s' = {}}) - 1" using f' D(8) e by simp
  next
    fix q assume "1 \<le> q \<and> q \<le> numProcesses s'"
    then show "\<exists>pr l. processTable s' ! nat q = Some pr \<and> threadCount pr = int (card (members q s')) \<and> processLock s' ! nat q = Some l"
      using tab f' by simp
  next
    fix v assume "v \<in> active (core s')"
    then have "v = t \<or> v \<in> active (core s) \<and> v \<noteq> t" using a na by auto
    then show "0 \<le> spaceOf s' v" "spaceOf s' v \<le> numProcesses s'" using D(4) [of v] sp p f' by auto
  next
    fix v assume "pendingRest s' v \<noteq> None"
    then show "v \<in> active (core s')" using D(9) [of v] f' a by simp
  next
    fix v i assume "pendingRest s' v = Some (ExitLocked i)"
    then have q: "pendingRest s v = Some (ExitLocked i)" using f' by simp
    then have "v \<noteq> t" using D(9) [of v] na by auto
    then show "i = spaceOf s' v" "i \<noteq> 0" using D(10) [OF q] sp by simp_all
  qed
qed

lemma acc_execed:
  assumes A: "acc s" and U: "uinv s" and t: "t \<notin> threads (core s)" and f: "execed t x s s'"
  shows "acc s'"
proof -
  note D = accD [OF A]
  let ?n = "numProcesses s + 1"
  have na: "t \<notin> active (core s)" using t by (simp add: active_def)
  have a: "active (core s') = insert t (active (core s))" using f fork_active [OF t] by (simp add: execed_def)
  note f' = f [unfolded execed_def same_tables_def]
  have sp: "spaceOf s' = (spaceOf s)(t := ?n)" using f' by simp
  note m = members_fork [OF a sp na]
  have mn: "members ?n s = {}" using D(4) by (fastforce simp: members_def)
  have sz: "length (processTable s) = 5" using U by (simp add: uinv_def tab_inv_def sizes_ok_def)
  then have n4: "?n \<le> 4" using f' by (simp add: in_range_def)
  have len: "nat ?n < length (processTable s)" "nat ?n < length (processLock s)" using f' by (auto simp: in_range_def)
  have e: "{q \<in> {0..?n}. members q s' = {}} = {q \<in> {0..numProcesses s}. members q s = {}}"
  proof (rule set_eqI)
    fix q
    have "q \<in> {0..?n} \<longleftrightarrow> q = ?n \<or> q \<in> {0..numProcesses s}" using D(2) by auto
    moreover have "q \<in> {0..numProcesses s} \<Longrightarrow> q \<noteq> ?n" by auto
    ultimately show "q \<in> {q \<in> {0..?n}. members q s' = {}} \<longleftrightarrow> q \<in> {q \<in> {0..numProcesses s}. members q s = {}}"
      using m [of q] by auto
  qed
  have tab: "\<exists>pr l. processTable s' ! nat q = Some pr \<and> threadCount pr = int (card (members q s')) \<and> processLock s' ! nat q = Some l"
    if q: "1 \<le> q" "q \<le> ?n" for q
  proof (cases "q = ?n")
    case True
    have "card (members ?n s') = 1" using m [of ?n] mn by simp
    then show ?thesis using f' True len by (simp add: constructProcess_def)
  next
    case False
    then have "nat q \<noteq> nat ?n" "q \<le> numProcesses s" using q by simp_all
    then show ?thesis using D(7) [OF q(1)] f' m [of q] False by auto
  qed
  show ?thesis
    unfolding acc_def
  proof (intro conjI allI impI ballI)
    show "finite (active (core s'))" using a D(1) by simp
    show "0 \<le> numProcesses s'" "numProcesses s' \<le> 4" using f' D(2) n4 by simp_all
    show "processTable s' ! 0 = None" using f' D(2,5) by simp
    show "card (members 0 s') \<le> 1" using m [of 0] D(2,6) by simp
    show "numProcessesExited s' = int (card {p \<in> {0..numProcesses s'}. members p s' = {}}) - 1" using f' D(8) e by simp
  next
    fix q assume "1 \<le> q \<and> q \<le> numProcesses s'"
    then show "\<exists>pr l. processTable s' ! nat q = Some pr \<and> threadCount pr = int (card (members q s')) \<and> processLock s' ! nat q = Some l"
      using tab f' by simp
  next
    fix v assume "v \<in> active (core s')"
    then have "v = t \<or> v \<in> active (core s) \<and> v \<noteq> t" using a na by auto
    then show "0 \<le> spaceOf s' v" "spaceOf s' v \<le> numProcesses s'" using D(4) [of v] D(2) sp f' by auto
  next
    fix v assume "pendingRest s' v \<noteq> None"
    then show "v \<in> active (core s')" using D(9) [of v] f' a by simp
  next
    fix v i assume "pendingRest s' v = Some (ExitLocked i)"
    then have q: "pendingRest s v = Some (ExitLocked i)" using f' by simp
    then have "v \<noteq> t" using D(9) [of v] na by auto
    then show "i = spaceOf s' v" "i \<noteq> 0" using D(10) [OF q] sp by simp_all
  qed
qed

text \<open>The running thread of process \<open>p\<close> finishes.\<close>

lemma members_finish:
  assumes "active (core s') = active (core s) - {curT s}" "spaceOf s' = spaceOf s"
  shows "members q s' = members q s - (if q = curSpace s then {curT s} else {})"
  using assms by (auto simp: members_def curSpace_def)

lemma acc_finished:
  assumes A: "acc s" and c: "curT s \<in> active (core s)" and q: "pendingRest s (curT s) = None"
    and a: "active (core s') = active (core s) - {curT s}"
    and e: "spaceOf s' = spaceOf s" "pendingRest s' = pendingRest s" "processLock s' = processLock s"
      "numProcesses s' = numProcesses s"
      "numProcessesExited s' = numProcessesExited s + (if members (curSpace s) s = {curT s} then 1 else 0)"
      "processTable s' ! 0 = None"
    and tab: "\<And>p. 1 \<le> p \<Longrightarrow> p \<le> numProcesses s \<Longrightarrow>
       (\<exists>pr. processTable s' ! nat p = Some pr \<and> threadCount pr = int (card (members p s)) - (if p = curSpace s then 1 else 0))"
  shows "acc s'"
proof -
  note D = accD [OF A]
  note m = members_finish [OF a e(1)]
  let ?p = "curSpace s"
  have cm: "curT s \<in> members ?p s" using c by (simp add: members_def curSpace_def)
  have p: "?p \<in> {0..numProcesses s}" using D(4) [OF c] by (simp add: curSpace_def)
  let ?E = "{q \<in> {0..numProcesses s}. members q s = {}}"
  have E: "{q \<in> {0..numProcesses s}. members q s' = {}} = (if members ?p s = {curT s} then insert ?p ?E else ?E)"
    using m cm p by auto
  have "finite ?E" by (rule finite_subset [of _ "{0..numProcesses s}"]) auto
  moreover have "?p \<notin> ?E" using cm by auto
  ultimately have cE: "int (card {q \<in> {0..numProcesses s}. members q s' = {}}) =
      int (card ?E) + (if members ?p s = {curT s} then 1 else 0)" unfolding E by simp
  have cp: "int (card (members q s')) = int (card (members q s)) - (if q = ?p then 1 else 0)" for q
  proof (cases "q = ?p")
    case True
    have "card (members ?p s) > 0" using cm members_finite [OF A] card_gt_0_iff by blast
    then show ?thesis using True m cm by simp
  next
    case False
    then show ?thesis using m by simp
  qed
  show ?thesis
    unfolding acc_def
  proof (intro conjI allI impI ballI)
    show "finite (active (core s'))" using a D(1) by simp
    show "0 \<le> numProcesses s'" "numProcesses s' \<le> 4" using e D(2,3) by simp_all
    show "processTable s' ! 0 = None" by (rule e)
    show "card (members 0 s') \<le> 1" using D(6) cp [of 0] by (simp split: if_splits)
    show "numProcessesExited s' = int (card {p \<in> {0..numProcesses s'}. members p s' = {}}) - 1"
      using e(4,5) D(8) cE by simp
  next
    fix q assume q: "1 \<le> q \<and> q \<le> numProcesses s'"
    then have q1: "1 \<le> q" "q \<le> numProcesses s" using e(4) by simp_all
    obtain pr where "processTable s' ! nat q = Some pr"
      "threadCount pr = int (card (members q s)) - (if q = curSpace s then 1 else 0)" using tab [OF q1] by blast
    moreover obtain l where "processLock s' ! nat q = Some l" using D(7) [OF q1] e(3) by metis
    ultimately show "\<exists>pr l. processTable s' ! nat q = Some pr \<and> threadCount pr = int (card (members q s')) \<and> processLock s' ! nat q = Some l"
      unfolding cp by blast
  next
    fix v assume "v \<in> active (core s')"
    then have "v \<in> active (core s)" unfolding a by simp
    from D(4) [OF this] show "0 \<le> spaceOf s' v" "spaceOf s' v \<le> numProcesses s'" by (simp_all add: e(1,4))
  next
    fix v assume "pendingRest s' v \<noteq> None"
    then have v: "pendingRest s v \<noteq> None" by (simp add: e(2))
    then have "v \<noteq> curT s" using q by metis
    with D(9) [OF v] show "v \<in> active (core s')" unfolding a by simp
  next
    fix v i assume "pendingRest s' v = Some (ExitLocked i)"
    then have "pendingRest s v = Some (ExitLocked i)" by (simp add: e(2))
    from D(10) [OF this] show "i = spaceOf s' v" "i \<noteq> 0" by (simp_all add: e(1))
  qed
qed

end
