(* ===== verification/Nachos_SyscallThms.thy ===== *)
theory Nachos_SyscallThms
  imports Nachos_Accounting
begin

text \<open>
  The properties of the system calls: refinement of the synchronization model, the calls that can
  fail to return, exact process accounting, and the limits of the process table.
\<close>

section \<open>Every step keeps the counters\<close>

lemma quiet_active_after: "quiet_op a \<Longrightarrow> active_after a c = active c"
  by (cases a) simp_all

lemma core_op_active:
  assumes "core_op s s'" "at_user s" "uinv s"
  shows "active (core s') = active (core s)"
proof -
  have I: "sync_inv (core s)" using assms(3) reach_inv by (simp add: uinv_def)
  show ?thesis
    using assms(1,2) exec_active [OF I] quiet_active_after by (auto simp: core_op_def at_user_def)
qed

lemma effect_acc:
  assumes "acc s" "uinv s" "at_user s" "effect s s'"
  shows "acc s'"
proof -
  from assms(4) have e: "same_acc s s'" "pend s s'" "core_op s s'" by (simp_all add: effect_def)
  show ?thesis
    by (rule acc_cong [OF assms(1) core_op_active [OF e(3) assms(3,2)] e(1,2)])
      (use current_active [OF assms(2)] assms(3) in \<open>simp add: at_user_def\<close>)
qed

lemma acc_core:
  assumes "acc s" "active c = active (core s)"
  shows "acc (s\<lparr>core := c\<rparr>)"
  using assms unfolding acc_def members_def by simp

lemma acc_pop_rest:
  assumes "acc s"
  shows "acc (pop_rest s)"
proof -
  have m: "members p (pop_rest s) = members p s" for p by (simp add: members_def)
  have p: "pendingRest (pop_rest s) t = (if t = curT s then None else pendingRest s t)" for t by (simp add: pop_rest_def)
  show ?thesis using assms unfolding acc_def m p by simp
qed

lemma only_member:
  assumes "finite S" "card S \<le> 1" "x \<in> S"
  shows "S = {x}"
proof -
  have "card S \<noteq> 0" using assms by auto
  with assms(2) have "card S = 1" by simp
  then obtain y where "S = {y}" by (rule card_1_singletonE)
  with assms(3) show ?thesis by simp
qed

lemma Exit_first_acc:
  assumes A: "acc s" and U: "uinv s" and u: "at_user s" and q: "pendingRest s (curT s) = None"
    and z: "curSpace s = 0" and r: "Exit_rest s = Inr s'"
  shows "acc s'"
proof -
  note E = Exit_rest_first [OF r z u]
  have c: "curT s \<in> active (core s)" using current_active [OF U] u by (simp add: at_user_def)
  have a: "active (core s') = active (core s) - {curT s}"
    using cruns_finish [of "[execLock]" "core s" "core s'"] E(2) U by (simp add: uinv_def curT_def)
  have "curT s \<in> members 0 s" using c z by (simp add: members_def curSpace_def)
  then have "members 0 s = {curT s}"
    by (rule only_member [OF members_finite [OF A] accD(6) [OF A]])
  then have "numProcessesExited s' = numProcessesExited s + (if members (curSpace s) s = {curT s} then 1 else 0)"
    by (subst E(1)) (simp add: z)
  moreover have "processTable s' = processTable s" by (subst E(1)) simp
  moreover have "spaceOf s' = spaceOf s" "pendingRest s' = pendingRest s" "processLock s' = processLock s"
    "numProcesses s' = numProcesses s" by (subst E(1), simp)+
  ultimately show ?thesis
    using accD(5,7) [OF A] z by (intro acc_finished [OF A c q a]) fastforce+
qed

lemma Exit_locked_acc:
  assumes A: "acc s" and U: "uinv s" and u: "at_user s" and q: "pendingRest s (curT s) = None"
    and i: "i = curSpace s" "i \<noteq> 0" and r: "Exit_locked i s = Inr s'"
  shows "acc s'"
proof -
  obtain pr l where E: "in_range i (processTable s)" "processTable s ! nat i = Some pr"
      "in_range i (processLock s)" "processLock s ! nat i = Some l"
      "s' = s\<lparr>core := core s', processTable := (processTable s)[nat i := Some (pr\<lparr>threadCount := threadCount pr - 1\<rparr>)],
            numProcessesExited := numProcessesExited s + (if threadCount pr = 1 then 1 else 0)\<rparr>"
      "cruns [DoRelease l, DoRelease execLock, DoFinish] (core s) (core s')"
    by (rule Exit_locked_cases [OF r u])
  have c: "curT s \<in> active (core s)" using current_active [OF U] u by (simp add: at_user_def)
  have a: "active (core s') = active (core s) - {curT s}"
    using cruns_finish [of "[l, execLock]" "core s" "core s'"] E(6) U by (simp add: uinv_def curT_def)
  note D = accD [OF A]
  have ir: "1 \<le> i" "i \<le> numProcesses s" using D(4) [OF c] i by (simp_all add: curSpace_def)
  have tc: "threadCount pr = int (card (members i s))" using D(7) [OF ir] E(2) by auto
  have cm: "curT s \<in> members i s" using c i by (simp add: members_def curSpace_def)
  have one: "threadCount pr = 1 \<longleftrightarrow> members i s = {curT s}"
  proof
    assume "threadCount pr = 1"
    then have "card (members i s) = 1" using tc by simp
    with cm show "members i s = {curT s}" by (auto simp: card_1_singleton_iff)
  qed (use tc in simp)
  have e: "spaceOf s' = spaceOf s" "pendingRest s' = pendingRest s" "processLock s' = processLock s"
    "numProcesses s' = numProcesses s"
    "processTable s' = (processTable s)[nat i := Some (pr\<lparr>threadCount := threadCount pr - 1\<rparr>)]"
    "numProcessesExited s' = numProcessesExited s + (if threadCount pr = 1 then 1 else 0)"
    by (subst E(5), simp)+
  have len: "nat i < length (processTable s)" using E(1) by (auto simp: in_range_def)
  show ?thesis
  proof (rule acc_finished [OF A c q a e(1-4)])
    show "numProcessesExited s' = numProcessesExited s + (if members (curSpace s) s = {curT s} then 1 else 0)"
      using e(6) one i(1) by simp
    show "processTable s' ! 0 = None" using e(5) D(5) ir by simp
    fix p assume p: "1 \<le> p" "p \<le> numProcesses s"
    show "\<exists>pr. processTable s' ! nat p = Some pr \<and> threadCount pr = int (card (members p s)) - (if p = curSpace s then 1 else 0)"
    proof (cases "p = i")
      case True
      then show ?thesis using e(5) len tc i(1) by simp
    next
      case False
      then have "nat p \<noteq> nat i" using p ir by simp
      then show ?thesis using D(7) [OF p] e(5) False i(1) by auto
    qed
  qed
qed

lemma do_rest_acc:
  assumes A: "acc s" and U: "uinv s" and u: "at_user s" and f: "fresh a s" and q: "pendingRest s (curT s) = None"
    and l: "\<And>i. rs = ExitLocked i \<Longrightarrow> i = curSpace s \<and> i \<noteq> 0" and r: "do_rest a rs s = Inr s'"
  shows "acc s'"
proof -
  from U have T: "tab_inv s" and P: "pristine s" and R: "reach (core s)" by (simp_all add: uinv_def)
  have K: "kernel_inv (core s) (waitq (core s))" using reach_inv [OF R] by (simp add: sync_inv_def)
  have id: "\<not> idling (core s)" using u by (simp add: at_user_def)
  have fr: "newObj a \<notin> usedObjs s" "newThread a \<notin> threads (core s)" using f by (simp_all add: fresh_def)
  have ne: "newThread a \<noteq> curT s" using fr(2) kernel_inv_current(5) [OF K id] by (auto simp: curT_def)
  note eff = effect_acc [OF A U u]
  show ?thesis
  proof (cases rs)
    case CreateConditionRest
    with r eff [OF CreateCondition_rest_effect [OF T P fr(1)]] show ?thesis by simp
  next
    case (ForkRest v n l)
    with r have r': "Fork_rest a v n l s = Inr s'" by simp
    show ?thesis
    proof (cases rule: Fork_rest_cases [OF r' ne, case_names failed forked])
      case (failed m)
      have "effect (s\<lparr>mem := m\<rparr>) s'" unfolding failed
        by (rule release_effect) (use T globals_used [OF T globals(1)] in simp_all)
      then show ?thesis using eff by (simp add: effect_mem)
    next
      case (forked pr)
      then show ?thesis by (rule acc_forked [OF A U u fr(2)])
    qed
  next
    case (ExecRest v l)
    with r have r': "Exec_rest a v l s = Inr s'" by simp
    show ?thesis
    proof (cases rule: Exec_rest_cases [OF r' P fr(1), case_names failed execed])
      case (failed m)
      have "effect (s\<lparr>mem := m\<rparr>) s'" unfolding failed
        by (rule release_effect) (use T globals_used [OF T globals(2)] in simp_all)
      then show ?thesis using eff by (simp add: effect_mem)
    next
      case execed
      then show ?thesis by (rule acc_execed [OF A U fr(2)])
    qed
  next
    case ExitRest
    with r have r': "Exit_rest s = Inr s'" by simp
    show ?thesis
    proof (cases "curSpace s = 0")
      case True
      then show ?thesis by (rule Exit_first_acc [OF A U u q _ r'])
    next
      case False
      with r' obtain l where l: "arr_get (processLock s) (curSpace s) = Inr (Some l)"
        "acquire_then l (ExitLocked (curSpace s)) s = Inr s'"
        by (auto simp: Exit_rest_def bindE_eq_Inr)
      then have "slot_obj (PSlot (nat (curSpace s))) s = Some l" by (auto simp: arr_get_Inr in_range_def)
      from acquire_then_effect [OF T tab_invD(3) [OF T this] _ l(2)] False show ?thesis by (intro eff) simp
    qed
  next
    case (ExitLocked i)
    with r l show ?thesis by (intro Exit_locked_acc [OF A U u q]) simp_all
  qed
qed

lemma ustep_acc:
  assumes "ustep c s s'" "uinv s" "acc s"
  shows "acc s'"
  using assms(1)
proof (cases rule: ustep.cases)
  case (u_call a b)
  from assms(2) have T: "tab_inv s" "pristine s" by (simp_all add: uinv_def)
  have "effect s s'" by (rule do_syscall_effect [OF T _ u_call(5)]) (use u_call(4) in \<open>simp add: fresh_def\<close>)
  then show ?thesis by (rule effect_acc [OF assms(3,2) u_call(2)])
next
  case (u_rest r a)
  have q: "pendingRest (pop_rest s) (curT (pop_rest s)) = None" by (simp add: pop_rest_def curT_def)
  show ?thesis
    by (rule do_rest_acc [OF acc_pop_rest [OF assms(3)] _ _ _ q _ u_rest(5)])
      (use assms(2) u_rest accD(10) [OF assms(3), of "curT s"] in \<open>auto simp: curSpace_def\<close>)
next
  case (u_core d)
  have "active d = active (core s)"
    by (rule quiet_step_active [OF _ u_core(4)]) (use assms(2) reach_inv in \<open>auto simp: uinv_def\<close>)
  then show ?thesis using u_core acc_core [OF assms(3)] by simp
next
  case (u_slice d)
  have "active d = active (core s)"
    by (rule quiet_step_active [OF _ u_slice(3)]) (use assms(2) reach_inv in \<open>auto simp: uinv_def\<close>)
  then show ?thesis using u_slice acc_core [OF assms(3)] by simp
qed

lemma uinit_acc:
  assumes "usys_init s"
  shows "acc s"
proof -
  note i = assms [unfolded usys_init_def sys_init_def]
  have a: "active (core s) = {curT s}" using i by (auto simp: active_def curT_def)
  have m: "members p s = (if p = 0 then {curT s} else {})" for p using a i by (auto simp: members_def)
  show ?thesis unfolding acc_def m a using i by auto
qed

lemma ureach_acc: "ureach s \<Longrightarrow> acc s"
proof (induction rule: ureach.induct)
  case (ureach_step s c s')
  then show ?case using ustep_acc ureach_uinv by blast
qed (rule uinit_acc)

section \<open>Which calls can fail to return\<close>

lemma exec_total:
  assumes "uinv s" "at_user s" "exec a (core s) = Some r"
  shows "\<exists>c. r = Inr c"
proof -
  have "reach (core s)" using assms(1) by (simp add: uinv_def)
  from exec_ok [OF reach_inv [OF this] reach_fence [OF this] _ _ assms(3)] assms(2) show ?thesis
    by (simp add: at_user_def curT_def)
qed

lemma table_get:
  assumes "tab_inv s" "0 \<le> idx" "idx < 500"
  shows "arr_get (lockTable s) idx = Inr (lockTable s ! nat idx)"
    "arr_get (conditionTable s) idx = Inr (conditionTable s ! nat idx)"
    "arr_set (lockTable s) idx v = Inr ((lockTable s)[nat idx := v])"
    "arr_set (conditionTable s) idx w = Inr ((conditionTable s)[nat idx := w])"
  using tab_invD(1) [OF assms(1)] assms(2,3)
  by (simp_all add: arr_get_def arr_set_def in_range_def sizes_ok_def)

definition deleted_lock :: "int \<Rightarrow> usys \<Rightarrow> bool" where
  "deleted_lock idx s \<longleftrightarrow> 0 \<le> idx \<and> idx < 500 \<and> (\<exists>lx. lockTable s ! nat idx = Some lx \<and> lockDeleted lx)"

definition own_lock :: "int \<Rightarrow> usys \<Rightarrow> bool" where
  "own_lock idx s \<longleftrightarrow> (\<exists>lx. lockTable s ! nat idx = Some lx \<and> lockOwner lx = curSpace s)"

lemma lock_live:
  assumes "tab_inv s" "0 \<le> idx" "idx < 500" "lockTable s ! nat idx = Some lx"
  shows "live (lockObj lx) s = (if lockDeleted lx then Inl UseAfterFree else Inr ())"
proof -
  have "lockObj lx \<in> liveObjs s \<longleftrightarrow> \<not> lockDeleted lx"
    using lock_entry(4) [OF assms(1), of idx lx] table_get(1) [OF assms(1-3)] assms(2-4)
    by (simp add: MAX_LOCKS_def)
  then show ?thesis by (simp add: live_def)
qed

lemma cond_live:
  assumes "tab_inv s" "0 \<le> idx" "idx < 500" "conditionTable s ! nat idx = Some cx"
  shows "live (condObj cx) s = (if condDeleted cx then Inl UseAfterFree else Inr ())"
proof -
  have "condObj cx \<in> liveObjs s \<longleftrightarrow> \<not> condDeleted cx"
    using cond_entry(4) [OF assms(1), of idx cx] table_get(2) [OF assms(1-3)] assms(2-4)
    by (simp add: MAX_CONDITIONS_def)
  then show ?thesis by (simp add: live_def)
qed

lemma Acquire_Syscall_faults:
  assumes U: "uinv s" and u: "at_user s"
  shows "Acquire_Syscall idx s = Inl e \<longleftrightarrow> e = UseAfterFree \<and> deleted_lock idx s \<and> own_lock idx s"
proof -
  have T: "tab_inv s" using U by (simp add: uinv_def)
  show ?thesis
  proof (cases "0 \<le> idx \<and> idx < 500")
    case False
    then show ?thesis by (auto simp: Acquire_Syscall_def deleted_lock_def MAX_LOCKS_def)
  next
    case True
    note g = table_get [OF T] True
    show ?thesis
    proof (cases "lockTable s ! nat idx")
      case None
      with g show ?thesis by (simp add: Acquire_Syscall_def deleted_lock_def MAX_LOCKS_def)
    next
      case (Some lx)
      note lv = lock_live [OF T _ _ Some]
      obtain c where c: "Lock_Acquire (lockObj lx) (core s) = Inr c"
        using exec_total [OF U u, of "DoAcquire (lockObj lx)"] by auto
      show ?thesis using g Some lv c
        by (auto simp: Acquire_Syscall_def deleted_lock_def own_lock_def MAX_LOCKS_def)
    qed
  qed
qed

lemma Release_Syscall_faults:
  assumes T: "tab_inv s"
  shows "Release_Syscall idx s = Inl e \<longleftrightarrow> e = UseAfterFree \<and> deleted_lock idx s"
proof (cases "0 \<le> idx \<and> idx < 500")
  case False
  then show ?thesis by (auto simp: Release_Syscall_def deleted_lock_def MAX_LOCKS_def)
next
  case True
  note g = table_get [OF T] True
  show ?thesis
  proof (cases "lockTable s ! nat idx")
    case None
    with g show ?thesis by (simp add: Release_Syscall_def deleted_lock_def MAX_LOCKS_def)
  next
    case (Some lx)
    with g lock_live [OF T _ _ Some] show ?thesis
      by (auto simp: Release_Syscall_def deleted_lock_def MAX_LOCKS_def)
  qed
qed

lemma DestroyLock_Syscall_faults:
  assumes T: "tab_inv s"
  shows "DestroyLock_Syscall idx s = Inl e \<longleftrightarrow> e = UseAfterFree \<and> deleted_lock idx s \<and> own_lock idx s"
proof (cases "0 \<le> idx \<and> idx < 500")
  case False
  then show ?thesis by (auto simp: DestroyLock_Syscall_def deleted_lock_def MAX_LOCKS_def)
next
  case True
  note g = table_get [OF T] True
  show ?thesis
  proof (cases "lockTable s ! nat idx")
    case None
    with g show ?thesis by (simp add: DestroyLock_Syscall_def deleted_lock_def MAX_LOCKS_def)
  next
    case (Some lx)
    with g lock_live [OF T _ _ Some] show ?thesis
      by (auto simp: DestroyLock_Syscall_def deleted_lock_def own_lock_def MAX_LOCKS_def)
  qed
qed

lemma cv_entries_total:
  assumes T: "tab_inv s" and "\<And>cx. condDeleted cx \<Longrightarrow> bc cx" "\<And>lx. lockDeleted lx \<Longrightarrow> bl lx"
  shows "\<exists>q. cv_entries bc bl i j s = Inr q"
proof (cases "0 \<le> i \<and> i < 500 \<and> 0 \<le> j \<and> j < 500")
  case False
  then show ?thesis by (auto simp: cv_entries_def MAX_CONDITIONS_def MAX_LOCKS_def)
next
  case True
  note g = table_get [OF T] True
  show ?thesis
  proof (cases "conditionTable s ! nat i")
    case None
    with g show ?thesis by (simp add: cv_entries_def MAX_CONDITIONS_def MAX_LOCKS_def)
  next
    case (Some cx)
    note C = Some
    show ?thesis
    proof (cases "lockTable s ! nat j")
      case None
      with g C show ?thesis by (simp add: cv_entries_def MAX_CONDITIONS_def MAX_LOCKS_def)
    next
      case (Some lx)
      note lv = lock_live [OF T _ _ Some] and cv = cond_live [OF T _ _ C]
      show ?thesis using g C Some lv cv assms(2) [of cx] assms(3) [of lx]
        by (simp add: cv_entries_def MAX_CONDITIONS_def MAX_LOCKS_def)
    qed
  qed
qed

lemma reap_total:
  assumes "length (conditionTable s) = 500" "0 \<le> i" "i < 500"
  shows "\<exists>s'. reap_condition i cx s = Inr s'"
  using assms by (simp add: reap_condition_def arr_set_def in_range_def)

lemma Wait_Signal_total:
  assumes U: "uinv s" and u: "at_user s"
  shows "\<exists>s'. Wait_Syscall i j s = Inr s'" "\<exists>s'. Signal_Syscall i j s = Inr s'"
proof -
  have T: "tab_inv s" using U by (simp add: uinv_def)
  obtain q where q: "cv_entries (\<lambda>cx. condToBeDeleted cx \<or> condDeleted cx) (\<lambda>lx. lockToBeDeleted lx \<or> lockDeleted lx) i j s = Inr q"
    using cv_entries_total [OF T] by (metis (no_types, lifting))
  show "\<exists>s'. Wait_Syscall i j s = Inr s'"
  proof (cases q)
    case None
    with q show ?thesis by (simp add: Wait_Syscall_def)
  next
    case (Some p)
    obtain cx lx where p: "p = (cx, lx)" by fastforce
    obtain c where "Condition_Wait (condObj cx) (Some (lockObj lx)) (core s) = Inr c"
      using exec_total [OF U u, of "DoWait (condObj cx) (Some (lockObj lx))"] by auto
    with q Some p show ?thesis by (simp add: Wait_Syscall_def)
  qed
  obtain q where q: "cv_entries condDeleted lockDeleted i j s = Inr q" using cv_entries_total [OF T] by blast
  show "\<exists>s'. Signal_Syscall i j s = Inr s'"
  proof (cases q)
    case None
    with q show ?thesis by (simp add: Signal_Syscall_def)
  next
    case (Some p)
    obtain cx lx where p: "p = (cx, lx)" by fastforce
    note D = cv_entriesD [OF T q [unfolded Some p]]
    have "\<exists>s'. reap_condition i cx (ret 0 (s\<lparr>core := Condition_Signal (condObj cx) (Some (lockObj lx)) (core s)\<rparr>)) = Inr s'"
      by (rule reap_total) (use tab_invD(1) [OF T] D(5,6) in \<open>simp_all add: sizes_ok_def\<close>)
    with q Some p show ?thesis by (simp add: Signal_Syscall_def)
  qed
qed

definition broadcast_entries :: "int \<Rightarrow> int \<Rightarrow> usys \<Rightarrow> (ConditionX \<times> LockX) option \<Rightarrow> bool" where
  "broadcast_entries i j s q \<longleftrightarrow>
     cv_entries condDeleted (\<lambda>lx. lockToBeDeleted lx \<or> lockDeleted lx) i j s = Inr q"

lemma Broadcast_Syscall_faults:
  assumes T: "tab_inv s"
  shows "Broadcast_Syscall i j s = Inl e \<longleftrightarrow> e = NoReturn \<and>
     (\<exists>cx lx. broadcast_entries i j s (Some (cx, lx)) \<and> broadcast_loops (condObj cx) (Some (lockObj lx)) (core s))"
proof -
  obtain q where q: "cv_entries condDeleted (\<lambda>lx. lockToBeDeleted lx \<or> lockDeleted lx) i j s = Inr q"
    using cv_entries_total [OF T] by (metis (no_types, lifting))
  show ?thesis
  proof (cases q)
    case None
    with q show ?thesis by (simp add: Broadcast_Syscall_def broadcast_entries_def)
  next
    case (Some p)
    obtain cx lx where p: "p = (cx, lx)" by fastforce
    note D = cv_entriesD [OF T q [unfolded Some p]]
    show ?thesis
    proof (cases "Condition_Broadcast (condObj cx) (Some (lockObj lx)) (core s)")
      case None
      then have "broadcast_loops (condObj cx) (Some (lockObj lx)) (core s)"
        using Broadcast_returns [of "condObj cx" "Some (lockObj lx)" "core s"] by auto
      with None q Some p show ?thesis by (auto simp: Broadcast_Syscall_def broadcast_entries_def)
    next
      case (Some c)
      obtain s' where "reap_condition i cx (ret 0 (s\<lparr>core := c\<rparr>)) = Inr s'"
        using reap_total [of "ret 0 (s\<lparr>core := c\<rparr>)" i cx] tab_invD(1) [OF T] D(5,6) by (auto simp: sizes_ok_def)
      with Some q \<open>q = Some p\<close> p Broadcast_diverges [OF Some] show ?thesis
        by (auto simp: Broadcast_Syscall_def broadcast_entries_def)
    qed
  qed
qed

section \<open>The end of the last thread\<close>

lemma all_others_exited:
  assumes A: "acc s" and c: "curT s \<in> active (core s)" and m: "members (curSpace s) s = {curT s}"
  shows "numProcessesExited s + 1 = numProcesses s \<longleftrightarrow> active (core s) = {curT s}"
proof -
  note D = accD [OF A]
  let ?p = "curSpace s" and ?E = "{q \<in> {0..numProcesses s}. members q s = {}}"
  have p: "?p \<in> {0..numProcesses s}" using D(4) [OF c] by (simp add: curSpace_def)
  have sub: "?E \<subseteq> {0..numProcesses s} - {?p}" using m by auto
  have cd: "int (card ({0..numProcesses s} - {?p})) = numProcesses s"
  proof -
    have "nat (numProcesses s + 1) = Suc (nat (numProcesses s))" using D(2) by simp
    then show ?thesis using p D(2) by simp
  qed
  have "numProcessesExited s + 1 = numProcesses s \<longleftrightarrow> card ?E = card ({0..numProcesses s} - {?p})"
    using D(8) cd by linarith
  also have "\<dots> \<longleftrightarrow> ?E = {0..numProcesses s} - {?p}" using card_subset_eq [OF _ sub] by auto
  also have "\<dots> \<longleftrightarrow> active (core s) = {curT s}"
  proof
    assume E: "?E = {0..numProcesses s} - {?p}"
    have "t = curT s" if t: "t \<in> active (core s)" for t
    proof -
      have "t \<in> members (spaceOf s t) s" using t by (simp add: members_def)
      moreover have "spaceOf s t \<in> {0..numProcesses s}" using D(4) [OF t] by simp
      ultimately have "spaceOf s t = ?p" using E by blast
      then show ?thesis using m \<open>t \<in> members (spaceOf s t) s\<close> by simp
    qed
    then show "active (core s) = {curT s}" using c by blast
  next
    assume a: "active (core s) = {curT s}"
    then have "members q s = {} \<longleftrightarrow> q \<noteq> ?p" for q by (auto simp: members_def curSpace_def)
    then show "?E = {0..numProcesses s} - {?p}" by auto
  qed
  finally show ?thesis .
qed

lemma finish_total:
  assumes "uinv s" "at_user s"
  shows "\<exists>s'. finish_thread s = Inr s'"
  using exec_total [OF assms, of DoFinish] by (auto simp: finish_thread_def)

lemma release_uinv:
  assumes "uinv s" "at_user s" "l \<in> usedObjs s"
  shows "uinv (release l s)" "at_user (release l s)" "usedObjs (release l s) = usedObjs s"
proof -
  have T: "tab_inv s" using assms(1) by (simp add: uinv_def)
  have "effect s (release l (ret 0 s))" by (rule release_effect [OF T assms(3)])
  then have "uinv (release l (ret 0 s))" using effect_uinv [OF assms(1) _ assms(2)] by blast
  then show "uinv (release l s)" by (simp add: uinv_def pristine_def)
  show "at_user (release l s)" using assms(2) by (simp add: at_user_def curT_def Release_same)
  show "usedObjs (release l s) = usedObjs s" by simp
qed

lemma uinv_cong:
  assumes "uinv s" "core s' = core s" "liveObjs s' = liveObjs s" "usedObjs s' = usedObjs s" "sizes_ok s'"
    "lockTable s' = lockTable s" "conditionTable s' = conditionTable s" "processLock s' = processLock s"
  shows "uinv s'"
proof -
  have "tab_inv s'"
    by (rule tab_inv_same [OF _ assms(5) slot_cong [OF assms(6-8)] assms(3,4)]) (use assms(1) in \<open>simp add: uinv_def\<close>)
  then show ?thesis using assms(1,2,4) by (simp add: uinv_def pristine_def)
qed

lemma Exit_first_ends:
  assumes A: "acc s" and U: "uinv s" and u: "at_user s" and z: "curSpace s = 0"
  shows "if active (core s) = {curT s} then Exit_rest s = Inl Halted else \<exists>s'. Exit_rest s = Inr s'"
proof -
  have c: "curT s \<in> active (core s)" using current_active [OF U] u by (simp add: at_user_def)
  have "curT s \<in> members 0 s" using c z by (simp add: members_def curSpace_def)
  then have m: "members (curSpace s) s = {curT s}"
    unfolding z by (rule only_member [OF members_finite [OF A] accD(6) [OF A]])
  let ?s1 = "s\<lparr>numProcessesExited := numProcessesExited s + 1\<rparr>"
  have T: "tab_inv s" using U by (simp add: uinv_def)
  have U1: "uinv ?s1" by (rule uinv_cong [OF U]) (use tab_invD(1) [OF T] in \<open>simp_all add: sizes_ok_def\<close>)
  have u1: "at_user ?s1" using u by (simp add: at_user_def curT_def)
  note r = release_uinv [OF U1 u1, of execLock]
  have "execLock \<in> usedObjs ?s1" using globals_used [OF T globals(2)] by simp
  then have "\<exists>s'. finish_thread (release execLock ?s1) = Inr s'" using finish_total r by blast
  then show ?thesis using all_others_exited [OF A c m] z
    by (auto simp: Exit_rest_def process_exited_def Let_def)
qed

lemma Exit_locked_ends:
  assumes A: "acc s" and U: "uinv s" and u: "at_user s" and i: "i = curSpace s" "i \<noteq> 0"
  shows "if active (core s) = {curT s} then Exit_locked i s = Inl Halted else \<exists>s'. Exit_locked i s = Inr s'"
proof -
  have c: "curT s \<in> active (core s)" using current_active [OF U] u by (simp add: at_user_def)
  note D = accD [OF A]
  have ir: "1 \<le> i" "i \<le> numProcesses s" using D(4) [OF c] i by (simp_all add: curSpace_def)
  obtain pr l where pr: "processTable s ! nat i = Some pr" "threadCount pr = int (card (members i s))"
    "processLock s ! nat i = Some l" using D(7) [OF ir] by blast
  have T: "tab_inv s" using U by (simp add: uinv_def)
  have sz: "length (processTable s) = 5" "length (processLock s) = 5" using tab_invD(1) [OF T] by (simp_all add: sizes_ok_def)
  have g: "arr_get (processTable s) i = Inr (Some pr)" "arr_get (processLock s) i = Inr (Some l)"
    "arr_set (processTable s) i v = Inr ((processTable s)[nat i := v])" for v
    using pr sz ir D(3) by (simp_all add: arr_get_def arr_set_def in_range_def)
  have "slot_obj (PSlot (nat i)) s = Some l" using pr(3) ir D(3) sz by simp
  note lu = tab_invD(3) [OF T this]
  let ?s1 = "s\<lparr>processTable := (processTable s)[nat i := Some (pr\<lparr>threadCount := threadCount pr - 1\<rparr>)]\<rparr>"
  let ?s2 = "?s1\<lparr>numProcessesExited := numProcessesExited s + 1\<rparr>"
  have fin: "\<exists>s'. finish_thread (release execLock (release l s1)) = Inr s'"
    if s1: "s1 = ?s1 \<or> s1 = ?s2" for s1
  proof -
    have U1: "uinv s1" by (rule uinv_cong [OF U]) (use s1 tab_invD(1) [OF T] in \<open>auto simp: sizes_ok_def\<close>)
    have u1: "at_user s1" using u s1 by (auto simp: at_user_def curT_def)
    have us: "l \<in> usedObjs s1" "execLock \<in> usedObjs s1" using lu globals_used [OF T globals(2)] s1 by auto
    note r = release_uinv [OF U1 u1 us(1)]
    note r2 = release_uinv [OF r(1,2), of execLock]
    show ?thesis using finish_total [OF r2(1,2)] us(2) by simp
  qed
  have cm: "curT s \<in> members i s" using c i by (simp add: members_def curSpace_def)
  show ?thesis
  proof (cases "members i s = {curT s}")
    case True
    then have t: "threadCount pr = 1" using pr(2) by simp
    note o = all_others_exited [OF A c True [unfolded i(1)]]
    show ?thesis
    proof (cases "active (core s) = {curT s}")
      case True
      with o g t show ?thesis by (simp add: Exit_locked_def process_exited_def Let_def)
    next
      case False
      with o g t fin [of ?s2] show ?thesis by (simp add: Exit_locked_def process_exited_def Let_def)
    qed
  next
    case False
    then have "active (core s) \<noteq> {curT s}" using cm by (auto simp: members_def)
    moreover have "threadCount pr \<noteq> 1"
    proof
      assume "threadCount pr = 1"
      then have "card (members i s) = 1" using pr(2) by simp
      with cm False show False by (auto simp: card_1_singleton_iff)
    qed
    ultimately show ?thesis using g fin [of ?s1] by (simp add: Exit_locked_def Let_def)
  qed
qed

section \<open>A concrete system\<close>

definition usys0 :: usys where
  "usys0 = \<lparr>core = sys0, mem = example_vm one_page False, lockTable = replicate 500 None,
     conditionTable = replicate 500 None, processTable = replicate 5 None, processLock = replicate 5 None,
     processCV = replicate 5 None, numProcesses = 0, numProcessesExited = -1, mailboxCount = 0,
     spaceOf = (\<lambda>_. 0), mailbox = (\<lambda>_. 0), kthread = (\<lambda>_. None), result = (\<lambda>_. 0),
     pendingRest = (\<lambda>_. None), liveObjs = {0, 1, 2}, usedObjs = {0, 1, 2}, diskFiles = (\<lambda>_. None)\<rparr>"

lemma ureach_usys0: "ureach usys0"
  by (rule ureach_init) (simp add: usys_init_def usys0_def sys_init_def sys0_def curT_def Semaphore_new_def)

definition alloc0 :: "nat \<Rightarrow> alloc" where
  "alloc0 x = \<lparr>newObj = x, newThread = 1, stale = (\<lambda>_. 0)\<rparr>"

lemma usys0_user: "at_user usys0" "curT usys0 = 0" "curSpace usys0 = 0" "x \<noteq> 0 \<Longrightarrow> x \<noteq> 1 \<Longrightarrow> x \<noteq> 2 \<Longrightarrow> fresh (alloc0 x) usys0"
  by (simp_all add: at_user_def usys0_def sys0_def curT_def curSpace_def fresh_def alloc0_def)

text \<open>The first process creates a lock, destroys it, and deletes it by acquiring it.\<close>

lemma example_created:
  "\<exists>s1. CreateLock_Syscall 3 0 0 usys0 = Inr s1 \<and> core s1 = sys0 \<and> liveObjs s1 = {0, 1, 2, 3} \<and> usedObjs s1 = {0, 1, 2, 3} \<and>
     lockTable s1 = (replicate 500 None)[0 := Some \<lparr>lockToBeDeleted = False, lockDeleted = False, lockObj = 3, lockOwner = 0\<rparr>] \<and>
     pendingRest s1 = (\<lambda>_. None) \<and> spaceOf s1 = (\<lambda>_. 0)"
proof -
  have f: "first_from (\<lambda>i. (replicate 500 None :: LockX option list) ! i = None) 0 500 = Some 0"
    by (rule first_from_SomeI) simp_all
  have l: "(locks sys0)(3 := Lock_new) = locks sys0" by (auto simp: sys0_def)
  have "sys0\<lparr>locks := locks sys0\<rparr> = sys0" by simp
  with l show ?thesis
    by (simp add: CreateLock_Syscall_def f MAX_LOCKS_def copy_name_def usys0_def constructLockX_def arr_set_def in_range_def
        ret_def curSpace_def curT_def) auto
qed

lemma example_deleted:
  "\<exists>s3. ureach s3 \<and> at_user s3 \<and> deleted_lock 0 s3 \<and> own_lock 0 s3"
proof -
  let ?lx = "\<lambda>a b. \<lparr>lockToBeDeleted = a, lockDeleted = b, lockObj = 3, lockOwner = 0\<rparr>"
  obtain s1 where s1: "CreateLock_Syscall 3 0 0 usys0 = Inr s1" "core s1 = sys0" "liveObjs s1 = {0, 1, 2, 3}"
    "usedObjs s1 = {0, 1, 2, 3}" "lockTable s1 = (replicate 500 None)[0 := Some (?lx False False)]"
    "pendingRest s1 = (\<lambda>_. None)" "spaceOf s1 = (\<lambda>_. 0)" using example_created by blast
  have "ustep (Some (SysCreateLock 0 0)) usys0 s1"
    by (rule u_call [of _ "alloc0 3"]) (use s1 usys0_user in \<open>simp_all add: usys0_def alloc0_def\<close>)
  then have r1: "ureach s1" by (rule ureach_step [OF ureach_usys0])
  have c: "currentThread sys0 = 0" "\<not> idling sys0" "frames sys0 0 = []" "threads sys0 = {0}"
    "ownerThread (locks sys0 3) = None" by (simp_all add: sys0_def Lock_new_def)
  have u1: "at_user s1" "curT s1 = 0" "curSpace s1 = 0" using c s1 by (simp_all add: at_user_def curT_def curSpace_def)
  let ?s2 = "ret 0 (s1\<lparr>lockTable := (replicate 500 None)[0 := Some (?lx True False)]\<rparr>)"
  have d: "DestroyLock_Syscall 0 s1 = Inr ?s2"
    using s1 u1 c by (simp add: DestroyLock_Syscall_def MAX_LOCKS_def arr_get_def arr_set_def in_range_def live_def
        isHeldByCurrentThread_def)
  have "ustep (Some (SysDestroyLock 0)) s1 ?s2"
    by (rule u_call [of _ "alloc0 4"]) (use d s1 u1 c in \<open>simp_all add: alloc0_def fresh_def\<close>)
  then have r2: "ureach ?s2" by (rule ureach_step [OF r1])
  have u2: "at_user ?s2" "curT ?s2 = 0" "curSpace ?s2 = 0" using u1 by (simp_all add: at_user_def curT_def curSpace_def)
  let ?s3 = "ret (-1) (delete_obj 3 (?s2\<lparr>lockTable := (replicate 500 None)[0 := Some (?lx True True)]\<rparr>))"
  have a: "Acquire_Syscall 0 ?s2 = Inr ?s3"
    using s1 u2 c by (simp add: Acquire_Syscall_def MAX_LOCKS_def arr_get_def arr_set_def in_range_def live_def
        isHeldByCurrentThread_def)
  have "ustep (Some (SysAcquire 0)) ?s2 ?s3"
    by (rule u_call [of _ "alloc0 4"]) (use a s1 u2 c in \<open>simp_all add: alloc0_def fresh_def\<close>)
  then have "ureach ?s3" by (rule ureach_step [OF r2])
  moreover have "at_user ?s3" using u2(1) by (simp add: at_user_def curT_def delete_obj_def)
  moreover have "deleted_lock 0 ?s3" "own_lock 0 ?s3"
    using u2 by (simp_all add: deleted_lock_def own_lock_def delete_obj_def curSpace_def curT_def)
  ultimately show ?thesis by blast
qed

section \<open>Properties\<close>

text \<open>
  C8 The system calls refine the synchronization model: every step of the system-call layer is a
  sequence of steps of \<open>Nachos_Synch\<close> between reachable states, so that the guarantees for locks and
  conditions hold for user programs too; and in every reachable state each lock, condition and process
  lock in the tables is an allocated object of its own exactly as long as it is not marked deleted.
\<close>

theorem syscall_refinement:
  assumes "ureach s" "ustep c s s'"
  shows "reach (core s) \<and> csteps (core s) (core s') \<and> reach (core s') \<and>
    (\<forall>k x. slot_obj k s' = Some x \<longrightarrow> (x \<in> liveObjs s' \<longleftrightarrow> \<not> slot_dead k s')) \<and>
    (\<forall>k k' x. slot_obj k s' = Some x \<and> slot_obj k' s' = Some x \<longrightarrow> k = k')"
proof -
  have U: "uinv s" by (rule ureach_uinv [OF assms(1)])
  note U' = ustep_uinv [OF assms(2) U]
  then have "tab_inv s'" by (simp add: uinv_def)
  then show ?thesis using U U' tab_invD(4,5) [of s'] unfolding uinv_def by blast
qed

theorem syscall_refinement_witness:
  "\<exists>s'. ustep (Some (SysCreateLock 0 0)) usys0 s' \<and> reach (core s') \<and> csteps sys0 (core s')"
proof -
  obtain s1 where s1: "CreateLock_Syscall 3 0 0 usys0 = Inr s1" using example_created by blast
  have "ustep (Some (SysCreateLock 0 0)) usys0 s1"
    by (rule u_call [of _ "alloc0 3"]) (use s1 usys0_user in \<open>simp_all add: usys0_def alloc0_def\<close>)
  moreover from syscall_refinement [OF ureach_usys0 this]
  have "reach (core s1)" "csteps (core usys0) (core s1)" by blast+
  moreover have "core usys0 = sys0" by (simp add: usys0_def)
  ultimately show ?thesis by auto
qed



text \<open>
  C15 \<open>Exit\<close> halts the machine exactly when the last thread of the last process exits: for a thread
  that has the locks of its \<open>Exit\<close>, the machine halts when no other thread is left that has not
  finished, and otherwise only the thread ends.
\<close>

theorem exit_halts_exactly:
  assumes "ureach s" "at_user s" "pendingRest s (curT s) = Some r"
    "r = ExitRest \<and> curSpace s = 0 \<or> (\<exists>i. r = ExitLocked i)"
  shows "if active (core s) = {curT s} then do_rest a r (pop_rest s) = Inl Halted
    else \<exists>s'. do_rest a r (pop_rest s) = Inr s' \<and> active (core s') = active (core s) - {curT s}"
proof -
  let ?s = "pop_rest s"
  have U: "uinv ?s" and A: "acc ?s" and u: "at_user ?s"
    using ureach_uinv [OF assms(1)] acc_pop_rest [OF ureach_acc [OF assms(1)]] assms(2) by simp_all
  have R: "reach (core s)" using U by (simp add: uinv_def)
  have i: "i = curSpace ?s" "i \<noteq> 0" if "r = ExitLocked i" for i
    using accD(10) [OF ureach_acc [OF assms(1)], of "curT s" i] assms(3) that by (simp_all add: curSpace_def)
  have f: "active (core s') = active (core s) - {curT s}" if d: "do_rest a r ?s = Inr s'" for s'
    using assms(4)
  proof
    assume z: "r = ExitRest \<and> curSpace s = 0"
    then have "Exit_rest ?s = Inr s'" "curSpace ?s = 0" using d by simp_all
    from Exit_rest_first(2) [OF this u] cruns_finish [of "[execLock]" "core s" "core s'"] R
    show ?thesis by (simp add: curT_def)
  next
    assume "\<exists>i. r = ExitLocked i"
    then obtain i where "Exit_locked i ?s = Inr s'" using d by auto
    then obtain pr l where "cruns [DoRelease l, DoRelease execLock, DoFinish] (core ?s) (core s')"
      by (rule Exit_locked_cases [OF _ u])
    then show ?thesis using cruns_finish [of "[l, execLock]" "core s" "core s'"] R by (simp add: curT_def)
  qed
  have "if active (core s) = {curT s} then do_rest a r ?s = Inl Halted else \<exists>s'. do_rest a r ?s = Inr s'"
    using assms(4)
  proof
    assume "r = ExitRest \<and> curSpace s = 0"
    then show ?thesis using Exit_first_ends [OF A U u] by simp
  next
    assume "\<exists>i. r = ExitLocked i"
    then obtain i where r: "r = ExitLocked i" by blast
    from Exit_locked_ends [OF A U u i [OF r]] show ?thesis by (simp add: r)
  qed
  then show ?thesis using f by (cases "active (core s) = {curT s}") auto
qed

theorem exit_halts_exactly_witness:
  "\<exists>s. ureach s \<and> pendingRest s 0 = Some ExitRest \<and> do_rest (alloc0 3) ExitRest (pop_rest s) = Inl Halted"
proof -
  have n: "\<not> isHeldByCurrentThread 1 sys0" "free (locks sys0 1)"
    by (simp_all add: isHeldByCurrentThread_def sys0_def Lock_new_def)
  obtain c where c: "Lock_Acquire 1 sys0 = Inr c" "\<not> idling c" "currentThread c = 0" "frames c 0 = []" "threads c = {0}"
    using Acquire_cases(2) [OF n] by (simp add: sys0_def)
  have ac: "active c = {0}" unfolding active_def c(5) using c(4) by auto
  let ?s = "usys0\<lparr>core := c, pendingRest := (\<lambda>_. None)(0 := Some ExitRest)\<rparr>"
  have x: "Exit_Syscall usys0 = Inr ?s"
    using c usys0_user by (simp add: Exit_Syscall_def acquire_then_def execLock_def) (simp add: usys0_def)
  have "ustep (Some SysExit) usys0 ?s"
    by (rule u_call [of _ "alloc0 3"]) (use x usys0_user in \<open>simp_all add: usys0_def alloc0_def\<close>)
  then have r: "ureach ?s" by (rule ureach_step [OF ureach_usys0])
  have k: "curT ?s = 0" "at_user ?s" "curSpace ?s = 0" "active (core ?s) = {curT ?s}"
    using c ac by (simp_all add: curT_def at_user_def curSpace_def) (simp add: usys0_def)
  then have "do_rest (alloc0 3) ExitRest (pop_rest ?s) = Inl Halted"
    using exit_halts_exactly [OF r k(2), of ExitRest "alloc0 3"] by simp
  then show ?thesis using r by (intro exI [of _ ?s]) simp
qed

text \<open>
  The process table is too small at both ends.  The first process has no entry: when it forks a
  thread with a valid name and address, the kernel dereferences a null pointer.  And with four
  processes started, \<open>Exec\<close> of a fifth program writes outside the table instead of failing.
\<close>

theorem process_table_limits:
  assumes "ureach s" "newThread a \<noteq> curT s" "length (processTable s2) = 5"
  shows "(curSpace s = 0 \<and> copy_name nm len s = Inr (Some bs, s1) \<and> 0 \<le> vaddr \<and> vaddr mod 4 = 0 \<longrightarrow>
      Fork_rest a vaddr nm len s = Inl NullPointer) \<and>
    (numProcesses s2 = 4 \<and> copy_name (of_int vaddr) len s2 = Inr (Some bs, s3) \<and> 0 \<le> vaddr \<and>
       vaddr mod 4 = 0 \<and> diskFiles s2 (cstring bs) = Some f \<and> AddrSpace_new (stale a) f = Inr pt \<longrightarrow>
      Exec_rest a vaddr len s2 = Inl OutOfBounds)"
proof (intro conjI impI)
  have T: "tab_inv s" using ureach_uinv [OF assms(1)] by (simp add: uinv_def)
  have sz: "length (processTable s) = 5" using tab_invD(1) [OF T] by (simp add: sizes_ok_def)
  assume h: "curSpace s = 0 \<and> copy_name nm len s = Inr (Some bs, s1) \<and> 0 \<le> vaddr \<and> vaddr mod 4 = 0"
  obtain m where m: "s1 = s\<lparr>mem := m\<rparr>" using copy_name_cases h by blast
  have c: "curSpace (s\<lparr>mem := m\<rparr>) = curSpace s" by (simp add: curSpace_def curT_def)
  have g: "arr_get (processTable s) 0 = Inr None"
    using accD(5) [OF ureach_acc [OF assms(1)]] sz by (simp add: arr_get_def in_range_def)
  show "Fork_rest a vaddr nm len s = Inl NullPointer"
    using h c curSpace_new [OF assms(2)] g by (simp add: Fork_rest_def m)
next
  assume h: "numProcesses s2 = 4 \<and> copy_name (of_int vaddr) len s2 = Inr (Some bs, s3) \<and> 0 \<le> vaddr \<and>
       vaddr mod 4 = 0 \<and> diskFiles s2 (cstring bs) = Some f \<and> AddrSpace_new (stale a) f = Inr pt"
  obtain m where m: "s3 = s2\<lparr>mem := m\<rparr>" using copy_name_cases h by blast
  have l: "\<not> len < -1" using h by (auto simp: copy_name_def split: if_splits)
  have "arr_set (processTable s2) 5 v = Inl OutOfBounds" for v using assms(3) by (simp add: arr_set_def in_range_def)
  then show "Exec_rest a vaddr len s2 = Inl OutOfBounds"
    using h l by (simp add: Exec_rest_def m)
qed

definition example_exec :: "byte list" where
  "example_exec = [0xad, 0xdf, 0xba, 0] @ replicate 36 0"

lemma example_exec_ok: "\<exists>pt. AddrSpace_new g example_exec = Inr pt"
proof -
  have "file_word example_exec 0 = NOFFMAGIC"
    by (simp add: file_word_def example_exec_def ReadAt_def word_of_bytes_simps NOFFMAGIC_def)
  moreover have "length example_exec = 40" by (simp add: example_exec_def)
  ultimately show ?thesis by (simp add: AddrSpace_new_def read_header_def Let_def)
qed

theorem process_table_limits_witness:
  "Fork_rest (alloc0 3) 0 0 0 usys0 = Inl NullPointer \<and>
   Exec_rest (alloc0 3) 0 0 (usys0\<lparr>numProcesses := 4, diskFiles := (\<lambda>_. Some example_exec)\<rparr>) = Inl OutOfBounds"
proof -
  let ?s2 = "usys0\<lparr>numProcesses := 4, diskFiles := (\<lambda>_. Some example_exec)\<rparr>"
  obtain pt where pt: "AddrSpace_new (stale (alloc0 3)) example_exec = Inr pt" using example_exec_ok by blast
  have n: "copy_name 0 0 s = Inr (Some [], s)" for s by (cases s) (simp add: copy_name_def)
  have "newThread (alloc0 3) \<noteq> curT usys0" "length (processTable ?s2) = 5" "numProcesses ?s2 = 4"
    "diskFiles ?s2 (cstring []) = Some example_exec" "curSpace usys0 = 0"
    using usys0_user by (simp_all add: alloc0_def usys0_def)
  then show ?thesis
    using process_table_limits [OF ureach_usys0, of "alloc0 3" ?s2 0 0 "[]" usys0 0 ?s2 example_exec pt] n pt by simp
qed

end
