(* ===== verification/Nachos_Client.thy ===== *)
theory Nachos_Client
  imports Nachos_Server Nachos_UserMemory
begin

text \<open>
  The client half of the remote locks, condition variables and monitor variables: the \<open>NETWORK\<close>
  branches of the system calls of userprog/exception.cc.  Each call builds one request, sends it to
  mailbox 0 of a server and blocks until a mail arrives in the mailbox of the thread; the number in
  that mail is the result of the call.  A call is therefore two functions here: the mail it sends,
  and \<open>remote_result\<close>, what it answers for the text received.
\<close>

section \<open>Requests\<close>

text \<open>\<open>randValue\<close> is what \<open>rand()\<close> returns, \<open>boxNumber\<close> the mailbox of the calling thread.\<close>

record client_env =
  serverCount :: int
  randValue :: int
  boxNumber :: int

definition MSG_LENGTH :: nat where
  "MSG_LENGTH = 40"

definition request_msg :: "string \<Rightarrow> string \<Rightarrow> string \<Rightarrow> int \<Rightarrow> int \<Rightarrow> int \<Rightarrow> Message" where
  "request_msg rq n n2 i i2 i3 = \<lparr>name = n, name2 = n2, request = rq, index = i, index2 = i2,
     index3 = i3, ID = -1, clientMachine = -1, clientMailbox = -1\<rparr>"

definition send_request :: "client_env \<Rightarrow> Message \<Rightarrow> fault + Mail" where
  "send_request e m =
     (if serverCount e = 0 then Inl DivideError
      else bindE (msgPrepare m) (\<lambda>d.
           Post_Send (crem (randValue e) (serverCount e)) 0 (Some (boxNumber e)) MSG_LENGTH d))"

definition remote_result :: "string \<Rightarrow> fault + int" where
  "remote_result buf = bindE (decodeMessage buf) (\<lambda>m. Inr (index m))"

definition Acquire_remote :: "client_env \<Rightarrow> int \<Rightarrow> fault + Mail" where
  "Acquire_remote e i = send_request e (request_msg ''AQ'' ''Acquire'' ''Lock'' i (-1) (-1))"

definition Release_remote :: "client_env \<Rightarrow> int \<Rightarrow> fault + Mail" where
  "Release_remote e i = send_request e (request_msg ''RL'' ''Release'' ''Lock'' i (-1) (-1))"

definition Wait_remote :: "client_env \<Rightarrow> int \<Rightarrow> int \<Rightarrow> fault + Mail" where
  "Wait_remote e iCV iLock = send_request e (request_msg ''WT'' ''Wait'' ''Lock'' iCV iLock (-1))"

definition Signal_remote :: "client_env \<Rightarrow> int \<Rightarrow> int \<Rightarrow> fault + Mail" where
  "Signal_remote e iCV iLock = send_request e (request_msg ''SG'' ''Signal'' ''Lock'' iCV iLock (-1))"

definition Broadcast_remote :: "client_env \<Rightarrow> int \<Rightarrow> int \<Rightarrow> fault + Mail" where
  "Broadcast_remote e iCV iLock = send_request e (request_msg ''BC'' ''Broadcast'' ''Lock'' iCV iLock (-1))"

definition DestroyLock_remote :: "client_env \<Rightarrow> int \<Rightarrow> fault + Mail" where
  "DestroyLock_remote e i = send_request e (request_msg ''DL'' ''DestroyLock'' ''Lock'' i (-1) (-1))"

definition DestroyCondition_remote :: "client_env \<Rightarrow> int \<Rightarrow> fault + Mail" where
  "DestroyCondition_remote e i = send_request e (request_msg ''DC'' ''DestroyCV'' ''Lock'' i (-1) (-1))"

definition DestroyMV_remote :: "client_env \<Rightarrow> int \<Rightarrow> fault + Mail" where
  "DestroyMV_remote e mv = send_request e (request_msg ''DM'' ''DestroyMV'' ''MV'' mv (-1) (-1))"

definition GetMV_remote :: "client_env \<Rightarrow> int \<Rightarrow> int \<Rightarrow> fault + Mail" where
  "GetMV_remote e mv i = send_request e (request_msg ''GM'' ''GetMV'' ''MV'' mv i (-1))"

definition SetMV_remote :: "client_env \<Rightarrow> int \<Rightarrow> int \<Rightarrow> int \<Rightarrow> fault + Mail" where
  "SetMV_remote e mv i v = send_request e (request_msg ''SM'' ''SetMV'' ''MV'' mv i v)"

text \<open>
  The three calls that create an object copy its name from the user first; \<open>None\<close> is the answer -1
  without a request.
\<close>

definition create_request ::
  "(int \<Rightarrow> vm \<Rightarrow> fault + vm) \<Rightarrow> client_env \<Rightarrow> 32 word \<Rightarrow> int \<Rightarrow> (string \<Rightarrow> Message) \<Rightarrow> vm \<Rightarrow>
     fault + Mail option \<times> vm" where
  "create_request pf e vaddr len mk s =
     bindE (copy_buf pf vaddr len s) (\<lambda>(buf, s1). case buf of
       None \<Rightarrow> Inr (None, s1)
     | Some bs \<Rightarrow> if serverCount e = 0 then Inl DivideError
         else bindE (new_name (C_string bs)) (\<lambda>n.
              bindE (send_request e (mk n)) (\<lambda>mail. Inr (Some mail, s1))))"

definition CreateLock_remote ::
  "(int \<Rightarrow> vm \<Rightarrow> fault + vm) \<Rightarrow> client_env \<Rightarrow> 32 word \<Rightarrow> int \<Rightarrow> vm \<Rightarrow> fault + Mail option \<times> vm" where
  "CreateLock_remote pf e vaddr len s =
     create_request pf e vaddr len (\<lambda>n. request_msg ''CL'' n ''Lock'' len (-1) (-1)) s"

definition CreateCondition_remote ::
  "(int \<Rightarrow> vm \<Rightarrow> fault + vm) \<Rightarrow> client_env \<Rightarrow> 32 word \<Rightarrow> int \<Rightarrow> vm \<Rightarrow> fault + Mail option \<times> vm" where
  "CreateCondition_remote pf e vaddr len s =
     create_request pf e vaddr len (\<lambda>n. request_msg ''CC'' n ''CV'' len (-1) (-1)) s"

definition CreateMV_remote ::
  "(int \<Rightarrow> vm \<Rightarrow> fault + vm) \<Rightarrow> client_env \<Rightarrow> 32 word \<Rightarrow> int \<Rightarrow> int \<Rightarrow> vm \<Rightarrow> fault + Mail option \<times> vm" where
  "CreateMV_remote pf e vaddr len len2 s =
     create_request pf e vaddr len (\<lambda>n. request_msg ''CM'' n ''MV'' len len2 (-1)) s"

section \<open>Which requests fit the mail buffer\<close>

definition request_mail :: "client_env \<Rightarrow> Message \<Rightarrow> Mail" where
  "request_mail e m = \<lparr>to_machine = crem (randValue e) (serverCount e), to_box = 0,
     from_box = Some (boxNumber e), payload = msg_text m\<rparr>"

lemma length_show_minus [simp]: "length (show_int (- 1)) = 2"
  by (simp add: show_int_def show_small)

text \<open>\<open>text_room\<close> is the number of characters left for the name and the numbers of a request.\<close>

lemma send_request_eq:
  assumes "length rq = 2" "serverCount e \<noteq> 0"
  shows "send_request e (request_msg rq n n2 i i2 i3) =
    (if length n + length n2 + length (show_int i) + length (show_int i2) + length (show_int i3) \<le> 23
     then Inr (request_mail e (request_msg rq n n2 i i2 i3)) else Inl BufferOverflow)"
proof -
  have "length (msg_text (request_msg rq n n2 i i2 i3)) =
      length n + length n2 + length (show_int i) + length (show_int i2) + length (show_int i3) + 16"
    by (subst length_msg_text) (simp_all add: request_msg_def assms(1))
  then show ?thesis using assms(2)
    by (simp add: send_request_def msgPrepare_def Post_Send_def MaxMailSize_def MSG_LENGTH_def numBoxes_def
        request_mail_def assertE_def)
qed

lemma length_show_index: "0 \<le> i \<Longrightarrow> i < 10 ^ k \<Longrightarrow> 0 < k \<Longrightarrow> length (show_int i) \<le> k"
  using length_show_nat [of "nat i" k] by (simp add: show_int_def nat_less_iff)

lemma request_msg_ok:
  assumes "word_ok 3 rq" "length rq = 2" "word_ok 20 n" "word_ok 20 n2" "int_ok i" "int_ok i2" "int_ok i3"
  shows "msg_ok (request_msg rq n n2 i i2 i3)"
  using assms by (simp add: msg_ok_def request_msg_def)

text \<open>What the server reads from the request of a client.\<close>

lemma server_receives:
  assumes "msg_ok m" "messageQueue s = []"
  shows "Server_round h (payload (request_mail e m)) r s = Server_dispatch h m r s"
  using assms by (simp add: Server_round_def request_mail_def decode_msg_text)

lemma reply_ok: "word_ok 20 n \<Longrightarrow> int_ok i \<Longrightarrow> int_ok j \<Longrightarrow> int_ok k \<Longrightarrow> msg_ok (reply n i j k)"
  by (simp add: msg_ok_def reply_def word_ok_def is_space_def)

lemma word_ok_names: "word_ok 20 ''index''" "word_ok 20 ''success''" "word_ok 20 ''error''"
  by (simp_all add: word_ok_def is_space_def)

text \<open>The result of a call for each of the three replies of a server.\<close>

lemma remote_results:
  "int_ok i \<Longrightarrow> remote_result (index_text i) = Inr i"
  "remote_result success_text = Inr 0"
  "remote_result error_text = Inr (-1)"
  using decode_msg_text [OF reply_ok [OF word_ok_names(1), of i 0 0]]
    decode_msg_text [OF reply_ok [OF word_ok_names(2), of 0 0 0]]
    decode_msg_text [OF reply_ok [OF word_ok_names(3), of "-1" "-1" "-1"]]
  by (simp_all add: remote_result_def reply_texts) (simp_all add: reply_def)


section \<open>Properties of the requests\<close>

definition table_index :: "int \<Rightarrow> bool" where
  "table_index i \<longleftrightarrow> 0 \<le> i \<and> i < 5000"

lemma length_table_index: "table_index i \<Longrightarrow> length (show_int i) \<le> 4"
  using length_show_index [of i 4] by (simp add: table_index_def)

lemma length_show_int_pos: "0 < length (show_int i)"
  by simp


definition env1 :: client_env where
  "env1 = \<lparr>serverCount = 1, randValue = 7, boxNumber = 2\<rparr>"


text \<open>
  C19 A monitor variable seen from two clients: the mail of \<open>SetMV\<close>, handled by the server, confirms the
  call with result 0; the mail of a \<open>GetMV\<close> of any client then makes the server answer with the value
  that was set, which \<open>GetMV\<close> returns.  All other elements and variables, and all locks and conditions,
  are as before.  The texts travel through \<open>msgPrepare\<close> and \<open>decodeMessage\<close> in both directions.
\<close>

theorem remote_mv_roundtrip:
  assumes I: "server_inv me s" "messageQueue s = []" and v: "mv_name (monitorVariableTable s v) \<noteq> None"
    and i: "0 \<le> i" "i < mv_arraySize (monitorVariableTable s v)" "int_ok i" and x: "int_ok x"
    and t: "box_ok t" "box_ok u"
    and m1: "SetMV_remote e v i x = Inr m1" and m2: "GetMV_remote e' v i = Inr m2"
  shows "\<exists>s' r1 r2. Server_round (hdr_of me t) (payload m1) rcv s = Inr (s', [r1]) \<and>
    to_machine r1 = machineID t \<and> to_box r1 = threadID t \<and> remote_result (payload r1) = Inr 0 \<and>
    Server_round (hdr_of me u) (payload m2) rcv s' = Inr (s', [r2]) \<and>
    to_machine r2 = machineID u \<and> to_box r2 = threadID u \<and> remote_result (payload r2) = Inr x \<and>
    (\<forall>w j. w \<noteq> v \<or> j \<noteq> nat i \<longrightarrow> mv_array (monitorVariableTable s' w) ! j = mv_array (monitorVariableTable s w) ! j) \<and>
    serverLockTable s' = serverLockTable s \<and> serverConditionTable s' = serverConditionTable s"
proof -
  let ?V = "monitorVariableTable s v"
  let ?s = "set_mv v (?V\<lparr>mv_array := (mv_array ?V)[nat i := Some x]\<rparr>) s"
  let ?m1 = "request_msg ''SM'' ''SetMV'' ''MV'' v i x" and ?m2 = "request_msg ''GM'' ''GetMV'' ''MV'' v i (-1)"
  have b: "0 \<le> v" "v < 5000" using I(1) v by (auto simp: server_inv_def names_ok_def)
  have l: "int (length (mv_array ?V)) = mv_arraySize ?V" using I(1) v by (simp add: server_inv_def)
  obtain n where n: "mv_name ?V = Some n" using v by auto
  have w: "word_ok 3 ''SM''" "word_ok 3 ''GM''" "word_ok 20 ''SetMV''" "word_ok 20 ''GetMV''" "word_ok 20 ''MV''" "int_ok v"
    using b by (simp_all add: word_ok_def is_space_def int_ok_def)
  have "payload m1 = payload (request_mail e ?m1)" "payload m2 = payload (request_mail e' ?m2)"
    using m1 m2 by (auto simp: SetMV_remote_def GetMV_remote_def send_request_def bindE_eq_Inr msgPrepare_def
        Post_Send_def request_mail_def split: if_splits)
  then have r: "Server_round (hdr_of me t) (payload m1) rcv s = Server_dispatch (hdr_of me t) ?m1 rcv s"
    "Server_round (hdr_of me u) (payload m2) rcv ?s = Server_dispatch (hdr_of me u) ?m2 rcv ?s"
    using server_receives [OF request_msg_ok] w i(3) x I(2) by (simp_all add: set_mv_def)
  have q: "clientMachine (request_msg rq n n2 j k m) = -1" "index (request_msg rq n n2 j k m) = j"
    "index2 (request_msg rq n n2 j k m) = k" "index3 (request_msg rq n n2 j k m) = m"
    "request (request_msg rq n n2 j k m) = rq" for rq n n2 j k m by (simp_all add: request_msg_def)
  have sd: "Server_dispatch (hdr_of me t) ?m1 rcv s = Inr (?s, [reply_mail t success_text])"
    using b l n i(1,2) t
    by (simp add: Server_dispatch_def Server_SM_def q requester_def slot_get_def
        MAX_MONITORVARIABLES_def arr_set_def in_range_def answer_def sendSuccess_eq)
  have gd: "Server_dispatch (hdr_of me u) ?m2 rcv ?s = Inr (?s, [reply_mail u (index_text x)])"
    using b l n i(1,2) t x by (simp add: Server_dispatch_def Server_GM_def q requester_def slot_get_def set_mv_def
        MAX_MONITORVARIABLES_def arr_get_def in_range_def answer_def sendMessage_eq)
  show ?thesis unfolding r(1)
    by (rule exI [of _ ?s], rule exI [of _ "reply_mail t success_text"], rule exI [of _ "reply_mail u (index_text x)"])
      (simp add: r(2) sd gd, auto simp: reply_mail_def remote_results x set_mv_def)
qed

lemma digits: "digit 0 = CHR ''0''" "digit (Suc 0) = CHR ''1''" "digit 1 = CHR ''1''" "digit 2 = CHR ''2''"
  "digit 4 = CHR ''4''"
  by code_simp+

theorem remote_mv_roundtrip_witness:
  "\<exists>s' r1 r2. Server_round (hdr_of 0 (setIDs 1 2)) ''SM SetMV MV 0 1 42 -1 -1 -1'' (msg_of ''x'' 0 0 0) server1 = Inr (s', [r1]) \<and>
    remote_result (payload r1) = Inr 0 \<and>
    Server_round (hdr_of 0 (setIDs 3 4)) ''GM GetMV MV 0 1 -1 -1 -1 -1'' (msg_of ''x'' 0 0 0) s' = Inr (s', [r2]) \<and>
    remote_result (payload r2) = Inr 42"
proof -
  let ?m1 = "request_msg ''SM'' ''SetMV'' ''MV'' 0 1 42" and ?m2 = "request_msg ''GM'' ''GetMV'' ''MV'' 0 1 (-1)"
  have l: "show_int 0 = ''0''" "show_int 1 = ''1''" "show_int 42 = ''42''"
    by (simp_all add: show_int_def show_nat.simps digits)
  have "mv_name (monitorVariableTable server1 0) \<noteq> None" "(0::int) \<le> 1" "messageQueue server1 = []"
    "1 < mv_arraySize (monitorVariableTable server1 0)" "int_ok 1" "int_ok 42" "box_ok (setIDs 1 2)" "box_ok (setIDs 3 4)"
    by (simp_all add: server1_def int_ok_def box_ok_def setIDs_def numBoxes_def)
  moreover have "SetMV_remote env1 0 1 42 = Inr (request_mail env1 ?m1)" "GetMV_remote env1 0 1 = Inr (request_mail env1 ?m2)"
    by (simp_all add: SetMV_remote_def GetMV_remote_def send_request_eq env1_def l)
  moreover have "payload (request_mail env1 ?m1) = ''SM SetMV MV 0 1 42 -1 -1 -1''"
    "payload (request_mail env1 ?m2) = ''GM GetMV MV 0 1 -1 -1 -1 -1''"
    by (simp_all add: request_mail_def request_msg_def msg_text_def space_def l) (simp_all add: show_int_def show_small)
  ultimately show ?thesis
    using remote_mv_roundtrip [where e = env1 and e' = env1 and v = 0 and i = 1 and x = 42 and t = "setIDs 1 2"
        and u = "setIDs 3 4" and rcv = "msg_of ''x'' 0 0 0", OF server1_inv] by fastforce
qed

end
