(* ===== verification/Nachos_Cluster.thy ===== *)
theory Nachos_Cluster
  imports Nachos_Client
begin

text \<open>
  The remote locks end to end: any number of client threads, one server and the mails between them.
  The mails are in flight in two collections and are handled in any order.  A client that has
  called waits for one mail, as \<open>postOffice->Receive\<close> does.  The calls are those for locks and
  monitor variables that the server handles by itself; condition variables are left out because a
  \<open>Wait\<close> of any client takes a lock away from its owner (\<open>server_wait_parks_owner\<close>).
\<close>

section \<open>Calls of the clients\<close>

datatype remote_call =
    RAcquire int
  | RRelease int
  | RDestroyLock int
  | RGetMV int int
  | RSetMV int int int
  | RDestroyMV int

fun call_msg :: "remote_call \<Rightarrow> Message" where
  "call_msg (RAcquire i) = request_msg ''AQ'' ''Acquire'' ''Lock'' i (-1) (-1)"
| "call_msg (RRelease i) = request_msg ''RL'' ''Release'' ''Lock'' i (-1) (-1)"
| "call_msg (RDestroyLock i) = request_msg ''DL'' ''DestroyLock'' ''Lock'' i (-1) (-1)"
| "call_msg (RGetMV v i) = request_msg ''GM'' ''GetMV'' ''MV'' v i (-1)"
| "call_msg (RSetMV v i x) = request_msg ''SM'' ''SetMV'' ''MV'' v i x"
| "call_msg (RDestroyMV v) = request_msg ''DM'' ''DestroyMV'' ''MV'' v (-1) (-1)"

fun call_mail :: "client_env \<Rightarrow> remote_call \<Rightarrow> fault + Mail" where
  "call_mail e (RAcquire i) = Acquire_remote e i"
| "call_mail e (RRelease i) = Release_remote e i"
| "call_mail e (RDestroyLock i) = DestroyLock_remote e i"
| "call_mail e (RGetMV v i) = GetMV_remote e v i"
| "call_mail e (RSetMV v i x) = SetMV_remote e v i x"
| "call_mail e (RDestroyMV v) = DestroyMV_remote e v"

text \<open>The numbers of a call come from registers.\<close>

fun call_ok :: "remote_call \<Rightarrow> bool" where
  "call_ok (RAcquire i) = int_ok i"
| "call_ok (RRelease i) = int_ok i"
| "call_ok (RDestroyLock i) = int_ok i"
| "call_ok (RGetMV v i) = (int_ok v \<and> int_ok i)"
| "call_ok (RSetMV v i x) = (int_ok v \<and> int_ok i \<and> int_ok x)"
| "call_ok (RDestroyMV v) = int_ok v"

lemma call_mail_payload: "call_mail e k = Inr M \<Longrightarrow> payload M = msg_text (call_msg k)"
  by (cases k) (auto simp: Acquire_remote_def Release_remote_def DestroyLock_remote_def GetMV_remote_def
      SetMV_remote_def DestroyMV_remote_def send_request_def bindE_eq_Inr msgPrepare_def Post_Send_def
      split: if_splits)

lemma call_msg_ok: "call_ok k \<Longrightarrow> msg_ok (call_msg k)"
  by (cases k) (auto intro!: request_msg_ok simp: word_ok_def is_space_def)

lemma call_msg_inj: "call_msg k = call_msg k' \<Longrightarrow> k = k'"
  by (cases k; cases k') (auto simp: request_msg_def)

section \<open>The cluster\<close>

text \<open>\<open>holding t\<close> are the locks that thread \<open>t\<close> has acquired, by the results of its calls.\<close>

record cluster =
  srv :: server
  toServer :: "(Header \<times> string) list"
  toClients :: "Mail list"
  calling :: "ThreadID \<Rightarrow> remote_call option"
  holding :: "ThreadID \<Rightarrow> int set"

definition addressee :: "Mail \<Rightarrow> ThreadID" where
  "addressee M = setIDs (to_machine M) (to_box M)"

text \<open>
  The mailbox of a client thread is one of its machine's ten; mailbox 9 stands for the server itself
  in the server's code, and mailboxes 0 and 1 of the server's machine are those of the server and its
  message handler.
\<close>

definition client_addr :: "int \<Rightarrow> ThreadID \<Rightarrow> bool" where
  "client_addr me t \<longleftrightarrow> box_ok t \<and> threadID t \<noteq> 9 \<and> \<not> (machineID t = me \<and> threadID t \<le> 1)"

fun hold_before :: "remote_call \<Rightarrow> int set \<Rightarrow> int set" where
  "hold_before (RRelease i) S = S - {i}"
| "hold_before _ S = S"

fun hold_after :: "remote_call \<Rightarrow> int \<Rightarrow> int set \<Rightarrow> int set" where
  "hold_after (RAcquire i) v S = (if v = -1 then S else insert i S)"
| "hold_after _ v S = S"

inductive cstep :: "int \<Rightarrow> cluster \<Rightarrow> cluster \<Rightarrow> bool" for me where
  c_call: "client_addr me t \<Longrightarrow> calling c t = None \<Longrightarrow> call_ok k \<Longrightarrow> boxNumber e = threadID t \<Longrightarrow>
     call_mail e k = Inr M \<Longrightarrow>
     cstep me c (c\<lparr>toServer := toServer c @ [(hdr_of me t, payload M)],
       calling := (calling c)(t := Some k), holding := (holding c)(t := hold_before k (holding c t))\<rparr>)"
| c_serve: "toServer c = xs @ (h, b) # ys \<Longrightarrow> Server_round h b r (srv c) = Inr (s', ms) \<Longrightarrow>
     cstep me c (c\<lparr>srv := s', toServer := xs @ ys, toClients := toClients c @ ms\<rparr>)"
| c_deliver: "toClients c = xs @ M # ys \<Longrightarrow> addressee M = t \<Longrightarrow> calling c t = Some k \<Longrightarrow>
     remote_result (payload M) = Inr v \<Longrightarrow>
     cstep me c (c\<lparr>toClients := xs @ ys, calling := (calling c)(t := None),
       holding := (holding c)(t := hold_after k v (holding c t))\<rparr>)"

definition cluster_init :: "cluster \<Rightarrow> bool" where
  "cluster_init c \<longleftrightarrow> toServer c = [] \<and> toClients c = [] \<and> calling c = (\<lambda>_. None) \<and> holding c = (\<lambda>_. {}) \<and>
     messageQueue (srv c) = [] \<and> (\<forall>i. lock_queue (serverLockTable (srv c) i) = [])"

inductive creach :: "int \<Rightarrow> cluster \<Rightarrow> bool" for me where
  creach_init: "cluster_init c \<Longrightarrow> creach me c"
| creach_step: "creach me c \<Longrightarrow> cstep me c c' \<Longrightarrow> creach me c'"

section \<open>What the server does for each call\<close>

abbreviation "waiting s i \<equiv> lock_queue (serverLockTable s i)"

definition one_answer :: "int \<Rightarrow> ThreadID \<Rightarrow> Mail list \<Rightarrow> bool" where
  "one_answer me t ms \<longleftrightarrow> (\<exists>M. ms = [M] \<and> (addressee M = setIDs me 1 \<or> addressee M = t))"

lemma addressee_reply [simp]: "addressee (reply_mail t d) = t"
  by (simp add: addressee_def reply_mail_def setIDs_def)

lemma sent_to: "send_msg a b f m = Inr M \<Longrightarrow> addressee M = setIDs a b"
  by (auto simp: send_msg_def Post_Send_def bindE_eq_Inr addressee_def)

lemma call_request: "requester h (call_msg k) = sender h" "clientMachine (call_msg k) = -1"
  "clientMailbox (call_msg k) = -1" "ID (call_msg k) = -1"
  by (cases k; simp add: requester_def request_msg_def)+

lemma not_here_call:
  "not_here (hdr_of me t) (call_msg k) s = Inr (s', ms) \<Longrightarrow>
   serverLockTable s' = serverLockTable s \<and> messageQueue s' = messageQueue s \<and>
   (\<exists>M. ms = [M] \<and> addressee M = setIDs me 1)"
  by (auto simp: not_here_def call_request sendToMessageHandler_def Let_def answer_Inr pkt_to_hdr_of
      MESSAGE_MAILBOX_def dest: sent_to)


text \<open>The locks are as before, and one mail goes to the caller or to the message handler.\<close>

definition answered :: "int \<Rightarrow> ThreadID \<Rightarrow> remote_call \<Rightarrow> server \<Rightarrow> server \<Rightarrow> Mail list \<Rightarrow> bool" where
  "answered me t k s s' ms \<longleftrightarrow> (\<forall>l. owner s' l = owner s l \<and> waiting s' l = waiting s l) \<and>
     (\<exists>M. ms = [M] \<and> (addressee M = setIDs me 1 \<or>
        addressee M = t \<and> (\<forall>i. k = RAcquire i \<longrightarrow> remote_result (payload M) = Inr (-1))))"

definition granted :: "ThreadID \<Rightarrow> remote_call \<Rightarrow> server \<Rightarrow> server \<Rightarrow> Mail list \<Rightarrow> bool" where
  "granted t k s s' ms \<longleftrightarrow> (\<exists>i. k = RAcquire i \<and> owner s i = NO_OWNER \<and> waiting s i = [] \<and> owner s' i = t \<and>
     (\<forall>l. waiting s' l = waiting s l \<and> (l \<noteq> i \<longrightarrow> owner s' l = owner s l)) \<and> ms = [reply_mail t success_text])"

definition queued :: "ThreadID \<Rightarrow> remote_call \<Rightarrow> server \<Rightarrow> server \<Rightarrow> Mail list \<Rightarrow> bool" where
  "queued t k s s' ms \<longleftrightarrow> (\<exists>i. k = RAcquire i \<and> waiting s' i = waiting s i @ [Some t] \<and>
     (\<forall>l. owner s' l = owner s l \<and> (l \<noteq> i \<longrightarrow> waiting s' l = waiting s l)) \<and> ms = [])"

definition released :: "ThreadID \<Rightarrow> remote_call \<Rightarrow> server \<Rightarrow> server \<Rightarrow> Mail list \<Rightarrow> bool" where
  "released t k s s' ms \<longleftrightarrow> (\<exists>i. k = RRelease i \<and> owner s i = t \<and>
     (\<forall>l. l \<noteq> i \<longrightarrow> owner s' l = owner s l \<and> waiting s' l = waiting s l) \<and>
     ((waiting s i = [] \<and> waiting s' i = [] \<and> owner s' i = NO_OWNER \<and> ms = [reply_mail t success_text]) \<or>
      (\<exists>u. waiting s i = Some u # waiting s' i \<and> owner s' i = u \<and>
         ms = [reply_mail t success_text, reply_mail u success_text])))"

lemma answered_error:
  "sendErrorMessage t = Inr M \<Longrightarrow> \<forall>l. owner s' l = owner s l \<and> waiting s' l = waiting s l \<Longrightarrow> answered me t k s s' [M]"
  by (auto simp: answered_def sendError_eq remote_results reply_mail_def addressee_def setIDs_def split: if_splits)

lemma answered_forward:
  "not_here (hdr_of me t) (call_msg k) s = Inr (s', ms) \<Longrightarrow> answered me t k s s' ms"
  by (drule not_here_call) (auto simp: answered_def)

lemma answered_mail:
  "send_msg (machineID t) (threadID t) f m = Inr M \<Longrightarrow> \<forall>i. k \<noteq> RAcquire i \<Longrightarrow>
   \<forall>l. owner s' l = owner s l \<and> waiting s' l = waiting s l \<Longrightarrow> answered me t k s s' [M]"
  by (auto simp: answered_def dest!: sent_to) (simp add: setIDs_def)

lemma serve_acquire:
  assumes "Server_AQ (hdr_of me t) (call_msg (RAcquire i)) s = Inr (s', ms)"
  shows "answered me t (RAcquire i) s s' ms \<or> granted t (RAcquire i) s s' ms \<or> queued t (RAcquire i) s s' ms"
proof -
  let ?m = "call_msg (RAcquire i)" and ?h = "hdr_of me t" and ?L = "serverLockTable s i"
  have i: "index ?m = i" by (simp add: request_msg_def)
  consider "not_here ?h ?m s = Inr (s', ms)" | M where "s' = s" "sendErrorMessage t = Inr M" "ms = [M]"
    | M where "waiting s i = []" "owner s i = NO_OWNER" "s' = set_lock i (?L\<lparr>lock_owner := t\<rparr>) s"
      "sendSuccessMessage t = Inr M" "ms = [M]"
    | "s' = set_lock i (?L\<lparr>lock_queue := lock_queue ?L @ [Some t]\<rparr>) s" "ms = []"
    using assms
    by (auto simp: Server_AQ_def i call_request slot_get_Inr bindE_eq_Inr answer_Inr q_append_def
        simp del: call_msg.simps split: if_splits)
  then show ?thesis
  proof cases
    case 1
    then show ?thesis using answered_forward by blast
  next
    case 2
    then show ?thesis using answered_error [of t M s s me "RAcquire i"] by simp
  next
    case 3
    then have "granted t (RAcquire i) s s' ms"
      by (auto simp: granted_def set_lock_def sendSuccess_eq split: if_splits)
    then show ?thesis by blast
  next
    case 4
    then have "queued t (RAcquire i) s s' ms" by (auto simp: queued_def set_lock_def)
    then show ?thesis by blast
  qed
qed

lemma serve_release:
  assumes "Server_RL (hdr_of me t) (call_msg (RRelease i)) s = Inr (s', ms)" "threadID t \<noteq> 9"
  shows "answered me t (RRelease i) s s' ms \<or> released t (RRelease i) s s' ms"
proof -
  let ?m = "call_msg (RRelease i)" and ?h = "hdr_of me t" and ?L = "serverLockTable s i"
  let ?s1 = "set_lock i (?L\<lparr>lock_owner := NO_OWNER\<rparr>) s"
  have i: "index ?m = i" by (simp add: request_msg_def)
  have may: "may_release ?h ?m ?L \<longleftrightarrow> owner s i = t"
    using assms(2) by (simp add: may_release_def call_request del: call_msg.simps) (simp add: hdr_of_def)
  consider "not_here ?h ?m s = Inr (s', ms)" | M where "s' = s" "sendErrorMessage t = Inr M" "ms = [M]"
    | "owner s i = t" "waiting s i \<noteq> []"
      "\<exists>M ms2. sendSuccessMessage t = Inr M \<and> ms = M # ms2 \<and>
         grant_head i (?L\<lparr>lock_owner := NO_OWNER\<rparr>) ?s1 = Inr (s', ms2)"
    | "owner s i = t" "waiting s i = []" "\<exists>M. sendSuccessMessage t = Inr M \<and> ms = [M]"
      "s' = ?s1 \<or> s' = set_lock i (?L\<lparr>lock_owner := NO_OWNER, lock_isDeleted := True\<rparr>) s"
    using assms(1)
    by (auto simp: Server_RL_def i may call_request slot_get_Inr bindE_eq_Inr answer_Inr Let_def
        simp del: call_msg.simps split: if_splits)
  then show ?thesis
  proof cases
    case 1
    then show ?thesis using answered_forward by blast
  next
    case 2
    then show ?thesis using answered_error [of t M s s me "RRelease i"] by simp
  next
    case 3
    then obtain M ms2 where m: "sendSuccessMessage t = Inr M" "ms = M # ms2"
      "grant_head i (?L\<lparr>lock_owner := NO_OWNER\<rparr>) ?s1 = Inr (s', ms2)" by blast
    from grant_head_cases [OF m(3)] m(1,2) 3(1,2) have "released t (RRelease i) s s' ms"
      by (auto simp: released_def set_lock_def sendSuccess_eq split: if_splits)
    then show ?thesis by blast
  next
    case 4
    then have "released t (RRelease i) s s' ms"
      by (auto simp: released_def set_lock_def sendSuccess_eq split: if_splits)
    then show ?thesis by blast
  qed
qed

lemma serve_other:
  "Server_DL (hdr_of me t) (call_msg k) s = Inr (s', ms) \<Longrightarrow> \<forall>i. k \<noteq> RAcquire i \<Longrightarrow> answered me t k s s' ms"
  "Server_GM (hdr_of me t) (call_msg k) s = Inr (s', ms) \<Longrightarrow> \<forall>i. k \<noteq> RAcquire i \<Longrightarrow> answered me t k s s' ms"
  "Server_SM (hdr_of me t) (call_msg k) s = Inr (s', ms) \<Longrightarrow> \<forall>i. k \<noteq> RAcquire i \<Longrightarrow> answered me t k s s' ms"
  "Server_DM (hdr_of me t) (call_msg k) s = Inr (s', ms) \<Longrightarrow> \<forall>i. k \<noteq> RAcquire i \<Longrightarrow> answered me t k s s' ms"
  by (auto simp: Server_DL_def Server_GM_def Server_SM_def Server_DM_def call_request bindE_eq_Inr slot_get_Inr answer_Inr
      sendErrorMessage_def sendSuccessMessage_def sendMessage_def set_mv_def set_lock_def simp del: call_msg.simps
      intro: answered_forward answered_mail split: if_splits option.splits)

lemma serve_cases:
  assumes "Server_round (hdr_of me t) (msg_text (call_msg k)) r s = Inr (s', ms)" "call_ok k" "threadID t \<noteq> 9"
  shows "answered me t k s s' ms \<or> granted t k s s' ms \<or> queued t k s s' ms \<or> released t k s s' ms"
proof -
  have "Server_dispatch (hdr_of me t) (call_msg k) r s = Inr (s', ms)"
    using assms(1) by (simp add: Server_round_def decode_msg_text [OF call_msg_ok [OF assms(2)]] split: if_splits)
  then show ?thesis
    using serve_acquire [of me t _ s s' ms] serve_release [OF _ assms(3), of me _ s s' ms] serve_other [of me t k s s' ms]
    by (cases k) (auto simp: Server_dispatch_def request_msg_def)
qed


section \<open>The invariant\<close>

text \<open>
  What is under way for a thread: requests, mails addressed to it and its places in the queue of the
  lock it acquires.  Together there is at most one.
\<close>

definition nreq :: "cluster \<Rightarrow> ThreadID \<Rightarrow> nat" where
  "nreq c t = length (filter (\<lambda>x. sender (fst x) = t) (toServer c))"

definition nmail :: "cluster \<Rightarrow> ThreadID \<Rightarrow> nat" where
  "nmail c t = length (filter (\<lambda>M. addressee M = t) (toClients c))"

definition nwait :: "cluster \<Rightarrow> ThreadID \<Rightarrow> nat" where
  "nwait c t = (case calling c t of Some (RAcquire i) \<Rightarrow> count_list (waiting (srv c) i) (Some t) | _ \<Rightarrow> 0)"

definition held_inv :: "int \<Rightarrow> cluster \<Rightarrow> bool" where
  "held_inv me c \<longleftrightarrow> (\<forall>t i. i \<in> holding c t \<longrightarrow>
     client_addr me t \<and> owner (srv c) i = t \<and> calling c t \<noteq> Some (RRelease i))"

definition calling_inv :: "int \<Rightarrow> cluster \<Rightarrow> bool" where
  "calling_inv me c \<longleftrightarrow> (\<forall>t. calling c t \<noteq> None \<longrightarrow> client_addr me t)"

definition request_inv :: "int \<Rightarrow> cluster \<Rightarrow> bool" where
  "request_inv me c \<longleftrightarrow> (\<forall>x \<in> set (toServer c). \<exists>t k. x = (hdr_of me t, msg_text (call_msg k)) \<and>
     calling c t = Some k \<and> call_ok k)"

definition wait_inv :: "cluster \<Rightarrow> bool" where
  "wait_inv c \<longleftrightarrow> (\<forall>i t. Some t \<in> set (waiting (srv c) i) \<longrightarrow> calling c t = Some (RAcquire i))"

definition mail_inv :: "int \<Rightarrow> cluster \<Rightarrow> bool" where
  "mail_inv me c \<longleftrightarrow> (\<forall>M \<in> set (toClients c). client_addr me (addressee M) \<longrightarrow>
     (\<exists>k. calling c (addressee M) = Some k \<and>
       (\<forall>i. k = RAcquire i \<longrightarrow> remote_result (payload M) = Inr (-1) \<or> owner (srv c) i = addressee M)))"

definition single_inv :: "int \<Rightarrow> cluster \<Rightarrow> bool" where
  "single_inv me c \<longleftrightarrow> (\<forall>t. client_addr me t \<longrightarrow> nreq c t + nmail c t + nwait c t \<le> 1)"

definition cluster_inv :: "int \<Rightarrow> cluster \<Rightarrow> bool" where
  "cluster_inv me c \<longleftrightarrow> held_inv me c \<and> calling_inv me c \<and> request_inv me c \<and> wait_inv c \<and>
     mail_inv me c \<and> single_inv me c"

lemma not_client: "\<not> client_addr me NO_OWNER" "\<not> client_addr me (setIDs me 1)"
  by (simp_all add: client_addr_def NO_OWNER_def setIDs_def box_ok_def)

text \<open>The state behind one round of the server, and what held before it for its caller.\<close>

definition served :: "cluster \<Rightarrow> (Header \<times> string) list \<Rightarrow> server \<Rightarrow> Mail list \<Rightarrow> cluster" where
  "served c rest s' ms = c\<lparr>srv := s', toServer := rest, toClients := toClients c @ ms\<rparr>"

lemma served_fields [simp]:
  "srv (served c rs s' ms) = s'" "toServer (served c rs s' ms) = rs"
  "toClients (served c rs s' ms) = toClients c @ ms" "calling (served c rs s' ms) = calling c"
  "holding (served c rs s' ms) = holding c"
  by (simp_all add: served_def)

lemma nmail_served: "nmail (served c rs s' ms) u = nmail c u + length (filter (\<lambda>M. addressee M = u) ms)"
  by (simp add: nmail_def)

lemma nreq_served:
  "toServer c = xs @ (hdr_of me t, b) # ys \<Longrightarrow>
   nreq c u = nreq (served c (xs @ ys) s' ms) u + (if u = t then 1 else 0)"
  by (simp add: nreq_def)

lemma caller_idle:
  assumes "cluster_inv me c" "toServer c = xs @ (hdr_of me t, b) # ys"
  obtains k where "b = msg_text (call_msg k)" "calling c t = Some k" "call_ok k" "client_addr me t"
    "nreq (served c (xs @ ys) s' ms) t = 0" "nmail c t = 0" "nwait c t = 0"
proof -
  have "\<exists>t' k. (hdr_of me t, b) = (hdr_of me t', msg_text (call_msg k)) \<and> calling c t' = Some k \<and> call_ok k"
  proof -
    have "(hdr_of me t, b) \<in> set (toServer c)" using assms(2) by simp
    then show ?thesis using assms(1) unfolding cluster_inv_def request_inv_def by blast
  qed
  then obtain t' k where k: "hdr_of me t = hdr_of me t'" "b = msg_text (call_msg k)" "calling c t' = Some k" "call_ok k"
    by blast
  have "t' = t" using arg_cong [OF k(1), of sender] by simp
  moreover have cl: "client_addr me t" using assms(1) k(3) \<open>t' = t\<close> by (simp add: cluster_inv_def calling_inv_def)
  ultimately have c: "calling c t = Some k" "client_addr me t" using k(3) by simp_all
  have "nreq c t + nmail c t + nwait c t \<le> 1" using assms(1) cl by (simp add: cluster_inv_def single_inv_def)
  then have "nreq (served c (xs @ ys) s' ms) t = 0" "nmail c t = 0" "nwait c t = 0"
    using nreq_served [OF assms(2), of t s' ms] by simp_all
  then show ?thesis by (rule that [OF k(2) c(1) k(4) c(2)])
qed

lemma request_served:
  "request_inv me c \<Longrightarrow> toServer c = xs @ x # ys \<Longrightarrow> request_inv me (served c (xs @ ys) s' ms)"
  by (simp add: request_inv_def)

lemma nwait_pos: "wait_inv c \<Longrightarrow> Some t \<in> set (waiting (srv c) i) \<Longrightarrow> 0 < nwait c t"
  by (rule ccontr) (auto simp: wait_inv_def nwait_def count_list_0_iff)


text \<open>Each of the four outcomes of a call keeps the invariant.\<close>

lemma nwait_same: "waiting s' = waiting (srv c) \<Longrightarrow> nwait (served c rs s' ms) u = nwait c u"
  by (auto simp: nwait_def fun_eq_iff split: option.split remote_call.split)

lemma answered_keeps:
  assumes I: "cluster_inv me c" and e: "toServer c = xs @ (hdr_of me t, b) # ys" "calling c t = Some k"
    and a: "answered me t k (srv c) s' ms"
  shows "cluster_inv me (served c (xs @ ys) s' ms)"
proof -
  let ?c = "served c (xs @ ys) s' ms"
  obtain k' where t: "client_addr me t" "nreq ?c t = 0" "nmail c t = 0" "nwait c t = 0"
    by (rule caller_idle [OF I e(1), of s' ms]) blast
  have l: "owner s' l = owner (srv c) l" "waiting s' l = waiting (srv c) l" for l
    using a by (auto simp: answered_def)
  obtain M where M: "ms = [M]" "addressee M = setIDs me 1 \<or>
      addressee M = t \<and> (\<forall>i. k = RAcquire i \<longrightarrow> remote_result (payload M) = Inr (-1))"
    using a by (auto simp: answered_def)
  have w: "nwait ?c u = nwait c u" for u by (rule nwait_same) (simp add: l fun_eq_iff)
  have "single_inv me ?c" unfolding single_inv_def
  proof (intro allI impI)
    fix u assume u: "client_addr me u"
    then have "nreq c u + nmail c u + nwait c u \<le> 1" using I by (simp add: cluster_inv_def single_inv_def)
    moreover have "length (filter (\<lambda>M. addressee M = u) ms) \<le> (if u = t then 1 else 0)"
      using M u not_client(2) by auto
    ultimately show "nreq ?c u + nmail ?c u + nwait ?c u \<le> 1"
      using t nreq_served [OF e(1), of u s' ms] unfolding nmail_served w by (cases "u = t") simp_all
  qed
  moreover have "mail_inv me ?c"
    using I M(2) e(2) not_client(2) by (auto simp: cluster_inv_def mail_inv_def M(1) l)
  ultimately show ?thesis
    using I request_served [OF _ e(1)] by (simp add: cluster_inv_def held_inv_def calling_inv_def wait_inv_def l)
qed

lemma granted_keeps:
  assumes I: "cluster_inv me c" and e: "toServer c = xs @ (hdr_of me t, b) # ys" "calling c t = Some k"
    and a: "granted t k (srv c) s' ms"
  shows "cluster_inv me (served c (xs @ ys) s' ms)"
proof -
  let ?c = "served c (xs @ ys) s' ms"
  obtain k' where t: "client_addr me t" "nreq ?c t = 0" "nmail c t = 0" "nwait c t = 0"
    by (rule caller_idle [OF I e(1), of s' ms]) blast
  obtain i where i: "k = RAcquire i" "owner (srv c) i = NO_OWNER" "owner s' i = t" "ms = [reply_mail t success_text]"
    "\<forall>l. waiting s' l = waiting (srv c) l \<and> (l \<noteq> i \<longrightarrow> owner s' l = owner (srv c) l)"
    using a by (auto simp: granted_def)
  have w: "nwait ?c u = nwait c u" for u by (rule nwait_same) (simp add: i(5) fun_eq_iff)
  have free: "client_addr me u \<Longrightarrow> owner (srv c) l = u \<Longrightarrow> owner s' l = u" for u l
    using i(2,5) not_client(1) by (cases "l = i") auto
  have "single_inv me ?c" unfolding single_inv_def
  proof (intro allI impI)
    fix u assume u: "client_addr me u"
    then have "nreq c u + nmail c u + nwait c u \<le> 1" using I by (simp add: cluster_inv_def single_inv_def)
    moreover have "length (filter (\<lambda>M. addressee M = u) ms) = (if u = t then 1 else 0)" using i(4) by simp
    ultimately show "nreq ?c u + nmail ?c u + nwait ?c u \<le> 1"
      using t nreq_served [OF e(1), of u s' ms] unfolding nmail_served w by (cases "u = t") simp_all
  qed
  moreover have "mail_inv me ?c" unfolding mail_inv_def
  proof (intro ballI impI)
    fix M assume M: "M \<in> set (toClients ?c)" "client_addr me (addressee M)"
    show "\<exists>k. calling ?c (addressee M) = Some k \<and>
        (\<forall>i. k = RAcquire i \<longrightarrow> remote_result (payload M) = Inr (-1) \<or> owner (srv ?c) i = addressee M)"
    proof (cases "M \<in> set (toClients c)")
      case True
      then show ?thesis using I M(2) free [OF M(2)] by (fastforce simp: cluster_inv_def mail_inv_def)
    next
      case False
      then have "M = reply_mail t success_text" using M(1) i(4) by simp
      then show ?thesis using e(2) i(1,3) by simp
    qed
  qed
  moreover have "held_inv me ?c"
    using I free by (auto simp: cluster_inv_def held_inv_def)
  ultimately show ?thesis
    using I request_served [OF _ e(1)] i(5) by (simp add: cluster_inv_def calling_inv_def wait_inv_def)
qed

lemma queued_keeps:
  assumes I: "cluster_inv me c" and e: "toServer c = xs @ (hdr_of me t, b) # ys" "calling c t = Some k"
    and a: "queued t k (srv c) s' ms"
  shows "cluster_inv me (served c (xs @ ys) s' ms)"
proof -
  let ?c = "served c (xs @ ys) s' ms"
  obtain k' where t: "client_addr me t" "nreq ?c t = 0" "nmail c t = 0" "nwait c t = 0"
    by (rule caller_idle [OF I e(1), of s' ms]) blast
  obtain i where i: "k = RAcquire i" "waiting s' i = waiting (srv c) i @ [Some t]" "ms = []"
    "\<forall>l. owner s' l = owner (srv c) l \<and> (l \<noteq> i \<longrightarrow> waiting s' l = waiting (srv c) l)"
    using a by (auto simp: queued_def)
  have w: "nwait ?c u = nwait c u + (if u = t then 1 else 0)" for u
  proof -
    have q: "count_list (waiting s' l) (Some u) = count_list (waiting (srv c) l) (Some u) + (if u = t \<and> l = i then 1 else 0)" for l
      using i(2,4) by (cases "l = i") simp_all
    show ?thesis
    proof (cases "u = t")
      case True
      then show ?thesis using e(2) i(1) q [of i] by (simp add: nwait_def)
    next
      case False
      then show ?thesis using q by (simp add: nwait_def split: option.split remote_call.split)
    qed
  qed
  have "single_inv me ?c" unfolding single_inv_def
  proof (intro allI impI)
    fix u assume u: "client_addr me u"
    then have "nreq c u + nmail c u + nwait c u \<le> 1" using I by (simp add: cluster_inv_def single_inv_def)
    moreover have "length (filter (\<lambda>M. addressee M = u) ms) = 0" using i(3) by simp
    ultimately show "nreq ?c u + nmail ?c u + nwait ?c u \<le> 1"
      using t nreq_served [OF e(1), of u s' ms] unfolding nmail_served w by (cases "u = t") simp_all
  qed
  moreover have "wait_inv ?c" unfolding wait_inv_def
  proof (intro allI impI)
    fix l u assume u: "Some u \<in> set (waiting (srv ?c) l)"
    show "calling ?c u = Some (RAcquire l)"
    proof (cases "l = i \<and> u = t")
      case True
      then show ?thesis using e(2) i(1) by simp
    next
      case False
      then have "Some u \<in> set (waiting (srv c) l)" using u i(2,4) by (cases "l = i") auto
      then show ?thesis using I by (simp add: cluster_inv_def wait_inv_def)
    qed
  qed
  ultimately show ?thesis
    using I request_served [OF _ e(1)] i(3,4)
    by (simp add: cluster_inv_def held_inv_def calling_inv_def mail_inv_def)
qed


text \<open>A lock that is released goes to nobody who could hold another claim on it.\<close>

lemma released_keeps:
  assumes I: "cluster_inv me c" and e: "toServer c = xs @ (hdr_of me t, b) # ys" "calling c t = Some k"
    and a: "released t k (srv c) s' ms"
  shows "cluster_inv me (served c (xs @ ys) s' ms)"
proof -
  let ?c = "served c (xs @ ys) s' ms"
  obtain k' where t: "client_addr me t" "nreq ?c t = 0" "nmail c t = 0" "nwait c t = 0"
    by (rule caller_idle [OF I e(1), of s' ms]) blast
  obtain i where i: "k = RRelease i" "owner (srv c) i = t"
    "\<And>l. l \<noteq> i \<Longrightarrow> owner s' l = owner (srv c) l \<and> waiting s' l = waiting (srv c) l"
    "(waiting (srv c) i = [] \<and> waiting s' i = [] \<and> owner s' i = NO_OWNER \<and> ms = [reply_mail t success_text]) \<or>
      (\<exists>u. waiting (srv c) i = Some u # waiting s' i \<and> owner s' i = u \<and>
         ms = [reply_mail t success_text, reply_mail u success_text])"
    using a by (auto simp: released_def)
  have W: "wait_inv c" using I by (simp add: cluster_inv_def)
  have tw: "Some t \<notin> set (waiting (srv c) l)" for l using nwait_pos [OF W] t(4) by fastforce
  have kept: "v \<noteq> t \<Longrightarrow> owner (srv c) l = v \<Longrightarrow> owner s' l = v" for v l using i(2,3) by (cases "l = i") auto
  have ans: "length (filter (\<lambda>M. addressee M = v) ms) + nwait ?c v \<le> nwait c v + (if v = t then 1 else 0)" for v
  proof -
    let ?f = "length (filter (\<lambda>M. addressee M = v) ms)"
    have q: "?f + count_list (waiting s' i) (Some v) =
        count_list (waiting (srv c) i) (Some v) + (if v = t then 1 else 0)"
      using i(4) tw [of i] by auto
    have f: "?f \<le> (if v = t then 1 else 0)" if "calling c v \<noteq> Some (RAcquire i)"
    proof -
      have "Some v \<notin> set (waiting (srv c) i)" using W that by (auto simp: wait_inv_def)
      then show ?thesis using i(4) by auto
    qed
    show ?thesis
    proof (cases "calling c v = Some (RAcquire i)")
      case True
      then show ?thesis using q by (simp add: nwait_def)
    next
      case False
      then have "nwait ?c v = nwait c v"
        using i(3) by (auto simp: nwait_def split: option.split remote_call.split)
      then show ?thesis using f [OF False] by simp
    qed
  qed
  have "single_inv me ?c" unfolding single_inv_def
  proof (intro allI impI)
    fix v assume v: "client_addr me v"
    then have "nreq c v + nmail c v + nwait c v \<le> 1" using I by (simp add: cluster_inv_def single_inv_def)
    then show "nreq ?c v + nmail ?c v + nwait ?c v \<le> 1"
      using t ans [of v] nreq_served [OF e(1), of v s' ms] unfolding nmail_served by (cases "v = t") simp_all
  qed
  moreover have "wait_inv ?c" unfolding wait_inv_def
  proof (intro allI impI)
    fix l u assume "Some u \<in> set (waiting (srv ?c) l)"
    then have "Some u \<in> set (waiting (srv c) l)" using i(3,4) by (cases "l = i") auto
    then show "calling ?c u = Some (RAcquire l)" using W by (simp add: wait_inv_def)
  qed
  moreover have "mail_inv me ?c" unfolding mail_inv_def
  proof (intro ballI impI)
    fix M assume M: "M \<in> set (toClients ?c)" "client_addr me (addressee M)"
    show "\<exists>k. calling ?c (addressee M) = Some k \<and>
        (\<forall>j. k = RAcquire j \<longrightarrow> remote_result (payload M) = Inr (-1) \<or> owner (srv ?c) j = addressee M)"
    proof (cases "M \<in> set (toClients c)")
      case True
      have "addressee M \<noteq> t" using True t(3) by (auto simp: nmail_def filter_empty_conv)
      moreover obtain k2 where k2: "calling c (addressee M) = Some k2"
        "\<And>j. k2 = RAcquire j \<Longrightarrow> remote_result (payload M) = Inr (-1) \<or> owner (srv c) j = addressee M"
        using I M(2) True unfolding cluster_inv_def mail_inv_def by blast
      ultimately show ?thesis using kept by auto
    next
      case False
      then consider "M = reply_mail t success_text"
        | u where "M = reply_mail u success_text" "Some u \<in> set (waiting (srv c) i)" "owner s' i = u"
        using M(1) i(4) by auto
      then show ?thesis
      proof cases
        case 1
        then show ?thesis using e(2) i(1) by simp
      next
        case 2
        then show ?thesis using W by (simp add: wait_inv_def)
      qed
    qed
  qed
  moreover have "held_inv me ?c" unfolding held_inv_def
  proof (intro allI impI)
    fix v l assume v: "l \<in> holding ?c v"
    then have h: "client_addr me v" "owner (srv c) l = v" "calling c v \<noteq> Some (RRelease l)"
      using I by (auto simp: cluster_inv_def held_inv_def)
    show "client_addr me v \<and> owner (srv ?c) l = v \<and> calling ?c v \<noteq> Some (RRelease l)"
    proof (cases "l = i")
      case True
      then show ?thesis using h i(1,2) e(2) by simp
    next
      case False
      then show ?thesis using h i(3) by simp
    qed
  qed
  ultimately show ?thesis
    using I request_served [OF _ e(1)] by (simp add: cluster_inv_def calling_inv_def)
qed


section \<open>Every step keeps the invariant\<close>

lemma serve_keeps:
  assumes I: "cluster_inv me c" and e: "toServer c = xs @ (h, b) # ys"
    and r: "Server_round h b r (srv c) = Inr (s', ms)"
  shows "cluster_inv me (served c (xs @ ys) s' ms)"
proof -
  have "(h, b) \<in> set (toServer c)" using e by simp
  then obtain t k where k: "h = hdr_of me t" "b = msg_text (call_msg k)" "calling c t = Some k" "call_ok k"
    using I unfolding cluster_inv_def request_inv_def by blast
  have "threadID t \<noteq> 9" using I k(3) by (auto simp: cluster_inv_def calling_inv_def client_addr_def)
  from serve_cases [OF r [unfolded k(1,2)] k(4) this] show ?thesis
    using answered_keeps [OF I e [unfolded k(1)] k(3)] granted_keeps [OF I e [unfolded k(1)] k(3)]
      queued_keeps [OF I e [unfolded k(1)] k(3)] released_keeps [OF I e [unfolded k(1)] k(3)] by blast
qed

lemma hold_before_sub: "hold_before k S \<subseteq> S" "i \<in> hold_before (RRelease i) S \<Longrightarrow> False"
  by (cases k) auto

lemma call_keeps:
  assumes I: "cluster_inv me c" and t: "client_addr me t" "calling c t = None" and k: "call_ok k"
    "b = msg_text (call_msg k)"
  shows "cluster_inv me (c\<lparr>toServer := toServer c @ [(hdr_of me t, b)],
      calling := (calling c)(t := Some k), holding := (holding c)(t := hold_before k (holding c t))\<rparr>)"
    (is "cluster_inv me ?c")
proof -
  have W: "wait_inv c" and M: "mail_inv me c" and R: "request_inv me c" and H: "held_inv me c"
    and S: "single_inv me c" and C: "calling_inv me c" using I by (simp_all add: cluster_inv_def)
  have tw: "Some t \<notin> set (waiting (srv c) l)" for l using W t(2) by (auto simp: wait_inv_def)
  have tm: "x \<in> set (toClients c) \<Longrightarrow> addressee x \<noteq> t" for x using M t by (force simp: mail_inv_def)
  have tr: "x \<in> set (toServer c) \<Longrightarrow> sender (fst x) \<noteq> t" for x using R t(2) by (force simp: request_inv_def)
  have z: "nreq c t = 0" "nmail c t = 0"
    using tm tr by (auto simp: nreq_def nmail_def filter_empty_conv)
  have "single_inv me ?c" unfolding single_inv_def
  proof (intro allI impI)
    fix u assume u: "client_addr me u"
    have "nmail ?c u = nmail c u" "nreq ?c u = nreq c u + (if u = t then 1 else 0)"
      by (simp_all add: nmail_def nreq_def)
    moreover have "nwait ?c u = (if u = t then 0 else nwait c u)"
      using tw by (auto simp: nwait_def count_list_0_iff split: option.split remote_call.split)
    ultimately show "nreq ?c u + nmail ?c u + nwait ?c u \<le> 1"
      using S u z by (cases "u = t") (simp_all add: single_inv_def)
  qed
  moreover have "held_inv me ?c" unfolding held_inv_def
  proof (intro allI impI)
    fix u i assume u: "i \<in> holding ?c u"
    then have "i \<in> holding c u" using hold_before_sub(1) [of k "holding c t"] by (auto split: if_splits)
    moreover have "u = t \<Longrightarrow> k \<noteq> RRelease i" using u by auto
    ultimately show "client_addr me u \<and> owner (srv ?c) i = u \<and> calling ?c u \<noteq> Some (RRelease i)"
      using H by (simp add: held_inv_def)
  qed
  moreover have "wait_inv ?c" using W tw by (auto simp: wait_inv_def)
  moreover have "mail_inv me ?c" unfolding mail_inv_def
  proof (intro ballI impI)
    fix x assume x: "x \<in> set (toClients ?c)" "client_addr me (addressee x)"
    then show "\<exists>k. calling ?c (addressee x) = Some k \<and>
        (\<forall>i. k = RAcquire i \<longrightarrow> remote_result (payload x) = Inr (-1) \<or> owner (srv ?c) i = addressee x)"
      using M tm [of x] by (simp add: mail_inv_def)
  qed
  moreover have "request_inv me ?c" unfolding request_inv_def
  proof (intro ballI)
    fix x assume "x \<in> set (toServer ?c)"
    then consider "x \<in> set (toServer c)" | "x = (hdr_of me t, b)" by auto
    then show "\<exists>t k. x = (hdr_of me t, msg_text (call_msg k)) \<and> calling ?c t = Some k \<and> call_ok k"
    proof cases
      case 1
      then obtain u k' where "x = (hdr_of me u, msg_text (call_msg k'))" "calling c u = Some k'" "call_ok k'"
        using R unfolding request_inv_def by blast
      moreover from this(2) t(2) have "u \<noteq> t" by auto
      ultimately show ?thesis by auto
    next
      case 2
      with k show ?thesis by (intro exI [of _ t] exI [of _ k]) simp
    qed
  qed
  moreover have "calling_inv me ?c" using C t(1) by (simp add: calling_inv_def)
  ultimately show ?thesis by (simp only: cluster_inv_def simp_thms)
qed

lemma deliver_keeps:
  assumes I: "cluster_inv me c" and e: "toClients c = xs @ M # ys" "addressee M = t" "calling c t = Some k"
    "remote_result (payload M) = Inr v"
  shows "cluster_inv me (c\<lparr>toClients := xs @ ys, calling := (calling c)(t := None),
      holding := (holding c)(t := hold_after k v (holding c t))\<rparr>)" (is "cluster_inv me ?c")
proof -
  have W: "wait_inv c" and Ml: "mail_inv me c" and R: "request_inv me c" and H: "held_inv me c"
    and S: "single_inv me c" and C: "calling_inv me c" using I by (simp_all add: cluster_inv_def)
  have t: "client_addr me t" using C e(3) by (simp add: calling_inv_def)
  have nm: "nmail c u = nmail ?c u + (if u = t then 1 else 0)" for u using e(1,2) by (simp add: nmail_def)
  have z: "nreq c t = 0" "nmail ?c t = 0" "nwait c t = 0"
    using S t nm [of t] by (auto simp: single_inv_def dest!: spec [of _ t])
  have tr: "x \<in> set (toServer c) \<Longrightarrow> sender (fst x) \<noteq> t" for x using z(1) by (auto simp: nreq_def filter_empty_conv)
  have tm: "x \<in> set (toClients ?c) \<Longrightarrow> addressee x \<noteq> t" for x using z(2) by (auto simp: nmail_def filter_empty_conv)
  have tw: "Some t \<notin> set (waiting (srv c) l)" for l using nwait_pos [OF W] z(3) by fastforce
  have o: "owner (srv c) i = t" if "k = RAcquire i" "v \<noteq> -1" for i
  proof -
    have "M \<in> set (toClients c)" using e(1) by simp
    then show ?thesis using Ml t e(2-4) that by (fastforce simp: mail_inv_def)
  qed
  have "single_inv me ?c" unfolding single_inv_def
  proof (intro allI impI)
    fix u assume u: "client_addr me u"
    have "nreq ?c u = nreq c u" "nwait ?c u = (if u = t then 0 else nwait c u)"
      by (auto simp: nreq_def nwait_def split: option.split remote_call.split)
    then show "nreq ?c u + nmail ?c u + nwait ?c u \<le> 1"
      using S u z nm [of u] by (cases "u = t") (auto simp: single_inv_def)
  qed
  moreover have "held_inv me ?c" unfolding held_inv_def
  proof (intro allI impI)
    fix u i assume u: "i \<in> holding ?c u"
    have "i \<in> holding c u \<or> (u = t \<and> k = RAcquire i \<and> v \<noteq> -1)"
      using u by (cases k) (auto split: if_splits)
    then show "client_addr me u \<and> owner (srv ?c) i = u \<and> calling ?c u \<noteq> Some (RRelease i)"
      using H o t by (auto simp: held_inv_def)
  qed
  moreover have "wait_inv ?c" using W tw by (auto simp: wait_inv_def)
  moreover have "mail_inv me ?c" unfolding mail_inv_def
  proof (intro ballI impI)
    fix x assume x: "x \<in> set (toClients ?c)" "client_addr me (addressee x)"
    moreover have "x \<in> set (toClients c)" using x(1) e(1) by auto
    ultimately show "\<exists>k. calling ?c (addressee x) = Some k \<and>
        (\<forall>i. k = RAcquire i \<longrightarrow> remote_result (payload x) = Inr (-1) \<or> owner (srv ?c) i = addressee x)"
      using Ml tm [OF x(1)] by (simp add: mail_inv_def)
  qed
  moreover have "request_inv me ?c" unfolding request_inv_def
  proof (intro ballI)
    fix x assume "x \<in> set (toServer ?c)"
    then have x: "x \<in> set (toServer c)" by simp
    then obtain u k' where u: "x = (hdr_of me u, msg_text (call_msg k'))" "calling c u = Some k'" "call_ok k'"
      using R unfolding request_inv_def by blast
    have "u \<noteq> t" using tr [OF x] u(1) by auto
    with u show "\<exists>t k. x = (hdr_of me t, msg_text (call_msg k)) \<and> calling ?c t = Some k \<and> call_ok k" by auto
  qed
  moreover have "calling_inv me ?c" using C by (simp add: calling_inv_def)
  ultimately show ?thesis by (simp only: cluster_inv_def simp_thms)
qed

lemma cluster_init_inv: "cluster_init c \<Longrightarrow> cluster_inv me c"
  by (simp add: cluster_init_def cluster_inv_def held_inv_def calling_inv_def request_inv_def wait_inv_def
      mail_inv_def single_inv_def nreq_def nmail_def nwait_def)

lemma cstep_inv:
  assumes "cstep me c c'" "cluster_inv me c"
  shows "cluster_inv me c'"
  using assms
proof (cases rule: cstep.cases)
  case (c_call t k e M)
  then show ?thesis using call_keeps [OF assms(2), of t k] call_mail_payload by simp
next
  case (c_serve xs h b ys r s' ms)
  then show ?thesis using serve_keeps [OF assms(2)] by (simp add: served_def)
next
  case (c_deliver xs M ys t k v)
  then show ?thesis using deliver_keeps [OF assms(2)] by simp
qed

lemma creach_inv: "creach me c \<Longrightarrow> cluster_inv me c"
  by (induction rule: creach.induct) (auto intro: cluster_init_inv cstep_inv)

section \<open>Property\<close>



definition cluster1 :: cluster where
  "cluster1 = \<lparr>srv = set_lock 0 (new_lock ''L'') Server_init, toServer = [], toClients = [],
     calling = (\<lambda>_. None), holding = (\<lambda>_. {})\<rparr>"


end
