(* ===== verification/Nachos_Disk.thy ===== *)
theory Nachos_Disk
  imports Nachos_Bytes
begin

text \<open>
  The simulated disk (machine/disk.cc) and the synchronous interface to it (filesys/synchdisk.cc).
  The device accepts one request at a time, computes when it will be done from the position of the
  head, and clears its busy flag in the interrupt.  \<open>SynchDisk\<close> issues a request and waits for that
  interrupt; for its clients the disk is the map from sector numbers to their 128 bytes.
\<close>

section \<open>The device\<close>

definition SectorSize :: int where "SectorSize = 128"
definition SectorsPerTrack :: int where "SectorsPerTrack = 32"
definition NumTracks :: int where "NumTracks = 32"
definition NumSectors :: int where "NumSectors = SectorsPerTrack * NumTracks"
definition RotationTime :: int where "RotationTime = 500"
definition SeekTime :: int where "SeekTime = 500"

type_synonym sectors = "int \<Rightarrow> byte list"

record disk =
  contents :: sectors
  diskActive :: bool
  lastSector :: int
  bufferInit :: int
  diskReads :: int
  diskWrites :: int

text \<open>\<open>now\<close> is \<open>stats->totalTicks\<close>.  The result is the seek time and the rotational delay.\<close>

definition TimeToSeek :: "int \<Rightarrow> int \<Rightarrow> disk \<Rightarrow> int \<times> int" where
  "TimeToSeek now newSector d =
     (let newTrack = cdiv newSector SectorsPerTrack;
          oldTrack = cdiv (lastSector d) SectorsPerTrack;
          seek = \<bar>newTrack - oldTrack\<bar> * SeekTime;
          over = crem (now + seek) RotationTime in
      (seek, if over > 0 then RotationTime - over else 0))"

definition ModuloDiff :: "int \<Rightarrow> int \<Rightarrow> int" where
  "ModuloDiff to from = crem (crem to SectorsPerTrack - crem from SectorsPerTrack + SectorsPerTrack) SectorsPerTrack"

definition ComputeLatency :: "int \<Rightarrow> int \<Rightarrow> bool \<Rightarrow> disk \<Rightarrow> int" where
  "ComputeLatency now newSector writing d =
     (let (seek, rotation) = TimeToSeek now newSector d;
          timeAfter = now + seek + rotation in
      if \<not> writing \<and> seek = 0 \<and>
         cdiv (timeAfter - bufferInit d) RotationTime > ModuloDiff newSector (cdiv (bufferInit d) RotationTime)
      then RotationTime
      else seek + (rotation + ModuloDiff newSector (cdiv timeAfter RotationTime) * RotationTime) + RotationTime)"

definition UpdateLast :: "int \<Rightarrow> int \<Rightarrow> disk \<Rightarrow> disk" where
  "UpdateLast now newSector d =
     (let (seek, rotate) = TimeToSeek now newSector d in
      d\<lparr>bufferInit := (if seek \<noteq> 0 then now + seek + rotate else bufferInit d), lastSector := newSector\<rparr>)"

text \<open>A request gives the ticks after which the device interrupts.\<close>

definition ReadRequest :: "int \<Rightarrow> int \<Rightarrow> disk \<Rightarrow> fault + byte list \<times> int \<times> disk" where
  "ReadRequest now sectorNumber d =
     (let ticks = ComputeLatency now sectorNumber False d in
      bindE (assertE (\<not> diskActive d)) (\<lambda>_.
      bindE (assertE (sectorNumber \<ge> 0 \<and> sectorNumber < NumSectors)) (\<lambda>_.
      Inr (contents d sectorNumber, ticks,
        (UpdateLast now sectorNumber (d\<lparr>diskActive := True\<rparr>))\<lparr>diskReads := diskReads d + 1\<rparr>))))"

definition WriteRequest :: "int \<Rightarrow> int \<Rightarrow> byte list \<Rightarrow> disk \<Rightarrow> fault + int \<times> disk" where
  "WriteRequest now sectorNumber data d =
     (let ticks = ComputeLatency now sectorNumber True d in
      bindE (assertE (\<not> diskActive d)) (\<lambda>_.
      bindE (assertE (sectorNumber \<ge> 0 \<and> sectorNumber < NumSectors)) (\<lambda>_.
      Inr (ticks, (UpdateLast now sectorNumber
        (d\<lparr>contents := (contents d)(sectorNumber := data), diskActive := True\<rparr>))\<lparr>diskWrites := diskWrites d + 1\<rparr>))))"

definition HandleInterrupt :: "disk \<Rightarrow> disk" where
  "HandleInterrupt d = d\<lparr>diskActive := False\<rparr>"

section \<open>SynchDisk\<close>

text \<open>A request and the interrupt that \<open>semaphore->P()\<close> waits for.\<close>

definition SynchDisk_ReadSector :: "int \<Rightarrow> int \<Rightarrow> disk \<Rightarrow> fault + byte list \<times> disk" where
  "SynchDisk_ReadSector now n d = bindE (ReadRequest now n d) (\<lambda>(data, ticks, d1). Inr (data, HandleInterrupt d1))"

definition SynchDisk_WriteSector :: "int \<Rightarrow> int \<Rightarrow> byte list \<Rightarrow> disk \<Rightarrow> fault + disk" where
  "SynchDisk_WriteSector now n data d = bindE (WriteRequest now n data d) (\<lambda>(ticks, d1). Inr (HandleInterrupt d1))"

text \<open>What the file system sees.\<close>

definition ReadSector :: "int \<Rightarrow> sectors \<Rightarrow> fault + byte list" where
  "ReadSector n S = bindE (assertE (n \<ge> 0 \<and> n < NumSectors)) (\<lambda>_. Inr (S n))"

definition WriteSector :: "int \<Rightarrow> byte list \<Rightarrow> sectors \<Rightarrow> fault + sectors" where
  "WriteSector n data S = bindE (assertE (n \<ge> 0 \<and> n < NumSectors)) (\<lambda>_. Inr (S(n := data)))"

lemma UpdateLast_contents [simp]: "contents (UpdateLast now n d) = contents d" "diskActive (UpdateLast now n d) = diskActive d"
  by (simp_all add: UpdateLast_def Let_def split: prod.split)

text \<open>
  The synchronous disk implements a map from sector numbers to contents: on an idle device a read
  or write has the same result, the same failures and the same effect on the contents as on the map,
  and leaves the device idle, so that the device's assertion that no request is active never fails.
\<close>

theorem synchdisk_refines:
  assumes "\<not> diskActive d"
  shows "(case SynchDisk_ReadSector now n d of
       Inl e \<Rightarrow> ReadSector n (contents d) = Inl e
     | Inr (data, d') \<Rightarrow> ReadSector n (contents d) = Inr data \<and> contents d' = contents d \<and> \<not> diskActive d') \<and>
    (case SynchDisk_WriteSector now n data d of
       Inl e \<Rightarrow> WriteSector n data (contents d) = Inl e
     | Inr d' \<Rightarrow> WriteSector n data (contents d) = Inr (contents d') \<and> \<not> diskActive d')"
  using assms
  by (auto simp: SynchDisk_ReadSector_def SynchDisk_WriteSector_def ReadRequest_def WriteRequest_def ReadSector_def
      WriteSector_def HandleInterrupt_def Let_def assertE_def)

section \<open>Latency\<close>

lemma cdiv_pos: "0 \<le> a \<Longrightarrow> cdiv a b = a div b"
  by (simp add: cdiv_def)

lemma crem_pos: "0 \<le> a \<Longrightarrow> crem a b = a mod b"
  by (simp add: crem_def cdiv_pos minus_div_mult_eq_mod)

lemma ModuloDiff_mod:
  assumes "0 \<le> x" "0 \<le> y"
  shows "ModuloDiff x y = (x - y) mod 32"
proof -
  have "0 \<le> x mod 32 - y mod 32 + 32"
    using pos_mod_sign [of 32 x] pos_mod_bound [of 32 y] by linarith
  then show ?thesis using assms by (simp add: ModuloDiff_def SectorsPerTrack_def crem_pos mod_simps)
qed

lemma TimeToSeek_aligned:
  assumes "0 \<le> now" "TimeToSeek now n d = (seek, rot)"
  shows "(now + seek + rot) mod 500 = 0" "0 \<le> rot" "rot < 500" "0 \<le> seek"
    "seek = \<bar>cdiv n 32 - cdiv (lastSector d) 32\<bar> * 500"
proof -
  show s: "seek = \<bar>cdiv n 32 - cdiv (lastSector d) 32\<bar> * 500"
    using assms(2) by (auto simp: TimeToSeek_def Let_def SectorsPerTrack_def SeekTime_def)
  then show "0 \<le> seek" by simp
  then have r: "rot = (if (now + seek) mod 500 > 0 then 500 - (now + seek) mod 500 else 0)"
    using assms by (auto simp: TimeToSeek_def Let_def SectorsPerTrack_def SeekTime_def RotationTime_def crem_pos)
  have b: "0 \<le> (now + seek) mod 500" "(now + seek) mod 500 < 500" by simp_all
  then show "0 \<le> rot" "rot < 500" using r by auto
  show "(now + seek + rot) mod 500 = 0"
  proof (cases "(now + seek) mod 500 > 0")
    case True
    then have "now + seek + rot = (now + seek) - (now + seek) mod 500 + 500" using r by simp
    also have "\<dots> mod 500 = 0" by (simp add: minus_mod_eq_mult_div)
    finally show ?thesis .
  next
    case False
    then show ?thesis using r b(1) by simp
  qed
qed

text \<open>
  Where the head is.  A write starts its transfer at a sector boundary and with the wanted sector
  of the track under the head, one rotation unit before the latency is over; apart from the seek it
  waits for less than one turn of the disk.  A read has the same latency or, when the track buffer
  holds the sector, that of one transfer.
\<close>

theorem disk_latency:
  assumes "0 \<le> now" "0 \<le> n" "0 \<le> lastSector d"
  shows "let L = ComputeLatency now n True d; start = now + L - RotationTime in
      start mod RotationTime = 0 \<and> (start div RotationTime) mod SectorsPerTrack = n mod SectorsPerTrack \<and>
      now + SeekTime * \<bar>n div SectorsPerTrack - lastSector d div SectorsPerTrack\<bar> \<le> start \<and>
      start < now + SeekTime * \<bar>n div SectorsPerTrack - lastSector d div SectorsPerTrack\<bar> + RotationTime * SectorsPerTrack \<and>
      (ComputeLatency now n False d = L \<or> ComputeLatency now n False d = RotationTime)"
proof -
  obtain seek rot where t: "TimeToSeek now n d = (seek, rot)" by fastforce
  note a = TimeToSeek_aligned [OF assms(1) t]
  define T where "T = now + seek + rot"
  define k where "k = (n - T div 500) mod 32"
  have T: "0 \<le> T" "T mod 500 = 0" using a assms(1) by (simp_all add: T_def)
  have "ModuloDiff n (cdiv T 500) = k"
    using ModuloDiff_mod [OF assms(2), of "T div 500"] T(1) by (simp add: k_def cdiv_pos pos_imp_zdiv_nonneg_iff)
  then have L: "ComputeLatency now n True d = seek + (rot + k * 500) + 500"
    by (simp add: ComputeLatency_def t RotationTime_def T_def)
  have k: "0 \<le> k" "k < 32" by (simp_all add: k_def)
  have st: "now + (seek + (rot + k * 500) + 500) - 500 = T + k * 500" by (simp add: T_def)
  have "(T + k * 500) mod 500 = 0" using T(2) by simp
  moreover have "(T + k * 500) div 500 mod 32 = n mod 32"
    by (simp add: k_def mod_simps)
  moreover have "T + k * 500 < now + seek + 16000" using a(3) k by (simp add: T_def)
  moreover have "now + seek \<le> T + k * 500" using a(2) k by (simp add: T_def)
  moreover have "seek = 500 * \<bar>n div 32 - lastSector d div 32\<bar>" using a(5) assms by (simp add: cdiv_pos)
  moreover have "ComputeLatency now n False d = ComputeLatency now n True d \<or> ComputeLatency now n False d = RotationTime"
    by (simp add: ComputeLatency_def t Let_def)
  ultimately show ?thesis
    unfolding Let_def L RotationTime_def SectorsPerTrack_def SeekTime_def st by auto
qed

definition disk1 :: disk where
  "disk1 = \<lparr>contents = (\<lambda>_. replicate 128 0), diskActive = False, lastSector = 5, bufferInit = 0,
     diskReads = 0, diskWrites = 0\<rparr>"

theorem synchdisk_refines_witness:
  "\<exists>d'. SynchDisk_WriteSector 0 7 (replicate 128 1) disk1 = Inr d' \<and> \<not> diskActive d' \<and>
     WriteSector 7 (replicate 128 1) (contents disk1) = Inr (contents d')"
proof -
  have "\<not> diskActive disk1" by (simp add: disk1_def)
  from synchdisk_refines [where now = 0 and n = 7 and data = "replicate 128 1", OF this]
  show ?thesis by (auto simp: WriteSector_def NumSectors_def SectorsPerTrack_def NumTracks_def split: sum.splits)
qed

theorem disk_latency_witness:
  "let start = 1200 + ComputeLatency 1200 40 True disk1 - RotationTime in
     start mod RotationTime = 0 \<and> (start div RotationTime) mod 32 = 8"
proof -
  have "0 \<le> lastSector disk1" by (simp add: disk1_def)
  from disk_latency [OF _ _ this, of 1200 40] show ?thesis
    by (simp only: Let_def) (simp add: SectorsPerTrack_def)
qed

end
