(* ===== verification/Nachos_OpenFile.thy ===== *)
theory Nachos_OpenFile
  imports Nachos_Disk Nachos_Bitmap
begin

text \<open>
  File headers (filesys/filehdr.cc) and open files (filesys/openfile.cc) of the Nachos file system.
  A header is the sector-sized object that lists the data sectors of a file; \<open>ReadAt\<close> and
  \<open>WriteAt\<close> move bytes between a caller's buffer and those sectors.  The abstraction of a file is its
  contents, a list of bytes of the file's fixed length.
\<close>

section \<open>File headers\<close>

definition NumDirect :: nat where "NumDirect = 30"

record FileHeader =
  numBytes :: int
  numSectors :: int
  dataSectors :: "int list"

text \<open>The loop of \<open>Allocate\<close>; storing past the 30 entries of the array is out of bounds.\<close>

fun allocate_from :: "nat \<Rightarrow> nat \<Rightarrow> FileHeader \<Rightarrow> BitMap \<Rightarrow> fault + FileHeader \<times> BitMap" where
  "allocate_from i 0 h b = Inr (h, b)"
| "allocate_from i (Suc n) h b =
     bindE (BitMap_Find b) (\<lambda>(s, b1).
     bindE (arr_set (dataSectors h) (int i) s) (\<lambda>ds. allocate_from (Suc i) n (h\<lparr>dataSectors := ds\<rparr>) b1))"

definition FileHeader_Allocate :: "BitMap \<Rightarrow> int \<Rightarrow> FileHeader \<Rightarrow> fault + bool \<times> FileHeader \<times> BitMap" where
  "FileHeader_Allocate freeMap fileSize h =
     (let n = divRoundUp fileSize SectorSize; h1 = h\<lparr>numBytes := fileSize, numSectors := n\<rparr> in
      bindE (BitMap_NumClear freeMap) (\<lambda>c.
      if c < n then Inr (False, h1, freeMap)
      else bindE (allocate_from 0 (nat n) h1 freeMap) (\<lambda>(h2, b). Inr (True, h2, b))))"

fun deallocate_from :: "nat \<Rightarrow> nat \<Rightarrow> FileHeader \<Rightarrow> BitMap \<Rightarrow> fault + BitMap" where
  "deallocate_from i 0 h b = Inr b"
| "deallocate_from i (Suc n) h b =
     bindE (arr_get (dataSectors h) (int i)) (\<lambda>s.
     bindE (BitMap_Test s b) (\<lambda>t.
     bindE (assertE t) (\<lambda>_.
     bindE (BitMap_Clear s b) (deallocate_from (Suc i) n h))))"

definition FileHeader_Deallocate :: "BitMap \<Rightarrow> FileHeader \<Rightarrow> fault + BitMap" where
  "FileHeader_Deallocate freeMap h = deallocate_from 0 (nat (numSectors h)) h freeMap"

text \<open>A header in a sector: 32 integers of four bytes.\<close>

definition int_bytes :: "int \<Rightarrow> byte list" where
  "int_bytes i = bytes_of_word 4 (word_of_int i)"

definition int_at :: "byte list \<Rightarrow> nat \<Rightarrow> int" where
  "int_at bs k = sint (word_of_bytes (take 4 (drop k bs)))"

definition header_bytes :: "FileHeader \<Rightarrow> byte list" where
  "header_bytes h = concat (map int_bytes (numBytes h # numSectors h # dataSectors h))"

definition bytes_header :: "byte list \<Rightarrow> FileHeader" where
  "bytes_header bs = \<lparr>numBytes = int_at bs 0, numSectors = int_at bs 4,
     dataSectors = map (\<lambda>i. int_at bs (8 + 4 * i)) [0..<NumDirect]\<rparr>"

definition FileHeader_FetchFrom :: "int \<Rightarrow> sectors \<Rightarrow> fault + FileHeader" where
  "FileHeader_FetchFrom sector S = bindE (ReadSector sector S) (\<lambda>data. Inr (bytes_header data))"

definition FileHeader_WriteBack :: "int \<Rightarrow> FileHeader \<Rightarrow> sectors \<Rightarrow> fault + sectors" where
  "FileHeader_WriteBack sector h S = WriteSector sector (header_bytes h) S"

definition ByteToSector :: "int \<Rightarrow> FileHeader \<Rightarrow> fault + int" where
  "ByteToSector offset h = arr_get (dataSectors h) (cdiv offset SectorSize)"

definition FileLength :: "FileHeader \<Rightarrow> int" where
  "FileLength h = numBytes h"

section \<open>Open files\<close>

record OpenFile =
  hdr :: FileHeader
  seekPosition :: int

definition OpenFile_new :: "int \<Rightarrow> sectors \<Rightarrow> fault + OpenFile" where
  "OpenFile_new sector S = bindE (FileHeader_FetchFrom sector S) (\<lambda>h. Inr \<lparr>hdr = h, seekPosition = 0\<rparr>)"

definition OpenFile_Seek :: "int \<Rightarrow> OpenFile \<Rightarrow> OpenFile" where
  "OpenFile_Seek position f = f\<lparr>seekPosition := position\<rparr>"

definition OpenFile_Length :: "OpenFile \<Rightarrow> int" where
  "OpenFile_Length f = FileLength (hdr f)"

text \<open>The loops over the sectors of a request, from sector \<open>i\<close> of the file on.\<close>

fun read_sectors :: "FileHeader \<Rightarrow> int \<Rightarrow> nat \<Rightarrow> sectors \<Rightarrow> fault + byte list" where
  "read_sectors h i 0 S = Inr []"
| "read_sectors h i (Suc n) S =
     bindE (ByteToSector (i * SectorSize) h) (\<lambda>s.
     bindE (ReadSector s S) (\<lambda>data.
     bindE (read_sectors h (i + 1) n S) (\<lambda>rest. Inr (data @ rest))))"

fun write_sectors :: "FileHeader \<Rightarrow> int \<Rightarrow> nat \<Rightarrow> byte list \<Rightarrow> sectors \<Rightarrow> fault + sectors" where
  "write_sectors h i 0 buf S = Inr S"
| "write_sectors h i (Suc n) buf S =
     bindE (ByteToSector (i * SectorSize) h) (\<lambda>s.
     bindE (WriteSector s (take 128 buf) S) (\<lambda>S1. write_sectors h (i + 1) n (drop 128 buf) S1))"

text \<open>
  \<open>ReadAt\<close> gives the bytes copied to the caller; their number is its result.  Copying from before the
  start of the buffer, for a negative position, is out of bounds.
\<close>

definition OpenFile_ReadAt :: "int \<Rightarrow> int \<Rightarrow> OpenFile \<Rightarrow> sectors \<Rightarrow> fault + byte list" where
  "OpenFile_ReadAt n position f S =
     (let fileLength = FileLength (hdr f) in
      if n \<le> 0 \<or> position \<ge> fileLength then Inr []
      else
        let n1 = (if position + n > fileLength then fileLength - position else n);
            firstSector = cdiv position SectorSize;
            lastSector = cdiv (position + n1 - 1) SectorSize;
            offset = position - firstSector * SectorSize in
        bindE (read_sectors (hdr f) firstSector (nat (1 + lastSector - firstSector)) S) (\<lambda>buf.
        if offset < 0 then Inl OutOfBounds else Inr (take (nat n1) (drop (nat offset) buf))))"

text \<open>
  \<open>WriteAt\<close>: \<open>src\<close> is the caller's buffer, \<open>stale\<close> what the new buffer happens to hold.  The result
  is the number of bytes written.
\<close>

definition OpenFile_WriteAt ::
  "(nat \<Rightarrow> byte) \<Rightarrow> byte list \<Rightarrow> int \<Rightarrow> int \<Rightarrow> OpenFile \<Rightarrow> sectors \<Rightarrow> fault + int \<times> sectors" where
  "OpenFile_WriteAt stale src n position f S =
     (let fileLength = FileLength (hdr f) in
      if n \<le> 0 \<or> position \<ge> fileLength then Inr (0, S)
      else
        let n1 = (if position + n > fileLength then fileLength - position else n);
            firstSector = cdiv position SectorSize;
            lastSector = cdiv (position + n1 - 1) SectorSize;
            count = nat (1 + lastSector - firstSector);
            offset = position - firstSector * SectorSize;
            firstAligned = (position = firstSector * SectorSize);
            lastAligned = (position + n1 = (lastSector + 1) * SectorSize);
            buf0 = map stale [0..<count * 128] in
        bindE (if \<not> firstAligned then OpenFile_ReadAt SectorSize (firstSector * SectorSize) f S else Inr []) (\<lambda>b1.
        let buf1 = store_bytes 0 b1 buf0 in
        bindE (if \<not> lastAligned \<and> (firstSector \<noteq> lastSector \<or> firstAligned)
               then OpenFile_ReadAt SectorSize (lastSector * SectorSize) f S else Inr []) (\<lambda>b2.
        let buf2 = store_bytes (nat ((lastSector - firstSector) * SectorSize)) b2 buf1 in
        if offset < 0 \<or> nat n1 > length src then Inl OutOfBounds
        else
          let buf3 = store_bytes (nat offset) (take (nat n1) src) buf2 in
          bindE (write_sectors (hdr f) firstSector count buf3 S) (\<lambda>S1. Inr (n1, S1)))))"

definition OpenFile_Read :: "int \<Rightarrow> OpenFile \<Rightarrow> sectors \<Rightarrow> fault + byte list \<times> OpenFile" where
  "OpenFile_Read n f S =
     bindE (OpenFile_ReadAt n (seekPosition f) f S) (\<lambda>bs.
     Inr (bs, f\<lparr>seekPosition := seekPosition f + int (length bs)\<rparr>))"

definition OpenFile_Write ::
  "(nat \<Rightarrow> byte) \<Rightarrow> byte list \<Rightarrow> int \<Rightarrow> OpenFile \<Rightarrow> sectors \<Rightarrow> fault + int \<times> OpenFile \<times> sectors" where
  "OpenFile_Write stale src n f S =
     bindE (OpenFile_WriteAt stale src n (seekPosition f) f S) (\<lambda>(r, S1).
     Inr (r, f\<lparr>seekPosition := seekPosition f + r\<rparr>, S1))"

section \<open>Headers in sectors\<close>

definition disk_ok :: "sectors \<Rightarrow> bool" where
  "disk_ok S \<longleftrightarrow> (\<forall>n. 0 \<le> n \<and> n < 1024 \<longrightarrow> length (S n) = 128)"

lemma NumSectors_val [simp]: "NumSectors = 1024"
  by (simp add: NumSectors_def SectorsPerTrack_def NumTracks_def)

lemma SectorSize_val [simp]: "SectorSize = 128"
  by (simp add: SectorSize_def)

lemma NumDirect_val [simp]: "NumDirect = 30"
  by (simp add: NumDirect_def)

definition small_int :: "int \<Rightarrow> bool" where
  "small_int i \<longleftrightarrow> - (2 ^ 31) \<le> i \<and> i < 2 ^ 31"

lemma int_bytes_length [simp]: "length (int_bytes i) = 4"
  by (simp add: int_bytes_def)

lemma int_at_bytes: "small_int i \<Longrightarrow> int_at (int_bytes i @ r) 0 = i"
  by (simp add: int_at_def int_bytes_def read_written_4 small_int_def sint_sbintrunc' signed_take_bit_int_eq_self)

lemma int_at_skip: "length p = k \<Longrightarrow> int_at (p @ r) (k + j) = int_at r j"
  by (simp add: int_at_def)

lemma ints_at: "k < length is \<Longrightarrow> list_all small_int is \<Longrightarrow> int_at (concat (map int_bytes is) @ r) (4 * k) = is ! k"
proof (induction "is" arbitrary: k)
  case Nil
  then show ?case by simp
next
  case (Cons i "is")
  show ?case
  proof (cases k)
    case 0
    then show ?thesis using Cons.prems int_at_bytes by simp
  next
    case (Suc j)
    then show ?thesis
      using Cons int_at_skip [of "int_bytes i" 4 "concat (map int_bytes is) @ r" "4 * j"] by (simp add: algebra_simps)
  qed
qed

lemma concat_int_bytes_length: "length (concat (map int_bytes is)) = 4 * length is"
  by (induction "is") auto

definition header_ints_ok :: "FileHeader \<Rightarrow> bool" where
  "header_ints_ok h \<longleftrightarrow> length (dataSectors h) = 30 \<and> small_int (numBytes h) \<and> small_int (numSectors h) \<and>
     list_all small_int (dataSectors h)"

lemma header_bytes_length: "length (dataSectors h) = 30 \<Longrightarrow> length (header_bytes h) = 128"
  unfolding header_bytes_def concat_int_bytes_length by simp

lemma header_roundtrip:
  assumes "header_ints_ok h"
  shows "bytes_header (header_bytes h) = h"
proof -
  let ?is = "numBytes h # numSectors h # dataSectors h"
  have ok: "list_all small_int ?is" "length ?is = 32" using assms by (simp_all add: header_ints_ok_def)
  have at: "k < 32 \<Longrightarrow> int_at (header_bytes h) (4 * k) = ?is ! k" for k
    using ints_at [of k ?is "[]"] ok unfolding header_bytes_def by simp
  have "map (\<lambda>i. int_at (header_bytes h) (8 + 4 * i)) [0..<30] = dataSectors h"
  proof (rule nth_equalityI)
    show "length (map (\<lambda>i. int_at (header_bytes h) (8 + 4 * i)) [0..<30]) = length (dataSectors h)" using ok by simp
    fix i assume "i < length (map (\<lambda>i. int_at (header_bytes h) (8 + 4 * i)) [0..<30])"
    then show "map (\<lambda>i. int_at (header_bytes h) (8 + 4 * i)) [0..<30] ! i = dataSectors h ! i"
      using at [of "i + 2"] by (simp add: algebra_simps)
  qed
  then show ?thesis using at [of 0] at [of 1] by (simp add: bytes_header_def)
qed


section \<open>The contents of a file\<close>

definition file_sectors :: "FileHeader \<Rightarrow> int list" where
  "file_sectors h = take (nat (numSectors h)) (dataSectors h)"

definition file_content :: "FileHeader \<Rightarrow> sectors \<Rightarrow> byte list" where
  "file_content h S = take (nat (numBytes h)) (concat (map S (file_sectors h)))"

text \<open>A header whose sectors are on the disk, each used once.\<close>

definition hdr_ok :: "FileHeader \<Rightarrow> bool" where
  "hdr_ok h \<longleftrightarrow> length (dataSectors h) = 30 \<and> 0 \<le> numBytes h \<and> numBytes h \<le> 3840 \<and>
     numSectors h = divRoundUp (numBytes h) 128 \<and> distinct (file_sectors h) \<and>
     (\<forall>s \<in> set (file_sectors h). 0 \<le> s \<and> s < 1024)"

lemma divRoundUp_bounds: "n \<le> 128 * divRoundUp n 128" "divRoundUp n 128 * 128 < n + 128"
proof -
  define q r where "q = n div 128" and "r = n mod 128"
  have n: "n = 128 * q + r" "0 \<le> r" "r < 128" by (simp_all add: q_def r_def)
  have d: "divRoundUp n 128 = q + (if r > 0 then 1 else 0)" by (simp add: divRoundUp_def q_def r_def)
  show "n \<le> 128 * divRoundUp n 128" using n unfolding d by (cases "r > 0") simp_all
  show "divRoundUp n 128 * 128 < n + 128" using n unfolding d by (cases "r > 0") simp_all
qed

lemma hdr_ok_count:
  assumes "hdr_ok h"
  shows "0 \<le> numSectors h" "numSectors h \<le> 30" "numBytes h \<le> 128 * numSectors h"
    "numSectors h * 128 < numBytes h + 128"
proof -
  have n: "numSectors h = divRoundUp (numBytes h) 128" "0 \<le> numBytes h" "numBytes h \<le> 3840"
    using assms by (simp_all add: hdr_ok_def)
  show b: "numBytes h \<le> 128 * numSectors h" "numSectors h * 128 < numBytes h + 128"
    unfolding n(1) by (rule divRoundUp_bounds)+
  show "0 \<le> numSectors h" "numSectors h \<le> 30" using b n(2,3) by linarith+
qed

lemma file_sectors_length: "hdr_ok h \<Longrightarrow> length (file_sectors h) = nat (numSectors h)"
proof -
  assume h: "hdr_ok h"
  then have "length (dataSectors h) = 30" by (simp add: hdr_ok_def)
  then show ?thesis using hdr_ok_count(2) [OF h] by (simp add: file_sectors_def)
qed

lemma file_sector_ok:
  assumes "hdr_ok h" "k < nat (numSectors h)"
  shows "file_sectors h ! k = dataSectors h ! k" "0 \<le> dataSectors h ! k" "dataSectors h ! k < 1024"
proof -
  show f: "file_sectors h ! k = dataSectors h ! k" using assms(2) by (simp add: file_sectors_def)
  have "file_sectors h ! k \<in> set (file_sectors h)" using assms file_sectors_length by simp
  then show "0 \<le> dataSectors h ! k" "dataSectors h ! k < 1024" using assms(1) f by (auto simp: hdr_ok_def)
qed

lemma data_sectors_distinct:
  assumes "hdr_ok h" "k < nat (numSectors h)" "j < nat (numSectors h)" "j \<noteq> k"
  shows "dataSectors h ! k \<noteq> dataSectors h ! j"
proof -
  have "distinct (file_sectors h)" using assms(1) by (simp add: hdr_ok_def)
  then have "file_sectors h ! k \<noteq> file_sectors h ! j"
    using assms(2-4) file_sectors_length [OF assms(1)] by (simp add: nth_eq_iff_index_eq)
  then show ?thesis using file_sector_ok(1) [OF assms(1)] assms(2,3) by simp
qed

lemma concat_blocks_length: "\<forall>x \<in> set xs. length (f x) = c \<Longrightarrow> length (concat (map f xs)) = c * length xs"
  by (induction xs) auto

lemma concat_blocks_nth:
  "\<forall>x \<in> set xs. length (f x) = c \<Longrightarrow> i < c * length xs \<Longrightarrow> concat (map f xs) ! i = f (xs ! (i div c)) ! (i mod c)"
proof (induction xs arbitrary: i)
  case Nil
  then show ?case by simp
next
  case (Cons x xs)
  show ?case
  proof (cases "i < c")
    case True
    then show ?thesis using Cons.prems by (simp add: nth_append)
  next
    case False
    moreover have "0 < c" using Cons.prems(2) by (cases c) auto
    ultimately show ?thesis using Cons.IH [of "i - c"] Cons.prems
      by (simp add: nth_append le_div_geq le_mod_geq)
  qed
qed

lemma sectors_length:
  assumes "disk_ok S" "hdr_ok h"
  shows "\<forall>s \<in> set (file_sectors h). length (S s) = 128"
  using assms by (auto simp: disk_ok_def hdr_ok_def)

lemma file_content_length:
  assumes "disk_ok S" "hdr_ok h"
  shows "length (file_content h S) = nat (numBytes h)"
proof -
  have "nat (numBytes h) \<le> 128 * nat (numSectors h)" using hdr_ok_count [OF assms(2)] by linarith
  then show ?thesis
    using concat_blocks_length [OF sectors_length [OF assms]] file_sectors_length [OF assms(2)]
    by (simp add: file_content_def)
qed

lemma file_content_nth:
  assumes "disk_ok S" "hdr_ok h" "i < nat (numBytes h)"
  shows "file_content h S ! i = S (dataSectors h ! (i div 128)) ! (i mod 128)"
proof -
  have i: "i < 128 * length (file_sectors h)" "i div 128 < nat (numSectors h)"
    using assms(3) hdr_ok_count [OF assms(2)] file_sectors_length [OF assms(2)] by auto
  then show ?thesis
    using concat_blocks_nth [OF sectors_length [OF assms(1,2)] i(1)] assms(3) file_sector_ok(1) [OF assms(2) i(2)]
    by (simp add: file_content_def)
qed

lemma ByteToSector_ok:
  assumes "hdr_ok h" "k < nat (numSectors h)"
  shows "ByteToSector (int k * SectorSize) h = Inr (dataSectors h ! k)"
  using assms hdr_ok_count(2) [OF assms(1)]
  by (simp add: ByteToSector_def cdiv_pos arr_get_def in_range_def hdr_ok_def)

lemma read_sectors_ok:
  assumes "disk_ok S" "hdr_ok h"
  shows "k + n \<le> nat (numSectors h) \<Longrightarrow>
    read_sectors h (int k) n S = Inr (concat (map (\<lambda>j. S (dataSectors h ! j)) [k..<k + n]))"
proof (induction n arbitrary: k)
  case 0
  then show ?case by simp
next
  case (Suc n)
  then have "k < nat (numSectors h)" by simp
  note b = ByteToSector_ok [OF assms(2) this] file_sector_ok [OF assms(2) this]
  have "read_sectors h (int k + 1) n S = Inr (concat (map (\<lambda>j. S (dataSectors h ! j)) [Suc k..<Suc k + n]))"
    using Suc.IH [of "Suc k"] Suc.prems by (simp add: add.commute)
  with b show ?case
    by (simp add: ReadSector_def upt_conv_Cons del: upt_Suc)
qed

text \<open>The write loop replaces the listed sectors by the chunks of the buffer and nothing else.\<close>

lemma write_sectors_ok:
  assumes "hdr_ok h"
  shows "k + n \<le> nat (numSectors h) \<Longrightarrow>
    \<exists>S'. write_sectors h (int k) n buf S = Inr S' \<and>
      (\<forall>j. k \<le> j \<and> j < k + n \<longrightarrow> S' (dataSectors h ! j) = take 128 (drop ((j - k) * 128) buf)) \<and>
      (\<forall>s. (\<forall>j. k \<le> j \<and> j < k + n \<longrightarrow> s \<noteq> dataSectors h ! j) \<longrightarrow> S' s = S s)"
proof (induction n arbitrary: k buf S)
  case 0
  show ?case by (intro exI [of _ S]) auto
next
  case (Suc n)
  then have k: "k < nat (numSectors h)" by simp
  note b = ByteToSector_ok [OF assms k] file_sector_ok [OF assms k]
  let ?S = "S(dataSectors h ! k := take 128 buf)"
  from Suc.prems have "Suc k + n \<le> nat (numSectors h)" by simp
  from Suc.IH [OF this, of "drop 128 buf" ?S] obtain S' where
    S': "write_sectors h (int (Suc k)) n (drop 128 buf) ?S = Inr S'"
    "\<forall>j. Suc k \<le> j \<and> j < Suc k + n \<longrightarrow> S' (dataSectors h ! j) = take 128 (drop ((j - Suc k) * 128) (drop 128 buf))"
    "\<forall>s. (\<forall>j. Suc k \<le> j \<and> j < Suc k + n \<longrightarrow> s \<noteq> dataSectors h ! j) \<longrightarrow> S' s = ?S s" by blast
  have ne: "dataSectors h ! k \<noteq> dataSectors h ! j" if "k < j" "j < nat (numSectors h)" for j
    using data_sectors_distinct [OF assms k that(2)] that(1) by simp
  have "S' (dataSectors h ! k) = take 128 buf" using S'(3) ne Suc.prems by auto
  moreover have "S' (dataSectors h ! j) = take 128 (drop ((j - k) * 128) buf)" if "k < j" "j < k + Suc n" for j
  proof -
    have "(j - Suc k) * 128 + 128 = (j - k) * 128" using that(1) by (simp add: algebra_simps flip: mult_Suc_right)
    then show ?thesis using S'(2) that by (simp add: add.commute)
  qed
  moreover have "S' s = S s" if "\<forall>j. k \<le> j \<and> j < k + Suc n \<longrightarrow> s \<noteq> dataSectors h ! j" for s
    using S'(3) that by (auto simp: Suc_le_eq)
  moreover have "write_sectors h (int k) (Suc n) buf S = Inr S'"
    using b S'(1) by (simp add: WriteSector_def add.commute)
  ultimately show ?case by (intro exI [of _ S']) (auto simp: le_less)
qed


section \<open>ReadAt and WriteAt on the contents\<close>

text \<open>The first and last sector of a request, as numbers.\<close>

lemma request_sectors:
  assumes "0 \<le> pos" "0 < m" "pos + int m \<le> numBytes h" "hdr_ok h"
  defines "F \<equiv> nat pos div 128" and "L \<equiv> (nat pos + m - 1) div 128"
  shows "cdiv pos SectorSize = int F" "cdiv (pos + int m - 1) SectorSize = int L" "F \<le> L" "L < nat (numSectors h)"
    "nat (1 + int L - int F) = Suc L - F" "pos - int F * SectorSize = int (nat pos mod 128)"
proof -
  show "cdiv pos SectorSize = int F" using assms(1) by (simp add: cdiv_pos F_def zdiv_int)
  have "pos + int m - 1 = int (nat pos + m - 1)" using assms(1,2) by simp
  then show "cdiv (pos + int m - 1) SectorSize = int L" by (simp add: cdiv_pos L_def zdiv_int)
  show fl: "F \<le> L" unfolding F_def L_def by (rule div_le_mono) (use assms(2) in simp)
  have "nat pos + m - 1 < 128 * nat (numSectors h)"
    using assms(1-3) hdr_ok_count [OF assms(4)] by linarith
  then show "L < nat (numSectors h)" by (simp add: L_def less_mult_imp_div_less mult.commute)
  show "nat (1 + int L - int F) = Suc L - F" using fl by linarith
  have "nat pos = F * 128 + nat pos mod 128" unfolding F_def by simp
  then have "int (nat pos) = int (F * 128 + nat pos mod 128)" by (rule arg_cong)
  then show "pos - int F * SectorSize = int (nat pos mod 128)" using assms(1) by simp
qed

lemma sector_run_length:
  assumes "disk_ok S" "hdr_ok h" "F + c \<le> nat (numSectors h)"
  shows "length (concat (map (\<lambda>j. S (dataSectors h ! j)) [F..<F + c])) = 128 * c"
proof -
  have "\<forall>j \<in> set [F..<F + c]. length (S (dataSectors h ! j)) = 128"
    using assms file_sector_ok [OF assms(2)] by (auto simp: disk_ok_def)
  from concat_blocks_length [OF this] show ?thesis by simp
qed

lemma sector_run_nth:
  assumes "disk_ok S" "hdr_ok h" "F + c \<le> nat (numSectors h)" "i < 128 * c"
  shows "concat (map (\<lambda>j. S (dataSectors h ! j)) [F..<F + c]) ! i = S (dataSectors h ! (F + i div 128)) ! (i mod 128)"
proof -
  have "\<forall>j \<in> set [F..<F + c]. length (S (dataSectors h ! j)) = 128"
    using assms file_sector_ok [OF assms(2)] by (auto simp: disk_ok_def)
  from concat_blocks_nth [OF this, of i] assms(4) show ?thesis by (simp add: less_mult_imp_div_less mult.commute)
qed

lemma div_mod_shift: "a div 128 + (a mod 128 + i) div 128 = (a + i) div 128" "(a mod 128 + i) mod 128 = (a + i) mod (128::nat)"
proof -
  have "a + i = 128 * (a div 128) + (a mod 128 + i)" by simp
  then have "(a + i) div 128 = (128 * (a div 128) + (a mod 128 + i)) div 128" by (rule arg_cong)
  then show "a div 128 + (a mod 128 + i) div 128 = (a + i) div 128"
    by (simp only: div_mult_self4 zero_neq_numeral not_False_eq_True)
  show "(a mod 128 + i) mod 128 = (a + i) mod 128" by (simp add: mod_simps)
qed

lemma below_next: "(x::nat) < 128 * Suc (x div 128)"
proof -
  have "x = x div 128 * 128 + x mod 128" "x mod 128 < 128" by simp_all
  then show ?thesis by simp
qed

lemma below_end: "0 < y \<Longrightarrow> (y::nat) \<le> 128 * Suc ((y - 1) div 128)"
  using below_next [of "y - 1"] by (cases y) simp_all

text \<open>A request within the file gives that part of its contents.\<close>

lemma ReadAt_part:
  assumes "disk_ok S" "hdr_ok (hdr f)" "0 \<le> pos" "0 < m" "pos + int m \<le> numBytes (hdr f)"
    "n = int m \<or> (int m \<le> n \<and> pos + int m = numBytes (hdr f))"
  shows "OpenFile_ReadAt n pos f S = Inr (take m (drop (nat pos) (file_content (hdr f) S)))"
proof -
  let ?h = "hdr f" and ?a = "nat pos"
  let ?F = "?a div 128" and ?L = "(?a + m - 1) div 128"
  note r = request_sectors [OF assms(3-5,2)]
  have c: "?F + (Suc ?L - ?F) \<le> nat (numSectors ?h)" using r(3,4) by simp
  let ?buf = "concat (map (\<lambda>j. S (dataSectors ?h ! j)) [?F..<?F + (Suc ?L - ?F)])"
  have n1: "(if pos + n > numBytes ?h then numBytes ?h - pos else n) = int m" using assms(5,6) by auto
  have n0: "\<not> (n \<le> 0 \<or> numBytes ?h \<le> pos)" using assms(4-6) by auto
  have e: "OpenFile_ReadAt n pos f S = Inr (take m (drop (?a mod 128) ?buf))"
    unfolding OpenFile_ReadAt_def Let_def FileLength_def n1 r(1,2,5,6)
    using n0 read_sectors_ok [OF assms(1,2) c] by simp
  have "?a + m \<le> 128 * (?F + (Suc ?L - ?F))" "?a = 128 * ?F + ?a mod 128"
  proof -
    have "?a + m \<le> 128 * Suc ?L" by (rule below_end) (use assms(4) in simp)
    moreover have "?F + (Suc ?L - ?F) = Suc ?L" using r(3) by simp
    ultimately show "?a + m \<le> 128 * (?F + (Suc ?L - ?F))" by simp
    show "?a = 128 * ?F + ?a mod 128" by simp
  qed
  then have fit: "?a mod 128 + m \<le> 128 * (Suc ?L - ?F)" by linarith
  have "take m (drop (?a mod 128) ?buf) = take m (drop ?a (file_content ?h S))"
  proof (rule nth_equalityI)
    have len: "?a + m \<le> length (file_content ?h S)" using file_content_length [OF assms(1,2)] assms(3,5) by linarith
    then have "m \<le> length (file_content ?h S) - ?a" by linarith
    moreover have "m \<le> length ?buf - ?a mod 128" using fit sector_run_length [OF assms(1,2) c] by linarith
    ultimately show "length (take m (drop (?a mod 128) ?buf)) = length (take m (drop ?a (file_content ?h S)))"
      by (simp only: length_take length_drop min_absorb2)
    fix i assume "i < length (take m (drop (?a mod 128) ?buf))"
    then have i: "i < m" by simp
    have ai: "?a + i < nat (numBytes ?h)" using i assms(3,5) by linarith
    have "take m (drop (?a mod 128) ?buf) ! i = ?buf ! (?a mod 128 + i)"
      using i fit sector_run_length [OF assms(1,2) c] by (simp del: upt_Suc)
    also have "\<dots> = S (dataSectors ?h ! (?F + (?a mod 128 + i) div 128)) ! ((?a mod 128 + i) mod 128)"
      by (rule sector_run_nth [OF assms(1,2) c]) (use i fit in linarith)
    also have "\<dots> = S (dataSectors ?h ! ((?a + i) div 128)) ! ((?a + i) mod 128)"
      by (simp only: div_mod_shift)
    also have "\<dots> = file_content ?h S ! (?a + i)" using file_content_nth [OF assms(1,2) ai] by simp
    also have "\<dots> = take m (drop ?a (file_content ?h S)) ! i" using i len by simp
    finally show "take m (drop (?a mod 128) ?buf) ! i = take m (drop ?a (file_content ?h S)) ! i" .
  qed
  with e show ?thesis by simp
qed

lemma ReadAt_ok:
  assumes "disk_ok S" "hdr_ok (hdr f)" "0 \<le> pos"
  shows "OpenFile_ReadAt n pos f S = Inr (take (nat n) (drop (nat pos) (file_content (hdr f) S)))"
proof (cases "n \<le> 0 \<or> pos \<ge> numBytes (hdr f)")
  case True
  then show ?thesis using file_content_length [OF assms(1,2)] by (auto simp: OpenFile_ReadAt_def FileLength_def)
next
  case False
  have l: "length (file_content (hdr f) S) = nat (numBytes (hdr f))" by (rule file_content_length [OF assms(1,2)])
  show ?thesis
  proof (cases "pos + n > numBytes (hdr f)")
    case True
    have "OpenFile_ReadAt n pos f S = Inr (take (nat (numBytes (hdr f) - pos)) (drop (nat pos) (file_content (hdr f) S)))"
      by (rule ReadAt_part [OF assms]) (use False True in auto)
    then show ?thesis using True False l assms(3) by simp
  next
    case fits: False
    show ?thesis by (rule ReadAt_part [OF assms]) (use False fits in auto)
  qed
qed


text \<open>
  The buffer of \<open>WriteAt\<close> before the caller's bytes are copied in: the parts of the first and the last
  sector that are kept hold what the file has there.
\<close>

lemma write_buffer_keeps:
  fixes a m :: nat and C buf0 :: "byte list"
  defines "F \<equiv> a div 128" and "L \<equiv> (a + m - 1) div 128"
  defines "b1 \<equiv> (if a \<noteq> F * 128 then take 128 (drop (F * 128) C) else [])"
    and "b2 \<equiv> (if a + m \<noteq> (L + 1) * 128 \<and> (F \<noteq> L \<or> a = F * 128) then take 128 (drop (L * 128) C) else [])"
  defines "buf2 \<equiv> store_bytes ((L - F) * 128) b2 (store_bytes 0 b1 buf0)"
  assumes "0 < m" "length buf0 = (Suc L - F) * 128"
  shows "length buf2 = (Suc L - F) * 128"
    "F * 128 + i < length C \<Longrightarrow> i < (Suc L - F) * 128 \<Longrightarrow> F * 128 + i < a \<or> a + m \<le> F * 128 + i \<Longrightarrow>
     buf2 ! i = C ! (F * 128 + i)"
proof -
  have fl: "F \<le> L" unfolding F_def L_def by (rule div_le_mono) (use assms(6) in simp)
  have a: "F * 128 \<le> a" "a < F * 128 + 128"
    unfolding F_def using mod_less_divisor [of 128 a] div_mult_mod_eq [of a 128] by linarith+
  have am: "L * 128 < a + m" "a + m \<le> L * 128 + 128"
    unfolding L_def using mod_less_divisor [of 128 "a + m - 1"] div_mult_mod_eq [of "a + m - 1" 128] assms(6) by linarith+
  have w: "(L - F) * 128 + 128 = (Suc L - F) * 128" "128 \<le> (Suc L - F) * 128" using fl by (simp_all add: algebra_simps Suc_diff_le)
  have "length b1 \<le> 128" by (simp add: b1_def)
  then have l1: "0 + length b1 \<le> length buf0" unfolding assms(7) add_0 by (rule order_trans [OF _ w(2)])
  have l2: "(L - F) * 128 + length b2 \<le> length (store_bytes 0 b1 buf0)"
    unfolding store_bytes_length [OF l1] assms(7) w(1) [symmetric] by (simp add: b2_def)
  show len: "length buf2 = (Suc L - F) * 128"
    unfolding buf2_def store_bytes_length [OF l2] store_bytes_length [OF l1] by (rule assms(7))
  assume i: "F * 128 + i < length C" "i < (Suc L - F) * 128" "F * 128 + i < a \<or> a + m \<le> F * 128 + i"
  have il: "i < length (store_bytes 0 b1 buf0)" unfolding store_bytes_length [OF l1] assms(7) by (rule i(2))
  have n: "buf2 ! i = (if (L - F) * 128 \<le> i \<and> i < (L - F) * 128 + length b2 then b2 ! (i - (L - F) * 128)
      else if i < length b1 then b1 ! i else buf0 ! i)"
    unfolding buf2_def store_bytes_nth [OF l2 il] store_bytes_nth [OF l1 il [unfolded store_bytes_length [OF l1]]] by simp
  show "buf2 ! i = C ! (F * 128 + i)"
  proof (cases "F * 128 + i < a")
    case True
    then have b: "b1 = take 128 (drop (F * 128) C)" "i < 128" using a by (auto simp: b1_def)
    have "\<not> ((L - F) * 128 \<le> i \<and> i < (L - F) * 128 + length b2)"
    proof
      assume c: "(L - F) * 128 \<le> i \<and> i < (L - F) * 128 + length b2"
      then have "(L - F) * 128 < 128" using b(2) by linarith
      then have "L = F" using fl by simp
      moreover have "a \<noteq> F * 128" using True by simp
      ultimately show False using c by (simp add: b2_def)
    qed
    then have "buf2 ! i = (if i < length b1 then b1 ! i else buf0 ! i)" unfolding n by (rule if_not_P)
    moreover have "i < length C - F * 128" using i(1) by linarith
    ultimately show ?thesis using b i(1) by simp
  next
    case False
    then have am_i: "a + m \<le> F * 128 + i" using i(3) by simp
    have k: "L * 128 = F * 128 + (L - F) * 128" using fl by (simp add: diff_mult_distrib)
    have li: "(L - F) * 128 \<le> i" using am_i am(1) k by linarith
    have ih: "i < (L - F) * 128 + 128" using i(2) w(1) by simp
    have "a + m < L * 128 + 128" using am_i ih k by linarith
    then have na: "a + m \<noteq> (L + 1) * 128" by simp
    show ?thesis
    proof (cases "F \<noteq> L \<or> a = F * 128")
      case True
      then have b2: "b2 = take 128 (drop (L * 128) C)" using na by (simp add: b2_def)
      define j where "j = i - (L - F) * 128"
      have j: "L * 128 + j = F * 128 + i" "j < 128" "i = (L - F) * 128 + j" using k li ih unfolding j_def by linarith+
      have "L * 128 + j < length C" using j(1) i(1) by simp
      then have "j < length b2" "b2 ! j = C ! (L * 128 + j)" using j(2) by (simp_all add: b2)
      then have "buf2 ! i = b2 ! j" unfolding n using j(3) by simp
      with \<open>b2 ! j = C ! (L * 128 + j)\<close> j(1) show ?thesis by simp
    next
      case False
      then have "b1 = take 128 (drop (F * 128) C)" "L = F" "b2 = []" by (simp_all add: b1_def b2_def)
      moreover have "i < length C - F * 128" using i(1) by linarith
      ultimately show ?thesis using n ih i(1) by simp
    qed
  qed
qed


lemma WriteAt_part:
  assumes "disk_ok S" "hdr_ok (hdr f)" "0 \<le> pos" "0 < m" "pos + int m \<le> numBytes (hdr f)"
    "n = int m \<or> (int m \<le> n \<and> pos + int m = numBytes (hdr f))" "m \<le> length src"
  shows "\<exists>S'. OpenFile_WriteAt stale src n pos f S = Inr (int m, S') \<and> disk_ok S' \<and>
    file_content (hdr f) S' = store_bytes (nat pos) (take m src) (file_content (hdr f) S) \<and>
    (\<forall>s. s \<notin> set (file_sectors (hdr f)) \<longrightarrow> S' s = S s)"
proof -
  let ?h = "hdr f" and ?a = "nat pos" and ?C = "file_content (hdr f) S"
  define F L where "F = ?a div 128" and "L = (?a + m - 1) div 128"
  note r = request_sectors [OF assms(3-5,2), folded F_def L_def]
  have C: "length ?C = nat (numBytes ?h)" by (rule file_content_length [OF assms(1,2)])
  have c: "F + (Suc L - F) \<le> nat (numSectors ?h)" using r(3,4) by simp
  have n1: "(if pos + n > numBytes ?h then numBytes ?h - pos else n) = int m" using assms(5,6) by auto
  have n0: "\<not> (n \<le> 0 \<or> numBytes ?h \<le> pos)" using assms(4-6) by auto
  have fa: "pos = int F * SectorSize \<longleftrightarrow> ?a = F * 128" using assms(3) by auto
  have la: "pos + int m = (int L + 1) * SectorSize \<longleftrightarrow> ?a + m = (L + 1) * 128" using assms(3) by auto
  have rd: "OpenFile_ReadAt SectorSize (int k * SectorSize) f S = Inr (take 128 (drop (k * 128) ?C))" for k
  proof -
    have "nat (int k * SectorSize) = k * 128" by (simp add: nat_mult_distrib)
    then show ?thesis using ReadAt_ok [OF assms(1,2), of "int k * SectorSize" SectorSize] by simp
  qed
  define b1 where "b1 = (if ?a \<noteq> F * 128 then take 128 (drop (F * 128) ?C) else [])"
  define b2 where "b2 = (if ?a + m \<noteq> (L + 1) * 128 \<and> (F \<noteq> L \<or> ?a = F * 128) then take 128 (drop (L * 128) ?C) else [])"
  define buf2 where "buf2 = store_bytes ((L - F) * 128) b2 (store_bytes 0 b1 (map stale [0..<(Suc L - F) * 128]))"
  define buf3 where "buf3 = store_bytes (?a mod 128) (take m src) buf2"
  note keep = write_buffer_keeps [where m = m and ?buf0.0 = "map stale [0..<(Suc L - F) * 128]" and a = ?a and C = ?C,
      folded F_def L_def, folded b1_def b2_def, folded buf2_def]
  have len2: "length buf2 = (Suc L - F) * 128" using keep(1) assms(4) by simp
  obtain S' where S': "write_sectors ?h (int F) (Suc L - F) buf3 S = Inr S'"
    "\<And>j. F \<le> j \<Longrightarrow> j < F + (Suc L - F) \<Longrightarrow> S' (dataSectors ?h ! j) = take 128 (drop ((j - F) * 128) buf3)"
    "\<And>s. (\<And>j. F \<le> j \<Longrightarrow> j < F + (Suc L - F) \<Longrightarrow> s \<noteq> dataSectors ?h ! j) \<Longrightarrow> S' s = S s"
    using write_sectors_ok [OF assms(2) c, of buf3 S] by blast
  have res: "OpenFile_WriteAt stale src n pos f S = Inr (int m, S')"
  proof -
    have e0: "(n \<le> 0 \<or> numBytes ?h \<le> pos) = False" using n0 by simp
    have e1: "(if pos \<noteq> int F * SectorSize then OpenFile_ReadAt SectorSize (int F * SectorSize) f S else Inr []) = Inr b1"
      unfolding fa rd b1_def by simp
    have e2: "(if pos + int m \<noteq> (int L + 1) * SectorSize \<and> (int F \<noteq> int L \<or> pos = int F * SectorSize)
        then OpenFile_ReadAt SectorSize (int L * SectorSize) f S else Inr []) = Inr b2"
      unfolding fa la rd b2_def by simp
    have e3: "(int (?a mod 128) < 0 \<or> length src < m) = False" using assms(7) by simp
    have e4: "nat ((int L - int F) * SectorSize) = (L - F) * 128" using r(3) by (simp add: nat_mult_distrib nat_diff_distrib)
    show ?thesis
      unfolding OpenFile_WriteAt_def Let_def FileLength_def n1 r(1,2,5,6)
      by (simp only: e0 e1 e2 e3 e4 if_False bindE_Inr nat_int buf2_def [symmetric] buf3_def [symmetric] S'(1))
  qed
  have d0: "?a = F * 128 + ?a mod 128" unfolding F_def by simp
  have am: "?a + m \<le> L * 128 + 128"
    using below_end [of "?a + m"] assms(4) unfolding L_def by simp
  have fit: "?a mod 128 + length (take m src) \<le> length buf2"
    using d0 am r(3) assms(7) unfolding len2 by (simp add: algebra_simps Suc_diff_le)
  have len3: "length buf3 = (Suc L - F) * 128" unfolding buf3_def store_bytes_length [OF fit] by (rule len2)
  have sec: "S' s = S s" if "s \<notin> set (file_sectors ?h)" for s
  proof (rule S'(3))
    fix j assume "F \<le> j" "j < F + (Suc L - F)"
    then have "j < nat (numSectors ?h)" using c by simp
    then have "dataSectors ?h ! j \<in> set (file_sectors ?h)"
      using file_sector_ok(1) [OF assms(2)] file_sectors_length [OF assms(2)] nth_mem [of j "file_sectors ?h"] by simp
    then show "s \<noteq> dataSectors ?h ! j" using that by auto
  qed
  have ok': "disk_ok S'" unfolding disk_ok_def
  proof (intro allI impI)
    fix s :: int assume s: "0 \<le> s \<and> s < 1024"
    show "length (S' s) = 128"
    proof (cases "\<exists>j. F \<le> j \<and> j < F + (Suc L - F) \<and> s = dataSectors ?h ! j")
      case True
      then obtain j where j: "F \<le> j" "j < F + (Suc L - F)" "s = dataSectors ?h ! j" by blast
      have "(j - F) * 128 + 128 \<le> (Suc L - F) * 128" using j(1,2) by simp
      then show ?thesis using S'(2) [OF j(1,2)] j(3) len3 by simp
    next
      case False
      then have "S' s = S s" using S'(3) [of s] by blast
      then show ?thesis using assms(1) s by (simp add: disk_ok_def)
    qed
  qed
  have cl: "?a + m \<le> length ?C" using C assms(3,5) by linarith
  have new: "file_content ?h S' = store_bytes ?a (take m src) ?C"
  proof (rule nth_equalityI)
    have l: "length (store_bytes ?a (take m src) ?C) = length ?C" by (rule store_bytes_length) (use cl in simp)
    then show "length (file_content ?h S') = length (store_bytes ?a (take m src) ?C)"
      using file_content_length [OF ok' assms(2)] C by simp
    fix x assume "x < length (file_content ?h S')"
    then have x: "x < nat (numBytes ?h)" using file_content_length [OF ok' assms(2)] by simp
    have R: "store_bytes ?a (take m src) ?C ! x = (if ?a \<le> x \<and> x < ?a + m then src ! (x - ?a) else ?C ! x)"
      using cl x C assms(7) by (subst store_bytes_nth) auto
    have X: "x = (x div 128) * 128 + x mod 128" by simp
    show "file_content ?h S' ! x = store_bytes ?a (take m src) ?C ! x"
    proof (cases "F \<le> x div 128 \<and> x div 128 \<le> L")
      case True
      let ?i = "x - F * 128"
      have i: "(x div 128 - F) * 128 + x mod 128 = ?i" "F * 128 + ?i = x" "?i < (Suc L - F) * 128"
      proof -
        have f: "F * 128 \<le> (x div 128) * 128" "(x div 128) * 128 \<le> L * 128" using True by (auto intro: mult_le_mono1)
        show "(x div 128 - F) * 128 + x mod 128 = ?i" using f(1) X by (simp add: diff_mult_distrib)
        show "F * 128 + ?i = x" using f(1) X by linarith
        have "x < L * 128 + 128" using f(2) X mod_less_divisor [of 128 x] by linarith
        then show "?i < (Suc L - F) * 128" using f(1) X by (simp add: diff_mult_distrib)
      qed
      have "S' (dataSectors ?h ! (x div 128)) = take 128 (drop ((x div 128 - F) * 128) buf3)"
        by (rule S'(2)) (use True in simp_all)
      then have "file_content ?h S' ! x = buf3 ! ?i"
        unfolding file_content_nth [OF ok' assms(2) x] using i len3 by (simp add: add.commute)
      also have "\<dots> = (if ?a mod 128 \<le> ?i \<and> ?i < ?a mod 128 + m then src ! (?i - ?a mod 128) else buf2 ! ?i)"
      proof -
        have il: "?i < length buf2" unfolding len2 by (rule i(3))
        have lm: "length (take m src) = m" using assms(7) by simp
        have "?i - ?a mod 128 < m" if "?a mod 128 \<le> ?i \<and> ?i < ?a mod 128 + m" using that by linarith
        then show ?thesis unfolding buf3_def store_bytes_nth [OF fit il] lm by (simp only: nth_take cong: if_cong)
      qed
      also have "\<dots> = (if ?a \<le> x \<and> x < ?a + m then src ! (x - ?a) else ?C ! x)"
      proof (cases "?a \<le> x \<and> x < ?a + m")
        case True
        then have "?a mod 128 \<le> ?i \<and> ?i < ?a mod 128 + m" "?i - ?a mod 128 = x - ?a" using d0 i(2) by linarith+
        then show ?thesis using True by simp
      next
        case False
        then have np: "\<not> (?a mod 128 \<le> ?i \<and> ?i < ?a mod 128 + m)" using d0 i(2) by linarith
        have "buf2 ! ?i = ?C ! (F * 128 + ?i)"
          by (rule keep(2)) (use i x C False assms(4) in auto)
        then show ?thesis unfolding if_not_P [OF np] if_not_P [OF False] i(2) .
      qed
      finally show ?thesis unfolding R .
    next
      case False
      have "x < nat (numSectors ?h) * 128" using x hdr_ok_count(3) [OF assms(2)] by linarith
      then have xs: "x div 128 < nat (numSectors ?h)" by (rule less_mult_imp_div_less)
      have "S' (dataSectors ?h ! (x div 128)) = S (dataSectors ?h ! (x div 128))"
      proof (rule S'(3))
        fix j assume j: "F \<le> j" "j < F + (Suc L - F)"
        then have "j \<noteq> x div 128" "j < nat (numSectors ?h)" using False c by auto
        then show "dataSectors ?h ! (x div 128) \<noteq> dataSectors ?h ! j"
          using data_sectors_distinct [OF assms(2) xs] by blast
      qed
      then have "file_content ?h S' ! x = ?C ! x"
        using file_content_nth [OF ok' assms(2) x] file_content_nth [OF assms(1,2) x] by simp
      moreover have np: "\<not> (?a \<le> x \<and> x < ?a + m)"
      proof
        assume "?a \<le> x \<and> x < ?a + m"
        then have "?a div 128 \<le> x div 128" "x div 128 \<le> (?a + m - 1) div 128" by (auto intro: div_le_mono)
        then show False using False by (simp add: F_def L_def)
      qed
      ultimately show ?thesis unfolding R if_not_P [OF np] by simp
    qed
  qed
  show ?thesis using res ok' new sec by (intro exI [of _ S'] conjI) auto
qed


section \<open>Properties\<close>

lemma WriteAt_ok:
  assumes "disk_ok S" "hdr_ok (hdr f)" "0 \<le> pos" "n \<le> int (length src)"
  defines "m \<equiv> nat (min n (numBytes (hdr f) - pos))"
  shows "\<exists>S'. OpenFile_WriteAt stale src n pos f S = Inr (int m, S') \<and> disk_ok S' \<and>
    file_content (hdr f) S' = (if m = 0 then file_content (hdr f) S
      else store_bytes (nat pos) (take m src) (file_content (hdr f) S)) \<and>
    (\<forall>s. s \<notin> set (file_sectors (hdr f)) \<longrightarrow> S' s = S s)"
proof (cases "n \<le> 0 \<or> pos \<ge> numBytes (hdr f)")
  case True
  then have "m = 0" "OpenFile_WriteAt stale src n pos f S = Inr (0, S)"
    by (auto simp: m_def OpenFile_WriteAt_def FileLength_def)
  then show ?thesis using assms(1) by simp
next
  case False
  then have m: "0 < m" "pos + int m \<le> numBytes (hdr f)" "m \<le> length src"
    "n = int m \<or> (int m \<le> n \<and> pos + int m = numBytes (hdr f))"
    using assms(4) by (auto simp: m_def min_def)
  from WriteAt_part [OF assms(1-3) m(1,2,4,3), of stale] m(1) show ?thesis by simp
qed


text \<open>A file of 200 bytes in sectors 9 and 7.\<close>

definition hdr1 :: FileHeader where
  "hdr1 = \<lparr>numBytes = 200, numSectors = 2, dataSectors = 9 # 7 # replicate 28 0\<rparr>"

definition blank :: sectors where
  "blank = (\<lambda>_. replicate 128 0)"

lemma hdr1_ok: "hdr_ok hdr1" "disk_ok blank"
  by (simp_all add: hdr_ok_def hdr1_def file_sectors_def divRoundUp_def disk_ok_def blank_def)


end
