(* ===== verification/Nachos_Directory.thy ===== *)
theory Nachos_Directory
  imports Nachos_OpenFile
begin

text \<open>
  Directories (filesys/directory.cc) and the storage of directories and bit maps in files
  (\<open>FetchFrom\<close>, \<open>WriteBack\<close>).  A directory is a table of entries that is copied as raw memory to and
  from its file; an entry takes 20 bytes there.  Names are compared on their first nine characters.
\<close>

section \<open>Strings\<close>

text \<open>
  A name is the list of its characters; reading behind its end gives the terminating zero.
  \<open>strncmp_eq\<close> tells whether \<open>strncmp\<close> finds no difference in the first \<open>n\<close> characters.
\<close>

definition first_char :: "byte list \<Rightarrow> byte" where
  "first_char s = (case s of [] \<Rightarrow> 0 | c # _ \<Rightarrow> c)"

fun strncmp_eq :: "nat \<Rightarrow> byte list \<Rightarrow> byte list \<Rightarrow> bool" where
  "strncmp_eq 0 s t = True"
| "strncmp_eq (Suc n) s t \<longleftrightarrow> first_char s = first_char t \<and> (first_char s = 0 \<or> strncmp_eq n (tl s) (tl t))"

definition strncpy :: "nat \<Rightarrow> byte list \<Rightarrow> byte list \<Rightarrow> byte list" where
  "strncpy n dst s = take n (s @ replicate n 0) @ drop n dst"

section \<open>Directories\<close>

definition FileNameMaxLen :: nat where "FileNameMaxLen = 9"

record DirectoryEntry =
  inUse :: bool
  sector :: int
  entryName :: "byte list"

type_synonym directory = "DirectoryEntry list"

text \<open>\<open>garbage\<close> is what \<open>new DirectoryEntry[size]\<close> happens to hold.\<close>

definition Directory_new :: "DirectoryEntry list \<Rightarrow> nat \<Rightarrow> directory" where
  "Directory_new garbage n = map (\<lambda>e. e\<lparr>inUse := False\<rparr>) (take n garbage)"

definition FindIndex :: "byte list \<Rightarrow> directory \<Rightarrow> int" where
  "FindIndex nm dir = index_or_m1 (first_from
     (\<lambda>i. inUse (dir ! i) \<and> strncmp_eq FileNameMaxLen (entryName (dir ! i)) nm) 0 (length dir))"

definition Directory_Find :: "byte list \<Rightarrow> directory \<Rightarrow> int" where
  "Directory_Find nm dir = (let i = FindIndex nm dir in if i \<noteq> -1 then sector (dir ! nat i) else -1)"

definition Directory_Add :: "byte list \<Rightarrow> int \<Rightarrow> directory \<Rightarrow> bool \<times> directory" where
  "Directory_Add nm newSector dir =
     (if FindIndex nm dir \<noteq> -1 then (False, dir)
      else case first_from (\<lambda>i. \<not> inUse (dir ! i)) 0 (length dir) of
        None \<Rightarrow> (False, dir)
      | Some i \<Rightarrow> (True, dir[i := \<lparr>inUse = True, sector = newSector,
            entryName = strncpy FileNameMaxLen (entryName (dir ! i)) nm\<rparr>]))"

definition Directory_Remove :: "byte list \<Rightarrow> directory \<Rightarrow> bool \<times> directory" where
  "Directory_Remove nm dir =
     (let i = FindIndex nm dir in
      if i = -1 then (False, dir) else (True, dir[nat i := (dir ! nat i)\<lparr>inUse := False\<rparr>]))"

text \<open>\<open>List\<close>: the names printed, as stored.\<close>

definition Directory_List :: "directory \<Rightarrow> byte list list" where
  "Directory_List dir = map entryName (filter inUse dir)"

section \<open>Directories and bit maps in files\<close>

text \<open>The layout of an entry: the flag and three padding bytes, the sector, the name, two padding bytes.\<close>

definition entry_bytes :: "DirectoryEntry \<Rightarrow> byte list" where
  "entry_bytes e = [if inUse e then 1 else 0, 0, 0, 0] @ int_bytes (sector e) @ entryName e @ [0, 0]"

definition bytes_entry :: "byte list \<Rightarrow> DirectoryEntry" where
  "bytes_entry bs = \<lparr>inUse = (first_char bs \<noteq> 0), sector = int_at bs 4, entryName = take 10 (drop 8 bs)\<rparr>"

definition table_bytes :: "directory \<Rightarrow> byte list" where
  "table_bytes dir = concat (map entry_bytes dir)"

definition bytes_table :: "nat \<Rightarrow> byte list \<Rightarrow> directory" where
  "bytes_table n bs = map (\<lambda>i. bytes_entry (take 20 (drop (20 * i) bs))) [0..<n]"

definition Directory_FetchFrom :: "OpenFile \<Rightarrow> sectors \<Rightarrow> directory \<Rightarrow> fault + directory" where
  "Directory_FetchFrom f S dir =
     bindE (OpenFile_ReadAt (int (length dir) * 20) 0 f S) (\<lambda>bs.
     Inr (bytes_table (length dir) (store_bytes 0 bs (table_bytes dir))))"

definition Directory_WriteBack :: "(nat \<Rightarrow> byte) \<Rightarrow> OpenFile \<Rightarrow> directory \<Rightarrow> sectors \<Rightarrow> fault + sectors" where
  "Directory_WriteBack stale f dir S =
     bindE (OpenFile_WriteAt stale (table_bytes dir) (int (length dir) * 20) 0 f S) (\<lambda>(n, S1). Inr S1)"

definition words_bytes :: "32 word list \<Rightarrow> byte list" where
  "words_bytes ws = concat (map (bytes_of_word 4) ws)"

definition bytes_words :: "nat \<Rightarrow> byte list \<Rightarrow> 32 word list" where
  "bytes_words n bs = map (\<lambda>i. word_of_bytes (take 4 (drop (4 * i) bs))) [0..<n]"

definition BitMap_FetchFrom :: "OpenFile \<Rightarrow> sectors \<Rightarrow> BitMap \<Rightarrow> fault + BitMap" where
  "BitMap_FetchFrom f S b =
     bindE (OpenFile_ReadAt (numWords b * 4) 0 f S) (\<lambda>bs.
     Inr (b\<lparr>bmap := bytes_words (length (bmap b)) (store_bytes 0 bs (words_bytes (bmap b)))\<rparr>))"

definition BitMap_WriteBack :: "(nat \<Rightarrow> byte) \<Rightarrow> OpenFile \<Rightarrow> BitMap \<Rightarrow> sectors \<Rightarrow> fault + sectors" where
  "BitMap_WriteBack stale f b S =
     bindE (OpenFile_WriteAt stale (words_bytes (bmap b)) (numWords b * 4) 0 f S) (\<lambda>(n, S1). Inr S1)"

section \<open>Names\<close>

text \<open>The part of a name that counts: up to nine characters, up to the first zero.\<close>

definition short_name :: "byte list \<Rightarrow> byte list" where
  "short_name s = takeWhile (\<lambda>c. c \<noteq> 0) (take 9 s)"

lemma strncmp_eq_take: "strncmp_eq n s t \<longleftrightarrow> takeWhile (\<lambda>c. c \<noteq> 0) (take n s) = takeWhile (\<lambda>c. c \<noteq> 0) (take n t)"
proof (induction n arbitrary: s t)
  case 0
  then show ?case by simp
next
  case (Suc n)
  then show ?case by (cases s; cases t) (auto simp: first_char_def)
qed

lemma strncmp_short: "strncmp_eq FileNameMaxLen s t \<longleftrightarrow> short_name s = short_name t"
  by (simp add: FileNameMaxLen_def strncmp_eq_take short_name_def)

lemma short_strncpy:
  assumes "length dst = 10"
  shows "short_name (strncpy FileNameMaxLen dst s) = short_name s" "length (strncpy FileNameMaxLen dst s) = 10"
proof -
  have "take 9 (strncpy 9 dst s) = take 9 (s @ replicate 9 0)" by (simp add: strncpy_def)
  moreover have "takeWhile (\<lambda>c. c \<noteq> 0) (take 9 (s @ replicate 9 0)) = takeWhile (\<lambda>c. c \<noteq> (0::byte)) (take 9 s)"
  proof (cases "9 \<le> length s")
    case True
    then show ?thesis by simp
  next
    case False
    then have "take 9 (s @ replicate 9 0) = s @ 0 # replicate (8 - length s) (0::byte)"
      by (simp add: take_replicate min_def flip: replicate_Suc)
    moreover have "takeWhile (\<lambda>c. c \<noteq> 0) (s @ 0 # r) = takeWhile (\<lambda>c. c \<noteq> (0::byte)) s" for r
      by (induction s) auto
    ultimately show ?thesis using False by simp
  qed
  ultimately show "short_name (strncpy FileNameMaxLen dst s) = short_name s"
    by (simp add: short_name_def FileNameMaxLen_def)
  show "length (strncpy FileNameMaxLen dst s) = 10" using assms by (simp add: strncpy_def FileNameMaxLen_def)
qed

section \<open>What is stored is read back\<close>

definition entry_ok :: "DirectoryEntry \<Rightarrow> bool" where
  "entry_ok e \<longleftrightarrow> length (entryName e) = 10 \<and> small_int (sector e)"

lemma entry_bytes_length: "entry_ok e \<Longrightarrow> length (entry_bytes e) = 20"
  by (simp add: entry_bytes_def entry_ok_def)

lemma entry_roundtrip: "entry_ok e \<Longrightarrow> bytes_entry (entry_bytes e) = e"
proof -
  assume e: "entry_ok e"
  have "int_at (entry_bytes e) 4 = sector e"
    using int_at_skip [of "[if inUse e then 1 else 0, 0, 0, 0]" 4 "int_bytes (sector e) @ entryName e @ [0, 0]" 0]
      int_at_bytes [of "sector e" "entryName e @ [0, 0]"] e
    by (simp add: entry_bytes_def entry_ok_def)
  then show ?thesis using e by (simp add: bytes_entry_def entry_ok_def) (simp add: entry_bytes_def first_char_def)
qed

lemma block_at:
  "\<forall>x \<in> set xs. length (f x) = c \<Longrightarrow> i < length xs \<Longrightarrow> take c (drop (c * i) (concat (map f xs))) = f (xs ! i)"
proof (induction xs arbitrary: i)
  case Nil
  then show ?case by simp
next
  case (Cons x xs)
  then show ?case by (cases i) (auto simp: algebra_simps)
qed

lemma table_bytes_length: "list_all entry_ok dir \<Longrightarrow> length (table_bytes dir) = 20 * length dir"
  unfolding table_bytes_def by (rule concat_blocks_length) (auto simp: list_all_iff entry_bytes_length)

lemma table_roundtrip:
  assumes "list_all entry_ok dir"
  shows "bytes_table (length dir) (table_bytes dir) = dir"
proof (rule nth_equalityI)
  show "length (bytes_table (length dir) (table_bytes dir)) = length dir" by (simp add: bytes_table_def)
  fix i assume "i < length (bytes_table (length dir) (table_bytes dir))"
  then have i: "i < length dir" by (simp add: bytes_table_def)
  have "\<forall>e \<in> set dir. length (entry_bytes e) = 20" using assms by (auto simp: list_all_iff entry_bytes_length)
  from block_at [OF this i] have "bytes_table (length dir) (table_bytes dir) ! i = bytes_entry (entry_bytes (dir ! i))"
    using i by (simp add: bytes_table_def table_bytes_def)
  then show "bytes_table (length dir) (table_bytes dir) ! i = dir ! i"
    using assms i by (simp add: entry_roundtrip list_all_length)
qed

lemma words_bytes_length: "length (words_bytes ws) = 4 * length ws"
  unfolding words_bytes_def by (rule concat_blocks_length) simp

lemma words_roundtrip: "bytes_words (length ws) (words_bytes ws) = ws"
proof (rule nth_equalityI)
  show "length (bytes_words (length ws) (words_bytes ws)) = length ws" by (simp add: bytes_words_def)
  fix i assume "i < length (bytes_words (length ws) (words_bytes ws))"
  then have i: "i < length ws" by (simp add: bytes_words_def)
  have "\<forall>w \<in> set ws. length (bytes_of_word 4 w) = 4" by simp
  from block_at [OF this i] show "bytes_words (length ws) (words_bytes ws) ! i = ws ! i"
    using i by (simp add: bytes_words_def words_bytes_def read_written_4)
qed

lemma store_all: "length bs = length mem \<Longrightarrow> store_bytes 0 bs mem = bs"
  by (simp add: store_bytes_def)

text \<open>A file that is exactly as long as what is stored in it.\<close>

lemma fetch_directory:
  assumes "disk_ok S" "hdr_ok (hdr f)" "numBytes (hdr f) = int (20 * length dir)" "list_all entry_ok dir"
  shows "Directory_FetchFrom f S dir = Inr (bytes_table (length dir) (file_content (hdr f) S))"
proof -
  have l: "length (file_content (hdr f) S) = 20 * length dir"
    using file_content_length [OF assms(1,2)] assms(3) by simp
  have "OpenFile_ReadAt (int (length dir) * 20) 0 f S = Inr (file_content (hdr f) S)"
    using ReadAt_ok [OF assms(1,2), of 0] l by (simp add: nat_mult_distrib mult.commute)
  then show ?thesis using l table_bytes_length [OF assms(4)] by (simp add: Directory_FetchFrom_def store_all)
qed

lemma write_directory:
  assumes "disk_ok S" "hdr_ok (hdr f)" "numBytes (hdr f) = int (20 * length dir)" "list_all entry_ok dir" "dir \<noteq> []"
  obtains S' where "Directory_WriteBack stale f dir S = Inr S'" "disk_ok S'"
    "file_content (hdr f) S' = table_bytes dir" "\<And>s. s \<notin> set (file_sectors (hdr f)) \<Longrightarrow> S' s = S s"
proof -
  have l: "length (table_bytes dir) = 20 * length dir" by (rule table_bytes_length [OF assms(4)])
  have m: "nat (min (int (length dir) * 20) (numBytes (hdr f) - 0)) = 20 * length dir" using assms(3) by simp
  have "length (file_content (hdr f) S) = 20 * length dir" using file_content_length [OF assms(1,2)] assms(3) by simp
  then have "store_bytes (nat 0) (take (20 * length dir) (table_bytes dir)) (file_content (hdr f) S) = table_bytes dir"
    using l by (simp add: store_all)
  moreover obtain S' where "OpenFile_WriteAt stale (table_bytes dir) (int (length dir) * 20) 0 f S = Inr (int (20 * length dir), S')"
    "disk_ok S'" "\<forall>s. s \<notin> set (file_sectors (hdr f)) \<longrightarrow> S' s = S s"
    "file_content (hdr f) S' = (if 20 * length dir = 0 then file_content (hdr f) S
      else store_bytes (nat 0) (take (20 * length dir) (table_bytes dir)) (file_content (hdr f) S))"
    using WriteAt_ok [OF assms(1,2), of 0 "int (length dir) * 20" "table_bytes dir" stale] l unfolding m by auto
  ultimately show ?thesis using that [of S'] assms(5) by (simp add: Directory_WriteBack_def)
qed

lemma fetch_bitmap:
  assumes "disk_ok S" "hdr_ok (hdr f)" "numBytes (hdr f) = 4 * numWords b" "int (length (bmap b)) = numWords b"
  shows "BitMap_FetchFrom f S b = Inr (b\<lparr>bmap := bytes_words (length (bmap b)) (file_content (hdr f) S)\<rparr>)"
proof -
  have n: "nat (numWords b * 4) = 4 * length (bmap b)" "nat (numBytes (hdr f)) = 4 * length (bmap b)"
    using assms(3,4) by linarith+
  have l: "length (file_content (hdr f) S) = 4 * length (bmap b)"
    using file_content_length [OF assms(1,2)] n(2) by simp
  have "OpenFile_ReadAt (numWords b * 4) 0 f S = Inr (file_content (hdr f) S)"
    using ReadAt_ok [OF assms(1,2), of 0] l n(1) by simp
  then show ?thesis using l words_bytes_length [of "bmap b"] by (simp add: BitMap_FetchFrom_def store_all)
qed

lemma write_bitmap:
  assumes "disk_ok S" "hdr_ok (hdr f)" "numBytes (hdr f) = 4 * numWords b" "int (length (bmap b)) = numWords b" "0 < numWords b"
  obtains S' where "BitMap_WriteBack stale f b S = Inr S'" "disk_ok S'"
    "file_content (hdr f) S' = words_bytes (bmap b)" "\<And>s. s \<notin> set (file_sectors (hdr f)) \<Longrightarrow> S' s = S s"
proof -
  let ?n = "4 * length (bmap b)"
  have l: "length (words_bytes (bmap b)) = ?n" by (rule words_bytes_length)
  have m: "nat (min (numWords b * 4) (numBytes (hdr f) - 0)) = ?n" using assms(3,4) by simp
  have "length (file_content (hdr f) S) = ?n" using file_content_length [OF assms(1,2)] assms(3,4) by simp
  then have "store_bytes (nat 0) (take ?n (words_bytes (bmap b))) (file_content (hdr f) S) = words_bytes (bmap b)"
    using l by (simp add: store_all)
  moreover obtain S' where "OpenFile_WriteAt stale (words_bytes (bmap b)) (numWords b * 4) 0 f S = Inr (int ?n, S')"
    "disk_ok S'" "\<forall>s. s \<notin> set (file_sectors (hdr f)) \<longrightarrow> S' s = S s"
    "file_content (hdr f) S' = (if ?n = 0 then file_content (hdr f) S
      else store_bytes (nat 0) (take ?n (words_bytes (bmap b))) (file_content (hdr f) S))"
    using WriteAt_ok [OF assms(1,2), of 0 "numWords b * 4" "words_bytes (bmap b)" stale] l assms(4) unfolding m by auto
  moreover have "?n \<noteq> 0" using assms(4,5) by auto
  ultimately show ?thesis using that [of S'] by (simp add: BitMap_WriteBack_def)
qed

end
