(* ===== verification/Nachos_FileSys.thy ===== *)
theory Nachos_FileSys
  imports Nachos_Directory
begin

text \<open>
  The file system (filesys/filesys.cc): a flat directory and a bit map of the sectors in use, both kept
  in files whose headers are in sectors 0 and 1.  The files of the directory and their contents are
  the abstraction; the invariant says that no sector serves two purposes and that the bit map
  records exactly the sectors that serve one.
\<close>

section \<open>Operations\<close>

definition FreeMapSector :: int where "FreeMapSector = 0"
definition DirectorySector :: int where "DirectorySector = 1"
definition FreeMapFileSize :: int where "FreeMapFileSize = NumSectors div 8"
definition NumDirEntries :: nat where "NumDirEntries = 10"
definition DirectoryFileSize :: int where "DirectoryFileSize = 20 * int NumDirEntries"

text \<open>The two open files stay the same while the system runs; the disk changes.\<close>

record filesys =
  fsDisk :: sectors
  freeMapFile :: OpenFile
  directoryFile :: OpenFile

text \<open>What newly allocated memory holds: the words of a bit map, directory entries, a header, a buffer.\<close>

record fsmem =
  memWords :: "32 word list"
  memEntries :: "DirectoryEntry list"
  memHeader :: FileHeader
  memBuffer :: "nat \<Rightarrow> byte"

definition FileSystem_format :: "fsmem \<Rightarrow> sectors \<Rightarrow> fault + filesys" where
  "FileSystem_format g S =
     bindE (BitMap_new (memWords g) NumSectors) (\<lambda>b0.
     let dir = Directory_new (memEntries g) NumDirEntries in
     bindE (BitMap_Mark FreeMapSector b0) (\<lambda>b1.
     bindE (BitMap_Mark DirectorySector b1) (\<lambda>b2.
     bindE (FileHeader_Allocate b2 FreeMapFileSize (memHeader g)) (\<lambda>(ok, mapHdr, b3).
     bindE (assertE ok) (\<lambda>_.
     bindE (FileHeader_Allocate b3 DirectoryFileSize (memHeader g)) (\<lambda>(ok, dirHdr, b4).
     bindE (assertE ok) (\<lambda>_.
     bindE (FileHeader_WriteBack FreeMapSector mapHdr S) (\<lambda>S1.
     bindE (FileHeader_WriteBack DirectorySector dirHdr S1) (\<lambda>S2.
     bindE (OpenFile_new FreeMapSector S2) (\<lambda>mf.
     bindE (OpenFile_new DirectorySector S2) (\<lambda>df.
     bindE (BitMap_WriteBack (memBuffer g) mf b4 S2) (\<lambda>S3.
     bindE (Directory_WriteBack (memBuffer g) df dir S3) (\<lambda>S4.
     Inr \<lparr>fsDisk = S4, freeMapFile = mf, directoryFile = df\<rparr>)))))))))))))"

text \<open>\<open>FileSystem(FALSE)\<close>: opening a disk that was formatted before.\<close>

definition FileSystem_open :: "sectors \<Rightarrow> fault + filesys" where
  "FileSystem_open S =
     bindE (OpenFile_new FreeMapSector S) (\<lambda>mf.
     bindE (OpenFile_new DirectorySector S) (\<lambda>df.
     Inr \<lparr>fsDisk = S, freeMapFile = mf, directoryFile = df\<rparr>))"

definition load_directory :: "fsmem \<Rightarrow> filesys \<Rightarrow> fault + directory" where
  "load_directory g fs =
     Directory_FetchFrom (directoryFile fs) (fsDisk fs) (Directory_new (memEntries g) NumDirEntries)"

definition load_map :: "fsmem \<Rightarrow> filesys \<Rightarrow> fault + BitMap" where
  "load_map g fs =
     bindE (BitMap_new (memWords g) NumSectors) (\<lambda>b. BitMap_FetchFrom (freeMapFile fs) (fsDisk fs) b)"

definition FileSystem_Create :: "fsmem \<Rightarrow> byte list \<Rightarrow> int \<Rightarrow> filesys \<Rightarrow> fault + bool \<times> filesys" where
  "FileSystem_Create g nm initialSize fs =
     bindE (load_directory g fs) (\<lambda>dir.
     if Directory_Find nm dir \<noteq> -1 then Inr (False, fs)
     else bindE (load_map g fs) (\<lambda>freeMap.
       bindE (BitMap_Find freeMap) (\<lambda>(sec, m1).
       if sec = -1 then Inr (False, fs)
       else let (ok, dir1) = Directory_Add nm sec dir in
         if \<not> ok then Inr (False, fs)
         else bindE (FileHeader_Allocate m1 initialSize (memHeader g)) (\<lambda>(ok, h, m2).
           if \<not> ok then Inr (False, fs)
           else
             bindE (FileHeader_WriteBack sec h (fsDisk fs)) (\<lambda>S1.
             bindE (Directory_WriteBack (memBuffer g) (directoryFile fs) dir1 S1) (\<lambda>S2.
             bindE (BitMap_WriteBack (memBuffer g) (freeMapFile fs) m2 S2) (\<lambda>S3.
             Inr (True, fs\<lparr>fsDisk := S3\<rparr>))))))))"

definition FileSystem_Open :: "fsmem \<Rightarrow> byte list \<Rightarrow> filesys \<Rightarrow> fault + OpenFile option" where
  "FileSystem_Open g nm fs =
     bindE (load_directory g fs) (\<lambda>dir.
     let sec = Directory_Find nm dir in
     if sec \<ge> 0 then bindE (OpenFile_new sec (fsDisk fs)) (\<lambda>f. Inr (Some f)) else Inr None)"

definition FileSystem_Remove :: "fsmem \<Rightarrow> byte list \<Rightarrow> filesys \<Rightarrow> fault + bool \<times> filesys" where
  "FileSystem_Remove g nm fs =
     bindE (load_directory g fs) (\<lambda>dir.
     let sec = Directory_Find nm dir in
     if sec = -1 then Inr (False, fs)
     else
       bindE (FileHeader_FetchFrom sec (fsDisk fs)) (\<lambda>fileHdr.
       bindE (load_map g fs) (\<lambda>freeMap.
       bindE (FileHeader_Deallocate freeMap fileHdr) (\<lambda>m1.
       bindE (BitMap_Clear sec m1) (\<lambda>m2.
       let (_, dir1) = Directory_Remove nm dir in
       bindE (BitMap_WriteBack (memBuffer g) (freeMapFile fs) m2 (fsDisk fs)) (\<lambda>S1.
       bindE (Directory_WriteBack (memBuffer g) (directoryFile fs) dir1 S1) (\<lambda>S2.
       Inr (True, fs\<lparr>fsDisk := S2\<rparr>))))))))"

definition FileSystem_List :: "fsmem \<Rightarrow> filesys \<Rightarrow> fault + byte list list" where
  "FileSystem_List g fs = bindE (load_directory g fs) (\<lambda>dir. Inr (Directory_List dir))"

section \<open>Allocating and freeing the sectors of a header\<close>

lemma allocate_from_ok:
  "bm_inv b \<Longrightarrow> int (card (bm_set b)) + int n \<le> numBits b \<Longrightarrow> i + n \<le> length (dataSectors h) \<Longrightarrow>
   \<exists>ks b'. allocate_from i n h b =
       Inr (h\<lparr>dataSectors := take i (dataSectors h) @ map int ks @ drop (i + n) (dataSectors h)\<rparr>, b') \<and>
     length ks = n \<and> distinct ks \<and> set ks \<inter> bm_set b = {} \<and> bm_inv b' \<and> numBits b' = numBits b \<and>
     bm_set b' = bm_set b \<union> set ks"
proof (induction n arbitrary: i h b)
  case 0
  then show ?case by (intro exI [of _ "[]"] exI [of _ b]) simp
next
  case (Suc n)
  have "bm_set b \<noteq> {j. int j < numBits b}" using bm.not_full Suc.prems by simp
  from bm.find_free [OF Suc.prems(1) this] obtain k b1 where k: "BitMap_Find b = Inr (int k, b1)"
    "k \<notin> bm_set b" "bm_inv b1" "numBits b1 = numBits b" "bm_set b1 = insert k (bm_set b)" by blast
  let ?h = "h\<lparr>dataSectors := (dataSectors h)[i := int k]\<rparr>"
  have s: "arr_set (dataSectors h) (int i) (int k) = Inr ((dataSectors h)[i := int k])"
    using Suc.prems(3) by (simp add: arr_set_def in_range_def)
  have c: "int (card (bm_set b1)) + int n \<le> numBits b1" using k Suc.prems by simp
  from Suc.IH [OF k(3) c, of "Suc i" ?h] Suc.prems(3) obtain ks b' where
    "allocate_from (Suc i) n ?h b1 = Inr (?h\<lparr>dataSectors := take (Suc i) (dataSectors ?h) @ map int ks @ drop (Suc i + n) (dataSectors ?h)\<rparr>, b')"
    "length ks = n" "distinct ks" "set ks \<inter> bm_set b1 = {}" "bm_inv b'" "numBits b' = numBits b1" "bm_set b' = bm_set b1 \<union> set ks"
    by auto
  moreover have "take (Suc i) ((dataSectors h)[i := int k]) = take i (dataSectors h) @ [int k]"
    using Suc.prems(3) by (simp add: take_Suc_conv_app_nth)
  ultimately show ?case using k s by (intro exI [of _ "k # ks"] exI [of _ b']) auto
qed

text \<open>A file that needs more than the 30 entries of the header.\<close>

lemma allocate_from_overflow:
  "bm_inv b \<Longrightarrow> int (card (bm_set b)) + int n \<le> numBits b \<Longrightarrow> i \<le> length (dataSectors h) \<Longrightarrow>
   length (dataSectors h) < i + n \<Longrightarrow> allocate_from i n h b = Inl OutOfBounds"
proof (induction n arbitrary: i h b)
  case 0
  then show ?case by simp
next
  case (Suc n)
  have "bm_set b \<noteq> {j. int j < numBits b}" using bm.not_full Suc.prems by simp
  from bm.find_free [OF Suc.prems(1) this] obtain k b1 where k: "BitMap_Find b = Inr (int k, b1)"
    "k \<notin> bm_set b" "bm_inv b1" "numBits b1 = numBits b" "bm_set b1 = insert k (bm_set b)" by blast
  have c: "int (card (bm_set b1)) + int n \<le> numBits b1" using k Suc.prems by simp
  show ?case
  proof (cases "i < length (dataSectors h)")
    case True
    then show ?thesis using Suc.IH [OF k(3) c, of "Suc i" "h\<lparr>dataSectors := (dataSectors h)[i := int k]\<rparr>"] k(1) Suc.prems(4)
      by (simp add: arr_set_def in_range_def)
  next
    case False
    then show ?thesis using k(1) by (simp add: arr_set_def in_range_def)
  qed
qed

lemma deallocate_from_ok:
  "bm_inv b \<Longrightarrow> i + n \<le> length (dataSectors h) \<Longrightarrow> take n (drop i (dataSectors h)) = map int ks \<Longrightarrow>
   distinct ks \<Longrightarrow> set ks \<subseteq> bm_set b \<Longrightarrow>
   \<exists>b'. deallocate_from i n h b = Inr b' \<and> bm_inv b' \<and> numBits b' = numBits b \<and> bm_set b' = bm_set b - set ks"
proof (induction n arbitrary: i b ks)
  case 0
  then show ?case by simp
next
  case (Suc n)
  have d: "drop i (dataSectors h) = dataSectors h ! i # drop (Suc i) (dataSectors h)"
    using Suc.prems(2) by (simp add: Cons_nth_drop_Suc)
  then obtain k ks' where ks: "ks = k # ks'" "dataSectors h ! i = int k" "take n (drop (Suc i) (dataSectors h)) = map int ks'"
    using Suc.prems(3) by (cases ks) auto
  have k: "int k < numBits b" using Suc.prems(5) ks(1) bm_set_less by auto
  from Clear_refines [OF Suc.prems(1) k] obtain b1 where b1: "BitMap_Clear (int k) b = Inr b1" "bm_inv b1"
    "numBits b1 = numBits b" "bm_set b1 = bm_set b - {k}" by blast
  have "set ks' \<subseteq> bm_set b1" using Suc.prems(4,5) ks(1) b1(4) by auto
  from Suc.IH [OF b1(2) _ ks(3) _ this] Suc.prems ks(1) obtain b' where
    "deallocate_from (Suc i) n h b1 = Inr b'" "bm_inv b'" "numBits b' = numBits b1" "bm_set b' = bm_set b1 - set ks'" by auto
  moreover have "arr_get (dataSectors h) (int i) = Inr (int k)"
    using Suc.prems(2) ks(2) by (simp add: arr_get_def in_range_def)
  ultimately show ?case using Test_refines [OF Suc.prems(1) k] b1 ks(1) Suc.prems(5) by auto
qed

definition header_mem_ok :: "FileHeader \<Rightarrow> bool" where
  "header_mem_ok h \<longleftrightarrow> length (dataSectors h) = 30 \<and> list_all small_int (dataSectors h)"

lemma small_int_sector: "0 \<le> i \<Longrightarrow> i < 4096 \<Longrightarrow> small_int i"
  by (simp add: small_int_def)

lemma Allocate_ok:
  assumes "bm_inv b" "numBits b = 1024" "header_mem_ok h" "0 \<le> sz" "sz \<le> 3840"
    "int (card (bm_set b)) + divRoundUp sz 128 \<le> 1024"
  obtains h' b' where "FileHeader_Allocate b sz h = Inr (True, h', b')" "hdr_ok h'" "header_ints_ok h'"
    "numBytes h' = sz" "bm_inv b'" "numBits b' = 1024"
    "nat ` set (file_sectors h') \<inter> bm_set b = {}" "bm_set b' = bm_set b \<union> nat ` set (file_sectors h')"
proof -
  let ?n = "divRoundUp sz 128"
  have n: "0 \<le> ?n" "?n \<le> 30" using divRoundUp_bounds [of sz] assms(4,5) by linarith+
  let ?h1 = "h\<lparr>numBytes := sz, numSectors := ?n\<rparr>"
  have h: "length (dataSectors h) = 30" "list_all small_int (dataSectors h)" using assms(3) by (simp_all add: header_mem_ok_def)
  have c: "int (card (bm_set b)) + int (nat ?n) \<le> numBits b" using assms(2,6) n by simp
  obtain ks b' where ks: "allocate_from 0 (nat ?n) ?h1 b =
       Inr (?h1\<lparr>dataSectors := map int ks @ drop (nat ?n) (dataSectors h)\<rparr>, b')"
     "length ks = nat ?n" "distinct ks" "set ks \<inter> bm_set b = {}" "bm_inv b'" "numBits b' = numBits b" "bm_set b' = bm_set b \<union> set ks"
  proof -
    have l: "0 + nat ?n \<le> length (dataSectors ?h1)" using n(2) h(1) by simp
    show ?thesis using allocate_from_ok [OF assms(1) c l] that by auto
  qed
  let ?h2 = "?h1\<lparr>dataSectors := map int ks @ drop (nat ?n) (dataSectors h)\<rparr>"
  have fsec: "file_sectors ?h2 = map int ks" using ks(2) by (simp add: file_sectors_def)
  have less: "k < 1024" if "k \<in> set ks" for k
  proof -
    have "k \<in> bm_set b'" using that ks(7) by simp
    from bm_set_less [OF this] show ?thesis using ks(6) assms(2) by simp
  qed
  have "hdr_ok ?h2"
    using n assms(4,5) ks(2,3) less h(1) by (auto simp: hdr_ok_def fsec distinct_map inj_on_def)
  moreover have "header_ints_ok ?h2"
  proof -
    have "list_all small_int (drop (nat ?n) (dataSectors h))" using h(2) by (metis append_take_drop_id list_all_append)
    moreover have "list_all small_int (map int ks)" using less small_int_sector by (force simp: list_all_iff)
    ultimately show ?thesis using n assms(4,5) ks(2) h(1) by (simp add: header_ints_ok_def small_int_sector)
  qed
  moreover have "\<not> numBits b - int (card (bm_set b)) < ?n" using assms(2,6) by simp
  then have "FileHeader_Allocate b sz h = Inr (True, ?h2, b')"
    using ks(1) NumClear_refines [OF assms(1)] by (simp add: FileHeader_Allocate_def Let_def)
  moreover have "nat ` set (file_sectors ?h2) = set ks" by (simp add: fsec image_image)
  ultimately show ?thesis using that [of ?h2 b'] ks assms(2) by simp
qed

lemma Allocate_full:
  assumes "bm_inv b" "numBits b = 1024" "1024 < int (card (bm_set b)) + divRoundUp sz 128"
  shows "\<exists>h'. FileHeader_Allocate b sz h = Inr (False, h', b)"
  using assms NumClear_refines [OF assms(1)] by (simp add: FileHeader_Allocate_def Let_def)

lemma Deallocate_ok:
  assumes "bm_inv b" "hdr_ok h" "nat ` set (file_sectors h) \<subseteq> bm_set b"
  obtains b' where "FileHeader_Deallocate b h = Inr b'" "bm_inv b'" "numBits b' = numBits b"
    "bm_set b' = bm_set b - nat ` set (file_sectors h)"
proof -
  let ?ks = "map nat (file_sectors h)"
  have r: "\<forall>s \<in> set (file_sectors h). 0 \<le> s" using assms(2) by (simp add: hdr_ok_def)
  have m: "take (nat (numSectors h)) (drop 0 (dataSectors h)) = map int ?ks"
  proof -
    have "map int ?ks = file_sectors h" using r by (simp add: map_idI)
    then show ?thesis by (simp add: file_sectors_def)
  qed
  have "inj_on nat (set (file_sectors h))" using r by (metis eq_nat_nat_iff inj_onI)
  then have "distinct ?ks" using assms(2) by (simp add: hdr_ok_def distinct_map)
  moreover have "0 + nat (numSectors h) \<le> length (dataSectors h)"
    using hdr_ok_count [OF assms(2)] assms(2) by (simp add: hdr_ok_def)
  ultimately show ?thesis
    using deallocate_from_ok [OF assms(1) _ m] assms(3) that by (auto simp: FileHeader_Deallocate_def)
qed


section \<open>The state of the file system\<close>

abbreviation "map_hdr fs \<equiv> hdr (freeMapFile fs)"
abbreviation "dir_hdr fs \<equiv> hdr (directoryFile fs)"

definition fs_dir :: "filesys \<Rightarrow> directory" where
  "fs_dir fs = bytes_table 10 (file_content (dir_hdr fs) (fsDisk fs))"

definition fs_map :: "filesys \<Rightarrow> BitMap" where
  "fs_map fs = \<lparr>numBits = 1024, numWords = 32, bmap = bytes_words 32 (file_content (map_hdr fs) (fsDisk fs))\<rparr>"

definition entry_hdr :: "filesys \<Rightarrow> DirectoryEntry \<Rightarrow> FileHeader" where
  "entry_hdr fs e = bytes_header (fsDisk fs (sector e))"

definition entry_content :: "filesys \<Rightarrow> DirectoryEntry \<Rightarrow> byte list" where
  "entry_content fs e = file_content (entry_hdr fs e) (fsDisk fs)"

text \<open>The sectors of a file with its header, and those of the file system itself.\<close>

definition entry_blocks :: "filesys \<Rightarrow> DirectoryEntry \<Rightarrow> int set" where
  "entry_blocks fs e = insert (sector e) (set (file_sectors (entry_hdr fs e)))"

definition sys_blocks :: "filesys \<Rightarrow> int set" where
  "sys_blocks fs = {0, 1} \<union> set (file_sectors (map_hdr fs)) \<union> set (file_sectors (dir_hdr fs))"

definition used_slots :: "filesys \<Rightarrow> nat set" where
  "used_slots fs = {i. i < 10 \<and> inUse (fs_dir fs ! i)}"

definition sys_ok :: "filesys \<Rightarrow> bool" where
  "sys_ok fs \<longleftrightarrow> disk_ok (fsDisk fs) \<and> hdr_ok (map_hdr fs) \<and> numBytes (map_hdr fs) = 128 \<and>
     hdr_ok (dir_hdr fs) \<and> numBytes (dir_hdr fs) = 200 \<and>
     header_ints_ok (map_hdr fs) \<and> header_ints_ok (dir_hdr fs) \<and>
     fsDisk fs 0 = header_bytes (map_hdr fs) \<and> fsDisk fs 1 = header_bytes (dir_hdr fs) \<and>
     {0, 1} \<inter> set (file_sectors (map_hdr fs)) = {} \<and> {0, 1} \<inter> set (file_sectors (dir_hdr fs)) = {} \<and>
     set (file_sectors (map_hdr fs)) \<inter> set (file_sectors (dir_hdr fs)) = {}"

definition entry_good :: "filesys \<Rightarrow> DirectoryEntry \<Rightarrow> bool" where
  "entry_good fs e \<longleftrightarrow> 0 \<le> sector e \<and> sector e < 1024 \<and> hdr_ok (entry_hdr fs e) \<and>
     sector e \<notin> set (file_sectors (entry_hdr fs e)) \<and> entry_blocks fs e \<inter> sys_blocks fs = {}"

definition dir_ok :: "filesys \<Rightarrow> bool" where
  "dir_ok fs \<longleftrightarrow> (\<forall>i < 10. inUse (fs_dir fs ! i) \<longrightarrow> entry_good fs (fs_dir fs ! i)) \<and>
     (\<forall>i < 10. \<forall>j < 10. i \<noteq> j \<longrightarrow> inUse (fs_dir fs ! i) \<longrightarrow> inUse (fs_dir fs ! j) \<longrightarrow>
        short_name (entryName (fs_dir fs ! i)) \<noteq> short_name (entryName (fs_dir fs ! j)) \<and>
        entry_blocks fs (fs_dir fs ! i) \<inter> entry_blocks fs (fs_dir fs ! j) = {})"

definition map_ok :: "filesys \<Rightarrow> bool" where
  "map_ok fs \<longleftrightarrow> bm_set (fs_map fs) = nat ` (sys_blocks fs \<union> (\<Union>i \<in> used_slots fs. entry_blocks fs (fs_dir fs ! i)))"

definition fs_inv :: "filesys \<Rightarrow> bool" where
  "fs_inv fs \<longleftrightarrow> sys_ok fs \<and> dir_ok fs \<and> map_ok fs"

text \<open>The files: the contents by the part of the name that counts.\<close>

definition fs_files :: "filesys \<Rightarrow> byte list \<Rightarrow> byte list option" where
  "fs_files fs n = (case first_from (\<lambda>i. inUse (fs_dir fs ! i) \<and> short_name (entryName (fs_dir fs ! i)) = n) 0 10 of
     None \<Rightarrow> None | Some i \<Rightarrow> Some (entry_content fs (fs_dir fs ! i)))"

definition fsmem_ok :: "fsmem \<Rightarrow> bool" where
  "fsmem_ok g \<longleftrightarrow> 32 \<le> length (memWords g) \<and> 10 \<le> length (memEntries g) \<and> list_all entry_ok (memEntries g) \<and>
     header_mem_ok (memHeader g)"

section \<open>Reading the state\<close>

lemma small_int_at: "small_int (int_at bs k)"
proof -
  have "- (2 ^ 31) \<le> sint w" "sint w < 2 ^ 31" for w :: "32 word"
    using sint_ge [of w] sint_lt [of w] by simp_all
  then show ?thesis by (simp add: small_int_def int_at_def)
qed

lemma bytes_table_ok: "length bs = 200 \<Longrightarrow> list_all entry_ok (bytes_table 10 bs) \<and> length (bytes_table 10 bs) = 10"
  by (auto simp: bytes_table_def list_all_iff entry_ok_def bytes_entry_def small_int_at)

lemma fs_dir_length [simp]: "length (fs_dir fs) = 10"
  by (simp add: fs_dir_def bytes_table_def)

lemma sys_okD:
  assumes "sys_ok fs"
  shows "disk_ok (fsDisk fs)" "hdr_ok (map_hdr fs)" "numBytes (map_hdr fs) = 128" "hdr_ok (dir_hdr fs)"
    "numBytes (dir_hdr fs) = 200"
  using assms by (simp_all add: sys_ok_def)

lemma dir_content_length: "sys_ok fs \<Longrightarrow> length (file_content (dir_hdr fs) (fsDisk fs)) = 200"
  using file_content_length sys_okD by simp

lemma fs_dir_ok: "sys_ok fs \<Longrightarrow> list_all entry_ok (fs_dir fs)"
  using bytes_table_ok [OF dir_content_length] by (simp add: fs_dir_def)

lemma load_directory_ok:
  assumes "sys_ok fs" "fsmem_ok g"
  shows "load_directory g fs = Inr (fs_dir fs)"
proof -
  let ?d = "Directory_new (memEntries g) NumDirEntries"
  have l: "length ?d = 10" "list_all entry_ok ?d"
    using assms(2) by (auto simp: Directory_new_def NumDirEntries_def fsmem_ok_def list_all_iff entry_ok_def dest: in_set_takeD)
  have n: "numBytes (dir_hdr fs) = int (20 * length ?d)" using sys_okD(5) [OF assms(1)] l(1) by simp
  show ?thesis
    using fetch_directory [OF sys_okD(1,4) [OF assms(1)] n l(2)] l(1) by (simp add: load_directory_def fs_dir_def)
qed

lemma load_map_ok:
  assumes "sys_ok fs" "fsmem_ok g"
  shows "load_map g fs = Inr (fs_map fs)"
proof -
  have "nat (divRoundUp 1024 32) \<le> length (memWords g)" using assms(2) by (simp add: fsmem_ok_def divRoundUp_def)
  then obtain b where b: "BitMap_new (memWords g) 1024 = Inr b" "bm_inv b" "numBits b = 1024" "bm_set b = {}"
    using BitMap_new_refines [of 1024 "memWords g"] by auto
  have w: "numWords b = 32" "length (bmap b) = 32" using b(2,3) by (simp_all add: bm_inv_def divRoundUp_def BitsInWord_def)
  have "BitMap_FetchFrom (freeMapFile fs) (fsDisk fs) b = Inr (b\<lparr>bmap := bytes_words 32 (file_content (map_hdr fs) (fsDisk fs))\<rparr>)"
    using fetch_bitmap [OF sys_okD(1,2) [OF assms(1)], of b] sys_okD(3) [OF assms(1)] w by simp
  moreover have "b\<lparr>bmap := bytes_words 32 (file_content (map_hdr fs) (fsDisk fs))\<rparr> = fs_map fs"
    using b(3) w(1) by (simp add: fs_map_def)
  ultimately show ?thesis using b(1) by (simp add: load_map_def)
qed

lemma fs_map_inv: "bm_inv (fs_map fs)" "numBits (fs_map fs) = 1024"
  by (simp_all add: fs_map_def bm_inv_def divRoundUp_def BitsInWord_def bytes_words_def)

lemma file_content_cong: "(\<And>s. s \<in> set (file_sectors h) \<Longrightarrow> S' s = S s) \<Longrightarrow> file_content h S' = file_content h S"
  by (simp add: file_content_def cong: map_cong)

text \<open>The index of a name in the directory.\<close>

definition name_index :: "filesys \<Rightarrow> byte list \<Rightarrow> nat option" where
  "name_index fs nm = first_from (\<lambda>i. inUse (fs_dir fs ! i) \<and> short_name (entryName (fs_dir fs ! i)) = short_name nm) 0 10"

lemma FindIndex_eq: "FindIndex nm (fs_dir fs) = index_or_m1 (name_index fs nm)"
  by (simp add: FindIndex_def name_index_def strncmp_short)

lemma fs_files_eq: "fs_files fs (short_name nm) = (case name_index fs nm of None \<Rightarrow> None | Some i \<Rightarrow> Some (entry_content fs (fs_dir fs ! i)))"
  by (simp add: fs_files_def name_index_def)

lemma name_index_Some:
  "name_index fs nm = Some i \<Longrightarrow> i < 10 \<and> inUse (fs_dir fs ! i) \<and> short_name (entryName (fs_dir fs ! i)) = short_name nm"
  using first_from_Some unfolding name_index_def by fastforce

lemma name_index_None:
  "name_index fs nm = None \<longleftrightarrow> (\<forall>i<10. inUse (fs_dir fs ! i) \<longrightarrow> short_name (entryName (fs_dir fs ! i)) \<noteq> short_name nm)"
  by (auto simp: name_index_def first_from_None)

lemma fs_files_cases:
  assumes "dir_ok fs" "i < 10" "inUse (fs_dir fs ! i)"
  shows "fs_files fs (short_name (entryName (fs_dir fs ! i))) = Some (entry_content fs (fs_dir fs ! i))"
proof -
  have "first_from (\<lambda>j. inUse (fs_dir fs ! j) \<and> short_name (entryName (fs_dir fs ! j)) = short_name (entryName (fs_dir fs ! i))) 0 10 = Some i"
    by (rule first_from_SomeI) (use assms in \<open>auto simp: dir_ok_def\<close>)
  then show ?thesis by (simp add: fs_files_def)
qed

lemma fs_files_None: "fs_files fs n = None \<longleftrightarrow> (\<forall>i<10. inUse (fs_dir fs ! i) \<longrightarrow> short_name (entryName (fs_dir fs ! i)) \<noteq> n)"
  by (auto simp: fs_files_def first_from_None split: option.splits) (use first_from_Some in fastforce)


section \<open>Writing the state\<close>

abbreviation "on_disk fs S \<equiv> fs\<lparr>fsDisk := S\<rparr>"

lemma state_cong:
  assumes "sys_ok fs" "disk_ok S'" "\<And>s. s \<in> sys_blocks fs \<Longrightarrow> S' s = fsDisk fs s"
  shows "sys_ok (on_disk fs S')" "fs_dir (on_disk fs S') = fs_dir fs" "fs_map (on_disk fs S') = fs_map fs"
    "sys_blocks (on_disk fs S') = sys_blocks fs"
proof -
  show "sys_ok (on_disk fs S')" using assms by (simp add: sys_ok_def sys_blocks_def)
  have "file_content (dir_hdr fs) S' = file_content (dir_hdr fs) (fsDisk fs)"
    by (rule file_content_cong) (rule assms(3), simp add: sys_blocks_def)
  then show "fs_dir (on_disk fs S') = fs_dir fs" by (simp add: fs_dir_def)
  have "file_content (map_hdr fs) S' = file_content (map_hdr fs) (fsDisk fs)"
    by (rule file_content_cong) (rule assms(3), simp add: sys_blocks_def)
  then show "fs_map (on_disk fs S') = fs_map fs" by (simp add: fs_map_def)
  show "sys_blocks (on_disk fs S') = sys_blocks fs" by (simp add: sys_blocks_def)
qed

lemma entry_cong:
  assumes "\<And>s. s \<in> entry_blocks fs e \<Longrightarrow> S' s = fsDisk fs s"
  shows "entry_hdr (on_disk fs S') e = entry_hdr fs e" "entry_content (on_disk fs S') e = entry_content fs e"
    "entry_blocks (on_disk fs S') e = entry_blocks fs e"
proof -
  have "S' (sector e) = fsDisk fs (sector e)" by (rule assms) (simp add: entry_blocks_def)
  then show h: "entry_hdr (on_disk fs S') e = entry_hdr fs e" by (simp add: entry_hdr_def)
  then show "entry_blocks (on_disk fs S') e = entry_blocks fs e" by (simp add: entry_blocks_def)
  show "entry_content (on_disk fs S') e = entry_content fs e" unfolding entry_content_def h
    by (simp, rule file_content_cong) (rule assms, simp add: entry_blocks_def)
qed

lemma write_dir_state:
  assumes "sys_ok fs" "list_all entry_ok dir" "length dir = 10"
  obtains S' where "Directory_WriteBack stale (directoryFile fs) dir (fsDisk fs) = Inr S'"
    "sys_ok (on_disk fs S')" "fs_dir (on_disk fs S') = dir" "fs_map (on_disk fs S') = fs_map fs"
    "\<And>s. s \<notin> set (file_sectors (dir_hdr fs)) \<Longrightarrow> S' s = fsDisk fs s"
proof -
  have n: "numBytes (dir_hdr fs) = int (20 * length dir)" using sys_okD(5) [OF assms(1)] assms(3) by simp
  have "dir \<noteq> []" using assms(3) by auto
  then obtain S' where S': "Directory_WriteBack stale (directoryFile fs) dir (fsDisk fs) = Inr S'" "disk_ok S'"
    "file_content (dir_hdr fs) S' = table_bytes dir" "\<And>s. s \<notin> set (file_sectors (dir_hdr fs)) \<Longrightarrow> S' s = fsDisk fs s"
    by (rule write_directory [OF sys_okD(1,4) [OF assms(1)] n assms(2), of stale]) blast
  have "file_content (map_hdr fs) S' = file_content (map_hdr fs) (fsDisk fs)"
    by (rule file_content_cong, rule S'(4)) (use assms(1) in \<open>auto simp: sys_ok_def\<close>)
  moreover have "sys_ok (on_disk fs S')" using assms(1) S'(2,4) by (simp add: sys_ok_def)
  moreover have "fs_dir (on_disk fs S') = dir" using table_roundtrip [OF assms(2)] assms(3) by (simp add: fs_dir_def S'(3))
  ultimately show ?thesis using that [of S'] S'(1,4) by (simp add: fs_map_def)
qed

lemma write_map_state:
  assumes "sys_ok fs" "bm_inv b" "numBits b = 1024"
  obtains S' where "BitMap_WriteBack stale (freeMapFile fs) b (fsDisk fs) = Inr S'"
    "sys_ok (on_disk fs S')" "fs_dir (on_disk fs S') = fs_dir fs" "fs_map (on_disk fs S') = b"
    "\<And>s. s \<notin> set (file_sectors (map_hdr fs)) \<Longrightarrow> S' s = fsDisk fs s"
proof -
  have w: "numWords b = 32" "length (bmap b) = 32" using assms(2,3) by (simp_all add: bm_inv_def divRoundUp_def BitsInWord_def)
  then obtain S' where S': "BitMap_WriteBack stale (freeMapFile fs) b (fsDisk fs) = Inr S'" "disk_ok S'"
    "file_content (map_hdr fs) S' = words_bytes (bmap b)" "\<And>s. s \<notin> set (file_sectors (map_hdr fs)) \<Longrightarrow> S' s = fsDisk fs s"
    using write_bitmap [OF sys_okD(1,2) [OF assms(1)], of b stale] sys_okD(3) [OF assms(1)] by auto
  have "file_content (dir_hdr fs) S' = file_content (dir_hdr fs) (fsDisk fs)"
    by (rule file_content_cong, rule S'(4)) (use assms(1) in \<open>auto simp: sys_ok_def\<close>)
  moreover have "sys_ok (on_disk fs S')" using assms(1) S'(2,4) by (simp add: sys_ok_def)
  moreover have "fs_map (on_disk fs S') = b"
    using words_roundtrip [of "bmap b"] w assms(3) by (simp add: fs_map_def S'(3))
  ultimately show ?thesis using that [of S'] S'(1,4) by (simp add: fs_dir_def)
qed

lemma write_header_state:
  assumes "sys_ok fs" "header_ints_ok h" "0 \<le> sec" "sec < 1024" "sec \<notin> sys_blocks fs"
  defines "S' \<equiv> (fsDisk fs)(sec := header_bytes h)"
  shows "FileHeader_WriteBack sec h (fsDisk fs) = Inr S'" "sys_ok (on_disk fs S')"
    "fs_dir (on_disk fs S') = fs_dir fs" "fs_map (on_disk fs S') = fs_map fs"
proof -
  show "FileHeader_WriteBack sec h (fsDisk fs) = Inr S'"
    using assms(3,4) by (simp add: FileHeader_WriteBack_def WriteSector_def S'_def)
  have "length (header_bytes h) = 128" using assms(2) by (simp add: header_bytes_length header_ints_ok_def)
  then have "disk_ok S'" using sys_okD(1) [OF assms(1)] by (simp add: disk_ok_def S'_def)
  moreover have "s \<in> sys_blocks fs \<Longrightarrow> S' s = fsDisk fs s" for s using assms(5) by (auto simp: S'_def)
  ultimately show "sys_ok (on_disk fs S')" "fs_dir (on_disk fs S') = fs_dir fs" "fs_map (on_disk fs S') = fs_map fs"
    using state_cong [OF assms(1)] by blast+
qed

text \<open>A sector that the bit map does not mark belongs to nothing.\<close>

lemma unmarked:
  assumes "fs_inv fs" "k \<notin> bm_set (fs_map fs)"
  shows "int k \<notin> sys_blocks fs" "i < 10 \<Longrightarrow> inUse (fs_dir fs ! i) \<Longrightarrow> int k \<notin> entry_blocks fs (fs_dir fs ! i)"
proof -
  have m: "bm_set (fs_map fs) = nat ` (sys_blocks fs \<union> (\<Union>i \<in> used_slots fs. entry_blocks fs (fs_dir fs ! i)))"
    using assms(1) by (simp add: fs_inv_def map_ok_def)
  show "int k \<notin> sys_blocks fs" using assms(2) unfolding m by (metis UnI1 image_eqI nat_int)
  show "int k \<notin> entry_blocks fs (fs_dir fs ! i)" if "i < 10" "inUse (fs_dir fs ! i)"
  proof -
    have "i \<in> used_slots fs" using that by (simp add: used_slots_def)
    then show ?thesis using assms(2) unfolding m by (metis UN_I UnI2 image_eqI nat_int)
  qed
qed

end
