(* ===== verification/Nachos_FileSysThms.thy ===== *)
theory Nachos_FileSysThms
  imports Nachos_FileSys
begin

text \<open>
  What the file system operations promise: create, remove and write change exactly the file they name,
  in terms of the map from names to contents, and keep the invariant of the disk.
\<close>

section \<open>The files of a consistent disk\<close>

lemma fs_files_iff:
  assumes "dir_ok fs"
  shows "fs_files fs n = Some c \<longleftrightarrow> (\<exists>j<10. inUse (fs_dir fs ! j) \<and> short_name (entryName (fs_dir fs ! j)) = n \<and>
    entry_content fs (fs_dir fs ! j) = c)" (is "?l \<longleftrightarrow> ?r")
proof
  assume ?l
  then show ?r by (auto simp: fs_files_def split: option.splits dest!: first_from_Some)
next
  assume ?r
  then show ?l using fs_files_cases [OF assms] by auto
qed

lemma map_eqI: "(\<And>n c. f n = Some c \<longleftrightarrow> g n = Some c) \<Longrightarrow> f = g"
  by (rule ext) (metis not_Some_eq option.sel)

lemma entry_goodD:
  assumes "dir_ok fs" "i < 10" "inUse (fs_dir fs ! i)"
  shows "entry_good fs (fs_dir fs ! i)"
  using assms by (simp add: dir_ok_def)

lemma entries_apart:
  assumes "dir_ok fs" "i < 10" "j < 10" "i \<noteq> j" "inUse (fs_dir fs ! i)" "inUse (fs_dir fs ! j)"
  shows "short_name (entryName (fs_dir fs ! i)) \<noteq> short_name (entryName (fs_dir fs ! j))"
    "entry_blocks fs (fs_dir fs ! i) \<inter> entry_blocks fs (fs_dir fs ! j) = {}"
  using assms by (simp_all add: dir_ok_def)

section \<open>Creating a file\<close>

text \<open>The state that \<open>Create\<close> leaves: a new entry, its header, and the sectors marked.\<close>

definition created :: "filesys \<Rightarrow> nat \<Rightarrow> DirectoryEntry \<Rightarrow> FileHeader \<Rightarrow> filesys \<Rightarrow> bool" where
  "created fs i e0 h fs' \<longleftrightarrow> sys_ok fs' \<and> sys_blocks fs' = sys_blocks fs \<and> fs_dir fs' = (fs_dir fs)[i := e0] \<and>
     bm_set (fs_map fs') = insert (nat (sector e0)) (bm_set (fs_map fs)) \<union> nat ` set (file_sectors h) \<and>
     fsDisk fs' (sector e0) = header_bytes h \<and>
     (\<forall>s. s \<notin> sys_blocks fs \<longrightarrow> s \<noteq> sector e0 \<longrightarrow> fsDisk fs' s = fsDisk fs s) \<and>
     (\<exists>S'. fs' = on_disk fs S')"

lemma create_writes:
  assumes "sys_ok fs" "header_ints_ok h" "k < 1024" "int k \<notin> sys_blocks fs" "entry_ok e0" "sector e0 = int k"
    "bm_inv m2" "numBits m2 = 1024" "bm_set m2 = insert k (bm_set (fs_map fs)) \<union> nat ` set (file_sectors h)"
  obtains S1 S2 S3 where "FileHeader_WriteBack (int k) h (fsDisk fs) = Inr S1"
    "Directory_WriteBack stale (directoryFile fs) ((fs_dir fs)[i := e0]) S1 = Inr S2"
    "BitMap_WriteBack stale (freeMapFile fs) m2 S2 = Inr S3" "created fs i e0 h (on_disk fs S3)"
proof -
  let ?S1 = "(fsDisk fs)(int k := header_bytes h)"
  have k: "0 \<le> int k" "int k < 1024" using assms(3) by simp_all
  note w1 = write_header_state [OF assms(1,2) k assms(4)]
  have "list_all entry_ok ((fs_dir fs)[i := e0])" using fs_dir_ok [OF assms(1)] assms(5)
    by (auto simp: list_all_iff dest: set_update_subset_insert [THEN subsetD])
  from write_dir_state [OF w1(2) this, of stale] obtain S2 where
    S2: "Directory_WriteBack stale (directoryFile fs) ((fs_dir fs)[i := e0]) ?S1 = Inr S2"
    "sys_ok (on_disk fs S2)" "fs_dir (on_disk fs S2) = (fs_dir fs)[i := e0]"
    "\<And>s. s \<notin> set (file_sectors (dir_hdr fs)) \<Longrightarrow> S2 s = ?S1 s"
    by (simp only: length_list_update fs_dir_length) (metis (no_types) filesys.select_convs(1,3) filesys.surjective filesys.update_convs(1) w1(4))
  from write_map_state [OF S2(2) assms(7,8), of stale] obtain S3 where
    S3: "BitMap_WriteBack stale (freeMapFile fs) m2 S2 = Inr S3" "sys_ok (on_disk fs S3)"
      "fs_dir (on_disk fs S3) = fs_dir (on_disk fs S2)" "fs_map (on_disk fs S3) = m2"
      "\<And>s. s \<notin> set (file_sectors (map_hdr fs)) \<Longrightarrow> S3 s = S2 s" by auto
  have "created fs i e0 h (on_disk fs S3)"
    using S2 S3 assms(4,6,9) by (auto simp: created_def sys_blocks_def)
  then show ?thesis using that w1(1) S2(1) S3(1) by blast
qed

lemma file_sectors_card:
  assumes "hdr_ok h"
  shows "int (card (nat ` set (file_sectors h))) = divRoundUp (numBytes h) 128"
proof -
  have "inj_on nat (set (file_sectors h))" using assms by (metis eq_nat_nat_iff hdr_ok_def inj_onI)
  then have "card (nat ` set (file_sectors h)) = length (file_sectors h)"
    using assms by (simp add: card_image distinct_card hdr_ok_def)
  then show ?thesis using file_sectors_length [OF assms] hdr_ok_count [OF assms] assms by (simp add: hdr_ok_def)
qed

lemma created_inv:
  assumes inv: "fs_inv fs" and c: "created fs i e0 h fs'" and i: "i < 10" "\<not> inUse (fs_dir fs ! i)"
    and e0: "inUse e0" "sector e0 = int k" "k < 1024" "k \<notin> bm_set (fs_map fs)"
    and fresh: "\<And>j. j < 10 \<Longrightarrow> inUse (fs_dir fs ! j) \<Longrightarrow> short_name (entryName (fs_dir fs ! j)) \<noteq> short_name (entryName e0)"
    and h: "hdr_ok h" "header_ints_ok h" "nat ` set (file_sectors h) \<inter> insert k (bm_set (fs_map fs)) = {}"
  shows "fs_inv fs'"
    "fs_files fs' = (fs_files fs)(short_name (entryName e0) \<mapsto> file_content h (fsDisk fs'))"
proof -
  have ok: "sys_ok fs" "dir_ok fs" "map_ok fs" using inv by (simp_all add: fs_inv_def)
  from c have fs': "sys_ok fs'" "sys_blocks fs' = sys_blocks fs" "fs_dir fs' = (fs_dir fs)[i := e0]"
    "bm_set (fs_map fs') = insert k (bm_set (fs_map fs)) \<union> nat ` set (file_sectors h)"
    "fsDisk fs' (int k) = header_bytes h"
    "\<And>s. s \<notin> sys_blocks fs \<Longrightarrow> s \<noteq> int k \<Longrightarrow> fsDisk fs' s = fsDisk fs s"
    using e0(2) by (simp_all add: created_def)
  obtain S' where S': "fs' = on_disk fs S'" using c by (auto simp: created_def)
  have h0: "entry_hdr fs' e0 = h" using fs'(5) e0(2) header_roundtrip [OF h(2)] by (simp add: entry_hdr_def)
  then have b0: "entry_blocks fs' e0 = insert (int k) (set (file_sectors h))" using e0(2) by (simp add: entry_blocks_def)
  have unm: "\<forall>s \<in> entry_blocks fs' e0. s \<notin> sys_blocks fs \<and> (\<forall>j < 10. inUse (fs_dir fs ! j) \<longrightarrow> s \<notin> entry_blocks fs (fs_dir fs ! j))"
  proof
    fix s assume "s \<in> entry_blocks fs' e0"
    then have "\<exists>m. s = int m \<and> m \<notin> bm_set (fs_map fs)"
    proof (cases "s = int k")
      case False
      then have s: "s \<in> set (file_sectors h)" using \<open>s \<in> entry_blocks fs' e0\<close> b0 by simp
      then have "0 \<le> s" using h(1) by (simp add: hdr_ok_def)
      then show ?thesis using h(3) s by (intro exI [of _ "nat s"]) auto
    qed (use e0 in auto)
    then show "s \<notin> sys_blocks fs \<and> (\<forall>j < 10. inUse (fs_dir fs ! j) \<longrightarrow> s \<notin> entry_blocks fs (fs_dir fs ! j))"
      using unmarked [OF inv] by blast
  qed
  have other: "entry_hdr fs' (fs_dir fs ! j) = entry_hdr fs (fs_dir fs ! j)"
    "entry_content fs' (fs_dir fs ! j) = entry_content fs (fs_dir fs ! j)"
    "entry_blocks fs' (fs_dir fs ! j) = entry_blocks fs (fs_dir fs ! j)" if j: "j < 10" "inUse (fs_dir fs ! j)" for j
  proof -
    have "S' s = fsDisk fs s" if "s \<in> entry_blocks fs (fs_dir fs ! j)" for s
    proof -
      have "s \<notin> sys_blocks fs" using entry_goodD [OF ok(2) j] that by (auto simp: entry_good_def)
      moreover have "s \<noteq> int k" using unm j that b0 by auto
      ultimately show ?thesis using fs'(6) S' by simp
    qed
    from entry_cong [OF this] show "entry_hdr fs' (fs_dir fs ! j) = entry_hdr fs (fs_dir fs ! j)"
      "entry_content fs' (fs_dir fs ! j) = entry_content fs (fs_dir fs ! j)"
      "entry_blocks fs' (fs_dir fs ! j) = entry_blocks fs (fs_dir fs ! j)" by (simp_all add: S')
  qed
  have nth: "fs_dir fs' ! j = (if j = i then e0 else fs_dir fs ! j)" if "j < 10" for j using that fs'(3) by simp
  have "int k \<notin> set (file_sectors h)" using h(3) by (metis disjoint_insert(2) image_eqI nat_int)
  then have good0: "entry_good fs' e0"
    using unm b0 h h0 e0 fs'(2) by (auto simp: entry_good_def)
  have good: "entry_good fs' (fs_dir fs ! j)" if j: "j < 10" "inUse (fs_dir fs ! j)" for j
    using entry_goodD [OF ok(2) j] other [OF j] fs'(2) by (simp add: entry_good_def)
  have dir: "dir_ok fs'"
    unfolding dir_ok_def
  proof (intro conjI allI impI)
    fix j :: nat assume "j < 10" "inUse (fs_dir fs' ! j)"
    then show "entry_good fs' (fs_dir fs' ! j)" using good0 good nth by (simp split: if_splits)
  next
    fix a b :: nat assume ab: "a < 10" "b < 10" "a \<noteq> b" "inUse (fs_dir fs' ! a)" "inUse (fs_dir fs' ! b)"
    then show "short_name (entryName (fs_dir fs' ! a)) \<noteq> short_name (entryName (fs_dir fs' ! b))"
      using fresh [of a] fresh [of b] nth entries_apart(1) [OF ok(2) ab(1,2,3)] by (auto split: if_splits)
    show "entry_blocks fs' (fs_dir fs' ! a) \<inter> entry_blocks fs' (fs_dir fs' ! b) = {}"
      using ab nth other unm entries_apart(2) [OF ok(2) ab(1,2,3)] by (simp split: if_splits) blast+
  qed
  moreover have "map_ok fs'"
  proof -
    have u: "used_slots fs' = insert i (used_slots fs)" using i(1) e0(1) nth by (auto simp: used_slots_def split: if_splits)
    have "(\<Union>j \<in> used_slots fs. entry_blocks fs' (fs_dir fs' ! j)) = (\<Union>j \<in> used_slots fs. entry_blocks fs (fs_dir fs ! j))"
      by (rule SUP_cong [OF refl]) (use i(2) nth other in \<open>auto simp: used_slots_def\<close>)
    moreover have "entry_blocks fs' (fs_dir fs' ! i) = insert (int k) (set (file_sectors h))" using nth i(1) b0 by simp
    ultimately show ?thesis using ok(3) unfolding map_ok_def u fs'(2,4) by (simp add: image_Un) blast
  qed
  ultimately show "fs_inv fs'" using fs'(1) by (simp add: fs_inv_def)
  show "fs_files fs' = (fs_files fs)(short_name (entryName e0) \<mapsto> file_content h (fsDisk fs'))"
  proof (rule map_eqI)
    fix n c
    have "entry_content fs' e0 = file_content h (fsDisk fs')" using h0 by (simp add: entry_content_def)
    then show "fs_files fs' n = Some c \<longleftrightarrow> ((fs_files fs)(short_name (entryName e0) \<mapsto> file_content h (fsDisk fs'))) n = Some c"
      using i e0(1) fresh nth other(2)
      by (auto simp: fs_files_iff [OF dir] fs_files_iff [OF ok(2)]) blast+
  qed
qed

lemma Directory_Find_eq:
  "Directory_Find nm (fs_dir fs) = (case name_index fs nm of None \<Rightarrow> -1 | Some i \<Rightarrow> sector (fs_dir fs ! i))"
  by (simp add: Directory_Find_def FindIndex_eq index_or_m1_def split: option.split)

lemma Find_absent:
  assumes "dir_ok fs"
  shows "Directory_Find nm (fs_dir fs) = -1 \<longleftrightarrow> fs_files fs (short_name nm) = None"
    "Directory_Find nm (fs_dir fs) < 0 \<longleftrightarrow> fs_files fs (short_name nm) = None"
proof -
  have "0 \<le> sector (fs_dir fs ! i)" if "name_index fs nm = Some i" for i
    using entry_goodD [OF assms] name_index_Some [OF that] by (simp add: entry_good_def)
  then show "Directory_Find nm (fs_dir fs) = -1 \<longleftrightarrow> fs_files fs (short_name nm) = None"
    "Directory_Find nm (fs_dir fs) < 0 \<longleftrightarrow> fs_files fs (short_name nm) = None"
    by (cases "name_index fs nm"; force simp: Directory_Find_eq fs_files_eq)+
qed

lemma Directory_Add_eq:
  assumes "fs_files fs (short_name nm) = None"
  shows "Directory_Add nm s (fs_dir fs) = (case first_from (\<lambda>i. \<not> inUse (fs_dir fs ! i)) 0 10 of
     None \<Rightarrow> (False, fs_dir fs)
   | Some i \<Rightarrow> (True, (fs_dir fs)[i := \<lparr>inUse = True, sector = s, entryName = strncpy FileNameMaxLen (entryName (fs_dir fs ! i)) nm\<rparr>]))"
proof -
  have "name_index fs nm = None" using assms by (simp add: fs_files_eq split: option.splits)
  then show ?thesis by (simp add: Directory_Add_def FindIndex_eq index_or_m1_def)
qed

lemma fs_files_length:
  assumes "sys_ok fs" "dir_ok fs" "fs_files fs n = Some c"
  shows "length c \<le> 3840"
proof -
  from assms(3) obtain j where j: "j < 10" "inUse (fs_dir fs ! j)" "entry_content fs (fs_dir fs ! j) = c"
    by (auto simp: fs_files_iff [OF assms(2)])
  from entry_goodD [OF assms(2) j(1,2)] have h: "hdr_ok (entry_hdr fs (fs_dir fs ! j))" by (simp add: entry_good_def)
  then show ?thesis using file_content_length [OF sys_okD(1) [OF assms(1)] h] j(3) by (auto simp: entry_content_def hdr_ok_def)
qed

text \<open>The sectors that are not marked, and when \<open>Create\<close> succeeds.\<close>

definition free_sectors :: "filesys \<Rightarrow> int" where
  "free_sectors fs = 1024 - int (card (bm_set (fs_map fs)))"

definition can_create :: "byte list \<Rightarrow> int \<Rightarrow> filesys \<Rightarrow> bool" where
  "can_create nm sz fs \<longleftrightarrow> fs_files fs (short_name nm) = None \<and> used_slots fs \<noteq> {..<10} \<and>
     1 + divRoundUp sz 128 \<le> free_sectors fs"

lemma free_slot:
  "first_from (\<lambda>i. \<not> inUse (fs_dir fs ! i)) 0 10 = None \<longleftrightarrow> used_slots fs = {..<10}"
  by (auto simp: first_from_None used_slots_def)

lemma full_map: "{i. int i < 1024} = {..<1024}"
  by auto

lemma take_sector:
  assumes "bm_set (fs_map fs) \<noteq> {i. int i < 1024}"
  obtains k m1 where "BitMap_Find (fs_map fs) = Inr (int k, m1)" "k \<notin> bm_set (fs_map fs)" "k < 1024"
    "bm_inv m1" "numBits m1 = 1024" "bm_set m1 = insert k (bm_set (fs_map fs))"
    "card (bm_set m1) = card (bm_set (fs_map fs)) + 1"
proof -
  from assms bm.find_free [OF fs_map_inv(1)] obtain k m1 where "BitMap_Find (fs_map fs) = Inr (int k, m1)"
    "k \<notin> bm_set (fs_map fs)" "int k < 1024" "bm_inv m1" "numBits m1 = 1024" "bm_set m1 = insert k (bm_set (fs_map fs))"
    unfolding fs_map_inv(2) by blast
  then show ?thesis using that by simp
qed

lemma Create_refused:
  assumes inv: "fs_inv fs" and g: "fsmem_ok g" and sz: "0 \<le> sz" and no: "\<not> can_create nm sz fs"
  shows "FileSystem_Create g nm sz fs = Inr (False, fs)"
proof -
  have ok: "sys_ok fs" "dir_ok fs" using inv by (simp_all add: fs_inv_def)
  note load = load_directory_ok [OF ok(1) g] load_map_ok [OF ok(1) g]
  consider "fs_files fs (short_name nm) \<noteq> None"
    | "fs_files fs (short_name nm) = None" "bm_set (fs_map fs) = {i. int i < 1024}"
    | "fs_files fs (short_name nm) = None" "bm_set (fs_map fs) \<noteq> {i. int i < 1024}" by blast
  then show ?thesis
  proof cases
    case 1
    then have "Directory_Find nm (fs_dir fs) \<noteq> -1" using Find_absent(1) [OF ok(2)] by simp
    then show ?thesis using load by (simp add: FileSystem_Create_def)
  next
    case 2
    then show ?thesis using load Find_absent(1) [OF ok(2)] bm.find_full [OF fs_map_inv(1) [of fs]] fs_map_inv(2)
      by (simp add: FileSystem_Create_def)
  next
    case 3
    then have find: "Directory_Find nm (fs_dir fs) = -1" using Find_absent(1) [OF ok(2)] by simp
    from take_sector [OF 3(2)] obtain k m1 where k: "BitMap_Find (fs_map fs) = Inr (int k, m1)" "bm_inv m1"
      "numBits m1 = 1024" "card (bm_set m1) = card (bm_set (fs_map fs)) + 1" by blast
    show ?thesis
    proof (cases "first_from (\<lambda>i. \<not> inUse (fs_dir fs ! i)) 0 10")
      case None
      then show ?thesis using load find k(1) Directory_Add_eq [OF 3(1)] by (simp add: FileSystem_Create_def)
    next
      case (Some i)
      then have "1024 < int (card (bm_set m1)) + divRoundUp sz 128"
        using no 3(1) free_slot [of fs] k(4) by (simp add: can_create_def free_sectors_def)
      from Allocate_full [OF k(2,3) this, of "memHeader g"] show ?thesis
        using load find k(1) Directory_Add_eq [OF 3(1)] Some by (auto simp: FileSystem_Create_def)
    qed
  qed
qed

lemma Create_done:
  assumes inv: "fs_inv fs" and g: "fsmem_ok g" and sz: "0 \<le> sz" "sz \<le> 3840" and can: "can_create nm sz fs"
  shows "\<exists>fs' c. FileSystem_Create g nm sz fs = Inr (True, fs') \<and> fs_inv fs' \<and> length c = nat sz \<and>
    fs_files fs' = (fs_files fs)(short_name nm \<mapsto> c) \<and>
    free_sectors fs' = free_sectors fs - 1 - divRoundUp sz 128 \<and>
    (\<exists>i e0 h k. created fs i e0 h fs' \<and> i < 10 \<and> \<not> inUse (fs_dir fs ! i) \<and> sector e0 = int k \<and> k \<notin> bm_set (fs_map fs))"
proof -
  have ok: "sys_ok fs" "dir_ok fs" using inv by (simp_all add: fs_inv_def)
  note load = load_directory_ok [OF ok(1) g] load_map_ok [OF ok(1) g]
  have absent: "fs_files fs (short_name nm) = None" using can by (simp add: can_create_def)
  have "0 \<le> divRoundUp sz 128" using divRoundUp_bounds [of sz] sz(1) by linarith
  then have "card (bm_set (fs_map fs)) < 1024" using can by (simp add: can_create_def free_sectors_def)
  then have "bm_set (fs_map fs) \<noteq> {i. int i < 1024}" unfolding full_map by (metis card_lessThan less_irrefl)
  from take_sector [OF this] obtain k m1 where k: "BitMap_Find (fs_map fs) = Inr (int k, m1)"
    "k \<notin> bm_set (fs_map fs)" "k < 1024" "bm_inv m1" "numBits m1 = 1024" "bm_set m1 = insert k (bm_set (fs_map fs))"
    "card (bm_set m1) = card (bm_set (fs_map fs)) + 1" by blast
  obtain i where Some: "first_from (\<lambda>i. \<not> inUse (fs_dir fs ! i)) 0 10 = Some i"
    using can free_slot [of fs] by (auto simp: can_create_def)
  have i: "i < 10" "\<not> inUse (fs_dir fs ! i)" using first_from_Some [OF Some] by simp_all
  let ?e = "\<lparr>inUse = True, sector = int k, entryName = strncpy FileNameMaxLen (entryName (fs_dir fs ! i)) nm\<rparr>"
  have mh: "header_mem_ok (memHeader g)" using g by (simp add: fsmem_ok_def)
  have "int (card (bm_set m1)) + divRoundUp sz 128 \<le> 1024" using can k(7) by (simp add: can_create_def free_sectors_def)
  from Allocate_ok [OF k(4,5) mh sz this] obtain h m2 where
    h: "FileHeader_Allocate m1 sz (memHeader g) = Inr (True, h, m2)" "hdr_ok h" "header_ints_ok h" "numBytes h = sz"
      "bm_inv m2" "numBits m2 = 1024" "nat ` set (file_sectors h) \<inter> bm_set m1 = {}"
      "bm_set m2 = bm_set m1 \<union> nat ` set (file_sectors h)" by blast
  have nm10: "length (entryName (fs_dir fs ! i)) = 10" using fs_dir_ok [OF ok(1)] i(1)
    by (simp add: list_all_length entry_ok_def)
  then have e: "entry_ok ?e" using short_strncpy(2) k(3) small_int_sector [of "int k"] by (simp add: entry_ok_def)
  have sn: "short_name (entryName ?e) = short_name nm" using short_strncpy(1) [OF nm10] by simp
  from create_writes [OF ok(1) h(3) k(3) unmarked(1) [OF inv k(2)] e _ h(5,6), of "memBuffer g" i] h(8) k(6)
  obtain S1 S2 S3 where S: "FileHeader_WriteBack (int k) h (fsDisk fs) = Inr S1"
      "Directory_WriteBack (memBuffer g) (directoryFile fs) ((fs_dir fs)[i := ?e]) S1 = Inr S2"
      "BitMap_WriteBack (memBuffer g) (freeMapFile fs) m2 S2 = Inr S3" "created fs i ?e h (on_disk fs S3)" by auto
  have fresh: "short_name (entryName (fs_dir fs ! j)) \<noteq> short_name (entryName ?e)"
    if "j < 10" "inUse (fs_dir fs ! j)" for j using absent that unfolding sn fs_files_None by simp
  have hs: "nat ` set (file_sectors h) \<inter> insert k (bm_set (fs_map fs)) = {}" using h(7) k(6) by simp
  note post = created_inv [OF inv S(4) i _ _ k(3,2) fresh h(2,3) hs, simplified]
  have "disk_ok S3" using post(1) by (simp add: fs_inv_def sys_ok_def)
  then have "length (file_content h S3) = nat sz" using file_content_length [OF _ h(2)] h(4) by simp
  moreover have "fs_files (on_disk fs S3) = (fs_files fs)(short_name nm \<mapsto> file_content h S3)" using post(2) sn by simp
  moreover have "FileSystem_Create g nm sz fs = Inr (True, on_disk fs S3)"
  proof -
    have "Directory_Find nm (fs_dir fs) = -1" using Find_absent(1) [OF ok(2), of nm] absent by simp
    moreover have "Directory_Add nm (int k) (fs_dir fs) = (True, (fs_dir fs)[i := ?e])"
      unfolding Directory_Add_eq [OF absent] Some by simp
    ultimately show ?thesis by (simp add: FileSystem_Create_def load k(1) h(1) S(1,2,3))
  qed
  moreover have "free_sectors (on_disk fs S3) = free_sectors fs - 1 - divRoundUp sz 128"
  proof -
    have m3: "bm_set (fs_map (on_disk fs S3)) = bm_set m1 \<union> nat ` set (file_sectors h)" using S(4) k(6) by (simp add: created_def)
    have "card (bm_set m1 \<union> nat ` set (file_sectors h)) = card (bm_set m1) + card (nat ` set (file_sectors h))"
      by (rule card_Un_disjoint) (use h(7) in \<open>simp_all add: Int_commute\<close>)
    then show ?thesis using file_sectors_card [OF h(2)] h(4) k(7) by (simp add: free_sectors_def m3)
  qed
  moreover have "sector ?e = int k" by simp
  ultimately show ?thesis using post(1) S(4) i k(2) by blast
qed

section \<open>Removing a file\<close>

text \<open>The sectors of the file system and of its files are numbers of sectors.\<close>

lemma blocks_nonneg:
  assumes "fs_inv fs"
  shows "s \<in> sys_blocks fs \<Longrightarrow> 0 \<le> s" "i \<in> used_slots fs \<Longrightarrow> s \<in> entry_blocks fs (fs_dir fs ! i) \<Longrightarrow> 0 \<le> s"
proof -
  show "s \<in> sys_blocks fs \<Longrightarrow> 0 \<le> s" using assms by (auto simp: fs_inv_def sys_ok_def sys_blocks_def hdr_ok_def)
  assume i: "i \<in> used_slots fs" "s \<in> entry_blocks fs (fs_dir fs ! i)"
  then have "entry_good fs (fs_dir fs ! i)" using assms by (auto simp: fs_inv_def dir_ok_def used_slots_def)
  then show "0 \<le> s" using i(2) by (auto simp: entry_good_def entry_blocks_def hdr_ok_def)
qed

lemma nat_image_diff:
  assumes "\<forall>s \<in> A \<union> B. 0 \<le> s" "A \<inter> B = {}"
  shows "nat ` (A \<union> B) - nat ` B = nat ` A"
proof -
  have "nat a \<noteq> nat b" if "a \<in> A" "b \<in> B" for a b using assms that by (metis Un_iff disjoint_iff eq_nat_nat_iff)
  then show ?thesis by (auto simp: image_Un) 
qed

definition removed :: "filesys \<Rightarrow> nat \<Rightarrow> filesys \<Rightarrow> bool" where
  "removed fs i fs' \<longleftrightarrow> sys_ok fs' \<and> sys_blocks fs' = sys_blocks fs \<and>
     fs_dir fs' = (fs_dir fs)[i := (fs_dir fs ! i)\<lparr>inUse := False\<rparr>] \<and>
     bm_set (fs_map fs') = bm_set (fs_map fs) - nat ` entry_blocks fs (fs_dir fs ! i) \<and>
     (\<forall>s. s \<notin> sys_blocks fs \<longrightarrow> fsDisk fs' s = fsDisk fs s) \<and> (\<exists>S'. fs' = on_disk fs S')"

lemma removed_inv:
  assumes inv: "fs_inv fs" and r: "removed fs i fs'" and i: "i < 10" "inUse (fs_dir fs ! i)"
  shows "fs_inv fs'" "fs_files fs' = (fs_files fs)(short_name (entryName (fs_dir fs ! i)) := None)"
proof -
  have ok: "sys_ok fs" "dir_ok fs" "map_ok fs" using inv by (simp_all add: fs_inv_def)
  from r have fs': "sys_ok fs'" "sys_blocks fs' = sys_blocks fs" "fs_dir fs' = (fs_dir fs)[i := (fs_dir fs ! i)\<lparr>inUse := False\<rparr>]"
    "bm_set (fs_map fs') = bm_set (fs_map fs) - nat ` entry_blocks fs (fs_dir fs ! i)"
    "\<And>s. s \<notin> sys_blocks fs \<Longrightarrow> fsDisk fs' s = fsDisk fs s" by (simp_all add: removed_def)
  obtain S' where S': "fs' = on_disk fs S'" using r by (auto simp: removed_def)
  have other: "entry_hdr fs' (fs_dir fs ! j) = entry_hdr fs (fs_dir fs ! j)"
    "entry_content fs' (fs_dir fs ! j) = entry_content fs (fs_dir fs ! j)"
    "entry_blocks fs' (fs_dir fs ! j) = entry_blocks fs (fs_dir fs ! j)" if j: "j < 10" "inUse (fs_dir fs ! j)" for j
  proof -
    have "S' s = fsDisk fs s" if "s \<in> entry_blocks fs (fs_dir fs ! j)" for s
      using entry_goodD [OF ok(2) j] that fs'(5) S' by (auto simp: entry_good_def)
    from entry_cong [OF this] show "entry_hdr fs' (fs_dir fs ! j) = entry_hdr fs (fs_dir fs ! j)"
      "entry_content fs' (fs_dir fs ! j) = entry_content fs (fs_dir fs ! j)"
      "entry_blocks fs' (fs_dir fs ! j) = entry_blocks fs (fs_dir fs ! j)" by (simp_all add: S')
  qed
  have use: "inUse (fs_dir fs' ! j) \<longleftrightarrow> j \<noteq> i \<and> inUse (fs_dir fs ! j)" if "j < 10" for j
    using that i(1) fs'(3) by (cases "j = i") simp_all
  have nth: "fs_dir fs' ! j = fs_dir fs ! j" if "j \<noteq> i" for j using that fs'(3) by simp
  have dir: "dir_ok fs'"
    using ok(2) unfolding dir_ok_def by (simp add: use nth other fs'(2) entry_good_def)
  moreover have "map_ok fs'"
  proof -
    let ?R = "sys_blocks fs \<union> (\<Union>j \<in> used_slots fs - {i}. entry_blocks fs (fs_dir fs ! j))"
    let ?E = "entry_blocks fs (fs_dir fs ! i)"
    have u: "used_slots fs' = used_slots fs - {i}" using use by (auto simp: used_slots_def)
    have e: "(\<Union>j \<in> used_slots fs - {i}. entry_blocks fs' (fs_dir fs' ! j)) = (\<Union>j \<in> used_slots fs - {i}. entry_blocks fs (fs_dir fs ! j))"
      by (rule SUP_cong [OF refl]) (auto simp: used_slots_def nth other)
    have iu: "i \<in> used_slots fs" using i by (simp add: used_slots_def)
    have "bm_set (fs_map fs) = nat ` (?R \<union> ?E)" using ok(3) iu unfolding map_ok_def by (metis Un_assoc Un_commute UN_insert insert_Diff)
    moreover have "?R \<inter> ?E = {}"
      using entry_goodD [OF ok(2) i] entries_apart(2) [OF ok(2)] i by (fastforce simp: entry_good_def used_slots_def)
    moreover have "\<forall>s \<in> ?R \<union> ?E. 0 \<le> s" using blocks_nonneg [OF inv] iu by blast
    ultimately have "bm_set (fs_map fs) - nat ` ?E = nat ` ?R" using nat_image_diff by metis
    then show ?thesis unfolding map_ok_def fs'(2,4) u e .
  qed
  ultimately show "fs_inv fs'" using fs'(1) by (simp add: fs_inv_def)
  show "fs_files fs' = (fs_files fs)(short_name (entryName (fs_dir fs ! i)) := None)"
  proof (rule map_eqI)
    fix n c
    show "fs_files fs' n = Some c \<longleftrightarrow> ((fs_files fs)(short_name (entryName (fs_dir fs ! i)) := None)) n = Some c"
      using entries_apart(1) [OF ok(2) i(1) _ _ i(2)]
      by (auto simp: fs_files_iff [OF dir] fs_files_iff [OF ok(2)] use nth other) (metis nth other(2))+
  qed
qed

lemma name_index_used:
  assumes "name_index fs nm = Some i"
  shows "i < 10" "inUse (fs_dir fs ! i)" "short_name (entryName (fs_dir fs ! i)) = short_name nm" "i \<in> used_slots fs"
  using name_index_Some [OF assms] by (simp_all add: used_slots_def)

text \<open>Giving back the sectors of an entry.\<close>

lemma free_entry:
  assumes inv: "fs_inv fs" and i: "i \<in> used_slots fs"
  obtains m1 m2 where "FileHeader_Deallocate (fs_map fs) (entry_hdr fs (fs_dir fs ! i)) = Inr m1"
    "BitMap_Clear (sector (fs_dir fs ! i)) m1 = Inr m2" "bm_inv m2" "numBits m2 = 1024"
    "bm_set m2 = bm_set (fs_map fs) - nat ` entry_blocks fs (fs_dir fs ! i)"
    "int (card (bm_set m2)) = int (card (bm_set (fs_map fs))) - 1 - divRoundUp (numBytes (entry_hdr fs (fs_dir fs ! i))) 128"
proof -
  let ?e = "fs_dir fs ! i"
  have "entry_good fs ?e" using inv i by (simp add: fs_inv_def dir_ok_def used_slots_def)
  then have e: "0 \<le> sector ?e" "sector ?e < 1024" "hdr_ok (entry_hdr fs ?e)" "sector ?e \<notin> set (file_sectors (entry_hdr fs ?e))"
    by (simp_all add: entry_good_def)
  have sub: "nat ` entry_blocks fs ?e \<subseteq> bm_set (fs_map fs)" using inv i by (auto simp: fs_inv_def map_ok_def)
  then have sub': "nat ` set (file_sectors (entry_hdr fs ?e)) \<subseteq> bm_set (fs_map fs)" by (auto simp: entry_blocks_def)
  from Deallocate_ok [OF fs_map_inv(1) e(3) sub'] obtain m1 where m1: "FileHeader_Deallocate (fs_map fs) (entry_hdr fs ?e) = Inr m1"
    "bm_inv m1" "numBits m1 = 1024" "bm_set m1 = bm_set (fs_map fs) - nat ` set (file_sectors (entry_hdr fs ?e))"
    using fs_map_inv(2) by metis
  have "int (nat (sector ?e)) < numBits m1" using e m1(3) by simp
  from Clear_refines [OF m1(2) this] e(1) m1(3) obtain m2 where m2: "BitMap_Clear (sector ?e) m1 = Inr m2" "bm_inv m2"
    "numBits m2 = 1024" "bm_set m2 = bm_set m1 - {nat (sector ?e)}" by auto
  have b: "nat ` entry_blocks fs ?e = insert (nat (sector ?e)) (nat ` set (file_sectors (entry_hdr fs ?e)))" by (simp add: entry_blocks_def)
  have "nat (sector ?e) \<notin> nat ` set (file_sectors (entry_hdr fs ?e))"
    using e(1,3,4) by (auto simp: hdr_ok_def eq_nat_nat_iff)
  then have c: "int (card (nat ` entry_blocks fs ?e)) = 1 + divRoundUp (numBytes (entry_hdr fs ?e)) 128"
    unfolding b using file_sectors_card [OF e(3)] by simp
  have s: "bm_set m2 = bm_set (fs_map fs) - nat ` entry_blocks fs ?e" unfolding m2(4) m1(4) b by auto
  have "card (bm_set m2) = card (bm_set (fs_map fs)) - card (nat ` entry_blocks fs ?e)"
    unfolding s by (rule card_Diff_subset) (use sub finite_subset [OF sub] in simp_all)
  moreover have "card (nat ` entry_blocks fs ?e) \<le> card (bm_set (fs_map fs))" using sub by (simp add: card_mono)
  ultimately show ?thesis using that [OF m1(1) m2(1,2,3) s] c by linarith
qed

lemma remove_writes:
  assumes "sys_ok fs" "bm_inv m2" "numBits m2 = 1024" "bm_set m2 = bm_set (fs_map fs) - nat ` entry_blocks fs (fs_dir fs ! i)" "i < 10"
  obtains S1 S2 where "BitMap_WriteBack stale (freeMapFile fs) m2 (fsDisk fs) = Inr S1"
    "Directory_WriteBack stale (directoryFile fs) ((fs_dir fs)[i := (fs_dir fs ! i)\<lparr>inUse := False\<rparr>]) S1 = Inr S2"
    "removed fs i (on_disk fs S2)"
proof -
  let ?d = "(fs_dir fs)[i := (fs_dir fs ! i)\<lparr>inUse := False\<rparr>]"
  from write_map_state [OF assms(1-3), of stale] obtain S1 where
    S1: "BitMap_WriteBack stale (freeMapFile fs) m2 (fsDisk fs) = Inr S1" "sys_ok (on_disk fs S1)" "fs_map (on_disk fs S1) = m2"
      "\<And>s. s \<notin> set (file_sectors (map_hdr fs)) \<Longrightarrow> S1 s = fsDisk fs s" by blast
  have "entry_ok ((fs_dir fs ! i)\<lparr>inUse := False\<rparr>)" using fs_dir_ok [OF assms(1)] assms(5) by (simp add: list_all_length entry_ok_def)
  then have "list_all entry_ok ?d" using fs_dir_ok [OF assms(1)]
    by (auto simp: list_all_iff dest: set_update_subset_insert [THEN subsetD])
  from write_dir_state [OF S1(2) this, of stale] obtain S2 where
    S2: "Directory_WriteBack stale (directoryFile fs) ?d S1 = Inr S2" "sys_ok (on_disk fs S2)" "fs_dir (on_disk fs S2) = ?d"
      "fs_map (on_disk fs S2) = m2" "\<And>s. s \<notin> set (file_sectors (dir_hdr fs)) \<Longrightarrow> S2 s = S1 s"
    using S1(3) by auto
  have "removed fs i (on_disk fs S2)"
    using S1(4) S2 assms(4) by (auto simp: removed_def sys_blocks_def)
  then show ?thesis using that S1(1) S2(1) by blast
qed

lemma Remove_absent:
  assumes "fs_inv fs" "fsmem_ok g" "fs_files fs (short_name nm) = None"
  shows "FileSystem_Remove g nm fs = Inr (False, fs)"
  using assms load_directory_ok [of fs g] Find_absent(1) [of fs nm] by (simp add: fs_inv_def FileSystem_Remove_def)

lemma Remove_done:
  assumes inv: "fs_inv fs" and g: "fsmem_ok g" and f: "fs_files fs (short_name nm) = Some c"
  shows "\<exists>fs'. FileSystem_Remove g nm fs = Inr (True, fs') \<and> fs_inv fs' \<and> fs_files fs' = (fs_files fs)(short_name nm := None) \<and>
    free_sectors fs' = free_sectors fs + 1 + divRoundUp (int (length c)) 128"
proof -
  have ok: "sys_ok fs" "dir_ok fs" using inv by (simp_all add: fs_inv_def)
  obtain i where i: "name_index fs nm = Some i" "c = entry_content fs (fs_dir fs ! i)" using f by (auto simp: fs_files_eq split: option.splits)
  note u = name_index_used [OF i(1)]
  have e: "0 \<le> sector (fs_dir fs ! i)" "sector (fs_dir fs ! i) < 1024" "hdr_ok (entry_hdr fs (fs_dir fs ! i))"
    using entry_goodD [OF ok(2) u(1,2)] by (simp_all add: entry_good_def)
  from free_entry [OF inv u(4)] obtain m1 m2 where m: "FileHeader_Deallocate (fs_map fs) (entry_hdr fs (fs_dir fs ! i)) = Inr m1"
    "BitMap_Clear (sector (fs_dir fs ! i)) m1 = Inr m2" "bm_inv m2" "numBits m2 = 1024"
    "bm_set m2 = bm_set (fs_map fs) - nat ` entry_blocks fs (fs_dir fs ! i)"
    "int (card (bm_set m2)) = int (card (bm_set (fs_map fs))) - 1 - divRoundUp (numBytes (entry_hdr fs (fs_dir fs ! i))) 128" by blast
  from remove_writes [OF ok(1) m(3-5) u(1), of "memBuffer g"] obtain S1 S2 where
    S: "BitMap_WriteBack (memBuffer g) (freeMapFile fs) m2 (fsDisk fs) = Inr S1"
      "Directory_WriteBack (memBuffer g) (directoryFile fs) ((fs_dir fs)[i := (fs_dir fs ! i)\<lparr>inUse := False\<rparr>]) S1 = Inr S2"
      "removed fs i (on_disk fs S2)" by blast
  have find: "Directory_Find nm (fs_dir fs) = sector (fs_dir fs ! i)" by (simp add: Directory_Find_eq i(1))
  have fetch: "FileHeader_FetchFrom (sector (fs_dir fs ! i)) (fsDisk fs) = Inr (entry_hdr fs (fs_dir fs ! i))"
    using e by (simp add: FileHeader_FetchFrom_def ReadSector_def entry_hdr_def)
  have rem: "Directory_Remove nm (fs_dir fs) = (True, (fs_dir fs)[i := (fs_dir fs ! i)\<lparr>inUse := False\<rparr>])"
    by (simp add: Directory_Remove_def FindIndex_eq i(1) index_or_m1_def)
  have run: "FileSystem_Remove g nm fs = Inr (True, on_disk fs S2)"
    using e(1) by (simp add: FileSystem_Remove_def load_directory_ok [OF ok(1) g] load_map_ok [OF ok(1) g] find fetch m(1,2) rem S(1,2))
  note post = removed_inv [OF inv S(3) u(1,2), unfolded u(3)]
  have "int (length c) = numBytes (entry_hdr fs (fs_dir fs ! i))"
    using file_content_length [OF sys_okD(1) [OF ok(1)] e(3)] i(2) e(3) by (simp add: entry_content_def hdr_ok_def)
  moreover have "bm_set (fs_map (on_disk fs S2)) = bm_set m2" using S(3) m(5) by (simp add: removed_def)
  ultimately have "free_sectors (on_disk fs S2) = free_sectors fs + 1 + divRoundUp (int (length c)) 128"
    using m(6) by (simp add: free_sectors_def)
  then show ?thesis using run post by blast
qed

section \<open>Using a file\<close>

lemma Open_absent:
  assumes "fs_inv fs" "fsmem_ok g" "fs_files fs (short_name nm) = None"
  shows "FileSystem_Open g nm fs = Inr None"
proof -
  have "\<not> Directory_Find nm (fs_dir fs) \<ge> 0" using assms Find_absent(2) [of fs nm] by (simp add: fs_inv_def)
  then show ?thesis using assms load_directory_ok [of fs g] by (simp add: fs_inv_def FileSystem_Open_def Let_def)
qed

text \<open>An open file is one of the disk: its header is the one of an entry.\<close>

definition opened :: "filesys \<Rightarrow> byte list \<Rightarrow> FileHeader \<Rightarrow> bool" where
  "opened fs n h \<longleftrightarrow> (\<exists>i \<in> used_slots fs. short_name (entryName (fs_dir fs ! i)) = n \<and> entry_hdr fs (fs_dir fs ! i) = h)"

text \<open>Files that are open stay what they are when another is created.\<close>

lemma created_opened:
  assumes inv: "fs_inv fs" and c: "created fs i e0 h fs'" and i: "i < 10" "\<not> inUse (fs_dir fs ! i)"
    and k: "sector e0 = int k" "k \<notin> bm_set (fs_map fs)" and o: "opened fs n f"
  shows "opened fs' n f"
proof -
  obtain j where j: "j \<in> used_slots fs" "short_name (entryName (fs_dir fs ! j)) = n" "entry_hdr fs (fs_dir fs ! j) = f"
    using o by (auto simp: opened_def)
  have ju: "j < 10" "inUse (fs_dir fs ! j)" "j \<noteq> i" using j(1) i by (auto simp: used_slots_def)
  have good: "entry_good fs (fs_dir fs ! j)" using inv ju by (simp add: fs_inv_def entry_goodD)
  let ?s = "sector (fs_dir fs ! j)"
  have s: "?s \<in> entry_blocks fs (fs_dir fs ! j)" by (simp add: entry_blocks_def)
  have "?s \<noteq> int k" using unmarked [OF inv k(2)] ju s by auto
  moreover have "?s \<notin> sys_blocks fs" using good s by (auto simp: entry_good_def)
  ultimately have "fsDisk fs' ?s = fsDisk fs ?s" using c k(1) by (simp add: created_def)
  then have "entry_hdr fs' (fs_dir fs ! j) = f" using j(3) by (simp add: entry_hdr_def)
  moreover have "fs_dir fs' ! j = fs_dir fs ! j" using c ju(3) by (simp add: created_def)
  ultimately show ?thesis using j(2) ju by (auto simp: opened_def used_slots_def)
qed

lemma Open_found:
  assumes "fs_inv fs" "fsmem_ok g" "fs_files fs (short_name nm) = Some c"
  shows "\<exists>h. FileSystem_Open g nm fs = Inr (Some \<lparr>hdr = h, seekPosition = 0\<rparr>) \<and> opened fs (short_name nm) h"
proof -
  have ok: "sys_ok fs" "dir_ok fs" using assms(1) by (simp_all add: fs_inv_def)
  obtain i where i: "name_index fs nm = Some i" using assms(3) by (auto simp: fs_files_eq split: option.splits)
  note u = name_index_used [OF i]
  have "0 \<le> sector (fs_dir fs ! i)" "sector (fs_dir fs ! i) < 1024" using entry_goodD [OF ok(2) u(1,2)] by (simp_all add: entry_good_def)
  then show ?thesis using u load_directory_ok [OF ok(1) assms(2)]
    by (auto simp: FileSystem_Open_def Directory_Find_eq i OpenFile_new_def FileHeader_FetchFrom_def ReadSector_def
        entry_hdr_def opened_def)
qed

lemma opened_content:
  assumes "fs_inv fs" "opened fs n h"
  shows "hdr_ok h" "fs_files fs n = Some (file_content h (fsDisk fs))"
    "int (length (file_content h (fsDisk fs))) = numBytes h" "disk_ok (fsDisk fs)"
proof -
  have ok: "sys_ok fs" "dir_ok fs" using assms(1) by (simp_all add: fs_inv_def)
  obtain i where i: "i < 10" "inUse (fs_dir fs ! i)" "short_name (entryName (fs_dir fs ! i)) = n" "entry_hdr fs (fs_dir fs ! i) = h"
    using assms(2) by (auto simp: opened_def used_slots_def)
  show h: "hdr_ok h" using entry_goodD [OF ok(2) i(1,2)] i(4) by (simp add: entry_good_def)
  show "fs_files fs n = Some (file_content h (fsDisk fs))" using i by (auto simp: fs_files_iff [OF ok(2)] entry_content_def)
  show d: "disk_ok (fsDisk fs)" by (rule sys_okD(1) [OF ok(1)])
  show "int (length (file_content h (fsDisk fs))) = numBytes h" using file_content_length [OF d h] h by (simp add: hdr_ok_def)
qed

text \<open>Changing the data sectors of one file.\<close>

lemma change_file:
  assumes inv: "fs_inv fs" and o: "opened fs n h" and d: "disk_ok S'" and
    eq: "\<And>s. s \<notin> set (file_sectors h) \<Longrightarrow> S' s = fsDisk fs s"
  shows "fs_inv (on_disk fs S')" "fs_files (on_disk fs S') = (fs_files fs)(n \<mapsto> file_content h S')" "opened (on_disk fs S') n h"
proof -
  let ?fs' = "on_disk fs S'"
  have ok: "sys_ok fs" "dir_ok fs" "map_ok fs" using inv by (simp_all add: fs_inv_def)
  obtain i where i: "i < 10" "inUse (fs_dir fs ! i)" "short_name (entryName (fs_dir fs ! i)) = n" "entry_hdr fs (fs_dir fs ! i) = h"
    "i \<in> used_slots fs" using o by (auto simp: opened_def used_slots_def)
  note gi = entry_goodD [OF ok(2) i(1,2)]
  have data: "set (file_sectors h) \<subseteq> entry_blocks fs (fs_dir fs ! i)" using i(4) by (auto simp: entry_blocks_def)
  have "S' s = fsDisk fs s" if "s \<in> sys_blocks fs" for s using gi data that eq by (fastforce simp: entry_good_def)
  then have sys: "sys_ok ?fs'" "fs_dir ?fs' = fs_dir fs" "fs_map ?fs' = fs_map fs" "sys_blocks ?fs' = sys_blocks fs"
    using state_cong [OF ok(1) d] by blast+
  have hi: "entry_hdr ?fs' (fs_dir fs ! i) = h" using gi i(4) eq by (simp add: entry_good_def entry_hdr_def)
  have other: "entry_hdr ?fs' (fs_dir fs ! j) = entry_hdr fs (fs_dir fs ! j)"
    "j \<noteq> i \<Longrightarrow> entry_content ?fs' (fs_dir fs ! j) = entry_content fs (fs_dir fs ! j)"
    "entry_blocks ?fs' (fs_dir fs ! j) = entry_blocks fs (fs_dir fs ! j)" if j: "j < 10" "inUse (fs_dir fs ! j)" for j
  proof -
    have e: "S' s = fsDisk fs s" if "j \<noteq> i" "s \<in> entry_blocks fs (fs_dir fs ! j)" for s
      using entries_apart(2) [OF ok(2) j(1) i(1) that(1) j(2) i(2)] that(2) data by (intro eq) blast
    show "entry_hdr ?fs' (fs_dir fs ! j) = entry_hdr fs (fs_dir fs ! j)"
      using entry_cong(1) [of fs "fs_dir fs ! j" S'] e hi i(4) by (cases "j = i") auto
    then show "entry_blocks ?fs' (fs_dir fs ! j) = entry_blocks fs (fs_dir fs ! j)" by (simp add: entry_blocks_def)
    show "j \<noteq> i \<Longrightarrow> entry_content ?fs' (fs_dir fs ! j) = entry_content fs (fs_dir fs ! j)"
      using entry_cong(2) [of fs "fs_dir fs ! j" S'] e by blast
  qed
  have dir: "dir_ok ?fs'" using ok(2) unfolding dir_ok_def sys(2) by (simp add: other entry_good_def sys(4))
  moreover have "map_ok ?fs'"
  proof -
    have u: "used_slots ?fs' = used_slots fs" by (simp add: used_slots_def sys(2))
    have "(\<Union>j \<in> used_slots fs. entry_blocks ?fs' (fs_dir fs ! j)) = (\<Union>j \<in> used_slots fs. entry_blocks fs (fs_dir fs ! j))"
      by (rule SUP_cong [OF refl]) (simp add: used_slots_def other)
    then show ?thesis using ok(3) by (simp add: map_ok_def sys u)
  qed
  ultimately show "fs_inv ?fs'" using sys(1) by (simp add: fs_inv_def)
  show "fs_files ?fs' = (fs_files fs)(n \<mapsto> file_content h S')"
  proof (rule map_eqI)
    fix m c
    have "entry_content ?fs' (fs_dir fs ! i) = file_content h S'" by (simp add: entry_content_def hi)
    then show "fs_files ?fs' m = Some c \<longleftrightarrow> ((fs_files fs)(n \<mapsto> file_content h S')) m = Some c"
      using entries_apart(1) [OF ok(2) i(1) _ _ i(2)] i(1,2,3)
      by (auto simp: fs_files_iff [OF dir] fs_files_iff [OF ok(2)] sys(2)) (metis other(2))+
  qed
  show "opened ?fs' n h" using i(3,5) hi by (auto simp: opened_def used_slots_def sys(2))
qed

lemma write_file:
  assumes inv: "fs_inv fs" and o: "opened fs n h" and hf: "hdr f = h" and pos: "0 \<le> pos" "k \<le> int (length src)"
    and f: "fs_files fs n = Some c"
  defines "m \<equiv> nat (min k (int (length c) - pos))"
  shows "\<exists>S'. OpenFile_WriteAt stale src k pos f (fsDisk fs) = Inr (int m, S') \<and> fs_inv (on_disk fs S') \<and>
    fs_files (on_disk fs S') = (fs_files fs)(n \<mapsto> if m = 0 then c else store_bytes (nat pos) (take m src) c) \<and>
    opened (on_disk fs S') n h"
proof -
  note oc = opened_content [OF inv o]
  have c: "c = file_content h (fsDisk fs)" using f oc(2) by simp
  have m: "nat (min k (numBytes (hdr f) - pos)) = m" using oc(3) hf c by (simp add: m_def)
  from WriteAt_ok [of "fsDisk fs" f pos k src stale] oc(1,4) pos hf obtain S' where
    S': "OpenFile_WriteAt stale src k pos f (fsDisk fs) = Inr (int m, S')" "disk_ok S'"
     "file_content h S' = (if m = 0 then c else store_bytes (nat pos) (take m src) c)"
     "\<And>s. s \<notin> set (file_sectors h) \<Longrightarrow> S' s = fsDisk fs s" unfolding m c by auto
  from change_file [OF inv o S'(2,4)] S'(1,3) show ?thesis by auto
qed

lemma read_file:
  assumes "fs_inv fs" "opened fs n (hdr f)" "fs_files fs n = Some c" "0 \<le> pos"
  shows "OpenFile_ReadAt k pos f (fsDisk fs) = Inr (take (nat k) (drop (nat pos) c))"
  using ReadAt_ok [of "fsDisk fs" f pos k] opened_content [OF assms(1,2)] assms(3,4) by simp

section \<open>Formatting a disk\<close>

text \<open>The bit map of a new disk, with the headers and the data sectors of the two files marked.\<close>

lemma format_map:
  assumes g: "fsmem_ok g"
  obtains b0 b1 b2 mh b3 dh b4 where "BitMap_new (memWords g) NumSectors = Inr b0" "BitMap_Mark FreeMapSector b0 = Inr b1"
    "BitMap_Mark DirectorySector b1 = Inr b2" "FileHeader_Allocate b2 FreeMapFileSize (memHeader g) = Inr (True, mh, b3)"
    "FileHeader_Allocate b3 DirectoryFileSize (memHeader g) = Inr (True, dh, b4)"
    "hdr_ok mh" "header_ints_ok mh" "numBytes mh = 128" "hdr_ok dh" "header_ints_ok dh" "numBytes dh = 200"
    "bm_inv b4" "numBits b4 = 1024" "bm_set b4 = {0, 1} \<union> nat ` set (file_sectors mh) \<union> nat ` set (file_sectors dh)"
    "nat ` set (file_sectors mh) \<inter> {0, 1} = {}" "nat ` set (file_sectors dh) \<inter> ({0, 1} \<union> nat ` set (file_sectors mh)) = {}"
proof -
  have mem: "header_mem_ok (memHeader g)" "nat (divRoundUp 1024 32) \<le> length (memWords g)"
    using g by (simp_all add: fsmem_ok_def divRoundUp_def)
  from BitMap_new_refines [of 1024, OF _ mem(2)] obtain b0 where b0: "BitMap_new (memWords g) 1024 = Inr b0" "bm_inv b0"
    "numBits b0 = 1024" "bm_set b0 = {}" by auto
  from Mark_refines [of b0 0] b0 obtain b1 where b1: "BitMap_Mark 0 b0 = Inr b1" "bm_inv b1" "numBits b1 = 1024" "bm_set b1 = {0}" by auto
  from Mark_refines [of b1 1] b1 obtain b2 where b2: "BitMap_Mark 1 b1 = Inr b2" "bm_inv b2" "numBits b2 = 1024" "bm_set b2 = {0, 1}" by auto
  have n: "divRoundUp 128 128 = 1" "divRoundUp 200 128 = 2" by (simp_all add: divRoundUp_def)
  from Allocate_ok [OF b2(2,3) mem(1), of 128] n b2(4) obtain mh b3 where m: "FileHeader_Allocate b2 128 (memHeader g) = Inr (True, mh, b3)"
    "hdr_ok mh" "header_ints_ok mh" "numBytes mh = 128" "bm_inv b3" "numBits b3 = 1024" "nat ` set (file_sectors mh) \<inter> {0, 1} = {}"
    "bm_set b3 = {0, 1} \<union> nat ` set (file_sectors mh)" by auto
  have "card (bm_set b3) \<le> card {0, 1 :: nat} + card (nat ` set (file_sectors mh))" unfolding m(8) by (rule card_Un_le)
  then have "int (card (bm_set b3)) + divRoundUp 200 128 \<le> 1024" using file_sectors_card [OF m(2)] m(4) n by simp
  from Allocate_ok [OF m(5,6) mem(1) _ _ this] obtain dh b4 where d: "FileHeader_Allocate b3 200 (memHeader g) = Inr (True, dh, b4)"
    "hdr_ok dh" "header_ints_ok dh" "numBytes dh = 200" "bm_inv b4" "numBits b4 = 1024"
    "nat ` set (file_sectors dh) \<inter> bm_set b3 = {}" "bm_set b4 = bm_set b3 \<union> nat ` set (file_sectors dh)" by auto
  show ?thesis
    by (rule that [of b0 b1 b2 mh b3 dh b4])
      (use b0 b1 b2 m d in \<open>simp_all add: FreeMapSector_def DirectorySector_def FreeMapFileSize_def DirectoryFileSize_def NumDirEntries_def\<close>)
qed

lemma apart_from_nat:
  assumes "nat ` A \<inter> nat ` B = {}"
  shows "A \<inter> B = {}"
  using assms by auto

lemma format_done:
  assumes g: "fsmem_ok g" and S: "disk_ok S"
  shows "\<exists>fs. FileSystem_format g S = Inr fs \<and> fs_inv fs \<and> fs_files fs = Map.empty \<and> free_sectors fs = 1019"
proof -
  from format_map [OF g] obtain b0 b1 b2 mh b3 dh b4 where b: "BitMap_new (memWords g) NumSectors = Inr b0" "BitMap_Mark FreeMapSector b0 = Inr b1"
    "BitMap_Mark DirectorySector b1 = Inr b2" "FileHeader_Allocate b2 FreeMapFileSize (memHeader g) = Inr (True, mh, b3)"
    "FileHeader_Allocate b3 DirectoryFileSize (memHeader g) = Inr (True, dh, b4)" and
    mh: "hdr_ok mh" "header_ints_ok mh" "numBytes mh = 128" and dh: "hdr_ok dh" "header_ints_ok dh" "numBytes dh = 200" and
    b4: "bm_inv b4" "numBits b4 = 1024" "bm_set b4 = {0, 1} \<union> nat ` set (file_sectors mh) \<union> nat ` set (file_sectors dh)"
    "nat ` set (file_sectors mh) \<inter> {0, 1} = {}" "nat ` set (file_sectors dh) \<inter> ({0, 1} \<union> nat ` set (file_sectors mh)) = {}" by blast
  let ?S2 = "S(0 := header_bytes mh, 1 := header_bytes dh)"
  let ?fs = "\<lparr>fsDisk = ?S2, freeMapFile = \<lparr>hdr = mh, seekPosition = 0\<rparr>, directoryFile = \<lparr>hdr = dh, seekPosition = 0\<rparr>\<rparr>"
  have d2: "disk_ok ?S2" using S mh(2) dh(2) by (simp add: disk_ok_def header_bytes_length header_ints_ok_def)
  have apart: "{0, 1} \<inter> set (file_sectors mh) = {}" "{0, 1} \<inter> set (file_sectors dh) = {}"
    "set (file_sectors mh) \<inter> set (file_sectors dh) = {}"
    by (rule apart_from_nat, use b4(4,5) in \<open>simp add: Int_Un_distrib Int_commute\<close>)+
  have sys: "sys_ok ?fs" using d2 mh dh apart by (simp add: sys_ok_def)
  have hdrs: "FileHeader_WriteBack FreeMapSector mh S = Inr (S(0 := header_bytes mh))"
    "FileHeader_WriteBack DirectorySector dh (S(0 := header_bytes mh)) = Inr ?S2"
    "OpenFile_new FreeMapSector ?S2 = Inr (freeMapFile ?fs)" "OpenFile_new DirectorySector ?S2 = Inr (directoryFile ?fs)"
    by (simp_all add: FileHeader_WriteBack_def WriteSector_def OpenFile_new_def FileHeader_FetchFrom_def ReadSector_def
        FreeMapSector_def DirectorySector_def header_roundtrip [OF mh(2)] header_roundtrip [OF dh(2)])
  let ?d = "Directory_new (memEntries g) NumDirEntries"
  have dir: "list_all entry_ok ?d" "length ?d = 10" "\<forall>e \<in> set ?d. \<not> inUse e"
    using g by (auto simp: Directory_new_def NumDirEntries_def fsmem_ok_def list_all_iff entry_ok_def dest: in_set_takeD)
  from write_map_state [OF sys b4(1,2), of "memBuffer g"] obtain S3 where S3: "BitMap_WriteBack (memBuffer g) (freeMapFile ?fs) b4 ?S2 = Inr S3"
    "sys_ok (on_disk ?fs S3)" "fs_map (on_disk ?fs S3) = b4" by auto
  from write_dir_state [OF S3(2) dir(1,2), of "memBuffer g"] obtain S4 where
    S4: "Directory_WriteBack (memBuffer g) (directoryFile ?fs) ?d S3 = Inr S4"
    "sys_ok (on_disk ?fs S4)" "fs_dir (on_disk ?fs S4) = ?d" "fs_map (on_disk ?fs S4) = b4" using S3(3) by auto
  let ?fs4 = "on_disk ?fs S4"
  have none: "i < 10 \<Longrightarrow> \<not> inUse (fs_dir ?fs4 ! i)" for i using dir(2,3) unfolding S4(3) by simp
  have u: "used_slots ?fs4 = {}" using none by (auto simp: used_slots_def)
  have "bm_set (fs_map ?fs4) = nat ` sys_blocks ?fs4" unfolding S4(4) b4(3) by (simp add: sys_blocks_def image_Un)
  then have inv: "fs_inv ?fs4" using S4(2) none u by (simp add: fs_inv_def dir_ok_def map_ok_def)
  have files: "fs_files ?fs4 = Map.empty" using none by (intro ext) (simp add: fs_files_None)
  have "int (card (bm_set b4)) = 5"
  proof -
    have "card (bm_set b4) = card ({0, 1} \<union> nat ` set (file_sectors mh)) + card (nat ` set (file_sectors dh))"
      unfolding b4(3) by (rule card_Un_disjoint) (use b4(5) in auto)
    moreover have "card ({0, 1} \<union> nat ` set (file_sectors mh)) = card {0, 1 :: nat} + card (nat ` set (file_sectors mh))"
      by (rule card_Un_disjoint) (use b4(4) in auto)
    ultimately show ?thesis using file_sectors_card [OF mh(1)] file_sectors_card [OF dh(1)] mh(3) dh(3) by (simp add: divRoundUp_def)
  qed
  then have free: "free_sectors ?fs4 = 1019" unfolding free_sectors_def S4(4) by simp
  have "FileSystem_format g S = Inr ?fs4"
    using S3(1) S4(1) by (simp add: FileSystem_format_def b [unfolded NumSectors_val] hdrs assertE_def Let_def)
  then show ?thesis using inv files free by blast
qed

section \<open>A file that does not fit its header\<close>

lemma Create_overflow:
  assumes inv: "fs_inv fs" and g: "fsmem_ok g" and sz: "3840 < sz" and can: "can_create nm sz fs"
  shows "FileSystem_Create g nm sz fs = Inl OutOfBounds"
proof -
  have ok: "sys_ok fs" "dir_ok fs" using inv by (simp_all add: fs_inv_def)
  note load = load_directory_ok [OF ok(1) g] load_map_ok [OF ok(1) g]
  have absent: "fs_files fs (short_name nm) = None" using can by (simp add: can_create_def)
  have n: "30 < divRoundUp sz 128" using divRoundUp_bounds(1) [of sz] sz by linarith
  then have "card (bm_set (fs_map fs)) < 1024" using can by (simp add: can_create_def free_sectors_def)
  then have "bm_set (fs_map fs) \<noteq> {i. int i < 1024}" unfolding full_map by (metis card_lessThan less_irrefl)
  from take_sector [OF this] obtain k m1 where k: "BitMap_Find (fs_map fs) = Inr (int k, m1)" "bm_inv m1" "numBits m1 = 1024"
    "card (bm_set m1) = card (bm_set (fs_map fs)) + 1" by blast
  obtain i where Some: "first_from (\<lambda>i. \<not> inUse (fs_dir fs ! i)) 0 10 = Some i"
    using can free_slot [of fs] by (auto simp: can_create_def)
  let ?n = "divRoundUp sz 128"
  have c: "int (card (bm_set m1)) + ?n \<le> 1024" using can k(4) by (simp add: can_create_def free_sectors_def)
  have "length (dataSectors (memHeader g)) = 30" using g by (simp add: fsmem_ok_def header_mem_ok_def)
  then have "allocate_from 0 (nat ?n) ((memHeader g)\<lparr>numBytes := sz, numSectors := ?n\<rparr>) m1 = Inl OutOfBounds"
    using allocate_from_overflow [OF k(2), of "nat ?n" 0 "(memHeader g)\<lparr>numBytes := sz, numSectors := ?n\<rparr>"] c k(3) n by simp
  then have alloc: "FileHeader_Allocate m1 sz (memHeader g) = Inl OutOfBounds"
    using NumClear_refines [OF k(2)] c k(3) by (simp add: FileHeader_Allocate_def Let_def)
  have "Directory_Find nm (fs_dir fs) = -1" using Find_absent(1) [OF ok(2), of nm] absent by simp
  moreover have "fst (Directory_Add nm (int k) (fs_dir fs))" unfolding Directory_Add_eq [OF absent] Some by simp
  then obtain d where "Directory_Add nm (int k) (fs_dir fs) = (True, d)" by (metis prod.collapse)
  ultimately show ?thesis by (simp add: FileSystem_Create_def load k(1) alloc)
qed

section \<open>Properties\<close>

text \<open>
  Formatting any disk succeeds and leaves a consistent file system that has no files and in which
  all sectors are free but the two headers, the one of the bit map and the two of the directory.
\<close>

theorem filesys_format:
  assumes "fsmem_ok g" "disk_ok S"
  shows "\<exists>fs. FileSystem_format g S = Inr fs \<and> fs_inv fs \<and> (\<forall>n. fs_files fs n = None) \<and> free_sectors fs = 1024 - 5"
  using format_done [OF assms] by auto

text \<open>
  C24 \<open>Create\<close>, of at most 30 sectors, keeps the file system consistent and succeeds exactly if no file
  has the name (in its first nine characters), an entry of the directory is free and so are enough
  sectors.  It then adds one file of that size, takes its sectors and one for the header, and leaves
  every other file as it is; a \<open>Create\<close> that fails changes nothing.
\<close>

theorem filesys_create:
  assumes "fs_inv fs" "fsmem_ok g" "0 \<le> sz" "sz \<le> int NumDirect * SectorSize"
  shows "\<exists>ok fs'. FileSystem_Create g nm sz fs = Inr (ok, fs') \<and> fs_inv fs' \<and>
    (ok \<longleftrightarrow> fs_files fs (short_name nm) = None \<and> (\<exists>i < NumDirEntries. \<not> inUse (fs_dir fs ! i)) \<and>
       1 + divRoundUp sz SectorSize \<le> free_sectors fs) \<and>
    (if ok then (\<exists>c. int (length c) = sz \<and> fs_files fs' = (fs_files fs)(short_name nm \<mapsto> c)) \<and>
       free_sectors fs' = free_sectors fs - 1 - divRoundUp sz SectorSize
     else fs' = fs)"
proof -
  have sz: "sz \<le> 3840" using assms(4) by simp
  have "can_create nm sz fs \<longleftrightarrow> fs_files fs (short_name nm) = None \<and> (\<exists>i < NumDirEntries. \<not> inUse (fs_dir fs ! i)) \<and>
     1 + divRoundUp sz SectorSize \<le> free_sectors fs"
    by (auto simp: can_create_def used_slots_def NumDirEntries_def)
  moreover have "\<exists>ok fs'. FileSystem_Create g nm sz fs = Inr (ok, fs') \<and> fs_inv fs' \<and> (ok \<longleftrightarrow> can_create nm sz fs) \<and>
    (if ok then (\<exists>c. int (length c) = sz \<and> fs_files fs' = (fs_files fs)(short_name nm \<mapsto> c)) \<and>
       free_sectors fs' = free_sectors fs - 1 - divRoundUp sz SectorSize
     else fs' = fs)"
  proof (cases "can_create nm sz fs")
    case False
    then show ?thesis using Create_refused [OF assms(1-3) False] assms(1) by (intro exI [of _ False] exI [of _ fs]) simp
  next
    case True
    from Create_done [OF assms(1-3) sz True] obtain fs' c where r: "FileSystem_Create g nm sz fs = Inr (True, fs')" "fs_inv fs'"
      "length c = nat sz" "fs_files fs' = (fs_files fs)(short_name nm \<mapsto> c)"
      "free_sectors fs' = free_sectors fs - 1 - divRoundUp sz 128" by blast
    have "int (length c) = sz" using r(3) assms(3) by simp
    with r(4) have "\<exists>c. int (length c) = sz \<and> fs_files fs' = (fs_files fs)(short_name nm \<mapsto> c)" by blast
    with r(1,2,5) show ?thesis using True by (intro exI [of _ True] exI [of _ fs']) simp
  qed
  ultimately show ?thesis by simp
qed

text \<open>
  C26 \<open>Remove\<close> succeeds exactly if there is a file of the name.  The file is gone, its sectors and the one
  of its header are free again, every other file is as it was and the file system is consistent.
\<close>

theorem filesys_remove:
  assumes "fs_inv fs" "fsmem_ok g"
  shows "\<exists>fs'. FileSystem_Remove g nm fs = Inr (fs_files fs (short_name nm) \<noteq> None, fs') \<and> fs_inv fs' \<and>
    fs_files fs' = (fs_files fs)(short_name nm := None) \<and>
    free_sectors fs' = free_sectors fs +
      (case fs_files fs (short_name nm) of None \<Rightarrow> 0 | Some c \<Rightarrow> 1 + divRoundUp (int (length c)) SectorSize)"
proof (cases "fs_files fs (short_name nm)")
  case None
  then have "(fs_files fs)(short_name nm := None) = fs_files fs" by auto
  then show ?thesis using Remove_absent [OF assms None] assms(1) None by simp
next
  case (Some c)
  then show ?thesis using Remove_done [OF assms Some] by auto
qed

text \<open>
  A file that is opened by its name and written anywhere keeps its size, and has exactly the bytes
  replaced for which there is room; every other file keeps its contents, the file system stays
  consistent, and what is read through the open file afterwards is the new contents.
\<close>

theorem filesys_write_read:
  assumes "fs_inv fs" "fsmem_ok g" "fs_files fs (short_name nm) = Some c" "0 \<le> pos" "k \<le> int (length src)" "0 \<le> pos'"
  shows "\<exists>f m S' c'. FileSystem_Open g nm fs = Inr (Some f) \<and>
    OpenFile_WriteAt stale src k pos f (fsDisk fs) = Inr (int m, S') \<and> m = nat (min k (int (length c) - pos)) \<and>
    c' = (if m = 0 then c else take (nat pos) c @ take m src @ drop (nat pos + m) c) \<and>
    fs_inv (fs\<lparr>fsDisk := S'\<rparr>) \<and> fs_files (fs\<lparr>fsDisk := S'\<rparr>) = (fs_files fs)(short_name nm \<mapsto> c') \<and>
    OpenFile_ReadAt k' pos' f S' = Inr (take (nat k') (drop (nat pos') c'))"
proof -
  let ?m = "nat (min k (int (length c) - pos))"
  from Open_found [OF assms(1-3)] obtain h where h: "FileSystem_Open g nm fs = Inr (Some \<lparr>hdr = h, seekPosition = 0\<rparr>)"
    "opened fs (short_name nm) h" by blast
  let ?f = "\<lparr>hdr = h, seekPosition = 0\<rparr> :: OpenFile"
  from write_file [OF assms(1) h(2) _ assms(4,5,3), of ?f stale] obtain S' where
    S': "OpenFile_WriteAt stale src k pos ?f (fsDisk fs) = Inr (int ?m, S')" "fs_inv (on_disk fs S')"
    "fs_files (on_disk fs S') = (fs_files fs)(short_name nm \<mapsto> if ?m = 0 then c else store_bytes (nat pos) (take ?m src) c)"
    "opened (on_disk fs S') (short_name nm) h" by auto
  have "?m \<le> length src" using assms(5) by (simp add: nat_le_iff min.coboundedI1)
  then have l: "length (take ?m src) = ?m" by simp
  have st: "store_bytes (nat pos) (take ?m src) c = take (nat pos) c @ take ?m src @ drop (nat pos + ?m) c"
    by (simp only: store_bytes_def l)
  let ?c = "if ?m = 0 then c else take (nat pos) c @ take ?m src @ drop (nat pos + ?m) c"
  have files: "fs_files (on_disk fs S') = (fs_files fs)(short_name nm \<mapsto> ?c)" using S'(3) unfolding st .
  have op: "opened (on_disk fs S') (short_name nm) (hdr ?f)" using S'(4) by simp
  have "OpenFile_ReadAt k' pos' ?f (fsDisk (on_disk fs S')) = Inr (take (nat k') (drop (nat pos') ?c))"
    by (rule read_file [OF S'(2) op _ assms(6)]) (simp add: files)
  then show ?thesis using h(1) S'(1,2) files
    by (intro exI [of _ ?f] exI [of _ ?m] exI [of _ S'] exI [of _ ?c]) simp
qed

text \<open>
  A header has room for 30 sectors and \<open>Allocate\<close> does not look: asked for a larger file when the disk
  has the space, \<open>Create\<close> writes behind the array of the header instead of refusing.
\<close>

theorem filesys_create_too_large:
  assumes "fs_inv fs" "fsmem_ok g" "int NumDirect * SectorSize < sz"
    "fs_files fs (short_name nm) = None" "\<exists>i < NumDirEntries. \<not> inUse (fs_dir fs ! i)"
    "1 + divRoundUp sz SectorSize \<le> free_sectors fs"
  shows "FileSystem_Create g nm sz fs = Inl OutOfBounds"
proof -
  have "can_create nm sz fs" using assms(4-6) by (auto simp: can_create_def used_slots_def NumDirEntries_def)
  then show ?thesis using Create_overflow [OF assms(1,2)] assms(3) by simp
qed

section \<open>Witnesses\<close>

definition mem0 :: fsmem where
  "mem0 = \<lparr>memWords = replicate 32 7, memEntries = replicate 10 \<lparr>inUse = True, sector = 3, entryName = replicate 10 1\<rparr>,
     memHeader = \<lparr>numBytes = 5, numSectors = 6, dataSectors = replicate 30 (-1)\<rparr>, memBuffer = (\<lambda>_. 9)\<rparr>"

lemma mem0_ok: "fsmem_ok mem0"
  by (simp add: fsmem_ok_def mem0_def entry_ok_def small_int_def header_mem_ok_def list_all_iff)

theorem filesys_format_witness:
  "\<exists>fs. FileSystem_format mem0 blank = Inr fs \<and> fs_inv fs \<and> free_sectors fs = 1019"
  using filesys_format [OF mem0_ok hdr1_ok(2)] by auto

lemma new_disk:
  obtains fs where "fs_inv fs" "fs_files fs = Map.empty" "free_sectors fs = 1019" "\<exists>i < NumDirEntries. \<not> inUse (fs_dir fs ! i)"
    "FileSystem_format mem0 blank = Inr fs"
proof -
  from format_done [OF mem0_ok hdr1_ok(2)] obtain fs where f: "FileSystem_format mem0 blank = Inr fs" "fs_inv fs"
    "fs_files fs = Map.empty" "free_sectors fs = 1019" by blast
  have "\<not> inUse (fs_dir fs ! 0)" using f(3) fs_files_cases [of fs 0] f(2) by (auto simp: fs_inv_def)
  then have "\<exists>i < NumDirEntries. \<not> inUse (fs_dir fs ! i)" by (intro exI [of _ 0]) (simp add: NumDirEntries_def)
  then show ?thesis using that f by blast
qed

theorem filesys_create_witness:
  "\<exists>fs fs' c. FileSystem_format mem0 blank = Inr fs \<and> FileSystem_Create mem0 [65, 66] 300 fs = Inr (True, fs') \<and>
     fs_files fs' = [[65, 66] \<mapsto> c] \<and> length c = 300 \<and> free_sectors fs' = 1015"
proof -
  obtain fs where fs: "fs_inv fs" "fs_files fs = Map.empty" "free_sectors fs = 1019" "\<exists>i < NumDirEntries. \<not> inUse (fs_dir fs ! i)"
    "FileSystem_format mem0 blank = Inr fs" by (rule new_disk)
  have n: "divRoundUp 300 128 = 3" "short_name [65, 66] = [65, 66]" by (simp_all add: divRoundUp_def short_name_def)
  from filesys_create [where nm = "[65, 66]" and sz = 300, OF fs(1) mem0_ok] fs n show ?thesis by auto
qed

lemma one_file:
  obtains fs c where "fs_inv fs" "fs_files fs = [[65, 66] \<mapsto> c]" "length c = 300" "free_sectors fs = 1015"
proof -
  obtain fs where fs: "fs_inv fs" "fs_files fs = Map.empty" "free_sectors fs = 1019" "\<exists>i < NumDirEntries. \<not> inUse (fs_dir fs ! i)"
    by (rule new_disk)
  have n: "divRoundUp 300 128 = 3" "short_name [65, 66] = [65, 66]" by (simp_all add: divRoundUp_def short_name_def)
  have "can_create [65, 66] 300 fs" using fs(2-4) n by (auto simp: can_create_def used_slots_def NumDirEntries_def)
  from Create_done [OF fs(1) mem0_ok _ _ this] show ?thesis using that n fs by auto
qed

theorem filesys_remove_witness:
  "\<exists>fs fs'. fs_files fs [65, 66] \<noteq> None \<and> FileSystem_Remove mem0 [65, 66] fs = Inr (True, fs') \<and> fs_files fs' = Map.empty \<and>
     free_sectors fs' = 1019"
proof -
  obtain fs c where fs: "fs_inv fs" "fs_files fs = [[65, 66] \<mapsto> c]" "length c = 300" "free_sectors fs = 1015" by (rule one_file)
  have n: "divRoundUp 300 128 = 3" "short_name [65, 66] = [65, 66]" by (simp_all add: divRoundUp_def short_name_def)
  from filesys_remove [where nm = "[65, 66]", OF fs(1) mem0_ok] fs n obtain fs' where
    "FileSystem_Remove mem0 [65, 66] fs = Inr (True, fs')" "fs_files fs' = Map.empty" "free_sectors fs' = 1019" by auto
  then show ?thesis using fs(2) by (intro exI [of _ fs] exI [of _ fs']) simp
qed

theorem filesys_write_read_witness:
  "\<exists>fs f S'. FileSystem_Open mem0 [65, 66] fs = Inr (Some f) \<and>
     OpenFile_WriteAt (\<lambda>_. 0) [1, 2, 3] 3 298 f (fsDisk fs) = Inr (2, S') \<and> OpenFile_ReadAt 5 298 f S' = Inr [1, 2]"
proof -
  obtain fs c where fs: "fs_inv fs" "fs_files fs = [[65, 66] \<mapsto> c]" "length c = 300" by (rule one_file)
  have n: "short_name [65, 66] = [65, 66]" by (simp add: short_name_def)
  have "fs_files fs (short_name [65, 66]) = Some c" using fs(2) n by simp
  from filesys_write_read [where pos = 298 and pos' = 298 and k = 3 and k' = 5 and src = "[1, 2, 3]" and stale = "\<lambda>_. 0",
      OF fs(1) mem0_ok this] obtain f m S' c' where
    f: "FileSystem_Open mem0 [65, 66] fs = Inr (Some f)" "OpenFile_WriteAt (\<lambda>_. 0) [1, 2, 3] 3 298 f (fsDisk fs) = Inr (int m, S')"
     "m = 2" "c' = take 298 c @ [1, 2] @ drop 300 c" "OpenFile_ReadAt 5 298 f S' = Inr (take 5 (drop 298 c'))" using fs(3) by auto
  moreover have "take 5 (drop 298 c') = [1, 2]" using f(4) fs(3) by simp
  ultimately show ?thesis by (metis int_ops(3) of_nat_numeral)
qed

theorem filesys_create_too_large_witness:
  "\<exists>fs. FileSystem_format mem0 blank = Inr fs \<and> FileSystem_Create mem0 [65, 66] 3841 fs = Inl OutOfBounds"
proof -
  obtain fs where fs: "fs_inv fs" "fs_files fs = Map.empty" "free_sectors fs = 1019" "\<exists>i < NumDirEntries. \<not> inUse (fs_dir fs ! i)"
    "FileSystem_format mem0 blank = Inr fs" by (rule new_disk)
  have n: "divRoundUp 3841 128 = 31" by (simp add: divRoundUp_def)
  from filesys_create_too_large [where nm = "[65, 66]" and sz = 3841, OF fs(1) mem0_ok _ _ fs(4)] fs n show ?thesis by auto
qed

end
