(* ===== verification/Nachos_FileTest.thy ===== *)
theory Nachos_FileTest
  imports Nachos_FileSysThms
begin

text \<open>
  The programs that use the file system from inside the kernel (filesys/fstest.cc: \<open>Copy\<close>, \<open>Print\<close>,
  \<open>PerformanceTest\<close>) and the printing of headers, of the directory and of the whole file system.  A file
  that is copied in is printed unchanged; the performance test cannot succeed.
\<close>

section \<open>Copying a file in\<close>

definition TransferSize :: nat where "TransferSize = 10"

text \<open>
  The loop over the pieces of the Unix file, whose bytes are \<open>data\<close>.  The result of \<open>Write\<close> is not
  looked at.
\<close>

function copy_loop :: "(nat \<Rightarrow> byte) \<Rightarrow> byte list \<Rightarrow> OpenFile \<Rightarrow> filesys \<Rightarrow> fault + filesys" where
  "copy_loop stale data f fs =
     (if data = [] then Inr fs
      else
        let piece = take TransferSize data in
        bindE (OpenFile_Write stale piece (int (length piece)) f (fsDisk fs)) (\<lambda>(_, f1, S1).
          copy_loop stale (drop TransferSize data) f1 (fs\<lparr>fsDisk := S1\<rparr>)))"
  by pat_completeness auto

termination by (relation "measure (\<lambda>(stale, data, f, fs). length data)") (auto simp: TransferSize_def)

declare copy_loop.simps [simp del]

text \<open>\<open>CopyNoInput\<close>, \<open>CopyNoOutput\<close>: the two error messages.\<close>

datatype copy_result = CopyDone | CopyNoInput | CopyNoOutput

definition Copy :: "fsmem \<Rightarrow> byte list option \<Rightarrow> byte list \<Rightarrow> filesys \<Rightarrow> fault + copy_result \<times> filesys" where
  "Copy g unixFile nachosFile fs =
     (case unixFile of
        None \<Rightarrow> Inr (CopyNoInput, fs)
      | Some data \<Rightarrow>
          bindE (FileSystem_Create g nachosFile (int (length data)) fs) (\<lambda>(ok, fs1).
          if \<not> ok then Inr (CopyNoOutput, fs1)
          else bindE (FileSystem_Open g nachosFile fs1) (\<lambda>r.
            case r of
              None \<Rightarrow> Inl AssertFailed
            | Some f \<Rightarrow> bindE (copy_loop (memBuffer g) data f fs1) (\<lambda>fs2. Inr (CopyDone, fs2)))))"

section \<open>Printing a file\<close>

text \<open>The loop reads until nothing is left; every piece that is read moves the position on.\<close>

lemma read_progress:
  assumes "OpenFile_Read n f S = Inr (bs, f1)" "bs \<noteq> []"
  shows "hdr f1 = hdr f" "nat (numBytes (hdr f1) - seekPosition f1) < nat (numBytes (hdr f) - seekPosition f)"
proof -
  from assms(1) have r: "OpenFile_ReadAt n (seekPosition f) f S = Inr bs" "f1 = f\<lparr>seekPosition := seekPosition f + int (length bs)\<rparr>"
    by (auto simp: OpenFile_Read_def bindE_eq_Inr)
  then show "hdr f1 = hdr f" by simp
  have "seekPosition f < numBytes (hdr f)"
  proof (rule ccontr)
    assume "\<not> seekPosition f < numBytes (hdr f)"
    then have "bs = []" using r(1) by (simp add: OpenFile_ReadAt_def FileLength_def)
    then show False using assms(2) by simp
  qed
  then show "nat (numBytes (hdr f1) - seekPosition f1) < nat (numBytes (hdr f) - seekPosition f)"
    using r(2) assms(2) by (cases bs) auto
qed

function print_loop :: "OpenFile \<Rightarrow> sectors \<Rightarrow> fault + byte list" where
  "print_loop f S =
     (case OpenFile_Read (int TransferSize) f S of
        Inl e \<Rightarrow> Inl e
      | Inr (bs, f1) \<Rightarrow> if bs = [] then Inr [] else bindE (print_loop f1 S) (\<lambda>rest. Inr (bs @ rest)))"
  by pat_completeness auto

termination
  by (relation "measure (\<lambda>(f, S). nat (numBytes (hdr f) - seekPosition f))") (auto dest: read_progress(2))

declare print_loop.simps [simp del]

text \<open>\<open>None\<close>: the file cannot be opened.\<close>

definition Print :: "fsmem \<Rightarrow> byte list \<Rightarrow> filesys \<Rightarrow> fault + byte list option" where
  "Print g nm fs =
     bindE (FileSystem_Open g nm fs) (\<lambda>r.
     case r of
       None \<Rightarrow> Inr None
     | Some f \<Rightarrow> bindE (print_loop f (fsDisk fs)) (\<lambda>bs. Inr (Some bs)))"

section \<open>The performance test\<close>

definition FileName :: "byte list" where
  "FileName = [84, 101, 115, 116, 70, 105, 108, 101]"

definition Contents :: "byte list" where
  "Contents = [49, 50, 51, 52, 53, 54, 55, 56, 57, 48]"

definition FileSize :: nat where "FileSize = length Contents * 5000"

text \<open>What a part of the test reports.\<close>

datatype perf_result = PerfDone | CantCreate | CantOpen | CantWrite | CantRead

fun file_write_loop :: "(nat \<Rightarrow> byte) \<Rightarrow> nat \<Rightarrow> OpenFile \<Rightarrow> filesys \<Rightarrow> fault + perf_result \<times> filesys" where
  "file_write_loop stale 0 f fs = Inr (PerfDone, fs)"
| "file_write_loop stale (Suc n) f fs =
     bindE (OpenFile_Write stale Contents (int (length Contents)) f (fsDisk fs)) (\<lambda>(r, f1, S1).
     if r < 10 then Inr (CantWrite, fs\<lparr>fsDisk := S1\<rparr>)
     else file_write_loop stale n f1 (fs\<lparr>fsDisk := S1\<rparr>))"

definition FileWrite :: "fsmem \<Rightarrow> filesys \<Rightarrow> fault + perf_result \<times> filesys" where
  "FileWrite g fs =
     bindE (FileSystem_Create g FileName 0 fs) (\<lambda>(ok, fs1).
     if \<not> ok then Inr (CantCreate, fs1)
     else bindE (FileSystem_Open g FileName fs1) (\<lambda>r.
       case r of
         None \<Rightarrow> Inr (CantOpen, fs1)
       | Some f \<Rightarrow> file_write_loop (memBuffer g) (FileSize div length Contents) f fs1))"

fun file_read_loop :: "nat \<Rightarrow> OpenFile \<Rightarrow> filesys \<Rightarrow> fault + perf_result" where
  "file_read_loop 0 f fs = Inr PerfDone"
| "file_read_loop (Suc n) f fs =
     bindE (OpenFile_Read (int (length Contents)) f (fsDisk fs)) (\<lambda>(bs, f1).
     if length bs < 10 \<or> \<not> strncmp_eq (length Contents) bs Contents then Inr CantRead
     else file_read_loop n f1 fs)"

definition FileRead :: "fsmem \<Rightarrow> filesys \<Rightarrow> fault + perf_result" where
  "FileRead g fs =
     bindE (FileSystem_Open g FileName fs) (\<lambda>r.
     case r of
       None \<Rightarrow> Inr CantOpen
     | Some f \<Rightarrow> file_read_loop (FileSize div length Contents) f fs)"

text \<open>The reports of the two parts, and whether the file could be removed.\<close>

definition PerformanceTest :: "fsmem \<Rightarrow> filesys \<Rightarrow> fault + (perf_result \<times> perf_result \<times> bool) \<times> filesys" where
  "PerformanceTest g fs =
     bindE (FileWrite g fs) (\<lambda>(w, fs1).
     bindE (FileRead g fs1) (\<lambda>r.
     bindE (FileSystem_Remove g FileName fs1) (\<lambda>(ok, fs2).
     Inr ((w, r, ok), fs2))))"

section \<open>Printing headers and directories\<close>

primrec mapE :: "('a \<Rightarrow> fault + 'b) \<Rightarrow> 'a list \<Rightarrow> fault + 'b list" where
  "mapE f [] = Inr []"
| "mapE f (x # xs) = bindE (f x) (\<lambda>y. bindE (mapE f xs) (\<lambda>ys. Inr (y # ys)))"

text \<open>A character of a file: itself if it is printable, and its hexadecimal code behind a backslash otherwise.\<close>

definition hex_digit :: "nat \<Rightarrow> char" where
  "hex_digit d = (if d < 10 then char_of (48 + d) else char_of (87 + d))"

definition show_byte :: "byte \<Rightarrow> string" where
  "show_byte b =
     (let n = unat b in
      if 32 \<le> n \<and> n \<le> 126 then [char_of n]
      else CHR 0x5C # (if n < 16 then [hex_digit n] else [hex_digit (n div 16), hex_digit (n mod 16)]))"

text \<open>The lines of the contents: one for each sector, as long as there are bytes; \<open>k\<close> counts them.\<close>

fun print_sectors :: "nat \<Rightarrow> nat \<Rightarrow> int \<Rightarrow> FileHeader \<Rightarrow> sectors \<Rightarrow> fault + string list" where
  "print_sectors i 0 k h S = Inr []"
| "print_sectors i (Suc n) k h S =
     bindE (arr_get (dataSectors h) (int i)) (\<lambda>s.
     bindE (ReadSector s S) (\<lambda>data.
     let shown = take (nat (numBytes h - k)) data in
     bindE (print_sectors (Suc i) n (k + int (length shown)) h S) (\<lambda>rest.
     Inr (concat (map show_byte shown) # rest))))"

definition FileHeader_Print :: "FileHeader \<Rightarrow> sectors \<Rightarrow> fault + int \<times> int list \<times> string list" where
  "FileHeader_Print h S =
     bindE (mapE (\<lambda>i. arr_get (dataSectors h) (int i)) [0..<nat (numSectors h)]) (\<lambda>blocks.
     bindE (print_sectors 0 (nat (numSectors h)) 0 h S) (\<lambda>lines.
     Inr (numBytes h, blocks, lines)))"

definition Directory_Print :: "directory \<Rightarrow> sectors \<Rightarrow> fault + (byte list \<times> int \<times> int \<times> int list \<times> string list) list" where
  "Directory_Print dir S =
     mapE (\<lambda>e.
       bindE (FileHeader_FetchFrom (sector e) S) (\<lambda>h.
       bindE (FileHeader_Print h S) (\<lambda>p. Inr (entryName e, sector e, p)))) (filter inUse dir)"

definition FileSystem_Print :: "fsmem \<Rightarrow> filesys \<Rightarrow> fault + (int \<times> int list \<times> string list) \<times> (int \<times> int list \<times> string list) \<times>
    int list \<times> (byte list \<times> int \<times> int \<times> int list \<times> string list) list" where
  "FileSystem_Print g fs =
     bindE (FileHeader_FetchFrom FreeMapSector (fsDisk fs)) (\<lambda>bitHdr.
     bindE (FileHeader_Print bitHdr (fsDisk fs)) (\<lambda>p1.
     bindE (FileHeader_FetchFrom DirectorySector (fsDisk fs)) (\<lambda>dirHdr.
     bindE (FileHeader_Print dirHdr (fsDisk fs)) (\<lambda>p2.
     bindE (load_map g fs) (\<lambda>freeMap.
     bindE (BitMap_Print freeMap) (\<lambda>bits.
     bindE (load_directory g fs) (\<lambda>dir.
     bindE (Directory_Print dir (fsDisk fs)) (\<lambda>p3.
     Inr (p1, p2, bits, p3)))))))))"

section \<open>What a header prints\<close>

lemma data_sector_at:
  assumes "hdr_ok h" "k < length (file_sectors h)"
  shows "arr_get (dataSectors h) (int k) = Inr (file_sectors h ! k)" "0 \<le> file_sectors h ! k" "file_sectors h ! k < 1024"
proof -
  have k: "k < nat (numSectors h)" using assms file_sectors_length by simp
  have "k < length (dataSectors h)" using assms(2) by (simp add: file_sectors_def)
  then show "arr_get (dataSectors h) (int k) = Inr (file_sectors h ! k)"
    using file_sector_ok(1) [OF assms(1) k] by (simp add: arr_get_def in_range_def)
  show "0 \<le> file_sectors h ! k" "file_sectors h ! k < 1024" using file_sector_ok [OF assms(1) k] by simp_all
qed

lemma print_sectors_ok:
  assumes "disk_ok S" "hdr_ok h"
  shows "i + n = length (file_sectors h) \<Longrightarrow> k \<le> numBytes h \<Longrightarrow>
    \<exists>ls. print_sectors i n k h S = Inr ls \<and> length ls = n \<and>
      concat ls = concat (map show_byte (take (nat (numBytes h - k)) (concat (map S (drop i (file_sectors h))))))"
proof (induction n arbitrary: i k)
  case 0
  then show ?case by simp
next
  case (Suc n)
  let ?s = "file_sectors h ! i"
  have i: "i < length (file_sectors h)" using Suc.prems(1) by simp
  have s: "arr_get (dataSectors h) (int i) = Inr ?s" "0 \<le> ?s" "?s < 1024"
    using data_sector_at [OF assms(2) i] by simp_all
  have l: "length (S ?s) = 128" using assms(1) s by (simp add: disk_ok_def)
  let ?m = "nat (numBytes h - k)"
  let ?shown = "take ?m (S ?s)"
  have "k + int (length ?shown) \<le> numBytes h" using Suc.prems(2) l by simp
  from Suc.IH [OF _ this, of "Suc i"] Suc.prems(1) obtain ls where
    ls: "print_sectors (Suc i) n (k + int (length ?shown)) h S = Inr ls" "length ls = n"
    "concat ls = concat (map show_byte (take (nat (numBytes h - (k + int (length ?shown)))) (concat (map S (drop (Suc i) (file_sectors h))))))"
    by auto
  have "nat (numBytes h - (k + int (length ?shown))) = ?m - 128" using l Suc.prems(2) by simp
  moreover have "drop i (file_sectors h) = ?s # drop (Suc i) (file_sectors h)" using i by (simp add: Cons_nth_drop_Suc)
  ultimately have "concat (concat (map show_byte ?shown) # ls) =
      concat (map show_byte (take ?m (concat (map S (drop i (file_sectors h))))))" using ls(3) l by simp
  then show ?case using s l ls(1,2) by (intro exI [of _ "concat (map show_byte ?shown) # ls"]) (simp add: ReadSector_def)
qed

text \<open>\<open>Print\<close> of a header gives the length, the sectors and, on one line for each, the contents.\<close>

lemma mapE_Inr: "(\<And>x. x \<in> set xs \<Longrightarrow> f x = Inr (g x)) \<Longrightarrow> mapE f xs = Inr (map g xs)"
  by (induction xs) simp_all

lemma FileHeader_Print_ok:
  assumes "disk_ok S" "hdr_ok h"
  shows "\<exists>ls. FileHeader_Print h S = Inr (numBytes h, file_sectors h, ls) \<and> length ls = length (file_sectors h) \<and>
    concat ls = concat (map show_byte (file_content h S))"
proof -
  note n = file_sectors_length [OF assms(2)]
  have "mapE (\<lambda>i. arr_get (dataSectors h) (int i)) [0..<nat (numSectors h)] = Inr (map ((!) (file_sectors h)) [0..<nat (numSectors h)])"
    by (rule mapE_Inr) (use data_sector_at [OF assms(2)] n in auto)
  then have b: "mapE (\<lambda>i. arr_get (dataSectors h) (int i)) [0..<nat (numSectors h)] = Inr (file_sectors h)"
    unfolding n [symmetric] map_nth .
  have "0 \<le> numBytes h" using assms(2) by (simp add: hdr_ok_def)
  from print_sectors_ok [OF assms, of 0 "nat (numSectors h)" 0] this n show ?thesis
    by (auto simp: FileHeader_Print_def b file_content_def)
qed

section \<open>Copied in and printed\<close>

lemma copy_loop_ok:
  assumes "fs_inv fs" "opened fs n (hdr f)" "fs_files fs n = Some c" "seekPosition f = int p" "p + length data = length c"
  shows "\<exists>fs'. copy_loop stale data f fs = Inr fs' \<and> fs_inv fs' \<and> fs_files fs' = (fs_files fs)(n \<mapsto> take p c @ data)"
  using assms
proof (induction stale data f fs arbitrary: p c rule: copy_loop.induct)
  case (1 stale data f fs)
  show ?case
  proof (cases "data = []")
    case True
    then show ?thesis using 1(2-) by (simp add: copy_loop.simps fun_upd_idem)
  next
    case False
    let ?piece = "take TransferSize data"
    let ?l = "length ?piece"
    have l: "0 < ?l" "p + ?l \<le> length c" "?l = length data - length (drop TransferSize data)"
      using False 1(6) by (auto simp: TransferSize_def)
    have m: "nat (min (int ?l) (int (length c) - int p)) = ?l" using l(2) by simp
    have e: "(if ?l = 0 then c else store_bytes (nat (int p)) (take ?l ?piece) c) = store_bytes p ?piece c"
      using l(1) by (simp add: min_def)
    from write_file [where pos = "int p" and k = "int ?l" and src = ?piece and stale = stale,
        OF 1(2) 1(3) refl of_nat_0_le_iff order_refl 1(4)] obtain S' where
      S': "OpenFile_WriteAt stale ?piece (int ?l) (int p) f (fsDisk fs) = Inr (int ?l, S')" "fs_inv (on_disk fs S')"
       "fs_files (on_disk fs S') = (fs_files fs)(n \<mapsto> store_bytes p ?piece c)" "opened (on_disk fs S') n (hdr f)"
      unfolding m e by blast
    let ?f = "f\<lparr>seekPosition := int p + int ?l\<rparr>"
    let ?c = "store_bytes p ?piece c"
    have w: "OpenFile_Write stale ?piece (int ?l) f (fsDisk fs) = Inr (int ?l, ?f, S')"
      using S'(1) 1(5) by (simp add: OpenFile_Write_def)
    have c: "length ?c = length c" using l(2) by simp
    have "p + ?l + length (drop TransferSize data) = length ?c" unfolding c using 1(6) l(3) by simp
    then have "\<exists>fs'. copy_loop stale (drop TransferSize data) ?f (on_disk fs S') = Inr fs' \<and> fs_inv fs' \<and>
      fs_files fs' = (fs_files (on_disk fs S'))(n \<mapsto> take (p + ?l) ?c @ drop TransferSize data)"
      using S' by (intro "1.IH" [OF False refl]) simp_all
    moreover have "take (p + ?l) ?c @ drop TransferSize data = take p c @ data"
    proof -
      have "length (take p c @ ?piece) = p + ?l" using 1(6) by simp
      then have "take (p + ?l) ?c = take p c @ ?piece" unfolding store_bytes_def by (metis append_assoc append_eq_conv_conj)
      then show ?thesis by (simp only: append_assoc append_take_drop_id)
    qed
    moreover have "(fs_files (on_disk fs S'))(n \<mapsto> x) = (fs_files fs)(n \<mapsto> x)" for x
      unfolding S'(3) by (rule fun_upd_upd)
    moreover have "copy_loop stale data f fs = copy_loop stale (drop TransferSize data) ?f (on_disk fs S')"
      using False w by (simp add: copy_loop.simps [of stale data f fs])
    ultimately show ?thesis by metis
  qed
qed

lemma print_loop_ok:
  assumes "fs_inv fs" "opened fs n (hdr f)" "fs_files fs n = Some c" "seekPosition f = int p"
  shows "print_loop f (fsDisk fs) = Inr (drop p c)"
  using assms(2,4)
proof (induction "length c - p" arbitrary: f p rule: less_induct)
  case less
  have r: "OpenFile_ReadAt (int TransferSize) (seekPosition f) f (fsDisk fs) = Inr (take TransferSize (drop p c))"
    using read_file [OF assms(1) less(2) assms(3), of "seekPosition f" "int TransferSize"] less(3) by simp
  let ?bs = "take TransferSize (drop p c)"
  let ?f = "f\<lparr>seekPosition := int p + int (length ?bs)\<rparr>"
  have read: "OpenFile_Read (int TransferSize) f (fsDisk fs) = Inr (?bs, ?f)" using r less(3) by (simp add: OpenFile_Read_def)
  show ?case
  proof (cases "?bs = []")
    case True
    then have "drop p c = []" by (simp add: TransferSize_def)
    then show ?thesis using read by (simp add: print_loop.simps [of f])
  next
    case False
    then have "0 < length ?bs" by simp
    moreover have "p < length c" using False by simp
    ultimately have "length c - (p + length ?bs) < length c - p" by linarith
    from less(1) [OF this, of ?f] less(2) have "print_loop ?f (fsDisk fs) = Inr (drop (p + length ?bs) c)" by simp
    moreover have "?bs @ drop (p + length ?bs) c = drop p c"
      by (cases "TransferSize \<le> length (drop p c)") (simp_all add: add.commute flip: drop_drop)
    ultimately show ?thesis using False read by (simp add: print_loop.simps [of f])
  qed
qed

text \<open>
  A Unix file of at most 30 sectors that is copied into the file system, when \<open>Create\<close> has room for
  it, is afterwards the contents of that file, changes no other, and \<open>Print\<close> prints exactly its bytes,
  although both work in pieces of ten.
\<close>

theorem copy_print_roundtrip:
  assumes "fs_inv fs" "fsmem_ok g" "length data \<le> 3840" "can_create nm (int (length data)) fs"
  shows "\<exists>fs'. Copy g (Some data) nm fs = Inr (CopyDone, fs') \<and> fs_inv fs' \<and>
    fs_files fs' = (fs_files fs)(short_name nm \<mapsto> data) \<and> Print g nm fs' = Inr (Some data)"
proof -
  from Create_done [OF assms(1,2) _ _ assms(4)] assms(3) obtain fs1 c where c: "FileSystem_Create g nm (int (length data)) fs = Inr (True, fs1)"
    "fs_inv fs1" "length c = length data" "fs_files fs1 = (fs_files fs)(short_name nm \<mapsto> c)" by auto
  have f1: "fs_files fs1 (short_name nm) = Some c" using c(4) by simp
  from Open_found [OF c(2) assms(2) f1] obtain h where h: "FileSystem_Open g nm fs1 = Inr (Some \<lparr>hdr = h, seekPosition = 0\<rparr>)"
    "opened fs1 (short_name nm) h" by blast
  let ?f = "\<lparr>hdr = h, seekPosition = 0\<rparr> :: OpenFile"
  from copy_loop_ok [OF c(2) _ f1, of ?f 0 data "memBuffer g"] h(2) c(3) obtain fs2 where
    fs2: "copy_loop (memBuffer g) data ?f fs1 = Inr fs2" "fs_inv fs2" "fs_files fs2 = (fs_files fs1)(short_name nm \<mapsto> data)" by auto
  have run: "Copy g (Some data) nm fs = Inr (CopyDone, fs2)" using c(1) h(1) fs2(1) by (simp add: Copy_def)
  have files: "fs_files fs2 = (fs_files fs)(short_name nm \<mapsto> data)" using fs2(3) c(4) by simp
  then have f2: "fs_files fs2 (short_name nm) = Some data" by simp
  from Open_found [OF fs2(2) assms(2) f2] obtain h2 where h2: "FileSystem_Open g nm fs2 = Inr (Some \<lparr>hdr = h2, seekPosition = 0\<rparr>)"
    "opened fs2 (short_name nm) h2" by blast
  have "print_loop \<lparr>hdr = h2, seekPosition = 0\<rparr> (fsDisk fs2) = Inr data"
    using print_loop_ok [OF fs2(2) _ f2, of "\<lparr>hdr = h2, seekPosition = 0\<rparr>" 0] h2(2) by simp
  then show ?thesis using run fs2(2) files h2(1) by (simp add: Print_def)
qed

text \<open>
  The performance test creates its file with no bytes and then writes to it, but a file never grows:
  whenever the file can be created at all, the writing and the reading report failure, and the removal
  leaves the files as they were.
\<close>

theorem performance_test_fails:
  assumes "fs_inv fs" "fsmem_ok g" "can_create FileName 0 fs"
  shows "\<exists>fs'. PerformanceTest g fs = Inr ((CantWrite, CantRead, True), fs') \<and> fs_inv fs' \<and> fs_files fs' = fs_files fs \<and>
    free_sectors fs' = free_sectors fs"
proof -
  from Create_done [OF assms(1,2) _ _ assms(3)] obtain fs1 where c: "FileSystem_Create g FileName 0 fs = Inr (True, fs1)"
    "fs_inv fs1" "fs_files fs1 = (fs_files fs)(short_name FileName \<mapsto> [])" "free_sectors fs1 = free_sectors fs - 1 - divRoundUp 0 128" by auto
  have f1: "fs_files fs1 (short_name FileName) = Some []" using c(3) by simp
  from Open_found [OF c(2) assms(2) f1] obtain h where h: "FileSystem_Open g FileName fs1 = Inr (Some \<lparr>hdr = h, seekPosition = 0\<rparr>)"
    "opened fs1 (short_name FileName) h" by blast
  let ?f = "\<lparr>hdr = h, seekPosition = 0\<rparr> :: OpenFile"
  have n: "numBytes h = 0" using opened_content(2,3) [OF c(2) h(2)] f1 by simp
  have it: "FileSize div length Contents = 5000" by (simp add: FileSize_def Contents_def)
  have w: "OpenFile_Write (memBuffer g) Contents (int (length Contents)) ?f (fsDisk fs1) = Inr (0, ?f, fsDisk fs1)"
    using n by (simp add: OpenFile_Write_def OpenFile_WriteAt_def FileLength_def)
  have "file_write_loop (memBuffer g) (Suc m) ?f fs1 = Inr (CantWrite, fs1)" for m using w by simp
  from this [of 4999] have wl: "file_write_loop (memBuffer g) 5000 ?f fs1 = Inr (CantWrite, fs1)" by simp
  have wr: "FileWrite g fs = Inr (CantWrite, fs1)"
    unfolding FileWrite_def it using c(1) h(1) wl by simp
  have r: "OpenFile_Read (int (length Contents)) ?f (fsDisk fs1) = Inr ([], ?f)"
    using n by (simp add: OpenFile_Read_def OpenFile_ReadAt_def FileLength_def)
  have "file_read_loop (Suc m) ?f fs1 = Inr CantRead" for m using r by simp
  from this [of 4999] have rl: "file_read_loop 5000 ?f fs1 = Inr CantRead" by simp
  have read: "FileRead g fs1 = Inr CantRead"
    unfolding FileRead_def it using h(1) rl by simp
  from Remove_done [OF c(2) assms(2) f1] obtain fs2 where rm: "FileSystem_Remove g FileName fs1 = Inr (True, fs2)" "fs_inv fs2"
    "fs_files fs2 = (fs_files fs1)(short_name FileName := None)" "free_sectors fs2 = free_sectors fs1 + 1 + divRoundUp 0 128" by auto
  have "fs_files fs (short_name FileName) = None" using assms(3) by (simp add: can_create_def)
  then have "fs_files fs2 = fs_files fs" unfolding rm(3) c(3) by auto
  then show ?thesis using wr read rm(1,2,4) c(4) by (simp add: PerformanceTest_def)
qed

theorem copy_print_roundtrip_witness:
  "\<exists>fs fs'. FileSystem_format mem0 blank = Inr fs \<and> Copy mem0 (Some [7, 8, 9, 10, 11, 12, 13, 14, 15, 16, 17, 18]) [65] fs = Inr (CopyDone, fs') \<and>
     Print mem0 [65] fs' = Inr (Some [7, 8, 9, 10, 11, 12, 13, 14, 15, 16, 17, 18])"
proof -
  obtain fs where fs: "fs_inv fs" "fs_files fs = Map.empty" "free_sectors fs = 1019" "\<exists>i < NumDirEntries. \<not> inUse (fs_dir fs ! i)"
    "FileSystem_format mem0 blank = Inr fs" by (rule new_disk)
  have "can_create [65] 12 fs" using fs(2-4) by (auto simp: can_create_def used_slots_def NumDirEntries_def divRoundUp_def)
  then show ?thesis
    using copy_print_roundtrip [where nm = "[65]" and data = "[7, 8, 9, 10, 11, 12, 13, 14, 15, 16, 17, 18]", OF fs(1) mem0_ok] fs(5) by auto
qed

theorem performance_test_fails_witness:
  "\<exists>fs fs'. FileSystem_format mem0 blank = Inr fs \<and> PerformanceTest mem0 fs = Inr ((CantWrite, CantRead, True), fs')"
proof -
  obtain fs where fs: "fs_inv fs" "fs_files fs = Map.empty" "free_sectors fs = 1019" "\<exists>i < NumDirEntries. \<not> inUse (fs_dir fs ! i)"
    "FileSystem_format mem0 blank = Inr fs" by (rule new_disk)
  have "can_create FileName 0 fs" using fs(2-4) by (auto simp: can_create_def used_slots_def NumDirEntries_def divRoundUp_def)
  then show ?thesis using performance_test_fails [OF fs(1) mem0_ok] fs(5) by blast
qed

end
