(* ===== verification/Nachos_Post.thy ===== *)
theory Nachos_Post
  imports Nachos_Bytes
begin

text \<open>
  The network device and the post office (machine/network.cc, network/post.cc).  Every machine has one
  post office; the sockets between them keep their packets in order.  Threads, the postal worker and the
  interrupts act in any order: \<open>net_event\<close> is one of their moves, up to the next point where it may
  have to wait, and \<open>net_run\<close> a sequence of them.
\<close>

section \<open>Packets and mail\<close>

definition MaxWireSize :: int where "MaxWireSize = 64"
definition MaxPacketSize :: int where "MaxPacketSize = MaxWireSize - 12"
definition MailMax :: int where "MailMax = MaxPacketSize - 12"

record PacketHeader =
  pktTo :: int
  pktFrom :: int
  pktLength :: int

record MailHeader =
  boxTo :: int
  boxFrom :: int
  mailLength :: int

text \<open>A letter: \<open>Mail\<close> with its two headers and the data.\<close>

record letter =
  pktHdr :: PacketHeader
  mailHdr :: MailHeader
  letterData :: "byte list"

text \<open>The mail header as raw memory: two integers and an unsigned one.\<close>

definition mail_header_bytes :: "MailHeader \<Rightarrow> byte list" where
  "mail_header_bytes h = bytes_of_word 4 (word_of_int (boxTo h)) @ bytes_of_word 4 (word_of_int (boxFrom h)) @
     bytes_of_word 4 (word_of_int (mailLength h))"

definition bytes_mail_header :: "byte list \<Rightarrow> MailHeader" where
  "bytes_mail_header bs = \<lparr>boxTo = sint (word_of_bytes (take 4 bs)), boxFrom = sint (word_of_bytes (take 4 (drop 4 bs))),
     mailLength = uint (word_of_bytes (take 4 (drop 8 bs)))\<rparr>"

definition Mail_new :: "PacketHeader \<Rightarrow> MailHeader \<Rightarrow> byte list \<Rightarrow> fault + letter" where
  "Mail_new p m msgData =
     bindE (assertE (mailLength m \<le> MailMax)) (\<lambda>_.
     Inr \<lparr>pktHdr = p, mailHdr = m, letterData = take (nat (mailLength m)) msgData\<rparr>)"

section \<open>The network device\<close>

type_synonym packet = "PacketHeader \<times> byte list"

text \<open>\<open>sendPending\<close>: the interrupts \<open>NetworkSendDone\<close> that are scheduled.\<close>

record network =
  ident :: int
  sendBusy :: bool
  inHdr :: PacketHeader
  inbox :: "byte list"
  packetsSent :: int
  packetsRecvd :: int
  sendPending :: nat

definition Network_new :: "int \<Rightarrow> byte list \<Rightarrow> network" where
  "Network_new addr garbage = \<lparr>ident = addr, sendBusy = False, inHdr = \<lparr>pktTo = 0, pktFrom = 0, pktLength = 0\<rparr>,
     inbox = garbage, packetsSent = 0, packetsRecvd = 0, sendPending = 0\<rparr>"

text \<open>
  \<open>Send\<close>: \<open>lost\<close> is the outcome of the random choice.  A packet that is not lost is for the socket; the
  bytes behind the length, which pad it to the size of the wire, are never looked at.
\<close>

definition Network_Send :: "bool \<Rightarrow> PacketHeader \<Rightarrow> byte list \<Rightarrow> network \<Rightarrow> fault + packet option \<times> network" where
  "Network_Send lost h data n =
     bindE (assertE (\<not> sendBusy n \<and> 0 < pktLength h \<and> pktLength h \<le> MaxPacketSize \<and> pktFrom h = ident n)) (\<lambda>_.
     let n1 = n\<lparr>sendPending := sendPending n + 1\<rparr> in
     if lost then Inr (None, n1)
     else Inr (Some (h, take (nat (pktLength h)) data), n1))"

definition SendDone :: "network \<Rightarrow> network" where
  "SendDone n = n\<lparr>sendBusy := False, packetsSent := packetsSent n + 1, sendPending := sendPending n - 1\<rparr>"

text \<open>\<open>CheckPktAvail\<close>: whether the handler of the post office is called, and what is left in the socket.\<close>

definition CheckPktAvail :: "packet list \<Rightarrow> network \<Rightarrow> fault + bool \<times> packet list \<times> network" where
  "CheckPktAvail sock n =
     (if pktLength (inHdr n) \<noteq> 0 then Inr (False, sock, n)
      else case sock of
        [] \<Rightarrow> Inr (False, [], n)
      | (h, data) # rest \<Rightarrow>
          bindE (assertE (pktTo h = ident n \<and> pktLength h \<le> MaxPacketSize)) (\<lambda>_.
          Inr (True, rest, n\<lparr>inHdr := h, inbox := store_bytes 0 data (inbox n), packetsRecvd := packetsRecvd n + 1\<rparr>)))"

definition Network_Receive :: "byte list \<Rightarrow> network \<Rightarrow> PacketHeader \<times> byte list \<times> network" where
  "Network_Receive buffer n =
     (let h = inHdr n; n1 = n\<lparr>inHdr := (inHdr n)\<lparr>pktLength := 0\<rparr>\<rparr> in
      if pktLength h \<noteq> 0 then (h, store_bytes 0 (take (nat (pktLength h)) (inbox n)) buffer, n1) else (h, buffer, n1))"

section \<open>The post office\<close>

text \<open>
  \<open>messageAvailable\<close> and \<open>messageSent\<close> are the values of the semaphores, \<open>sendLock\<close> whether the lock is
  held, \<open>workerBusy\<close> whether the worker has passed its \<open>P\<close> and not yet delivered.
\<close>

record post =
  netAddr :: int
  numBoxes :: int
  boxes :: "letter list list"
  net :: network
  messageAvailable :: nat
  messageSent :: nat
  sendLock :: bool
  workerBusy :: bool
  workerBuffer :: "byte list"

definition PostOffice_new :: "int \<Rightarrow> int \<Rightarrow> byte list \<Rightarrow> post" where
  "PostOffice_new addr nBoxes garbage = \<lparr>netAddr = addr, numBoxes = nBoxes, boxes = replicate (nat nBoxes) [],
     net = Network_new addr garbage, messageAvailable = 0, messageSent = 0, sendLock = False, workerBusy = False,
     workerBuffer = garbage\<rparr>"

definition IncomingPacket :: "post \<Rightarrow> post" where
  "IncomingPacket p = p\<lparr>messageAvailable := messageAvailable p + 1\<rparr>"

definition PacketSent :: "post \<Rightarrow> post" where
  "PacketSent p = p\<lparr>messageSent := messageSent p + 1\<rparr>"

text \<open>\<open>Send\<close> up to \<open>messageSent->P()\<close>, once it has the lock.\<close>

definition PostOffice_Send :: "bool \<Rightarrow> PacketHeader \<Rightarrow> MailHeader \<Rightarrow> byte list \<Rightarrow> post \<Rightarrow> fault + packet option \<times> post" where
  "PostOffice_Send lost ph mh data p =
     bindE (assertE (mailLength mh \<le> MailMax)) (\<lambda>_.
     bindE (assertE (0 \<le> boxTo mh \<and> boxTo mh < numBoxes p)) (\<lambda>_.
     let ph1 = ph\<lparr>pktFrom := netAddr p, pktLength := mailLength mh + 12\<rparr> in
     if length data < nat (mailLength mh) then Inl OutOfBounds
     else
       let buffer = mail_header_bytes mh @ take (nat (mailLength mh)) data in
       bindE (Network_Send lost ph1 buffer (net p)) (\<lambda>(out, n).
       Inr (out, p\<lparr>net := n, sendLock := True\<rparr>))))"

text \<open>\<open>PseudoSend\<close> is the same but leaves the sender of the packet as the caller gave it.\<close>

definition PostOffice_PseudoSend :: "bool \<Rightarrow> PacketHeader \<Rightarrow> MailHeader \<Rightarrow> byte list \<Rightarrow> post \<Rightarrow> fault + packet option \<times> post" where
  "PostOffice_PseudoSend lost ph mh data p =
     bindE (assertE (mailLength mh \<le> MailMax)) (\<lambda>_.
     bindE (assertE (0 \<le> boxTo mh \<and> boxTo mh < numBoxes p)) (\<lambda>_.
     let ph1 = ph\<lparr>pktLength := mailLength mh + 12\<rparr> in
     if length data < nat (mailLength mh) then Inl OutOfBounds
     else
       let buffer = mail_header_bytes mh @ take (nat (mailLength mh)) data in
       bindE (Network_Send lost ph1 buffer (net p)) (\<lambda>(out, n).
       Inr (out, p\<lparr>net := n, sendLock := True\<rparr>))))"

text \<open>The end of \<open>Send\<close>: \<open>P\<close> and the release of the lock.\<close>

definition Send_return :: "post \<Rightarrow> post" where
  "Send_return p = p\<lparr>messageSent := messageSent p - 1, sendLock := False\<rparr>"

definition MailBox_Put :: "PacketHeader \<Rightarrow> MailHeader \<Rightarrow> byte list \<Rightarrow> letter list \<Rightarrow> fault + letter list" where
  "MailBox_Put ph mh data box = bindE (Mail_new ph mh data) (\<lambda>l. Inr (box @ [l]))"

text \<open>A round of \<open>PostalDelivery\<close> after \<open>P\<close>.\<close>

definition PostalDelivery :: "post \<Rightarrow> fault + post" where
  "PostalDelivery p =
     (let (ph, buffer, n) = Network_Receive (workerBuffer p) (net p);
          mh = bytes_mail_header buffer in
      bindE (assertE (0 \<le> boxTo mh \<and> boxTo mh < numBoxes p)) (\<lambda>_.
      bindE (assertE (mailLength mh \<le> MailMax)) (\<lambda>_.
      bindE (MailBox_Put ph mh (drop 12 buffer) (boxes p ! nat (boxTo mh))) (\<lambda>box.
      Inr (p\<lparr>net := n, boxes := (boxes p)[nat (boxTo mh) := box], workerBusy := False, workerBuffer := buffer\<rparr>)))))"

text \<open>\<open>Receive\<close> of a box that is not empty.\<close>

definition PostOffice_Receive :: "int \<Rightarrow> post \<Rightarrow> fault + letter \<times> post" where
  "PostOffice_Receive box p =
     bindE (assertE (0 \<le> box \<and> box < numBoxes p)) (\<lambda>_.
     let l = hd (boxes p ! nat box) in
     bindE (assertE (mailLength (mailHdr l) \<le> MailMax)) (\<lambda>_.
     Inr (l, p\<lparr>boxes := (boxes p)[nat box := tl (boxes p ! nat box)]\<rparr>)))"

section \<open>Machines and sockets\<close>

text \<open>\<open>sentTo\<close> and \<open>received\<close> are histories that nothing reads.\<close>

record world =
  office :: "int \<Rightarrow> post"
  sock :: "int \<Rightarrow> packet list"
  sentTo :: "int \<Rightarrow> letter list"
  received :: "int \<Rightarrow> int \<Rightarrow> letter list"

text \<open>
  The moves of machine \<open>i\<close>: a thread that has the data of \<open>Send\<close> and takes the lock (the flags say whether the network loses the packet and whether the socket takes it); the interrupt that a packet is sent;
  the return from \<open>Send\<close>; the interrupt that polls; the two halves of the worker's round; \<open>Receive\<close>.
\<close>

datatype net_event = ESend int PacketHeader MailHeader "byte list" bool bool | ESent int | EReturn int | EPoll int | EWake int
  | EDeliver int | EReceive int int

fun enabled :: "net_event \<Rightarrow> world \<Rightarrow> bool" where
  "enabled (ESend i ph mh data lost ok) w \<longleftrightarrow> \<not> sendLock (office w i)"
| "enabled (ESent i) w \<longleftrightarrow> 0 < sendPending (net (office w i))"
| "enabled (EReturn i) w \<longleftrightarrow> 0 < messageSent (office w i)"
| "enabled (EPoll i) w \<longleftrightarrow> True"
| "enabled (EWake i) w \<longleftrightarrow> \<not> workerBusy (office w i) \<and> 0 < messageAvailable (office w i)"
| "enabled (EDeliver i) w \<longleftrightarrow> workerBusy (office w i)"
| "enabled (EReceive i box) w \<longleftrightarrow> \<not> (0 \<le> box \<and> box < numBoxes (office w i)) \<or> boxes (office w i) ! nat box \<noteq> []"

definition set_office :: "int \<Rightarrow> post \<Rightarrow> world \<Rightarrow> world" where
  "set_office i p w = w\<lparr>office := (office w)(i := p)\<rparr>"

fun do_event :: "net_event \<Rightarrow> world \<Rightarrow> fault + world" where
  "do_event (ESend i ph mh data lost ok) w =
     bindE (PostOffice_Send lost ph mh data (office w i)) (\<lambda>(out, p).
     let w1 = set_office i p w in
     case out of
       None \<Rightarrow> Inr w1
     | Some (h, bs) \<Rightarrow>
         if ok then
           Inr (w1\<lparr>sock := (sock w)(pktTo h := sock w (pktTo h) @ [(h, bs)]),
             sentTo := (sentTo w)(pktTo h := sentTo w (pktTo h) @
               [\<lparr>pktHdr = h, mailHdr = mh, letterData = take (nat (mailLength mh)) data\<rparr>])\<rparr>)
         else Inr w1)"
| "do_event (ESent i) w = (let p = office w i in Inr (set_office i (PacketSent (p\<lparr>net := SendDone (net p)\<rparr>)) w))"
| "do_event (EReturn i) w = Inr (set_office i (Send_return (office w i)) w)"
| "do_event (EPoll i) w =
     (let p = office w i in
      bindE (CheckPktAvail (sock w i) (net p)) (\<lambda>(arrived, rest, n).
      let p1 = p\<lparr>net := n\<rparr> in
      Inr (set_office i (if arrived then IncomingPacket p1 else p1) (w\<lparr>sock := (sock w)(i := rest)\<rparr>))))"
| "do_event (EWake i) w =
     (let p = office w i in Inr (set_office i (p\<lparr>messageAvailable := messageAvailable p - 1, workerBusy := True\<rparr>) w))"
| "do_event (EDeliver i) w = bindE (PostalDelivery (office w i)) (\<lambda>p. Inr (set_office i p w))"
| "do_event (EReceive i box) w =
     bindE (PostOffice_Receive box (office w i)) (\<lambda>(l, p).
     Inr ((set_office i p w)\<lparr>received := (received w)(i := (received w i)(box := received w i box @ [l]))\<rparr>))"

text \<open>A thread or worker that has to wait does nothing.\<close>

fun net_run :: "net_event list \<Rightarrow> world \<Rightarrow> fault + world" where
  "net_run [] w = Inr w"
| "net_run (e # es) w = bindE (if enabled e w then do_event e w else Inr w) (net_run es)"

section \<open>Invariant\<close>

text \<open>What a packet says, and packets that the receiving post office accepts.\<close>

definition letter_of :: "packet \<Rightarrow> letter" where
  "letter_of pk = (let (h, bs) = pk; mh = bytes_mail_header bs in
     \<lparr>pktHdr = h, mailHdr = mh, letterData = take (nat (mailLength mh)) (drop 12 bs)\<rparr>)"

definition packet_ok :: "int \<Rightarrow> int \<Rightarrow> packet \<Rightarrow> bool" where
  "packet_ok nb i pk \<longleftrightarrow> (let (h, bs) = pk; mh = bytes_mail_header bs in
     pktTo h = i \<and> 0 \<le> mailLength mh \<and> mailLength mh \<le> 40 \<and> pktLength h = mailLength mh + 12 \<and>
     length bs = nat (pktLength h) \<and> 0 \<le> boxTo mh \<and> boxTo mh < nb)"

text \<open>The packet that the device has buffered, and those that are still to be delivered on a machine.\<close>

definition buffered :: "network \<Rightarrow> packet list" where
  "buffered n = (if pktLength (inHdr n) \<noteq> 0 then [(inHdr n, take (nat (pktLength (inHdr n))) (inbox n))] else [])"

definition on_way :: "world \<Rightarrow> int \<Rightarrow> packet list" where
  "on_way w i = buffered (net (office w i)) @ sock w i"

definition office_ok :: "int \<Rightarrow> int \<Rightarrow> post \<Rightarrow> bool" where
  "office_ok nb i p \<longleftrightarrow> netAddr p = i \<and> ident (net p) = i \<and> numBoxes p = nb \<and> length (boxes p) = nat nb \<and>
     \<not> sendBusy (net p) \<and> length (inbox (net p)) = 52 \<and> length (workerBuffer p) = 52 \<and>
     messageAvailable p + (if workerBusy p then 1 else 0) = length (buffered (net p)) \<and>
     sendPending (net p) + messageSent p = (if sendLock p then 1 else 0) \<and>
     list_all (packet_ok nb i) (buffered (net p)) \<and>
     (\<forall>b. 0 \<le> b \<and> b < nb \<longrightarrow> list_all (\<lambda>l. mailLength (mailHdr l) \<le> 40) (boxes p ! nat b))"

definition in_box :: "int \<Rightarrow> letter list \<Rightarrow> letter list" where
  "in_box b ls = filter (\<lambda>l. boxTo (mailHdr l) = b) ls"

definition net_inv :: "int \<Rightarrow> world \<Rightarrow> bool" where
  "net_inv nb w \<longleftrightarrow> (\<forall>i. office_ok nb i (office w i) \<and> list_all (packet_ok nb i) (sock w i) \<and>
     (\<forall>b. 0 \<le> b \<and> b < nb \<longrightarrow>
        in_box b (sentTo w i) = received w i b @ boxes (office w i) ! nat b @ in_box b (map letter_of (on_way w i))))"

fun legal :: "int \<Rightarrow> net_event \<Rightarrow> bool" where
  "legal nb (ESend i ph mh data lost ok) \<longleftrightarrow> 0 \<le> boxTo mh \<and> boxTo mh < nb \<and> - (2 ^ 31) \<le> boxFrom mh \<and> boxFrom mh < 2 ^ 31 \<and>
     0 \<le> mailLength mh \<and> mailLength mh \<le> MailMax \<and> mailLength mh \<le> int (length data)"
| "legal nb (EReceive i b) \<longleftrightarrow> 0 \<le> b \<and> b < nb"
| "legal nb e \<longleftrightarrow> True"

definition world_init :: "int \<Rightarrow> byte list \<Rightarrow> world" where
  "world_init nb garbage = \<lparr>office = (\<lambda>i. PostOffice_new i nb garbage), sock = (\<lambda>_. []), sentTo = (\<lambda>_. []), received = (\<lambda>_ _. [])\<rparr>"

lemma sizes [simp]: "MailMax = 40" "MaxPacketSize = 52"
  by (simp_all add: MailMax_def MaxPacketSize_def MaxWireSize_def)

lemma sint_small_int: "- (2 ^ 31) \<le> i \<Longrightarrow> i < 2 ^ 31 \<Longrightarrow> sint (word_of_int i :: 32 word) = i"
  by (simp add: sint_sbintrunc' signed_take_bit_int_eq_self)

lemma mail_header_roundtrip:
  assumes "- (2 ^ 31) \<le> boxTo h" "boxTo h < 2 ^ 31" "- (2 ^ 31) \<le> boxFrom h" "boxFrom h < 2 ^ 31" "0 \<le> mailLength h" "mailLength h < 2 ^ 32"
  shows "bytes_mail_header (mail_header_bytes h @ bs) = h"
proof -
  have "uint (word_of_int (mailLength h) :: 32 word) = mailLength h" using assms(5,6) by (simp add: uint_word_of_int)
  then show ?thesis using assms sint_small_int
    by (simp add: bytes_mail_header_def mail_header_bytes_def read_written_4)
qed

lemma mail_header_bytes_length [simp]: "length (mail_header_bytes h) = 12"
  by (simp add: mail_header_bytes_def)

lemma net_inv_init: "0 \<le> nb \<Longrightarrow> length garbage = 52 \<Longrightarrow> net_inv nb (world_init nb garbage)"
  by (simp add: net_inv_def world_init_def office_ok_def PostOffice_new_def Network_new_def buffered_def on_way_def in_box_def nat_less_iff)

text \<open>An event of machine \<open>i\<close> that sends nothing only concerns that machine.\<close>

lemma net_inv_local:
  assumes "net_inv nb w" "office_ok nb i p"
    "\<And>b. 0 \<le> b \<Longrightarrow> b < nb \<Longrightarrow> rcv b @ boxes p ! nat b @ in_box b (map letter_of (buffered (net p) @ rest)) =
       received w i b @ boxes (office w i) ! nat b @ in_box b (map letter_of (on_way w i))"
    "list_all (packet_ok nb i) rest"
  shows "net_inv nb \<lparr>office = (office w)(i := p), sock = (sock w)(i := rest), sentTo = sentTo w, received = (received w)(i := rcv)\<rparr>"
  unfolding net_inv_def
proof (intro allI conjI impI)
  let ?w = "\<lparr>office = (office w)(i := p), sock = (sock w)(i := rest), sentTo = sentTo w, received = (received w)(i := rcv)\<rparr>"
  fix j b
  show "office_ok nb j (office ?w j)" using assms(1,2) by (simp add: net_inv_def)
  show "list_all (packet_ok nb j) (sock ?w j)" using assms(1,4) by (simp add: net_inv_def)
  assume "0 \<le> b \<and> b < nb"
  then show "in_box b (sentTo ?w j) = received ?w j b @ boxes (office ?w j) ! nat b @ in_box b (map letter_of (on_way ?w j))"
    using assms(1) assms(3) [of b] by (cases "j = i") (simp_all add: net_inv_def on_way_def)
qed

lemma world_eq:
  "set_office i p w = \<lparr>office = (office w)(i := p), sock = (sock w)(i := sock w i), sentTo = sentTo w, received = (received w)(i := received w i)\<rparr>"
  by (simp add: set_office_def)

text \<open>Nothing is sent or received.\<close>

definition same_log :: "world \<Rightarrow> world \<Rightarrow> bool" where
  "same_log w w' \<longleftrightarrow> sentTo w' = sentTo w \<and> received w' = received w"

lemma inv_office: "net_inv nb w \<Longrightarrow> office_ok nb i (office w i)"
  by (simp add: net_inv_def)

lemma inv_sock: "net_inv nb w \<Longrightarrow> list_all (packet_ok nb i) (sock w i)"
  by (simp add: net_inv_def)

lemma sent_ok:
  assumes "net_inv nb w" "0 < sendPending (net (office w i))"
  shows "\<exists>w'. do_event (ESent i) w = Inr w' \<and> net_inv nb w'"
proof -
  let ?p = "PacketSent ((office w i)\<lparr>net := SendDone (net (office w i))\<rparr>)"
  have "office_ok nb i ?p" using inv_office [OF assms(1), of i] assms(2)
    by (auto simp: office_ok_def PacketSent_def SendDone_def buffered_def split: if_splits)
  then have "net_inv nb (set_office i ?p w)" unfolding world_eq
    by (rule net_inv_local [OF assms(1)]) (use inv_sock [OF assms(1)] in \<open>simp_all add: on_way_def PacketSent_def SendDone_def buffered_def\<close>)
  then show ?thesis by (simp add: Let_def)
qed

lemma return_ok:
  assumes "net_inv nb w" "0 < messageSent (office w i)"
  shows "\<exists>w'. do_event (EReturn i) w = Inr w' \<and> net_inv nb w'"
proof -
  let ?p = "Send_return (office w i)"
  have "office_ok nb i ?p" using inv_office [OF assms(1), of i] assms(2)
    by (auto simp: office_ok_def Send_return_def split: if_splits)
  then have "net_inv nb (set_office i ?p w)" unfolding world_eq
    by (rule net_inv_local [OF assms(1)]) (use inv_sock [OF assms(1)] in \<open>simp_all add: on_way_def Send_return_def\<close>)
  then show ?thesis by simp
qed

lemma wake_ok:
  assumes "net_inv nb w" "\<not> workerBusy (office w i)" "0 < messageAvailable (office w i)"
  shows "\<exists>w'. do_event (EWake i) w = Inr w' \<and> net_inv nb w' \<and> on_way w' i = on_way w i \<and> same_log w w' \<and>
    buffered (net (office w' i)) = buffered (net (office w i)) \<and> workerBusy (office w' i)"
proof -
  let ?p = "(office w i)\<lparr>messageAvailable := messageAvailable (office w i) - 1, workerBusy := True\<rparr>"
  have "office_ok nb i ?p" using inv_office [OF assms(1), of i] assms(2,3)
    by (auto simp: office_ok_def split: if_splits)
  then have "net_inv nb (set_office i ?p w)" unfolding world_eq
    by (rule net_inv_local [OF assms(1)]) (use inv_sock [OF assms(1)] in \<open>simp_all add: on_way_def\<close>)
  then show ?thesis by (simp add: Let_def same_log_def on_way_def set_office_def)
qed

text \<open>Polling moves a packet from the socket to the device, when that is free.\<close>

lemma poll_ok:
  assumes inv: "net_inv nb w"
  shows "\<exists>w'. do_event (EPoll i) w = Inr w' \<and> net_inv nb w' \<and> on_way w' i = on_way w i \<and> same_log w w' \<and>
    (on_way w i \<noteq> [] \<longrightarrow> buffered (net (office w' i)) \<noteq> [])"
proof -
  let ?p = "office w i" and ?n = "net (office w i)"
  note ok = inv_office [OF inv, of i] and sk = inv_sock [OF inv, of i]
  consider "pktLength (inHdr ?n) \<noteq> 0 \<or> sock w i = []" | h data rest where "pktLength (inHdr ?n) = 0" "sock w i = (h, data) # rest"
    by (cases "sock w i") auto
  then show ?thesis
  proof cases
    case 1
    then have "CheckPktAvail (sock w i) ?n = Inr (False, sock w i, ?n)" by (auto simp: CheckPktAvail_def)
    then have "do_event (EPoll i) w = Inr w" by (simp add: set_office_def)
    moreover have "on_way w i \<noteq> [] \<longrightarrow> buffered ?n \<noteq> []" using 1 by (auto simp: on_way_def buffered_def)
    ultimately show ?thesis using inv by (simp add: same_log_def)
  next
    case 2
    then have pk: "packet_ok nb i (h, data)" using sk by simp
    then have h: "pktTo h = i" "pktLength h \<le> 52" "pktLength h \<noteq> 0" "length data = nat (pktLength h)" "length data \<le> 52"
      by (auto simp: packet_ok_def Let_def)
    let ?n1 = "?n\<lparr>inHdr := h, inbox := store_bytes 0 data (inbox ?n), packetsRecvd := packetsRecvd ?n + 1\<rparr>"
    let ?p1 = "IncomingPacket (?p\<lparr>net := ?n1\<rparr>)"
    have "CheckPktAvail (sock w i) ?n = Inr (True, rest, ?n1)"
      using 2 h ok by (simp add: CheckPktAvail_def office_ok_def)
    then have run: "do_event (EPoll i) w = Inr \<lparr>office = (office w)(i := ?p1), sock = (sock w)(i := rest), sentTo = sentTo w,
        received = (received w)(i := received w i)\<rparr>" by (simp add: set_office_def Let_def)
    have b0: "buffered ?n = []" using 2(1) by (simp add: buffered_def)
    have b1: "buffered ?n1 = [(h, data)]" using h(3,4) by (simp add: buffered_def store_bytes_def)
    have "length (inbox ?n1) = 52" using ok h(5) by (simp add: office_ok_def)
    then have "office_ok nb i ?p1" using ok b0 b1 pk by (auto simp: office_ok_def IncomingPacket_def)
    moreover have "buffered (net ?p1) @ rest = on_way w i" using b0 b1 2(2) by (simp add: on_way_def IncomingPacket_def)
    ultimately have "net_inv nb \<lparr>office = (office w)(i := ?p1), sock = (sock w)(i := rest), sentTo = sentTo w,
        received = (received w)(i := received w i)\<rparr>"
      by (intro net_inv_local [OF inv]) (use sk 2(2) in \<open>simp_all add: IncomingPacket_def\<close>)
    then show ?thesis using run b0 b1 2(2) by (auto simp: same_log_def on_way_def IncomingPacket_def)
  qed
qed

text \<open>The worker puts the buffered packet into its box.\<close>

lemma take_append_store: "length bs \<le> length mem \<Longrightarrow> take (length bs) (store_bytes 0 bs mem) = bs"
  by (simp add: store_bytes_def)

lemma bytes_mail_header_append: "12 \<le> length bs \<Longrightarrow> bytes_mail_header (bs @ r) = bytes_mail_header bs"
  by (simp add: bytes_mail_header_def)

lemma delivery:
  assumes ok: "office_ok nb i p" and busy: "workerBusy p"
  defines "l \<equiv> letter_of (hd (buffered (net p)))"
  obtains p' where "PostalDelivery p = Inr p'" "office_ok nb i p'" "buffered (net p') = []" "length (buffered (net p)) = 1"
    "boxes p' = (boxes p)[nat (boxTo (mailHdr l)) := boxes p ! nat (boxTo (mailHdr l)) @ [l]]"
    "0 \<le> boxTo (mailHdr l)" "boxTo (mailHdr l) < nb" "workerBusy p' = False" "messageAvailable p' = messageAvailable p"
proof -
  let ?n = "net p"
  let ?h = "inHdr ?n" 
  define bs where "bs = take (nat (pktLength ?h)) (inbox ?n)"
  have one: "length (buffered ?n) = 1" using ok busy by (auto simp: office_ok_def buffered_def split: if_splits)
  then have nz: "pktLength ?h \<noteq> 0" and b: "buffered ?n = [(?h, bs)]" by (auto simp: buffered_def bs_def split: if_splits)
  then have pk: "packet_ok nb i (?h, bs)" using ok by (simp add: office_ok_def)
  let ?mh = "bytes_mail_header bs"
  have mh: "0 \<le> mailLength ?mh" "mailLength ?mh \<le> 40" "pktLength ?h = mailLength ?mh + 12" "length bs = nat (mailLength ?mh) + 12"
     "0 \<le> boxTo ?mh" "boxTo ?mh < nb" using pk by (simp_all add: packet_ok_def Let_def nat_add_distrib)
  let ?buf = "store_bytes 0 bs (workerBuffer p)"
  have lb: "length bs \<le> length (workerBuffer p)" "length ?buf = 52" using ok mh(2,4) by (simp_all add: office_ok_def)
  have buf: "?buf = bs @ drop (length bs) (workerBuffer p)" by (simp add: store_bytes_def)
  have "12 \<le> length bs" unfolding mh(4) by simp
  from bytes_mail_header_append [OF this] have hb: "bytes_mail_header ?buf = ?mh" unfolding buf .
  have db: "take (nat (mailLength ?mh)) (drop 12 ?buf) = take (nat (mailLength ?mh)) (drop 12 bs)" unfolding buf using mh(4) by simp
  let ?n1 = "?n\<lparr>inHdr := ?h\<lparr>pktLength := 0\<rparr>\<rparr>"
  have recv: "Network_Receive (workerBuffer p) ?n = (?h, ?buf, ?n1)" using nz by (simp add: Network_Receive_def bs_def Let_def)
  let ?l = "\<lparr>pktHdr = ?h, mailHdr = ?mh, letterData = take (nat (mailLength ?mh)) (drop 12 bs)\<rparr>"
  have l: "l = ?l" unfolding l_def b by (simp add: letter_of_def Let_def)
  let ?p = "p\<lparr>net := ?n1, boxes := (boxes p)[nat (boxTo ?mh) := boxes p ! nat (boxTo ?mh) @ [?l]], workerBusy := False, workerBuffer := ?buf\<rparr>"
  have run: "PostalDelivery p = Inr ?p"
    using recv hb mh(2,5,6) db ok by (simp add: PostalDelivery_def MailBox_Put_def Mail_new_def office_ok_def Let_def)
  have b0: "buffered ?n1 = []" by (simp add: buffered_def)
  have "office_ok nb i ?p" 
    using ok busy one b0 lb(2) mh(2,5,6) by (auto simp: office_ok_def nth_list_update nat_eq_iff split: if_splits)
  then show ?thesis
    by (rule that [OF run]) (use b0 one l mh(5,6) in simp_all)
qed

lemma deliver_ok:
  assumes inv: "net_inv nb w" and busy: "workerBusy (office w i)"
  shows "\<exists>w'. do_event (EDeliver i) w = Inr w' \<and> net_inv nb w' \<and> on_way w' i = tl (on_way w i) \<and> same_log w w'"
proof -
  let ?p = "office w i"
  let ?l = "letter_of (hd (buffered (net ?p)))"
  obtain p' where p': "PostalDelivery ?p = Inr p'" "office_ok nb i p'" "buffered (net p') = []" "length (buffered (net ?p)) = 1"
    "boxes p' = (boxes ?p)[nat (boxTo (mailHdr ?l)) := boxes ?p ! nat (boxTo (mailHdr ?l)) @ [?l]]"
    "0 \<le> boxTo (mailHdr ?l)" "boxTo (mailHdr ?l) < nb" by (rule delivery [OF inv_office [OF inv] busy]) blast
  have b: "buffered (net ?p) = [hd (buffered (net ?p))]" using p'(4) by (cases "buffered (net ?p)") auto
  have len: "length (boxes ?p) = nat nb" using inv_office [OF inv, of i] by (simp add: office_ok_def)
  have fifo: "boxes p' ! nat b @ in_box b (map letter_of (buffered (net p') @ sock w i)) =
      boxes ?p ! nat b @ in_box b (map letter_of (on_way w i))" if "0 \<le> b" "b < nb" for b
    using p'(3,5,6,7) that len unfolding on_way_def by (subst b) (auto simp: in_box_def nth_list_update nat_eq_iff)
  have "net_inv nb (set_office i p' w)" unfolding world_eq
    by (rule net_inv_local [OF inv p'(2)]) (use fifo inv_sock [OF inv] in auto)
  moreover have "on_way (set_office i p' w) i = tl (on_way w i)" 
    using p'(3,4) by (cases "buffered (net ?p)") (simp_all add: on_way_def set_office_def)
  ultimately show ?thesis using p'(1) by (simp add: same_log_def set_office_def)
qed

lemma receive_ok:
  assumes inv: "net_inv nb w" and b: "0 \<le> b" "b < nb" "boxes (office w i) ! nat b \<noteq> []"
  shows "\<exists>w'. do_event (EReceive i b) w = Inr w' \<and> net_inv nb w'"
proof -
  let ?p = "office w i"
  note ok = inv_office [OF inv, of i]
  obtain l ls where l: "boxes ?p ! nat b = l # ls" using b(3) by (cases "boxes ?p ! nat b") auto
  have ml: "mailLength (mailHdr l) \<le> 40" "list_all (\<lambda>l. mailLength (mailHdr l) \<le> 40) ls"
    using ok b l by (auto simp: office_ok_def)
  let ?p1 = "?p\<lparr>boxes := (boxes ?p)[nat b := ls]\<rparr>"
  have run: "do_event (EReceive i b) w = Inr \<lparr>office = (office w)(i := ?p1), sock = (sock w)(i := sock w i), sentTo = sentTo w,
      received = (received w)(i := (received w i)(b := received w i b @ [l]))\<rparr>"
    using b ok l ml by (simp add: PostOffice_Receive_def office_ok_def set_office_def)
  have "office_ok nb i ?p1" using ok ml(2) b by (auto simp: office_ok_def nth_list_update)
  then have "net_inv nb \<lparr>office = (office w)(i := ?p1), sock = (sock w)(i := sock w i), sentTo = sentTo w,
      received = (received w)(i := (received w i)(b := received w i b @ [l]))\<rparr>"
    by (rule net_inv_local [OF inv])
      (use inv_sock [OF inv] l ok b in \<open>auto simp: on_way_def nth_list_update nat_eq_iff office_ok_def\<close>)
  then show ?thesis using run by blast
qed

text \<open>Sending: the packet goes behind the others of its destination.\<close>

lemma net_inv_append:
  assumes "net_inv nb w" "packet_ok nb j pk"
  shows "net_inv nb (w\<lparr>sock := (sock w)(j := sock w j @ [pk]), sentTo := (sentTo w)(j := sentTo w j @ [letter_of pk])\<rparr>)"
  using assms by (auto simp: net_inv_def on_way_def in_box_def)

lemma Network_Send_ok:
  "\<not> sendBusy n \<Longrightarrow> 0 < pktLength h \<Longrightarrow> pktLength h \<le> 52 \<Longrightarrow> pktFrom h = ident n \<Longrightarrow> length bs = nat (pktLength h) \<Longrightarrow>
   Network_Send lost h bs n = Inr (if lost then None else Some (h, bs), n\<lparr>sendPending := sendPending n + 1\<rparr>)"
  by (simp add: Network_Send_def)

lemma send_ok:
  assumes inv: "net_inv nb w" and nb: "nb \<le> 2 ^ 31" and e: "legal nb (ESend i ph mh data lost taken)" and free: "\<not> sendLock (office w i)"
  shows "\<exists>w'. do_event (ESend i ph mh data lost taken) w = Inr w' \<and> net_inv nb w'"
proof -
  let ?p = "office w i"
  note ok = inv_office [OF inv, of i]
  from e have mh: "0 \<le> boxTo mh" "boxTo mh < nb" "- (2 ^ 31) \<le> boxFrom mh" "boxFrom mh < 2 ^ 31" "0 \<le> mailLength mh"
    "mailLength mh \<le> 40" "nat (mailLength mh) \<le> length data" by (simp_all add: nat_le_iff)
  let ?d = "take (nat (mailLength mh)) data"
  let ?bs = "mail_header_bytes mh @ ?d"
  let ?h = "ph\<lparr>pktFrom := i, pktLength := mailLength mh + 12\<rparr>"
  have len: "length ?bs = nat (mailLength mh + 12)" using mh(5,7) by simp
  have ml: "mailLength mh < 2 ^ 32" "- (2 ^ 31) \<le> boxTo mh" using mh(1,6) by simp_all
  have rt: "bytes_mail_header ?bs = mh" by (rule mail_header_roundtrip) (use mh nb ml in linarith)+
  have pk: "packet_ok nb (pktTo ph) (?h, ?bs)" using mh len rt unfolding packet_ok_def Let_def by simp
  have lt: "letter_of (?h, ?bs) = \<lparr>pktHdr = ?h, mailHdr = mh, letterData = ?d\<rparr>"
    unfolding letter_of_def Let_def by (simp add: rt)
  let ?n1 = "(net ?p)\<lparr>sendPending := sendPending (net ?p) + 1\<rparr>"
  let ?p1 = "?p\<lparr>net := ?n1, sendLock := True\<rparr>"
  have "office_ok nb i ?p1" using ok free by (auto simp: office_ok_def buffered_def)
  then have inv1: "net_inv nb (set_office i ?p1 w)" unfolding world_eq
    by (rule net_inv_local [OF inv]) (use inv_sock [OF inv] in \<open>simp_all add: on_way_def buffered_def\<close>)
  have "Network_Send lost ?h ?bs (net ?p) = Inr (if lost then None else Some (?h, ?bs), ?n1)"
    by (rule Network_Send_ok) (use ok mh(5,6) len in \<open>simp_all add: office_ok_def\<close>)
  then have "PostOffice_Send lost ph mh data ?p = Inr (if lost then None else Some (?h, ?bs), ?p1)"
    using ok mh by (simp add: PostOffice_Send_def office_ok_def)
  then have run: "do_event (ESend i ph mh data lost taken) w = Inr (if lost \<or> \<not> taken then set_office i ?p1 w
      else (set_office i ?p1 w)\<lparr>sock := (sock w)(pktTo ph := sock w (pktTo ph) @ [(?h, ?bs)]),
        sentTo := (sentTo w)(pktTo ph := sentTo w (pktTo ph) @ [letter_of (?h, ?bs)])\<rparr>)"
    using lt by simp
  show ?thesis
    using net_inv_append [OF inv1 pk] inv1 unfolding run by (simp add: set_office_def)
qed

lemma event_ok:
  assumes "net_inv nb w" "nb \<le> 2 ^ 31" "legal nb e" "enabled e w"
  shows "\<exists>w'. do_event e w = Inr w' \<and> net_inv nb w'"
proof (cases e)
  case (ESend i ph mh data lost taken)
  then show ?thesis using send_ok assms by (simp del: do_event.simps legal.simps)
next
  case (EReceive i b)
  then show ?thesis using receive_ok [OF assms(1)] assms(3,4) inv_office [OF assms(1), of i] by (auto simp: office_ok_def simp del: do_event.simps)
qed (use sent_ok return_ok poll_ok wake_ok deliver_ok assms in \<open>simp_all del: do_event.simps\<close>, blast+)

lemma run_ok:
  assumes "nb \<le> 2 ^ 31"
  shows "net_inv nb w \<Longrightarrow> list_all (legal nb) es \<Longrightarrow> \<exists>w'. net_run es w = Inr w' \<and> net_inv nb w'"
proof (induction es arbitrary: w)
  case Nil
  then show ?case by simp
next
  case (Cons e es)
  then show ?case using event_ok [OF _ assms, of w e] by (cases "enabled e w") auto
qed

section \<open>Progress\<close>

definition deliver_round :: "int \<Rightarrow> net_event list" where
  "deliver_round i = [EPoll i, EWake i, EDeliver i]"

lemma round_ok:
  assumes inv: "net_inv nb w"
  shows "\<exists>w'. net_run (deliver_round i) w = Inr w' \<and> net_inv nb w' \<and> on_way w' i = tl (on_way w i) \<and> same_log w w'"
proof -
  from poll_ok [OF inv, of i] obtain w1 where w1: "do_event (EPoll i) w = Inr w1" "net_inv nb w1" "on_way w1 i = on_way w i"
    "same_log w w1" "on_way w i \<noteq> [] \<Longrightarrow> buffered (net (office w1 i)) \<noteq> []" by blast
  let ?p = "office w1 i"
  have sem: "messageAvailable ?p + (if workerBusy ?p then 1 else 0) = length (buffered (net ?p))"
    using inv_office [OF w1(2), of i] by (simp add: office_ok_def)
  show ?thesis
  proof (cases "buffered (net ?p) = []")
    case True
    then have "on_way w i = []" using w1(5) by blast
    moreover have "\<not> enabled (EWake i) w1" "\<not> enabled (EDeliver i) w1" using sem True by (auto split: if_splits)
    ultimately show ?thesis using w1 by (simp add: deliver_round_def del: do_event.simps enabled.simps) simp
  next
    case False
    then have "0 < length (buffered (net ?p))" by simp
    then have en: "workerBusy ?p \<or> 0 < messageAvailable ?p" using sem by (auto split: if_splits)
    have "\<exists>w2. (if enabled (EWake i) w1 then do_event (EWake i) w1 else Inr w1) = Inr w2 \<and> net_inv nb w2 \<and>
        on_way w2 i = on_way w1 i \<and> same_log w1 w2 \<and> workerBusy (office w2 i)"
    proof (cases "workerBusy ?p")
      case True
      then show ?thesis using w1(2) by (simp add: same_log_def)
    next
      case False
      then show ?thesis using wake_ok [OF w1(2) False] en by (auto simp del: do_event.simps)
    qed
    then obtain w2 where w2: "(if enabled (EWake i) w1 then do_event (EWake i) w1 else Inr w1) = Inr w2" "net_inv nb w2"
        "on_way w2 i = on_way w1 i" "same_log w1 w2" "workerBusy (office w2 i)" by blast
    from deliver_ok [OF w2(2,5)] obtain w3 where w3: "do_event (EDeliver i) w2 = Inr w3" "net_inv nb w3"
      "on_way w3 i = tl (on_way w2 i)" "same_log w2 w3" by blast
    have "enabled (EPoll i) w" "enabled (EDeliver i) w2" using w2(5) by simp_all
    then have "net_run (deliver_round i) w = Inr w3"
      by (simp only: deliver_round_def net_run.simps w1(1) w2(1) w3(1) bindE_Inr if_True)
    then show ?thesis using w1 w2 w3 by (auto simp: same_log_def)
  qed
qed

lemma net_run_append: "net_run (es @ fs) w = bindE (net_run es w) (net_run fs)"
  by (induction es arbitrary: w) (auto simp: bindE_def split: sum.split)

lemma rounds_ok:
  "net_inv nb w \<Longrightarrow> \<exists>w'. net_run (concat (replicate n (deliver_round i))) w = Inr w' \<and> net_inv nb w' \<and>
     on_way w' i = drop n (on_way w i) \<and> same_log w w'"
proof (induction n arbitrary: w)
  case 0
  then show ?case by (simp add: same_log_def)
next
  case (Suc n)
  from round_ok [OF Suc.prems, of i] obtain w1 where w1: "net_run (deliver_round i) w = Inr w1" "net_inv nb w1"
    "on_way w1 i = tl (on_way w i)" "same_log w w1" by blast
  from Suc.IH [OF w1(2)] w1 show ?case by (auto simp: net_run_append same_log_def drop_Suc)
qed

section \<open>Properties\<close>

text \<open>
  C29 However sends, interrupts, the postal worker and receives of any number of machines follow each
  other, no assertion of network and post office fails, and for every mailbox the letters that the
  network accepted are, in this order, those already received, those waiting in the box, and those on
  their way: nothing is duplicated, reordered, overwritten in the device or put into another box.
\<close>

theorem post_fifo:
  assumes "0 \<le> nb" "nb \<le> 2 ^ 31" "length garbage = nat MaxPacketSize" "list_all (legal nb) es"
  shows "\<exists>w. net_run es (world_init nb garbage) = Inr w \<and>
    (\<forall>i b. 0 \<le> b \<and> b < nb \<longrightarrow>
       in_box b (sentTo w i) = received w i b @ boxes (office w i) ! nat b @ in_box b (map letter_of (on_way w i)))"
proof -
  have "length garbage = 52" using assms(3) by simp
  from run_ok [OF assms(2) net_inv_init [OF assms(1) this] assms(4)] show ?thesis by (auto simp: net_inv_def)
qed

text \<open>
  C30 Whatever has happened, a letter that is on its way does arrive: as many rounds of poll, wake-up and
  delivery as there are packets for the machine put every letter that was sent to it into its box.  And a
  thread in the middle of \<open>Send\<close> returns and frees the lock as soon as the interrupt has come.
\<close>

theorem post_delivers:
  assumes "0 \<le> nb" "nb \<le> 2 ^ 31" "length garbage = nat MaxPacketSize" "list_all (legal nb) es"
    "net_run es (world_init nb garbage) = Inr w"
  shows "(\<exists>w'. net_run (concat (replicate (length (on_way w i)) [EPoll i, EWake i, EDeliver i])) w = Inr w' \<and>
      (\<forall>b. 0 \<le> b \<and> b < nb \<longrightarrow> received w' i b = received w i b \<and>
         received w i b @ boxes (office w' i) ! nat b = in_box b (sentTo w i))) \<and>
    (\<exists>w'. net_run [ESent i, EReturn i] w = Inr w' \<and> \<not> sendLock (office w' i))"
proof -
  have "length garbage = 52" using assms(3) by simp
  from run_ok [OF assms(2) net_inv_init [OF assms(1) this] assms(4)] assms(5) have inv: "net_inv nb w" by simp
  from rounds_ok [OF inv, of "length (on_way w i)" i] obtain w1 where
    w1: "net_run (concat (replicate (length (on_way w i)) (deliver_round i))) w = Inr w1" "net_inv nb w1" "on_way w1 i = []"
     "same_log w w1" by auto
  have "received w1 i b = received w i b \<and> received w i b @ boxes (office w1 i) ! nat b = in_box b (sentTo w i)"
    if b: "0 \<le> b \<and> b < nb" for b
  proof -
    have "in_box b (sentTo w1 i) = received w1 i b @ boxes (office w1 i) ! nat b @ in_box b (map letter_of (on_way w1 i))"
      using w1(2) b unfolding net_inv_def by blast
    then show ?thesis using w1(3,4) by (simp add: same_log_def in_box_def)
  qed
  moreover have "\<exists>w'. net_run [ESent i, EReturn i] w = Inr w' \<and> \<not> sendLock (office w' i)"
    using inv_office [OF inv, of i]
    by (auto simp: office_ok_def set_office_def PacketSent_def SendDone_def Send_return_def Let_def split: if_splits)
  ultimately show ?thesis using w1(1) unfolding deliver_round_def by blast
qed

text \<open>
  \<open>sendBusy\<close> is never set, so that the assertion on it in \<open>Send\<close> says nothing; it is the lock of the post
  office that keeps two packets apart.  \<open>PseudoSend\<close> fails in the network for every sender but the own
  machine.
\<close>

lemma send_not_busy: "Network_Send lost h data n = Inr (out, n') \<Longrightarrow> \<not> sendBusy n \<and> \<not> sendBusy n'"
  by (auto simp: Network_Send_def bindE_eq_Inr assertE_def Let_def split: if_splits)

lemma pseudo_send_fails:
  assumes "mailLength mh \<le> MailMax" "0 \<le> boxTo mh" "boxTo mh < numBoxes p" "nat (mailLength mh) \<le> length data"
    "pktFrom ph \<noteq> ident (net p)"
  shows "PostOffice_PseudoSend lost ph mh data p = Inl AssertFailed"
  using assms by (simp add: PostOffice_PseudoSend_def Network_Send_def assertE_def)

section \<open>Witnesses\<close>

text \<open>Machine 3 sends two letters to box 1 of machine 5, which receives one.\<close>

definition events1 :: "net_event list" where
  "events1 = (let ph = \<lparr>pktTo = 5, pktFrom = 0, pktLength = 0\<rparr>; mh = \<lparr>boxTo = 1, boxFrom = 0, mailLength = 2\<rparr> in
     [ESend 3 ph mh [65, 66] False True, ESent 3, EReturn 3, EPoll 5, ESend 3 ph mh [67, 68] False True,
      EWake 5, EDeliver 5, EReceive 5 1])"

lemma events1_legal: "list_all (legal 2) events1"
  by (simp add: events1_def Let_def)

theorem post_fifo_witness:
  "\<exists>w. net_run events1 (world_init 2 (replicate 52 0)) = Inr w \<and>
     in_box 1 (sentTo w 5) = received w 5 1 @ boxes (office w 5) ! 1 @ in_box 1 (map letter_of (on_way w 5))"
proof -
  from post_fifo [where nb = 2 and garbage = "replicate 52 0", OF _ _ _ events1_legal] obtain w where
    "net_run events1 (world_init 2 (replicate 52 0)) = Inr w"
    "\<forall>i b. 0 \<le> b \<and> b < 2 \<longrightarrow> in_box b (sentTo w i) = received w i b @ boxes (office w i) ! nat b @ in_box b (map letter_of (on_way w i))"
    by auto
  then show ?thesis by (intro exI [of _ w]) (simp add: allE [of _ 1])
qed

theorem post_delivers_witness:
  "\<exists>w. net_run events1 (world_init 2 (replicate 52 0)) = Inr w \<and>
     (\<exists>w'. net_run [ESent 3, EReturn 3] w = Inr w' \<and> \<not> sendLock (office w' 3))"
proof -
  have g: "length (replicate 52 (0::byte)) = nat MaxPacketSize" by simp
  from run_ok [of 2, OF _ net_inv_init events1_legal, of "replicate 52 0"] obtain w where
    w: "net_run events1 (world_init 2 (replicate 52 0)) = Inr w" by auto
  from post_delivers [where i = 3, OF _ _ g events1_legal w] show ?thesis using w by simp
qed

end
