(* ===== verification/Nachos_Interrupt.thy ===== *)
theory Nachos_Interrupt
  imports Nachos_Kernel Nachos_Disk Nachos_Post "HOL-Library.Multiset"
begin

text \<open>
  The simulated interrupts (machine/interrupt.cc), the timer (machine/timer.cc) and the interrupt
  handlers of timer, disk and network.  The list of pending interrupts is the sequence that
  \<open>Nachos_List\<close> shows the sorted pointer list to implement.  The locale \<open>device_handlers\<close> states what
  the simulation may expect of the handlers it calls through function pointers.
\<close>

section \<open>State\<close>

datatype MachineStatus = IdleMode | SystemMode | UserMode

datatype IntType = TimerInt | DiskInt | ConsoleWriteInt | ConsoleReadInt | NetworkSendInt | NetworkRecvInt

text \<open>The time \<open>when\<close> is the key of the entry in the list.\<close>

record 'h PendingInterrupt =
  handler :: 'h
  intArg :: int
  intType :: IntType

text \<open>\<open>fired\<close> is a history that nothing reads.\<close>

record ('h, 'd) interrupt =
  intLevel :: IntStatus
  pending :: "(int \<times> 'h PendingInterrupt) list"
  inHandler :: bool
  yieldOnReturn :: bool
  machineStatus :: MachineStatus
  totalTicks :: int
  idleTicks :: int
  systemTicks :: int
  userTicks :: int
  devices :: 'd
  fired :: "(int \<times> 'h PendingInterrupt) list"

type_synonym ('h, 'd) dispatch = "'h PendingInterrupt \<Rightarrow> ('h, 'd) interrupt \<Rightarrow> fault + ('h, 'd) interrupt"

definition UserTick :: int where "UserTick = 1"
definition SystemTick :: int where "SystemTick = 10"
definition NetworkTime :: int where "NetworkTime = 100"
definition TimerTicks :: int where "TimerTicks = 100"

section \<open>Operations\<close>

definition Interrupt_new :: "'d \<Rightarrow> ('h, 'd) interrupt" where
  "Interrupt_new d = \<lparr>intLevel = IntOff, pending = [], inHandler = False, yieldOnReturn = False, machineStatus = SystemMode,
     totalTicks = 0, idleTicks = 0, systemTicks = 0, userTicks = 0, devices = d, fired = []\<rparr>"

definition Schedule :: "'h \<Rightarrow> int \<Rightarrow> int \<Rightarrow> IntType \<Rightarrow> ('h, 'd) interrupt \<Rightarrow> fault + ('h, 'd) interrupt" where
  "Schedule h a fromNow ty m =
     bindE (assertE (fromNow > 0)) (\<lambda>_.
     Inr (m\<lparr>pending := sins (totalTicks m + fromNow) \<lparr>handler = h, intArg = a, intType = ty\<rparr> (pending m)\<rparr>))"

definition YieldOnReturn :: "('h, 'd) interrupt \<Rightarrow> fault + ('h, 'd) interrupt" where
  "YieldOnReturn m = bindE (assertE (inHandler m)) (\<lambda>_. Inr (m\<lparr>yieldOnReturn := True\<rparr>))"

text \<open>
  \<open>CheckIfDue\<close>; \<open>H\<close> runs the handler of an interrupt.  The delayed load of the processor, which this
  completes first, is part of \<open>Nachos_Cpu\<close>.
\<close>

definition CheckIfDue :: "('h, 'd) dispatch \<Rightarrow> bool \<Rightarrow> ('h, 'd) interrupt \<Rightarrow> fault + bool \<times> ('h, 'd) interrupt" where
  "CheckIfDue H advanceClock m =
     bindE (assertE (intLevel m = IntOff)) (\<lambda>_.
     case pending m of
       [] \<Rightarrow> Inr (False, m)
     | (w, toOccur) # rest \<Rightarrow>
         let m1 = m\<lparr>pending := rest\<rparr> in
         if \<not> advanceClock \<and> w > totalTicks m then Inr (False, m1\<lparr>pending := sins w toOccur rest\<rparr>)
         else
           let m2 = (if advanceClock \<and> w > totalTicks m
                     then m1\<lparr>idleTicks := idleTicks m + (w - totalTicks m), totalTicks := w\<rparr> else m1) in
           if machineStatus m = IdleMode \<and> intType toOccur = TimerInt \<and> rest = []
           then Inr (False, m2\<lparr>pending := sins w toOccur rest\<rparr>)
           else
             bindE (H toOccur (m2\<lparr>inHandler := True, machineStatus := SystemMode, fired := fired m @ [(w, toOccur)]\<rparr>)) (\<lambda>m3.
             Inr (True, m3\<lparr>machineStatus := machineStatus m, inHandler := False\<rparr>)))"

text \<open>The loops \<open>while (CheckIfDue(FALSE))\<close>.\<close>

partial_function (option) due_loop :: "('h, 'd) dispatch \<Rightarrow> ('h, 'd) interrupt \<Rightarrow> (fault + ('h, 'd) interrupt) option" where
  "due_loop H m = (case CheckIfDue H False m of
     Inl e \<Rightarrow> Some (Inl e)
   | Inr (again, m1) \<Rightarrow> if again then due_loop H m1 else Some (Inr m1))"

text \<open>\<open>Y\<close> is \<open>currentThread->Yield()\<close>.\<close>

definition OneTick :: "('h, 'd) dispatch \<Rightarrow> (('h, 'd) interrupt \<Rightarrow> fault + ('h, 'd) interrupt) \<Rightarrow> ('h, 'd) interrupt \<Rightarrow>
    (fault + ('h, 'd) interrupt) option" where
  "OneTick H Y m =
     (let old = machineStatus m;
          m1 = (if machineStatus m = SystemMode
                then m\<lparr>totalTicks := totalTicks m + SystemTick, systemTicks := systemTicks m + SystemTick\<rparr>
                else m\<lparr>totalTicks := totalTicks m + UserTick, userTicks := userTicks m + UserTick\<rparr>) in
      case due_loop H (m1\<lparr>intLevel := IntOff\<rparr>) of
        None \<Rightarrow> None
      | Some (Inl e) \<Rightarrow> Some (Inl e)
      | Some (Inr m2) \<Rightarrow>
          let m3 = m2\<lparr>intLevel := IntOn\<rparr> in
          if yieldOnReturn m3
          then Some (bindE (Y (m3\<lparr>yieldOnReturn := False, machineStatus := SystemMode\<rparr>)) (\<lambda>m4. Inr (m4\<lparr>machineStatus := old\<rparr>)))
          else Some (Inr m3))"

definition SetLevel :: "('h, 'd) dispatch \<Rightarrow> (('h, 'd) interrupt \<Rightarrow> fault + ('h, 'd) interrupt) \<Rightarrow> IntStatus \<Rightarrow> ('h, 'd) interrupt \<Rightarrow>
    (fault + ('h, 'd) interrupt) option" where
  "SetLevel H Y now m =
     (if \<not> (now = IntOff \<or> \<not> inHandler m) then Some (Inl AssertFailed)
      else if now = IntOn \<and> intLevel m = IntOff then OneTick H Y (m\<lparr>intLevel := now\<rparr>)
      else Some (Inr (m\<lparr>intLevel := now\<rparr>)))"

text \<open>\<open>Idle\<close>: the result is false when the machine halts.\<close>

definition Idle :: "('h, 'd) dispatch \<Rightarrow> ('h, 'd) interrupt \<Rightarrow> (fault + bool \<times> ('h, 'd) interrupt) option" where
  "Idle H m = (case CheckIfDue H True (m\<lparr>machineStatus := IdleMode\<rparr>) of
     Inl e \<Rightarrow> Some (Inl e)
   | Inr (due, m1) \<Rightarrow>
       if \<not> due then Some (Inr (False, m1))
       else (case due_loop H m1 of
         None \<Rightarrow> None
       | Some (Inl e) \<Rightarrow> Some (Inl e)
       | Some (Inr m2) \<Rightarrow> Some (Inr (True, m2\<lparr>yieldOnReturn := False, machineStatus := SystemMode\<rparr>))))"

section \<open>What a handler may do\<close>

text \<open>
  A handler runs with interrupts off and leaves them off; it takes no simulated time; it may ask for a
  context switch and change its device; and all it does to the list is to schedule interrupts for later.
\<close>

definition add_all :: "(int \<times> 'a) list \<Rightarrow> (int \<times> 'a) list \<Rightarrow> (int \<times> 'a) list" where
  "add_all new ps = fold (\<lambda>(k, x). sins k x) new ps"

locale device_handlers =
  fixes H :: "('h, 'd) dispatch" and D :: "'d \<Rightarrow> bool"
  assumes handler_ok: "inHandler m \<Longrightarrow> intLevel m = IntOff \<Longrightarrow> D (devices m) \<Longrightarrow>
    \<exists>d y new. H p m = Inr (m\<lparr>devices := d, yieldOnReturn := y, pending := add_all new (pending m)\<rparr>) \<and> D d \<and>
      (\<forall>(k, x) \<in> set new. totalTicks m < k)"
begin

text \<open>A handler that satisfies the contract does not fail.\<close>

lemma handler_returns: "inHandler m \<Longrightarrow> intLevel m = IntOff \<Longrightarrow> D (devices m) \<Longrightarrow> \<exists>m'. H p m = Inr m' \<and> D (devices m')"
  using handler_ok [of m p] by fastforce

end

text \<open>The invariant between interrupts; \<open>D\<close> is the one of the devices.\<close>

definition int_inv :: "('d \<Rightarrow> bool) \<Rightarrow> ('h, 'd) interrupt \<Rightarrow> bool" where
  "int_inv D m \<longleftrightarrow> sorted (map fst (pending m)) \<and> idleTicks m + systemTicks m + userTicks m = totalTicks m \<and>
     \<not> inHandler m \<and> D (devices m)"

text \<open>Everything but the list, the devices, the flag and the history stays as it is.\<close>

definition same_clock :: "('h, 'd) interrupt \<Rightarrow> ('h, 'd) interrupt \<Rightarrow> bool" where
  "same_clock m m' \<longleftrightarrow> totalTicks m' = totalTicks m \<and> idleTicks m' = idleTicks m \<and> systemTicks m' = systemTicks m \<and>
     userTicks m' = userTicks m \<and> machineStatus m' = machineStatus m \<and> intLevel m' = intLevel m"

text \<open>The interrupts that are due.\<close>

definition due_part :: "int \<Rightarrow> (int \<times> 'a) list \<Rightarrow> (int \<times> 'a) list" where
  "due_part now ps = takeWhile (\<lambda>(w, _). w \<le> now) ps"

lemma due_part_simps [simp]: "due_part now [] = []" "due_part now ((w, p) # ps) = (if w \<le> now then (w, p) # due_part now ps else [])"
  by (simp_all add: due_part_def)

lemma due_sins: "now < k \<Longrightarrow> due_part now (sins k x ps) = due_part now ps"
  by (induction ps) (auto simp: due_part_def)

lemma add_all_simps [simp]: "add_all [] ps = ps" "add_all ((k, x) # new) ps = add_all new (sins k x ps)"
  by (simp_all add: add_all_def)

lemma due_add_all: "\<forall>(k, x) \<in> set new. now < k \<Longrightarrow> due_part now (add_all new ps) = due_part now ps"
  by (induction new arbitrary: ps) (auto simp: due_sins)

lemma sorted_add_all: "sorted (map fst ps) \<Longrightarrow> sorted (map fst (add_all new ps))"
  by (induction new arbitrary: ps) (auto simp: sorted_sins)

lemma due_empty:
  assumes "sorted (map fst ps)"
  shows "due_part now ps = [] \<longleftrightarrow> (\<forall>(w, p) \<in> set ps. now < w)"
  using assms by (cases ps) force+

lemma mset_sins: "mset (sins k x ps) = add_mset (k, x) (mset ps)"
  by (induction ps) auto

text \<open>A sole timer interrupt, which does not keep an idle machine running.\<close>

definition only_timer :: "('h, 'd) interrupt \<Rightarrow> bool" where
  "only_timer m \<longleftrightarrow> (\<exists>w p. pending m = [(w, p)] \<and> intType p = TimerInt)"

context device_handlers
begin

lemma fire:
  assumes "int_inv D m" "intLevel m = IntOff" "pending m = (w, p) # rest" "w \<le> totalTicks m"
    "\<not> (machineStatus m = IdleMode \<and> only_timer m)"
  obtains m' where "CheckIfDue H adv m = Inr (True, m')" "int_inv D m'" "same_clock m m'" "fired m' = fired m @ [(w, p)]"
    "due_part (totalTicks m') (pending m') = due_part (totalTicks m) rest"
proof -
  let ?m = "m\<lparr>pending := rest, inHandler := True, machineStatus := SystemMode, fired := fired m @ [(w, p)]\<rparr>"
  have "D (devices ?m)" "intLevel ?m = IntOff" "inHandler ?m" using assms(1,2) by (simp_all add: int_inv_def)
  from handler_ok [OF this(3,2,1), of p] obtain d y new where
    h: "H p ?m = Inr (?m\<lparr>devices := d, yieldOnReturn := y, pending := add_all new rest\<rparr>)" "D d"
      "\<forall>(k, x) \<in> set new. totalTicks m < k" by auto
  let ?m' = "m\<lparr>pending := add_all new rest, devices := d, yieldOnReturn := y, fired := fired m @ [(w, p)]\<rparr>"
  have nt: "\<not> (machineStatus m = IdleMode \<and> intType p = TimerInt \<and> rest = [])"
    using assms(3,5) by (auto simp: only_timer_def)
  have ih: "inHandler m = False" using assms(1) by (simp add: int_inv_def)
  have "?m\<lparr>devices := d, yieldOnReturn := y, pending := add_all new rest, machineStatus := machineStatus m, inHandler := False\<rparr> = ?m'"
    using ih by (cases m) simp
  then have run: "CheckIfDue H adv m = Inr (True, ?m')"
    using assms(2-4) nt h(1) by (simp add: CheckIfDue_def Let_def)
  have "sorted (map fst rest)" using assms(1,3) by (simp add: int_inv_def)
  then have "int_inv D ?m'" using assms(1) h(2) by (simp add: int_inv_def sorted_add_all)
  then show ?thesis by (rule that [OF run]) (use h(3) in \<open>simp_all add: same_clock_def due_add_all\<close>)
qed

lemma put_back_sins: "sorted (map fst ((w, p) # rest)) \<Longrightarrow> now < w \<Longrightarrow> due_part now (sins w p rest) = []"
  by (auto simp: due_empty sorted_sins)

lemma not_due:
  assumes "int_inv D m" "intLevel m = IntOff" "due_part (totalTicks m) (pending m) = [] \<or> machineStatus m = IdleMode \<and> only_timer m"
  obtains ps where "CheckIfDue H False m = Inr (False, m\<lparr>pending := ps\<rparr>)" "int_inv D (m\<lparr>pending := ps\<rparr>)" "mset ps = mset (pending m)"
    "due_part (totalTicks m) ps = [] \<or> machineStatus m = IdleMode \<and> only_timer (m\<lparr>pending := ps\<rparr>)"
proof (cases "pending m")
  case Nil
  have "m\<lparr>pending := []\<rparr> = m" using Nil by (cases m) simp
  then show ?thesis using assms(1,2) Nil that [of "[]"] by (simp add: CheckIfDue_def int_inv_def)
next
  case (Cons q rest)
  obtain w p where q: "q = (w, p)" by (cases q)
  have s: "sorted (map fst ((w, p) # rest))" using assms(1) Cons q by (simp add: int_inv_def)
  have mm: "mset (sins w p rest) = mset (pending m)" using Cons q by (simp add: mset_sins)
  have run: "CheckIfDue H False m = Inr (False, m\<lparr>pending := sins w p rest\<rparr>)"
    using assms(2,3) Cons q by (auto simp: CheckIfDue_def Let_def only_timer_def split: if_splits)
  have inv: "int_inv D (m\<lparr>pending := sins w p rest\<rparr>)" using assms(1) s by (simp add: int_inv_def sorted_sins)
  have "due_part (totalTicks m) (sins w p rest) = [] \<or> machineStatus m = IdleMode \<and> only_timer (m\<lparr>pending := sins w p rest\<rparr>)"
    using assms(3) Cons q put_back_sins [OF s] by (auto simp: only_timer_def split: if_splits)
  then show ?thesis by (rule that [OF run inv mm])
qed

text \<open>The loop fires what is due, in order, and ends: a handler schedules only for later.\<close>

lemma due_loop_ok:
  "int_inv D m \<Longrightarrow> intLevel m = IntOff \<Longrightarrow>
   \<exists>m' fs. due_loop H m = Some (Inr m') \<and> int_inv D m' \<and> same_clock m m' \<and> fired m' = fired m @ fs \<and>
     (\<exists>gs. due_part (totalTicks m) (pending m) = fs @ gs) \<and>
     (due_part (totalTicks m') (pending m') = [] \<and> due_part (totalTicks m) (pending m) = fs \<or> machineStatus m = IdleMode \<and> only_timer m')"
proof (induction "length (due_part (totalTicks m) (pending m))" arbitrary: m rule: less_induct)
  case less
  show ?case
  proof (cases "due_part (totalTicks m) (pending m) = [] \<or> machineStatus m = IdleMode \<and> only_timer m")
    case True
    from not_due [OF less(2,3) this] obtain ps where ps: "CheckIfDue H False m = Inr (False, m\<lparr>pending := ps\<rparr>)" "int_inv D (m\<lparr>pending := ps\<rparr>)"
       "due_part (totalTicks m) ps = [] \<or> machineStatus m = IdleMode \<and> only_timer (m\<lparr>pending := ps\<rparr>)"
       "mset ps = mset (pending m)" by metis
    have "due_part (totalTicks m) (pending m) = []" if "due_part (totalTicks m) ps = []"
      using that ps(2,4) less(2) by (auto simp: due_empty int_inv_def dest!: mset_eq_setD)
    then show ?thesis using ps(1,2,3)
      by (intro exI [of _ "m\<lparr>pending := ps\<rparr>"] exI [of _ "[]"]) (auto simp: due_loop.simps same_clock_def)
  next
    case False
    then obtain w p rest where p: "pending m = (w, p) # rest" "w \<le> totalTicks m"
      by (cases "pending m") (auto split: if_splits)
    from False have nt: "\<not> (machineStatus m = IdleMode \<and> only_timer m)" by blast
    from fire [OF less(2,3) p nt] obtain m1 where m1: "CheckIfDue H False m = Inr (True, m1)" "int_inv D m1" "same_clock m m1"
      "fired m1 = fired m @ [(w, p)]" "due_part (totalTicks m1) (pending m1) = due_part (totalTicks m) rest" by blast
    have d: "due_part (totalTicks m) (pending m) = (w, p) # due_part (totalTicks m1) (pending m1)" using p m1(5) by simp
    have "intLevel m1 = IntOff" using m1(3) less(3) by (simp add: same_clock_def)
    from less(1) [OF _ m1(2) this] d obtain m' fs where m': "due_loop H m1 = Some (Inr m')" "int_inv D m'" "same_clock m1 m'"
      "fired m' = fired m1 @ fs" "\<exists>gs. due_part (totalTicks m1) (pending m1) = fs @ gs"
      "due_part (totalTicks m') (pending m') = [] \<and> due_part (totalTicks m1) (pending m1) = fs \<or> machineStatus m1 = IdleMode \<and> only_timer m'"
      by auto
    then show ?thesis using m1 d
      by (intro exI [of _ m'] exI [of _ "(w, p) # fs"]) (auto simp: due_loop.simps [of H m] same_clock_def)
  qed
qed

lemma OneTick_ok:
  assumes "int_inv D m" "machineStatus m \<noteq> IdleMode"
  shows "\<exists>m'. int_inv D m' \<and> intLevel m' = IntOn \<and> machineStatus m' = machineStatus m \<and>
    totalTicks m' = totalTicks m + (if machineStatus m = SystemMode then SystemTick else UserTick) \<and>
    fired m' = fired m @ due_part (totalTicks m') (pending m) \<and> due_part (totalTicks m') (pending m') = [] \<and>
    OneTick H Y m = (if yieldOnReturn m'
      then Some (bindE (Y (m'\<lparr>yieldOnReturn := False, machineStatus := SystemMode\<rparr>)) (\<lambda>m4. Inr (m4\<lparr>machineStatus := machineStatus m\<rparr>)))
      else Some (Inr m'))"
proof -
  let ?m1 = "if machineStatus m = SystemMode
     then m\<lparr>totalTicks := totalTicks m + SystemTick, systemTicks := systemTicks m + SystemTick\<rparr>
     else m\<lparr>totalTicks := totalTicks m + UserTick, userTicks := userTicks m + UserTick\<rparr>"
  have "int_inv D (?m1\<lparr>intLevel := IntOff\<rparr>)" using assms(1) by (simp add: int_inv_def)
  from due_loop_ok [OF this] assms(2) obtain m2 where m2: "due_loop H (?m1\<lparr>intLevel := IntOff\<rparr>) = Some (Inr m2)" "int_inv D m2"
    "same_clock (?m1\<lparr>intLevel := IntOff\<rparr>) m2" "due_part (totalTicks m2) (pending m2) = []"
    "fired m2 = fired m @ due_part (totalTicks ?m1) (pending m)"
    by (auto split: if_splits)
  have "machineStatus m2 = machineStatus m"
    "totalTicks m2 = totalTicks m + (if machineStatus m = SystemMode then SystemTick else UserTick)"
    "totalTicks ?m1 = totalTicks m2" using m2(3) by (auto simp: same_clock_def)
  then show ?thesis using m2 by (intro exI [of _ "m2\<lparr>intLevel := IntOn\<rparr>"]) (simp add: OneTick_def Let_def int_inv_def)
qed

lemma CheckIfDue_advance:
  assumes "pending m = (w, p) # rest"
  shows "CheckIfDue H True m = CheckIfDue H True (m\<lparr>idleTicks := idleTicks m + max 0 (w - totalTicks m), totalTicks := max (totalTicks m) w\<rparr>)"
proof (cases "totalTicks m < w")
  case True
  then show ?thesis using assms by (cases m) (simp add: CheckIfDue_def Let_def)
next
  case False
  then have "m\<lparr>idleTicks := idleTicks m + max 0 (w - totalTicks m), totalTicks := max (totalTicks m) w\<rparr> = m" by (cases m) simp
  then show ?thesis by simp
qed

lemma Idle_halts:
  assumes "intLevel m = IntOff" "pending m = [] \<or> only_timer m"
  shows "\<exists>m'. Idle H m = Some (Inr (False, m'))"
  using assms by (auto simp: Idle_def CheckIfDue_def Let_def only_timer_def)

lemma Idle_ok:
  assumes inv: "int_inv D m" and off: "intLevel m = IntOff" and p: "pending m = (w, p) # rest" and nt: "\<not> only_timer m"
  shows "\<exists>m' fs. Idle H m = Some (Inr (True, m')) \<and> int_inv D m' \<and> totalTicks m' = max (totalTicks m) w \<and>
    idleTicks m' = idleTicks m + (totalTicks m' - totalTicks m) \<and> machineStatus m' = SystemMode \<and> \<not> yieldOnReturn m' \<and>
    fired m' = fired m @ (w, p) # fs \<and> (due_part (totalTicks m') (pending m') = [] \<or> only_timer m')"
proof -
  let ?m = "m\<lparr>machineStatus := IdleMode\<rparr>"
  let ?a = "?m\<lparr>idleTicks := idleTicks m + max 0 (w - totalTicks m), totalTicks := max (totalTicks m) w\<rparr>"
  have "int_inv D ?a" using inv by (simp add: int_inv_def max_def)
  moreover have "\<not> only_timer ?a" using nt by (simp add: only_timer_def)
  ultimately obtain m1 where m1: "CheckIfDue H True ?a = Inr (True, m1)" "int_inv D m1" "same_clock ?a m1" "fired m1 = fired m @ [(w, p)]"
    using fire [of ?a w p rest] off p by auto
  have c: "CheckIfDue H True ?m = Inr (True, m1)" using CheckIfDue_advance [of ?m w p rest] p m1(1) by simp
  have "intLevel m1 = IntOff" using m1(3) off by (simp add: same_clock_def)
  from due_loop_ok [OF m1(2) this] obtain m2 fs where m2: "due_loop H m1 = Some (Inr m2)" "int_inv D m2" "same_clock m1 m2"
    "fired m2 = fired m1 @ fs" "due_part (totalTicks m2) (pending m2) = [] \<or> only_timer m2" by blast
  have t: "totalTicks m2 = max (totalTicks m) w" "idleTicks m2 = idleTicks m + max 0 (w - totalTicks m)"
    using m1(3) m2(3) by (simp_all add: same_clock_def)
  then have "idleTicks m2 = idleTicks m + (totalTicks m2 - totalTicks m)" by simp
  then show ?thesis using c m2 m1(4) t(1)
    by (intro exI [of _ "m2\<lparr>yieldOnReturn := False, machineStatus := SystemMode\<rparr>"] exI [of _ fs])
      (auto simp: Idle_def int_inv_def only_timer_def)
qed

end

text \<open>
  An interrupt that is looked at before its time goes behind the others of the same time: the list is
  not left in the order in which they were scheduled.
\<close>

lemma put_back_rotates:
  assumes "intLevel m = IntOff" "pending m = [(w, p), (w, q)]" "totalTicks m < w"
  shows "CheckIfDue H False m = Inr (False, m\<lparr>pending := [(w, q), (w, p)]\<rparr>)"
  using assms by (simp add: CheckIfDue_def Let_def)

end
