(* ===== verification/Nachos_Devices.thy ===== *)
theory Nachos_Devices
  imports Nachos_Interrupt
begin

text \<open>
  The devices behind the interrupts: the timer (machine/timer.cc), the console (machine/console.cc), the
  disk and the network of \<open>Nachos_Disk\<close> and \<open>Nachos_Post\<close>, and the kernel's handlers that they call
  (threads/system.cc, filesys/synchdisk.cc, network/post.cc, userprog/progtest.cc).  Together they
  satisfy the contract of \<open>device_handlers\<close>.
\<close>

section \<open>The devices\<close>

text \<open>The functions that pending interrupts point to.\<close>

datatype handler_fn = TimerHandler | ConsoleReadPoll | ConsoleWriteDone | DiskDone | NetworkReadPoll | NetworkSendDone

definition ConsoleTime :: int where "ConsoleTime = 100"

text \<open>
  \<open>keyboard\<close> holds the characters that can be read now, \<open>display\<close> those written; \<open>incoming\<close> is a signed
  \<open>char\<close>, with \<open>EOF\<close> for none.
\<close>

record console =
  keyboard :: "byte list"
  display :: "byte list"
  putBusy :: bool
  incoming :: int
  charsRead :: int
  charsWritten :: int

definition EOF :: int where "EOF = -1"

text \<open>
  \<open>rand\<close> are the results of \<open>Random()\<close>, of which \<open>drawn\<close> have been used; the semaphores that the handlers
  of the kernel signal are counters.
\<close>

record devs =
  randomize :: bool
  rand :: "nat \<Rightarrow> int"
  drawn :: nat
  console :: console
  readAvail :: nat
  writeDone :: nat
  dev_disk :: disk
  diskSemaphore :: nat
  postOffice :: post
  postSocket :: "packet list"

type_synonym nachos = "(handler_fn, devs) interrupt"

section \<open>The timer\<close>

definition TimeOfNextInterrupt :: "devs \<Rightarrow> int \<times> devs" where
  "TimeOfNextInterrupt d =
     (if randomize d then (1 + rand d (drawn d) mod (TimerTicks * 2), d\<lparr>drawn := drawn d + 1\<rparr>) else (TimerTicks, d))"

definition Timer_new :: "bool \<Rightarrow> nachos \<Rightarrow> fault + nachos" where
  "Timer_new doRandom m =
     (let (t, d) = TimeOfNextInterrupt ((devices m)\<lparr>randomize := doRandom\<rparr>) in
      Schedule TimerHandler 0 t TimerInt (m\<lparr>devices := d\<rparr>))"

definition TimerInterruptHandler :: "nachos \<Rightarrow> fault + nachos" where
  "TimerInterruptHandler m = (if machineStatus m \<noteq> IdleMode then YieldOnReturn m else Inr m)"

definition TimerExpired :: "nachos \<Rightarrow> fault + nachos" where
  "TimerExpired m =
     (let (t, d) = TimeOfNextInterrupt (devices m) in
      bindE (Schedule TimerHandler 0 t TimerInt (m\<lparr>devices := d\<rparr>)) TimerInterruptHandler)"

section \<open>The console\<close>

definition set_console :: "console \<Rightarrow> nachos \<Rightarrow> nachos" where
  "set_console c m = m\<lparr>devices := (devices m)\<lparr>console := c\<rparr>\<rparr>"

definition Console_new :: "nachos \<Rightarrow> fault + nachos" where
  "Console_new m = Schedule ConsoleReadPoll 0 ConsoleTime ConsoleReadInt
     (set_console ((console (devices m))\<lparr>putBusy := False, incoming := EOF\<rparr>) m)"

definition CheckCharAvail :: "nachos \<Rightarrow> fault + nachos" where
  "CheckCharAvail m =
     bindE (Schedule ConsoleReadPoll 0 ConsoleTime ConsoleReadInt m) (\<lambda>m1.
     let c = console (devices m1) in
     if incoming c \<noteq> EOF \<or> keyboard c = [] then Inr m1
     else
       let m2 = set_console (c\<lparr>keyboard := tl (keyboard c), incoming := sint (hd (keyboard c)), charsRead := charsRead c + 1\<rparr>) m1 in
       Inr (m2\<lparr>devices := (devices m2)\<lparr>readAvail := readAvail (devices m2) + 1\<rparr>\<rparr>))"

definition WriteDone :: "nachos \<Rightarrow> fault + nachos" where
  "WriteDone m =
     (let c = console (devices m);
          m1 = set_console (c\<lparr>putBusy := False, charsWritten := charsWritten c + 1\<rparr>) m in
      Inr (m1\<lparr>devices := (devices m1)\<lparr>writeDone := writeDone (devices m1) + 1\<rparr>\<rparr>))"

definition GetChar :: "nachos \<Rightarrow> int \<times> nachos" where
  "GetChar m = (incoming (console (devices m)), set_console ((console (devices m))\<lparr>incoming := EOF\<rparr>) m)"

definition PutChar :: "byte \<Rightarrow> nachos \<Rightarrow> fault + nachos" where
  "PutChar ch m =
     (let c = console (devices m) in
      bindE (assertE (\<not> putBusy c)) (\<lambda>_.
      Schedule ConsoleWriteDone 0 ConsoleTime ConsoleWriteInt (set_console (c\<lparr>display := display c @ [ch], putBusy := True\<rparr>) m)))"

section \<open>The disk and the network\<close>

text \<open>\<open>DiskDone\<close>: the disk and \<open>SynchDisk::RequestDone\<close>.\<close>

definition DiskRequestDone :: "nachos \<Rightarrow> fault + nachos" where
  "DiskRequestDone m =
     (let d = devices m in Inr (m\<lparr>devices := d\<lparr>dev_disk := HandleInterrupt (dev_disk d), diskSemaphore := diskSemaphore d + 1\<rparr>\<rparr>))"

definition NetworkPoll :: "nachos \<Rightarrow> fault + nachos" where
  "NetworkPoll m =
     bindE (Schedule NetworkReadPoll 0 NetworkTime NetworkRecvInt m) (\<lambda>m1.
     let d = devices m1; p = postOffice d in
     bindE (CheckPktAvail (postSocket d) (net p)) (\<lambda>(arrived, rest, n).
     let p1 = p\<lparr>net := n\<rparr> in
     Inr (m1\<lparr>devices := d\<lparr>postSocket := rest, postOffice := (if arrived then IncomingPacket p1 else p1)\<rparr>\<rparr>)))"

definition NetworkSent :: "nachos \<Rightarrow> fault + nachos" where
  "NetworkSent m =
     (let d = devices m; p = postOffice d in
      Inr (m\<lparr>devices := d\<lparr>postOffice := PacketSent (p\<lparr>net := SendDone (net p)\<rparr>)\<rparr>\<rparr>))"

fun run_handler :: "handler_fn \<Rightarrow> nachos \<Rightarrow> fault + nachos" where
  "run_handler TimerHandler m = TimerExpired m"
| "run_handler ConsoleReadPoll m = CheckCharAvail m"
| "run_handler ConsoleWriteDone m = WriteDone m"
| "run_handler DiskDone m = DiskRequestDone m"
| "run_handler NetworkReadPoll m = NetworkPoll m"
| "run_handler NetworkSendDone m = NetworkSent m"

definition call_handler :: "(handler_fn, devs) dispatch" where
  "call_handler p = run_handler (handler p)"

section \<open>The handlers keep the contract\<close>

text \<open>Random numbers are not negative, and packets in the socket are for this machine and fit.\<close>

definition devs_ok :: "devs \<Rightarrow> bool" where
  "devs_ok d \<longleftrightarrow> (\<forall>i. 0 \<le> rand d i) \<and>
     (\<forall>(h, data) \<in> set (postSocket d). pktTo h = ident (net (postOffice d)) \<and> pktLength h \<le> MaxPacketSize)"

text \<open>What the contract asks of a handler, from the state \<open>m\<close>.\<close>

definition good_handler :: "nachos \<Rightarrow> fault + nachos \<Rightarrow> bool" where
  "good_handler m r \<longleftrightarrow> (\<exists>d y new. r = Inr (m\<lparr>devices := d, yieldOnReturn := y, pending := add_all new (pending m)\<rparr>) \<and> devs_ok d \<and>
      (\<forall>(k, x) \<in> set new. totalTicks m < k))"

lemma good_handlerI:
  "r = Inr (m\<lparr>devices := d, yieldOnReturn := y, pending := add_all new (pending m)\<rparr>) \<Longrightarrow> devs_ok d \<Longrightarrow>
   \<forall>(k, x) \<in> set new. totalTicks m < k \<Longrightarrow> good_handler m r"
  by (auto simp: good_handler_def)

lemma timer_good:
  assumes "inHandler m" "devs_ok (devices m)"
  shows "good_handler m (TimerExpired m)"
proof -
  obtain t d where t: "TimeOfNextInterrupt (devices m) = (t, d)" by (cases "TimeOfNextInterrupt (devices m)")
  then have "0 < t" "devs_ok d" using assms(2)
    by (auto simp: TimeOfNextInterrupt_def devs_ok_def TimerTicks_def pos_mod_sign add_pos_nonneg split: if_splits)
  then show ?thesis using assms(1) t
    by (intro good_handlerI [where d = d and y = "machineStatus m \<noteq> IdleMode \<or> yieldOnReturn m"
          and new = "[(totalTicks m + t, \<lparr>handler = TimerHandler, intArg = 0, intType = TimerInt\<rparr>)]"])
      (simp_all add: TimerExpired_def Schedule_def TimerInterruptHandler_def YieldOnReturn_def)
qed

lemma poll_char_good:
  assumes "devs_ok (devices m)"
  shows "good_handler m (CheckCharAvail m)"
proof -
  let ?c = "console (devices m)"
  let ?d = "if incoming ?c \<noteq> EOF \<or> keyboard ?c = [] then devices m
     else (devices m)\<lparr>console := ?c\<lparr>keyboard := tl (keyboard ?c), incoming := sint (hd (keyboard ?c)), charsRead := charsRead ?c + 1\<rparr>,
       readAvail := readAvail (devices m) + 1\<rparr>"
  show ?thesis using assms
    by (intro good_handlerI [where d = ?d and y = "yieldOnReturn m"
          and new = "[(totalTicks m + 100, \<lparr>handler = ConsoleReadPoll, intArg = 0, intType = ConsoleReadInt\<rparr>)]"])
      (simp_all add: CheckCharAvail_def Schedule_def ConsoleTime_def set_console_def devs_ok_def Let_def)
qed

lemma good_device:
  assumes "r = Inr (m\<lparr>devices := d\<rparr>)" "devs_ok d"
  shows "good_handler m r"
  by (rule good_handlerI [where d = d and y = "yieldOnReturn m" and new = "[]"]) (use assms in \<open>cases m, simp_all\<close>)

lemma write_done_good: "devs_ok (devices m) \<Longrightarrow> good_handler m (WriteDone m)"
  by (rule good_device [where d = "(devices m)\<lparr>console := (console (devices m))\<lparr>putBusy := False,
        charsWritten := charsWritten (console (devices m)) + 1\<rparr>, writeDone := writeDone (devices m) + 1\<rparr>"])
    (simp_all add: WriteDone_def set_console_def devs_ok_def Let_def)

lemma disk_done_good: "devs_ok (devices m) \<Longrightarrow> good_handler m (DiskRequestDone m)"
  unfolding DiskRequestDone_def Let_def by (rule good_device [OF refl]) (simp add: devs_ok_def)

lemma net_sent_good: "devs_ok (devices m) \<Longrightarrow> good_handler m (NetworkSent m)"
  unfolding NetworkSent_def Let_def by (rule good_device [OF refl]) (simp add: devs_ok_def SendDone_def PacketSent_def)

lemma net_poll_good:
  assumes "devs_ok (devices m)"
  shows "good_handler m (NetworkPoll m)"
proof -
  let ?p = "postOffice (devices m)"
  have "\<exists>arrived rest n. CheckPktAvail (postSocket (devices m)) (net ?p) = Inr (arrived, rest, n) \<and> ident n = ident (net ?p) \<and>
      set rest \<subseteq> set (postSocket (devices m))"
    using assms by (auto simp: CheckPktAvail_def devs_ok_def split: list.split prod.split)
  then obtain arrived rest n where c: "CheckPktAvail (postSocket (devices m)) (net ?p) = Inr (arrived, rest, n)" "ident n = ident (net ?p)"
    "set rest \<subseteq> set (postSocket (devices m))" by blast
  let ?d = "(devices m)\<lparr>postSocket := rest, postOffice := (if arrived then IncomingPacket (?p\<lparr>net := n\<rparr>) else ?p\<lparr>net := n\<rparr>)\<rparr>"
  have "devs_ok ?d" using assms c(2,3) by (auto simp: devs_ok_def IncomingPacket_def)
  then show ?thesis
    by (intro good_handlerI [where d = ?d and y = "yieldOnReturn m"
          and new = "[(totalTicks m + 100, \<lparr>handler = NetworkReadPoll, intArg = 0, intType = NetworkRecvInt\<rparr>)]"])
      (simp_all add: NetworkPoll_def Schedule_def NetworkTime_def c(1) Let_def)
qed

interpretation dev: device_handlers call_handler devs_ok
proof unfold_locales
  fix m :: nachos and p :: "handler_fn PendingInterrupt"
  assume a: "inHandler m" "intLevel m = IntOff" "devs_ok (devices m)"
  have "good_handler m (run_handler (handler p) m)"
    by (cases "handler p") (simp_all add: timer_good poll_char_good write_done_good disk_done_good net_poll_good net_sent_good a)
  then show "\<exists>d y new. call_handler p m = Inr (m\<lparr>devices := d, yieldOnReturn := y, pending := add_all new (pending m)\<rparr>) \<and> devs_ok d \<and>
      (\<forall>(k, x) \<in> set new. totalTicks m < k)"
    unfolding good_handler_def call_handler_def .
qed

section \<open>Properties\<close>


text \<open>
  C39 A machine with no ready thread does not hang: as long as an interrupt other than the timer alone is
  pending, \<open>Idle\<close> moves the clock to the first one, counts the time as idle, runs its handler and those of
  everything else that is due, and returns to the scheduler; otherwise it halts the machine.
\<close>

theorem idle_makes_progress:
  assumes "int_inv devs_ok m" "intLevel m = IntOff"
  shows "if pending m = [] \<or> (\<exists>w p. pending m = [(w, p)] \<and> intType p = TimerInt)
    then \<exists>m'. Idle call_handler m = Some (Inr (False, m'))
    else \<exists>m' fs. Idle call_handler m = Some (Inr (True, m')) \<and> int_inv devs_ok m' \<and>
      totalTicks m' = max (totalTicks m) (fst (hd (pending m))) \<and> idleTicks m' = idleTicks m + (totalTicks m' - totalTicks m) \<and>
      machineStatus m' = SystemMode \<and> fired m' = fired m @ hd (pending m) # fs"
proof (cases "pending m = [] \<or> only_timer m")
  case True
  then show ?thesis using dev.Idle_halts [OF assms(2) True] unfolding only_timer_def by auto
next
  case False
  then obtain w p rest where p: "pending m = (w, p) # rest" by (cases "pending m") auto
  have "\<exists>m' fs. Idle call_handler m = Some (Inr (True, m')) \<and> int_inv devs_ok m' \<and>
      totalTicks m' = max (totalTicks m) w \<and> idleTicks m' = idleTicks m + (totalTicks m' - totalTicks m) \<and>
      machineStatus m' = SystemMode \<and> fired m' = fired m @ (w, p) # fs"
    using dev.Idle_ok [OF assms p] False by blast
  moreover have np: "\<not> (pending m = [] \<or> (\<exists>w p. pending m = [(w, p)] \<and> intType p = TimerInt))" using False by (simp add: only_timer_def)
  ultimately show ?thesis unfolding if_not_P [OF np] by (simp add: p)
qed

text \<open>
  The character with code 255 is \<open>EOF\<close> once it is stored in \<open>incoming\<close>: the console reports that it
  has arrived, but \<open>GetChar\<close> gives \<open>EOF\<close> for it and the next poll reads over it.
\<close>

lemma char_255_is_EOF:
  assumes "incoming (console (devices m)) = EOF" "keyboard (console (devices m)) = 255 # cs" "CheckCharAvail m = Inr m'"
  shows "readAvail (devices m') = readAvail (devices m) + 1 \<and> fst (GetChar m') = EOF"
proof -
  have "sint (255 :: byte) = -1" by simp
  then show ?thesis using assms
    by (auto simp: CheckCharAvail_def Schedule_def set_console_def GetChar_def EOF_def ConsoleTime_def assertE_def Let_def)
qed

text \<open>\<open>TimerInterruptHandler\<close> asks whether the machine is idle, but every handler runs in system mode.\<close>

lemma handlers_see_system_mode:
  assumes "intLevel m = IntOff" "pending m = (w, p) # rest" "w \<le> totalTicks m" "\<not> only_timer m"
  shows "CheckIfDue H False m = bindE (H p (m\<lparr>pending := rest, inHandler := True, machineStatus := SystemMode, fired := fired m @ [(w, p)]\<rparr>))
     (\<lambda>m3. Inr (True, m3\<lparr>machineStatus := machineStatus m, inHandler := False\<rparr>))"
  using assms by (auto simp: CheckIfDue_def Let_def only_timer_def)

section \<open>Witnesses\<close>

text \<open>A console interrupt at time 5 and the timer at time 12; the clock shows 4.\<close>

definition devs1 :: devs where
  "devs1 = \<lparr>randomize = False, rand = (\<lambda>_. 0), drawn = 0,
     console = \<lparr>keyboard = [113], display = [], putBusy = False, incoming = EOF, charsRead = 0, charsWritten = 0\<rparr>,
     readAvail = 0, writeDone = 0,
     dev_disk = \<lparr>contents = (\<lambda>_. []), diskActive = False, lastSector = 0, bufferInit = 0, diskReads = 0, diskWrites = 0\<rparr>,
     diskSemaphore = 0, postOffice = PostOffice_new 1 2 (replicate 52 0), postSocket = []\<rparr>"

definition nachos1 :: nachos where
  "nachos1 = (Interrupt_new devs1)\<lparr>pending := [(5, \<lparr>handler = ConsoleReadPoll, intArg = 0, intType = ConsoleReadInt\<rparr>),
     (12, \<lparr>handler = TimerHandler, intArg = 0, intType = TimerInt\<rparr>)], totalTicks := 4, systemTicks := 4\<rparr>"

lemma nachos1_inv: "int_inv devs_ok nachos1"
  by (simp add: int_inv_def nachos1_def Interrupt_new_def devs_ok_def devs1_def)


theorem idle_makes_progress_witness:
  "\<exists>m'. Idle call_handler nachos1 = Some (Inr (True, m')) \<and> totalTicks m' = 5 \<and> idleTicks m' = 1"
proof -
  have "intLevel nachos1 = IntOff" by (simp add: nachos1_def Interrupt_new_def)
  from idle_makes_progress [OF nachos1_inv this] show ?thesis
    by (auto simp: nachos1_def Interrupt_new_def)
qed

end
