(* ===== verification/Nachos_FileCalls.thy ===== *)
theory Nachos_FileCalls
  imports Nachos_FileSysThms Nachos_Table Nachos_UserMemory
begin

text \<open>
  The system calls for files (userprog/exception.cc: \<open>Create\<close>, \<open>Open\<close>, \<open>Write\<close>, \<open>Read\<close>, \<open>Close\<close>): user
  memory, the table of open files of the address space, and the file system.  What a program writes
  through one open file it reads back through another, into its own memory.
\<close>

section \<open>State\<close>

definition ConsoleInput :: int where "ConsoleInput = 0"
definition ConsoleOutput :: int where "ConsoleOutput = 1"

text \<open>The table holds addresses of open files; \<open>fileAt\<close> are the objects there.  \<open>screen\<close> is what was printed.\<close>

record fstate =
  userMem :: vm
  fileTable :: "nat Table"
  fileAt :: "nat \<Rightarrow> OpenFile"
  fileSystem :: filesys
  screen :: "byte list"

type_synonym fault_handler = "int \<Rightarrow> vm \<Rightarrow> fault + vm"

section \<open>The calls\<close>

text \<open>A name of the user, up to its first zero.\<close>

definition file_name :: "byte list \<Rightarrow> byte list" where
  "file_name buf = takeWhile (\<lambda>b. b \<noteq> 0) buf"

definition Create_Syscall :: "fault_handler \<Rightarrow> fsmem \<Rightarrow> 32 word \<Rightarrow> int \<Rightarrow> fstate \<Rightarrow> fault + fstate" where
  "Create_Syscall pf g vaddr len s =
     bindE (copy_buf pf vaddr len (userMem s)) (\<lambda>(r, m). case r of
       None \<Rightarrow> Inr (s\<lparr>userMem := m\<rparr>)
     | Some buf \<Rightarrow>
         bindE (FileSystem_Create g (file_name buf) 0 (fileSystem s)) (\<lambda>(_, fs).
         Inr (s\<lparr>userMem := m, fileSystem := fs\<rparr>)))"

text \<open>\<open>x\<close> is the address of the new open file.\<close>

definition Open_Syscall :: "fault_handler \<Rightarrow> fsmem \<Rightarrow> nat \<Rightarrow> 32 word \<Rightarrow> int \<Rightarrow> fstate \<Rightarrow> fault + int \<times> fstate" where
  "Open_Syscall pf g x vaddr len s =
     bindE (copy_buf pf vaddr len (userMem s)) (\<lambda>(r, m).
     let s1 = s\<lparr>userMem := m\<rparr> in
     case r of
       None \<Rightarrow> Inr (-1, s1)
     | Some buf \<Rightarrow>
         bindE (FileSystem_Open g (file_name buf) (fileSystem s)) (\<lambda>f. case f of
           None \<Rightarrow> Inr (-1, s1)
         | Some f \<Rightarrow>
             bindE (Table_Put (Some x) (fileTable s)) (\<lambda>(fid, t).
             if fid = -1 then Inr (fid, s1)
             else Inr (fid, s1\<lparr>fileTable := t, fileAt := (fileAt s)(x := f)\<rparr>))))"

definition Write_Syscall :: "fault_handler \<Rightarrow> (nat \<Rightarrow> byte) \<Rightarrow> 32 word \<Rightarrow> int \<Rightarrow> int \<Rightarrow> fstate \<Rightarrow> fault + fstate" where
  "Write_Syscall pf stale vaddr len fid s =
     (if fid = ConsoleInput then Inr s
      else if len < 0 then Inl Halted
      else bindE (copyin pf (nat len) vaddr (userMem s)) (\<lambda>(buf, m).
        let s1 = s\<lparr>userMem := m\<rparr> in
        if fid = ConsoleOutput then Inr (s1\<lparr>screen := screen s @ buf\<rparr>)
        else bindE (Table_Get fid (fileTable s)) (\<lambda>r. case r of
          None \<Rightarrow> Inr s1
        | Some x \<Rightarrow>
            bindE (OpenFile_Write stale buf len (fileAt s x) (fsDisk (fileSystem s))) (\<lambda>(_, f, S).
            Inr (s1\<lparr>fileAt := (fileAt s)(x := f), fileSystem := (fileSystem s)\<lparr>fsDisk := S\<rparr>\<rparr>)))))"

text \<open>
  \<open>typed\<close> is the word that \<open>scanf\<close> reads; with its terminating zero it may not fit the buffer of \<open>len\<close>
  characters, whose old contents are \<open>stale\<close>.
\<close>

definition Read_Syscall ::
  "fault_handler \<Rightarrow> (nat \<Rightarrow> byte) \<Rightarrow> byte list \<Rightarrow> 32 word \<Rightarrow> int \<Rightarrow> int \<Rightarrow> fstate \<Rightarrow> fault + int \<times> fstate" where
  "Read_Syscall pf stale typed vaddr len fid s =
     (if fid = ConsoleOutput then Inr (-1, s)
      else if len < 0 then Inl Halted
      else if fid = ConsoleInput then
        (if int (length typed) + 1 > len then Inl BufferOverflow
         else
           let buf = store_bytes 0 (typed @ [0]) (map stale [0..<nat len]) in
           bindE (copyout pf buf vaddr (userMem s)) (\<lambda>(_, m). Inr (len, s\<lparr>userMem := m\<rparr>)))
      else bindE (Table_Get fid (fileTable s)) (\<lambda>r. case r of
        None \<Rightarrow> Inr (-1, s)
      | Some x \<Rightarrow>
          bindE (OpenFile_Read len (fileAt s x) (fsDisk (fileSystem s))) (\<lambda>(bs, f).
          let s1 = s\<lparr>fileAt := (fileAt s)(x := f)\<rparr> in
          if bs \<noteq> [] then bindE (copyout pf bs vaddr (userMem s)) (\<lambda>(_, m). Inr (int (length bs), s1\<lparr>userMem := m\<rparr>))
          else Inr (0, s1))))"

definition Close_Syscall :: "int \<Rightarrow> fstate \<Rightarrow> fault + fstate" where
  "Close_Syscall fd s =
     bindE (Table_Remove fd (fileTable s)) (\<lambda>(r, t). Inr (s\<lparr>fileTable := t\<rparr>))"

section \<open>Writing and reading\<close>

text \<open>Descriptor \<open>fid\<close> is an open file of the name \<open>n\<close> at position \<open>p\<close>.\<close>

definition descriptor :: "int \<Rightarrow> nat \<Rightarrow> byte list \<Rightarrow> nat \<Rightarrow> fstate \<Rightarrow> bool" where
  "descriptor fid x n p s \<longleftrightarrow> 1 < fid \<and> Table_Get fid (fileTable s) = Inr (Some x) \<and>
     opened (fileSystem s) n (hdr (fileAt s x)) \<and> seekPosition (fileAt s x) = int p"

text \<open>The bytes of the user's page.\<close>

definition user_bytes :: "int \<Rightarrow> 32 word \<Rightarrow> nat \<Rightarrow> vm \<Rightarrow> byte list" where
  "user_bytes cur va n m = take n (drop (offset_of va) (page_bytes m cur (page_of va)))"

lemma descriptorD:
  assumes "descriptor fid x n p s"
  shows "fid \<noteq> ConsoleInput" "fid \<noteq> ConsoleOutput" "Table_Get fid (fileTable s) = Inr (Some x)"
    "opened (fileSystem s) n (hdr (fileAt s x))" "seekPosition (fileAt s x) = int p"
  using assms by (simp_all add: descriptor_def ConsoleInput_def ConsoleOutput_def)

lemma opened_unique:
  assumes "fs_inv fs" "opened fs n h" "opened fs n h'"
  shows "h = h'"
proof -
  have ok: "dir_ok fs" using assms(1) by (simp add: fs_inv_def)
  show ?thesis using assms(2,3) entries_apart(1) [OF ok] by (auto simp: opened_def used_slots_def)
qed

lemma opened_known:
  assumes "fs_inv fs" "opened fs n h"
  obtains c where "fs_files fs n = Some c"
  using opened_content [OF assms] that by blast

text \<open>A mapped page stays mapped while another is read.\<close>

lemma mapped_other_used:
  assumes "mapped cur v' k' f' s" "k < 4"
  shows "mapped cur v' k' f' (entry_used k False s)"
proof -
  note m = mappedD [OF assms(1)]
  note sz = vm_sizesD [OF vm_invD(1) [OF m(1)]]
  have "frame_of (entry_used k False s) = frame_of s" by (intro ext) (simp add: frame_of_def entry_used_def)
  then show ?thesis
    using m entry_read_ok(1) [OF m(1) assms(2)] entry_used_tlb [OF sz(2) m(2), of k False] by (auto simp: mapped_def)
qed

lemma copyin_keeps_mapped:
  assumes "mapped cur v k f s" "n > 0 \<longrightarrow> page_of va = v" "offset_of va + n \<le> 128" "mapped cur v' k' f' s"
    "copyin pf n va s = Inr (bs, s')"
  shows "mapped cur v' k' f' s'"
  using assms
proof (induction n arbitrary: va s bs)
  case 0
  then show ?case by simp
next
  case (Suc n)
  let ?s1 = "entry_used k False s"
  have pv: "page_of va = v" using Suc.prems(2) by simp
  obtain bs' where r: "copyin pf n (va + 1) ?s1 = Inr (bs', s')"
    using Suc.prems(5) read_user_mapped [OF Suc.prems(1) [folded pv], of pf]
    by (auto simp: copyin.simps(2) bindE_def split: sum.splits)
  note m1 = mapped_entry_used [OF Suc.prems(1)]
    mapped_other_used [OF Suc.prems(4) mappedD(2) [OF Suc.prems(1)]]
  show ?case
  proof (cases n)
    case 0
    then show ?thesis using r m1(2) by simp
  next
    case (Suc n')
    then have "page_of (va + 1) = v" "offset_of (va + 1) + n \<le> 128"
      using next_address [of va] Suc.prems(3) pv by simp_all
    then show ?thesis using Suc.IH [OF m1(1) _ _ m1(2) r] by blast
  qed
qed

lemma user_bytes_mapped:
  assumes "mapped cur v k f m" "page_of va = v" "offset_of va + n \<le> length (page_bytes m cur v)"
  shows "user_bytes cur va n m = take n (drop (offset_of va) (frame_bytes f (mainMemory m)))"
    "length (user_bytes cur va n m) = n"
proof -
  let ?b = "page_bytes m cur v"
  have e: "take (length ?b) (frame_bytes f (mainMemory m)) = ?b" by (rule resident_bytes [OF mappedD(1,7) [OF assms(1)]])
  have "take n (drop (offset_of va) (take (length ?b) F)) = take n (drop (offset_of va) F)" for F
    using assms(3) by (simp add: drop_take min_absorb1)
  from this [of "frame_bytes f (mainMemory m)", unfolded e]
  show "user_bytes cur va n m = take n (drop (offset_of va) (frame_bytes f (mainMemory m)))"
    by (simp only: user_bytes_def assms(2))
  show "length (user_bytes cur va n m) = n" using assms(2,3) by (simp add: user_bytes_def)
qed

lemma write_call:
  assumes inv: "fs_inv (fileSystem s)" and d: "descriptor fid x nm p s" and c: "fs_files (fileSystem s) nm = Some c"
    and m: "mapped cur v k f (userMem s)" and va: "page_of va = v" "offset_of va + n \<le> 128"
      "offset_of va + n \<le> length (page_bytes (userMem s) cur v)" "0 < n"
    and fit: "p + n \<le> length c"
  shows "\<exists>m' S'. Write_Syscall pf stale va (int n) fid s =
      Inr (s\<lparr>userMem := m', fileAt := (fileAt s)(x := (fileAt s x)\<lparr>seekPosition := int (p + n)\<rparr>),
             fileSystem := on_disk (fileSystem s) S'\<rparr>) \<and>
    copyin pf n va (userMem s) = Inr (user_bytes cur va n (userMem s), m') \<and>
    page_bytes m' = page_bytes (userMem s) \<and> fs_inv (on_disk (fileSystem s) S') \<and>
    fs_files (on_disk (fileSystem s) S') = (fs_files (fileSystem s))(nm \<mapsto> store_bytes p (user_bytes cur va n (userMem s)) c) \<and>
    opened (on_disk (fileSystem s) S') nm (hdr (fileAt s x))"
proof -
  note t = descriptorD [OF d]
  let ?bs = "user_bytes cur va n (userMem s)"
  note ub = user_bytes_mapped [OF m va(1,3)]
  obtain m' where m': "copyin pf n va (userMem s) = Inr (?bs, m')" "page_bytes m' = page_bytes (userMem s)"
    using copyin_mapped [OF m, of n va pf] va unfolding ub(1) by auto
  have mn: "nat (min (int n) (int (length c) - int p)) = n" using fit by simp
  from write_file [OF inv t(4) refl, of "int p" "int n" ?bs c stale] c ub(2) va(4) obtain S' where
    S': "OpenFile_WriteAt stale ?bs (int n) (int p) (fileAt s x) (fsDisk (fileSystem s)) = Inr (int n, S')"
      "fs_inv (on_disk (fileSystem s) S')"
      "fs_files (on_disk (fileSystem s) S') = (fs_files (fileSystem s))(nm \<mapsto> store_bytes p ?bs c)"
      "opened (on_disk (fileSystem s) S') nm (hdr (fileAt s x))"
    unfolding mn by auto
  have "Write_Syscall pf stale va (int n) fid s =
      Inr (s\<lparr>userMem := m', fileAt := (fileAt s)(x := (fileAt s x)\<lparr>seekPosition := int (p + n)\<rparr>),
             fileSystem := on_disk (fileSystem s) S'\<rparr>)"
    using t m'(1) S'(1) by (simp add: Write_Syscall_def OpenFile_Write_def)
  then show ?thesis using m' S' by blast
qed

lemma read_call:
  assumes inv: "fs_inv (fileSystem s)" and d: "descriptor fid x nm p s" and c: "fs_files (fileSystem s) nm = Some c"
    and m: "mapped cur v k f (userMem s)" and va: "page_of va = v" "offset_of va + n \<le> 128" "0 < n"
    and fit: "p + n \<le> length c"
  shows "\<exists>m'. Read_Syscall pf stale typed va (int n) fid s =
      Inr (int n, s\<lparr>userMem := m', fileAt := (fileAt s)(x := (fileAt s x)\<lparr>seekPosition := int (p + n)\<rparr>)\<rparr>) \<and>
    page_bytes m' cur v = store_bytes (offset_of va) (take n (drop p c)) (frame_bytes f (mainMemory (userMem s))) \<and>
    (\<forall>q w. (q, w) \<noteq> (cur, v) \<longrightarrow> page_bytes m' q w = page_bytes (userMem s) q w)"
proof -
  note t = descriptorD [OF d]
  let ?bs = "take n (drop p c)"
  have l: "length ?bs = n" using fit by simp
  have "OpenFile_ReadAt (int n) (int p) (fileAt s x) (fsDisk (fileSystem s)) = Inr ?bs"
    using read_file [OF inv t(4) c, of "int p" "int n"] by simp
  then have r: "OpenFile_Read (int n) (fileAt s x) (fsDisk (fileSystem s)) =
      Inr (?bs, (fileAt s x)\<lparr>seekPosition := int (p + n)\<rparr>)" using t(5) l by (simp add: OpenFile_Read_def)
  have ne: "?bs \<noteq> []" using l va(3) by auto
  from copyout_mapped [OF m ne va(1), of pf] l va(2) obtain m' where
    "copyout pf ?bs va (userMem s) = Inr (True, m')"
    "page_bytes m' cur v = store_bytes (offset_of va) ?bs (frame_bytes f (mainMemory (userMem s)))"
    "\<forall>q w. (q, w) \<noteq> (cur, v) \<longrightarrow> page_bytes m' q w = page_bytes (userMem s) q w" by auto
  then show ?thesis using t(1-3) r ne l by (intro exI [of _ m']) (simp add: Read_Syscall_def)
qed

text \<open>\<open>Open\<close> of a name that is in a mapped page; \<open>x\<close> is a new address.\<close>

lemma open_call:
  assumes inv: "fs_inv (fileSystem s)" and g: "fsmem_ok g" and tb: "table_inv (fileTable s)"
    and m: "mapped cur v k f (userMem s)" and va: "page_of va = v" "offset_of va + n \<le> 128"
      "offset_of va + n \<le> length (page_bytes (userMem s) cur v)" "0 < n"
    and nm: "nm = short_name (file_name (user_bytes cur va n (userMem s)))" "fs_files (fileSystem s) nm = Some c"
    and slot: "Table_Put (Some x) (fileTable s) = Inr (fid, t)" "1 < fid"
  shows "\<exists>m' h. Open_Syscall pf g x va (int n) s =
      Inr (fid, s\<lparr>userMem := m', fileTable := t, fileAt := (fileAt s)(x := \<lparr>hdr = h, seekPosition = 0\<rparr>)\<rparr>) \<and>
    copyin pf n va (userMem s) = Inr (user_bytes cur va n (userMem s), m') \<and> page_bytes m' = page_bytes (userMem s) \<and>
    descriptor fid x nm 0 (s\<lparr>userMem := m', fileTable := t, fileAt := (fileAt s)(x := \<lparr>hdr = h, seekPosition = 0\<rparr>)\<rparr>)"
proof -
  let ?bs = "user_bytes cur va n (userMem s)"
  note ub = user_bytes_mapped [OF m va(1,3)]
  obtain m' where m': "copyin pf n va (userMem s) = Inr (?bs, m')" "page_bytes m' = page_bytes (userMem s)"
    using copyin_mapped [OF m, of n va pf] va unfolding ub(1) by auto
  obtain h where h: "FileSystem_Open g (file_name ?bs) (fileSystem s) = Inr (Some \<lparr>hdr = h, seekPosition = 0\<rparr>)"
    "opened (fileSystem s) nm h"
    using Open_found [OF inv g, of "file_name ?bs" c] nm by auto
  have "Table_Get fid t = Inr (Some x)" using table_put_get_remove [OF tb, of "Some x"] slot by auto
  then have "descriptor fid x nm 0 (s\<lparr>userMem := m', fileTable := t, fileAt := (fileAt s)(x := \<lparr>hdr = h, seekPosition = 0\<rparr>)\<rparr>)"
    using h(2) slot(2) by (simp add: descriptor_def)
  moreover have "Open_Syscall pf g x va (int n) s =
      Inr (fid, s\<lparr>userMem := m', fileTable := t, fileAt := (fileAt s)(x := \<lparr>hdr = h, seekPosition = 0\<rparr>)\<rparr>)"
    using m'(1) h(1) slot by (simp add: Open_Syscall_def copy_buf_def)
  ultimately show ?thesis using m' by blast
qed

section \<open>Properties\<close>

text \<open>
  C27 What a program writes through one descriptor another descriptor of the same file reads: a
  \<open>Write\<close> of \<open>n\<close> bytes of a user page at the position of the first, then a \<open>Read\<close> at the same position
  through the second into another (or the same) page, both loaded, puts exactly the bytes written
  at the user's address, answers \<open>n\<close>, moves both positions by \<open>n\<close>, changes no other byte of any
  process and no other file, and keeps the disk consistent.
\<close>

theorem file_calls_write_read:
  assumes "fs_inv (fileSystem s)" "descriptor i x nm p s" "descriptor j y nm p s" "x \<noteq> y"
    "fs_files (fileSystem s) nm = Some c" "p + n \<le> length c" "0 < n"
    "mapped cur (page_of va) k f (userMem s)" "offset_of va + n \<le> 128"
    "offset_of va + n \<le> length (page_bytes (userMem s) cur (page_of va))"
    "mapped cur (page_of va') k' f' (userMem s)" "offset_of va' + n \<le> 128"
  shows "\<exists>s1 s2 old. Write_Syscall pf stale va (int n) i s = Inr s1 \<and>
    Read_Syscall pf stale typed va' (int n) j s1 = Inr (int n, s2) \<and>
    page_bytes (userMem s2) cur (page_of va') = store_bytes (offset_of va') (user_bytes cur va n (userMem s)) old \<and>
    take (length (page_bytes (userMem s) cur (page_of va'))) old = page_bytes (userMem s) cur (page_of va') \<and>
    (\<forall>q w. (q, w) \<noteq> (cur, page_of va') \<longrightarrow> page_bytes (userMem s2) q w = page_bytes (userMem s) q w) \<and>
    fs_files (fileSystem s2) = (fs_files (fileSystem s))(nm \<mapsto> store_bytes p (user_bytes cur va n (userMem s)) c) \<and>
    fs_inv (fileSystem s2) \<and> descriptor i x nm (p + n) s2 \<and> descriptor j y nm (p + n) s2"
proof -
  let ?bs = "user_bytes cur va n (userMem s)"
  let ?c = "store_bytes p ?bs c"
  have h: "hdr (fileAt s x) = hdr (fileAt s y)"
    using opened_unique [OF assms(1)] descriptorD(4) [OF assms(2)] descriptorD(4) [OF assms(3)] by blast
  have lb: "length ?bs = n" by (rule user_bytes_mapped(2) [OF assms(8) refl assms(10)])
  from write_call [OF assms(1,2,5,8) refl assms(9,10,7,6), of pf stale] obtain m' S' where
    w: "Write_Syscall pf stale va (int n) i s = Inr (s\<lparr>userMem := m',
         fileAt := (fileAt s)(x := (fileAt s x)\<lparr>seekPosition := int (p + n)\<rparr>), fileSystem := on_disk (fileSystem s) S'\<rparr>)"
      "copyin pf n va (userMem s) = Inr (?bs, m')" "page_bytes m' = page_bytes (userMem s)"
      "fs_inv (on_disk (fileSystem s) S')" "fs_files (on_disk (fileSystem s) S') = (fs_files (fileSystem s))(nm \<mapsto> ?c)"
      "opened (on_disk (fileSystem s) S') nm (hdr (fileAt s x))" by blast
  define s1 where "s1 = s\<lparr>userMem := m',
    fileAt := (fileAt s)(x := (fileAt s x)\<lparr>seekPosition := int (p + n)\<rparr>), fileSystem := on_disk (fileSystem s) S'\<rparr>"
  have d: "descriptor i x nm (p + n) s1" "descriptor j y nm p s1"
    using assms(2-4) w(6) h by (simp_all add: s1_def descriptor_def)
  have m1: "mapped cur (page_of va') k' f' (userMem s1)"
    using copyin_keeps_mapped [OF assms(8) _ assms(9,11) w(2)] by (simp add: s1_def)
  have f1: "fs_inv (fileSystem s1)" "fs_files (fileSystem s1) = (fs_files (fileSystem s))(nm \<mapsto> ?c)" using w(4,5) by (simp_all add: s1_def)
  have c1: "fs_files (fileSystem s1) nm = Some ?c" "p + n \<le> length ?c" "take n (drop p ?c) = ?bs"
    using f1(2) assms(6) lb by (simp_all add: store_bytes_def)
  from read_call [OF f1(1) d(2) c1(1) m1 refl assms(12,7) c1(2), of pf stale typed] obtain m2 where
    r: "Read_Syscall pf stale typed va' (int n) j s1 = Inr (int n, s1\<lparr>userMem := m2,
         fileAt := (fileAt s1)(y := (fileAt s1 y)\<lparr>seekPosition := int (p + n)\<rparr>)\<rparr>)"
      "page_bytes m2 cur (page_of va') = store_bytes (offset_of va') ?bs (frame_bytes f' (mainMemory (userMem s1)))"
      "\<forall>q w. (q, w) \<noteq> (cur, page_of va') \<longrightarrow> page_bytes m2 q w = page_bytes (userMem s1) q w" unfolding c1(3) by blast
  have old: "take (length (page_bytes (userMem s) cur (page_of va'))) (frame_bytes f' (mainMemory (userMem s1))) =
      page_bytes (userMem s) cur (page_of va')"
    using resident_bytes [OF mappedD(1,7) [OF m1]] w(3) by (simp add: s1_def)
  define s2 where "s2 = s1\<lparr>userMem := m2, fileAt := (fileAt s1)(y := (fileAt s1 y)\<lparr>seekPosition := int (p + n)\<rparr>)\<rparr>"
  have "descriptor i x nm (p + n) s2" "descriptor j y nm (p + n) s2"
    using d assms(4) by (simp_all add: s2_def descriptor_def)
  moreover have "page_bytes (userMem s2) cur (page_of va') = store_bytes (offset_of va') ?bs (frame_bytes f' (mainMemory (userMem s1)))"
    "\<forall>q w. (q, w) \<noteq> (cur, page_of va') \<longrightarrow> page_bytes (userMem s2) q w = page_bytes (userMem s) q w"
    using r(2,3) w(3) by (simp_all add: s2_def s1_def)
  moreover have "fs_inv (fileSystem s2)" "fs_files (fileSystem s2) = (fs_files (fileSystem s))(nm \<mapsto> ?c)"
    using f1 by (simp_all add: s2_def)
  ultimately show ?thesis
    using w(1) [folded s1_def] r(1) [folded s2_def] old
    by (intro exI [of _ s1] exI [of _ s2] exI [of _ "frame_bytes f' (mainMemory (userMem s1))"] conjI)
qed

text \<open>Two descriptors of a file of 300 bytes, and a loaded page.\<close>

definition two_open :: "filesys \<Rightarrow> FileHeader \<Rightarrow> vm \<Rightarrow> fstate" where
  "two_open fs h m = \<lparr>userMem = m,
     fileTable = \<lparr>tmap = \<lparr>numBits = 4, numWords = 1, bmap = [15]\<rparr>, table = [None, None, Some 10, Some 11], size = 4\<rparr>,
     fileAt = (\<lambda>_. \<lparr>hdr = h, seekPosition = 0\<rparr>), fileSystem = fs, screen = []\<rparr>"

lemma two_open_descriptors:
  assumes "opened fs nm h"
  shows "descriptor 2 10 nm 0 (two_open fs h m)" "descriptor 3 11 nm 0 (two_open fs h m)"
proof -
  have "Table_Get 2 (fileTable (two_open fs h m)) = Inr (Some 10)" "Table_Get 3 (fileTable (two_open fs h m)) = Inr (Some 11)"
    by (code_simp | simp add: two_open_def)+
  then show "descriptor 2 10 nm 0 (two_open fs h m)" "descriptor 3 11 nm 0 (two_open fs h m)"
    using assms by (simp_all add: descriptor_def two_open_def)
qed

lemma absent_page:
  "fault_ready 0 (page_of 128) (example_vm one_page True)" "slot_resident 0 (page_of 128) (example_vm one_page True)"
  "SearchForTLBEntry (page_of 128) (tlb (example_vm one_page True)) = -1"
  "page_bytes (example_vm one_page True) 0 (page_of 128) = replicate 128 7"
proof -
  have p: "page_of 128 = 1" "offset_of 128 = 0" by (simp_all add: page_of_def offset_of_def)
  have "frame_of (example_vm one_page True) 0 0 = Some 0"
    using example_vm_frame [OF one_page_ok(1), of 0 True] by (simp add: one_page_def)
  then show "slot_resident 0 (page_of 128) (example_vm one_page True)"
    by (simp add: slot_resident_def one_page_next p example_vm_evicted)
  show "SearchForTLBEntry (page_of 128) (tlb (example_vm one_page True)) = -1"
    by (simp add: SearchForTLBEntry_None p example_vm_tlb)
  show "fault_ready 0 (page_of 128) (example_vm one_page True)"
    using example_vm_ready [of one_page 1] by (simp add: p)
  show "page_bytes (example_vm one_page True) 0 (page_of 128) = replicate 128 7"
    using example_vm_not_resident [OF one_page_ok(3), of True] example_vm_backing [of 1 one_page True 0]
    by (simp add: page_bytes_def p)
qed

lemma loaded_page:
  obtains m k f where "mapped 0 1 k f m" "page_bytes m 0 1 = replicate 128 7"
proof -
  have p: "page_of 128 = 1" by (simp add: page_of_def)
  have u: "unat (128 :: 32 word) < 2 ^ 31" by simp
  obtain m k f where m: "mapped 0 (page_of 128) k f m" "page_bytes m = page_bytes (example_vm one_page True)"
    by (rule fault_maps [OF absent_page(1,2,3) u, of "[]"])
  then show ?thesis using that absent_page(4) p by simp
qed

theorem file_calls_write_read_witness:
  "\<exists>fs h m s1 s2 old. Write_Syscall (\<lambda>_ _. Inl Halted) (\<lambda>_. 0) 128 3 2 (two_open fs h m) = Inr s1 \<and>
     Read_Syscall (\<lambda>_ _. Inl Halted) (\<lambda>_. 0) [] 140 3 3 s1 = Inr (3, s2) \<and>
     page_bytes (userMem s2) 0 1 = store_bytes 12 [7, 7, 7] old"
proof -
  obtain fs c where fs: "fs_inv fs" "fs_files fs = [[65, 66] \<mapsto> c]" "length c = 300" by (rule one_file)
  have n: "short_name [65, 66] = [65, 66]" by (simp add: short_name_def)
  obtain h where h: "opened fs [65, 66] h" using Open_found [OF fs(1) mem0_ok, of "[65, 66]" c] fs(2) n by auto
  obtain m k f where m: "mapped 0 1 k f m" "page_bytes m 0 1 = replicate 128 7" by (rule loaded_page)
  have p: "page_of 128 = 1" "page_of 140 = 1" "offset_of 128 = 0" "offset_of 140 = 12" by (simp_all add: page_of_def offset_of_def)
  have ub: "user_bytes 0 128 3 m = [7, 7, 7]" using m(2) p by (simp add: user_bytes_def numeral_3_eq_3)
  have st: "fileSystem (two_open fs h m) = fs" "userMem (two_open fs h m) = m" by (simp_all add: two_open_def)
  from file_calls_write_read [where s = "two_open fs h m" and n = 3 and va = 128 and va' = 140 and cur = 0 and k = k and f = f
      and k' = k and f' = f and c = c and pf = "\<lambda>_ _. Inl Halted" and stale = "\<lambda>_. 0" and typed = "[]", unfolded st,
      OF fs(1) two_open_descriptors [OF h]] fs m p ub
  show ?thesis by auto blast
qed

end
