(* ===== verification/Nachos_Exceptions.thy ===== *)
theory Nachos_Exceptions
  imports Nachos_Cpu Nachos_FileCalls Nachos_Syscalls
begin

text \<open>
  The way from user code into the kernel and back: the dispatch of exceptions (\<open>ExceptionHandler\<close> of
  userprog/exception.cc), the start of user threads, and \<open>Machine::Run\<close> on top of them.
\<close>

section \<open>System calls (userprog/syscall.h)\<close>

datatype kernel_call =
    K_Halt | K_Exit int | K_Exec int int | K_Create "32 word" int | K_Open "32 word" int
  | K_Read "32 word" int int | K_Write "32 word" int int | K_Close int | K_Fork int "32 word" int | K_Yield int
  | K_Acquire int | K_Release int | K_Wait int int | K_Signal int int | K_Broadcast int int
  | K_CreateLock "32 word" int | K_DestroyLock int | K_CreateCondition "32 word" int | K_DestroyCondition int
  | K_CreateMV "32 word" int int | K_DestroyMV int | K_SetMV int int int | K_GetMV int int
  | K_Printx "32 word" int int

text \<open>
  The switch of \<open>ExceptionHandler\<close>, for the number \<open>type\<close> in register 2 and the arguments in registers 4
  to 6.  The default case falls through to \<open>SC_Halt\<close>.
\<close>

definition dispatch :: "int \<Rightarrow> 32 word \<Rightarrow> 32 word \<Rightarrow> 32 word \<Rightarrow> kernel_call" where
  "dispatch type r4 r5 r6 =
     (if type = 4 then K_Create r4 (sint r5)
      else if type = 5 then K_Open r4 (sint r5)
      else if type = 7 then K_Write r4 (sint r5) (sint r6)
      else if type = 6 then K_Read r4 (sint r5) (sint r6)
      else if type = 8 then K_Close (sint r4)
      else if type = 9 then K_Fork (sint r4) r5 (sint r6)
      else if type = 10 then K_Yield (sint r4)
      else if type = 2 then K_Exec (sint r4) (sint r5)
      else if type = 1 then K_Exit (sint r4)
      else if type = 11 then K_Acquire (sint r4)
      else if type = 12 then K_Release (sint r4)
      else if type = 13 then K_Wait (sint r4) (sint r5)
      else if type = 14 then K_Signal (sint r4) (sint r5)
      else if type = 15 then K_Broadcast (sint r4) (sint r5)
      else if type = 16 then K_CreateLock r4 (sint r5)
      else if type = 17 then K_DestroyLock (sint r4)
      else if type = 18 then K_CreateCondition r4 (sint r5)
      else if type = 19 then K_DestroyCondition (sint r4)
      else if type = 20 then K_CreateMV r4 (sint r5) (sint r6)
      else if type = 21 then K_DestroyMV (sint r4)
      else if type = 23 then K_GetMV (sint r4) (sint r5)
      else if type = 22 then K_SetMV (sint r4) (sint r5) (sint r6)
      else if type = 99 then K_Printx r4 (sint r5) (sint r6)
      else K_Halt)"

text \<open>The calls whose result goes to \<open>rv\<close>; for the others \<open>rv\<close> stays 0.\<close>

fun has_result :: "kernel_call \<Rightarrow> bool" where
  "has_result K_Halt = False"
| "has_result (K_Exit i) = False"
| "has_result (K_Create v n) = False"
| "has_result (K_Write v n i) = False"
| "has_result (K_Close i) = False"
| "has_result (K_Fork f v n) = False"
| "has_result (K_Yield i) = False"
| "has_result (K_Printx v n x) = False"
| "has_result _ = True"

section \<open>ExceptionHandler\<close>

text \<open>
  The state besides the machine is a parameter: \<open>perform c m s\<close> is what call \<open>c\<close> leaves when it returns,
  \<open>page_fault\<close> is \<open>HandlePageFault\<close>, given the address in \<open>BadVAddrReg\<close>.
\<close>

definition return_from_call :: "32 word \<Rightarrow> machine \<Rightarrow> fault + machine" where
  "return_from_call rv m =
     bindE (WriteRegister 2 rv m) (\<lambda>m.
     bindE (ReadRegister (int PCReg) m) (\<lambda>pc.
     bindE (WriteRegister (int PrevPCReg) pc m) (\<lambda>m.
     bindE (ReadRegister (int NextPCReg) m) (\<lambda>npc.
     bindE (WriteRegister (int PCReg) npc m) (\<lambda>m.
     bindE (ReadRegister (int PCReg) m) (\<lambda>pc.
     WriteRegister (int NextPCReg) (pc + 4) m))))))"

definition read_call :: "machine \<Rightarrow> fault + kernel_call" where
  "read_call m =
     bindE (ReadRegister 2 m) (\<lambda>type.
     bindE (ReadRegister 4 m) (\<lambda>r4. bindE (ReadRegister 5 m) (\<lambda>r5. bindE (ReadRegister 6 m) (\<lambda>r6.
     Inr (dispatch (sint type) r4 r5 r6)))))"

definition ExceptionHandler ::
  "(kernel_call \<Rightarrow> machine \<Rightarrow> 's \<Rightarrow> fault + int \<times> machine \<times> 's) \<Rightarrow> (int \<Rightarrow> vm \<Rightarrow> fault + vm) \<Rightarrow>
   ExceptionType \<Rightarrow> machine \<Rightarrow> 's \<Rightarrow> fault + machine \<times> 's" where
  "ExceptionHandler perform page_fault which m s =
     (if which = SyscallException then
        bindE (read_call m) (\<lambda>c.
        bindE (if c = K_Halt then Inl Halted else perform c m s) (\<lambda>(r, m1, s1).
        bindE (return_from_call (of_int (if has_result c then r else 0)) m1) (\<lambda>m2. Inr (m2, s1))))
      else if which = PageFaultException then
        bindE (ReadRegister (int BadVAddrReg) m) (\<lambda>a.
        bindE (page_fault (sint a) (memory m)) (\<lambda>v. Inr (m\<lparr>memory := v\<rparr>, s)))
      else Inl Halted)"

section \<open>User code\<close>

text \<open>One round of \<open>Machine::Run\<close>, without the tick.\<close>

definition user_step ::
  "(kernel_call \<Rightarrow> machine \<Rightarrow> 's \<Rightarrow> fault + int \<times> machine \<times> 's) \<Rightarrow> (int \<Rightarrow> vm \<Rightarrow> fault + vm) \<Rightarrow>
   machine \<times> 's \<Rightarrow> fault + machine \<times> 's" where
  "user_step perform page_fault ms =
     bindE (OneInstruction (fst ms)) (\<lambda>(r, m).
     case r of None \<Rightarrow> Inr (m, snd ms) | Some ex \<Rightarrow> ExceptionHandler perform page_fault ex m (snd ms))"

text \<open>\<open>Machine::Run\<close> never returns; these are its first \<open>n\<close> rounds.\<close>

fun Machine_Run ::
  "(kernel_call \<Rightarrow> machine \<Rightarrow> 's \<Rightarrow> fault + int \<times> machine \<times> 's) \<Rightarrow> (int \<Rightarrow> vm \<Rightarrow> fault + vm) \<Rightarrow>
   nat \<Rightarrow> machine \<times> 's \<Rightarrow> fault + machine \<times> 's" where
  "Machine_Run perform pf 0 ms = Inr ms"
| "Machine_Run perform pf (Suc n) ms = bindE (user_step perform pf ms) (Machine_Run perform pf n)"

text \<open>The registers with which a forked thread and the first thread of a process begin.\<close>

definition RestoreState :: "machine \<Rightarrow> fault + machine" where
  "RestoreState m = bindE (InvalidateAllTLB (memory m)) (\<lambda>v. Inr (m\<lparr>memory := v\<rparr>))"

definition Kernel_Thread :: "KT \<Rightarrow> machine \<Rightarrow> fault + machine" where
  "Kernel_Thread kt m =
     bindE (WriteRegister (int PCReg) (of_int (kt_vaddr kt)) m) (\<lambda>m.
     bindE (WriteRegister (int NextPCReg) (of_int (kt_vaddr kt + 4)) m) (\<lambda>m.
     bindE (RestoreState m) (\<lambda>m.
     WriteRegister (int StackReg) (of_int (kt_stack kt)) m)))"

definition Exec_Thread :: "nat \<Rightarrow> machine \<Rightarrow> fault + machine" where
  "Exec_Thread numPages m = RestoreState (InitRegisters numPages m)"

text \<open>The calls for locks, conditions, threads and processes are those of \<open>Nachos_Syscalls\<close>.\<close>

fun thread_call :: "kernel_call \<Rightarrow> syscall option" where
  "thread_call (K_Acquire i) = Some (SysAcquire i)"
| "thread_call (K_Release i) = Some (SysRelease i)"
| "thread_call (K_Wait c l) = Some (SysWait c l)"
| "thread_call (K_Signal c l) = Some (SysSignal c l)"
| "thread_call (K_Broadcast c l) = Some (SysBroadcast c l)"
| "thread_call (K_CreateLock v n) = Some (SysCreateLock v n)"
| "thread_call (K_DestroyLock i) = Some (SysDestroyLock i)"
| "thread_call (K_CreateCondition v n) = Some (SysCreateCondition v n)"
| "thread_call (K_DestroyCondition i) = Some (SysDestroyCondition i)"
| "thread_call (K_Fork f v n) = Some (SysFork f v n)"
| "thread_call (K_Yield i) = Some SysYield"
| "thread_call (K_Exec v n) = Some (SysExec v n)"
| "thread_call (K_Exit i) = Some SysExit"
| "thread_call _ = None"

text \<open>
  The calls for files on the state \<open>fstate\<close>, whose user memory is the machine's.  \<open>g\<close>, \<open>old\<close> are
  uninitialised memory, \<open>new\<close> gives a new address, \<open>typed\<close> the next word of the console's input; \<open>other\<close> performs the calls that
  are not for files.
\<close>

fun file_call ::
  "fault_handler \<Rightarrow> fsmem \<Rightarrow> (nat \<Rightarrow> byte) \<Rightarrow> (fstate \<Rightarrow> nat) \<Rightarrow> (fstate \<Rightarrow> byte list) \<Rightarrow>
   (kernel_call \<Rightarrow> fstate \<Rightarrow> fault + int \<times> fstate) \<Rightarrow>
   kernel_call \<Rightarrow> fstate \<Rightarrow> fault + int \<times> fstate" where
  "file_call pf g old new typed other (K_Create v n) s = bindE (Create_Syscall pf g v n s) (\<lambda>s. Inr (0, s))"
| "file_call pf g old new typed other (K_Open v n) s = Open_Syscall pf g (new s) v n s"
| "file_call pf g old new typed other (K_Write v n i) s = bindE (Write_Syscall pf old v n i s) (\<lambda>s. Inr (0, s))"
| "file_call pf g old new typed other (K_Read v n i) s = Read_Syscall pf old (typed s) v n i s"
| "file_call pf g old new typed other (K_Close i) s = bindE (Close_Syscall i s) (\<lambda>s. Inr (0, s))"
| "file_call pf g old new typed other (K_Printx v n c) s =
     bindE (Printx_Syscall pf [] v n c (userMem s)) (\<lambda>(out, m).
     Inr (0, s\<lparr>userMem := m, screen := screen s @ map (\<lambda>ch. of_int (of_char ch)) out\<rparr>))"
| "file_call pf g old new typed other c s = other c s"

definition on_machine ::
  "(kernel_call \<Rightarrow> fstate \<Rightarrow> fault + int \<times> fstate) \<Rightarrow> kernel_call \<Rightarrow> machine \<Rightarrow> fstate \<Rightarrow> fault + int \<times> machine \<times> fstate" where
  "on_machine f c m s =
     bindE (f c (s\<lparr>userMem := memory m\<rparr>)) (\<lambda>(r, s1). Inr (r, m\<lparr>memory := userMem s1\<rparr>, s1))"

section \<open>Calling from user code\<close>

text \<open>The stubs of the C library put the number in register 2; the arguments are in registers 4 to 6.\<close>

fun call_number :: "kernel_call \<Rightarrow> int" where
  "call_number K_Halt = 0" | "call_number (K_Exit _) = 1" | "call_number (K_Exec _ _) = 2"
| "call_number (K_Create _ _) = 4" | "call_number (K_Open _ _) = 5" | "call_number (K_Read _ _ _) = 6"
| "call_number (K_Write _ _ _) = 7" | "call_number (K_Close _) = 8" | "call_number (K_Fork _ _ _) = 9"
| "call_number (K_Yield _) = 10" | "call_number (K_Acquire _) = 11" | "call_number (K_Release _) = 12"
| "call_number (K_Wait _ _) = 13" | "call_number (K_Signal _ _) = 14" | "call_number (K_Broadcast _ _) = 15"
| "call_number (K_CreateLock _ _) = 16" | "call_number (K_DestroyLock _) = 17"
| "call_number (K_CreateCondition _ _) = 18" | "call_number (K_DestroyCondition _) = 19"
| "call_number (K_CreateMV _ _ _) = 20" | "call_number (K_DestroyMV _) = 21"
| "call_number (K_SetMV _ _ _) = 22" | "call_number (K_GetMV _ _) = 23" | "call_number (K_Printx _ _ _) = 99"

fun call_args :: "kernel_call \<Rightarrow> 32 word \<times> 32 word \<times> 32 word" where
  "call_args (K_Create v n) = (v, of_int n, 0)" | "call_args (K_Open v n) = (v, of_int n, 0)"
| "call_args (K_Read v n i) = (v, of_int n, of_int i)" | "call_args (K_Write v n i) = (v, of_int n, of_int i)"
| "call_args (K_Fork f v n) = (of_int f, v, of_int n)" | "call_args (K_CreateLock v n) = (v, of_int n, 0)"
| "call_args (K_CreateCondition v n) = (v, of_int n, 0)" | "call_args (K_CreateMV v n k) = (v, of_int n, of_int k)"
| "call_args (K_Printx v n k) = (v, of_int n, of_int k)"
| "call_args (K_Exec v n) = (of_int v, of_int n, 0)" | "call_args (K_Wait c l) = (of_int c, of_int l, 0)"
| "call_args (K_Signal c l) = (of_int c, of_int l, 0)" | "call_args (K_Broadcast c l) = (of_int c, of_int l, 0)"
| "call_args (K_GetMV c l) = (of_int c, of_int l, 0)" | "call_args (K_SetMV c l v) = (of_int c, of_int l, of_int v)"
| "call_args (K_Exit i) = (of_int i, 0, 0)" | "call_args (K_Close i) = (of_int i, 0, 0)"
| "call_args (K_Yield i) = (of_int i, 0, 0)" | "call_args (K_Acquire i) = (of_int i, 0, 0)"
| "call_args (K_Release i) = (of_int i, 0, 0)" | "call_args (K_DestroyLock i) = (of_int i, 0, 0)"
| "call_args (K_DestroyCondition i) = (of_int i, 0, 0)" | "call_args (K_DestroyMV i) = (of_int i, 0, 0)"
| "call_args K_Halt = (0, 0, 0)"

text \<open>The numbers among the arguments fit a register.\<close>

fun call_ints :: "kernel_call \<Rightarrow> int list" where
  "call_ints K_Halt = []" | "call_ints (K_Exit i) = [i]" | "call_ints (K_Exec i n) = [i, n]"
| "call_ints (K_Create _ n) = [n]" | "call_ints (K_Open _ n) = [n]" | "call_ints (K_Read _ n i) = [n, i]"
| "call_ints (K_Write _ n i) = [n, i]" | "call_ints (K_Close i) = [i]" | "call_ints (K_Fork f _ n) = [f, n]"
| "call_ints (K_Yield i) = [i]" | "call_ints (K_Acquire i) = [i]" | "call_ints (K_Release i) = [i]"
| "call_ints (K_Wait c l) = [c, l]" | "call_ints (K_Signal c l) = [c, l]" | "call_ints (K_Broadcast c l) = [c, l]"
| "call_ints (K_CreateLock _ n) = [n]" | "call_ints (K_DestroyLock i) = [i]" | "call_ints (K_CreateCondition _ n) = [n]"
| "call_ints (K_DestroyCondition i) = [i]" | "call_ints (K_CreateMV _ n k) = [n, k]" | "call_ints (K_DestroyMV i) = [i]"
| "call_ints (K_SetMV c l v) = [c, l, v]" | "call_ints (K_GetMV c l) = [c, l]" | "call_ints (K_Printx _ n k) = [n, k]"

definition calls :: "kernel_call \<Rightarrow> machine \<Rightarrow> bool" where
  "calls c m \<longleftrightarrow> reg m 2 = of_int (call_number c) \<and> (reg m 4, reg m 5, reg m 6) = call_args c"

lemma sint_of_register: "int_ok n \<Longrightarrow> sint (of_int n :: 32 word) = n"
  by (simp add: signed_of_int int_ok_def signed_take_bit_int_eq_self)

lemma dispatch_correct:
  assumes "calls c m" "list_all int_ok (call_ints c)"
  shows "read_call m = Inr c"
proof -
  have n: "int_ok (call_number c)" by (cases c) (simp_all add: int_ok_def)
  have "read_call m = Inr (dispatch (call_number c) (reg m 4) (reg m 5) (reg m 6))"
    using assms(1) sint_of_register [OF n] by (simp add: read_call_def ReadRegister_def calls_def reg_numbers)
  moreover have "dispatch (call_number c) (reg m 4) (reg m 5) (reg m 6) = c"
    using assms by (cases c) (simp_all add: calls_def dispatch_def sint_of_register)
  ultimately show ?thesis by simp
qed

lemma return_from_call_ok:
  assumes "length (registers m) = 40"
  shows "return_from_call rv m = Inr (set_reg NextPCReg (reg m NextPCReg + 4) (set_reg PCReg (reg m NextPCReg)
    (set_reg PrevPCReg (reg m PCReg) (set_reg 2 rv m))))"
  using assms by (simp add: return_from_call_def ReadRegister_def WriteRegister_def reg_numbers reg_set_reg)

text \<open>The machine when the exception handler starts: the pending load has been done.\<close>

definition trapped :: "32 word \<Rightarrow> machine \<Rightarrow> vm \<Rightarrow> machine" where
  "trapped b m v = DelayedLoad 0 0 (set_reg BadVAddrReg b (m\<lparr>memory := v\<rparr>))"

lemma trapped_simps [simp]:
  "memory (trapped b m v) = v" "length (registers (trapped b m v)) = length (registers m)"
  by (simp_all add: trapped_def DelayedLoad_def)

lemma trapped_reg:
  assumes "cpu_inv cur m" "k < 32 \<or> k \<in> {PCReg, NextPCReg, PrevPCReg}"
  shows "reg (trapped b m v) k = (if k \<noteq> 0 \<and> k = unat (reg m LoadReg) then reg m LoadValueReg else reg m k)"
proof -
  have l: "length (registers m) = 40" "unat (reg m LoadReg) < 32" "reg m 0 = 0"
    using assms(1) by (simp_all add: cpu_inv_def cpu_mid_def)
  have k: "k < 40" "k \<noteq> 37" "k \<noteq> 38" "k \<noteq> 39" using assms(2) by (auto simp: reg_numbers)
  have r: "reg (m\<lparr>memory := v\<rparr>) j = reg m j" for j by (simp add: reg_def)
  show ?thesis using l k by (auto simp: trapped_def DelayedLoad_def reg_set_reg r reg_numbers)
qed

lemma syscall_traps:
  assumes "ReadMem (reg m PCReg) 4 (memory m) = Inr (Inr raw, v)" "opCode (Decode raw) = OP_SYSCALL"
  shows "OneInstruction m = Inr (Some SyscallException, trapped 0 m v)"
  using assms
  by (simp add: OneInstruction_def mem_read_def exec_switch_def exec_sw_res_def RaiseException_def trapped_def)

lemma trapped_inv: "cpu_inv cur m \<Longrightarrow> vm_inv cur v \<Longrightarrow> cpu_inv cur (trapped b m v)"
  unfolding trapped_def
  by (rule DelayedLoad_inv [OF cpu_mid_set_reg]) (simp_all add: cpu_inv_def cpu_mid_def reg_def reg_numbers)

text \<open>A page that the handler has made present can be read.\<close>

lemma mapped_read:
  assumes "mapped cur v k f s" "page_of va = v" "aligned va sz" "sz = 1 \<or> sz = 2 \<or> sz = 4"
    "offset_of va + sz \<le> length (page_bytes s cur v)"
  shows "ReadMem va sz s = Inr (Inr (read_value sz (user_bytes cur va sz s)), entry_used k False s)"
proof -
  note m = mappedD [OF assms(1)]
  have e: "virtualPage (tlb s ! k) = page_of va" using m(4) assms(2) by simp
  show ?thesis
    unfolding user_bytes_mapped(1) [OF assms(1,2,5)] by (rule ReadMem_hit [OF m(1,2,3) e assms(3,4) m(5,6)])
qed

lemma fetch_faults:
  assumes "SearchForTLBEntry (page_of (reg m PCReg)) (tlb (memory m)) = -1" "aligned (reg m PCReg) 4"
  shows "OneInstruction m = Inr (Some PageFaultException, trapped (reg m PCReg) m (memory m))"
  by (simp add: OneInstruction_def mem_read_def ReadMem_def Translate_miss [OF assms] RaiseException_def trapped_def)

section \<open>Properties\<close>


text \<open>
  C32 A page fault on the way to an instruction only delays it: one round of \<open>Run\<close> loads the page and
  leaves the program counters, the general registers (but for the load that was pending) and the
  contents of every page of every process as they are, and then the fetch succeeds, with the word
  at that address of the page.
\<close>

theorem page_fault_restarts:
  assumes "cpu_inv cur m" "pc = reg m PCReg" "aligned pc 4" "unat pc < 2 ^ 31"
    "SearchForTLBEntry (page_of pc) (tlb (memory m)) = -1"
    "fault_ready cur (page_of pc) (memory m)" "slot_resident cur (page_of pc) (memory m)"
    "offset_of pc + 4 \<le> length (page_bytes (memory m) cur (page_of pc))"
  shows "\<exists>m' v. user_step perform (HandlePageFault FIFO draws cur) (m, s) = Inr (m', s) \<and> cpu_inv cur m' \<and>
    reg m' PCReg = pc \<and> reg m' NextPCReg = reg m NextPCReg \<and>
    (\<forall>k < 32. reg m' k = (if k \<noteq> 0 \<and> k = unat (reg m LoadReg) then reg m LoadValueReg else reg m k)) \<and>
    page_bytes (memory m') = page_bytes (memory m) \<and>
    ReadMem pc 4 (memory m') = Inr (Inr (read_value 4 (user_bytes cur pc 4 (memory m))), v)"
proof -
  obtain v k f where v: "HandlePageFault FIFO draws cur (sint pc) (memory m) = Inr v" "mapped cur (page_of pc) k f v"
    "page_bytes v = page_bytes (memory m)"
    by (rule fault_maps [OF assms(6,7,5,4), of draws])
  let ?t = "trapped pc m (memory m)"
  have len: "length (registers m) = 40" and ld: "unat (reg m LoadReg) < 32" and inv: "vm_inv cur (memory m)"
    using assms(1) by (simp_all add: cpu_inv_def cpu_mid_def)
  have bad: "reg ?t BadVAddrReg = pc"
    using len ld by (simp add: trapped_def DelayedLoad_def reg_set_reg reg_numbers)
  have r: "reg (?t\<lparr>memory := v\<rparr>) j = reg ?t j" for j by (simp add: reg_def)
  have "ReadRegister (int BadVAddrReg) ?t = Inr pc"
    using bad by (simp add: ReadRegister_def reg_numbers)
  then have "user_step perform (HandlePageFault FIFO draws cur) (m, s) = Inr (?t\<lparr>memory := v\<rparr>, s)"
    using assms(2,3,5) v(1) by (simp add: user_step_def fetch_faults ExceptionHandler_def)
  moreover have "cpu_inv cur (?t\<lparr>memory := v\<rparr>)"
    using trapped_inv [OF assms(1) inv, of pc] mappedD(1) [OF v(2)] by (simp add: cpu_inv_def cpu_mid_def r)
  moreover have "reg ?t PCReg = pc" "reg ?t NextPCReg = reg m NextPCReg"
    using trapped_reg [OF assms(1), of PCReg pc "memory m"] trapped_reg [OF assms(1), of NextPCReg pc "memory m"] ld assms(2)
    by (auto simp: reg_numbers)
  moreover have "\<forall>k < 32. reg ?t k = (if k \<noteq> 0 \<and> k = unat (reg m LoadReg) then reg m LoadValueReg else reg m k)"
    using trapped_reg [OF assms(1)] by blast
  moreover have "ReadMem pc 4 v = Inr (Inr (read_value 4 (user_bytes cur pc 4 (memory m))), entry_used k False v)"
    using mapped_read [OF v(2) refl assms(3)] assms(8) v(3) by (simp add: user_bytes_def)
  ultimately show ?thesis using v(3)
    by (intro exI [of _ "?t\<lparr>memory := v\<rparr>"] exI [of _ "entry_used k False v"]) (simp add: r)
qed

section \<open>Witnesses\<close>

text \<open>A program at the start of page 1 whose first instruction is \<open>syscall\<close>, calling \<open>Write(140, 3, ConsoleOutput)\<close>.\<close>

lemma syscall_page:
  obtains v k f where "mapped 0 1 k f v" "user_bytes 0 128 4 v = [12, 0, 0, 0]" "user_bytes 0 140 3 v = [7, 7, 7]"
    "length (page_bytes v 0 1) = 128"
proof -
  obtain u k f where u: "mapped 0 1 k f u" "page_bytes u 0 1 = replicate 128 7" by (rule loaded_page)
  note m = mappedD [OF u(1)]
  let ?v = "page_written k f 0 [12, 0, 0, 0] u"
  have "frame_bytes f (mainMemory u) = replicate 128 7"
    using resident_bytes [OF m(1,7)] u(2) vm_sizesD(1) [OF vm_invD(1) [OF m(1)]] m(6) by simp
  then have b: "page_bytes ?v 0 1 = store_bytes 0 [12, 0, 0, 0] (replicate 128 7)"
    using page_written_ok(2) [OF m(1,2,3,5,6,7), of 0 "[12, 0, 0, 0]"] m(4) by simp
  have "mapped 0 1 k f ?v" by (rule mapped_page_written [OF u(1)]) simp
  moreover have "page_of 128 = 1" "page_of 140 = 1" "offset_of 128 = 0" "offset_of 140 = 12"
    by (simp_all add: page_of_def offset_of_def)
  ultimately show ?thesis
    using that b by (simp add: user_bytes_def store_bytes_def numeral_3_eq_3 numeral_eq_Suc)
qed

definition console_call :: "vm \<Rightarrow> machine" where
  "console_call v = \<lparr>registers = (replicate 40 0)[2 := 7, 4 := 140, 5 := 3, 6 := 1, PCReg := 128, NextPCReg := 132], memory = v\<rparr>"

lemma console_call_inv: "vm_inv cur v \<Longrightarrow> cpu_inv cur (console_call v)"
  by (simp add: cpu_inv_def cpu_mid_def console_call_def reg_def reg_numbers)

abbreviation "console_perform \<equiv> on_machine (file_call (\<lambda>_ _. Inl Halted) mem0 (\<lambda>_. 0) (\<lambda>_. 12) (\<lambda>_. []) (\<lambda>_ _. Inl Halted))"

lemma console_ready:
  obtains v w w' where "cpu_inv 0 (console_call v)" "ReadMem (reg (console_call v) PCReg) 4 (memory (console_call v)) = Inr (Inr 12, w)"
    "calls (K_Write 140 3 1) (trapped 0 (console_call v) w)"
    "\<forall>fs h. console_perform (K_Write 140 3 1) (trapped 0 (console_call v) w) (two_open fs h v) =
      Inr (0, (trapped 0 (console_call v) w)\<lparr>memory := w'\<rparr>, (two_open fs h v)\<lparr>userMem := w', screen := [7, 7, 7]\<rparr>)"
proof -
  obtain v k f where v: "mapped 0 1 k f v" "user_bytes 0 128 4 v = [12, 0, 0, 0]" "user_bytes 0 140 3 v = [7, 7, 7]"
    "length (page_bytes v 0 1) = 128" by (rule syscall_page)
  have p: "page_of 128 = 1" "page_of 140 = 1" "offset_of 128 = 0" "offset_of 140 = 12" by (simp_all add: page_of_def offset_of_def)
  let ?m = "console_call v" and ?w = "entry_used k False v"
  have pc: "reg ?m PCReg = 128" "memory ?m = v" by (simp_all add: console_call_def reg_def reg_numbers)
  have "ReadMem 128 4 v = Inr (Inr (read_value 4 [12, 0, 0, 0]), ?w)"
    using mapped_read [OF v(1) p(1), of 4] v(2,4) p(3) by (simp add: aligned_def)
  then have fetch: "ReadMem (reg ?m PCReg) 4 (memory ?m) = Inr (Inr 12, ?w)"
    unfolding pc by (simp add: read_value_def word_of_bytes_def)
  have inv: "cpu_inv 0 ?m" by (rule console_call_inv [OF mappedD(1) [OF v(1)]])
  have c: "calls (K_Write 140 3 1) (trapped 0 ?m ?w)"
    using trapped_reg [OF inv, of _ 0 ?w] by (simp add: calls_def) (simp add: console_call_def reg_def reg_numbers)
  have w: "mapped 0 1 k f ?w" "page_bytes ?w = page_bytes v"
    using mapped_entry_used [OF v(1)] entry_read_ok(2) [OF mappedD(1,2) [OF v(1)]] by simp_all
  obtain w' where w': "copyin (\<lambda>_ _. Inl Halted) 3 140 ?w = Inr ([7, 7, 7], w')"
    using copyin_mapped [OF w(1), of 3 140 "\<lambda>_ _. Inl Halted"] user_bytes_mapped(1) [OF w(1) p(2), of 3] v(3,4) w(2) p
    by (auto simp: user_bytes_def)
  have "console_perform (K_Write 140 3 1) (trapped 0 ?m ?w) (two_open fs h v) =
      Inr (0, (trapped 0 ?m ?w)\<lparr>memory := w'\<rparr>, (two_open fs h v)\<lparr>userMem := w', screen := [7, 7, 7]\<rparr>)" for fs h
    using w' by (simp add: on_machine_def Write_Syscall_def ConsoleInput_def ConsoleOutput_def two_open_def)
  then show ?thesis using that [OF inv fetch c] by blast
qed


theorem page_fault_restarts_witness:
  "\<exists>m' v. user_step (\<lambda>_ _ _. Inl Halted) (HandlePageFault FIFO [] 0) (console_call (example_vm one_page True), ()) = Inr (m', ()) \<and>
     reg m' PCReg = 128 \<and> ReadMem 128 4 (memory m') = Inr (Inr (word_of_bytes [7, 7, 7, 7]), v)"
proof -
  let ?m = "console_call (example_vm one_page True)"
  have inv: "cpu_inv 0 ?m" by (rule console_call_inv) (rule example_vm_inv [OF one_page_ok(1)])
  have pc: "reg ?m PCReg = 128" "memory ?m = example_vm one_page True" "offset_of 128 = 0"
    by (simp_all add: console_call_def reg_def reg_numbers offset_of_def)
  have ub: "read_value 4 (user_bytes 0 128 4 (example_vm one_page True)) = word_of_bytes [7, 7, 7, 7]"
    using absent_page(4) pc(3) by (simp add: user_bytes_def read_value_def numeral_eq_Suc)
  show ?thesis
    using page_fault_restarts [where m = ?m and pc = 128 and perform = "\<lambda>_ _ _. Inl Halted" and s = "()" and draws = "[]" and cur = 0,
        OF inv] absent_page pc ub by (auto simp: aligned_def)
qed

end
