(* ===== verification/Nachos_FileInv.thy ===== *)
theory Nachos_FileInv
  imports Nachos_Exceptions
begin

text \<open>
  Whatever calls for files a program makes, in any order and with any arguments, the disk stays
  consistent and every descriptor keeps standing for a file.
\<close>

section \<open>The invariant\<close>

definition files_ok :: "fstate \<Rightarrow> bool" where
  "files_ok s \<longleftrightarrow> fs_inv (fileSystem s) \<and> table_inv (fileTable s) \<and>
     (\<forall>i x. Table_Get i (fileTable s) = Inr (Some x) \<longrightarrow>
        (\<exists>n. opened (fileSystem s) n (hdr (fileAt s x))) \<and> 0 \<le> seekPosition (fileAt s x))"

lemma files_okD:
  assumes "files_ok s"
  shows "fs_inv (fileSystem s)" "table_inv (fileTable s)"
    "Table_Get i (fileTable s) = Inr (Some x) \<Longrightarrow> \<exists>n. opened (fileSystem s) n (hdr (fileAt s x))"
    "Table_Get i (fileTable s) = Inr (Some x) \<Longrightarrow> 0 \<le> seekPosition (fileAt s x)"
  using assms unfolding files_ok_def by blast+

lemma files_ok_more [simp]:
  "files_ok (s\<lparr>userMem := m\<rparr>) = files_ok s" "files_ok (s\<lparr>screen := z\<rparr>) = files_ok s"
  by (simp_all add: files_ok_def)

text \<open>Another system in which all files that were open still are.\<close>

lemma files_ok_system:
  assumes "files_ok s" "fs_inv fs'" "\<And>n h. opened (fileSystem s) n h \<Longrightarrow> opened fs' n h"
  shows "files_ok (s\<lparr>fileSystem := fs'\<rparr>)"
  using assms unfolding files_ok_def by simp blast

text \<open>Another position, or another file, at an address.\<close>

lemma files_ok_at:
  assumes "files_ok s" "\<exists>n. opened (fileSystem s) n (hdr f)" "0 \<le> seekPosition f"
  shows "files_ok (s\<lparr>fileAt := (fileAt s)(x := f)\<rparr>)"
  using assms unfolding files_ok_def by simp

section \<open>The operations\<close>

lemma create_keeps:
  assumes "fs_inv fs" "fsmem_ok g" "FileSystem_Create g nm 0 fs = Inr (b, fs')"
  shows "fs_inv fs'" "opened fs n h \<Longrightarrow> opened fs' n h"
proof -
  have *: "fs_inv fs' \<and> (\<forall>n h. opened fs n h \<longrightarrow> opened fs' n h)"
  proof (cases "can_create nm 0 fs")
    case True
    from Create_done [OF assms(1,2) _ _ True] assms(3) obtain i e0 h k where
      c: "fs_inv fs'" "created fs i e0 h fs'" "i < 10" "\<not> inUse (fs_dir fs ! i)" "sector e0 = int k" "k \<notin> bm_set (fs_map fs)"
      by auto
    show ?thesis using c(1) created_opened [OF assms(1) c(2-6)] by blast
  next
    case False
    then show ?thesis using Create_refused [OF assms(1,2) _ False] assms(1,3) by simp
  qed
  show "fs_inv fs'" "opened fs n h \<Longrightarrow> opened fs' n h" using * by blast+
qed

lemma opened_keeps:
  assumes inv: "fs_inv fs" and o: "opened fs n h" and d: "disk_ok S'"
    and eq: "\<And>s. s \<notin> set (file_sectors h) \<Longrightarrow> S' s = fsDisk fs s" and o2: "opened fs n2 h2"
  shows "opened (on_disk fs S') n2 h2"
proof -
  have ok: "sys_ok fs" "dir_ok fs" using inv by (simp_all add: fs_inv_def)
  obtain i where i: "i < 10" "inUse (fs_dir fs ! i)" "entry_hdr fs (fs_dir fs ! i) = h"
    using o by (auto simp: opened_def used_slots_def)
  obtain j where j: "j < 10" "inUse (fs_dir fs ! j)" "short_name (entryName (fs_dir fs ! j)) = n2" "entry_hdr fs (fs_dir fs ! j) = h2"
    using o2 by (auto simp: opened_def used_slots_def)
  note gi = entry_goodD [OF ok(2) i(1,2)]
  have data: "set (file_sectors h) \<subseteq> entry_blocks fs (fs_dir fs ! i)" using i(3) by (auto simp: entry_blocks_def)
  have "S' s = fsDisk fs s" if "s \<in> sys_blocks fs" for s using gi data that eq by (fastforce simp: entry_good_def)
  then have dir: "fs_dir (on_disk fs S') = fs_dir fs" using state_cong [OF ok(1) d] by blast
  let ?s = "sector (fs_dir fs ! j)"
  have s: "?s \<in> entry_blocks fs (fs_dir fs ! j)" by (simp add: entry_blocks_def)
  have "?s \<notin> set (file_sectors h)"
  proof (cases "j = i")
    case True
    then show ?thesis using gi i(3) by (auto simp: entry_good_def)
  next
    case False
    then show ?thesis using entries_apart(2) [OF ok(2) i(1) j(1) _ i(2) j(2)] data s by blast
  qed
  then have "entry_hdr (on_disk fs S') (fs_dir fs ! j) = h2" using eq j(4) by (simp add: entry_hdr_def)
  then show ?thesis using j dir by (auto simp: opened_def used_slots_def)
qed

lemma write_keeps:
  assumes "fs_inv fs" "opened fs n (hdr f)" "0 \<le> seekPosition f" "k \<le> int (length src)"
    "OpenFile_Write old src k f (fsDisk fs) = Inr (r, f', S')"
  shows "fs_inv (on_disk fs S')" "opened fs n2 h2 \<Longrightarrow> opened (on_disk fs S') n2 h2" "hdr f' = hdr f" "0 \<le> seekPosition f'"
proof -
  note oc = opened_content [OF assms(1,2)]
  from WriteAt_ok [OF oc(4,1) assms(3,4), of old] obtain m :: nat and S1 where
    S: "OpenFile_WriteAt old src k (seekPosition f) f (fsDisk fs) = Inr (int m, S1)" "disk_ok S1"
      "\<And>s. s \<notin> set (file_sectors (hdr f)) \<Longrightarrow> S1 s = fsDisk fs s" by blast
  have r: "r = int m" "S' = S1" "f' = f\<lparr>seekPosition := seekPosition f + int m\<rparr>"
    using assms(5) S(1) by (auto simp: OpenFile_Write_def)
  show "fs_inv (on_disk fs S')" unfolding r by (rule change_file(1) [OF assms(1,2) S(2,3)])
  show "opened fs n2 h2 \<Longrightarrow> opened (on_disk fs S') n2 h2" unfolding r by (rule opened_keeps [OF assms(1,2) S(2,3)])
  show "hdr f' = hdr f" "0 \<le> seekPosition f'" using assms(3) unfolding r by simp_all
qed

lemma copyin_length: "copyin pf n va s = Inr (bs, s') \<Longrightarrow> length bs = n"
  by (induction n arbitrary: va s bs) (auto simp: copyin.simps(2) bindE_eq_Inr)

section \<open>The table\<close>

lemma put_keeps:
  assumes "files_ok s" "Table_Put (Some x) (fileTable s) = Inr (i, t)" "i \<noteq> -1" "opened (fileSystem s) n (hdr f)"
    "0 \<le> seekPosition f"
  shows "files_ok (s\<lparr>fileTable := t, fileAt := (fileAt s)(x := f)\<rparr>)"
proof -
  from table_put_get_remove [OF files_okD(2) [OF assms(1)], of "Some x"] assms(2,3)
  have t: "table_inv t" "table_abs t = (table_abs (fileTable s))(nat i \<mapsto> Some x)" by auto
  have "j \<noteq> x \<Longrightarrow> Table_Get k (fileTable s) = Inr (Some j)" if "Table_Get k t = Inr (Some j)" for k j
    using that t(2) by (auto simp: Get_refines [OF t(1)] Get_refines [OF files_okD(2) [OF assms(1)]] split: option.splits if_splits)
  then show ?thesis using assms(1,4,5) t(1) unfolding files_ok_def by simp blast
qed

lemma remove_keeps:
  assumes "files_ok s" "Table_Remove i (fileTable s) = Inr (r, t)"
  shows "files_ok (s\<lparr>fileTable := t\<rparr>)"
proof (cases "0 \<le> i \<and> nat i \<in> bm_set (tmap (fileTable s))")
  case True
  note inv = files_okD(2) [OF assms(1)]
  from True have i: "0 \<le> i" "nat i \<in> bm_set (tmap (fileTable s))" by simp_all
  from Remove_refines [OF inv i] assms(2) have t: "table_inv t" "table_abs t = (table_abs (fileTable s))(nat i := None)" by auto
  have "Table_Get k (fileTable s) = Inr (Some j)" if "Table_Get k t = Inr (Some j)" for k j
    using that t(2) by (auto simp: Get_refines [OF t(1)] Get_refines [OF inv] split: option.splits if_splits)
  then show ?thesis using assms(1) t(1) unfolding files_ok_def by simp blast
next
  case False
  note inv = files_okD(2) [OF assms(1)]
  have "t = fileTable s"
  proof (cases "0 \<le> i \<and> i < size (fileTable s)")
    case True
    then have "BitMap_Test i (tmap (fileTable s)) = Inr False"
      using Test_refines [of "tmap (fileTable s)" "nat i"] inv False by (simp add: table_inv_def)
    then show ?thesis using assms(2) True by (simp add: Table_Remove_def)
  qed (use assms(2) in \<open>auto simp: Table_Remove_def\<close>)
  then show ?thesis using assms(1) by simp
qed

section \<open>The calls\<close>

lemma Create_ok:
  assumes "files_ok s" "fsmem_ok g" "Create_Syscall pf g v n s = Inr s'"
  shows "files_ok s'"
proof -
  from assms(3) obtain r m where c: "copy_buf pf v n (userMem s) = Inr (r, m)" by (auto simp: Create_Syscall_def bindE_eq_Inr)
  show ?thesis
  proof (cases r)
    case None
    then show ?thesis using assms(1,3) c by (auto simp: Create_Syscall_def)
  next
    case (Some buf)
    then obtain b fs where f: "FileSystem_Create g (file_name buf) 0 (fileSystem s) = Inr (b, fs)"
      "s' = s\<lparr>userMem := m, fileSystem := fs\<rparr>" using assms(3) c by (auto simp: Create_Syscall_def bindE_eq_Inr)
    note k = create_keeps [OF files_okD(1) [OF assms(1)] assms(2) f(1)]
    have "files_ok (s\<lparr>fileSystem := fs\<rparr>)" by (rule files_ok_system [OF assms(1) k])
    moreover have "s' = s\<lparr>fileSystem := fs\<rparr>\<lparr>userMem := m\<rparr>" using f(2) by simp
    ultimately show ?thesis by simp
  qed
qed

lemma FileSystem_Open_opened:
  assumes "fs_inv fs" "fsmem_ok g" "FileSystem_Open g nm fs = Inr (Some f)"
  shows "opened fs (short_name nm) (hdr f)" "seekPosition f = 0"
proof -
  have *: "opened fs (short_name nm) (hdr f) \<and> seekPosition f = 0"
  proof (cases "fs_files fs (short_name nm)")
    case None
    then show ?thesis using Open_absent [OF assms(1,2) None] assms(3) by simp
  next
    case (Some c)
    then show ?thesis using Open_found [OF assms(1,2) Some] assms(3) by auto
  qed
  then show "opened fs (short_name nm) (hdr f)" "seekPosition f = 0" by blast+
qed

lemma Open_ok:
  assumes "files_ok s" "fsmem_ok g" "Open_Syscall pf g x v n s = Inr (r, s')"
  shows "files_ok s'"
proof -
  from assms(3) obtain b m where c: "copy_buf pf v n (userMem s) = Inr (b, m)" by (auto simp: Open_Syscall_def bindE_eq_Inr)
  let ?s1 = "s\<lparr>userMem := m\<rparr>"
  have ok1: "files_ok ?s1" using assms(1) by simp
  from assms(3) c consider "s' = ?s1" | buf f t where "b = Some buf" "FileSystem_Open g (file_name buf) (fileSystem s) = Inr (Some f)"
      "Table_Put (Some x) (fileTable s) = Inr (r, t)" "r \<noteq> -1" "s' = ?s1\<lparr>fileTable := t, fileAt := (fileAt s)(x := f)\<rparr>"
    by (auto simp: Open_Syscall_def bindE_eq_Inr Let_def split: option.splits if_splits)
  then show ?thesis
  proof cases
    case 2
    note o = FileSystem_Open_opened [OF files_okD(1) [OF assms(1)] assms(2) 2(2)]
    show ?thesis using put_keeps [OF ok1, of x r t "short_name (file_name buf)" f] 2 o by simp
  qed (use ok1 in simp)
qed

lemma Write_ok:
  assumes "files_ok s" "Write_Syscall pf old v n i s = Inr s'"
  shows "files_ok s'"
proof (cases "i = ConsoleInput")
  case True
  then show ?thesis using assms by (simp add: Write_Syscall_def)
next
  case False
  then obtain buf m where n: "0 \<le> n" "copyin pf (nat n) v (userMem s) = Inr (buf, m)"
    using assms(2) by (auto simp: Write_Syscall_def bindE_eq_Inr split: if_splits)
  have len: "n \<le> int (length buf)" using copyin_length [OF n(2)] n(1) by simp
  let ?s1 = "s\<lparr>userMem := m\<rparr>"
  from assms(2) False n consider "s' = ?s1" | "s' = ?s1\<lparr>screen := screen s @ buf\<rparr>"
    | x r f S where "Table_Get i (fileTable s) = Inr (Some x)"
       "OpenFile_Write old buf n (fileAt s x) (fsDisk (fileSystem s)) = Inr (r, f, S)"
       "s' = ?s1\<lparr>fileAt := (fileAt s)(x := f), fileSystem := on_disk (fileSystem s) S\<rparr>"
    by (auto simp: Write_Syscall_def bindE_eq_Inr Let_def split: option.splits if_splits)
  then show ?thesis
  proof cases
    case 3
    obtain nm where o: "opened (fileSystem s) nm (hdr (fileAt s x))" using files_okD(3) [OF assms(1) 3(1)] by blast
    note w = write_keeps [OF files_okD(1) [OF assms(1)] o files_okD(4) [OF assms(1) 3(1)] len 3(2)]
    have "files_ok (s\<lparr>fileSystem := on_disk (fileSystem s) S\<rparr>)" by (rule files_ok_system [OF assms(1) w(1,2)])
    from files_ok_at [OF this, of f x] w(2) [OF o] w(3,4)
    have "files_ok (s\<lparr>fileSystem := on_disk (fileSystem s) S, fileAt := (fileAt s)(x := f)\<rparr>)" by auto
    then have "files_ok (s\<lparr>fileSystem := on_disk (fileSystem s) S, fileAt := (fileAt s)(x := f)\<rparr>\<lparr>userMem := m\<rparr>)" by simp
    moreover have "s' = s\<lparr>fileSystem := on_disk (fileSystem s) S, fileAt := (fileAt s)(x := f)\<rparr>\<lparr>userMem := m\<rparr>"
      using 3(3) by (cases s) simp
    ultimately show ?thesis by simp
  qed (use assms(1) in simp_all)
qed

lemma Read_ok:
  assumes "files_ok s" "Read_Syscall pf old typed v n i s = Inr (r, s')"
  shows "files_ok s'"
proof -
  from assms(2) consider "s' = s" | m where "s' = s\<lparr>userMem := m\<rparr>"
    | x bs f m where "Table_Get i (fileTable s) = Inr (Some x)" "OpenFile_Read n (fileAt s x) (fsDisk (fileSystem s)) = Inr (bs, f)"
        "s' = s\<lparr>fileAt := (fileAt s)(x := f)\<rparr> \<or> s' = s\<lparr>fileAt := (fileAt s)(x := f)\<rparr>\<lparr>userMem := m\<rparr>"
    by (simp add: Read_Syscall_def bindE_eq_Inr Let_def split: option.splits if_splits) blast+
  then show ?thesis
  proof cases
    case 3
    have f: "hdr f = hdr (fileAt s x)" "0 \<le> seekPosition f"
      using 3(2) files_okD(4) [OF assms(1) 3(1)] by (auto simp: OpenFile_Read_def bindE_eq_Inr)
    have "files_ok (s\<lparr>fileAt := (fileAt s)(x := f)\<rparr>)"
      by (rule files_ok_at [OF assms(1)]) (use f files_okD(3) [OF assms(1) 3(1)] in auto)
    then show ?thesis using 3(3) by auto
  qed (use assms(1) in simp_all)
qed

lemma Close_ok:
  assumes "files_ok s" "Close_Syscall i s = Inr s'"
  shows "files_ok s'"
  using assms(2) remove_keeps [OF assms(1)] by (auto simp: Close_Syscall_def bindE_eq_Inr)

lemma file_call_ok:
  assumes "files_ok s" "fsmem_ok g" "file_call pf g old new typed other c s = Inr (r, s')"
    "\<And>c s r s'. other c s = Inr (r, s') \<Longrightarrow> files_ok s \<Longrightarrow> files_ok s'"
  shows "files_ok s'"
  using assms(1,3)
  by (cases c)
    (auto simp: bindE_eq_Inr intro: Create_ok [OF assms(1,2)] Open_ok [OF assms(1,2)] Write_ok [OF assms(1)]
      Read_ok [OF assms(1)] Close_ok [OF assms(1)] assms(4))

section \<open>Properties\<close>


lemma two_open_ok:
  assumes "fs_inv fs" "opened fs nm h"
  shows "files_ok (two_open fs h v)"
proof -
  have "table_inv (fileTable (two_open fs h v))"
    by (simp add: two_open_def table_inv_def bm_inv_def divRoundUp_def BitsInWord_def)
  then show ?thesis using assms by (auto simp: files_ok_def two_open_def)
qed


end
