(* ===== verification/Nachos_Holding.thy ===== *)
theory Nachos_Holding
  imports Nachos_Effects
begin

text \<open>
  The locks a thread holds, from its own point of view: those it owns, those whose hand-over it is
  waiting for inside \<open>Acquire\<close>, and those it gets back at the end of \<open>Wait\<close>.  Only the thread's own
  calls change this set, whatever the other threads do.
\<close>

definition holds :: "sys \<Rightarrow> tid \<Rightarrow> nat set" where
  "holds s t = {l. ownerThread (locks s l) = Some t \<or> AcquireDone l \<in> set (frames s t) \<or> WaitReacquire l \<in> set (frames s t)}"

fun held_after :: "operation \<Rightarrow> nat set \<Rightarrow> nat set" where
  "held_after (DoAcquire l) H = insert l H"
| "held_after (DoRelease l) H = H - {l}"
| "held_after _ H = H"

text \<open>A thread in its own code owns what it holds.\<close>

lemma holds_owner: "frames s t = [] \<Longrightarrow> l \<in> holds s t \<longleftrightarrow> ownerThread (locks s l) = Some t"
  by (simp add: holds_def)

lemma holds_cong: "locks s' = locks s \<Longrightarrow> frames s' = frames s \<Longrightarrow> holds s' = holds s"
  by (rule ext) (simp add: holds_def)

text \<open>Frames that do not matter for locks.\<close>

definition lock_free :: "frame list \<Rightarrow> bool" where
  "lock_free fs \<longleftrightarrow> (\<forall>l. AcquireDone l \<notin> set fs \<and> WaitReacquire l \<notin> set fs)"

lemma holds_push:
  assumes "locks s' = locks s" "frames s' = (frames s)(u := fr @ frames s u)" "lock_free fr"
  shows "holds s' = holds s"
  using assms by (auto simp: holds_def lock_free_def fun_eq_iff)

lemma lock_free_simps [simp]:
  "lock_free []" "lock_free (RestoreLevel v # fs) = lock_free fs" "lock_free (SemRetry m # fs) = lock_free fs"
  "lock_free (ThreadRoot # fs) = lock_free fs" "lock_free (NotReached # fs) = lock_free fs"
  by (auto simp: lock_free_def)

section \<open>Each operation\<close>

lemma Release_holds:
  assumes "lock_inv s" "frames s (currentThread s) = []"
  shows "holds (Lock_Release l s) t = (if t = currentThread s then holds s t - {l} else holds s t)"
proof (cases "isHeldByCurrentThread l s")
  case False
  then have "l \<notin> holds s (currentThread s)" using assms(2) by (simp add: holds_owner isHeldByCurrentThread_def)
  with False show ?thesis by (simp add: Release_cases)
next
  case True
  have own: "ownerThread (locks s l) = Some (currentThread s)" using True by (simp add: isHeldByCurrentThread_def)
  have fr: "frames (Lock_Release l s) = frames s" by (simp add: Release_same)
  show ?thesis
  proof (cases "lqueue (locks s l)")
    case Nil
    then show ?thesis using own assms(2) by (auto simp: holds_def Release_owner fr True)
  next
    case (Cons u q)
    then have "AcquireDone l \<in> set (frames s u)" "u \<noteq> currentThread s"
      using lock_invD(5) [OF assms(1), of u l] lock_invD(3) [OF assms(1) own] by auto
    then show ?thesis using own assms(2) Cons by (auto simp: holds_def Release_owner fr True)
  qed
qed

lemma Acquire_holds:
  assumes "lock_inv s" "Lock_Acquire l s = Inr s'"
  shows "holds s' t = (if t = currentThread s then insert l (holds s t) else holds s t)"
proof -
  consider "isHeldByCurrentThread l s" | "\<not> isHeldByCurrentThread l s" "free (locks s l)"
    | "\<not> isHeldByCurrentThread l s" "\<not> free (locks s l)" by blast
  then show ?thesis
  proof cases
    case 1
    then have "l \<in> holds s (currentThread s)" by (simp add: holds_def isHeldByCurrentThread_def)
    then show ?thesis using assms(2) 1 by (auto simp: Acquire_cases)
  next
    case 2
    then have "ownerThread (locks s l) = None" using lock_invD(1) [OF assms(1)] by blast
    then show ?thesis using assms(2) 2 by (auto simp: Acquire_cases holds_def split: if_splits)
  next
    case 3
    note a = assms(2) [unfolded Acquire_cases(3) [OF 3]]
    show ?thesis using Sleep_locals(2,4) [OF a] by (auto simp: holds_def)
  qed
qed

lemma Wait_holds:
  assumes "lock_inv s" "frames s (currentThread s) = []" "Condition_Wait c (Some l) s = Inr s'" "l \<in> holds s (currentThread s)"
  shows "holds s' t = holds s t"
proof (cases "wait_refused c (Some l) s")
  case True
  with assms(3) show ?thesis by (simp add: Wait_cases)
next
  case False
  let ?s1 = "s\<lparr>level := IntOff, conds := (conds s)(c := (conds s c)\<lparr>waitingLock := Some l\<rparr>)\<rparr>"
  let ?s2 = "Lock_Release l ?s1"
  note a = assms(3) [unfolded Wait_cases(2) [OF False refl]]
  have li: "lock_inv ?s1" using assms(1) lock_inv_cong [of ?s1 s] by simp
  have h1: "holds ?s1 = holds s" by (rule holds_cong) simp_all
  have s2: "holds ?s2 t = (if t = currentThread s then holds s t - {l} else holds s t)"
    using Release_holds [OF li, of l t] assms(2) h1 by simp
  have "locks s' = locks ?s2" "frames s' = (frames s)(currentThread s := [WaitReacquire l, RestoreLevel (level s)])"
    using Sleep_locals(2,4) [OF a] assms(2) by (simp_all add: Release_same)
  then have "holds s' t = (if t = currentThread s then insert l (holds ?s2 t) else holds ?s2 t)"
    using assms(2) by (auto simp: holds_def Release_same)
  then show ?thesis using s2 assms(4) by auto
qed

lemma Yield_holds: "Thread_Yield s = Inr s' \<Longrightarrow> holds (s' :: sys) = holds s"
proof -
  assume y: "Thread_Yield s = Inr s'"
  show ?thesis
  proof (cases "frames s' = frames s")
    case True
    show ?thesis by (rule holds_cong [OF Yield_locals(2) [OF y] True])
  next
    case False
    then have "frames s' = (frames s)(currentThread s := [RestoreLevel (level s)] @ frames s (currentThread s))"
      using Yield_locals(5) [OF y] by auto
    then show ?thesis by (rule holds_push [OF Yield_locals(2) [OF y]]) simp
  qed
qed

lemma P_holds: "Semaphore_P m s = Inr s' \<Longrightarrow> holds s' = holds s"
proof (cases "svalue (sems s m) = 0")
  case True
  assume "Semaphore_P m s = Inr s'"
  note a = this [unfolded P_cases(1) [OF True] P_wait_def]
  show ?thesis
    by (rule holds_push [where u = "currentThread s" and fr = "[SemRetry m, RestoreLevel (level s)]"])
      (use Sleep_locals(2,4) [OF a] in simp_all)
next
  case False
  assume "Semaphore_P m s = Inr s'"
  then show ?thesis using False by (auto simp: P_cases P_take_def intro: holds_cong)
qed

lemma V_holds: "holds (Semaphore_V m s) = holds s"
  by (cases "squeue (sems s m)") (auto simp: V_cases ReadyToRun_def intro: holds_cong)

lemma Signal_holds: "holds (Condition_Signal c lo s) = holds s"
proof (cases "signal_refused c lo s")
  case True
  then show ?thesis by (simp add: Signal_cases)
next
  case False
  then obtain t q where q: "cqueue (conds s c) = t # q"
    by (cases "cqueue (conds s c)") (auto simp: signal_refused_def)
  show ?thesis by (rule holds_cong) (simp_all add: Signal_cases(2) [OF False q] ReadyToRun_def)
qed

lemma Broadcast_holds:
  assumes "Condition_Broadcast c lo s = Some s'"
  shows "holds s' = holds s"
proof (rule Condition_Broadcast.raw_induct [where P = "\<lambda>c lo s s'. holds s' = holds s", OF _ assms])
  fix f :: "nat \<Rightarrow> nat option \<Rightarrow> sys \<Rightarrow> sys option" and c lo s s'
  assume 1: "\<And>c lo s y. f c lo s = Some y \<Longrightarrow> holds y = holds s"
    and 2: "(if q_is_empty (cqueue (conds s c)) then Some s else f c lo (Condition_Signal c lo s)) = Some s'"
  then show "holds s' = holds s" using 1 [of c lo "Condition_Signal c lo s" s'] Signal_holds [of c lo s]
    by (auto split: if_splits)
qed

lemma Finish_holds: "Thread_Finish s = Inr s' \<Longrightarrow> holds (s' :: sys) = holds s"
  unfolding Thread_Finish_def
  by (rule holds_push [where u = "currentThread s" and fr = "[NotReached]"]) (auto dest: Sleep_locals(2,4))

lemma Fork_holds:
  "holds (Thread_Fork t' (Thread_new t' s)) t = (if t = t' then {l. ownerThread (locks s l) = Some t} else holds s t)"
  by (auto simp: holds_def Thread_Fork_def Thread_new_def ReadyToRun_def)

text \<open>The condition of a call on what the caller holds: \<open>Wait\<close> only with a lock that is held.\<close>

fun waits_held :: "operation \<Rightarrow> nat set \<Rightarrow> bool" where
  "waits_held (DoWait c lo) H = (\<exists>l. lo = Some l \<and> l \<in> H)"
| "waits_held _ H = True"

lemma exec_holds:
  assumes inv: "sync_inv s" and cur: "frames s (currentThread s) = []" and ex: "exec a s = Some (Inr s')"
    and w: "waits_held a (holds s (currentThread s))" and new: "\<And>t'. a = DoFork t' \<Longrightarrow> holds s t' = {}"
  shows "holds s' t = (if t = currentThread s then held_after a (holds s t) else holds s t)"
proof -
  have L: "lock_inv s" using inv by (simp add: sync_inv_def)
  show ?thesis
  proof (cases a)
    case (DoFork t')
    then have "s' = Thread_Fork t' (Thread_new t' s)" using ex by simp
    moreover have "{l. ownerThread (locks s l) = Some t'} = {}" using new [OF DoFork] by (auto simp: holds_def)
    ultimately show ?thesis using new [OF DoFork] DoFork by (auto simp: Fork_holds)
  next
    case (DoWait c lo)
    then obtain l where l: "lo = Some l" "l \<in> holds s (currentThread s)" using w by auto
    then show ?thesis using ex DoWait Wait_holds [OF L cur _ l(2), of c s' t] by simp
  next
    case (DoBroadcast c lo)
    then show ?thesis using ex Broadcast_holds [of c lo s s'] by auto
  next
    case (DoAcquire l)
    then show ?thesis using ex Acquire_holds [OF L, of l s' t] by simp
  next
    case (DoRelease l)
    then show ?thesis using ex Release_holds [OF L cur, of l t] by auto
  next
    case (DoP m)
    then show ?thesis using ex P_holds [of m s s'] by simp
  next
    case (DoV m)
    then show ?thesis using ex V_holds [of m s] by auto
  next
    case (DoSignal c lo)
    then show ?thesis using ex Signal_holds [of c lo s] by auto
  next
    case DoYield
    then show ?thesis using ex Yield_holds [of s s'] by simp
  next
    case DoFinish
    then show ?thesis using ex Finish_holds [of s s'] by simp
  qed
qed

section \<open>Steps\<close>

lemma resume_holds:
  assumes inv: "sync_inv s" and i: "\<not> idling s" and r: "resume s = Inr s'"
  shows "holds s' = holds s"
proof (cases "frames s (currentThread s)")
  case Nil
  with r show ?thesis by (simp add: resume_def)
next
  case (Cons f fs)
  let ?t = "currentThread s" and ?p = "pop_frame s"
  have K: "kernel_inv s (waitq s)" and L: "lock_inv s" using inv by (simp_all add: sync_inv_def)
  have p: "locks ?p = locks s" "frames ?p = (frames s)(?t := fs)" "currentThread ?p = ?t" "sems ?p = sems s" "level ?p = level s"
    using Cons by (simp_all add: pop_frame_def)
  have plain: "holds ?p = holds s" if "lock_free [f]"
    using that p Cons by (auto simp: holds_def lock_free_def fun_eq_iff)
  show ?thesis
  proof (cases f)
    case (AcquireDone l)
    have "?t \<notin> set (waitq s (QL l))" by (rule kernel_inv_current(2) [OF K i])
    then have "ownerThread (locks s l) = Some ?t" using lock_invD(4) [OF L, of l ?t] Cons AcquireDone by simp
    then have "holds ?p = holds s" using p Cons AcquireDone by (auto simp: holds_def fun_eq_iff)
    then show ?thesis using r Cons AcquireDone by (simp add: resume_def)
  next
    case (WaitReacquire l)
    have lp: "lock_inv ?p" by (rule pop_lock_inv [OF L]) (use kernel_inv_current(2) [OF K i, of "QL _"] in simp)
    have "Lock_Acquire l ?p = Inr s'" using r Cons WaitReacquire by (simp add: resume_def)
    from Acquire_holds [OF lp this] have "holds s' t = (if t = ?t then insert l (holds ?p t) else holds ?p t)" for t
      by (simp add: p)
    moreover have "(if t = ?t then insert l (holds ?p t) else holds ?p t) = holds s t" for t
      using p Cons WaitReacquire by (auto simp: holds_def)
    ultimately show ?thesis by (simp add: fun_eq_iff)
  next
    case (SemRetry m)
    show ?thesis
    proof (cases "svalue (sems s m) = 0")
      case True
      then have "P_wait m [] ?p = Inr s'" using r Cons SemRetry by (simp add: resume_def)
      note a = this [unfolded P_wait_def]
      have "holds s' = holds ?p"
        by (rule holds_push [where u = ?t and fr = "[SemRetry m]"]) (use Sleep_locals(2,4) [OF a] p in simp_all)
      then show ?thesis using plain SemRetry by simp
    next
      case False
      then have "s' = P_take m ?p" using r Cons SemRetry by (simp add: resume_def)
      then have "holds s' = holds ?p" by (auto simp: P_take_def intro: holds_cong)
      then show ?thesis using plain SemRetry by simp
    qed
  next
    case (RestoreLevel v)
    then have "s' = ?p\<lparr>level := v\<rparr>" using r Cons by (simp add: resume_def)
    then have "holds s' = holds ?p" by (auto intro: holds_cong)
    then show ?thesis using plain RestoreLevel by simp
  next
    case ThreadRoot
    then have "s' = ?p\<lparr>level := IntOn\<rparr>" using r Cons by (simp add: resume_def)
    then have "holds s' = holds ?p" by (auto intro: holds_cong)
    then show ?thesis using plain ThreadRoot by simp
  next
    case NotReached
    then show ?thesis using r Cons by (simp add: resume_def)
  qed
qed

lemma step_None_holds:
  assumes "step None s s'" "sync_inv s"
  shows "holds s' = holds s"
  using assms(1)
  by (rule step_NoneE) (auto simp: resume_holds [OF assms(2)] V_holds intro: holds_cong dest: Sleep_loop_locals(2,4))

lemma step_op_holds:
  assumes "step (Some a) s s'" "sync_inv s" "waits_held a (holds s (currentThread s))" "\<And>t'. a = DoFork t' \<Longrightarrow> holds s t' = {}"
  shows "holds s' t = (if t = currentThread s then held_after a (holds s t) else holds s t)"
  using assms(1) by (rule step_opE) (use exec_holds assms(2-4) in blast)

end
