(* ===== verification/Nachos_Programs.thy ===== *)
theory Nachos_Programs
  imports Nachos_Holding
begin

text \<open>
  Threads that run functions of the kernel: statements whose expressions are HOL functions of the global
  data \<open>'g\<close> and of the locals \<open>'l\<close> of the thread, the interleaving of all threads over the
  synchronization model, and a program logic for the lock discipline of one thread at a time.
\<close>

section \<open>Statements\<close>

text \<open>
  \<open>Do\<close> is an assignment, \<open>Rand\<close> uses a result of \<open>rand()\<close>, \<open>Call\<close> is a call of the synchronization
  component, \<open>Spawn\<close> creates and forks a thread for a function with its argument.  \<open>Loop b p q\<close> is
  \<open>for (; b; q) p\<close>; \<open>Iter\<close> marks the end of the body of a running loop, for \<open>Break\<close>.
\<close>

datatype ('g, 'l) stmt =
    Do "'g \<Rightarrow> 'l \<Rightarrow> fault + 'g \<times> 'l"
  | Rand "int \<Rightarrow> 'l \<Rightarrow> 'l"
  | Call "'g \<Rightarrow> 'l \<Rightarrow> fault + operation"
  | Spawn "'g \<Rightarrow> 'l \<Rightarrow> ('g, 'l) stmt list \<times> 'l"
  | If "'g \<Rightarrow> 'l \<Rightarrow> fault + bool" "('g, 'l) stmt list" "('g, 'l) stmt list"
  | Loop "'g \<Rightarrow> 'l \<Rightarrow> fault + bool" "('g, 'l) stmt list" "('g, 'l) stmt list"
  | Iter "'g \<Rightarrow> 'l \<Rightarrow> fault + bool" "('g, 'l) stmt list" "('g, 'l) stmt list"
  | Break

type_synonym ('g, 'l) code = "('g, 'l) stmt list"

fun brk :: "('g, 'l) code \<Rightarrow> ('g, 'l) code" where
  "brk [] = []"
| "brk (Iter b p q # k) = k"
| "brk (x # k) = brk k"

text \<open>One statement that is not a call; \<open>r\<close> is the next random number.\<close>

fun stmt_step :: "int \<Rightarrow> ('g, 'l) stmt \<Rightarrow> ('g, 'l) code \<Rightarrow> 'g \<Rightarrow> 'l \<Rightarrow> (fault + ('g, 'l) code \<times> 'g \<times> 'l) option" where
  "stmt_step r (Do f) k g l = Some (bindE (f g l) (\<lambda>(g1, l1). Inr (k, g1, l1)))"
| "stmt_step r (Rand f) k g l = Some (Inr (k, g, f r l))"
| "stmt_step r (If b p q) k g l = Some (bindE (b g l) (\<lambda>v. Inr ((if v then p else q) @ k, g, l)))"
| "stmt_step r (Loop b p q) k g l = Some (bindE (b g l) (\<lambda>v. Inr (if v then p @ Iter b p q # k else k, g, l)))"
| "stmt_step r (Iter b p q) k g l = Some (Inr (q @ Loop b p q # k, g, l))"
| "stmt_step r Break k g l = Some (Inr (brk k, g, l))"
| "stmt_step r (Call f) k g l = None"
| "stmt_step r (Spawn f) k g l = None"

section \<open>All threads together\<close>

record ('g, 'l) prog =
  wcore :: sys
  glob :: 'g
  locals :: "tid \<Rightarrow> 'l"
  code :: "tid \<Rightarrow> ('g, 'l) code"

definition wcur :: "('g, 'l) prog \<Rightarrow> tid" where
  "wcur w = currentThread (wcore w)"

definition at_stmt :: "('g, 'l) prog \<Rightarrow> ('g, 'l) stmt \<Rightarrow> ('g, 'l) code \<Rightarrow> bool" where
  "at_stmt w x k \<longleftrightarrow> \<not> idling (wcore w) \<and> frames (wcore w) (wcur w) = [] \<and> code w (wcur w) = x # k"

text \<open>
  A statement of the current thread; its call; a new thread; the end of a thread, whose function has
  returned; what the synchronization component does, where the interrupts of an idle machine are those
  of the devices, with the semaphores \<open>devs\<close>; a time slice.
\<close>

definition devices_only :: "nat set \<Rightarrow> sys \<Rightarrow> sys \<Rightarrow> bool" where
  "devices_only devs s s' \<longleftrightarrow> (idling s \<longrightarrow> (\<forall>m. m \<notin> devs \<longrightarrow> sems s' m = sems s m))"

inductive wstep :: "nat set \<Rightarrow> ('g, 'l) prog \<Rightarrow> ('g, 'l) prog \<Rightarrow> bool" for devs where
  w_local: "at_stmt w x k \<Longrightarrow> 0 \<le> r \<Longrightarrow> stmt_step r x k (glob w) (locals w (wcur w)) = Some (Inr (k1, g1, l1)) \<Longrightarrow>
     wstep devs w (w\<lparr>glob := g1, locals := (locals w)(wcur w := l1), code := (code w)(wcur w := k1)\<rparr>)"
| w_call: "at_stmt w (Call f) k \<Longrightarrow> f (glob w) (locals w (wcur w)) = Inr a \<Longrightarrow> step (Some a) (wcore w) s \<Longrightarrow>
     wstep devs w (w\<lparr>wcore := s, code := (code w)(wcur w := k)\<rparr>)"
| w_spawn: "at_stmt w (Spawn f) k \<Longrightarrow> f (glob w) (locals w (wcur w)) = (c, l) \<Longrightarrow> step (Some (DoFork t)) (wcore w) s \<Longrightarrow>
     wstep devs w (w\<lparr>wcore := s, locals := (locals w)(t := l), code := (code w)(wcur w := k, t := c)\<rparr>)"
| w_finish: "frames (wcore w) (wcur w) = [] \<Longrightarrow> code w (wcur w) = [] \<Longrightarrow> step (Some DoFinish) (wcore w) s \<Longrightarrow>
     wstep devs w (w\<lparr>wcore := s\<rparr>)"
| w_core: "step None (wcore w) s \<Longrightarrow> devices_only devs (wcore w) s \<Longrightarrow> wstep devs w (w\<lparr>wcore := s\<rparr>)"
| w_slice: "step (Some DoYield) (wcore w) s \<Longrightarrow> wstep devs w (w\<lparr>wcore := s\<rparr>)"

inductive wsteps :: "nat set \<Rightarrow> ('g, 'l) prog \<Rightarrow> ('g, 'l) prog \<Rightarrow> bool" for devs where
  wsteps_refl: "wsteps devs w w"
| wsteps_step: "wsteps devs w w1 \<Longrightarrow> wstep devs w1 w2 \<Longrightarrow> wsteps devs w w2"

section \<open>The lock discipline\<close>

text \<open>
  What is demanded of the threads: an invariant of the global data; which changes of it are allowed
  with which locks; which calls are; and the one lock each condition variable is waited on with.
\<close>

record 'g discipline =
  ginv :: "'g \<Rightarrow> bool"
  guar :: "nat set \<Rightarrow> 'g \<Rightarrow> 'g \<Rightarrow> bool"
  calls :: "operation \<Rightarrow> nat set \<Rightarrow> bool"
  guard :: "nat \<Rightarrow> nat"

text \<open>
  The least that is needed for the locks to be tracked: threads are made with \<open>Spawn\<close>, and \<open>Wait\<close> is called
  with the lock of its condition variable, held.
\<close>

fun base_ok :: "(nat \<Rightarrow> nat) \<Rightarrow> operation \<Rightarrow> nat set \<Rightarrow> bool" where
  "base_ok G (DoWait c lo) H = (lo = Some (G c) \<and> G c \<in> H)"
| "base_ok G (DoFork t) H = False"
| "base_ok G DoFinish H = False"
| "base_ok G _ H = True"

text \<open>The full discipline: no call is ignored.\<close>

fun strict_ok :: "(nat \<Rightarrow> nat) \<Rightarrow> operation \<Rightarrow> nat set \<Rightarrow> bool" where
  "strict_ok G (DoAcquire l) H = (l \<notin> H)"
| "strict_ok G (DoRelease l) H = (l \<in> H)"
| "strict_ok G (DoWait c lo) H = (lo = Some (G c) \<and> G c \<in> H)"
| "strict_ok G (DoSignal c lo) H = (lo = Some (G c) \<and> G c \<in> H)"
| "strict_ok G (DoBroadcast c lo) H = (lo = Some (G c) \<and> G c \<in> H)"
| "strict_ok G (DoFork t) H = False"
| "strict_ok G DoFinish H = False"
| "strict_ok G _ H = True"

definition okE :: "fault + 'a \<Rightarrow> ('a \<Rightarrow> bool) \<Rightarrow> bool" where
  "okE r P = (case r of Inl _ \<Rightarrow> False | Inr x \<Rightarrow> P x)"

lemma okE_simps [simp]:
  "okE (Inr x) P = P x" "okE (Inl e) P = False" "okE (if b then x1 else x2) P = (if b then okE x1 P else okE x2 P)"
  "okE (bindE m f) P = okE m (\<lambda>x. okE (f x) P)"
  by (auto simp: okE_def bindE_def split: sum.split)

lemma okE_iff: "okE r P \<longleftrightarrow> (\<exists>x. r = Inr x \<and> P x)"
  by (cases r) simp_all

lemma call_base: "strict_ok G a H \<Longrightarrow> base_ok G a H"
  by (cases a) auto

text \<open>
  The code \<open>c\<close> keeps to the discipline for \<open>n\<close> statements, from locals \<open>l\<close> and holding the locks \<open>H\<close>,
  whatever the other threads do to the global data; \<open>st\<close> are the functions it may start threads with.
\<close>

fun safe :: "'g discipline \<Rightarrow> (('g, 'l) code \<Rightarrow> 'l \<Rightarrow> bool) \<Rightarrow> nat \<Rightarrow> ('g, 'l) code \<Rightarrow> 'l \<Rightarrow> nat set \<Rightarrow> bool" where
  "safe D st 0 c l H = True"
| "safe D st (Suc n) [] l H = (H = {})"
| "safe D st (Suc n) (Do f # k) l H =
     (\<forall>g. ginv D g \<longrightarrow> okE (f g l) (\<lambda>(g1, l1). ginv D g1 \<and> guar D H g g1 \<and> safe D st n k l1 H))"
| "safe D st (Suc n) (Rand f # k) l H = (\<forall>r \<ge> 0. safe D st n k (f r l) H)"
| "safe D st (Suc n) (Call f # k) l H =
     (\<forall>g. ginv D g \<longrightarrow> okE (f g l) (\<lambda>a. calls D a H \<and> safe D st n k l (held_after a H)))"
| "safe D st (Suc n) (Spawn f # k) l H =
     (\<forall>g. ginv D g \<longrightarrow> (case f g l of (c, l1) \<Rightarrow> st c l1) \<and> safe D st n k l H)"
| "safe D st (Suc n) (If b p q # k) l H =
     (\<forall>g. ginv D g \<longrightarrow> okE (b g l) (\<lambda>v. safe D st n ((if v then p else q) @ k) l H))"
| "safe D st (Suc n) (Loop b p q # k) l H =
     (\<forall>g. ginv D g \<longrightarrow> okE (b g l) (\<lambda>v. safe D st n (if v then p @ Iter b p q # k else k) l H))"
| "safe D st (Suc n) (Iter b p q # k) l H = safe D st n (q @ Loop b p q # k) l H"
| "safe D st (Suc n) (Break # k) l H = safe D st n (brk k) l H"

section \<open>Weakest preconditions\<close>

fun stmts :: "('g, 'l) stmt \<Rightarrow> nat" where
  "stmts (If b p q) = Suc (sum_list (map stmts p) + sum_list (map stmts q))"
| "stmts (Loop b p q) = Suc (sum_list (map stmts p) + sum_list (map stmts q))"
| "stmts (Iter b p q) = Suc (sum_list (map stmts p) + sum_list (map stmts q))"
| "stmts _ = 1"

lemma stmts_pos [simp]: "0 < stmts x"
  by (cases x) simp_all

type_synonym 'l assn = "'l \<Rightarrow> nat set \<Rightarrow> bool"

text \<open>\<open>Q\<close> is to hold behind the code, \<open>B\<close> where a \<open>Break\<close> leaves it.\<close>

function wp :: "'g discipline \<Rightarrow> (('g, 'l) code \<Rightarrow> 'l \<Rightarrow> bool) \<Rightarrow> ('g, 'l) code \<Rightarrow> 'l assn \<Rightarrow> 'l assn \<Rightarrow> 'l assn" where
  "wp D st [] Q B = Q"
| "wp D st (Do f # c) Q B = (\<lambda>l H.
     \<forall>g. ginv D g \<longrightarrow> okE (f g l) (\<lambda>(g1, l1). ginv D g1 \<and> guar D H g g1 \<and> wp D st c Q B l1 H))"
| "wp D st (Rand f # c) Q B = (\<lambda>l H. \<forall>r \<ge> 0. wp D st c Q B (f r l) H)"
| "wp D st (Call f # c) Q B = (\<lambda>l H.
     \<forall>g. ginv D g \<longrightarrow> okE (f g l) (\<lambda>a. calls D a H \<and> wp D st c Q B l (held_after a H)))"
| "wp D st (Spawn f # c) Q B = (\<lambda>l H.
     \<forall>g. ginv D g \<longrightarrow> (case f g l of (c, l1) \<Rightarrow> st c l1) \<and> wp D st c Q B l H)"
| "wp D st (If b p q # c) Q B = (\<lambda>l H.
     \<forall>g. ginv D g \<longrightarrow> okE (b g l) (\<lambda>v. if v then wp D st p (wp D st c Q B) B l H else wp D st q (wp D st c Q B) B l H))"
| "wp D st (Loop b p q # c) Q B = (\<lambda>l H.
     \<exists>I. I l H \<and> (\<forall>l H. I l H \<longrightarrow> (\<forall>g. ginv D g \<longrightarrow> okE (b g l) (\<lambda>v.
        if v then wp D st p (wp D st q I (\<lambda>_ _. False)) (wp D st c Q B) l H else wp D st c Q B l H))))"
| "wp D st (Iter b p q # c) Q B = (\<lambda>l H. False)"
| "wp D st (Break # c) Q B = B"
  by pat_completeness auto
termination
  by (relation "measure (\<lambda>(D, st, c, Q, B). sum_list (map stmts c))") auto

lemma wp_append [simp]: "wp D st (c @ c') Q B = wp D st c (wp D st c' Q B) B"
proof (induction c arbitrary: Q)
  case (Cons x c)
  then show ?case by (cases x) simp_all
qed simp

text \<open>Code as it is written has no \<open>Iter\<close>.\<close>

fun src :: "('g, 'l) stmt \<Rightarrow> bool" where
  "src (Iter b p q) = False"
| "src (If b p q) = (list_all src p \<and> list_all src q)"
| "src (Loop b p q) = (list_all src p \<and> list_all src q)"
| "src _ = True"

lemma brk_append: "list_all src c \<Longrightarrow> brk (c @ k) = brk k"
proof (induction c)
  case (Cons x c)
  then show ?case by (cases x) simp_all
qed simp

lemma okE_mono: "okE r P \<Longrightarrow> (\<And>x. r = Inr x \<Longrightarrow> P x \<Longrightarrow> P' x) \<Longrightarrow> okE r P'"
  by (cases r) simp_all

lemma wp_sound:
  assumes "list_all src c" "wp D st c Q B l H"
    "\<And>m l H. m \<le> n \<Longrightarrow> Q l H \<Longrightarrow> safe D st m k l H" "\<And>m l H. m \<le> n \<Longrightarrow> B l H \<Longrightarrow> safe D st m (brk k) l H"
  shows "safe D st n (c @ k) l H"
  using assms
proof (induction n arbitrary: c k Q B l H rule: less_induct)
  case (less n)
  note src = less.prems(1) and pre = less.prems(2) and post = less.prems(3) and out = less.prems(4)
  show ?case
  proof (cases n)
    case 0
    then show ?thesis by simp
  next
    case (Suc m)
    have tail: "safe D st i (c' @ k) l H" if "list_all src c'" "wp D st c' Q B l H" "i < n" for i c' l H
      by (rule less.IH [OF that(3,1,2)]) (use post out that(3) in auto)
    show ?thesis
    proof (cases c)
      case Nil
      then show ?thesis using pre post [of n] by simp
    next
      case (Cons x c')
      have sc: "list_all src c'" using src Cons by simp
      have t: "safe D st m (c' @ k) l H" if "wp D st c' Q B l H" for l H
        by (rule tail [OF sc that]) (simp add: Suc)
      have body: "safe D st m (p @ c' @ k) l H" if "list_all src p" "wp D st p (wp D st c' Q B) B l H" for p l H
      proof (rule less.IH [OF _ that])
        show "safe D st i (c' @ k) l H" if "i \<le> m" "wp D st c' Q B l H" for i l H
          by (rule tail [OF sc that(2)]) (use that(1) Suc in simp)
        show "safe D st i (brk (c' @ k)) l H" if "i \<le> m" "B l H" for i l H
          using out [of i l H] that Suc by (simp add: brk_append [OF sc])
      qed (simp add: Suc)
      show ?thesis
      proof (cases x)
        case (Do f)
        then show ?thesis using pre t unfolding Cons Suc by (auto elim!: okE_mono)
      next
        case (Rand f)
        then show ?thesis using pre t unfolding Cons Suc by simp
      next
        case (Call f)
        then show ?thesis using pre t unfolding Cons Suc by (auto elim!: okE_mono)
      next
        case (Spawn f)
        then show ?thesis using pre t unfolding Cons Suc by simp
      next
        case (If b p q)
        then have "list_all src p" "list_all src q" using src Cons by simp_all
        then show ?thesis using pre body If unfolding Cons Suc by (auto elim!: okE_mono)
      next
        case (Loop b p q)
        have pq: "list_all src p" "list_all src q" using src Cons Loop by simp_all
        obtain I where I: "I l H" "\<And>l H g. I l H \<Longrightarrow> ginv D g \<Longrightarrow> okE (b g l) (\<lambda>v.
          if v then wp D st p (wp D st q I (\<lambda>_ _. False)) (wp D st c' Q B) l H else wp D st c' Q B l H)"
          using pre unfolding Cons Loop by auto
        have again: "wp D st c Q B l H" if "I l H" for l H
          unfolding Cons Loop wp.simps using I(2) that by (intro exI [of _ I] conjI allI impI) blast+
        have iter: "safe D st i (p @ Iter b p q # c' @ k) l H"
          if "i \<le> m" "wp D st p (wp D st q I (\<lambda>_ _. False)) (wp D st c' Q B) l H" for i l H
        proof (rule less.IH [OF _ pq(1) that(2)])
          fix j l H assume j: "j \<le> i" "wp D st q I (\<lambda>_ _. False) l H"
          show "safe D st j (Iter b p q # c' @ k) l H"
          proof (cases j)
            case (Suc j')
            have "safe D st j' (q @ c @ k) l H"
            proof (rule less.IH [OF _ pq(2) j(2)])
              show "safe D st i' (c @ k) l H" if "i' \<le> j'" "I l H" for i' l H
                by (rule tail [OF src again [OF that(2)]]) (use that(1) j(1) \<open>i \<le> m\<close> \<open>n = Suc m\<close> Suc in simp)
            qed (use j(1) \<open>i \<le> m\<close> \<open>n = Suc m\<close> Suc in simp_all)
            then show ?thesis unfolding Suc Cons Loop by simp
          qed simp
        next
          fix j l H assume "j \<le> i" "wp D st c' Q B l H"
          then show "safe D st j (brk (Iter b p q # c' @ k)) l H"
            using tail [OF sc] that(1) Suc by simp
        qed (use that(1) Suc in simp)
        show ?thesis
          unfolding Cons Suc Loop append_Cons safe.simps
        proof (intro allI impI)
          fix g assume "ginv D g"
          from I(2) [OF I(1) this] show "okE (b g l) (\<lambda>v. safe D st m (if v then p @ Iter b p q # c' @ k else c' @ k) l H)"
            by (rule okE_mono) (use iter [of m] t in \<open>simp split: if_splits\<close>)
        qed
      next
        case (Iter b p q)
        then show ?thesis using src Cons by simp
      next
        case Break
        then show ?thesis using pre out [of m] unfolding Cons Suc by (simp add: brk_append [OF sc])
      qed
    qed
  qed
qed

text \<open>A whole function: it may stop only without locks.\<close>

lemma safe_function:
  assumes "list_all src c" "wp D st c (\<lambda>l H. H = {}) (\<lambda>_ _. False) l {}"
  shows "safe D st n c l {}"
proof -
  have "safe D st n (c @ []) l {}"
  proof (rule wp_sound [OF assms])
    show "safe D st m [] l H" if "m \<le> n" "H = {}" for m H and l :: 'b using that by (cases m) simp_all
  qed simp
  then show ?thesis by simp
qed

section \<open>The discipline holds in every interleaving\<close>

text \<open>Each condition variable is used with its lock only, and has one while threads wait.\<close>

definition guards_ok :: "(nat \<Rightarrow> nat) \<Rightarrow> sys \<Rightarrow> bool" where
  "guards_ok G s \<longleftrightarrow> (\<forall>c. waitingLock (conds s c) = None \<and> cqueue (conds s c) = [] \<or> waitingLock (conds s c) = Some (G c))"

lemma guards_cong: "conds s' = conds s \<Longrightarrow> guards_ok G s' = guards_ok G s"
  by (simp add: guards_ok_def)

lemma Signal_guards: "guards_ok G s \<Longrightarrow> guards_ok G (Condition_Signal c lo s)"
proof (cases "signal_refused c lo s")
  case False
  assume g: "guards_ok G s"
  obtain t q where q: "cqueue (conds s c) = t # q"
    using False by (cases "cqueue (conds s c)") (auto simp: signal_refused_def)
  have "waitingLock (conds s c) = Some (G c)" using g q unfolding guards_ok_def by (metis list.distinct(1))
  then show ?thesis using g by (auto simp: Signal_cases(2) [OF False q] ReadyToRun_def guards_ok_def)
qed (simp add: Signal_cases)

lemma Broadcast_guards:
  assumes "Condition_Broadcast c lo s = Some s'" "guards_ok G s"
  shows "guards_ok G s'"
proof -
  have "guards_ok G s \<longrightarrow> guards_ok G s'"
  proof (rule Condition_Broadcast.raw_induct [where P = "\<lambda>c lo s s'. guards_ok G s \<longrightarrow> guards_ok G s'", OF _ assms(1)])
    fix f :: "nat \<Rightarrow> nat option \<Rightarrow> sys \<Rightarrow> sys option" and c lo s s'
    assume 1: "\<And>c lo s y. f c lo s = Some y \<Longrightarrow> guards_ok G s \<longrightarrow> guards_ok G y"
      and 2: "(if q_is_empty (cqueue (conds s c)) then Some s else f c lo (Condition_Signal c lo s)) = Some s'"
    then show "guards_ok G s \<longrightarrow> guards_ok G s'"
      using 1 [of c lo "Condition_Signal c lo s" s'] Signal_guards [of G s c lo] by (auto split: if_splits)
  qed
  then show ?thesis using assms(2) by blast
qed

lemma Wait_guards:
  assumes "Condition_Wait c (Some (G c)) s = Inr s'" "guards_ok G s"
  shows "guards_ok G s'"
proof (cases "wait_refused c (Some (G c)) s")
  case False
  note a = assms(1) [unfolded Wait_cases(2) [OF False refl]]
  show ?thesis using Sleep_locals(3) [OF a] assms(2) by (auto simp: guards_ok_def Release_same)
qed (use assms in \<open>simp add: Wait_cases\<close>)

text \<open>Everything else leaves the condition variables alone.\<close>

lemma Acquire_conds: "Lock_Acquire l s = Inr s' \<Longrightarrow> conds s' = conds s"
proof -
  assume a: "Lock_Acquire l s = Inr s'"
  consider "isHeldByCurrentThread l s" | "\<not> isHeldByCurrentThread l s" "free (locks s l)"
    | "\<not> isHeldByCurrentThread l s" "\<not> free (locks s l)" by blast
  then show ?thesis
  proof cases
    case 3
    with a Sleep_locals(3) [OF a [unfolded Acquire_cases(3) [OF 3]]] show ?thesis by simp
  qed (use a in \<open>auto simp: Acquire_cases\<close>)
qed

lemma P_conds: "Semaphore_P m s = Inr s' \<Longrightarrow> conds s' = conds s"
  by (cases "svalue (sems s m) = 0") (auto simp: P_cases P_wait_def P_take_def dest: Sleep_locals(3))

lemma V_conds: "conds (Semaphore_V m s) = conds s"
  by (cases "squeue (sems s m)") (simp_all add: V_cases ReadyToRun_def)

lemma Finish_conds: "Thread_Finish s = Inr s' \<Longrightarrow> conds (s' :: sys) = conds s"
  unfolding Thread_Finish_def by (drule Sleep_locals(3)) simp

lemma exec_guards:
  assumes ex: "exec a s = Some (Inr s')" and g: "guards_ok G s"
    and ok: "base_ok G a H \<or> a = DoYield \<or> a = DoFinish \<or> (\<exists>t. a = DoFork t)"
  shows "guards_ok G s'"
proof (cases a)
  case (DoWait c lo)
  then show ?thesis using ex ok g Wait_guards [of c G s s'] by simp
next
  case (DoSignal c lo)
  then show ?thesis using ex g Signal_guards [of G s c lo] by auto
next
  case (DoBroadcast c lo)
  then show ?thesis using ex g Broadcast_guards [of c lo s s' G] by auto
next
  case (DoAcquire l)
  then show ?thesis using ex g guards_cong [OF Acquire_conds, of l s s' G] by simp
next
  case (DoRelease l)
  then show ?thesis using ex g guards_cong [OF Release_same(5), of G l s] by auto
next
  case (DoP m)
  then show ?thesis using ex g guards_cong [OF P_conds, of m s s' G] by simp
next
  case (DoV m)
  then show ?thesis using ex g guards_cong [OF V_conds, of G m s] by auto
next
  case DoYield
  then show ?thesis using ex g guards_cong [OF Yield_locals(3), of s s' G] by simp
next
  case DoFinish
  then show ?thesis using ex g guards_cong [OF Finish_conds, of s s' G] by simp
next
  case (DoFork t)
  then show ?thesis using ex g by (auto simp: guards_ok_def Thread_Fork_def Thread_new_def ReadyToRun_def)
qed

lemma resume_conds:
  assumes r: "resume s = Inr s'"
  shows "conds s' = conds s"
proof (cases "frames s (currentThread s)")
  case Nil
  with r show ?thesis by (simp add: resume_def)
next
  case (Cons f fs)
  have p: "conds (pop_frame s) = conds s" by (simp add: pop_frame_def)
  show ?thesis
  proof (cases f)
    case (WaitReacquire l)
    then show ?thesis using r Cons Acquire_conds [of l "pop_frame s" s'] p by (simp add: resume_def)
  next
    case (SemRetry m)
    show ?thesis
    proof (cases "svalue (sems s m) = 0")
      case True
      then have "P_wait m [] (pop_frame s) = Inr s'" using r Cons SemRetry by (simp add: resume_def)
      from Sleep_locals(3) [OF this [unfolded P_wait_def]] show ?thesis using p by simp
    next
      case False
      then show ?thesis using r Cons SemRetry p by (auto simp: resume_def P_take_def)
    qed
  qed (use r Cons p in \<open>auto simp: resume_def\<close>)
qed

lemma step_None_guards: "step None s s' \<Longrightarrow> guards_ok G s \<Longrightarrow> guards_ok G s'"
  by (erule step_NoneE) (auto simp: guards_ok_def V_conds dest!: resume_conds Sleep_loop_locals(3))

section \<open>The invariant of all threads\<close>

definition winv :: "'g discipline \<Rightarrow> (('g, 'l) code \<Rightarrow> 'l \<Rightarrow> bool) \<Rightarrow> ('g, 'l) prog \<Rightarrow> bool" where
  "winv D st w \<longleftrightarrow> (\<forall>a H. calls D a H \<longrightarrow> base_ok (guard D) a H) \<and> reach (wcore w) \<and> ginv D (glob w) \<and> guards_ok (guard D) (wcore w) \<and>
     (\<forall>t. t \<notin> active (wcore w) \<longrightarrow> code w t = []) \<and>
     (\<forall>t n. safe D st n (code w t) (locals w t) (holds (wcore w) t))"

lemma winvD:
  assumes "winv D st w"
  shows "reach (wcore w)" "sync_inv (wcore w)" "ginv D (glob w)" "guards_ok (guard D) (wcore w)"
    "t \<notin> active (wcore w) \<Longrightarrow> code w t = []" "safe D st n (code w t) (locals w t) (holds (wcore w) t)"
    "calls D a H \<Longrightarrow> base_ok (guard D) a H"
  using assms reach_inv unfolding winv_def by blast+

lemma winv_idle:
  assumes "winv D st w" "t \<notin> active (wcore w)"
  shows "holds (wcore w) t = {}"
  using winvD(6) [OF assms(1), of "Suc 0" t] winvD(5) [OF assms] by simp

lemma running_active:
  assumes "sync_inv s" "\<not> idling s"
  shows "currentThread s \<in> active s"
proof -
  have K: "kernel_inv s (waitq s)" using assms(1) by (simp add: sync_inv_def)
  note C = kernel_inv_current [OF K assms(2)]
  then show ?thesis using kernel_invD(8) [OF K, of "currentThread s"] by (auto simp: active_def)
qed

lemma op_guards:
  assumes "step (Some a) s s'" "guards_ok G s" "base_ok G a H \<or> a = DoYield \<or> a = DoFinish \<or> (\<exists>t. a = DoFork t)"
  shows "guards_ok G s'"
  using assms(1) by (rule step_opE) (use exec_guards assms(2,3) in blast)

lemma op_active: "step (Some a) s s' \<Longrightarrow> sync_inv s \<Longrightarrow> active s' = active_after a s"
  by (erule step_opE) (use exec_active in blast)

lemma call_waits: "base_ok G a H \<Longrightarrow> waits_held a H"
  by (cases a) auto

lemma call_active: "base_ok G a H \<Longrightarrow> active_after a s = active s"
  by (cases a) auto

lemma winv_local:
  assumes I: "winv D st w" and a: "at_stmt w x k" and r: "0 \<le> r"
    and s: "stmt_step r x k (glob w) (locals w (wcur w)) = Some (Inr (k1, g1, l1))"
  shows "ginv D g1 \<and> (g1 = glob w \<or> guar D (holds (wcore w) (wcur w)) (glob w) g1) \<and>
    (\<forall>n. safe D st n k1 l1 (holds (wcore w) (wcur w)))"
proof -
  let ?l = "locals w (wcur w)" and ?H = "holds (wcore w) (wcur w)"
  have g: "ginv D (glob w)" using winvD(3) [OF I] .
  have S: "safe D st (Suc n) (x # k) ?l ?H" for n
    using winvD(6) [OF I, of "Suc n" "wcur w"] a by (simp add: at_stmt_def)
  show ?thesis
  proof (cases x)
    case (Do f)
    then have f: "f (glob w) ?l = Inr (g1, l1)" "k1 = k" using s by (auto simp: bindE_eq_Inr)
    have "ginv D g1 \<and> guar D ?H (glob w) g1 \<and> safe D st n k1 l1 ?H" for n
      using S [of n, unfolded Do safe.simps, rule_format, OF g] f by simp
    then show ?thesis by blast
  next
    case (Rand f)
    then show ?thesis using s S r g by auto
  next
    case (If b p q)
    then obtain v where v: "b (glob w) ?l = Inr v" "k1 = (if v then p else q) @ k" "g1 = glob w" "l1 = ?l"
      using s by (auto simp: bindE_eq_Inr)
    have "safe D st n k1 l1 ?H" for n using S [of n, unfolded If safe.simps, rule_format, OF g] v by simp
    then show ?thesis using v g by simp
  next
    case (Loop b p q)
    then obtain v where v: "b (glob w) ?l = Inr v" "k1 = (if v then p @ Iter b p q # k else k)" "g1 = glob w" "l1 = ?l"
      using s by (auto simp: bindE_eq_Inr)
    have "safe D st n k1 l1 ?H" for n using S [of n, unfolded Loop safe.simps, rule_format, OF g] v by simp
    then show ?thesis using v g by simp
  qed (use s S g in auto)
qed

lemma winv_call:
  assumes I: "winv D st w" and a: "at_stmt w (Call f) k"
  obtains a where "f (glob w) (locals w (wcur w)) = Inr a" "calls D a (holds (wcore w) (wcur w))"
    "base_ok (guard D) a (holds (wcore w) (wcur w))"
    "\<forall>n. safe D st n k (locals w (wcur w)) (held_after a (holds (wcore w) (wcur w)))"
proof -
  let ?l = "locals w (wcur w)" and ?H = "holds (wcore w) (wcur w)"
  have S: "okE (f (glob w) ?l) (\<lambda>a. calls D a ?H \<and> safe D st n k ?l (held_after a ?H))" for n
    using winvD(6) [OF I, where n = "Suc n" and t = "wcur w"] winvD(3) [OF I] a by (simp add: at_stmt_def)
  then obtain a where f: "f (glob w) ?l = Inr a" by (auto simp: okE_iff)
  have "calls D a ?H \<and> safe D st n k ?l (held_after a ?H)" for n using S [of n] f by simp
  then show ?thesis using that f I unfolding winv_def by blast
qed

lemma winv_step:
  assumes st: "\<forall>c l n. st c l \<longrightarrow> safe D st n c l {}" and I: "winv D st w" and s: "wstep devs w w'"
  shows "winv D st w'"
  using s
proof cases
  case (w_local x k r k1 g1 l1)
  note L = winv_local [OF I w_local(2-4)]
  have "wcur w \<in> active (wcore w)"
    using running_active [OF winvD(2) [OF I]] w_local(2) by (simp add: at_stmt_def wcur_def)
  then show ?thesis using L winvD [OF I] unfolding w_local(1) by (auto simp: winv_def)
next
  case (w_call f k a s1)
  obtain a' where a': "a' = a" "base_ok (guard D) a (holds (wcore w) (wcur w))"
      "\<forall>n. safe D st n k (locals w (wcur w)) (held_after a (holds (wcore w) (wcur w)))"
    using winv_call [OF I w_call(2)] w_call(3) by auto
  note ok = a'(2,3)
  have h: "holds s1 t = (if t = wcur w then held_after a (holds (wcore w) t) else holds (wcore w) t)" for t
  proof -
    have nf: "a \<noteq> DoFork t'" for t' using ok(1) by auto
    then show ?thesis
      using step_op_holds [OF w_call(4) winvD(2) [OF I] call_waits [OF ok(1) [unfolded wcur_def]], of t] by (simp add: wcur_def)
  qed
  have "active s1 = active (wcore w)" using op_active [OF w_call(4) winvD(2) [OF I]] call_active [OF ok(1)] by simp
  moreover have "wcur w \<in> active (wcore w)"
    using running_active [OF winvD(2) [OF I]] w_call(2) by (simp add: at_stmt_def wcur_def)
  moreover have "guards_ok (guard D) s1" by (rule op_guards [OF w_call(4) winvD(4) [OF I]]) (use ok in blast)
  moreover have "reach s1" using reach_step [OF winvD(1) [OF I] w_call(4)] .
  ultimately show ?thesis using winvD [OF I] ok(2) unfolding w_call(1) by (auto simp: winv_def h)
next
  case (w_spawn f k c l t s1)
  have tn: "t \<notin> threads (wcore w)" using w_spawn(4) by (rule step_opE) blast
  then have ta: "t \<notin> active (wcore w)" by (simp add: active_def)
  note H = winv_idle [OF I ta]
  have h: "holds s1 u = holds (wcore w) u" for u
    using step_op_holds [OF w_spawn(4) winvD(2) [OF I], of u] H by auto
  have A: "active s1 = insert t (active (wcore w))" using op_active [OF w_spawn(4) winvD(2) [OF I]] by simp
  have cur: "wcur w \<in> active (wcore w)"
    using running_active [OF winvD(2) [OF I]] w_spawn(2) by (simp add: at_stmt_def wcur_def)
  have S: "st c l \<and> safe D st n k (locals w (wcur w)) (holds (wcore w) (wcur w))" for n
  proof -
    have "safe D st (Suc n) (Spawn f # k) (locals w (wcur w)) (holds (wcore w) (wcur w))"
      using winvD(6) [OF I, of "Suc n" "wcur w"] w_spawn(2) by (simp add: at_stmt_def)
    from this [unfolded safe.simps, rule_format, OF winvD(3) [OF I]] show ?thesis using w_spawn(3) by simp
  qed
  have "safe D st n c l {}" for n using S st by blast
  moreover have "guards_ok (guard D) s1" by (rule op_guards [OF w_spawn(4) winvD(4) [OF I]]) blast
  moreover have "reach s1" using reach_step [OF winvD(1) [OF I] w_spawn(4)] .
  ultimately show ?thesis using winvD [OF I] S A cur ta H unfolding w_spawn(1) by (auto simp: winv_def h)
next
  case (w_finish s1)
  have h: "holds s1 u = holds (wcore w) u" for u
    using step_op_holds [OF w_finish(4) winvD(2) [OF I], of u] by simp
  have "active s1 = active (wcore w) - {wcur w}" using op_active [OF w_finish(4) winvD(2) [OF I]] by (simp add: wcur_def)
  moreover have "guards_ok (guard D) s1" by (rule op_guards [OF w_finish(4) winvD(4) [OF I]]) blast
  moreover have "reach s1" using reach_step [OF winvD(1) [OF I] w_finish(4)] .
  ultimately show ?thesis using winvD [OF I] w_finish(3) unfolding w_finish(1) by (auto simp: winv_def h)
next
  case (w_core s1)
  have "active s1 = active (wcore w)" using quiet_step_active [OF winvD(2) [OF I] w_core(2)] by simp
  moreover have "holds s1 = holds (wcore w)" by (rule step_None_holds [OF w_core(2) winvD(2) [OF I]])
  moreover have "guards_ok (guard D) s1" by (rule step_None_guards [OF w_core(2) winvD(4) [OF I]])
  moreover have "reach s1" using reach_step [OF winvD(1) [OF I] w_core(2)] .
  ultimately show ?thesis using winvD [OF I] unfolding w_core(1) by (simp add: winv_def)
next
  case (w_slice s1)
  have "active s1 = active (wcore w)" using quiet_step_active [OF winvD(2) [OF I] w_slice(2)] by simp
  moreover have "holds s1 u = holds (wcore w) u" for u
    using step_op_holds [OF w_slice(2) winvD(2) [OF I], of u] by simp
  moreover have "guards_ok (guard D) s1" by (rule op_guards [OF w_slice(2) winvD(4) [OF I]]) blast
  moreover have "reach s1" using reach_step [OF winvD(1) [OF I] w_slice(2)] .
  ultimately show ?thesis using winvD [OF I] unfolding w_slice(1) by (simp add: winv_def)
qed

lemma winv_steps: "wsteps devs w w' \<Longrightarrow> \<forall>c l n. st c l \<longrightarrow> safe D st n c l {} \<Longrightarrow> winv D st w \<Longrightarrow> winv D st w'"
  by (induction rule: wsteps.induct) (use winv_step in blast)+

section \<open>What the invariant gives for each call\<close>

text \<open>
  What a call finds: a lock that is acquired is not yet held by the caller, one that is released is;
  \<open>Wait\<close> is not refused, the caller owning the lock; \<open>Signal\<close> and \<open>Broadcast\<close> are made with the lock
  owned, are ignored only when nobody waits, and \<open>Broadcast\<close> ends.
\<close>

fun effective :: "operation \<Rightarrow> sys \<Rightarrow> bool" where
  "effective (DoAcquire l) s = (\<not> isHeldByCurrentThread l s)"
| "effective (DoRelease l) s = isHeldByCurrentThread l s"
| "effective (DoWait c lo) s = (\<not> wait_refused c lo s \<and> (\<exists>l. lo = Some l \<and> isHeldByCurrentThread l s))"
| "effective (DoSignal c lo) s =
     ((signal_refused c lo s \<longrightarrow> cqueue (conds s c) = []) \<and> (\<exists>l. lo = Some l \<and> isHeldByCurrentThread l s))"
| "effective (DoBroadcast c lo) s =
     ((\<exists>s'. Condition_Broadcast c lo s = Some s') \<and> (\<exists>l. lo = Some l \<and> isHeldByCurrentThread l s))"
| "effective (DoFork t) s = False"
| "effective DoFinish s = False"
| "effective _ s = True"

lemma guards_not_refused:
  assumes "guards_ok G s"
  shows "\<not> wait_refused c (Some (G c)) s" "signal_refused c (Some (G c)) s \<Longrightarrow> cqueue (conds s c) = []"
    "\<exists>s'. Condition_Broadcast c (Some (G c)) s = Some s'"
proof -
  have c: "waitingLock (conds s c) = None \<and> cqueue (conds s c) = [] \<or> waitingLock (conds s c) = Some (G c)"
    using assms by (simp add: guards_ok_def)
  then show "\<not> wait_refused c (Some (G c)) s" "signal_refused c (Some (G c)) s \<Longrightarrow> cqueue (conds s c) = []"
    by (auto simp: wait_refused_def signal_refused_def)
  show "\<exists>s'. Condition_Broadcast c (Some (G c)) s = Some s'"
    using c Broadcast_returns [of c "Some (G c)" s] by (auto simp: broadcast_loops_def)
qed

lemma strict_effective:
  assumes "guards_ok G s" "frames s (currentThread s) = []" "strict_ok G a (holds s (currentThread s))"
  shows "effective a s"
proof -
  have h: "l \<in> holds s (currentThread s) \<longleftrightarrow> isHeldByCurrentThread l s" for l
    using holds_owner [OF assms(2), of l] by (simp add: isHeldByCurrentThread_def)
  show ?thesis using assms(3) guards_not_refused [OF assms(1)] by (cases a) (auto simp: h)
qed

lemma winv_effective:
  assumes I: "winv D st w" and strict: "\<And>a H. calls D a H \<Longrightarrow> strict_ok (guard D) a H" and at: "at_stmt w (Call f) k"
  shows "\<exists>a. f (glob w) (locals w (wcur w)) = Inr a \<and> effective a (wcore w) \<and>
    (\<exists>w'. wstep devs w w' \<and> code w' (wcur w) = k)"
proof -
  let ?s = "wcore w"
  obtain a where a: "f (glob w) (locals w (wcur w)) = Inr a" "strict_ok (guard D) a (holds ?s (wcur w))"
    by (rule winv_call [OF I at]) (use strict in simp)
  have fr: "frames ?s (currentThread ?s) = []" and i: "\<not> idling ?s" using at by (simp_all add: at_stmt_def wcur_def)
  have e: "effective a ?s" using strict_effective [OF winvD(4) [OF I] fr] a(2) by (simp add: wcur_def)
  have "exec a ?s \<noteq> None" using e by (cases a) auto
  then obtain r where r: "exec a ?s = Some r" by blast
  then obtain s where s: "exec a ?s = Some (Inr s)"
    using exec_ok [OF winvD(2) [OF I] reach_fence [OF winvD(1) [OF I]] i fr r] by blast
  have nf: "\<And>t. a \<noteq> DoFork t" using a(2) by auto
  have "step (Some a) ?s s" by (rule step_op [OF i fr _ s]) (use nf in blast)
  from w_call [OF at a(1) this, of devs] a(1) e show ?thesis by (intro exI [of _ a]) (auto intro: exI)
qed

text \<open>A statement that is no call never faults.\<close>

lemma winv_no_fault:
  assumes I: "winv D st w" and at: "at_stmt w x k" and r: "0 \<le> r"
  shows "stmt_step r x k (glob w) (locals w (wcur w)) \<noteq> Some (Inl e)"
proof -
  have "safe D st (Suc 0) (x # k) (locals w (wcur w)) (holds (wcore w) (wcur w))"
    using winvD(6) [OF I, of "Suc 0" "wcur w"] at by (simp add: at_stmt_def)
  then show ?thesis using winvD(3) [OF I] by (cases x) (fastforce simp: okE_iff)+
qed

text \<open>Who changes the global data, and when.\<close>

lemma winv_change:
  assumes I: "winv D st w" and s: "wstep devs w w'" and c: "glob w' \<noteq> glob w"
  shows "guar D {l. isHeldByCurrentThread l (wcore w)} (glob w) (glob w')"
  using s
proof cases
  case (w_local x k r k1 g1 l1)
  have "frames (wcore w) (currentThread (wcore w)) = []" using w_local(2) by (simp add: at_stmt_def wcur_def)
  from holds_owner [OF this] have "holds (wcore w) (wcur w) = {l. isHeldByCurrentThread l (wcore w)}"
    by (auto simp: wcur_def isHeldByCurrentThread_def)
  then show ?thesis using winv_local [OF I w_local(2-4)] c unfolding w_local(1) by auto
qed (use c in auto)

text \<open>The start: one thread.\<close>

definition prog_init :: "sys \<Rightarrow> 'g \<Rightarrow> 'l \<Rightarrow> ('g, 'l) code \<Rightarrow> ('g, 'l) prog" where
  "prog_init s g l c = \<lparr>wcore = s, glob = g, locals = \<lambda>_. l, code = (\<lambda>_. [])(currentThread s := c)\<rparr>"

lemma winv_init:
  assumes "sys_init s" "ginv D g" "\<And>n. safe D st n c l {}" "\<And>a H. calls D a H \<Longrightarrow> base_ok (guard D) a H"
  shows "winv D st (prog_init s g l c)"
proof -
  have h: "holds s t = {}" for t using assms(1) by (auto simp: sys_init_def holds_def Lock_new_def)
  have "active s = {currentThread s}" using assms(1) by (auto simp: sys_init_def active_def)
  moreover have "safe D st n [] l {}" for n by (cases n) simp_all
  moreover have "guards_ok G s" for G using assms(1) by (simp add: guards_ok_def sys_init_def Condition_new_def)
  ultimately show ?thesis using assms(2-4) reach_init [OF assms(1)] by (simp add: winv_def prog_init_def h)
qed

end
