(* ===== verification/Nachos_Runs.thy ===== *)
theory Nachos_Runs
  imports Nachos_Programs
begin

text \<open>
  One schedule of a thread program, computed: every thread runs until it blocks, yields or is sliced.
\<close>

section \<open>One step\<close>

declare Condition_Broadcast.simps [code]

datatype choice = Go int | Slice

text \<open>\<open>Go r\<close> lets the machine continue, with \<open>r\<close> as the result of \<open>rand()\<close>; new threads are numbered.\<close>

definition core_step :: "nat \<Rightarrow> ('g, 'l) prog \<Rightarrow> fault + sys \<Rightarrow> (nat \<times> ('g, 'l) prog) option" where
  "core_step n w r = (case r of Inl _ \<Rightarrow> None | Inr s \<Rightarrow> Some (n, w\<lparr>wcore := s\<rparr>))"

definition wgo :: "int \<Rightarrow> nat \<Rightarrow> ('g, 'l) prog \<Rightarrow> (nat \<times> ('g, 'l) prog) option" where
  "wgo r n w = (let s = wcore w; u = currentThread s in
     if idling s then core_step n w (Sleep_loop s)
     else if frames s u \<noteq> [] then core_step n w (resume s)
     else case code w u of
       [] \<Rightarrow> core_step n w (Thread_Finish s)
     | x # k \<Rightarrow>
         (case x of
            Call f \<Rightarrow>
              (case f (glob w) (locals w u) of
                 Inl _ \<Rightarrow> None
               | Inr a \<Rightarrow> if (case a of DoFork t \<Rightarrow> True | _ \<Rightarrow> False) then None
                   else (case exec a s of
                      Some (Inr s1) \<Rightarrow> Some (n, w\<lparr>wcore := s1, code := (code w)(u := k)\<rparr>)
                    | _ \<Rightarrow> None))
          | Spawn f \<Rightarrow>
              (if n \<in> threads s then None
               else case f (glob w) (locals w u) of (c, l) \<Rightarrow>
                 (case exec (DoFork n) s of
                    Some (Inr s1) \<Rightarrow> Some (Suc n, w\<lparr>wcore := s1, locals := (locals w)(n := l), code := (code w)(u := k, n := c)\<rparr>)
                  | _ \<Rightarrow> None))
          | _ \<Rightarrow>
              (case stmt_step r x k (glob w) (locals w u) of
                 Some (Inr (k1, g1, l1)) \<Rightarrow> Some (n, w\<lparr>glob := g1, locals := (locals w)(u := l1), code := (code w)(u := k1)\<rparr>)
               | _ \<Rightarrow> None)))"

definition wslice :: "nat \<Rightarrow> ('g, 'l) prog \<Rightarrow> (nat \<times> ('g, 'l) prog) option" where
  "wslice n w = (if idling (wcore w) \<or> frames (wcore w) (currentThread (wcore w)) \<noteq> [] then None
     else core_step n w (Thread_Yield (wcore w)))"

fun wrun :: "choice list \<Rightarrow> nat \<Rightarrow> ('g, 'l) prog \<Rightarrow> (nat \<times> ('g, 'l) prog) option" where
  "wrun [] n w = Some (n, w)"
| "wrun (c # cs) n w =
     (case (case c of Go r \<Rightarrow> wgo r n w | Slice \<Rightarrow> wslice n w) of
        None \<Rightarrow> None
      | Some (n1, w1) \<Rightarrow> wrun cs n1 w1)"

section \<open>It is a run\<close>

lemma core_step_Some: "core_step n w r = Some (n', w') \<longleftrightarrow> n' = n \<and> (\<exists>s. r = Inr s \<and> w' = w\<lparr>wcore := s\<rparr>)"
  by (cases r) (auto simp: core_step_def)

lemma wgo_step:
  assumes go: "wgo r n w = Some (n', w')" and r: "0 \<le> r"
  shows "wstep devs w w'"
proof -
  let ?s = "wcore w"
  consider (idle) "idling ?s" | (inside) "\<not> idling ?s" "frames ?s (currentThread ?s) \<noteq> []"
    | (own) "\<not> idling ?s" "frames ?s (currentThread ?s) = []" by blast
  then show ?thesis
  proof cases
    case idle
    then obtain s1 where s: "Sleep_loop ?s = Inr s1" "w' = w\<lparr>wcore := s1\<rparr>"
      using go by (auto simp: wgo_def Let_def core_step_Some)
    show ?thesis unfolding s(2)
      by (rule w_core [OF step_idle [OF idle s(1)]]) (simp add: devices_only_def Sleep_loop_locals(1) [OF s(1)])
  next
    case inside
    then obtain s1 where s: "resume ?s = Inr s1" "w' = w\<lparr>wcore := s1\<rparr>"
      using go by (auto simp: wgo_def Let_def core_step_Some)
    show ?thesis unfolding s(2)
      by (rule w_core [OF step_resume [OF inside s(1)]]) (simp add: devices_only_def inside)
  next
    case own
    have op: "step (Some a) ?s s1" if "exec a ?s = Some (Inr s1)" "\<And>t. a = DoFork t \<Longrightarrow> t \<notin> threads ?s" for a s1
      using step_op [OF own that(2,1)] by blast
    show ?thesis
    proof (cases "code w (wcur w)")
      case Nil
      then obtain s1 where s: "Thread_Finish ?s = Inr s1" "w' = w\<lparr>wcore := s1\<rparr>"
        using go own by (auto simp: wgo_def Let_def core_step_Some wcur_def)
      show ?thesis unfolding s(2) by (rule w_finish) (use own Nil op [of DoFinish s1] s(1) in \<open>simp_all add: wcur_def\<close>)
    next
      case (Cons x k)
      then have at: "at_stmt w x k" using own by (simp add: at_stmt_def wcur_def)
      have here: "\<not> idling ?s" "frames ?s (currentThread ?s) = []" "code w (currentThread ?s) = x # k"
        using own Cons by (simp_all add: wcur_def)
      have plain: ?thesis
        if "(case stmt_step r x k (glob w) (locals w (currentThread ?s)) of
              Some (Inr (k1, g1, l1)) \<Rightarrow> Some (n, w\<lparr>glob := g1, locals := (locals w)(currentThread ?s := l1),
                code := (code w)(currentThread ?s := k1)\<rparr>) | _ \<Rightarrow> None) = Some (n', w')"
        using that w_local [OF at r, unfolded wcur_def] by (auto split: option.splits sum.splits)
      show ?thesis
      proof (cases x)
        case (Call f)
        obtain a s1 where a: "f (glob w) (locals w (wcur w)) = Inr a" "exec a ?s = Some (Inr s1)"
            "w' = w\<lparr>wcore := s1, code := (code w)(wcur w := k)\<rparr>" "\<And>t. a \<noteq> DoFork t"
          using go here Call by (auto simp: wgo_def Let_def wcur_def split: sum.splits option.splits if_splits operation.splits)
        show ?thesis unfolding a(3) by (rule w_call [OF at [unfolded Call] a(1) op [OF a(2)]]) (use a(4) in blast)
      next
        case (Spawn f)
        obtain c l s1 where f: "f (glob w) (locals w (wcur w)) = (c, l)" "exec (DoFork n) ?s = Some (Inr s1)" "n \<notin> threads ?s"
            "w' = w\<lparr>wcore := s1, locals := (locals w)(n := l), code := (code w)(wcur w := k, n := c)\<rparr>"
          using go here Spawn by (auto simp: wgo_def Let_def wcur_def split: if_splits prod.splits)
        show ?thesis unfolding f(4) by (rule w_spawn [OF at [unfolded Spawn] f(1) op [OF f(2)]]) (use f(3) in simp)
      qed (rule plain, use go here in \<open>simp add: wgo_def Let_def\<close>)+
    qed
  qed
qed

lemma wslice_step: "wslice n w = Some (n', w') \<Longrightarrow> wstep devs w w'"
  by (auto simp: wslice_def core_step_Some split: if_splits intro!: w_slice step_op)

definition choices_ok :: "choice list \<Rightarrow> bool" where
  "choices_ok cs \<longleftrightarrow> list_all (\<lambda>c. case c of Go r \<Rightarrow> 0 \<le> r | Slice \<Rightarrow> True) cs"

lemma choices_go: "0 \<le> r \<Longrightarrow> choices_ok (replicate n (Go r))"
  by (induction n) (simp_all add: choices_ok_def)

lemma sys0_init: "sys_init sys0"
  by (simp add: sys_init_def sys0_def Semaphore_new_def)

lemma wsteps_trans: "wsteps devs b c \<Longrightarrow> wsteps devs a b \<Longrightarrow> wsteps devs a c"
  by (induction rule: wsteps.induct) (auto intro: wsteps.intros)

lemma wrun_steps: "wrun cs n w = Some (n', w') \<Longrightarrow> choices_ok cs \<Longrightarrow> wsteps devs w w'"
proof (induction cs arbitrary: n w)
  case Nil
  then show ?case by (simp add: wsteps_refl)
next
  case (Cons c cs)
  then obtain n1 w1 where 1: "(case c of Go r \<Rightarrow> wgo r n w | Slice \<Rightarrow> wslice n w) = Some (n1, w1)" "wrun cs n1 w1 = Some (n', w')"
    by (auto split: option.splits)
  have "wstep devs w w1" using 1(1) Cons.prems(2) wgo_step wslice_step
    by (cases c) (auto simp: choices_ok_def)
  moreover have "wsteps devs w1 w'" using Cons.IH [OF 1(2)] Cons.prems(2) by (simp add: choices_ok_def)
  ultimately show ?case by (meson wsteps.intros wsteps_trans)
qed

end
