(* ===== verification/Nachos_Museum.thy ===== *)
theory Nachos_Museum
  imports Nachos_Programs
begin

text \<open>
  The parking simulation of the museum (\<open>threads/threadtest.cc\<close>), the program \<open>ThreadTest\<close> runs: its global
  data and the functions of its threads, as code of \<open>Nachos_Programs\<close>.  Messages are left out.  An \<open>int\<close> of
  the source is an \<open>int\<close> without bound.
\<close>

section \<open>Constants and data\<close>

definition MAX_NUM_VALETS_ON_BENCH :: int where "MAX_NUM_VALETS_ON_BENCH = 2"
definition MIN_NUM_VEHICLES_WAITING :: int where "MIN_NUM_VEHICLES_WAITING = 4"
definition YIELD_DURATION :: int where "YIELD_DURATION = 20"
definition WAITING_ON_BENCH :: int where "WAITING_ON_BENCH = - 1"
definition GOING_TO_BACK_ROOM :: int where "GOING_TO_BACK_ROOM = - 2"
definition IN_BACK_ROOM :: int where "IN_BACK_ROOM = - 3"
definition IS_PARKING_CAR :: int where "IS_PARKING_CAR = - 4"
definition ON_BENCH_NOT_WAITING :: int where "ON_BENCH_NOT_WAITING = - 5"
definition MIN_PARKING_DURATION :: int where "MIN_PARKING_DURATION = 5"
definition MAX_PARKING_DURATION :: int where "MAX_PARKING_DURATION = 15"
definition NO_TICKET_AVAILABLE :: int where "NO_TICKET_AVAILABLE = - 1"
definition MIN_VISIT_DURATION :: int where "MIN_VISIT_DURATION = 50"

lemmas museum_constants = MAX_NUM_VALETS_ON_BENCH_def MIN_NUM_VEHICLES_WAITING_def YIELD_DURATION_def
  WAITING_ON_BENCH_def GOING_TO_BACK_ROOM_def IN_BACK_ROOM_def IS_PARKING_CAR_def ON_BENCH_NOT_WAITING_def
  MIN_PARKING_DURATION_def MAX_PARKING_DURATION_def NO_TICKET_AVAILABLE_def MIN_VISIT_DURATION_def

datatype carStatus = WAITING_TO_PARK | WAITING_FOR_LIMOS | PARKING_CAR | WAITING_TO_LEAVE

text \<open>
  The globals.  A lock or a condition variable is its number; a pointer is null until the object is made,
  and arrays have five elements.  \<open>heapLocks\<close> and \<open>heapConditions\<close> count the objects made with \<open>new\<close>.
\<close>

record museum =
  numLimoDrivers :: int
  numCarDrivers :: int
  numValets :: int
  numCars :: int
  numVisitors :: int
  numTicketTakers :: int
  numCarsWaitingToPark :: int
  numLimosWaitingToPark :: int
  valetManagerAlertCV :: "nat option"
  valetManagerAlertLock :: "nat option"
  valetCarNumber :: "int list"
  valetCarNumberLock :: "nat option list"
  valetStatusCV :: "nat option list"
  valetStatusLock :: "nat option list"
  valetLimoLineLock :: "nat option"
  valetCarLineLock :: "nat option"
  valetLimoParkingLock :: "nat option list"
  valetLimoParkingCV :: "nat option list"
  valetCarParkingLock :: "nat option list"
  valetCarParkingCV :: "nat option list"
  valetAlertCV :: "nat option list"
  valetAlertLock :: "nat option list"
  numCarsWaitingToParkLock :: "nat option"
  numLimosWaitingToParkLock :: "nat option"
  ticketLineLength :: "int list"
  ticketLineLengthLock :: "nat option"
  ticketTakerCV :: "nat option list"
  ticketTakerLock :: "nat option list"
  ticketVisitorNumber :: "int list"
  ticketVisitorNumberLock :: "nat option list"
  ticketLineLock :: "nat option list"
  ticketTakerAlertCV :: "nat option list"
  ticketTakerAlertLock :: "nat option list"
  heapLocks :: nat
  heapConditions :: nat

text \<open>The locals of all functions; a new thread has its argument and nothing else.\<close>

record mlocals =
  l_index :: int
  l_i :: int
  l_lineIndex :: int
  l_duration :: int
  l_status :: carStatus
  l_valetIndex :: int
  l_numLimosWaiting :: int
  l_numCarsWaiting :: int
  l_valetStatus :: int
  l_sleepingOnBench :: bool
  l_valetsOnBench :: int
  l_benchValet :: int
  l_backRoomValet :: int
  l_total :: int
  l_limoOrCar :: int
  l_driverIndex :: int

definition start_locals :: "int \<Rightarrow> mlocals" where
  "start_locals i = \<lparr>l_index = i, l_i = 0, l_lineIndex = 0, l_duration = 0, l_status = WAITING_TO_PARK, l_valetIndex = 0,
     l_numLimosWaiting = 0, l_numCarsWaiting = 0, l_valetStatus = ON_BENCH_NOT_WAITING, l_sleepingOnBench = False,
     l_valetsOnBench = 0, l_benchValet = 0, l_backRoomValet = 0, l_total = 0, l_limoOrCar = 0, l_driverIndex = 0\<rparr>"

type_synonym mcode = "(museum, mlocals) code"
type_synonym mstmt = "(museum, mlocals) stmt"
type_synonym 'a mexp = "museum \<Rightarrow> mlocals \<Rightarrow> fault + 'a"

section \<open>Expressions and statements\<close>

text \<open>A pointer variable, and an element of an array of pointers.\<close>

definition ptr :: "(museum \<Rightarrow> nat option) \<Rightarrow> nat option mexp" where
  "ptr p = (\<lambda>g l. Inr (p g))"

definition elem :: "(museum \<Rightarrow> 'a list) \<Rightarrow> (mlocals \<Rightarrow> int) \<Rightarrow> 'a mexp" where
  "elem a i = (\<lambda>g l. arr_get (a g) (i l))"

text \<open>Method calls: the object is dereferenced, the lock argument of a condition variable is not.\<close>

definition acquire :: "nat option mexp \<Rightarrow> mstmt" where
  "acquire p = Call (\<lambda>g l. bindE (p g l) (\<lambda>x. bindE (derefE x) (\<lambda>n. Inr (DoAcquire n))))"

definition release_lock :: "nat option mexp \<Rightarrow> mstmt" where
  "release_lock p = Call (\<lambda>g l. bindE (p g l) (\<lambda>x. bindE (derefE x) (\<lambda>n. Inr (DoRelease n))))"

definition wait_on :: "nat option mexp \<Rightarrow> nat option mexp \<Rightarrow> mstmt" where
  "wait_on c p = Call (\<lambda>g l. bindE (c g l) (\<lambda>x. bindE (derefE x) (\<lambda>n. bindE (p g l) (\<lambda>lo. Inr (DoWait n lo)))))"

definition signal :: "nat option mexp \<Rightarrow> nat option mexp \<Rightarrow> mstmt" where
  "signal c p = Call (\<lambda>g l. bindE (c g l) (\<lambda>x. bindE (derefE x) (\<lambda>n. bindE (p g l) (\<lambda>lo. Inr (DoSignal n lo)))))"

definition yield :: mstmt where
  "yield = Call (\<lambda>g l. Inr DoYield)"

text \<open>Assignments to locals and to globals.\<close>

definition local :: "(mlocals \<Rightarrow> mlocals) \<Rightarrow> mstmt" where
  "local f = Do (\<lambda>g l. Inr (g, f l))"

definition loads :: "'a mexp \<Rightarrow> ('a \<Rightarrow> mlocals \<Rightarrow> mlocals) \<Rightarrow> mstmt" where
  "loads e f = Do (\<lambda>g l. bindE (e g l) (\<lambda>v. Inr (g, f v l)))"

definition global :: "(museum \<Rightarrow> museum) \<Rightarrow> mstmt" where
  "global f = Do (\<lambda>g l. Inr (f g, l))"

definition stores :: "(museum \<Rightarrow> int list) \<Rightarrow> ((int list \<Rightarrow> int list) \<Rightarrow> museum \<Rightarrow> museum) \<Rightarrow> (mlocals \<Rightarrow> int) \<Rightarrow> (int \<Rightarrow> mlocals \<Rightarrow> int) \<Rightarrow> mstmt" where
  "stores a upd i v = Do (\<lambda>g l. bindE (arr_get (a g) (i l)) (\<lambda>x. bindE (arr_set (a g) (i l) (v x l)) (\<lambda>ys. Inr (upd (\<lambda>_. ys) g, l))))"

definition is_elem :: "(museum \<Rightarrow> int list) \<Rightarrow> (mlocals \<Rightarrow> int) \<Rightarrow> int \<Rightarrow> bool mexp" where
  "is_elem a i v = (\<lambda>g l. bindE (arr_get (a g) (i l)) (\<lambda>x. Inr (x = v)))"

definition cond :: "(mlocals \<Rightarrow> bool) \<Rightarrow> bool mexp" where
  "cond b = (\<lambda>g l. Inr (b l))"

text \<open>\<open>for (int i = 0; i < n; i++) p\<close>\<close>

definition count :: "(museum \<Rightarrow> mlocals \<Rightarrow> int) \<Rightarrow> mcode \<Rightarrow> mcode" where
  "count n p = [local (l_i_update (\<lambda>_. 0)), Loop (\<lambda>g l. Inr (l_i l < n g l)) p [local (l_i_update (\<lambda>i. i + 1))]]"

definition while_true :: "mcode \<Rightarrow> mstmt" where
  "while_true p = Loop (cond (\<lambda>l. True)) p []"

lemmas stmt_defs = ptr_def elem_def acquire_def release_lock_def wait_on_def signal_def yield_def local_def loads_def
  global_def stores_def is_elem_def cond_def

section \<open>Visitor\<close>

definition Visitor_line :: mcode where
  "Visitor_line =
    [acquire (ptr ticketLineLengthLock),
     local (\<lambda>l. l\<lparr>l_i := l_lineIndex l + 1\<rparr>),
     Loop (\<lambda>g l. Inr (l_i l < numTicketTakers g))
       [If (\<lambda>g l. bindE (arr_get (ticketLineLength g) (l_i l)) (\<lambda>n. Inr (n \<ge> 0)))
         [If (\<lambda>g l. bindE (arr_get (ticketLineLength g) (l_lineIndex l)) (\<lambda>m.
                bindE (arr_get (ticketLineLength g) (l_i l)) (\<lambda>n. Inr (m > n))))
            [local (\<lambda>l. l\<lparr>l_lineIndex := l_i l\<rparr>)] []] []]
       [local (l_i_update (\<lambda>i. i + 1))],
     stores ticketLineLength ticketLineLength_update l_lineIndex (\<lambda>n l. n + 1),
     release_lock (ptr ticketLineLengthLock)]"

definition Visitor_ticket :: mcode where
  "Visitor_ticket =
    [acquire (elem ticketLineLock l_lineIndex),
     acquire (elem ticketTakerLock l_lineIndex),
     acquire (elem ticketTakerAlertLock l_lineIndex),
     signal (elem ticketTakerAlertCV l_lineIndex) (elem ticketTakerAlertLock l_lineIndex),
     acquire (elem ticketVisitorNumberLock l_lineIndex),
     stores ticketVisitorNumber ticketVisitorNumber_update l_lineIndex (\<lambda>_ l. l_index l),
     release_lock (elem ticketVisitorNumberLock l_lineIndex),
     release_lock (elem ticketTakerAlertLock l_lineIndex),
     wait_on (elem ticketTakerCV l_lineIndex) (elem ticketTakerLock l_lineIndex),
     release_lock (elem ticketTakerLock l_lineIndex),
     release_lock (elem ticketLineLock l_lineIndex)]"

definition Visitor :: mcode where
  "Visitor = local (\<lambda>l. l\<lparr>l_lineIndex := 0, l_duration := 0\<rparr>) # Visitor_line @ Visitor_ticket @
     Rand (\<lambda>r l. l\<lparr>l_duration := r mod MIN_VISIT_DURATION + MIN_VISIT_DURATION\<rparr>) # count (\<lambda>g l. l_duration l) [yield]"

section \<open>Drivers\<close>

definition lock_valets :: mcode where
  "lock_valets = count (\<lambda>g l. numValets g) [acquire (elem valetCarNumberLock l_i)]"

definition unlock_valets :: mcode where
  "unlock_valets = count (\<lambda>g l. numValets g) [release_lock (elem valetCarNumberLock l_i)]"

definition find_valet :: "int \<Rightarrow> (mlocals \<Rightarrow> mlocals) \<Rightarrow> mcode" where
  "find_valet v f = count (\<lambda>g l. numValets g) [If (is_elem valetCarNumber l_i v) [local f, Break] []]"

definition pause :: "int \<Rightarrow> mcode" where
  "pause n = count (\<lambda>g l. n) [yield]"

definition Limo_hand_over :: mcode where
  "Limo_hand_over =
    [acquire (elem valetLimoParkingLock l_valetIndex),
     acquire (elem valetAlertLock l_valetIndex),
     stores valetCarNumber valetCarNumber_update l_valetIndex (\<lambda>_ l. l_index l)] @
    unlock_valets @
    [signal (elem valetAlertCV l_valetIndex) (elem valetAlertLock l_valetIndex),
     release_lock (elem valetAlertLock l_valetIndex),
     wait_on (elem valetLimoParkingCV l_valetIndex) (elem valetLimoParkingLock l_valetIndex),
     release_lock (elem valetLimoParkingLock l_valetIndex),
     release_lock (ptr valetLimoLineLock),
     local (\<lambda>l. l\<lparr>l_status := WAITING_TO_LEAVE\<rparr>)]"

definition LimoDriver :: mcode where
  "LimoDriver =
    [local (\<lambda>l. l\<lparr>l_status := WAITING_TO_PARK, l_valetIndex := 0\<rparr>),
     while_true
      [If (cond (\<lambda>l. l_status l = WAITING_TO_PARK))
        [acquire (ptr valetLimoLineLock), local (\<lambda>l. l\<lparr>l_status := PARKING_CAR\<rparr>)]
        [If (cond (\<lambda>l. l_status l = PARKING_CAR))
          (lock_valets @ find_valet WAITING_ON_BENCH (\<lambda>l. l\<lparr>l_valetIndex := l_i l\<rparr>) @
           [If (is_elem valetCarNumber l_valetIndex WAITING_ON_BENCH) Limo_hand_over (unlock_valets @ pause YIELD_DURATION)])
          [If (cond (\<lambda>l. l_status l = WAITING_TO_LEAVE)) [Break] []]]]]"

definition Car_hand_over :: mcode where
  "Car_hand_over =
    [acquire (elem valetCarParkingLock l_valetIndex),
     acquire (elem valetAlertLock l_valetIndex),
     stores valetCarNumber valetCarNumber_update l_valetIndex (\<lambda>_ l. l_index l)] @
    unlock_valets @
    [signal (elem valetAlertCV l_valetIndex) (elem valetAlertLock l_valetIndex),
     release_lock (elem valetAlertLock l_valetIndex),
     wait_on (elem valetCarParkingCV l_valetIndex) (elem valetCarParkingLock l_valetIndex),
     release_lock (elem valetCarParkingLock l_valetIndex),
     release_lock (ptr valetCarLineLock),
     local (\<lambda>l. l\<lparr>l_status := WAITING_TO_LEAVE\<rparr>)]"

definition CarDriver :: mcode where
  "CarDriver =
    [local (\<lambda>l. l\<lparr>l_status := WAITING_TO_PARK, l_valetIndex := 0, l_numLimosWaiting := 0\<rparr>),
     while_true
      [If (cond (\<lambda>l. l_status l = WAITING_TO_PARK))
        [acquire (ptr valetCarLineLock), local (\<lambda>l. l\<lparr>l_status := WAITING_FOR_LIMOS\<rparr>)]
        [If (cond (\<lambda>l. l_status l = WAITING_FOR_LIMOS))
          [acquire (ptr numLimosWaitingToParkLock),
           loads (\<lambda>g l. Inr (numLimosWaitingToPark g)) (\<lambda>n l. l\<lparr>l_numLimosWaiting := n\<rparr>),
           release_lock (ptr numLimosWaitingToParkLock),
           If (cond (\<lambda>l. l_numLimosWaiting l = 0))
             [local (\<lambda>l. l\<lparr>l_status := PARKING_CAR\<rparr>)] (pause YIELD_DURATION)]
          [If (cond (\<lambda>l. l_status l = PARKING_CAR))
            (lock_valets @ find_valet WAITING_ON_BENCH (\<lambda>l. l\<lparr>l_valetIndex := l_i l\<rparr>) @
             [If (is_elem valetCarNumber l_valetIndex WAITING_ON_BENCH) Car_hand_over unlock_valets])
            [If (cond (\<lambda>l. l_status l = WAITING_TO_LEAVE)) [Break] []]]]]]"

section \<open>Valets\<close>

text \<open>\<open>valetCarNumber[index]\<close> is read and written under its lock.\<close>

definition set_number :: "int \<Rightarrow> mcode" where
  "set_number v =
    [acquire (elem valetCarNumberLock l_index),
     stores valetCarNumber valetCarNumber_update l_index (\<lambda>_ _. v),
     release_lock (elem valetCarNumberLock l_index)]"

definition Valet_bench :: mcode where
  "Valet_bench =
    [acquire (elem valetAlertLock l_index),
     acquire (ptr numLimosWaitingToParkLock),
     loads (\<lambda>g l. Inr (numLimosWaitingToPark g)) (\<lambda>n l. l\<lparr>l_numLimosWaiting := n\<rparr>),
     release_lock (ptr numLimosWaitingToParkLock),
     acquire (ptr numCarsWaitingToParkLock),
     loads (\<lambda>g l. Inr (numCarsWaitingToPark g)) (\<lambda>n l. l\<lparr>l_numCarsWaiting := n\<rparr>),
     release_lock (ptr numCarsWaitingToParkLock),
     If (cond (\<lambda>l. l_numCarsWaiting l + l_numLimosWaiting l = 0))
       [If (cond (\<lambda>l. \<not> l_sleepingOnBench l)) [local (\<lambda>l. l\<lparr>l_sleepingOnBench := True\<rparr>)] []] []] @
    set_number WAITING_ON_BENCH @
    [wait_on (elem valetAlertCV l_index) (elem valetAlertLock l_index),
     release_lock (elem valetAlertLock l_index)]"

definition Valet_parking :: mcode where
  "Valet_parking =
    [acquire (ptr valetManagerAlertLock),
     signal (ptr valetManagerAlertCV) (ptr valetManagerAlertLock),
     release_lock (ptr valetManagerAlertLock),
     release_lock (elem valetStatusLock l_index),
     Rand (\<lambda>r l. l\<lparr>l_duration := r mod MAX_PARKING_DURATION + MIN_PARKING_DURATION\<rparr>)] @
    count (\<lambda>g l. l_duration l) [yield] @
    set_number ON_BENCH_NOT_WAITING @
    [acquire (elem valetStatusLock l_index)]"

text \<open>An odd number is a limousine's; for being odd the sign of \<open>%\<close> does not matter.\<close>

definition Valet_driver :: mcode where
  "Valet_driver =
    [If (cond l_sleepingOnBench) [local (\<lambda>l. l\<lparr>l_sleepingOnBench := False\<rparr>)] [],
     If (cond (\<lambda>l. l_valetStatus l mod 2 \<noteq> 0))
      [acquire (elem valetLimoParkingLock l_index),
       signal (elem valetLimoParkingCV l_index) (elem valetLimoParkingLock l_index),
       release_lock (elem valetLimoParkingLock l_index),
       acquire (ptr numLimosWaitingToParkLock),
       global (numLimosWaitingToPark_update (\<lambda>n. n - 1)),
       release_lock (ptr numLimosWaitingToParkLock)]
      [acquire (elem valetCarParkingLock l_index),
       signal (elem valetCarParkingCV l_index) (elem valetCarParkingLock l_index),
       release_lock (elem valetCarParkingLock l_index),
       acquire (ptr numCarsWaitingToParkLock),
       global (numCarsWaitingToPark_update (\<lambda>n. n - 1)),
       release_lock (ptr numCarsWaitingToParkLock)]] @
    set_number IS_PARKING_CAR"

definition Valet :: mcode where
  "Valet =
    [local (\<lambda>l. l\<lparr>l_valetStatus := ON_BENCH_NOT_WAITING, l_numCarsWaiting := 0, l_numLimosWaiting := 0, l_duration := 0,
       l_sleepingOnBench := False\<rparr>),
     while_true
      ([acquire (elem valetCarNumberLock l_index),
        loads (elem valetCarNumber l_index) (\<lambda>v l. l\<lparr>l_valetStatus := v\<rparr>),
        release_lock (elem valetCarNumberLock l_index),
        acquire (elem valetStatusLock l_index),
        If (cond (\<lambda>l. l_valetStatus l = GOING_TO_BACK_ROOM)) (set_number IN_BACK_ROOM)
         [If (cond (\<lambda>l. l_valetStatus l = IN_BACK_ROOM))
           (wait_on (elem valetStatusCV l_index) (elem valetStatusLock l_index) # set_number ON_BENCH_NOT_WAITING)
           [If (cond (\<lambda>l. l_valetStatus l = ON_BENCH_NOT_WAITING)) Valet_bench
             [If (cond (\<lambda>l. l_valetStatus l = WAITING_ON_BENCH)) []
               [If (cond (\<lambda>l. l_valetStatus l = IS_PARKING_CAR)) Valet_parking Valet_driver]]]],
        release_lock (elem valetStatusLock l_index)])]"

section \<open>The manager\<close>

definition call_valet :: mcode where
  "call_valet =
    [If (is_elem valetCarNumber l_backRoomValet IN_BACK_ROOM)
      [stores valetCarNumber valetCarNumber_update l_backRoomValet (\<lambda>_ _. ON_BENCH_NOT_WAITING),
       acquire (elem valetStatusLock l_index),
       signal (elem valetStatusCV l_index) (elem valetStatusLock l_index),
       release_lock (elem valetStatusLock l_index)] []]"

definition ValetManager_back_room :: mcode where
  "ValetManager_back_room =
    lock_valets @ find_valet IN_BACK_ROOM (\<lambda>l. l\<lparr>l_backRoomValet := l_i l\<rparr>) @ call_valet @ unlock_valets"

definition count_bench :: mcode where
  "count_bench = count (\<lambda>g l. numValets g)
    [If (is_elem valetCarNumber l_i WAITING_ON_BENCH)
      [local (\<lambda>l. l\<lparr>l_valetsOnBench := l_valetsOnBench l + 1\<rparr>), local (\<lambda>l. l\<lparr>l_benchValet := l_i l\<rparr>)] []]"

definition send_valet :: mcode where
  "send_valet =
    [If (cond (\<lambda>l. l_valetsOnBench l > MAX_NUM_VALETS_ON_BENCH))
      [If (is_elem valetCarNumber l_benchValet WAITING_ON_BENCH)
        [stores valetCarNumber valetCarNumber_update l_benchValet (\<lambda>_ _. GOING_TO_BACK_ROOM),
         acquire (elem valetAlertLock l_benchValet),
         signal (elem valetAlertCV l_benchValet) (elem valetAlertLock l_benchValet),
         release_lock (elem valetAlertLock l_benchValet)] []] []]"

definition ValetManager_bench :: mcode where
  "ValetManager_bench = lock_valets @ count_bench @ send_valet @ unlock_valets"

definition ValetManager :: mcode where
  "ValetManager =
    [local (\<lambda>l. l\<lparr>l_valetsOnBench := 0, l_benchValet := 0, l_backRoomValet := 0, l_total := 0\<rparr>),
     while_true
      ([acquire (ptr numCarsWaitingToParkLock),
        acquire (ptr numLimosWaitingToParkLock),
        loads (\<lambda>g l. Inr (numCarsWaitingToPark g + numLimosWaitingToPark g)) (\<lambda>n l. l\<lparr>l_total := n\<rparr>),
        If (cond (\<lambda>l. l_total l \<ge> MIN_NUM_VEHICLES_WAITING)) ValetManager_back_room [],
        release_lock (ptr numCarsWaitingToParkLock),
        release_lock (ptr numLimosWaitingToParkLock)] @
       pause 50 @ ValetManager_bench @ pause YIELD_DURATION @
       [acquire (ptr valetManagerAlertLock),
        wait_on (ptr valetManagerAlertCV) (ptr valetManagerAlertLock),
        release_lock (ptr valetManagerAlertLock)])]"

section \<open>The ticket takers\<close>

definition TicketTaker :: mcode where
  "TicketTaker =
    [while_true
      [acquire (elem ticketTakerLock l_index),
       acquire (elem ticketVisitorNumberLock l_index),
       If (\<lambda>g l. bindE (arr_get (ticketVisitorNumber g) (l_index l)) (\<lambda>v. Inr (v \<ge> 0)))
         [signal (elem ticketTakerCV l_index) (elem ticketTakerLock l_index),
          stores ticketVisitorNumber ticketVisitorNumber_update l_index (\<lambda>_ _. NO_TICKET_AVAILABLE),
          acquire (ptr ticketLineLengthLock),
          stores ticketLineLength ticketLineLength_update l_index (\<lambda>n _. n - 1),
          release_lock (ptr ticketLineLengthLock)] [],
       release_lock (elem ticketVisitorNumberLock l_index),
       release_lock (elem ticketTakerLock l_index),
       acquire (elem ticketTakerAlertLock l_index),
       wait_on (elem ticketTakerAlertCV l_index) (elem ticketTakerAlertLock l_index),
       release_lock (elem ticketTakerAlertLock l_index)]]"

section \<open>The main function\<close>

text \<open>The objects of the simulation.  Nothing else runs before the first \<open>Fork\<close>.\<close>

definition globals0 :: museum where
  "globals0 = (let a = replicate 5 0; p = replicate 5 None in
    \<lparr>numLimoDrivers = 0, numCarDrivers = 0, numValets = 0, numCars = 0, numVisitors = 0, numTicketTakers = 0,
     numCarsWaitingToPark = 0, numLimosWaitingToPark = 0, valetManagerAlertCV = None, valetManagerAlertLock = None,
     valetCarNumber = a, valetCarNumberLock = p, valetStatusCV = p, valetStatusLock = p,
     valetLimoLineLock = None, valetCarLineLock = None, valetLimoParkingLock = p, valetLimoParkingCV = p,
     valetCarParkingLock = p, valetCarParkingCV = p, valetAlertCV = p, valetAlertLock = p,
     numCarsWaitingToParkLock = None, numLimosWaitingToParkLock = None, ticketLineLength = a, ticketLineLengthLock = None,
     ticketTakerCV = p, ticketTakerLock = p, ticketVisitorNumber = a, ticketVisitorNumberLock = p, ticketLineLock = p,
     ticketTakerAlertCV = p, ticketTakerAlertLock = p, heapLocks = 0, heapConditions = 0\<rparr>)"

definition make_lock :: "((nat option \<Rightarrow> nat option) \<Rightarrow> museum \<Rightarrow> museum) \<Rightarrow> museum \<Rightarrow> museum" where
  "make_lock upd g = upd (\<lambda>_. Some (heapLocks g)) (g\<lparr>heapLocks := Suc (heapLocks g)\<rparr>)"

definition make_cond :: "((nat option \<Rightarrow> nat option) \<Rightarrow> museum \<Rightarrow> museum) \<Rightarrow> museum \<Rightarrow> museum" where
  "make_cond upd g = upd (\<lambda>_. Some (heapConditions g)) (g\<lparr>heapConditions := Suc (heapConditions g)\<rparr>)"

definition array_slot :: "((nat option list \<Rightarrow> nat option list) \<Rightarrow> museum \<Rightarrow> museum) \<Rightarrow> nat \<Rightarrow> (nat option \<Rightarrow> nat option) \<Rightarrow> museum \<Rightarrow> museum" where
  "array_slot upd i f = upd (\<lambda>xs. xs[i := f (xs ! i)])"

definition new_valet :: "nat \<Rightarrow> museum \<Rightarrow> museum" where
  "new_valet i g =
    (make_cond (array_slot valetCarParkingCV_update i) \<circ> make_lock (array_slot valetCarParkingLock_update i) \<circ>
     make_cond (array_slot valetLimoParkingCV_update i) \<circ> make_lock (array_slot valetLimoParkingLock_update i) \<circ>
     make_lock (array_slot valetAlertLock_update i) \<circ> make_cond (array_slot valetAlertCV_update i) \<circ>
     make_lock (array_slot valetStatusLock_update i) \<circ> make_cond (array_slot valetStatusCV_update i) \<circ>
     make_lock (array_slot valetCarNumberLock_update i)) (valetCarNumber_update (\<lambda>xs. xs[i := ON_BENCH_NOT_WAITING]) g)"

definition new_ticket_taker :: "nat \<Rightarrow> museum \<Rightarrow> museum" where
  "new_ticket_taker i g = ticketVisitorNumber_update (\<lambda>xs. xs[i := NO_TICKET_AVAILABLE])
    ((make_lock (array_slot ticketTakerAlertLock_update i) \<circ> make_cond (array_slot ticketTakerAlertCV_update i) \<circ>
      make_lock (array_slot ticketLineLock_update i) \<circ> make_lock (array_slot ticketVisitorNumberLock_update i) \<circ>
      make_cond (array_slot ticketTakerCV_update i) \<circ> make_lock (array_slot ticketTakerLock_update i)) g)"

definition museum_objects :: "museum \<Rightarrow> museum" where
  "museum_objects g =
    (let g1 = g\<lparr>numValets := 5, numTicketTakers := 2, numCars := 5\<rparr>;
         g2 = (make_lock valetCarLineLock_update \<circ> make_lock valetLimoLineLock_update \<circ> make_lock numLimosWaitingToParkLock_update \<circ>
               make_lock numCarsWaitingToParkLock_update \<circ> make_lock valetManagerAlertLock_update \<circ>
               make_cond valetManagerAlertCV_update) g1;
         g3 = fold new_valet [0..<nat (numValets g2)] g2;
         g4 = (make_lock ticketLineLengthLock_update \<circ> make_lock numLimosWaitingToParkLock_update \<circ>
               make_lock numCarsWaitingToParkLock_update) g3 in
     fold new_ticket_taker [0..<nat (numTicketTakers g4)] g4)"

definition MuseumParkingSimulation :: mcode where
  "MuseumParkingSimulation =
    count (\<lambda>g l. numCars g)
      [Rand (\<lambda>r l. l\<lparr>l_limoOrCar := r mod 2\<rparr>),
       If (cond (\<lambda>l. l_limoOrCar l = 0))
         [local (\<lambda>l. l\<lparr>l_driverIndex := 2 * l_i l\<rparr>),
          Spawn (\<lambda>g l. (CarDriver, start_locals (l_driverIndex l))),
          global (numCarDrivers_update (\<lambda>n. n + 1)),
          global (numCarsWaitingToPark_update (\<lambda>n. n + 1))]
         [local (\<lambda>l. l\<lparr>l_driverIndex := 2 * l_i l + 1\<rparr>),
          Spawn (\<lambda>g l. (LimoDriver, start_locals (l_driverIndex l))),
          global (numLimoDrivers_update (\<lambda>n. n + 1)),
          global (numLimosWaitingToPark_update (\<lambda>n. n + 1))]] @
    count (\<lambda>g l. numValets g) [Spawn (\<lambda>g l. (Valet, start_locals (l_i l)))] @
    [Spawn (\<lambda>g l. (ValetManager, start_locals 0))]"

definition ThreadTest :: "sys \<Rightarrow> (museum, mlocals) prog" where
  "ThreadTest s = prog_init s (museum_objects globals0) (start_locals 0) MuseumParkingSimulation"

end
