(* ===== verification/Nachos_MuseumLocks.thy ===== *)
theory Nachos_MuseumLocks
  imports Nachos_Museum Nachos_Runs
begin

text \<open>
  The lock discipline of the parking simulation, for every interleaving: which lock protects which datum,
  which lock goes with which condition variable, and that every function of the simulation keeps to it.
\<close>

section \<open>The objects\<close>

definition valet_objects :: "(nat \<Rightarrow> nat) \<Rightarrow> nat option list" where
  "valet_objects f = map (\<lambda>i. Some (f i)) [0..<5]"

definition taker_objects :: "(nat \<Rightarrow> nat) \<Rightarrow> nat option list" where
  "taker_objects f = map (\<lambda>i. if i < 2 then Some (f i) else None) [0..<5]"

definition museum_inv :: "museum \<Rightarrow> bool" where
  "museum_inv g \<longleftrightarrow> numValets g = 5 \<and> numTicketTakers g = 2 \<and>
     valetManagerAlertCV g = Some 0 \<and> valetManagerAlertLock g = Some 0 \<and>
     valetLimoLineLock g = Some 3 \<and> valetCarLineLock g = Some 4 \<and>
     numCarsWaitingToParkLock g = Some 30 \<and> numLimosWaitingToParkLock g = Some 31 \<and> ticketLineLengthLock g = Some 32 \<and>
     valetCarNumberLock g = valet_objects (\<lambda>i. 5 + 5 * i) \<and>
     valetStatusLock g = valet_objects (\<lambda>i. 6 + 5 * i) \<and> valetStatusCV g = valet_objects (\<lambda>i. 1 + 4 * i) \<and>
     valetAlertLock g = valet_objects (\<lambda>i. 7 + 5 * i) \<and> valetAlertCV g = valet_objects (\<lambda>i. 2 + 4 * i) \<and>
     valetLimoParkingLock g = valet_objects (\<lambda>i. 8 + 5 * i) \<and> valetLimoParkingCV g = valet_objects (\<lambda>i. 3 + 4 * i) \<and>
     valetCarParkingLock g = valet_objects (\<lambda>i. 9 + 5 * i) \<and> valetCarParkingCV g = valet_objects (\<lambda>i. 4 + 4 * i) \<and>
     ticketTakerLock g = taker_objects (\<lambda>i. 33 + 4 * i) \<and> ticketTakerCV g = taker_objects (\<lambda>i. 21 + 2 * i) \<and>
     ticketVisitorNumberLock g = taker_objects (\<lambda>i. 34 + 4 * i) \<and> ticketLineLock g = taker_objects (\<lambda>i. 35 + 4 * i) \<and>
     ticketTakerAlertLock g = taker_objects (\<lambda>i. 36 + 4 * i) \<and> ticketTakerAlertCV g = taker_objects (\<lambda>i. 22 + 2 * i) \<and>
     length (valetCarNumber g) = 5 \<and> length (ticketLineLength g) = 5 \<and> length (ticketVisitorNumber g) = 5"

lemma objects_upt: "[0..<5] = [0, 1, 2, 3, 4 :: nat]" "[0..<2] = [0, 1 :: nat]"
  by (simp_all add: upt_conv_Cons)

lemma objects_inv: "museum_inv (museum_objects globals0)"
  by (simp add: museum_objects_def globals0_def make_lock_def make_cond_def array_slot_def new_valet_def new_ticket_taker_def
      museum_inv_def valet_objects_def taker_objects_def objects_upt Let_def eval_nat_numeral)

lemma inv_ex [simp]: "\<exists>g. museum_inv g"
  using objects_inv by blast

lemma objects_get:
  assumes "0 \<le> i"
  shows "i < 5 \<Longrightarrow> arr_get (valet_objects f) i = Inr (Some (f (nat i)))"
    "i < 2 \<Longrightarrow> arr_get (taker_objects f) i = Inr (Some (f (nat i)))"
  using assms by (simp_all add: arr_get_def in_range_def valet_objects_def taker_objects_def nat_less_iff)

lemma objects_nth:
  "i < 5 \<Longrightarrow> valet_objects f ! i = Some (f i)" "i < 2 \<Longrightarrow> taker_objects f ! i = Some (f i)"
  by (simp_all add: valet_objects_def taker_objects_def)

lemma data_get:
  assumes "museum_inv g" "0 \<le> i" "i < 5"
  shows "arr_get (valetCarNumber g) i = Inr (valetCarNumber g ! nat i)"
    "arr_get (ticketLineLength g) i = Inr (ticketLineLength g ! nat i)"
    "arr_get (ticketVisitorNumber g) i = Inr (ticketVisitorNumber g ! nat i)"
    "arr_set (valetCarNumber g) i v = Inr ((valetCarNumber g)[nat i := v])"
    "arr_set (ticketLineLength g) i v = Inr ((ticketLineLength g)[nat i := v])"
    "arr_set (ticketVisitorNumber g) i v = Inr ((ticketVisitorNumber g)[nat i := v])"
  using assms by (simp_all add: arr_get_def arr_set_def in_range_def museum_inv_def)

lemma inv_field:
  assumes "museum_inv g"
  shows "numValets g = 5" "numTicketTakers g = 2" "valetManagerAlertCV g = Some 0" "valetManagerAlertLock g = Some 0"
    "valetLimoLineLock g = Some 3" "valetCarLineLock g = Some 4"
    "numCarsWaitingToParkLock g = Some 30" "numLimosWaitingToParkLock g = Some 31" "ticketLineLengthLock g = Some 32"
    "valetCarNumberLock g = valet_objects (\<lambda>i. 5 + 5 * i)"
    "valetStatusLock g = valet_objects (\<lambda>i. 6 + 5 * i)" "valetStatusCV g = valet_objects (\<lambda>i. 1 + 4 * i)"
    "valetAlertLock g = valet_objects (\<lambda>i. 7 + 5 * i)" "valetAlertCV g = valet_objects (\<lambda>i. 2 + 4 * i)"
    "valetLimoParkingLock g = valet_objects (\<lambda>i. 8 + 5 * i)" "valetLimoParkingCV g = valet_objects (\<lambda>i. 3 + 4 * i)"
    "valetCarParkingLock g = valet_objects (\<lambda>i. 9 + 5 * i)" "valetCarParkingCV g = valet_objects (\<lambda>i. 4 + 4 * i)"
    "ticketTakerLock g = taker_objects (\<lambda>i. 33 + 4 * i)" "ticketTakerCV g = taker_objects (\<lambda>i. 21 + 2 * i)"
    "ticketVisitorNumberLock g = taker_objects (\<lambda>i. 34 + 4 * i)" "ticketLineLock g = taker_objects (\<lambda>i. 35 + 4 * i)"
    "ticketTakerAlertLock g = taker_objects (\<lambda>i. 36 + 4 * i)" "ticketTakerAlertCV g = taker_objects (\<lambda>i. 22 + 2 * i)"
  using assms by (simp_all add: museum_inv_def)

section \<open>The discipline\<close>

definition museum_guard :: "nat \<Rightarrow> nat" where
  "museum_guard c = (if c = 0 then 0 else if c < 21 then 6 + 5 * ((c - 1) div 4) + (c - 1) mod 4
     else 33 + 4 * ((c - 21) div 2) + 3 * ((c - 21) mod 2))"

text \<open>
  Each entry of \<open>valetCarNumber\<close> and \<open>ticketVisitorNumber\<close> is changed only with its lock, the line lengths only
  with theirs, and a waiting vehicle is only taken off its count with the lock of the count.
\<close>

definition museum_guar :: "nat set \<Rightarrow> museum \<Rightarrow> museum \<Rightarrow> bool" where
  "museum_guar H g g' \<longleftrightarrow>
     (\<forall>i < 5. valetCarNumber g' ! i \<noteq> valetCarNumber g ! i \<longrightarrow> (\<exists>l \<in> H. valetCarNumberLock g ! i = Some l)) \<and>
     (\<forall>i < 5. ticketVisitorNumber g' ! i \<noteq> ticketVisitorNumber g ! i \<longrightarrow> (\<exists>l \<in> H. ticketVisitorNumberLock g ! i = Some l)) \<and>
     (ticketLineLength g' \<noteq> ticketLineLength g \<longrightarrow> (\<exists>l \<in> H. ticketLineLengthLock g = Some l)) \<and>
     (numCarsWaitingToPark g' < numCarsWaitingToPark g \<longrightarrow> (\<exists>l \<in> H. numCarsWaitingToParkLock g = Some l)) \<and>
     (numLimosWaitingToPark g' < numLimosWaitingToPark g \<longrightarrow> (\<exists>l \<in> H. numLimosWaitingToParkLock g = Some l))"

definition museum_locks :: "museum discipline" where
  "museum_locks = \<lparr>ginv = museum_inv, guar = museum_guar, calls = strict_ok museum_guard, guard = museum_guard\<rparr>"

lemma locks_sel [simp]: "ginv museum_locks = museum_inv" "guar museum_locks = museum_guar" "guard museum_locks = museum_guard"
    "calls museum_locks = strict_ok museum_guard"
  by (simp_all add: museum_locks_def)

lemma guar_refl [simp]: "museum_guar H g g"
  by (simp add: museum_guar_def)

definition museum_start :: "mcode \<Rightarrow> mlocals \<Rightarrow> bool" where
  "museum_start c l \<longleftrightarrow>
     c = LimoDriver \<or> c = CarDriver \<or> c = ValetManager \<and> l_index l = 0 \<or> c = Valet \<and> l_index l \<in> {0, 1, 2, 3, 4} \<or>
     c = TicketTaker \<and> l_index l \<in> {0, 1} \<or> c = Visitor"

section \<open>Rules for the statements\<close>

abbreviation pre :: "mcode \<Rightarrow> mlocals assn \<Rightarrow> mlocals assn \<Rightarrow> mlocals assn" where
  "pre \<equiv> wp museum_locks museum_start"

lemma wp_acquire:
  assumes "\<And>g. museum_inv g \<Longrightarrow> p g l = Inr (Some n)"
  shows "pre (acquire p # c) Q B l H \<longleftrightarrow> n \<notin> H \<and> pre c Q B l (insert n H)"
  by (simp add: acquire_def assms)

lemma wp_release:
  assumes "\<And>g. museum_inv g \<Longrightarrow> p g l = Inr (Some n)"
  shows "pre (release_lock p # c) Q B l H \<longleftrightarrow> n \<in> H \<and> pre c Q B l (H - {n})"
  by (simp add: release_lock_def assms)

lemma wp_wait:
  assumes "\<And>g. museum_inv g \<Longrightarrow> q g l = Inr (Some c)" "\<And>g. museum_inv g \<Longrightarrow> p g l = Inr (Some n)"
  shows "pre (wait_on q p # k) Q B l H \<longleftrightarrow> n = museum_guard c \<and> n \<in> H \<and> pre k Q B l H"
  by (auto simp: wait_on_def assms)

lemma wp_signal:
  assumes "\<And>g. museum_inv g \<Longrightarrow> q g l = Inr (Some c)" "\<And>g. museum_inv g \<Longrightarrow> p g l = Inr (Some n)"
  shows "pre (signal q p # k) Q B l H \<longleftrightarrow> n = museum_guard c \<and> n \<in> H \<and> pre k Q B l H"
  by (auto simp: signal_def assms)

lemma wp_yield [simp]: "pre (yield # c) Q B l H = pre c Q B l H"
  by (simp add: yield_def)

lemma wp_local [simp]: "pre (local f # c) Q B l H = pre c Q B (f l) H"
  by (simp add: local_def)

lemma cond_apply [simp]: "cond b g l = Inr (b l)"
  by (simp add: cond_def)

lemma wp_loads: "(\<And>g. museum_inv g \<Longrightarrow> \<exists>v. e g l = Inr v) \<Longrightarrow> (\<And>v. pre c Q B (f v l) H) \<Longrightarrow> pre (loads e f # c) Q B l H"
  by (fastforce simp: loads_def)

lemma inv_update:
  assumes "museum_inv g"
  shows "museum_inv (valetCarNumber_update (\<lambda>_. (valetCarNumber g)[i := v]) g)"
    "museum_inv (ticketVisitorNumber_update (\<lambda>_. (ticketVisitorNumber g)[i := v]) g)"
    "museum_inv (ticketLineLength_update (\<lambda>_. (ticketLineLength g)[i := v]) g)"
    "museum_inv (numCarsWaitingToPark_update f g)" "museum_inv (numLimosWaitingToPark_update f g)"
    "museum_inv (numCarDrivers_update f g)" "museum_inv (numLimoDrivers_update f g)"
  using assms by (simp_all add: museum_inv_def)

lemma guar_update:
  assumes "museum_inv g"
  shows "i < 5 \<Longrightarrow> 5 + 5 * i \<in> H \<Longrightarrow> museum_guar H g (valetCarNumber_update (\<lambda>_. (valetCarNumber g)[i := v]) g)"
    "i < 2 \<Longrightarrow> 34 + 4 * i \<in> H \<Longrightarrow> museum_guar H g (ticketVisitorNumber_update (\<lambda>_. (ticketVisitorNumber g)[i := v]) g)"
    "32 \<in> H \<Longrightarrow> museum_guar H g (ticketLineLength_update (\<lambda>_. (ticketLineLength g)[i := v]) g)"
    "30 \<in> H \<Longrightarrow> museum_guar H g (numCarsWaitingToPark_update f g)"
    "31 \<in> H \<Longrightarrow> museum_guar H g (numLimosWaitingToPark_update f g)"
    "museum_guar H g (numCarsWaitingToPark_update (\<lambda>n. n + 1) g)"
    "museum_guar H g (numLimosWaitingToPark_update (\<lambda>n. n + 1) g)"
    "museum_guar H g (numCarDrivers_update f g)" "museum_guar H g (numLimoDrivers_update f g)"
proof -
  note f = inv_field [OF assms]
  have len: "length (ticketVisitorNumber g) = 5" "length (valetCarNumber g) = 5" using assms by (simp_all add: museum_inv_def)
  show "i < 5 \<Longrightarrow> 5 + 5 * i \<in> H \<Longrightarrow> museum_guar H g (valetCarNumber_update (\<lambda>_. (valetCarNumber g)[i := v]) g)"
    "i < 2 \<Longrightarrow> 34 + 4 * i \<in> H \<Longrightarrow> museum_guar H g (ticketVisitorNumber_update (\<lambda>_. (ticketVisitorNumber g)[i := v]) g)"
    using len by (auto simp: museum_guar_def f objects_nth nth_list_update')
qed (use inv_field [OF assms] in \<open>auto simp: museum_guar_def\<close>)

lemma wp_set_car:
  assumes "0 \<le> i l" "i l < 5" "5 + 5 * nat (i l) \<in> H"
  shows "pre (stores valetCarNumber valetCarNumber_update i v # c) Q B l H = pre c Q B l H"
  using assms by (simp add: stores_def data_get inv_update guar_update nat_less_iff)

lemma wp_set_visitor:
  assumes "0 \<le> i l" "i l < 2" "34 + 4 * nat (i l) \<in> H"
  shows "pre (stores ticketVisitorNumber ticketVisitorNumber_update i v # c) Q B l H = pre c Q B l H"
  using assms by (simp add: stores_def data_get inv_update guar_update nat_less_iff)

lemma wp_set_line:
  assumes "0 \<le> i l" "i l < 5" "32 \<in> H"
  shows "pre (stores ticketLineLength ticketLineLength_update i v # c) Q B l H = pre c Q B l H"
  using assms by (simp add: stores_def data_get inv_update guar_update nat_less_iff)

lemma wp_global:
  assumes "\<And>g. museum_inv g \<Longrightarrow> museum_inv (f g) \<and> museum_guar H g (f g)"
  shows "pre (global f # c) Q B l H = pre c Q B l H"
  by (simp add: global_def assms)

lemma wp_if_elem:
  assumes "\<And>g. museum_inv g \<Longrightarrow> \<exists>x. arr_get (a g) (i l) = Inr x" "pre p (pre c Q B) B l H" "pre q (pre c Q B) B l H"
  shows "pre (If (is_elem a i v) p q # c) Q B l H"
proof -
  have "okE (is_elem a i v g l) (\<lambda>v. if v then pre p (pre c Q B) B l H else pre q (pre c Q B) B l H)" if "museum_inv g" for g
    using assms(1) [OF that] assms(2,3) by (auto simp: is_elem_def)
  then show ?thesis by simp
qed

lemma wp_while_true:
  assumes "I l H" "\<And>l H. I l H \<Longrightarrow> pre p I (pre c Q B) l H"
  shows "pre (while_true p # c) Q B l H"
  unfolding while_true_def cond_def by (simp, intro exI [of _ I]) (use assms in auto)

text \<open>A counting loop whose body keeps to an invariant.\<close>

lemma wp_incr: "pre [local f] I B = (\<lambda>l H. I (f l) H)"
  by (intro ext) simp

lemma incr_i: "l_i_update (\<lambda>i. i + 1) l = l\<lparr>l_i := l_i l + 1\<rparr>"
  by (cases l) simp

lemma wp_count:
  assumes "I (l\<lparr>l_i := 0\<rparr>) H"
    and "\<And>l H g. I l H \<Longrightarrow> museum_inv g \<Longrightarrow> l_i l < n g l \<Longrightarrow> pre p (\<lambda>l H. I (l\<lparr>l_i := l_i l + 1\<rparr>) H) Q l H"
    and "\<And>l H g. I l H \<Longrightarrow> museum_inv g \<Longrightarrow> \<not> l_i l < n g l \<Longrightarrow> Q l H"
  shows "pre (count n p) Q B l H"
  unfolding count_def by (simp add: wp_incr incr_i, intro exI [of _ I]) (use assms in auto)

section \<open>Objects named by expressions\<close>

text \<open>The object a pointer expression names, whatever the other threads do.\<close>

definition obj :: "nat option mexp \<Rightarrow> mlocals \<Rightarrow> nat" where
  "obj p l = (case p (museum_objects globals0) l of Inr (Some n) \<Rightarrow> n | _ \<Rightarrow> 0)"

definition names :: "nat option mexp \<Rightarrow> mlocals \<Rightarrow> bool" where
  "names p l \<longleftrightarrow> (\<forall>g. museum_inv g \<longrightarrow> p g l = Inr (Some (obj p l)))"

lemma namesI: "(\<And>g. museum_inv g \<Longrightarrow> p g l = Inr (Some n)) \<Longrightarrow> names p l \<and> obj p l = n"
  using objects_inv by (auto simp: names_def obj_def)

lemma namesD: "names p l \<Longrightarrow> museum_inv g \<Longrightarrow> p g l = Inr (Some (obj p l))"
  by (simp add: names_def)

lemma wp_call [simp]:
  "names p l \<Longrightarrow> pre (acquire p # c) Q B l H \<longleftrightarrow> obj p l \<notin> H \<and> pre c Q B l (insert (obj p l) H)"
  "names p l \<Longrightarrow> pre (release_lock p # c) Q B l H \<longleftrightarrow> obj p l \<in> H \<and> pre c Q B l (H - {obj p l})"
  "names p l \<Longrightarrow> names q l \<Longrightarrow> pre (wait_on q p # c) Q B l H \<longleftrightarrow> obj p l = museum_guard (obj q l) \<and> obj p l \<in> H \<and> pre c Q B l H"
  "names p l \<Longrightarrow> names q l \<Longrightarrow> pre (signal q p # c) Q B l H \<longleftrightarrow> obj p l = museum_guard (obj q l) \<and> obj p l \<in> H \<and> pre c Q B l H"
  by (rule wp_acquire wp_release wp_wait wp_signal; (rule namesD; assumption)?)+

lemma names_ptr [simp]:
  "names (ptr valetManagerAlertCV) l" "names (ptr valetManagerAlertLock) l" "names (ptr valetLimoLineLock) l"
  "names (ptr valetCarLineLock) l" "names (ptr numCarsWaitingToParkLock) l" "names (ptr numLimosWaitingToParkLock) l"
  "names (ptr ticketLineLengthLock) l"
  "obj (ptr valetManagerAlertCV) l = 0" "obj (ptr valetManagerAlertLock) l = 0" "obj (ptr valetLimoLineLock) l = 3"
  "obj (ptr valetCarLineLock) l = 4" "obj (ptr numCarsWaitingToParkLock) l = 30" "obj (ptr numLimosWaitingToParkLock) l = 31"
  "obj (ptr ticketLineLengthLock) l = 32"
  using inv_field by (simp_all add: names_def obj_def ptr_def objects_inv)

lemma elem_valet:
  assumes "\<And>g. museum_inv g \<Longrightarrow> a g = valet_objects f" "0 \<le> i l" "i l < 5"
  shows "names (elem a i) l" "obj (elem a i) l = f (nat (i l))"
proof -
  have "elem a i g l = Inr (Some (f (nat (i l))))" if "museum_inv g" for g
    using assms that by (simp add: elem_def objects_get)
  then show "names (elem a i) l" "obj (elem a i) l = f (nat (i l))" using namesI by blast+
qed

lemma elem_taker:
  assumes "\<And>g. museum_inv g \<Longrightarrow> a g = taker_objects f" "0 \<le> i l" "i l < 2"
  shows "names (elem a i) l" "obj (elem a i) l = f (nat (i l))"
proof -
  have "elem a i g l = Inr (Some (f (nat (i l))))" if "museum_inv g" for g
    using assms that by (simp add: elem_def objects_get)
  then show "names (elem a i) l" "obj (elem a i) l = f (nat (i l))" using namesI by blast+
qed

lemmas names_valet [simp] = elem_valet [OF inv_field(10)] elem_valet [OF inv_field(11)] elem_valet [OF inv_field(12)]
  elem_valet [OF inv_field(13)] elem_valet [OF inv_field(14)] elem_valet [OF inv_field(15)] elem_valet [OF inv_field(16)]
  elem_valet [OF inv_field(17)] elem_valet [OF inv_field(18)]

lemmas names_taker [simp] = elem_taker [OF inv_field(19)] elem_taker [OF inv_field(20)] elem_taker [OF inv_field(21)]
  elem_taker [OF inv_field(22)] elem_taker [OF inv_field(23)] elem_taker [OF inv_field(24)]

lemma guard_simps [simp]:
  "museum_guard 0 = 0" "museum_guard (Suc 0) = 6"
  "museum_guard 5 = 11" "museum_guard 9 = 16" "museum_guard 13 = 21" "museum_guard 17 = 26"
  "museum_guard 2 = 7" "museum_guard 6 = 12" "museum_guard 10 = 17" "museum_guard 14 = 22" "museum_guard 18 = 27"
  "museum_guard 3 = 8" "museum_guard 7 = 13" "museum_guard 11 = 18" "museum_guard 15 = 23" "museum_guard 19 = 28"
  "museum_guard 4 = 9" "museum_guard 8 = 14" "museum_guard 12 = 19" "museum_guard 16 = 24" "museum_guard 20 = 29"
  "museum_guard 21 = 33" "museum_guard 23 = 37" "museum_guard 22 = 36" "museum_guard 24 = 40"
  by (simp_all add: museum_guard_def)

section \<open>The functions\<close>

definition valet_locks :: "nat \<Rightarrow> nat set" where
  "valet_locks n = (\<lambda>i. 5 + 5 * i) ` {..<n}"

lemma valet_locks_simps [simp]:
  "valet_locks 0 = {}" "valet_locks (Suc n) = insert (5 + 5 * n) (valet_locks n)" "valet_locks 5 = {5, 10, 15, 20, 25}"
  "5 + 5 * n \<notin> valet_locks n"
  by (auto simp: valet_locks_def lessThan_Suc eval_nat_numeral)

lemma wp_lock_valets:
  assumes "H \<inter> {5, 10, 15, 20, 25} = {}" "Q (l\<lparr>l_i := 5\<rparr>) (H \<union> {5, 10, 15, 20, 25})"
  shows "pre lock_valets Q B l H"
  unfolding lock_valets_def
proof (rule wp_count [where I = "\<lambda>l' H'. \<exists>n \<le> 5. l' = l\<lparr>l_i := int n\<rparr> \<and> H' = H \<union> valet_locks n"])
  show "\<exists>n \<le> 5. l\<lparr>l_i := 0\<rparr> = l\<lparr>l_i := int n\<rparr> \<and> H = H \<union> valet_locks n" by (intro exI [of _ 0]) simp
next
  fix l' H' g
  assume "\<exists>n \<le> 5. l' = l\<lparr>l_i := int n\<rparr> \<and> H' = H \<union> valet_locks n" and g: "museum_inv g" "l_i l' < numValets g"
  then obtain n where n: "l' = l\<lparr>l_i := int n\<rparr>" "H' = H \<union> valet_locks n" "n < 5" by (auto simp: inv_field)
  have "n \<in> {0, 1, 2, 3, 4}" using n(3) by auto
  then have "5 + 5 * n \<notin> H" using assms(1) by auto
  then show "pre [acquire (elem valetCarNumberLock l_i)]
      (\<lambda>l' H'. \<exists>n \<le> 5. l'\<lparr>l_i := l_i l' + 1\<rparr> = l\<lparr>l_i := int n\<rparr> \<and> H' = H \<union> valet_locks n) Q l' H'"
    using n by (simp, intro exI [of _ "Suc n"], auto)
next
  fix l' H' g
  assume "\<exists>n \<le> 5. l' = l\<lparr>l_i := int n\<rparr> \<and> H' = H \<union> valet_locks n" and g: "museum_inv g" "\<not> l_i l' < numValets g"
  then have "l' = l\<lparr>l_i := 5\<rparr>" "H' = H \<union> valet_locks 5" by (auto simp: inv_field)
  then show "Q l' H'" using assms(2) by simp
qed

lemma wp_unlock_valets:
  assumes "{5, 10, 15, 20, 25} \<subseteq> H" "Q (l\<lparr>l_i := 5\<rparr>) (H - {5, 10, 15, 20, 25})"
  shows "pre unlock_valets Q B l H"
  unfolding unlock_valets_def
proof (rule wp_count [where I = "\<lambda>l' H'. \<exists>n \<le> 5. l' = l\<lparr>l_i := int n\<rparr> \<and> H' = H - valet_locks n"])
  show "\<exists>n \<le> 5. l\<lparr>l_i := 0\<rparr> = l\<lparr>l_i := int n\<rparr> \<and> H = H - valet_locks n" by (intro exI [of _ 0]) simp
next
  fix l' H' g
  assume "\<exists>n \<le> 5. l' = l\<lparr>l_i := int n\<rparr> \<and> H' = H - valet_locks n" and g: "museum_inv g" "l_i l' < numValets g"
  then obtain n where n: "l' = l\<lparr>l_i := int n\<rparr>" "H' = H - valet_locks n" "n < 5" by (auto simp: inv_field)
  have "n \<in> {0, 1, 2, 3, 4}" using n(3) by auto
  then have "5 + 5 * n \<in> H" using assms(1) by auto
  then show "pre [release_lock (elem valetCarNumberLock l_i)]
      (\<lambda>l' H'. \<exists>n \<le> 5. l'\<lparr>l_i := l_i l' + 1\<rparr> = l\<lparr>l_i := int n\<rparr> \<and> H' = H - valet_locks n) Q l' H'"
    using n by (simp, intro exI [of _ "Suc n"], auto)
next
  fix l' H' g
  assume "\<exists>n \<le> 5. l' = l\<lparr>l_i := int n\<rparr> \<and> H' = H - valet_locks n" and g: "museum_inv g" "\<not> l_i l' < numValets g"
  then have "l' = l\<lparr>l_i := 5\<rparr>" "H' = H - valet_locks 5" by (auto simp: inv_field)
  then show "Q l' H'" using assms(2) by simp
qed

text \<open>Loops that touch no lock.\<close>

lemma wp_yields:
  assumes "\<And>k. Q (l\<lparr>l_i := k\<rparr>) H"
  shows "pre (count n [yield]) Q B l H"
  by (rule wp_count [where I = "\<lambda>l' H'. (\<exists>k. l' = l\<lparr>l_i := k\<rparr>) \<and> H' = H"]) (use assms in auto)

lemma wp_pause: "(\<And>k. Q (l\<lparr>l_i := k\<rparr>) H) \<Longrightarrow> pre (pause n) Q B l H"
  unfolding pause_def by (rule wp_yields)

lemma wp_find_valet:
  assumes "\<And>k. Q (l\<lparr>l_i := k\<rparr>) H" "\<And>k. 0 \<le> k \<Longrightarrow> k < 5 \<Longrightarrow> Q (f (l\<lparr>l_i := k\<rparr>)) H"
  shows "pre (find_valet v f) Q B l H"
  unfolding find_valet_def
proof (rule wp_count [where I = "\<lambda>l' H'. (\<exists>k \<ge> 0. l' = l\<lparr>l_i := k\<rparr>) \<and> H' = H"])
  fix l' H' g
  assume I: "(\<exists>k \<ge> 0. l' = l\<lparr>l_i := k\<rparr>) \<and> H' = H" and g: "museum_inv g" "l_i l' < numValets g"
  then obtain k where k: "l' = l\<lparr>l_i := k\<rparr>" "0 \<le> k" "k < 5" by (auto simp: inv_field)
  show "pre [If (is_elem valetCarNumber l_i v) [local f, Break] []]
      (\<lambda>l' H'. (\<exists>k \<ge> 0. l'\<lparr>l_i := l_i l' + 1\<rparr> = l\<lparr>l_i := k\<rparr>) \<and> H' = H) Q l' H'"
    by (rule wp_if_elem) (use k I assms(2) in \<open>auto simp: data_get intro!: exI [of _ "k + 1"]\<close>)
qed (use assms(1) in auto)

lemma valet_cases: "0 \<le> k \<Longrightarrow> k < 5 \<Longrightarrow> k = 0 \<or> k = 1 \<or> k = 2 \<or> k = 3 \<or> k = (4 :: int)"
  by arith

lemma okE_elem:
  assumes "museum_inv g" "0 \<le> i l" "i l < 5" "P True" "P False"
  shows "okE (is_elem valetCarNumber i v g l) P"
  using assms by (cases "valetCarNumber g ! nat (i l) = v") (simp_all add: is_elem_def data_get)

lemma wp_Limo_hand_over:
  assumes v: "0 \<le> l_valetIndex l" "l_valetIndex l < 5" and H: "H = {3, 5, 10, 15, 20, 25}"
    and Q: "Q (l\<lparr>l_i := 5, l_status := WAITING_TO_LEAVE\<rparr>) {}"
  shows "pre Limo_hand_over Q B l H"
  unfolding Limo_hand_over_def H using valet_cases [OF v]
  by (auto simp: wp_set_car intro!: wp_unlock_valets) (use Q in \<open>simp_all add: insert_Diff_if\<close>)

lemma wp_Car_hand_over:
  assumes v: "0 \<le> l_valetIndex l" "l_valetIndex l < 5" and H: "H = {4, 5, 10, 15, 20, 25}"
    and Q: "Q (l\<lparr>l_i := 5, l_status := WAITING_TO_LEAVE\<rparr>) {}"
  shows "pre Car_hand_over Q B l H"
  unfolding Car_hand_over_def H using valet_cases [OF v]
  by (auto simp: wp_set_car intro!: wp_unlock_valets) (use Q in \<open>simp_all add: insert_Diff_if\<close>)

text \<open>A function of its own: it may end only without locks.\<close>

abbreviation fine :: "mcode \<Rightarrow> mlocals \<Rightarrow> bool" where
  "fine c l \<equiv> pre c (\<lambda>l H. H = {}) (\<lambda>_ _. False) l {}"

definition driver_inv :: "carStatus set \<Rightarrow> nat \<Rightarrow> mlocals \<Rightarrow> nat set \<Rightarrow> bool" where
  "driver_inv S n l H \<longleftrightarrow> 0 \<le> l_valetIndex l \<and> l_valetIndex l < 5 \<and> H = (if l_status l \<in> S then {n} else {})"

lemma fine_LimoDriver: "fine LimoDriver l"
  unfolding LimoDriver_def wp_local
  by (rule wp_while_true [where I = "driver_inv {PARKING_CAR} 3"])
    (auto simp: driver_inv_def insert_Diff_if intro!: wp_lock_valets wp_find_valet okE_elem wp_Limo_hand_over wp_unlock_valets wp_pause)

lemma fine_CarDriver: "fine CarDriver l"
  unfolding CarDriver_def wp_local
  by (rule wp_while_true [where I = "driver_inv {WAITING_FOR_LIMOS, PARKING_CAR} 4"])
    (auto simp: driver_inv_def insert_Diff_if loads_def intro!: wp_lock_valets wp_find_valet okE_elem wp_Car_hand_over wp_unlock_valets wp_pause)

lemma wp_set_number:
  assumes "0 \<le> l_index l" "l_index l < 5" "5 + 5 * nat (l_index l) \<notin> H" "Q l H"
  shows "pre (set_number v) Q B l H"
  unfolding set_number_def using assms by (simp add: wp_set_car)

lemma wp_Valet_bench:
  assumes "0 \<le> l_index l" "l_index l < 5" "H = {6 + 5 * nat (l_index l)}" "\<And>l'. l_index l' = l_index l \<Longrightarrow> Q l' H"
  shows "pre Valet_bench Q B l H"
  unfolding Valet_bench_def using valet_cases [OF assms(1,2)] assms(3,4)
  by (auto simp: loads_def insert_Diff_if intro!: wp_set_number)

lemma wp_Valet_parking:
  assumes "0 \<le> l_index l" "l_index l < 5" "H = {6 + 5 * nat (l_index l)}" "\<And>l'. l_index l' = l_index l \<Longrightarrow> Q l' H"
  shows "pre Valet_parking Q B l H"
  unfolding Valet_parking_def using valet_cases [OF assms(1,2)] assms(3,4)
  by (auto simp: insert_Diff_if intro!: wp_set_number wp_yields)

lemma wp_Valet_driver:
  assumes "0 \<le> l_index l" "l_index l < 5" "H = {6 + 5 * nat (l_index l)}" "\<And>l'. l_index l' = l_index l \<Longrightarrow> Q l' H"
  shows "pre Valet_driver Q B l H"
  unfolding Valet_driver_def using valet_cases [OF assms(1,2)] assms(3,4)
  by (auto simp: insert_Diff_if wp_global inv_update guar_update intro!: wp_set_number)

lemma fine_Valet:
  assumes "0 \<le> l_index l" "l_index l < 5"
  shows "fine Valet l"
  unfolding Valet_def wp_local
proof (rule wp_while_true [where I = "\<lambda>l' H. l_index l' = l_index l \<and> H = {}"], goal_cases)
  case (2 l' H)
  then show ?case using valet_cases [OF assms]
    by (auto simp: loads_def elem_def [of valetCarNumber] data_get intro!: wp_set_number wp_Valet_bench wp_Valet_parking wp_Valet_driver)
qed simp

definition manager_inv :: "mlocals \<Rightarrow> bool" where
  "manager_inv l \<longleftrightarrow> l_backRoomValet l \<in> {0, 1, 2, 3, 4} \<and> l_benchValet l \<in> {0, 1, 2, 3, 4} \<and> l_index l = 0"

lemma manager_inv_update [simp]:
  "manager_inv (l\<lparr>l_i := v\<rparr>) = manager_inv l" "manager_inv (l\<lparr>l_total := v\<rparr>) = manager_inv l"
  "manager_inv (l\<lparr>l_valetsOnBench := v\<rparr>) = manager_inv l"
  "manager_inv l \<Longrightarrow> manager_inv (l\<lparr>l_backRoomValet := v\<rparr>) \<longleftrightarrow> v \<in> {0, 1, 2, 3, 4}"
  "manager_inv l \<Longrightarrow> manager_inv (l\<lparr>l_benchValet := v\<rparr>) \<longleftrightarrow> v \<in> {0, 1, 2, 3, 4}"
  by (simp_all add: manager_inv_def)

lemma manager_cases:
  assumes "manager_inv l"
  shows "l_index l = 0" "l_backRoomValet l = 0 \<or> l_backRoomValet l = 1 \<or> l_backRoomValet l = 2 \<or> l_backRoomValet l = 3 \<or> l_backRoomValet l = 4"
    "l_benchValet l = 0 \<or> l_benchValet l = 1 \<or> l_benchValet l = 2 \<or> l_benchValet l = 3 \<or> l_benchValet l = 4"
  using assms by (auto simp: manager_inv_def)

lemma wp_call_valet:
  assumes "manager_inv l" "H = {5, 10, 15, 20, 25, 30, 31}" "Q l H"
  shows "pre call_valet Q B l H"
  unfolding call_valet_def using manager_cases [OF assms(1)] assms
  by (auto simp: wp_set_car insert_Diff_if intro!: okE_elem)

lemma wp_ValetManager_back_room:
  assumes "manager_inv l" "H = {30, 31}" "\<And>l'. manager_inv l' \<Longrightarrow> Q l' H"
  shows "pre ValetManager_back_room Q B l H"
  unfolding ValetManager_back_room_def using assms
  by (auto simp: insert_Diff_if insert_commute dest: valet_cases intro!: wp_lock_valets wp_find_valet wp_call_valet wp_unlock_valets)

lemma wp_send_valet:
  assumes "manager_inv l" "H = {5, 10, 15, 20, 25}" "Q l H"
  shows "pre send_valet Q B l H"
  unfolding send_valet_def using manager_cases [OF assms(1)] assms
  by (auto simp: wp_set_car insert_Diff_if intro!: okE_elem)

lemma wp_count_bench:
  assumes "manager_inv l" "\<And>l'. manager_inv l' \<Longrightarrow> Q l' H"
  shows "pre count_bench Q B l H"
  unfolding count_bench_def
proof (rule wp_count [where I = "\<lambda>l' H'. manager_inv l' \<and> 0 \<le> l_i l' \<and> H' = H"], goal_cases)
  case (2 l' H' g)
  then show ?case by (auto simp: inv_field dest: valet_cases intro!: okE_elem)
qed (use assms in auto)

lemma wp_ValetManager_bench:
  assumes "manager_inv l" "H = {}" "\<And>l'. manager_inv l' \<Longrightarrow> Q l' H"
  shows "pre ValetManager_bench Q B l H"
  unfolding ValetManager_bench_def using assms
  by (auto intro!: wp_lock_valets wp_count_bench wp_send_valet wp_unlock_valets)

lemma fine_ValetManager:
  assumes "l_index l = 0"
  shows "fine ValetManager l"
  unfolding ValetManager_def wp_local
proof (rule wp_while_true [where I = "\<lambda>l H. manager_inv l \<and> H = {}"], goal_cases)
  case (2 l' H)
  then show ?case
    by (auto simp: loads_def insert_Diff_if intro!: wp_ValetManager_back_room wp_ValetManager_bench wp_pause)
qed (use assms in \<open>simp add: manager_inv_def\<close>)

lemma fine_TicketTaker:
  assumes "l_index l \<in> {0, 1}"
  shows "fine TicketTaker l"
  unfolding TicketTaker_def
proof (rule wp_while_true [where I = "\<lambda>l' H. l_index l' = l_index l \<and> H = {}"], goal_cases)
  case (2 l' H)
  then show ?case using assms
    by (auto simp: data_get insert_Diff_if wp_set_visitor wp_set_line)
qed simp

lemma wp_Visitor_ticket:
  assumes "l_lineIndex l \<in> {0, 1}" "Q l {}"
  shows "pre Visitor_ticket Q B l {}"
  unfolding Visitor_ticket_def using assms by (auto simp: insert_Diff_if wp_set_visitor)

lemma wp_Visitor_line:
  assumes "l_lineIndex l = 0" "\<And>l'. l_lineIndex l' \<in> {0, 1} \<Longrightarrow> Q l' {}"
  shows "pre Visitor_line Q B l {}"
  unfolding Visitor_line_def
  apply (simp add: wp_incr incr_i)
  apply (intro exI [of _ "\<lambda>l' H. H = {32} \<and> l_lineIndex l' \<in> {0, 1} \<and> 1 \<le> l_i l'"])
  apply (auto simp: assms(1) inv_field data_get wp_set_line intro!: assms(2))
  done

lemma fine_Visitor: "fine Visitor l"
  unfolding Visitor_def by (auto intro!: wp_Visitor_line wp_Visitor_ticket wp_yields)

lemma fine_Simulation: "fine MuseumParkingSimulation l"
  unfolding MuseumParkingSimulation_def wp_append
proof (rule wp_count [where I = "\<lambda>l H. 0 \<le> l_i l \<and> H = {}"], goal_cases)
  case (2 l' H g)
  then show ?case by (auto simp: museum_start_def wp_global inv_update guar_update)
next
  case (3 l' H g)
  then show ?case
    by (auto intro!: wp_count [where I = "\<lambda>l H. 0 \<le> l_i l \<and> H = {}"] simp: museum_start_def start_locals_def inv_field dest: valet_cases)
qed simp

section \<open>All interleavings\<close>

lemma src_stmts [simp]:
  "src (acquire p)" "src (release_lock p)" "src (wait_on q p)" "src (signal q p)" "src yield" "src (local f)" "src (loads e h)"
  "src (global u)" "src (stores a upd i v)" "src (while_true c) = list_all src c" "list_all src (count n c) = list_all src c"
  by (simp_all add: acquire_def release_lock_def wait_on_def signal_def yield_def local_def loads_def global_def stores_def
      while_true_def count_def)

lemma src_blocks [simp]:
  "list_all src lock_valets" "list_all src unlock_valets" "list_all src (find_valet v f)" "list_all src (pause n)"
  "list_all src (set_number v)" "list_all src call_valet" "list_all src count_bench" "list_all src send_valet"
  by (simp_all add: lock_valets_def unlock_valets_def find_valet_def pause_def set_number_def call_valet_def
      count_bench_def send_valet_def)

lemma src_functions:
  "list_all src LimoDriver" "list_all src CarDriver" "list_all src Valet" "list_all src ValetManager"
  "list_all src TicketTaker" "list_all src Visitor" "list_all src MuseumParkingSimulation"
  by (simp_all add: LimoDriver_def CarDriver_def Valet_def ValetManager_def TicketTaker_def Visitor_def
      Limo_hand_over_def Car_hand_over_def Valet_bench_def Valet_parking_def Valet_driver_def
      ValetManager_back_room_def ValetManager_bench_def Visitor_line_def Visitor_ticket_def MuseumParkingSimulation_def)

lemma start_src: "museum_start c l \<Longrightarrow> list_all src c"
  unfolding museum_start_def using src_functions by (elim disjE conjE) simp_all

lemma start_fine: "museum_start c l \<Longrightarrow> fine c l"
proof -
  assume "museum_start c l"
  then consider "c = LimoDriver" | "c = CarDriver" | "c = ValetManager" "l_index l = 0" | "c = Valet" "l_index l \<in> {0, 1, 2, 3, 4}"
    | "c = TicketTaker" "l_index l \<in> {0, 1}" | "c = Visitor" unfolding museum_start_def by blast
  then show "fine c l"
  proof cases
    case 4
    then have "0 \<le> l_index l" "l_index l < 5" by auto
    with 4(1) show ?thesis by (simp only: fine_Valet)
  qed (simp_all only: fine_LimoDriver fine_CarDriver fine_ValetManager fine_TicketTaker fine_Visitor)
qed

lemma start_safe: "\<forall>c l n. museum_start c l \<longrightarrow> safe museum_locks museum_start n c l {}"
proof (intro allI impI)
  fix c l n assume "museum_start c l"
  then show "safe museum_locks museum_start n c l {}" by (intro safe_function start_src start_fine)
qed

lemma museum_winv:
  assumes "sys_init s" "wsteps devs (ThreadTest s) w"
  shows "winv museum_locks museum_start w"
proof (rule winv_steps [OF assms(2) start_safe])
  show "winv museum_locks museum_start (ThreadTest s)" unfolding ThreadTest_def
    by (rule winv_init [OF assms(1)])
      (use objects_inv safe_function [OF src_functions(7) fine_Simulation] call_base in simp_all)
qed


text \<open>A first driver, started and sliced in, at its first call.\<close>

lemma objects_start:
  "numCars (museum_objects globals0) = 5" "numCarsWaitingToPark (museum_objects globals0) = 0"
  by (simp_all add: museum_objects_def globals0_def make_lock_def make_cond_def array_slot_def new_valet_def new_ticket_taker_def
      objects_upt Let_def)

lemmas start_simps = objects_start ThreadTest_def prog_init_def wgo_def wslice_def core_step_def run_simps bindE_def
  MuseumParkingSimulation_def count_def stmt_defs eval_nat_numeral

definition first_call :: "choice list" where
  "first_call = [Go 0, Go 0, Go 0, Go 0, Go 0, Go 0, Slice, Go 0, Go 0, Go 0, Go 0]"

lemma first_call_run:
  "\<exists>w. wsteps {} (ThreadTest sys0) w \<and> wcur w = 1 \<and> at_stmt w (acquire (ptr valetCarLineLock)) (tl (code w 1)) \<and>
    valetCarLineLock (glob w) = Some 4"
proof -
  have "\<exists>n w. wrun first_call 1 (ThreadTest sys0) = Some (n, w) \<and> wcur w = 1 \<and>
      at_stmt w (acquire (ptr valetCarLineLock)) (tl (code w 1)) \<and> valetCarLineLock (glob w) = Some 4"
    by (simp add: first_call_def start_simps CarDriver_def while_true_def start_locals_def wcur_def at_stmt_def
        inv_field [OF objects_inv])
  then show ?thesis using wrun_steps by (fastforce simp: first_call_def choices_ok_def)
qed




end
