(* ===== verification/Nachos_TestSuite.thy ===== *)
theory Nachos_TestSuite
  imports Nachos_Runs
begin

text \<open>
  The test suite of the synchronization component and \<open>SimpleThread\<close> (\<open>threads/threadtest.cc\<close>): the
  functions of its threads, as code of \<open>Nachos_Programs\<close>.  They have no global data; messages are left out.
\<close>

section \<open>Objects\<close>

text \<open>The semaphores, locks and condition variables are static objects, numbered in their order.\<close>

definition t1_s1 :: nat where "t1_s1 = 0"
definition t1_s2 :: nat where "t1_s2 = 1"
definition t1_s3 :: nat where "t1_s3 = 2"
definition t1_done :: nat where "t1_done = 3"
definition t2_s1 :: nat where "t2_s1 = 4"
definition t2_done :: nat where "t2_done = 5"
definition t3_s1 :: nat where "t3_s1 = 6"
definition t3_done :: nat where "t3_done = 7"
definition t4_s1 :: nat where "t4_s1 = 8"
definition t4_done :: nat where "t4_done = 9"
definition t5_s1 :: nat where "t5_s1 = 10"

definition t1_l1 :: nat where "t1_l1 = 0"
definition t2_l1 :: nat where "t2_l1 = 1"
definition t3_l1 :: nat where "t3_l1 = 2"
definition t4_l1 :: nat where "t4_l1 = 3"
definition t5_l1 :: nat where "t5_l1 = 4"
definition t5_l2 :: nat where "t5_l2 = 5"

definition t2_c1 :: nat where "t2_c1 = 0"
definition t3_c1 :: nat where "t3_c1 = 1"
definition t4_c1 :: nat where "t4_c1 = 2"
definition t5_c1 :: nat where "t5_c1 = 3"

lemmas test_sems = t1_s1_def t1_s2_def t1_s3_def t1_done_def t2_s1_def t2_done_def t3_s1_def t3_done_def t4_s1_def
  t4_done_def t5_s1_def
lemmas test_locks = t1_l1_def t2_l1_def t3_l1_def t4_l1_def t5_l1_def t5_l2_def
lemmas test_conds = t2_c1_def t3_c1_def t4_c1_def t5_c1_def

section \<open>Statements\<close>

text \<open>The locals: the loop variable.\<close>

type_synonym tcode = "(unit, int) code"
type_synonym tstmt = "(unit, int) stmt"

definition op :: "operation \<Rightarrow> tstmt" where
  "op a = Call (\<lambda>_ _. Inr a)"

definition loop_to :: "int \<Rightarrow> tcode \<Rightarrow> tcode" where
  "loop_to n p = [Do (\<lambda>g _. Inr (g, 0)), Loop (\<lambda>_ i. Inr (i < n)) p [Do (\<lambda>g i. Inr (g, i + 1))]]"

definition fork :: "tcode \<Rightarrow> tstmt" where
  "fork c = Spawn (\<lambda>_ _. (c, 0))"

section \<open>The threads of the tests\<close>

definition t1_t1 :: tcode where
  "t1_t1 = [op (DoAcquire t1_l1), op (DoV t1_s1), op (DoP t1_s3)] @ loop_to 1000000 [] @
     [op (DoRelease t1_l1), op (DoV t1_done)]"

definition t1_t2 :: tcode where
  "t1_t2 = [op (DoP t1_s1), op (DoV t1_s2), op (DoAcquire t1_l1)] @ loop_to 10 [] @
     [op (DoRelease t1_l1), op (DoV t1_done)]"

definition t1_t3 :: tcode where
  "t1_t3 = [op (DoP t1_s2), op (DoV t1_s3)] @ loop_to 3 [op (DoRelease t1_l1)]"

definition t2_t1 :: tcode where
  "t2_t1 = [op (DoAcquire t2_l1), op (DoSignal t2_c1 (Some t2_l1)), op (DoRelease t2_l1), op (DoV t2_s1), op (DoV t2_done)]"

definition t2_t2 :: tcode where
  "t2_t2 = [op (DoP t2_s1), op (DoAcquire t2_l1), op (DoWait t2_c1 (Some t2_l1)), op (DoRelease t2_l1)]"

definition t3_waiter :: tcode where
  "t3_waiter = [op (DoAcquire t3_l1), op (DoV t3_s1), op (DoWait t3_c1 (Some t3_l1)), op (DoRelease t3_l1), op (DoV t3_done)]"

definition t3_signaller :: tcode where
  "t3_signaller = loop_to 5 [op (DoP t3_s1)] @
     [op (DoAcquire t3_l1), op (DoSignal t3_c1 (Some t3_l1)), op (DoRelease t3_l1), op (DoV t3_done)]"

definition t4_waiter :: tcode where
  "t4_waiter = [op (DoAcquire t4_l1), op (DoV t4_s1), op (DoWait t4_c1 (Some t4_l1)), op (DoRelease t4_l1), op (DoV t4_done)]"

definition t4_signaller :: tcode where
  "t4_signaller = loop_to 5 [op (DoP t4_s1)] @
     [op (DoAcquire t4_l1), op (DoBroadcast t4_c1 (Some t4_l1)), op (DoRelease t4_l1), op (DoV t4_done)]"

definition t5_t1 :: tcode where
  "t5_t1 = [op (DoAcquire t5_l1), op (DoV t5_s1), op (DoWait t5_c1 (Some t5_l1)), op (DoRelease t5_l1)]"

definition t5_t2 :: tcode where
  "t5_t2 = [op (DoP t5_s1), op (DoAcquire t5_l1), op (DoAcquire t5_l2), op (DoSignal t5_c1 (Some t5_l2)),
     op (DoRelease t5_l2), op (DoRelease t5_l1)]"

section \<open>The suite\<close>

definition test1 :: tcode where
  "test1 = [fork t1_t1, fork t1_t2, fork t1_t3] @ loop_to 2 [op (DoP t1_done)]"

definition test2 :: tcode where
  "test2 = [fork t2_t1, fork t2_t2, op (DoP t2_done)]"

definition test3 :: tcode where
  "test3 = loop_to 5 [fork t3_waiter] @ [fork t3_signaller] @ loop_to 2 [op (DoP t3_done)]"

definition test4 :: tcode where
  "test4 = loop_to 5 [fork t4_waiter] @ [fork t4_signaller] @ loop_to 6 [op (DoP t4_done)]"

definition test5 :: tcode where
  "test5 = [fork t5_t1, fork t5_t2]"

definition TestSuite :: tcode where
  "TestSuite = test1 @ test2 @ test3 @ test4 @ test5"

definition SimpleThread :: tcode where
  "SimpleThread = loop_to 5 [op DoYield]"

section \<open>The discipline of the tests\<close>

text \<open>
  \<open>t1_l1\<close> may be released by a thread that does not own it (test 1) and \<open>t5_c1\<close> is only signalled with
  \<open>t5_l2\<close> (test 5); everything else keeps to the discipline.
\<close>

definition test_guard :: "nat \<Rightarrow> nat" where
  "test_guard c = c + 1"

fun test_calls :: "operation \<Rightarrow> nat set \<Rightarrow> bool" where
  "test_calls (DoRelease l) H = (l \<in> H \<or> l = t1_l1)"
| "test_calls (DoSignal c lo) H = (if c = t5_c1 then lo = Some t5_l2 \<and> t5_l2 \<in> H else lo = Some (test_guard c) \<and> test_guard c \<in> H)"
| "test_calls (DoBroadcast c lo) H = (c \<noteq> t5_c1 \<and> lo = Some (test_guard c) \<and> test_guard c \<in> H)"
| "test_calls a H = strict_ok test_guard a H"

definition test_locks_kept :: "unit discipline" where
  "test_locks_kept = \<lparr>ginv = \<lambda>_. True, guar = \<lambda>_ _ _. True, calls = test_calls, guard = test_guard\<rparr>"

definition test_start :: "tcode \<Rightarrow> int \<Rightarrow> bool" where
  "test_start c i \<longleftrightarrow> c \<in> {t1_t1, t1_t2, t1_t3, t2_t1, t2_t2, t3_waiter, t3_signaller, t4_waiter, t4_signaller, t5_t1, t5_t2,
     SimpleThread}"

lemma test_sel [simp]: "ginv test_locks_kept g" "guar test_locks_kept H g g'" "calls test_locks_kept = test_calls"
  "guard test_locks_kept = test_guard"
  by (simp_all add: test_locks_kept_def)

abbreviation tpre :: "tcode \<Rightarrow> int assn \<Rightarrow> int assn \<Rightarrow> int assn" where
  "tpre \<equiv> wp test_locks_kept test_start"

lemma wp_op [simp]: "tpre (op a # c) Q B l H \<longleftrightarrow> test_calls a H \<and> tpre c Q B l (held_after a H)"
  by (simp add: op_def)

lemma wp_fork [simp]: "tpre (fork c # k) Q B l H \<longleftrightarrow> test_start c 0 \<and> tpre k Q B l H"
  by (simp add: fork_def)


lemma wp_next: "tpre [Do (\<lambda>g i. Inr (g, f i))] I B = (\<lambda>i H. I (f i) H)"
  by (intro ext) simp

lemma wp_loop_to:
  assumes "\<And>i. tpre p (\<lambda>_ H'. H' = H) Q i H" "\<And>i. Q i H"
  shows "tpre (loop_to n p) Q B l H"
  unfolding loop_to_def by (simp add: wp_next, intro exI [of _ "\<lambda>_ H'. H' = H"]) (use assms in simp)

abbreviation tfine :: "tcode \<Rightarrow> int \<Rightarrow> bool" where
  "tfine c i \<equiv> tpre c (\<lambda>_ H. H = {}) (\<lambda>_ _. False) i {}"

lemma tests_fine:
  "tfine t1_t1 i" "tfine t1_t2 i" "tfine t1_t3 i" "tfine t2_t1 i" "tfine t2_t2 i" "tfine t3_waiter i" "tfine t3_signaller i"
  "tfine t4_waiter i" "tfine t4_signaller i" "tfine t5_t1 i" "tfine t5_t2 i" "tfine SimpleThread i"
  by (auto simp: t1_t1_def t1_t2_def t1_t3_def t2_t1_def t2_t2_def t3_waiter_def t3_signaller_def t4_waiter_def
      t4_signaller_def t5_t1_def t5_t2_def SimpleThread_def test_locks test_conds test_guard_def intro!: wp_loop_to)

lemma suite_fine: "tfine TestSuite i" "tfine test5 i"
  by (auto simp: TestSuite_def test1_def test2_def test3_def test4_def test5_def test_start_def intro!: wp_loop_to)

lemma src_test [simp]: "src (op a)" "src (fork c)" "list_all src (loop_to n c) = list_all src c"
  by (simp_all add: op_def fork_def loop_to_def)

lemma tests_src: "test_start c i \<Longrightarrow> list_all src c" "list_all src TestSuite" "list_all src test5"
  by (auto simp: test_start_def t1_t1_def t1_t2_def t1_t3_def t2_t1_def t2_t2_def t3_waiter_def t3_signaller_def t4_waiter_def
      t4_signaller_def t5_t1_def t5_t2_def SimpleThread_def TestSuite_def test1_def test2_def test3_def test4_def test5_def)

lemma test_base: "test_calls a H \<Longrightarrow> base_ok test_guard a H"
  by (cases a) (auto split: if_splits)

lemma tests_safe: "\<forall>c i n. test_start c i \<longrightarrow> safe test_locks_kept test_start n c i {}"
proof (intro allI impI)
  fix c i n assume c: "test_start c i"
  then have "tfine c i" using tests_fine unfolding test_start_def by (elim insertE emptyE) simp_all
  then show "safe test_locks_kept test_start n c i {}" by (rule safe_function [OF tests_src(1) [OF c]])
qed

lemma suite_winv:
  assumes "sys_init s" "c \<in> {TestSuite, test5}" "wsteps devs (prog_init s () 0 c) w"
  shows "winv test_locks_kept test_start w"
proof (rule winv_steps [OF assms(3) tests_safe])
  have "safe test_locks_kept test_start n c 0 {}" for n
  proof (rule safe_function)
    show "list_all src c" using assms(2) tests_src(2,3) by auto
    show "tfine c 0" using assms(2) suite_fine by auto
  qed
  then show "winv test_locks_kept test_start (prog_init s () 0 c)"
    by (intro winv_init [OF assms(1)]) (use test_base in simp_all)
qed

section \<open>Waiting under one lock, signalled under another\<close>

lemma other_conds: "conds s' = conds s \<Longrightarrow> cqueue (conds s' c) = cqueue (conds s c)"
  by simp

lemma test5_keeps:
  assumes ex: "exec a s = Some (Inr s')" and ok: "test_calls a H \<or> a = DoYield \<or> a = DoFinish \<or> (\<exists>t. a = DoFork t)"
    and g: "guards_ok test_guard s"
  shows "set (cqueue (conds s t5_c1)) \<subseteq> set (cqueue (conds s' t5_c1))"
proof (cases a)
  case (DoWait c lo)
  then have w: "Condition_Wait c lo s = Inr s'" "lo = Some (test_guard c)" using ex ok by auto
  show ?thesis
  proof (cases "wait_refused c lo s")
    case False
    note r = w(1) [unfolded w(2) Wait_cases(2) [OF False [unfolded w(2)] refl]]
    show ?thesis using Sleep_locals(3) [OF r] by (auto simp: Release_same q_append_def)
  qed (use w in \<open>simp add: Wait_cases\<close>)
next
  case (DoSignal c lo)
  show ?thesis
  proof (cases "c = t5_c1")
    case True
    then have "lo = Some t5_l2" using ok DoSignal by auto
    moreover have "waitingLock (conds s c) \<noteq> Some t5_l2" using g True
      by (auto simp: guards_ok_def test_guard_def test_conds test_locks dest: spec [of _ 3])
    ultimately have "signal_refused c lo s" by (simp add: signal_refused_def)
    then show ?thesis using ex DoSignal by (auto simp: Signal_cases)
  next
    case False
    then have "conds s' t5_c1 = conds s t5_c1" using ex DoSignal Signal_unchanged [of c s lo] by (auto simp: unchanged_def)
    then show ?thesis by simp
  qed
next
  case (DoBroadcast c lo)
  then have "c \<noteq> t5_c1" "Condition_Broadcast c lo s = Some s'" using ex ok by auto
  then have "conds s' t5_c1 = conds s t5_c1" using Broadcast_unchanged [of c lo s s'] by (auto simp: unchanged_def)
  then show ?thesis by simp
next
  case (DoAcquire l)
  then show ?thesis using ex other_conds [OF Acquire_conds] by simp
next
  case (DoRelease l)
  then show ?thesis using ex by (auto simp: Release_same)
next
  case (DoP m)
  then show ?thesis using ex other_conds [OF P_conds] by simp
next
  case (DoV m)
  then show ?thesis using ex by (auto simp: V_conds)
next
  case DoYield
  then show ?thesis using ex other_conds [OF Yield_locals(3)] by simp
next
  case DoFinish
  then show ?thesis using ex other_conds [OF Finish_conds] by simp
next
  case (DoFork t)
  then show ?thesis using ex by (auto simp: Thread_Fork_def Thread_new_def ReadyToRun_def)
qed

lemma waiter_not_running:
  assumes "sync_inv s" "\<not> idling s" "t \<in> set (cqueue (conds s c))"
  shows "t \<noteq> currentThread s" "t \<in> threads s"
proof -
  have K: "kernel_inv s (waitq s)" using assms(1) by (simp add: sync_inv_def)
  have q: "t \<in> set (waitq s (QC c))" using assms(3) by simp
  then show "t \<noteq> currentThread s" using kernel_inv_current(2) [OF K assms(2), of "QC c"] by blast
  show "t \<in> threads s"
    using kernel_invD(7,8) [OF K, of t] kernel_inv_waiting [OF K q] q by fastforce
qed

lemma test5_step:
  assumes I: "winv test_locks_kept test_start w" and s: "wstep devs w w'" and t: "t \<in> set (cqueue (conds (wcore w) t5_c1))"
  shows "t \<in> set (cqueue (conds (wcore w') t5_c1)) \<and> code w' t = code w t"
proof -
  note S = winvD(2) [OF I] and G = winvD(4) [OF I, unfolded test_sel]
  have op: "t \<in> set (cqueue (conds s1 t5_c1)) \<and> t \<noteq> wcur w"
    if "step (Some a) (wcore w) s1" "test_calls a H \<or> a = DoYield \<or> a = DoFinish \<or> (\<exists>t. a = DoFork t)" for a s1 H
    using that(1)
  proof (rule step_opE)
    assume "\<not> idling (wcore w)" "exec a (wcore w) = Some (Inr s1)"
    then show ?thesis using test5_keeps [OF _ that(2) G] t waiter_not_running(1) [OF S _ t] unfolding wcur_def by blast
  qed
  show ?thesis
    using s
  proof cases
    case (w_local x k r k1 g1 l1)
    then have "t \<noteq> wcur w" using waiter_not_running(1) [OF S _ t] by (auto simp: at_stmt_def wcur_def)
    then show ?thesis using t unfolding w_local(1) by simp
  next
    case (w_call f k a s1)
    obtain H where "test_calls a H" using winv_call [OF I w_call(2)] w_call(3) by auto
    then show ?thesis using op [OF w_call(4), of H] unfolding w_call(1) by simp
  next
    case (w_spawn f k c l u s1)
    have "\<not> idling (wcore w)" using w_spawn(2) by (simp add: at_stmt_def)
    then have "t \<in> threads (wcore w)" by (rule waiter_not_running(2) [OF S _ t])
    moreover have "u \<notin> threads (wcore w)" using w_spawn(4) by (rule step_opE) blast
    ultimately show ?thesis using op [OF w_spawn(4)] unfolding w_spawn(1) by auto
  next
    case (w_finish s1)
    then show ?thesis using op [OF w_finish(4)] by simp
  next
    case (w_core s1)
    have "conds s1 = conds (wcore w)" using w_core(2)
      by (rule step_NoneE) (auto simp: V_conds dest: resume_conds Sleep_loop_locals(3))
    then show ?thesis using t unfolding w_core(1) by simp
  next
    case (w_slice s1)
    then show ?thesis using op [OF w_slice(2)] by simp
  qed
qed

text \<open>
  C12 Test 5 of the suite does what its comment says, in every interleaving and from any point of the suite:
  the signal made while holding another lock is refused, so a thread that waits on \<open>t5_c1\<close> waits for ever:
  at every later time it is still on the queue of \<open>t5_c1\<close>, has made no further statement, and hence
  \<open>t5_t1\<close> never completes.
\<close>

theorem test5_never_completes:
  assumes "sys_init s" "c \<in> {TestSuite, test5}" "wsteps devs (prog_init s () 0 c) w"
    and "t \<in> set (cqueue (conds (wcore w) t5_c1))" "wsteps devs w w'"
  shows "t \<in> set (cqueue (conds (wcore w') t5_c1)) \<and> code w' t = code w t"
  using assms(5,3,4)
proof (induction rule: wsteps.induct)
  case (wsteps_step w w1 w2)
  have "winv test_locks_kept test_start w1"
    by (rule suite_winv [OF assms(1,2) wsteps_trans [OF wsteps_step(1,4)]])
  from test5_step [OF this wsteps_step(2)] wsteps_step(3) [OF wsteps_step(4,5)] show ?case by simp
qed simp

definition test5_run :: "choice list" where
  "test5_run = replicate 7 (Go 0)"

theorem test5_never_completes_witness:
  "\<exists>w. wsteps {} (prog_init sys0 () 0 test5) w \<and> 1 \<in> set (cqueue (conds (wcore w) t5_c1)) \<and>
     (\<forall>w'. wsteps {} w w' \<longrightarrow> code w' 1 = [op (DoRelease t5_l1)])"
proof -
  have "\<exists>n w. wrun test5_run 1 (prog_init sys0 () 0 test5) = Some (n, w) \<and> 1 \<in> set (cqueue (conds (wcore w) t5_c1)) \<and>
      code w 1 = [op (DoRelease t5_l1)]"
    by (simp add: test5_run_def test5_def t5_t1_def t5_t2_def fork_def op_def test_sems test_locks test_conds
        prog_init_def wgo_def core_step_def run_simps bindE_def eval_nat_numeral)
  then obtain n w where w: "wrun test5_run 1 (prog_init sys0 () 0 test5) = Some (n, w)"
      "1 \<in> set (cqueue (conds (wcore w) t5_c1))" "code w 1 = [op (DoRelease t5_l1)]" by blast
  have s: "wsteps {} (prog_init sys0 () 0 test5) w"
    by (rule wrun_steps [OF w(1)]) (simp add: test5_run_def choices_go)
  have "code w' 1 = [op (DoRelease t5_l1)]" if "wsteps {} w w'" for w'
    using test5_never_completes [OF sys0_init _ s w(2) that] w(3) by simp
  then show ?thesis using s w(2) by blast
qed

end
