(* ===== verification/Nachos_Spinning.thy ===== *)
theory Nachos_Spinning
  imports Nachos_MuseumLocks
begin

text \<open>
  A thread that runs alone: with no time slices, and no call that gives up the processor, nobody else
  ever runs.  The driver of a car that finds no valet is such a thread.
\<close>

section \<open>Running alone\<close>

text \<open>The global data stay as they are; only free locks of \<open>F\<close> are acquired, and only such locks are released.\<close>

definition solo :: "'g \<Rightarrow> nat set \<Rightarrow> 'g discipline" where
  "solo g F = \<lparr>ginv = \<lambda>g'. g' = g, guar = \<lambda>_ _ _. True,
     calls = \<lambda>a H. (\<exists>l \<in> F. a = DoAcquire l \<and> l \<notin> H \<or> a = DoRelease l \<and> l \<in> H), guard = \<lambda>_. 0\<rparr>"

lemma solo_sel [simp]: "ginv (solo g F) g' \<longleftrightarrow> g' = g" "guar (solo g F) H g1 g2"
  "calls (solo g F) a H \<longleftrightarrow> (\<exists>l \<in> F. a = DoAcquire l \<and> l \<notin> H \<or> a = DoRelease l \<and> l \<in> H)"
  by (simp_all add: solo_def)

definition no_spawn :: "('g, 'l) code \<Rightarrow> 'l \<Rightarrow> bool" where
  "no_spawn c l \<longleftrightarrow> False"

text \<open>Of the locks the thread holds at least one is not in \<open>F\<close>, so it does not finish.\<close>

definition alone :: "'g \<Rightarrow> nat set \<Rightarrow> ('g, 'l) prog \<Rightarrow> nat set \<Rightarrow> bool" where
  "alone g F w H \<longleftrightarrow> \<not> idling (wcore w) \<and> frames (wcore w) (wcur w) = [] \<and> glob w = g \<and> \<not> H \<subseteq> F \<and>
     (\<forall>n. safe (solo g F) no_spawn n (code w (wcur w)) (locals w (wcur w)) H) \<and>
     (\<forall>l \<in> F. lqueue (locks (wcore w) l) = [] \<and>
        (if l \<in> H then isHeldByCurrentThread l (wcore w) else free (locks (wcore w) l) \<and> \<not> isHeldByCurrentThread l (wcore w)))"

lemma alone_step:
  assumes A: "alone g F w H" and r: "0 \<le> r"
  shows "\<exists>w' H'. wgo r n w = Some (n, w') \<and> alone g F w' H' \<and> wcur w' = wcur w \<and> readyList (wcore w') = readyList (wcore w)"
proof -
  let ?s = "wcore w" and ?u = "wcur w"
  let ?l = "locals w ?u"
  have own: "\<not> idling ?s" "frames ?s (currentThread ?s) = []" and g: "glob w = g" using A by (simp_all add: alone_def wcur_def)
  have safe: "safe (solo g F) no_spawn m (code w ?u) ?l H" for m using A by (simp add: alone_def)
  show ?thesis
  proof (cases "code w ?u")
    case Nil
    then have "H = {}" using safe [of "Suc 0"] by simp
    then show ?thesis using A by (simp add: alone_def)
  next
    case (Cons x k)
    have here: "code w (currentThread ?s) = x # k" using Cons by (simp add: wcur_def)
    note S = safe [of "Suc m" for m, unfolded Cons]
    have local: ?thesis
      if "stmt_step r x k g ?l = Some (Inr (k1, g, l1))" "\<And>m. safe (solo g F) no_spawn m k1 l1 H" for k1 l1
    proof -
      let ?w = "w\<lparr>glob := g, locals := (locals w)(?u := l1), code := (code w)(?u := k1)\<rparr>"
      have "wgo r n w = Some (n, ?w)"
        using that(1) own here g by (cases x) (simp_all add: wgo_def Let_def wcur_def)
      moreover have "alone g F ?w H" using A that(2) by (simp add: alone_def wcur_def)
      ultimately show ?thesis by (intro exI [of _ ?w] exI [of _ H]) (simp add: wcur_def)
    qed
    show ?thesis
    proof (cases x)
      case (Do f)
      obtain l1 where f: "f g ?l = Inr (g, l1)" using S [of 0, unfolded Do] by (auto simp: okE_iff)
      have "safe (solo g F) no_spawn m k l1 H" for m using S [of m, unfolded Do] f by simp
      then show ?thesis using local [of k l1] Do f by simp
    next
      case (Rand f)
      then show ?thesis using local [of k "f r ?l"] S r by simp
    next
      case (If b p q)
      obtain v where v: "b g ?l = Inr v" using S [of 0, unfolded If] by (auto simp: okE_iff)
      have "safe (solo g F) no_spawn m ((if v then p else q) @ k) ?l H" for m using S [of m, unfolded If] v by simp
      then show ?thesis using local [of "(if v then p else q) @ k" ?l] If v by simp
    next
      case (Loop b p q)
      obtain v where v: "b g ?l = Inr v" using S [of 0, unfolded Loop] by (auto simp: okE_iff)
      have "safe (solo g F) no_spawn m (if v then p @ Iter b p q # k else k) ?l H" for m using S [of m, unfolded Loop] v by simp
      then show ?thesis using local [of "if v then p @ Iter b p q # k else k" ?l] Loop v by simp
    next
      case (Iter b p q)
      then show ?thesis using local [of "q @ Loop b p q # k" ?l] S by simp
    next
      case Break
      then show ?thesis using local [of "brk k" ?l] S by simp
    next
      case (Spawn f)
      then show ?thesis using S [of 0] by (auto simp: no_spawn_def split: prod.splits)
    next
      case (Call f)
      obtain a where a: "f g ?l = Inr a" "calls (solo g F) a H" using S [of 0, unfolded Call] by (auto simp: okE_iff)
      have after: "safe (solo g F) no_spawn m k ?l (held_after a H)" for m using S [of m, unfolded Call] a(1) by simp
      from a(2) obtain l where "l \<in> F" "a = DoAcquire l \<and> l \<notin> H \<or> a = DoRelease l \<and> l \<in> H" by auto
      then obtain s1 where s1: "exec a ?s = Some (Inr s1)" "currentThread s1 = currentThread ?s" "readyList s1 = readyList ?s"
          "idling s1 = idling ?s" "frames s1 = frames ?s" "\<And>t. a \<noteq> DoFork t" "\<not> held_after a H \<subseteq> F"
          "\<And>j. j \<noteq> l \<Longrightarrow> locks s1 j = locks ?s j" "lqueue (locks s1 l) = []"
          "l \<in> held_after a H \<longleftrightarrow> ownerThread (locks s1 l) = Some (currentThread ?s)"
          "l \<notin> held_after a H \<longrightarrow> free (locks s1 l)" "\<And>j. j \<noteq> l \<Longrightarrow> j \<in> held_after a H \<longleftrightarrow> j \<in> H"
        using A Acquire_cases(2) [of l ?s] Release_cases(2) [of l ?s] unfolding alone_def
        by (fastforce split: if_splits)
      let ?w = "w\<lparr>wcore := s1, code := (code w)(?u := k)\<rparr>"
      have "wgo r n w = Some (n, ?w)" using own here Call a(1) s1(1,6) g
        by (simp add: wgo_def Let_def wcur_def split: operation.split)
      moreover have "alone g F ?w (held_after a H)"
      proof -
        have "lqueue (locks s1 j) = [] \<and> (if j \<in> held_after a H then isHeldByCurrentThread j s1
            else free (locks s1 j) \<and> \<not> isHeldByCurrentThread j s1)" if "j \<in> F" for j
          using A that s1(2) s1(8) [of j] s1(9-11) s1(12) [of j]
          by (cases "j = l") (auto simp: alone_def isHeldByCurrentThread_def split: if_splits)
        then show ?thesis using A after s1(2,4,5,7) by (simp add: alone_def wcur_def)
      qed
      ultimately show ?thesis using s1(2,3) by (intro exI [of _ ?w] exI [of _ "held_after a H"]) (simp add: wcur_def)
    qed
  qed
qed

lemma alone_run:
  assumes "alone g F w H" "list_all (\<lambda>r. 0 \<le> r) rs"
  shows "\<exists>w' H'. wrun (map Go rs) n w = Some (n, w') \<and> alone g F w' H' \<and> wcur w' = wcur w \<and>
    readyList (wcore w') = readyList (wcore w)"
  using assms
proof (induction rs arbitrary: w H)
  case (Cons r rs)
  then obtain w1 H1 where 1: "wgo r n w = Some (n, w1)" "alone g F w1 H1" "wcur w1 = wcur w"
      "readyList (wcore w1) = readyList (wcore w)" using alone_step [of g F w H r n] by auto
  show ?case using Cons.IH [OF 1(2)] Cons.prems(2) 1 by simp
qed auto

section \<open>The driver of a car\<close>

lemma wp_solo_count:
  assumes "I (l\<lparr>l_i := 0\<rparr>) H"
    and "\<And>l H. I l H \<Longrightarrow> l_i l < n g l \<Longrightarrow> wp (solo g F) no_spawn p (\<lambda>l H. I (l\<lparr>l_i := l_i l + 1\<rparr>) H) Q l H"
    and "\<And>l H. I l H \<Longrightarrow> \<not> l_i l < n g l \<Longrightarrow> Q l H"
  shows "wp (solo g F) no_spawn (count n p) Q B l H"
proof -
  have inc: "wp (solo g F) no_spawn [local (l_i_update (\<lambda>i. i + 1))] J B' = (\<lambda>l H. J (l\<lparr>l_i := l_i l + 1\<rparr>) H)" for J B'
    by (intro ext) (simp add: local_def incr_i)
  show ?thesis unfolding count_def
    by (simp add: inc local_def [of "l_i_update (\<lambda>_. 0)"], intro exI [of _ I]) (use assms in auto)
qed

lemma wp_solo_locks:
  assumes g: "museum_inv g" and F: "F = {5, 10, 15, 20, 25}"
  shows "H \<inter> F = {} \<Longrightarrow> Q (l\<lparr>l_i := 5\<rparr>) (H \<union> F) \<Longrightarrow> wp (solo g F) no_spawn lock_valets Q B l H"
    "F \<subseteq> H \<Longrightarrow> Q (l\<lparr>l_i := 5\<rparr>) (H - F) \<Longrightarrow> wp (solo g F) no_spawn unlock_valets Q B l H"
proof -
  have five: "n \<in> {0, 1, 2, 3, 4}" if "n < 5" for n :: nat using that by auto
  assume H: "H \<inter> F = {}" and Q: "Q (l\<lparr>l_i := 5\<rparr>) (H \<union> F)"
  show "wp (solo g F) no_spawn lock_valets Q B l H" unfolding lock_valets_def
  proof (rule wp_solo_count [where I = "\<lambda>l' H'. \<exists>n \<le> 5. l' = l\<lparr>l_i := int n\<rparr> \<and> H' = H \<union> valet_locks n"], goal_cases)
    case 1
    show ?case by (intro exI [of _ 0]) simp
  next
    case (2 l' H')
    then obtain n where n: "l' = l\<lparr>l_i := int n\<rparr>" "H' = H \<union> valet_locks n" "n < 5" using inv_field(1) [OF g] by auto
    have "5 + 5 * n \<notin> H" "5 + 5 * n \<in> F" using five [OF n(3)] H F by auto
    then show ?case using n inv_field(10) [OF g]
      by (simp add: acquire_def elem_def objects_get, intro exI [of _ "Suc n"]) auto
  next
    case (3 l' H')
    then have "l' = l\<lparr>l_i := 5\<rparr>" "H' = H \<union> valet_locks 5" using inv_field(1) [OF g] by auto
    then show ?case using Q F by simp
  qed
next
  have five: "n \<in> {0, 1, 2, 3, 4}" if "n < 5" for n :: nat using that by auto
  assume H: "F \<subseteq> H" and Q: "Q (l\<lparr>l_i := 5\<rparr>) (H - F)"
  show "wp (solo g F) no_spawn unlock_valets Q B l H" unfolding unlock_valets_def
  proof (rule wp_solo_count [where I = "\<lambda>l' H'. \<exists>n \<le> 5. l' = l\<lparr>l_i := int n\<rparr> \<and> H' = H - valet_locks n"], goal_cases)
    case 1
    show ?case by (intro exI [of _ 0]) simp
  next
    case (2 l' H')
    then obtain n where n: "l' = l\<lparr>l_i := int n\<rparr>" "H' = H - valet_locks n" "n < 5" using inv_field(1) [OF g] by auto
    have "5 + 5 * n \<in> H" "5 + 5 * n \<in> F" using five [OF n(3)] H F by auto
    then show ?case using n inv_field(10) [OF g]
      by (simp add: release_lock_def elem_def objects_get, intro exI [of _ "Suc n"]) auto
  next
    case (3 l' H')
    then have "l' = l\<lparr>l_i := 5\<rparr>" "H' = H - valet_locks 5" using inv_field(1) [OF g] by auto
    then show ?case using Q F by simp
  qed
qed

lemma wp_solo_find:
  assumes g: "museum_inv g" and none: "\<And>i. i < 5 \<Longrightarrow> valetCarNumber g ! i \<noteq> v" and Q: "\<And>k. Q (l\<lparr>l_i := k\<rparr>) H"
  shows "wp (solo g F) no_spawn (find_valet v f) Q B l H"
  unfolding find_valet_def
proof (rule wp_solo_count [where I = "\<lambda>l' H'. (\<exists>k \<ge> 0. l' = l\<lparr>l_i := k\<rparr>) \<and> H' = H"], goal_cases)
  case (2 l' H')
  then obtain k where k: "l' = l\<lparr>l_i := k\<rparr>" "0 \<le> k" "k < 5" "H' = H" using inv_field(1) [OF g] by auto
  then have "is_elem valetCarNumber l_i v g l' = Inr False"
    using none [of "nat k"] data_get(1) [OF g] by (simp add: is_elem_def nat_less_iff)
  then show ?case using k by (auto intro!: exI [of _ "k + 1"])
qed (use Q in auto)

text \<open>The loop of a driver at the front of the line of cars, when no limousine is left.\<close>

definition car_loop :: mcode where
  "car_loop = tl CarDriver"

lemma car_loop_safe:
  assumes g: "museum_inv g" and none: "\<And>i. i < 5 \<Longrightarrow> valetCarNumber g ! i \<noteq> WAITING_ON_BENCH"
    and l: "l_status l = PARKING_CAR" "0 \<le> l_valetIndex l" "l_valetIndex l < 5"
  shows "safe (solo g {5, 10, 15, 20, 25}) no_spawn n car_loop l {4}"
proof -
  have src: "list_all src car_loop" using src_functions(2) by (simp add: car_loop_def CarDriver_def)
  let ?I = "\<lambda>l H. l_status l = PARKING_CAR \<and> 0 \<le> l_valetIndex l \<and> l_valetIndex l < 5 \<and> H = {4}"
  have e: "is_elem valetCarNumber l_valetIndex WAITING_ON_BENCH g l' = Inr False"
    if "0 \<le> l_valetIndex l'" "l_valetIndex l' < 5" for l'
    using that none [of "nat (l_valetIndex l')"] data_get(1) [OF g] by (simp add: is_elem_def nat_less_iff)
  have "wp (solo g {5, 10, 15, 20, 25}) no_spawn car_loop (\<lambda>_ _. False) (\<lambda>_ _. False) l {4}"
    unfolding car_loop_def CarDriver_def while_true_def
    apply (simp, intro exI [of _ ?I])
    apply (auto simp: l e intro!: wp_solo_locks [OF g refl] wp_solo_find [OF g none])
    done
  from wp_sound [OF src this, of n "[]"] show ?thesis by simp
qed

definition car_waits :: "(museum, mlocals) prog \<Rightarrow> bool" where
  "car_waits w \<longleftrightarrow> \<not> idling (wcore w) \<and> frames (wcore w) (wcur w) = [] \<and> code w (wcur w) = car_loop \<and>
     l_status (locals w (wcur w)) = PARKING_CAR \<and> l_valetIndex (locals w (wcur w)) \<in> {0, 1, 2, 3, 4} \<and>
     (\<forall>i < 5. valetCarNumber (glob w) ! i \<noteq> WAITING_ON_BENCH) \<and>
     (\<forall>i < 5. \<exists>l. valetCarNumberLock (glob w) ! i = Some l \<and> free (locks (wcore w) l) \<and> lqueue (locks (wcore w) l) = [])"

text \<open>
  C13 The driver of a car that looks for a valet, when no limousine is left, does not give up the processor
  until it has found one: as long as no time slice ends and no valet waits on the bench, no other thread
  ever runs, so no valet can come to the bench and no car is ever parked.  (Such a state is reached when
  all vehicles are cars; a limousine's driver calls \<open>Yield\<close> instead.)
\<close>

theorem car_driver_spins:
  assumes "sys_init s" "wsteps devs (ThreadTest s) w" "car_waits w" "list_all (\<lambda>r. 0 \<le> r) rs"
  shows "\<exists>w'. wrun (map Go rs) n w = Some (n, w') \<and> wcur w' = wcur w \<and> readyList (wcore w') = readyList (wcore w) \<and>
    glob w' = glob w"
proof -
  note I = museum_winv [OF assms(1,2)]
  have g: "museum_inv (glob w)" using winvD(3) [OF I] by simp
  have L: "lock_inv (wcore w)" using winvD(2) [OF I] by (simp add: sync_inv_def)
  note c = assms(3) [unfolded car_waits_def]
  have k: "free (locks (wcore w) (5 + 5 * i)) \<and> lqueue (locks (wcore w) (5 + 5 * i)) = []" if "i < 5" for i
    using c that inv_field(10) [OF g] by (fastforce simp: objects_nth)
  have "free (locks (wcore w) l) \<and> lqueue (locks (wcore w) l) = []" if "l \<in> {5, 10, 15, 20, 25}" for l
    using that k [of 0] k [of 1] k [of 2] k [of 3] k [of 4] by auto
  moreover have "\<not> isHeldByCurrentThread l (wcore w)" if "free (locks (wcore w) l)" for l
    using lock_invD(1) [OF L] that by (auto simp: isHeldByCurrentThread_def)
  moreover have "safe (solo (glob w) {5, 10, 15, 20, 25}) no_spawn m car_loop (locals w (wcur w)) {4}" for m
    by (rule car_loop_safe [OF g]) (use c in auto)
  ultimately have "alone (glob w) {5, 10, 15, 20, 25} w {4}" using c by (simp add: alone_def)
  from alone_run [OF this assms(4), of n] show ?thesis unfolding alone_def by blast
qed

definition first_car :: "choice list" where
  "first_car = first_call @ replicate 12 (Go 0)"

lemma start_numbers: "numLimosWaitingToPark (museum_objects globals0) = 0" "valetCarNumber (museum_objects globals0) = [-5, -5, -5, -5, -5]"
  by (simp_all add: museum_objects_def globals0_def make_lock_def make_cond_def array_slot_def new_valet_def new_ticket_taker_def
      objects_upt Let_def ON_BENCH_NOT_WAITING_def eval_nat_numeral)

lemma first_car_run:
  "\<exists>n w. wrun first_car 1 (ThreadTest sys0) = Some (n, w) \<and> car_waits w \<and> wcur w = 1 \<and> readyList (wcore w) = [0]"
  by (simp add: first_car_def first_call_def start_simps start_numbers CarDriver_def while_true_def start_locals_def
      car_waits_def car_loop_def wcur_def inv_field [OF objects_inv] museum_constants objects_nth less_Suc_eq)

theorem car_driver_spins_witness:
  "\<exists>n w. wsteps {} (ThreadTest sys0) w \<and> car_waits w \<and> wcur w = 1 \<and> readyList (wcore w) = [0] \<and>
     (\<exists>w'. wrun (map Go (replicate 1000 0)) n w = Some (n, w') \<and> wcur w' = 1 \<and> readyList (wcore w') = [0])"
proof -
  obtain n w where w: "wrun first_car 1 (ThreadTest sys0) = Some (n, w)" "car_waits w" "wcur w = 1" "readyList (wcore w) = [0]"
    using first_car_run by blast
  have s: "wsteps {} (ThreadTest sys0) w"
    by (rule wrun_steps [OF w(1)]) (auto simp: first_car_def first_call_def choices_ok_def list_all_iff)
  have "list_all (\<lambda>r. 0 \<le> r) (replicate 1000 (0 :: int))" by (simp only: list_all_iff set_replicate_conv_if) simp
  from car_driver_spins [OF sys0_init s w(2) this, of n] show ?thesis using s w(2-4) by auto
qed

end
