(* ===== verification/Nachos_LockUse.thy ===== *)
theory Nachos_LockUse
  imports Nachos_Programs
begin

text \<open>
  Who gains and who keeps a lock in a step of the synchronization model, threads that use locks and
  condition variables only, and the fact that every thread that exists has been started.
\<close>

section \<open>Threads that use no semaphores\<close>

definition no_sems :: "sys \<Rightarrow> bool" where
  "no_sems s \<longleftrightarrow> (\<forall>m. squeue (sems s m) = []) \<and> (\<forall>t m. SemRetry m \<notin> set (frames s t))"

lemma no_sems_cong: "sems s' = sems s \<Longrightarrow> frames s' = frames s \<Longrightarrow> no_sems s' = no_sems s"
  by (simp add: no_sems_def)

lemma no_sems_push:
  assumes "no_sems s" "sems s' = sems s" "frames s' = (frames s)(u := fr @ frames s u)" "\<And>m. SemRetry m \<notin> set fr"
  shows "no_sems s'"
  using assms by (auto simp: no_sems_def)

lemma Acquire_no_sems:
  assumes a: "Lock_Acquire l s = Inr s'" and n: "no_sems s"
  shows "no_sems s'"
proof -
  consider "isHeldByCurrentThread l s" | "\<not> isHeldByCurrentThread l s" "free (locks s l)"
    | "\<not> isHeldByCurrentThread l s" "\<not> free (locks s l)" by blast
  then show ?thesis
  proof cases
    case 3
    note sl = a [unfolded Acquire_cases(3) [OF 3]]
    show ?thesis
      by (rule no_sems_push [OF n, where u = "currentThread s" and fr = "[AcquireDone l, RestoreLevel (level s)]"])
        (use Sleep_locals(1,4) [OF sl] in simp_all)
  qed (use a n in \<open>auto simp: Acquire_cases no_sems_def\<close>)
qed

lemma Wait_no_sems:
  assumes a: "Condition_Wait c (Some l) s = Inr s'" and n: "no_sems s"
  shows "no_sems s'"
proof (cases "wait_refused c (Some l) s")
  case False
  note sl = a [unfolded Wait_cases(2) [OF False refl]]
  show ?thesis
    by (rule no_sems_push [OF n, where u = "currentThread s" and fr = "[WaitReacquire l, RestoreLevel (level s)]"])
      (use Sleep_locals(1,4) [OF sl] in \<open>simp_all add: Release_same\<close>)
qed (use a n in \<open>simp add: Wait_cases\<close>)

lemma Signal_no_sems: "no_sems s \<Longrightarrow> no_sems (Condition_Signal c lo s)"
proof (cases "signal_refused c lo s")
  case False
  then obtain t q where q: "cqueue (conds s c) = t # q"
    by (cases "cqueue (conds s c)") (auto simp: signal_refused_def)
  assume "no_sems s"
  then show ?thesis by (simp add: Signal_cases(2) [OF False q] ReadyToRun_def no_sems_def)
qed (simp add: Signal_cases)

lemma Yield_no_sems:
  assumes y: "Thread_Yield s = Inr s'" and n: "no_sems s"
  shows "no_sems s'"
  using Yield_locals(1,5) [OF y] n by (auto simp: no_sems_def split: if_splits)

lemma Finish_no_sems:
  assumes f: "Thread_Finish s = Inr s'" and n: "no_sems s"
  shows "no_sems s'"
  by (rule no_sems_push [OF n, where u = "currentThread s" and fr = "[NotReached]"])
    (use f in \<open>auto simp: Thread_Finish_def dest: Sleep_locals(1,4)\<close>)

fun lock_op :: "operation \<Rightarrow> bool" where
  "lock_op (DoP m) = False"
| "lock_op (DoV m) = False"
| "lock_op (DoWait c lo) = (lo \<noteq> None)"
| "lock_op (DoBroadcast c lo) = False"
| "lock_op _ = True"

lemma op_no_sems:
  assumes "step (Some a) s s'" "lock_op a" "no_sems s"
  shows "no_sems s'"
  using assms(1)
proof (rule step_opE)
  assume e: "exec a s = Some (Inr s')"
  show ?thesis
  proof (cases a)
    case (DoFork t)
    then show ?thesis using e assms(3) by (auto simp: no_sems_def Thread_Fork_def Thread_new_def ReadyToRun_def split: if_splits)
  next
    case (DoWait c lo)
    then show ?thesis using e assms(2,3) by (auto intro: Wait_no_sems)
  next
    case (DoRelease l)
    then show ?thesis using e assms(3) no_sems_cong [OF Release_same(6,1)] by auto
  qed (use e assms(2,3) in \<open>auto simp: Signal_no_sems intro: Acquire_no_sems Yield_no_sems Finish_no_sems\<close>)
qed

lemma quiet_no_sems:
  assumes "step None s s'" "no_sems s"
  shows "no_sems s'"
  using assms(1)
proof (rule step_NoneE)
  assume r: "frames s (currentThread s) \<noteq> []" "resume s = Inr s'"
  have p: "no_sems (pop_frame s)"
    using assms(2) list.set_sel(2) [OF r(1)] by (auto simp: no_sems_def pop_frame_def)
  have "hd (frames s (currentThread s)) \<noteq> SemRetry m" for m
    using assms(2) r(1) hd_in_set unfolding no_sems_def by metis
  moreover have "no_sems ((pop_frame s)\<lparr>level := v\<rparr>)" for v using p by (simp add: no_sems_def)
  ultimately show ?thesis using r p Acquire_no_sems [OF _ p]
    by (cases "frames s (currentThread s)"; cases "hd (frames s (currentThread s))") (auto simp: resume_def)
next
  fix m assume "s' = Semaphore_V m s"
  then show ?thesis using assms(2) by (auto simp: no_sems_def V_cases)
next
  assume "Sleep_loop s = Inr s'"
  then show ?thesis using assms(2) Sleep_loop_locals(1,4) [of s s'] by (simp add: no_sems_def)
qed

section \<open>Who owns the lock\<close>

lemma Acquire_owner_kept:
  assumes "Lock_Acquire k s = Inr s'" "lock_inv s" "ownerThread (locks s l) = Some t"
  shows "ownerThread (locks s' l) = Some t"
  using Acquire_owner [OF assms(1), of l] lock_invD(1) [OF assms(2), of l] assms(3) by auto

fun gives_up :: "operation \<Rightarrow> nat \<Rightarrow> bool" where
  "gives_up (DoRelease k) l = (k = l)"
| "gives_up (DoWait c lo) l = (lo = Some l)"
| "gives_up _ l = False"

lemma op_owner_kept:
  assumes st: "step (Some a) s s'" and inv: "sync_inv s" and own: "ownerThread (locks s l) = Some t"
    and a: "gives_up a l \<Longrightarrow> t \<noteq> currentThread s"
  shows "ownerThread (locks s' l) = Some t"
  using st
proof (rule step_opE)
  assume e: "exec a s = Some (Inr s')"
  have L: "lock_inv s" using inv by (simp add: sync_inv_def)
  show ?thesis
  proof (cases a)
    case (DoWait c lo)
    then show ?thesis using e own a Wait_owner [of c lo s s' l] by (auto simp: isHeldByCurrentThread_def)
  next
    case (DoRelease k)
    then show ?thesis using e own a by (auto simp: Release_owner isHeldByCurrentThread_def)
  next
    case (DoAcquire k)
    then show ?thesis using e Acquire_owner_kept [OF _ L own] by simp
  qed (use e own in \<open>auto simp: V_same Signal_same Thread_Fork_def Thread_new_def ReadyToRun_def
      dest: P_same Broadcast_same Yield_locals(2) Finish_same\<close>)
qed

lemma quiet_owner_kept:
  assumes st: "step None s s'" and inv: "sync_inv s" and own: "ownerThread (locks s l) = Some t"
  shows "ownerThread (locks s' l) = Some t"
  using st
proof (rule step_NoneE)
  assume r: "\<not> idling s" "frames s (currentThread s) \<noteq> []" "resume s = Inr s'"
  have K: "kernel_inv s (waitq s)" using inv by (simp add: sync_inv_def)
  have p: "lock_inv (pop_frame s)" "ownerThread (locks (pop_frame s) l) = Some t"
    using pop_lock_inv [of s] kernel_inv_current(2) [OF K r(1), of "QL _"] inv own by (simp_all add: sync_inv_def pop_frame_def)
  show ?thesis
    using r(2,3) p(2) Acquire_owner_kept [OF _ p]
    by (auto simp: resume_def P_wait_def P_take_def split: list.splits frame.splits if_splits dest!: Sleep_locals(2))
next
  assume "Sleep_loop s = Inr s'"
  then show ?thesis using own Sleep_loop_locals(2) by metis
qed (use own in \<open>auto simp: V_same\<close>)

text \<open>A lock goes to the caller or to a thread in its queue.\<close>

lemma Acquire_owner_new:
  assumes a: "Lock_Acquire k s = Inr s'" and u: "u \<noteq> currentThread s" "ownerThread (locks s l) \<noteq> Some u"
  shows "ownerThread (locks s' l) \<noteq> Some u"
proof -
  consider "isHeldByCurrentThread k s" | "\<not> isHeldByCurrentThread k s" "free (locks s k)"
    | "\<not> isHeldByCurrentThread k s" "\<not> free (locks s k)" by blast
  then show ?thesis
  proof cases
    case 3
    then show ?thesis using u Sleep_locals(2) [OF a [unfolded Acquire_cases(3) [OF 3]]] by auto
  qed (use a u in \<open>auto simp: Acquire_cases split: if_splits\<close>)
qed

lemma op_owner_new:
  assumes st: "step (Some a) s s'" and u: "u \<noteq> currentThread s" "u \<notin> set (lqueue (locks s l))" "ownerThread (locks s l) \<noteq> Some u"
  shows "ownerThread (locks s' l) \<noteq> Some u"
  using st
proof (rule step_opE)
  assume e: "exec a s = Some (Inr s')"
  show ?thesis
  proof (cases a)
    case (DoWait c lo)
    then show ?thesis using e u Wait_owner [of c lo s s' l] by (auto split: list.splits)
  next
    case (DoRelease k)
    then show ?thesis using e u by (auto simp: Release_owner split: list.splits if_splits)
  next
    case (DoAcquire k)
    then show ?thesis using e u Acquire_owner_new [of k s s' u l] by simp
  qed (use e u in \<open>auto simp: V_same Signal_same Thread_Fork_def Thread_new_def ReadyToRun_def
      dest: P_same Broadcast_same Yield_locals(2) Finish_same\<close>)
qed

lemma quiet_owner_new:
  assumes st: "step None s s'" and u: "\<not> idling s \<Longrightarrow> u \<noteq> currentThread s" "ownerThread (locks s l) \<noteq> Some u"
  shows "ownerThread (locks s' l) \<noteq> Some u"
  using st
proof (rule step_NoneE)
  assume r: "\<not> idling s" "frames s (currentThread s) \<noteq> []" "resume s = Inr s'"
  have p: "currentThread (pop_frame s) = currentThread s" "locks (pop_frame s) = locks s" by (simp_all add: pop_frame_def)
  show ?thesis
    using r u p Acquire_owner_new [of _ "pop_frame s" s' u l]
    by (auto simp: resume_def P_wait_def P_take_def split: list.splits frame.splits if_splits dest!: Sleep_locals(2))
next
  assume "Sleep_loop s = Inr s'"
  then show ?thesis using u Sleep_loop_locals(2) by metis
qed (use u in \<open>auto simp: V_same\<close>)

section \<open>Started threads\<close>

definition ages :: "sys \<Rightarrow> sys \<Rightarrow> bool" where
  "ages s s' \<longleftrightarrow> (\<forall>t. status s' t = JUST_CREATED \<longrightarrow> status s t = JUST_CREATED) \<and> threads s' \<subseteq> threads s"

lemma ages_trans: "ages s1 s2 \<Longrightarrow> ages s2 s3 \<Longrightarrow> ages s1 s3"
  unfolding ages_def by blast

lemma ages_same: "status s' = status s \<Longrightarrow> threads s' = threads s \<Longrightarrow> ages s s'"
  by (simp add: ages_def)

lemma agesI:
  assumes "\<And>v. status s' v = status s v \<or> status s' v \<noteq> JUST_CREATED" "threads s' \<subseteq> threads s"
  shows "ages s s'"
  unfolding ages_def using assms by metis

lemma Run_ages:
  assumes r: "Run t s = Inr s'"
  shows "ages s s'"
proof (rule agesI)
  have "status s' = (status s)(t := RUNNING)" using Run_Inr [OF r] by fastforce
  then show "status s' v = status s v \<or> status s' v \<noteq> JUST_CREATED" for v by simp
  show "threads s' \<subseteq> threads s" using Run_threads [OF r] by blast
qed

lemma Sleep_loop_ages: "Sleep_loop s = Inr s' \<Longrightarrow> ages s s'"
proof (cases "readyList s")
  case Nil
  assume "Sleep_loop s = Inr s'"
  then show ?thesis using Nil by (auto simp: Sleep_loop_def FindNextToRun_Nil ages_def)
next
  case (Cons n ns)
  assume "Sleep_loop s = Inr s'"
  then have "Run n (s\<lparr>readyList := ns, idling := False\<rparr>) = Inr s'" using Cons by (simp add: Sleep_loop_def FindNextToRun_Cons)
  from Run_ages [OF this] show ?thesis by (simp add: ages_def)
qed

lemma Sleep_ages:
  assumes sl: "Thread_Sleep fr s = Inr s'"
  shows "ages s s'"
proof -
  have th: "threads s' \<subseteq> threads s" using Sleep_threads [OF sl] by blast
  show ?thesis
  proof (cases "readyList s")
    case Nil
    have "status s' = (status s)(currentThread s := BLOCKED)" using Sleep_idle [OF sl Nil] by fastforce
    then show ?thesis using th by (intro agesI) simp_all
  next
    case (Cons n ns)
    have "status s' = (status s)(currentThread s := BLOCKED, n := RUNNING)" using Sleep_switch [OF sl Cons] by fastforce
    then show ?thesis using th by (intro agesI) simp_all
  qed
qed

lemma Ready_ages: "ages s (ReadyToRun t s)"
  by (simp add: ages_def ReadyToRun_def)

lemma Release_ages: "ages s (Lock_Release l s)"
  by (cases "isHeldByCurrentThread l s"; cases "lqueue (locks s l)") (simp_all add: Release_cases ages_def ReadyToRun_def)

lemma Acquire_ages: "Lock_Acquire l s = Inr s' \<Longrightarrow> ages s s'"
proof -
  assume a: "Lock_Acquire l s = Inr s'"
  consider "isHeldByCurrentThread l s" | "\<not> isHeldByCurrentThread l s" "free (locks s l)"
    | "\<not> isHeldByCurrentThread l s" "\<not> free (locks s l)" by blast
  then show ?thesis
  proof cases
    case 3
    then show ?thesis using Sleep_ages [OF a [unfolded Acquire_cases(3) [OF 3]]] by (simp add: ages_def)
  qed (use a in \<open>auto simp: Acquire_cases ages_def\<close>)
qed

lemma V_ages: "ages s (Semaphore_V m s)"
  by (cases "squeue (sems s m)") (simp_all add: V_cases ages_def ReadyToRun_def)

lemma Signal_ages: "ages s (Condition_Signal c lo s)"
proof (cases "signal_refused c lo s")
  case False
  then obtain t q where q: "cqueue (conds s c) = t # q"
    by (cases "cqueue (conds s c)") (auto simp: signal_refused_def)
  show ?thesis by (simp add: Signal_cases(2) [OF False q] ages_def ReadyToRun_def)
qed (simp add: Signal_cases ages_def)

lemma Broadcast_ages: "Condition_Broadcast c lo s = Some s' \<Longrightarrow> ages s s'"
proof (rule Condition_Broadcast.raw_induct [where P = "\<lambda>c lo s s'. ages s s'"])
  fix f :: "nat \<Rightarrow> nat option \<Rightarrow> sys \<Rightarrow> sys option" and c lo s s'
  assume 1: "\<And>c lo s y. f c lo s = Some y \<Longrightarrow> ages s y"
    and 2: "(if q_is_empty (cqueue (conds s c)) then Some s else f c lo (Condition_Signal c lo s)) = Some s'"
  then show "ages s s'" using ages_trans [OF Signal_ages [of s c lo] 1] by (auto simp: ages_def split: if_splits)
qed

lemma Wait_ages: "Condition_Wait c lo s = Inr s' \<Longrightarrow> ages s s'"
proof (cases "wait_refused c lo s")
  case False
  assume a: "Condition_Wait c lo s = Inr s'"
  obtain l where l: "lo = Some l" using False by (auto simp: wait_refused_def)
  show ?thesis
    using Sleep_ages [OF a [unfolded l Wait_cases(2) [OF False [unfolded l] refl]]]
      Release_ages [of "s\<lparr>level := IntOff, conds := (conds s)(c := (conds s c)\<lparr>waitingLock := Some l\<rparr>)\<rparr>" l]
    by (auto simp: ages_def)
qed (simp add: Wait_cases ages_def)

lemma P_ages: "Semaphore_P m s = Inr s' \<Longrightarrow> ages s s'"
  by (cases "svalue (sems s m) = 0") (auto simp: P_cases P_wait_def P_take_def ages_def dest!: Sleep_ages)

lemma Yield_ages:
  assumes y: "Thread_Yield (s :: sys) = Inr s'"
  shows "ages s s'"
proof (cases "readyList s")
  case Nil
  then have "s' = s" using Yield_cases [OF y] by simp
  then show ?thesis by (simp add: ages_def)
next
  case (Cons n ns)
  let ?t = "currentThread s"
  let ?s = "ReadyToRun ?t (s\<lparr>level := IntOff, readyList := ns,
      frames := (frames s)(?t := RestoreLevel (level s) # frames s ?t)\<rparr>)"
  have "Run n ?s = Inr s'" using y by (simp add: Thread_Yield_def FindNextToRun_Cons Cons Let_def)
  then have "ages ?s s'" by (rule Run_ages)
  moreover have "ages s ?s" by (simp add: ages_def ReadyToRun_def)
  ultimately show ?thesis by (rule ages_trans [rotated])
qed

lemma Finish_ages: "Thread_Finish (s :: sys) = Inr s' \<Longrightarrow> ages s s'"
  unfolding Thread_Finish_def by (drule Sleep_ages) (simp add: ages_def)

lemma pop_ages: "ages (pop_frame s) s' = ages s s'"
  by (simp add: ages_def pop_frame_def)

lemma resume_ages:
  assumes r: "resume s = Inr s'"
  shows "ages s s'"
proof -
  have pop: "ages (pop_frame s) s' \<Longrightarrow> ages s s'" by (simp add: pop_ages)
  show ?thesis
  proof (cases "frames s (currentThread s)")
    case Nil
    then show ?thesis using r by (simp add: resume_def ages_def)
  next
    case (Cons f fs)
    show ?thesis
    proof (rule pop, cases f)
      case (SemRetry m)
      then show "ages (pop_frame s) s'" using r Cons
        by (auto simp: resume_def P_wait_def P_take_def ages_def split: if_splits dest!: Sleep_ages)
    next
      case (WaitReacquire l)
      then show "ages (pop_frame s) s'" using r Cons Acquire_ages by (simp add: resume_def)
    qed (use r Cons in \<open>auto simp: resume_def ages_def\<close>)
  qed
qed

lemma step_ages:
  assumes st: "step a s s'" and nf: "\<And>t. a \<noteq> Some (DoFork t)"
  shows "ages s s'"
  using st
proof cases
  case (step_op b)
  then show ?thesis using nf
    by (cases b) (auto intro: P_ages V_ages Acquire_ages Release_ages Wait_ages Signal_ages Broadcast_ages Yield_ages Finish_ages)
qed (auto intro: resume_ages V_ages Sleep_loop_ages)

lemma reach_started: "reach s \<Longrightarrow> t \<in> threads s \<Longrightarrow> status s t \<noteq> JUST_CREATED"
proof (induction rule: reach.induct)
  case (reach_init s)
  then show ?case by (simp add: sys_init_def)
next
  case (reach_step s a s')
  show ?case
  proof (cases "\<exists>u. a = Some (DoFork u)")
    case True
    then obtain u where u: "a = Some (DoFork u)" by blast
    have "s' = Thread_Fork u (Thread_new u s)" using reach_step.hyps(2) unfolding u by (auto elim: step_opE)
    then show ?thesis using reach_step.IH reach_step.prems
      by (auto simp: Thread_Fork_def Thread_new_def ReadyToRun_def split: if_splits)
  next
    case False
    then have "ages s s'" using step_ages [OF reach_step.hyps(2)] by blast
    then show ?thesis using reach_step.IH reach_step.prems by (auto simp: ages_def)
  qed
qed

end
