(* ===== verification/Nachos_SynchList.thy ===== *)
theory Nachos_SynchList
  imports Nachos_LockUse Nachos_Runs
begin

text \<open>
  The synchronized list (\<open>threads/synchlist.cc\<close>): a list with a lock and a condition variable, used by
  any number of threads.  The list inside is the sequence that \<open>Nachos_List\<close> shows the pointer list to
  implement.  No item is lost, none is taken twice, and no thread waits for an item that is there.
\<close>

section \<open>The operations\<close>

text \<open>The objects of the list; it is the only one, so both are numbered 0.\<close>

definition list_lock :: nat where "list_lock = 0"
definition listEmpty :: nat where "listEmpty = 0"

text \<open>\<open>returned\<close>: the results of \<open>Remove\<close>; \<open>visited\<close>: the items that \<open>Mapcar\<close> gave to its function.\<close>

record 'a slocals =
  item :: "'a option"
  returned :: "'a option list"
  visited :: "'a list"

type_synonym 'a slcode = "('a list, 'a slocals) code"
type_synonym 'a slstmt = "('a list, 'a slocals) stmt"

definition sl_call :: "operation \<Rightarrow> 'a slstmt" where
  "sl_call a = Call (\<lambda>_ _. Inr a)"

definition sl_append :: "'a \<Rightarrow> 'a slstmt" where
  "sl_append x = Do (\<lambda>g l. Inr (q_append x g, l))"

definition sl_remove :: "'a slstmt" where
  "sl_remove = Do (\<lambda>g l. Inr (snd (q_remove g), l\<lparr>item := fst (q_remove g)\<rparr>))"

definition sl_assert :: "'a slstmt" where
  "sl_assert = Do (\<lambda>g l. if item l \<noteq> None then Inr (g, l) else Inl AssertFailed)"

definition sl_return :: "'a slstmt" where
  "sl_return = Do (\<lambda>g l. Inr (g, l\<lparr>returned := returned l @ [item l]\<rparr>))"

definition sl_visit :: "'a slstmt" where
  "sl_visit = Do (\<lambda>g l. Inr (g, l\<lparr>visited := visited l @ g\<rparr>))"

definition sl_empty :: "'a list \<Rightarrow> 'a slocals \<Rightarrow> fault + bool" where
  "sl_empty g l = Inr (q_is_empty g)"

definition SynchList_Append :: "'a \<Rightarrow> 'a slcode" where
  "SynchList_Append x =
     [sl_call (DoAcquire list_lock),
      sl_append x,
      sl_call (DoSignal listEmpty (Some list_lock)),
      sl_call (DoRelease list_lock)]"

definition SynchList_Remove :: "'a slcode" where
  "SynchList_Remove =
     [sl_call (DoAcquire list_lock),
      Loop sl_empty [sl_call (DoWait listEmpty (Some list_lock))] [],
      sl_remove,
      sl_assert,
      sl_call (DoRelease list_lock),
      sl_return]"

definition SynchList_Mapcar :: "'a slcode" where
  "SynchList_Mapcar =
     [sl_call (DoAcquire list_lock),
      sl_visit,
      sl_call (DoRelease list_lock)]"

text \<open>The constructor, and threads that use the list.\<close>

datatype 'a list_call = CAppend 'a | CRemove | CMapcar

fun sl_code :: "'a list_call \<Rightarrow> 'a slcode" where
  "sl_code (CAppend x) = SynchList_Append x"
| "sl_code CRemove = SynchList_Remove"
| "sl_code CMapcar = SynchList_Mapcar"

definition list_client :: "'a list_call list \<Rightarrow> 'a slcode" where
  "list_client cs = concat (map sl_code cs)"

definition new_client :: "'a list_call list \<Rightarrow> 'a slstmt" where
  "new_client cs = Spawn (\<lambda>_ _. (list_client cs, \<lparr>item = None, returned = [], visited = []\<rparr>))"

definition SynchList_new :: "sys \<Rightarrow> 'a list_call list list \<Rightarrow> 'a list_call list \<Rightarrow> ('a list, 'a slocals) prog" where
  "SynchList_new s css cs =
     prog_init s [] \<lparr>item = None, returned = [], visited = []\<rparr> (map new_client css @ list_client cs)"

section \<open>Where the threads are\<close>

text \<open>The point a thread has reached, with the calls it has still to make.\<close>

datatype 'a pos =
    Outside "'a list_call list list" "'a list_call list"
  | Appending 'a "'a list_call list"
  | Signalling "'a list_call list"
  | Leaving "'a list_call list"
  | Testing "'a list_call list"
  | Waiting "'a list_call list"
  | Woken "'a list_call list"
  | Removing "'a list_call list"
  | Checking "'a list_call list"
  | Returning "'a list_call list"
  | Result "'a list_call list"
  | Visiting "'a list_call list"

definition remove_loop :: "'a slstmt" where
  "remove_loop = Loop sl_empty [sl_call (DoWait listEmpty (Some list_lock))] []"

definition remove_iter :: "'a slstmt" where
  "remove_iter = Iter sl_empty [sl_call (DoWait listEmpty (Some list_lock))] []"

definition after_loop :: "'a slcode" where
  "after_loop = [sl_remove, sl_assert, sl_call (DoRelease list_lock), sl_return]"

fun pos_code :: "'a pos \<Rightarrow> 'a slcode" where
  "pos_code (Outside css cs) = map new_client css @ list_client cs"
| "pos_code (Appending x cs) =
     sl_append x # sl_call (DoSignal listEmpty (Some list_lock)) # sl_call (DoRelease list_lock) # list_client cs"
| "pos_code (Signalling cs) =
     sl_call (DoSignal listEmpty (Some list_lock)) # sl_call (DoRelease list_lock) # list_client cs"
| "pos_code (Leaving cs) = sl_call (DoRelease list_lock) # list_client cs"
| "pos_code (Testing cs) = remove_loop # after_loop @ list_client cs"
| "pos_code (Waiting cs) = sl_call (DoWait listEmpty (Some list_lock)) # remove_iter # after_loop @ list_client cs"
| "pos_code (Woken cs) = remove_iter # after_loop @ list_client cs"
| "pos_code (Removing cs) = sl_remove # sl_assert # sl_call (DoRelease list_lock) # sl_return # list_client cs"
| "pos_code (Checking cs) = sl_assert # sl_call (DoRelease list_lock) # sl_return # list_client cs"
| "pos_code (Returning cs) = sl_call (DoRelease list_lock) # sl_return # list_client cs"
| "pos_code (Result cs) = sl_return # list_client cs"
| "pos_code (Visiting cs) = sl_visit # sl_call (DoRelease list_lock) # list_client cs"

text \<open>
  \<open>inside\<close>: between \<open>Acquire\<close> and \<open>Release\<close>; \<open>owning\<close>: certainly the owner of the lock, not on the way
  out of \<open>Acquire\<close> or \<open>Wait\<close>; \<open>coming\<close>: will look at the list before it waits again.
\<close>

fun inside :: "'a pos \<Rightarrow> bool" where
  "inside (Outside css cs) = False"
| "inside (Result cs) = False"
| "inside _ = True"

fun owning :: "'a pos \<Rightarrow> bool" where
  "owning (Signalling cs) = True"
| "owning (Leaving cs) = True"
| "owning (Waiting cs) = True"
| "owning (Removing cs) = True"
| "owning (Checking cs) = True"
| "owning (Returning cs) = True"
| "owning _ = False"

fun coming :: "'a pos \<Rightarrow> bool" where
  "coming (Testing cs) = True"
| "coming (Woken cs) = True"
| "coming (Removing cs) = True"
| "coming _ = False"

fun signalling :: "'a pos \<Rightarrow> bool" where
  "signalling (Signalling cs) = True"
| "signalling _ = False"

fun woken :: "'a pos \<Rightarrow> bool" where
  "woken (Woken cs) = True"
| "woken _ = False"

text \<open>What a thread knows of the list and of its item.\<close>

fun knows :: "'a pos \<Rightarrow> 'a list \<Rightarrow> 'a slocals \<Rightarrow> bool" where
  "knows (Waiting cs) g l = (g = [])"
| "knows (Removing cs) g l = (g \<noteq> [])"
| "knows (Checking cs) g l = (item l \<noteq> None)"
| "knows _ g l = True"

lemma owning_inside: "owning p \<Longrightarrow> inside p"
  by (cases p) simp_all

lemma knows_alone: "\<not> owning p \<Longrightarrow> knows p g l"
  by (cases p) simp_all

lemma coming_inside: "coming p \<Longrightarrow> inside p"
  by (cases p) simp_all

lemma inside_code: "inside p \<Longrightarrow> pos_code p \<noteq> []"
  by (cases p) simp_all

section \<open>The invariant\<close>

abbreviation sleepers :: "sys \<Rightarrow> tid set" where
  "sleepers s \<equiv> set (cqueue (conds s listEmpty))"

abbreviation lock_owner :: "sys \<Rightarrow> tid option" where
  "lock_owner s \<equiv> ownerThread (locks s list_lock)"

text \<open>The threads that will look at the list: each item has one of them, as long as somebody sleeps.\<close>

definition comers :: "(tid \<Rightarrow> 'a pos) \<Rightarrow> sys \<Rightarrow> tid set" where
  "comers P s = {t. coming (P t) \<and> t \<notin> sleepers s}"

definition expected :: "(tid \<Rightarrow> 'a pos) \<Rightarrow> sys \<Rightarrow> nat" where
  "expected P s = card (comers P s) + (if \<exists>t. signalling (P t) then 1 else 0)"

definition sl_core :: "(tid \<Rightarrow> 'a pos) \<Rightarrow> sys \<Rightarrow> bool" where
  "sl_core P s \<longleftrightarrow> reach s \<and> guards_ok (\<lambda>_. list_lock) s \<and> no_sems s \<and>
     (\<forall>x. x \<noteq> 0 \<longrightarrow> lqueue (locks s x) = [] \<and> cqueue (conds s x) = []) \<and>
     (\<forall>t. t \<notin> active s \<longrightarrow> P t = Outside [] []) \<and> finite {t. inside (P t)} \<and>
     (\<forall>t. holds s t = (if inside (P t) then {list_lock} else {})) \<and>
     (\<forall>t. owning (P t) \<longrightarrow> lock_owner s = Some t) \<and>
     (\<forall>t \<in> sleepers s. woken (P t) \<and> lock_owner s \<noteq> Some t)"

definition sl_inv :: "(tid \<Rightarrow> 'a pos) \<Rightarrow> ('a list, 'a slocals) prog \<Rightarrow> bool" where
  "sl_inv P w \<longleftrightarrow> sl_core P (wcore w) \<and> (\<forall>t. code w t = pos_code (P t)) \<and>
     (\<forall>t. knows (P t) (glob w) (locals w t)) \<and>
     (cqueue (conds (wcore w) listEmpty) \<noteq> [] \<longrightarrow> length (glob w) \<le> expected P (wcore w))"

lemma sl_coreD:
  assumes "sl_core P s"
  shows "reach s" "sync_inv s" "guards_ok (\<lambda>_. list_lock) s" "no_sems s"
    "x \<noteq> 0 \<Longrightarrow> lqueue (locks s x) = [] \<and> cqueue (conds s x) = []"
    "t \<notin> active s \<Longrightarrow> P t = Outside [] []" "finite {t. inside (P t)}"
    "holds s t = (if inside (P t) then {list_lock} else {})"
    "owning (P t) \<Longrightarrow> lock_owner s = Some t"
    "t \<in> sleepers s \<Longrightarrow> woken (P t) \<and> lock_owner s \<noteq> Some t"
  using assms reach_inv unfolding sl_core_def by blast+

lemma sl_invD:
  assumes "sl_inv P w"
  shows "sl_core P (wcore w)" "code w t = pos_code (P t)" "knows (P t) (glob w) (locals w t)"
    "cqueue (conds (wcore w) listEmpty) \<noteq> [] \<Longrightarrow> length (glob w) \<le> expected P (wcore w)"
  using assms unfolding sl_inv_def by blast+

lemma running_facts:
  assumes "sl_core P s" "\<not> idling s" "frames s (currentThread s) = []"
  shows "currentThread s \<notin> sleepers s" "inside (P (currentThread s)) \<Longrightarrow> lock_owner s = Some (currentThread s)"
    "inside (P (currentThread s)) \<Longrightarrow> u \<noteq> currentThread s \<Longrightarrow> \<not> owning (P u)" "currentThread s \<in> active s"
proof -
  have K: "kernel_inv s (waitq s)" using sl_coreD(2) [OF assms(1)] by (simp add: sync_inv_def)
  show "currentThread s \<notin> sleepers s" using kernel_inv_current(2) [OF K assms(2), of "QC listEmpty"] by simp
  show o: "lock_owner s = Some (currentThread s)" if "inside (P (currentThread s))"
    using holds_owner [OF assms(3), of list_lock] sl_coreD(8) [OF assms(1), of "currentThread s"] that by simp
  show "\<not> owning (P u)" if "inside (P (currentThread s))" "u \<noteq> currentThread s"
    using o [OF that(1)] sl_coreD(9) [OF assms(1), of u] that(2) by auto
  show "currentThread s \<in> active s" by (rule running_active [OF sl_coreD(2) [OF assms(1)] assms(2)])
qed

text \<open>One thread goes to another point.\<close>

lemma finite_comers: "sl_core P s \<Longrightarrow> finite (comers P s)"
  by (rule finite_subset [OF _ sl_coreD(7)]) (auto simp: comers_def intro: coming_inside)

lemma expected_cong: "conds s' listEmpty = conds s listEmpty \<Longrightarrow> expected P s' = expected P s"
  by (simp add: expected_def comers_def)

lemma expected_move:
  assumes "sl_core P s" "t \<notin> sleepers s" "signalling (P t) \<or> signalling p \<Longrightarrow> \<forall>u. u \<noteq> t \<longrightarrow> \<not> owning (P u)"
  shows "expected (P(t := p)) s + of_bool (coming (P t)) + of_bool (signalling (P t)) =
    expected P s + of_bool (coming p) + of_bool (signalling p)"
proof -
  have c: "comers (P(t := p)) s = (if coming p then insert t (comers P s) else comers P s - {t})"
    using assms(2) by (auto simp: comers_def)
  have "t \<in> comers P s \<longleftrightarrow> coming (P t)" using assms(2) by (simp add: comers_def)
  then have n: "card (comers (P(t := p)) s) + of_bool (coming (P t)) = card (comers P s) + of_bool (coming p)"
    using finite_comers [OF assms(1)] card_Suc_Diff1 [of "comers P s" t] unfolding c
    by (auto simp: card_insert_if)
  have so: "signalling q \<Longrightarrow> owning q" for q :: "'a pos" by (cases q) simp_all
  have "(if \<exists>u. signalling ((P(t := p)) u) then 1 else 0) + of_bool (signalling (P t)) =
      (if \<exists>u. signalling (P u) then 1 else 0) + (of_bool (signalling p) :: nat)"
  proof (cases "signalling (P t) \<or> signalling p")
    case True
    then have "u \<noteq> t \<Longrightarrow> \<not> signalling (P u)" for u using assms(3) so by blast
    then have "(\<exists>u. signalling ((P(t := p)) u)) \<longleftrightarrow> signalling p" "(\<exists>u. signalling (P u)) \<longleftrightarrow> signalling (P t)"
      by (metis fun_upd_apply)+
    then show ?thesis by simp
  next
    case False
    then have "(\<exists>u. signalling ((P(t := p)) u)) \<longleftrightarrow> (\<exists>u. signalling (P u))" by auto
    then show ?thesis using False by simp
  qed
  then show ?thesis using n by (simp add: expected_def)
qed

lemma finite_inside: "finite {u. inside (P u)} \<Longrightarrow> finite {u. inside ((P(t := p)) u)}"
  by (rule finite_subset [of _ "insert t {u. inside (P u)}"]) auto

lemma core_move:
  assumes "sl_core P s" "\<not> idling s" "frames s (currentThread s) = []" "inside p = inside (P (currentThread s))"
  shows "sl_core (P(currentThread s := p)) s"
proof -
  note D = sl_coreD [OF assms(1)] and R = running_facts [OF assms(1-3)]
  have "owning p \<Longrightarrow> lock_owner s = Some (currentThread s)" using R(2) assms(4) owning_inside by blast
  then show ?thesis
    using D R(1,4) assms(4) finite_inside [OF D(7), of "currentThread s" p] unfolding sl_core_def
    by (auto split: if_splits)
qed

section \<open>Statements\<close>

lemma list_client_simps [simp]: "list_client [] = []" "list_client (c # cs) = sl_code c @ list_client cs"
  by (simp_all add: list_client_def)

lemma sl_move:
  assumes I: "sl_inv P w" and at: "at_stmt w x k" and p: "inside p = inside (P (wcur w))" "k1 = pos_code p"
    and kn: "knows p g1 l1" and g: "g1 = glob w \<or> inside p"
    and n: "g1 = [] \<or> length g1 + of_bool (coming (P (wcur w))) + of_bool (signalling (P (wcur w))) \<le>
      length (glob w) + of_bool (coming p) + of_bool (signalling p)"
    and sg: "signalling p \<Longrightarrow> inside p"
  shows "sl_inv (P(wcur w := p)) (w\<lparr>glob := g1, locals := (locals w)(wcur w := l1), code := (code w)(wcur w := k1)\<rparr>)"
proof -
  note D = sl_invD [OF I]
  have i: "\<not> idling (wcore w)" "frames (wcore w) (wcur w) = []" using at by (simp_all add: at_stmt_def)
  note R = running_facts [OF D(1) i(1) i(2) [unfolded wcur_def], folded wcur_def]
  have si: "signalling (P (wcur w)) \<Longrightarrow> inside (P (wcur w))" by (cases "P (wcur w)") simp_all
  have "expected (P(wcur w := p)) (wcore w) + of_bool (coming (P (wcur w))) + of_bool (signalling (P (wcur w))) =
      expected P (wcore w) + of_bool (coming p) + of_bool (signalling p)"
    by (rule expected_move [OF D(1) R(1)]) (use R(3) si sg p(1) in blast)
  then have e: "cqueue (conds (wcore w) listEmpty) \<noteq> [] \<Longrightarrow> length g1 \<le> expected (P(wcur w := p)) (wcore w)"
    using D(4) n by auto
  have ks: "knows (P u) g1 (locals w u)" if "u \<noteq> wcur w" for u
    using g D(3) [of u] R(3) [of u] that p(1) knows_alone by blast
  show ?thesis
    using core_move [OF D(1) i(1) i(2) [unfolded wcur_def] p(1) [unfolded wcur_def]] D(2) kn e ks p(2)
    unfolding sl_inv_def by (simp add: wcur_def)
qed

lemma sl_local:
  assumes I: "sl_inv P w" and at: "at_stmt w x k"
    and st: "stmt_step r x k (glob w) (locals w (wcur w)) = Some res"
  shows "\<exists>k1 g1 l1 p. res = Inr (k1, g1, l1) \<and>
    sl_inv (P(wcur w := p)) (w\<lparr>glob := g1, locals := (locals w)(wcur w := l1), code := (code w)(wcur w := k1)\<rparr>) \<and>
    (g1 = glob w \<or> inside (P (wcur w)) \<and>
      ((\<exists>y. x = sl_append y \<and> g1 = q_append y (glob w)) \<or>
       (\<exists>y. x = sl_remove \<and> glob w = y # g1 \<and> item l1 = Some y)))"
proof -
  let ?t = "wcur w"
  have c: "x # k = pos_code (P ?t)" using sl_invD(2) [OF I] at by (simp add: at_stmt_def)
  note mv = sl_move [OF I at]
  show ?thesis
  proof (cases "P ?t")
    case (Outside css cs)
    then show ?thesis using c st
      by (cases css; cases cs; cases "hd cs") (auto simp: new_client_def SynchList_Append_def SynchList_Remove_def
        SynchList_Mapcar_def sl_call_def)
  next
    case (Appending y cs)
    then show ?thesis using c st mv [of "Signalling cs" k "q_append y (glob w)" "locals w ?t"]
      by (intro exI [of _ k] exI [of _ "q_append y (glob w)"] exI [of _ "locals w ?t"] exI [of _ "Signalling cs"])
        (auto simp: sl_append_def q_append_def)
  next
    case (Visiting cs)
    let ?l = "(locals w ?t)\<lparr>visited := visited (locals w ?t) @ glob w\<rparr>"
    show ?thesis using c st mv [of "Leaving cs" k "glob w" ?l] Visiting
      by (intro exI [of _ k] exI [of _ "glob w"] exI [of _ ?l] exI [of _ "Leaving cs"]) (auto simp: sl_visit_def)
  next
    case (Testing cs)
    have res: "res = Inr (if glob w = [] then pos_code (Waiting cs) else pos_code (Removing cs), glob w, locals w ?t)"
      using c st Testing by (auto simp: remove_loop_def remove_iter_def after_loop_def sl_empty_def)
    show ?thesis
    proof (cases "glob w = []")
      case True
      have "sl_inv (P(?t := Waiting cs)) (w\<lparr>glob := glob w, locals := (locals w)(?t := locals w ?t),
          code := (code w)(?t := pos_code (Waiting cs))\<rparr>)"
        by (rule mv) (use Testing True in simp_all)
      then show ?thesis unfolding res using True by auto
    next
      case False
      have "sl_inv (P(?t := Removing cs)) (w\<lparr>glob := glob w, locals := (locals w)(?t := locals w ?t),
          code := (code w)(?t := pos_code (Removing cs))\<rparr>)"
        by (rule mv) (use Testing False in simp_all)
      then show ?thesis unfolding res using False by auto
    qed
  next
    case (Woken cs)
    show ?thesis using c st mv [of "Testing cs" "pos_code (Testing cs)" "glob w" "locals w ?t"] Woken
      by (intro exI [of _ "pos_code (Testing cs)"] exI [of _ "glob w"] exI [of _ "locals w ?t"] exI [of _ "Testing cs"])
        (auto simp: remove_loop_def remove_iter_def)
  next
    case (Removing cs)
    have "glob w \<noteq> []" using sl_invD(3) [OF I, of ?t] Removing by simp
    then obtain y q where q: "glob w = y # q" by (cases "glob w") simp_all
    let ?l = "(locals w ?t)\<lparr>item := Some y\<rparr>"
    show ?thesis using c st mv [of "Checking cs" k q ?l] Removing q
      by (intro exI [of _ k] exI [of _ q] exI [of _ ?l] exI [of _ "Checking cs"]) (auto simp: sl_remove_def)
  next
    case (Checking cs)
    have "item (locals w ?t) \<noteq> None" using sl_invD(3) [OF I, of ?t] Checking by simp
    then show ?thesis using c st mv [of "Returning cs" k "glob w" "locals w ?t"] Checking
      by (intro exI [of _ k] exI [of _ "glob w"] exI [of _ "locals w ?t"] exI [of _ "Returning cs"])
        (auto simp: sl_assert_def)
  next
    case (Result cs)
    let ?l = "(locals w ?t)\<lparr>returned := returned (locals w ?t) @ [item (locals w ?t)]\<rparr>"
    show ?thesis using c st mv [of "Outside [] cs" k "glob w" ?l] Result
      by (intro exI [of _ k] exI [of _ "glob w"] exI [of _ ?l] exI [of _ "Outside [] cs"]) (auto simp: sl_return_def)
  qed (use c st in \<open>auto simp: sl_call_def\<close>)
qed

section \<open>Calls\<close>

text \<open>A thread that sleeps in \<open>Wait\<close> does not get the lock.\<close>

lemma sleeper_facts:
  assumes "sl_core P s" "u \<in> sleepers s"
  shows "\<not> idling s \<Longrightarrow> u \<noteq> currentThread s" "u \<notin> set (lqueue (locks s list_lock))"
proof -
  have K: "kernel_inv s (waitq s)" using sl_coreD(2) [OF assms(1)] by (simp add: sync_inv_def)
  show "\<not> idling s \<Longrightarrow> u \<noteq> currentThread s"
    using kernel_inv_current(2) [OF K, of "QC listEmpty"] assms(2) by auto
  show "u \<notin> set (lqueue (locks s list_lock))"
    using kernel_invD(5) [OF K, of u "QC listEmpty" "QL list_lock"] assms(2) by auto
qed

lemma core_op:
  assumes C: "sl_core P s" and st: "step (Some a) s s'" and a: "lock_op a" "base_ok (\<lambda>_. list_lock) a (holds s (currentThread s))"
    and ob: "objs a \<subseteq> {0}" and p: "inside p \<longleftrightarrow> list_lock \<in> held_after a (holds s (currentThread s))"
    and own: "owning p \<Longrightarrow> \<not> gives_up a list_lock \<and> owning (P (currentThread s))"
    and sl: "\<And>u. u \<in> sleepers s' \<Longrightarrow> u \<in> sleepers s \<or> u = currentThread s \<and> woken p \<and> lock_owner s' \<noteq> Some u"
  shows "sl_core (P(currentThread s := p)) s'"
proof -
  let ?t = "currentThread s"
  note D = sl_coreD [OF C]
  have i: "\<not> idling s" "frames s ?t = []" using st by (auto elim: step_opE)
  note R = running_facts [OF C i]
  have nf: "a \<noteq> DoFork t" for t using a(2) by auto
  have h: "holds s' u = (if u = ?t then held_after a (holds s u) else holds s u)" for u
    using step_op_holds [OF st D(2) call_waits [OF a(2)]] nf by blast
  have hs: "holds s ?t \<subseteq> {list_lock}" using D(8) [of ?t] by simp
  have "held_after a (holds s ?t) \<subseteq> {list_lock}" using hs ob by (cases a) (auto simp: list_lock_def)
  then have ht: "holds s' ?t = (if inside p then {list_lock} else {})" using h [of ?t] p by auto
  have act: "active s' = active s" using op_active [OF st D(2)] call_active [OF a(2)] by simp
  have un: "unchanged {0} s s'" using st ob by (auto elim!: step_opE intro: unchanged_mono [OF exec_unchanged])
  have ok: "lock_owner s' = Some u" if "owning ((P(?t := p)) u)" for u
  proof (cases "u = ?t")
    case True
    then show ?thesis using that own op_owner_kept [OF st D(2,9)] by simp
  next
    case False
    then show ?thesis using that op_owner_kept [OF st D(2,9)] by simp
  qed
  have sl': "woken ((P(?t := p)) u) \<and> lock_owner s' \<noteq> Some u" if u: "u \<in> sleepers s'" for u
  proof (cases "u \<in> sleepers s")
    case True
    then show ?thesis
      using sleeper_facts [OF C True] i(1) op_owner_new [OF st, of u list_lock] D(10) [OF True] by simp
  next
    case False
    then show ?thesis using sl [OF u] by auto
  qed
  have "reach s'" by (rule reach_step [OF D(1) st])
  moreover have "guards_ok (\<lambda>_. list_lock) s'" by (rule op_guards [OF st D(3)]) (use a(2) in blast)
  moreover have "no_sems s'" by (rule op_no_sems [OF st a(1) D(4)])
  moreover have "lqueue (locks s' x) = [] \<and> cqueue (conds s' x) = []" if "x \<noteq> 0" for x
    using un D(5) [OF that] that by (simp add: unchanged_def)
  moreover have "(P(?t := p)) u = Outside [] []" if "u \<notin> active s'" for u
    using that act D(6) R(4) by auto
  ultimately show ?thesis
    using ok sl' ht h D(8) finite_inside [OF D(7), of ?t p] unfolding sl_core_def by auto
qed

text \<open>A step that only moves the processor.\<close>

lemma core_quiet:
  assumes C: "sl_core P s" and st: "step None s s' \<or> step (Some DoYield) s s'"
    and cs: "conds s' = conds s" "active s' = active s" "holds s' = holds s" "no_sems s'"
    and lq: "\<And>x. x \<noteq> 0 \<Longrightarrow> lqueue (locks s' x) = []"
  shows "sl_core P s'"
proof -
  note D = sl_coreD [OF C]
  have r: "reach s'" using reach_step [OF D(1)] st by blast
  have ok: "lock_owner s' = Some u" if "owning (P u)" for u
    using st quiet_owner_kept [OF _ D(2,9)] op_owner_kept [OF _ D(2,9), of DoYield] that by auto
  have sl: "lock_owner s' \<noteq> Some u" if u: "u \<in> sleepers s" for u
  proof -
    note f = sleeper_facts [OF C u]
    from st show ?thesis
    proof
      assume "step None s s'"
      then show ?thesis by (rule quiet_owner_new) (use f D(10) [OF u] in simp_all)
    next
      assume y: "step (Some DoYield) s s'"
      then have "\<not> idling s" by (auto elim: step_opE)
      then show ?thesis using op_owner_new [OF y, of u list_lock] f D(10) [OF u] by simp
    qed
  qed
  show ?thesis
    using r ok sl D cs lq guards_cong [OF cs(1)] unfolding sl_core_def by auto
qed

text \<open>The call of each point, and where it leads.\<close>

fun pos_call :: "'a pos \<Rightarrow> operation option" where
  "pos_call (Outside [] (c # cs)) = Some (DoAcquire list_lock)"
| "pos_call (Signalling cs) = Some (DoSignal listEmpty (Some list_lock))"
| "pos_call (Leaving cs) = Some (DoRelease list_lock)"
| "pos_call (Waiting cs) = Some (DoWait listEmpty (Some list_lock))"
| "pos_call (Returning cs) = Some (DoRelease list_lock)"
| "pos_call _ = None"

fun called :: "'a pos \<Rightarrow> 'a pos" where
  "called (Outside [] (CAppend x # cs)) = Appending x cs"
| "called (Outside [] (CRemove # cs)) = Testing cs"
| "called (Outside [] (CMapcar # cs)) = Visiting cs"
| "called (Signalling cs) = Leaving cs"
| "called (Leaving cs) = Outside [] cs"
| "called (Waiting cs) = Woken cs"
| "called (Returning cs) = Result cs"
| "called p = p"

lemma pos_code_call:
  "Call f # k = pos_code p \<Longrightarrow> \<exists>a. pos_call p = Some a \<and> f = (\<lambda>_ _. Inr a) \<and> k = pos_code (called p)"
proof (cases p)
  case (Outside css cs)
  assume "Call f # k = pos_code p"
  then show ?thesis using Outside
    by (cases css; cases cs; cases "hd cs") (auto simp: new_client_def SynchList_Append_def SynchList_Remove_def
      SynchList_Mapcar_def sl_call_def remove_loop_def after_loop_def)
qed (auto simp: sl_call_def sl_append_def sl_remove_def sl_assert_def sl_return_def sl_visit_def remove_loop_def
  remove_iter_def after_loop_def)

lemma pos_code_spawn:
  "Spawn f # k = pos_code p \<Longrightarrow> \<exists>ds css cs. p = Outside (ds # css) cs \<and> k = pos_code (Outside css cs) \<and>
     f = (\<lambda>_ _. (list_client ds, \<lparr>item = None, returned = [], visited = []\<rparr>))"
proof (cases p)
  case (Outside css cs)
  assume "Spawn f # k = pos_code p"
  then show ?thesis using Outside
    by (cases css; cases cs; cases "hd cs") (auto simp: new_client_def SynchList_Append_def SynchList_Remove_def
      SynchList_Mapcar_def sl_call_def)
qed (auto simp: sl_call_def sl_append_def sl_remove_def sl_assert_def sl_return_def sl_visit_def remove_loop_def
  remove_iter_def after_loop_def)

lemma pos_code_Nil: "pos_code p = [] \<Longrightarrow> p = Outside [] []"
proof (cases p)
  case (Outside css cs)
  assume "pos_code p = []"
  then show ?thesis using Outside
    by (cases css; cases cs; cases "hd cs") (auto simp: SynchList_Append_def SynchList_Remove_def SynchList_Mapcar_def)
qed simp_all

lemma pos_call_facts:
  assumes "pos_call p = Some a" "H = (if inside p then {list_lock} else {})"
  shows "lock_op a" "base_ok (\<lambda>_. list_lock) a H" "strict_ok (\<lambda>_. list_lock) a H" "objs a \<subseteq> {0}"
    "inside (called p) \<longleftrightarrow> list_lock \<in> held_after a H" "owning (called p) \<Longrightarrow> \<not> gives_up a list_lock \<and> owning p"
    "knows (called p) g l"
proof -
  have "lock_op a \<and> base_ok (\<lambda>_. list_lock) a H \<and> strict_ok (\<lambda>_. list_lock) a H \<and> objs a \<subseteq> {0} \<and>
    (inside (called p) \<longleftrightarrow> list_lock \<in> held_after a H) \<and> (owning (called p) \<longrightarrow> \<not> gives_up a list_lock \<and> owning p) \<and>
    knows (called p) g l"
  proof (cases p)
    case (Outside css cs)
    then show ?thesis using assms by (cases css; cases cs; cases "hd cs") (auto simp: list_lock_def)
  qed (use assms in \<open>auto simp: list_lock_def listEmpty_def\<close>)
  then show "lock_op a" "base_ok (\<lambda>_. list_lock) a H" "strict_ok (\<lambda>_. list_lock) a H" "objs a \<subseteq> {0}"
    "inside (called p) \<longleftrightarrow> list_lock \<in> held_after a H" "owning (called p) \<Longrightarrow> \<not> gives_up a list_lock \<and> owning p"
    "knows (called p) g l" by blast+
qed

lemma sl_call_step:
  assumes I: "sl_inv P w" and at: "at_stmt w (Call f) k" and f: "f (glob w) (locals w (wcur w)) = Inr a"
    and st: "step (Some a) (wcore w) s"
  shows "sl_inv (P(wcur w := called (P (wcur w)))) (w\<lparr>wcore := s, code := (code w)(wcur w := k)\<rparr>)"
proof -
  let ?t = "wcur w" and ?s = "wcore w"
  note D = sl_invD [OF I]
  note C = sl_coreD [OF D(1)]
  have i: "\<not> idling ?s" "frames ?s ?t = []" "code w ?t = Call f # k" using at by (simp_all add: at_stmt_def)
  note R = running_facts [OF D(1) i(1) i(2) [unfolded wcur_def], folded wcur_def]
  obtain pc: "pos_call (P ?t) = Some a" and k: "k = pos_code (called (P ?t))"
    using pos_code_call [of f k "P ?t"] D(2) [of ?t] i(3) f by auto
  note F = pos_call_facts [OF pc C(8) [of ?t]]
  have ex: "exec a ?s = Some (Inr s)" using st by (auto elim: step_opE)
  have cq: "if \<exists>cs. P ?t = Waiting cs then cqueue (conds s listEmpty) = cqueue (conds ?s listEmpty) @ [?t]
    else if \<exists>cs. P ?t = Signalling cs then cqueue (conds s listEmpty) = tl (cqueue (conds ?s listEmpty))
    else conds s = conds ?s"
  proof (cases "P ?t")
    case (Waiting cs)
    then have w: "Condition_Wait listEmpty (Some list_lock) ?s = Inr s" using ex pc by auto
    note nr = guards_not_refused(1) [OF C(3), of listEmpty]
    show ?thesis
      using Sleep_locals(3) [OF w [unfolded Wait_cases(2) [OF nr refl]]] Waiting
      by (simp add: Release_same q_append_def wcur_def)
  next
    case (Signalling cs)
    then have sg: "s = Condition_Signal listEmpty (Some list_lock) ?s" using ex pc by auto
    show ?thesis
    proof (cases "signal_refused listEmpty (Some list_lock) ?s")
      case True
      then show ?thesis using sg Signalling guards_not_refused(2) [OF C(3) True] by (simp add: Signal_cases)
    next
      case False
      then obtain u q where q: "cqueue (conds ?s listEmpty) = u # q"
        by (cases "cqueue (conds ?s listEmpty)") (auto simp: signal_refused_def)
      then show ?thesis using sg Signalling by (simp add: Signal_cases(2) [OF False q] ReadyToRun_def)
    qed
  next
    case (Outside css cs)
    then show ?thesis using pc ex by (cases css; cases cs) (auto dest: Acquire_conds)
  qed (use pc ex in \<open>auto simp: Release_same\<close>)
  have wo: "lock_owner s \<noteq> Some ?t" if "P ?t = Waiting cs" for cs
  proof -
    have "Condition_Wait listEmpty (Some list_lock) ?s = Inr s" using ex pc that by auto
    from Wait_owner [OF this, of list_lock] guards_not_refused(1) [OF C(3), of listEmpty] R(2) that
    have "lock_owner s = (case lqueue (locks ?s list_lock) of [] \<Rightarrow> None | u # _ \<Rightarrow> Some u)"
      by (simp add: isHeldByCurrentThread_def wcur_def)
    moreover have "?t \<notin> set (lqueue (locks ?s list_lock))"
      using C(2) kernel_inv_current(2) [OF _ i(1), of "waitq ?s" "QL list_lock"] by (simp add: sync_inv_def wcur_def)
    ultimately show ?thesis by (auto split: list.splits)
  qed
  have core: "sl_core (P(?t := called (P ?t))) s"
    unfolding wcur_def
  proof (rule core_op [OF D(1) st F(1) _ F(4)], fold wcur_def)
    fix u assume "u \<in> sleepers s"
    then show "u \<in> sleepers ?s \<or> u = ?t \<and> woken (called (P ?t)) \<and> lock_owner s \<noteq> Some u"
      using cq wo by (cases "cqueue (conds ?s listEmpty)") (auto split: if_splits)
  qed (use F(2,5,6) in simp_all)
  have n: "length (glob w) \<le> expected (P(?t := called (P ?t))) s" if ne: "cqueue (conds s listEmpty) \<noteq> []"
  proof (cases "P ?t")
    case (Waiting cs)
    then show ?thesis using D(3) [of ?t] by simp
  next
    case (Signalling cs)
    then have tl: "cqueue (conds s listEmpty) = tl (cqueue (conds ?s listEmpty))" using cq by simp
    then obtain u q where q: "cqueue (conds ?s listEmpty) = u # q" "cqueue (conds s listEmpty) = q"
      using ne by (cases "cqueue (conds ?s listEmpty)") auto
    have K: "kernel_inv ?s (waitq ?s)" using C(2) by (simp add: sync_inv_def)
    have u: "u \<notin> set q" "coming (P u)" "u \<noteq> ?t"
      using kernel_invD(4) [OF K, of "QC listEmpty"] C(10) [of u] R(1) q
      by (auto elim!: woken.elims(2))
    have "comers (P(?t := called (P ?t))) s = insert u (comers P ?s)"
      using u q R(1) Signalling by (auto simp: comers_def)
    then have "card (comers (P(?t := called (P ?t))) s) = Suc (card (comers P ?s))"
      using finite_comers [OF D(1)] q by (simp add: comers_def)
    moreover have "length (glob w) \<le> Suc (card (comers P ?s))"
      using D(4) q by (simp add: expected_def split: if_splits)
    ultimately show ?thesis by (simp add: expected_def)
  next
    case (Outside css cs)
    have "expected (P(?t := called (P ?t))) ?s + of_bool (coming (P ?t)) + of_bool (signalling (P ?t)) =
        expected P ?s + of_bool (coming (called (P ?t))) + of_bool (signalling (called (P ?t)))"
      by (rule expected_move [OF D(1) R(1)]) (use Outside pc in \<open>cases css; cases cs; cases "hd cs"; auto\<close>)
    then show ?thesis using D(4) ne cq Outside by (simp add: expected_cong [of s ?s])
  next
    case (Leaving cs)
    then have e: "expected (P(?t := called (P ?t))) ?s = expected P ?s"
      using expected_move [OF D(1) R(1), of "called (P ?t)"] by simp
    show ?thesis using D(4) ne cq Leaving e by (simp add: expected_cong [of s ?s])
  next
    case (Returning cs)
    then have e: "expected (P(?t := called (P ?t))) ?s = expected P ?s"
      using expected_move [OF D(1) R(1), of "called (P ?t)"] by simp
    show ?thesis using D(4) ne cq Returning e by (simp add: expected_cong [of s ?s])
  qed (use pc in simp_all)
  show ?thesis using core D(2,3) F(7) n k unfolding sl_inv_def by simp
qed

section \<open>Every step\<close>

lemma sl_spawn_step:
  assumes I: "sl_inv P w" and at: "at_stmt w (Spawn f) k" and f: "f (glob w) (locals w (wcur w)) = (c, l)"
    and st: "step (Some (DoFork t)) (wcore w) s"
  shows "\<exists>P'. sl_inv P' (w\<lparr>wcore := s, locals := (locals w)(t := l), code := (code w)(wcur w := k, t := c)\<rparr>)"
proof -
  let ?u = "wcur w" and ?s = "wcore w"
  note D = sl_invD [OF I]
  note C = sl_coreD [OF D(1)]
  have i: "\<not> idling ?s" "frames ?s ?u = []" "code w ?u = Spawn f # k" using at by (simp_all add: at_stmt_def)
  note R = running_facts [OF D(1) i(1) i(2) [unfolded wcur_def], folded wcur_def]
  obtain ds css cs where p: "P ?u = Outside (ds # css) cs" "k = pos_code (Outside css cs)" "c = list_client ds"
    using pos_code_spawn [of f k "P ?u"] D(2) [of ?u] i(3) f by auto
  have "t \<notin> threads ?s" using st by (rule step_opE) blast
  then have ta: "t \<notin> active ?s" by (simp add: active_def)
  then have tu: "t \<noteq> ?u" and Pt: "P t = Outside [] []" using R(4) C(6) by auto
  have s: "s = Thread_Fork t (Thread_new t ?s)" using st by (auto elim: step_opE)
  have same: "locks s = locks ?s" "conds s = conds ?s" by (simp_all add: s Thread_Fork_def Thread_new_def ReadyToRun_def)
  have h: "holds s v = holds ?s v" for v using step_op_holds [OF st C(2), of v] C(8) [of t] Pt by auto
  have act: "active s = insert t (active ?s)" using op_active [OF st C(2)] by simp
  let ?P = "P(?u := Outside css cs, t := Outside [] ds)"
  have P: "inside (?P v) = inside (P v)" "owning (?P v) = owning (P v)" "coming (?P v) = coming (P v)"
    "signalling (?P v) = signalling (P v)" "woken (?P v) = woken (P v)" for v
    using p(1) Pt by auto
  have "reach s" "no_sems s" "guards_ok (\<lambda>_. list_lock) s"
    using reach_step [OF C(1) st] op_no_sems [OF st _ C(4)] guards_cong [OF same(2)] C(3) by simp_all
  moreover have "?P v = Outside [] []" if "v \<notin> active s" for v using that act C(6) [of v] R(4) by auto
  ultimately have "sl_core ?P s"
    using C(5,7-10) h unfolding sl_core_def P same by auto
  moreover have "expected ?P s = expected P ?s" unfolding expected_def comers_def P same ..
  moreover have "code (w\<lparr>wcore := s, locals := (locals w)(t := l), code := (code w)(?u := k, t := c)\<rparr>) v = pos_code (?P v)" for v
    using D(2) p tu by auto
  moreover have "knows (?P v) (glob w) (((locals w)(t := l)) v)" for v using D(3) [of v] by auto
  ultimately show ?thesis using D(4) same by (intro exI [of _ ?P]) (simp add: sl_inv_def)
qed

lemma sl_finish_step:
  assumes I: "sl_inv P w" and fr: "frames (wcore w) (wcur w) = []" and c: "code w (wcur w) = []"
    and st: "step (Some DoFinish) (wcore w) s"
  shows "sl_inv P (w\<lparr>wcore := s\<rparr>)"
proof -
  let ?s = "wcore w"
  note D = sl_invD [OF I]
  note C = sl_coreD [OF D(1)]
  have p: "P (wcur w) = Outside [] []" using D(2) c pos_code_Nil by metis
  have f: "Thread_Finish ?s = Inr s" using st by (auto elim: step_opE)
  have same: "locks s = locks ?s" "conds s = conds ?s" using Finish_same [OF f] Finish_conds [OF f] .
  have h: "holds s v = holds ?s v" for v using step_op_holds [OF st C(2), of v] by auto
  have act: "active s = active ?s - {wcur w}" using op_active [OF st C(2)] by (simp add: wcur_def)
  have "reach s" "no_sems s" "guards_ok (\<lambda>_. list_lock) s"
    using reach_step [OF C(1) st] op_no_sems [OF st _ C(4)] guards_cong [OF same(2)] C(3) by simp_all
  moreover have "P v = Outside [] []" if "v \<notin> active s" for v using that act C(6) [of v] p by auto
  ultimately have "sl_core P s" using C(5,7-10) h unfolding sl_core_def same by auto
  then show ?thesis using D(2-4) expected_cong [of s ?s P] same by (simp add: sl_inv_def)
qed

lemma sl_core_step:
  assumes I: "sl_inv P w" and st: "step None (wcore w) s \<or> step (Some DoYield) (wcore w) s"
  shows "sl_inv P (w\<lparr>wcore := s\<rparr>)"
proof -
  let ?s = "wcore w"
  note D = sl_invD [OF I]
  note C = sl_coreD [OF D(1)]
  have act: "active s = active ?s" using st quiet_step_active [OF C(2)] by blast
  have h: "holds s = holds ?s"
    using st step_None_holds [OF _ C(2), of s] step_op_holds [of DoYield ?s s] C(2) by (auto simp: fun_eq_iff split: if_splits)
  have n: "no_sems s" using st quiet_no_sems [OF _ C(4)] op_no_sems [OF _ _ C(4), of DoYield] by auto
  have un: "conds s = conds ?s \<and> unchanged {0} ?s s"
    using st
  proof
    assume "step None ?s s"
    then show ?thesis
    proof (rule step_NoneE)
      assume r: "resume ?s = Inr s"
      have "l \<in> {0}" if "frames ?s (currentThread ?s) = WaitReacquire l # fs" for l fs
        using C(8) [of "currentThread ?s"] that by (auto simp: holds_def list_lock_def split: if_splits)
      then show ?thesis using resume_conds [OF r] resume_unchanged [OF r] by blast
    next
      assume "Sleep_loop ?s = Inr s"
      then show ?thesis using Sleep_loop_locals(2,3) [of ?s s] by (simp add: unchangedI)
    qed (use V_conds V_unchanged in auto)
  next
    assume "step (Some DoYield) ?s s"
    then have "Thread_Yield ?s = Inr s" by (auto elim: step_opE)
    then show ?thesis using Yield_locals(2,3) [of ?s s] by (simp add: unchangedI)
  qed
  have "sl_core P s"
    by (rule core_quiet [OF D(1) st]) (use un act h n C(5) in \<open>auto simp: unchanged_def\<close>)
  then show ?thesis using D(2-4) un expected_cong [of s ?s P] by (simp add: sl_inv_def)
qed

lemma sl_step:
  assumes I: "sl_inv P w" and st: "wstep devs w w'"
  shows "\<exists>P'. sl_inv P' w'"
  using st
proof cases
  case (w_local x k r k1 g1 l1)
  then show ?thesis using sl_local [OF I w_local(2,4)] by auto
next
  case (w_call f k a s)
  then show ?thesis using sl_call_step [OF I w_call(2-4)] by blast
next
  case (w_spawn f k c l t s)
  then show ?thesis using sl_spawn_step [OF I w_spawn(2-4)] by blast
next
  case (w_finish s)
  then show ?thesis using sl_finish_step [OF I w_finish(2-4)] by blast
next
  case (w_core s)
  then show ?thesis using sl_core_step [OF I] by blast
next
  case (w_slice s)
  then show ?thesis using sl_core_step [OF I] by blast
qed

lemma sl_init:
  assumes "sys_init s"
  shows "sl_inv ((\<lambda>_. Outside [] [])(currentThread s := Outside css cs)) (SynchList_new s css cs)"
proof -
  let ?P = "(\<lambda>_. Outside [] [])(currentThread s := Outside css cs)"
  have h: "holds s t = {}" for t using assms by (auto simp: sys_init_def holds_def Lock_new_def)
  have "active s = {currentThread s}" using assms by (auto simp: sys_init_def active_def)
  then have "sl_core ?P s"
    using assms reach_init [OF assms] h
    by (auto simp: sl_core_def sys_init_def guards_ok_def no_sems_def Condition_new_def Lock_new_def)
  then show ?thesis using assms
    by (auto simp: sl_inv_def SynchList_new_def prog_init_def sys_init_def Condition_new_def)
qed

lemma sl_steps: "wsteps devs w w' \<Longrightarrow> sl_inv P w \<Longrightarrow> \<exists>P'. sl_inv P' w'"
  by (induction rule: wsteps.induct) (use sl_step in blast)+

lemma sl_run:
  assumes "sys_init s" "wsteps devs (SynchList_new s css cs) w"
  obtains P where "sl_inv P w"
  using sl_steps [OF assms(2) sl_init [OF assms(1)]] by blast

section \<open>Properties\<close>

text \<open>
  C5 The synchronized list under any number of threads that append, remove and visit, in every
  interleaving: no statement faults, so the assertion that \<open>Remove\<close> got an item holds; no call is
  ignored or refused; and the list changes only by the owner of its lock, at its end by \<open>Append\<close> or
  at its front by \<open>Remove\<close>, which gets that item.
\<close>

theorem synchlist_fifo:
  assumes "sys_init s" "wsteps devs (SynchList_new s css cs) w"
  shows "(\<forall>x k r e. at_stmt w x k \<longrightarrow> stmt_step r x k (glob w) (locals w (wcur w)) \<noteq> Some (Inl e)) \<and>
    (\<forall>f k. at_stmt w (Call f) k \<longrightarrow> (\<exists>a. f (glob w) (locals w (wcur w)) = Inr a \<and> effective a (wcore w))) \<and>
    (\<forall>w'. wstep devs w w' \<longrightarrow> glob w' = glob w \<or>
       isHeldByCurrentThread list_lock (wcore w) \<and>
       ((\<exists>y. hd (code w (wcur w)) = sl_append y \<and> glob w' = glob w @ [y]) \<or>
        (\<exists>y. hd (code w (wcur w)) = sl_remove \<and> glob w = y # glob w' \<and> item (locals w' (wcur w)) = Some y)))"
proof (intro conjI allI impI)
  obtain P where I: "sl_inv P w" using sl_run [OF assms] .
  note D = sl_invD [OF I]
  note C = sl_coreD [OF D(1)]
  show "stmt_step r x k (glob w) (locals w (wcur w)) \<noteq> Some (Inl e)" if "at_stmt w x k" for x k r e
    using sl_local [OF I that] by fastforce
  show "\<exists>a. f (glob w) (locals w (wcur w)) = Inr a \<and> effective a (wcore w)" if at: "at_stmt w (Call f) k" for f k
  proof -
    have i: "frames (wcore w) (wcur w) = []" "code w (wcur w) = Call f # k" using at by (simp_all add: at_stmt_def)
    obtain a where a: "pos_call (P (wcur w)) = Some a" "f (glob w) (locals w (wcur w)) = Inr a"
      using pos_code_call [of f k "P (wcur w)"] D(2) [of "wcur w"] i(2) by auto
    show ?thesis
      using strict_effective [OF C(3) i(1) [unfolded wcur_def]] pos_call_facts(3) [OF a(1) C(8)] a(2)
      by (auto simp: wcur_def)
  qed
  show "glob w' = glob w \<or> isHeldByCurrentThread list_lock (wcore w) \<and>
      ((\<exists>y. hd (code w (wcur w)) = sl_append y \<and> glob w' = glob w @ [y]) \<or>
       (\<exists>y. hd (code w (wcur w)) = sl_remove \<and> glob w = y # glob w' \<and> item (locals w' (wcur w)) = Some y))"
    if "wstep devs w w'" for w'
    using that
  proof cases
    case (w_local x k r k1 g1 l1)
    have i: "\<not> idling (wcore w)" "frames (wcore w) (wcur w) = []" "hd (code w (wcur w)) = x"
      using w_local(2) by (simp_all add: at_stmt_def)
    note R = running_facts [OF D(1) i(1) i(2) [unfolded wcur_def]]
    show ?thesis using sl_local [OF I w_local(2,4)] R(2) i(3) unfolding w_local(1)
      by (auto simp: isHeldByCurrentThread_def wcur_def q_append_def)
  qed simp_all
qed

lemmas sl_run_simps = SynchList_new_def new_client_def list_client_def SynchList_Append_def SynchList_Remove_def
  sl_call_def sl_append_def sl_remove_def sl_assert_def sl_return_def sl_empty_def prog_init_def wgo_def
  core_step_def run_simps bindE_def eval_nat_numeral list_lock_def listEmpty_def

theorem synchlist_fifo_witness:
  "\<exists>w. wsteps {} (SynchList_new sys0 [[CRemove]] [CAppend (7::int)]) w \<and> hd (code w (wcur w)) = sl_append 7 \<and>
     (\<exists>w'. wstep {} w w' \<and> glob w' = [7] \<and> isHeldByCurrentThread list_lock (wcore w))"
proof -
  let ?i = "SynchList_new sys0 [[CRemove]] [CAppend (7::int)]"
  have "\<exists>n w. wrun (replicate 2 (Go 0)) 1 ?i = Some (n, w) \<and> at_stmt w (sl_append 7) (tl (code w 0)) \<and>
      wcur w = 0 \<and> glob w = []"
    by (simp add: sl_run_simps at_stmt_def wcur_def)
  then obtain n w where w: "wrun (replicate 2 (Go 0)) 1 ?i = Some (n, w)" "at_stmt w (sl_append 7) (tl (code w 0))"
      "wcur w = 0" "glob w = []" by blast
  have s: "wsteps {} ?i w" by (rule wrun_steps [OF w(1)]) (simp add: choices_go)
  have st: "stmt_step 0 (sl_append 7) (tl (code w 0)) (glob w) (locals w (wcur w)) =
      Some (Inr (tl (code w 0), [7], locals w (wcur w)))"
    using w(4) by (simp add: sl_append_def bindE_def q_append_def)
  note w' = w_local [OF w(2) _ st, of "{}", simplified]
  have "isHeldByCurrentThread list_lock (wcore w)"
    using synchlist_fifo [OF sys0_init s] w' w(4) by fastforce
  moreover have "hd (code w (wcur w)) = sl_append 7" using w(2) by (simp add: at_stmt_def)
  moreover have "\<exists>w'. wstep {} w w' \<and> glob w' = [7] \<and> isHeldByCurrentThread list_lock (wcore w)"
    using w' calculation(1) by (intro exI conjI) (rule w', simp_all)
  ultimately show ?thesis using s by - (rule exI [of _ w], intro conjI)
qed

text \<open>
  C6 No wake-up is lost: when no thread is running or ready, every thread that has not finished
  sleeps in \<open>Remove\<close>, and then the list is empty.
\<close>

theorem synchlist_no_lost_wakeup:
  assumes "sys_init s" "wsteps devs (SynchList_new s css cs) w" "idling (wcore w)" "readyList (wcore w) = []"
  shows "(\<forall>t \<in> active (wcore w). t \<in> set (cqueue (conds (wcore w) listEmpty))) \<and> (active (wcore w) \<noteq> {} \<longrightarrow> glob w = [])"
proof -
  obtain P where I: "sl_inv P w" using sl_run [OF assms(1,2)] .
  let ?s = "wcore w"
  note D = sl_invD [OF I]
  note C = sl_coreD [OF D(1)]
  have K: "kernel_inv ?s (waitq ?s)" and L: "lock_inv ?s" using C(2) by (simp_all add: sync_inv_def)
  have blocked: "t \<in> sleepers ?s \<or> t \<in> set (lqueue (locks ?s list_lock))" if t: "t \<in> active ?s" for t
  proof -
    have "status ?s t \<noteq> READY" "status ?s t \<noteq> RUNNING"
      using kernel_invD(2,3) [OF K, of t] assms(3,4) by simp_all
    moreover have "status ?s t \<noteq> JUST_CREATED" using reach_started [OF C(1)] t by (simp add: active_def)
    ultimately have "status ?s t = BLOCKED" by (cases "status ?s t") simp_all
    then obtain q where q: "t \<in> set (waitq ?s q)" using kernel_invD(6) [OF K, of t] t by (auto simp: active_def)
    show ?thesis
    proof (cases q)
      case (QL l)
      then show ?thesis using q C(5) [of l] by (cases "l = 0") (auto simp: list_lock_def)
    next
      case (QC c)
      then show ?thesis using q C(5) [of c] by (cases "c = 0") (auto simp: listEmpty_def)
    next
      case (QS m)
      then show ?thesis using q C(4) by (simp add: no_sems_def)
    qed
  qed
  have act: "t \<in> active ?s" if "inside (P t)" for t using C(6) [of t] that by fastforce
  have none: "lock_owner ?s = None"
  proof (rule ccontr)
    assume "lock_owner ?s \<noteq> None"
    then obtain t where t: "lock_owner ?s = Some t" by blast
    then have "list_lock \<in> holds ?s t" by (simp add: holds_def)
    then have "t \<in> active ?s" using C(8) [of t] act by (auto split: if_splits)
    then show False using blocked [of t] C(10) [of t] lock_invD(3) [OF L t] t by blast
  qed
  have "lqueue (locks ?s list_lock) = []" using lock_invD(1,2) [OF L, of list_lock] none by simp
  then have all: "t \<in> sleepers ?s" if "t \<in> active ?s" for t using blocked [OF that] by simp
  have "glob w = []" if "active ?s \<noteq> {}"
  proof -
    have "cqueue (conds ?s listEmpty) \<noteq> []" using that all by fastforce
    moreover have "comers P ?s = {}" using all act coming_inside by (auto simp: comers_def)
    moreover have "\<not> signalling (P t)" for t using C(9) [of t] none by (cases "P t") auto
    ultimately show ?thesis using D(4) by (simp add: expected_def)
  qed
  then show ?thesis using all by blast
qed

theorem synchlist_no_lost_wakeup_witness:
  "\<exists>w. wsteps {} (SynchList_new sys0 [[CAppend (7::int)]] [CRemove, CRemove]) w \<and> idling (wcore w) \<and>
     readyList (wcore w) = [] \<and> returned (locals w 0) = [Some 7] \<and> 0 \<in> active (wcore w) \<and> glob w = []"
proof -
  let ?i = "SynchList_new sys0 [[CAppend (7::int)]] [CRemove, CRemove]"
  have "\<exists>n w. wrun (replicate 21 (Go 0)) 1 ?i = Some (n, w) \<and> idling (wcore w) \<and> readyList (wcore w) = [] \<and>
      returned (locals w 0) = [Some 7] \<and> 0 \<in> active (wcore w)"
    by (simp add: sl_run_simps active_def)
  then obtain n w where w: "wrun (replicate 21 (Go 0)) 1 ?i = Some (n, w)" "idling (wcore w)" "readyList (wcore w) = []"
      "returned (locals w 0) = [Some 7]" "0 \<in> active (wcore w)" by blast
  have s: "wsteps {} ?i w" by (rule wrun_steps [OF w(1)]) (simp add: choices_go)
  have "glob w = []" using synchlist_no_lost_wakeup [OF sys0_init s w(2,3)] w(5) by blast
  then show ?thesis using s w by blast
qed

end
