(* ===== verification/Nachos_Coff.thy ===== *)
theory Nachos_Coff
  imports Nachos_PageFault Nachos_Syscalls
begin

text \<open>
  The tool that makes executables (bin/coff2noff.c): it copies the sections of an object file in COFF
  format behind a \<open>NoffHeader\<close>.  Together with \<open>AddrSpace_new\<close> and the page faults this is the way of
  a program from the compiler into the memory of its process.  On the little-endian host \<open>WordToHost\<close>
  and \<open>ShortToHost\<close> are the identity; a \<open>long\<close> of coff.h has 32 bits.
\<close>

section \<open>The object file\<close>

datatype coff_error = FileTooShort | NotMipsel | NotOmagic | DataAndRdata | BssAndSbss | UnknownSegment

definition bindC :: "coff_error + 'a \<Rightarrow> ('a \<Rightarrow> coff_error + 'b) \<Rightarrow> coff_error + 'b" where
  "bindC r f = (case r of Inl e \<Rightarrow> Inl e | Inr x \<Rightarrow> f x)"

lemma bindC_simps [simp]: "bindC (Inl e) f = Inl e" "bindC (Inr x) f = f x"
  by (simp_all add: bindC_def)

lemma bindC_eq_Inr: "bindC r f = Inr y \<longleftrightarrow> (\<exists>x. r = Inr x \<and> f x = Inr y)"
  by (cases r) simp_all

definition MIPSELMAGIC :: "32 word" where "MIPSELMAGIC = 0x0162"
definition OMAGIC :: "32 word" where "OMAGIC = 263"

record scnhdr =
  s_name :: "byte list"
  s_paddr :: "32 word"
  s_size :: "32 word"
  s_scnptr :: "32 word"

text \<open>The file header has 20 bytes, the system header 56, the header of a section 40.\<close>

definition short_at :: "byte list \<Rightarrow> nat \<Rightarrow> 32 word" where
  "short_at f k = word_of_bytes (ReadAt f 2 k)"

definition long_at :: "byte list \<Rightarrow> nat \<Rightarrow> 32 word" where
  "long_at f k = word_of_bytes (ReadAt f 4 k)"

definition section_header :: "byte list \<Rightarrow> scnhdr" where
  "section_header f = \<lparr>s_name = ReadAt f 8 0, s_paddr = long_at f 8, s_size = long_at f 16, s_scnptr = long_at f 20\<rparr>"

text \<open>
  \<open>read\<close> of Unix gives the bytes that are there; a count that is negative as a signed number is an
  error, -1, which the test of \<open>Read\<close> takes for success when -1 bytes were asked for.
\<close>

definition coff_Read :: "byte list \<Rightarrow> nat \<Rightarrow> int \<Rightarrow> coff_error + byte list \<times> nat" where
  "coff_Read f pos n =
     (let bs = (if n < 0 then [] else ReadAt f (nat n) pos); r = (if n < 0 then -1 else int (length bs)) in
      if r \<noteq> n then Inl FileTooShort else Inr (bs, pos + length bs))"

text \<open>\<open>lseek\<close> to a negative offset fails and leaves the position.\<close>

definition coff_lseek :: "nat \<Rightarrow> 32 word \<Rightarrow> nat" where
  "coff_lseek pos off = (if sint off < 0 then pos else nat (sint off))"

section \<open>The conversion\<close>

text \<open>The header so far, the position in the object file, and what was written behind the header.\<close>

record conv =
  noffH :: NoffHeader
  inNoffFile :: "32 word"
  fdIn :: nat
  written :: "byte list"

definition copy_section :: "byte list \<Rightarrow> scnhdr \<Rightarrow> conv \<Rightarrow> coff_error + conv" where
  "copy_section f sec c =
     bindC (coff_Read f (coff_lseek (fdIn c) (s_scnptr sec)) (sint (s_size sec))) (\<lambda>(bs, pos).
     Inr (c\<lparr>fdIn := pos, written := written c @ bs, inNoffFile := inNoffFile c + s_size sec\<rparr>))"

definition seg_of :: "scnhdr \<Rightarrow> conv \<Rightarrow> Segment" where
  "seg_of sec c = \<lparr>virtualAddr = s_paddr sec, inFileAddr = inNoffFile c, segSize = s_size sec\<rparr>"

definition convert_section :: "byte list \<Rightarrow> conv \<Rightarrow> scnhdr \<Rightarrow> coff_error + conv" where
  "convert_section f c sec =
     (let name = cstring (s_name sec); h = noffH c in
      if s_size sec = 0 then Inr c
      else if name = ''.text'' then
        copy_section f sec (c\<lparr>noffH := h\<lparr>noffCode := seg_of sec c\<rparr>\<rparr>)
      else if name = ''.data'' \<or> name = ''.rdata'' then
        if segSize (initData h) \<noteq> 0 then Inl DataAndRdata
        else copy_section f sec (c\<lparr>noffH := h\<lparr>initData := seg_of sec c\<rparr>\<rparr>)
      else if name = ''.bss'' \<or> name = ''.sbss'' then
        if segSize (uninitData h) \<noteq> 0 then
          if s_paddr sec = virtualAddr (uninitData h) + segSize (uninitData h) then Inl BssAndSbss
          else Inr (c\<lparr>noffH := h\<lparr>uninitData := (uninitData h)\<lparr>segSize := segSize (uninitData h) + s_size sec\<rparr>\<rparr>\<rparr>)
        else Inr (c\<lparr>noffH := h\<lparr>uninitData := (uninitData h)\<lparr>virtualAddr := s_paddr sec, segSize := s_size sec\<rparr>\<rparr>\<rparr>)
      else Inl UnknownSegment)"

fun convert_sections :: "byte list \<Rightarrow> conv \<Rightarrow> scnhdr list \<Rightarrow> coff_error + conv" where
  "convert_sections f c [] = Inr c"
| "convert_sections f c (sec # secs) = bindC (convert_section f c sec) (\<lambda>c. convert_sections f c secs)"

definition segment_bytes :: "Segment \<Rightarrow> byte list" where
  "segment_bytes g = bytes_of_word 4 (virtualAddr g) @ bytes_of_word 4 (inFileAddr g) @ bytes_of_word 4 (segSize g)"

definition noff_header_bytes :: "NoffHeader \<Rightarrow> byte list" where
  "noff_header_bytes h = bytes_of_word 4 (noffMagic h) @ segment_bytes (noffCode h) @ segment_bytes (initData h) @
     segment_bytes (uninitData h)"

definition coff_sections :: "byte list \<Rightarrow> coff_error + scnhdr list \<times> nat" where
  "coff_sections f =
     bindC (coff_Read f 0 20) (\<lambda>(fileh, pos).
     if short_at fileh 0 \<noteq> MIPSELMAGIC then Inl NotMipsel
     else bindC (coff_Read f pos 56) (\<lambda>(systemh, pos).
     if short_at systemh 0 \<noteq> OMAGIC then Inl NotOmagic
     else let n = unat (short_at fileh 2) in
     bindC (coff_Read f pos (int (40 * n))) (\<lambda>(sections, pos).
     Inr (map (\<lambda>i. section_header (drop (40 * i) sections)) [0..<n], pos))))"

text \<open>\<open>junk\<close> is the header before its fields are set; a file that is refused is removed.\<close>

definition conv_start :: "NoffHeader \<Rightarrow> nat \<Rightarrow> conv" where
  "conv_start junk pos =
     \<lparr>noffH = \<lparr>noffMagic = NOFFMAGIC, noffCode = (noffCode junk)\<lparr>segSize := 0\<rparr>,
        initData = (initData junk)\<lparr>segSize := 0\<rparr>, uninitData = (uninitData junk)\<lparr>segSize := 0\<rparr>\<rparr>,
      inNoffFile = 40, fdIn = pos, written = []\<rparr>"

definition coff2noff :: "NoffHeader \<Rightarrow> byte list \<Rightarrow> coff_error + byte list" where
  "coff2noff junk f =
     bindC (coff_sections f) (\<lambda>(secs, pos).
     bindC (convert_sections f (conv_start junk pos) secs) (\<lambda>c.
     Inr (noff_header_bytes (noffH c) @ written c)))"

section \<open>Reading the header back\<close>

lemma noff_header_length [simp]: "length (noff_header_bytes h) = 40"
  by (simp add: noff_header_bytes_def segment_bytes_def)

lemma header_word:
  assumes "k < 10"
  shows "file_word (noff_header_bytes h @ rest) k =
    [noffMagic h, virtualAddr (noffCode h), inFileAddr (noffCode h), segSize (noffCode h),
     virtualAddr (initData h), inFileAddr (initData h), segSize (initData h),
     virtualAddr (uninitData h), inFileAddr (uninitData h), segSize (uninitData h)] ! k"
proof -
  consider "k = 0" | "k = 1" | "k = 2" | "k = 3" | "k = 4" | "k = 5" | "k = 6" | "k = 7" | "k = 8" | "k = 9"
    using assms by (auto simp: eval_nat_numeral less_Suc_eq)
  then show ?thesis
    by cases (simp_all add: file_word_def ReadAt_def noff_header_bytes_def segment_bytes_def read_written_4)
qed

lemma read_header_bytes: "read_header (noff_header_bytes h @ rest) = Inr h"
  by (cases h; cases "noffCode h"; cases "initData h"; cases "uninitData h")
    (simp add: read_header_def file_segment_def header_word)

section \<open>What is copied\<close>

definition is_text :: "scnhdr \<Rightarrow> bool" where
  "is_text sec \<longleftrightarrow> cstring (s_name sec) = ''.text''"

definition is_data :: "scnhdr \<Rightarrow> bool" where
  "is_data sec \<longleftrightarrow> cstring (s_name sec) = ''.data'' \<or> cstring (s_name sec) = ''.rdata''"

definition is_bss :: "scnhdr \<Rightarrow> bool" where
  "is_bss sec \<longleftrightarrow> cstring (s_name sec) = ''.bss'' \<or> cstring (s_name sec) = ''.sbss''"

definition copied :: "scnhdr list \<Rightarrow> scnhdr list" where
  "copied secs = filter (\<lambda>sec. s_size sec \<noteq> 0 \<and> (is_text sec \<or> is_data sec)) secs"

definition section_bytes :: "byte list \<Rightarrow> scnhdr \<Rightarrow> byte list" where
  "section_bytes f sec = ReadAt f (unat (s_size sec)) (unat (s_scnptr sec))"

text \<open>Sizes and offsets are positive as signed numbers.\<close>

definition plain :: "scnhdr \<Rightarrow> bool" where
  "plain sec \<longleftrightarrow> unat (s_size sec) < 2 ^ 31 \<and> unat (s_scnptr sec) < 2 ^ 31"

lemma sint_small: "unat (x :: 32 word) < 2 ^ 31 \<Longrightarrow> sint x = uint x"
proof -
  assume "unat x < 2 ^ 31"
  then have "uint x < 2 ^ 31" by (simp flip: nat_uint_eq)
  moreover have "- (2 ^ 31) \<le> uint x" using unsigned_greater_eq [of x] by (rule order_trans [rotated]) simp
  ultimately have "signed_take_bit 31 (uint x) = uint x" by (simp only: signed_take_bit_int_eq_self)
  then show ?thesis by (simp add: sint_uint)
qed

lemma int_uint: "int n = uint (x :: 32 word) \<Longrightarrow> n = unat x"
  by (metis nat_int nat_uint_eq)

lemma copy_section_ok:
  assumes "copy_section f sec c = Inr c'" "plain sec"
  shows "written c' = written c @ section_bytes f sec" "noffH c' = noffH c" "length (section_bytes f sec) = unat (s_size sec)"
    "inNoffFile c' = inNoffFile c + s_size sec"
  using assms by (auto simp: copy_section_def bindC_eq_Inr coff_Read_def coff_lseek_def plain_def sint_small section_bytes_def
    Let_def int_uint split: if_splits)

lemma convert_section_ok:
  assumes "convert_section f c sec = Inr c'" "plain sec"
  shows "s_size sec = 0 \<Longrightarrow> c' = c"
    "s_size sec \<noteq> 0 \<Longrightarrow> is_text sec \<Longrightarrow> written c' = written c @ section_bytes f sec \<and>
       length (section_bytes f sec) = unat (s_size sec) \<and> segSize (noffCode (noffH c')) = s_size sec \<and>
       inFileAddr (noffCode (noffH c')) = inNoffFile c \<and> initData (noffH c') = initData (noffH c) \<and>
       uninitData (noffH c') = uninitData (noffH c) \<and> noffMagic (noffH c') = noffMagic (noffH c)"
    "s_size sec \<noteq> 0 \<Longrightarrow> is_data sec \<Longrightarrow> written c' = written c @ section_bytes f sec \<and>
       length (section_bytes f sec) = unat (s_size sec) \<and> segSize (initData (noffH c)) = 0 \<and>
       segSize (initData (noffH c')) = s_size sec \<and> noffCode (noffH c') = noffCode (noffH c) \<and>
       uninitData (noffH c') = uninitData (noffH c) \<and> noffMagic (noffH c') = noffMagic (noffH c)"
    "s_size sec \<noteq> 0 \<Longrightarrow> \<not> is_text sec \<Longrightarrow> \<not> is_data sec \<Longrightarrow> is_bss sec \<and> written c' = written c \<and>
       segSize (uninitData (noffH c')) = segSize (uninitData (noffH c)) + s_size sec \<and>
       noffCode (noffH c') = noffCode (noffH c) \<and> initData (noffH c') = initData (noffH c) \<and>
       noffMagic (noffH c') = noffMagic (noffH c)"
proof -
  note r = assms(1) [unfolded convert_section_def Let_def] and C = copy_section_ok [OF _ assms(2)]
  show "s_size sec = 0 \<Longrightarrow> c' = c" using r by simp
  {
    assume a: "s_size sec \<noteq> 0" "is_text sec"
    then have "copy_section f sec (c\<lparr>noffH := (noffH c)\<lparr>noffCode := seg_of sec c\<rparr>\<rparr>) = Inr c'"
      using r by (simp add: is_text_def)
    from C [OF this] show "written c' = written c @ section_bytes f sec \<and>
       length (section_bytes f sec) = unat (s_size sec) \<and> segSize (noffCode (noffH c')) = s_size sec \<and>
       inFileAddr (noffCode (noffH c')) = inNoffFile c \<and> initData (noffH c') = initData (noffH c) \<and>
       uninitData (noffH c') = uninitData (noffH c) \<and> noffMagic (noffH c') = noffMagic (noffH c)"
      by (simp add: seg_of_def)
  next
    assume a: "s_size sec \<noteq> 0" "is_data sec"
    then have "segSize (initData (noffH c)) = 0"
      "copy_section f sec (c\<lparr>noffH := (noffH c)\<lparr>initData := seg_of sec c\<rparr>\<rparr>) = Inr c'"
      using r by (auto simp: is_data_def split: if_splits)
    with C [OF this(2)] show "written c' = written c @ section_bytes f sec \<and>
       length (section_bytes f sec) = unat (s_size sec) \<and> segSize (initData (noffH c)) = 0 \<and>
       segSize (initData (noffH c')) = s_size sec \<and> noffCode (noffH c') = noffCode (noffH c) \<and>
       uninitData (noffH c') = uninitData (noffH c) \<and> noffMagic (noffH c') = noffMagic (noffH c)"
      by (simp add: seg_of_def)
  next
    assume a: "s_size sec \<noteq> 0" "\<not> is_text sec" "\<not> is_data sec"
    let ?h = "noffH c"
    have b: "is_bss sec" using r a by (auto simp: is_text_def is_data_def is_bss_def split: if_splits)
    have "c' = c\<lparr>noffH := ?h\<lparr>uninitData := (uninitData ?h)\<lparr>segSize := segSize (uninitData ?h) + s_size sec\<rparr>\<rparr>\<rparr> \<or>
        segSize (uninitData ?h) = 0 \<and>
        c' = c\<lparr>noffH := ?h\<lparr>uninitData := (uninitData ?h)\<lparr>virtualAddr := s_paddr sec, segSize := s_size sec\<rparr>\<rparr>\<rparr>"
      using r a b by (simp add: is_text_def is_data_def is_bss_def split: if_splits)
    then show "is_bss sec \<and> written c' = written c \<and>
       segSize (uninitData (noffH c')) = segSize (uninitData (noffH c)) + s_size sec \<and>
       noffCode (noffH c') = noffCode (noffH c) \<and> initData (noffH c') = initData (noffH c) \<and>
       noffMagic (noffH c') = noffMagic (noffH c)" using b by (elim disjE conjE) simp_all
  }
qed

lemma copied_simps [simp]:
  "copied [] = []"
  "copied (sec # secs) = (if s_size sec \<noteq> 0 \<and> (is_text sec \<or> is_data sec) then sec # copied secs else copied secs)"
  by (simp_all add: copied_def)

lemma text_not_data: "is_text sec \<Longrightarrow> \<not> is_data sec"
  by (simp add: is_text_def is_data_def)

text \<open>All sizes together; text comes at most once.\<close>

definition sizes :: "NoffHeader \<Rightarrow> 32 word" where
  "sizes h = segSize (noffCode h) + segSize (initData h) + segSize (uninitData h)"

lemma convert_sections_ok:
  assumes "convert_sections f c secs = Inr c'" "list_all plain secs"
  shows "written c' = written c @ concat (map (section_bytes f) (copied secs)) \<and>
    (\<forall>x \<in> set (copied secs). length (section_bytes f x) = unat (s_size x)) \<and>
    noffMagic (noffH c') = noffMagic (noffH c) \<and>
    (length (filter is_text (copied secs)) + of_bool (segSize (noffCode (noffH c)) \<noteq> 0) \<le> 1 \<longrightarrow>
      sizes (noffH c') = sizes (noffH c) + sum_list (map s_size secs))"
  using assms
proof (induction secs arbitrary: c)
  case (Cons sec secs)
  obtain c1 where c1: "convert_section f c sec = Inr c1" "convert_sections f c1 secs = Inr c'"
    using Cons.prems(1) by (auto simp: bindC_eq_Inr)
  have pl: "plain sec" "list_all plain secs" using Cons.prems(2) by simp_all
  note S = convert_section_ok [OF c1(1) pl(1)] and I = Cons.IH [OF c1(2) pl(2)]
  consider "s_size sec = 0" | "s_size sec \<noteq> 0" "is_text sec" | "s_size sec \<noteq> 0" "is_data sec" "\<not> is_text sec"
    | "s_size sec \<noteq> 0" "\<not> is_text sec" "\<not> is_data sec" by blast
  then show ?case
  proof cases
    case 1
    then show ?thesis using I S(1) by simp
  next
    case 2
    then show ?thesis using I S(2) text_not_data by (auto simp: sizes_def algebra_simps)
  next
    case 3
    then show ?thesis using I S(3) by (auto simp: sizes_def algebra_simps)
  next
    case 4
    then show ?thesis using I S(4) by (auto simp: sizes_def algebra_simps)
  qed
qed simp

section \<open>The program in memory\<close>

definition total_size :: "scnhdr list \<Rightarrow> nat" where
  "total_size secs = sum_list (map (\<lambda>x. unat (s_size x)) secs)"

lemma total_size_simps [simp]:
  "total_size [] = 0" "total_size (x # xs) = unat (s_size x) + total_size xs" "total_size (xs @ ys) = total_size xs + total_size ys"
  by (simp_all add: total_size_def)

lemma copied_size: "total_size (copied secs) \<le> total_size secs"
  by (induction secs) auto

lemma unat_total: "total_size secs < 2 ^ 32 \<Longrightarrow> unat (sum_list (map s_size secs)) = total_size secs"
proof (induction secs)
  case (Cons x secs)
  then have "unat (s_size x) + unat (sum_list (map s_size secs)) < 2 ^ LENGTH(32)" by simp
  from unat_add_lem [THEN iffD1, OF this] show ?case using Cons by simp
qed simp

lemma written_size:
  "\<forall>x \<in> set cs. length (section_bytes f x) = unat (s_size x) \<Longrightarrow>
   length (concat (map (section_bytes f) cs)) = total_size cs"
  by (induction cs) simp_all

lemma section_bytes_nth:
  assumes "length (section_bytes f x) = unat (s_size x)" "j < unat (s_size x)"
  shows "section_bytes f x ! j = f ! (unat (s_scnptr x) + j)"
  using assms by (simp add: section_bytes_def ReadAt_def)

lemma written_nth:
  assumes "\<forall>x \<in> set cs. length (section_bytes f x) = unat (s_size x)" "cs = xs @ x # ys" "j < unat (s_size x)"
  shows "concat (map (section_bytes f) cs) ! (total_size xs + j) = f ! (unat (s_scnptr x) + j)"
  using assms written_size [of xs f] section_bytes_nth [of f x j] by (simp add: nth_append)

text \<open>
  C21 The way of a program into memory: when \<open>coff2noff\<close> accepts an object file whose first section
  with contents is its text, a process made from the result has, before it runs, the sections one
  behind the other from address 0: byte \<open>j\<close> of a section is in the page of the sum of the sizes of the
  sections before it and \<open>j\<close>, and that page is in the page table.  So a section is where the linker
  placed it exactly if it was placed directly behind the sections before it.  The pages behind have
  no contents: the uninitialised data is not cleared.
\<close>

theorem program_loads:
  assumes "coff_sections f = Inr (secs, pos)" "coff2noff junk f = Inr noff" "list_all plain secs"
    "copied secs = t # ds" "is_text t" "list_all is_data ds" "total_size secs < 2 ^ 32"
    "executables s p = noff" "\<forall>v. pageLocation s p v = 0 \<and> frame_of s p v = None"
  shows "\<exists>pt. AddrSpace_new g noff = Inr pt \<and>
    (\<forall>xs x ys j. t # ds = xs @ x # ys \<and> j < unat (s_size x) \<longrightarrow>
      (let a = total_size xs + j; b = page_bytes s p (int (a div 128)) in
       a div 128 < length pt \<and> a mod 128 < length b \<and> b ! (a mod 128) = f ! (unat (s_scnptr x) + j))) \<and>
    (\<forall>v. int (total_size (t # ds)) \<le> v * 128 \<longrightarrow> page_bytes s p v = [])"
proof -
  obtain c where c: "convert_sections f (conv_start junk pos) secs = Inr c" "noff = noff_header_bytes (noffH c) @ written c"
    using assms(1,2) by (auto simp: coff2noff_def bindC_eq_Inr)
  have one: "length (filter is_text (copied secs)) \<le> 1"
  proof -
    have "filter is_text ds = []" using assms(6) text_not_data by (auto simp: filter_empty_conv list_all_iff)
    then show ?thesis using assms(4) by simp
  qed
  note K = convert_sections_ok [OF c(1) assms(3)]
  let ?W = "concat (map (section_bytes f) (copied secs))" and ?h = "noffH c"
  have W: "written c = ?W" "\<forall>x \<in> set (copied secs). length (section_bytes f x) = unat (s_size x)"
    "noffMagic ?h = NOFFMAGIC" "sizes ?h = sum_list (map s_size secs)"
    using K one by (simp_all add: conv_start_def sizes_def)
  have len: "length ?W = total_size (t # ds)" using written_size [OF W(2)] assms(4) by simp
  have sz: "uint (sizes ?h) = int (total_size secs)"
    using unat_total [OF assms(7)] W(4) by (metis uint_nat)
  let ?n = "nat (divRoundUp (uint (sizes ?h)) 128 + 8)"
  obtain pt where pt: "AddrSpace_new g noff = Inr pt" "length pt = ?n"
    using W(3) unfolding c(2) AddrSpace_new_def read_header_bytes
    by (simp add: assertE_def UserStackSize_def divRoundUp_def sizes_def Let_def)
  have pb: "page_bytes s p v = take 128 (drop (nat v * 128) ?W)" if "0 \<le> v" for v
  proof -
    have "nat (40 + v * 128) = 40 + nat v * 128" using that by (simp add: nat_add_distrib nat_mult_distrib)
    then show ?thesis
      using assms(8,9) unfolding c(2) W(1)
      by (simp add: page_bytes_def backing_def ReadAt_def PageSize_def drop_append)
  qed
  have "a div 128 < length pt \<and> a mod 128 < length (page_bytes s p (int (a div 128))) \<and>
      page_bytes s p (int (a div 128)) ! (a mod 128) = f ! (unat (s_scnptr x) + j)"
    if "t # ds = xs @ x # ys" "j < unat (s_size x)" "a = total_size xs + j" for xs x ys j a
  proof -
    have nth: "?W ! a = f ! (unat (s_scnptr x) + j)" using written_nth [OF W(2)] assms(4) that by simp
    have al: "a < length ?W" using that len by simp
    then have "a < total_size secs" using copied_size [of secs] len assms(4) by simp
    then have "a div 128 < ?n" unfolding sz divRoundUp_def by (simp add: zdiv_int nat_add_distrib)
    moreover have "a mod 128 < length ?W - a div 128 * 128" using al div_mult_mod_eq [of a 128] by linarith
    ultimately show ?thesis using pt(2) pb [of "int (a div 128)"] al nth by simp
  qed
  moreover have "page_bytes s p v = []" if "int (total_size (t # ds)) \<le> v * 128" for v
  proof -
    have "0 \<le> v" "total_size (t # ds) \<le> nat v * 128" using that by linarith+
    then show ?thesis using pb len by simp
  qed
  ultimately show ?thesis using pt(1) by (simp add: Let_def)
qed

text \<open>An object file with four bytes of text at address 0 and four of data at address 4.\<close>

definition example_section :: "byte list \<Rightarrow> 32 word \<Rightarrow> 32 word \<Rightarrow> byte list" where
  "example_section nm a off = nm @ bytes_of_word 4 a @ bytes_of_word 4 0 @ bytes_of_word 4 4 @ bytes_of_word 4 off @
     replicate 16 0"

definition example_coff :: "byte list" where
  "example_coff = bytes_of_word 4 0x20162 @ replicate 16 0 @ bytes_of_word 4 263 @ replicate 52 0 @
     example_section [46, 116, 101, 120, 116, 0, 0, 0] 0 156 @ example_section [46, 100, 97, 116, 97, 0, 0, 0] 4 160 @
     [1, 2, 3, 4] @ [5, 6, 7, 8]"

definition example_text :: scnhdr where
  "example_text = \<lparr>s_name = [46, 116, 101, 120, 116, 0, 0, 0], s_paddr = 0, s_size = 4, s_scnptr = 156\<rparr>"

definition example_data :: scnhdr where
  "example_data = \<lparr>s_name = [46, 100, 97, 116, 97, 0, 0, 0], s_paddr = 4, s_size = 4, s_scnptr = 160\<rparr>"

definition example_junk :: NoffHeader where
  "example_junk = \<lparr>noffMagic = 0, noffCode = \<lparr>virtualAddr = 0, inFileAddr = 0, segSize = 0\<rparr>,
    initData = \<lparr>virtualAddr = 0, inFileAddr = 0, segSize = 0\<rparr>,
    uninitData = \<lparr>virtualAddr = 0, inFileAddr = 0, segSize = 0\<rparr>\<rparr>"

lemma example_coff_sections: "coff_sections example_coff = Inr ([example_text, example_data], 156)"
  by code_simp

lemma example_coff_accepted: "\<exists>noff. coff2noff example_junk example_coff = Inr noff"
proof -
  have "\<not> isl (coff2noff example_junk example_coff)" by code_simp
  then show ?thesis by (cases "coff2noff example_junk example_coff") simp_all
qed

lemma example_copied: "copied [example_text, example_data] = [example_text, example_data]" "is_text example_text" "is_data example_data"
  by code_simp+

theorem program_loads_witness:
  "\<exists>noff pt. coff2noff example_junk example_coff = Inr noff \<and> AddrSpace_new (\<lambda>_. 0) noff = Inr pt \<and>
     page_bytes (example_vm [] False\<lparr>executables := \<lambda>_. noff\<rparr>) 3 0 ! 5 = 6"
proof -
  obtain noff where n: "coff2noff example_junk example_coff = Inr noff" using example_coff_accepted by blast
  let ?s = "example_vm [] False\<lparr>executables := \<lambda>_. noff\<rparr>"
  have fr: "\<forall>v. pageLocation ?s 3 v = 0 \<and> frame_of ?s 3 v = None"
    by (simp add: example_vm_def frame_of_def first_from_None NumPhysPages_def)
  have ok: "list_all plain [example_text, example_data]" "total_size [example_text, example_data] < 2 ^ 32"
    by (simp_all add: plain_def example_text_def example_data_def)
  obtain pt where pt: "AddrSpace_new (\<lambda>_. 0) noff = Inr pt" and
    at: "\<forall>xs x ys j. [example_text, example_data] = xs @ x # ys \<and> j < unat (s_size x) \<longrightarrow>
      (let a = total_size xs + j; b = page_bytes ?s 3 (int (a div 128)) in
       a div 128 < length pt \<and> a mod 128 < length b \<and> b ! (a mod 128) = example_coff ! (unat (s_scnptr x) + j))"
    using program_loads [OF example_coff_sections n ok(1) example_copied(1,2) _ ok(2) _ fr, of "\<lambda>_. 0"] example_copied(3)
    by auto
  have "page_bytes ?s 3 0 ! 5 = example_coff ! 161"
    using at [rule_format, of "[example_text]" example_data "[]" 1] by (simp add: example_text_def example_data_def Let_def)
  moreover have "example_coff ! 161 = 6" by code_simp
  ultimately show ?thesis using n pt by auto
qed

end
