(* ===== verification/Nachos_Boot.thy ===== *)
theory Nachos_Boot
  imports Nachos_FileSysThms Nachos_PageFault Nachos_Mips Nachos_Synch Nachos_Post
begin

text \<open>
  Starting the system: the command line and the creation of the global objects (\<open>Initialize\<close> of
  threads/system.cc) and the commands of \<open>main\<close> (threads/main.cc), for the builds of a kernel with
  user programs.  Which of them start at all, and the state they start in.
\<close>

section \<open>Builds and options\<close>

text \<open>
  The symbols a build defines; \<open>USER_PROGRAM\<close> and \<open>FILESYS_NEEDED\<close> are defined in every one that
  compiles, as \<open>Initialize\<close> uses the machine and the file system without a condition.
\<close>

record build =
  USE_TLB :: bool
  FILESYS :: bool
  NETWORK :: bool

text \<open>The C library: a number in decimal behind white space and a sign.\<close>

fun digit_run :: "int \<Rightarrow> string \<Rightarrow> int" where
  "digit_run n [] = n"
| "digit_run n (c # cs) =
     (if (48 :: int) \<le> of_char c \<and> of_char c \<le> (57 :: int) then digit_run (10 * n + (of_char c - 48 :: int)) cs else n)"

definition atoi :: "string \<Rightarrow> int" where
  "atoi s = (case dropWhile (\<lambda>c. of_char c \<in> {9, 10, 11, 12, 13, 32 :: int}) s of
     [] \<Rightarrow> 0
   | c # cs \<Rightarrow> if c = CHR ''-'' then - digit_run 0 cs else if c = CHR ''+'' then digit_run 0 cs else digit_run 0 (c # cs))"

text \<open>The variables that the options set; \<open>randomYield\<close> keeps the seed.  The reliability is a number of type \<open>'r\<close>.\<close>

record 'r options =
  debugArgs :: string
  randomYield :: "int option"
  debugUserProg :: bool
  formatDisk :: bool
  rely :: 'r
  netname :: int
  setNetname :: bool
  numServers :: int
  isServer :: bool

definition options0 :: "'r \<Rightarrow> 'r options" where
  "options0 one = \<lparr>debugArgs = '''', randomYield = None, debugUserProg = False, formatDisk = False, rely = one,
     netname = 0, setNetname = False, numServers = 0, isServer = False\<rparr>"

text \<open>The options of one argument \<open>a\<close>; \<open>rest\<close> are the arguments behind it.  The result has the new \<open>argCount\<close>.\<close>

definition debug_options :: "string \<Rightarrow> string list \<Rightarrow> 'r options \<Rightarrow> fault + 'r options \<times> nat" where
  "debug_options a rest opts =
     (if a = ''-d'' then
        Inr (if rest = [] then (opts\<lparr>debugArgs := ''+''\<rparr>, 1) else (opts\<lparr>debugArgs := hd rest\<rparr>, 2))
      else if a = ''-rs'' then
        bindE (assertE (rest \<noteq> [])) (\<lambda>_. Inr (opts\<lparr>randomYield := Some (atoi (hd rest))\<rparr>, 2))
      else Inr (opts, 1))"

definition network_options :: "(string \<Rightarrow> 'r) \<Rightarrow> string \<Rightarrow> string list \<Rightarrow> 'r options \<times> nat \<Rightarrow> fault + 'r options \<times> nat" where
  "network_options atof a rest r =
     (case r of (opts, n) \<Rightarrow>
      bindE (if a = ''-l'' then
               bindE (assertE (rest \<noteq> [])) (\<lambda>_. Inr (opts\<lparr>rely := atof (hd rest)\<rparr>, 2))
             else if a = ''-m'' then
               bindE (assertE (rest \<noteq> [])) (\<lambda>_. Inr (opts\<lparr>netname := atoi (hd rest), setNetname := True\<rparr>, 2))
             else Inr (opts, n)) (\<lambda>(opts, n).
      bindE (if a = ''-nS'' then
               bindE (assertE (rest \<noteq> [])) (\<lambda>_.
               bindE (assertE (atoi (hd rest) > 0)) (\<lambda>_.
               bindE (assertE (atoi (hd rest) < 6)) (\<lambda>_. Inr (opts\<lparr>numServers := atoi (hd rest)\<rparr>, n))))
             else Inr (opts, n)) (\<lambda>(opts, n).
      Inr (if a = ''-SERVER'' then opts\<lparr>isServer := True\<rparr> else opts, n))))"

definition one_option :: "build \<Rightarrow> (string \<Rightarrow> 'r) \<Rightarrow> string \<Rightarrow> string list \<Rightarrow> 'r options \<Rightarrow> fault + 'r options \<times> nat" where
  "one_option b atof a rest opts =
     bindE (debug_options a rest opts) (\<lambda>(opts, n).
     let opts = (if a = ''-s'' then opts\<lparr>debugUserProg := True\<rparr> else opts);
         opts = (if a = ''-f'' then opts\<lparr>formatDisk := True\<rparr> else opts) in
     if NETWORK b then network_options atof a rest (opts, n) else Inr (opts, n))"

function all_options :: "build \<Rightarrow> (string \<Rightarrow> 'r) \<Rightarrow> string list \<Rightarrow> 'r options \<Rightarrow> fault + 'r options" where
  "all_options b atof [] opts = Inr opts"
| "all_options b atof (a # rest) opts =
     bindE (one_option b atof a rest opts) (\<lambda>(opts, n). all_options b atof (drop (n - 1) rest) opts)"
  by pat_completeness auto
termination
  by (relation "measure (\<lambda>(b, atof, args, opts). length args)") auto

section \<open>The global objects\<close>

text \<open>Memory as the allocations of \<open>Initialize\<close> find it, and the answers of Unix for the swap file.\<close>

record boot_mem =
  tlbMem :: "TranslationEntry list"
  iptMem :: "IPTTranslationEntry list"
  mapMem :: "32 word list"
  pageMapMem :: "32 word list"
  swapMem :: "int \<Rightarrow> int \<Rightarrow> int"
  fsMem :: fsmem
  diskSectors :: sectors
  officeMem :: "byte list"
  unixCreates :: bool
  unixOpens :: bool

text \<open>The thread \<open>m\<close> that Unix started; \<open>Enable\<close> has switched the interrupts on.\<close>

definition boot_threads :: "tid \<Rightarrow> sys" where
  "boot_threads m = \<lparr>threads = {m}, currentThread = m, readyList = [],
     status = (\<lambda>t. if t = m then RUNNING else JUST_CREATED), frames = (\<lambda>_. []), fence_ok = (\<lambda>_. True),
     level = IntOn, threadToBeDestroyed = None, idling = False,
     sems = (\<lambda>_. Semaphore_new 0), locks = (\<lambda>_. Lock_new), conds = (\<lambda>_. Condition_new)\<rparr>"

text \<open>The loop over the TLB, which is a null pointer in a build without \<open>USE_TLB\<close>.\<close>

definition clear_tlb :: "build \<Rightarrow> TranslationEntry list \<Rightarrow> fault + TranslationEntry list" where
  "clear_tlb b t = (if USE_TLB b then Inr (map (\<lambda>e. e\<lparr>virtualPage := 0, physicalPage := 0, valid := False\<rparr>) t)
     else Inl NullPointer)"

definition no_paging :: "boot_mem \<Rightarrow> vm" where
  "no_paging g = \<lparr>mainMemory = [], tlb = tlbMem g, ipt = [], iptQueue = [], swapFile = [],
     swapFileMap = \<lparr>numBits = 0, numWords = 0, bmap = []\<rparr>, swapArray = swapMem g, pageLocation = \<lambda>_ _. 0, nextTLB = 0,
     pageTables = \<lambda>_. [], executables = \<lambda>_. []\<rparr>"

definition boot_machine :: "build \<Rightarrow> boot_mem \<Rightarrow> fault + machine" where
  "boot_machine b g =
     (let m = Machine_new (no_paging g) in
      bindE (BitMap_new (pageMapMem g) (int NumPhysPages)) (\<lambda>pageMap.
      bindE (clear_tlb b (tlb (memory m))) (\<lambda>t. Inr (m\<lparr>memory := (memory m)\<lparr>tlb := t\<rparr>\<rparr>))))"

definition boot_paging :: "boot_mem \<Rightarrow> vm \<Rightarrow> fault + vm" where
  "boot_paging g v =
     bindE (BitMap_new (mapMem g) NumSwapPages) (\<lambda>m.
     Inr (v\<lparr>ipt := IPT_new (iptMem g), iptQueue := [], swapFileMap := m, nextTLB := 0, swapArray := swapMem g,
            pageLocation := \<lambda>_ _. 0\<rparr>))"

definition boot_filesys :: "build \<Rightarrow> boot_mem \<Rightarrow> bool \<Rightarrow> fault + filesys option" where
  "boot_filesys b g fmt =
     (if FILESYS b then
        bindE (if fmt then FileSystem_format (fsMem g) (diskSectors g) else FileSystem_open (diskSectors g)) (\<lambda>fs. Inr (Some fs))
      else Inr None)"

definition swap_name :: "byte list" where
  "swap_name = map (\<lambda>c. word_of_int (of_char c)) ''swap_file''"

text \<open>Without \<open>FILESYS\<close> the file system is that of Unix, which takes no size.\<close>

definition create_swap :: "boot_mem \<Rightarrow> filesys option \<Rightarrow> fault + filesys option" where
  "create_swap g fso =
     (case fso of
        None \<Rightarrow> bindE (assertE (unixCreates g)) (\<lambda>_. bindE (assertE (unixOpens g)) (\<lambda>_. Inr None))
      | Some fs \<Rightarrow>
          bindE (FileSystem_Create (fsMem g) swap_name (int PageSize * NumSwapPages) fs) (\<lambda>(success, fs).
          bindE (assertE success) (\<lambda>_.
          bindE (FileSystem_Open (fsMem g) swap_name fs) (\<lambda>f.
          bindE (assertE (f \<noteq> None)) (\<lambda>_. Inr (Some fs))))))"

text \<open>
  With \<open>NETWORK\<close> the constructor of the post office forks the postal worker.  A server then forks its
  thread and stays in \<open>MessageHandler\<close>; the others return to \<open>main\<close>.
\<close>

definition boot_sys :: "build \<Rightarrow> tid \<Rightarrow> tid \<Rightarrow> sys" where
  "boot_sys b m worker =
     (if NETWORK b then Thread_Fork worker (Thread_new worker (boot_threads m)) else boot_threads m)"

definition boot_office :: "build \<Rightarrow> boot_mem \<Rightarrow> 'r options \<Rightarrow> post option" where
  "boot_office b g opts = (if NETWORK b then Some (PostOffice_new (netname opts) 10 (officeMem g)) else None)"

datatype 'r booted =
    Serving "'r options" sys "post option"
  | Ready "'r options" sys "post option" machine "filesys option"

definition Initialize ::
  "build \<Rightarrow> boot_mem \<Rightarrow> (string \<Rightarrow> 'r) \<Rightarrow> 'r \<Rightarrow> tid \<Rightarrow> tid \<Rightarrow> tid \<Rightarrow> string list \<Rightarrow> fault + 'r booted"
where
  "Initialize b g atof one m worker server args =
     bindE (all_options b atof args (options0 one)) (\<lambda>opts.
     bindE (boot_machine b g) (\<lambda>mach.
     bindE (boot_filesys b g (formatDisk opts)) (\<lambda>fso.
     let s = boot_sys b m worker; po = boot_office b g opts in
     if NETWORK b \<and> isServer opts \<and> setNetname opts then Inr (Serving opts (Thread_Fork server (Thread_new server s)) po)
     else
       bindE (boot_paging g (memory mach)) (\<lambda>v.
       bindE (create_swap g fso) (\<lambda>fso.
       Inr (Ready opts s po (mach\<lparr>memory := v\<rparr>) fso))))))"

section \<open>The commands of main\<close>

text \<open>
  The commands in the order in which \<open>main\<close> performs them.  \<open>StartProcess\<close> returns only when there is
  no such file (\<open>opens\<close>); \<open>ConsoleTest\<close> and \<open>MailTest\<close> end with a halt.  The policy of page replacement is
  what it was set to when the program is started, at first the zero of its type.
\<close>

datatype command =
    CmdCopyright
  | CmdStartProcess string PageReplacementPolicy
  | CmdConsoleTest "(string \<times> string) option"
  | CmdCopy string string
  | CmdPrint string
  | CmdRemove string
  | CmdList
  | CmdPrintAll
  | CmdPerformanceTest
  | CmdMailTest int

record main_state =
  policy :: PageReplacementPolicy
  commands :: "command list"
  PRPChosen :: bool
  argCount :: nat
  going :: bool

definition main_general :: "string \<Rightarrow> string list \<Rightarrow> main_state \<Rightarrow> fault + main_state" where
  "main_general a rest s =
     (let s = (if a = ''-z'' then s\<lparr>commands := commands s @ [CmdCopyright]\<rparr> else s) in
      if a = ''-P'' then
        bindE (assertE (rest \<noteq> [])) (\<lambda>_.
        Inr (if hd rest = ''FIFO'' then s\<lparr>policy := FIFO, PRPChosen := True\<rparr>
             else if hd rest = ''RAND'' then s\<lparr>policy := RAND, PRPChosen := True\<rparr> else s))
      else Inr s)"

definition main_user :: "(string \<Rightarrow> bool) \<Rightarrow> string \<Rightarrow> string list \<Rightarrow> main_state \<Rightarrow> fault + main_state" where
  "main_user opens a rest s =
     (if a = ''-x'' then
        bindE (assertE (rest \<noteq> [])) (\<lambda>_.
        Inr (s\<lparr>commands := commands s @ [CmdStartProcess (hd rest) (policy s)], argCount := 2,
               going := \<not> opens (hd rest)\<rparr>))
      else if a = ''-c'' then
        if rest = [] then Inr (s\<lparr>commands := commands s @ [CmdConsoleTest None], going := False\<rparr>)
        else bindE (assertE (2 \<le> length rest)) (\<lambda>_.
          Inr (s\<lparr>commands := commands s @ [CmdConsoleTest (Some (rest ! 0, rest ! 1))], argCount := 3, going := False\<rparr>))
      else Inr s)"

definition main_files :: "string \<Rightarrow> string list \<Rightarrow> main_state \<Rightarrow> fault + main_state" where
  "main_files a rest s =
     (if a = ''-cp'' then
        bindE (assertE (2 \<le> length rest)) (\<lambda>_.
        Inr (s\<lparr>commands := commands s @ [CmdCopy (rest ! 0) (rest ! 1)], argCount := 3\<rparr>))
      else if a = ''-p'' then
        bindE (assertE (rest \<noteq> [])) (\<lambda>_. Inr (s\<lparr>commands := commands s @ [CmdPrint (hd rest)], argCount := 2\<rparr>))
      else if a = ''-r'' then
        bindE (assertE (rest \<noteq> [])) (\<lambda>_. Inr (s\<lparr>commands := commands s @ [CmdRemove (hd rest)], argCount := 2\<rparr>))
      else if a = ''-l'' then Inr (s\<lparr>commands := commands s @ [CmdList]\<rparr>)
      else if a = ''-D'' then Inr (s\<lparr>commands := commands s @ [CmdPrintAll]\<rparr>)
      else if a = ''-t'' then Inr (s\<lparr>commands := commands s @ [CmdPerformanceTest]\<rparr>)
      else Inr s)"

definition main_network :: "string \<Rightarrow> string list \<Rightarrow> main_state \<Rightarrow> fault + main_state" where
  "main_network a rest s =
     (if a = ''-o'' then
        bindE (assertE (rest \<noteq> [])) (\<lambda>_.
        Inr (s\<lparr>commands := commands s @ [CmdMailTest (atoi (hd rest))], argCount := 2, going := False\<rparr>))
      else Inr s)"

text \<open>One round of the loop; a command that does not return ends it.\<close>

definition main_round :: "build \<Rightarrow> (string \<Rightarrow> bool) \<Rightarrow> string \<Rightarrow> string list \<Rightarrow> main_state \<Rightarrow> fault + main_state" where
  "main_round b opens a rest s =
     bindE (main_general a rest (s\<lparr>argCount := 1\<rparr>)) (\<lambda>s.
     bindE (main_user opens a rest s) (\<lambda>s.
     bindE (if FILESYS b \<and> going s then main_files a rest s else Inr s) (\<lambda>s.
     if NETWORK b \<and> going s then main_network a rest s else Inr s)))"

function main_loop :: "build \<Rightarrow> (string \<Rightarrow> bool) \<Rightarrow> string list \<Rightarrow> main_state \<Rightarrow> fault + main_state" where
  "main_loop b opens [] s = Inr s"
| "main_loop b opens (a # rest) s =
     bindE (main_round b opens a rest s) (\<lambda>s.
     if going s then main_loop b opens (drop (argCount s - 1) rest) s else Inr s)"
  by pat_completeness auto
termination
  by (relation "measure (\<lambda>(b, opens, args, s). length args)") auto

text \<open>
  The whole of \<open>main\<close>: a server never returns from \<open>Initialize\<close>; otherwise the commands are performed,
  and behind the last one the thread finishes.
\<close>

definition main_start :: main_state where
  "main_start = \<lparr>policy = FIFO, commands = [], PRPChosen = False, argCount = 1, going = True\<rparr>"

definition main_default :: "main_state \<Rightarrow> main_state" where
  "main_default s = (if going s \<and> \<not> PRPChosen s then s\<lparr>policy := FIFO, PRPChosen := True\<rparr> else s)"

datatype 'r outcome =
    Served "'r options" sys "post option"
  | Ran "'r options" sys "post option" machine main_state

definition nachos_main ::
  "build \<Rightarrow> boot_mem \<Rightarrow> (string \<Rightarrow> 'r) \<Rightarrow> 'r \<Rightarrow> tid \<Rightarrow> tid \<Rightarrow> tid \<Rightarrow> (string \<Rightarrow> bool) \<Rightarrow> string list \<Rightarrow> fault + 'r outcome"
where
  "nachos_main b g atof one m worker server opens args =
     bindE (Initialize b g atof one m worker server args) (\<lambda>r. case r of
       Serving opts s po \<Rightarrow> Inr (Served opts s po)
     | Ready opts s po mach fso \<Rightarrow>
         bindE (main_loop b opens args main_start) (\<lambda>ms. Inr (Ran opts s po mach (main_default ms))))"

section \<open>The threads at the start\<close>

lemma boot_threads_init: "sys_init (boot_threads m)"
  by (simp add: sys_init_def boot_threads_def Semaphore_new_def)

lemma boot_threads_current [simp]: "currentThread (boot_threads m) = m"
  by (simp add: boot_threads_def)

lemma reach_fork:
  assumes "reach s" "\<not> idling s" "frames s (currentThread s) = []" "t \<notin> threads s"
  shows "reach (Thread_Fork t (Thread_new t s))"
proof -
  have "step (Some (DoFork t)) s (Thread_Fork t (Thread_new t s))"
    using assms(2-4) by (intro step_op) auto
  with assms(1) show ?thesis by (rule reach_step)
qed

lemma forked_facts:
  assumes "t \<noteq> currentThread s"
  shows "currentThread (Thread_Fork t (Thread_new t s)) = currentThread s"
    "idling (Thread_Fork t (Thread_new t s)) = idling s"
    "threads (Thread_Fork t (Thread_new t s)) = insert t (threads s)"
    "frames (Thread_Fork t (Thread_new t s)) (currentThread s) = frames s (currentThread s)"
  using assms by (simp_all add: Thread_Fork_def Thread_new_def ReadyToRun_def Let_def)

lemma boot_sys_facts:
  assumes "worker \<noteq> m"
  shows "reach (boot_sys b m worker)" "currentThread (boot_sys b m worker) = m" "\<not> idling (boot_sys b m worker)"
    "frames (boot_sys b m worker) m = []" "threads (boot_sys b m worker) = (if NETWORK b then {m, worker} else {m})"
proof -
  note i = reach_init [OF boot_threads_init [of m]] and f = forked_facts [of worker "boot_threads m"]
  have j: "\<not> idling (boot_threads m)" "frames (boot_threads m) m = []" "threads (boot_threads m) = {m}"
    by (simp_all add: boot_threads_def)
  show "reach (boot_sys b m worker)" using reach_fork [OF i] i j assms by (auto simp: boot_sys_def)
  show "currentThread (boot_sys b m worker) = m" "\<not> idling (boot_sys b m worker)"
    "frames (boot_sys b m worker) m = []" "threads (boot_sys b m worker) = (if NETWORK b then {m, worker} else {m})"
    using f j assms by (auto simp: boot_sys_def)
qed

lemma server_start:
  assumes "distinct [m, worker, server]"
  shows "reach (Thread_Fork server (Thread_new server (boot_sys b m worker)))"
  using assms boot_sys_facts [of worker m b] by (intro reach_fork) auto

section \<open>The memory at the start\<close>

definition boot_ok :: "boot_mem \<Rightarrow> bool" where
  "boot_ok g \<longleftrightarrow> length (tlbMem g) = 4 \<and> 32 \<le> length (iptMem g) \<and> 313 \<le> length (mapMem g) \<and> pageMapMem g \<noteq> []"

text \<open>Nothing is resident, cached or swapped out.\<close>

definition empty_vm :: "vm \<Rightarrow> bool" where
  "empty_vm v \<longleftrightarrow> (\<forall>p n. frame_of v p n = None) \<and> (\<forall>e\<in>set (tlb v). \<not> valid e) \<and> bm_set (swapFileMap v) = {} \<and>
     swapFile v = [] \<and> iptQueue v = [] \<and> (\<forall>p n. pageLocation v p n = 0)"

lemma IPT_new_facts:
  assumes "32 \<le> length t"
  shows "length (IPT_new t) = 32" "i < 32 \<Longrightarrow> \<not> valid (IPT_new t ! i)"
  using assms by (simp_all add: IPT_new_def NumPhysPages_def)

lemma boot_machine_ok:
  assumes "boot_ok g" "USE_TLB b"
  shows "\<exists>mach. boot_machine b g = Inr mach \<and> registers mach = replicate NumTotalRegs 0 \<and>
    length (mainMemory (memory mach)) = 4096 \<and> length (tlb (memory mach)) = 4 \<and> (\<forall>e\<in>set (tlb (memory mach)). \<not> valid e) \<and>
    swapFile (memory mach) = []"
proof -
  have "nat (divRoundUp (int NumPhysPages) 32) \<le> length (pageMapMem g)"
    using assms(1) by (cases "pageMapMem g") (auto simp: boot_ok_def divRoundUp_def NumPhysPages_def)
  from BitMap_new_refines [OF _ this] obtain pm where "BitMap_new (pageMapMem g) (int NumPhysPages) = Inr pm" by auto
  with assms show ?thesis
    by (auto simp: boot_machine_def clear_tlb_def Machine_new_def no_paging_def boot_ok_def Let_def NumPhysPages_def PageSize_def)
qed

lemma boot_machine_null:
  assumes "boot_ok g" "\<not> USE_TLB b"
  shows "boot_machine b g = Inl NullPointer"
proof -
  have "nat (divRoundUp (int NumPhysPages) 32) \<le> length (pageMapMem g)"
    using assms(1) by (cases "pageMapMem g") (auto simp: boot_ok_def divRoundUp_def NumPhysPages_def)
  from BitMap_new_refines [OF _ this] obtain pm where "BitMap_new (pageMapMem g) (int NumPhysPages) = Inr pm" by auto
  with assms show ?thesis by (simp add: boot_machine_def clear_tlb_def Let_def)
qed

lemma boot_paging_ok:
  assumes g: "boot_ok g" and v: "length (mainMemory v) = 4096" "length (tlb v) = 4" "\<forall>e\<in>set (tlb v). \<not> valid e" "swapFile v = []"
  shows "\<exists>v'. boot_paging g v = Inr v' \<and> vm_inv p v' \<and> fifo_ok v' \<and> empty_vm v'"
proof -
  have "nat (divRoundUp NumSwapPages 32) \<le> length (mapMem g)"
    using g by (simp add: boot_ok_def divRoundUp_def NumSwapPages_def)
  from BitMap_new_refines [OF _ this] obtain sm where sm: "BitMap_new (mapMem g) NumSwapPages = Inr sm" "bm_inv sm" "bm_set sm = {}"
    by (auto simp: NumSwapPages_def)
  have l: "32 \<le> length (iptMem g)" using g by (simp add: boot_ok_def)
  note t = IPT_new_facts [OF l]
  let ?v = "v\<lparr>ipt := IPT_new (iptMem g), iptQueue := [], swapFileMap := sm, nextTLB := 0, swapArray := swapMem g,
              pageLocation := \<lambda>_ _. 0\<rparr>"
  have k: "k < 4 \<Longrightarrow> \<not> valid (tlb v ! k)" for k using v(2,3) by (metis nth_mem)
  have fr: "frame_of ?v q n = None" for q n
    by (auto simp: frame_of_def first_from_None NumPhysPages_def t)
  have "vm_inv p ?v"
    using v(1,2) t sm k
    by (simp add: vm_inv_def vm_sizes_def ipt_ok_def tlb_ok_def swap_ok_def clean_ok_def swapped_def)
  moreover have "fifo_ok ?v" using t by (auto simp: fifo_ok_def)
  moreover have "empty_vm ?v" using v(3,4) sm(3) fr by (simp add: empty_vm_def)
  ultimately show ?thesis using sm(1) by (simp add: boot_paging_def)
qed

section \<open>The files at the start\<close>

text \<open>The disk is to be formatted, or has a consistent file system.\<close>

definition boot_disk_ok :: "build \<Rightarrow> boot_mem \<Rightarrow> bool \<Rightarrow> bool" where
  "boot_disk_ok b g fmt \<longleftrightarrow> (FILESYS b \<longrightarrow> fsmem_ok (fsMem g) \<and>
     (if fmt then disk_ok (diskSectors g) else (\<exists>fs. FileSystem_open (diskSectors g) = Inr fs \<and> fs_inv fs)))"

lemma boot_filesys_ok:
  assumes "boot_disk_ok b g fmt"
  shows "\<exists>fso. boot_filesys b g fmt = Inr fso \<and> (fso = None \<longleftrightarrow> \<not> FILESYS b) \<and>
    (\<forall>fs. fso = Some fs \<longrightarrow> fs_inv fs \<and> fsmem_ok (fsMem g))"
proof (cases "FILESYS b")
  case True
  with assms have g: "fsmem_ok (fsMem g)" by (simp add: boot_disk_ok_def)
  have "\<exists>fs. (if fmt then FileSystem_format (fsMem g) (diskSectors g) else FileSystem_open (diskSectors g)) = Inr fs \<and> fs_inv fs"
    using assms True format_done [OF g, of "diskSectors g"] by (auto simp: boot_disk_ok_def split: if_splits)
  then show ?thesis using True g by (auto simp: boot_filesys_def)
qed (simp add: boot_filesys_def)

text \<open>The swap file has 10000 sectors and the disk 1024.\<close>

lemma swap_too_large: "\<not> can_create nm (int PageSize * NumSwapPages) fs"
  by (simp add: can_create_def free_sectors_def divRoundUp_def PageSize_def NumSwapPages_def)

lemma create_swap_outcome:
  assumes "fso = None \<longleftrightarrow> \<not> FILESYS b" "\<forall>fs. fso = Some fs \<longrightarrow> fs_inv fs \<and> fsmem_ok (fsMem g)"
  shows "create_swap g fso = (if FILESYS b \<or> \<not> unixCreates g \<or> \<not> unixOpens g then Inl AssertFailed else Inr None)"
proof (cases fso)
  case None
  then show ?thesis using assms(1) by (simp add: create_swap_def assertE_def)
next
  case (Some fs)
  then have "FileSystem_Create (fsMem g) swap_name (int PageSize * NumSwapPages) fs = Inr (False, fs)"
    using assms(2) swap_too_large by (intro Create_refused) (auto simp: NumSwapPages_def)
  then show ?thesis using Some assms(1) by (simp add: create_swap_def assertE_def)
qed

section \<open>The program that is started\<close>

text \<open>The last \<open>-P\<close> with the name of a policy decides.\<close>

fun chosen_policy :: "string list \<Rightarrow> PageReplacementPolicy \<Rightarrow> PageReplacementPolicy" where
  "chosen_policy (a # c # rest) p = chosen_policy (c # rest)
     (if a = ''-P'' \<and> c = ''FIFO'' then FIFO else if a = ''-P'' \<and> c = ''RAND'' then RAND else p)"
| "chosen_policy _ p = p"

lemma plain_round:
  assumes "\<not> FILESYS b" "a \<notin> {''-x'', ''-c'', ''-o''}" "going s" "rest \<noteq> []"
  shows "\<exists>s'. main_round b opens a rest s = Inr s' \<and> going s' \<and> argCount s' = 1 \<and>
    commands s' = commands s @ (if a = ''-z'' then [CmdCopyright] else []) \<and>
    policy s' = (if a = ''-P'' \<and> hd rest = ''FIFO'' then FIFO else if a = ''-P'' \<and> hd rest = ''RAND'' then RAND else policy s)"
  using assms by (simp add: main_round_def main_general_def main_user_def main_network_def assertE_def Let_def)

lemma start_round:
  assumes "opens f"
  shows "main_round b opens ''-x'' (f # post) s =
    Inr (s\<lparr>commands := commands s @ [CmdStartProcess f (policy s)], argCount := 2, going := False\<rparr>)"
  using assms by (simp add: main_round_def main_general_def main_user_def assertE_def Let_def)

lemma main_loop_starts:
  assumes "\<not> FILESYS b" "set pre \<inter> {''-x'', ''-c'', ''-o''} = {}" "opens f" "going s"
  shows "\<exists>s'. main_loop b opens (pre @ ''-x'' # f # post) s = Inr s' \<and> \<not> going s' \<and>
    commands s' = commands s @ map (\<lambda>_. CmdCopyright) (filter (\<lambda>a. a = ''-z'') pre) @
      [CmdStartProcess f (chosen_policy pre (policy s))]"
  using assms(2,4)
proof (induction pre arbitrary: s)
  case Nil
  then show ?case by (simp add: start_round [where opens = opens, OF assms(3)])
next
  case (Cons a pre)
  from plain_round [OF assms(1), of a s "pre @ ''-x'' # f # post" opens] Cons.prems obtain s1 where
    s1: "main_round b opens a (pre @ ''-x'' # f # post) s = Inr s1" "going s1" "argCount s1 = 1"
      "commands s1 = commands s @ (if a = ''-z'' then [CmdCopyright] else [])"
      "policy s1 = (if a = ''-P'' \<and> hd (pre @ ''-x'' # f # post) = ''FIFO'' then FIFO
         else if a = ''-P'' \<and> hd (pre @ ''-x'' # f # post) = ''RAND'' then RAND else policy s)"
    by auto
  have "chosen_policy pre (policy s1) = chosen_policy (a # pre) (policy s)"
    using s1(5) by (cases pre) auto
  moreover from Cons.IH [OF _ s1(2)] Cons.prems(1) obtain s2 where
    "main_loop b opens (pre @ ''-x'' # f # post) s1 = Inr s2" "\<not> going s2"
    "commands s2 = commands s1 @ map (\<lambda>_. CmdCopyright) (filter (\<lambda>a. a = ''-z'') pre) @
      [CmdStartProcess f (chosen_policy pre (policy s1))]" by auto
  ultimately show ?case using s1(1-4) by simp
qed

section \<open>What a start of the kernel comes to\<close>

lemma Initialize_null:
  assumes "all_options b atof args (options0 one) = Inr opts" "boot_ok g" "\<not> USE_TLB b"
  shows "Initialize b g atof one m worker server args = Inl NullPointer"
  using assms boot_machine_null [OF assms(2,3)] by (simp add: Initialize_def)

lemma Initialize_outcome:
  assumes o: "all_options b atof args (options0 one) = Inr opts" and g: "boot_ok g" and b: "USE_TLB b"
    and d: "boot_disk_ok b g (formatDisk opts)"
  shows "\<exists>mach. length (registers mach) = 40 \<and> (\<forall>r\<in>set (registers mach). r = 0) \<and>
    vm_inv p (memory mach) \<and> fifo_ok (memory mach) \<and> empty_vm (memory mach) \<and>
    Initialize b g atof one m worker server args =
     (if NETWORK b \<and> isServer opts \<and> setNetname opts
      then Inr (Serving opts (Thread_Fork server (Thread_new server (boot_sys b m worker))) (boot_office b g opts))
      else if FILESYS b \<or> \<not> unixCreates g \<or> \<not> unixOpens g then Inl AssertFailed
      else Inr (Ready opts (boot_sys b m worker) (boot_office b g opts) mach None))"
proof -
  from boot_machine_ok [OF g b] obtain m0 where m0: "boot_machine b g = Inr m0" "registers m0 = replicate NumTotalRegs 0"
    "length (mainMemory (memory m0)) = 4096" "length (tlb (memory m0)) = 4" "\<forall>e\<in>set (tlb (memory m0)). \<not> valid e"
    "swapFile (memory m0) = []" by blast
  from boot_paging_ok [OF g m0(3-6)] obtain v where v: "boot_paging g (memory m0) = Inr v" "vm_inv p v" "fifo_ok v" "empty_vm v"
    by blast
  from boot_filesys_ok [OF d] obtain fso where f: "boot_filesys b g (formatDisk opts) = Inr fso"
    "fso = None \<longleftrightarrow> \<not> FILESYS b" "\<forall>fs. fso = Some fs \<longrightarrow> fs_inv fs \<and> fsmem_ok (fsMem g)" by blast
  note create_swap_outcome [OF f(2,3)]
  then have "Initialize b g atof one m worker server args =
     (if NETWORK b \<and> isServer opts \<and> setNetname opts
      then Inr (Serving opts (Thread_Fork server (Thread_new server (boot_sys b m worker))) (boot_office b g opts))
      else if FILESYS b \<or> \<not> unixCreates g \<or> \<not> unixOpens g then Inl AssertFailed
      else Inr (Ready opts (boot_sys b m worker) (boot_office b g opts) (m0\<lparr>memory := v\<rparr>) None))"
    using o m0(1) v(1) f(1) by (simp add: Initialize_def Let_def)
  then show ?thesis using v m0(2)
    by (intro exI [of _ "m0\<lparr>memory := v\<rparr>"]) (simp add: NumTotalRegs_def)
qed

text \<open>
  C33 What a command line that names a program comes to, for every build.  Without \<open>USE_TLB\<close> the
  machine is never made; a server stays in its message loop; with the file system of Nachos the swap file
  does not fit the disk; otherwise the program is started under the policy of the last \<open>-P\<close> in front of it,
  with memory, page tables and swap map empty and consistent, and the threads are a state that the model of
  the kernel reaches.
\<close>

theorem nachos_starts:
  assumes "all_options b atof (pre @ ''-x'' # f # post) (options0 one) = Inr opts" "boot_ok g"
    and "boot_disk_ok b g (formatDisk opts)" "distinct [m, worker, server]"
    and "set pre \<inter> {''-x'', ''-c'', ''-o''} = {}" "opens f"
  shows "let r = nachos_main b g atof one m worker server opens (pre @ ''-x'' # f # post);
      po = (if NETWORK b then Some (PostOffice_new (netname opts) 10 (officeMem g)) else None) in
    if \<not> USE_TLB b then r = Inl NullPointer
    else if NETWORK b \<and> isServer opts \<and> setNetname opts then
      \<exists>s. r = Inr (Served opts s po) \<and> reach s \<and> currentThread s = m \<and> threads s = {m, worker, server}
    else if FILESYS b \<or> \<not> unixCreates g \<or> \<not> unixOpens g then r = Inl AssertFailed
    else \<exists>s mach ms. r = Inr (Ran opts s po mach ms) \<and>
      reach s \<and> currentThread s = m \<and> threads s = (if NETWORK b then {m, worker} else {m}) \<and>
      length (registers mach) = 40 \<and> vm_inv p (memory mach) \<and> fifo_ok (memory mach) \<and> empty_vm (memory mach) \<and>
      last (commands ms) = CmdStartProcess f (chosen_policy pre FIFO) \<and> set (butlast (commands ms)) \<subseteq> {CmdCopyright}"
proof (cases "USE_TLB b")
  case False
  then show ?thesis using Initialize_null [OF assms(1,2)] by (simp add: nachos_main_def Let_def)
next
  case True
  have wm: "worker \<noteq> m" "server \<noteq> currentThread (boot_sys b m worker)"
    using assms(4) boot_sys_facts(2) [of worker m b] by auto
  note start = boot_sys_facts [OF wm(1), of b]
  from Initialize_outcome [OF assms(1,2) True assms(3), of p m worker server] obtain mach where
    mach: "length (registers mach) = 40" "vm_inv p (memory mach)" "fifo_ok (memory mach)" "empty_vm (memory mach)"
    and i: "Initialize b g atof one m worker server (pre @ ''-x'' # f # post) =
     (if NETWORK b \<and> isServer opts \<and> setNetname opts
      then Inr (Serving opts (Thread_Fork server (Thread_new server (boot_sys b m worker))) (boot_office b g opts))
      else if FILESYS b \<or> \<not> unixCreates g \<or> \<not> unixOpens g then Inl AssertFailed
      else Inr (Ready opts (boot_sys b m worker) (boot_office b g opts) mach None))" by blast
  consider "NETWORK b \<and> isServer opts \<and> setNetname opts"
    | "\<not> (NETWORK b \<and> isServer opts \<and> setNetname opts)" "FILESYS b \<or> \<not> unixCreates g \<or> \<not> unixOpens g"
    | "\<not> (NETWORK b \<and> isServer opts \<and> setNetname opts)" "\<not> (FILESYS b \<or> \<not> unixCreates g \<or> \<not> unixOpens g)" by blast
  then show ?thesis
  proof cases
    case 1
    then show ?thesis using True i server_start [OF assms(4), of b] start forked_facts [OF wm(2)]
      by (auto simp: nachos_main_def boot_office_def Let_def)
  next
    case 2
    then show ?thesis using True i by (auto simp: nachos_main_def Let_def)
  next
    case 3
    from main_loop_starts [where b = b and pre = pre and opens = opens and f = f and s = main_start and post = post] assms(5,6) 3(2)
    obtain ms where
      "main_loop b opens (pre @ ''-x'' # f # post) main_start = Inr ms" "\<not> going ms"
      "commands ms = map (\<lambda>_. CmdCopyright) (filter (\<lambda>a. a = ''-z'') pre) @ [CmdStartProcess f (chosen_policy pre FIFO)]"
      by (auto simp: main_start_def)
    then have "nachos_main b g atof one m worker server opens (pre @ ''-x'' # f # post) =
        Inr (Ran opts (boot_sys b m worker) (boot_office b g opts) mach ms)"
      "last (commands ms) = CmdStartProcess f (chosen_policy pre FIFO)" "set (butlast (commands ms)) \<subseteq> {CmdCopyright}"
      using i 3 by (auto simp: nachos_main_def main_default_def butlast_append)
    then show ?thesis using True 3 start mach by (auto simp: boot_office_def Let_def)
  qed
qed

text \<open>The build of network/Makefile as machine 3, with random replacement.\<close>

definition boot1 :: build where
  "boot1 = \<lparr>USE_TLB = True, FILESYS = False, NETWORK = True\<rparr>"

definition bootmem1 :: boot_mem where
  "bootmem1 = \<lparr>tlbMem = replicate 4 \<lparr>virtualPage = 5, physicalPage = 7, valid = True, readOnly = False, use = True, dirty = True\<rparr>,
     iptMem = replicate 32 \<lparr>virtualPage = 5, physicalPage = 7, valid = True, readOnly = False, use = True, dirty = True, processID = 3\<rparr>,
     mapMem = replicate 313 9, pageMapMem = [1], swapMem = \<lambda>_ _. 0, fsMem = mem0, diskSectors = blank, officeMem = [],
     unixCreates = True, unixOpens = True\<rparr>"

definition options1 :: "int options" where
  "options1 = (options0 1)\<lparr>netname := 3, setNetname := True\<rparr>"

lemma options1_read: "all_options boot1 (\<lambda>_. 0) ([''-m'', ''3'', ''-P'', ''RAND'', ''-z''] @ ''-x'' # ''prog'' # []) (options0 1) = Inr options1"
  by code_simp

lemma boot1_ok: "boot_ok bootmem1" "boot_disk_ok boot1 bootmem1 fmt"
  by (simp_all add: boot_ok_def bootmem1_def boot_disk_ok_def boot1_def)

lemma nachos_starts_witness:
  "\<exists>s mach ms. nachos_main boot1 bootmem1 (\<lambda>_. 0) 1 0 1 2 (\<lambda>f. f = ''prog'') [''-m'', ''3'', ''-P'', ''RAND'', ''-z'', ''-x'', ''prog''] =
      Inr (Ran options1 s (Some (PostOffice_new 3 10 [])) mach ms) \<and> reach s \<and> threads s = {0, 1} \<and>
      vm_inv 0 (memory mach) \<and> last (commands ms) = CmdStartProcess ''prog'' RAND"
  using nachos_starts [OF options1_read boot1_ok(1) boot1_ok(2), of 0 1 2 "\<lambda>f. f = ''prog''" 0]
  by (auto simp: boot1_def bootmem1_def options1_def options0_def Let_def)

end
