(* ===== verification/Spec2Isabelle.thy ===== *)
theory Spec2Isabelle
  imports Nachos_Prelude Nachos_Bytes Nachos_List Nachos_Bitmap Nachos_Table Nachos_Kernel Nachos_Synch Nachos_Message
    Nachos_Server Nachos_MsgHandler Nachos_VM Nachos_Paging Nachos_PageFault Nachos_Mips Nachos_Cpu
    Nachos_UserMemory Nachos_Syscalls Nachos_Effects Nachos_SyscallInv Nachos_Processes Nachos_Exit
    Nachos_Accounting Nachos_SyscallThms Nachos_Client Nachos_Cluster Nachos_Disk Nachos_OpenFile Nachos_Directory
    Nachos_FileSys Nachos_FileSysThms Nachos_FileTest Nachos_Post Nachos_Interrupt Nachos_Devices
    Nachos_FileCalls Nachos_Exceptions Nachos_FileInv Nachos_Holding Nachos_Programs
    Nachos_Runs Nachos_Museum Nachos_MuseumLocks Nachos_TestSuite Nachos_Spinning Nachos_LockUse Nachos_SynchList
    Nachos_Coff Nachos_Boot
begin

text \<open>
  \<^bold>\<open>Nachos: a verified model of the kernel, its simulated machine and its lock server\<close>

  The repository is a teaching operating system: a kernel in C++ (\<open>threads/\<close>, \<open>userprog/\<close>,
  \<open>filesys/\<close>, \<open>network/\<close>) that runs on a simulated machine (\<open>machine/\<close>: a MIPS processor with a
  TLB, a disk, a network card, a timer, a console) inside one Unix process.  Paths below are relative
  to \<open>src/nachos-csci402/code\<close>.  All definitions are executable functions over explicit states, in the
  order and with the guards of the code; the manifest maps each of them to its lines.

  \<^bold>\<open>How the parts work together.\<close>  The interrupt simulation advances a clock and calls the handlers of the
  devices; a handler wakes a thread through a semaphore or asks for a time slice.  Threads switch only
  inside the scheduler; locks, condition variables and semaphores are built on \<open>Sleep\<close> and
  \<open>ReadyToRun\<close> with the interrupts off.  User programs run on the MIPS simulator, whose memory accesses go
  through the TLB; a miss raises a page fault, which the kernel serves from the executable or the swap file.
  A system call is an exception as well: the dispatcher runs the call, writes its result to register 2 and
  advances the program counters.  Files are headers and sectors on the disk.  In the network build the
  calls for locks, condition variables and monitor variables are requests that go through the post office to
  server machines, which keep the objects and ask each other about objects of other servers.

  \<^bold>\<open>Conventions.\<close>  What may crash or stop the C++ program is a value of \<open>fault\<close> (\<open>Nachos_Prelude\<close>);
  operations return \<open>fault + 'a\<close> and are chained with \<open>bindE\<close>, so every assertion, null pointer, index
  outside an array and use of freed memory is a branch.  An \<open>int\<close> of the processor and of the bit maps is a
  \<open>32 word\<close>; counters of the kernel are \<open>int\<close> without bound where the code cannot reach the limit.  A function
  that may block is split where it blocks; what is left of it is data (\<open>frame\<close>, \<open>rest\<close> or code), and a step
  relation interleaves the pieces of all threads.  Console messages are left out.  Loops are recursions
  whose termination is proved; the ones that may not end use \<open>partial_function (option)\<close>
  (\<open>Condition_Broadcast\<close>) or are part of the step relations.

  \<^bold>\<open>Theories and code.\<close>

  \<^item> \<open>Nachos_Prelude\<close>, \<open>Nachos_Bytes\<close>: faults, arrays with bounds, little-endian words.
  \<^item> \<open>Nachos_List\<close> (\<open>threads/list.cc\<close>): list cells in a heap; each operation refines the one on sequences.
    The locale \<open>fifo\<close> is interpreted on sequences and on the pointers; the other theories use the sequences.
  \<^item> \<open>Nachos_Bitmap\<close> (\<open>userprog/bitmap.cc\<close>): words; the locale \<open>slot_alloc\<close> is the contract of an allocator
    of numbered slots, interpreted on the bit map and used for the table of open files.
  \<^item> \<open>Nachos_Table\<close> (\<open>userprog/table.h\<close>, class \<open>Table\<close> of \<open>userprog/addrspace.cc\<close>): the table of open files.
  \<^item> \<open>Nachos_Kernel\<close> (\<open>threads/scheduler.cc\<close>, \<open>threads/thread.cc\<close>): ready list, thread states, \<open>Run\<close>, \<open>Sleep\<close>,
    \<open>Yield\<close>, \<open>Finish\<close>, \<open>Fork\<close>; \<open>kernel_inv\<close> says that each live thread is at exactly one place.
  \<^item> \<open>Nachos_Synch\<close> (\<open>threads/synch.cc\<close>): semaphores, locks, condition variables; \<open>step\<close> interleaves all
    threads, time slices and device interrupts; \<open>reach\<close> are the reachable states, \<open>sync_inv\<close> their invariant.
    \<open>Nachos_Effects\<close> and \<open>Nachos_Holding\<close> say what each step leaves alone and which locks a thread holds.
  \<^item> \<open>Nachos_Programs\<close>: statements for functions of kernel threads, their interleaving \<open>wstep\<close>, a discipline
    of locks and its weakest preconditions \<open>wp\<close>, sound for every interleaving (\<open>wp_sound\<close>, \<open>winv_steps\<close>).
    \<open>Nachos_Runs\<close> computes one schedule, for witnesses.  \<open>Nachos_LockUse\<close>: who gains and who keeps a lock in a step.
  \<^item> \<open>Nachos_SynchList\<close> (\<open>threads/synchlist.cc\<close>): the synchronized list with any number of clients.
  \<^item> \<open>Nachos_Museum\<close>, \<open>Nachos_MuseumLocks\<close>, \<open>Nachos_Spinning\<close>, \<open>Nachos_TestSuite\<close> (\<open>threads/threadtest.cc\<close>):
    the parking simulation with its lock discipline, the driver that spins, and the test suite of the locks.
  \<^item> \<open>Nachos_Message\<close>, \<open>Nachos_Server\<close>, \<open>Nachos_MsgHandler\<close> (\<open>network/nettest.cc\<close>, message functions of
    \<open>threads/system.cc\<close>), \<open>Nachos_Client\<close> (\<open>NETWORK\<close> branches of \<open>userprog/exception.cc\<close>),
    \<open>Nachos_Cluster\<close>: wire format, the server's requests on its three tables, the questions between servers,
    the requests of clients, and clients, server and mails in flight together.
  \<^item> \<open>Nachos_VM\<close>, \<open>Nachos_Paging\<close>, \<open>Nachos_PageFault\<close> (\<open>threads/system.cc\<close>, \<open>userprog/addrspace.cc\<close>,
    \<open>HandlePageFault\<close> of \<open>userprog/exception.cc\<close>, \<open>machine/translate.cc\<close>): demand paging; the abstraction
    \<open>page_bytes\<close> gives the contents of every page of every process, wherever it is kept.
  \<^item> \<open>Nachos_Coff\<close> (\<open>bin/coff2noff.c\<close>): the tool that makes executables, and where a program ends up in memory.
  \<^item> \<open>Nachos_Boot\<close> (\<open>Initialize\<close> of \<open>threads/system.cc\<close>, \<open>threads/main.cc\<close>): the command line, the global
    objects, and what a start of each build comes to.
  \<^item> \<open>Nachos_Mips\<close>, \<open>Nachos_Cpu\<close> (\<open>machine/mipssim.cc\<close>, \<open>machine/machine.cc\<close>): decoding, every instruction, \<open>Mult\<close>.
  \<^item> \<open>Nachos_UserMemory\<close>, \<open>Nachos_Syscalls\<close>, \<open>Nachos_SyscallInv\<close>, \<open>Nachos_Processes\<close>, \<open>Nachos_Exit\<close>,
    \<open>Nachos_Accounting\<close>, \<open>Nachos_SyscallThms\<close> (\<open>userprog/exception.cc\<close>): \<open>copyin\<close> and \<open>copyout\<close>, the calls for
    locks, condition variables, threads and processes over the kernel's tables, and the counters of \<open>Exit\<close>.
  \<^item> \<open>Nachos_FileCalls\<close>, \<open>Nachos_FileInv\<close>: the calls for files.  \<open>Nachos_Exceptions\<close>: \<open>ExceptionHandler\<close>, the start
    of user threads, \<open>Machine::Run\<close>.
  \<^item> \<open>Nachos_Disk\<close> (\<open>machine/disk.cc\<close>, \<open>filesys/synchdisk.cc\<close>), \<open>Nachos_OpenFile\<close> (\<open>filesys/filehdr.cc\<close>,
    \<open>filesys/openfile.cc\<close>), \<open>Nachos_Directory\<close>, \<open>Nachos_FileSys\<close>, \<open>Nachos_FileSysThms\<close> (\<open>filesys/directory.cc\<close>,
    \<open>filesys/filesys.cc\<close>), \<open>Nachos_FileTest\<close> (\<open>filesys/fstest.cc\<close>): the file system down to its sectors.
  \<^item> \<open>Nachos_Interrupt\<close>, \<open>Nachos_Devices\<close> (\<open>machine/interrupt.cc\<close>, \<open>machine/timer.cc\<close>, \<open>machine/console.cc\<close>,
    handlers of the kernel): the locale \<open>device_handlers\<close> is what the simulation may expect of a handler,
    interpreted on the handlers of this system.
  \<^item> \<open>Nachos_Post\<close> (\<open>machine/network.cc\<close>, \<open>network/post.cc\<close>): packets, mailboxes, the postal worker.

  \<^bold>\<open>What the properties show.\<close>  For threads: queues and ownership stay consistent in every interleaving, no
  assertion fails, locks are handed over in order, and \<open>Broadcast\<close> ends exactly when its lock matches.
  For the system calls: they are sequences of those operations, the calls that can crash the kernel are
  characterised, and \<open>Exit\<close> halts the machine exactly at the end.  For the network: messages survive the wire
  format, mail arrives once and in order, the server keeps its tables and hands locks over in order, and
  at most one client thread holds a lock.  For memory: a page fault changes the contents of no page, what is
  stored is loaded, a program is loaded section by section, and the processor keeps its invariant.  For files:
  operations change exactly the file they name and keep the disk consistent, down to the sectors, whatever
  calls a program makes.  For the devices: a tick runs exactly the handlers that are due, and an idle machine
  makes progress.  For the start: which builds run a program at
  all, and in which state.  For the simulation of the museum: the locks protect the data in every interleaving.  Where
  the code departs from what it means to do, the property states what it does, and the manifest lists it
  as a finding.

  \<^bold>\<open>Bounds.\<close>  Decoding, instructions, handlers and system calls have no fuel.  \<open>Machine_Run\<close> never returns in
  the code; it takes the number of rounds, and what is stated of it holds for every number.  \<open>wrun\<close> takes the schedule.  The safety predicate \<open>safe\<close> of thread code counts statements and is used for every count.
  Sizes of arrays (50 or 5000 slots, 128-byte pages, 30 sectors of a header) are those of the code.

  \<^bold>\<open>Not modelled.\<close>  Unix below the simulator (\<open>machine/sysdep.cc\<close>: files, sockets, signals, random numbers
  are parameters), the assembler of the context switch (\<open>threads/switch.s\<close>; its effect is the step relation),
  debug and statistics output, the other tools in \<open>bin/\<close>, the C programs in \<open>test/\<close>, the draft
  \<open>threads/museum.cc\<close>, which is not valid C++ and in no build, and the C++ examples.  Page faults are
  served without interleaving (the code holds \<open>iptLock\<close>), and the interrupts of the disk are delivered while
  its only client waits.
\<close>

end
